(* ===== verification/Prelude.thy ===== *)
theory Prelude
  imports Main "HOL-Library.Word"
begin

text \<open>
  Shared vocabulary of the development: bytes and byte strings, the memory primitives of the C
  library that the sources use (\<open>memcpy\<close>, \<open>memmove\<close>, \<open>realloc\<close>), fixed-width little and big
  endian integers, the machine ranges of the C types, and the generic list, option and word
  lemmas that the component theories rely on.

  Memory is a list of bytes.  A fresh byte of \<open>zmalloc\<close> or \<open>zrealloc\<close> has no specified value:
  the operations that allocate take that value as the argument \<open>u\<close>, and the theorems hold for
  every \<open>u\<close>.
\<close>

named_theorems mem_simps \<open>lengths and reads of the memory primitives\<close>
named_theorems range_simps \<open>the numeric values of the C limits\<close>

type_synonym byte = "8 word"
type_synonym bytes = "8 word list"
type_synonym u16 = "16 word"
type_synonym u32 = "32 word"
type_synonym u64 = "64 word"

section \<open>The limits of the C integer types\<close>

definition INT16_MIN :: int where [range_simps]: "INT16_MIN = -32768"
definition INT16_MAX :: int where [range_simps]: "INT16_MAX = 32767"
definition INT32_MIN :: int where [range_simps]: "INT32_MIN = -2147483648"
definition INT32_MAX :: int where [range_simps]: "INT32_MAX = 2147483647"
definition LLONG_MIN :: int where [range_simps]: "LLONG_MIN = -9223372036854775808"
definition LLONG_MAX :: int where [range_simps]: "LLONG_MAX = 9223372036854775807"
definition ULLONG_MAX :: int where [range_simps]: "ULLONG_MAX = 18446744073709551615"

text \<open>Conversion of an integer to a signed or unsigned C type of \<open>w\<close> bits.\<close>

definition to_signed :: "nat \<Rightarrow> int \<Rightarrow> int" where
  "to_signed w i = (let r = i mod 2 ^ w in if 2 * r < 2 ^ w then r else r - 2 ^ w)"

definition to_unsigned :: "nat \<Rightarrow> int \<Rightarrow> int" where
  "to_unsigned w i = i mod 2 ^ w"

abbreviation in_int64 :: "int \<Rightarrow> bool" where
  "in_int64 i \<equiv> LLONG_MIN \<le> i \<and> i \<le> LLONG_MAX"

lemma to_signed_id:
  assumes "- (2 ^ w) \<le> 2 * i" and "2 * i < 2 ^ w"
  shows "to_signed w i = i"
proof (cases "0 \<le> i")
  case True
  then have "i mod 2 ^ w = i" using assms by (intro mod_pos_pos_trivial) auto
  then show ?thesis using assms by (simp add: to_signed_def Let_def)
next
  case False
  have "i mod 2 ^ w = (i + 2 ^ w) mod 2 ^ w" by simp
  also have "\<dots> = i + 2 ^ w" using False assms by (intro mod_pos_pos_trivial) auto
  finally show ?thesis using assms by (simp add: to_signed_def Let_def)
qed

lemma to_unsigned_id: "0 \<le> i \<Longrightarrow> i < 2 ^ w \<Longrightarrow> to_unsigned w i = i"
  by (simp add: to_unsigned_def)

lemma to_unsigned_range [simp]: "0 \<le> to_unsigned w i" "to_unsigned w i < 2 ^ w"
  by (simp_all add: to_unsigned_def)

lemma to_signed_range: "0 < w \<Longrightarrow> - (2 ^ w) \<le> 2 * to_signed w i \<and> 2 * to_signed w i < 2 ^ w"
proof -
  have "0 \<le> i mod 2 ^ w" "i mod 2 ^ w < 2 ^ w" by simp_all
  then show ?thesis unfolding to_signed_def Let_def by (simp split: if_split; linarith)
qed

text \<open>\<open>tolower\<close> in the C locale.\<close>

definition tolower :: "byte \<Rightarrow> byte" where
  "tolower c = (if 65 \<le> c \<and> c \<le> 90 then c + 32 else c)"

section \<open>Memory primitives\<close>

text \<open>\<open>memcpy(p + off, bs, |bs|)\<close>, \<open>memmove\<close> within one block, and \<open>zrealloc\<close>.\<close>

definition write_at :: "nat \<Rightarrow> 'a list \<Rightarrow> 'a list \<Rightarrow> 'a list" where
  "write_at off bs m = take off m @ bs @ drop (off + length bs) m"

definition read_at :: "nat \<Rightarrow> nat \<Rightarrow> 'a list \<Rightarrow> 'a list" where
  "read_at off n m = take n (drop off m)"

definition memmove :: "nat \<Rightarrow> nat \<Rightarrow> nat \<Rightarrow> 'a list \<Rightarrow> 'a list" where
  "memmove dst src n m = write_at dst (read_at src n m) m"

definition realloc :: "'a \<Rightarrow> nat \<Rightarrow> 'a list \<Rightarrow> 'a list" where
  "realloc u n m = take n m @ replicate (n - length m) u"

lemma length_write_at [mem_simps]: "off + length bs \<le> length m \<Longrightarrow> length (write_at off bs m) = length m"
  by (simp add: write_at_def)

lemma length_read_at [mem_simps]: "length (read_at off n m) = min n (length m - off)"
  by (simp add: read_at_def)

lemma length_realloc [simp]: "length (realloc u n m) = n"
  by (simp add: realloc_def)

lemma length_memmove [mem_simps]:
  "dst + n \<le> length m \<Longrightarrow> src + n \<le> length m \<Longrightarrow> length (memmove dst src n m) = length m"
  by (simp add: memmove_def write_at_def read_at_def)

lemma read_write_same: "off + length bs \<le> length m \<Longrightarrow> read_at off (length bs) (write_at off bs m) = bs"
  by (simp add: read_at_def write_at_def)

lemma write_at_Nil [simp]: "write_at off [] m = m"
  by (simp add: write_at_def)

lemma nth_write_at:
  assumes "off + length bs \<le> length m" and "i < length m"
  shows "write_at off bs m ! i =
    (if i < off then m ! i else if i < off + length bs then bs ! (i - off) else m ! i)"
  using assms by (auto simp: write_at_def nth_append)

lemma nth_read_at: "i < n \<Longrightarrow> off + n \<le> length m \<Longrightarrow> read_at off n m ! i = m ! (off + i)"
  by (simp add: read_at_def)

lemma read_write_before:
  assumes "off + length bs \<le> length m" and "p + n \<le> off"
  shows "read_at p n (write_at off bs m) = read_at p n m"
  using assms by (intro nth_equalityI) (auto simp: mem_simps nth_read_at nth_write_at)

lemma read_write_after:
  assumes "off + length bs \<le> length m" and "off + length bs \<le> p" and "p + n \<le> length m"
  shows "read_at p n (write_at off bs m) = read_at p n m"
  using assms by (intro nth_equalityI) (auto simp: mem_simps nth_read_at nth_write_at)

lemma realloc_same [simp]: "realloc u (length m) m = m"
  by (simp add: realloc_def)

lemma realloc_shrink: "n \<le> length m \<Longrightarrow> realloc u n m = take n m"
  by (simp add: realloc_def)

lemma read_realloc: "off + n \<le> k \<Longrightarrow> off + n \<le> length m \<Longrightarrow> read_at off n (realloc u k m) = read_at off n m"
  by (intro nth_equalityI) (auto simp: mem_simps nth_read_at realloc_def nth_append)

lemma read_at_take: "off + n \<le> k \<Longrightarrow> read_at off n (take k m) = read_at off n m"
  by (simp add: read_at_def drop_take min_def)

section \<open>Fixed-width integers in memory\<close>

primrec le_bytes :: "nat \<Rightarrow> nat \<Rightarrow> bytes" where
  "le_bytes 0 v = []"
| "le_bytes (Suc n) v = of_nat v # le_bytes n (v div 256)"

primrec le_nat :: "bytes \<Rightarrow> nat" where
  "le_nat [] = 0"
| "le_nat (b # bs) = unat b + 256 * le_nat bs"

definition be_bytes :: "nat \<Rightarrow> nat \<Rightarrow> bytes" where
  "be_bytes n v = rev (le_bytes n v)"

definition be_nat :: "bytes \<Rightarrow> nat" where
  "be_nat bs = le_nat (rev bs)"

text \<open>Two's complement: a signed integer of \<open>n\<close> bytes.\<close>

definition sle_bytes :: "nat \<Rightarrow> int \<Rightarrow> bytes" where
  "sle_bytes n i = le_bytes n (nat (i mod 256 ^ n))"

definition sle_int :: "bytes \<Rightarrow> int" where
  "sle_int bs = to_signed (8 * length bs) (int (le_nat bs))"

lemma length_le_bytes [simp]: "length (le_bytes n v) = n"
  by (induction n arbitrary: v) auto

lemma length_be_bytes [simp]: "length (be_bytes n v) = n"
  by (simp add: be_bytes_def)

lemma length_sle_bytes [simp]: "length (sle_bytes n v) = n"
  by (simp add: sle_bytes_def)

lemma unat_of_nat_byte [simp]: "unat (of_nat v :: byte) = v mod 256"
  by (simp add: unat_of_nat)

lemma unat_byte_less [simp]: "unat (b :: byte) < 256"
  using unsigned_less [of b] by simp

lemma unat_byte_le [simp]: "unat (b :: byte) \<le> 255"
  using unat_byte_less [of b] by linarith

lemma le_nat_less: "le_nat bs < 256 ^ length bs"
proof (induction bs)
  case Nil
  then show ?case by simp
next
  case (Cons b bs)
  have "unat b < 256" by simp
  moreover have "256 * Suc (le_nat bs) \<le> 256 * 256 ^ length bs"
    using Cons by (intro mult_le_mono2) simp
  ultimately have "unat b + 256 * le_nat bs < 256 * 256 ^ length bs"
    unfolding mult_Suc_right by linarith
  then show ?case by simp
qed

lemma le_nat_le_bytes: "le_nat (le_bytes n v) = v mod 256 ^ n"
proof (induction n arbitrary: v)
  case 0
  then show ?case by simp
next
  case (Suc n)
  have "v mod (256 * 256 ^ n) = 256 * (v div 256 mod 256 ^ n) + v mod 256"
    by (rule mod_mult2_eq)
  then show ?case using Suc by simp
qed

lemma le_nat_le_bytes_id [simp]: "v < 256 ^ n \<Longrightarrow> le_nat (le_bytes n v) = v"
  by (simp add: le_nat_le_bytes)

lemma le_bytes_le_nat: "le_bytes (length bs) (le_nat bs) = bs"
proof (induction bs)
  case Nil
  then show ?case by simp
next
  case (Cons b bs)
  have "(unat b + 256 * le_nat bs) div 256 = le_nat bs" by simp
  moreover have "(of_nat (unat b + 256 * le_nat bs) :: byte) = b"
    by (simp add: word_unat_eq_iff del: of_nat_add of_nat_mult)
  ultimately show ?case using Cons by (simp del: of_nat_add of_nat_mult)
qed

lemma be_nat_be_bytes_id [simp]: "v < 256 ^ n \<Longrightarrow> be_nat (be_bytes n v) = v"
  by (simp add: be_nat_def be_bytes_def)

lemma be_bytes_be_nat: "be_bytes (length bs) (be_nat bs) = bs"
  using le_bytes_le_nat [of "rev bs"] by (simp add: be_bytes_def be_nat_def)

lemma be_nat_less: "be_nat bs < 256 ^ length bs"
  using le_nat_less [of "rev bs"] by (simp add: be_nat_def)

lemma pow256: "(256 :: int) ^ n = 2 ^ (8 * n)"
  by (simp add: power_mult)

lemma sle_int_sle_bytes:
  assumes "- (2 ^ (8 * n)) \<le> 2 * i" and "2 * i < 2 ^ (8 * n)"
  shows "sle_int (sle_bytes n i) = i"
proof -
  have "nat (i mod 256 ^ n) < 256 ^ n"
    by (metis nat_less_iff of_nat_numeral of_nat_power pos_mod_bound pos_mod_sign zero_less_numeral zero_less_power)
  then have "int (le_nat (sle_bytes n i)) = i mod 256 ^ n"
    by (simp add: sle_bytes_def)
  then have "sle_int (sle_bytes n i) = to_signed (8 * n) (i mod 2 ^ (8 * n))"
    by (simp add: sle_int_def pow256)
  also have "\<dots> = to_signed (8 * n) i"
    by (simp add: to_signed_def)
  finally show ?thesis using to_signed_id [OF assms] by simp
qed

lemma sle_int_range: "bs \<noteq> [] \<Longrightarrow>
  - (2 ^ (8 * length bs)) \<le> 2 * sle_int bs \<and> 2 * sle_int bs < 2 ^ (8 * length bs)"
  unfolding sle_int_def by (rule to_signed_range) simp

end
