(* ===== verification/Util.thy ===== *)
theory Util
  imports Prelude "HOL-Library.Monad_Syntax"
begin

text \<open>
  \<^verbatim>\<open>util.c\<close>: conversion between 64 bit integers and their decimal text, memory sizes with a
  unit, and glob-style pattern matching.  Strings are byte lists; a C string is followed by its
  terminator, byte 0.
\<close>

section \<open>Integers as text\<close>

definition byte_of_digit :: "nat \<Rightarrow> byte" where
  "byte_of_digit d = 48 + of_nat d"

function digits10 :: "nat \<Rightarrow> nat" where
  "digits10 v =
     (if v < 10 then 1
      else if v < 100 then 2
      else if v < 1000 then 3
      else if v < 1000000000000 then
        (if v < 100000000 then
           (if v < 1000000 then
              (if v < 10000 then 4 else 5 + (if v \<ge> 100000 then 1 else 0))
            else 7 + (if v \<ge> 10000000 then 1 else 0))
         else if v < 10000000000 then 9 + (if v \<ge> 1000000000 then 1 else 0)
         else 11 + (if v \<ge> 100000000000 then 1 else 0))
      else 12 + digits10 (v div 1000000000000))"
  by pat_completeness auto
termination
  by (relation "measure id") auto

declare digits10.simps [simp del]

text \<open>\<open>uint64_t uv = (v != LLONG_MIN) ? (uint64_t)-v : ((uint64_t)LLONG_MAX)+1\<close>\<close>

definition abs_ull :: "int \<Rightarrow> nat" where
  "abs_ull v = nat (if v \<noteq> LLONG_MIN then to_unsigned 64 (- v) else to_unsigned 64 (LLONG_MAX + 1))"

definition sdigits10 :: "int \<Rightarrow> nat" where
  "sdigits10 v = (if v < 0 then digits10 (abs_ull v) + 1 else digits10 (nat v))"

definition digits_table :: bytes where
  "digits_table = map of_char
    (''0001020304050607080910111213141516171819'' @
     ''2021222324252627282930313233343536373839'' @
     ''4041424344454647484950515253545556575859'' @
     ''6061626364656667686970717273747576777879'' @
     ''8081828384858687888990919293949596979899'')"

function ll2string_loop :: "bytes \<Rightarrow> nat \<Rightarrow> nat \<Rightarrow> bytes \<times> nat \<times> nat" where
  "ll2string_loop dst value next =
     (if value \<ge> 100 then
        (let i = (value mod 100) * 2
         in ll2string_loop (dst[next := digits_table ! (i + 1), next - 1 := digits_table ! i])
              (value div 100) (next - 2))
      else (dst, value, next))"
  by pat_completeness auto
termination
  by (relation "measure (\<lambda>(dst, value, next). value)") auto

declare ll2string_loop.simps [simp del]

definition ll2string_tail :: "bytes \<Rightarrow> nat \<Rightarrow> nat \<Rightarrow> bytes" where
  "ll2string_tail dst value next =
     (if value < 10 then dst[next := 48 + of_nat value]
      else let i = value * 2
           in dst[next := digits_table ! (i + 1), next - 1 := digits_table ! i])"

text \<open>The buffer after the call and the returned length; 0 when the buffer is too small.\<close>

definition ll2string :: "bytes \<Rightarrow> int \<Rightarrow> bytes \<times> nat" where
  "ll2string dst svalue =
     (let negative = (if svalue < 0 then 1 else 0 :: nat);
          value = (if svalue < 0 then abs_ull svalue else nat svalue);
          len = digits10 value + negative
      in if len \<ge> length dst then (dst, 0)
         else
           let (dst1, value1, next1) = ll2string_loop (dst[len := 0]) value (len - 1);
               dst2 = ll2string_tail dst1 value1 next1;
               dst3 = (if negative = 1 then dst2[0 := 45] else dst2)
           in (dst3, len))"

fun string2ll_loop :: "int \<Rightarrow> bytes \<Rightarrow> (int \<times> bytes) option" where
  "string2ll_loop v [] = Some (v, [])"
| "string2ll_loop v (c # p) =
     (if c \<ge> 48 \<and> c \<le> 57 then
        (if v > ULLONG_MAX div 10 then None
         else if v * 10 > ULLONG_MAX - (uint c - 48) then None
         else string2ll_loop (v * 10 + (uint c - 48)) p)
      else Some (v, c # p))"

definition string2ll :: "bytes \<Rightarrow> int option" where
  "string2ll s =
     (case s of [] \<Rightarrow> None
      | c0 # _ \<Rightarrow>
        if length s = 1 \<and> c0 = 48 then Some 0
        else
          let negative = (c0 = 45); p = (if negative then tl s else s)
          in case p of [] \<Rightarrow> None
             | c # p' \<Rightarrow>
               if c \<ge> 49 \<and> c \<le> 57 then
                 (case string2ll_loop (uint c - 48) p' of
                    None \<Rightarrow> None
                  | Some (v, rest) \<Rightarrow>
                      if rest \<noteq> [] then None
                      else if negative then
                        (if v > - (LLONG_MIN + 1) + 1 then None else Some (to_signed 64 (- v)))
                      else (if v > LLONG_MAX then None else Some (to_signed 64 v)))
               else if c = 48 \<and> length s = 1 then Some 0
               else None)"

definition string2l :: "bytes \<Rightarrow> int option" where
  "string2l s =
     (case string2ll s of None \<Rightarrow> None
      | Some llval \<Rightarrow> if llval < LLONG_MIN \<or> llval > LLONG_MAX then None else Some llval)"

section \<open>Decimal text, as a specification\<close>

fun dec :: "nat \<Rightarrow> bytes" where
  "dec v = (if v < 10 then [byte_of_digit v] else dec (v div 10) @ [byte_of_digit (v mod 10)])"

declare dec.simps [simp del]

definition sdec :: "int \<Rightarrow> bytes" where
  "sdec i = (if i < 0 then 45 # dec (nat (- i)) else dec (nat i))"

lemma dec_nonempty [simp]: "dec v \<noteq> []"
  by (subst dec.simps) simp

lemma dec_step: "10 \<le> v \<Longrightarrow> dec v = dec (v div 10) @ [byte_of_digit (v mod 10)]"
  by (subst dec.simps) simp

lemma dec_small: "v < 10 \<Longrightarrow> dec v = [byte_of_digit v]"
  by (subst dec.simps) simp

lemma length_dec_pow: "0 < v \<Longrightarrow> 10 ^ k \<le> v \<Longrightarrow> v < 10 ^ Suc k \<Longrightarrow> length (dec v) = Suc k"
proof (induction k arbitrary: v)
  case 0
  then show ?case by (simp add: dec_small)
next
  case (Suc k)
  have "10 ^ k \<le> v div 10" using Suc.prems(2) by (simp add: less_eq_div_iff_mult_less_eq mult.commute)
  moreover have "v div 10 < 10 ^ Suc k" using Suc.prems(3) by (simp add: div_less_iff_less_mult mult.commute)
  moreover have "(1::nat) \<le> 10 ^ k" by simp
  ultimately have "length (dec (v div 10)) = Suc k" using Suc.IH [of "v div 10"] by linarith
  moreover have "(10::nat) ^ 1 \<le> 10 ^ Suc k" by (intro power_increasing) auto
  moreover from this Suc.prems(2) have "10 \<le> v" unfolding power_one_right by linarith
  ultimately show ?case by (simp add: dec_step)
qed

lemma length_dec_split: "0 < v div 10 ^ k \<Longrightarrow> length (dec v) = k + length (dec (v div 10 ^ k))"
proof (induction k arbitrary: v)
  case 0
  then show ?case by simp
next
  case (Suc k)
  have eq: "v div 10 ^ Suc k = v div 10 div 10 ^ k" by (simp add: div_mult2_eq)
  then have "0 < v div 10 div 10 ^ k" using Suc.prems by simp
  moreover from this have "10 \<le> v" by (metis div_0 div_less less_irrefl not_le)
  ultimately show ?case using Suc.IH [of "v div 10"] eq by (simp add: dec_step)
qed

lemma digits10_dec: "digits10 v = length (dec v)"
proof (induction v rule: digits10.induct)
  case (1 v)
  show ?case
  proof (cases "v < 1000000000000")
    case True
    note L = length_dec_pow [of v 1] length_dec_pow [of v 2] length_dec_pow [of v 3]
      length_dec_pow [of v 4] length_dec_pow [of v 5] length_dec_pow [of v 6] length_dec_pow [of v 7]
      length_dec_pow [of v 8] length_dec_pow [of v 9] length_dec_pow [of v 10] length_dec_pow [of v 11]
    show ?thesis using True L by (subst digits10.simps) (auto simp: dec_small)
  next
    case False
    then have "0 < v div 10 ^ 12" by simp
    from length_dec_split [OF this] show ?thesis
      using False 1 by (subst digits10.simps) simp
  qed
qed


lemma digits_table_pairs:
  "digits_table = concat (map (\<lambda>i. [byte_of_digit (i div 10), byte_of_digit (i mod 10)]) [0..<100])"
  by code_simp

lemma nth_concat_pairs:
  "i < n \<Longrightarrow> concat (map (\<lambda>i. [f i, g i]) [0..<n]) ! (i * 2) = f i
     \<and> concat (map (\<lambda>i. [f i, g i]) [0..<n]) ! Suc (i * 2) = g i"
proof (induction n)
  case (Suc n)
  have "length (concat (map (\<lambda>i. [f i, g i]) [0..<n])) = n * 2"
    by (simp add: length_concat comp_def sum_list_triv)
  then show ?case using Suc by (auto simp: nth_append less_Suc_eq)
qed simp

lemma digits_table_nth:
  assumes "i < 100"
  shows "digits_table ! (i * 2) = byte_of_digit (i div 10)"
    and "digits_table ! Suc (i * 2) = byte_of_digit (i mod 10)"
  using nth_concat_pairs [OF assms, of "\<lambda>i. byte_of_digit (i div 10)" "\<lambda>i. byte_of_digit (i mod 10)"]
  by (simp_all only: digits_table_pairs)

lemma write_at_snoc2:
  assumes "Suc (k + length xs) < length dst"
  shows "write_at k (xs @ [a, b]) dst = write_at k xs (dst[Suc (k + length xs) := b, k + length xs := a])"
  using assms
  by (intro nth_equalityI) (auto simp: mem_simps nth_write_at nth_append nth_list_update nth_Cons')

lemma write_at_one: "k < length dst \<Longrightarrow> write_at k [a] dst = dst[k := a]"
  by (simp add: write_at_def upd_conv_take_nth_drop)

lemma dec_step100: "100 \<le> v \<Longrightarrow>
  dec v = dec (v div 100) @ [byte_of_digit (v mod 100 div 10), byte_of_digit (v mod 100 mod 10)]"
proof -
  assume "100 \<le> v"
  then have "dec v = dec (v div 10 div 10) @ [byte_of_digit (v div 10 mod 10), byte_of_digit (v mod 10)]"
    by (simp add: dec_step)
  moreover have "v mod 100 div 10 = v div 10 mod 10" "v mod 100 mod 10 = v mod 10"
    using mod_mult2_eq [of v 10 10] by (simp_all add: mod_mod_cancel)
  ultimately show ?thesis by (simp add: div_mult2_eq [symmetric])
qed

lemma ll2string_loop_correct:
  assumes "next < length dst" and "length (dec v) \<le> Suc next"
  shows "(case ll2string_loop dst v next of (d, v', n) \<Rightarrow> ll2string_tail d v' n) =
    write_at (Suc next - length (dec v)) (dec v) dst"
  using assms
proof (induction v arbitrary: dst "next" rule: less_induct)
  case (less v)
  show ?case
  proof (cases "100 \<le> v")
    case True
    let ?a = "byte_of_digit (v mod 100 div 10)" and ?b = "byte_of_digit (v mod 100 mod 10)"
    let ?l = "length (dec (v div 100))"
    have d: "dec v = dec (v div 100) @ [?a, ?b]" by (rule dec_step100 [OF True])
    have "0 < ?l" by simp
    then obtain n where n: "next = Suc (Suc n)" using less.prems d by (cases "next"; cases "next - 1") auto
    have k: "Suc next - length (dec v) = Suc n - ?l" "?l \<le> Suc n" using d n less.prems by auto
    have "(case ll2string_loop dst v next of (d, v', n) \<Rightarrow> ll2string_tail d v' n) =
        (case ll2string_loop (dst[next := ?b, next - 1 := ?a]) (v div 100) n of (d, v', n) \<Rightarrow> ll2string_tail d v' n)"
      using True n by (subst ll2string_loop.simps) (simp add: digits_table_nth Let_def)
    also have "\<dots> = write_at (Suc n - ?l) (dec (v div 100)) (dst[next := ?b, next - 1 := ?a])"
      using True less.prems k n by (intro less.IH) auto
    also have "\<dots> = write_at (Suc n - ?l) (dec v) dst"
      using k less.prems n unfolding d by (subst write_at_snoc2) auto
    finally show ?thesis using k by simp
  next
    case False
    show ?thesis
    proof (cases "v < 10")
      case True
      then show ?thesis using False less.prems
        by (subst ll2string_loop.simps)
          (simp add: ll2string_tail_def dec_small write_at_one byte_of_digit_def)
    next
      case ge: False
      then have d: "dec v = [] @ [byte_of_digit (v div 10), byte_of_digit (v mod 10)]"
        using False by (simp add: dec_step dec_small)
      then obtain n where n: "next = Suc n" using less.prems by (cases "next") auto
      have "write_at n (dec v) dst = dst[Suc n := byte_of_digit (v mod 10), n := byte_of_digit (v div 10)]"
        using less.prems n unfolding d by (subst write_at_snoc2) auto
      then show ?thesis using False ge d n
        by (subst ll2string_loop.simps) (simp add: ll2string_tail_def digits_table_nth Let_def)
    qed
  qed
qed

lemma abs_ull_neg: "in_int64 v \<Longrightarrow> v < 0 \<Longrightarrow> abs_ull v = nat (- v)"
  by (auto simp: abs_ull_def to_unsigned_def range_simps)

lemma drop_update_same: "l < length m \<Longrightarrow> drop l (m[l := x]) = x # drop (Suc l) m"
  by (simp add: drop_update_swap Cons_nth_drop_Suc [symmetric])

lemma write_terminated: "length xs < length dst \<Longrightarrow>
  write_at 0 xs (dst[length xs := x]) = write_at 0 (xs @ [x]) dst"
  by (simp add: write_at_def drop_update_same)

lemma write_terminated_sign: "Suc (length xs) < length dst \<Longrightarrow>
  (write_at (Suc 0) xs (dst[Suc (length xs) := x]))[0 := y] = write_at 0 (y # xs @ [x]) dst"
  by (cases dst) (simp_all add: write_at_def drop_update_same)

text \<open>\<open>ll2string\<close> writes the decimal text and its terminator into the buffer, when it fits.\<close>

lemma ll2string_correct:
  assumes "in_int64 v" and "length (sdec v) < length dst"
  shows "ll2string dst v = (write_at 0 (sdec v @ [0]) dst, length (sdec v))"
proof -
  let ?neg = "if v < 0 then 1 else 0 :: nat"
  let ?u = "if v < 0 then abs_ull v else nat v"
  let ?n = "length (dec ?u) + ?neg"
  have u: "?u = (if v < 0 then nat (- v) else nat v)" using assms by (simp add: abs_ull_neg)
  have n: "?n = length (sdec v)" by (simp add: sdec_def u)
  have "?n - 1 < length (dst[?n := 0])" using assms n by simp
  moreover have "length (dec ?u) \<le> Suc (?n - 1)" by (cases "dec ?u") auto
  ultimately have loop: "(case ll2string_loop (dst[?n := 0]) ?u (?n - 1) of (d, v', n) \<Rightarrow> ll2string_tail d v' n) =
      write_at ?neg (dec ?u) (dst[?n := 0])"
    using ll2string_loop_correct [of "?n - 1" "dst[?n := 0]" ?u] by (cases "dec ?u") auto
  have "ll2string dst v = ((if ?neg = 1 then (write_at ?neg (dec ?u) (dst[?n := 0]))[0 := 45]
      else write_at ?neg (dec ?u) (dst[?n := 0])), ?n)"
    using assms(2) n loop by (auto simp: ll2string_def digits10_dec Let_def split: prod.splits)
  also have "\<dots> = (write_at 0 (sdec v @ [0]) dst, ?n)"
    using assms(2) u by (cases "v < 0") (simp_all add: sdec_def write_terminated write_terminated_sign)
  finally show ?thesis using n by simp
qed


section \<open>Parsing accepts exactly the canonical text\<close>

definition isdig :: "byte \<Rightarrow> bool" where
  "isdig c \<longleftrightarrow> 48 \<le> c \<and> c \<le> 57"

definition dval :: "int \<Rightarrow> bytes \<Rightarrow> int" where
  "dval = foldl (\<lambda>v c. v * 10 + (uint c - 48))"

lemma uint_byte_of_digit: "d < 10 \<Longrightarrow> uint (byte_of_digit d) = 48 + int d"
proof -
  assume d: "d < 10"
  have "byte_of_digit d = of_nat (48 + d)" by (simp add: byte_of_digit_def)
  then have "unat (byte_of_digit d) = (48 + d) mod 256" by (simp only: unat_of_nat_byte)
  with d show ?thesis by (simp add: uint_nat)
qed

lemma isdig_byte_of_digit [simp]: "d < 10 \<Longrightarrow> isdig (byte_of_digit d)"
  by (simp add: isdig_def word_le_def uint_byte_of_digit)

lemma isdigE:
  assumes "isdig c"
  obtains d where "d < 10" and "c = byte_of_digit d"
proof -
  define d where "d = nat (uint c - 48)"
  have c: "48 \<le> uint c" "uint c \<le> 57" using assms by (simp_all add: isdig_def word_le_def)
  then have "d < 10" by (simp add: d_def)
  moreover have "uint c = uint (byte_of_digit d)" using c uint_byte_of_digit [OF \<open>d < 10\<close>] by (simp add: d_def)
  then have "c = byte_of_digit d" by (rule word_uint_eqI)
  ultimately show ?thesis by (rule that)
qed

lemma string2ll_loop_unfold:
  "string2ll_loop v (c # p) =
     (if isdig c then
        (if v > ULLONG_MAX div 10 \<or> v * 10 + (uint c - 48) > ULLONG_MAX then None
         else string2ll_loop (v * 10 + (uint c - 48)) p)
      else Some (v, c # p))"
  by (simp add: isdig_def)

lemma dval_simps [simp]: "dval v [] = v" "dval v (c # p) = dval (v * 10 + (uint c - 48)) p"
  by (simp_all add: dval_def)

lemma dval_snoc: "dval v (p @ [c]) = dval v p * 10 + (uint c - 48)"
  by (simp add: dval_def)

lemma isdig_uint: "isdig c \<Longrightarrow> 0 \<le> uint c - 48 \<and> uint c - 48 \<le> 9"
  by (simp add: isdig_def word_le_def)

lemma dval_mono: "0 \<le> v \<Longrightarrow> list_all isdig p \<Longrightarrow> v \<le> dval v p"
proof (induction p arbitrary: v)
  case (Cons c p)
  then have "v \<le> v * 10 + (uint c - 48)" using isdig_uint [of c] by auto
  then show ?case using Cons.IH [of "v * 10 + (uint c - 48)"] Cons.prems by auto
qed simp

lemma string2ll_loop_sound:
  "string2ll_loop v p = Some (w, []) \<Longrightarrow> list_all isdig p \<and> w = dval v p"
  by (induction p arbitrary: v)
    (auto simp: string2ll_loop_unfold simp del: string2ll_loop.simps(2) split: if_splits)

lemma string2ll_loop_complete:
  "0 \<le> v \<Longrightarrow> list_all isdig p \<Longrightarrow> dval v p \<le> ULLONG_MAX \<Longrightarrow> string2ll_loop v p = Some (dval v p, [])"
proof (induction p arbitrary: v)
  case (Cons c p)
  let ?w = "v * 10 + (uint c - 48)"
  have c: "isdig c" "0 \<le> uint c - 48" "uint c - 48 \<le> 9" using Cons.prems isdig_uint [of c] by auto
  have w: "0 \<le> ?w" using Cons.prems c by simp
  then have "?w \<le> ULLONG_MAX" using dval_mono [OF w, of p] Cons.prems by simp
  moreover from this have "\<not> v > ULLONG_MAX div 10" using c by (simp add: range_simps)
  ultimately show ?case
    using Cons.IH [OF w] Cons.prems c by (simp add: string2ll_loop_unfold del: string2ll_loop.simps(2))
qed simp

lemma dec_digits: "list_all isdig (dec n)"
  by (induction n rule: dec.induct) (subst dec.simps, auto)

lemma dval_dec: "dval 0 (dec n) = int n"
proof (induction n rule: dec.induct)
  case (1 n)
  then show ?case
    by (cases "n < 10") (simp_all add: dec_small dec_step dval_snoc uint_byte_of_digit zdiv_int zmod_int)
qed

lemma dec_hd: "0 < n \<Longrightarrow> \<exists>d p. dec n = byte_of_digit d # p \<and> 0 < d \<and> d < 10"
proof (induction n rule: dec.induct)
  case (1 n)
  show ?case
  proof (cases "n < 10")
    case True
    then show ?thesis using 1 by (auto simp: dec_small)
  next
    case False
    then have "0 < n div 10" by simp
    with False 1 show ?thesis by (fastforce simp: dec_step)
  qed
qed

lemma dec_dval:
  assumes "0 < d" and "d < 10" and "list_all isdig p"
  shows "dec (nat (dval (int d) p)) = byte_of_digit d # p"
  using assms(3)
proof (induction p rule: rev_induct)
  case Nil
  then show ?case using assms by (simp add: dec_small)
next
  case (snoc c p)
  then obtain e where e: "e < 10" "c = byte_of_digit e" by (auto elim: isdigE)
  have pos: "int d \<le> dval (int d) p" using snoc.prems by (intro dval_mono) auto
  define x where "x = nat (dval (int d) p)"
  have x: "dval (int d) p = int x" "0 < x" using pos assms by (auto simp: x_def)
  have "dec (x * 10 + e) = dec x @ [byte_of_digit e]"
    using x e by (subst dec_step) auto
  moreover have "nat (dval (int d) (p @ [c])) = x * 10 + e"
    using e x by (simp add: dval_snoc uint_byte_of_digit nat_add_distrib nat_mult_distrib)
  ultimately show ?case using snoc e by (simp add: x_def)
qed

lemma isdig_nonzero: "49 \<le> c \<and> c \<le> 57 \<longleftrightarrow> (\<exists>d. 0 < d \<and> d < 10 \<and> c = byte_of_digit d)"
proof
  assume a: "49 \<le> c \<and> c \<le> 57"
  then have "isdig c" by (auto simp: isdig_def word_le_def)
  then obtain d where d: "d < 10" "c = byte_of_digit d" by (rule isdigE)
  with a have "0 < d" by (auto simp: word_le_def uint_byte_of_digit)
  with d show "\<exists>d. 0 < d \<and> d < 10 \<and> c = byte_of_digit d" by blast
qed (auto simp: word_le_def uint_byte_of_digit)

lemma byte_of_digit_neq [simp]: "d < 10 \<Longrightarrow> byte_of_digit d \<noteq> 45" "0 < d \<Longrightarrow> d < 10 \<Longrightarrow> byte_of_digit d \<noteq> 48"
  by (auto dest!: arg_cong [of _ _ uint] simp: uint_byte_of_digit)


lemma string2ll_positive:
  assumes "0 < d" and "d < 10"
  shows "string2ll (byte_of_digit d # p) =
    (if list_all isdig p \<and> dval (int d) p \<le> LLONG_MAX then Some (dval (int d) p) else None)"
proof -
  have c: "49 \<le> byte_of_digit d" "byte_of_digit d \<le> 57" using assms isdig_nonzero by blast+
  have u: "uint (byte_of_digit d) - 48 = int d" using assms by (simp add: uint_byte_of_digit)
  have s: "string2ll (byte_of_digit d # p) = (case string2ll_loop (int d) p of None \<Rightarrow> None
      | Some (v, rest) \<Rightarrow> if rest \<noteq> [] then None else if v > LLONG_MAX then None else Some (to_signed 64 v))"
    using assms c u by (simp add: string2ll_def split: option.split)
  show ?thesis
  proof (cases "list_all isdig p \<and> dval (int d) p \<le> LLONG_MAX")
    case True
    then have "string2ll_loop (int d) p = Some (dval (int d) p, [])"
      by (intro string2ll_loop_complete) (auto simp: range_simps)
    moreover have "to_signed 64 (dval (int d) p) = dval (int d) p"
      using True dval_mono [of "int d" p] by (intro to_signed_id) (auto simp: range_simps)
    ultimately show ?thesis using s True by simp
  next
    case False
    then show ?thesis using s string2ll_loop_sound [of "int d" p]
      by (auto split: option.splits prod.splits)
  qed
qed

lemma string2ll_negative:
  assumes "0 < d" and "d < 10"
  shows "string2ll (45 # byte_of_digit d # p) =
    (if list_all isdig p \<and> - dval (int d) p \<ge> LLONG_MIN then Some (- dval (int d) p) else None)"
proof -
  have c: "49 \<le> byte_of_digit d" "byte_of_digit d \<le> 57" using assms isdig_nonzero by blast+
  have u: "uint (byte_of_digit d) - 48 = int d" using assms by (simp add: uint_byte_of_digit)
  have s: "string2ll (45 # byte_of_digit d # p) = (case string2ll_loop (int d) p of None \<Rightarrow> None
      | Some (v, rest) \<Rightarrow> if rest \<noteq> [] then None
          else if v > - (LLONG_MIN + 1) + 1 then None else Some (to_signed 64 (- v)))"
    using assms c u by (simp add: string2ll_def split: option.split)
  show ?thesis
  proof (cases "list_all isdig p \<and> - dval (int d) p \<ge> LLONG_MIN")
    case True
    then have "string2ll_loop (int d) p = Some (dval (int d) p, [])"
      by (intro string2ll_loop_complete) (auto simp: range_simps)
    moreover have "to_signed 64 (- dval (int d) p) = - dval (int d) p"
      using True dval_mono [of "int d" p] by (intro to_signed_id) (auto simp: range_simps)
    ultimately show ?thesis using s True by simp
  next
    case False
    then show ?thesis using s string2ll_loop_sound [of "int d" p]
      by (auto split: option.splits prod.splits)
  qed
qed

lemma sdec_zero [simp]: "sdec 0 = [48]"
  by (simp add: sdec_def dec_small byte_of_digit_def)

lemma dec_not_minus: "dec n \<noteq> 45 # p"
proof
  assume a: "dec n = 45 # p"
  then have "isdig 45" using dec_digits [of n] by simp
  then show False by (simp add: isdig_def word_le_def)
qed

lemma string2ll_sdec:
  assumes "in_int64 v"
  shows "string2ll (sdec v) = Some v"
proof (cases "v = 0")
  case True
  then show ?thesis by (simp add: string2ll_def)
next
  case False
  define n where "n = nat \<bar>v\<bar>"
  have n: "0 < n" "\<bar>v\<bar> = int n" using False by (auto simp: n_def)
  obtain d p where d: "dec n = byte_of_digit d # p" "0 < d" "d < 10" using dec_hd n(1) by blast
  have val: "dval (int d) p = int n" using dval_dec [of n] d by (simp add: uint_byte_of_digit)
  have dig: "list_all isdig p" using dec_digits [of n] d by simp
  show ?thesis
  proof (cases "v < 0")
    case True
    then have "sdec v = 45 # byte_of_digit d # p" using d by (simp add: sdec_def n_def)
    then show ?thesis using string2ll_negative [OF d(2,3), of p] dig val n True assms by simp
  next
    case False
    then have "sdec v = byte_of_digit d # p" using d by (simp add: sdec_def n_def)
    then show ?thesis using string2ll_positive [OF d(2,3), of p] dig val n False assms by simp
  qed
qed

lemma string2ll_sound:
  assumes "string2ll s = Some v"
  shows "in_int64 v \<and> s = sdec v"
proof (cases "s = [48]")
  case True
  then show ?thesis using assms by (simp add: string2ll_def range_simps)
next
  case False
  obtain neg d p where s: "s = (if neg then [45] else []) @ byte_of_digit d # p" and d: "0 < d" "d < 10"
  proof -
    obtain c s' where c: "s = c # s'" using assms by (cases s) (auto simp: string2ll_def)
    define p where "p = (if c = 45 then s' else s)"
    obtain e p' where e: "p = e # p'" "49 \<le> e" "e \<le> 57"
      using assms False c by (cases p) (auto simp: string2ll_def p_def Let_def split: if_splits)
    then obtain d where "0 < d" "d < 10" "e = byte_of_digit d" using isdig_nonzero by blast
    then show ?thesis using that [of "c = 45" d p'] e c by (auto simp: p_def split: if_splits)
  qed
  have pos: "list_all isdig p \<Longrightarrow> 0 < dval (int d) p" using dval_mono [of "int d" p] d by simp
  show ?thesis
  proof (cases neg)
    case True
    then have "list_all isdig p \<and> v = - dval (int d) p \<and> v \<ge> LLONG_MIN"
      using assms s string2ll_negative [OF d, of p] by (auto split: if_splits)
    then show ?thesis using s True pos dec_dval [OF d, of p] by (auto simp: sdec_def range_simps)
  next
    case False
    then have "list_all isdig p \<and> v = dval (int d) p \<and> v \<le> LLONG_MAX"
      using assms s string2ll_positive [OF d, of p] by (auto split: if_splits)
    then show ?thesis using s False pos dec_dval [OF d, of p] by (auto simp: sdec_def range_simps)
  qed
qed

lemma dec_mono: "m \<le> n \<Longrightarrow> length (dec m) \<le> length (dec n)"
proof (induction n arbitrary: m rule: dec.induct)
  case (1 n)
  show ?case
  proof (cases "m < 10")
    case True
    then show ?thesis by (simp add: dec_small Suc_le_eq)
  next
    case False
    then show ?thesis using 1 by (simp add: dec_step div_le_mono)
  qed
qed

lemma length_sdec: "in_int64 v \<Longrightarrow> length (sdec v) \<le> 20"
proof -
  assume v: "in_int64 v"
  have "length (dec (nat (- v))) \<le> length (dec 9223372036854775808)" "length (dec (nat v)) \<le> length (dec 9223372036854775808)"
    using v by (auto intro!: dec_mono simp: range_simps)
  moreover have "length (dec 9223372036854775808) = 19" by (simp add: digits10_dec [symmetric] digits10.simps)
  ultimately show ?thesis by (simp add: sdec_def)
qed

lemma ll2string_take:
  assumes "in_int64 v" and "20 < length dst"
  shows "\<exists>dst'. ll2string dst v = (dst', length (sdec v)) \<and> take (length (sdec v)) dst' = sdec v"
proof -
  have l: "length (sdec v) < length dst" using length_sdec [OF assms(1)] assms(2) by linarith
  then have "ll2string dst v = (write_at 0 (sdec v @ [0]) dst, length (sdec v))"
    using ll2string_correct [OF assms(1)] by simp
  then show ?thesis using l by (simp add: write_at_def)
qed

lemma ll2string_reads_back:
  assumes "in_int64 v" and "sdigits10 v < length dst"
  shows "\<exists>dst' n. ll2string dst v = (dst', n) \<and> n = sdigits10 v \<and> length dst' = length dst
    \<and> dst' ! n = 0 \<and> string2ll (take n dst') = Some v"
proof -
  have n: "sdigits10 v = length (sdec v)"
    using assms(1) by (simp add: sdigits10_def digits10_dec sdec_def abs_ull_neg)
  let ?d = "write_at 0 (sdec v @ [0]) dst"
  have "ll2string dst v = (?d, length (sdec v))" using assms n by (intro ll2string_correct) auto
  moreover have "length ?d = length dst" "?d ! length (sdec v) = 0" "take (length (sdec v)) ?d = sdec v"
    using assms n by (auto simp: write_at_def nth_append)
  ultimately show ?thesis using string2ll_sdec [OF assms(1)] n by auto
qed

text \<open>C31. \<open>string2ll\<close> accepts a byte string exactly when it is the canonical decimal text of a
  \<open>long long\<close>, and then returns that number: no sign other than a single minus, no leading zero,
  no trailing byte, no value out of range.  Printing and parsing are inverse: for every \<open>long long\<close>,
  \<open>ll2string\<close> fills any buffer that has room for the text and its terminator, returns the number of
  characters, and \<open>string2ll\<close> reads the same number back from them.\<close>

theorem string2ll_canonical:
  "(string2ll s = Some v \<longleftrightarrow> in_int64 v \<and> s = sdec v) \<and>
   (in_int64 v \<and> sdigits10 v < length dst \<longrightarrow>
     (\<exists>dst' n. ll2string dst v = (dst', n) \<and> n = sdigits10 v \<and> length dst' = length dst
       \<and> dst' ! n = 0 \<and> string2ll (take n dst') = Some v))"
  using string2ll_sound string2ll_sdec ll2string_reads_back by blast

theorem string2ll_canonical_witness:
  "in_int64 (- 9223372036854775808) \<and> (\<exists>dst' n. ll2string (replicate 21 7) (- 9223372036854775808) = (dst', n)
     \<and> string2ll (take n dst') = Some (- 9223372036854775808))"
proof -
  have r: "in_int64 (- 9223372036854775808)" by (simp add: range_simps)
  have "sdigits10 (- 9223372036854775808) = 20"
    by (simp add: sdigits10_def abs_ull_def to_unsigned_def range_simps digits10.simps)
  then have l: "sdigits10 (- 9223372036854775808) < length (replicate 21 (7::byte))" by simp
  show ?thesis using r l string2ll_canonical [of "[]" "- 9223372036854775808" "replicate 21 7"] by blast
qed

text \<open>The comparison cascade of \<open>digits10\<close> computes the number of decimal digits, for every
  unsigned value.\<close>

lemma digits10_correct: "digits10 v = length (dec v)"
  by (rule digits10_dec)

end
