(* ===== verification/Bits.thy ===== *)
theory Bits
  imports Prelude
begin

text \<open>
  Bit fields of bytes and integers in arithmetic form: the masks, shifts and joins with which \<^verbatim>\<open>rdb.c\<close> and
  \<^verbatim>\<open>ziplist.c\<close> pack lengths, and the bytes of a two's complement integer of each width.
\<close>

unbundle bit_operations_syntax

section \<open>Fields of a byte\<close>

lemma low_bits: "unat ((b :: byte) AND 0x3F) = unat b mod 64"
proof -
  have "b AND 0x3F = take_bit 6 b" by (simp only: take_bit_eq_mask mask_eq_exp_minus_1) simp
  moreover have "unat (take_bit 6 b) = take_bit 6 (unat b)" by (simp add: unsigned_take_bit_eq)
  ultimately show ?thesis by (simp only: take_bit_eq_mod) simp
qed

lemma high_bits: "unat (drop_bit 6 ((b :: byte) AND 0xC0)) = unat b div 64"
proof -
  have "drop_bit 6 (b AND 0xC0) = drop_bit 6 b AND 3" by simp
  also have "\<dots> = take_bit 2 (drop_bit 6 b)" by (simp add: take_bit_eq_mask mask_eq_exp_minus_1)
  finally have "unat (drop_bit 6 (b AND 0xC0)) = take_bit 2 (drop_bit 6 (unat b))"
    by (simp only: unsigned_take_bit_eq unsigned_drop_bit_eq) (simp add: take_bit_nat_eq_self)
  also have "\<dots> = unat b div 64 mod 4" by (simp only: take_bit_eq_mod drop_bit_eq_div) simp
  also have "\<dots> = unat b div 64" using unat_byte_less [of b] by (intro mod_less) linarith
  finally show ?thesis .
qed

lemma join_bytes: "y < 256 \<Longrightarrow> push_bit 8 (x :: nat) OR y = x * 256 + y"
proof -
  assume y: "y < 256"
  have "concat_bit 8 (int y) (int x) = int y + 2 ^ 8 * int x"
    using y by (simp add: concat_bit_eq take_bit_int_eq_self push_bit_eq_mult)
  then have "int (y OR push_bit 8 x) = int y + 2 ^ 8 * int x"
    using y by (simp add: concat_bit_def take_bit_int_eq_self of_nat_or_eq of_nat_push_bit)
  then have "int (push_bit 8 x OR y) = int (x * 256 + y)" by (simp add: or.commute)
  then show ?thesis by (simp only: of_nat_eq_iff)
qed

lemma or_64_all: "list_all (\<lambda>m. of_nat m OR 64 = (of_nat (m + 64) :: byte)) [0..<64]"
  by (simp add: upt_rec [of _ "numeral _"])

lemma or_64: "m < 64 \<Longrightarrow> of_nat m OR 64 = (of_nat m + 64 :: byte)"
  using or_64_all by (simp only: list_all_iff atLeast_upt [symmetric] Ball_def lessThan_iff of_nat_add of_nat_numeral)

lemma nat_and_255: "(n :: nat) AND 0xFF = n mod 256"
  using take_bit_eq_mod [of 8 n] by (simp add: take_bit_eq_mask mask_eq_exp_minus_1)

lemma nat_and_63: "(n :: nat) AND 0x3F = n mod 64"
  using take_bit_eq_mod [of 6 n] by (simp add: take_bit_eq_mask mask_eq_exp_minus_1)

lemma byte_of_nat_mod: "(of_nat (n mod 256) :: byte) = of_nat n"
  by (simp add: word_unat_eq_iff)

lemma byte_of_int_and: "(of_int (v AND 0xFF) :: byte) = of_int v"
proof -
  have "v AND 0xFF = take_bit 8 v" by (simp only: take_bit_eq_mask mask_eq_exp_minus_1) simp
  then show ?thesis by (simp add: word_of_int_eq_iff)
qed

lemma sle_bytes_Suc: "sle_bytes (Suc n) v = of_int v # sle_bytes n (v div 256)"
proof -
  have a: "(of_nat (nat (v mod (256 * 256 ^ n))) :: byte) = of_int v"
    by (simp add: word_of_int_eq_iff take_bit_eq_mod mod_mod_cancel)
  have "v mod (256 * 256 ^ n) = 256 * (v div 256 mod 256 ^ n) + v mod 256" by (rule zmod_zmult2_eq) simp
  then have "nat (v mod (256 * 256 ^ n)) div 256 = nat (v div 256 mod 256 ^ n)"
    by (simp add: nat_div_distrib [symmetric] nat_div_as_int)
  then show ?thesis using a by (simp add: sle_bytes_def)
qed

lemma sle_bytes_widths:
  "sle_bytes 1 v = [of_int v]" "sle_bytes 2 v = [of_int v, of_int (v div 256)]"
  "sle_bytes 4 v = [of_int v, of_int (v div 256), of_int (v div 65536), of_int (v div 16777216)]"
proof -
  have z: "sle_bytes 0 v = []" for v by (simp add: sle_bytes_def)
  have "v div 256 div 256 = v div 65536" "v div 65536 div 256 = v div 16777216"
    by (simp_all add: zdiv_zmult2_eq [symmetric])
  then have "sle_bytes (Suc (Suc (Suc (Suc 0)))) v = [of_int v, of_int (v div 256), of_int (v div 65536), of_int (v div 16777216)]"
    by (simp only: z sle_bytes_Suc)
  then show "sle_bytes 4 v = [of_int v, of_int (v div 256), of_int (v div 65536), of_int (v div 16777216)]"
    by (simp only: numeral_eq_Suc pred_numeral_simps BitM.simps)
  show "sle_bytes 1 v = [of_int v]" "sle_bytes 2 v = [of_int v, of_int (v div 256)]"
    by (simp_all only: z sle_bytes_Suc numeral_2_eq_2 One_nat_def)
qed

text \<open>The length of a string in the 6, 14 or 32 bit form, which a dump and a ziplist have in common.\<close>

definition len_bytes :: "nat \<Rightarrow> bytes" where
  "len_bytes n =
     (if n < 64 then [of_nat n] else if n < 16384 then [of_nat (n div 256) + 64, of_nat n] else 128 # be_bytes 4 n)"

lemma be_bytes_4: "be_bytes 4 n = [of_nat (n div 16777216), of_nat (n div 65536), of_nat (n div 256), of_nat n]"
proof -
  have four: "(4 :: nat) = Suc (Suc (Suc (Suc 0)))" by simp
  have "n div 256 div 256 = n div 65536" "n div 65536 div 256 = n div 16777216"
    by (simp_all add: div_mult2_eq [symmetric])
  then show ?thesis by (simp only: be_bytes_def four le_bytes.simps) simp
qed

lemma join_four:
  assumes "a < 256" "b < 256" "c < 256" "d < 256"
  shows "push_bit 24 (a :: nat) OR push_bit 16 b OR push_bit 8 c OR d = ((a * 256 + b) * 256 + c) * 256 + d"
proof -
  have "push_bit 24 a OR push_bit 16 b OR push_bit 8 c OR d = push_bit 8 (push_bit 8 (push_bit 8 a OR b) OR c) OR d"
    by (simp add: push_bit_or or.assoc)
  then show ?thesis using assms by (simp add: join_bytes)
qed

lemma byte_all: "list_all (\<lambda>n. P (of_nat n :: byte)) [0..<256] \<Longrightarrow> P b"
proof -
  assume a: "list_all (\<lambda>n. P (of_nat n :: byte)) [0..<256]"
  have "of_nat (unat b) = b" by (simp add: word_unat_eq_iff)
  then show "P b" using a unat_byte_less [of b] by (simp only: list_all_iff set_upt) (metis atLeastLessThan_iff zero_le)
qed

end
