(* ===== verification/Ziplist.thy ===== *)
theory Ziplist
  imports Util Bits
begin

text \<open>
  \<^verbatim>\<open>ziplist.c\<close>: the list of strings and integers packed in one block of memory.  A ziplist is its bytes;
  a pointer into it is an offset.  \<open>None\<close> is an access outside the block or a failed assertion; the byte
  \<open>u\<close> fills memory that \<open>zrealloc\<close> adds.  The type \<open>unsigned int\<close> has 32 bits: conversions to it and sums
  in it are taken modulo \<open>2 ^ 32\<close>.  The host is little endian, where the \<open>*ifbe\<close> macros are empty.
\<close>

unbundle bit_operations_syntax

section \<open>Memory\<close>

definition byte_at :: "bytes \<Rightarrow> nat \<Rightarrow> byte option" where
  "byte_at zl p = (if p < length zl then Some (zl ! p) else None)"

definition bytes_at :: "bytes \<Rightarrow> nat \<Rightarrow> nat \<Rightarrow> bytes option" where
  "bytes_at zl p n = (if p + n \<le> length zl then Some (read_at p n zl) else None)"

definition put_at :: "nat \<Rightarrow> bytes \<Rightarrow> bytes \<Rightarrow> bytes option" where
  "put_at p bs zl = (if p + length bs \<le> length zl then Some (write_at p bs zl) else None)"

definition move_at :: "nat \<Rightarrow> nat \<Rightarrow> nat \<Rightarrow> bytes \<Rightarrow> bytes option" where
  "move_at dst src n zl = (if dst + n \<le> length zl \<and> src + n \<le> length zl then Some (memmove dst src n zl) else None)"

text \<open>A difference of sizes, as \<open>memmove\<close> takes it.\<close>

definition size_t :: "int \<Rightarrow> nat" where
  "size_t n = nat (n mod 2 ^ 64)"

section \<open>Entries\<close>

definition ZIP_END :: byte where "ZIP_END = 255"
definition ZIP_BIGLEN :: nat where "ZIP_BIGLEN = 254"
definition ZIP_STR_MASK :: byte where "ZIP_STR_MASK = 0xc0"
definition ZIP_STR_06B :: byte where "ZIP_STR_06B = 0"
definition ZIP_STR_14B :: byte where "ZIP_STR_14B = 0x40"
definition ZIP_STR_32B :: byte where "ZIP_STR_32B = 0x80"
definition ZIP_INT_16B :: byte where "ZIP_INT_16B = 0xc0"
definition ZIP_INT_32B :: byte where "ZIP_INT_32B = 0xd0"
definition ZIP_INT_64B :: byte where "ZIP_INT_64B = 0xe0"
definition ZIP_INT_24B :: byte where "ZIP_INT_24B = 0xf0"
definition ZIP_INT_8B :: byte where "ZIP_INT_8B = 0xfe"
definition ZIP_INT_IMM_MASK :: byte where "ZIP_INT_IMM_MASK = 0x0f"
definition ZIP_INT_IMM_MIN :: byte where "ZIP_INT_IMM_MIN = 0xf1"
definition ZIP_INT_IMM_MAX :: byte where "ZIP_INT_IMM_MAX = 0xfd"
definition INT24_MAX :: int where "INT24_MAX = 0x7fffff"
definition INT24_MIN :: int where "INT24_MIN = - INT24_MAX - 1"

lemmas zip_consts = ZIP_END_def ZIP_BIGLEN_def ZIP_STR_MASK_def ZIP_STR_06B_def ZIP_STR_14B_def ZIP_STR_32B_def
  ZIP_INT_16B_def ZIP_INT_32B_def ZIP_INT_64B_def ZIP_INT_24B_def ZIP_INT_8B_def ZIP_INT_IMM_MASK_def
  ZIP_INT_IMM_MIN_def ZIP_INT_IMM_MAX_def INT24_MAX_def INT24_MIN_def

definition ZIP_IS_STR :: "byte \<Rightarrow> bool" where
  "ZIP_IS_STR enc = ((enc AND ZIP_STR_MASK) < ZIP_STR_MASK)"

record zlentry =
  prevrawlensize :: nat
  prevrawlen :: nat
  lensize :: nat
  len :: nat
  headersize :: nat
  encoding :: byte

definition ZIP_ENTRY_ENCODING :: "byte \<Rightarrow> byte" where
  "ZIP_ENTRY_ENCODING b = (if b < ZIP_STR_MASK then b AND ZIP_STR_MASK else b)"

definition zipIntSize :: "byte \<Rightarrow> nat" where
  "zipIntSize enc =
     (if enc = ZIP_INT_8B then 1 else if enc = ZIP_INT_16B then 2 else if enc = ZIP_INT_24B then 3
      else if enc = ZIP_INT_32B then 4 else if enc = ZIP_INT_64B then 8 else 0)"

text \<open>The bytes that \<open>zipEncodeLength\<close> stores; called with a null pointer the C function returns their number.\<close>

definition zipEncodeLength :: "byte \<Rightarrow> nat \<Rightarrow> bytes" where
  "zipEncodeLength enc rawlen =
     (if ZIP_IS_STR enc then
        (if rawlen \<le> 0x3f then [ZIP_STR_06B OR of_nat rawlen]
         else if rawlen \<le> 0x3fff then [ZIP_STR_14B OR of_nat (drop_bit 8 rawlen AND 0x3f), of_nat (rawlen AND 0xff)]
         else [ZIP_STR_32B, of_nat (drop_bit 24 rawlen AND 0xff), of_nat (drop_bit 16 rawlen AND 0xff),
               of_nat (drop_bit 8 rawlen AND 0xff), of_nat (rawlen AND 0xff)])
      else [enc])"

definition ZIP_DECODE_LENGTH :: "bytes \<Rightarrow> nat \<Rightarrow> (byte \<times> nat \<times> nat) option" where
  "ZIP_DECODE_LENGTH zl p = do {
     b \<leftarrow> byte_at zl p;
     let enc = ZIP_ENTRY_ENCODING b;
     (if enc < ZIP_STR_MASK then
        (if enc = ZIP_STR_06B then Some (enc, 1, unat (b AND 0x3f))
         else if enc = ZIP_STR_14B then do {
           b1 \<leftarrow> byte_at zl (p + 1);
           Some (enc, 2, push_bit 8 (unat (b AND 0x3f)) OR unat b1)}
         else if enc = ZIP_STR_32B then do {
           bs \<leftarrow> bytes_at zl (p + 1) 4;
           Some (enc, 5, push_bit 24 (unat (bs ! 0)) OR push_bit 16 (unat (bs ! 1))
                         OR push_bit 8 (unat (bs ! 2)) OR unat (bs ! 3))}
         else None)
      else Some (enc, 1, zipIntSize enc))}"

text \<open>The bytes that \<open>zipPrevEncodeLength\<close> stores; called with a null pointer it returns their number.\<close>

definition zipPrevEncodeLengthForceLarge :: "nat \<Rightarrow> bytes" where
  "zipPrevEncodeLengthForceLarge n = of_nat ZIP_BIGLEN # le_bytes 4 n"

definition zipPrevEncodeLength :: "nat \<Rightarrow> bytes" where
  "zipPrevEncodeLength n = (if n < ZIP_BIGLEN then [of_nat n] else of_nat ZIP_BIGLEN # le_bytes 4 n)"

definition ZIP_DECODE_PREVLENSIZE :: "bytes \<Rightarrow> nat \<Rightarrow> nat option" where
  "ZIP_DECODE_PREVLENSIZE zl p = do { b \<leftarrow> byte_at zl p; Some (if unat b < ZIP_BIGLEN then 1 else 5) }"

definition ZIP_DECODE_PREVLEN :: "bytes \<Rightarrow> nat \<Rightarrow> (nat \<times> nat) option" where
  "ZIP_DECODE_PREVLEN zl p = do {
     prevlensize \<leftarrow> ZIP_DECODE_PREVLENSIZE zl p;
     (if prevlensize = 1 then do { b \<leftarrow> byte_at zl p; Some (prevlensize, unat b) }
      else do { bs \<leftarrow> bytes_at zl (p + 1) 4; Some (prevlensize, le_nat bs) })}"

definition zipPrevLenByteDiff :: "bytes \<Rightarrow> nat \<Rightarrow> nat \<Rightarrow> int option" where
  "zipPrevLenByteDiff zl p n = do {
     prevlensize \<leftarrow> ZIP_DECODE_PREVLENSIZE zl p;
     Some (int (length (zipPrevEncodeLength n)) - int prevlensize)}"

definition zipRawEntryLength :: "bytes \<Rightarrow> nat \<Rightarrow> nat option" where
  "zipRawEntryLength zl p = do {
     prevlensize \<leftarrow> ZIP_DECODE_PREVLENSIZE zl p;
     (_, ls, l) \<leftarrow> ZIP_DECODE_LENGTH zl (p + prevlensize);
     Some ((prevlensize + ls + l) mod 2 ^ 32)}"

definition zipTryEncoding :: "bytes \<Rightarrow> (int \<times> byte) option" where
  "zipTryEncoding entry =
     (if length entry \<ge> 32 \<or> length entry = 0 then None
      else case string2ll entry of None \<Rightarrow> None
      | Some value \<Rightarrow>
        Some (value,
          if value \<ge> 0 \<and> value \<le> 12 then ZIP_INT_IMM_MIN + of_int value
          else if value \<ge> -128 \<and> value \<le> 127 then ZIP_INT_8B
          else if value \<ge> INT16_MIN \<and> value \<le> INT16_MAX then ZIP_INT_16B
          else if value \<ge> INT24_MIN \<and> value \<le> INT24_MAX then ZIP_INT_24B
          else if value \<ge> INT32_MIN \<and> value \<le> INT32_MAX then ZIP_INT_32B
          else ZIP_INT_64B))"

text \<open>The bytes of the payload.  24 bit integers are the upper three bytes of the value shifted by 8.\<close>

definition zipSaveInteger :: "int \<Rightarrow> byte \<Rightarrow> bytes option" where
  "zipSaveInteger value enc =
     (if enc = ZIP_INT_8B then Some (sle_bytes 1 value)
      else if enc = ZIP_INT_16B then Some (sle_bytes 2 value)
      else if enc = ZIP_INT_24B then Some (drop 1 (sle_bytes 4 (push_bit 8 value)))
      else if enc = ZIP_INT_32B then Some (sle_bytes 4 value)
      else if enc = ZIP_INT_64B then Some (sle_bytes 8 value)
      else if enc \<ge> ZIP_INT_IMM_MIN \<and> enc \<le> ZIP_INT_IMM_MAX then Some []
      else None)"

definition zipLoadInteger :: "bytes \<Rightarrow> nat \<Rightarrow> byte \<Rightarrow> int option" where
  "zipLoadInteger zl p enc =
     (if enc = ZIP_INT_8B then map_option sle_int (bytes_at zl p 1)
      else if enc = ZIP_INT_16B then map_option sle_int (bytes_at zl p 2)
      else if enc = ZIP_INT_32B then map_option sle_int (bytes_at zl p 4)
      else if enc = ZIP_INT_24B then map_option (\<lambda>bs. drop_bit 8 (sle_int (0 # bs))) (bytes_at zl p 3)
      else if enc = ZIP_INT_64B then map_option sle_int (bytes_at zl p 8)
      else if enc \<ge> ZIP_INT_IMM_MIN \<and> enc \<le> ZIP_INT_IMM_MAX then Some (uint (enc AND ZIP_INT_IMM_MASK) - 1)
      else None)"

definition zipEntry :: "bytes \<Rightarrow> nat \<Rightarrow> zlentry option" where
  "zipEntry zl p = do {
     (pls, pl) \<leftarrow> ZIP_DECODE_PREVLEN zl p;
     (enc, ls, l) \<leftarrow> ZIP_DECODE_LENGTH zl (p + pls);
     Some \<lparr>prevrawlensize = pls, prevrawlen = pl, lensize = ls, len = l, headersize = pls + ls, encoding = enc\<rparr>}"

section \<open>The list\<close>

definition ZIPLIST_HEADER_SIZE :: nat where "ZIPLIST_HEADER_SIZE = 10"
definition ZIPLIST_END_SIZE :: nat where "ZIPLIST_END_SIZE = 1"

definition ZIPLIST_BYTES :: "bytes \<Rightarrow> nat" where
  "ZIPLIST_BYTES zl = le_nat (read_at 0 4 zl)"

definition ZIPLIST_TAIL_OFFSET :: "bytes \<Rightarrow> nat" where
  "ZIPLIST_TAIL_OFFSET zl = le_nat (read_at 4 4 zl)"

definition ZIPLIST_LENGTH :: "bytes \<Rightarrow> nat" where
  "ZIPLIST_LENGTH zl = le_nat (read_at 8 2 zl)"

text \<open>Assignment to the header fields; the value is converted to the width of the field.\<close>

definition set_BYTES :: "nat \<Rightarrow> bytes \<Rightarrow> bytes option" where
  "set_BYTES v zl = put_at 0 (le_bytes 4 v) zl"

definition set_TAIL_OFFSET :: "int \<Rightarrow> bytes \<Rightarrow> bytes option" where
  "set_TAIL_OFFSET v zl = put_at 4 (sle_bytes 4 v) zl"

definition set_LENGTH :: "int \<Rightarrow> bytes \<Rightarrow> bytes option" where
  "set_LENGTH v zl = put_at 8 (sle_bytes 2 v) zl"

definition ZIPLIST_INCR_LENGTH :: "int \<Rightarrow> bytes \<Rightarrow> bytes option" where
  "ZIPLIST_INCR_LENGTH incr zl =
     (if ZIPLIST_LENGTH zl < 65535 then set_LENGTH (int (ZIPLIST_LENGTH zl) + incr) zl else Some zl)"

definition ziplistNew :: "byte \<Rightarrow> bytes option" where
  "ziplistNew u = do {
     let n = ZIPLIST_HEADER_SIZE + 1;
     zl1 \<leftarrow> set_BYTES n (replicate n u);
     zl2 \<leftarrow> set_TAIL_OFFSET (int ZIPLIST_HEADER_SIZE) zl1;
     zl3 \<leftarrow> set_LENGTH 0 zl2;
     put_at (n - 1) [ZIP_END] zl3}"

definition ziplistResize :: "byte \<Rightarrow> bytes \<Rightarrow> int \<Rightarrow> bytes option" where
  "ziplistResize u zl newlen = do {
     let n = nat (newlen mod 2 ^ 32);
     zl1 \<leftarrow> set_BYTES n (realloc u n zl);
     put_at (n - 1) [ZIP_END] zl1}"

text \<open>The loop of \<open>__ziplistCascadeUpdate\<close>; \<open>curlen\<close> is its local copy of the size.\<close>

partial_function (option) cascade_loop :: "byte \<Rightarrow> nat \<Rightarrow> bytes \<Rightarrow> nat \<Rightarrow> bytes option" where
  "cascade_loop u curlen zl p = do {
     b \<leftarrow> byte_at zl p;
     (if b = ZIP_END then Some zl
      else do {
        cur \<leftarrow> zipEntry zl p;
        let rawlen = (headersize cur + len cur) mod 2 ^ 32;
        let rawlensize = length (zipPrevEncodeLength rawlen);
        b1 \<leftarrow> byte_at zl (p + rawlen);
        (if b1 = ZIP_END then Some zl
         else do {
           nxt \<leftarrow> zipEntry zl (p + rawlen);
           (if prevrawlen nxt = rawlen then Some zl
            else if prevrawlensize nxt < rawlensize then do {
              let extra = rawlensize - prevrawlensize nxt;
              zl1 \<leftarrow> ziplistResize u zl (int (curlen + extra));
              let np = p + rawlen;
              zl2 \<leftarrow> (if ZIPLIST_TAIL_OFFSET zl1 \<noteq> np
                      then set_TAIL_OFFSET (int (ZIPLIST_TAIL_OFFSET zl1 + extra)) zl1 else Some zl1);
              zl3 \<leftarrow> move_at (np + rawlensize) (np + prevrawlensize nxt) (size_t (int curlen - int np - int (prevrawlensize nxt) - 1)) zl2;
              zl4 \<leftarrow> put_at np (zipPrevEncodeLength rawlen) zl3;
              cascade_loop u (curlen + extra) zl4 (p + rawlen)}
            else if prevrawlensize nxt > rawlensize then
              put_at (p + rawlen) (zipPrevEncodeLengthForceLarge rawlen) zl
            else put_at (p + rawlen) (zipPrevEncodeLength rawlen) zl)})})}"

definition ziplistCascadeUpdate :: "byte \<Rightarrow> bytes \<Rightarrow> nat \<Rightarrow> bytes option" where
  "ziplistCascadeUpdate u zl p = cascade_loop u (ZIPLIST_BYTES zl) zl p"

text \<open>The loop of \<open>__ziplistDelete\<close>: the pointer behind the deleted entries, and their number.\<close>

fun delete_scan :: "bytes \<Rightarrow> nat \<Rightarrow> nat \<Rightarrow> nat \<Rightarrow> (nat \<times> nat) option" where
  "delete_scan zl 0 p deleted = do { b \<leftarrow> byte_at zl p; Some (p, deleted) }"
| "delete_scan zl (Suc num) p deleted = do {
     b \<leftarrow> byte_at zl p;
     (if b = ZIP_END then Some (p, deleted)
      else do {
        n \<leftarrow> zipRawEntryLength zl p;
        delete_scan zl num (p + n) (deleted + 1)})}"

definition ziplistDelete_raw :: "byte \<Rightarrow> bytes \<Rightarrow> nat \<Rightarrow> nat \<Rightarrow> bytes option" where
  "ziplistDelete_raw u zl p0 num = do {
     first \<leftarrow> zipEntry zl p0;
     (p1, deleted) \<leftarrow> delete_scan zl num p0 0;
     let totlen = (p1 - p0) mod 2 ^ 32;
     (if totlen > 0 then do {
        b \<leftarrow> byte_at zl p1;
        (zl3, nextdiff) \<leftarrow>
          (if b \<noteq> ZIP_END then do {
             nextdiff \<leftarrow> zipPrevLenByteDiff zl p1 (prevrawlen first);
             let p2 = nat (int p1 - nextdiff);
             zl1 \<leftarrow> put_at p2 (zipPrevEncodeLength (prevrawlen first)) zl;
             zl1 \<leftarrow> set_TAIL_OFFSET (int (ZIPLIST_TAIL_OFFSET zl1) - int totlen) zl1;
             tail \<leftarrow> zipEntry zl1 p2;
             b1 \<leftarrow> byte_at zl1 (p2 + (headersize tail + len tail) mod 2 ^ 32);
             zl2 \<leftarrow> (if b1 \<noteq> ZIP_END then set_TAIL_OFFSET (int (ZIPLIST_TAIL_OFFSET zl1) + nextdiff) zl1 else Some zl1);
             zl3 \<leftarrow> move_at p0 p2 (size_t (int (ZIPLIST_BYTES zl2) - int p2 - 1)) zl2;
             Some (zl3, nextdiff)}
           else do {
             zl3 \<leftarrow> set_TAIL_OFFSET (int p0 - int (prevrawlen first)) zl;
             Some (zl3, 0)});
        zl4 \<leftarrow> ziplistResize u zl3 (int (ZIPLIST_BYTES zl3) - int totlen + nextdiff);
        zl5 \<leftarrow> ZIPLIST_INCR_LENGTH (- int deleted) zl4;
        (if nextdiff \<noteq> 0 then ziplistCascadeUpdate u zl5 p0 else Some zl5)}
      else Some zl)}"

definition ziplistInsert_raw :: "byte \<Rightarrow> bytes \<Rightarrow> nat \<Rightarrow> bytes \<Rightarrow> bytes option" where
  "ziplistInsert_raw u zl p s = do {
     let curlen = ZIPLIST_BYTES zl;
     b \<leftarrow> byte_at zl p;
     prevlen \<leftarrow>
       (if b \<noteq> ZIP_END then map_option snd (ZIP_DECODE_PREVLEN zl p)
        else do {
          t \<leftarrow> byte_at zl (ZIPLIST_TAIL_OFFSET zl);
          (if t \<noteq> ZIP_END then zipRawEntryLength zl (ZIPLIST_TAIL_OFFSET zl) else Some 0)});
     let (value, enc, paylen) =
       (case zipTryEncoding s of Some (value, enc) \<Rightarrow> (value, enc, zipIntSize enc) | None \<Rightarrow> (123456789, 0, length s));
     let reqlen = paylen + length (zipPrevEncodeLength prevlen) + length (zipEncodeLength enc (length s));
     nextdiff \<leftarrow> (if b \<noteq> ZIP_END then zipPrevLenByteDiff zl p reqlen else Some 0);
     zl1 \<leftarrow> ziplistResize u zl (int curlen + int reqlen + nextdiff);
     b1 \<leftarrow> byte_at zl1 p;
     zl4 \<leftarrow>
       (if b1 \<noteq> ZIP_END then do {
          zl2 \<leftarrow> move_at (p + reqlen) (nat (int p - nextdiff)) (size_t (int curlen - int p - 1 + nextdiff)) zl1;
          zl2 \<leftarrow> put_at (p + reqlen) (zipPrevEncodeLength reqlen) zl2;
          zl3 \<leftarrow> set_TAIL_OFFSET (int (ZIPLIST_TAIL_OFFSET zl2) + int reqlen) zl2;
          tail \<leftarrow> zipEntry zl3 (p + reqlen);
          b2 \<leftarrow> byte_at zl3 (p + reqlen + headersize tail + len tail);
          (if b2 \<noteq> ZIP_END then set_TAIL_OFFSET (int (ZIPLIST_TAIL_OFFSET zl3) + nextdiff) zl3 else Some zl3)}
        else set_TAIL_OFFSET (int p) zl1);
     zl5 \<leftarrow> (if nextdiff \<noteq> 0 then ziplistCascadeUpdate u zl4 (p + reqlen) else Some zl4);
     let prevfield = zipPrevEncodeLength prevlen;
     zl6 \<leftarrow> put_at p prevfield zl5;
     let lenfield = zipEncodeLength enc (length s);
     zl7 \<leftarrow> put_at (p + length prevfield) lenfield zl6;
     payload \<leftarrow> (if ZIP_IS_STR enc then Some s else zipSaveInteger value enc);
     zl8 \<leftarrow> put_at (p + length prevfield + length lenfield) payload zl7;
     ZIPLIST_INCR_LENGTH 1 zl8}"

text \<open>\<open>ziplistMerge\<close>: the arguments are what \<open>*first\<close> and \<open>*second\<close> point to; \<open>same\<close>: they are the same block.
  The result is the merged list with the new values of \<open>*first\<close> and \<open>*second\<close>, or \<open>NULL\<close>.\<close>

definition ziplistMerge :: "byte \<Rightarrow> bool \<Rightarrow> bytes option \<Rightarrow> bytes option \<Rightarrow> (bytes option \<times> bytes option \<times> bytes option) option" where
  "ziplistMerge u same fst_p snd_p =
     (case (fst_p, snd_p) of
        (Some first, Some second) \<Rightarrow>
          if same then Some (None, fst_p, snd_p)
          else do {
            let first_bytes = ZIPLIST_BYTES first;
            let first_len = ZIPLIST_LENGTH first;
            let second_bytes = ZIPLIST_BYTES second;
            let second_len = ZIPLIST_LENGTH second;
            let append = (first_len \<ge> second_len);
            let (target, target_bytes, source, source_bytes) =
              (if append then (first, first_bytes, second, second_bytes) else (second, second_bytes, first, first_bytes));
            let zlbytes = first_bytes + second_bytes - ZIPLIST_HEADER_SIZE - ZIPLIST_END_SIZE;
            let zllength = (if first_len + second_len < 65535 then first_len + second_len else 65535);
            let first_offset = ZIPLIST_TAIL_OFFSET first;
            let second_offset = ZIPLIST_TAIL_OFFSET second;
            let target = realloc u zlbytes target;
            target \<leftarrow>
              (if append then do {
                 src \<leftarrow> bytes_at source ZIPLIST_HEADER_SIZE (source_bytes - ZIPLIST_HEADER_SIZE);
                 put_at (target_bytes - ZIPLIST_END_SIZE) src target}
               else do {
                 target \<leftarrow> move_at (source_bytes - ZIPLIST_END_SIZE) ZIPLIST_HEADER_SIZE
                             (target_bytes - ZIPLIST_HEADER_SIZE) target;
                 src \<leftarrow> bytes_at source 0 (source_bytes - ZIPLIST_END_SIZE);
                 put_at 0 src target});
            target \<leftarrow> set_BYTES zlbytes target;
            target \<leftarrow> set_LENGTH (int zllength) target;
            target \<leftarrow> set_TAIL_OFFSET (int first_bytes - int ZIPLIST_END_SIZE + (int second_offset - int ZIPLIST_HEADER_SIZE)) target;
            target \<leftarrow> ziplistCascadeUpdate u target first_offset;
            Some (Some target, if append then (Some target, None) else (None, Some target))}
      | _ \<Rightarrow> Some (None, fst_p, snd_p))"

definition ziplistPush :: "byte \<Rightarrow> bytes \<Rightarrow> bytes \<Rightarrow> bool \<Rightarrow> bytes option" where
  "ziplistPush u zl s at_head =
     ziplistInsert_raw u zl (if at_head then ZIPLIST_HEADER_SIZE else ZIPLIST_BYTES zl - 1) s"

partial_function (option) index_backward :: "bytes \<Rightarrow> nat \<Rightarrow> nat \<Rightarrow> int \<Rightarrow> (nat \<times> int) option" where
  "index_backward zl p prevlen index =
     (if prevlen > 0 then
        (if index \<noteq> 0 then
           (if prevlen > p then None
            else do {
              (_, prevlen') \<leftarrow> ZIP_DECODE_PREVLEN zl (p - prevlen);
              index_backward zl (p - prevlen) prevlen' (index - 1)})
         else Some (p, index - 1))
      else Some (p, index))"

partial_function (option) index_forward :: "bytes \<Rightarrow> nat \<Rightarrow> int \<Rightarrow> (nat \<times> int) option" where
  "index_forward zl p index = do {
     b \<leftarrow> byte_at zl p;
     (if b \<noteq> ZIP_END then
        (if index \<noteq> 0 then do {
           n \<leftarrow> zipRawEntryLength zl p;
           index_forward zl (p + n) (index - 1)}
         else Some (p, index - 1))
      else Some (p, index))}"

text \<open>The negation of the smallest \<open>int\<close> is undefined.  The inner \<open>None\<close> is \<open>NULL\<close>.\<close>

definition ziplistIndex :: "bytes \<Rightarrow> int \<Rightarrow> nat option option" where
  "ziplistIndex zl index = do {
     (p, index') \<leftarrow>
       (if index < 0 then
          (if index = INT32_MIN then None
           else do {
             let index1 = - index - 1;
             let p = ZIPLIST_TAIL_OFFSET zl;
             b \<leftarrow> byte_at zl p;
             (if b \<noteq> ZIP_END then do {
                (_, prevlen) \<leftarrow> ZIP_DECODE_PREVLEN zl p;
                index_backward zl p prevlen index1}
              else Some (p, index1))})
        else index_forward zl ZIPLIST_HEADER_SIZE index);
     b \<leftarrow> byte_at zl p;
     Some (if b = ZIP_END \<or> index' > 0 then None else Some p)}"

definition ziplistNext :: "bytes \<Rightarrow> nat \<Rightarrow> nat option option" where
  "ziplistNext zl p = do {
     b \<leftarrow> byte_at zl p;
     (if b = ZIP_END then Some None
      else do {
        n \<leftarrow> zipRawEntryLength zl p;
        b1 \<leftarrow> byte_at zl (p + n);
        Some (if b1 = ZIP_END then None else Some (p + n))})}"

definition ziplistPrev :: "bytes \<Rightarrow> nat \<Rightarrow> nat option option" where
  "ziplistPrev zl p = do {
     b \<leftarrow> byte_at zl p;
     (if b = ZIP_END then do {
        t \<leftarrow> byte_at zl (ZIPLIST_TAIL_OFFSET zl);
        Some (if t = ZIP_END then None else Some (ZIPLIST_TAIL_OFFSET zl))}
      else if p = ZIPLIST_HEADER_SIZE then Some None
      else do {
        (_, prevlen) \<leftarrow> ZIP_DECODE_PREVLEN zl p;
        (if prevlen > 0 \<and> prevlen \<le> p then Some (Some (p - prevlen)) else None)})}"

datatype zval = ZStr bytes | ZInt int

definition ziplistGet :: "bytes \<Rightarrow> nat option \<Rightarrow> zval option option" where
  "ziplistGet zl ptr =
     (case ptr of None \<Rightarrow> Some None
      | Some p \<Rightarrow> do {
          b \<leftarrow> byte_at zl p;
          (if b = ZIP_END then Some None
           else do {
             e \<leftarrow> zipEntry zl p;
             (if ZIP_IS_STR (encoding e) then map_option (\<lambda>bs. Some (ZStr bs)) (bytes_at zl (p + headersize e) (len e))
              else map_option (\<lambda>v. Some (ZInt v)) (zipLoadInteger zl (p + headersize e) (encoding e)))})})"

definition ziplistInsert :: "byte \<Rightarrow> bytes \<Rightarrow> nat \<Rightarrow> bytes \<Rightarrow> bytes option" where
  "ziplistInsert u zl p s = ziplistInsert_raw u zl p s"

definition ziplistDelete :: "byte \<Rightarrow> bytes \<Rightarrow> nat \<Rightarrow> (bytes \<times> nat) option" where
  "ziplistDelete u zl p = do { zl' \<leftarrow> ziplistDelete_raw u zl p 1; Some (zl', p) }"

definition ziplistDeleteRange :: "byte \<Rightarrow> bytes \<Rightarrow> int \<Rightarrow> nat \<Rightarrow> bytes option" where
  "ziplistDeleteRange u zl index num = do {
     p \<leftarrow> ziplistIndex zl index;
     (case p of None \<Rightarrow> Some zl | Some p \<Rightarrow> ziplistDelete_raw u zl p num)}"

definition ziplistCompare :: "bytes \<Rightarrow> nat \<Rightarrow> bytes \<Rightarrow> bool option" where
  "ziplistCompare zl p sstr = do {
     b \<leftarrow> byte_at zl p;
     (if b = ZIP_END then Some False
      else do {
        e \<leftarrow> zipEntry zl p;
        (if ZIP_IS_STR (encoding e) then
           (if len e = length sstr then map_option (\<lambda>bs. bs = sstr) (bytes_at zl (p + headersize e) (length sstr))
            else Some False)
         else (case zipTryEncoding sstr of
             Some (sval, _) \<Rightarrow> map_option (\<lambda>zval. zval = sval) (zipLoadInteger zl (p + headersize e) (encoding e))
           | None \<Rightarrow> Some False))})}"

text \<open>\<open>ziplistFind\<close>; \<open>vencoding\<close> is 0 until the first comparison with an integer, then the encoding of the
  searched string, or \<open>UCHAR_MAX\<close> when it is not an integer.\<close>

partial_function (option) find_loop :: "bytes \<Rightarrow> bytes \<Rightarrow> nat \<Rightarrow> nat \<Rightarrow> nat \<Rightarrow> byte \<Rightarrow> int \<Rightarrow> nat option option" where
  "find_loop zl vstr skip p skipcnt vencoding vll = do {
     b \<leftarrow> byte_at zl p;
     (if b = ZIP_END then Some None
      else do {
        prevlensize \<leftarrow> ZIP_DECODE_PREVLENSIZE zl p;
        (enc, ls, l) \<leftarrow> ZIP_DECODE_LENGTH zl (p + prevlensize);
        let q = p + prevlensize + ls;
        (if skipcnt = 0 then
           (if ZIP_IS_STR enc then do {
              hit \<leftarrow> (if l = length vstr then map_option (\<lambda>bs. bs = vstr) (bytes_at zl q (length vstr)) else Some False);
              (if hit then Some (Some p) else find_loop zl vstr skip (q + l) skip vencoding vll)}
            else do {
              let (ve, vl) = (if vencoding = 0 then
                 (case zipTryEncoding vstr of Some (v, e) \<Rightarrow> (e, v) | None \<Rightarrow> (255, vll)) else (vencoding, vll));
              (if ve = 0 then None
               else do {
                 hit \<leftarrow> (if ve \<noteq> 255 then map_option (\<lambda>ll. ll = vl) (zipLoadInteger zl q enc) else Some False);
                 (if hit then Some (Some p) else find_loop zl vstr skip (q + l) skip ve vl)})})
         else find_loop zl vstr skip (q + l) (skipcnt - 1) vencoding vll)})}"

definition ziplistFind :: "bytes \<Rightarrow> nat \<Rightarrow> bytes \<Rightarrow> nat \<Rightarrow> nat option option" where
  "ziplistFind zl p vstr skip = find_loop zl vstr skip p 0 0 0"

partial_function (option) len_loop :: "bytes \<Rightarrow> nat \<Rightarrow> nat \<Rightarrow> nat option" where
  "len_loop zl p n = do {
     b \<leftarrow> byte_at zl p;
     (if b = ZIP_END then Some n
      else do {
        k \<leftarrow> zipRawEntryLength zl p;
        len_loop zl (p + k) (n + 1)})}"

definition ziplistLen :: "bytes \<Rightarrow> (bytes \<times> nat) option" where
  "ziplistLen zl =
     (if ZIPLIST_LENGTH zl < 65535 then Some (zl, ZIPLIST_LENGTH zl)
      else do {
        n \<leftarrow> len_loop zl ZIPLIST_HEADER_SIZE 0;
        zl' \<leftarrow> (if n < 65535 then set_LENGTH (int n) zl else Some zl);
        Some (zl', n)})"

definition ziplistBlobLen :: "bytes \<Rightarrow> nat" where
  "ziplistBlobLen zl = ZIPLIST_BYTES zl"

end
