(* ===== verification/ZiplistLayout.thy ===== *)
theory ZiplistLayout
  imports Ziplist
begin

text \<open>
  The bytes of a ziplist, as a specification: the header, the entries one after the other, the end marker.
  An entry is its flag (the field for the previous length has five bytes) and its string; \<open>zbody\<close> is what
  follows that field.  The lemmas say that the decoding macros read an entry back wherever it stands.
\<close>

section \<open>Reading and writing inside a concatenation\<close>

lemma byte_at_append [simp]: "byte_at (xs @ y # ys) (length xs) = Some y"
  by (simp add: byte_at_def)

lemma byte_at_shift: "p \<ge> length xs \<Longrightarrow> byte_at (xs @ ys) p = byte_at ys (p - length xs)"
  by (auto simp: byte_at_def nth_append)

lemma bytes_at_shift: "p \<ge> length xs \<Longrightarrow> bytes_at (xs @ ys) p n = bytes_at ys (p - length xs) n"
  by (auto simp: bytes_at_def read_at_def)

lemma bytes_at_take: "n = length ys \<Longrightarrow> bytes_at (ys @ zs) 0 n = Some ys"
  by (simp add: bytes_at_def read_at_def)

lemma bytes_at_mid: "p = length xs \<Longrightarrow> n = length ys \<Longrightarrow> bytes_at (xs @ ys @ zs) p n = Some ys"
  by (simp add: bytes_at_def read_at_def)

lemma put_at_mid: "p = length xs \<Longrightarrow> length bs = length ys \<Longrightarrow> put_at p bs (xs @ ys @ zs) = Some (xs @ bs @ zs)"
  by (simp add: put_at_def write_at_def)

lemma put_at_shift: "p \<ge> length xs \<Longrightarrow> put_at p bs (xs @ ys) = map_option (append xs) (put_at (p - length xs) bs ys)"
  by (auto simp: put_at_def write_at_def)

lemma move_at_up:
  assumes "src = length xs" and "n = length ys" and "dst = length zs" and "length zs + length ys = length (xs @ ys @ ws)"
    and "length xs \<le> length zs" and "take (length zs) (xs @ ys @ ws) = zs"
  shows "move_at dst src n (xs @ ys @ ws) = Some (zs @ ys)"
  using assms by (simp add: move_at_def memmove_def write_at_def read_at_def)

section \<open>The fields of an entry\<close>

definition str_byte :: "nat \<Rightarrow> byte" where
  "str_byte n = (if n < 64 then 0 else if n < 128 then 0x40 else 0x80)"

lemma string_bytes_all:
  "list_all (\<lambda>n. let b = of_nat n :: byte in ZIP_IS_STR b = (n < 192) \<and> (b < 0xC0) = (n < 192)
     \<and> (n < 192 \<longrightarrow> b AND 0xC0 = str_byte n)) [0..<256]"
  by (simp add: upt_rec [of _ "numeral _"] ZIP_IS_STR_def zip_consts str_byte_def)

lemma string_bytes:
  "ZIP_IS_STR b \<longleftrightarrow> unat b < 192" "(b < 0xC0) \<longleftrightarrow> unat b < 192" "unat b < 192 \<Longrightarrow> b AND 0xC0 = str_byte (unat b)"
proof -
  have "list_all (\<lambda>n. ZIP_IS_STR (of_nat n) = (unat (of_nat n :: byte) < 192) \<and> ((of_nat n :: byte) < 0xC0) = (unat (of_nat n :: byte) < 192)
     \<and> (unat (of_nat n :: byte) < 192 \<longrightarrow> (of_nat n :: byte) AND 0xC0 = str_byte (unat (of_nat n :: byte)))) [0..<256]"
    using string_bytes_all by (simp add: list_all_iff Let_def del: of_nat_numeral)
  from byte_all [OF this, of b]
  show "ZIP_IS_STR b \<longleftrightarrow> unat b < 192" "(b < 0xC0) \<longleftrightarrow> unat b < 192" "unat b < 192 \<Longrightarrow> b AND 0xC0 = str_byte (unat b)"
    by blast+
qed

lemma zipEncodeLength_string: "n < 2 ^ 32 \<Longrightarrow> zipEncodeLength 0 n = len_bytes n"
  using or_64 [of "n div 256"] mod_less [of "n div 256" 64]
  by (simp add: zipEncodeLength_def string_bytes zip_consts len_bytes_def be_bytes_4 nat_and_255 byte_of_nat_mod
      drop_bit_eq_div or.commute [of 64] nat_and_63)

lemma decode_string_length:
  assumes "n < 2 ^ 32"
  shows "ZIP_DECODE_LENGTH (xs @ len_bytes n @ ys) (length xs) = Some (str_byte (unat (hd (len_bytes n))), length (len_bytes n), n)"
proof -
  consider "n < 64" | "64 \<le> n" "n < 16384" | "16384 \<le> n" by linarith
  then show ?thesis
  proof cases
    case 1
    then show ?thesis
      by (simp add: ZIP_DECODE_LENGTH_def ZIP_ENTRY_ENCODING_def zip_consts len_bytes_def string_bytes str_byte_def low_bits)
  next
    case 2
    define b :: byte where "b = of_nat (n div 256) + 64"
    have "n div 256 < 64" using 2 by linarith
    then have u: "unat b = n div 256 + 64" by (simp add: b_def unat_word_ariths)
    have "push_bit 8 (n div 256) OR n mod 256 = n" using join_bytes [of "n mod 256" "n div 256"] by simp
    then show ?thesis using 2 u \<open>n div 256 < 64\<close>
      by (simp add: ZIP_DECODE_LENGTH_def ZIP_ENTRY_ENCODING_def zip_consts len_bytes_def b_def [symmetric] string_bytes
          str_byte_def low_bits byte_at_shift) (simp add: byte_at_def)
  next
    case 3
    have "bytes_at (xs @ 128 # be_bytes 4 n @ ys) (Suc (length xs)) 4 = Some (be_bytes 4 n)"
      using bytes_at_mid [of "Suc (length xs)" "xs @ [128]" 4 "be_bytes 4 n" ys] by simp
    moreover have "push_bit 24 (n div 16777216 mod 256) OR push_bit 16 (n div 65536 mod 256) OR push_bit 8 (n div 256 mod 256) OR n mod 256 = n"
    proof -
      have "((n div 16777216 mod 256 * 256 + n div 65536 mod 256) * 256 + n div 256 mod 256) * 256 + n mod 256
          = be_nat (be_bytes 4 n)"
        by (simp only: be_bytes_4 be_nat_def rev.simps append.simps le_nat.simps unat_of_nat_byte) simp
      also have "\<dots> = n" using assms by simp
      finally show ?thesis by (subst join_four; (intro mod_less_divisor)?) (assumption | simp only: zero_less_numeral)+
    qed
    ultimately show ?thesis using 3
      by (simp add: ZIP_DECODE_LENGTH_def ZIP_ENTRY_ENCODING_def zip_consts len_bytes_def string_bytes str_byte_def be_bytes_4)
  qed
qed

text \<open>The payload of an integer.\<close>

definition int_payload :: "int \<Rightarrow> byte \<Rightarrow> bytes" where
  "int_payload v enc = (case zipSaveInteger v enc of Some bs \<Rightarrow> bs | None \<Rightarrow> [])"

lemma byte_of_int_mult: "(of_int (v * 256) :: byte) = 0"
proof -
  have "(256 :: byte) = 0" by (simp add: word_uint_eq_iff)
  then show ?thesis by (simp only: of_int_mult of_int_numeral) simp
qed

lemma immediate_all:
  "list_all (\<lambda>i. let b = 0xf1 + of_nat i :: byte in 192 \<le> unat b \<and> b \<notin> {255, 0, 0xfe, 0xc0, 0xf0, 0xd0, 0xe0}
     \<and> 0xf1 \<le> b \<and> b \<le> 0xfd \<and> uint (b AND 0x0f) - 1 = int i) [0..<13]"
  by (simp add: upt_rec [of _ "numeral _"])

lemma zipTryEncodingD:
  assumes "zipTryEncoding s = Some (v, enc)"
  shows "in_int64 v" and "s = sdec v" and "192 \<le> unat enc" and "enc \<noteq> 255" and "enc \<noteq> 0"
    and "zipSaveInteger v enc = Some (int_payload v enc)" and "length (int_payload v enc) = zipIntSize enc"
    and "zipLoadInteger (xs @ int_payload v enc @ ys) (length xs) enc = Some v"
    and "zipIntSize enc \<le> 8"
proof -
  show v: "in_int64 v" "s = sdec v" using assms by (auto simp: zipTryEncoding_def split: if_splits option.splits dest: string2ll_sound)
  have e: "enc = (if v \<ge> 0 \<and> v \<le> 12 then ZIP_INT_IMM_MIN + of_int v
          else if v \<ge> -128 \<and> v \<le> 127 then ZIP_INT_8B
          else if v \<ge> INT16_MIN \<and> v \<le> INT16_MAX then ZIP_INT_16B
          else if v \<ge> INT24_MIN \<and> v \<le> INT24_MAX then ZIP_INT_24B
          else if v \<ge> INT32_MIN \<and> v \<le> INT32_MAX then ZIP_INT_32B
          else ZIP_INT_64B)"
    using assms by (auto simp: zipTryEncoding_def split: if_splits option.splits)
  consider i where "i \<le> 12" "v = int i" "enc = 0xf1 + of_nat i"
    | "enc = 0xfe" "-128 \<le> v" "v \<le> 127" | "enc = 0xc0" "- 32768 \<le> v" "v \<le> 32767"
    | "enc = 0xf0" "- 8388608 \<le> v" "v \<le> 8388607" | "enc = 0xd0" "- 2147483648 \<le> v" "v \<le> 2147483647"
    | "enc = 0xe0"
    using e that(1) [of "nat v"] that(2-) by (simp add: zip_consts range_simps of_nat_nat split: if_splits)
  then have "192 \<le> unat enc \<and> enc \<noteq> 255 \<and> enc \<noteq> 0 \<and> zipSaveInteger v enc = Some (int_payload v enc)
    \<and> length (int_payload v enc) = zipIntSize enc \<and> zipIntSize enc \<le> 8
    \<and> zipLoadInteger (xs @ int_payload v enc @ ys) (length xs) enc = Some v"
  proof cases
    case 1
    have "let b = enc in 192 \<le> unat b \<and> b \<notin> {255, 0, 0xfe, 0xc0, 0xf0, 0xd0, 0xe0}
        \<and> 0xf1 \<le> b \<and> b \<le> 0xfd \<and> uint (b AND 0x0f) - 1 = v"
      using immediate_all 1 unfolding list_all_iff by (auto simp del: Let_def)
    then show ?thesis
      by (simp add: zipSaveInteger_def int_payload_def zipLoadInteger_def zipIntSize_def zip_consts)
  next
    case 2
    then show ?thesis
      by (simp add: zipSaveInteger_def int_payload_def zipLoadInteger_def zip_consts zipIntSize_def bytes_at_mid sle_int_sle_bytes)
  next
    case 3
    then show ?thesis
      by (simp add: zipSaveInteger_def int_payload_def zipLoadInteger_def zip_consts zipIntSize_def bytes_at_mid sle_int_sle_bytes)
  next
    case 4
    have b: "sle_bytes 4 (push_bit 8 v) = 0 # drop 1 (sle_bytes 4 (push_bit 8 v))"
      using byte_of_int_mult [of v] by (simp add: sle_bytes_widths push_bit_eq_mult)
    have "drop_bit 8 (sle_int (sle_bytes 4 (push_bit 8 v))) = v"
      using 4 by (subst sle_int_sle_bytes) (auto simp: push_bit_eq_mult drop_bit_eq_div)
    then show ?thesis using 4 b [symmetric]
      by (simp add: zipSaveInteger_def int_payload_def zipLoadInteger_def zip_consts zipIntSize_def bytes_at_mid)
  next
    case 5
    then show ?thesis
      by (simp add: zipSaveInteger_def int_payload_def zipLoadInteger_def zip_consts zipIntSize_def bytes_at_mid sle_int_sle_bytes)
  next
    case 6
    then show ?thesis using v(1)
      by (simp add: zipSaveInteger_def int_payload_def zipLoadInteger_def zip_consts zipIntSize_def bytes_at_mid sle_int_sle_bytes range_simps)
  qed
  then show "192 \<le> unat enc" "enc \<noteq> 255" "enc \<noteq> 0" "zipSaveInteger v enc = Some (int_payload v enc)"
    "length (int_payload v enc) = zipIntSize enc" "zipIntSize enc \<le> 8"
    "zipLoadInteger (xs @ int_payload v enc @ ys) (length xs) enc = Some v" by blast+
qed

section \<open>Entries and lists\<close>

definition zbody :: "bytes \<Rightarrow> bytes" where
  "zbody s = (case zipTryEncoding s of Some (v, enc) \<Rightarrow> enc # int_payload v enc | None \<Rightarrow> len_bytes (length s) @ s)"

definition prev_field :: "bool \<Rightarrow> nat \<Rightarrow> bytes" where
  "prev_field large n = (if large then 254 # le_bytes 4 n else [of_nat n])"

definition fits :: "bool \<Rightarrow> nat \<Rightarrow> bool" where
  "fits large n \<longleftrightarrow> n < 2 ^ 32 \<and> (n < 254 \<or> large)"

lemma zipPrevEncodeLength_field: "zipPrevEncodeLength n = prev_field (n \<ge> 254) n"
  by (simp add: zipPrevEncodeLength_def prev_field_def zip_consts)

lemma zipPrevEncodeLengthForceLarge_field: "zipPrevEncodeLengthForceLarge n = prev_field True n"
  by (simp add: zipPrevEncodeLengthForceLarge_def prev_field_def zip_consts)

lemma length_prev_field [simp]: "length (prev_field large n) = (if large then 5 else 1)"
  by (simp add: prev_field_def)

lemma prev_field_Cons: "fits large n \<Longrightarrow> \<exists>b bs. prev_field large n = b # bs \<and> b \<noteq> 255 \<and> (unat b < 254 \<longleftrightarrow> \<not> large)"
proof -
  assume "fits large n"
  moreover have "n < 254 \<Longrightarrow> (of_nat n :: byte) \<noteq> 255" by (simp add: word_unat_eq_iff)
  ultimately show ?thesis by (auto simp: prev_field_def fits_def)
qed

lemma first_byte: "fits large n \<Longrightarrow> \<exists>b. b \<noteq> ZIP_END \<and> byte_at (xs @ prev_field large n @ ys) (length xs) = Some b"
  using prev_field_Cons [of large n] by (auto simp: zip_consts)

lemma decode_prevlensize:
  "fits large n \<Longrightarrow> ZIP_DECODE_PREVLENSIZE (xs @ prev_field large n @ ys) (length xs) = Some (if large then 5 else 1)"
  using prev_field_Cons [of large n] by (auto simp: ZIP_DECODE_PREVLENSIZE_def zip_consts)

lemma decode_prevlen:
  assumes "fits large n"
  shows "ZIP_DECODE_PREVLEN (xs @ prev_field large n @ ys) (length xs) = Some (if large then 5 else 1, n)"
proof (cases large)
  case True
  have "bytes_at (xs @ 254 # le_bytes 4 n @ ys) (Suc (length xs)) 4 = Some (le_bytes 4 n)"
    using bytes_at_mid [of "Suc (length xs)" "xs @ [254]" 4 "le_bytes 4 n" ys] by simp
  then show ?thesis using True assms decode_prevlensize [OF assms, of xs ys]
    by (simp add: ZIP_DECODE_PREVLEN_def prev_field_def fits_def)
next
  case False
  then show ?thesis using assms decode_prevlensize [OF assms, of xs ys]
    by (simp add: ZIP_DECODE_PREVLEN_def prev_field_def fits_def)
qed

lemma prevlen_diff:
  "fits large n \<Longrightarrow> zipPrevLenByteDiff (xs @ prev_field large n @ ys) (length xs) m
     = Some ((if m \<ge> 254 then 5 else 1) - (if large then 5 else 1))"
  using decode_prevlensize [of large n xs ys] by (simp add: zipPrevLenByteDiff_def zipPrevEncodeLength_field)

text \<open>The encoding byte of an entry and the sizes of its length field and payload.\<close>

definition body_enc :: "bytes \<Rightarrow> byte" where
  "body_enc s = (case zipTryEncoding s of Some (v, enc) \<Rightarrow> enc | None \<Rightarrow> str_byte (unat (hd (len_bytes (length s)))))"

definition body_lensize :: "bytes \<Rightarrow> nat" where
  "body_lensize s = (case zipTryEncoding s of Some (v, enc) \<Rightarrow> 1 | None \<Rightarrow> length (len_bytes (length s)))"

definition body_len :: "bytes \<Rightarrow> nat" where
  "body_len s = (case zipTryEncoding s of Some (v, enc) \<Rightarrow> zipIntSize enc | None \<Rightarrow> length s)"

lemma length_zbody: "length (zbody s) = body_lensize s + body_len s"
  by (auto simp: zbody_def body_lensize_def body_len_def zipTryEncodingD(7) split: option.splits)

lemma length_zbody_bound: "length (zbody s) \<le> length s + 9" "0 < length (zbody s)"
proof -
  have n: "length (len_bytes n) \<le> 5" "0 < length (len_bytes n)" for n by (simp_all add: len_bytes_def)
  show "length (zbody s) \<le> length s + 9"
    using n(1) [of "length s"]
    by (auto simp: zbody_def zipTryEncodingD(7) split: option.splits dest: zipTryEncodingD(9) simp del: length_0_conv)
  show "0 < length (zbody s)" using n(2) [of "length s"] by (auto simp: zbody_def split: option.splits)
qed

lemma decode_body:
  assumes "length s < 2 ^ 32"
  shows "ZIP_DECODE_LENGTH (xs @ zbody s @ ys) (length xs) = Some (body_enc s, body_lensize s, body_len s)"
proof (cases "zipTryEncoding s")
  case None
  then show ?thesis using decode_string_length [OF assms, of xs "s @ ys"]
    by (simp add: zbody_def body_enc_def body_lensize_def body_len_def)
next
  case (Some p)
  obtain v enc where p: "p = (v, enc)" by (cases p)
  have "192 \<le> unat enc" using zipTryEncodingD(3) [of s v enc] Some p by simp
  then show ?thesis using Some p
    by (simp add: zbody_def body_enc_def body_lensize_def body_len_def ZIP_DECODE_LENGTH_def ZIP_ENTRY_ENCODING_def
        zip_consts string_bytes)
qed

type_synonym zent = "bool \<times> bytes"

definition esize :: "zent \<Rightarrow> nat" where
  "esize e = (if fst e then 5 else 1) + length (zbody (snd e))"

definition zentry :: "nat \<Rightarrow> zent \<Rightarrow> bytes" where
  "zentry n e = prev_field (fst e) n @ zbody (snd e)"

fun layout :: "nat \<Rightarrow> zent list \<Rightarrow> bytes" where
  "layout n [] = []"
| "layout n (e # es) = zentry n e @ layout (esize e) es"

fun wf_layout :: "nat \<Rightarrow> zent list \<Rightarrow> bool" where
  "wf_layout n [] = True"
| "wf_layout n (e # es) \<longleftrightarrow> fits (fst e) n \<and> length (snd e) < 2 ^ 32 \<and> esize e < 2 ^ 32 \<and> wf_layout (esize e) es"

abbreviation total :: "zent list \<Rightarrow> nat" where
  "total es \<equiv> sum_list (map esize es)"

lemma length_zentry [simp]: "length (zentry n e) = esize e"
  by (simp add: zentry_def esize_def)

lemma length_layout [simp]: "length (layout n es) = total es"
  by (induction n es rule: layout.induct) auto

lemma esize_pos [simp]: "0 < esize e" "esize e \<noteq> 0"
  by (simp_all add: esize_def)

lemma esize_bound: "esize e \<le> length (snd e) + 14"
  using length_zbody_bound(1) [of "snd e"] by (simp add: esize_def)

lemma layout_append: "layout n (es @ fs) = layout n es @ layout (if es = [] then n else esize (last es)) fs"
  by (induction n es rule: layout.induct) auto

lemma wf_layout_append:
  "wf_layout n (es @ fs) \<longleftrightarrow> wf_layout n es \<and> wf_layout (if es = [] then n else esize (last es)) fs"
  by (induction n es rule: wf_layout.induct) auto

lemma layout_entry_first:
  "fits (fst e) n \<Longrightarrow> \<exists>b. b \<noteq> ZIP_END \<and> byte_at (xs @ zentry n e @ ys) (length xs) = Some b"
  using first_byte [of "fst e" n xs "zbody (snd e) @ ys"] by (simp add: zentry_def)

text \<open>What the decoders say of an entry inside a list.\<close>

definition decoded :: "nat \<Rightarrow> zent \<Rightarrow> zlentry" where
  "decoded n e = \<lparr>prevrawlensize = (if fst e then 5 else 1), prevrawlen = n, lensize = body_lensize (snd e),
     len = body_len (snd e), headersize = (if fst e then 5 else 1) + body_lensize (snd e), encoding = body_enc (snd e)\<rparr>"

lemma decoded_raw: "headersize (decoded n e) + len (decoded n e) = esize e"
  by (simp add: decoded_def esize_def length_zbody)

lemma decoded_sel [simp]: "prevrawlen (decoded n e) = n" "prevrawlensize (decoded n e) = (if fst e then 5 else 1)"
  by (simp_all add: decoded_def)

lemma entry_reads:
  assumes "fits (fst e) n" and "length (snd e) < 2 ^ 32"
  shows "zipEntry (xs @ zentry n e @ ys) (length xs) = Some (decoded n e)"
    and "esize e < 2 ^ 32 \<Longrightarrow> zipRawEntryLength (xs @ zentry n e @ ys) (length xs) = Some (esize e)"
proof -
  have d: "ZIP_DECODE_LENGTH (xs @ zentry n e @ ys) (length xs + (if fst e then 5 else 1))
      = Some (body_enc (snd e), body_lensize (snd e), body_len (snd e))"
    using decode_body [OF assms(2), of "xs @ prev_field (fst e) n" ys] by (simp add: zentry_def)
  have p: "ZIP_DECODE_PREVLEN (xs @ zentry n e @ ys) (length xs) = Some (if fst e then 5 else 1, n)"
      "ZIP_DECODE_PREVLENSIZE (xs @ zentry n e @ ys) (length xs) = Some (if fst e then 5 else 1)"
    using decode_prevlen [OF assms(1), of xs "zbody (snd e) @ ys"] decode_prevlensize [OF assms(1), of xs "zbody (snd e) @ ys"]
    by (simp_all add: zentry_def)
  show "zipEntry (xs @ zentry n e @ ys) (length xs) = Some (decoded n e)"
    using p d by (simp add: zipEntry_def decoded_def)
  show "esize e < 2 ^ 32 \<Longrightarrow> zipRawEntryLength (xs @ zentry n e @ ys) (length xs) = Some (esize e)"
    using p d by (simp add: zipRawEntryLength_def esize_def length_zbody)
qed

lemmas entry_zipEntry = entry_reads(1)
lemmas entry_raw = entry_reads(2)

text \<open>A ziplist: its header and what follows.\<close>

definition zl_mem :: "nat \<Rightarrow> nat \<Rightarrow> nat \<Rightarrow> bytes \<Rightarrow> bytes" where
  "zl_mem n t k body = le_bytes 4 n @ le_bytes 4 t @ le_bytes 2 k @ body"

lemma length_zl_mem [simp]: "length (zl_mem n t k body) = 10 + length body"
  by (simp add: zl_mem_def)

lemma zl_mem_append: "zl_mem n t k body = zl_mem n t k [] @ body"
  by (simp add: zl_mem_def)

lemma zl_mem_app: "zl_mem n t k (xs @ ys) = zl_mem n t k xs @ ys"
  by (simp add: zl_mem_def)

lemma header_reads [simp]:
  "n < 2 ^ 32 \<Longrightarrow> ZIPLIST_BYTES (zl_mem n t k body) = n"
  "t < 2 ^ 32 \<Longrightarrow> ZIPLIST_TAIL_OFFSET (zl_mem n t k body) = t"
  "k < 65536 \<Longrightarrow> ZIPLIST_LENGTH (zl_mem n t k body) = k"
  by (simp_all add: ZIPLIST_BYTES_def ZIPLIST_TAIL_OFFSET_def ZIPLIST_LENGTH_def zl_mem_def read_at_def)

lemma sle_le_bytes: "0 \<le> v \<Longrightarrow> v < 256 ^ n \<Longrightarrow> sle_bytes n v = le_bytes n (nat v)"
  by (simp add: sle_bytes_def)

lemma header_writes [simp]:
  "set_BYTES m (zl_mem n t k body) = Some (zl_mem m t k body)"
  "0 \<le> v \<Longrightarrow> v < 2 ^ 32 \<Longrightarrow> set_TAIL_OFFSET v (zl_mem n t k body) = Some (zl_mem n (nat v) k body)"
  "0 \<le> v \<Longrightarrow> v < 65536 \<Longrightarrow> set_LENGTH v (zl_mem n t k body) = Some (zl_mem n t (nat v) body)"
  by (simp_all add: set_BYTES_def set_TAIL_OFFSET_def set_LENGTH_def zl_mem_def put_at_def write_at_def sle_le_bytes)

end
