(* ===== verification/ZiplistUpdate.thy ===== *)
theory ZiplistUpdate
  imports ZiplistLayout
begin

text \<open>
  The operations that change a ziplist, on the layout of theory \<open>ZiplistLayout\<close>: the cascade repairs the
  lengths of the previous entries behind one entry whose size has changed, deletion removes a range of
  entries, insertion adds one, and each of them leaves header, layout and end marker in order.
\<close>

section \<open>Memory operations on a ziplist\<close>

lemma byte_at_mem: "byte_at (zl_mem n t k body) (10 + p) = byte_at body p"
  by (simp add: byte_at_def zl_mem_def nth_append)

lemma put_at_mem: "put_at (10 + p) bs (zl_mem n t k body) = map_option (zl_mem n t k) (put_at p bs body)"
  by (simp add: put_at_def zl_mem_def write_at_def)

lemma set_tail_nat: "x < 2 ^ 32 \<Longrightarrow> set_TAIL_OFFSET (int x) (zl_mem n t k body) = Some (zl_mem n x k body)"
  by simp

lemma move_to_end:
  assumes "src + n \<le> length M" and "dst + n + 1 = length M" and "read_at src n M = Y"
  shows "move_at dst src n M = Some (take dst M @ Y @ [last M])"
proof -
  have "drop (dst + n) M = [last M]"
    using assms(2) by (metis Cons_nth_drop_Suc add_diff_cancel_right' drop_all last_conv_nth length_greater_0_conv
        less_add_one order_refl Suc_eq_plus1 list.size(3) nat.distinct(1))
  moreover have "length Y = n" using assms by (auto simp: length_read_at)
  ultimately show ?thesis using assms by (simp add: move_at_def memmove_def write_at_def)
qed

lemma resize_grow:
  assumes "new = 11 + length B + d" and "new < 2 ^ 32"
  shows "\<exists>G. length G = d \<and> (d \<noteq> 0 \<longrightarrow> hd G = 255)
    \<and> ziplistResize u (zl_mem n t k (B @ [255])) (int new) = Some (zl_mem new t k (B @ G @ [255]))"
proof -
  define G where "G = (if d = 0 then [] else 255 # replicate (d - 1) u)"
  have r: "realloc u new (zl_mem n t k (B @ [255])) = zl_mem n t k (B @ 255 # replicate d u)"
    using assms(1) by (simp add: realloc_def zl_mem_def)
  have g: "B @ 255 # replicate d u = (B @ G) @ [if d = 0 then 255 else u] @ []"
    by (cases d) (simp_all add: G_def replicate_append_same)
  have "put_at (length (B @ G)) [255] (B @ 255 # replicate d u) = Some ((B @ G) @ [255] @ [])"
    unfolding g by (rule put_at_mid) simp_all
  moreover have "new - Suc 0 = 10 + length (B @ G)" using assms(1) by (auto simp: G_def)
  ultimately have "ziplistResize u (zl_mem n t k (B @ [255])) (int new) = Some (zl_mem new t k (B @ G @ [255]))"
    using assms(2) by (simp add: ziplistResize_def r put_at_mem zip_consts nat_mod_as_int)
  then show ?thesis by (intro exI [of _ G]) (simp add: G_def)
qed

lemma resize_shrink:
  assumes "new = 11 + length B" and "new < 2 ^ 32" and "C \<noteq> []"
  shows "ziplistResize u (zl_mem n t k (B @ C)) (int new) = Some (zl_mem new t k (B @ [255]))"
proof -
  have c: "take 1 C = [hd C]" using assms(3) by (cases C) auto
  have "realloc u new (zl_mem n t k (B @ C)) = zl_mem n t k (B @ [hd C])"
    using assms(1,3) c by (cases C) (simp_all add: realloc_def zl_mem_def)
  moreover have "put_at (length B) [255] (B @ [hd C]) = Some (B @ [255])"
    using put_at_mid [of "length B" B "[255]" "[hd C]" "[]"] by simp
  moreover have "new - Suc 0 = 10 + length B" using assms(1) by simp
  ultimately show ?thesis using assms(2) by (simp add: ziplistResize_def put_at_mem zip_consts nat_mod_as_int)
qed

section \<open>The cascade\<close>

definition cap :: "bytes list \<Rightarrow> nat" where
  "cap ss = sum_list (map (\<lambda>s. length s + 14) ss)"

lemma total_cap: "total es \<le> cap (map snd es)"
  by (induction es) (auto simp: cap_def intro: add_mono esize_bound)

lemma total_zero [simp]: "total es = 0 \<longleftrightarrow> es = []"
  by (cases es) auto

lemma total_butlast_le: "total (butlast es) \<le> total es"
  by (induction es) auto

text \<open>The state of the loop: the entry \<open>cur\<close> at the pointer, behind it entries laid out for a predecessor of
  \<open>v\<close> bytes.\<close>

definition cascade_mem :: "bytes \<Rightarrow> nat \<Rightarrow> zent \<Rightarrow> nat \<Rightarrow> zent list \<Rightarrow> nat \<Rightarrow> bytes" where
  "cascade_mem A m cur v rest k =
     zl_mem (11 + length A + total (cur # rest)) (10 + length A + total (butlast (cur # rest))) k
       (A @ zentry m cur @ layout v rest @ [255])"

definition ent_ok :: "nat \<Rightarrow> zent \<Rightarrow> bool" where
  "ent_ok n e \<longleftrightarrow> fits (fst e) n \<and> length (snd e) < 2 ^ 32 \<and> esize e < 2 ^ 32"

lemma wf_layout_Cons: "wf_layout n (e # es) \<longleftrightarrow> ent_ok n e \<and> wf_layout (esize e) es"
  by (auto simp: ent_ok_def)

declare wf_layout.simps(2) [simp del]

lemma cascade_mem_at:
  "\<exists>X. length X = 10 + length A \<and> cascade_mem A m cur v rest k = X @ zentry m cur @ layout v rest @ [255]"
  by (rule exI [of _ "zl_mem (11 + length A + total (cur # rest)) (10 + length A + total (butlast (cur # rest))) k A"])
     (simp add: cascade_mem_def zl_mem_app)

lemma cascade_reads:
  assumes "ent_ok m cur"
  shows "\<exists>b. b \<noteq> ZIP_END \<and> byte_at (cascade_mem A m cur v rest k) (10 + length A) = Some b"
    and "zipEntry (cascade_mem A m cur v rest k) (10 + length A) = Some (decoded m cur)"
    and "rest = [] \<Longrightarrow> byte_at (cascade_mem A m cur v rest k) (10 + length A + esize cur) = Some ZIP_END"
    and "rest = e # es \<Longrightarrow> ent_ok v e \<Longrightarrow>
      \<exists>b. b \<noteq> ZIP_END \<and> byte_at (cascade_mem A m cur v rest k) (10 + length A + esize cur) = Some b"
    and "rest = e # es \<Longrightarrow> ent_ok v e \<Longrightarrow>
      zipEntry (cascade_mem A m cur v rest k) (10 + length A + esize cur) = Some (decoded v e)"
proof -
  obtain X where X: "length X = 10 + length A" "cascade_mem A m cur v rest k = X @ zentry m cur @ layout v rest @ [255]"
    using cascade_mem_at by blast
  show "\<exists>b. b \<noteq> ZIP_END \<and> byte_at (cascade_mem A m cur v rest k) (10 + length A) = Some b"
    using layout_entry_first [of cur m X] assms X by (metis ent_ok_def)
  show "zipEntry (cascade_mem A m cur v rest k) (10 + length A) = Some (decoded m cur)"
    using entry_zipEntry [of cur m X] assms X by (simp add: ent_ok_def)
  show "rest = [] \<Longrightarrow> byte_at (cascade_mem A m cur v rest k) (10 + length A + esize cur) = Some ZIP_END"
    using X by (simp add: byte_at_def nth_append zip_consts)
  assume e: "rest = e # es" "ent_ok v e"
  let ?X = "X @ zentry m cur"
  have m: "cascade_mem A m cur v rest k = ?X @ zentry v e @ layout (esize e) es @ [255]" "length ?X = 10 + length A + esize cur"
    using X e by simp_all
  show "\<exists>b. b \<noteq> ZIP_END \<and> byte_at (cascade_mem A m cur v rest k) (10 + length A + esize cur) = Some b"
    using layout_entry_first [of e v ?X] e(2) m by (metis ent_ok_def)
  show "zipEntry (cascade_mem A m cur v rest k) (10 + length A + esize cur) = Some (decoded v e)"
    using entry_zipEntry [of e v ?X] e(2) m by (metis ent_ok_def)
qed

text \<open>The two ways in which the loop rewrites the next entry.\<close>

lemma cascade_rewrite:
  "put_at (10 + length A + esize cur) (prev_field (fst e) n) (cascade_mem A m cur v (e # es) k)
     = Some (cascade_mem A m cur n (e # es) k)"
proof -
  have "put_at (length A + esize cur) (prev_field (fst e) n) ((A @ zentry m cur) @ prev_field (fst e) v @ (zbody (snd e) @ layout (esize e) es @ [255]))
      = Some ((A @ zentry m cur) @ prev_field (fst e) n @ (zbody (snd e) @ layout (esize e) es @ [255]))"
    by (rule put_at_mid) simp_all
  then show ?thesis using put_at_mem [of "length A + esize cur"]
    by (simp add: cascade_mem_def zentry_def add.assoc del: butlast.simps)
qed

lemma cascade_grow:
  assumes "11 + length A + total (cur # (True, s) # es) < 2 ^ 32" and n: "n \<ge> 254" and np: "np = 10 + length A + esize cur"
    and curlen: "curlen = 11 + length A + total (cur # (False, s) # es)"
  shows "do {
      zl1 \<leftarrow> ziplistResize u (cascade_mem A m cur v ((False, s) # es) k) (int (curlen + 4));
      zl2 \<leftarrow> (if ZIPLIST_TAIL_OFFSET zl1 \<noteq> np then set_TAIL_OFFSET (int (ZIPLIST_TAIL_OFFSET zl1 + 4)) zl1 else Some zl1);
      zl3 \<leftarrow> move_at (np + 5) (np + 1) (size_t (int curlen - int np - int 1 - 1)) zl2;
      put_at np (zipPrevEncodeLength n) zl3} = Some (cascade_mem (A @ zentry m cur) n (True, s) (esize (False, s)) es k)"
proof -
  define R where "R = zbody s @ layout (esize (False, s)) es"
  define B where "B = A @ zentry m cur @ [of_nat v] @ R"
  define T where "T = 10 + length A + total (butlast (cur # (False, s) # es))"
  define T' where "T' = (if es = [] then T else T + 4)"
  have lR: "length R + 1 = total ((False, s) # es)" and lB: "curlen = 11 + length B"
    by (simp_all add: R_def B_def curlen esize_def)
  have room: "curlen + 4 < 2 ^ 32" "T' < 2 ^ 32" "T < 2 ^ 32"
    using assms(1) total_butlast_le [of es] by (auto simp: curlen esize_def T_def T'_def split: if_splits)
  obtain G where G: "length G = 4"
      "ziplistResize u (zl_mem curlen T k (B @ [255])) (int (curlen + 4)) = Some (zl_mem (curlen + 4) T k (B @ G @ [255]))"
    using resize_grow [of "curlen + 4" B 4 u curlen T k] lB room by auto
  have start: "cascade_mem A m cur v ((False, s) # es) k = zl_mem curlen T k (B @ [255])"
    by (simp add: cascade_mem_def curlen T_def B_def R_def zentry_def prev_field_def)
  have tail: "(if T \<noteq> np then set_TAIL_OFFSET (int (T + 4)) (zl_mem (curlen + 4) T k (B @ G @ [255])) else Some (zl_mem (curlen + 4) T k (B @ G @ [255])))
      = Some (zl_mem (curlen + 4) T' k (B @ G @ [255]))"
  proof -
    have "T \<noteq> np \<longleftrightarrow> es \<noteq> []" by (auto simp: T_def np)
    then show ?thesis using room set_tail_nat [of "T + 4"] by (simp add: T'_def split: if_splits)
  qed
  let ?M = "zl_mem (curlen + 4) T' k (B @ G @ [255])"
  define W where "W = take 5 ([of_nat v] @ R @ G @ [255])"
  have lW: "length W = 5" using G(1) by (simp add: W_def)
  have n: "size_t (int curlen - int np - int 1 - 1) = length R"
    using lR room by (simp add: size_t_def curlen np)
  have "read_at (np + 1) (length R) ?M = R"
    by (simp add: read_at_def np B_def zl_mem_def)
  then have "move_at (np + 5) (np + 1) (length R) ?M = Some (take (np + 5) ?M @ R @ [last ?M])"
    by (intro move_to_end) (simp_all add: np B_def G(1))
  moreover have "take (np + 5) ?M = zl_mem (curlen + 4) T' k (A @ zentry m cur @ W)"
    by (simp add: zl_mem_def np B_def W_def)
  moreover have "last ?M = 255" by (simp add: zl_mem_def)
  ultimately have mv: "move_at (np + 5) (np + 1) (length R) ?M = Some (zl_mem (curlen + 4) T' k (A @ zentry m cur @ W @ R @ [255]))"
    by (simp add: zl_mem_app [symmetric])
  have "put_at (length A + esize cur) (prev_field True n) ((A @ zentry m cur) @ W @ (R @ [255]))
      = Some ((A @ zentry m cur) @ prev_field True n @ (R @ [255]))"
    using lW by (intro put_at_mid) simp_all
  then have pt: "put_at np (zipPrevEncodeLength n) (zl_mem (curlen + 4) T' k (A @ zentry m cur @ W @ R @ [255]))
      = Some (zl_mem (curlen + 4) T' k (A @ zentry m cur @ prev_field True n @ R @ [255]))"
    using n put_at_mem [of "length A + esize cur"] assms(2) by (simp add: np zipPrevEncodeLength_field add.assoc)
  have "zl_mem (curlen + 4) T' k (A @ zentry m cur @ prev_field True n @ R @ [255])
      = cascade_mem (A @ zentry m cur) n (True, s) (esize (False, s)) es k"
    by (auto simp: cascade_mem_def zentry_def R_def T'_def T_def curlen esize_def)
  moreover have "ZIPLIST_TAIL_OFFSET (zl_mem (curlen + 4) T k (B @ G @ [255])) = T" using room by simp
  ultimately show ?thesis by (simp only: start G(2) bind.bind_lunit tail n mv pt)
qed

text \<open>The entries behind one whose size is now \<open>n\<close> and was \<open>v\<close>: fields grow, never shrink.\<close>

fun regrow :: "nat \<Rightarrow> nat \<Rightarrow> zent list \<Rightarrow> zent list" where
  "regrow n v [] = []"
| "regrow n v (e # es) =
     (if v \<noteq> n \<and> \<not> fst e \<and> n \<ge> 254 then (True, snd e) # regrow (esize (True, snd e)) (esize e) es else e # es)"

lemma regrow_strings [simp]: "map snd (regrow n v es) = map snd es"
  by (induction n v es rule: regrow.induct) auto

lemma regrow_same [simp]: "regrow n n es = es"
  by (cases es) auto

lemma cascade_correct:
  assumes "ent_ok m cur" and "wf_layout v rest" and "11 + length A + esize cur + cap (map snd rest) < 2 ^ 32"
  shows "wf_layout (esize cur) (regrow (esize cur) v rest)
    \<and> cascade_loop u (11 + length A + total (cur # rest)) (cascade_mem A m cur v rest k) (10 + length A)
        = Some (cascade_mem A m cur (esize cur) (regrow (esize cur) v rest) k)"
  using assms
proof (induction rest arbitrary: A m cur v)
  case Nil
  let ?M = "cascade_mem A m cur v [] k"
  obtain b where "b \<noteq> ZIP_END" "byte_at ?M (10 + length A) = Some b" using cascade_reads(1) [OF Nil(1)] by blast
  then have "cascade_loop u (11 + length A + total [cur]) ?M (10 + length A) = Some ?M"
    using Nil(1) cascade_reads(2,3) [OF Nil(1), where A = A and v = v and rest = "[]" and k = k]
    by (subst cascade_loop.simps) (simp add: decoded_raw ent_ok_def)
  then show ?case by (simp add: cascade_mem_def)
next
  case (Cons e es)
  let ?M = "cascade_mem A m cur v (e # es) k" and ?curlen = "11 + length A + total (cur # e # es)"
  let ?n = "esize cur"
  have e: "ent_ok v e" "wf_layout (esize e) es" using Cons.prems(2) by (simp_all add: wf_layout_Cons)
  have n: "?n < 2 ^ 32" using Cons.prems(1) by (simp add: ent_ok_def)
  obtain b b1 where b: "b \<noteq> ZIP_END" "byte_at ?M (10 + length A) = Some b"
      "b1 \<noteq> ZIP_END" "byte_at ?M (10 + length A + ?n) = Some b1"
    using cascade_reads(1) [OF Cons.prems(1)] cascade_reads(4) [OF Cons.prems(1) refl e(1)] by blast
  note z = cascade_reads(2) [OF Cons.prems(1), where A = A and v = v and rest = "e # es" and k = k]
    cascade_reads(5) [OF Cons.prems(1) refl e(1), where A = A and es = es and k = k]
  consider "v = ?n" | "v \<noteq> ?n" "\<not> fst e" "?n \<ge> 254" | "v \<noteq> ?n" "fst e \<or> ?n < 254" by linarith
  then show ?case
  proof cases
    case 1
    then have "cascade_loop u ?curlen ?M (10 + length A) = Some ?M"
      using b z n by (subst cascade_loop.simps) (simp add: decoded_raw)
    then show ?thesis using 1 Cons.prems(2) by simp
  next
    case 2
    obtain s where s: "e = (False, s)" using 2(2) by (cases e) auto
    let ?e = "(True, s)" and ?A = "A @ zentry m cur"
    have sz: "esize ?e = esize e + 4" by (simp add: s esize_def)
    have bound: "11 + length A + ?n + (length s + 14) + cap (map snd es) < 2 ^ 32"
      using Cons.prems(3) by (simp add: s cap_def)
    then have e': "ent_ok ?n ?e" using n e(1) esize_bound [of ?e] by (simp add: ent_ok_def fits_def s)
    have "11 + length A + total (cur # ?e # es) < 2 ^ 32"
      using bound total_cap [of es] esize_bound [of ?e] by simp
    from cascade_grow [OF this 2(3) refl refl, of u m v k] obtain zl1 zl2 zl3 where
      grow: "ziplistResize u ?M (int (?curlen + 4)) = Some zl1"
        "(if ZIPLIST_TAIL_OFFSET zl1 \<noteq> 10 + length A + ?n then set_TAIL_OFFSET (int (ZIPLIST_TAIL_OFFSET zl1 + 4)) zl1 else Some zl1) = Some zl2"
        "move_at (10 + length A + ?n + 5) (10 + length A + ?n + 1) (size_t (int ?curlen - int (10 + length A + ?n) - int 1 - 1)) zl2 = Some zl3"
        "put_at (10 + length A + ?n) (zipPrevEncodeLength ?n) zl3 = Some (cascade_mem ?A ?n ?e (esize e) es k)"
      unfolding Option.bind_eq_Some_conv s by blast
    have "cascade_loop u ?curlen ?M (10 + length A)
        = cascade_loop u (?curlen + 4) (cascade_mem ?A ?n ?e (esize e) es k) (10 + length A + ?n)"
    proof -
      have sizes: "length (zipPrevEncodeLength ?n) = 5" "(headersize (decoded m cur) + len (decoded m cur)) mod 2 ^ 32 = ?n"
          "prevrawlensize (decoded v e) = 1" "prevrawlen (decoded v e) = v" "(1 :: nat) < 5" "(5 :: nat) - 1 = 4"
        using 2(3) n by (simp_all add: zipPrevEncodeLength_field decoded_raw s)
      show ?thesis
        by (subst cascade_loop.simps)
           (simp only: b z sizes grow 2(1) Let_def bind.bind_lunit if_False if_True)
    qed
    moreover have bound': "11 + length ?A + esize ?e + cap (map snd es) < 2 ^ 32"
      using bound esize_bound [of ?e] by simp
    define rest' where "rest' = regrow (esize ?e) (esize e) es"
    from Cons.IH [OF e' e(2) bound'] have "wf_layout (esize ?e) rest'"
      "cascade_loop u (11 + length ?A + total (?e # es)) (cascade_mem ?A ?n ?e (esize e) es k) (10 + length ?A)
         = Some (cascade_mem ?A ?n ?e (esize ?e) rest' k)" by (simp_all only: rest'_def)
    moreover have "cascade_mem ?A ?n ?e (esize ?e) rest' k = cascade_mem A m cur ?n (?e # rest') k"
      by (simp add: cascade_mem_def add.assoc)
    moreover have "regrow ?n v (e # es) = ?e # rest'" using 2 by (simp add: s rest'_def)
    ultimately show ?thesis using e' sz by (simp add: wf_layout_Cons s ac_simps del: regrow.simps)
  next
    case 3
    have f: "fits (fst e) ?n" using 3(2) n by (auto simp: fits_def)
    have "cascade_loop u ?curlen ?M (10 + length A) = put_at (10 + length A + ?n) (prev_field (fst e) ?n) ?M"
      using b z n 3 
      by (subst cascade_loop.simps)
         (auto simp: Let_def decoded_raw zipPrevEncodeLength_field zipPrevEncodeLengthForceLarge_field)
    moreover have "regrow ?n v (e # es) = e # es" using 3 by auto
    ultimately show ?thesis using e f by (simp add: cascade_rewrite wf_layout_Cons ent_ok_def del: regrow.simps)
  qed
qed

lemma cascade_update:
  assumes "ent_ok m cur" and "wf_layout v rest" and "11 + length A + esize cur + cap (map snd rest) < 2 ^ 32"
  shows "wf_layout (esize cur) (regrow (esize cur) v rest)
    \<and> ziplistCascadeUpdate u (cascade_mem A m cur v rest k) (10 + length A)
        = Some (cascade_mem A m cur (esize cur) (regrow (esize cur) v rest) k)"
proof -
  have "ZIPLIST_BYTES (cascade_mem A m cur v rest k) = 11 + length A + total (cur # rest)"
    using assms(3) total_cap [of rest] by (simp add: cascade_mem_def)
  then show ?thesis using cascade_correct [OF assms, of u k] by (simp add: ziplistCascadeUpdate_def)
qed

section \<open>Insertion\<close>

definition zl_of :: "zent list \<Rightarrow> nat \<Rightarrow> bytes" where
  "zl_of es k = zl_mem (11 + total es) (10 + total (butlast es)) k (layout 0 es @ [255])"

definition last_size :: "zent list \<Rightarrow> nat" where
  "last_size es = (if es = [] then 0 else esize (last es))"

lemma layout_0_append: "layout 0 (es @ fs) = layout 0 es @ layout (last_size es) fs"
  by (simp add: layout_append last_size_def)

lemma wf_layout_0_append: "wf_layout 0 (es @ fs) \<longleftrightarrow> wf_layout 0 es \<and> wf_layout (last_size es) fs"
  by (simp add: wf_layout_append last_size_def)

lemma cascade_mem_zl_of:
  "cascade_mem (layout 0 es) (last_size es) cur (esize cur) rest k = zl_of (es @ cur # rest) k"
  by (simp add: cascade_mem_def zl_of_def layout_0_append butlast_append add.assoc)

lemma insert_plan:
  assumes "length s < 2 ^ 32"
  obtains val enc paylen pl where
    "(case zipTryEncoding s of Some (value, enc) \<Rightarrow> (value, enc, zipIntSize enc) | None \<Rightarrow> (123456789, 0, length s)) = (val, enc, paylen)"
    and "zbody s = zipEncodeLength enc (length s) @ pl" and "length pl = paylen"
    and "(if ZIP_IS_STR enc then Some s else zipSaveInteger val enc) = Some pl"
proof (cases "zipTryEncoding s")
  case None
  then show ?thesis using assms that [of 123456789 0 "length s" s]
    by (simp add: zbody_def zipEncodeLength_string string_bytes)
next
  case (Some x)
  obtain v enc where x: "zipTryEncoding s = Some (v, enc)" using Some by (cases x) auto
  note d = zipTryEncodingD [OF x]
  show ?thesis using that [of v enc "zipIntSize enc" "int_payload v enc"] x d(3,6,7)
    by (simp add: zbody_def zipEncodeLength_def string_bytes)
qed

text \<open>The last part of \<open>__ziplistInsert\<close>, which fills the gap and counts the entry.\<close>

lemma write_entry:
  assumes "length gap = esize (n \<ge> 254, s)" and "zbody s = lenf @ pl" and "k < 65536"
  shows "do {
      zl6 \<leftarrow> put_at (10 + length A) (zipPrevEncodeLength n) (zl_mem m t k (A @ gap @ Y));
      zl7 \<leftarrow> put_at (10 + length A + length (zipPrevEncodeLength n)) lenf zl6;
      zl8 \<leftarrow> put_at (10 + length A + length (zipPrevEncodeLength n) + length lenf) pl zl7;
      ZIPLIST_INCR_LENGTH 1 zl8}
    = Some (zl_mem m t (if k < 65535 then k + 1 else k) (A @ zentry n (n \<ge> 254, s) @ Y))"
proof -
  let ?f = "zipPrevEncodeLength n"
  define g1 g2 g3 where "g1 = take (length ?f) gap" and "g2 = take (length lenf) (drop (length ?f) gap)"
    and "g3 = drop (length ?f + length lenf) gap"
  have sz: "length gap = length ?f + length lenf + length pl"
    using assms(1,2) by (simp add: esize_def zipPrevEncodeLength_field)
  have gap: "gap = g1 @ g2 @ g3"
    by (simp add: g1_def g2_def g3_def) (metis append_take_drop_id drop_drop add.commute)
  have lens: "length g1 = length ?f" "length g2 = length lenf" "length g3 = length pl"
    using sz by (simp_all add: g1_def g2_def g3_def)
  have 1: "put_at (length A) ?f (A @ gap @ Y) = Some (A @ ?f @ g2 @ g3 @ Y)"
    using lens put_at_mid [of "length A" A ?f g1 "g2 @ g3 @ Y"] by (simp add: gap)
  have 2: "put_at (length A + length ?f) lenf (A @ ?f @ g2 @ g3 @ Y) = Some (A @ ?f @ lenf @ g3 @ Y)"
    using lens put_at_mid [of "length A + length ?f" "A @ ?f" lenf g2 "g3 @ Y"] by simp
  have 3: "put_at (length A + length ?f + length lenf) pl (A @ ?f @ lenf @ g3 @ Y) = Some (A @ ?f @ lenf @ pl @ Y)"
    using lens put_at_mid [of "length A + length ?f + length lenf" "A @ ?f @ lenf" pl g3 Y] by simp
  have e: "A @ ?f @ lenf @ pl @ Y = A @ zentry n (n \<ge> 254, s) @ Y"
    using assms(2) by (simp add: zentry_def zipPrevEncodeLength_field)
  show ?thesis using assms(3)
    by (simp add: add.assoc put_at_mem 1 2 [unfolded add.assoc] 3 [unfolded add.assoc] e ZIPLIST_INCR_LENGTH_def nat_add_distrib)
qed

text \<open>The move that makes room before the entry with the field \<open>old\<close>, whose new field is \<open>fld\<close>.\<close>

lemma shift_entry:
  assumes "length (X @ old @ R @ G @ [x]) = length X + reqlen + length fld + length R + 1"
    and "int src = int (length X) - (int (length fld) - int (length old))"
  shows "\<exists>gap. length gap = reqlen \<and>
    (do { zl2 \<leftarrow> move_at (length X + reqlen) src (length fld + length R) (X @ old @ R @ G @ [x]);
          put_at (length X + reqlen) fld zl2}) = Some (X @ gap @ fld @ R @ [x])"
proof -
  let ?M = "X @ old @ R @ G @ [x]"
  define gap W where "gap = take reqlen (old @ R @ G @ [x])" and "W = read_at src (length fld) ?M"
  have src: "src + length fld = length X + length old" using assms(2) by linarith
  have lens: "length gap = reqlen" "length W = length fld"
    using assms(1) src by (simp_all add: gap_def W_def length_read_at)
  have "read_at src (length fld + length R) ?M = W @ read_at (src + length fld) (length R) ?M"
    unfolding W_def read_at_def take_add drop_drop by (simp only: add.commute)
  also have "read_at (src + length fld) (length R) ?M = R" by (simp add: src read_at_def)
  finally have "move_at (length X + reqlen) src (length fld + length R) ?M = Some (take (length X + reqlen) ?M @ (W @ R) @ [last ?M])"
    using assms(1) src by (intro move_to_end) auto
  then have mv: "move_at (length X + reqlen) src (length fld + length R) ?M = Some ((X @ gap) @ W @ (R @ [x]))"
    by (simp add: gap_def)
  have "put_at (length X + reqlen) fld ((X @ gap) @ W @ (R @ [x])) = Some ((X @ gap) @ fld @ (R @ [x]))"
    using lens by (intro put_at_mid) simp_all
  then show ?thesis using mv lens(1) by (intro exI [of _ gap]) simp
qed

end
