(* ===== verification/ZiplistOps.thy ===== *)
theory ZiplistOps
  imports ZiplistUpdate
begin

text \<open>
  Insertion and deletion on whole lists.  \<open>zl_of es k\<close> is the ziplist with the entries \<open>es\<close> and the counter \<open>k\<close>.
\<close>

definition incr_count :: "nat \<Rightarrow> nat" where
  "incr_count k = (if k < 65535 then k + 1 else k)"

lemma zl_of_end: "byte_at (zl_of es k) (10 + total es) = Some ZIP_END"
  by (simp add: zl_of_def byte_at_mem byte_at_shift zip_consts) (simp add: byte_at_def)

lemma zl_of_split:
  "zl_of (es @ e # fs) k = (zl_mem (11 + total (es @ e # fs)) (10 + total (butlast (es @ e # fs))) k (layout 0 es))
     @ zentry (last_size es) e @ layout (esize e) fs @ [255]"
  by (simp add: zl_of_def layout_0_append zl_mem_app)

lemma zl_of_reads:
  assumes "ent_ok (last_size es) e"
  shows "\<exists>b. b \<noteq> ZIP_END \<and> byte_at (zl_of (es @ e # fs) k) (10 + total es) = Some b"
    and "ZIP_DECODE_PREVLEN (zl_of (es @ e # fs) k) (10 + total es) = Some (if fst e then 5 else 1, last_size es)"
    and "ZIP_DECODE_PREVLENSIZE (zl_of (es @ e # fs) k) (10 + total es) = Some (if fst e then 5 else 1)"
    and "zipPrevLenByteDiff (zl_of (es @ e # fs) k) (10 + total es) m = Some ((if m \<ge> 254 then 5 else 1) - (if fst e then 5 else 1))"
    and "zipEntry (zl_of (es @ e # fs) k) (10 + total es) = Some (decoded (last_size es) e)"
    and "zipRawEntryLength (zl_of (es @ e # fs) k) (10 + total es) = Some (esize e)"
    and "ZIP_DECODE_LENGTH (zl_of (es @ e # fs) k) (10 + total es + (if fst e then 5 else 1))
      = Some (body_enc (snd e), body_lensize (snd e), body_len (snd e))"
proof -
  let ?X = "zl_mem (11 + total (es @ e # fs)) (10 + total (butlast (es @ e # fs))) k (layout 0 es)"
  let ?Y = "layout (esize e) fs @ [255]"
  have X: "length ?X = 10 + total es" by simp
  note d = zl_of_split [of es e fs k] assms [unfolded ent_ok_def]
  show "\<exists>b. b \<noteq> ZIP_END \<and> byte_at (zl_of (es @ e # fs) k) (10 + total es) = Some b"
    using layout_entry_first [of e "last_size es" ?X ?Y] d X by metis
  show "ZIP_DECODE_PREVLEN (zl_of (es @ e # fs) k) (10 + total es) = Some (if fst e then 5 else 1, last_size es)"
    using decode_prevlen [of "fst e" "last_size es" ?X "zbody (snd e) @ ?Y"] d X unfolding zentry_def by simp
  show "ZIP_DECODE_PREVLENSIZE (zl_of (es @ e # fs) k) (10 + total es) = Some (if fst e then 5 else 1)"
    using decode_prevlensize [of "fst e" "last_size es" ?X "zbody (snd e) @ ?Y"] d X unfolding zentry_def by simp
  show "zipPrevLenByteDiff (zl_of (es @ e # fs) k) (10 + total es) m = Some ((if m \<ge> 254 then 5 else 1) - (if fst e then 5 else 1))"
    using prevlen_diff [of "fst e" "last_size es" ?X "zbody (snd e) @ ?Y" m] d X unfolding zentry_def by simp
  show "zipEntry (zl_of (es @ e # fs) k) (10 + total es) = Some (decoded (last_size es) e)"
    using entry_zipEntry [of e "last_size es" ?X ?Y] d X by simp
  show "zipRawEntryLength (zl_of (es @ e # fs) k) (10 + total es) = Some (esize e)"
    using entry_raw [of e "last_size es" ?X ?Y] d X by simp
  show "ZIP_DECODE_LENGTH (zl_of (es @ e # fs) k) (10 + total es + (if fst e then 5 else 1))
      = Some (body_enc (snd e), body_lensize (snd e), body_len (snd e))"
    using decode_body [of "snd e" "?X @ prev_field (fst e) (last_size es)" ?Y] d X unfolding zentry_def by simp
qed

lemma zl_of_header [simp]:
  "11 + total es < 2 ^ 32 \<Longrightarrow> ZIPLIST_BYTES (zl_of es k) = 11 + total es"
  "11 + total es < 2 ^ 32 \<Longrightarrow> ZIPLIST_TAIL_OFFSET (zl_of es k) = 10 + total (butlast es)"
  "k < 65536 \<Longrightarrow> ZIPLIST_LENGTH (zl_of es k) = k"
  using total_butlast_le [of es] by (simp_all add: zl_of_def)

lemma tail_prevlen:
  assumes "wf_layout 0 es" and "11 + total es < 2 ^ 32"
  shows "do {
      t \<leftarrow> byte_at (zl_of es k) (ZIPLIST_TAIL_OFFSET (zl_of es k));
      (if t \<noteq> ZIP_END then zipRawEntryLength (zl_of es k) (ZIPLIST_TAIL_OFFSET (zl_of es k)) else Some 0)} = Some (last_size es)"
proof (cases es rule: rev_cases)
  case Nil
  then show ?thesis using assms zl_of_end [of "[]" k] by (simp add: last_size_def)
next
  case (snoc fs e)
  have e: "ent_ok (last_size fs) e" using assms(1) by (simp add: snoc wf_layout_0_append wf_layout_Cons)
  obtain b where "b \<noteq> ZIP_END" "byte_at (zl_of es k) (10 + total fs) = Some b"
    using zl_of_reads(1) [OF e, of "[]" k] snoc by blast
  then show ?thesis using assms zl_of_reads(6) [OF e, of "[]" k] by (simp add: snoc last_size_def)
qed

lemma next_byte:
  assumes "wf_layout v fs"
  shows "\<exists>b. byte_at (X @ layout v fs @ [255]) (length X) = Some b \<and> (b = ZIP_END \<longleftrightarrow> fs = [])"
proof (cases fs)
  case Nil
  then show ?thesis by (simp add: zip_consts)
next
  case (Cons f fs')
  then show ?thesis using assms layout_entry_first [of f v X "layout (esize f) fs' @ [255]"]
    by (auto simp: wf_layout_Cons ent_ok_def)
qed

section \<open>Insertion\<close>

lemma insert_end:
  assumes wf: "wf_layout 0 es" and k: "k < 65536" and room: "11 + cap (map snd es) + (length s + 14) < 2 ^ 32"
  shows "ziplistInsert_raw u (zl_of es k) (10 + total es) s = Some (zl_of (es @ [(last_size es \<ge> 254, s)]) (incr_count k))"
proof -
  define e where "e = (last_size es \<ge> 254, s)"
  have ls: "length s < 2 ^ 32" using room by simp
  obtain val enc paylen pl where pl:
      "(case zipTryEncoding s of Some (value, enc) \<Rightarrow> (value, enc, zipIntSize enc) | None \<Rightarrow> (123456789, 0, length s)) = (val, enc, paylen)"
      "zbody s = zipEncodeLength enc (length s) @ pl" "length pl = paylen"
      "(if ZIP_IS_STR enc then Some s else zipSaveInteger val enc) = Some pl"
    by (rule insert_plan [OF ls])
  have small: "11 + total es < 2 ^ 32" "11 + total es + esize e < 2 ^ 32"
    using room total_cap [of es] esize_bound [of e] by (simp_all add: e_def)
  have req: "paylen + length (zipPrevEncodeLength (last_size es)) + length (zipEncodeLength enc (length s)) = esize e"
    using pl(2,3) by (simp add: e_def esize_def zipPrevEncodeLength_field)
  obtain G where G: "length G = esize e" "hd G = 255"
      "ziplistResize u (zl_of es k) (int (11 + total es + esize e))
         = Some (zl_mem (11 + total es + esize e) (10 + total (butlast es)) k (layout 0 es @ G @ [255]))"
    using resize_grow [of "11 + total es + esize e" "layout 0 es" "esize e" u "11 + total es" "10 + total (butlast es)" k] small
    by (auto simp: zl_of_def)
  let ?zl1 = "zl_mem (11 + total es + esize e) (10 + total (butlast es)) k (layout 0 es @ G @ [255])"
  have b1: "byte_at ?zl1 (10 + total es) = Some ZIP_END"
    using G(1,2) by (cases G) (simp_all add: byte_at_mem byte_at_shift zip_consts, simp add: byte_at_def)
  have t: "set_TAIL_OFFSET (int (10 + total es)) ?zl1 = Some (zl_mem (11 + total es + esize e) (10 + total es) k (layout 0 es @ G @ [255]))"
    using small by (intro set_tail_nat) simp
  have fin: "zl_mem (11 + total es + esize e) (10 + total es) (if k < 65535 then k + 1 else k) (layout 0 es @ zentry (last_size es) e @ [255])
      = zl_of (es @ [e]) (incr_count k)"
    by (simp add: zl_of_def layout_0_append incr_count_def add.assoc)
  have num: "int (11 + total es) + int (esize e) + 0 = int (11 + total es + esize e)" by simp
  show ?thesis
    using write_entry [of G "last_size es" s "zipEncodeLength enc (length s)" pl k "layout 0 es" "11 + total es + esize e" "10 + total es" "[255]"]
      G(1) pl(2) k
    unfolding ziplistInsert_raw_def e_def [symmetric] fin length_layout
    by (simp only: zl_of_header(1) [OF small(1)] zl_of_end bind.bind_lunit Let_def tail_prevlen [OF wf small(1)] pl(1,4) prod.case req
        num G(3) b1 t if_False if_True simp_thms)
qed

text \<open>The middle part of \<open>__ziplistInsert\<close> when there is a next entry: the move, the new field of that entry and
  the offset of the tail.  It needs that the block does not shrink.\<close>

lemma insert_make_room:
  assumes wf: "ent_ok (last_size es) e" "wf_layout (esize e) fs" and room: "11 + total es + reqlen + total ((reqlen \<ge> 254, snd e) # fs) < 2 ^ 32"
    and room': "11 + total es + reqlen + total (e # fs) < 2 ^ 32" and grows: "int reqlen + nextdiff \<ge> 0" and nd: "nextdiff = (if reqlen \<ge> 254 then 5 else 1) - (if fst e then 5 else 1)"
    and p: "p = 10 + total es" and curlen: "curlen = 11 + total (es @ e # fs)" and req: "0 < reqlen" "reqlen < 2 ^ 32"
  shows "\<exists>gap zl1 b1. length gap = reqlen
    \<and> ziplistResize u (zl_of (es @ e # fs) k) (int curlen + int reqlen + nextdiff) = Some zl1
    \<and> byte_at zl1 p = Some b1 \<and> b1 \<noteq> ZIP_END
    \<and> do {
        zl2 \<leftarrow> move_at (p + reqlen) (nat (int p - nextdiff)) (size_t (int curlen - int p - 1 + nextdiff)) zl1;
        zl2 \<leftarrow> put_at (p + reqlen) (zipPrevEncodeLength reqlen) zl2;
        zl3 \<leftarrow> set_TAIL_OFFSET (int (ZIPLIST_TAIL_OFFSET zl2) + int reqlen) zl2;
        tail \<leftarrow> zipEntry zl3 (p + reqlen);
        b2 \<leftarrow> byte_at zl3 (p + reqlen + headersize tail + len tail);
        (if b2 \<noteq> ZIP_END then set_TAIL_OFFSET (int (ZIPLIST_TAIL_OFFSET zl3) + nextdiff) zl3 else Some zl3)}
      = Some (cascade_mem (layout 0 es @ gap) reqlen (reqlen \<ge> 254, snd e) (esize e) fs k)"
proof -
  define e' where "e' = (reqlen \<ge> 254, snd e)"
  define R where "R = zbody (snd e) @ layout (esize e) fs"
  define T where "T = 10 + total (butlast (es @ e # fs))"
  define N where "N = nat (int curlen + int reqlen + nextdiff)"
  let ?old = "prev_field (fst e) (last_size es)" and ?fld = "prev_field (reqlen \<ge> 254) reqlen"
  have sz: "int (esize e') = int (esize e) + nextdiff" by (simp add: e'_def esize_def nd)
  have lR: "length R + length ?old = total (e # fs)" by (simp add: R_def esize_def)
  have N: "N = 11 + total es + reqlen + total (e' # fs)" "int N = int curlen + int reqlen + nextdiff"
    using grows sz by (simp_all add: N_def curlen)
  have Nlt: "N < 2 ^ 32" using room by (simp add: N(1) e'_def)
  have body: "zl_of (es @ e # fs) k = zl_mem curlen T k ((layout 0 es @ ?old @ R) @ [255])"
    by (simp add: zl_of_def T_def curlen layout_0_append zentry_def R_def)
  define d where "d = N - curlen"
  have d: "N = 11 + length (layout 0 es @ ?old @ R) + d" using lR grows N by (simp add: d_def curlen)
  obtain G where G: "length G = d"
      "ziplistResize u (zl_of (es @ e # fs) k) (int N) = Some (zl_mem N T k (layout 0 es @ ?old @ R @ G @ [255]))"
    using resize_grow [OF d Nlt, of u curlen T k] by (auto simp: body)
  let ?X = "zl_mem N T k (layout 0 es)"
  have X: "length ?X = p" by (simp add: p)
  have zl1: "zl_mem N T k (layout 0 es @ ?old @ R @ G @ [255]) = ?X @ ?old @ R @ G @ [255]" by (simp add: zl_mem_app)
  have nd4: "- 4 \<le> nextdiff" "nextdiff \<le> 4" by (simp_all add: nd)
  have n: "size_t (int curlen - int p - 1 + nextdiff) = length ?fld + length R"
  proof -
    have "int curlen - int p - 1 + nextdiff = int (length ?fld + length R)"
      using lR by (simp add: curlen p nd esize_def)
    then show ?thesis using room by (simp add: size_t_def R_def esize_def)
  qed
  have pre: "length (?X @ ?old @ R @ G @ [255]) = length ?X + reqlen + length ?fld + length R + 1"
      "int (nat (int p - nextdiff)) = int (length ?X) - (int (length ?fld) - int (length ?old))"
    using d N(1) G(1) nd4 X by (simp_all add: e'_def esize_def R_def p nd)
  obtain gap where gap: "length gap = reqlen"
      "(do { zl2 \<leftarrow> move_at (p + reqlen) (nat (int p - nextdiff)) (length ?fld + length R) (?X @ ?old @ R @ G @ [255]);
          put_at (p + reqlen) ?fld zl2}) = Some (?X @ gap @ ?fld @ R @ [255])"
    using shift_entry [OF pre] unfolding X by blast
  let ?A = "layout 0 es @ gap"
  let ?Z = "\<lambda>t. zl_mem N t k (?A @ zentry reqlen e' @ layout (esize e) fs @ [255])"
  have Z: "?X @ gap @ ?fld @ R @ [255] = ?Z T" by (simp add: zl_mem_def zentry_def e'_def R_def)
  have T: "T = 10 + total es + total (butlast (e # fs))" by (simp add: T_def butlast_append)
  have Tlt: "T + reqlen < 2 ^ 32" "T < 2 ^ 32" "10 + total es + reqlen + total (butlast (e' # fs)) < 2 ^ 32"
    using Nlt room' total_butlast_le [of "e' # fs"] total_butlast_le [of fs] by (auto simp: N(1) T)
  have e': "ent_ok reqlen e'" using wf(1) req room by (auto simp: ent_ok_def e'_def fits_def)
  have ze: "zipEntry (?Z t) (p + reqlen) = Some (decoded reqlen e')" for t
    using entry_zipEntry [of e' reqlen "zl_mem N t k ?A" "layout (esize e) fs @ [255]"] e' gap(1)
    by (simp add: ent_ok_def zl_mem_app [symmetric] p add.assoc)
  obtain b2 where b2: "byte_at (?Z (T + reqlen)) (p + reqlen + headersize (decoded reqlen e') + len (decoded reqlen e')) = Some b2"
      "b2 = ZIP_END \<longleftrightarrow> fs = []"
    using next_byte [OF wf(2), of "zl_mem N (T + reqlen) k (?A @ zentry reqlen e')"] decoded_raw [of reqlen e'] gap(1)
    by (auto simp: zl_mem_app [symmetric] p add.assoc)
  have fin: "(if b2 \<noteq> ZIP_END then set_TAIL_OFFSET (int (T + reqlen) + nextdiff) (?Z (T + reqlen)) else Some (?Z (T + reqlen)))
      = Some (cascade_mem ?A reqlen e' (esize e) fs k)"
  proof -
    have m: "cascade_mem ?A reqlen e' (esize e) fs k = ?Z (10 + total es + reqlen + total (butlast (e' # fs)))"
      using gap(1) by (simp add: cascade_mem_def N(1) add.assoc)
    show ?thesis
    proof (cases "fs = []")
      case True
      then show ?thesis using b2(2) m by (simp add: T)
    next
      case False
      then have "int (T + reqlen) + nextdiff = int (10 + total es + reqlen + total (butlast (e' # fs)))"
        using sz by (simp add: T)
      then show ?thesis using False b2(2) set_tail_nat [OF Tlt(3)] by (simp only: m simp_thms if_True)
    qed
  qed
  have t1: "set_TAIL_OFFSET (int T + int reqlen) (?Z T) = Some (?Z (T + reqlen))"
    using set_tail_nat [OF Tlt(1)] by simp
  have rd: "ZIPLIST_TAIL_OFFSET (?Z T) = T" "ZIPLIST_TAIL_OFFSET (?Z (T + reqlen)) = T + reqlen" using Tlt by simp_all
  obtain zl2 where zl2: "move_at (p + reqlen) (nat (int p - nextdiff)) (length ?fld + length R) (?X @ ?old @ R @ G @ [255]) = Some zl2"
      "put_at (p + reqlen) ?fld zl2 = Some (?Z T)"
    using gap(2) unfolding Option.bind_eq_Some_conv Z by blast
  obtain b1 where b1: "byte_at (?X @ ?old @ R @ G @ [255]) p = Some b1" "b1 \<noteq> ZIP_END"
    using first_byte [of "fst e" "last_size es" ?X "R @ G @ [255]"] wf(1) X by (auto simp: ent_ok_def)
  show ?thesis
    unfolding e'_def [symmetric]
    by (rule exI [of _ gap], rule exI [of _ "?X @ ?old @ R @ G @ [255]"], rule exI [of _ b1])
       (simp only: gap(1) N(2) [symmetric] G(2) zl1 b1 n zl2 zipPrevEncodeLength_field bind.bind_lunit rd t1 ze b2(1) fin simp_thms)
qed

lemma insert_before:
  assumes wf: "wf_layout 0 (es @ e # fs)" and k: "k < 65536" and room: "11 + cap (map snd (es @ e # fs)) + (length s + 14) < 2 ^ 32"
    and safe: "fst e \<longrightarrow> 4 \<le> esize (last_size es \<ge> 254, s)"
  shows "\<exists>gs. map snd gs = snd e # map snd fs \<and> wf_layout 0 (es @ (last_size es \<ge> 254, s) # gs)
    \<and> ziplistInsert_raw u (zl_of (es @ e # fs) k) (10 + total es) s
      = Some (zl_of (es @ (last_size es \<ge> 254, s) # gs) (incr_count k))"
proof -
  define new where "new = (last_size es \<ge> 254, s)"
  have ls: "length s < 2 ^ 32" using room by simp
  obtain val enc paylen pl where pl:
      "(case zipTryEncoding s of Some (value, enc) \<Rightarrow> (value, enc, zipIntSize enc) | None \<Rightarrow> (123456789, 0, length s)) = (val, enc, paylen)"
      "zbody s = zipEncodeLength enc (length s) @ pl" "length pl = paylen"
      "(if ZIP_IS_STR enc then Some s else zipSaveInteger val enc) = Some pl"
    by (rule insert_plan [OF ls])
  let ?n = "esize new" and ?zl = "zl_of (es @ e # fs) k"
  let ?e = "(?n \<ge> 254, snd e)"
  let ?nd = "(if ?n \<ge> 254 then 5 else 1) - (if fst e then 5 else 1) :: int"
  have req: "paylen + length (zipPrevEncodeLength (last_size es)) + length (zipEncodeLength enc (length s)) = ?n"
    using pl(2,3) by (simp add: new_def esize_def zipPrevEncodeLength_field)
  have oks: "ent_ok (last_size es) e" "wf_layout (esize e) fs" "wf_layout 0 es"
    using wf by (simp_all add: wf_layout_0_append wf_layout_Cons)
  have b: "11 + total es + ?n + (length (snd e) + 14) + cap (map snd fs) < 2 ^ 32"
    using room total_cap [of es] esize_bound [of new] by (simp add: cap_def new_def)
  then have small: "11 + total (es @ e # fs) < 2 ^ 32" "11 + total es + ?n + total (?e # fs) < 2 ^ 32"
      "11 + total es + ?n + total (e # fs) < 2 ^ 32" "?n < 2 ^ 32" "esize ?e < 2 ^ 32"
    using total_cap [of fs] esize_bound [of e] esize_bound [of ?e] by simp_all
  have new_ok: "ent_ok (last_size es) new" and e_ok: "ent_ok ?n ?e"
    using oks(1) ls small by (auto simp: ent_ok_def fits_def new_def)
  have "int ?n + ?nd \<ge> 0" using safe by (auto simp: new_def)
  from insert_make_room [OF oks(1,2) small(2,3) this refl refl refl _ small(4), of u k] obtain gap zl1 b1 where
    gap: "length gap = ?n" "ziplistResize u ?zl (int (11 + total (es @ e # fs)) + int ?n + ?nd) = Some zl1"
      "byte_at zl1 (10 + total es) = Some b1" "b1 \<noteq> ZIP_END" and mid: "do {
        zl2 \<leftarrow> move_at (10 + total es + ?n) (nat (int (10 + total es) - ?nd)) (size_t (int (11 + total (es @ e # fs)) - int (10 + total es) - 1 + ?nd)) zl1;
        zl2 \<leftarrow> put_at (10 + total es + ?n) (zipPrevEncodeLength ?n) zl2;
        zl3 \<leftarrow> set_TAIL_OFFSET (int (ZIPLIST_TAIL_OFFSET zl2) + int ?n) zl2;
        tail \<leftarrow> zipEntry zl3 (10 + total es + ?n);
        b2 \<leftarrow> byte_at zl3 (10 + total es + ?n + headersize tail + len tail);
        (if b2 \<noteq> ZIP_END then set_TAIL_OFFSET (int (ZIPLIST_TAIL_OFFSET zl3) + ?nd) zl3 else Some zl3)}
      = Some (cascade_mem (layout 0 es @ gap) ?n ?e (esize e) fs k)"
    by auto
  define fs' where "fs' = regrow (esize ?e) (esize e) fs"
  have fs': "wf_layout (esize ?e) fs'"
      "(if ?nd \<noteq> 0 then ziplistCascadeUpdate u (cascade_mem (layout 0 es @ gap) ?n ?e (esize e) fs k) (10 + total es + ?n)
        else Some (cascade_mem (layout 0 es @ gap) ?n ?e (esize e) fs k)) = Some (cascade_mem (layout 0 es @ gap) ?n ?e (esize ?e) fs' k)"
  proof -
    have "11 + length (layout 0 es @ gap) + esize ?e + cap (map snd fs) < 2 ^ 32"
      using b esize_bound [of ?e] gap(1) by simp
    note c = cascade_update [OF e_ok oks(2) this, of u k]
    show "wf_layout (esize ?e) fs'" using c by (simp add: fs'_def)
    have "?nd = 0 \<Longrightarrow> esize ?e = esize e" by (simp add: esize_def split: if_splits)
    then show "(if ?nd \<noteq> 0 then ziplistCascadeUpdate u (cascade_mem (layout 0 es @ gap) ?n ?e (esize e) fs k) (10 + total es + ?n)
        else Some (cascade_mem (layout 0 es @ gap) ?n ?e (esize e) fs k)) = Some (cascade_mem (layout 0 es @ gap) ?n ?e (esize ?e) fs' k)"
      using c gap(1) by (cases "?nd = 0") (simp_all add: fs'_def add.assoc)
  qed
  define N T where "N = 11 + length (layout 0 es @ gap) + total (?e # fs')" and "T = 10 + length (layout 0 es @ gap) + total (butlast (?e # fs'))"
  have cm: "cascade_mem (layout 0 es @ gap) ?n ?e (esize ?e) fs' k = zl_mem N T k (layout 0 es @ gap @ zentry ?n ?e @ layout (esize ?e) fs' @ [255])"
    by (simp only: cascade_mem_def N_def T_def append_assoc)
  have fin: "zl_mem N T (if k < 65535 then k + 1 else k) (layout 0 es @ zentry (last_size es) new @ zentry ?n ?e @ layout (esize ?e) fs' @ [255])
      = zl_of (es @ new # ?e # fs') (incr_count k)"
    using gap(1) by (simp add: N_def T_def zl_of_def layout_0_append incr_count_def butlast_append add.assoc)
  obtain b0 where b0: "byte_at ?zl (10 + total es) = Some b0" "b0 \<noteq> ZIP_END" using zl_of_reads(1) [OF oks(1)] by blast
  have "ziplistInsert_raw u ?zl (10 + total es) s = Some (zl_of (es @ new # ?e # fs') (incr_count k))"
    using write_entry [of gap "last_size es" s "zipEncodeLength enc (length s)" pl k "layout 0 es" N T "zentry ?n ?e @ layout (esize ?e) fs' @ [255]"]
      gap(1) pl(2) k
    unfolding ziplistInsert_raw_def new_def [symmetric] fin length_layout cm [symmetric]
    by (simp only: zl_of_header(1) [OF small(1)] b0 bind.bind_lunit Let_def zl_of_reads(2,4) [OF oks(1)] option.map snd_conv pl(1,4) prod.case req
        gap(2,3,4) mid fs'(2) if_False if_True simp_thms)
  moreover have "wf_layout 0 (es @ new # ?e # fs')"
    using oks(3) new_ok e_ok fs'(1) by (simp add: wf_layout_0_append wf_layout_Cons)
  ultimately show ?thesis unfolding new_def [symmetric] by (intro exI [of _ "?e # fs'"]) (simp add: fs'_def)
qed

end
