(* ===== verification/ZiplistDelete.thy ===== *)
theory ZiplistDelete
  imports ZiplistOps
begin

text \<open>
  Deletion of a range of entries, merging of two lists, and the operations that only read.
\<close>

section \<open>Deletion\<close>

lemma last_size_snoc [simp]: "last_size (es @ [e]) = esize e"
  by (simp add: last_size_def)

lemma delete_scan_correct:
  assumes "wf_layout 0 (es @ gs)"
  shows "delete_scan (zl_of (es @ gs) k) num (10 + total es) n = Some (10 + total (es @ take num gs), n + length (take num gs))"
  using assms
proof (induction num arbitrary: es gs n)
  case 0
  then show ?case
  proof (cases gs)
    case Nil
    then show ?thesis using zl_of_end [of es k] by simp
  next
    case (Cons e fs)
    then show ?thesis using 0 zl_of_reads(1) [of es e fs k] by (auto simp: wf_layout_0_append wf_layout_Cons)
  qed
next
  case (Suc num)
  show ?case
  proof (cases gs)
    case Nil
    then show ?thesis using zl_of_end [of es k] by simp
  next
    case (Cons e fs)
    have e: "ent_ok (last_size es) e" using Suc.prems Cons by (simp add: wf_layout_0_append wf_layout_Cons)
    obtain b where "byte_at (zl_of (es @ e # fs) k) (10 + total es) = Some b" "b \<noteq> ZIP_END" using zl_of_reads(1) [OF e] by blast
    then show ?thesis using Suc.IH [of "es @ [e]" fs "n + 1"] Suc.prems Cons zl_of_reads(6) [OF e, of fs k]
      by (simp add: add.assoc)
  qed
qed

lemma put_across:
  assumes "int p = int (length X + length D + length old) - int (length fld)" and "length X \<le> p"
  shows "\<exists>W. length X + length W = p \<and> put_at p fld (X @ D @ old @ R) = Some (X @ W @ fld @ R)"
proof -
  have p: "p + length fld = length X + length D + length old" using assms(1) by linarith
  define W where "W = take (p - length X) (D @ old)"
  define V where "V = drop (p - length X) (D @ old)"
  have "D @ old = W @ V" by (simp only: W_def V_def append_take_drop_id)
  then have m: "X @ D @ old @ R = (X @ W) @ V @ R" by (metis append.assoc)
  have l: "length X + length W = p" "length V = length fld" using p assms(2) by (simp_all add: W_def V_def)
  show ?thesis unfolding m using l put_at_mid [of p "X @ W" fld V R] by (intro exI [of _ W]) simp
qed

lemma move_down:
  assumes "length X + n \<le> length (X @ W @ Y @ Z)" and "length Y = n" and "Z \<noteq> []"
  shows "\<exists>C. C \<noteq> [] \<and> move_at (length X) (length X + length W) n (X @ W @ Y @ Z) = Some (X @ Y @ C)"
proof -
  define C where "C = drop n (W @ Y @ Z)"
  have "read_at (length X + length W) n (X @ W @ Y @ Z) = Y" using assms(2) by (simp add: read_at_def)
  then have "move_at (length X) (length X + length W) n (X @ W @ Y @ Z) = Some (X @ Y @ C)"
    using assms(2) by (simp add: move_at_def memmove_def write_at_def C_def)
  moreover have "C \<noteq> []" using assms(2,3) by (simp add: C_def)
  ultimately show ?thesis by blast
qed

text \<open>The part of \<open>__ziplistDelete\<close> up to the resizing, when entries remain behind the deleted ones.\<close>

lemma delete_shift:
  assumes wf: "wf_layout 0 (es @ ds @ f # fs)" and ds: "ds \<noteq> []" and room: "11 + cap (map snd (es @ ds @ f # fs)) < 2 ^ 32"
    and nd: "nextdiff = (if last_size es \<ge> 254 then 5 else 1) - (if fst f then 5 else 1)"
    and p: "p0 = 10 + total es" "p1 = p0 + total ds" and N: "N = 11 + total (es @ ds @ f # fs)"
    and f': "f' = (last_size es \<ge> 254, snd f)"
  shows "\<exists>zl4. do {
      let p2 = nat (int p1 - nextdiff);
      zl1 \<leftarrow> put_at p2 (zipPrevEncodeLength (last_size es)) (zl_of (es @ ds @ f # fs) k);
      zl1 \<leftarrow> set_TAIL_OFFSET (int (ZIPLIST_TAIL_OFFSET zl1) - int (total ds)) zl1;
      tail \<leftarrow> zipEntry zl1 p2;
      b1 \<leftarrow> byte_at zl1 (p2 + (headersize tail + len tail) mod 2 ^ 32);
      zl2 \<leftarrow> (if b1 \<noteq> ZIP_END then set_TAIL_OFFSET (int (ZIPLIST_TAIL_OFFSET zl1) + nextdiff) zl1 else Some zl1);
      zl3 \<leftarrow> move_at p0 p2 (size_t (int (ZIPLIST_BYTES zl2) - int p2 - 1)) zl2;
      Some (zl3, nextdiff)} = Some (zl4, nextdiff) \<and> ZIPLIST_BYTES zl4 = N
    \<and> ziplistResize u zl4 (int N - int (total ds) + nextdiff) = Some (cascade_mem (layout 0 es) (last_size es) f' (esize f) fs k)"
proof -
  define R where "R = zbody (snd f) @ layout (esize f) fs"
  define D where "D = layout (last_size es) ds"
  define T where "T = 10 + total es + total ds + total (butlast (f # fs))"
  let ?v = "last_size (es @ ds)"
  let ?old = "prev_field (fst f) ?v" and ?fld = "prev_field (last_size es \<ge> 254) (last_size es)"
  let ?zl = "zl_of (es @ ds @ f # fs) k" and ?p2 = "nat (int p1 - nextdiff)"
  have parts: "ent_ok ?v f" "wf_layout (esize f) fs" "wf_layout (last_size es) ds" "wf_layout 0 es"
    using wf by (auto simp: wf_layout_0_append wf_layout_append wf_layout_Cons last_size_def split: if_splits)
  have sz: "int (esize f') = int (esize f) + nextdiff" by (simp add: f' esize_def nd)
  have fits_ds: "last_size es \<ge> 254 \<Longrightarrow> 5 \<le> total ds"
    using parts(3) ds by (cases ds) (auto simp: wf_layout_Cons ent_ok_def fits_def esize_def)
  have small: "N < 2 ^ 32" "T < 2 ^ 32" "10 + total es + total (butlast (f # fs)) < 2 ^ 32" "11 + total es + total (f' # fs) < 2 ^ 32"
      "10 + total es + total (butlast (f' # fs)) < 2 ^ 32" "esize f' < 2 ^ 32"
    using room total_cap [of es] total_cap [of ds] total_cap [of fs] esize_bound [of f] esize_bound [of f'] total_butlast_le [of fs]
    by (auto simp: N T_def cap_def f')
  have zl: "?zl = zl_mem N T k (layout 0 es @ D @ ?old @ R @ [255])"
    using ds by (simp add: zl_of_def N T_def D_def R_def layout_0_append layout_append zentry_def butlast_append last_size_def add.assoc)
  have p2: "int ?p2 = int p1 - nextdiff" "p0 \<le> ?p2" "p0 + total ds = p1"
    using fits_ds by (auto simp: p nd)
  let ?X = "zl_mem N T k (layout 0 es)"
  have "int ?p2 = int (length ?X + length D + length ?old) - int (length ?fld)" "length ?X \<le> ?p2"
    using p2 by (simp_all add: p nd D_def)
  from put_across [OF this, of "R @ [255]"] obtain W where
    W: "p0 + length W = ?p2" "put_at ?p2 ?fld ?zl = Some (?X @ W @ ?fld @ R @ [255])"
    by (auto simp: zl p zl_mem_app)
  have q: "?p2 = 10 + total es + length W" using W(1) p(1) by simp
  define Y where "Y = zentry (last_size es) f' @ layout (esize f) fs"
  let ?Z = "\<lambda>t. zl_mem N t k (layout 0 es @ W @ Y @ [255])"
  have Z: "?X @ W @ ?fld @ R @ [255] = ?Z T" by (simp add: zl_mem_def Y_def zentry_def f' R_def)
  define T1 where "T1 = 10 + total es + total (butlast (f # fs))"
  define T2 where "T2 = 10 + total es + total (butlast (f' # fs))"
  have t1: "set_TAIL_OFFSET (int T - int (total ds)) (?Z T) = Some (?Z T1)"
  proof -
    have "int T - int (total ds) = int T1" by (simp add: T_def T1_def)
    then show ?thesis using set_tail_nat [of T1] small(3) by (simp only: T1_def)
  qed
  have f_ok: "fits (fst f') (last_size es)" "length (snd f') < 2 ^ 32"
    using parts(1,3) ds by (cases ds; auto simp: f' fits_def ent_ok_def wf_layout_Cons)+
  have ze: "zipEntry (?Z T1) ?p2 = Some (decoded (last_size es) f')"
    using entry_zipEntry [OF f_ok, of "zl_mem N T1 k (layout 0 es @ W)" "layout (esize f) fs @ [255]"] 
    unfolding q by (simp add: zl_mem_app [symmetric] Y_def add.assoc)
  have raw: "(headersize (decoded (last_size es) f') + len (decoded (last_size es) f')) mod 2 ^ 32 = esize f'"
    using small(6) by (simp add: decoded_raw)
  obtain b1 where b1: "byte_at (?Z T1) (?p2 + esize f') = Some b1" "b1 = ZIP_END \<longleftrightarrow> fs = []"
    using next_byte [OF parts(2), of "zl_mem N T1 k (layout 0 es @ W @ zentry (last_size es) f')"]
    unfolding q by (auto simp: zl_mem_app [symmetric] Y_def add.assoc)
  have t2: "(if b1 \<noteq> ZIP_END then set_TAIL_OFFSET (int T1 + nextdiff) (?Z T1) else Some (?Z T1)) = Some (?Z T2)"
  proof (cases "fs = []")
    case True
    then show ?thesis using b1(2) by (simp add: T1_def T2_def)
  next
    case False
    then have "int T1 + nextdiff = int T2" using sz by (simp add: T1_def T2_def)
    then show ?thesis using False b1(2) set_tail_nat [of T2] small(5) by (simp only: T2_def simp_thms if_True)
  qed
  have lY: "length Y = total (f' # fs)" by (simp add: Y_def)
  have n: "size_t (int N - int ?p2 - 1) = length Y"
  proof -
    have "int N - int ?p2 - 1 = int (length Y)" using p2 sz by (simp add: lY N p)
    then show ?thesis using small(4) by (simp add: size_t_def lY)
  qed
  have mem: "?Z T2 = zl_mem N T2 k (layout 0 es) @ W @ Y @ [255]" by (simp add: zl_mem_app)
  obtain C where C: "C \<noteq> []" "move_at p0 ?p2 (length Y) (?Z T2) = Some (zl_mem N T2 k ((layout 0 es @ Y) @ C))"
    using move_down [of "zl_mem N T2 k (layout 0 es)" "length Y" W Y "[255]"] unfolding mem q p(1)
    by (auto simp: zl_mem_app)
  have new: "int N - int (total ds) + nextdiff = int (11 + length (layout 0 es @ Y))" using sz lY by (simp add: N)
  have "ziplistResize u (zl_mem N T2 k ((layout 0 es @ Y) @ C)) (int (11 + length (layout 0 es @ Y)))
      = Some (zl_mem (11 + length (layout 0 es @ Y)) T2 k ((layout 0 es @ Y) @ [255]))"
    using small(4) lY by (intro resize_shrink [OF refl _ C(1)]) simp
  also have "zl_mem (11 + length (layout 0 es @ Y)) T2 k ((layout 0 es @ Y) @ [255]) = cascade_mem (layout 0 es) (last_size es) f' (esize f) fs k"
    using lY by (simp add: cascade_mem_def T2_def Y_def add.assoc)
  finally have rs: "ziplistResize u (zl_mem N T2 k ((layout 0 es @ Y) @ C)) (int (11 + length (layout 0 es @ Y))) = Some (cascade_mem (layout 0 es) (last_size es) f' (esize f) fs k)" .
  have hd: "ZIPLIST_TAIL_OFFSET (?Z T) = T" "ZIPLIST_TAIL_OFFSET (?Z T1) = T1" "ZIPLIST_BYTES (?Z T2) = N" "ZIPLIST_BYTES (zl_mem N T2 k ((layout 0 es @ Y) @ C)) = N"
    using small by (simp_all only: header_reads T1_def)
  show ?thesis
    by (rule exI [of _ "zl_mem N T2 k ((layout 0 es @ Y) @ C)"])
       (simp only: Let_def zipPrevEncodeLength_field W(2) Z bind.bind_lunit hd t1 ze raw b1(1) t2 n C(2) new rs simp_thms)
qed

definition decr_count :: "nat \<Rightarrow> nat \<Rightarrow> nat" where
  "decr_count n k = (if k < 65535 then k - n else k)"

lemma decr_length:
  assumes "k < 65536" and "k < 65535 \<Longrightarrow> n \<le> k"
  shows "ZIPLIST_INCR_LENGTH (- int n) (zl_mem m t k body) = Some (zl_mem m t (decr_count n k) body)"
proof -
  have w: "set_LENGTH (int k + - int n) (zl_mem m t k body) = Some (zl_mem m t (k - n) body)" if "k < 65535"
  proof -
    have "int k + - int n = int (k - n)" using assms(2) that by simp
    moreover have "set_LENGTH (int (k - n)) (zl_mem m t k body) = Some (zl_mem m t (k - n) body)"
      using header_writes(3) [of "int (k - n)" m t k body] assms(1) by (simp del: of_nat_diff)
    ultimately show ?thesis by (simp only:)
  qed
  show ?thesis unfolding ZIPLIST_INCR_LENGTH_def decr_count_def header_reads(3) [OF assms(1)]
    by (cases "k < 65535") (simp_all only: w if_True if_False)
qed

text \<open>The entries behind the deleted ones; the first of them gets a field of the size its new predecessor needs.\<close>

definition after_delete :: "nat \<Rightarrow> nat \<Rightarrow> zent list \<Rightarrow> zent list" where
  "after_delete n num gs = (if num = 0 then gs else case drop num gs of [] \<Rightarrow> []
     | f # fs \<Rightarrow> (n \<ge> 254, snd f) # regrow (esize (n \<ge> 254, snd f)) (esize f) fs)"

lemma after_delete_strings [simp]: "map snd (after_delete n num gs) = map snd (drop num gs)"
  by (auto simp: after_delete_def split: list.split)

lemma length_after_delete [simp]: "length (after_delete n num gs) = length gs - num"
  by (metis after_delete_strings length_drop length_map)

lemma delete_correct:
  assumes wf: "wf_layout 0 (es @ gs)" and gs: "gs \<noteq> []" and k: "k < 65536" "k < 65535 \<Longrightarrow> length gs \<le> k"
    and room: "11 + cap (map snd (es @ gs)) < 2 ^ 32"
  shows "\<exists>fs. fs = after_delete (last_size es) num gs \<and> wf_layout 0 (es @ fs)
    \<and> ziplistDelete_raw u (zl_of (es @ gs) k) (10 + total es) num
      = Some (zl_of (es @ fs) (decr_count (length (take num gs)) k))"
proof -
  let ?zl = "zl_of (es @ gs) k" and ?ds = "take num gs" and ?p0 = "10 + total es"
  obtain g gs' where g: "gs = g # gs'" using gs by (cases gs) auto
  have g_ok: "ent_ok (last_size es) g" using wf by (simp add: g wf_layout_0_append wf_layout_Cons)
  have first: "zipEntry ?zl ?p0 = Some (decoded (last_size es) g)" using zl_of_reads(5) [OF g_ok] by (simp add: g)
  have scan: "delete_scan ?zl num ?p0 0 = Some (?p0 + total ?ds, length ?ds)"
    using delete_scan_correct [OF wf, of k num 0] by (simp add: add.assoc)
  have small: "11 + total (es @ gs) < 2 ^ 32" using room total_cap [of "es @ gs"] by simp
  have "total ?ds \<le> total gs" by (metis append_take_drop_id le_add1 map_append sum_list_append)
  then have tot: "(?p0 + total ?ds - ?p0) mod 2 ^ 32 = total ?ds" using small by simp
  have del: "k < 65535 \<Longrightarrow> length ?ds \<le> k" using k(2) by simp
  consider "num = 0" | "num > 0" "drop num gs = []" | f fs where "num > 0" "drop num gs = f # fs" by (cases "drop num gs") auto
  then show ?thesis
  proof cases
    case 1
    then have "ziplistDelete_raw u ?zl ?p0 num = Some ?zl" using first scan by (simp add: ziplistDelete_raw_def)
    then show ?thesis using 1 wf by (intro exI [of _ gs]) (simp add: decr_count_def after_delete_def)
  next
    case 2
    have ds: "?ds = gs" "total gs > 0" using 2(2) g by simp_all
    have T: "int ?p0 - int (prevrawlen (decoded (last_size es) g)) = int (10 + total (butlast es))"
      by (cases es rule: rev_cases) (simp_all add: last_size_def)
    have bl: "10 + total (butlast es) < 2 ^ 32" using small total_butlast_le [of es] by simp
    let ?D = "layout (last_size es) gs @ [255]"
    have zl: "?zl = zl_mem (11 + total (es @ gs)) (10 + total (butlast (es @ gs))) k (layout 0 es @ ?D)"
      by (simp add: zl_of_def layout_0_append)
    have rs: "ziplistResize u (zl_mem (11 + total (es @ gs)) (10 + total (butlast es)) k (layout 0 es @ ?D)) (int (11 + length (layout 0 es)))
        = Some (zl_mem (11 + length (layout 0 es)) (10 + total (butlast es)) k (layout 0 es @ [255]))"
      using small by (intro resize_shrink) simp_all
    have "zl_mem (11 + length (layout 0 es)) (10 + total (butlast es)) (decr_count (length ?ds) k) (layout 0 es @ [255]) = zl_of es (decr_count (length ?ds) k)"
      by (simp add: zl_of_def)
    moreover have "byte_at ?zl (?p0 + total gs) = Some ZIP_END" using zl_of_end [of "es @ gs" k] by (simp add: add.assoc)
    moreover have "int (11 + total (es @ gs)) - int (total gs) + 0 = int (11 + length (layout 0 es))" by simp
    moreover have "ZIPLIST_BYTES (zl_mem (11 + total (es @ gs)) (10 + total (butlast es)) k (layout 0 es @ ?D)) = 11 + total (es @ gs)"
      using small by (simp only: header_reads)
    ultimately have "ziplistDelete_raw u ?zl ?p0 num = Some (zl_of es (decr_count (length ?ds) k))"
      using set_tail_nat [OF bl, of "11 + total (es @ gs)" "10 + total (butlast (es @ gs))" k "layout 0 es @ ?D"]
        decr_length [OF k(1) del] rs ds(2) T
      unfolding ziplistDelete_raw_def first scan bind.bind_lunit prod.case Let_def tot unfolding ds(1)
      by (simp only: zl [symmetric] if_True if_False bind.bind_lunit prod.case simp_thms)
    then show ?thesis using 2 wf by (intro exI [of _ "[]"]) (simp add: wf_layout_0_append after_delete_def)
  next
    case 3
    have split: "gs = ?ds @ f # fs" using 3(2) by (metis append_take_drop_id)
    have ds: "?ds \<noteq> []" "total ?ds > 0" using 3(1) by (cases num; simp add: g)+
    define f' where "f' = (last_size es \<ge> 254, snd f)"
    let ?nd = "(if last_size es \<ge> 254 then 5 else 1) - (if fst f then 5 else 1) :: int"
    let ?N = "11 + total (es @ ?ds @ f # fs)"
    have wf': "wf_layout 0 (es @ ?ds @ f # fs)" and room': "11 + cap (map snd (es @ ?ds @ f # fs)) < 2 ^ 32"
      using wf room split by simp_all
    have parts: "ent_ok (last_size (es @ ?ds)) f" "wf_layout (esize f) fs" "wf_layout 0 es"
      using wf' by (auto simp: wf_layout_0_append wf_layout_append wf_layout_Cons last_size_def split: if_splits)
    obtain zl4 where zl4: "do {
      let p2 = nat (int (?p0 + total ?ds) - ?nd);
      zl1 \<leftarrow> put_at p2 (zipPrevEncodeLength (last_size es)) (zl_of (es @ ?ds @ f # fs) k);
      zl1 \<leftarrow> set_TAIL_OFFSET (int (ZIPLIST_TAIL_OFFSET zl1) - int (total ?ds)) zl1;
      tail \<leftarrow> zipEntry zl1 p2;
      b1 \<leftarrow> byte_at zl1 (p2 + (headersize tail + len tail) mod 2 ^ 32);
      zl2 \<leftarrow> (if b1 \<noteq> ZIP_END then set_TAIL_OFFSET (int (ZIPLIST_TAIL_OFFSET zl1) + ?nd) zl1 else Some zl1);
      zl3 \<leftarrow> move_at ?p0 p2 (size_t (int (ZIPLIST_BYTES zl2) - int p2 - 1)) zl2;
      Some (zl3, ?nd)} = Some (zl4, ?nd)" "ZIPLIST_BYTES zl4 = ?N"
      "ziplistResize u zl4 (int ?N - int (total ?ds) + ?nd) = Some (cascade_mem (layout 0 es) (last_size es) f' (esize f) fs k)"
      using delete_shift [OF wf' ds(1) room' refl refl refl refl f'_def, of k u] by blast
    have f'_ok: "ent_ok (last_size es) f'"
      using parts(1) g_ok room' esize_bound [of f'] by (auto simp: ent_ok_def fits_def f'_def cap_def)
    let ?k = "decr_count (length ?ds) k"
    have cm: "ZIPLIST_INCR_LENGTH (- int (length ?ds)) (cascade_mem (layout 0 es) (last_size es) f' (esize f) fs k)
        = Some (cascade_mem (layout 0 es) (last_size es) f' (esize f) fs ?k)"
      using decr_length [OF k(1) del] by (simp only: cascade_mem_def)
    define fs' where "fs' = regrow (esize f') (esize f) fs"
    have fs': "wf_layout (esize f') fs'"
      "(if ?nd \<noteq> 0 then ziplistCascadeUpdate u (cascade_mem (layout 0 es) (last_size es) f' (esize f) fs ?k) ?p0
        else Some (cascade_mem (layout 0 es) (last_size es) f' (esize f) fs ?k)) = Some (cascade_mem (layout 0 es) (last_size es) f' (esize f') fs' ?k)"
    proof -
      have "11 + length (layout 0 es) + esize f' + cap (map snd fs) < 2 ^ 32"
        using room' esize_bound [of f'] total_cap [of es] by (simp add: cap_def f'_def)
      note c = cascade_update [OF f'_ok parts(2) this, of u ?k]
      show "wf_layout (esize f') fs'" using c by (simp add: fs'_def)
      have "?nd = 0 \<Longrightarrow> esize f' = esize f" by (simp add: esize_def f'_def split: if_splits)
      then show "(if ?nd \<noteq> 0 then ziplistCascadeUpdate u (cascade_mem (layout 0 es) (last_size es) f' (esize f) fs ?k) ?p0
        else Some (cascade_mem (layout 0 es) (last_size es) f' (esize f) fs ?k)) = Some (cascade_mem (layout 0 es) (last_size es) f' (esize f') fs' ?k)"
        using c by (cases "?nd = 0") (simp_all add: fs'_def)
    qed
    obtain b where b: "byte_at (zl_of (es @ ?ds @ f # fs) k) (?p0 + total ?ds) = Some b" "b \<noteq> ZIP_END"
      using zl_of_reads(1) [OF parts(1), of fs k] by (auto simp: add.assoc)
    have nd: "zipPrevLenByteDiff (zl_of (es @ ?ds @ f # fs) k) (?p0 + total ?ds) (last_size es) = Some ?nd"
      using zl_of_reads(4) [OF parts(1), of fs k "last_size es"] by (simp add: add.assoc)
    have "ziplistDelete_raw u (zl_of (es @ ?ds @ f # fs) k) ?p0 num = Some (zl_of (es @ f' # fs') ?k)"
      using first scan ds(2) unfolding split [symmetric] ziplistDelete_raw_def
      by (simp only: tot bind.bind_lunit prod.case Let_def if_True if_False simp_thms decoded_sel
          b [folded split] nd [folded split] zl4 [unfolded Let_def, folded split] cm fs'(2) cascade_mem_zl_of)
    moreover have "f' # fs' = after_delete (last_size es) num gs" using 3 by (simp add: after_delete_def f'_def fs'_def)
    moreover have "wf_layout 0 (es @ f' # fs')" using fs'(1) f'_ok parts(3) by (simp add: wf_layout_0_append wf_layout_Cons)
    ultimately show ?thesis using split by metis
  qed
qed

section \<open>Reading\<close>

definition zval_of :: "bytes \<Rightarrow> zval" where
  "zval_of s = (case zipTryEncoding s of Some (v, enc) \<Rightarrow> ZInt v | None \<Rightarrow> ZStr s)"

lemma body_enc_str: "ZIP_IS_STR (body_enc s) \<longleftrightarrow> zipTryEncoding s = None"
proof (cases "zipTryEncoding s")
  case None
  then show ?thesis by (simp add: body_enc_def string_bytes str_byte_def)
next
  case (Some x)
  then show ?thesis using zipTryEncodingD(3) [of s "fst x" "snd x"] by (cases x) (simp add: body_enc_def string_bytes)
qed

text \<open>The payload of an entry, which starts behind its header.\<close>

lemma zl_of_payload:
  assumes "ent_ok (last_size es) e"
  shows "zipTryEncoding (snd e) = None \<Longrightarrow>
      bytes_at (zl_of (es @ e # fs) k) (10 + total es + (if fst e then 5 else 1) + body_lensize (snd e)) (body_len (snd e)) = Some (snd e)"
    and "zipTryEncoding (snd e) = Some (v, enc) \<Longrightarrow>
      zipLoadInteger (zl_of (es @ e # fs) k) (10 + total es + (if fst e then 5 else 1) + body_lensize (snd e)) (body_enc (snd e)) = Some v"
proof -
  let ?X = "zl_mem (11 + total (es @ e # fs)) (10 + total (butlast (es @ e # fs))) k (layout 0 es) @ prev_field (fst e) (last_size es)"
  let ?Y = "layout (esize e) fs @ [255]"
  have zl: "zl_of (es @ e # fs) k = ?X @ zbody (snd e) @ ?Y" by (simp add: zl_of_split zentry_def)
  have q: "10 + total es + (if fst e then 5 else 1) = length ?X" by simp
  show "bytes_at (zl_of (es @ e # fs) k) (10 + total es + (if fst e then 5 else 1) + body_lensize (snd e)) (body_len (snd e)) = Some (snd e)"
    if "zipTryEncoding (snd e) = None"
    unfolding q zl using bytes_at_mid [OF refl refl, of "?X @ len_bytes (length (snd e))" "snd e" ?Y] that
    by (simp only: zbody_def body_lensize_def body_len_def option.case append_assoc length_append add.assoc)
  show "zipLoadInteger (zl_of (es @ e # fs) k) (10 + total es + (if fst e then 5 else 1) + body_lensize (snd e)) (body_enc (snd e)) = Some v"
    if "zipTryEncoding (snd e) = Some (v, enc)"
    unfolding q zl using zipTryEncodingD(8) [OF that, of "?X @ [enc]" ?Y] that
    by (simp only: zbody_def body_lensize_def body_enc_def option.case prod.case append_assoc append_Cons append_Nil
        length_append length_Cons list.size(3) One_nat_def add.assoc)
qed

lemma ziplistGet_entry:
  assumes "ent_ok (last_size es) e"
  shows "ziplistGet (zl_of (es @ e # fs) k) (Some (10 + total es)) = Some (Some (zval_of (snd e)))"
proof -
  obtain b where b: "byte_at (zl_of (es @ e # fs) k) (10 + total es) = Some b" "b \<noteq> ZIP_END"
    using zl_of_reads(1) [OF assms] by blast
  show ?thesis
  proof (cases "zipTryEncoding (snd e)")
    case None
    then show ?thesis using b zl_of_reads(5) [OF assms, of fs k] zl_of_payload(1) [OF assms None, of fs k] body_enc_str [of "snd e"]
      by (simp add: ziplistGet_def decoded_def zval_of_def add.assoc)
  next
    case (Some x)
    obtain v enc where x: "zipTryEncoding (snd e) = Some (v, enc)" using Some by (cases x) auto
    then show ?thesis using b zl_of_reads(5) [OF assms, of fs k] zl_of_payload(2) [OF assms x, of fs k] body_enc_str [of "snd e"]
      by (simp add: ziplistGet_def decoded_def zval_of_def add.assoc)
  qed
qed

lemma ziplistCompare_entry:
  assumes "ent_ok (last_size es) e"
  shows "ziplistCompare (zl_of (es @ e # fs) k) (10 + total es) s = Some (snd e = s)"
proof -
  obtain b where b: "byte_at (zl_of (es @ e # fs) k) (10 + total es) = Some b" "b \<noteq> ZIP_END"
    using zl_of_reads(1) [OF assms] by blast
  show ?thesis
  proof (cases "zipTryEncoding (snd e)")
    case None
    then show ?thesis using b zl_of_reads(5) [OF assms, of fs k] zl_of_payload(1) [OF assms None, of fs k] body_enc_str [of "snd e"]
      by (auto simp: ziplistCompare_def decoded_def body_len_def add.assoc)
  next
    case (Some x)
    obtain v enc where x: "zipTryEncoding (snd e) = Some (v, enc)" using Some by (cases x) auto
    have "zipTryEncoding s = Some (w, enc') \<Longrightarrow> (v = w) = (snd e = s)" for w enc'
      using zipTryEncodingD(2) [OF x] zipTryEncodingD(2) [of s w enc'] x by auto
    then show ?thesis using x b zl_of_reads(5) [OF assms, of fs k] zl_of_payload(2) [OF assms x, of fs k] body_enc_str [of "snd e"]
      by (auto simp: ziplistCompare_def decoded_def add.assoc split: option.splits)
  qed
qed

end
