(* ===== verification/Refinement.thy ===== *)
theory Refinement
  imports Prelude "HOL-Library.Monad_Syntax"
begin

text \<open>
  The two contracts that several components of the server have in common.  \<open>budget_simulation\<close>: a
  component whose operations, one by one, do what the operations of an abstract state do, as long as
  it has room for them; then a sequence of operations does.  \<open>prefix_codec\<close>: an encoder whose output
  the decoder recognises in front of any other bytes; then a concatenation of encodings decodes to
  the sequence that was encoded.
\<close>

section \<open>Sequences of operations\<close>

primrec run_ops :: "('op \<Rightarrow> 's \<Rightarrow> ('s \<times> 'r) option) \<Rightarrow> 'op list \<Rightarrow> 's \<Rightarrow> ('s \<times> 'r list) option" where
  "run_ops step [] s = Some (s, [])"
| "run_ops step (x # xs) s = do {
     (s', r) \<leftarrow> step x s;
     (s'', rs) \<leftarrow> run_ops step xs s';
     Some (s'', r # rs)}"

primrec run_spec :: "('op \<Rightarrow> 'a \<Rightarrow> 'a \<times> 'r) \<Rightarrow> 'op list \<Rightarrow> 'a \<Rightarrow> 'a \<times> 'r list" where
  "run_spec spec [] a = (a, [])"
| "run_spec spec (x # xs) a =
     (let (a', r) = spec x a; (a'', rs) = run_spec spec xs a' in (a'', r # rs))"

text \<open>\<open>inv n s\<close>: the state is well formed and has room for \<open>n\<close> more operations; \<open>legal\<close>: the
  arguments of the operation are in the range the component is called with.\<close>

locale budget_simulation =
  fixes step :: "'op \<Rightarrow> 's \<Rightarrow> ('s \<times> 'r) option"
    and spec :: "'op \<Rightarrow> 'a \<Rightarrow> 'a \<times> 'r"
    and abs :: "'s \<Rightarrow> 'a"
    and inv :: "nat \<Rightarrow> 's \<Rightarrow> bool"
    and legal :: "'op \<Rightarrow> bool"
  assumes step_sim: "inv (Suc n) s \<Longrightarrow> legal x \<Longrightarrow>
    \<exists>s' r. step x s = Some (s', r) \<and> inv n s' \<and> spec x (abs s) = (abs s', r)"
begin

lemma run_sim:
  assumes "inv (length xs + n) s" and "list_all legal xs"
  shows "\<exists>s' rs. run_ops step xs s = Some (s', rs) \<and> inv n s' \<and> run_spec spec xs (abs s) = (abs s', rs)"
  using assms
proof (induction xs arbitrary: s)
  case (Cons x xs)
  obtain s1 r where s1: "step x s = Some (s1, r)" "inv (length xs + n) s1" "spec x (abs s) = (abs s1, r)"
    using step_sim [of "length xs + n" s x] Cons.prems by auto
  obtain s2 rs where "run_ops step xs s1 = Some (s2, rs)" "inv n s2" "run_spec spec xs (abs s1) = (abs s2, rs)"
    using Cons.IH [OF s1(2)] Cons.prems by auto
  then show ?case using s1 by simp
qed simp

lemma run_results:
  assumes "inv (length xs) s" and "list_all legal xs"
  shows "map_option snd (run_ops step xs s) = Some (snd (run_spec spec xs (abs s)))"
    and "map_option (abs \<circ> fst) (run_ops step xs s) = Some (fst (run_spec spec xs (abs s)))"
  using run_sim [of xs 0 s] assms by auto

end


section \<open>Self-delimiting encodings\<close>

primrec dec_many :: "(bytes \<Rightarrow> ('a \<times> bytes) option) \<Rightarrow> nat \<Rightarrow> bytes \<Rightarrow> ('a list \<times> bytes) option" where
  "dec_many dec 0 bs = Some ([], bs)"
| "dec_many dec (Suc n) bs = do {
     (x, bs') \<leftarrow> dec bs;
     (xs, bs'') \<leftarrow> dec_many dec n bs';
     Some (x # xs, bs'')}"

text \<open>\<open>cap\<close>: the size of the address space, which bounds the inputs of the decoder.\<close>

locale prefix_codec =
  fixes enc :: "'a \<Rightarrow> bytes"
    and dec :: "bytes \<Rightarrow> ('a \<times> bytes) option"
    and ok :: "'a \<Rightarrow> bool"
    and cap :: nat
  assumes dec_enc: "ok x \<Longrightarrow> length (enc x @ rest) < cap \<Longrightarrow> dec (enc x @ rest) = Some (x, rest)"
begin

lemma dec_many_enc:
  assumes "list_all ok xs" and "length (concat (map enc xs) @ rest) < cap"
  shows "dec_many dec (length xs) (concat (map enc xs) @ rest) = Some (xs, rest)"
  using assms by (induction xs) (auto simp: dec_enc)

lemma enc_inject: "ok x \<Longrightarrow> ok y \<Longrightarrow> length (enc x @ r) < cap \<Longrightarrow> enc x @ r = enc y @ r' \<Longrightarrow> x = y \<and> r = r'"
  using dec_enc by (metis option.inject prod.inject)

lemma enc_many_inject:
  assumes "list_all ok xs" and "list_all ok ys" and "length xs = length ys"
    and "concat (map enc xs) = concat (map enc ys)" and "length (concat (map enc xs)) < cap"
  shows "xs = ys"
  using dec_many_enc [OF assms(1), of "[]"] dec_many_enc [OF assms(2), of "[]"] assms(3-5) by simp

end

end
