(* ===== verification/ZiplistRefine.thy ===== *)
theory ZiplistRefine
  imports ZiplistDelete Refinement
begin

text \<open>
  A ziplist refines a list of strings: the traversals, the merge of two lists, and the sequences of operations.
\<close>

section \<open>Traversals\<close>

lemma entry_first:
  assumes "wf_layout 0 (es @ e # fs)"
  shows "ent_ok (last_size es) e" and "wf_layout 0 es" and "wf_layout (esize e) fs"
  using assms by (simp_all add: wf_layout_0_append wf_layout_Cons)

lemma byte_entry:
  assumes "wf_layout 0 (es @ gs)"
  shows "\<exists>b. byte_at (zl_of (es @ gs) k) (10 + total es) = Some b \<and> (b = ZIP_END \<longleftrightarrow> gs = [])"
proof (cases gs)
  case Nil
  then show ?thesis using zl_of_end [of es k] by simp
next
  case (Cons e fs)
  then show ?thesis using zl_of_reads(1) [OF entry_first(1) [of es e fs], of fs k] assms by auto
qed

lemma index_forward_correct:
  assumes "wf_layout 0 (es @ gs)"
  shows "index_forward (zl_of (es @ gs) k) (10 + total es) (int i)
     = Some (if i < length gs then (10 + total (es @ take i gs), -1) else (10 + total (es @ gs), int i - int (length gs)))"
  using assms
proof (induction gs arbitrary: es i)
  case Nil
  then show ?case using zl_of_end [of es k] by (subst index_forward.simps) simp
next
  case (Cons e fs)
  note e = entry_first(1) [OF Cons.prems]
  obtain b where b: "byte_at (zl_of (es @ e # fs) k) (10 + total es) = Some b" "b \<noteq> ZIP_END" using zl_of_reads(1) [OF e] by blast
  show ?case
  proof (cases i)
    case 0
    then show ?thesis using b by (subst index_forward.simps) simp
  next
    case (Suc j)
    have "index_forward (zl_of (es @ e # fs) k) (10 + total es) (int i) = index_forward (zl_of (es @ e # fs) k) (10 + total es + esize e) (int j)"
      using b zl_of_reads(6) [OF e, of fs k] by (subst index_forward.simps) (simp add: Suc)
    then show ?thesis using Cons.IH [of "es @ [e]" j] Cons.prems by (simp add: Suc add.assoc)
  qed
qed

lemma index_backward_correct:
  assumes "wf_layout 0 (es @ gs)" and "gs \<noteq> []"
  shows "\<exists>r. index_backward (zl_of (es @ gs) k) (10 + total es) (last_size es) (int i)
     = Some (10 + total (take (length es - i) es), r) \<and> (r > 0 \<longleftrightarrow> i > length es)"
  using assms
proof (induction i arbitrary: es gs)
  case 0
  then show ?case by (subst index_backward.simps) simp
next
  case (Suc i)
  show ?case
  proof (cases es rule: rev_cases)
    case Nil
    then show ?thesis by (subst index_backward.simps) (simp add: last_size_def)
  next
    case (snoc as a)
    have wf: "wf_layout 0 (as @ a # gs)" using Suc.prems snoc by simp
    have "index_backward (zl_of (es @ gs) k) (10 + total es) (last_size es) (int (Suc i))
        = index_backward (zl_of (es @ gs) k) (10 + total as) (last_size as) (int i)"
      using zl_of_reads(2) [OF entry_first(1) [OF wf], of gs k]
      by (subst index_backward.simps) (simp add: snoc)
    then show ?thesis using Suc.IH [of as "a # gs"] wf by (simp add: snoc)
  qed
qed

text \<open>The position that an index names, counted from the head or, if negative, from the tail.\<close>

definition norm_index :: "nat \<Rightarrow> int \<Rightarrow> nat option" where
  "norm_index n i = (if i \<ge> 0 then (if nat i < n then Some (nat i) else None)
     else if nat (- i) \<le> n then Some (n - nat (- i)) else None)"

lemma ziplistIndex_correct:
  assumes wf: "wf_layout 0 es" and small: "11 + total es < 2 ^ 32" and i: "i > INT32_MIN"
  shows "ziplistIndex (zl_of es k) i = Some (map_option (\<lambda>j. 10 + total (take j es)) (norm_index (length es) i))"
proof (cases "i \<ge> 0")
  case True
  define n where "n = nat i"
  have n: "i = int n" using True by (simp add: n_def)
  obtain b where b: "byte_at (zl_of es k) (10 + total (take n es)) = Some b" "b = ZIP_END \<longleftrightarrow> drop n es = []"
    using byte_entry [of "take n es" "drop n es" k] wf by auto
  show ?thesis using index_forward_correct [of "[]" es k n] wf b zl_of_end [of es k]
    by (simp add: ziplistIndex_def n norm_index_def ZIPLIST_HEADER_SIZE_def)
next
  case False
  define n where "n = nat (- i) - 1"
  have n: "- i - 1 = int n" "i < 0" "nat (- i) = Suc n" using False by (auto simp: n_def)
  show ?thesis
  proof (cases es rule: rev_cases)
    case Nil
    then show ?thesis using n i zl_of_end [of "[]" k] by (simp add: ziplistIndex_def norm_index_def)
  next
    case (snoc as a)
    have wf': "wf_layout 0 (as @ [a])" using wf snoc by simp
    note a = entry_first(1) [OF wf']
    obtain b where b: "byte_at (zl_of (as @ [a]) k) (10 + total as) = Some b" "b \<noteq> ZIP_END" using zl_of_reads(1) [OF a] by blast
    obtain r where r: "index_backward (zl_of (as @ [a]) k) (10 + total as) (last_size as) (int n) = Some (10 + total (take (length as - n) as), r)"
        "r > 0 \<longleftrightarrow> n > length as"
      using index_backward_correct [OF wf', of k n] by auto
    obtain b' where b': "byte_at (zl_of es k) (10 + total (take (length as - n) as)) = Some b'" "b' \<noteq> ZIP_END"
      using byte_entry [of "take (length as - n) as" "drop (length as - n) as @ [a]" k] wf snoc
      by (auto simp: append_assoc [symmetric] simp del: append_assoc)
    show ?thesis using n i snoc b r b' zl_of_reads(2) [OF a, of "[]" k] small
      by (auto simp: ziplistIndex_def norm_index_def)
  qed
qed

lemma len_loop_correct:
  assumes "wf_layout 0 (es @ gs)"
  shows "len_loop (zl_of (es @ gs) k) (10 + total es) n = Some (n + length gs)"
  using assms
proof (induction gs arbitrary: es n)
  case Nil
  then show ?case using zl_of_end [of es k] by (subst len_loop.simps) simp
next
  case (Cons e fs)
  note e = entry_first(1) [OF Cons.prems]
  obtain b where b: "byte_at (zl_of (es @ e # fs) k) (10 + total es) = Some b" "b \<noteq> ZIP_END" using zl_of_reads(1) [OF e] by blast
  have "len_loop (zl_of (es @ e # fs) k) (10 + total es) n = len_loop (zl_of (es @ e # fs) k) (10 + total es + esize e) (n + 1)"
    using b zl_of_reads(6) [OF e, of fs k] by (subst len_loop.simps) simp
  then show ?case using Cons.IH [of "es @ [e]" "n + 1"] Cons.prems by (simp add: add.assoc)
qed

text \<open>The search: the first of the compared strings that is equal; \<open>c\<close> strings are skipped before the first comparison.\<close>

fun find_idx :: "nat \<Rightarrow> nat \<Rightarrow> bytes \<Rightarrow> bytes list \<Rightarrow> nat option" where
  "find_idx skip c v [] = None"
| "find_idx skip c v (s # ss) =
     (if c = 0 \<and> s = v then Some 0 else map_option Suc (find_idx skip (if c = 0 then skip else c - 1) v ss))"

definition venc_ok :: "bytes \<Rightarrow> byte \<Rightarrow> int \<Rightarrow> bool" where
  "venc_ok v ve vl \<longleftrightarrow> ve = 0 \<or> (case zipTryEncoding v of Some (x, enc) \<Rightarrow> ve = enc \<and> vl = x | None \<Rightarrow> ve = 255)"

lemma find_loop_correct:
  assumes "wf_layout 0 (es @ gs)" and "venc_ok v ve vl"
  shows "find_loop (zl_of (es @ gs) k) v skip (10 + total es) c ve vl
     = Some (map_option (\<lambda>i. 10 + total (es @ take i gs)) (find_idx skip c v (map snd gs)))"
  using assms
proof (induction gs arbitrary: es c ve vl)
  case Nil
  then show ?case using zl_of_end [of es k] by (subst find_loop.simps) simp
next
  case (Cons e fs)
  note e = entry_first(1) [OF Cons.prems(1)]
  let ?zl = "zl_of (es @ e # fs) k" and ?p = "10 + total es"
  obtain b where b: "byte_at ?zl ?p = Some b" "b \<noteq> ZIP_END" using zl_of_reads(1) [OF e] by blast
  let ?q = "?p + (if fst e then 5 else 1) + body_lensize (snd e)"
  have nx: "?q + body_len (snd e) = 10 + total (es @ [e])" by (simp add: esize_def length_zbody)
  have rest: "find_loop ?zl v skip (?q + body_len (snd e)) c' ve' vl'
      = Some (map_option (\<lambda>i. 10 + total (es @ take (Suc i) (e # fs))) (find_idx skip c' v (map snd fs)))"
    if "venc_ok v ve' vl'" for c' ve' vl'
    unfolding nx using Cons.IH [of "es @ [e]" ve' vl' c'] Cons.prems(1) that by simp
  have dec: "ZIP_DECODE_PREVLENSIZE ?zl ?p = Some (if fst e then 5 else 1)"
      "ZIP_DECODE_LENGTH ?zl (?p + (if fst e then 5 else 1)) = Some (body_enc (snd e), body_lensize (snd e), body_len (snd e))"
    using zl_of_reads(3,7) [OF e, of fs k] by simp_all
  have unf: "find_loop ?zl v skip ?p c ve vl = (if c = 0 then
           (if ZIP_IS_STR (body_enc (snd e)) then do {
              hit \<leftarrow> (if body_len (snd e) = length v then map_option (\<lambda>bs. bs = v) (bytes_at ?zl ?q (length v)) else Some False);
              (if hit then Some (Some ?p) else find_loop ?zl v skip (?q + body_len (snd e)) skip ve vl)}
            else do {
              let (ve', vl') = (if ve = 0 then
                 (case zipTryEncoding v of Some (x, enc) \<Rightarrow> (enc, x) | None \<Rightarrow> (255, vl)) else (ve, vl));
              (if ve' = 0 then None
               else do {
                 hit \<leftarrow> (if ve' \<noteq> 255 then map_option (\<lambda>ll. ll = vl') (zipLoadInteger ?zl ?q (body_enc (snd e))) else Some False);
                 (if hit then Some (Some ?p) else find_loop ?zl v skip (?q + body_len (snd e)) skip ve' vl')})})
         else find_loop ?zl v skip (?q + body_len (snd e)) (c - 1) ve vl)"
    using b(2) by (subst find_loop.simps) (simp only: b(1) dec bind.bind_lunit prod.case Let_def if_False simp_thms)
  consider "c > 0" | "c = 0" "zipTryEncoding (snd e) = None" | y enc where "c = 0" "zipTryEncoding (snd e) = Some (y, enc)"
    by fastforce
  then show ?case
  proof cases
    case 1
    then show ?thesis using rest [OF Cons.prems(2), of "c - 1"] by (simp add: unf option.map_comp comp_def)
  next
    case 2
    then have "bytes_at ?zl ?q (body_len (snd e)) = Some (snd e)" "body_len (snd e) = length (snd e)"
      using zl_of_payload(1) [OF e, of fs k] by (simp_all add: body_len_def)
    then show ?thesis unfolding unf using 2 rest [OF Cons.prems(2), of skip] body_enc_str [of "snd e"]
      by (auto simp: option.map_comp comp_def)
  next
    case 3
    note ld = zl_of_payload(2) [OF e 3(2), of fs k] and D = zipTryEncodingD [OF 3(2)]
    define w where "w = (if ve = 0 then (case zipTryEncoding v of Some (x, enc) \<Rightarrow> (enc, x) | None \<Rightarrow> (255, vl)) else (ve, vl))"
    have w: "venc_ok v (fst w) (snd w)" "fst w \<noteq> 0" "fst w \<noteq> 255 \<Longrightarrow> (y = snd w) = (snd e = v)" "fst w = 255 \<Longrightarrow> snd e \<noteq> v"
      using Cons.prems(2) D(2) 3(2)
      by (auto simp: w_def venc_ok_def zipTryEncodingD(4,5) split: option.splits if_splits dest: zipTryEncodingD(2,4,5))
    show ?thesis using 3(1) ld rest [OF w(1), of skip] w(2-4) body_enc_str [of "snd e"] 3(2)
      unfolding unf w_def [symmetric] by (auto simp: case_prod_beta option.map_comp comp_def)
  qed
qed

lemma ziplistNext_entry:
  assumes "wf_layout 0 (es @ e # fs)"
  shows "ziplistNext (zl_of (es @ e # fs) k) (10 + total es) = Some (if fs = [] then None else Some (10 + total (es @ [e])))"
proof -
  note e = entry_first(1) [OF assms]
  obtain b where b: "byte_at (zl_of (es @ e # fs) k) (10 + total es) = Some b" "b \<noteq> ZIP_END" using zl_of_reads(1) [OF e] by blast
  obtain b1 where "byte_at (zl_of (es @ e # fs) k) (10 + total es + esize e) = Some b1" "b1 = ZIP_END \<longleftrightarrow> fs = []"
    using byte_entry [of "es @ [e]" fs k] assms by (auto simp: add.assoc)
  then show ?thesis using b zl_of_reads(6) [OF e, of fs k] by (simp add: ziplistNext_def add.assoc)
qed

lemma ziplistPrev_entry:
  assumes "wf_layout 0 (es @ gs)" and "11 + total (es @ gs) < 2 ^ 32"
  shows "ziplistPrev (zl_of (es @ gs) k) (10 + total es) = Some (if es = [] then None else Some (10 + total (butlast es)))"
proof (cases gs)
  case Nil
  obtain t where t: "byte_at (zl_of es k) (10 + total (butlast es)) = Some t" "t = ZIP_END \<longleftrightarrow> es = []"
    using byte_entry [of "butlast es" "if es = [] then [] else [last es]" k] assms(1) Nil by (cases "es = []") auto
  then show ?thesis using Nil zl_of_end [of es k] assms(2) by (simp add: ziplistPrev_def)
next
  case (Cons e fs)
  note e = entry_first(1) [OF assms(1) [unfolded Cons]]
  obtain b where b: "byte_at (zl_of (es @ e # fs) k) (10 + total es) = Some b" "b \<noteq> ZIP_END" using zl_of_reads(1) [OF e] by blast
  show ?thesis
  proof (cases es rule: rev_cases)
    case Nil
    then show ?thesis using b Cons by (simp add: ziplistPrev_def ZIPLIST_HEADER_SIZE_def)
  next
    case (snoc as a)
    then show ?thesis using b Cons zl_of_reads(2) [OF e, of fs k] by (simp add: ziplistPrev_def ZIPLIST_HEADER_SIZE_def)
  qed
qed

section \<open>Merging\<close>

lemma merge_copy:
  assumes "b1 = 11 + total es" and "b2 = 11 + total fs"
  shows "(if app then do {
        src \<leftarrow> bytes_at (zl_of fs k2) 10 (b2 - 10);
        put_at (b1 - 1) src (realloc u (b1 + b2 - 10 - 1) (zl_of es k1))}
      else do {
        target \<leftarrow> move_at (b1 - 1) 10 (b2 - 10) (realloc u (b1 + b2 - 10 - 1) (zl_of fs k2));
        src \<leftarrow> bytes_at (zl_of es k1) 0 (b1 - 1);
        put_at 0 src target})
    = Some (zl_mem b1 (10 + total (butlast es)) k1 (layout 0 es @ layout 0 fs @ [255]))"
proof (cases app)
  case True
  have src: "bytes_at (zl_of fs k2) 10 (b2 - 10) = Some (layout 0 fs @ [255])"
    using bytes_at_mid [of 10 "zl_mem (11 + total fs) (10 + total (butlast fs)) k2 []" "b2 - 10" "layout 0 fs @ [255]" "[]"] assms(2)
    by (simp add: zl_of_def zl_mem_app [symmetric])
  let ?X = "zl_mem b1 (10 + total (butlast es)) k1 (layout 0 es)"
  have "realloc u (b1 + b2 - 10 - 1) (zl_of es k1) = ?X @ (255 # replicate (total fs) u) @ []"
    using assms by (simp add: realloc_def zl_of_def zl_mem_def)
  then have "put_at (b1 - 1) (layout 0 fs @ [255]) (realloc u (b1 + b2 - 10 - 1) (zl_of es k1)) = Some (?X @ (layout 0 fs @ [255]) @ [])"
    using put_at_mid [of "b1 - 1" ?X "layout 0 fs @ [255]" "255 # replicate (total fs) u" "[]"] assms by simp
  then show ?thesis using True src by (simp add: zl_mem_app)
next
  case False
  let ?X = "zl_mem b1 (10 + total (butlast es)) k1 (layout 0 es)"
  define M where "M = realloc u (b1 + b2 - 10 - 1) (zl_of fs k2)"
  have lM: "length M = 11 + total es + total fs" using assms by (simp add: M_def)
  have "read_at 10 (b2 - 10) M = layout 0 fs @ [255]"
    using assms by (simp add: M_def realloc_def zl_of_def zl_mem_def read_at_def)
  then have mv: "move_at (b1 - 1) 10 (b2 - 10) M = Some (take (b1 - 1) M @ layout 0 fs @ [255])"
    using lM assms by (simp add: move_at_def memmove_def write_at_def)
  have src: "bytes_at (zl_of es k1) 0 (b1 - 1) = Some ?X"
    using assms(1) bytes_at_take [of "b1 - 1" ?X "[255]"] by (simp add: zl_of_def zl_mem_app)
  have "put_at 0 ?X (take (b1 - 1) M @ layout 0 fs @ [255]) = Some (?X @ layout 0 fs @ [255])"
    using put_at_mid [of 0 "[]" ?X "take (b1 - 1) M" "layout 0 fs @ [255]"] lM assms by simp
  then show ?thesis unfolding M_def [symmetric] using False mv src by (simp add: zl_mem_app)
qed

lemma merge_correct:
  assumes wf: "wf_layout 0 es" "wf_layout 0 fs" and fs: "fs \<noteq> []" and k: "k1 < 65536" "k2 < 65536"
    and head: "es = [] \<or> \<not> fst (hd es)" "\<not> fst (hd fs)" and room: "11 + cap (map snd (es @ fs)) < 2 ^ 32"
  shows "\<exists>gs. map snd gs = map snd (es @ fs) \<and> wf_layout 0 gs \<and> \<not> fst (hd gs)
    \<and> ziplistMerge u False (Some (zl_of es k1)) (Some (zl_of fs k2))
      = Some (let z = zl_of gs (min (k1 + k2) 65535) in (Some z, if k1 \<ge> k2 then (Some z, None) else (None, Some z)))"
proof -
  let ?k = "min (k1 + k2) 65535"
  have small: "11 + total (es @ fs) < 2 ^ 32" "11 + total es < 2 ^ 32" "11 + total fs < 2 ^ 32"
    using room total_cap [of "es @ fs"] by (simp_all add: cap_def)
  let ?M = "\<lambda>t. zl_mem (11 + total (es @ fs)) t ?k (layout 0 es @ layout 0 fs @ [255])"
  let ?T = "10 + total (butlast (es @ fs))"
  obtain gs where gs: "map snd gs = map snd (es @ fs)" "wf_layout 0 gs" "\<not> fst (hd gs)"
      "ziplistCascadeUpdate u (?M ?T) (10 + total (butlast es)) = Some (zl_of gs ?k)"
  proof (cases es rule: rev_cases)
    case Nil
    obtain f fs' where f: "fs = f # fs'" using fs by (cases fs) auto
    have "11 + length (layout 0 []) + esize f + cap (map snd fs') < 2 ^ 32"
      using room esize_bound [of f] Nil by (simp add: f cap_def)
    from cascade_update [OF _ _ this, of 0 "esize f" u ?k] wf(2) have
      r: "ziplistCascadeUpdate u (cascade_mem [] 0 f (esize f) fs' ?k) 10 = Some (cascade_mem [] 0 f (esize f) fs' ?k)"
      by (simp add: f wf_layout_Cons)
    have c: "cascade_mem [] 0 f (esize f) x ?k = zl_of (f # x) ?k" for x
      using cascade_mem_zl_of [of "[]" f x ?k] by (simp add: last_size_def)
    then have "ziplistCascadeUpdate u (?M ?T) 10 = Some (zl_of fs ?k)"
      using r by (simp add: Nil zl_of_def f)
    then show ?thesis using that [of fs] head wf(2) by (simp add: Nil)
  next
    case (snoc as a)
    have a: "ent_ok (last_size as) a" "wf_layout 0 as" using wf(1) by (simp_all add: snoc wf_layout_0_append wf_layout_Cons)
    have b: "11 + length (layout 0 as) + esize a + cap (map snd fs) < 2 ^ 32"
      using room esize_bound [of a] total_cap [of as] by (simp add: snoc cap_def)
    define rest where "rest = regrow (esize a) 0 fs"
    from cascade_update [OF a(1) wf(2) b, of u ?k] have
      r: "map snd rest = map snd fs" "wf_layout (esize a) rest"
        "ziplistCascadeUpdate u (cascade_mem (layout 0 as) (last_size as) a 0 fs ?k) (10 + total as)
         = Some (cascade_mem (layout 0 as) (last_size as) a (esize a) rest ?k)"
      by (simp_all add: rest_def)
    have "?M ?T = cascade_mem (layout 0 as) (last_size as) a 0 fs ?k"
      using fs by (simp add: cascade_mem_def snoc layout_0_append butlast_append add.assoc)
    then have "ziplistCascadeUpdate u (?M ?T) (10 + total (butlast es)) = Some (zl_of (as @ a # rest) ?k)"
      using r(3) by (simp add: snoc cascade_mem_zl_of)
    moreover have "wf_layout 0 (as @ a # rest)" using r(2) a by (simp add: wf_layout_0_append wf_layout_Cons)
    moreover have "\<not> fst (hd (as @ a # rest))" using head(1) by (cases as) (simp_all add: snoc)
    ultimately show ?thesis using that [of "as @ a # rest"] r(1) snoc by simp
  qed
  have bytes: "11 + total es + (11 + total fs) - 10 - 1 = 11 + total (es @ fs)" by simp
  have len: "(if k1 + k2 < 65535 then k1 + k2 else 65535) = ?k" by simp
  have t: "set_TAIL_OFFSET (int (11 + total es) - int 1 + (int (10 + total (butlast fs)) - int 10)) (?M (10 + total (butlast es))) = Some (?M ?T)"
  proof -
    have "int (11 + total es) - int 1 + (int (10 + total (butlast fs)) - int 10) = int ?T" using fs by (simp add: butlast_append)
    then show ?thesis using set_tail_nat [of ?T] small(1) total_butlast_le [of "es @ fs"] by (simp only:)
  qed
  have l: "set_LENGTH (int ?k) (zl_mem (11 + total (es @ fs)) (10 + total (butlast es)) k1 (layout 0 es @ layout 0 fs @ [255])) = Some (?M (10 + total (butlast es)))"
    using header_writes(3) [of "int ?k" "11 + total (es @ fs)" "10 + total (butlast es)" k1] by (simp add: min_def split: if_splits)
  note copy = merge_copy [of "11 + total es" es "11 + total fs" fs "k1 \<ge> k2" k2 u k1, OF refl refl, unfolded bytes]
  have "ziplistMerge u False (Some (zl_of es k1)) (Some (zl_of fs k2))
      = Some (let z = zl_of gs ?k in (Some z, if k1 \<ge> k2 then (Some z, None) else (None, Some z)))"
  proof (cases "k1 \<ge> k2")
    case True
    then show ?thesis unfolding ziplistMerge_def
      by (simp only: option.case prod.case Let_def if_True if_False zl_of_header(1,2) [OF small(2)] zl_of_header(1,2) [OF small(3)]
          zl_of_header(3) [OF k(1)] zl_of_header(3) [OF k(2)] ZIPLIST_HEADER_SIZE_def ZIPLIST_END_SIZE_def bytes
          copy [simplified True if_True] bind.bind_lunit len header_writes(1) l t gs(4))
  next
    case False
    then show ?thesis unfolding ziplistMerge_def
      by (simp only: option.case prod.case Let_def if_True if_False zl_of_header(1,2) [OF small(2)] zl_of_header(1,2) [OF small(3)]
          zl_of_header(3) [OF k(1)] zl_of_header(3) [OF k(2)] ZIPLIST_HEADER_SIZE_def ZIPLIST_END_SIZE_def bytes
          copy [simplified False if_False] bind.bind_lunit len header_writes(1) l t gs(4))
  qed
  then show ?thesis using gs(1-3) by blast
qed

end
