(* ===== verification/ZiplistProps.thy ===== *)
theory ZiplistProps
  imports ZiplistRefine
begin

text \<open>
  Sequences of ziplist operations refine operations on lists of strings (an interpretation of
  \<open>budget_simulation\<close>), and the properties of insertion and merging.
\<close>

section \<open>The representation\<close>

definition zl_ok :: "zent list \<Rightarrow> nat \<Rightarrow> bool" where
  "zl_ok es k \<longleftrightarrow> wf_layout 0 es \<and> (es = [] \<or> \<not> fst (hd es)) \<and> k < 65536 \<and> (k < 65535 \<longrightarrow> k = length es)"

definition zl_rep :: "bytes \<Rightarrow> bytes list \<Rightarrow> bool" where
  "zl_rep zl ss \<longleftrightarrow> (\<exists>es k. zl = zl_of es k \<and> zl_ok es k \<and> map snd es = ss)"

fun zval_str :: "zval \<Rightarrow> bytes" where
  "zval_str (ZStr s) = s"
| "zval_str (ZInt v) = sdec v"

text \<open>The strings of a ziplist, read with its own operations.\<close>

definition zl_values :: "bytes \<Rightarrow> bytes list" where
  "zl_values zl = (case ziplistLen zl of None \<Rightarrow> []
     | Some (_, n) \<Rightarrow> map (\<lambda>i. case ziplistIndex zl (int i) of
          Some p \<Rightarrow> (case ziplistGet zl p of Some (Some v) \<Rightarrow> zval_str v | _ \<Rightarrow> []) | None \<Rightarrow> []) [0..<n])"

lemma zval_str_of [simp]: "zval_str (zval_of s) = s"
  by (auto simp: zval_of_def split: option.splits dest: zipTryEncodingD(2))

lemma wf_split:
  assumes "wf_layout 0 es" and "j < length es"
  shows "es = take j es @ es ! j # drop (Suc j) es" and "wf_layout 0 (take j es @ es ! j # drop (Suc j) es)"
proof -
  show "es = take j es @ es ! j # drop (Suc j) es" using assms(2) by (rule id_take_nth_drop)
  then show "wf_layout 0 (take j es @ es ! j # drop (Suc j) es)" using assms(1) by metis
qed

lemma get_at_position:
  assumes "wf_layout 0 es" and "j < length es"
  shows "ziplistGet (zl_of es k) (Some (10 + total (take j es))) = Some (Some (zval_of (snd (es ! j))))"
proof -
  note w = wf_split [OF assms]
  show ?thesis using ziplistGet_entry [OF entry_first(1) [OF w(2)], of "drop (Suc j) es" k] w(1) by simp
qed

lemma ziplistLen_correct:
  assumes "zl_ok es k"
  shows "\<exists>k'. ziplistLen (zl_of es k) = Some (zl_of es k', length es) \<and> zl_ok es k'"
proof (cases "k < 65535")
  case True
  then show ?thesis using assms by (auto simp: ziplistLen_def zl_ok_def)
next
  case False
  have l: "len_loop (zl_of es k) 10 0 = Some (length es)" using len_loop_correct [of "[]" es k 0] assms by (simp add: zl_ok_def)
  show ?thesis
  proof (cases "length es < 65535")
    case True
    then have "set_LENGTH (int (length es)) (zl_of es k) = Some (zl_of es (length es))" by (simp add: zl_of_def)
    then show ?thesis using False l True assms
      by (intro exI [of _ "length es"]) (simp add: ziplistLen_def zl_ok_def ZIPLIST_HEADER_SIZE_def)
  next
    case False
    then show ?thesis using \<open>\<not> k < 65535\<close> l assms
      by (intro exI [of _ k]) (simp add: ziplistLen_def zl_ok_def ZIPLIST_HEADER_SIZE_def)
  qed
qed

lemma zl_values_correct:
  assumes ok: "zl_ok es k" and small: "11 + total es < 2 ^ 32"
  shows "zl_values (zl_of es k) = map snd es"
proof -
  have wf: "wf_layout 0 es" using ok by (simp add: zl_ok_def)
  have "(case ziplistIndex (zl_of es k) (int i) of
          Some p \<Rightarrow> (case ziplistGet (zl_of es k) p of Some (Some v) \<Rightarrow> zval_str v | _ \<Rightarrow> []) | None \<Rightarrow> []) = snd (es ! i)"
    if "i < length es" for i
  proof -
    have "ziplistIndex (zl_of es k) (int i) = Some (Some (10 + total (take i es)))"
      using ziplistIndex_correct [OF wf small, of "int i" k] that by (simp add: norm_index_def INT32_MIN_def)
    then show ?thesis using get_at_position [OF wf that, of k] by simp
  qed
  then show ?thesis using ziplistLen_correct [OF ok] by (auto simp: zl_values_def intro: nth_equalityI)
qed

lemma zl_new: "ziplistNew u = Some (zl_of [] 0)"
proof -
  have r: "replicate 11 u = zl_mem (le_nat (replicate 4 u)) (le_nat (replicate 4 u)) (le_nat (replicate 2 u)) [u]"
    using le_bytes_le_nat [of "replicate 4 u"] le_bytes_le_nat [of "replicate 2 u"] replicate_add [of 4 7 u] replicate_add [of 4 3 u]
      replicate_add [of 2 1 u]
    by (simp add: zl_mem_def)
  have "put_at 10 [255] (zl_mem 11 10 0 [u]) = Some (zl_mem 11 10 0 [255])"
    using put_at_mem [of 0 "[255]" 11 10 0 "[u]"] put_at_mid [of 0 "[]" "[255]" "[u]" "[]"] by simp
  then show ?thesis by (simp add: ziplistNew_def ZIPLIST_HEADER_SIZE_def r zl_of_def zip_consts)
qed

section \<open>Sequences of operations\<close>

datatype zl_op = PushHead bytes | PushTail bytes | DeleteRange int nat | GetAt int | FindNext bytes nat | Len

datatype zl_res = Done | Value "bytes option" | Count nat

fun zl_step :: "byte \<Rightarrow> zl_op \<Rightarrow> bytes \<Rightarrow> (bytes \<times> zl_res) option" where
  "zl_step u (PushHead s) zl = map_option (\<lambda>zl'. (zl', Done)) (ziplistPush u zl s True)"
| "zl_step u (PushTail s) zl = map_option (\<lambda>zl'. (zl', Done)) (ziplistPush u zl s False)"
| "zl_step u (DeleteRange i n) zl = map_option (\<lambda>zl'. (zl', Done)) (ziplistDeleteRange u zl i n)"
| "zl_step u (GetAt i) zl = do {
     p \<leftarrow> ziplistIndex zl i;
     v \<leftarrow> ziplistGet zl p;
     Some (zl, Value (map_option zval_str v))}"
| "zl_step u (FindNext s skip) zl = do {
     p \<leftarrow> ziplistFind zl ZIPLIST_HEADER_SIZE s skip;
     q \<leftarrow> (case p of None \<Rightarrow> Some None | Some p \<Rightarrow> ziplistNext zl p);
     v \<leftarrow> ziplistGet zl q;
     Some (zl, Value (map_option zval_str v))}"
| "zl_step u Len zl = map_option (\<lambda>(zl', n). (zl', Count n)) (ziplistLen zl)"

fun zl_spec :: "zl_op \<Rightarrow> bytes list \<Rightarrow> bytes list \<times> zl_res" where
  "zl_spec (PushHead s) ss = (s # ss, Done)"
| "zl_spec (PushTail s) ss = (ss @ [s], Done)"
| "zl_spec (DeleteRange i n) ss =
     (case norm_index (length ss) i of None \<Rightarrow> ss | Some j \<Rightarrow> take j ss @ drop (j + n) ss, Done)"
| "zl_spec (GetAt i) ss = (ss, Value (map_option (\<lambda>j. ss ! j) (norm_index (length ss) i)))"
| "zl_spec (FindNext s skip) ss =
     (ss, Value (case find_idx skip 0 s ss of None \<Rightarrow> None | Some j \<Rightarrow> if Suc j < length ss then Some (ss ! Suc j) else None))"
| "zl_spec Len ss = (ss, Count (length ss))"

fun zl_legal :: "nat \<Rightarrow> zl_op \<Rightarrow> bool" where
  "zl_legal K (PushHead s) \<longleftrightarrow> length s \<le> K"
| "zl_legal K (PushTail s) \<longleftrightarrow> length s \<le> K"
| "zl_legal K (DeleteRange i n) \<longleftrightarrow> INT32_MIN < i \<and> i \<le> INT32_MAX"
| "zl_legal K (GetAt i) \<longleftrightarrow> INT32_MIN < i \<and> i \<le> INT32_MAX"
| "zl_legal K (FindNext s skip) \<longleftrightarrow> True"
| "zl_legal K Len \<longleftrightarrow> True"

definition zl_inv :: "nat \<Rightarrow> nat \<Rightarrow> bytes \<Rightarrow> bool" where
  "zl_inv K n zl \<longleftrightarrow> (\<exists>es k. zl = zl_of es k \<and> zl_ok es k \<and> 11 + cap (map snd es) + n * (K + 14) < 2 ^ 32)"

lemma zl_values_cap:
  assumes "zl_ok es k" and "11 + cap (map snd es) + n < 2 ^ 32"
  shows "zl_values (zl_of es k) = map snd es"
  using zl_values_correct [OF assms(1)] total_cap [of es] assms(2) by simp

lemma push_tail_correct:
  assumes ok: "zl_ok es k" and room: "11 + cap (map snd es) + (length s + 14) < 2 ^ 32"
  shows "\<exists>es' k'. ziplistPush u (zl_of es k) s False = Some (zl_of es' k') \<and> zl_ok es' k' \<and> map snd es' = map snd es @ [s]"
proof -
  let ?e = "(last_size es \<ge> 254, s)"
  have small: "11 + total es < 2 ^ 32" using room total_cap [of es] by simp
  have "ziplistPush u (zl_of es k) s False = Some (zl_of (es @ [?e]) (incr_count k))"
    using insert_end [of es k s u] ok room small by (simp add: ziplistPush_def zl_ok_def)
  moreover have "zl_ok (es @ [?e]) (incr_count k)"
  proof -
    have "esize ?e < 2 ^ 32" using esize_bound [of ?e] room by simp
    moreover have "last_size es < 2 ^ 32" using small by (cases es rule: rev_cases) (simp_all add: last_size_def)
    ultimately have "wf_layout 0 (es @ [?e])"
      using ok room by (auto simp: zl_ok_def wf_layout_0_append wf_layout_Cons ent_ok_def fits_def)
    moreover have "\<not> fst (hd (es @ [?e]))" using ok by (cases es) (simp_all add: zl_ok_def last_size_def)
    ultimately show ?thesis using ok by (auto simp: zl_ok_def incr_count_def)
  qed
  ultimately show ?thesis by (intro exI [of _ "es @ [?e]"] exI [of _ "incr_count k"]) simp
qed

lemma push_head_correct:
  assumes ok: "zl_ok es k" and room: "11 + cap (map snd es) + (length s + 14) < 2 ^ 32"
  shows "\<exists>es' k'. ziplistPush u (zl_of es k) s True = Some (zl_of es' k') \<and> zl_ok es' k' \<and> map snd es' = s # map snd es"
proof (cases es)
  case Nil
  have "ziplistPush u (zl_of es k) s True = ziplistPush u (zl_of es k) s False"
    by (simp add: ziplistPush_def Nil ZIPLIST_HEADER_SIZE_def)
  then show ?thesis using push_tail_correct [OF ok room, of u] Nil by simp
next
  case (Cons e fs)
  have e: "\<not> fst e" "k < 65536" "wf_layout 0 ([] @ e # fs)" using ok by (simp_all add: zl_ok_def Cons)
  have r: "11 + cap (map snd ([] @ e # fs)) + (length s + 14) < 2 ^ 32" using room Cons by simp
  have sf: "fst e \<longrightarrow> 4 \<le> esize (last_size [] \<ge> 254, s)" using e(1) by simp
  obtain gs where gs: "map snd gs = snd e # map snd fs" "wf_layout 0 ([] @ (last_size [] \<ge> 254, s) # gs)"
      "ziplistInsert_raw u (zl_of ([] @ e # fs) k) (10 + total []) s = Some (zl_of ([] @ (last_size [] \<ge> 254, s) # gs) (incr_count k))"
    using insert_before [OF e(3,2) r sf, of u] by (elim exE conjE) (rule that; assumption)
  have "zl_ok ((False, s) # gs) (incr_count k)"
    using ok gs(1,2) map_eq_imp_length_eq [of snd gs snd "e # fs"]
    by (auto simp: zl_ok_def incr_count_def last_size_def Cons)
  then show ?thesis using gs by (intro exI [of _ "(False, s) # gs"] exI [of _ "incr_count k"])
      (simp add: ziplistPush_def ZIPLIST_HEADER_SIZE_def last_size_def Cons)
qed

lemma delete_range_correct:
  assumes ok: "zl_ok es k" and room: "11 + cap (map snd es) < 2 ^ 32" and i: "INT32_MIN < i"
  shows "\<exists>es' k'. ziplistDeleteRange u (zl_of es k) i n = Some (zl_of es' k') \<and> zl_ok es' k'
    \<and> map snd es' = fst (zl_spec (DeleteRange i n) (map snd es))"
proof -
  have wf: "wf_layout 0 es" and small: "11 + total es < 2 ^ 32" using ok room total_cap [of es] by (simp_all add: zl_ok_def)
  note idx = ziplistIndex_correct [OF wf small i, of k]
  show ?thesis
  proof (cases "norm_index (length es) i")
    case None
    then show ?thesis using idx ok by (intro exI [of _ es] exI [of _ k]) (simp add: ziplistDeleteRange_def)
  next
    case (Some j)
    have j: "j < length es" using Some i by (auto simp: norm_index_def split: if_splits)
    let ?as = "take j es" and ?gs = "drop j es"
    have gs: "?gs \<noteq> []" "es = ?as @ ?gs" "\<not> fst (hd es)" using j ok by (auto simp: zl_ok_def)
    let ?fs = "after_delete (last_size ?as) n ?gs"
    have "wf_layout 0 (?as @ ?fs) \<and> ziplistDelete_raw u (zl_of es k) (10 + total ?as) n
        = Some (zl_of (?as @ ?fs) (decr_count (length (take n ?gs)) k))"
      using delete_correct [of ?as ?gs k n u] wf gs(1) ok room by (auto simp: zl_ok_def)
    moreover have "map snd (?as @ ?fs) = take j (map snd es) @ drop (j + n) (map snd es)"
      by (simp add: take_map drop_map add.commute)
    moreover have "length (?as @ ?fs) = length es - length (take n ?gs)"
      using j by (simp add: min_def)
    moreover have "?as @ ?fs = [] \<or> \<not> fst (hd (?as @ ?fs))"
    proof (cases j)
      case 0
      then show ?thesis using gs(3) by (auto simp: after_delete_def last_size_def split: list.splits)
    next
      case (Suc j')
      then show ?thesis using gs(3) j by (cases es) auto
    qed
    ultimately show ?thesis using idx Some ok
      by (intro exI [of _ "?as @ ?fs"] exI [of _ "decr_count (length (take n ?gs)) k"])
         (auto simp: ziplistDeleteRange_def zl_ok_def decr_count_def)
  qed
qed

lemma find_idx_bound: "find_idx skip c v ss = Some j \<Longrightarrow> j < length ss"
  by (induction skip c v ss arbitrary: j rule: find_idx.induct) (auto split: if_splits)

lemma cap_delete: "cap (take j ss @ drop (j + n) ss) \<le> cap ss"
proof -
  have "cap ss = cap (take j ss @ take n (drop j ss) @ drop (j + n) ss)" by (metis append_take_drop_id drop_drop add.commute)
  then show ?thesis by (simp add: cap_def)
qed

lemma find_next_correct:
  assumes wf: "wf_layout 0 es"
  shows "zl_step u (FindNext s skip) (zl_of es k) = Some (zl_of es k, snd (zl_spec (FindNext s skip) (map snd es)))"
proof -
  have f: "ziplistFind (zl_of es k) ZIPLIST_HEADER_SIZE s skip = Some (map_option (\<lambda>i. 10 + total (take i es)) (find_idx skip 0 s (map snd es)))"
    using find_loop_correct [of "[]" es s 0 0 k skip 0] wf by (simp add: ziplistFind_def venc_ok_def ZIPLIST_HEADER_SIZE_def)
  show ?thesis
  proof (cases "find_idx skip 0 s (map snd es)")
    case None
    then show ?thesis using f by (simp add: ziplistGet_def)
  next
    case (Some j)
    have j: "j < length es" using find_idx_bound [OF Some] by simp
    note w = wf_split [OF wf j]
    have n: "ziplistNext (zl_of es k) (10 + total (take j es)) = Some (if Suc j < length es then Some (10 + total (take (Suc j) es)) else None)"
      using ziplistNext_entry [OF w(2), of k] w(1) j by (simp add: take_Suc_conv_app_nth)
    show ?thesis
    proof (cases "Suc j < length es")
      case True
      then show ?thesis using f Some n get_at_position [OF wf True, of k] by simp
    next
      case False
      then show ?thesis using f Some n by (simp add: ziplistGet_def)
    qed
  qed
qed

interpretation zl: budget_simulation "zl_step u" zl_spec zl_values "zl_inv K" "zl_legal K"
proof unfold_locales
  fix n s x
  assume inv: "zl_inv K (Suc n) s" and legal: "zl_legal K x"
  obtain es k where s: "s = zl_of es k" "zl_ok es k" "11 + cap (map snd es) + Suc n * (K + 14) < 2 ^ 32"
    using inv by (auto simp: zl_inv_def)
  have wf: "wf_layout 0 es" using s(2) by (simp add: zl_ok_def)
  have small: "11 + total es < 2 ^ 32" and cap: "11 + cap (map snd es) < 2 ^ 32" using s(3) total_cap [of es] by simp_all
  have room: "11 + cap (map snd es) + (length t + 14) < 2 ^ 32" if "length t \<le> K" for t :: bytes using s(3) that by simp
  have keep: "zl_inv K n (zl_of es' k') \<and> zl_values (zl_of es' k') = map snd es'"
    if "zl_ok es' k'" "cap (map snd es') \<le> cap (map snd es) + (K + 14)" for es' k'
    unfolding zl_inv_def using that s(3) zl_values_cap [OF that(1), of "n * (K + 14)"]
    by (intro conjI exI [of _ es'] exI [of _ k']) simp_all
  have v: "zl_values s = map snd es" "zl_inv K n s" using keep [OF s(2)] s(1) by simp_all
  show "\<exists>s' r. zl_step u x s = Some (s', r) \<and> zl_inv K n s' \<and> zl_spec x (zl_values s) = (zl_values s', r)"
  proof (cases x)
    case (PushHead t)
    obtain es' k' where e: "ziplistPush u s t True = Some (zl_of es' k')" "zl_ok es' k'" "map snd es' = t # map snd es"
      using push_head_correct [OF s(2) room, of t u] legal PushHead s(1) by auto
    then show ?thesis using keep [OF e(2)] legal PushHead v by (simp add: cap_def)
  next
    case (PushTail t)
    obtain es' k' where e: "ziplistPush u s t False = Some (zl_of es' k')" "zl_ok es' k'" "map snd es' = map snd es @ [t]"
      using push_tail_correct [OF s(2) room, of t u] legal PushTail s(1) by auto
    then show ?thesis using keep [OF e(2)] legal PushTail v by (simp add: cap_def)
  next
    case (DeleteRange i m)
    obtain es' k' where e: "ziplistDeleteRange u s i m = Some (zl_of es' k')" "zl_ok es' k'"
        "map snd es' = fst (zl_spec (DeleteRange i m) (map snd es))"
      using delete_range_correct [OF s(2) cap, of i u m] legal DeleteRange s(1) by auto
    have "cap (map snd es') \<le> cap (map snd es)" unfolding e(3)
      using cap_delete by (auto split: option.splits)
    then show ?thesis using keep [OF e(2)] DeleteRange v e by simp
  next
    case (GetAt i)
    have "INT32_MIN < i" using legal GetAt by simp
    note idx = ziplistIndex_correct [OF wf small this, of k]
    show ?thesis
    proof (cases "norm_index (length es) i")
      case None
      then show ?thesis using GetAt idx v s(1) by (simp add: ziplistGet_def)
    next
      case (Some j)
      then have "j < length es" by (auto simp: norm_index_def split: if_splits)
      then show ?thesis using GetAt idx v s(1) Some get_at_position [OF wf, of j k] by simp
    qed
  next
    case (FindNext t skip)
    then show ?thesis using find_next_correct [OF wf, of u t skip k] v s(1) by simp
  next
    case Len
    obtain k' where "ziplistLen s = Some (zl_of es k', length es)" "zl_ok es k'" using ziplistLen_correct [OF s(2)] s(1) by blast
    then show ?thesis using Len v keep [of es k'] by simp
  qed
qed

section \<open>Properties\<close>

text \<open>
  C2.  A ziplist refines a list of strings.  Any sequence of pushes at both ends, deletions of ranges, reads by
  index, searches and length queries, run on a new ziplist whose size stays below \<open>2 ^ 32\<close>, never leaves the
  block, ends, and gives the results of the same sequence on a list; integers, both widths of the length
  fields, the saturated counter and the cascades of growing fields included.
\<close>

theorem ziplist_refines_list:
  assumes "list_all (zl_legal K) xs" and "11 + length xs * (K + 14) < 2 ^ 32"
  shows "\<exists>zl zl' rs. ziplistNew u = Some zl \<and> run_ops (zl_step u) xs zl = Some (zl', rs)
    \<and> run_spec zl_spec xs [] = (zl_values zl', rs)"
proof -
  have ok: "zl_ok [] 0" by (simp add: zl_ok_def)
  then have "zl_inv K (length xs) (zl_of [] 0)"
    unfolding zl_inv_def using assms(2) by (intro exI [of _ "[]"] exI [of _ 0]) (simp add: cap_def)
  then show ?thesis
    using zl.run_sim [where K = K and xs = xs and n = 0 and s = "zl_of [] 0" and u = u] assms(1) zl_values_correct [OF ok] zl_new [of u]
    by auto
qed

theorem ziplist_refines_list_witness:
  "\<exists>zl zl'. ziplistNew 7 = Some zl
    \<and> run_ops (zl_step 7) [PushTail [49], PushHead [97], FindNext [97] 1, DeleteRange 0 1, Len] zl
      = Some (zl', [Done, Done, Value (Some [49]), Done, Count 1]) \<and> zl_values zl' = [[49]]"
  using ziplist_refines_list [of 1 "[PushTail [49], PushHead [97], FindNext [97] 1, DeleteRange 0 1, Len]" 7]
  by (auto simp: norm_index_def INT32_MIN_def INT32_MAX_def)

text \<open>
  Insertion in the middle: \<open>ziplistInsert\<close> before the entry at a position puts the string there and keeps
  every other string, provided that the new entry has at least four bytes when the length field of the next
  entry has five.
\<close>

theorem ziplistInsert_inserts:
  assumes ok: "zl_ok es k" and j: "j < length es" and room: "11 + cap (map snd es) + (length s + 14) < 2 ^ 32"
    and safe: "fst (es ! j) \<longrightarrow> 4 \<le> esize (last_size (take j es) \<ge> 254, s)"
  shows "\<exists>zl'. ziplistInsert u (zl_of es k) (10 + total (take j es)) s = Some zl'
    \<and> zl_rep zl' (take j (map snd es) @ s # drop j (map snd es))"
proof -
  have wf: "wf_layout 0 es" "k < 65536" using ok by (simp_all add: zl_ok_def)
  let ?as = "take j es" and ?e = "es ! j" and ?fs = "drop (Suc j) es"
  note w = wf_split [OF wf(1) j]
  have r: "11 + cap (map snd (?as @ ?e # ?fs)) + (length s + 14) < 2 ^ 32" using room w(1) by simp
  obtain gs where gs: "map snd gs = snd ?e # map snd ?fs" "wf_layout 0 (?as @ (last_size ?as \<ge> 254, s) # gs)"
      "ziplistInsert_raw u (zl_of (?as @ ?e # ?fs) k) (10 + total ?as) s = Some (zl_of (?as @ (last_size ?as \<ge> 254, s) # gs) (incr_count k))"
    using insert_before [OF w(2) wf(2) r safe, of u] by (elim exE conjE) (rule that; assumption)
  let ?es = "?as @ (last_size ?as \<ge> 254, s) # gs"
  have strings: "map snd ?es = take j (map snd es) @ s # drop j (map snd es)"
    using gs(1) j by (simp add: take_map drop_map Cons_nth_drop_Suc [symmetric])
  have "length gs = Suc (length ?fs)" using arg_cong [OF gs(1), of length] by simp
  then have "length ?es = Suc (length es)" using j by simp
  moreover have "\<not> fst (hd ?es)" using ok j by (cases es; cases j) (simp_all add: zl_ok_def last_size_def)
  ultimately have "zl_ok ?es (incr_count k)" using gs(2) ok by (auto simp: zl_ok_def incr_count_def)
  then show ?thesis using gs(3) w(1) strings unfolding zl_rep_def ziplistInsert_def by metis
qed

theorem ziplistInsert_inserts_witness:
  "\<exists>zl'. ziplistInsert 0 (zl_of [(False, [97]), (False, [49])] 2) (10 + total [(False, [97])]) [98, 99] = Some zl'
    \<and> zl_rep zl' [[97], [98, 99], [49]]"
proof -
  have s: "zipTryEncoding [97] = None" "zipTryEncoding [49] = Some (1, 0xf2)"
    by (simp_all add: zipTryEncoding_def string2ll_def zip_consts range_simps to_signed_def)
  then have e: "esize (False, [97]) = 3" "esize (False, [49]) = 2"
    by (simp_all add: esize_def zbody_def len_bytes_def int_payload_def zipSaveInteger_def zip_consts)
  have "zl_ok [(False, [97]), (False, [49])] 2"
    by (simp add: zl_ok_def wf_layout_Cons ent_ok_def fits_def e)
  then show ?thesis using ziplistInsert_inserts [of "[(False, [97]), (False, [49])]" 2 1 "[98, 99]" 0] by (simp add: cap_def)
qed

text \<open>
  Merging: \<open>ziplistMerge\<close> of two lists, the second not empty, gives a list with the strings of the first
  followed by those of the second, whichever of the two blocks is reused, and repairs the length fields at the
  seam; the pointer to the other block is set to \<open>NULL\<close>.
\<close>

theorem ziplistMerge_concatenates:
  assumes "zl_rep zl1 ss1" and "zl_rep zl2 ss2" and "ss2 \<noteq> []" and "11 + cap (ss1 @ ss2) < 2 ^ 32"
  shows "\<exists>z. zl_rep z (ss1 @ ss2) \<and>
    (ziplistMerge u False (Some zl1) (Some zl2) = Some (Some z, Some z, None)
     \<or> ziplistMerge u False (Some zl1) (Some zl2) = Some (Some z, None, Some z))"
proof -
  obtain es k1 fs k2 where r: "zl1 = zl_of es k1" "zl_ok es k1" "map snd es = ss1" "zl2 = zl_of fs k2" "zl_ok fs k2" "map snd fs = ss2"
    using assms(1,2) by (auto simp: zl_rep_def)
  have fs: "fs \<noteq> []" using r(6) assms(3) by auto
  obtain gs where gs: "map snd gs = map snd (es @ fs)" "wf_layout 0 gs" "\<not> fst (hd gs)"
      "ziplistMerge u False (Some (zl_of es k1)) (Some (zl_of fs k2))
        = Some (let z = zl_of gs (min (k1 + k2) 65535) in (Some z, if k1 \<ge> k2 then (Some z, None) else (None, Some z)))"
    using merge_correct [of es fs k1 k2 u] r fs assms(4) by (auto simp: zl_ok_def)
  have "length gs = length es + length fs" using arg_cong [OF gs(1), of length] by simp
  then have "zl_ok gs (min (k1 + k2) 65535)" using gs(2,3) r(2,5) by (auto simp: zl_ok_def min_def)
  then have "zl_rep (zl_of gs (min (k1 + k2) 65535)) (ss1 @ ss2)" using gs(1) r(3,6) by (auto simp: zl_rep_def)
  then show ?thesis using gs(4) r(1,4) by (intro exI [of _ "zl_of gs (min (k1 + k2) 65535)"]) (simp add: Let_def)
qed

theorem ziplistMerge_concatenates_witness:
  "\<exists>z. zl_rep z [[97], [97]] \<and>
    (ziplistMerge 0 False (Some (zl_of [(False, [97])] 1)) (Some (zl_of [(False, [97])] 1)) = Some (Some z, Some z, None)
     \<or> ziplistMerge 0 False (Some (zl_of [(False, [97])] 1)) (Some (zl_of [(False, [97])] 1)) = Some (Some z, None, Some z))"
proof -
  have "zipTryEncoding [97] = None" by (simp add: zipTryEncoding_def string2ll_def)
  then have "zl_ok [(False, [97])] 1" by (simp add: zl_ok_def wf_layout_Cons ent_ok_def fits_def esize_def zbody_def len_bytes_def)
  then have "zl_rep (zl_of [(False, [97])] 1) [[97]]"
    unfolding zl_rep_def by (intro exI [of _ "[(False, [97])]"] exI [of _ 1]) simp
  then show ?thesis using ziplistMerge_concatenates [of _ "[[97]]" _ "[[97]]" 0] by (simp add: cap_def)
qed

section \<open>A short entry before a large field\<close>

definition a248 :: bytes where "a248 = replicate 248 97"

lemma short_strings:
  "zipTryEncoding [98] = None" "zipTryEncoding [99] = None" "zipTryEncoding [255] = None" "zipTryEncoding a248 = None"
  "zipTryEncoding (replicate 300 120) = None"
  by (simp_all add: zipTryEncoding_def string2ll_def a248_def)

lemma length_a248 [simp]: "length a248 = 248"
  by (simp add: a248_def)

lemma short_sizes [simp]:
  "zbody [98] = [1, 98]" "zbody [99] = [1, 99]" "zbody [255] = [1, 255]" "length (zbody a248) = 250"
  "length (zbody (replicate 300 120)) = 302"
  by (simp_all add: zbody_def short_strings len_bytes_def)

lemma sizes [simp]:
  "esize (b, [98]) = (if b then 7 else 3)" "esize (b, [99]) = (if b then 7 else 3)" "esize (b, [255]) = (if b then 7 else 3)"
  "esize (b, a248) = (if b then 255 else 251)" "esize (b, replicate 300 120) = (if b then 307 else 303)" "length a248 = 248"
  by (simp_all add: esize_def)

text \<open>Deleting the first of three entries shortens the second, but the field of the third keeps its five bytes.\<close>

lemma large_field_reached:
  "\<exists>zl. ziplistNew u = Some zl \<and> run_ops (zl_step u)
     [PushTail (replicate 300 120), PushTail a248, PushTail [98], DeleteRange 0 1] zl
     = Some (zl_of [(False, a248), (True, [98])] 2, [Done, Done, Done, Done])"
proof -
  let ?X = "(False, replicate 300 120)"
  have push: "ziplistPush u (zl_of es k) s False = Some (zl_of (es @ [(last_size es \<ge> 254, s)]) (k + 1))"
    if "wf_layout 0 es" "k < 10" "11 + cap (map snd es) + (length s + 14) < 2 ^ 32" for es k s
    using insert_end [of es k s u] that total_cap [of es] by (simp add: ziplistPush_def incr_count_def)
  have 1: "ziplistPush u (zl_of [] 0) (replicate 300 120) False = Some (zl_of [?X] 1)"
    using push [of "[]" 0 "replicate 300 120"] by (simp add: last_size_def cap_def)
  have 2: "ziplistPush u (zl_of [?X] 1) a248 False = Some (zl_of [?X, (True, a248)] 2)"
    using push [of "[?X]" 1 a248, unfolded one_add_one] by (simp add: last_size_def cap_def wf_layout_Cons ent_ok_def fits_def)
  have 3: "ziplistPush u (zl_of [?X, (True, a248)] 2) [98] False = Some (zl_of [?X, (True, a248), (True, [98])] 3)"
    using push [of "[?X, (True, a248)]" 2 "[98]"] by (simp add: last_size_def cap_def wf_layout_Cons ent_ok_def fits_def)
  have wf: "wf_layout 0 [?X, (True, a248), (True, [98])]" by (simp add: wf_layout_Cons ent_ok_def fits_def)
  have "ziplistIndex (zl_of [?X, (True, a248), (True, [98])] 3) 0 = Some (Some 10)"
    using ziplistIndex_correct [OF wf, of 0 3] by (simp add: norm_index_def INT32_MIN_def)
  moreover have "ziplistDelete_raw u (zl_of [?X, (True, a248), (True, [98])] 3) 10 1 = Some (zl_of [(False, a248), (True, [98])] 2)"
    using delete_correct [of "[]" "[?X, (True, a248), (True, [98])]" 3 1 u] wf
    by (simp add: after_delete_def last_size_def decr_count_def cap_def)
  ultimately have 4: "ziplistDeleteRange u (zl_of [?X, (True, a248), (True, [98])] 3) 0 1 = Some (zl_of [(False, a248), (True, [98])] 2)"
    by (simp add: ziplistDeleteRange_def)
  show ?thesis using zl_new [of u] 1 2 3 4 by simp
qed

lemma insert_shrinks:
  "ziplistInsert_raw u (zl_of [(False, a248), (True, [98])] 2) 261 [99] = Some (zl_of [(False, a248), (False, [99]), (False, [255])] 3)"
proof -
  define L where "L = zentry 0 (False, a248)"
  let ?zl = "zl_of [(False, a248), (True, [98])] 2"
  have lL: "length L = 251" by (simp add: L_def)
  have le: "le_bytes 4 251 = [251, 0, 0, 0]" using be_bytes_4 [of 251] by (simp add: be_bytes_def)
  have zl: "?zl = zl_mem 269 261 2 ((L @ [254, 251, 0, 0, 0, 1]) @ [98, 255])"
    by (simp add: zl_of_def L_def zentry_def prev_field_def le)
  have ok: "ent_ok (last_size [(False, a248)]) (True, [98])" by (simp add: ent_ok_def fits_def last_size_def)
  note rd = zl_of_reads [OF ok, of "[]" 2, simplified]
  obtain b where b: "byte_at ?zl 261 = Some b" "b \<noteq> ZIP_END" using rd(1) by auto
  have small: "11 + total [(False, a248), (True, [98])] < 2 ^ 32" by simp
  have plan: "(case zipTryEncoding [99] of Some (value, enc) \<Rightarrow> (value, enc, zipIntSize enc) | None \<Rightarrow> (123456789, 0, length [99 :: byte])) = (123456789, 0, 1)"
    by (simp add: short_strings)
  have fld: "zipPrevEncodeLength 251 = [251]" "zipPrevEncodeLength 3 = [3]" "zipEncodeLength 0 (length [99 :: byte]) = [1]" "ZIP_IS_STR 0"
    by (simp_all add: zipPrevEncodeLength_def zipEncodeLength_def string_bytes zip_consts)
  have rs: "ziplistResize u ?zl 268 = Some (zl_mem 268 261 2 (L @ [254, 251, 0, 0, 0, 1, 255]))"
    using resize_shrink [of 268 "L @ [254, 251, 0, 0, 0, 1]" "[98, 255]" u 269 261 2] by (simp add: zl lL)
  let ?M = "zl_mem 268 261 2 (L @ [254, 251, 0, 0, 0, 1, 255])"
  have b1: "byte_at ?M 261 = Some 254" using byte_at_mem [of 268 261 2 "L @ [254, 251, 0, 0, 0, 1, 255]" 251] lL by (simp add: byte_at_def nth_append)
  have "read_at 265 3 ?M = [0, 1, 255]" using lL by (simp add: read_at_def zl_mem_def)
  then have "move_at 264 265 3 ?M = Some (take 264 ?M @ [0, 1, 255] @ [last ?M])" using lL by (intro move_to_end) simp_all
  moreover have "take 264 ?M = zl_mem 268 261 2 (L @ [254, 251, 0])" using lL by (simp add: zl_mem_def)
  moreover have "last ?M = 255" by (simp add: zl_mem_def)
  ultimately have mv: "move_at 264 265 3 ?M = Some (zl_mem 268 261 2 (L @ [254, 251, 0] @ [0] @ [1, 255, 255]))" by (simp add: zl_mem_app [symmetric])
  have "put_at 254 [3] ((L @ [254, 251, 0]) @ [0] @ [1, 255, 255]) = Some ((L @ [254, 251, 0]) @ [3] @ [1, 255, 255])"
    using lL by (intro put_at_mid) simp_all
  then have pt: "put_at 264 [3] (zl_mem 268 261 2 (L @ [254, 251, 0] @ [0] @ [1, 255, 255])) = Some (zl_mem 268 261 2 (L @ [254, 251, 0, 3, 1, 255, 255]))"
    using put_at_mem [of 254] by simp
  let ?A = "L @ [254, 251, 0]"
  have cm: "zl_mem 268 264 2 (L @ [254, 251, 0, 3, 1, 255, 255]) = cascade_mem ?A 3 (False, [255]) 3 [] 2"
    using lL by (simp add: cascade_mem_def zentry_def prev_field_def)
  have e_ok: "ent_ok 3 (False, [255])" by (simp add: ent_ok_def fits_def)
  have ze: "zipEntry (cascade_mem ?A 3 (False, [255]) 3 [] 2) 264 = Some (decoded 3 (False, [255]))"
    using cascade_reads(2) [OF e_ok, of ?A 3 "[]" 2] lL by simp
  have hl: "headersize (decoded 3 (False, [255])) = 2" "len (decoded 3 (False, [255])) = 1"
    by (simp_all add: decoded_def body_lensize_def body_len_def short_strings len_bytes_def)
  have b2: "byte_at (cascade_mem ?A 3 (False, [255]) 3 [] 2) 267 = Some ZIP_END"
    using cascade_reads(3) [OF e_ok refl, of ?A 3 2] lL by simp
  have cu: "ziplistCascadeUpdate u (cascade_mem ?A 3 (False, [255]) 3 [] 2) 264 = Some (cascade_mem ?A 3 (False, [255]) 3 [] 2)"
    using cascade_update [OF e_ok, of 3 "[]" ?A u 2] lL by (simp add: cap_def)
  obtain zl6 zl7 zl8 where we: "put_at 261 [251] (cascade_mem ?A 3 (False, [255]) 3 [] 2) = Some zl6" "put_at 262 [1] zl6 = Some zl7"
      "put_at 263 [99] zl7 = Some zl8" "ZIPLIST_INCR_LENGTH 1 zl8 = Some (zl_mem 268 264 3 (L @ zentry 251 (False, [99]) @ [3, 1, 255, 255]))"
    using write_entry [of "[254, 251, 0]" 251 "[99]" "[1]" "[99]" 2 L 268 264 "[3, 1, 255, 255]"] lL
    by (auto simp: cm [symmetric] fld Option.bind_eq_Some_conv)
  have fin: "zl_mem 268 264 3 (L @ zentry 251 (False, [99]) @ [3, 1, 255, 255]) = zl_of [(False, a248), (False, [99]), (False, [255])] 3"
    by (simp add: zl_of_def L_def zentry_def prev_field_def)
  have nums: "ZIPLIST_BYTES ?zl = 269" "map_option snd (ZIP_DECODE_PREVLEN ?zl 261) = Some 251" "zipPrevLenByteDiff ?zl 261 3 = Some (- 4)"
      "ZIPLIST_TAIL_OFFSET (zl_mem 268 261 2 (L @ [254, 251, 0, 3, 1, 255, 255])) = 261"
      "set_TAIL_OFFSET 264 (zl_mem 268 261 2 (L @ [254, 251, 0, 3, 1, 255, 255])) = Some (cascade_mem ?A 3 (False, [255]) 3 [] 2)"
    using rd(2,4) by (simp_all add: last_size_def cm [symmetric])
  have arith: "1 + length [251 :: byte] + length [1 :: byte] = 3" "int 269 + int 3 + - 4 = 268" "nat (int 261 - - 4) = 265"
      "size_t (int 269 - int 261 - 1 + - 4) = 3" "(261 :: nat) + 3 = 264" "int 261 + int 3 = 264" "(264 :: nat) + 2 + 1 = 267"
      "((- 4 :: int) \<noteq> 0) = True" "262 + length [1 :: byte] = 263" "261 + length [251 :: byte] = 262" "(254 = ZIP_END) = False"
    by (simp_all add: size_t_def zip_consts)
  show ?thesis unfolding fin [symmetric]
    using b(2) by (simp only: ziplistInsert_raw_def Let_def nums b(1) plan fld arith prod.case bind.bind_lunit rs b1 mv pt ze hl b2 cu we
        simp_thms if_True if_False)
qed

text \<open>
  C35.  A flaw of \<open>__ziplistInsert\<close>: when the next entry has a five byte field that a one byte field replaces, the
  block is cut to its new size before the entries are moved, which for a new entry of less than four bytes destroys
  the last bytes.  After three pushes and one deletion, inserting \<open>c\<close> before the entry \<open>b\<close> changes that entry
  to the byte 255.
\<close>

theorem ziplistInsert_loses_byte:
  "\<exists>zl zl1 zl2. ziplistNew u = Some zl
    \<and> run_ops (zl_step u) [PushTail (replicate 300 120), PushTail a248, PushTail [98], DeleteRange 0 1] zl
      = Some (zl1, [Done, Done, Done, Done])
    \<and> zl_values zl1 = [a248, [98]] \<and> ziplistIndex zl1 1 = Some (Some 261)
    \<and> ziplistInsert u zl1 261 [99] = Some zl2 \<and> zl_values zl2 = [a248, [99], [255]]"
proof -
  let ?es = "[(False, a248), (True, [98])]"
  have wf: "wf_layout 0 ?es" by (simp add: wf_layout_Cons ent_ok_def fits_def)
  then have "zl_values (zl_of ?es 2) = [a248, [98]]" using zl_values_correct [of ?es 2] by (simp add: zl_ok_def)
  moreover have "zl_values (zl_of [(False, a248), (False, [99]), (False, [255])] 3) = [a248, [99], [255]]"
    using zl_values_correct [of "[(False, a248), (False, [99]), (False, [255])]" 3]
    by (simp add: zl_ok_def wf_layout_Cons ent_ok_def fits_def)
  moreover have "ziplistIndex (zl_of ?es 2) 1 = Some (Some 261)"
    using ziplistIndex_correct [OF wf, of 1 2] by (simp add: norm_index_def INT32_MIN_def)
  ultimately show ?thesis using large_field_reached [of u] insert_shrinks [of u] by (auto simp: ziplistInsert_def)
qed

end
