(* ===== verification/Output.thy ===== *)
theory Output
  imports Prelude Refinement Util
begin

text \<open>
  \<^verbatim>\<open>networking.c\<close>, the output side: the replies of the commands are collected in a static buffer and, when it
  is full, in a list of reference counted string objects; \<open>writeToClient\<close> sends them, as far as \<open>write(2)\<close>
  accepts them.

  String objects live in a heap with their reference counts and encodings, their strings are contents (\<open>Sds\<close>
  relates contents to headers).  \<open>alloc\<close> is the allocator, \<open>mem\<close> the memory it reports for an object, \<open>limits\<close> the test
  \<open>checkClientOutputBufferLimits\<close>.  \<open>None\<close> is a failed assertion, a null pointer or the use of a freed object.
\<close>

section \<open>Objects and clients\<close>

datatype obj_val = Raw_str bytes | Emb_str bytes | Int_obj int | Null_str

record sobj =
  so_val :: obj_val
  so_ref :: int

type_synonym oheap = "nat \<rightharpoonup> sobj"

datatype oflag = LUA | REPLY_OFF | REPLY_SKIP | MASTER | MASTER_FORCE_REPLY | PENDING_WRITE | CLOSE_AFTER_REPLY | CLOSE_ASAP

record oclient =
  oc_id :: nat
  oc_fd :: int
  oc_buf :: bytes
  oc_bufpos :: nat
  oc_reply :: "nat list"
  oc_reply_bytes :: int
  oc_sentlen :: nat
  oc_flags :: "oflag set"
  oc_replstate :: nat
  oc_put_online_on_ack :: bool
  oc_handler :: bool

record oserver =
  os_objs :: oheap
  os_pending_write :: "nat list"
  os_to_close :: "nat list"

definition PROTO_REPLY_CHUNK_BYTES :: nat where "PROTO_REPLY_CHUNK_BYTES = 16 * 1024"
definition NET_MAX_WRITES_PER_EVENT :: nat where "NET_MAX_WRITES_PER_EVENT = 1024 * 64"
definition REPL_STATE_NONE :: nat where "REPL_STATE_NONE = 0"
definition SLAVE_STATE_ONLINE :: nat where "SLAVE_STATE_ONLINE = 9"

text \<open>\<open>o->ptr\<close> and \<open>sdslen(o->ptr)\<close> of a string object.\<close>

fun str_of :: "obj_val \<Rightarrow> bytes option" where
  "str_of (Raw_str s) = Some s"
| "str_of (Emb_str s) = Some s"
| "str_of (Int_obj v) = None"
| "str_of Null_str = None"

definition obj_ref :: "nat \<Rightarrow> int \<Rightarrow> oheap \<Rightarrow> oheap option" where
  "obj_ref a d h = do {
     ob \<leftarrow> h a;
     Some (if so_ref ob + d = 0 then h(a := None) else h(a \<mapsto> ob\<lparr>so_ref := so_ref ob + d\<rparr>))}"

definition createStr :: "bytes \<Rightarrow> obj_val" where
  "createStr s = (if length s \<le> 44 then Emb_str s else Raw_str s)"

text \<open>What \<open>ll2string\<close> writes into a buffer that is large enough.\<close>

definition ll_text :: "int \<Rightarrow> bytes" where
  "ll_text v = (let (buf, len) = ll2string (replicate 32 0) v in take len buf)"

section \<open>Access to the output buffers\<close>

definition clientHasPendingReplies :: "oclient \<Rightarrow> bool" where
  "clientHasPendingReplies c \<longleftrightarrow> oc_bufpos c \<noteq> 0 \<or> oc_reply c \<noteq> []"

definition prepareClientToWrite :: "oclient \<Rightarrow> oserver \<Rightarrow> (oclient \<times> oserver) option" where
  "prepareClientToWrite c s =
     (if LUA \<in> oc_flags c then Some (c, s)
      else if REPLY_OFF \<in> oc_flags c \<or> REPLY_SKIP \<in> oc_flags c then None
      else if MASTER \<in> oc_flags c \<and> MASTER_FORCE_REPLY \<notin> oc_flags c then None
      else if oc_fd c \<le> 0 then None
      else if \<not> clientHasPendingReplies c \<and> PENDING_WRITE \<notin> oc_flags c
              \<and> (oc_replstate c = REPL_STATE_NONE \<or> oc_replstate c = SLAVE_STATE_ONLINE \<and> \<not> oc_put_online_on_ack c)
      then Some (c\<lparr>oc_flags := insert PENDING_WRITE (oc_flags c)\<rparr>, s\<lparr>os_pending_write := oc_id c # os_pending_write s\<rparr>)
      else Some (c, s))"

definition freeClientAsync :: "oclient \<Rightarrow> oserver \<Rightarrow> oclient \<times> oserver" where
  "freeClientAsync c s =
     (if CLOSE_ASAP \<in> oc_flags c \<or> LUA \<in> oc_flags c then (c, s)
      else (c\<lparr>oc_flags := insert CLOSE_ASAP (oc_flags c)\<rparr>, s\<lparr>os_to_close := os_to_close s @ [oc_id c]\<rparr>))"

definition asyncCloseClientOnOutputBufferLimitReached :: "(oclient \<Rightarrow> bool) \<Rightarrow> oclient \<Rightarrow> oserver \<Rightarrow> (oclient \<times> oserver) option" where
  "asyncCloseClientOnOutputBufferLimitReached limits c s =
     (if \<not> oc_reply_bytes c < 2 ^ 64 - 1 - 1024 * 64 then None
      else if oc_reply_bytes c = 0 \<or> CLOSE_ASAP \<in> oc_flags c then Some (c, s)
      else if limits c then Some (freeClientAsync c s)
      else Some (c, s))"

definition dupLastObjectIfNeeded :: "(oheap \<Rightarrow> nat) \<Rightarrow> nat list \<Rightarrow> oheap \<Rightarrow> (nat list \<times> oheap) option" where
  "dupLastObjectIfNeeded alloc reply h =
     (if reply = [] then None
      else do {
        let ln = last reply;
        cur \<leftarrow> h ln;
        if so_ref cur > 1 then do {
          let new = alloc h;
          h1 \<leftarrow> obj_ref ln (- 1) (h(new \<mapsto> \<lparr>so_val = so_val cur, so_ref = 1\<rparr>));
          Some (butlast reply @ [new], h1)}
        else Some (reply, h)})"

definition addReplyToBuffer :: "bytes \<Rightarrow> oclient \<Rightarrow> oclient option" where
  "addReplyToBuffer s c =
     (if CLOSE_AFTER_REPLY \<in> oc_flags c then Some c
      else if oc_reply c \<noteq> [] then None
      else if length s > PROTO_REPLY_CHUNK_BYTES - oc_bufpos c then None
      else Some (c\<lparr>oc_buf := take (oc_bufpos c) (oc_buf c) @ s @ drop (oc_bufpos c + length s) (oc_buf c),
                   oc_bufpos := oc_bufpos c + length s\<rparr>))"

text \<open>Appending to the last object of the list, and the test for it.\<close>

definition glue_possible :: "nat \<Rightarrow> sobj \<Rightarrow> bool" where
  "glue_possible len tail =
     (case so_val tail of Raw_str t \<Rightarrow> length t + len \<le> PROTO_REPLY_CHUNK_BYTES | _ \<Rightarrow> False)"

definition append_to_last ::
  "(oheap \<Rightarrow> nat) \<Rightarrow> (obj_val \<Rightarrow> nat) \<Rightarrow> bytes \<Rightarrow> oclient \<Rightarrow> oserver \<Rightarrow> (oclient \<times> oserver) option" where
  "append_to_last alloc mem s c sv = do {
     tail \<leftarrow> os_objs sv (last (oc_reply c));
     (reply, h1) \<leftarrow> dupLastObjectIfNeeded alloc (oc_reply c) (os_objs sv);
     tail' \<leftarrow> h1 (last reply);
     t \<leftarrow> str_of (so_val tail');
     Some (c\<lparr>oc_reply := reply, oc_reply_bytes := oc_reply_bytes c - int (mem (so_val tail)) + int (mem (Raw_str (t @ s)))\<rparr>,
           sv\<lparr>os_objs := h1(last reply \<mapsto> tail'\<lparr>so_val := Raw_str (t @ s)\<rparr>)\<rparr>)}"

definition push_reply :: "(obj_val \<Rightarrow> nat) \<Rightarrow> nat \<Rightarrow> oclient \<Rightarrow> oserver \<Rightarrow> (oclient \<times> oserver) option" where
  "push_reply mem a c sv = do {
     ob \<leftarrow> os_objs sv a;
     Some (c\<lparr>oc_reply := oc_reply c @ [a], oc_reply_bytes := oc_reply_bytes c + int (mem (so_val ob))\<rparr>, sv)}"

definition addReplyObjectToList ::
  "(oheap \<Rightarrow> nat) \<Rightarrow> (obj_val \<Rightarrow> nat) \<Rightarrow> (oclient \<Rightarrow> bool) \<Rightarrow> nat \<Rightarrow> oclient \<Rightarrow> oserver \<Rightarrow> (oclient \<times> oserver) option" where
  "addReplyObjectToList alloc mem limits a c sv =
     (if CLOSE_AFTER_REPLY \<in> oc_flags c then Some (c, sv)
      else do {
        (c1, sv1) \<leftarrow>
          (if oc_reply c = [] then do {
             h1 \<leftarrow> obj_ref a 1 (os_objs sv);
             push_reply mem a c (sv\<lparr>os_objs := h1\<rparr>)}
           else do {
             tail \<leftarrow> os_objs sv (last (oc_reply c));
             ob \<leftarrow> os_objs sv a;
             s \<leftarrow> str_of (so_val ob);
             if glue_possible (length s) tail then append_to_last alloc mem s c sv
             else do {
               h1 \<leftarrow> obj_ref a 1 (os_objs sv);
               push_reply mem a c (sv\<lparr>os_objs := h1\<rparr>)}});
        asyncCloseClientOnOutputBufferLimitReached limits c1 sv1})"

text \<open>\<open>mk\<close> is \<open>createObject(OBJ_STRING,s)\<close>, which keeps the string, or \<open>createStringObject\<close>.\<close>

definition add_to_list ::
  "(bytes \<Rightarrow> obj_val) \<Rightarrow> (oheap \<Rightarrow> nat) \<Rightarrow> (obj_val \<Rightarrow> nat) \<Rightarrow> (oclient \<Rightarrow> bool) \<Rightarrow> bytes \<Rightarrow> oclient \<Rightarrow> oserver \<Rightarrow> (oclient \<times> oserver) option" where
  "add_to_list mk alloc mem limits s c sv =
     (if CLOSE_AFTER_REPLY \<in> oc_flags c then Some (c, sv)
      else do {
        let new = alloc (os_objs sv);
        let sv' = sv\<lparr>os_objs := (os_objs sv)(new \<mapsto> \<lparr>so_val = mk s, so_ref = 1\<rparr>)\<rparr>;
        (c1, sv1) \<leftarrow>
          (if oc_reply c = [] then push_reply mem new c sv'
           else do {
             tail \<leftarrow> os_objs sv (last (oc_reply c));
             if glue_possible (length s) tail then append_to_last alloc mem s c sv
             else push_reply mem new c sv'});
        asyncCloseClientOnOutputBufferLimitReached limits c1 sv1})"

definition addReplySdsToList :: "(oheap \<Rightarrow> nat) \<Rightarrow> (obj_val \<Rightarrow> nat) \<Rightarrow> (oclient \<Rightarrow> bool) \<Rightarrow> bytes \<Rightarrow> oclient \<Rightarrow> oserver \<Rightarrow> (oclient \<times> oserver) option" where
  "addReplySdsToList = add_to_list Raw_str"

definition addReplyStringToList :: "(oheap \<Rightarrow> nat) \<Rightarrow> (obj_val \<Rightarrow> nat) \<Rightarrow> (oclient \<Rightarrow> bool) \<Rightarrow> bytes \<Rightarrow> oclient \<Rightarrow> oserver \<Rightarrow> (oclient \<times> oserver) option" where
  "addReplyStringToList = add_to_list createStr"

section \<open>Replies\<close>

definition addReply :: "(oheap \<Rightarrow> nat) \<Rightarrow> (obj_val \<Rightarrow> nat) \<Rightarrow> (oclient \<Rightarrow> bool) \<Rightarrow> nat \<Rightarrow> oclient \<Rightarrow> oserver \<Rightarrow> (oclient \<times> oserver) option" where
  "addReply alloc mem limits a c0 sv0 =
     (case prepareClientToWrite c0 sv0 of
        None \<Rightarrow> Some (c0, sv0)
      | Some (c, sv) \<Rightarrow> do {
          ob \<leftarrow> os_objs sv a;
          case so_val ob of
            Int_obj v \<Rightarrow>
              (case (if oc_reply c = [] \<and> PROTO_REPLY_CHUNK_BYTES - oc_bufpos c \<ge> 32 then addReplyToBuffer (ll_text v) c else None) of
                 Some c' \<Rightarrow> Some (c', sv)
               | None \<Rightarrow> do {
                   let new = alloc (os_objs sv);
                   let sv1 = sv\<lparr>os_objs := (os_objs sv)(new \<mapsto> \<lparr>so_val = createStr (ll_text v), so_ref = 1\<rparr>)\<rparr>;
                   (c2, sv2) \<leftarrow> (case addReplyToBuffer (ll_text v) c of
                       Some c' \<Rightarrow> Some (c', sv1)
                     | None \<Rightarrow> addReplyObjectToList alloc mem limits new c sv1);
                   h3 \<leftarrow> obj_ref new (- 1) (os_objs sv2);
                   Some (c2, sv2\<lparr>os_objs := h3\<rparr>)})
          | v \<Rightarrow> do {
              s \<leftarrow> str_of v;
              case addReplyToBuffer s c of
                Some c' \<Rightarrow> Some (c', sv)
              | None \<Rightarrow> addReplyObjectToList alloc mem limits a c sv}})"

definition addReplySds :: "(oheap \<Rightarrow> nat) \<Rightarrow> (obj_val \<Rightarrow> nat) \<Rightarrow> (oclient \<Rightarrow> bool) \<Rightarrow> bytes \<Rightarrow> oclient \<Rightarrow> oserver \<Rightarrow> (oclient \<times> oserver) option" where
  "addReplySds alloc mem limits s c0 sv0 =
     (case prepareClientToWrite c0 sv0 of
        None \<Rightarrow> Some (c0, sv0)
      | Some (c, sv) \<Rightarrow>
          (case addReplyToBuffer s c of
             Some c' \<Rightarrow> Some (c', sv)
           | None \<Rightarrow> addReplySdsToList alloc mem limits s c sv))"

definition addReplyString :: "(oheap \<Rightarrow> nat) \<Rightarrow> (obj_val \<Rightarrow> nat) \<Rightarrow> (oclient \<Rightarrow> bool) \<Rightarrow> bytes \<Rightarrow> oclient \<Rightarrow> oserver \<Rightarrow> (oclient \<times> oserver) option" where
  "addReplyString alloc mem limits s c0 sv0 =
     (case prepareClientToWrite c0 sv0 of
        None \<Rightarrow> Some (c0, sv0)
      | Some (c, sv) \<Rightarrow>
          (case addReplyToBuffer s c of
             Some c' \<Rightarrow> Some (c', sv)
           | None \<Rightarrow> addReplyStringToList alloc mem limits s c sv))"

text \<open>The node of a deferred length is the position of the list; an absent node is the null pointer.\<close>

definition addDeferredMultiBulkLength :: "(oheap \<Rightarrow> nat) \<Rightarrow> oclient \<Rightarrow> oserver \<Rightarrow> oclient \<times> oserver \<times> nat option" where
  "addDeferredMultiBulkLength alloc c0 sv0 =
     (case prepareClientToWrite c0 sv0 of
        None \<Rightarrow> (c0, sv0, None)
      | Some (c, sv) \<Rightarrow>
          (let new = alloc (os_objs sv)
           in (c\<lparr>oc_reply := oc_reply c @ [new]\<rparr>, sv\<lparr>os_objs := (os_objs sv)(new \<mapsto> \<lparr>so_val = Null_str, so_ref = 1\<rparr>)\<rparr>,
               Some (length (oc_reply c)))))"

definition multibulk_len :: "int \<Rightarrow> bytes" where
  "multibulk_len n = 42 # ll_text n @ [13, 10]"

definition setDeferredMultiBulkLength ::
  "(obj_val \<Rightarrow> nat) \<Rightarrow> (oclient \<Rightarrow> bool) \<Rightarrow> nat option \<Rightarrow> int \<Rightarrow> oclient \<Rightarrow> oserver \<Rightarrow> (oclient \<times> oserver) option" where
  "setDeferredMultiBulkLength mem limits node n c sv =
     (case node of
        None \<Rightarrow> Some (c, sv)
      | Some i \<Rightarrow>
          if \<not> i < length (oc_reply c) then None
          else do {
            let a = oc_reply c ! i;
            len \<leftarrow> os_objs sv a;
            let s = multibulk_len n;
            let h1 = (os_objs sv)(a \<mapsto> len\<lparr>so_val := Raw_str s\<rparr>);
            let c1 = c\<lparr>oc_reply_bytes := oc_reply_bytes c + int (mem (Raw_str s))\<rparr>;
            (c2, sv2) \<leftarrow>
              (if Suc i < length (oc_reply c) then do {
                 let b = oc_reply c ! Suc i;
                 nxt \<leftarrow> h1 b;
                 case str_of (so_val nxt) of
                   None \<Rightarrow> Some (c1, sv\<lparr>os_objs := h1\<rparr>)
                 | Some t \<Rightarrow> do {
                     let h2 = h1(a \<mapsto> len\<lparr>so_val := Raw_str (s @ t)\<rparr>);
                     h3 \<leftarrow> obj_ref b (- 1) h2;
                     Some (c1\<lparr>oc_reply := take (Suc i) (oc_reply c) @ drop (Suc (Suc i)) (oc_reply c),
                              oc_reply_bytes := oc_reply_bytes c1 - int (mem (Raw_str s)) - int (mem (so_val nxt)) + int (mem (Raw_str (s @ t)))\<rparr>,
                           sv\<lparr>os_objs := h3\<rparr>)}}
               else Some (c1, sv\<lparr>os_objs := h1\<rparr>));
            asyncCloseClientOnOutputBufferLimitReached limits c2 sv2})"

section \<open>Sending\<close>

text \<open>The results of the calls of \<open>write(2)\<close>, in order; the call gets the number of bytes offered.\<close>

datatype write_result = Wrote nat | Write_again | Write_error

datatype send_status = Client_valid | Client_freed

text \<open>\<open>over\<close>: the memory is over its limit, so that the client is served beyond \<open>NET_MAX_WRITES_PER_EVENT\<close>.  The
  result has the bytes sent and the result of the last call.\<close>

partial_function (option) write_loop ::
  "(nat \<Rightarrow> nat \<Rightarrow> write_result) \<Rightarrow> (obj_val \<Rightarrow> nat) \<Rightarrow> bool \<Rightarrow> nat \<Rightarrow> bytes \<Rightarrow> write_result \<Rightarrow> oclient \<Rightarrow> oheap \<Rightarrow>
   (oclient \<times> oheap \<times> bytes \<times> write_result) option" where
  "write_loop wr mem over k sent r0 c h =
     (if \<not> clientHasPendingReplies c then Some (c, h, sent, r0)
      else if oc_bufpos c > 0 then
        (let r = wr k (oc_bufpos c - oc_sentlen c)
         in case r of
              Wrote n \<Rightarrow>
                if n = 0 then Some (c, h, sent, r)
                else if n > oc_bufpos c - oc_sentlen c then None
                else
                  (let sent' = sent @ take n (drop (oc_sentlen c) (oc_buf c));
                       c1 = (if oc_sentlen c + n = oc_bufpos c then c\<lparr>oc_bufpos := 0, oc_sentlen := 0\<rparr>
                             else c\<lparr>oc_sentlen := oc_sentlen c + n\<rparr>)
                   in if length sent' > NET_MAX_WRITES_PER_EVENT \<and> \<not> over then Some (c1, h, sent', r)
                      else write_loop wr mem over (Suc k) sent' r c1 h)
            | _ \<Rightarrow> Some (c, h, sent, r))
      else do {
        let a = hd (oc_reply c);
        ob \<leftarrow> h a;
        s \<leftarrow> str_of (so_val ob);
        if s = [] then do {
          h1 \<leftarrow> obj_ref a (- 1) h;
          write_loop wr mem over k sent r0
            (c\<lparr>oc_reply := tl (oc_reply c), oc_reply_bytes := oc_reply_bytes c - int (mem (so_val ob))\<rparr>) h1}
        else
          (let r = wr k (length s - oc_sentlen c)
           in case r of
                Wrote n \<Rightarrow>
                  if n = 0 then Some (c, h, sent, r)
                  else if n > length s - oc_sentlen c then None
                  else do {
                    let sent' = sent @ take n (drop (oc_sentlen c) s);
                    (c1, h1) \<leftarrow>
                      (if oc_sentlen c + n = length s then do {
                         h1 \<leftarrow> obj_ref a (- 1) h;
                         Some (c\<lparr>oc_reply := tl (oc_reply c), oc_sentlen := 0,
                                 oc_reply_bytes := oc_reply_bytes c - int (mem (so_val ob))\<rparr>, h1)}
                       else Some (c\<lparr>oc_sentlen := oc_sentlen c + n\<rparr>, h));
                    if length sent' > NET_MAX_WRITES_PER_EVENT \<and> \<not> over then Some (c1, h1, sent', r)
                    else write_loop wr mem over (Suc k) sent' r c1 h1}
              | _ \<Rightarrow> Some (c, h, sent, r))})"

definition writeToClient ::
  "(nat \<Rightarrow> nat \<Rightarrow> write_result) \<Rightarrow> (obj_val \<Rightarrow> nat) \<Rightarrow> bool \<Rightarrow> bool \<Rightarrow> oclient \<Rightarrow> oserver \<Rightarrow>
   (oclient \<times> oserver \<times> bytes \<times> send_status) option" where
  "writeToClient wr mem over handler_installed c sv = do {
     (c1, h1, sent, r) \<leftarrow> write_loop wr mem over 0 [] (Wrote 0) c (os_objs sv);
     let sv1 = sv\<lparr>os_objs := h1\<rparr>;
     if r = Write_error then Some (c1, sv1, sent, Client_freed)
     else if clientHasPendingReplies c1 then Some (c1, sv1, sent, Client_valid)
     else Some (c1\<lparr>oc_sentlen := 0, oc_handler := (if handler_installed then False else oc_handler c1)\<rparr>, sv1, sent,
                if CLOSE_AFTER_REPLY \<in> oc_flags c1 then Client_freed else Client_valid)}"

definition sendReplyToClient ::
  "(nat \<Rightarrow> nat \<Rightarrow> write_result) \<Rightarrow> (obj_val \<Rightarrow> nat) \<Rightarrow> bool \<Rightarrow> oclient \<Rightarrow> oserver \<Rightarrow>
   (oclient \<times> oserver \<times> bytes \<times> send_status) option" where
  "sendReplyToClient wr mem over c sv = writeToClient wr mem over True c sv"

text \<open>The iteration of \<open>handleClientsWithPendingWrites\<close> for one client of the list; \<open>ae_ok\<close>: the event loop could
  register the handler.\<close>

definition handle_pending_write ::
  "(nat \<Rightarrow> nat \<Rightarrow> write_result) \<Rightarrow> (obj_val \<Rightarrow> nat) \<Rightarrow> bool \<Rightarrow> bool \<Rightarrow> oclient \<Rightarrow> oserver \<Rightarrow>
   (oclient \<times> oserver \<times> bytes \<times> send_status) option" where
  "handle_pending_write wr mem over ae_ok c sv = do {
     let c0 = c\<lparr>oc_flags := oc_flags c - {PENDING_WRITE}\<rparr>;
     let sv0 = sv\<lparr>os_pending_write := remove1 (oc_id c) (os_pending_write sv)\<rparr>;
     (c1, sv1, sent, st) \<leftarrow> writeToClient wr mem over False c0 sv0;
     if st = Client_freed then Some (c1, sv1, sent, st)
     else if clientHasPendingReplies c1 then
       (if ae_ok then Some (c1\<lparr>oc_handler := True\<rparr>, sv1, sent, st)
        else (let (c2, sv2) = freeClientAsync c1 sv1 in Some (c2, sv2, sent, st)))
     else Some (c1, sv1, sent, st)}"

section \<open>Protocol helpers\<close>

text \<open>The shared objects, by their addresses.\<close>

record shared_objs =
  sh_crlf :: nat
  sh_czero :: nat
  sh_cone :: nat
  sh_mbulkhdr :: "nat \<Rightarrow> nat"
  sh_bulkhdr :: "nat \<Rightarrow> nat"

definition OBJ_SHARED_BULKHDR_LEN :: nat where "OBJ_SHARED_BULKHDR_LEN = 32"

type_synonym out_action = "oclient \<Rightarrow> oserver \<Rightarrow> (oclient \<times> oserver) option"

definition out_seq :: "out_action \<Rightarrow> out_action \<Rightarrow> out_action" where
  "out_seq f g = (\<lambda>c sv. do { (c1, sv1) \<leftarrow> f c sv; g c1 sv1 })"

definition addReplyErrorLength ::
  "(oheap \<Rightarrow> nat) \<Rightarrow> (obj_val \<Rightarrow> nat) \<Rightarrow> (oclient \<Rightarrow> bool) \<Rightarrow> bytes \<Rightarrow> out_action" where
  "addReplyErrorLength alloc mem limits s =
     out_seq (addReplyString alloc mem limits [45, 69, 82, 82, 32])
       (out_seq (addReplyString alloc mem limits s) (addReplyString alloc mem limits [13, 10]))"

definition addReplyStatusLength ::
  "(oheap \<Rightarrow> nat) \<Rightarrow> (obj_val \<Rightarrow> nat) \<Rightarrow> (oclient \<Rightarrow> bool) \<Rightarrow> bytes \<Rightarrow> out_action" where
  "addReplyStatusLength alloc mem limits s =
     out_seq (addReplyString alloc mem limits [43])
       (out_seq (addReplyString alloc mem limits s) (addReplyString alloc mem limits [13, 10]))"

definition addReplyLongLongWithPrefix ::
  "shared_objs \<Rightarrow> (oheap \<Rightarrow> nat) \<Rightarrow> (obj_val \<Rightarrow> nat) \<Rightarrow> (oclient \<Rightarrow> bool) \<Rightarrow> int \<Rightarrow> byte \<Rightarrow> out_action" where
  "addReplyLongLongWithPrefix sh alloc mem limits ll prefix =
     (if prefix = 42 \<and> ll < int OBJ_SHARED_BULKHDR_LEN \<and> ll \<ge> 0 then addReply alloc mem limits (sh_mbulkhdr sh (nat ll))
      else if prefix = 36 \<and> ll < int OBJ_SHARED_BULKHDR_LEN \<and> ll \<ge> 0 then addReply alloc mem limits (sh_bulkhdr sh (nat ll))
      else addReplyString alloc mem limits (prefix # ll_text ll @ [13, 10]))"

definition addReplyLongLong ::
  "shared_objs \<Rightarrow> (oheap \<Rightarrow> nat) \<Rightarrow> (obj_val \<Rightarrow> nat) \<Rightarrow> (oclient \<Rightarrow> bool) \<Rightarrow> int \<Rightarrow> out_action" where
  "addReplyLongLong sh alloc mem limits ll =
     (if ll = 0 then addReply alloc mem limits (sh_czero sh)
      else if ll = 1 then addReply alloc mem limits (sh_cone sh)
      else addReplyLongLongWithPrefix sh alloc mem limits ll 58)"

text \<open>A negative length would index the array of shared objects below its start.\<close>

definition addReplyMultiBulkLen ::
  "shared_objs \<Rightarrow> (oheap \<Rightarrow> nat) \<Rightarrow> (obj_val \<Rightarrow> nat) \<Rightarrow> (oclient \<Rightarrow> bool) \<Rightarrow> int \<Rightarrow> out_action" where
  "addReplyMultiBulkLen sh alloc mem limits len =
     (if len < 0 then (\<lambda>c sv. None)
      else if len < int OBJ_SHARED_BULKHDR_LEN then addReply alloc mem limits (sh_mbulkhdr sh (nat len))
      else addReplyLongLongWithPrefix sh alloc mem limits len 42)"

text \<open>The number of digits of an integer object, as \<open>addReplyBulkLen\<close> counts them (\<open>n = -n\<close> overflows for the
  smallest value).\<close>

fun count_digits :: "nat \<Rightarrow> nat" where
  "count_digits n = (if n div 10 = 0 then 0 else Suc (count_digits (n div 10)))"

declare count_digits.simps [simp del]

definition bulk_len :: "obj_val \<Rightarrow> nat option" where
  "bulk_len v =
     (case v of
        Int_obj n \<Rightarrow> if n = LLONG_MIN then None
                     else Some (1 + (if n < 0 then 1 else 0) + count_digits (nat \<bar>n\<bar>))
      | _ \<Rightarrow> map_option length (str_of v))"

definition addReplyBulkLen ::
  "shared_objs \<Rightarrow> (oheap \<Rightarrow> nat) \<Rightarrow> (obj_val \<Rightarrow> nat) \<Rightarrow> (oclient \<Rightarrow> bool) \<Rightarrow> nat \<Rightarrow> out_action" where
  "addReplyBulkLen sh alloc mem limits a c sv = do {
     ob \<leftarrow> os_objs sv a;
     len \<leftarrow> bulk_len (so_val ob);
     if len < OBJ_SHARED_BULKHDR_LEN then addReply alloc mem limits (sh_bulkhdr sh len) c sv
     else addReplyLongLongWithPrefix sh alloc mem limits (int len) 36 c sv}"

definition addReplyBulk ::
  "shared_objs \<Rightarrow> (oheap \<Rightarrow> nat) \<Rightarrow> (obj_val \<Rightarrow> nat) \<Rightarrow> (oclient \<Rightarrow> bool) \<Rightarrow> nat \<Rightarrow> out_action" where
  "addReplyBulk sh alloc mem limits a =
     out_seq (addReplyBulkLen sh alloc mem limits a)
       (out_seq (addReply alloc mem limits a) (addReply alloc mem limits (sh_crlf sh)))"

definition addReplyBulkCBuffer ::
  "shared_objs \<Rightarrow> (oheap \<Rightarrow> nat) \<Rightarrow> (obj_val \<Rightarrow> nat) \<Rightarrow> (oclient \<Rightarrow> bool) \<Rightarrow> bytes \<Rightarrow> out_action" where
  "addReplyBulkCBuffer sh alloc mem limits p =
     out_seq (addReplyLongLongWithPrefix sh alloc mem limits (int (length p)) 36)
       (out_seq (addReplyString alloc mem limits p) (addReply alloc mem limits (sh_crlf sh)))"

definition addReplyBulkLongLong ::
  "shared_objs \<Rightarrow> (oheap \<Rightarrow> nat) \<Rightarrow> (obj_val \<Rightarrow> nat) \<Rightarrow> (oclient \<Rightarrow> bool) \<Rightarrow> int \<Rightarrow> out_action" where
  "addReplyBulkLongLong sh alloc mem limits ll = addReplyBulkCBuffer sh alloc mem limits (ll_text ll)"

end
