(* ===== verification/OutputInv.thy ===== *)
theory OutputInv
  imports Output
begin

text \<open>
  The invariant of the output buffers of a client.  The references of every object are those from the reply
  list and \<open>ext\<close> others (the database, the shared objects, other clients); the pending bytes are the static buffer
  followed by the strings of the list, without the part that was sent; the count of the memory is exact.
\<close>

section \<open>References\<close>

definition refs_ok :: "(nat \<Rightarrow> nat) \<Rightarrow> nat list \<Rightarrow> oheap \<Rightarrow> bool" where
  "refs_ok ext R h \<longleftrightarrow> (\<forall>a. case h a of
      None \<Rightarrow> ext a = 0 \<and> a \<notin> set R
    | Some ob \<Rightarrow> so_ref ob = int (ext a + count_list R a) \<and> 0 < so_ref ob)"

abbreviation val :: "oheap \<Rightarrow> nat \<Rightarrow> obj_val" where
  "val h a \<equiv> so_val (the (h a))"

definition kept :: "nat set \<Rightarrow> oheap \<Rightarrow> oheap \<Rightarrow> bool" where
  "kept S h h' \<longleftrightarrow> (\<forall>a\<in>S. h a \<noteq> None \<longrightarrow> h' a \<noteq> None \<and> val h' a = val h a)"

lemma kept_refl [simp]: "kept S h h" by (simp add: kept_def)

lemma kept_trans: "kept S h h' \<Longrightarrow> kept S h' h'' \<Longrightarrow> kept S h h''"
  by (auto simp: kept_def)

lemma kept_subset: "kept S h h' \<Longrightarrow> T \<subseteq> S \<Longrightarrow> kept T h h'"
  by (auto simp: kept_def)

abbreviation outside :: "(nat \<Rightarrow> nat) \<Rightarrow> nat set" where
  "outside ext \<equiv> {a. 0 < ext a}"

lemma refs_in: "refs_ok ext R h \<Longrightarrow> a \<in> set R \<or> 0 < ext a \<Longrightarrow> h a \<noteq> None"
  unfolding refs_ok_def by (metis (mono_tags, lifting) not_gr_zero option.simps(4))

lemma count_list_append1: "count_list (R @ [a]) b = count_list R b + (if a = b then 1 else 0)"
  by simp

lemma push_ref:
  assumes "refs_ok ext R h" and "h a \<noteq> None"
  obtains h' where "obj_ref a 1 h = Some h'" and "refs_ok ext (R @ [a]) h'" and "dom h' = dom h" and "kept UNIV h h'"
proof -
  obtain ob where ob: "h a = Some ob" using assms(2) by blast
  have r: "so_ref ob = int (ext a + count_list R a)" "0 < so_ref ob" using assms(1) ob by (auto simp: refs_ok_def dest: spec [of _ a])
  let ?h = "h(a \<mapsto> ob\<lparr>so_ref := so_ref ob + 1\<rparr>)"
  show thesis
  proof (rule that [of ?h])
    show "obj_ref a 1 h = Some ?h" using ob r(2) by (simp add: obj_ref_def)
    show "dom ?h = dom h" using ob by auto
    show "kept UNIV h ?h" using ob by (simp add: kept_def)
    show "refs_ok ext (R @ [a]) ?h" unfolding refs_ok_def
    proof
      fix b
      show "case ?h b of None \<Rightarrow> ext b = 0 \<and> b \<notin> set (R @ [a])
        | Some ob \<Rightarrow> so_ref ob = int (ext b + count_list (R @ [a]) b) \<and> 0 < so_ref ob"
        using assms(1) r ob by (auto simp: refs_ok_def split: option.split dest: spec [of _ b])
    qed
  qed
qed

lemma push_new:
  assumes "refs_ok ext R h" and "h new = None"
  shows "refs_ok ext (R @ [new]) (h(new \<mapsto> \<lparr>so_val = v, so_ref = 1\<rparr>))" and "kept UNIV h (h(new \<mapsto> \<lparr>so_val = v, so_ref = 1\<rparr>))"
proof -
  have n: "ext new = 0" "new \<notin> set R" using assms by (auto simp: refs_ok_def dest: spec [of _ new])
  show "refs_ok ext (R @ [new]) (h(new \<mapsto> \<lparr>so_val = v, so_ref = 1\<rparr>))" unfolding refs_ok_def
  proof
    fix b
    show "case (h(new \<mapsto> \<lparr>so_val = v, so_ref = 1\<rparr>)) b of None \<Rightarrow> ext b = 0 \<and> b \<notin> set (R @ [new])
      | Some ob \<Rightarrow> so_ref ob = int (ext b + count_list (R @ [new]) b) \<and> 0 < so_ref ob"
      using assms(1) n by (auto simp: refs_ok_def split: option.split dest: spec [of _ b])
  qed
  show "kept UNIV h (h(new \<mapsto> \<lparr>so_val = v, so_ref = 1\<rparr>))" using assms(2) by (auto simp: kept_def)
qed

text \<open>Releasing a reference of the list, at any position.\<close>

lemma pop_ref:
  assumes "refs_ok ext R h" and "a \<in> set R" and "\<And>b. count_list R' b = count_list R b - (if b = a then 1 else 0)"
  obtains h' where "obj_ref a (- 1) h = Some h'" and "refs_ok ext R' h'" and "dom h' \<subseteq> dom h" and "kept (set R' \<union> outside ext) h h'"
proof -
  obtain ob where ob: "h a = Some ob" using refs_in [OF assms(1)] assms(2) by blast
  have r: "so_ref ob = int (ext a + count_list R a)" "0 < so_ref ob" using assms(1) ob by (auto simp: refs_ok_def dest: spec [of _ a])
  have c: "count_list R a \<noteq> 0" using assms(2) by (simp add: count_list_0_iff)
  have ca: "count_list R' a = count_list R a - 1" using assms(3) by simp
  let ?h = "if so_ref ob = 1 then h(a := None) else h(a \<mapsto> ob\<lparr>so_ref := so_ref ob - 1\<rparr>)"
  have one: "ext a = 0 \<and> a \<notin> set R'" if "so_ref ob = 1"
  proof -
    have "ext a + count_list R a = 1" using that r(1) by linarith
    then show ?thesis using c ca by (cases "count_list R a") (auto simp: count_list_0_iff)
  qed
  show thesis
  proof (rule that [of ?h])
    show "obj_ref a (- 1) h = Some ?h" using ob by (auto simp: obj_ref_def)
    show "dom ?h \<subseteq> dom h" using ob by auto
    show "kept (set R' \<union> outside ext) h ?h" using ob one by (auto simp: kept_def)
    show "refs_ok ext R' ?h" unfolding refs_ok_def
    proof
      fix b
      show "case ?h b of None \<Rightarrow> ext b = 0 \<and> b \<notin> set R'
        | Some ob \<Rightarrow> so_ref ob = int (ext b + count_list R' b) \<and> 0 < so_ref ob"
      proof (cases "b = a")
        case True
        have "so_ref ob - 1 = int (ext a + count_list R' a)" using r(1) c ca by simp
        then show ?thesis using True one r(2) by auto
      next
        case False
        then have "count_list R' b = count_list R b" using assms(3) by simp
        moreover have "b \<in> set R' \<longleftrightarrow> b \<in> set R" using calculation by (metis count_list_0_iff)
        moreover have "?h b = h b" using False by simp
        ultimately show ?thesis using assms(1) by (auto simp: refs_ok_def split: option.split dest: spec [of _ b])
      qed
    qed
  qed
qed

section \<open>Pending bytes\<close>

definition seg :: "oheap \<Rightarrow> nat \<Rightarrow> bytes" where
  "seg h a = (case str_of (val h a) of Some s \<Rightarrow> s | None \<Rightarrow> [])"

definition pending :: "oclient \<Rightarrow> oheap \<Rightarrow> bytes" where
  "pending c h = drop (oc_sentlen c) (take (oc_bufpos c) (oc_buf c) @ concat (map (seg h) (oc_reply c)))"

lemma segs_kept: "kept (set R) h h' \<Longrightarrow> (\<And>a. a \<in> set R \<Longrightarrow> h a \<noteq> None) \<Longrightarrow> map (seg h') R = map (seg h) R"
  by (auto simp: kept_def seg_def)

definition out_ok :: "(obj_val \<Rightarrow> nat) \<Rightarrow> (nat \<Rightarrow> nat) \<Rightarrow> oclient \<Rightarrow> oheap \<Rightarrow> bool" where
  "out_ok mem ext c h \<longleftrightarrow>
     length (oc_buf c) = PROTO_REPLY_CHUNK_BYTES \<and> oc_bufpos c \<le> PROTO_REPLY_CHUNK_BYTES
     \<and> (if oc_bufpos c > 0 then oc_sentlen c < oc_bufpos c
        else oc_sentlen c = 0 \<or> oc_reply c \<noteq> [] \<and> oc_sentlen c < length (seg h (hd (oc_reply c))))
     \<and> (\<forall>a\<in>set (oc_reply c). str_of (val h a) \<noteq> None)
     \<and> refs_ok ext (oc_reply c) h \<and> finite (dom h)
     \<and> oc_reply_bytes c = (\<Sum>a\<leftarrow>oc_reply c. int (mem (val h a)))"

lemma out_okD:
  assumes "out_ok mem ext c h"
  shows "length (oc_buf c) = PROTO_REPLY_CHUNK_BYTES" "oc_bufpos c \<le> PROTO_REPLY_CHUNK_BYTES"
    "oc_bufpos c > 0 \<Longrightarrow> oc_sentlen c < oc_bufpos c"
    "oc_bufpos c = 0 \<Longrightarrow> oc_sentlen c = 0 \<or> oc_reply c \<noteq> [] \<and> oc_sentlen c < length (seg h (hd (oc_reply c)))"
    "\<And>a. a \<in> set (oc_reply c) \<Longrightarrow> str_of (val h a) \<noteq> None"
    "refs_ok ext (oc_reply c) h" "finite (dom h)" "oc_reply_bytes c = (\<Sum>a\<leftarrow>oc_reply c. int (mem (val h a)))"
  using assms by (auto simp: out_ok_def split: if_splits)

lemma sentlen_pending:
  assumes "out_ok mem ext c h"
  shows "oc_sentlen c \<le> length (take (oc_bufpos c) (oc_buf c) @ concat (map (seg h) (oc_reply c)))"
proof (cases "oc_bufpos c > 0")
  case True
  then show ?thesis using out_okD(1,2,3) [OF assms] by simp
next
  case False
  then have "oc_sentlen c = 0 \<or> oc_reply c \<noteq> [] \<and> oc_sentlen c < length (seg h (hd (oc_reply c)))" using out_okD(4) [OF assms] by simp
  then show ?thesis by (cases "oc_reply c") auto
qed

section \<open>The relation between the states before and after a reply\<close>

definition grows :: "(nat \<Rightarrow> nat) \<Rightarrow> int \<Rightarrow> bytes \<Rightarrow> oclient \<times> oserver \<Rightarrow> oclient \<times> oserver \<Rightarrow> bool" where
  "grows ext d s = (\<lambda>(c, sv) (c', sv').
     pending c' (os_objs sv') = pending c (os_objs sv) @ s \<and> kept (outside ext) (os_objs sv) (os_objs sv')
     \<and> oc_reply_bytes c' \<le> oc_reply_bytes c + d
     \<and> oc_id c' = oc_id c \<and> oc_fd c' = oc_fd c \<and> oc_handler c' = oc_handler c \<and> oc_replstate c' = oc_replstate c
     \<and> oc_put_online_on_ack c' = oc_put_online_on_ack c
     \<and> oc_flags c' - {CLOSE_ASAP} = oc_flags c - {CLOSE_ASAP} \<and> os_pending_write sv' = os_pending_write sv)"

lemma grows_trans:
  assumes "grows ext d s x y" and "grows ext d' s' y z"
  shows "grows ext (d + d') (s @ s') x z"
proof -
  obtain c sv c' sv' c'' sv'' where [simp]: "x = (c, sv)" "y = (c', sv')" "z = (c'', sv'')" by (metis surj_pair)
  have "kept (outside ext) (os_objs sv) (os_objs sv'')" using assms kept_trans by (auto simp: grows_def)
  then show ?thesis using assms by (simp add: grows_def)
qed

end
