(* ===== verification/OutputOps.thy ===== *)
theory OutputOps
  imports OutputInv
begin

text \<open>Every reply function appends its bytes to the pending ones and keeps the invariant.\<close>

section \<open>The pieces\<close>

lemma out_ok_flags [simp]: "out_ok mem ext (c\<lparr>oc_flags := F\<rparr>) h = out_ok mem ext c h"
  by (simp add: out_ok_def)

lemma pending_flags [simp]: "pending (c\<lparr>oc_flags := F\<rparr>) h = pending c h"
  by (simp add: pending_def)

lemma async_close_ok:
  assumes "out_ok mem ext c (os_objs sv)" and "oc_reply_bytes c < 2 ^ 63"
  obtains c' sv' where "asyncCloseClientOnOutputBufferLimitReached limits c sv = Some (c', sv')"
    and "out_ok mem ext c' (os_objs sv')" and "grows ext 0 [] (c, sv) (c', sv')"
proof -
  have lt: "oc_reply_bytes c < 2 ^ 64 - 1 - 1024 * 64" using assms(2) by simp
  obtain c' sv' where f: "freeClientAsync c sv = (c', sv')" by force
  then have "out_ok mem ext c' (os_objs sv')" "grows ext 0 [] (c, sv) (c', sv')"
    using assms(1) by (auto simp: freeClientAsync_def grows_def split: if_splits)
  moreover have g: "grows ext 0 [] (c, sv) (c, sv)" by (simp add: grows_def)
  ultimately show thesis
  proof (cases "limits c \<and> oc_reply_bytes c \<noteq> 0 \<and> CLOSE_ASAP \<notin> oc_flags c")
    case True
    then show thesis using lt f \<open>out_ok mem ext c' (os_objs sv')\<close> \<open>grows ext 0 [] (c, sv) (c', sv')\<close>
      by (intro that [of c' sv']) (simp_all add: asyncCloseClientOnOutputBufferLimitReached_def)
  next
    case False
    then show thesis using lt assms(1) g by (intro that [of c sv]) (auto simp: asyncCloseClientOnOutputBufferLimitReached_def)
  qed
qed

lemma drop_prefix: "n \<le> length xs \<Longrightarrow> drop n (xs @ ys) = drop n xs @ ys"
  by simp

lemma addReplyToBuffer_ok:
  assumes ok: "out_ok mem ext c h" and "addReplyToBuffer s c = Some c'" and "CLOSE_AFTER_REPLY \<notin> oc_flags c"
  shows "out_ok mem ext c' h" and "pending c' h = pending c h @ s"
    and "oc_reply_bytes c' = oc_reply_bytes c" "oc_id c' = oc_id c" "oc_fd c' = oc_fd c" "oc_handler c' = oc_handler c"
      "oc_replstate c' = oc_replstate c" "oc_put_online_on_ack c' = oc_put_online_on_ack c" "oc_flags c' = oc_flags c"
proof -
  note d = out_okD [OF ok]
  have r: "oc_reply c = []" "length s \<le> PROTO_REPLY_CHUNK_BYTES - oc_bufpos c"
    and c': "c' = c\<lparr>oc_buf := take (oc_bufpos c) (oc_buf c) @ s @ drop (oc_bufpos c + length s) (oc_buf c),
                   oc_bufpos := oc_bufpos c + length s\<rparr>"
    using assms(2,3) by (auto simp: addReplyToBuffer_def split: if_splits)
  have s: "oc_sentlen c \<le> oc_bufpos c" using d(3,4) r(1) by (cases "oc_bufpos c > 0") auto
  have "oc_bufpos c + length s > 0 \<Longrightarrow> oc_sentlen c < oc_bufpos c + length s"
    using d(3,4) r(1) by (cases "oc_bufpos c > 0") auto
  then show "out_ok mem ext c' h" using d r s by (auto simp: out_ok_def c')
  show "pending c' h = pending c h @ s" using d(1,2) r s by (simp add: pending_def c')
  show "oc_reply_bytes c' = oc_reply_bytes c" "oc_id c' = oc_id c" "oc_fd c' = oc_fd c" "oc_handler c' = oc_handler c"
      "oc_replstate c' = oc_replstate c" "oc_put_online_on_ack c' = oc_put_online_on_ack c" "oc_flags c' = oc_flags c"
    by (simp_all add: c')
qed

lemma sum_kept:
  assumes "kept (set R) h h'" and "\<And>a. a \<in> set R \<Longrightarrow> h a \<noteq> None"
  shows "(\<Sum>a\<leftarrow>R. int (mem (val h' a))) = (\<Sum>a\<leftarrow>R. int (mem (val h a)))"
  using assms by (intro arg_cong [of _ _ sum_list] map_cong) (auto simp: kept_def)

lemma push_ok:
  assumes ok: "out_ok mem ext c h" and refs: "refs_ok ext (oc_reply c @ [a]) h'" and k: "kept (set (oc_reply c)) h h'"
    and fin: "finite (dom h')" and s: "str_of (val h' a) = Some s"
    and c': "c' = c\<lparr>oc_reply := oc_reply c @ [a], oc_reply_bytes := oc_reply_bytes c + int (mem (val h' a))\<rparr>"
  shows "out_ok mem ext c' h'" and "pending c' h' = pending c h @ s"
proof -
  note d = out_okD [OF ok]
  have def: "h b \<noteq> None" if "b \<in> set (oc_reply c)" for b using refs_in [OF d(6)] that by blast
  have segs: "map (seg h') (oc_reply c) = map (seg h) (oc_reply c)" by (rule segs_kept [OF k def])
  have v: "val h' b = val h b" if "b \<in> set (oc_reply c)" for b using k def [OF that] that by (auto simp: kept_def)
  have sum: "(\<Sum>a\<leftarrow>oc_reply c. int (mem (val h' a))) = (\<Sum>a\<leftarrow>oc_reply c. int (mem (val h a)))" by (rule sum_kept [OF k def])
  have sa: "seg h' a = s" using s by (simp add: seg_def)
  have "oc_bufpos c = 0 \<Longrightarrow> oc_sentlen c = 0 \<or> oc_sentlen c < length (seg h' (hd (oc_reply c @ [a])))"
    using d(4) segs by (cases "oc_reply c") auto
  then show "out_ok mem ext c' h'" using d refs fin s v sum by (auto simp: out_ok_def c')
  show "pending c' h' = pending c h @ s"
    using drop_prefix [OF sentlen_pending [OF ok]] by (simp add: pending_def c' segs sa del: drop_append)
qed

lemma refs_val:
  assumes "refs_ok ext R h" and "h t = Some ob"
  shows "refs_ok ext R (h(t \<mapsto> ob\<lparr>so_val := v\<rparr>))"
  unfolding refs_ok_def
proof
  fix b
  have "case h b of None \<Rightarrow> ext b = 0 \<and> b \<notin> set R | Some ob \<Rightarrow> so_ref ob = int (ext b + count_list R b) \<and> 0 < so_ref ob"
    using assms(1) by (simp add: refs_ok_def)
  then show "case (h(t \<mapsto> ob\<lparr>so_val := v\<rparr>)) b of None \<Rightarrow> ext b = 0 \<and> b \<notin> set R
    | Some ob \<Rightarrow> so_ref ob = int (ext b + count_list R b) \<and> 0 < so_ref ob" using assms(2) by (cases "b = t") auto
qed

text \<open>Appending to the last object: a copy of it when it has other references.\<close>

lemma dup_last_ok:
  assumes refs: "refs_ok ext (P @ [t]) h" and fin: "finite (dom h)" and al: "alloc h \<notin> dom h" and r: "str_of (val h t) = Some r"
  obtains t' h1 ob where "dupLastObjectIfNeeded alloc (P @ [t]) h = Some (P @ [t'], h1)" and "h1 t' = Some ob"
    and "so_val ob = val h t" and "kept (set P \<union> outside ext) h (h1(t' \<mapsto> ob\<lparr>so_val := v\<rparr>))"
    and "refs_ok ext (P @ [t']) (h1(t' \<mapsto> ob\<lparr>so_val := v\<rparr>))" and "finite (dom h1)"
proof -
  have ht: "h t \<noteq> None" using refs_in [OF refs] by simp
  then obtain ob where ob: "h t = Some ob" by blast
  have rf: "so_ref ob = int (ext t + count_list (P @ [t]) t)" using refs ob by (auto simp: refs_ok_def dest: spec [of _ t])
  show thesis
  proof (cases "so_ref ob > 1")
    case True
    let ?n = "alloc h"
    let ?nb = "\<lparr>so_val = so_val ob, so_ref = 1\<rparr>"
    have nh: "h ?n = None" using al by blast
    have nt: "?n \<noteq> t" using ht nh by metis
    have r1: "refs_ok ext ((P @ [t]) @ [?n]) (h(?n \<mapsto> ?nb))" by (rule push_new(1) [OF refs nh])
    have cnt: "count_list (P @ [?n]) b = count_list ((P @ [t]) @ [?n]) b - (if b = t then 1 else 0)" for b using nt by simp
    obtain h1 where h1: "obj_ref t (- 1) (h(?n \<mapsto> ?nb)) = Some h1" "refs_ok ext (P @ [?n]) h1" "dom h1 \<subseteq> dom (h(?n \<mapsto> ?nb))"
      "kept (set (P @ [?n]) \<union> outside ext) (h(?n \<mapsto> ?nb)) h1" by (rule pop_ref [OF r1 _ cnt]) simp_all
    have n1: "h1 ?n = Some ?nb" using h1(1) ob nt by (auto simp: obj_ref_def split: if_splits)
    show thesis
    proof (rule that [of ?n h1 ?nb])
      show "dupLastObjectIfNeeded alloc (P @ [t]) h = Some (P @ [?n], h1)"
        using True ob h1(1) by (simp add: dupLastObjectIfNeeded_def Let_def)
      show "h1 ?n = Some ?nb" by (rule n1)
      show "so_val ?nb = val h t" using ob by simp
      have "?n \<notin> set P \<union> outside ext"
        using refs_in [OF refs, of ?n] nh by auto
      moreover have "kept (set P \<union> outside ext) (h(?n \<mapsto> ?nb)) h1" by (rule kept_subset [OF h1(4)]) auto
      then have "kept (set P \<union> outside ext) h h1" using kept_subset [OF push_new(2) [OF refs nh]] kept_trans by blast
      ultimately show "kept (set P \<union> outside ext) h (h1(?n \<mapsto> ?nb\<lparr>so_val := v\<rparr>))" by (auto simp: kept_def)
      show "refs_ok ext (P @ [?n]) (h1(?n \<mapsto> ?nb\<lparr>so_val := v\<rparr>))" by (rule refs_val [OF h1(2) n1])
      show "finite (dom h1)" using finite_subset [OF h1(3)] fin by simp
    qed
  next
    case False
    have "so_ref ob > 0" using refs ob by (auto simp: refs_ok_def dest: spec [of _ t])
    then have "ext t + count_list P t = 0" using rf False by simp
    then have z: "ext t = 0" "t \<notin> set P" using count_list_0_iff [of P t] by auto
    show thesis
    proof (rule that [of t h ob])
      show "dupLastObjectIfNeeded alloc (P @ [t]) h = Some (P @ [t], h)" using False ob by (simp add: dupLastObjectIfNeeded_def)
      show "h t = Some ob" "so_val ob = val h t" "finite (dom h)" using ob fin by simp_all
      show "kept (set P \<union> outside ext) h (h(t \<mapsto> ob\<lparr>so_val := v\<rparr>))" using z by (auto simp: kept_def)
      show "refs_ok ext (P @ [t]) (h(t \<mapsto> ob\<lparr>so_val := v\<rparr>))" by (rule refs_val [OF refs ob])
    qed
  qed
qed

lemma append_to_last_ok:
  assumes ok: "out_ok mem ext c (os_objs sv)" and ne: "oc_reply c \<noteq> []" and al: "alloc (os_objs sv) \<notin> dom (os_objs sv)"
    and t: "val (os_objs sv) (last (oc_reply c)) = Raw_str t"
  obtains c' sv' where "append_to_last alloc mem s c sv = Some (c', sv')" and "out_ok mem ext c' (os_objs sv')"
    and "grows ext (int (mem (Raw_str (t @ s)))) s (c, sv) (c', sv')"
proof -
  let ?h = "os_objs sv"
  note d = out_okD [OF ok]
  obtain P l where P: "oc_reply c = P @ [l]" using ne by (metis append_butlast_last_id)
  have vl: "val ?h l = Raw_str t" using t P by simp
  have ll: "?h l \<noteq> None" using refs_in [OF d(6)] P by simp
  then obtain lo where lo: "?h l = Some lo" by blast
  have refs: "refs_ok ext (P @ [l]) ?h" and sl: "str_of (val ?h l) = Some t" using d(6) P vl by simp_all
  obtain t' h1 ob where u: "dupLastObjectIfNeeded alloc (P @ [l]) ?h = Some (P @ [t'], h1)" "h1 t' = Some ob" "so_val ob = val ?h l"
    "kept (set P \<union> outside ext) ?h (h1(t' \<mapsto> ob\<lparr>so_val := Raw_str (t @ s)\<rparr>))"
    "refs_ok ext (P @ [t']) (h1(t' \<mapsto> ob\<lparr>so_val := Raw_str (t @ s)\<rparr>))" "finite (dom h1)"
    by (rule dup_last_ok [where alloc = alloc and v = "Raw_str (t @ s)", OF refs d(7) al sl])
  let ?h2 = "h1(t' \<mapsto> ob\<lparr>so_val := Raw_str (t @ s)\<rparr>)"
  let ?c = "c\<lparr>oc_reply := P @ [t'], oc_reply_bytes := oc_reply_bytes c - int (mem (so_val lo)) + int (mem (Raw_str (t @ s)))\<rparr>"
  have a: "append_to_last alloc mem s c sv = Some (?c, sv\<lparr>os_objs := ?h2\<rparr>)"
    using u(1-3) vl lo by (simp add: append_to_last_def P)
  have def: "?h b \<noteq> None" if "b \<in> set P" for b using refs_in [OF d(6)] P that by simp
  have kP: "kept (set P) ?h ?h2" using kept_subset [OF u(4)] by blast
  have segs: "map (seg ?h2) P = map (seg ?h) P" by (rule segs_kept [OF kP def])
  have v: "val ?h2 b = val ?h b" if "b \<in> set P" for b using kP def [OF that] that by (auto simp: kept_def)
  have sum: "(\<Sum>a\<leftarrow>P. int (mem (val ?h2 a))) = (\<Sum>a\<leftarrow>P. int (mem (val ?h a)))" by (rule sum_kept [OF kP def])
  have st: "seg ?h2 t' = t @ s" "seg ?h l = t" using vl by (simp_all add: seg_def)
  have vlo: "so_val lo = Raw_str t" using vl lo by simp
  have rb: "oc_reply_bytes c = (\<Sum>a\<leftarrow>P. int (mem (val ?h a))) + int (mem (Raw_str t))" using d(8) P vl by simp
  have sent: "oc_bufpos c = 0 \<Longrightarrow> oc_sentlen c = 0 \<or> oc_sentlen c < length (seg ?h2 (hd (P @ [t'])))"
  proof -
    assume "oc_bufpos c = 0"
    then have "oc_sentlen c = 0 \<or> oc_sentlen c < length (seg ?h (hd (P @ [l])))" using d(4) P by simp
    then show ?thesis using st segs by (cases P) auto
  qed
  have ok': "out_ok mem ext ?c ?h2"
    unfolding out_ok_def using d(1-3,5) u(5,6) sent v sum rb vlo P by (auto simp: fun_upd_def [symmetric])
  have pend: "pending ?c ?h2 = pending c ?h @ s"
    using drop_prefix [OF sentlen_pending [OF ok], of s] unfolding pending_def by (simp add: P segs st del: drop_append fun_upd_apply)
  have "grows ext (int (mem (Raw_str (t @ s)))) s (c, sv) (?c, sv\<lparr>os_objs := ?h2\<rparr>)"
    using pend kept_subset [OF u(4), of "outside ext"] by (simp add: grows_def del: fun_upd_apply)
  then show thesis using that [OF a] ok' by simp
qed

section \<open>Adding to the list\<close>

text \<open>\<open>mem_ok\<close>: what the allocator reports for a string is at most twice its length and a header; \<open>room\<close>: the bound on
  what one call adds to the count.\<close>

definition mem_ok :: "(obj_val \<Rightarrow> nat) \<Rightarrow> bool" where
  "mem_ok mem \<longleftrightarrow> (\<forall>v s. str_of v = Some s \<longrightarrow> mem v \<le> 2 * length s + 64)"

definition room :: "bytes \<Rightarrow> int" where
  "room s = int (2 * (PROTO_REPLY_CHUNK_BYTES + length s) + 64)"

definition fresh_obj :: "(oheap \<Rightarrow> nat) \<Rightarrow> bool" where
  "fresh_obj alloc \<longleftrightarrow> (\<forall>h. finite (dom h) \<longrightarrow> alloc h \<notin> dom h)"

lemma mem_room: "mem_ok mem \<Longrightarrow> str_of v = Some s \<Longrightarrow> int (mem v) \<le> room s"
  by (force simp: mem_ok_def room_def)

lemma grows_step0: "grows ext d s x y \<Longrightarrow> grows ext 0 [] y z \<Longrightarrow> grows ext d s x z"
  using grows_trans [of ext d s x y 0 "[]" z] by simp

lemma push_grows:
  assumes ok: "out_ok mem ext c (os_objs sv)" and refs: "refs_ok ext (oc_reply c @ [a]) h'"
    and k: "kept (set (oc_reply c) \<union> outside ext) (os_objs sv) h'" and fin: "finite (dom h')" and s: "str_of (val h' a) = Some s"
    and mem: "mem_ok mem"
  obtains c' where "push_reply mem a c (sv\<lparr>os_objs := h'\<rparr>) = Some (c', sv\<lparr>os_objs := h'\<rparr>)" and "out_ok mem ext c' h'"
    and "grows ext (room s) s (c, sv) (c', sv\<lparr>os_objs := h'\<rparr>)"
proof -
  let ?c = "c\<lparr>oc_reply := oc_reply c @ [a], oc_reply_bytes := oc_reply_bytes c + int (mem (val h' a))\<rparr>"
  have kr: "kept (set (oc_reply c)) (os_objs sv) h'" using kept_subset [OF k] by blast
  note p = push_ok [OF ok refs kr fin s, of ?c, OF refl]
  obtain ob where "h' a = Some ob" using refs_in [OF refs, of a] by auto
  then have "push_reply mem a c (sv\<lparr>os_objs := h'\<rparr>) = Some (?c, sv\<lparr>os_objs := h'\<rparr>)" by (simp add: push_reply_def)
  moreover have "grows ext (room s) s (c, sv) (?c, sv\<lparr>os_objs := h'\<rparr>)"
    using p(2) kept_subset [OF k, of "outside ext"] mem_room [OF mem s] by (simp add: grows_def)
  ultimately show thesis using that p(1) by blast
qed

lemma glue_grows:
  assumes ok: "out_ok mem ext c (os_objs sv)" and ne: "oc_reply c \<noteq> []" and al: "fresh_obj alloc" and mem: "mem_ok mem"
    and g: "os_objs sv (last (oc_reply c)) = Some tail" "glue_possible (length s) tail"
  obtains c' sv' where "append_to_last alloc mem s c sv = Some (c', sv')" and "out_ok mem ext c' (os_objs sv')"
    and "grows ext (room s) s (c, sv) (c', sv')"
proof -
  obtain t where t: "val (os_objs sv) (last (oc_reply c)) = Raw_str t" "length t + length s \<le> PROTO_REPLY_CHUNK_BYTES"
    using g by (auto simp: glue_possible_def split: obj_val.splits)
  have a: "alloc (os_objs sv) \<notin> dom (os_objs sv)" using al out_okD(7) [OF ok] by (simp add: fresh_obj_def)
  obtain c' sv' where r: "append_to_last alloc mem s c sv = Some (c', sv')" "out_ok mem ext c' (os_objs sv')"
    "grows ext (int (mem (Raw_str (t @ s)))) s (c, sv) (c', sv')"
    by (rule append_to_last_ok [where alloc = alloc, OF ok ne a t(1)])
  have "mem (Raw_str (t @ s)) \<le> 2 * length (t @ s) + 64" using mem [unfolded mem_ok_def, rule_format, of "Raw_str (t @ s)" "t @ s"] by simp
  then have "int (mem (Raw_str (t @ s))) \<le> room s" using t(2) by (simp add: room_def)
  then have "grows ext (room s) s (c, sv) (c', sv')" using r(3) by (auto simp: grows_def)
  then show thesis using that r(1,2) by blast
qed

lemma add_to_list_ok:
  assumes ok: "out_ok mem ext c (os_objs sv)" and al: "fresh_obj alloc" and mem: "mem_ok mem" and mk: "str_of (mk s) = Some s"
    and fl: "CLOSE_AFTER_REPLY \<notin> oc_flags c" and rm: "oc_reply_bytes c + room s < 2 ^ 63"
  obtains c' sv' where "add_to_list mk alloc mem limits s c sv = Some (c', sv')" and "out_ok mem ext c' (os_objs sv')"
    and "grows ext (room s) s (c, sv) (c', sv')"
proof -
  let ?h = "os_objs sv" and ?n = "alloc (os_objs sv)"
  let ?h' = "?h(?n \<mapsto> \<lparr>so_val = mk s, so_ref = 1\<rparr>)"
  note d = out_okD [OF ok]
  have nh: "?h ?n = None" using al d(7) by (auto simp: fresh_obj_def)
  have pn: "refs_ok ext (oc_reply c @ [?n]) ?h'" "kept UNIV ?h ?h'" using push_new [OF d(6) nh] by blast+
  have "finite (dom ?h')" "str_of (val ?h' ?n) = Some s" using d(7) mk by simp_all
  then obtain c1 where push: "push_reply mem ?n c (sv\<lparr>os_objs := ?h'\<rparr>) = Some (c1, sv\<lparr>os_objs := ?h'\<rparr>)" "out_ok mem ext c1 ?h'"
    "grows ext (room s) s (c, sv) (c1, sv\<lparr>os_objs := ?h'\<rparr>)"
    using push_grows [OF ok pn(1) kept_subset [OF pn(2)] _ _ mem] by blast
  obtain c2 sv2 where step: "(if oc_reply c = [] then push_reply mem ?n c (sv\<lparr>os_objs := ?h'\<rparr>)
       else do {
         tail \<leftarrow> ?h (last (oc_reply c));
         if glue_possible (length s) tail then append_to_last alloc mem s c sv
         else push_reply mem ?n c (sv\<lparr>os_objs := ?h'\<rparr>)}) = Some (c2, sv2)" "out_ok mem ext c2 (os_objs sv2)"
    "grows ext (room s) s (c, sv) (c2, sv2)"
  proof (cases "oc_reply c = []")
    case True
    then show thesis using that push by simp
  next
    case False
    then obtain tail where tl: "?h (last (oc_reply c)) = Some tail" using refs_in [OF d(6), of "last (oc_reply c)"] by auto
    show thesis
    proof (cases "glue_possible (length s) tail")
      case True
      obtain c' sv' where "append_to_last alloc mem s c sv = Some (c', sv')" "out_ok mem ext c' (os_objs sv')"
        "grows ext (room s) s (c, sv) (c', sv')" by (rule glue_grows [OF ok False al mem tl True])
      then show thesis using that False tl True by simp
    qed (use that push False tl in simp)
  qed
  have "oc_reply_bytes c2 < 2 ^ 63" using step(3) rm by (simp add: grows_def)
  then obtain c3 sv3 where "asyncCloseClientOnOutputBufferLimitReached limits c2 sv2 = Some (c3, sv3)"
    "out_ok mem ext c3 (os_objs sv3)" "grows ext 0 [] (c2, sv2) (c3, sv3)" by (rule async_close_ok [OF step(2)])
  then show thesis using that [of c3 sv3] grows_step0 [OF step(3)] fl step(1) unfolding add_to_list_def by (simp add: Let_def)
qed

lemma addReplyObjectToList_ok:
  assumes ok: "out_ok mem ext c (os_objs sv)" and al: "fresh_obj alloc" and mem: "mem_ok mem"
    and a: "os_objs sv a = Some ob" "str_of (so_val ob) = Some s"
    and fl: "CLOSE_AFTER_REPLY \<notin> oc_flags c" and rm: "oc_reply_bytes c + room s < 2 ^ 63"
  obtains c' sv' where "addReplyObjectToList alloc mem limits a c sv = Some (c', sv')" and "out_ok mem ext c' (os_objs sv')"
    and "grows ext (room s) s (c, sv) (c', sv')"
proof -
  let ?h = "os_objs sv"
  note d = out_okD [OF ok]
  have an: "?h a \<noteq> None" using a by simp
  obtain h' where h': "obj_ref a 1 ?h = Some h'" "refs_ok ext (oc_reply c @ [a]) h'" "dom h' = dom ?h" "kept UNIV ?h h'"
    by (rule push_ref [OF d(6) an])
  have "finite (dom h')" "str_of (val h' a) = Some s" using d(7) h'(3,4) a by (auto simp: kept_def)
  then obtain c1 where push: "push_reply mem a c (sv\<lparr>os_objs := h'\<rparr>) = Some (c1, sv\<lparr>os_objs := h'\<rparr>)" "out_ok mem ext c1 h'"
    "grows ext (room s) s (c, sv) (c1, sv\<lparr>os_objs := h'\<rparr>)"
    using push_grows [OF ok h'(2) kept_subset [OF h'(4)] _ _ mem] by blast
  obtain c2 sv2 where step: "(if oc_reply c = [] then do {
         h1 \<leftarrow> obj_ref a 1 ?h;
         push_reply mem a c (sv\<lparr>os_objs := h1\<rparr>)}
       else do {
         tail \<leftarrow> ?h (last (oc_reply c));
         ob \<leftarrow> ?h a;
         s \<leftarrow> str_of (so_val ob);
         if glue_possible (length s) tail then append_to_last alloc mem s c sv
         else do {
           h1 \<leftarrow> obj_ref a 1 ?h;
           push_reply mem a c (sv\<lparr>os_objs := h1\<rparr>)}}) = Some (c2, sv2)" "out_ok mem ext c2 (os_objs sv2)"
    "grows ext (room s) s (c, sv) (c2, sv2)"
  proof (cases "oc_reply c = []")
    case True
    then show thesis using that push h'(1) by simp
  next
    case False
    then obtain tail where tl: "?h (last (oc_reply c)) = Some tail" using refs_in [OF d(6), of "last (oc_reply c)"] by auto
    show thesis
    proof (cases "glue_possible (length s) tail")
      case True
      obtain c' sv' where "append_to_last alloc mem s c sv = Some (c', sv')" "out_ok mem ext c' (os_objs sv')"
        "grows ext (room s) s (c, sv) (c', sv')" by (rule glue_grows [OF ok False al mem tl True])
      then show thesis using that False tl True a by simp
    qed (use that push False tl a h'(1) in simp)
  qed
  have "oc_reply_bytes c2 < 2 ^ 63" using step(3) rm by (simp add: grows_def)
  then obtain c3 sv3 where "asyncCloseClientOnOutputBufferLimitReached limits c2 sv2 = Some (c3, sv3)"
    "out_ok mem ext c3 (os_objs sv3)" "grows ext 0 [] (c2, sv2) (c3, sv3)" by (rule async_close_ok [OF step(2)])
  then show thesis using that [of c3 sv3] grows_step0 [OF step(3)] fl step(1) unfolding addReplyObjectToList_def by (simp add: Let_def)
qed

end
