(* ===== verification/OutputReply.thy ===== *)
theory OutputReply
  imports OutputOps
begin

text \<open>
  The reply functions as actions that append bytes.  \<open>v0\<close> has the values of the objects that are referenced from
  outside the reply list: no reply changes them.
\<close>

section \<open>The state of a client that receives replies\<close>

definition accepting :: "oclient \<Rightarrow> bool" where
  "accepting c \<longleftrightarrow> oc_flags c \<subseteq> {PENDING_WRITE, CLOSE_ASAP} \<and> 0 < oc_fd c
     \<and> (oc_replstate c = REPL_STATE_NONE \<or> oc_replstate c = SLAVE_STATE_ONLINE \<and> \<not> oc_put_online_on_ack c)"

text \<open>Pending replies are never forgotten: the client waits for the next turn of the event loop, or its socket is
  watched.\<close>

definition scheduled :: "oclient \<Rightarrow> oserver \<Rightarrow> bool" where
  "scheduled c sv \<longleftrightarrow> (clientHasPendingReplies c \<longrightarrow> PENDING_WRITE \<in> oc_flags c \<or> oc_handler c)
     \<and> count_list (os_pending_write sv) (oc_id c) = (if PENDING_WRITE \<in> oc_flags c then 1 else 0)"

definition out_state :: "(obj_val \<Rightarrow> nat) \<Rightarrow> (nat \<Rightarrow> nat) \<Rightarrow> (nat \<Rightarrow> obj_val) \<Rightarrow> oclient \<Rightarrow> oserver \<Rightarrow> bool" where
  "out_state mem ext v0 c sv \<longleftrightarrow> out_ok mem ext c (os_objs sv) \<and> (\<forall>a. 0 < ext a \<longrightarrow> val (os_objs sv) a = v0 a)
     \<and> accepting c \<and> scheduled c sv"

definition appends :: "(obj_val \<Rightarrow> nat) \<Rightarrow> (nat \<Rightarrow> nat) \<Rightarrow> (nat \<Rightarrow> obj_val) \<Rightarrow> out_action \<Rightarrow> bytes \<Rightarrow> int \<Rightarrow> bool" where
  "appends mem ext v0 f s d \<longleftrightarrow> 0 \<le> d \<and> (\<forall>c sv. out_state mem ext v0 c sv \<and> oc_reply_bytes c + d < 2 ^ 63 \<longrightarrow>
     (\<exists>c' sv'. f c sv = Some (c', sv') \<and> out_state mem ext v0 c' sv'
        \<and> pending c' (os_objs sv') = pending c (os_objs sv) @ s \<and> oc_reply_bytes c' \<le> oc_reply_bytes c + d \<and> oc_id c' = oc_id c))"

lemma appendsE:
  assumes "appends mem ext v0 f s d" and "out_state mem ext v0 c sv" and "oc_reply_bytes c + d < 2 ^ 63"
  obtains c' sv' where "f c sv = Some (c', sv')" and "out_state mem ext v0 c' sv'"
    and "pending c' (os_objs sv') = pending c (os_objs sv) @ s" and "oc_reply_bytes c' \<le> oc_reply_bytes c + d" and "oc_id c' = oc_id c"
  using assms unfolding appends_def by blast

lemma appends_seq:
  assumes f: "appends mem ext v0 f s d" and g: "appends mem ext v0 g t e"
  shows "appends mem ext v0 (out_seq f g) (s @ t) (d + e)"
  unfolding appends_def
proof (intro conjI allI impI)
  show "0 \<le> d + e" using f g by (simp add: appends_def)
  fix c sv assume a: "out_state mem ext v0 c sv \<and> oc_reply_bytes c + (d + e) < 2 ^ 63"
  have st: "out_state mem ext v0 c sv" and b: "oc_reply_bytes c + d < 2 ^ 63" using a g by (auto simp: appends_def)
  obtain c1 sv1 where r1: "f c sv = Some (c1, sv1)" "out_state mem ext v0 c1 sv1" "pending c1 (os_objs sv1) = pending c (os_objs sv) @ s"
    "oc_reply_bytes c1 \<le> oc_reply_bytes c + d" "oc_id c1 = oc_id c" by (rule appendsE [OF f st b])
  have b1: "oc_reply_bytes c1 + e < 2 ^ 63" using a r1(4) by simp
  obtain c2 sv2 where "g c1 sv1 = Some (c2, sv2)" "out_state mem ext v0 c2 sv2" "pending c2 (os_objs sv2) = pending c1 (os_objs sv1) @ t"
    "oc_reply_bytes c2 \<le> oc_reply_bytes c1 + e" "oc_id c2 = oc_id c1" by (rule appendsE [OF g r1(2) b1])
  then show "\<exists>c' sv'. out_seq f g c sv = Some (c', sv') \<and> out_state mem ext v0 c' sv' \<and> pending c' (os_objs sv') = pending c (os_objs sv) @ s @ t
    \<and> oc_reply_bytes c' \<le> oc_reply_bytes c + (d + e) \<and> oc_id c' = oc_id c" using r1 by (simp add: out_seq_def)
qed

section \<open>Preparation\<close>

lemma prepare_ok:
  assumes "out_state mem ext v0 c sv"
  obtains c1 sv1 where "prepareClientToWrite c sv = Some (c1, sv1)" and "out_state mem ext v0 c1 sv1" and "os_objs sv1 = os_objs sv"
    and "pending c1 (os_objs sv1) = pending c (os_objs sv)" and "oc_reply_bytes c1 = oc_reply_bytes c" and "oc_id c1 = oc_id c"
    and "PENDING_WRITE \<in> oc_flags c1 \<or> oc_handler c1"
proof (cases "\<not> clientHasPendingReplies c \<and> PENDING_WRITE \<notin> oc_flags c")
  case True
  let ?c = "c\<lparr>oc_flags := insert PENDING_WRITE (oc_flags c)\<rparr>" and ?s = "sv\<lparr>os_pending_write := oc_id c # os_pending_write sv\<rparr>"
  have "prepareClientToWrite c sv = Some (?c, ?s)" using True assms by (auto simp: prepareClientToWrite_def out_state_def accepting_def)
  moreover have "out_state mem ext v0 ?c ?s" using True assms by (auto simp: out_state_def accepting_def scheduled_def)
  ultimately show thesis by (intro that [of ?c ?s]) simp_all
next
  case False
  have "prepareClientToWrite c sv = Some (c, sv)" using False assms by (auto simp: prepareClientToWrite_def out_state_def accepting_def)
  moreover have "PENDING_WRITE \<in> oc_flags c \<or> oc_handler c" using False assms by (auto simp: out_state_def scheduled_def)
  ultimately show thesis using that assms by blast
qed

text \<open>A prepared client stays one through the two ways to store bytes.\<close>

lemma out_state_buffer:
  assumes st: "out_state mem ext v0 c sv" "PENDING_WRITE \<in> oc_flags c \<or> oc_handler c" and b: "addReplyToBuffer s c = Some c'"
  shows "out_state mem ext v0 c' sv" and "pending c' (os_objs sv) = pending c (os_objs sv) @ s"
    and "oc_reply_bytes c' = oc_reply_bytes c" and "oc_id c' = oc_id c"
proof -
  have ok: "out_ok mem ext c (os_objs sv)" "CLOSE_AFTER_REPLY \<notin> oc_flags c" using st(1) by (auto simp: out_state_def accepting_def)
  note r = addReplyToBuffer_ok [OF ok(1) b ok(2)]
  show "out_state mem ext v0 c' sv" using st r by (simp add: out_state_def accepting_def scheduled_def)
  show "pending c' (os_objs sv) = pending c (os_objs sv) @ s" "oc_reply_bytes c' = oc_reply_bytes c" "oc_id c' = oc_id c" using r by simp_all
qed

lemma out_state_grows:
  assumes st: "out_state mem ext v0 c sv" "PENDING_WRITE \<in> oc_flags c \<or> oc_handler c" and ok: "out_ok mem ext c' (os_objs sv')"
    and g: "grows ext d s (c, sv) (c', sv')"
  shows "out_state mem ext v0 c' sv'"
proof -
  have fl: "oc_flags c' - {CLOSE_ASAP} = oc_flags c - {CLOSE_ASAP}" using g by (simp add: grows_def)
  then have p: "PENDING_WRITE \<in> oc_flags c' \<longleftrightarrow> PENDING_WRITE \<in> oc_flags c" by auto
  have sub: "oc_flags c' \<subseteq> {PENDING_WRITE, CLOSE_ASAP}" using fl st(1) by (auto simp: out_state_def accepting_def)
  have v: "val (os_objs sv') a = v0 a" if "0 < ext a" for a
  proof -
    have "os_objs sv a \<noteq> None" using st(1) that refs_in out_okD(6) by (metis out_state_def)
    then show ?thesis using g st(1) that by (auto simp: grows_def kept_def out_state_def)
  qed
  have "accepting c'" using sub st(1) g by (simp add: out_state_def accepting_def grows_def)
  moreover have "scheduled c' sv'" using st p g by (simp add: out_state_def scheduled_def grows_def)
  ultimately show ?thesis using ok v by (simp add: out_state_def)
qed

section \<open>The three basic replies\<close>

lemma room_nonneg [simp]: "0 \<le> room s"
  by (simp add: room_def)

lemma add_or_list:
  assumes al: "fresh_obj alloc" and mem: "mem_ok mem" and mk: "str_of (mk s) = Some s"
  shows "appends mem ext v0 (\<lambda>c0 sv0. case prepareClientToWrite c0 sv0 of
        None \<Rightarrow> Some (c0, sv0)
      | Some (c, sv) \<Rightarrow>
          (case addReplyToBuffer s c of
             Some c' \<Rightarrow> Some (c', sv)
           | None \<Rightarrow> add_to_list mk alloc mem limits s c sv)) s (room s)"
  unfolding appends_def
proof (intro conjI allI impI)
  show "0 \<le> room s" by simp
  fix c sv assume a: "out_state mem ext v0 c sv \<and> oc_reply_bytes c + room s < 2 ^ 63"
  then obtain c1 sv1 where p: "prepareClientToWrite c sv = Some (c1, sv1)" "out_state mem ext v0 c1 sv1" "os_objs sv1 = os_objs sv"
    "pending c1 (os_objs sv1) = pending c (os_objs sv)" "oc_reply_bytes c1 = oc_reply_bytes c" "oc_id c1 = oc_id c"
    "PENDING_WRITE \<in> oc_flags c1 \<or> oc_handler c1" using prepare_ok by metis
  show "\<exists>c' sv'. (case prepareClientToWrite c sv of
        None \<Rightarrow> Some (c, sv)
      | Some (c, sv) \<Rightarrow>
          (case addReplyToBuffer s c of
             Some c' \<Rightarrow> Some (c', sv)
           | None \<Rightarrow> add_to_list mk alloc mem limits s c sv)) = Some (c', sv')
     \<and> out_state mem ext v0 c' sv' \<and> pending c' (os_objs sv') = pending c (os_objs sv) @ s
     \<and> oc_reply_bytes c' \<le> oc_reply_bytes c + room s \<and> oc_id c' = oc_id c"
  proof (cases "addReplyToBuffer s c1")
    case (Some c')
    then show ?thesis using out_state_buffer [OF p(2,7) Some] p by (simp add: room_def)
  next
    case None
    have ok: "out_ok mem ext c1 (os_objs sv1)" "CLOSE_AFTER_REPLY \<notin> oc_flags c1" "oc_reply_bytes c1 + room s < 2 ^ 63"
      using p(2,5) a by (auto simp: out_state_def accepting_def)
    obtain c2 sv2 where r: "add_to_list mk alloc mem limits s c1 sv1 = Some (c2, sv2)" "out_ok mem ext c2 (os_objs sv2)"
      "grows ext (room s) s (c1, sv1) (c2, sv2)" by (rule add_to_list_ok [where mk = mk and s = s and limits = limits, OF ok(1) al mem mk ok(2,3)])
    have "out_state mem ext v0 c2 sv2" by (rule out_state_grows [OF p(2,7) r(2,3)])
    then show ?thesis using None r p by (simp add: grows_def)
  qed
qed

lemma addReplySds_appends:
  assumes "fresh_obj alloc" and "mem_ok mem"
  shows "appends mem ext v0 (addReplySds alloc mem limits s) s (room s)"
  using add_or_list [OF assms, of Raw_str s ext v0 limits] unfolding addReplySds_def [abs_def] addReplySdsToList_def by simp

lemma addReplyString_appends:
  assumes "fresh_obj alloc" and "mem_ok mem"
  shows "appends mem ext v0 (addReplyString alloc mem limits s) s (room s)"
  using add_or_list [OF assms, of createStr s ext v0 limits] unfolding addReplyString_def [abs_def] addReplyStringToList_def
  by (simp add: createStr_def)

text \<open>A decoded integer is an object with one reference of its own, which is released at the end.\<close>

lemma own_object:
  assumes ok: "out_ok mem ext c h" and n: "h new = None"
  shows "ext new = 0" and "out_ok mem (ext(new := 1)) c (h(new \<mapsto> \<lparr>so_val = v, so_ref = 1\<rparr>))"
    and "pending c (h(new \<mapsto> \<lparr>so_val = v, so_ref = 1\<rparr>)) = pending c h"
proof -
  let ?h = "h(new \<mapsto> \<lparr>so_val = v, so_ref = 1\<rparr>)"
  note d = out_okD [OF ok]
  have e: "ext new = 0" "new \<notin> set (oc_reply c)" using d(6) n by (auto simp: refs_ok_def dest: spec [of _ new])
  show "ext new = 0" by (rule e(1))
  have k: "kept (set (oc_reply c)) h ?h" using n by (auto simp: kept_def)
  have def: "h b \<noteq> None" if "b \<in> set (oc_reply c)" for b using refs_in [OF d(6)] that by blast
  have segs: "map (seg ?h) (oc_reply c) = map (seg h) (oc_reply c)" by (rule segs_kept [OF k def])
  have sum: "(\<Sum>a\<leftarrow>oc_reply c. int (mem (val ?h a))) = (\<Sum>a\<leftarrow>oc_reply c. int (mem (val h a)))" by (rule sum_kept [OF k def])
  have refs: "refs_ok (ext(new := 1)) (oc_reply c) ?h" unfolding refs_ok_def
  proof
    fix b
    have "case h b of None \<Rightarrow> ext b = 0 \<and> b \<notin> set (oc_reply c) | Some ob \<Rightarrow> so_ref ob = int (ext b + count_list (oc_reply c) b) \<and> 0 < so_ref ob"
      using d(6) by (simp add: refs_ok_def)
    then show "case ?h b of None \<Rightarrow> (ext(new := 1)) b = 0 \<and> b \<notin> set (oc_reply c)
      | Some ob \<Rightarrow> so_ref ob = int ((ext(new := 1)) b + count_list (oc_reply c) b) \<and> 0 < so_ref ob" using e by (cases "b = new"; cases "h b") auto
  qed
  have hd: "oc_reply c \<noteq> [] \<Longrightarrow> seg ?h (hd (oc_reply c)) = seg h (hd (oc_reply c))" using segs by (cases "oc_reply c") auto
  have v: "val ?h b = val h b" if "b \<in> set (oc_reply c)" for b using that e(2) by auto
  show "out_ok mem (ext(new := 1)) c ?h" unfolding out_ok_def using d refs sum hd v
    by (simp del: fun_upd_apply) (auto simp del: fun_upd_apply)
  show "pending c ?h = pending c h" unfolding pending_def segs ..
qed

lemma drop_own:
  assumes ok: "out_ok mem (ext(new := 1)) c h" and e: "ext new = 0"
  obtains h' where "obj_ref new (- 1) h = Some h'" and "out_ok mem ext c h'" and "pending c h' = pending c h" and "kept (outside ext) h h'"
proof -
  note d = out_okD [OF ok]
  let ?R = "oc_reply c"
  obtain ob where ob: "h new = Some ob" using refs_in [OF d(6), of new] by auto
  have r: "so_ref ob = int (Suc (count_list ?R new))" using d(6) ob by (auto simp: refs_ok_def dest: spec [of _ new])
  let ?h = "if so_ref ob = 1 then h(new := None) else h(new \<mapsto> ob\<lparr>so_ref := so_ref ob - 1\<rparr>)"
  have nin: "so_ref ob = 1 \<Longrightarrow> new \<notin> set ?R" using r by (simp add: count_list_0_iff)
  have k: "kept (set ?R \<union> outside ext) h ?h" using ob nin e by (auto simp: kept_def)
  have kr: "kept (set ?R) h ?h" using kept_subset [OF k] by blast
  have def: "h b \<noteq> None" if "b \<in> set ?R" for b using refs_in [OF d(6)] that by blast
  have segs: "map (seg ?h) ?R = map (seg h) ?R" by (rule segs_kept [OF kr def])
  have sum: "(\<Sum>a\<leftarrow>?R. int (mem (val ?h a))) = (\<Sum>a\<leftarrow>?R. int (mem (val h a)))" by (rule sum_kept [OF kr def])
  have v: "val ?h b = val h b" if "b \<in> set ?R" for b using kr def [OF that] that unfolding kept_def by blast
  have hd: "?R \<noteq> [] \<Longrightarrow> seg ?h (hd ?R) = seg h (hd ?R)" using segs by (cases ?R) auto
  have fin: "finite (dom ?h)" using d(7) by simp
  have refs: "refs_ok ext ?R ?h" unfolding refs_ok_def
  proof
    fix b
    have "case h b of None \<Rightarrow> (ext(new := 1)) b = 0 \<and> b \<notin> set ?R | Some ob \<Rightarrow> so_ref ob = int ((ext(new := 1)) b + count_list ?R b) \<and> 0 < so_ref ob"
      using d(6) unfolding refs_ok_def by blast
    then show "case ?h b of None \<Rightarrow> ext b = 0 \<and> b \<notin> set ?R | Some ob \<Rightarrow> so_ref ob = int (ext b + count_list ?R b) \<and> 0 < so_ref ob"
      using e r ob nin by (cases "b = new"; cases "h b") auto
  qed
  show thesis
  proof (rule that [of ?h])
    show "obj_ref new (- 1) h = Some ?h" using ob by (auto simp: obj_ref_def)
    show "out_ok mem ext c ?h" unfolding out_ok_def using d(1-5,8) refs fin sum hd v by (simp del: fun_upd_apply) (auto simp del: fun_upd_apply)
    show "pending c ?h = pending c h" unfolding pending_def segs ..
    show "kept (outside ext) h ?h" using kept_subset [OF k] by blast
  qed
qed

lemma ll_text_sdec:
  assumes "in_int64 v"
  shows "ll_text v = sdec v"
proof -
  obtain dst where "ll2string (replicate 32 0) v = (dst, length (sdec v))" "take (length (sdec v)) dst = sdec v"
    using ll2string_take [OF assms, of "replicate 32 0"] by auto
  then show ?thesis by (simp add: ll_text_def)
qed

lemma addReply_str:
  assumes al: "fresh_obj alloc" and mem: "mem_ok mem" and a: "0 < ext a" "str_of (v0 a) = Some s"
  shows "appends mem ext v0 (addReply alloc mem limits a) s (room s)"
  unfolding appends_def
proof (intro conjI allI impI)
  show "0 \<le> room s" by simp
  fix c sv assume st: "out_state mem ext v0 c sv \<and> oc_reply_bytes c + room s < 2 ^ 63"
  then obtain c1 sv1 where p: "prepareClientToWrite c sv = Some (c1, sv1)" "out_state mem ext v0 c1 sv1" "os_objs sv1 = os_objs sv"
    "pending c1 (os_objs sv1) = pending c (os_objs sv)" "oc_reply_bytes c1 = oc_reply_bytes c" "oc_id c1 = oc_id c"
    "PENDING_WRITE \<in> oc_flags c1 \<or> oc_handler c1" using prepare_ok by metis
  have ok: "out_ok mem ext c1 (os_objs sv1)" "CLOSE_AFTER_REPLY \<notin> oc_flags c1" "oc_reply_bytes c1 + room s < 2 ^ 63"
    using p(2,5) st by (auto simp: out_state_def accepting_def)
  obtain ob where ob: "os_objs sv1 a = Some ob" using refs_in [OF out_okD(6) [OF ok(1)], of a] a(1) by auto
  have "val (os_objs sv1) a = v0 a" using p(2) a(1) unfolding out_state_def by blast
  then have "so_val ob = v0 a" using ob by simp
  then have so: "str_of (so_val ob) = Some s" using a(2) by simp
  have e: "addReply alloc mem limits a c sv = (case addReplyToBuffer s c1 of Some c' \<Rightarrow> Some (c', sv1)
      | None \<Rightarrow> addReplyObjectToList alloc mem limits a c1 sv1)"
    using p(1) ob so by (cases "so_val ob") (auto simp: addReply_def)
  show "\<exists>c' sv'. addReply alloc mem limits a c sv = Some (c', sv')
     \<and> out_state mem ext v0 c' sv' \<and> pending c' (os_objs sv') = pending c (os_objs sv) @ s
     \<and> oc_reply_bytes c' \<le> oc_reply_bytes c + room s \<and> oc_id c' = oc_id c"
  proof (cases "addReplyToBuffer s c1")
    case (Some c')
    then show ?thesis using out_state_buffer [OF p(2,7) Some] p e by (simp add: room_def)
  next
    case None
    obtain c2 sv2 where r: "addReplyObjectToList alloc mem limits a c1 sv1 = Some (c2, sv2)" "out_ok mem ext c2 (os_objs sv2)"
      "grows ext (room s) s (c1, sv1) (c2, sv2)"
      by (rule addReplyObjectToList_ok [where s = s and limits = limits, OF ok(1) al mem ob so ok(2,3)])
    have "out_state mem ext v0 c2 sv2" by (rule out_state_grows [OF p(2,7) r(2,3)])
    then show ?thesis using None r p e by (simp add: grows_def)
  qed
qed

lemma addReply_int:
  assumes al: "fresh_obj alloc" and mem: "mem_ok mem" and a: "0 < ext a" "v0 a = Int_obj v" and v: "in_int64 v"
  shows "appends mem ext v0 (addReply alloc mem limits a) (sdec v) (room (sdec v))"
  unfolding appends_def
proof (intro conjI allI impI)
  let ?s = "sdec v"
  show "0 \<le> room ?s" by simp
  fix c sv assume st: "out_state mem ext v0 c sv \<and> oc_reply_bytes c + room ?s < 2 ^ 63"
  then obtain c1 sv1 where p: "prepareClientToWrite c sv = Some (c1, sv1)" "out_state mem ext v0 c1 sv1" "os_objs sv1 = os_objs sv"
    "pending c1 (os_objs sv1) = pending c (os_objs sv)" "oc_reply_bytes c1 = oc_reply_bytes c" "oc_id c1 = oc_id c"
    "PENDING_WRITE \<in> oc_flags c1 \<or> oc_handler c1" using prepare_ok by metis
  have ok: "out_ok mem ext c1 (os_objs sv1)" "CLOSE_AFTER_REPLY \<notin> oc_flags c1" "oc_reply_bytes c1 + room ?s < 2 ^ 63"
    using p(2,5) st by (auto simp: out_state_def accepting_def)
  obtain ob where ob: "os_objs sv1 a = Some ob" using refs_in [OF out_okD(6) [OF ok(1)], of a] a(1) by auto
  have "val (os_objs sv1) a = v0 a" using p(2) a(1) unfolding out_state_def by blast
  then have so: "so_val ob = Int_obj v" using ob a(2) by simp
  let ?n = "alloc (os_objs sv1)"
  let ?h = "(os_objs sv1)(?n \<mapsto> \<lparr>so_val = createStr ?s, so_ref = 1\<rparr>)"
  let ?sv = "sv1\<lparr>os_objs := ?h\<rparr>"
  have nh: "os_objs sv1 ?n = None" using al out_okD(7) [OF ok(1)] by (auto simp: fresh_obj_def)
  note own = own_object(1) [OF ok(1) nh] own_object(2,3) [OF ok(1) nh, of "createStr ?s"]
  have cs: "str_of (createStr ?s) = Some ?s" by (simp add: createStr_def)
  have e: "addReply alloc mem limits a c sv =
      (case (if oc_reply c1 = [] \<and> PROTO_REPLY_CHUNK_BYTES - oc_bufpos c1 \<ge> 32 then addReplyToBuffer ?s c1 else None) of
         Some c' \<Rightarrow> Some (c', sv1)
       | None \<Rightarrow> do {
           (c2, sv2) \<leftarrow> (case addReplyToBuffer ?s c1 of Some c' \<Rightarrow> Some (c', ?sv) | None \<Rightarrow> addReplyObjectToList alloc mem limits ?n c1 ?sv);
           h3 \<leftarrow> obj_ref ?n (- 1) (os_objs sv2);
           Some (c2, sv2\<lparr>os_objs := h3\<rparr>)})"
    unfolding addReply_def p(1) option.case prod.case ob so bind.bind_lunit obj_val.case ll_text_sdec [OF v] Let_def ..
  show "\<exists>c' sv'. addReply alloc mem limits a c sv = Some (c', sv')
     \<and> out_state mem ext v0 c' sv' \<and> pending c' (os_objs sv') = pending c (os_objs sv) @ ?s
     \<and> oc_reply_bytes c' \<le> oc_reply_bytes c + room ?s \<and> oc_id c' = oc_id c"
  proof (cases "oc_reply c1 = [] \<and> PROTO_REPLY_CHUNK_BYTES - oc_bufpos c1 \<ge> 32 \<and> addReplyToBuffer ?s c1 \<noteq> None")
    case True
    then obtain c' where b: "addReplyToBuffer ?s c1 = Some c'" by blast
    then show ?thesis using out_state_buffer [OF p(2,7) b] p e True by (simp add: room_def)
  next
    case False
    define v1 where "v1 = v0(?n := createStr ?s)"
    have st1: "out_state mem (ext(?n := 1)) v1 c1 ?sv"
      using own p(2) nh by (auto simp: out_state_def v1_def scheduled_def)
    have pn: "pending c1 (os_objs ?sv) = pending c (os_objs sv)" using own(3) p(4) by simp
    obtain c2 sv2 where r: "(case addReplyToBuffer ?s c1 of Some c' \<Rightarrow> Some (c', ?sv)
        | None \<Rightarrow> addReplyObjectToList alloc mem limits ?n c1 ?sv) = Some (c2, sv2)"
      "out_state mem (ext(?n := 1)) v1 c2 sv2" "pending c2 (os_objs sv2) = pending c1 (os_objs ?sv) @ ?s"
      "oc_reply_bytes c2 \<le> oc_reply_bytes c1 + room ?s" "oc_id c2 = oc_id c1"
    proof (cases "addReplyToBuffer ?s c1")
      case (Some c')
      then show thesis using that [of c' ?sv] out_state_buffer [OF st1 p(7) Some] by (simp add: room_def)
    next
      case None
      have ok1: "out_ok mem (ext(?n := 1)) c1 (os_objs ?sv)" using own(2) by simp
      have on: "os_objs ?sv ?n = Some \<lparr>so_val = createStr ?s, so_ref = 1\<rparr>" "str_of (so_val \<lparr>so_val = createStr ?s, so_ref = 1\<rparr>) = Some ?s"
        using cs by simp_all
      obtain c2 sv2 where r: "addReplyObjectToList alloc mem limits ?n c1 ?sv = Some (c2, sv2)" "out_ok mem (ext(?n := 1)) c2 (os_objs sv2)"
        "grows (ext(?n := 1)) (room ?s) ?s (c1, ?sv) (c2, sv2)"
        by (rule addReplyObjectToList_ok [where s = ?s and limits = limits, OF ok1 al mem on ok(2,3)])
      show thesis using that [of c2 sv2] None r out_state_grows [OF st1 p(7) r(2,3)] by (simp add: grows_def)
    qed
    have ok2: "out_ok mem (ext(?n := 1)) c2 (os_objs sv2)" using r(2) by (simp add: out_state_def)
    obtain h3 where h3: "obj_ref ?n (- 1) (os_objs sv2) = Some h3" "out_ok mem ext c2 h3" "pending c2 h3 = pending c2 (os_objs sv2)"
      "kept (outside ext) (os_objs sv2) h3" by (rule drop_own [OF ok2 own(1)])
    have v: "val h3 b = v0 b" if "0 < ext b" for b
    proof -
      have bn: "b \<noteq> ?n" using that own(1) by auto
      have "os_objs sv2 b \<noteq> None" using refs_in [OF out_okD(6) [OF ok2], of b] that bn by auto
      then have "val h3 b = val (os_objs sv2) b" using h3(4) that by (auto simp: kept_def)
      also have "\<dots> = v0 b" using r(2) that bn by (auto simp: out_state_def v1_def)
      finally show ?thesis .
    qed
    have "out_state mem ext v0 c2 (sv2\<lparr>os_objs := h3\<rparr>)" using h3(2) v r(2) by (simp add: out_state_def scheduled_def)
    moreover have "addReply alloc mem limits a c sv = Some (c2, sv2\<lparr>os_objs := h3\<rparr>)" using e False r(1) h3(1) by auto
    ultimately show ?thesis using r(3-5) h3(3) pn p(5,6) by simp
  qed
qed

end
