(* ===== verification/OutputSend.thy ===== *)
theory OutputSend
  imports OutputReply
begin

text \<open>What \<open>writeToClient\<close> sends is the beginning of the pending bytes, and the rest stays pending.\<close>

section \<open>One write\<close>

lemma send_buf:
  assumes ok: "out_ok mem ext c h" and b: "oc_bufpos c > 0" and n: "0 < n" "n \<le> oc_bufpos c - oc_sentlen c"
    and c1: "c1 = (if oc_sentlen c + n = oc_bufpos c then c\<lparr>oc_bufpos := 0, oc_sentlen := 0\<rparr> else c\<lparr>oc_sentlen := oc_sentlen c + n\<rparr>)"
  shows "out_ok mem ext c1 h" and "take n (drop (oc_sentlen c) (oc_buf c)) @ pending c1 h = pending c h"
proof -
  note d = out_okD [OF ok]
  show "out_ok mem ext c1 h" using d n by (auto simp: out_ok_def c1)
  have l: "oc_sentlen c + n \<le> oc_bufpos c" "oc_bufpos c \<le> length (oc_buf c)" using d(1,2) n by simp_all
  have t: "take n (drop (oc_sentlen c) (oc_buf c)) @ drop (oc_sentlen c + n) (take (oc_bufpos c) (oc_buf c))
      = drop (oc_sentlen c) (take (oc_bufpos c) (oc_buf c))"
  proof -
    have "take n (drop (oc_sentlen c) (take (oc_bufpos c) (oc_buf c))) = take n (drop (oc_sentlen c) (oc_buf c))"
      using l by (simp add: drop_take min_def)
    then show ?thesis by (metis append_take_drop_id drop_drop add.commute)
  qed
  show "take n (drop (oc_sentlen c) (oc_buf c)) @ pending c1 h = pending c h"
    using t l by (auto simp: pending_def c1)
qed

lemma pop_head:
  assumes ok: "out_ok mem ext c h" and b: "oc_bufpos c = 0" and r: "oc_reply c = a # R" and ob: "h a = Some ob"
  obtains h1 where "obj_ref a (- 1) h = Some h1" and "kept (outside ext) h h1"
    and "out_ok mem ext (c\<lparr>oc_reply := R, oc_sentlen := 0, oc_reply_bytes := oc_reply_bytes c - int (mem (so_val ob))\<rparr>) h1"
    and "pending (c\<lparr>oc_reply := R, oc_sentlen := 0, oc_reply_bytes := oc_reply_bytes c - int (mem (so_val ob))\<rparr>) h1 = concat (map (seg h) R)"
proof -
  note d = out_okD [OF ok]
  have refs: "refs_ok ext (a # R) h" using d(6) r by simp
  obtain h1 where h1: "obj_ref a (- 1) h = Some h1" "refs_ok ext R h1" "dom h1 \<subseteq> dom h" "kept (set R \<union> outside ext) h h1"
    by (rule pop_ref [OF refs, where R' = R and a = a]) auto
  have k: "kept (set R) h h1" "kept (outside ext) h h1" using kept_subset [OF h1(4)] by blast+
  have def: "h x \<noteq> None" if "x \<in> set R" for x using refs_in [OF refs] that by simp
  have segs: "map (seg h1) R = map (seg h) R" by (rule segs_kept [OF k(1) def])
  have sum: "(\<Sum>a\<leftarrow>R. int (mem (val h1 a))) = (\<Sum>a\<leftarrow>R. int (mem (val h a)))" by (rule sum_kept [OF k(1) def])
  have v: "val h1 x = val h x" if "x \<in> set R" for x using k(1) def [OF that] that by (auto simp: kept_def)
  have "finite (dom h1)" using finite_subset [OF h1(3) d(7)] .
  then show thesis using that [OF h1(1) k(2)] d(1,2,5,8) h1(2) b r ob v sum segs by (simp add: out_ok_def pending_def)
qed

section \<open>The loop\<close>

definition wr_legal :: "(nat \<Rightarrow> nat \<Rightarrow> write_result) \<Rightarrow> bool" where
  "wr_legal wr \<longleftrightarrow> (\<forall>k n. case wr k n of Wrote m \<Rightarrow> m \<le> n | Write_again \<Rightarrow> True | Write_error \<Rightarrow> False)"

definition same_client :: "oclient \<Rightarrow> oclient \<Rightarrow> bool" where
  "same_client c c' \<longleftrightarrow> oc_id c' = oc_id c \<and> oc_fd c' = oc_fd c \<and> oc_flags c' = oc_flags c \<and> oc_handler c' = oc_handler c
     \<and> oc_replstate c' = oc_replstate c \<and> oc_put_online_on_ack c' = oc_put_online_on_ack c"

definition sends :: "(obj_val \<Rightarrow> nat) \<Rightarrow> (nat \<Rightarrow> nat) \<Rightarrow> bytes \<Rightarrow> oclient \<times> oheap \<Rightarrow> oclient \<times> oheap \<Rightarrow> bool" where
  "sends mem ext s = (\<lambda>(c, h) (c', h'). out_ok mem ext c' h' \<and> s @ pending c' h' = pending c h \<and> kept (outside ext) h h'
     \<and> oc_reply_bytes c' \<le> oc_reply_bytes c \<and> same_client c c')"

lemma sends_trans:
  assumes "sends mem ext s x y" and "sends mem ext t y z"
  shows "sends mem ext (s @ t) x z"
proof -
  obtain c h c' h' c'' h'' where [simp]: "x = (c, h)" "y = (c', h')" "z = (c'', h'')" by (metis surj_pair)
  have "kept (outside ext) h h''" using assms kept_trans by (auto simp: sends_def)
  then show ?thesis using assms by (auto simp: sends_def same_client_def)
qed

lemma write_loop_ok:
  assumes wr: "wr_legal wr" and "out_ok mem ext c h" and "r0 \<noteq> Write_error"
  shows "\<exists>c' h' s r. write_loop wr mem over k sent r0 c h = Some (c', h', sent @ s, r) \<and> sends mem ext s (c, h) (c', h') \<and> r \<noteq> Write_error"
  using assms(2,3)
proof (induction "length (pending c h) + length (oc_reply c)" arbitrary: c h k sent r0 rule: less_induct)
  case less
  have rf: "sends mem ext [] (c, h) (c, h)" using less.prems by (simp add: sends_def same_client_def)
  have goon: "\<exists>c' h' s r. write_loop wr mem over k' (sent @ s1) r1 c1 h1 = Some (c', h', sent @ s, r) \<and> sends mem ext s (c, h) (c', h') \<and> r \<noteq> Write_error"
    if s1: "sends mem ext s1 (c, h) (c1, h1)" and l1: "length s1 + length (oc_reply c) > length (oc_reply c1)" and e1: "r1 \<noteq> Write_error" for s1 c1 h1 k' r1
  proof -
    have p: "s1 @ pending c1 h1 = pending c h" "out_ok mem ext c1 h1" using s1 by (auto simp: sends_def)
    have "length (pending c1 h1) + length (oc_reply c1) < length (pending c h) + length (oc_reply c)" unfolding p(1) [symmetric] using l1 by simp
    then obtain c' h' s r where "write_loop wr mem over k' (sent @ s1) r1 c1 h1 = Some (c', h', (sent @ s1) @ s, r)"
      "sends mem ext s (c1, h1) (c', h')" "r \<noteq> Write_error" using less.hyps [OF _ p(2) e1] by blast
    then show ?thesis using sends_trans [OF s1] by (metis append.assoc)
  qed
  show ?case
  proof (cases "clientHasPendingReplies c")
    case False
    then show ?thesis using rf less.prems(2) by (intro exI [of _ c] exI [of _ h] exI [of _ "[]"] exI [of _ r0]) (simp add: write_loop.simps [of wr mem over k])
  next
    case pend: True
    show ?thesis
    proof (cases "oc_bufpos c > 0")
      case True
      let ?n = "oc_bufpos c - oc_sentlen c"
      have w: "case wr k ?n of Wrote m \<Rightarrow> m \<le> ?n | Write_again \<Rightarrow> True | Write_error \<Rightarrow> False" using wr unfolding wr_legal_def by blast
      show ?thesis
      proof (cases "\<exists>m. wr k ?n = Wrote m \<and> 0 < m")
        case False
        then show ?thesis using w rf pend True
          by (intro exI [of _ c] exI [of _ h] exI [of _ "[]"] exI [of _ "wr k ?n"])
            (auto simp: write_loop.simps [of wr mem over k] Let_def split: write_result.splits)
      next
        case m: True
        then obtain m where m: "wr k ?n = Wrote m" "0 < m" "m \<le> ?n" using w by auto
        let ?s = "take m (drop (oc_sentlen c) (oc_buf c))"
        let ?c = "if oc_sentlen c + m = oc_bufpos c then c\<lparr>oc_bufpos := 0, oc_sentlen := 0\<rparr> else c\<lparr>oc_sentlen := oc_sentlen c + m\<rparr>"
        note sb = send_buf [OF less.prems(1) True m(2,3) refl]
        have s: "sends mem ext ?s (c, h) (?c, h)" using sb by (simp add: sends_def same_client_def)
        have "length ?s > 0" using m(2,3) out_okD(1,2) [OF less.prems(1)] by simp
        then have g: "\<exists>c' h' s r. write_loop wr mem over (Suc k) (sent @ ?s) (Wrote m) ?c h = Some (c', h', sent @ s, r)
            \<and> sends mem ext s (c, h) (c', h') \<and> r \<noteq> Write_error" by (intro goon [OF s]) auto
        have e: "write_loop wr mem over k sent r0 c h =
            (if length (sent @ ?s) > NET_MAX_WRITES_PER_EVENT \<and> \<not> over then Some (?c, h, sent @ ?s, Wrote m)
             else write_loop wr mem over (Suc k) (sent @ ?s) (Wrote m) ?c h)"
          using pend True m by (subst write_loop.simps) (simp add: Let_def)
        show ?thesis
        proof (cases "length (sent @ ?s) > NET_MAX_WRITES_PER_EVENT \<and> \<not> over")
          case stop: True
          show ?thesis unfolding e if_P [OF stop] using s by blast
        next
          case False
          show ?thesis unfolding e if_not_P [OF False] by (rule g)
        qed
      qed
    next
      case False
      then have b: "oc_bufpos c = 0" by simp
      then obtain a R where R: "oc_reply c = a # R" using pend by (auto simp: clientHasPendingReplies_def neq_Nil_conv)
      obtain ob where ob: "h a = Some ob" using refs_in [OF out_okD(6) [OF less.prems(1)], of a] R by auto
      obtain s0 where s0: "str_of (so_val ob) = Some s0" using out_okD(5) [OF less.prems(1), of a] R ob by auto
      have sg: "seg h a = s0" using ob s0 by (simp add: seg_def)
      have sl: "oc_sentlen c = 0 \<or> oc_sentlen c < length s0" using out_okD(4) [OF less.prems(1) b] R sg by simp
      have pc: "pending c h = drop (oc_sentlen c) s0 @ concat (map (seg h) R)"
        using b R sg sl by (auto simp: pending_def)
      let ?c1 = "c\<lparr>oc_reply := R, oc_sentlen := 0, oc_reply_bytes := oc_reply_bytes c - int (mem (so_val ob))\<rparr>"
      obtain h1 where h1: "obj_ref a (- 1) h = Some h1" "kept (outside ext) h h1" "out_ok mem ext ?c1 h1" "pending ?c1 h1 = concat (map (seg h) R)"
        by (rule pop_head [OF less.prems(1) b R ob])
      have pop: "sends mem ext (drop (oc_sentlen c) s0) (c, h) (?c1, h1)" using h1 pc by (simp add: sends_def same_client_def)
      show ?thesis
      proof (cases "s0 = []")
        case True
        then have z: "oc_sentlen c = 0" using sl by simp
        then have c1: "c\<lparr>oc_reply := R, oc_reply_bytes := oc_reply_bytes c - int (mem (so_val ob))\<rparr> = ?c1" by simp
        have e: "write_loop wr mem over k sent r0 c h = write_loop wr mem over k (sent @ []) r0 ?c1 h1"
          using pend b R ob s0 True h1(1) c1 by (subst write_loop.simps) simp
        show ?thesis unfolding e by (rule goon) (use pop True z R less.prems(2) in auto)
      next
        case ne: False
        let ?n = "length s0 - oc_sentlen c"
        have w: "case wr k ?n of Wrote m \<Rightarrow> m \<le> ?n | Write_again \<Rightarrow> True | Write_error \<Rightarrow> False" using wr unfolding wr_legal_def by blast
        show ?thesis
        proof (cases "\<exists>m. wr k ?n = Wrote m \<and> 0 < m")
          case False
          then show ?thesis using w rf pend b R ob s0 ne
            by (intro exI [of _ c] exI [of _ h] exI [of _ "[]"] exI [of _ "wr k ?n"])
              (auto simp: write_loop.simps [of wr mem over k] Let_def split: write_result.splits)
        next
          case m: True
          then obtain m where m: "wr k ?n = Wrote m" "0 < m" "m \<le> ?n" using w by auto
          let ?s = "take m (drop (oc_sentlen c) s0)"
          obtain c2 h2 where s2: "(if oc_sentlen c + m = length s0 then do {
               h1 \<leftarrow> obj_ref a (- 1) h;
               Some (c\<lparr>oc_reply := R, oc_sentlen := 0, oc_reply_bytes := oc_reply_bytes c - int (mem (so_val ob))\<rparr>, h1)}
             else Some (c\<lparr>oc_sentlen := oc_sentlen c + m\<rparr>, h)) = Some (c2, h2)" "sends mem ext ?s (c, h) (c2, h2)"
            "length (oc_reply c2) \<le> length (oc_reply c)"
          proof (cases "oc_sentlen c + m = length s0")
            case True
            then have "?s = drop (oc_sentlen c) s0" by simp
            then show thesis using that [of ?c1 h1] True h1(1) pop R by simp
          next
            case False
            then have lt: "oc_sentlen c + m < length s0" using m(3) sl by linarith
            let ?c = "c\<lparr>oc_sentlen := oc_sentlen c + m\<rparr>"
            have "out_ok mem ext ?c h" using less.prems(1) b R lt sg by (simp add: out_ok_def)
            moreover have "pending ?c h = drop (oc_sentlen c + m) s0 @ concat (map (seg h) R)"
              using b R sg lt by (simp add: pending_def)
            moreover have "?s @ drop (oc_sentlen c + m) s0 = drop (oc_sentlen c) s0" by (metis add.commute append_take_drop_id drop_drop)
            ultimately show thesis using that [of ?c h] False pc by (simp add: sends_def same_client_def)
          qed
          have "length ?s > 0" using m(2,3) by simp
          then have g: "\<exists>c' h' s r. write_loop wr mem over (Suc k) (sent @ ?s) (Wrote m) c2 h2 = Some (c', h', sent @ s, r)
              \<and> sends mem ext s (c, h) (c', h') \<and> r \<noteq> Write_error" by (intro goon [OF s2(2)]) (use s2(3) in auto)
          have e: "write_loop wr mem over k sent r0 c h =
              (if length (sent @ ?s) > NET_MAX_WRITES_PER_EVENT \<and> \<not> over then Some (c2, h2, sent @ ?s, Wrote m)
               else write_loop wr mem over (Suc k) (sent @ ?s) (Wrote m) c2 h2)"
          proof -
            have f: "(\<not> clientHasPendingReplies c) = False" "(oc_bufpos c > 0) = False" "(s0 = []) = False" "(m = 0) = False" "(m > ?n) = False"
              using pend b ne m(2,3) by simp_all
            show ?thesis unfolding write_loop.simps [of wr mem over k sent r0 c h]
              by (simp only: f if_False R list.sel Let_def ob s0 bind.bind_lunit m(1) write_result.case s2(1) prod.case)
          qed
          show ?thesis
          proof (cases "length (sent @ ?s) > NET_MAX_WRITES_PER_EVENT \<and> \<not> over")
            case stop: True
            show ?thesis unfolding e if_P [OF stop] using s2(2) by blast
          next
            case False
            show ?thesis unfolding e if_not_P [OF False] by (rule g)
          qed
        qed
      qed
    qed
  qed
qed

end
