(* ===== verification/Checksum.thy ===== *)
theory Checksum
  imports Prelude
begin

unbundle bit_operations_syntax

text \<open>
  \<^verbatim>\<open>crc16.c\<close>, \<^verbatim>\<open>crc64.c\<close>, \<^verbatim>\<open>endianconv.c\<close> and the key hashing of \<^verbatim>\<open>cluster.c\<close>: the table driven checksums,
  shown to be the bit-serial divisions by their polynomials, the byte order conversions, and the slot
  of a key.  Characters are bytes; \<open>char\<close> is signed, as on the platforms the server is built for.
\<close>

section \<open>The checksums\<close>

definition crc16tab :: "u16 list" where
  "crc16tab =
    [0x0000, 0x1021, 0x2042, 0x3063, 0x4084, 0x50a5, 0x60c6, 0x70e7,
     0x8108, 0x9129, 0xa14a, 0xb16b, 0xc18c, 0xd1ad, 0xe1ce, 0xf1ef,
     0x1231, 0x0210, 0x3273, 0x2252, 0x52b5, 0x4294, 0x72f7, 0x62d6,
     0x9339, 0x8318, 0xb37b, 0xa35a, 0xd3bd, 0xc39c, 0xf3ff, 0xe3de] @
    [0x2462, 0x3443, 0x0420, 0x1401, 0x64e6, 0x74c7, 0x44a4, 0x5485,
     0xa56a, 0xb54b, 0x8528, 0x9509, 0xe5ee, 0xf5cf, 0xc5ac, 0xd58d,
     0x3653, 0x2672, 0x1611, 0x0630, 0x76d7, 0x66f6, 0x5695, 0x46b4,
     0xb75b, 0xa77a, 0x9719, 0x8738, 0xf7df, 0xe7fe, 0xd79d, 0xc7bc] @
    [0x48c4, 0x58e5, 0x6886, 0x78a7, 0x0840, 0x1861, 0x2802, 0x3823,
     0xc9cc, 0xd9ed, 0xe98e, 0xf9af, 0x8948, 0x9969, 0xa90a, 0xb92b,
     0x5af5, 0x4ad4, 0x7ab7, 0x6a96, 0x1a71, 0x0a50, 0x3a33, 0x2a12,
     0xdbfd, 0xcbdc, 0xfbbf, 0xeb9e, 0x9b79, 0x8b58, 0xbb3b, 0xab1a] @
    [0x6ca6, 0x7c87, 0x4ce4, 0x5cc5, 0x2c22, 0x3c03, 0x0c60, 0x1c41,
     0xedae, 0xfd8f, 0xcdec, 0xddcd, 0xad2a, 0xbd0b, 0x8d68, 0x9d49,
     0x7e97, 0x6eb6, 0x5ed5, 0x4ef4, 0x3e13, 0x2e32, 0x1e51, 0x0e70,
     0xff9f, 0xefbe, 0xdfdd, 0xcffc, 0xbf1b, 0xaf3a, 0x9f59, 0x8f78] @
    [0x9188, 0x81a9, 0xb1ca, 0xa1eb, 0xd10c, 0xc12d, 0xf14e, 0xe16f,
     0x1080, 0x00a1, 0x30c2, 0x20e3, 0x5004, 0x4025, 0x7046, 0x6067,
     0x83b9, 0x9398, 0xa3fb, 0xb3da, 0xc33d, 0xd31c, 0xe37f, 0xf35e,
     0x02b1, 0x1290, 0x22f3, 0x32d2, 0x4235, 0x5214, 0x6277, 0x7256] @
    [0xb5ea, 0xa5cb, 0x95a8, 0x8589, 0xf56e, 0xe54f, 0xd52c, 0xc50d,
     0x34e2, 0x24c3, 0x14a0, 0x0481, 0x7466, 0x6447, 0x5424, 0x4405,
     0xa7db, 0xb7fa, 0x8799, 0x97b8, 0xe75f, 0xf77e, 0xc71d, 0xd73c,
     0x26d3, 0x36f2, 0x0691, 0x16b0, 0x6657, 0x7676, 0x4615, 0x5634] @
    [0xd94c, 0xc96d, 0xf90e, 0xe92f, 0x99c8, 0x89e9, 0xb98a, 0xa9ab,
     0x5844, 0x4865, 0x7806, 0x6827, 0x18c0, 0x08e1, 0x3882, 0x28a3,
     0xcb7d, 0xdb5c, 0xeb3f, 0xfb1e, 0x8bf9, 0x9bd8, 0xabbb, 0xbb9a,
     0x4a75, 0x5a54, 0x6a37, 0x7a16, 0x0af1, 0x1ad0, 0x2ab3, 0x3a92] @
    [0xfd2e, 0xed0f, 0xdd6c, 0xcd4d, 0xbdaa, 0xad8b, 0x9de8, 0x8dc9,
     0x7c26, 0x6c07, 0x5c64, 0x4c45, 0x3ca2, 0x2c83, 0x1ce0, 0x0cc1,
     0xef1f, 0xff3e, 0xcf5d, 0xdf7c, 0xaf9b, 0xbfba, 0x8fd9, 0x9ff8,
     0x6e17, 0x7e36, 0x4e55, 0x5e74, 0x2e93, 0x3eb2, 0x0ed1, 0x1ef0]"

definition crc64_tab :: "u64 list" where
  "crc64_tab =
    [0x0000000000000000, 0x7ad870c830358979, 0xf5b0e190606b12f2, 0x8f689158505e9b8b,
     0xc038e5739841b68f, 0xbae095bba8743ff6, 0x358804e3f82aa47d, 0x4f50742bc81f2d04,
     0xab28ecb46814fe75, 0xd1f09c7c5821770c, 0x5e980d24087fec87, 0x24407dec384a65fe,
     0x6b1009c7f05548fa, 0x11c8790fc060c183, 0x9ea0e857903e5a08, 0xe478989fa00bd371,
     0x7d08ff3b88be6f81, 0x07d08ff3b88be6f8, 0x88b81eabe8d57d73, 0xf2606e63d8e0f40a,
     0xbd301a4810ffd90e, 0xc7e86a8020ca5077, 0x4880fbd87094cbfc, 0x32588b1040a14285,
     0xd620138fe0aa91f4, 0xacf86347d09f188d, 0x2390f21f80c18306, 0x594882d7b0f40a7f,
     0x1618f6fc78eb277b, 0x6cc0863448deae02, 0xe3a8176c18803589, 0x997067a428b5bcf0] @
    [0xfa11fe77117cdf02, 0x80c98ebf2149567b, 0x0fa11fe77117cdf0, 0x75796f2f41224489,
     0x3a291b04893d698d, 0x40f16bccb908e0f4, 0xcf99fa94e9567b7f, 0xb5418a5cd963f206,
     0x513912c379682177, 0x2be1620b495da80e, 0xa489f35319033385, 0xde51839b2936bafc,
     0x9101f7b0e12997f8, 0xebd98778d11c1e81, 0x64b116208142850a, 0x1e6966e8b1770c73,
     0x8719014c99c2b083, 0xfdc17184a9f739fa, 0x72a9e0dcf9a9a271, 0x08719014c99c2b08,
     0x4721e43f0183060c, 0x3df994f731b68f75, 0xb29105af61e814fe, 0xc849756751dd9d87,
     0x2c31edf8f1d64ef6, 0x56e99d30c1e3c78f, 0xd9810c6891bd5c04, 0xa3597ca0a188d57d,
     0xec09088b6997f879, 0x96d1784359a27100, 0x19b9e91b09fcea8b, 0x636199d339c963f2] @
    [0xdf7adabd7a6e2d6f, 0xa5a2aa754a5ba416, 0x2aca3b2d1a053f9d, 0x50124be52a30b6e4,
     0x1f423fcee22f9be0, 0x659a4f06d21a1299, 0xeaf2de5e82448912, 0x902aae96b271006b,
     0x74523609127ad31a, 0x0e8a46c1224f5a63, 0x81e2d7997211c1e8, 0xfb3aa75142244891,
     0xb46ad37a8a3b6595, 0xceb2a3b2ba0eecec, 0x41da32eaea507767, 0x3b024222da65fe1e,
     0xa2722586f2d042ee, 0xd8aa554ec2e5cb97, 0x57c2c41692bb501c, 0x2d1ab4dea28ed965,
     0x624ac0f56a91f461, 0x1892b03d5aa47d18, 0x97fa21650afae693, 0xed2251ad3acf6fea,
     0x095ac9329ac4bc9b, 0x7382b9faaaf135e2, 0xfcea28a2faafae69, 0x8632586aca9a2710,
     0xc9622c4102850a14, 0xb3ba5c8932b0836d, 0x3cd2cdd162ee18e6, 0x460abd1952db919f] @
    [0x256b24ca6b12f26d, 0x5fb354025b277b14, 0xd0dbc55a0b79e09f, 0xaa03b5923b4c69e6,
     0xe553c1b9f35344e2, 0x9f8bb171c366cd9b, 0x10e3202993385610, 0x6a3b50e1a30ddf69,
     0x8e43c87e03060c18, 0xf49bb8b633338561, 0x7bf329ee636d1eea, 0x012b592653589793,
     0x4e7b2d0d9b47ba97, 0x34a35dc5ab7233ee, 0xbbcbcc9dfb2ca865, 0xc113bc55cb19211c,
     0x5863dbf1e3ac9dec, 0x22bbab39d3991495, 0xadd33a6183c78f1e, 0xd70b4aa9b3f20667,
     0x985b3e827bed2b63, 0xe2834e4a4bd8a21a, 0x6debdf121b863991, 0x1733afda2bb3b0e8,
     0xf34b37458bb86399, 0x8993478dbb8deae0, 0x06fbd6d5ebd3716b, 0x7c23a61ddbe6f812,
     0x3373d23613f9d516, 0x49aba2fe23cc5c6f, 0xc6c333a67392c7e4, 0xbc1b436e43a74e9d] @
    [0x95ac9329ac4bc9b5, 0xef74e3e19c7e40cc, 0x601c72b9cc20db47, 0x1ac40271fc15523e,
     0x5594765a340a7f3a, 0x2f4c0692043ff643, 0xa02497ca54616dc8, 0xdafce7026454e4b1,
     0x3e847f9dc45f37c0, 0x445c0f55f46abeb9, 0xcb349e0da4342532, 0xb1eceec59401ac4b,
     0xfebc9aee5c1e814f, 0x8464ea266c2b0836, 0x0b0c7b7e3c7593bd, 0x71d40bb60c401ac4,
     0xe8a46c1224f5a634, 0x927c1cda14c02f4d, 0x1d148d82449eb4c6, 0x67ccfd4a74ab3dbf,
     0x289c8961bcb410bb, 0x5244f9a98c8199c2, 0xdd2c68f1dcdf0249, 0xa7f41839ecea8b30,
     0x438c80a64ce15841, 0x3954f06e7cd4d138, 0xb63c61362c8a4ab3, 0xcce411fe1cbfc3ca,
     0x83b465d5d4a0eece, 0xf96c151de49567b7, 0x76048445b4cbfc3c, 0x0cdcf48d84fe7545] @
    [0x6fbd6d5ebd3716b7, 0x15651d968d029fce, 0x9a0d8ccedd5c0445, 0xe0d5fc06ed698d3c,
     0xaf85882d2576a038, 0xd55df8e515432941, 0x5a3569bd451db2ca, 0x20ed197575283bb3,
     0xc49581ead523e8c2, 0xbe4df122e51661bb, 0x3125607ab548fa30, 0x4bfd10b2857d7349,
     0x04ad64994d625e4d, 0x7e7514517d57d734, 0xf11d85092d094cbf, 0x8bc5f5c11d3cc5c6,
     0x12b5926535897936, 0x686de2ad05bcf04f, 0xe70573f555e26bc4, 0x9ddd033d65d7e2bd,
     0xd28d7716adc8cfb9, 0xa85507de9dfd46c0, 0x273d9686cda3dd4b, 0x5de5e64efd965432,
     0xb99d7ed15d9d8743, 0xc3450e196da80e3a, 0x4c2d9f413df695b1, 0x36f5ef890dc31cc8,
     0x79a59ba2c5dc31cc, 0x037deb6af5e9b8b5, 0x8c157a32a5b7233e, 0xf6cd0afa9582aa47] @
    [0x4ad64994d625e4da, 0x300e395ce6106da3, 0xbf66a804b64ef628, 0xc5bed8cc867b7f51,
     0x8aeeace74e645255, 0xf036dc2f7e51db2c, 0x7f5e4d772e0f40a7, 0x05863dbf1e3ac9de,
     0xe1fea520be311aaf, 0x9b26d5e88e0493d6, 0x144e44b0de5a085d, 0x6e963478ee6f8124,
     0x21c640532670ac20, 0x5b1e309b16452559, 0xd476a1c3461bbed2, 0xaeaed10b762e37ab,
     0x37deb6af5e9b8b5b, 0x4d06c6676eae0222, 0xc26e573f3ef099a9, 0xb8b627f70ec510d0,
     0xf7e653dcc6da3dd4, 0x8d3e2314f6efb4ad, 0x0256b24ca6b12f26, 0x788ec2849684a65f,
     0x9cf65a1b368f752e, 0xe62e2ad306bafc57, 0x6946bb8b56e467dc, 0x139ecb4366d1eea5,
     0x5ccebf68aecec3a1, 0x2616cfa09efb4ad8, 0xa97e5ef8cea5d153, 0xd3a62e30fe90582a] @
    [0xb0c7b7e3c7593bd8, 0xca1fc72bf76cb2a1, 0x45775673a732292a, 0x3faf26bb9707a053,
     0x70ff52905f188d57, 0x0a2722586f2d042e, 0x854fb3003f739fa5, 0xff97c3c80f4616dc,
     0x1bef5b57af4dc5ad, 0x61372b9f9f784cd4, 0xee5fbac7cf26d75f, 0x9487ca0fff135e26,
     0xdbd7be24370c7322, 0xa10fceec0739fa5b, 0x2e675fb4576761d0, 0x54bf2f7c6752e8a9,
     0xcdcf48d84fe75459, 0xb71738107fd2dd20, 0x387fa9482f8c46ab, 0x42a7d9801fb9cfd2,
     0x0df7adabd7a6e2d6, 0x772fdd63e7936baf, 0xf8474c3bb7cdf024, 0x829f3cf387f8795d,
     0x66e7a46c27f3aa2c, 0x1c3fd4a417c62355, 0x935745fc4798b8de, 0xe98f353477ad31a7,
     0xa6df411fbfb21ca3, 0xdc0731d78f8795da, 0x536fa08fdfd90e51, 0x29b7d047efec8728]"

definition crc16_next :: "u16 \<Rightarrow> byte \<Rightarrow> u16" where
  "crc16_next crc c =
     push_bit 8 crc XOR crc16tab ! unat (((ucast (drop_bit 8 crc) :: u32) XOR scast c) AND 0x00FF)"

definition crc16 :: "bytes \<Rightarrow> u16" where
  "crc16 buf = foldl crc16_next 0 buf"

definition crc64_next :: "u64 \<Rightarrow> byte \<Rightarrow> u64" where
  "crc64_next crc b = crc64_tab ! unat ((ucast crc :: byte) XOR b) XOR drop_bit 8 crc"

definition crc64 :: "u64 \<Rightarrow> bytes \<Rightarrow> u64" where
  "crc64 crc s = foldl crc64_next crc s"

text \<open>The bit-serial divisions: XMODEM, most significant bit first; Jones, reflected.\<close>

definition step16 :: "u16 \<Rightarrow> u16" where
  "step16 c = (if bit c 15 then push_bit 1 c XOR 0x1021 else push_bit 1 c)"

definition step64 :: "u64 \<Rightarrow> u64" where
  "step64 c = (if bit c 0 then drop_bit 1 c XOR 0x95ac9329ac4bc9b5 else drop_bit 1 c)"

definition eight :: "('a \<Rightarrow> 'a) \<Rightarrow> 'a \<Rightarrow> 'a" where
  "eight f x = f (f (f (f (f (f (f (f x)))))))"

definition crc16_serial :: "u16 \<Rightarrow> byte \<Rightarrow> u16" where
  "crc16_serial crc b = eight step16 (crc XOR push_bit 8 (ucast b))"

definition crc64_serial :: "u64 \<Rightarrow> byte \<Rightarrow> u64" where
  "crc64_serial crc b = eight step64 (crc XOR ucast b)"


section \<open>The tables\<close>

definition bytes_in_order :: "'a::len word list" where
  "bytes_in_order =
    [0, 1, 2, 3, 4, 5, 6, 7, 8, 9, 10, 11, 12, 13, 14, 15,
     16, 17, 18, 19, 20, 21, 22, 23, 24, 25, 26, 27, 28, 29, 30, 31] @
    [32, 33, 34, 35, 36, 37, 38, 39, 40, 41, 42, 43, 44, 45, 46, 47,
     48, 49, 50, 51, 52, 53, 54, 55, 56, 57, 58, 59, 60, 61, 62, 63] @
    [64, 65, 66, 67, 68, 69, 70, 71, 72, 73, 74, 75, 76, 77, 78, 79,
     80, 81, 82, 83, 84, 85, 86, 87, 88, 89, 90, 91, 92, 93, 94, 95] @
    [96, 97, 98, 99, 100, 101, 102, 103, 104, 105, 106, 107, 108, 109, 110, 111,
     112, 113, 114, 115, 116, 117, 118, 119, 120, 121, 122, 123, 124, 125, 126, 127] @
    [128, 129, 130, 131, 132, 133, 134, 135, 136, 137, 138, 139, 140, 141, 142, 143,
     144, 145, 146, 147, 148, 149, 150, 151, 152, 153, 154, 155, 156, 157, 158, 159] @
    [160, 161, 162, 163, 164, 165, 166, 167, 168, 169, 170, 171, 172, 173, 174, 175,
     176, 177, 178, 179, 180, 181, 182, 183, 184, 185, 186, 187, 188, 189, 190, 191] @
    [192, 193, 194, 195, 196, 197, 198, 199, 200, 201, 202, 203, 204, 205, 206, 207,
     208, 209, 210, 211, 212, 213, 214, 215, 216, 217, 218, 219, 220, 221, 222, 223] @
    [224, 225, 226, 227, 228, 229, 230, 231, 232, 233, 234, 235, 236, 237, 238, 239,
     240, 241, 242, 243, 244, 245, 246, 247, 248, 249, 250, 251, 252, 253, 254, 255]"

definition entry16 :: "u16 \<Rightarrow> u16" where
  "entry16 i = eight step16 (push_bit 8 i)"

definition entry64 :: "u64 \<Rightarrow> u64" where
  "entry64 i = eight step64 i"

lemma crc16_row0: "map entry16 [0, 1, 2, 3, 4, 5, 6, 7, 8, 9, 10, 11, 12, 13, 14, 15,
     16, 17, 18, 19, 20, 21, 22, 23, 24, 25, 26, 27, 28, 29, 30, 31] =
    [0x0000, 0x1021, 0x2042, 0x3063, 0x4084, 0x50a5, 0x60c6, 0x70e7,
     0x8108, 0x9129, 0xa14a, 0xb16b, 0xc18c, 0xd1ad, 0xe1ce, 0xf1ef,
     0x1231, 0x0210, 0x3273, 0x2252, 0x52b5, 0x4294, 0x72f7, 0x62d6,
     0x9339, 0x8318, 0xb37b, 0xa35a, 0xd3bd, 0xc39c, 0xf3ff, 0xe3de]"
  by code_simp

lemma crc16_row1: "map entry16 [32, 33, 34, 35, 36, 37, 38, 39, 40, 41, 42, 43, 44, 45, 46, 47,
     48, 49, 50, 51, 52, 53, 54, 55, 56, 57, 58, 59, 60, 61, 62, 63] =
    [0x2462, 0x3443, 0x0420, 0x1401, 0x64e6, 0x74c7, 0x44a4, 0x5485,
     0xa56a, 0xb54b, 0x8528, 0x9509, 0xe5ee, 0xf5cf, 0xc5ac, 0xd58d,
     0x3653, 0x2672, 0x1611, 0x0630, 0x76d7, 0x66f6, 0x5695, 0x46b4,
     0xb75b, 0xa77a, 0x9719, 0x8738, 0xf7df, 0xe7fe, 0xd79d, 0xc7bc]"
  by code_simp

lemma crc16_row2: "map entry16 [64, 65, 66, 67, 68, 69, 70, 71, 72, 73, 74, 75, 76, 77, 78, 79,
     80, 81, 82, 83, 84, 85, 86, 87, 88, 89, 90, 91, 92, 93, 94, 95] =
    [0x48c4, 0x58e5, 0x6886, 0x78a7, 0x0840, 0x1861, 0x2802, 0x3823,
     0xc9cc, 0xd9ed, 0xe98e, 0xf9af, 0x8948, 0x9969, 0xa90a, 0xb92b,
     0x5af5, 0x4ad4, 0x7ab7, 0x6a96, 0x1a71, 0x0a50, 0x3a33, 0x2a12,
     0xdbfd, 0xcbdc, 0xfbbf, 0xeb9e, 0x9b79, 0x8b58, 0xbb3b, 0xab1a]"
  by code_simp

lemma crc16_row3: "map entry16 [96, 97, 98, 99, 100, 101, 102, 103, 104, 105, 106, 107, 108, 109, 110, 111,
     112, 113, 114, 115, 116, 117, 118, 119, 120, 121, 122, 123, 124, 125, 126, 127] =
    [0x6ca6, 0x7c87, 0x4ce4, 0x5cc5, 0x2c22, 0x3c03, 0x0c60, 0x1c41,
     0xedae, 0xfd8f, 0xcdec, 0xddcd, 0xad2a, 0xbd0b, 0x8d68, 0x9d49,
     0x7e97, 0x6eb6, 0x5ed5, 0x4ef4, 0x3e13, 0x2e32, 0x1e51, 0x0e70,
     0xff9f, 0xefbe, 0xdfdd, 0xcffc, 0xbf1b, 0xaf3a, 0x9f59, 0x8f78]"
  by code_simp

lemma crc16_row4: "map entry16 [128, 129, 130, 131, 132, 133, 134, 135, 136, 137, 138, 139, 140, 141, 142, 143,
     144, 145, 146, 147, 148, 149, 150, 151, 152, 153, 154, 155, 156, 157, 158, 159] =
    [0x9188, 0x81a9, 0xb1ca, 0xa1eb, 0xd10c, 0xc12d, 0xf14e, 0xe16f,
     0x1080, 0x00a1, 0x30c2, 0x20e3, 0x5004, 0x4025, 0x7046, 0x6067,
     0x83b9, 0x9398, 0xa3fb, 0xb3da, 0xc33d, 0xd31c, 0xe37f, 0xf35e,
     0x02b1, 0x1290, 0x22f3, 0x32d2, 0x4235, 0x5214, 0x6277, 0x7256]"
  by code_simp

lemma crc16_row5: "map entry16 [160, 161, 162, 163, 164, 165, 166, 167, 168, 169, 170, 171, 172, 173, 174, 175,
     176, 177, 178, 179, 180, 181, 182, 183, 184, 185, 186, 187, 188, 189, 190, 191] =
    [0xb5ea, 0xa5cb, 0x95a8, 0x8589, 0xf56e, 0xe54f, 0xd52c, 0xc50d,
     0x34e2, 0x24c3, 0x14a0, 0x0481, 0x7466, 0x6447, 0x5424, 0x4405,
     0xa7db, 0xb7fa, 0x8799, 0x97b8, 0xe75f, 0xf77e, 0xc71d, 0xd73c,
     0x26d3, 0x36f2, 0x0691, 0x16b0, 0x6657, 0x7676, 0x4615, 0x5634]"
  by code_simp

lemma crc16_row6: "map entry16 [192, 193, 194, 195, 196, 197, 198, 199, 200, 201, 202, 203, 204, 205, 206, 207,
     208, 209, 210, 211, 212, 213, 214, 215, 216, 217, 218, 219, 220, 221, 222, 223] =
    [0xd94c, 0xc96d, 0xf90e, 0xe92f, 0x99c8, 0x89e9, 0xb98a, 0xa9ab,
     0x5844, 0x4865, 0x7806, 0x6827, 0x18c0, 0x08e1, 0x3882, 0x28a3,
     0xcb7d, 0xdb5c, 0xeb3f, 0xfb1e, 0x8bf9, 0x9bd8, 0xabbb, 0xbb9a,
     0x4a75, 0x5a54, 0x6a37, 0x7a16, 0x0af1, 0x1ad0, 0x2ab3, 0x3a92]"
  by code_simp

lemma crc16_row7: "map entry16 [224, 225, 226, 227, 228, 229, 230, 231, 232, 233, 234, 235, 236, 237, 238, 239,
     240, 241, 242, 243, 244, 245, 246, 247, 248, 249, 250, 251, 252, 253, 254, 255] =
    [0xfd2e, 0xed0f, 0xdd6c, 0xcd4d, 0xbdaa, 0xad8b, 0x9de8, 0x8dc9,
     0x7c26, 0x6c07, 0x5c64, 0x4c45, 0x3ca2, 0x2c83, 0x1ce0, 0x0cc1,
     0xef1f, 0xff3e, 0xcf5d, 0xdf7c, 0xaf9b, 0xbfba, 0x8fd9, 0x9ff8,
     0x6e17, 0x7e36, 0x4e55, 0x5e74, 0x2e93, 0x3eb2, 0x0ed1, 0x1ef0]"
  by code_simp

lemma crc64_row0: "map entry64 [0, 1, 2, 3, 4, 5, 6, 7, 8, 9, 10, 11, 12, 13, 14, 15,
     16, 17, 18, 19, 20, 21, 22, 23, 24, 25, 26, 27, 28, 29, 30, 31] =
    [0x0000000000000000, 0x7ad870c830358979, 0xf5b0e190606b12f2, 0x8f689158505e9b8b,
     0xc038e5739841b68f, 0xbae095bba8743ff6, 0x358804e3f82aa47d, 0x4f50742bc81f2d04,
     0xab28ecb46814fe75, 0xd1f09c7c5821770c, 0x5e980d24087fec87, 0x24407dec384a65fe,
     0x6b1009c7f05548fa, 0x11c8790fc060c183, 0x9ea0e857903e5a08, 0xe478989fa00bd371,
     0x7d08ff3b88be6f81, 0x07d08ff3b88be6f8, 0x88b81eabe8d57d73, 0xf2606e63d8e0f40a,
     0xbd301a4810ffd90e, 0xc7e86a8020ca5077, 0x4880fbd87094cbfc, 0x32588b1040a14285,
     0xd620138fe0aa91f4, 0xacf86347d09f188d, 0x2390f21f80c18306, 0x594882d7b0f40a7f,
     0x1618f6fc78eb277b, 0x6cc0863448deae02, 0xe3a8176c18803589, 0x997067a428b5bcf0]"
  by code_simp

lemma crc64_row1: "map entry64 [32, 33, 34, 35, 36, 37, 38, 39, 40, 41, 42, 43, 44, 45, 46, 47,
     48, 49, 50, 51, 52, 53, 54, 55, 56, 57, 58, 59, 60, 61, 62, 63] =
    [0xfa11fe77117cdf02, 0x80c98ebf2149567b, 0x0fa11fe77117cdf0, 0x75796f2f41224489,
     0x3a291b04893d698d, 0x40f16bccb908e0f4, 0xcf99fa94e9567b7f, 0xb5418a5cd963f206,
     0x513912c379682177, 0x2be1620b495da80e, 0xa489f35319033385, 0xde51839b2936bafc,
     0x9101f7b0e12997f8, 0xebd98778d11c1e81, 0x64b116208142850a, 0x1e6966e8b1770c73,
     0x8719014c99c2b083, 0xfdc17184a9f739fa, 0x72a9e0dcf9a9a271, 0x08719014c99c2b08,
     0x4721e43f0183060c, 0x3df994f731b68f75, 0xb29105af61e814fe, 0xc849756751dd9d87,
     0x2c31edf8f1d64ef6, 0x56e99d30c1e3c78f, 0xd9810c6891bd5c04, 0xa3597ca0a188d57d,
     0xec09088b6997f879, 0x96d1784359a27100, 0x19b9e91b09fcea8b, 0x636199d339c963f2]"
  by code_simp

lemma crc64_row2: "map entry64 [64, 65, 66, 67, 68, 69, 70, 71, 72, 73, 74, 75, 76, 77, 78, 79,
     80, 81, 82, 83, 84, 85, 86, 87, 88, 89, 90, 91, 92, 93, 94, 95] =
    [0xdf7adabd7a6e2d6f, 0xa5a2aa754a5ba416, 0x2aca3b2d1a053f9d, 0x50124be52a30b6e4,
     0x1f423fcee22f9be0, 0x659a4f06d21a1299, 0xeaf2de5e82448912, 0x902aae96b271006b,
     0x74523609127ad31a, 0x0e8a46c1224f5a63, 0x81e2d7997211c1e8, 0xfb3aa75142244891,
     0xb46ad37a8a3b6595, 0xceb2a3b2ba0eecec, 0x41da32eaea507767, 0x3b024222da65fe1e,
     0xa2722586f2d042ee, 0xd8aa554ec2e5cb97, 0x57c2c41692bb501c, 0x2d1ab4dea28ed965,
     0x624ac0f56a91f461, 0x1892b03d5aa47d18, 0x97fa21650afae693, 0xed2251ad3acf6fea,
     0x095ac9329ac4bc9b, 0x7382b9faaaf135e2, 0xfcea28a2faafae69, 0x8632586aca9a2710,
     0xc9622c4102850a14, 0xb3ba5c8932b0836d, 0x3cd2cdd162ee18e6, 0x460abd1952db919f]"
  by code_simp

lemma crc64_row3: "map entry64 [96, 97, 98, 99, 100, 101, 102, 103, 104, 105, 106, 107, 108, 109, 110, 111,
     112, 113, 114, 115, 116, 117, 118, 119, 120, 121, 122, 123, 124, 125, 126, 127] =
    [0x256b24ca6b12f26d, 0x5fb354025b277b14, 0xd0dbc55a0b79e09f, 0xaa03b5923b4c69e6,
     0xe553c1b9f35344e2, 0x9f8bb171c366cd9b, 0x10e3202993385610, 0x6a3b50e1a30ddf69,
     0x8e43c87e03060c18, 0xf49bb8b633338561, 0x7bf329ee636d1eea, 0x012b592653589793,
     0x4e7b2d0d9b47ba97, 0x34a35dc5ab7233ee, 0xbbcbcc9dfb2ca865, 0xc113bc55cb19211c,
     0x5863dbf1e3ac9dec, 0x22bbab39d3991495, 0xadd33a6183c78f1e, 0xd70b4aa9b3f20667,
     0x985b3e827bed2b63, 0xe2834e4a4bd8a21a, 0x6debdf121b863991, 0x1733afda2bb3b0e8,
     0xf34b37458bb86399, 0x8993478dbb8deae0, 0x06fbd6d5ebd3716b, 0x7c23a61ddbe6f812,
     0x3373d23613f9d516, 0x49aba2fe23cc5c6f, 0xc6c333a67392c7e4, 0xbc1b436e43a74e9d]"
  by code_simp

lemma crc64_row4: "map entry64 [128, 129, 130, 131, 132, 133, 134, 135, 136, 137, 138, 139, 140, 141, 142, 143,
     144, 145, 146, 147, 148, 149, 150, 151, 152, 153, 154, 155, 156, 157, 158, 159] =
    [0x95ac9329ac4bc9b5, 0xef74e3e19c7e40cc, 0x601c72b9cc20db47, 0x1ac40271fc15523e,
     0x5594765a340a7f3a, 0x2f4c0692043ff643, 0xa02497ca54616dc8, 0xdafce7026454e4b1,
     0x3e847f9dc45f37c0, 0x445c0f55f46abeb9, 0xcb349e0da4342532, 0xb1eceec59401ac4b,
     0xfebc9aee5c1e814f, 0x8464ea266c2b0836, 0x0b0c7b7e3c7593bd, 0x71d40bb60c401ac4,
     0xe8a46c1224f5a634, 0x927c1cda14c02f4d, 0x1d148d82449eb4c6, 0x67ccfd4a74ab3dbf,
     0x289c8961bcb410bb, 0x5244f9a98c8199c2, 0xdd2c68f1dcdf0249, 0xa7f41839ecea8b30,
     0x438c80a64ce15841, 0x3954f06e7cd4d138, 0xb63c61362c8a4ab3, 0xcce411fe1cbfc3ca,
     0x83b465d5d4a0eece, 0xf96c151de49567b7, 0x76048445b4cbfc3c, 0x0cdcf48d84fe7545]"
  by code_simp

lemma crc64_row5: "map entry64 [160, 161, 162, 163, 164, 165, 166, 167, 168, 169, 170, 171, 172, 173, 174, 175,
     176, 177, 178, 179, 180, 181, 182, 183, 184, 185, 186, 187, 188, 189, 190, 191] =
    [0x6fbd6d5ebd3716b7, 0x15651d968d029fce, 0x9a0d8ccedd5c0445, 0xe0d5fc06ed698d3c,
     0xaf85882d2576a038, 0xd55df8e515432941, 0x5a3569bd451db2ca, 0x20ed197575283bb3,
     0xc49581ead523e8c2, 0xbe4df122e51661bb, 0x3125607ab548fa30, 0x4bfd10b2857d7349,
     0x04ad64994d625e4d, 0x7e7514517d57d734, 0xf11d85092d094cbf, 0x8bc5f5c11d3cc5c6,
     0x12b5926535897936, 0x686de2ad05bcf04f, 0xe70573f555e26bc4, 0x9ddd033d65d7e2bd,
     0xd28d7716adc8cfb9, 0xa85507de9dfd46c0, 0x273d9686cda3dd4b, 0x5de5e64efd965432,
     0xb99d7ed15d9d8743, 0xc3450e196da80e3a, 0x4c2d9f413df695b1, 0x36f5ef890dc31cc8,
     0x79a59ba2c5dc31cc, 0x037deb6af5e9b8b5, 0x8c157a32a5b7233e, 0xf6cd0afa9582aa47]"
  by code_simp

lemma crc64_row6: "map entry64 [192, 193, 194, 195, 196, 197, 198, 199, 200, 201, 202, 203, 204, 205, 206, 207,
     208, 209, 210, 211, 212, 213, 214, 215, 216, 217, 218, 219, 220, 221, 222, 223] =
    [0x4ad64994d625e4da, 0x300e395ce6106da3, 0xbf66a804b64ef628, 0xc5bed8cc867b7f51,
     0x8aeeace74e645255, 0xf036dc2f7e51db2c, 0x7f5e4d772e0f40a7, 0x05863dbf1e3ac9de,
     0xe1fea520be311aaf, 0x9b26d5e88e0493d6, 0x144e44b0de5a085d, 0x6e963478ee6f8124,
     0x21c640532670ac20, 0x5b1e309b16452559, 0xd476a1c3461bbed2, 0xaeaed10b762e37ab,
     0x37deb6af5e9b8b5b, 0x4d06c6676eae0222, 0xc26e573f3ef099a9, 0xb8b627f70ec510d0,
     0xf7e653dcc6da3dd4, 0x8d3e2314f6efb4ad, 0x0256b24ca6b12f26, 0x788ec2849684a65f,
     0x9cf65a1b368f752e, 0xe62e2ad306bafc57, 0x6946bb8b56e467dc, 0x139ecb4366d1eea5,
     0x5ccebf68aecec3a1, 0x2616cfa09efb4ad8, 0xa97e5ef8cea5d153, 0xd3a62e30fe90582a]"
  by code_simp

lemma crc64_row7: "map entry64 [224, 225, 226, 227, 228, 229, 230, 231, 232, 233, 234, 235, 236, 237, 238, 239,
     240, 241, 242, 243, 244, 245, 246, 247, 248, 249, 250, 251, 252, 253, 254, 255] =
    [0xb0c7b7e3c7593bd8, 0xca1fc72bf76cb2a1, 0x45775673a732292a, 0x3faf26bb9707a053,
     0x70ff52905f188d57, 0x0a2722586f2d042e, 0x854fb3003f739fa5, 0xff97c3c80f4616dc,
     0x1bef5b57af4dc5ad, 0x61372b9f9f784cd4, 0xee5fbac7cf26d75f, 0x9487ca0fff135e26,
     0xdbd7be24370c7322, 0xa10fceec0739fa5b, 0x2e675fb4576761d0, 0x54bf2f7c6752e8a9,
     0xcdcf48d84fe75459, 0xb71738107fd2dd20, 0x387fa9482f8c46ab, 0x42a7d9801fb9cfd2,
     0x0df7adabd7a6e2d6, 0x772fdd63e7936baf, 0xf8474c3bb7cdf024, 0x829f3cf387f8795d,
     0x66e7a46c27f3aa2c, 0x1c3fd4a417c62355, 0x935745fc4798b8de, 0xe98f353477ad31a7,
     0xa6df411fbfb21ca3, 0xdc0731d78f8795da, 0x536fa08fdfd90e51, 0x29b7d047efec8728]"
  by code_simp

lemma crc16tab_entries: "crc16tab = map entry16 bytes_in_order"
  unfolding crc16tab_def bytes_in_order_def map_append
  by (simp only: crc16_row0 crc16_row1 crc16_row2 crc16_row3 crc16_row4 crc16_row5 crc16_row6 crc16_row7)

lemma crc64_tab_entries: "crc64_tab = map entry64 bytes_in_order"
  unfolding crc64_tab_def bytes_in_order_def map_append
  by (simp only: crc64_row0 crc64_row1 crc64_row2 crc64_row3 crc64_row4 crc64_row5 crc64_row6 crc64_row7)

lemma bytes_in_order: "bytes_in_order = map of_nat [0..<256]"
  unfolding bytes_in_order_def by (simp add: upt_rec)

lemma crc16tab_nth: "i < 256 \<Longrightarrow> crc16tab ! i = entry16 (of_nat i)"
  by (simp add: crc16tab_entries bytes_in_order)

lemma crc64_tab_nth: "i < 256 \<Longrightarrow> crc64_tab ! i = entry64 (of_nat i)"
  by (simp add: crc64_tab_entries bytes_in_order)


section \<open>The table driven step is eight serial steps\<close>

lemma step16_xor: "step16 (x XOR y) = step16 x XOR step16 y"
  by (auto simp: step16_def bit_xor_iff push_bit_xor xor.assoc xor.commute xor.left_commute)

lemma step64_xor: "step64 (x XOR y) = step64 x XOR step64 y"
  by (auto simp: step64_def bit_xor_iff drop_bit_xor xor.assoc xor.commute xor.left_commute)

lemma eight16_xor: "eight step16 (x XOR y) = eight step16 x XOR eight step16 y"
  by (simp add: eight_def step16_xor)

lemma eight64_xor: "eight step64 (x XOR y) = eight step64 x XOR eight step64 y"
  by (simp add: eight_def step64_xor)

lemma eight_funpow: "eight f x = (f ^^ 8) x"
  by (simp add: eight_def numeral_eq_Suc)

lemma eight16_low:
  assumes "\<And>n. 8 \<le> n \<Longrightarrow> \<not> bit x n"
  shows "eight step16 x = push_bit 8 x"
proof -
  have "k \<le> 8 \<Longrightarrow> (step16 ^^ k) x = push_bit k x" for k
  proof (induction k)
    case (Suc k)
    have "\<not> bit (push_bit k x) 15" using assms [of "15 - k"] Suc.prems by (simp add: bit_push_bit_iff)
    then have "step16 (push_bit k x) = push_bit 1 (push_bit k x)" unfolding step16_def by (simp only: if_False)
    also have "\<dots> = push_bit (Suc k) x" by (simp only: push_bit_push_bit) simp
    finally show ?case using Suc by simp
  qed simp
  then show ?thesis by (simp add: eight_funpow)
qed

lemma eight64_high:
  assumes "\<And>n. n < 8 \<Longrightarrow> \<not> bit x n"
  shows "eight step64 x = drop_bit 8 x"
proof -
  have "k \<le> 8 \<Longrightarrow> (step64 ^^ k) x = drop_bit k x" for k
  proof (induction k)
    case (Suc k)
    have "\<not> bit (drop_bit k x) 0" using assms [of k] Suc.prems by (simp add: bit_drop_bit_eq)
    then have "step64 (drop_bit k x) = drop_bit 1 (drop_bit k x)" unfolding step64_def by (simp only: if_False)
    also have "\<dots> = drop_bit (Suc k) x" by (simp only: drop_bit_drop_bit) simp
    finally show ?case using Suc by simp
  qed simp
  then show ?thesis by (simp add: eight_funpow)
qed

lemma crc16_index:
  "((ucast (drop_bit 8 crc) :: u32) XOR scast (c :: byte)) AND 0x00FF = ucast ((ucast (drop_bit 8 crc) :: byte) XOR c)"
  for crc :: u16
proof (rule bit_word_eqI)
  fix n assume "n < LENGTH(32)"
  have m: "(0x00FF :: u32) = mask 8" by (simp add: mask_eq_exp_minus_1)
  show "bit (((ucast (drop_bit 8 crc) :: u32) XOR scast c) AND 0x00FF) n = bit (ucast ((ucast (drop_bit 8 crc) :: byte) XOR c) :: u32) n"
  proof (cases "n = 7")
    case False
    moreover have "bit c n \<Longrightarrow> n < 8" using bit_imp_le_length [of c n] by simp
    ultimately show ?thesis unfolding m
      by (auto simp: bit_and_iff bit_xor_iff bit_ucast_iff bit_signed_iff bit_mask_iff bit_drop_bit_eq min_def)
  qed (simp add: m bit_and_iff bit_xor_iff bit_ucast_iff bit_signed_iff bit_mask_iff bit_drop_bit_eq)
qed

lemma crc16_next_serial: "crc16_next crc b = crc16_serial crc b"
proof -
  let ?i = "(ucast (drop_bit 8 crc) :: byte) XOR b"
  have b: "unat ?i < 256" by (rule unat_byte_less)
  have u: "unat (ucast ?i :: u32) = unat ?i" 
  proof -
    have "unat ?i < 2 ^ LENGTH(32)" by (rule order.strict_trans [OF b]) simp
    then show ?thesis unfolding unsigned_ucast_eq by (rule take_bit_nat_eq_self)
  qed
  have i: "unat (ucast ?i :: u32) < 256" using b u by simp
  have "crc XOR push_bit 8 (ucast b) = push_bit 8 (ucast ?i) XOR (crc AND mask 8)"
    by (rule bit_word_eqI)
      (auto simp: bit_xor_iff bit_push_bit_iff bit_ucast_iff bit_and_iff bit_mask_iff bit_drop_bit_eq dest: bit_imp_le_length)
  then have "crc16_serial crc b = eight step16 (push_bit 8 (ucast ?i)) XOR push_bit 8 (crc AND mask 8)"
    by (simp add: crc16_serial_def eight16_xor eight16_low bit_and_iff bit_mask_iff)
  also have "push_bit 8 (crc AND mask 8) = push_bit 8 crc"
    by (rule bit_word_eqI) (auto simp: bit_push_bit_iff bit_and_iff bit_mask_iff)
  also have "eight step16 (push_bit 8 (ucast ?i)) = crc16tab ! unat (ucast ?i :: u32)"
    unfolding u crc16tab_nth [OF b] entry16_def by simp
  finally show ?thesis unfolding crc16_next_def crc16_index by (simp add: xor.commute)
qed

lemma crc64_next_serial: "crc64_next crc b = crc64_serial crc b"
proof -
  let ?i = "(ucast crc :: byte) XOR b"
  have i: "unat ?i < 256" by (rule unat_byte_less)
  have "crc XOR ucast b = ucast ?i XOR push_bit 8 (drop_bit 8 crc)"
    by (rule bit_word_eqI)
      (auto simp: bit_xor_iff bit_push_bit_iff bit_ucast_iff bit_drop_bit_eq dest: bit_imp_le_length)
  then have "crc64_serial crc b = eight step64 (ucast ?i) XOR drop_bit 8 (push_bit 8 (drop_bit 8 crc))"
    by (simp add: crc64_serial_def eight64_xor eight64_high bit_push_bit_iff)
  also have "drop_bit 8 (push_bit 8 (drop_bit 8 crc)) = drop_bit 8 crc"
    by (rule bit_word_eqI) (auto simp: bit_push_bit_iff bit_drop_bit_eq dest: bit_imp_le_length)
  also have "eight step64 (ucast ?i) = crc64_tab ! unat ?i"
    unfolding crc64_tab_nth [OF i] entry64_def by simp
  finally show ?thesis by (simp add: crc64_next_def)
qed


section \<open>The slot of a key\<close>

text \<open>\<open>for (i = from; i < keylen; i++) if (key[i] == c) break;\<close>\<close>

function scan_for :: "byte \<Rightarrow> bytes \<Rightarrow> nat \<Rightarrow> nat" where
  "scan_for c key i = (if i < length key then (if key ! i = c then i else scan_for c key (i + 1)) else i)"
  by pat_completeness auto
termination by (relation "measure (\<lambda>(c, key, i). length key - i)") auto

declare scan_for.simps [simp del]

definition keyHashSlot :: "bytes \<Rightarrow> nat" where
  "keyHashSlot key =
     (let s = scan_for 0x7b key 0
      in if s = length key then unat (crc16 key AND 0x3FFF)
         else
           let e = scan_for 0x7d key (s + 1)
           in if e = length key \<or> e = s + 1 then unat (crc16 key AND 0x3FFF)
              else unat (crc16 (take (e - s - 1) (drop (s + 1) key)) AND 0x3FFF))"

text \<open>The part of the key that is hashed: what stands between the first brace and the next closing one.\<close>

definition hash_tag :: "bytes \<Rightarrow> bytes" where
  "hash_tag key =
     (let rest = drop 1 (dropWhile (\<lambda>b. b \<noteq> 0x7b) key); tag = takeWhile (\<lambda>b. b \<noteq> 0x7d) rest
      in if 0x7b \<in> set key \<and> 0x7d \<in> set rest \<and> tag \<noteq> [] then tag else key)"

lemma scan_for_correct:
  "i \<le> length key \<Longrightarrow> scan_for c key i = i + length (takeWhile (\<lambda>b. b \<noteq> c) (drop i key))"
proof (induction c key i rule: scan_for.induct)
  case (1 c key i)
  show ?case
  proof (cases "i < length key \<and> key ! i \<noteq> c")
    case True
    then show ?thesis using 1 by (subst scan_for.simps) (simp add: Cons_nth_drop_Suc [symmetric])
  next
    case False
    then show ?thesis using 1(2)
      by (subst scan_for.simps) (auto simp: Cons_nth_drop_Suc [symmetric])
  qed
qed

lemma takeWhile_full: "length (takeWhile (\<lambda>b. b \<noteq> c) xs) = length xs \<longleftrightarrow> c \<notin> set xs"
  by (induction xs) auto

lemma keyHashSlot_tag: "keyHashSlot key = unat (crc16 (hash_tag key) AND 0x3FFF)"
proof -
  let ?s = "scan_for 0x7b key 0" and ?rest = "drop 1 (dropWhile (\<lambda>b. b \<noteq> 0x7b) key)"
  let ?tag = "takeWhile (\<lambda>b. b \<noteq> 0x7d) ?rest"
  have s: "?s = length (takeWhile (\<lambda>b. b \<noteq> 0x7b) key)" by (simp add: scan_for_correct)
  show ?thesis
  proof (cases "0x7b \<in> set key")
    case False
    then show ?thesis using s takeWhile_full [of "0x7b" key] by (simp add: keyHashSlot_def hash_tag_def)
  next
    case True
    then have lt: "?s < length key"
      using s takeWhile_full [of "0x7b" key] length_takeWhile_le [of "\<lambda>b. b \<noteq> 0x7b" key] by simp
    have rest: "drop (?s + 1) key = ?rest" unfolding s dropWhile_eq_drop by (simp add: add.commute)
    have e: "scan_for 0x7d key (?s + 1) = ?s + 1 + length ?tag"
      using scan_for_correct [of "?s + 1" key "0x7d"] lt unfolding rest by simp
    have len: "length key = ?s + 1 + length ?rest" using lt arg_cong [OF rest, of length] by simp
    have none: "length ?tag = length ?rest \<longleftrightarrow> 0x7d \<notin> set ?rest" by (rule takeWhile_full)
    have "take (length ?tag) ?rest = ?tag" by (simp add: takeWhile_eq_take [symmetric])
    then show ?thesis
      using True lt none len unfolding keyHashSlot_def hash_tag_def Let_def e rest by auto
  qed
qed


section \<open>Byte order\<close>

definition swap_at :: "nat \<Rightarrow> nat \<Rightarrow> bytes \<Rightarrow> bytes" where
  "swap_at i j x = (let t = x ! i; x1 = x[i := x ! j] in x1[j := t])"

definition memrev16 :: "bytes \<Rightarrow> bytes option" where
  "memrev16 x = (if length x < 2 then None else Some (swap_at 0 1 x))"

definition memrev32 :: "bytes \<Rightarrow> bytes option" where
  "memrev32 x = (if length x < 4 then None else Some (swap_at 1 2 (swap_at 0 3 x)))"

definition memrev64 :: "bytes \<Rightarrow> bytes option" where
  "memrev64 x = (if length x < 8 then None else Some (swap_at 3 4 (swap_at 2 5 (swap_at 1 6 (swap_at 0 7 x)))))"

definition intrev16 :: "u16 \<Rightarrow> u16" where
  "intrev16 v = of_nat (le_nat (the (memrev16 (le_bytes 2 (unat v)))))"

definition intrev32 :: "u32 \<Rightarrow> u32" where
  "intrev32 v = of_nat (le_nat (the (memrev32 (le_bytes 4 (unat v)))))"

definition intrev64 :: "u64 \<Rightarrow> u64" where
  "intrev64 v = of_nat (le_nat (the (memrev64 (le_bytes 8 (unat v)))))"

lemma list_len_cases:
  "length x = 2 \<Longrightarrow> \<exists>a b. x = [a, b]"
  "length y = 4 \<Longrightarrow> \<exists>a b c d. y = [a, b, c, d]"
  "length z = 8 \<Longrightarrow> \<exists>a b c d e f g h. z = [a, b, c, d, e, f, g, h]"
  by (auto simp: length_Suc_conv numeral_eq_Suc)

lemma memrev16_rev: "length x = 2 \<Longrightarrow> memrev16 (x @ r) = Some (rev x @ r)"
  by (drule list_len_cases(1)) (auto simp: memrev16_def swap_at_def Let_def)

lemma memrev32_rev: "length x = 4 \<Longrightarrow> memrev32 (x @ r) = Some (rev x @ r)"
  by (drule list_len_cases(2)) (auto simp: memrev32_def swap_at_def Let_def numeral_eq_Suc)

lemma memrev64_rev: "length x = 8 \<Longrightarrow> memrev64 (x @ r) = Some (rev x @ r)"
  by (drule list_len_cases(3)) (auto simp: memrev64_def swap_at_def Let_def numeral_eq_Suc)

lemmas memrev_rev = memrev16_rev memrev32_rev memrev64_rev

lemma memrev_simps: "memrev16 (le_bytes 2 v) = Some (be_bytes 2 v)" "memrev32 (le_bytes 4 v) = Some (be_bytes 4 v)"
    "memrev64 (le_bytes 8 v) = Some (be_bytes 8 v)"
  using memrev16_rev [of "le_bytes 2 v" "[]"] memrev32_rev [of "le_bytes 4 v" "[]"] memrev64_rev [of "le_bytes 8 v" "[]"]
  by (simp_all add: be_bytes_def)

lemma be_twice: "v < 256 ^ n \<Longrightarrow> le_nat (be_bytes n (le_nat (be_bytes n v))) = v"
  using le_bytes_le_nat [of "rev (le_bytes n v)"] by (simp add: be_bytes_def)

lemma pow256_width: "n * 8 = LENGTH('a) \<Longrightarrow> (256 :: nat) ^ n = 2 ^ LENGTH('a::len)"
proof -
  assume "n * 8 = LENGTH('a)"
  then have "(2 :: nat) ^ LENGTH('a) = 2 ^ (8 * n)" by (simp add: mult.commute)
  also have "\<dots> = 256 ^ n" by (simp add: power_mult)
  finally show ?thesis ..
qed

lemma unat_le_nat: "length bs * 8 = LENGTH('a) \<Longrightarrow> unat (of_nat (le_nat bs) :: 'a::len word) = le_nat bs"
  using le_nat_less [of bs] by (simp add: unat_of_nat take_bit_eq_mod pow256_width)

lemma unat_less_256: "n * 8 = LENGTH('a) \<Longrightarrow> unat (v :: 'a::len word) < 256 ^ n"
  unfolding pow256_width by (rule unsigned_less)


section \<open>Properties\<close>

text \<open>
  The table driven CRC-16 of \<^verbatim>\<open>crc16.c\<close> is the bit-serial division by the polynomial of the
  XMODEM checksum: every table entry is right, and the update by one byte through the table, with the
  sign extension of \<open>char\<close>, is eight serial steps.
\<close>

theorem crc16_is_xmodem: "crc16 buf = foldl crc16_serial 0 buf"
  by (simp add: crc16_def crc16_next_serial fun_eq_iff [symmetric] cong: foldl_cong)

text \<open>
  C33.  The table driven CRC-64 of \<^verbatim>\<open>crc64.c\<close> is the bit-serial division by the reflected Jones
  polynomial; it can be computed piecewise, as \<^verbatim>\<open>rio.c\<close> does on every write and read.
\<close>

theorem crc64_is_jones:
  "crc64 crc (s @ t) = foldl crc64_serial (foldl crc64_serial crc s) t \<and> crc64 crc (s @ t) = crc64 (crc64 crc s) t"
proof -
  have "crc64_next = crc64_serial" by (intro ext crc64_next_serial)
  then show ?thesis by (simp add: crc64_def)
qed

text \<open>
  The slot of a key depends on its hash tag only: the bytes between the first opening brace and
  the next closing brace when both are there with something between them, and the whole key
  otherwise; it is less than 16384.
\<close>

theorem keyHashSlot_hash_tag: "keyHashSlot key = unat (crc16 (hash_tag key)) mod 16384 \<and> keyHashSlot key < 16384"
proof -
  have "(0x3FFF :: u16) = mask 14" by (simp add: mask_eq_exp_minus_1)
  then have "unat (crc16 (hash_tag key) AND 0x3FFF) = unat (crc16 (hash_tag key)) mod 2 ^ 14"
    by (simp only: take_bit_eq_mask [symmetric] unsigned_take_bit_eq) (simp add: take_bit_eq_mod)
  then show ?thesis by (simp add: keyHashSlot_tag)
qed

text \<open>
  The byte order conversions: on 2, 4 and 8 bytes the \<open>memrev\<close> functions turn the little endian
  representation of a number into the big endian one, leave the bytes after it alone, and undo
  themselves; the \<open>intrev\<close> functions are involutions.
\<close>

theorem endian_conversions:
  "memrev16 (le_bytes 2 n @ r) = Some (be_bytes 2 n @ r) \<and> memrev32 (le_bytes 4 n @ r) = Some (be_bytes 4 n @ r)
   \<and> memrev64 (le_bytes 8 n @ r) = Some (be_bytes 8 n @ r)
   \<and> intrev16 (intrev16 a) = a \<and> intrev32 (intrev32 b) = b \<and> intrev64 (intrev64 c) = c"
proof -
  have "intrev16 (intrev16 a) = a"
    using unat_less_256 [of 2 a] by (simp add: intrev16_def memrev_simps unat_le_nat be_twice)
  moreover have "intrev32 (intrev32 b) = b"
    using unat_less_256 [of 4 b] by (simp add: intrev32_def memrev_simps unat_le_nat be_twice)
  moreover have "intrev64 (intrev64 c) = c"
    using unat_less_256 [of 8 c] by (simp add: intrev64_def memrev_simps unat_le_nat be_twice)
  ultimately show ?thesis by (simp add: memrev_rev be_bytes_def)
qed

end
