(* ===== verification/Rio.thy ===== *)
theory Rio
  imports Checksum Util
begin

text \<open>
  \<^verbatim>\<open>rio.c\<close>, \<^verbatim>\<open>rio.h\<close>: streams.  A stream is a record with the two methods of its target, the running
  checksum, the number of bytes processed and the largest chunk a method is called with; \<open>'io\<close> is the
  state of the target.  Two targets are modelled: the memory buffer, and the set of sockets used for
  diskless replication.  An sds is its bytes (theory \<open>Sds\<close>).  The file target is \<open>fread\<close> and \<open>fwrite\<close>.

  The sockets are modelled with what their peers have received and with an arbitrary schedule that says,
  call by call, how many bytes \<open>write\<close> takes and which error it reports.
\<close>

section \<open>Streams\<close>

record 'io rio =
  rio_read :: "nat \<Rightarrow> 'io \<Rightarrow> 'io \<times> bytes option"
  rio_write :: "bytes \<Rightarrow> 'io \<Rightarrow> 'io \<times> bool"
  rio_update_cksum :: bool
  rio_cksum :: u64
  rio_processed :: u64
  rio_chunk :: nat
  rio_io :: 'io

definition rioGenericUpdateChecksum :: "bytes \<Rightarrow> 'io rio \<Rightarrow> 'io rio" where
  "rioGenericUpdateChecksum buf r = r\<lparr>rio_cksum := crc64 (rio_cksum r) buf\<rparr>"

definition update_cksum :: "bytes \<Rightarrow> 'io rio \<Rightarrow> 'io rio" where
  "update_cksum buf r = (if rio_update_cksum r then rioGenericUpdateChecksum buf r else r)"

definition chunk_size :: "'io rio \<Rightarrow> nat \<Rightarrow> nat" where
  "chunk_size r len = (if rio_chunk r \<noteq> 0 \<and> rio_chunk r < len then rio_chunk r else len)"

lemma chunk_size_pos [simp]: "0 < len \<Longrightarrow> 0 < chunk_size r len"
  by (simp add: chunk_size_def)

lemma chunk_size_le [simp]: "chunk_size r len \<le> len"
  by (simp add: chunk_size_def)

function rioWrite :: "'io rio \<Rightarrow> bytes \<Rightarrow> 'io rio \<times> bool" where
  "rioWrite r buf =
     (if buf = [] then (r, True)
      else
        let n = chunk_size r (length buf);
            r1 = update_cksum (take n buf) r;
            (io', ok) = rio_write r1 (take n buf) (rio_io r1);
            r2 = r1\<lparr>rio_io := io'\<rparr>
        in if \<not> ok then (r2, False)
           else rioWrite (r2\<lparr>rio_processed := rio_processed r2 + of_nat n\<rparr>) (drop n buf))"
  by pat_completeness auto
termination by (relation "measure (\<lambda>(r, buf). length buf)") auto

function rioRead :: "'io rio \<Rightarrow> nat \<Rightarrow> 'io rio \<times> bytes option" where
  "rioRead r len =
     (if len = 0 then (r, Some [])
      else
        let n = chunk_size r len; (io', got) = rio_read r n (rio_io r); r1 = r\<lparr>rio_io := io'\<rparr>
        in case got of None \<Rightarrow> (r1, None)
           | Some b \<Rightarrow>
             let r2 = update_cksum b r1;
                 (r3, rest) = rioRead (r2\<lparr>rio_processed := rio_processed r2 + of_nat n\<rparr>) (len - n)
             in (r3, map_option (\<lambda>bs. b @ bs) rest))"
  by pat_completeness auto
termination by (relation "measure (\<lambda>(r, len). len)") auto

declare rioWrite.simps [simp del] rioRead.simps [simp del]

section \<open>The buffer target\<close>

record buffer_io =
  buf_ptr :: bytes
  buf_pos :: nat

definition rioBufferWrite :: "bytes \<Rightarrow> buffer_io \<Rightarrow> buffer_io \<times> bool" where
  "rioBufferWrite buf b = (b\<lparr>buf_ptr := buf_ptr b @ buf, buf_pos := buf_pos b + length buf\<rparr>, True)"

text \<open>The difference of \<open>sdslen\<close> and the position is computed in \<open>size_t\<close>.\<close>

definition rioBufferRead :: "nat \<Rightarrow> buffer_io \<Rightarrow> buffer_io \<times> bytes option" where
  "rioBufferRead len b =
     (if to_unsigned 64 (int (length (buf_ptr b)) - int (buf_pos b)) < int len then (b, None)
      else (b\<lparr>buf_pos := buf_pos b + len\<rparr>, Some (take len (drop (buf_pos b) (buf_ptr b)))))"

definition rioBufferTell :: "buffer_io \<Rightarrow> nat" where
  "rioBufferTell b = buf_pos b"

definition rioInitWithBuffer :: "bytes \<Rightarrow> buffer_io rio" where
  "rioInitWithBuffer s = \<lparr>rio_read = rioBufferRead, rio_write = rioBufferWrite, rio_update_cksum = False,
     rio_cksum = 0, rio_processed = 0, rio_chunk = 0, rio_io = \<lparr>buf_ptr = s, buf_pos = 0\<rparr>\<rparr>"

section \<open>The socket set target\<close>

record fdset_io =
  fs_state :: "int list"
  fs_pos :: nat
  fs_buf :: bytes
  fs_recv :: "bytes list"
  fs_sched :: "nat \<Rightarrow> int \<times> int"
  fs_calls :: nat

definition PROTO_IOBUF_LEN :: nat where "PROTO_IOBUF_LEN = 16 * 1024"
definition EWOULDBLOCK :: int where "EWOULDBLOCK = 11"
definition ETIMEDOUT :: int where "ETIMEDOUT = 110"
definition EIO :: int where "EIO = 5"

text \<open>\<open>write(fds[j], p, |p|)\<close>: the next entry of the schedule is the error number and the number of bytes
  the system is ready to take; it takes at most the bytes it is given.\<close>

definition sys_write :: "nat \<Rightarrow> bytes \<Rightarrow> fdset_io \<Rightarrow> fdset_io \<times> int \<times> int" where
  "sys_write j p s =
     (let (ready, err) = fs_sched s (fs_calls s); s1 = s\<lparr>fs_calls := fs_calls s + 1\<rparr>
      in if ready \<le> 0 then (s1, ready, err)
         else let n = min (nat ready) (length p)
              in (s1\<lparr>fs_recv := (fs_recv s1)[j := fs_recv s1 ! j @ take n p]\<rparr>, int n, err))"

text \<open>The loop that writes one chunk to one socket; the result is \<open>errno\<close> when it gave up.\<close>

function write_fully :: "nat \<Rightarrow> bytes \<Rightarrow> fdset_io \<Rightarrow> fdset_io \<times> int option" where
  "write_fully j p s =
     (if p = [] then (s, None)
      else
        let (s1, retval, err) = sys_write j p s
        in if retval \<le> 0 then (s1, Some (if retval = -1 \<and> err = EWOULDBLOCK then ETIMEDOUT else err))
           else write_fully j (drop (nat retval) p) s1)"
  by pat_completeness auto
termination
  by (relation "measure (\<lambda>(j, p, s). length p)") (auto simp: sys_write_def Let_def split: prod.splits if_splits)

declare write_fully.simps [simp del]

fun write_each :: "nat list \<Rightarrow> bytes \<Rightarrow> fdset_io \<Rightarrow> fdset_io \<times> nat" where
  "write_each [] p s = (s, 0)"
| "write_each (j # js) p s =
     (if fs_state s ! j \<noteq> 0 then let (s1, broken) = write_each js p s in (s1, broken + 1)
      else
        let (s1, e) = write_fully j p s;
            s2 = (case e of None \<Rightarrow> s1 | Some err \<Rightarrow> s1\<lparr>fs_state := (fs_state s1)[j := if err = 0 then EIO else err]\<rparr>)
        in write_each js p s2)"

function fdset_flush_loop :: "bytes \<Rightarrow> fdset_io \<Rightarrow> fdset_io \<times> bool" where
  "fdset_flush_loop p s =
     (if p = [] then (s, True)
      else
        let count = (if length p < 1024 then length p else 1024);
            (s1, broken) = write_each [0..<length (fs_state s)] (take count p) s
        in if broken = length (fs_state s) then (s1, False)
           else fdset_flush_loop (drop count p) (s1\<lparr>fs_pos := fs_pos s1 + count\<rparr>))"
  by pat_completeness auto
termination by (relation "measure (\<lambda>(p, s). length p)") auto

declare fdset_flush_loop.simps [simp del]

text \<open>\<open>buf = None\<close> is the null pointer of a flush request.\<close>

definition fdset_write :: "bytes option \<Rightarrow> fdset_io \<Rightarrow> fdset_io \<times> bool" where
  "fdset_write buf s =
     (let (s1, doflush) = (case buf of None \<Rightarrow> (s, True)
            | Some b \<Rightarrow>
              if b = [] then (s, False)
              else let s0 = s\<lparr>fs_buf := fs_buf s @ b\<rparr> in (s0, length (fs_buf s0) > PROTO_IOBUF_LEN))
      in if \<not> doflush then (s1, True)
         else let (s2, ok) = fdset_flush_loop (fs_buf s1) s1
              in if ok then (s2\<lparr>fs_buf := []\<rparr>, True) else (s2, False))"

definition rioFdsetWrite :: "bytes \<Rightarrow> fdset_io \<Rightarrow> fdset_io \<times> bool" where
  "rioFdsetWrite buf s = fdset_write (Some buf) s"

definition rioFdsetFlush :: "fdset_io \<Rightarrow> fdset_io \<times> bool" where
  "rioFdsetFlush s = fdset_write None s"

definition rioFdsetRead :: "nat \<Rightarrow> fdset_io \<Rightarrow> fdset_io \<times> bytes option" where
  "rioFdsetRead len s = (s, None)"

definition rioFdsetTell :: "fdset_io \<Rightarrow> nat" where
  "rioFdsetTell s = fs_pos s"

definition rioInitWithFdset :: "nat \<Rightarrow> (nat \<Rightarrow> int \<times> int) \<Rightarrow> fdset_io rio" where
  "rioInitWithFdset numfds sched =
     \<lparr>rio_read = rioFdsetRead, rio_write = rioFdsetWrite, rio_update_cksum = False,
      rio_cksum = 0, rio_processed = 0, rio_chunk = 0,
      rio_io = \<lparr>fs_state = replicate numfds 0, fs_pos = 0, fs_buf = [], fs_recv = replicate numfds [],
                fs_sched = sched, fs_calls = 0\<rparr>\<rparr>"

section \<open>The protocol writers\<close>

text \<open>\<open>cbuf\<close>, \<open>lbuf\<close>: the uninitialised local buffers.  The result is the number of bytes written, 0 on failure.\<close>

definition rioWriteBulkCount :: "bytes \<Rightarrow> byte \<Rightarrow> int \<Rightarrow> 'io rio \<Rightarrow> 'io rio \<times> nat" where
  "rioWriteBulkCount cbuf prefix count r =
     (let (num, l) = ll2string (drop 1 cbuf) count;
          out = prefix # take l num @ [13, 10];
          (r1, ok) = rioWrite r out
      in (r1, if ok then l + 3 else 0))"

definition rioWriteBulkString :: "bytes \<Rightarrow> bytes \<Rightarrow> 'io rio \<Rightarrow> 'io rio \<times> nat" where
  "rioWriteBulkString cbuf buf r =
     (let (r1, nwritten) = rioWriteBulkCount cbuf 36 (to_signed 32 (int (length buf))) r
      in if nwritten = 0 then (r1, 0)
         else
           let (r2, ok) = (if length buf > 0 then rioWrite r1 buf else (r1, True))
           in if \<not> ok then (r2, 0)
              else let (r3, ok3) = rioWrite r2 [13, 10]
                   in (r3, if ok3 then nwritten + length buf + 2 else 0))"

definition rioWriteBulkLongLong :: "bytes \<Rightarrow> bytes \<Rightarrow> int \<Rightarrow> 'io rio \<Rightarrow> 'io rio \<times> nat" where
  "rioWriteBulkLongLong cbuf lbuf l r =
     (let (num, llen) = ll2string lbuf l in rioWriteBulkString cbuf (take llen num) r)"

section \<open>What a write does to a stream\<close>

text \<open>\<open>wrote\<close>: the stream has taken \<open>bs\<close>, as far as its target is still alive; the checksum and the count of
  bytes have advanced over \<open>bs\<close>.\<close>

definition wrote :: "('io \<Rightarrow> bool) \<Rightarrow> ('io \<Rightarrow> bytes) \<Rightarrow> 'io rio \<Rightarrow> bytes \<Rightarrow> 'io rio \<Rightarrow> bool" where
  "wrote alive contents r bs r' \<longleftrightarrow>
     r' = r\<lparr>rio_io := rio_io r', rio_processed := rio_processed r + of_nat (length bs),
            rio_cksum := if rio_update_cksum r then crc64 (rio_cksum r) bs else rio_cksum r\<rparr>
     \<and> (alive (rio_io r') \<longrightarrow> alive (rio_io r) \<and> contents (rio_io r') = contents (rio_io r) @ bs)"

lemma crc64_append: "crc64 (crc64 c a) b = crc64 c (a @ b)"
  by (simp add: crc64_def)

lemma crc64_Nil [simp]: "crc64 c [] = c"
  by (simp add: crc64_def)

lemma wrote_refl [simp]: "wrote alive contents r [] r"
  by (simp add: wrote_def)

lemma wrote_trans:
  assumes ab: "wrote alive contents r a r1" and bc: "wrote alive contents r1 b r2"
  shows "wrote alive contents r (a @ b) r2"
proof -
  define on c q where "on = rio_update_cksum r" and "c = rio_cksum r" and "q = rio_processed r"
  have "r1 = r\<lparr>rio_io := rio_io r1, rio_processed := q + of_nat (length a), rio_cksum := if on then crc64 c a else c\<rparr>"
    using ab unfolding wrote_def on_def c_def q_def by blast
  moreover have "r2 = r1\<lparr>rio_io := rio_io r2, rio_processed := rio_processed r1 + of_nat (length b),
      rio_cksum := if rio_update_cksum r1 then crc64 (rio_cksum r1) b else rio_cksum r1\<rparr>"
    using bc unfolding wrote_def by blast
  ultimately have "r2 = r\<lparr>rio_io := rio_io r2, rio_processed := q + of_nat (length (a @ b)),
      rio_cksum := if on then crc64 c (a @ b) else c\<rparr>"
    by (cases r; cases r1; cases r2) (auto simp: crc64_append algebra_simps on_def c_def q_def split: if_splits)
  then show ?thesis using ab bc unfolding wrote_def on_def c_def q_def by auto
qed

lemma wrote_writer: "wrote alive contents r bs r' \<Longrightarrow> rio_write r' = rio_write r"
  unfolding wrote_def by (cases r; cases r') simp

locale stream_writer =
  fixes wr :: "bytes \<Rightarrow> 'io \<Rightarrow> 'io \<times> bool"
    and alive :: "'io \<Rightarrow> bool"
    and contents :: "'io \<Rightarrow> bytes"
  assumes wr_appends: "wr b io = (io', True) \<Longrightarrow> alive io' \<Longrightarrow> alive io \<and> contents io' = contents io @ b"
begin

lemma one_chunk:
  assumes "rio_write r = wr" and "wr b (rio_io r) = (io', True)" and "length b = n"
  shows "wrote alive contents r b
    ((update_cksum b r)\<lparr>rio_io := io', rio_processed := rio_processed r + of_nat n\<rparr>)"
  using assms wr_appends [of b "rio_io r" io']
  by (auto simp: wrote_def update_cksum_def rioGenericUpdateChecksum_def)

lemma rioWrite_wrote:
  assumes "rio_write r = wr" and "rioWrite r buf = (r', True)"
  shows "wrote alive contents r buf r'"
  using assms
proof (induction r buf arbitrary: r' rule: rioWrite.induct)
  case (1 r buf)
  show ?case
  proof (cases "buf = []")
    case True
    then show ?thesis using "1.prems" by (simp add: rioWrite.simps)
  next
    case False
    define n where "n = chunk_size r (length buf)"
    define r1 where "r1 = update_cksum (take n buf) r"
    obtain io' ok where io: "rio_write r1 (take n buf) (rio_io r1) = (io', ok)" by force
    define r2 where "r2 = r1\<lparr>rio_io := io', rio_processed := rio_processed r1 + of_nat n\<rparr>"
    have r1: "rio_write r1 = wr" "rio_io r1 = rio_io r" "rio_processed r1 = rio_processed r"
      using "1.prems"(1) by (auto simp: r1_def update_cksum_def rioGenericUpdateChecksum_def)
    have ok: ok and rec: "rioWrite r2 (drop n buf) = (r', True)"
      using "1.prems"(2) False io by (auto simp: rioWrite.simps [of r buf] Let_def n_def r1_def r2_def split: if_splits)
    have "length (take n buf) = n" by (simp add: n_def)
    then have w1: "wrote alive contents r (take n buf) r2"
      using one_chunk [of r "take n buf" io' n] "1.prems"(1) io ok r1 by (simp add: r2_def r1_def)
    have "rio_write r2 = wr" using r1 by (simp add: r2_def)
    then have "wrote alive contents r2 (drop n buf) r'"
      using "1.IH" [OF False n_def r1_def io [symmetric] refl refl] ok rec by (simp add: r2_def)
    from wrote_trans [OF w1 this] show ?thesis by simp
  qed
qed

end

text \<open>A target that never fails, such as memory.\<close>

locale reliable_writer = stream_writer +
  assumes wr_succeeds: "snd (wr b io)"
begin

lemma rioWrite_succeeds: "rio_write r = wr \<Longrightarrow> snd (rioWrite r buf)"
proof (induction r buf rule: rioWrite.induct)
  case (1 r buf)
  show ?case
  proof (cases "buf = []")
    case False
    define n where "n = chunk_size r (length buf)"
    define r1 where "r1 = update_cksum (take n buf) r"
    obtain io' ok where io: "rio_write r1 (take n buf) (rio_io r1) = (io', ok)" by force
    have r1: "rio_write r1 = wr"
      using "1.prems" by (simp add: r1_def update_cksum_def rioGenericUpdateChecksum_def)
    then have ok using io wr_succeeds [of "take n buf" "rio_io r1"] by simp
    then show ?thesis
      using "1.IH" [OF False n_def r1_def io [symmetric] refl refl] r1 io False
      by (simp add: rioWrite.simps [of r buf] n_def r1_def Let_def)
  qed (simp add: rioWrite.simps)
qed

lemma rioWrite_reliable:
  "rio_write r = wr \<Longrightarrow> \<exists>r'. rioWrite r buf = (r', True) \<and> wrote alive contents r buf r'"
  using rioWrite_succeeds [of r buf] rioWrite_wrote [of r buf] by (metis prod.collapse)

end

section \<open>What a read does to a stream\<close>

definition has_read :: "('io \<Rightarrow> bool) \<Rightarrow> ('io \<Rightarrow> bytes) \<Rightarrow> 'io rio \<Rightarrow> bytes \<Rightarrow> 'io rio \<Rightarrow> bool" where
  "has_read good remaining r bs r' \<longleftrightarrow>
     r' = r\<lparr>rio_io := rio_io r', rio_processed := rio_processed r + of_nat (length bs),
            rio_cksum := if rio_update_cksum r then crc64 (rio_cksum r) bs else rio_cksum r\<rparr>
     \<and> good (rio_io r') \<and> remaining (rio_io r) = bs @ remaining (rio_io r')"

lemma has_read_refl: "good (rio_io r) \<Longrightarrow> has_read good remaining r [] r"
  by (simp add: has_read_def)

lemma has_read_trans:
  assumes ab: "has_read good remaining r a r1" and bc: "has_read good remaining r1 b r2"
  shows "has_read good remaining r (a @ b) r2"
proof -
  let ?al = "\<lambda>_. False" and ?c = "\<lambda>_. []"
  have "wrote ?al ?c r a r1" "wrote ?al ?c r1 b r2"
    using ab bc unfolding has_read_def wrote_def by simp_all
  then have "wrote ?al ?c r (a @ b) r2" by (rule wrote_trans)
  then show ?thesis using ab bc unfolding has_read_def wrote_def by simp
qed

lemma has_read_reader: "has_read good remaining r bs r' \<Longrightarrow> rio_read r' = rio_read r"
  unfolding has_read_def by (cases r; cases r') simp

locale stream_reader =
  fixes rd :: "nat \<Rightarrow> 'io \<Rightarrow> 'io \<times> bytes option"
    and good :: "'io \<Rightarrow> bool"
    and remaining :: "'io \<Rightarrow> bytes"
  assumes rd_some: "good io \<Longrightarrow> n \<le> length (remaining io) \<Longrightarrow>
      \<exists>io'. rd n io = (io', Some (take n (remaining io))) \<and> good io' \<and> remaining io' = drop n (remaining io)"
    and rd_none: "good io \<Longrightarrow> length (remaining io) < n \<Longrightarrow> snd (rd n io) = None"
begin

lemma one_read:
  assumes "good (rio_io r)" and "n \<le> length (remaining (rio_io r))" and "rio_read r = rd"
  shows "\<exists>io' r2. rio_read r n (rio_io r) = (io', Some (take n (remaining (rio_io r))))
    \<and> r2 = (update_cksum (take n (remaining (rio_io r))) (r\<lparr>rio_io := io'\<rparr>))\<lparr>rio_processed := rio_processed r + of_nat n\<rparr>
    \<and> has_read good remaining r (take n (remaining (rio_io r))) r2"
  using rd_some [OF assms(1,2)] assms by (auto simp: has_read_def update_cksum_def rioGenericUpdateChecksum_def)

lemma rioRead_some:
  assumes "rio_read r = rd" and "good (rio_io r)" and "len \<le> length (remaining (rio_io r))"
  shows "\<exists>r'. rioRead r len = (r', Some (take len (remaining (rio_io r))))
    \<and> has_read good remaining r (take len (remaining (rio_io r))) r'"
  using assms
proof (induction r len rule: rioRead.induct)
  case (1 r len)
  show ?case
  proof (cases "len = 0")
    case True
    then show ?thesis using "1.prems" by (simp add: rioRead.simps has_read_refl)
  next
    case False
    define n where "n = chunk_size r len"
    define b where "b = take n (remaining (rio_io r))"
    have nl: "n \<le> len" by (simp add: n_def)
    then obtain io' r2 where io: "rio_read r n (rio_io r) = (io', Some b)"
      and r2: "r2 = (update_cksum b (r\<lparr>rio_io := io'\<rparr>))\<lparr>rio_processed := rio_processed r + of_nat n\<rparr>"
      and h: "has_read good remaining r b r2"
      using one_read [of r n] "1.prems" b_def by (metis le_trans)
    have rem: "remaining (rio_io r2) = drop n (remaining (rio_io r))" and good: "good (rio_io r2)"
      using h append_take_drop_id [of n "remaining (rio_io r)"] unfolding has_read_def b_def
      by (metis same_append_eq, blast)
    have p: "rio_processed (update_cksum b (r\<lparr>rio_io := io'\<rparr>)) = rio_processed r"
      by (simp add: update_cksum_def rioGenericUpdateChecksum_def)
    have "len - n \<le> length (remaining (rio_io r)) - n" using "1.prems"(3) by simp
    then obtain r' where rec: "rioRead r2 (len - n) = (r', Some (take (len - n) (remaining (rio_io r2))))"
      and h2: "has_read good remaining r2 (take (len - n) (remaining (rio_io r2))) r'"
      using "1.IH" [OF False n_def io [symmetric] refl refl refl] has_read_reader [OF h] "1.prems" good rem r2 p by auto
    have split: "b @ take (len - n) (remaining (rio_io r2)) = take len (remaining (rio_io r))"
      using nl take_add [of n "len - n" "remaining (rio_io r)"] by (simp add: rem b_def)
    have "rioRead r len = (r', Some (take len (remaining (rio_io r))))"
      using False io rec r2 p split by (simp add: rioRead.simps [of r len] n_def [symmetric] Let_def)
    then show ?thesis using has_read_trans [OF h h2] split by auto
  qed
qed

end

section \<open>The targets are writers, and the buffer a reader\<close>

lemma rioBufferWrite_appends:
  "rioBufferWrite b io = (io', True) \<Longrightarrow> buf_ptr io' = buf_ptr io @ b"
  by (auto simp: rioBufferWrite_def)

interpretation buffer: reliable_writer rioBufferWrite "\<lambda>_. True" buf_ptr
  by unfold_locales (rule conjI, simp, erule rioBufferWrite_appends, simp add: rioBufferWrite_def)

definition buf_good :: "buffer_io \<Rightarrow> bool" where
  "buf_good b \<longleftrightarrow> buf_pos b \<le> length (buf_ptr b) \<and> length (buf_ptr b) < 2 ^ 64"

definition buf_remaining :: "buffer_io \<Rightarrow> bytes" where
  "buf_remaining b = drop (buf_pos b) (buf_ptr b)"

lemma rioBufferRead_good:
  "buf_good b \<Longrightarrow> rioBufferRead n b =
     (if length (buf_remaining b) < n then (b, None)
      else (b\<lparr>buf_pos := buf_pos b + n\<rparr>, Some (take n (buf_remaining b))))"
  using to_unsigned_id [of "int (length (buf_ptr b)) - int (buf_pos b)" 64]
  by (auto simp: rioBufferRead_def buf_good_def buf_remaining_def)

interpretation bufrd: stream_reader rioBufferRead buf_good buf_remaining
proof
  fix io n
  assume g: "buf_good io" and n: "n \<le> length (buf_remaining io)"
  then show "\<exists>io'. rioBufferRead n io = (io', Some (take n (buf_remaining io))) \<and> buf_good io'
      \<and> buf_remaining io' = drop n (buf_remaining io)"
    by (auto simp: rioBufferRead_good buf_good_def buf_remaining_def add.commute)
qed (simp add: rioBufferRead_good)

text \<open>The socket loop: what a socket that is not in error has received.\<close>

lemma sys_write_frame:
  assumes "sys_write j p s = (s1, retval, err)"
  shows "fs_state s1 = fs_state s \<and> fs_buf s1 = fs_buf s \<and> length (fs_recv s1) = length (fs_recv s)
    \<and> (\<forall>k. k \<noteq> j \<longrightarrow> fs_recv s1 ! k = fs_recv s ! k)
    \<and> (0 < retval \<longrightarrow> nat retval \<le> length p \<and> (j < length (fs_recv s) \<longrightarrow> fs_recv s1 ! j = fs_recv s ! j @ take (nat retval) p))"
  using assms by (auto simp: sys_write_def Let_def split: prod.splits if_splits)

lemma write_fully_frame:
  assumes "write_fully j p s = (s', e)"
  shows "fs_state s' = fs_state s \<and> fs_buf s' = fs_buf s \<and> length (fs_recv s') = length (fs_recv s)
    \<and> (\<forall>k. k \<noteq> j \<longrightarrow> fs_recv s' ! k = fs_recv s ! k)
    \<and> (e = None \<longrightarrow> j < length (fs_recv s) \<longrightarrow> fs_recv s' ! j = fs_recv s ! j @ p)"
  using assms
proof (induction j p s arbitrary: s' e rule: write_fully.induct)
  case (1 j p s)
  show ?case
  proof (cases "p = []")
    case True
    then show ?thesis using "1.prems" by (simp add: write_fully.simps)
  next
    case False
    obtain s1 retval err where w: "sys_write j p s = (s1, retval, err)" by (metis prod_cases3)
    note f = sys_write_frame [OF w]
    show ?thesis
    proof (cases "retval \<le> 0")
      case True
      then show ?thesis using "1.prems" False w f by (auto simp: write_fully.simps [of j p s])
    next
      case retval: False
      then have rec: "write_fully j (drop (nat retval) p) s1 = (s', e)"
        using "1.prems" False w by (simp add: write_fully.simps [of j p s])
      note "1.IH" [OF False w [symmetric] refl refl retval rec]
      then show ?thesis using f retval by auto
    qed
  qed
qed

lemma write_each_step:
  assumes "fs_state s ! j = 0" and "write_fully j p s = (s1, e)"
    and "s2 = (case e of None \<Rightarrow> s1 | Some err \<Rightarrow> s1\<lparr>fs_state := (fs_state s1)[j := if err = 0 then EIO else err]\<rparr>)"
  shows "write_each (j # js) p s = write_each js p s2"
    and "fs_buf s2 = fs_buf s" "length (fs_state s2) = length (fs_state s)" "length (fs_recv s2) = length (fs_recv s)"
    and "k \<noteq> j \<Longrightarrow> fs_state s2 ! k = fs_state s ! k" "k \<noteq> j \<Longrightarrow> fs_recv s2 ! k = fs_recv s ! k"
    and "j < length (fs_state s) \<Longrightarrow> j < length (fs_recv s) \<Longrightarrow> fs_state s2 ! j = 0 \<Longrightarrow> fs_recv s2 ! j = fs_recv s ! j @ p"
  using assms write_fully_frame [OF assms(2)] by (auto simp: EIO_def split: option.splits if_splits)

definition fd_alive :: "nat \<Rightarrow> fdset_io \<Rightarrow> bool" where
  "fd_alive k s \<longleftrightarrow> k < length (fs_state s) \<and> length (fs_recv s) = length (fs_state s) \<and> fs_state s ! k = 0"

definition fd_contents :: "nat \<Rightarrow> fdset_io \<Rightarrow> bytes" where
  "fd_contents k s = fs_recv s ! k @ fs_buf s"

lemma write_each_frame:
  assumes "write_each js p s = (s', broken)" and "distinct js"
  shows "fs_buf s' = fs_buf s \<and> length (fs_state s') = length (fs_state s) \<and> length (fs_recv s') = length (fs_recv s)
    \<and> (\<forall>k. fd_alive k s' \<longrightarrow> fd_alive k s \<and> fs_recv s' ! k = fs_recv s ! k @ (if k \<in> set js then p else []))"
  using assms
proof (induction js arbitrary: s broken)
  case (Cons j js)
  show ?case
  proof (cases "fs_state s ! j \<noteq> 0")
    case True
    then show ?thesis using Cons by (fastforce simp: fd_alive_def Let_def split: prod.splits)
  next
    case False
    obtain s1 e where w: "write_fully j p s = (s1, e)" by force
    define s2 where "s2 = (case e of None \<Rightarrow> s1 | Some err \<Rightarrow> s1\<lparr>fs_state := (fs_state s1)[j := if err = 0 then EIO else err]\<rparr>)"
    note st = write_each_step [OF _ w s2_def]
    have "write_each js p s2 = (s', broken)" using st(1) False Cons.prems(1) by simp
    note ih = Cons.IH [OF this] Cons.prems(2)
    have "fd_alive k s2 \<Longrightarrow> fd_alive k s \<and> fs_recv s2 ! k = fs_recv s ! k @ (if k = j then p else [])" for k
      using st(3-7) False by (cases "k = j") (auto simp: fd_alive_def)
    then show ?thesis using ih st(2-4) False by fastforce
  qed
qed (simp add: fd_alive_def)

lemma flush_loop_frame:
  assumes "fdset_flush_loop p s = (s', ok)"
  shows "fs_buf s' = fs_buf s \<and> (\<forall>k. ok \<longrightarrow> fd_alive k s' \<longrightarrow> fd_alive k s \<and> fs_recv s' ! k = fs_recv s ! k @ p)"
  using assms
proof (induction p s arbitrary: s' ok rule: fdset_flush_loop.induct)
  case (1 p s)
  show ?case
  proof (cases "p = []")
    case True
    then show ?thesis using "1.prems" by (auto simp: fdset_flush_loop.simps)
  next
    case False
    define count where "count = (if length p < 1024 then length p else 1024)"
    obtain s1 broken where w: "write_each [0..<length (fs_state s)] (take count p) s = (s1, broken)" by force
    note f = write_each_frame [OF w]
    show ?thesis
    proof (cases "broken = length (fs_state s)")
      case True
      then show ?thesis using "1.prems" False w f by (auto simp: fdset_flush_loop.simps [of p s] count_def)
    next
      case b: False
      define s2 where "s2 = s1\<lparr>fs_pos := fs_pos s1 + count\<rparr>"
      have "fdset_flush_loop (drop count p) s2 = (s', ok)"
        using "1.prems" False w b by (simp add: fdset_flush_loop.simps [of p s] count_def [symmetric] s2_def Let_def)
      then have ih: "fs_buf s' = fs_buf s2
          \<and> (\<forall>k. ok \<longrightarrow> fd_alive k s' \<longrightarrow> fd_alive k s2 \<and> fs_recv s' ! k = fs_recv s2 ! k @ drop count p)"
        using "1.IH" [OF False count_def w [symmetric] refl b] by (simp add: s2_def)
      have "fd_alive k s2 \<Longrightarrow> fd_alive k s \<and> fs_recv s2 ! k = fs_recv s ! k @ take count p" for k
        using f by (auto simp: s2_def fd_alive_def)
      then show ?thesis using ih f by (auto simp: s2_def)
    qed
  qed
qed

lemma fdset_write_appends:
  assumes "fdset_write buf s = (s', True)" and "fd_alive k s'"
  shows "fd_alive k s \<and> fd_contents k s' = fd_contents k s @ (case buf of None \<Rightarrow> [] | Some b \<Rightarrow> b)"
    and "buf = None \<Longrightarrow> fs_buf s' = []"
proof -
  define s1 where "s1 = (case buf of None \<Rightarrow> s | Some b \<Rightarrow> if b = [] then s else s\<lparr>fs_buf := fs_buf s @ b\<rparr>)"
  obtain s2 ok where w: "fdset_flush_loop (fs_buf s1) s1 = (s2, ok)" by force
  note fl = flush_loop_frame [OF w]
  have a1: "fd_alive k s1 \<Longrightarrow> fd_alive k s \<and> fd_contents k s1 = fd_contents k s @ (case buf of None \<Rightarrow> [] | Some b \<Rightarrow> b)"
    by (auto simp: s1_def fd_alive_def fd_contents_def split: option.splits if_splits)
  have c: "s' = s1 \<and> buf \<noteq> None \<or> ok \<and> s' = s2\<lparr>fs_buf := []\<rparr>"
    using assms(1) w by (auto simp: fdset_write_def Let_def s1_def split: option.splits if_splits prod.splits)
  then show "buf = None \<Longrightarrow> fs_buf s' = []" by auto
  show "fd_alive k s \<and> fd_contents k s' = fd_contents k s @ (case buf of None \<Rightarrow> [] | Some b \<Rightarrow> b)"
    using c
  proof
    assume "ok \<and> s' = s2\<lparr>fs_buf := []\<rparr>"
    moreover from this have "fd_alive k s2" using assms(2) by (simp add: fd_alive_def)
    ultimately have "fd_alive k s1 \<and> fd_contents k s' = fd_contents k s1"
      using fl by (auto simp: fd_contents_def)
    then show ?thesis using a1 by auto
  qed (use a1 assms(2) in auto)
qed

interpretation fdset: stream_writer rioFdsetWrite "fd_alive k" "fd_contents k" for k
  by unfold_locales (use fdset_write_appends(1) [of "Some _"] in \<open>force simp: rioFdsetWrite_def\<close>)

section \<open>The protocol writers append one bulk\<close>

definition bulk :: "bytes \<Rightarrow> bytes" where
  "bulk s = 36 # sdec (int (length s)) @ [13, 10] @ s @ [13, 10]"

context stream_writer
begin

lemma bulkCount_wrote:
  assumes "rio_write r = wr" and "in_int64 count" and "21 < length cbuf"
    and "rioWriteBulkCount cbuf prefix count r = (r', n)" and "n \<noteq> 0"
  shows "wrote alive contents r (prefix # sdec count @ [13, 10]) r' \<and> n = length (sdec count) + 3"
proof -
  obtain num where "ll2string (drop 1 cbuf) count = (num, length (sdec count))" "take (length (sdec count)) num = sdec count"
    using ll2string_take [OF assms(2), of "drop 1 cbuf"] assms(3) less_diff_conv [of 20 "length cbuf" 1] by auto
  then show ?thesis
    using assms rioWrite_wrote [OF assms(1)]
    by (auto simp: rioWriteBulkCount_def Let_def split: prod.splits if_splits)
qed

lemma bulkString_wrote:
  assumes w: "rio_write r = wr" and len: "int (length buf) \<le> INT32_MAX" and c: "21 < length cbuf"
    and res: "rioWriteBulkString cbuf buf r = (r', n)" and n: "n \<noteq> 0"
  shows "wrote alive contents r (bulk buf) r' \<and> n = length (bulk buf)"
proof -
  have s: "to_signed 32 (int (length buf)) = int (length buf)"
    using len by (intro to_signed_id) (simp_all add: range_simps)
  have i64: "in_int64 (int (length buf))" using len by (simp add: range_simps)
  obtain r1 n1 where b: "rioWriteBulkCount cbuf 36 (int (length buf)) r = (r1, n1)" by force
  obtain r2 ok where p: "(if length buf > 0 then rioWrite r1 buf else (r1, True)) = (r2, ok)" by force
  obtain r3 ok3 where e: "rioWrite r2 [13, 10] = (r3, ok3)" by force
  have all: "n1 \<noteq> 0" "ok" "ok3" "r' = r3" "n = n1 + length buf + 2"
    using res n b p e by (auto simp: rioWriteBulkString_def s Let_def split: if_splits)
  note w1 = bulkCount_wrote [OF w i64 c b all(1)]
  have "wrote alive contents r1 buf r2"
    using p all(2) rioWrite_wrote [of r1 buf r2] wrote_writer [of alive contents r _ r1] w1 w
    by (auto split: if_splits)
  moreover from this have "wrote alive contents r2 [13, 10] r3"
    using e all(3) rioWrite_wrote [of r2 "[13, 10]" r3] wrote_writer w1 w by metis
  ultimately have "wrote alive contents r ((36 # sdec (int (length buf)) @ [13, 10]) @ buf @ [13, 10]) r3"
    using w1 wrote_trans by blast
  then show ?thesis using w1 all(4,5) by (simp add: bulk_def)
qed

end

lemma rioWriteBulkString_buffer:
  assumes "rio_write r = rioBufferWrite"
  shows "snd (rioWriteBulkString cbuf buf r) \<noteq> 0"
proof -
  have ok: "\<exists>r'. rioWrite r b = (r', True) \<and> rio_write r' = rioBufferWrite" if "rio_write r = rioBufferWrite" for r b
    using buffer.rioWrite_reliable [OF that, of b] that wrote_writer by metis
  obtain num l where n: "ll2string (drop 1 cbuf) (to_signed 32 (int (length buf))) = (num, l)" by force
  obtain r1 where r1: "rioWrite r (36 # take l num @ [13, 10]) = (r1, True)" "rio_write r1 = rioBufferWrite" using ok [OF assms] by blast
  obtain r2 where r2: "rioWrite r1 buf = (r2, True)" "rio_write r2 = rioBufferWrite" using ok [OF r1(2)] by blast
  obtain r3 r4 where r3: "rioWrite r2 [13, 10] = (r3, True)" "rioWrite r1 [13, 10] = (r4, True)" using ok r1(2) r2(2) by meson
  show ?thesis using n r1 r2 r3 by (simp add: rioWriteBulkString_def rioWriteBulkCount_def)
qed

section \<open>A session on the socket set\<close>

text \<open>A sequence of writes that stops at the first failure.\<close>

primrec write_list :: "bytes list \<Rightarrow> 'io rio \<Rightarrow> 'io rio \<times> bool" where
  "write_list [] r = (r, True)"
| "write_list (b # bs) r = (let (r1, ok) = rioWrite r b in if ok then write_list bs r1 else (r1, False))"

context stream_writer
begin

lemma write_list_wrote:
  "rio_write r = wr \<Longrightarrow> write_list bs r = (r', True) \<Longrightarrow> wrote alive contents r (concat bs) r'"
proof (induction bs arbitrary: r)
  case (Cons b bs)
  obtain r1 where r1: "rioWrite r b = (r1, True)" "write_list bs r1 = (r', True)"
    using Cons.prems(2) by (auto simp: Let_def split: prod.splits if_splits)
  note w = rioWrite_wrote [OF Cons.prems(1) r1(1)]
  then have "rio_write r1 = wr" using wrote_writer Cons.prems(1) by metis
  from wrote_trans [OF w Cons.IH [OF this r1(2)]] show ?case by simp
qed simp

end

lemma rioWrite_preserves:
  assumes "\<And>b io. keeps io \<Longrightarrow> keeps (fst (wr b io))" and "keeps (rio_io r)" and "rio_write r = wr"
  shows "keeps (rio_io (fst (rioWrite r buf)))"
  using assms(2,3)
proof (induction r buf rule: rioWrite.induct)
  case (1 r buf)
  show ?case
  proof (cases "buf = []")
    case False
    define n where "n = chunk_size r (length buf)"
    define r1 where "r1 = update_cksum (take n buf) r"
    obtain io' ok where io: "rio_write r1 (take n buf) (rio_io r1) = (io', ok)" by force
    have r1: "rio_write r1 = wr" "keeps (rio_io r1)"
      using "1.prems" by (simp_all add: r1_def update_cksum_def rioGenericUpdateChecksum_def)
    then have i: "keeps io'" using assms(1) [of "rio_io r1" "take n buf"] io by simp
    have "ok \<Longrightarrow> ?thesis"
      using "1.IH" [OF False n_def r1_def io [symmetric] refl refl] r1 io i False
      by (simp add: rioWrite.simps [of r buf] n_def r1_def Let_def)
    moreover have "\<not> ok \<Longrightarrow> ?thesis"
      using io i False by (simp add: rioWrite.simps [of r buf] n_def [symmetric] r1_def [symmetric] Let_def)
    ultimately show ?thesis by blast
  qed (use "1.prems" in \<open>simp add: rioWrite.simps\<close>)
qed

lemma rioWrite_writer: "rio_write (fst (rioWrite r buf)) = rio_write r"
proof (induction r buf rule: rioWrite.induct)
  case (1 r buf)
  show ?case
  proof (cases "buf = []")
    case False
    define n where "n = chunk_size r (length buf)"
    define r1 where "r1 = update_cksum (take n buf) r"
    obtain io' ok where io: "rio_write r1 (take n buf) (rio_io r1) = (io', ok)" by force
    have "rio_write r1 = rio_write r" by (simp add: r1_def update_cksum_def rioGenericUpdateChecksum_def)
    then show ?thesis
      using "1.IH" [OF False n_def r1_def io [symmetric] refl refl] io False
      by (cases ok) (simp_all add: rioWrite.simps [of r buf] n_def [symmetric] r1_def [symmetric] Let_def)
  qed (simp add: rioWrite.simps)
qed

definition fdset_size :: "nat \<Rightarrow> fdset_io \<Rightarrow> bool" where
  "fdset_size n s \<longleftrightarrow> length (fs_state s) = n \<and> length (fs_recv s) = n"

lemma fdset_flush_loop_size: "fdset_size n s \<Longrightarrow> fdset_size n (fst (fdset_flush_loop p s))"
proof (induction p s rule: fdset_flush_loop.induct)
  case (1 p s)
  show ?case
  proof (cases "p = []")
    case False
    define count where "count = (if length p < 1024 then length p else 1024)"
    obtain s1 broken where w: "write_each [0..<length (fs_state s)] (take count p) s = (s1, broken)" by force
    have "fdset_size n s1" using write_each_frame [OF w] "1.prems" by (simp add: fdset_size_def)
    moreover from this have "broken \<noteq> length (fs_state s) \<Longrightarrow> ?thesis"
      using "1.IH" [OF False count_def w [symmetric] refl] False w
      by (simp add: fdset_flush_loop.simps [of p s] count_def [symmetric] fdset_size_def Let_def)
    ultimately show ?thesis
      using False w by (cases "broken = length (fs_state s)") (auto simp: fdset_flush_loop.simps [of p s] count_def)
  qed (use "1.prems" in \<open>simp add: fdset_flush_loop.simps\<close>)
qed

lemma fdset_write_size:
  assumes "fdset_size n s"
  shows "fdset_size n (fst (fdset_write buf s))"
proof -
  define s1 where "s1 = (case buf of None \<Rightarrow> s | Some b \<Rightarrow> if b = [] then s else s\<lparr>fs_buf := fs_buf s @ b\<rparr>)"
  obtain s2 ok where w: "fdset_flush_loop (fs_buf s1) s1 = (s2, ok)" by force
  have "fdset_size n s1" using assms by (auto simp: s1_def fdset_size_def split: option.splits)
  moreover from this have "fdset_size n s2" using fdset_flush_loop_size [of n s1 "fs_buf s1"] w by simp
  moreover have "fst (fdset_write buf s) = s1 \<or> fst (fdset_write buf s) = s2 \<or> fst (fdset_write buf s) = s2\<lparr>fs_buf := []\<rparr>"
    using w by (auto simp: fdset_write_def s1_def Let_def split: option.splits prod.splits)
  ultimately show ?thesis by (auto simp: fdset_size_def)
qed

lemma rioFdset_size:
  assumes "fdset_size n (rio_io r)" and "rio_write r = rioFdsetWrite"
  shows "fdset_size n (rio_io (fst (write_list bufs r)))"
  using assms
proof (induction bufs arbitrary: r)
  case (Cons b bufs)
  have "fdset_size n (rio_io (fst (rioWrite r b)))"
    by (rule rioWrite_preserves [where keeps = "fdset_size n", OF _ Cons.prems]) (simp add: rioFdsetWrite_def fdset_write_size)
  moreover have "rio_write (fst (rioWrite r b)) = rioFdsetWrite" using Cons.prems rioWrite_writer by metis
  ultimately show ?case using Cons.IH by (auto simp: Let_def split: prod.splits)
qed simp

section \<open>Properties\<close>

text \<open>
  C21.  Diskless replication delivers: whatever the sockets accept call by call, after a sequence of writes
  to the socket set that succeeded and a successful flush, every socket that is not marked as broken has
  received exactly the bytes written, in order.
\<close>

theorem fdset_delivers:
  assumes "write_list bufs (rioInitWithFdset numfds sched) = (r, True)"
    and "rioFdsetFlush (rio_io r) = (io', True)" and "k < numfds" and "fs_state io' ! k = 0"
  shows "fs_recv io' ! k = concat bufs"
proof -
  let ?r0 = "rioInitWithFdset numfds sched"
  have w: "wrote (fd_alive j) (fd_contents j) ?r0 (concat bufs) r" for j
    using fdset.write_list_wrote [OF _ assms(1)] by (simp add: rioInitWithFdset_def)
  have "fdset_size numfds (rio_io r)"
    using rioFdset_size [of numfds ?r0 bufs] assms(1) by (simp add: rioInitWithFdset_def fdset_size_def)
  from fdset_write_size [OF this, of None] have "fdset_size numfds io'"
    using assms(2) by (simp add: rioFdsetFlush_def)
  then have alive: "fd_alive k io'" using assms(3,4) by (simp add: fd_alive_def fdset_size_def)
  note f = fdset_write_appends [OF assms(2) [unfolded rioFdsetFlush_def] alive]
  have "fd_contents k io' = fd_contents k (rio_io r)" using f by simp
  also have "\<dots> = fd_contents k (rio_io ?r0) @ concat bufs" using w [of k] f by (simp add: wrote_def)
  also have "\<dots> = concat bufs" using assms(3) by (simp add: fd_contents_def rioInitWithFdset_def)
  finally show ?thesis using f(2) by (simp add: fd_contents_def)
qed

theorem fdset_delivers_witness:
  "\<exists>r io'. write_list [[7, 8], [9]] (rioInitWithFdset 2 (\<lambda>n. (if n = 3 then -1 else 2, 11))) = (r, True)
     \<and> rioFdsetFlush (rio_io r) = (io', True) \<and> fs_state io' = [0, 110] \<and> fs_recv io' ! 0 = [7, 8, 9]"
proof -
  let ?r0 = "rioInitWithFdset 2 (\<lambda>n. (if n = 3 then -1 else 2, 11))"
  obtain r where r: "write_list [[7, 8], [9]] ?r0 = (r, True)" "rio_io r = (rio_io ?r0)\<lparr>fs_buf := [7, 8, 9]\<rparr>"
    by (simp add: rioInitWithFdset_def rioWrite.simps chunk_size_def update_cksum_def rioFdsetWrite_def fdset_write_def
        PROTO_IOBUF_LEN_def)
  obtain io' where io: "rioFdsetFlush (rio_io r) = (io', True)" "fs_state io' = [0, 110]"
    by (simp add: r(2) rioInitWithFdset_def rioFdsetFlush_def fdset_write_def fdset_flush_loop.simps write_fully.simps
        sys_write_def upt_rec numeral_2_eq_2 EWOULDBLOCK_def ETIMEDOUT_def)
  then show ?thesis using fdset_delivers [OF r(1) io(1), of 0] r(1) by auto
qed

text \<open>
  A write to the socket set is documented to succeed as long as at least one descriptor takes the
  data.  The count of broken sockets is taken before the chunk is written: with one socket that refuses
  every byte, a write followed by the flush reports success, and the bytes are gone.
\<close>

theorem fdset_flush_silent_failure:
  "\<exists>r io'. rioWrite (rioInitWithFdset 1 (\<lambda>_. (-1, EWOULDBLOCK))) [42] = (r, True)
     \<and> rioFdsetFlush (rio_io r) = (io', True) \<and> fs_recv io' = [[]] \<and> fs_buf io' = [] \<and> fs_state io' = [ETIMEDOUT]"
  by (simp add: rioInitWithFdset_def rioWrite.simps chunk_size_def update_cksum_def rioFdsetWrite_def fdset_write_def
      PROTO_IOBUF_LEN_def rioFdsetFlush_def fdset_flush_loop.simps write_fully.simps sys_write_def ETIMEDOUT_def)

text \<open>
  On a memory stream, whatever its chunk size, \<open>rioWriteBulkString\<close> appends the protocol form of the
  string (\<open>$\<close>, the decimal length, CRLF, the bytes, CRLF), returns the number of bytes appended, and
  advances the checksum over exactly these bytes.
\<close>

theorem rioWriteBulkString_protocol:
  assumes "rio_write r = rioBufferWrite" and "rio_update_cksum r"
    and "int (length s) \<le> INT32_MAX" and "length cbuf = 128"
  shows "\<exists>r'. rioWriteBulkString cbuf s r = (r', length (bulk s))
    \<and> buf_ptr (rio_io r') = buf_ptr (rio_io r) @ bulk s \<and> rio_cksum r' = crc64 (rio_cksum r) (bulk s)"
proof -
  obtain r' n where r': "rioWriteBulkString cbuf s r = (r', n)" "n \<noteq> 0"
    using rioWriteBulkString_buffer [OF assms(1), of cbuf s] by (metis prod.collapse)
  have w: "wrote (\<lambda>_. True) buf_ptr r (bulk s) r' \<and> n = length (bulk s)"
    using buffer.bulkString_wrote [OF assms(1,3) _ r'] assms(4) by simp
  moreover from this have "rio_cksum r' = crc64 (rio_cksum r) (bulk s)"
    using assms(2) unfolding wrote_def by (cases r; cases r') simp
  ultimately show ?thesis using r'(1) by (simp add: wrote_def)
qed

theorem rioWriteBulkString_protocol_witness:
  "\<exists>r'. rioWriteBulkString (replicate 128 0) [104, 105] ((rioInitWithBuffer [33])\<lparr>rio_update_cksum := True, rio_chunk := 3\<rparr>) = (r', 8)
     \<and> buf_ptr (rio_io r') = [33, 36, 50, 13, 10, 104, 105, 13, 10]"
proof -
  have b: "bulk [104, 105] = [36, 50, 13, 10, 104, 105, 13, 10]"
    by (simp add: bulk_def sdec_def dec_small byte_of_digit_def)
  show ?thesis
    using rioWriteBulkString_protocol [of "(rioInitWithBuffer [33])\<lparr>rio_update_cksum := True, rio_chunk := 3\<rparr>" "[104, 105]" "replicate 128 0"]
    by (simp add: b rioInitWithBuffer_def range_simps eval_nat_numeral) blast
qed

end
