(* ===== verification/OutputProps.thy ===== *)
theory OutputProps
  imports OutputSend Rio
begin

text \<open>
  Properties of the output side: whatever the sizes of the replies and the progress of the socket, the client
  receives the replies in order and complete, the objects of the database are left alone, and a client with
  pending replies is always scheduled for writing.
\<close>

section \<open>Protocol helpers\<close>

definition crlf :: bytes where "crlf = [13, 10]"

definition shared_ok :: "shared_objs \<Rightarrow> (nat \<Rightarrow> nat) \<Rightarrow> (nat \<Rightarrow> obj_val) \<Rightarrow> bool" where
  "shared_ok sh ext v0 \<longleftrightarrow>
     0 < ext (sh_crlf sh) \<and> str_of (v0 (sh_crlf sh)) = Some crlf
     \<and> 0 < ext (sh_czero sh) \<and> str_of (v0 (sh_czero sh)) = Some (58 # sdec 0 @ crlf)
     \<and> 0 < ext (sh_cone sh) \<and> str_of (v0 (sh_cone sh)) = Some (58 # sdec 1 @ crlf)
     \<and> (\<forall>n<OBJ_SHARED_BULKHDR_LEN. 0 < ext (sh_mbulkhdr sh n) \<and> str_of (v0 (sh_mbulkhdr sh n)) = Some (42 # sdec (int n) @ crlf)
          \<and> 0 < ext (sh_bulkhdr sh n) \<and> str_of (v0 (sh_bulkhdr sh n)) = Some (36 # sdec (int n) @ crlf))"

lemma prefix_appends:
  assumes "fresh_obj alloc" and "mem_ok mem" and sh: "shared_ok sh ext v0" and v: "in_int64 ll"
  shows "appends mem ext v0 (addReplyLongLongWithPrefix sh alloc mem limits ll p) (p # sdec ll @ crlf) (room (p # sdec ll @ crlf))"
proof -
  have s: "appends mem ext v0 (addReply alloc mem limits a) s (room s)" if "0 < ext a" "str_of (v0 a) = Some s" for a s
    using addReply_str [where ext = ext and ?v0.0 = v0 and a = a, OF assms(1,2) that] .
  have n: "nat ll < OBJ_SHARED_BULKHDR_LEN" "int (nat ll) = ll" if "ll < int OBJ_SHARED_BULKHDR_LEN \<and> ll \<ge> 0" using that by auto
  have str: "appends mem ext v0 (addReplyString alloc mem limits (p # ll_text ll @ [13, 10])) (p # sdec ll @ crlf) (room (p # sdec ll @ crlf))"
    using addReplyString_appends [OF assms(1,2), of ext v0 limits "p # sdec ll @ crlf"] by (simp add: ll_text_sdec [OF v] crlf_def)
  show ?thesis
  proof (cases "ll < int OBJ_SHARED_BULKHDR_LEN \<and> ll \<ge> 0 \<and> (p = 42 \<or> p = 36)")
    case True
    have "0 < ext (sh_mbulkhdr sh (nat ll)) \<and> str_of (v0 (sh_mbulkhdr sh (nat ll))) = Some (42 # sdec (int (nat ll)) @ crlf)
          \<and> 0 < ext (sh_bulkhdr sh (nat ll)) \<and> str_of (v0 (sh_bulkhdr sh (nat ll))) = Some (36 # sdec (int (nat ll)) @ crlf)"
      using sh n(1) True unfolding shared_ok_def by blast
    then show ?thesis using s True n(2) by (auto simp: addReplyLongLongWithPrefix_def)
  next
    case False
    then have "addReplyLongLongWithPrefix sh alloc mem limits ll p = addReplyString alloc mem limits (p # ll_text ll @ [13, 10])"
      by (auto simp: addReplyLongLongWithPrefix_def)
    then show ?thesis using str by simp
  qed
qed

lemma bulk_crlf: "bulk s = (36 # sdec (int (length s)) @ crlf) @ s @ crlf"
  by (simp add: bulk_def crlf_def)

definition obj_text :: "obj_val \<Rightarrow> bytes option" where
  "obj_text v = (case v of Int_obj n \<Rightarrow> if in_int64 n \<and> n \<noteq> LLONG_MIN then Some (sdec n) else None | _ \<Rightarrow> str_of v)"

lemma count_digits: "Suc (count_digits n) = length (dec n)"
proof (induction n rule: count_digits.induct)
  case (1 n)
  show ?case
  proof (cases "n div 10 = 0")
    case True
    then show ?thesis by (simp add: count_digits.simps [of n] dec.simps [of n])
  next
    case False
    then show ?thesis using 1 by (simp add: count_digits.simps [of n] dec.simps [of n])
  qed
qed

lemma bulk_len_text: "obj_text v = Some s \<Longrightarrow> bulk_len v = Some (length s)"
proof (cases v)
  case (Int_obj n)
  assume "obj_text v = Some s"
  then have s: "s = sdec n" "n \<noteq> LLONG_MIN" using Int_obj by (auto simp: obj_text_def split: if_splits)
  then show ?thesis using Int_obj by (simp add: bulk_len_def sdec_def count_digits)
qed (auto simp: obj_text_def bulk_len_def)

lemma addReply_text:
  assumes "fresh_obj alloc" and "mem_ok mem" and "0 < ext a" and "obj_text (v0 a) = Some s"
  shows "appends mem ext v0 (addReply alloc mem limits a) s (room s)"
proof (cases "v0 a")
  case (Int_obj n)
  then have "in_int64 n" "s = sdec n" using assms(4) by (auto simp: obj_text_def split: if_splits)
  then show ?thesis using addReply_int [where ext = ext and ?v0.0 = v0 and a = a, OF assms(1-3) Int_obj] by simp
qed (use addReply_str [where ext = ext and ?v0.0 = v0 and a = a, OF assms(1-3)] assms(4) in \<open>simp_all add: obj_text_def\<close>)

lemma bulk_hdr_appends:
  assumes al: "fresh_obj alloc" and mem: "mem_ok mem" and sh: "shared_ok sh ext v0" and a: "0 < ext a" "obj_text (v0 a) = Some s"
    and len: "length s < 2 ^ 40"
  shows "appends mem ext v0 (addReplyBulkLen sh alloc mem limits a) (36 # sdec (int (length s)) @ crlf) (room (36 # sdec (int (length s)) @ crlf))"
    (is "appends _ _ _ _ ?hd _")
  unfolding appends_def
proof (intro conjI allI impI)
  show "0 \<le> room ?hd" by simp
  fix c sv assume st: "out_state mem ext v0 c sv \<and> oc_reply_bytes c + room ?hd < 2 ^ 63"
  have ok: "out_ok mem ext c (os_objs sv)" "val (os_objs sv) a = v0 a" using st a(1) by (auto simp: out_state_def)
  obtain ob where ob: "os_objs sv a = Some ob" using refs_in [OF out_okD(6) [OF ok(1)], of a] a(1) by auto
  have bl: "bulk_len (so_val ob) = Some (length s)" using bulk_len_text [OF a(2)] ok(2) ob by simp
  have i64: "in_int64 (int (length s))" using len by (simp add: range_simps)
  let ?f = "if length s < OBJ_SHARED_BULKHDR_LEN then addReply alloc mem limits (sh_bulkhdr sh (length s))
     else addReplyLongLongWithPrefix sh alloc mem limits (int (length s)) 36"
  have e: "addReplyBulkLen sh alloc mem limits a c sv = ?f c sv" using ob bl by (simp add: addReplyBulkLen_def)
  have "appends mem ext v0 ?f ?hd (room ?hd)"
  proof (cases "length s < OBJ_SHARED_BULKHDR_LEN")
    case True
    then have "0 < ext (sh_bulkhdr sh (length s))" "str_of (v0 (sh_bulkhdr sh (length s))) = Some ?hd" using sh by (auto simp: shared_ok_def)
    then show ?thesis using True addReply_str [OF al mem] by simp
  qed (use prefix_appends [OF al mem sh i64] in simp)
  then show "\<exists>c' sv'. addReplyBulkLen sh alloc mem limits a c sv = Some (c', sv') \<and> out_state mem ext v0 c' sv'
    \<and> pending c' (os_objs sv') = pending c (os_objs sv) @ ?hd \<and> oc_reply_bytes c' \<le> oc_reply_bytes c + room ?hd \<and> oc_id c' = oc_id c"
    unfolding e using st unfolding appends_def by blast
qed

lemma addReplyBulk_appends:
  assumes al: "fresh_obj alloc" and mem: "mem_ok mem" and sh: "shared_ok sh ext v0" and a: "0 < ext a" "obj_text (v0 a) = Some s"
    and len: "length s < 2 ^ 40"
  shows "appends mem ext v0 (addReplyBulk sh alloc mem limits a) (bulk s)
    (room (36 # sdec (int (length s)) @ crlf) + (room s + room crlf))"
proof -
  have "appends mem ext v0 (addReply alloc mem limits (sh_crlf sh)) crlf (room crlf)"
    using sh by (intro addReply_str [OF al mem]) (auto simp: shared_ok_def)
  then show ?thesis unfolding addReplyBulk_def bulk_crlf
    by (intro appends_seq bulk_hdr_appends [OF assms] addReply_text [where ext = ext and ?v0.0 = v0 and a = a, OF al mem a])
qed

section \<open>Sending and the schedule\<close>

lemma no_pending_empty: "\<not> clientHasPendingReplies c \<Longrightarrow> out_ok mem ext c h \<Longrightarrow> oc_sentlen c = 0"
  using out_okD(4) by (auto simp: clientHasPendingReplies_def)

lemma out_ok_handler [simp]: "out_ok mem ext (c\<lparr>oc_handler := b\<rparr>) h = out_ok mem ext c h" "pending (c\<lparr>oc_handler := b\<rparr>) h = pending c h"
  "clientHasPendingReplies (c\<lparr>oc_handler := b\<rparr>) = clientHasPendingReplies c"
  by (simp_all add: out_ok_def pending_def clientHasPendingReplies_def)

text \<open>The client and the bytes of the loop; then the handler may have been removed.\<close>

lemma writeToClient_ok:
  assumes wr: "wr_legal wr" and ok: "out_ok mem ext c (os_objs sv)" and fl: "CLOSE_AFTER_REPLY \<notin> oc_flags c"
  obtains c1 h1 s b where "writeToClient wr mem over inst c sv = Some (c1\<lparr>oc_handler := b\<rparr>, sv\<lparr>os_objs := h1\<rparr>, s, Client_valid)"
    and "sends mem ext s (c, os_objs sv) (c1, h1)" and "clientHasPendingReplies c1 \<longrightarrow> b = oc_handler c"
proof -
  obtain c1 h1 s r where w: "write_loop wr mem over 0 [] (Wrote 0) c (os_objs sv) = Some (c1, h1, s, r)"
    "sends mem ext s (c, os_objs sv) (c1, h1)" "r \<noteq> Write_error"
    using write_loop_ok [OF wr ok, of "Wrote 0" over 0 "[]"] by auto
  have o1: "out_ok mem ext c1 h1" and fc: "oc_flags c1 = oc_flags c" and hc: "oc_handler c1 = oc_handler c"
    using w(2) by (auto simp: sends_def same_client_def)
  show thesis
  proof (cases "clientHasPendingReplies c1")
    case True
    have "writeToClient wr mem over inst c sv = Some (c1\<lparr>oc_handler := oc_handler c1\<rparr>, sv\<lparr>os_objs := h1\<rparr>, s, Client_valid)"
      using w(1,3) True by (simp add: writeToClient_def)
    then show thesis using that w(2) hc by blast
  next
    case False
    have "c1\<lparr>oc_sentlen := 0\<rparr> = c1" using no_pending_empty [OF False o1] by simp
    then have "c1\<lparr>oc_sentlen := 0, oc_handler := b\<rparr> = c1\<lparr>oc_handler := b\<rparr>" for b by metis
    then have "writeToClient wr mem over inst c sv =
        Some (c1\<lparr>oc_handler := (if inst then False else oc_handler c1)\<rparr>, sv\<lparr>os_objs := h1\<rparr>, s, Client_valid)"
      using w(1,3) False fl fc by (simp add: writeToClient_def)
    then show thesis using that w(2) False by blast
  qed
qed

text \<open>The values that are referenced from outside, and the flags, after a write.\<close>

lemma out_state_sent:
  assumes st: "out_state mem ext v0 c sv" and ok: "out_ok mem ext c' h'" and k: "kept (outside ext) (os_objs sv) h'"
    and c': "accepting c'" "scheduled c' (sv'\<lparr>os_objs := h'\<rparr>)"
  shows "out_state mem ext v0 c' (sv'\<lparr>os_objs := h'\<rparr>)"
proof -
  have "val h' a = v0 a" if "0 < ext a" for a
  proof -
    have "os_objs sv a \<noteq> None" using st that refs_in out_okD(6) by (metis out_state_def)
    then show ?thesis using k st that by (auto simp: kept_def out_state_def)
  qed
  then show ?thesis using ok c' by (simp add: out_state_def)
qed

lemma sendReplyToClient_ok:
  assumes wr: "wr_legal wr" and st: "out_state mem ext v0 c sv" and hd: "oc_handler c"
  obtains c' sv' s where "sendReplyToClient wr mem over c sv = Some (c', sv', s, Client_valid)" and "out_state mem ext v0 c' sv'"
    and "s @ pending c' (os_objs sv') = pending c (os_objs sv)" and "oc_reply_bytes c' \<le> oc_reply_bytes c" and "oc_id c' = oc_id c"
proof -
  have ok: "out_ok mem ext c (os_objs sv)" "CLOSE_AFTER_REPLY \<notin> oc_flags c" using st by (auto simp: out_state_def accepting_def)
  obtain c1 h1 s b where w: "writeToClient wr mem over True c sv = Some (c1\<lparr>oc_handler := b\<rparr>, sv\<lparr>os_objs := h1\<rparr>, s, Client_valid)"
    "sends mem ext s (c, os_objs sv) (c1, h1)" "clientHasPendingReplies c1 \<longrightarrow> b = oc_handler c"
    by (rule writeToClient_ok [where inst = True and over = over, OF wr ok])
  let ?c = "c1\<lparr>oc_handler := b\<rparr>"
  note sd = w(2) [unfolded sends_def same_client_def prod.case]
  have "accepting ?c" using st sd by (simp add: out_state_def accepting_def)
  moreover have "scheduled ?c (sv\<lparr>os_objs := h1\<rparr>)" using st sd w(3) hd by (simp add: out_state_def scheduled_def)
  ultimately have "out_state mem ext v0 ?c (sv\<lparr>os_objs := h1\<rparr>)" using sd by (intro out_state_sent [OF st]) simp_all
  then show thesis using that [of ?c "sv\<lparr>os_objs := h1\<rparr>" s] w(1) sd by (simp add: sendReplyToClient_def)
qed

lemma count_remove1: "count_list (remove1 x xs) x = count_list xs x - 1"
  by (induction xs) auto

lemma handle_pending_write_ok:
  assumes wr: "wr_legal wr" and st: "out_state mem ext v0 c sv" and pw: "PENDING_WRITE \<in> oc_flags c"
  obtains c' sv' s where "handle_pending_write wr mem over True c sv = Some (c', sv', s, Client_valid)" and "out_state mem ext v0 c' sv'"
    and "s @ pending c' (os_objs sv') = pending c (os_objs sv)" and "oc_reply_bytes c' \<le> oc_reply_bytes c" and "oc_id c' = oc_id c"
proof -
  let ?c0 = "c\<lparr>oc_flags := oc_flags c - {PENDING_WRITE}\<rparr>" and ?s0 = "sv\<lparr>os_pending_write := remove1 (oc_id c) (os_pending_write sv)\<rparr>"
  have ok: "out_ok mem ext ?c0 (os_objs ?s0)" "CLOSE_AFTER_REPLY \<notin> oc_flags ?c0" using st by (auto simp: out_state_def accepting_def)
  obtain c1 h1 s b where w: "writeToClient wr mem over False ?c0 ?s0 = Some (c1\<lparr>oc_handler := b\<rparr>, ?s0\<lparr>os_objs := h1\<rparr>, s, Client_valid)"
    "sends mem ext s (?c0, os_objs ?s0) (c1, h1)" "clientHasPendingReplies c1 \<longrightarrow> b = oc_handler ?c0"
    by (rule writeToClient_ok [where inst = False and over = over, OF wr ok])
  let ?b = "if clientHasPendingReplies c1 then True else b"
  let ?c = "c1\<lparr>oc_handler := ?b\<rparr>"
  note sd = w(2) [unfolded sends_def same_client_def prod.case]
  have fl: "oc_flags c1 = oc_flags c - {PENDING_WRITE}" "oc_id c1 = oc_id c" using sd by simp_all
  have "accepting ?c" using st sd by (auto simp: out_state_def accepting_def)
  moreover have "scheduled ?c (?s0\<lparr>os_objs := h1\<rparr>)"
    using st pw fl by (simp add: out_state_def scheduled_def count_remove1)
  ultimately have "out_state mem ext v0 ?c (?s0\<lparr>os_objs := h1\<rparr>)" using sd by (intro out_state_sent [OF st]) simp_all
  moreover have "handle_pending_write wr mem over True c sv = Some (?c, ?s0\<lparr>os_objs := h1\<rparr>, s, Client_valid)"
    using w(1) by (simp add: handle_pending_write_def Let_def)
  ultimately show thesis using that sd by simp
qed

section \<open>Sequences of replies and writes\<close>

datatype out_op =
    Bulk_reply nat
  | Int_reply int
  | Mbulk_reply int
  | Buffer_reply bytes
  | Status_reply bytes
  | Error_reply bytes
  | Raw_reply bytes
  | Loop_turn "nat \<Rightarrow> nat \<Rightarrow> write_result" bool
  | Writable "nat \<Rightarrow> nat \<Rightarrow> write_result" bool

text \<open>\<open>Loop_turn\<close>: the client is served from the list of clients with pending writes, if it is there; \<open>Writable\<close>: the event loop
  reports the socket, if it is watched.\<close>

fun reply_action :: "shared_objs \<Rightarrow> (oheap \<Rightarrow> nat) \<Rightarrow> (obj_val \<Rightarrow> nat) \<Rightarrow> (oclient \<Rightarrow> bool) \<Rightarrow> out_op \<Rightarrow> out_action" where
  "reply_action sh alloc mem limits (Bulk_reply a) = addReplyBulk sh alloc mem limits a"
| "reply_action sh alloc mem limits (Int_reply n) = addReplyLongLong sh alloc mem limits n"
| "reply_action sh alloc mem limits (Mbulk_reply n) = addReplyMultiBulkLen sh alloc mem limits n"
| "reply_action sh alloc mem limits (Buffer_reply s) = addReplyBulkCBuffer sh alloc mem limits s"
| "reply_action sh alloc mem limits (Status_reply s) = addReplyStatusLength alloc mem limits s"
| "reply_action sh alloc mem limits (Error_reply s) = addReplyErrorLength alloc mem limits s"
| "reply_action sh alloc mem limits (Raw_reply s) = addReplySds alloc mem limits s"
| "reply_action sh alloc mem limits _ = (\<lambda>c sv. None)"

fun out_step :: "shared_objs \<Rightarrow> (oheap \<Rightarrow> nat) \<Rightarrow> (obj_val \<Rightarrow> nat) \<Rightarrow> (oclient \<Rightarrow> bool) \<Rightarrow> out_op \<Rightarrow> oclient \<times> oserver \<Rightarrow>
    ((oclient \<times> oserver) \<times> bytes) option" where
  "out_step sh alloc mem limits (Loop_turn wr over) (c, sv) =
     (if PENDING_WRITE \<in> oc_flags c
      then map_option (\<lambda>(c', sv', s, st). ((c', sv'), s)) (handle_pending_write wr mem over True c sv) else Some ((c, sv), []))"
| "out_step sh alloc mem limits (Writable wr over) (c, sv) =
     (if oc_handler c
      then map_option (\<lambda>(c', sv', s, st). ((c', sv'), s)) (sendReplyToClient wr mem over c sv) else Some ((c, sv), []))"
| "out_step sh alloc mem limits x (c, sv) = map_option (\<lambda>s. (s, [])) (reply_action sh alloc mem limits x c sv)"

text \<open>The bytes of a reply on the wire.\<close>

fun wire :: "(nat \<Rightarrow> obj_val) \<Rightarrow> out_op \<Rightarrow> bytes" where
  "wire v0 (Bulk_reply a) = bulk (the (obj_text (v0 a)))"
| "wire v0 (Int_reply n) = 58 # sdec n @ crlf"
| "wire v0 (Mbulk_reply n) = 42 # sdec n @ crlf"
| "wire v0 (Buffer_reply s) = bulk s"
| "wire v0 (Status_reply s) = [43] @ s @ crlf"
| "wire v0 (Error_reply s) = [45, 69, 82, 82, 32] @ s @ crlf"
| "wire v0 (Raw_reply s) = s"
| "wire v0 (Loop_turn wr over) = []"
| "wire v0 (Writable wr over) = []"

fun out_legal :: "(nat \<Rightarrow> nat) \<Rightarrow> (nat \<Rightarrow> obj_val) \<Rightarrow> out_op \<Rightarrow> bool" where
  "out_legal ext v0 (Bulk_reply a) \<longleftrightarrow> 0 < ext a \<and> (case obj_text (v0 a) of None \<Rightarrow> False | Some s \<Rightarrow> length s < 2 ^ 40)"
| "out_legal ext v0 (Int_reply n) \<longleftrightarrow> in_int64 n"
| "out_legal ext v0 (Mbulk_reply n) \<longleftrightarrow> 0 \<le> n \<and> n \<le> LLONG_MAX"
| "out_legal ext v0 (Buffer_reply s) \<longleftrightarrow> length s < 2 ^ 40"
| "out_legal ext v0 (Status_reply s) \<longleftrightarrow> length s < 2 ^ 40"
| "out_legal ext v0 (Error_reply s) \<longleftrightarrow> length s < 2 ^ 40"
| "out_legal ext v0 (Raw_reply s) \<longleftrightarrow> length s < 2 ^ 40"
| "out_legal ext v0 (Loop_turn wr over) \<longleftrightarrow> wr_legal wr"
| "out_legal ext v0 (Writable wr over) \<longleftrightarrow> wr_legal wr"

lemma room_bound:
  assumes "length s < 2 ^ 40 + 64"
  shows "room s < 2 ^ 42"
  using assms by (simp add: room_def PROTO_REPLY_CHUNK_BYTES_def)

lemma hdr_room: "in_int64 n \<Longrightarrow> room (p # sdec n @ crlf) < 2 ^ 42"
  using length_sdec [of n] by (intro room_bound) (simp add: crlf_def)

lemma reply_appends:
  assumes al: "fresh_obj alloc" and mem: "mem_ok mem" and sh: "shared_ok sh ext v0" and x: "out_legal ext v0 x"
    and r: "\<not> (\<exists>wr over. x = Loop_turn wr over \<or> x = Writable wr over)"
  shows "\<exists>d. d < 2 ^ 44 \<and> appends mem ext v0 (reply_action sh alloc mem limits x) (wire v0 x) d"
proof -
  have crl: "appends mem ext v0 (addReply alloc mem limits (sh_crlf sh)) crlf (room crlf)"
    using sh by (intro addReply_str [OF al mem]) (auto simp: shared_ok_def)
  have crs: "appends mem ext v0 (addReplyString alloc mem limits [13, 10]) crlf (room crlf)"
    using addReplyString_appends [OF al mem, of ext v0 limits crlf] by (simp add: crlf_def)
  have rc: "room crlf < 2 ^ 42" by (rule room_bound) (simp add: crlf_def)
  have len: "in_int64 (int (length s))" if "length s < 2 ^ 40" for s :: bytes using that by (simp add: range_simps)
  have rs: "room s < 2 ^ 42" if "length s < 2 ^ 40" for s using that by (intro room_bound) simp
  show ?thesis
  proof (cases x)
    case (Bulk_reply a)
    then obtain s where s: "obj_text (v0 a) = Some s" "length s < 2 ^ 40" "0 < ext a" using x by (auto split: option.splits)
    have "room (36 # sdec (int (length s)) @ crlf) + (room s + room crlf) < 2 ^ 44" using hdr_room [OF len, of s 36] rs [of s] rc s(2) by simp
    then show ?thesis using addReplyBulk_appends [where a = a, OF al mem sh s(3,1,2), of limits] s(1) Bulk_reply by auto
  next
    case (Int_reply n)
    then have n: "in_int64 n" using x by simp
    have "appends mem ext v0 (addReplyLongLong sh alloc mem limits n) (58 # sdec n @ crlf) (room (58 # sdec n @ crlf))"
      using prefix_appends [OF al mem sh n] sh addReply_str [OF al mem] by (auto simp: addReplyLongLong_def shared_ok_def)
    then show ?thesis using hdr_room [OF n, of 58] Int_reply by (intro exI [of _ "room (58 # sdec n @ crlf)"]) simp
  next
    case (Mbulk_reply n)
    then have n: "in_int64 n" "0 \<le> n" using x by (auto simp: range_simps)
    have "appends mem ext v0 (addReplyMultiBulkLen sh alloc mem limits n) (42 # sdec n @ crlf) (room (42 # sdec n @ crlf))"
    proof (cases "n < int OBJ_SHARED_BULKHDR_LEN")
      case True
      then have "nat n < OBJ_SHARED_BULKHDR_LEN" "int (nat n) = n" using n(2) by auto
      then have "0 < ext (sh_mbulkhdr sh (nat n))" "str_of (v0 (sh_mbulkhdr sh (nat n))) = Some (42 # sdec n @ crlf)"
        using sh unfolding shared_ok_def by metis+
      then show ?thesis using True n(2) addReply_str [OF al mem] by (simp add: addReplyMultiBulkLen_def)
    next
      case False
      then show ?thesis using n prefix_appends [OF al mem sh n(1)] by (simp add: addReplyMultiBulkLen_def)
    qed
    then show ?thesis using hdr_room [OF n(1), of 42] Mbulk_reply by (intro exI [of _ "room (42 # sdec n @ crlf)"]) simp
  next
    case (Buffer_reply s)
    then have l: "length s < 2 ^ 40" using x by simp
    have "appends mem ext v0 (addReplyBulkCBuffer sh alloc mem limits s) (bulk s) (room (36 # sdec (int (length s)) @ crlf) + (room s + room crlf))"
      unfolding addReplyBulkCBuffer_def bulk_crlf by (intro appends_seq prefix_appends [OF al mem sh len [OF l]] addReplyString_appends [OF al mem] crl)
    moreover have "room (36 # sdec (int (length s)) @ crlf) + (room s + room crlf) < 2 ^ 44" using hdr_room [OF len, of s 36] rs [of s] rc l by simp
    ultimately show ?thesis using Buffer_reply by auto
  next
    case (Status_reply s)
    then have l: "length s < 2 ^ 40" using x by simp
    have "appends mem ext v0 (addReplyStatusLength alloc mem limits s) ([43] @ s @ crlf) (room [43] + (room s + room crlf))"
      unfolding addReplyStatusLength_def by (intro appends_seq addReplyString_appends [OF al mem] crs)
    moreover have "room [43] + (room s + room crlf) < 2 ^ 44" using room_bound [of "[43]"] rs [OF l] rc by simp
    ultimately show ?thesis using Status_reply by (intro exI [of _ "room [43] + (room s + room crlf)"]) simp
  next
    case (Error_reply s)
    then have l: "length s < 2 ^ 40" using x by simp
    have "appends mem ext v0 (addReplyErrorLength alloc mem limits s) ([45, 69, 82, 82, 32] @ s @ crlf) (room [45, 69, 82, 82, 32] + (room s + room crlf))"
      unfolding addReplyErrorLength_def by (intro appends_seq addReplyString_appends [OF al mem] crs)
    moreover have "room [45, 69, 82, 82, 32] + (room s + room crlf) < 2 ^ 44" using room_bound [of "[45, 69, 82, 82, 32]"] rs [OF l] rc by simp
    ultimately show ?thesis using Error_reply by (intro exI [of _ "room [45, 69, 82, 82, 32] + (room s + room crlf)"]) simp
  next
    case (Raw_reply s)
    then have l: "length s < 2 ^ 40" using x by simp
    show ?thesis using addReplySds_appends [OF al mem, of ext v0 limits s] rs [OF l] Raw_reply by (intro exI [of _ "room s"]) simp
  qed (use r in auto)
qed

lemma out_step_ok:
  assumes al: "fresh_obj alloc" and mem: "mem_ok mem" and sh: "shared_ok sh ext v0" and x: "out_legal ext v0 x"
    and st: "out_state mem ext v0 c sv" and b: "oc_reply_bytes c + 2 ^ 44 < 2 ^ 63"
  obtains c' sv' s where "out_step sh alloc mem limits x (c, sv) = Some ((c', sv'), s)" and "out_state mem ext v0 c' sv'"
    and "s @ pending c' (os_objs sv') = pending c (os_objs sv) @ wire v0 x" and "oc_reply_bytes c' \<le> oc_reply_bytes c + 2 ^ 44"
proof (cases "\<exists>wr over. x = Loop_turn wr over \<or> x = Writable wr over")
  case False
  then obtain d where d: "d < 2 ^ 44" "appends mem ext v0 (reply_action sh alloc mem limits x) (wire v0 x) d"
    using reply_appends [OF al mem sh x] by blast
  have bd: "oc_reply_bytes c + d < 2 ^ 63" using b d(1) by simp
  obtain c' sv' where r: "reply_action sh alloc mem limits x c sv = Some (c', sv')" "out_state mem ext v0 c' sv'"
    "pending c' (os_objs sv') = pending c (os_objs sv) @ wire v0 x" "oc_reply_bytes c' \<le> oc_reply_bytes c + d"
    "oc_id c' = oc_id c" by (rule appendsE [OF d(2) st bd])
  have "out_step sh alloc mem limits x (c, sv) = Some ((c', sv'), [])" using False r(1) by (cases x) auto
  then show thesis using that r d(1) by simp
next
  case True
  then obtain wr over where w: "x = Loop_turn wr over \<or> x = Writable wr over" by blast
  then have l: "wr_legal wr" using x by auto
  note found = that
  have idle: thesis if "out_step sh alloc mem limits x (c, sv) = Some ((c, sv), [])"
    using that w st by (intro found [of c sv "[]"]) auto
  show thesis
  proof (cases "x = Loop_turn wr over")
    case True
    show thesis
    proof (cases "PENDING_WRITE \<in> oc_flags c")
      case pw: True
      obtain c' sv' s where "handle_pending_write wr mem over True c sv = Some (c', sv', s, Client_valid)" "out_state mem ext v0 c' sv'"
        "s @ pending c' (os_objs sv') = pending c (os_objs sv)" "oc_reply_bytes c' \<le> oc_reply_bytes c" "oc_id c' = oc_id c"
        by (rule handle_pending_write_ok [where over = over, OF l st pw])
      then show thesis using that [of c' sv' s] True pw by simp
    qed (rule idle, simp add: True)
  next
    case False
    then have xw: "x = Writable wr over" using w by blast
    show thesis
    proof (cases "oc_handler c")
      case hd: True
      obtain c' sv' s where "sendReplyToClient wr mem over c sv = Some (c', sv', s, Client_valid)" "out_state mem ext v0 c' sv'"
        "s @ pending c' (os_objs sv') = pending c (os_objs sv)" "oc_reply_bytes c' \<le> oc_reply_bytes c" "oc_id c' = oc_id c"
        by (rule sendReplyToClient_ok [where over = over, OF l st hd])
      then show thesis using that [of c' sv' s] xw hd by simp
    qed (rule idle, simp add: xw)
  qed
qed

lemma out_run:
  assumes al: "fresh_obj alloc" and mem: "mem_ok mem" and sh: "shared_ok sh ext v0" and "list_all (out_legal ext v0) xs"
    and "out_state mem ext v0 c sv" and "oc_reply_bytes c + int (length xs) * 2 ^ 44 < 2 ^ 63"
  shows "\<exists>c' sv' outs. run_ops (out_step sh alloc mem limits) xs (c, sv) = Some ((c', sv'), outs) \<and> out_state mem ext v0 c' sv'
    \<and> concat outs @ pending c' (os_objs sv') = pending c (os_objs sv) @ concat (map (wire v0) xs)"
  using assms(4-6)
proof (induction xs arbitrary: c sv)
  case (Cons x xs)
  have b: "oc_reply_bytes c + 2 ^ 44 < 2 ^ 63" using Cons.prems(3) by (simp add: algebra_simps)
  have x: "out_legal ext v0 x" using Cons.prems(1) by simp
  obtain c1 sv1 s where r: "out_step sh alloc mem limits x (c, sv) = Some ((c1, sv1), s)" "out_state mem ext v0 c1 sv1"
    "s @ pending c1 (os_objs sv1) = pending c (os_objs sv) @ wire v0 x" "oc_reply_bytes c1 \<le> oc_reply_bytes c + 2 ^ 44"
    by (rule out_step_ok [where limits = limits, OF al mem sh x Cons.prems(2) b])
  have "oc_reply_bytes c1 + int (length xs) * 2 ^ 44 < 2 ^ 63" using r(4) Cons.prems(3) by (simp add: algebra_simps)
  then obtain c' sv' outs where q: "run_ops (out_step sh alloc mem limits) xs (c1, sv1) = Some ((c', sv'), outs)" "out_state mem ext v0 c' sv'"
    "concat outs @ pending c' (os_objs sv') = pending c1 (os_objs sv1) @ concat (map (wire v0) xs)"
    using Cons.IH [OF _ r(2)] Cons.prems(1) by auto
  have "s @ concat outs @ pending c' (os_objs sv') = (pending c (os_objs sv) @ wire v0 x) @ concat (map (wire v0) xs)"
    using q(3) r(3) by (metis append.assoc)
  then show ?case using r(1) q(1,2) by simp
qed simp

section \<open>A concrete server\<close>

text \<open>The shared objects and two objects of a database, and a client that has just connected.\<close>

definition example_val :: "nat \<Rightarrow> obj_val option" where
  "example_val a =
     (if a = 0 then Some (Emb_str crlf)
      else if a = 1 then Some (Emb_str (58 # sdec 0 @ crlf))
      else if a = 2 then Some (Emb_str (58 # sdec 1 @ crlf))
      else if a = 3 then Some (Raw_str [104, 105])
      else if a = 4 then Some (Int_obj (- 12))
      else if 10 \<le> a \<and> a < 42 then Some (Emb_str (42 # sdec (int (a - 10)) @ crlf))
      else if 50 \<le> a \<and> a < 82 then Some (Emb_str (36 # sdec (int (a - 50)) @ crlf))
      else None)"

definition example_shared :: shared_objs where
  "example_shared = \<lparr>sh_crlf = 0, sh_czero = 1, sh_cone = 2, sh_mbulkhdr = (\<lambda>n. 10 + n), sh_bulkhdr = (\<lambda>n. 50 + n)\<rparr>"

definition example_server :: oserver where
  "example_server = \<lparr>os_objs = (\<lambda>a. map_option (\<lambda>v. \<lparr>so_val = v, so_ref = 1\<rparr>) (example_val a)), os_pending_write = [], os_to_close = []\<rparr>"

definition example_client :: oclient where
  "example_client = \<lparr>oc_id = 7, oc_fd = 5, oc_buf = replicate PROTO_REPLY_CHUNK_BYTES 0, oc_bufpos = 0, oc_reply = [], oc_reply_bytes = 0,
     oc_sentlen = 0, oc_flags = {}, oc_replstate = REPL_STATE_NONE, oc_put_online_on_ack = False, oc_handler = False\<rparr>"

definition example_ext :: "nat \<Rightarrow> nat" where
  "example_ext a = (if example_val a = None then 0 else 1)"

definition example_v0 :: "nat \<Rightarrow> obj_val" where
  "example_v0 a = the (example_val a)"

definition str_mem :: "obj_val \<Rightarrow> nat" where
  "str_mem v = (case str_of v of Some s \<Rightarrow> length s | None \<Rightarrow> 0)"

definition first_free_obj :: "oheap \<Rightarrow> nat" where
  "first_free_obj h = (LEAST a. h a = None)"

lemma first_free_obj_fresh: "fresh_obj first_free_obj"
  unfolding fresh_obj_def first_free_obj_def
proof (intro allI impI)
  fix h :: oheap assume "finite (dom h)"
  then obtain a where "a \<notin> dom h" using ex_new_if_finite infinite_UNIV_nat by blast
  then show "(LEAST a. h a = None) \<notin> dom h" using LeastI [of "\<lambda>a. h a = None" a] by (simp add: domIff)
qed

lemma str_mem_ok: "mem_ok str_mem"
  by (auto simp: mem_ok_def str_mem_def)

lemma example_shared_ok: "shared_ok example_shared example_ext example_v0"
  by (auto simp: shared_ok_def example_shared_def example_ext_def example_v0_def example_val_def OBJ_SHARED_BULKHDR_LEN_def)

lemma example_state: "out_state str_mem example_ext example_v0 example_client example_server"
proof -
  have dom: "dom (os_objs example_server) \<subseteq> {..<100}" by (auto simp: example_server_def example_val_def split: if_splits)
  have "refs_ok example_ext [] (os_objs example_server)"
    by (auto simp: refs_ok_def example_server_def example_ext_def split: option.split)
  then have "out_ok str_mem example_ext example_client (os_objs example_server)"
    using finite_subset [OF dom] by (simp add: out_ok_def example_client_def)
  moreover have "val (os_objs example_server) a = example_v0 a" if "0 < example_ext a" for a
    using that by (auto simp: example_server_def example_ext_def example_v0_def split: if_splits)
  ultimately show ?thesis
    by (auto simp: out_state_def accepting_def scheduled_def example_client_def example_server_def clientHasPendingReplies_def)
qed

section \<open>Properties\<close>

text \<open>
  C11.  The client receives the replies in order and complete.  Whatever sequence of replies is queued (bulk replies
  of string and integer objects, integers, lengths of multi bulk replies, buffers, status and error lines, raw
  strings), interleaved with writes to its socket that accept any part of what is offered: no assertion fails,
  and the bytes sent, followed by the bytes still pending, are the pending ones of the start followed by the
  encodings of the replies.  No byte is lost, repeated or reordered between the static buffer and the list.
\<close>

theorem replies_sent_in_order:
  assumes "fresh_obj alloc" and "mem_ok mem" and "shared_ok sh ext v0" and "list_all (out_legal ext v0) xs"
    and "out_state mem ext v0 c sv" and "oc_reply_bytes c + int (length xs) * 2 ^ 44 < 2 ^ 63"
  shows "\<exists>c' sv' outs. run_ops (out_step sh alloc mem limits) xs (c, sv) = Some ((c', sv'), outs)
    \<and> concat outs @ pending c' (os_objs sv') = pending c (os_objs sv) @ concat (map (wire v0) xs)"
  using out_run [OF assms, of limits] by blast

theorem replies_sent_in_order_witness:
  "\<exists>c' sv' outs. run_ops (out_step example_shared first_free_obj str_mem (\<lambda>_. False))
      [Mbulk_reply 2, Bulk_reply 3, Loop_turn (\<lambda>k n. Wrote (min n 3)) False, Bulk_reply 4, Writable (\<lambda>k n. if k = 0 then Wrote (min n 2) else Write_again) True]
      (example_client, example_server) = Some ((c', sv'), outs)
    \<and> concat outs @ pending c' (os_objs sv') =
      [42, 50, 13, 10, 36, 50, 13, 10, 104, 105, 13, 10, 36, 51, 13, 10, 45, 49, 50, 13, 10]"
proof -
  let ?xs = "[Mbulk_reply 2, Bulk_reply 3, Loop_turn (\<lambda>k n. Wrote (min n 3)) False, Bulk_reply 4, Writable (\<lambda>k n. if k = 0 then Wrote (min n 2) else Write_again) True]"
  have sd: "sdec 2 = [50]" "sdec 3 = [51]" "sdec (- 12) = [45, 49, 50]" by (simp_all add: sdec_def dec.simps byte_of_digit_def)
  have t: "obj_text (example_v0 3) = Some [104, 105]" "obj_text (example_v0 4) = Some [45, 49, 50]"
    by (simp_all add: obj_text_def example_v0_def example_val_def sd range_simps)
  have "list_all (out_legal example_ext example_v0) ?xs"
    using t by (simp add: wr_legal_def example_ext_def example_val_def range_simps)
  moreover have "concat (map (wire example_v0) ?xs) = [42, 50, 13, 10, 36, 50, 13, 10, 104, 105, 13, 10, 36, 51, 13, 10, 45, 49, 50, 13, 10]"
    using t sd by (simp add: bulk_def crlf_def)
  moreover have "pending example_client (os_objs example_server) = []" by (simp add: pending_def example_client_def)
  ultimately show ?thesis
    using replies_sent_in_order [OF first_free_obj_fresh str_mem_ok example_shared_ok _ example_state, of ?xs "\<lambda>_. False"]
    by (simp add: example_client_def del: run_ops.simps)
qed

text \<open>
  C22.  Replies do not touch the data.  The reply list shares objects with the database and appends to its last
  object: an object that is referenced from elsewhere keeps its value through every sequence of replies and
  writes, and its reference count is the number of the references from elsewhere and from the list, so that it
  is neither freed too early nor leaked.
\<close>

theorem replies_keep_objects:
  assumes "fresh_obj alloc" and "mem_ok mem" and "shared_ok sh ext v0" and "list_all (out_legal ext v0) xs"
    and "out_state mem ext v0 c sv" and "oc_reply_bytes c + int (length xs) * 2 ^ 44 < 2 ^ 63" and "0 < ext a"
  shows "\<exists>c' sv' outs ob. run_ops (out_step sh alloc mem limits) xs (c, sv) = Some ((c', sv'), outs) \<and> os_objs sv' a = Some ob
    \<and> so_val ob = val (os_objs sv) a \<and> so_ref ob = int (ext a + count_list (oc_reply c') a)"
proof -
  obtain c' sv' outs where r: "run_ops (out_step sh alloc mem limits) xs (c, sv) = Some ((c', sv'), outs)" "out_state mem ext v0 c' sv'"
    using out_run [OF assms(1-6), of limits] by blast
  have refs: "refs_ok ext (oc_reply c') (os_objs sv')" using r(2) by (auto simp: out_state_def dest: out_okD(6))
  obtain ob where ob: "os_objs sv' a = Some ob" using refs_in [OF refs, of a] assms(7) by auto
  have "val (os_objs sv') a = v0 a" "val (os_objs sv) a = v0 a" using r(2) assms(5,7) unfolding out_state_def by blast+
  then show ?thesis using r(1) ob refs by (auto simp: refs_ok_def dest: spec [of _ a])
qed

theorem replies_keep_objects_witness:
  "\<exists>c' sv' outs ob. run_ops (out_step example_shared first_free_obj str_mem (\<lambda>_. False))
      [Raw_reply (replicate 16384 97), Bulk_reply 3, Raw_reply [98]] (example_client, example_server) = Some ((c', sv'), outs)
    \<and> os_objs sv' 3 = Some ob \<and> so_val ob = Raw_str [104, 105] \<and> so_ref ob = int (1 + count_list (oc_reply c') 3)"
proof -
  let ?xs = "[Raw_reply (replicate 16384 97), Bulk_reply 3, Raw_reply [98]]"
  have "list_all (out_legal example_ext example_v0) ?xs"
    by (simp add: example_ext_def example_val_def obj_text_def example_v0_def)
  moreover have "val (os_objs example_server) 3 = Raw_str [104, 105]" "example_ext 3 = 1"
    by (simp_all add: example_server_def example_val_def example_ext_def)
  ultimately show ?thesis
    using replies_keep_objects [OF first_free_obj_fresh str_mem_ok example_shared_ok _ example_state, of ?xs 3 "\<lambda>_. False"]
    by (simp add: example_client_def del: run_ops.simps)
qed

text \<open>
  C23.  No reply is forgotten: after any such sequence a client with pending replies is in the list of the clients
  that the next turn of the event loop serves, exactly once, or its socket is watched; and the memory counted for
  the reply list is the memory of its objects.
\<close>

theorem pending_replies_scheduled:
  assumes "fresh_obj alloc" and "mem_ok mem" and "shared_ok sh ext v0" and "list_all (out_legal ext v0) xs"
    and "out_state mem ext v0 c sv" and "oc_reply_bytes c + int (length xs) * 2 ^ 44 < 2 ^ 63"
  shows "\<exists>c' sv' outs. run_ops (out_step sh alloc mem limits) xs (c, sv) = Some ((c', sv'), outs)
    \<and> (clientHasPendingReplies c' \<longrightarrow> count_list (os_pending_write sv') (oc_id c') = 1 \<or> oc_handler c')
    \<and> oc_reply_bytes c' = (\<Sum>a\<leftarrow>oc_reply c'. int (mem (val (os_objs sv') a)))"
proof -
  obtain c' sv' outs where r: "run_ops (out_step sh alloc mem limits) xs (c, sv) = Some ((c', sv'), outs)" "out_state mem ext v0 c' sv'"
    using out_run [OF assms, of limits] by blast
  then show ?thesis using out_okD(8) by (auto simp: out_state_def scheduled_def)
qed

theorem pending_replies_scheduled_witness:
  "\<exists>c' sv' outs. run_ops (out_step example_shared first_free_obj str_mem (\<lambda>_. False))
      [Raw_reply (replicate 16384 97), Bulk_reply 3, Loop_turn (\<lambda>k n. if k = 0 then Wrote (min n 2) else Write_again) True]
      (example_client, example_server) = Some ((c', sv'), outs)
    \<and> (clientHasPendingReplies c' \<longrightarrow> count_list (os_pending_write sv') (oc_id c') = 1 \<or> oc_handler c')"
proof -
  let ?xs = "[Raw_reply (replicate 16384 97), Bulk_reply 3, Loop_turn (\<lambda>k n. if k = 0 then Wrote (min n 2) else Write_again) True]"
  have "list_all (out_legal example_ext example_v0) ?xs"
    by (simp add: example_ext_def example_val_def obj_text_def example_v0_def wr_legal_def)
  then show ?thesis
    using pending_replies_scheduled [OF first_free_obj_fresh str_mem_ok example_shared_ok _ example_state, of ?xs "\<lambda>_. False"]
    by (auto simp: example_client_def simp del: run_ops.simps)
qed

end
