(* ===== verification/Sds.thy ===== *)
theory Sds
  imports Refinement
begin

text \<open>
  \<^verbatim>\<open>sds.c\<close>, \<^verbatim>\<open>sds.h\<close>: the binary safe strings of the server.  An sds is its header, of one of five
  layouts with length and capacity fields of 5 to 64 bits, and the bytes allocated after the header,
  of which there is one more than the capacity, for the terminator.  The length and capacity are
  stored modulo the width of their field, as the assignments of the code do.  A write outside the
  allocated bytes and a failed \<open>assert\<close> are \<open>None\<close>.  \<open>s_malloc\<close> and \<open>s_realloc\<close> do not return \<open>NULL\<close>
  (\<^verbatim>\<open>zmalloc.c\<close> aborts); \<open>u\<close> is the content of the bytes they return.
\<close>

section \<open>The model\<close>

datatype sds_type = SDS_TYPE_5 | SDS_TYPE_8 | SDS_TYPE_16 | SDS_TYPE_32 | SDS_TYPE_64

record sds =
  s_type :: sds_type
  s_len :: nat
  s_alloc :: nat
  s_buf :: bytes

fun type_bits :: "sds_type \<Rightarrow> nat" where
  "type_bits SDS_TYPE_5 = 5" | "type_bits SDS_TYPE_8 = 8" | "type_bits SDS_TYPE_16 = 16"
| "type_bits SDS_TYPE_32 = 32" | "type_bits SDS_TYPE_64 = 64"

definition SDS_MAX_PREALLOC :: nat where "SDS_MAX_PREALLOC = 1024 * 1024"

fun sdsHdrSize :: "sds_type \<Rightarrow> nat" where
  "sdsHdrSize SDS_TYPE_5 = 1" | "sdsHdrSize SDS_TYPE_8 = 3" | "sdsHdrSize SDS_TYPE_16 = 5"
| "sdsHdrSize SDS_TYPE_32 = 9" | "sdsHdrSize SDS_TYPE_64 = 17"

definition sdsReqType :: "nat \<Rightarrow> sds_type" where
  "sdsReqType string_size =
     (if string_size < 2 ^ 5 then SDS_TYPE_5
      else if string_size < 2 ^ 8 then SDS_TYPE_8
      else if string_size < 2 ^ 16 then SDS_TYPE_16
      else if string_size < 2 ^ 32 then SDS_TYPE_32
      else SDS_TYPE_64)"

definition sdslen :: "sds \<Rightarrow> nat" where
  "sdslen s = s_len s"

definition sdsalloc :: "sds \<Rightarrow> nat" where
  "sdsalloc s = (if s_type s = SDS_TYPE_5 then s_len s else s_alloc s)"

text \<open>\<open>alloc - len\<close> in \<open>int\<close> for the fields of 8 and 16 bits, unsigned for the larger ones, as a \<open>size_t\<close>.\<close>

definition sdsavail :: "sds \<Rightarrow> nat" where
  "sdsavail s =
     (case s_type s of SDS_TYPE_5 \<Rightarrow> 0
      | SDS_TYPE_32 \<Rightarrow> nat ((int (s_alloc s) - int (s_len s)) mod 2 ^ 32)
      | _ \<Rightarrow> nat ((int (s_alloc s) - int (s_len s)) mod 2 ^ 64))"

definition sdssetlen :: "sds \<Rightarrow> nat \<Rightarrow> sds" where
  "sdssetlen s newlen = s\<lparr>s_len := newlen mod 2 ^ type_bits (s_type s)\<rparr>"

definition sdsinclen :: "sds \<Rightarrow> nat \<Rightarrow> sds" where
  "sdsinclen s inc = s\<lparr>s_len := (s_len s + inc) mod 2 ^ type_bits (s_type s)\<rparr>"

definition sdssetalloc :: "sds \<Rightarrow> nat \<Rightarrow> sds" where
  "sdssetalloc s newlen =
     (if s_type s = SDS_TYPE_5 then s else s\<lparr>s_alloc := newlen mod 2 ^ type_bits (s_type s)\<rparr>)"

text \<open>\<open>memcpy(s + off, bs, |bs|)\<close>.\<close>

definition put_bytes :: "nat \<Rightarrow> bytes \<Rightarrow> sds \<Rightarrow> sds option" where
  "put_bytes off bs s =
     (if off + length bs \<le> length (s_buf s) then Some (s\<lparr>s_buf := write_at off bs (s_buf s)\<rparr>) else None)"

definition sdsnewlen :: "byte \<Rightarrow> bytes option \<Rightarrow> nat \<Rightarrow> sds option" where
  "sdsnewlen u init initlen =
     (let type0 = sdsReqType initlen;
          type = (if type0 = SDS_TYPE_5 \<and> initlen = 0 then SDS_TYPE_8 else type0);
          sh = \<lparr>s_type = type, s_len = initlen mod 2 ^ type_bits type, s_alloc = initlen mod 2 ^ type_bits type,
                s_buf = replicate (initlen + 1) (if init = None then 0 else u)\<rparr>
      in do {
        s \<leftarrow> (case init of Some bs \<Rightarrow> if initlen \<noteq> 0 then put_bytes 0 (take initlen bs) sh else Some sh
              | None \<Rightarrow> Some sh);
        put_bytes initlen [0] s})"

definition sdsempty :: "byte \<Rightarrow> sds option" where
  "sdsempty u = sdsnewlen u (Some []) 0"

definition sdsdup :: "byte \<Rightarrow> sds \<Rightarrow> sds option" where
  "sdsdup u s = sdsnewlen u (Some (s_buf s)) (sdslen s)"

text \<open>\<open>strlen\<close> of the buffer, then \<open>int\<close>.\<close>

definition sdsupdatelen :: "sds \<Rightarrow> sds" where
  "sdsupdatelen s = sdssetlen s (nat (to_signed 32 (int (length (takeWhile (\<lambda>b. b \<noteq> 0) (s_buf s)))) mod 2 ^ 64))"

definition sdsclear :: "sds \<Rightarrow> sds option" where
  "sdsclear s = put_bytes 0 [0] (sdssetlen s 0)"

definition sdsMakeRoomFor :: "byte \<Rightarrow> sds \<Rightarrow> nat \<Rightarrow> sds option" where
  "sdsMakeRoomFor u s addlen =
     (if sdsavail s \<ge> addlen then Some s
      else
        let len = sdslen s;
            newlen0 = (len + addlen) mod 2 ^ 64;
            newlen = (if newlen0 < SDS_MAX_PREALLOC then newlen0 * 2 else (newlen0 + SDS_MAX_PREALLOC) mod 2 ^ 64);
            type0 = sdsReqType newlen;
            type = (if type0 = SDS_TYPE_5 then SDS_TYPE_8 else type0);
            bufsize = (sdsHdrSize type + newlen + 1) mod 2 ^ 64 - sdsHdrSize type
        in if s_type s = type then
             Some (sdssetalloc (s\<lparr>s_buf := realloc u bufsize (s_buf s)\<rparr>) newlen)
           else do {
             s1 \<leftarrow> put_bytes 0 (take (len + 1) (s_buf s)) (s\<lparr>s_type := type, s_buf := replicate bufsize u\<rparr>);
             Some (sdssetalloc (sdssetlen s1 len) newlen)})"

definition sdsRemoveFreeSpace :: "byte \<Rightarrow> sds \<Rightarrow> sds option" where
  "sdsRemoveFreeSpace u s =
     (let len = sdslen s; type = sdsReqType len
      in if s_type s = type then
           Some (sdssetalloc (s\<lparr>s_buf := realloc u (len + 1) (s_buf s)\<rparr>) len)
         else do {
           s1 \<leftarrow> put_bytes 0 (take (len + 1) (s_buf s)) (s\<lparr>s_type := type, s_buf := replicate (len + 1) u\<rparr>);
           Some (sdssetalloc (sdssetlen s1 len) len)})"

definition sdsAllocSize :: "sds \<Rightarrow> nat" where
  "sdsAllocSize s = sdsHdrSize (s_type s) + sdsalloc s + 1"

text \<open>\<open>incr\<close> is an \<open>int\<close>; the assertion of the 5-bit layout refuses 0.\<close>

definition incr_allowed :: "sds \<Rightarrow> int \<Rightarrow> bool" where
  "incr_allowed s incr =
     (if s_type s = SDS_TYPE_5 then
        (incr > 0 \<and> int (s_len s) + incr < 32) \<or> (incr < 0 \<and> int (s_len s) \<ge> - incr)
      else (incr \<ge> 0 \<and> int (s_alloc s) - int (s_len s) \<ge> incr) \<or> (incr < 0 \<and> int (s_len s) \<ge> - incr))"

definition sdsIncrLen :: "sds \<Rightarrow> int \<Rightarrow> sds option" where
  "sdsIncrLen s incr =
     (if \<not> incr_allowed s incr then None
      else
        let s1 = sdssetlen s (nat (int (s_len s) + incr))
        in put_bytes (s_len s1) [0] s1)"

definition sdsgrowzero :: "byte \<Rightarrow> sds \<Rightarrow> nat \<Rightarrow> sds option" where
  "sdsgrowzero u s len =
     (let curlen = sdslen s
      in if len \<le> curlen then Some s
         else do {
           s1 \<leftarrow> sdsMakeRoomFor u s (len - curlen);
           s2 \<leftarrow> put_bytes curlen (replicate (len - curlen + 1) 0) s1;
           Some (sdssetlen s2 len)})"

definition sdscatlen :: "byte \<Rightarrow> sds \<Rightarrow> bytes \<Rightarrow> sds option" where
  "sdscatlen u s t =
     (let curlen = sdslen s; len = length t
      in do {
        s1 \<leftarrow> sdsMakeRoomFor u s len;
        s2 \<leftarrow> put_bytes curlen t s1;
        put_bytes (curlen + len) [0] (sdssetlen s2 (curlen + len))})"

definition sdscatsds :: "byte \<Rightarrow> sds \<Rightarrow> sds \<Rightarrow> sds option" where
  "sdscatsds u s t = sdscatlen u s (take (sdslen t) (s_buf t))"

definition sdscpylen :: "byte \<Rightarrow> sds \<Rightarrow> bytes \<Rightarrow> sds option" where
  "sdscpylen u s t =
     (let len = length t
      in do {
        s1 \<leftarrow> (if sdsalloc s < len then sdsMakeRoomFor u s (len - sdslen s) else Some s);
        s2 \<leftarrow> put_bytes 0 t s1;
        s3 \<leftarrow> put_bytes len [0] s2;
        Some (sdssetlen s3 len)})"

text \<open>\<open>strchr(cset, c)\<close> also finds the terminator of \<open>cset\<close>.\<close>

definition strchr :: "bytes \<Rightarrow> byte \<Rightarrow> bool" where
  "strchr cset c = (c \<in> set cset \<or> c = 0)"

fun trim_left :: "bytes \<Rightarrow> bytes \<Rightarrow> nat \<Rightarrow> nat \<Rightarrow> nat" where
  "trim_left cset buf sp 0 = sp"
| "trim_left cset buf sp (Suc n) = (if strchr cset (buf ! sp) then trim_left cset buf (Suc sp) n else sp)"

function trim_right :: "bytes \<Rightarrow> bytes \<Rightarrow> nat \<Rightarrow> int \<Rightarrow> int" where
  "trim_right cset buf sp ep =
     (if ep > int sp \<and> strchr cset (buf ! nat ep) then trim_right cset buf sp (ep - 1) else ep)"
  by pat_completeness auto
termination by (relation "measure (\<lambda>(cset, buf, sp, ep). nat ep)") auto

declare trim_right.simps [simp del]

definition sdstrim :: "sds \<Rightarrow> bytes \<Rightarrow> sds option" where
  "sdstrim s cset =
     (let sp = trim_left cset (s_buf s) 0 (sdslen s);
          ep = trim_right cset (s_buf s) sp (int (sdslen s) - 1);
          len = (if int sp > ep then 0 else nat ((ep - int sp) + 1));
          s1 = (if sp \<noteq> 0 then s\<lparr>s_buf := memmove 0 sp len (s_buf s)\<rparr> else s)
      in map_option (\<lambda>s2. sdssetlen s2 len) (put_bytes len [0] s1))"

definition sdsrange :: "sds \<Rightarrow> int \<Rightarrow> int \<Rightarrow> sds option" where
  "sdsrange s start0 end0 =
     (let len = sdslen s; slen = to_signed 32 (int len)
      in if len = 0 then Some s
         else
           let start1 = (if start0 < 0 then to_signed 32 (int len + start0) else start0);
               start = (if start0 < 0 \<and> start1 < 0 then 0 else start1);
               end1 = (if end0 < 0 then to_signed 32 (int len + end0) else end0);
               end2 = (if end0 < 0 \<and> end1 < 0 then 0 else end1);
               newlen0 = (if start > end2 then 0 else (end2 - start) + 1);
               (start', newlen) =
                 (if newlen0 \<noteq> 0 then
                    (if start \<ge> slen then (start, 0)
                     else if end2 \<ge> slen then
                       let end3 = slen - 1 in (start, if start > end3 then 0 else (end3 - start) + 1)
                     else (start, newlen0))
                  else (0, newlen0));
               s1 = (if start' \<noteq> 0 \<and> newlen \<noteq> 0 then s\<lparr>s_buf := memmove 0 (nat start') (nat newlen) (s_buf s)\<rparr> else s)
           in map_option (\<lambda>s2. sdssetlen s2 (nat newlen)) (put_bytes (nat newlen) [0] s1))"

text \<open>\<open>toupper\<close> in the C locale.\<close>

definition toupper :: "byte \<Rightarrow> byte" where
  "toupper c = (if 97 \<le> c \<and> c \<le> 122 then c - 32 else c)"

definition map_prefix :: "(byte \<Rightarrow> byte) \<Rightarrow> sds \<Rightarrow> sds" where
  "map_prefix f s = s\<lparr>s_buf := map f (take (sdslen s) (s_buf s)) @ drop (sdslen s) (s_buf s)\<rparr>"

definition sdstolower :: "sds \<Rightarrow> sds" where
  "sdstolower s = map_prefix tolower s"

definition sdstoupper :: "sds \<Rightarrow> sds" where
  "sdstoupper s = map_prefix toupper s"

fun subst_char :: "bytes \<Rightarrow> bytes \<Rightarrow> byte \<Rightarrow> byte" where
  "subst_char (f # from) (t # to) c = (if c = f then t else subst_char from to c)"
| "subst_char _ _ c = c"

definition sdsmapchars :: "sds \<Rightarrow> bytes \<Rightarrow> bytes \<Rightarrow> sds" where
  "sdsmapchars s from to = map_prefix (subst_char from to) s"

text \<open>\<open>memcmp\<close> as the difference of the first bytes that differ; \<open>l1 - l2\<close> is cut to an \<open>int\<close>.\<close>

fun memcmp :: "bytes \<Rightarrow> bytes \<Rightarrow> int" where
  "memcmp (a # as) (b # bs) = (if a = b then memcmp as bs else int (unat a) - int (unat b))"
| "memcmp _ _ = 0"

definition sdscmp :: "sds \<Rightarrow> sds \<Rightarrow> int" where
  "sdscmp s1 s2 =
     (let l1 = sdslen s1; l2 = sdslen s2; minlen = (if l1 < l2 then l1 else l2);
          cmp = memcmp (take minlen (s_buf s1)) (take minlen (s_buf s2))
      in if cmp = 0 then to_signed 32 (int l1 - int l2) else cmp)"


section \<open>Well-formed strings\<close>

definition sds_cap :: "sds \<Rightarrow> bool" where
  "sds_cap s \<longleftrightarrow> s_len s \<le> sdsalloc s \<and> sdsalloc s < 2 ^ type_bits (s_type s) \<and> sdsalloc s < length (s_buf s)"

definition sds_wf :: "sds \<Rightarrow> bool" where
  "sds_wf s \<longleftrightarrow> sds_cap s \<and> s_buf s ! s_len s = 0"

definition content :: "sds \<Rightarrow> bytes" where
  "content s = take (s_len s) (s_buf s)"

lemma sds_wf_cap: "sds_wf s \<Longrightarrow> sds_cap s"
  by (simp add: sds_wf_def)

lemma length_content: "sds_cap s \<Longrightarrow> length (content s) = s_len s"
  by (auto simp: content_def sds_cap_def)

lemma put_bytes_cap: "sds_cap s \<Longrightarrow> off + length bs \<le> Suc (sdsalloc s) \<Longrightarrow>
    put_bytes off bs s = Some (s\<lparr>s_buf := write_at off bs (s_buf s)\<rparr>)
    \<and> sds_cap (s\<lparr>s_buf := write_at off bs (s_buf s)\<rparr>)"
  by (auto simp: put_bytes_def sds_cap_def sdsalloc_def length_write_at)

lemma sdsalloc_upd [simp]: "sdsalloc (s\<lparr>s_buf := b\<rparr>) = sdsalloc s"
  by (simp add: sdsalloc_def)

text \<open>Setting a length that the capacity allows.\<close>

lemma setlen_wf:
  assumes "sds_cap s" and "n \<le> sdsalloc s" and "s_buf s ! n = 0"
  shows "sds_wf (sdssetlen s n)" and "content (sdssetlen s n) = take n (s_buf s)" and "s_len (sdssetlen s n) = n"
proof -
  have "n mod 2 ^ type_bits (s_type s) = n" using assms by (simp add: sds_cap_def)
  then have eq: "sdssetlen s n = s\<lparr>s_len := n\<rparr>" by (simp add: sdssetlen_def)
  show "sds_wf (sdssetlen s n)" unfolding eq using assms
    by (auto simp: sds_wf_def sds_cap_def sdsalloc_def split: if_splits)
  show "content (sdssetlen s n) = take n (s_buf s)" "s_len (sdssetlen s n) = n" by (simp_all add: eq content_def)
qed

lemma sdsReqType_fits: "n < 2 ^ 64 \<Longrightarrow> n < 2 ^ type_bits (sdsReqType n)"
  by (simp add: sdsReqType_def)

lemma sdsHdrSize_le: "sdsHdrSize t \<le> 17"
  by (cases t) auto

lemma sdsavail_wf: "sds_cap s \<Longrightarrow> sdsavail s = sdsalloc s - s_len s"
proof -
  assume a: "sds_cap s"
  have "(int (s_alloc s) - int (s_len s)) mod 2 ^ w = int (s_alloc s - s_len s)"
    if "type_bits (s_type s) \<le> w" "s_type s \<noteq> SDS_TYPE_5" for w
  proof -
    have "s_alloc s < 2 ^ type_bits (s_type s)" "s_len s \<le> s_alloc s" using a that by (auto simp: sds_cap_def sdsalloc_def)
    moreover have "(2::nat) ^ type_bits (s_type s) \<le> 2 ^ w" using that(1) by (intro power_increasing) auto
    ultimately have "s_alloc s - s_len s < 2 ^ w" by linarith
    then have "int (s_alloc s - s_len s) < 2 ^ w" by (metis of_nat_less_iff of_nat_numeral of_nat_power)
    then show ?thesis using \<open>s_len s \<le> s_alloc s\<close> by (simp add: of_nat_diff)
  qed
  from this [of 32] this [of 64] show ?thesis by (cases "s_type s") (simp_all add: sdsavail_def sdsalloc_def)
qed

lemma sdsnewlen_correct:
  assumes "n < 2 ^ 63" and "n \<le> length init"
  shows "\<exists>s. sdsnewlen u (Some init) n = Some s \<and> sds_wf s \<and> content s = take n init"
proof -
  define type where "type = (if sdsReqType n = SDS_TYPE_5 \<and> n = 0 then SDS_TYPE_8 else sdsReqType n)"
  have fits: "n < 2 ^ type_bits type" using assms(1) sdsReqType_fits [of n] by (simp add: type_def)
  then have m: "n mod 2 ^ type_bits type = n" by simp
  let ?buf = "take n init @ [0]"
  let ?s = "\<lparr>s_type = type, s_len = n, s_alloc = n, s_buf = ?buf\<rparr>"
  have w: "write_at n [0] (write_at 0 (take n init) (replicate (n + 1) u)) = ?buf"
    using assms(2) by (auto simp: write_at_def min_def)
  have "sdsnewlen u (Some init) n = Some ?s"
    using assms(2) w m unfolding sdsnewlen_def Let_def type_def [symmetric]
    by (cases "n = 0") (simp_all add: put_bytes_def length_write_at)
  moreover have "sds_wf ?s" using assms(2) fits by (auto simp: sds_wf_def sds_cap_def sdsalloc_def nth_append)
  ultimately show ?thesis using assms(2) by (simp add: content_def)
qed

text \<open>The space that \<open>sdsMakeRoomFor\<close> guarantees.\<close>

lemma realloc_wf:
  assumes wf: "sds_wf s" and n: "s_len s \<le> n" "n < 2 ^ 63" and type: "s_type s \<noteq> SDS_TYPE_5 \<or> n = s_len s"
    and fits: "n < 2 ^ type_bits (s_type s)"
  shows "sds_wf (sdssetalloc (s\<lparr>s_buf := realloc u (n + 1) (s_buf s)\<rparr>) n)
    \<and> content (sdssetalloc (s\<lparr>s_buf := realloc u (n + 1) (s_buf s)\<rparr>) n) = content s
    \<and> sdsalloc (sdssetalloc (s\<lparr>s_buf := realloc u (n + 1) (s_buf s)\<rparr>) n) = n
    \<and> s_len (sdssetalloc (s\<lparr>s_buf := realloc u (n + 1) (s_buf s)\<rparr>) n) = s_len s"
proof -
  have len: "s_len s < length (s_buf s)" using wf by (auto simp: sds_wf_def sds_cap_def)
  then have r: "take (s_len s) (realloc u (n + 1) (s_buf s)) = take (s_len s) (s_buf s)"
      "realloc u (n + 1) (s_buf s) ! s_len s = s_buf s ! s_len s"
    using n(1) by (auto simp: realloc_def min_def nth_append)
  show ?thesis using wf n type fits r
    by (auto simp: sdssetalloc_def sds_wf_def sds_cap_def sdsalloc_def content_def)
qed

lemma move_wf:
  assumes wf: "sds_wf s" and n: "s_len s \<le> n" and type: "t \<noteq> SDS_TYPE_5 \<or> n = s_len s" and fits: "n < 2 ^ type_bits t"
  shows "\<exists>s1 s2. put_bytes 0 (take (s_len s + 1) (s_buf s)) (s\<lparr>s_type := t, s_buf := replicate (n + 1) u\<rparr>) = Some s1
    \<and> sdssetalloc (sdssetlen s1 (s_len s)) n = s2 \<and> sds_wf s2 \<and> content s2 = content s \<and> sdsalloc s2 = n \<and> s_len s2 = s_len s"
proof -
  have len: "s_len s < length (s_buf s)" using wf by (auto simp: sds_wf_def sds_cap_def)
  let ?b = "write_at 0 (take (s_len s + 1) (s_buf s)) (replicate (n + 1) u)"
  have b: "length ?b = n + 1" "take (s_len s) ?b = take (s_len s) (s_buf s)" "?b ! s_len s = s_buf s ! s_len s"
    using len n by (auto simp: write_at_def min_def nth_append)
  have m: "s_len s mod 2 ^ type_bits t = s_len s" using n fits by simp
  have "put_bytes 0 (take (s_len s + 1) (s_buf s)) (s\<lparr>s_type := t, s_buf := replicate (n + 1) u\<rparr>)
      = Some (s\<lparr>s_type := t, s_buf := ?b\<rparr>)"
    using len n by (auto simp: put_bytes_def)
  then show ?thesis using wf n type fits b m
    by (auto simp: sdssetalloc_def sdssetlen_def sds_wf_def sds_cap_def sdsalloc_def content_def)
qed

lemma sdsMakeRoomFor_correct:
  assumes wf: "sds_wf s" and room: "s_len s + addlen < 2 ^ 62"
  shows "\<exists>s1. sdsMakeRoomFor u s addlen = Some s1 \<and> sds_wf s1 \<and> content s1 = content s \<and> s_len s1 = s_len s
    \<and> s_len s + addlen \<le> sdsalloc s1"
proof (cases "sdsavail s \<ge> addlen")
  case True
  then show ?thesis using wf sdsavail_wf [OF sds_wf_cap [OF wf]] by (auto simp: sdsMakeRoomFor_def sds_wf_def sds_cap_def)
next
  case False
  define n where "n = (if s_len s + addlen < SDS_MAX_PREALLOC then (s_len s + addlen) * 2 else s_len s + addlen + SDS_MAX_PREALLOC)"
  define t where "t = (if sdsReqType n = SDS_TYPE_5 then SDS_TYPE_8 else sdsReqType n)"
  have n: "n < 2 ^ 63" "s_len s + addlen \<le> n" using room by (auto simp: n_def SDS_MAX_PREALLOC_def)
  have mods: "(s_len s + addlen) mod 2 ^ 64 = s_len s + addlen"
    "(s_len s + addlen + SDS_MAX_PREALLOC) mod 2 ^ 64 = s_len s + addlen + SDS_MAX_PREALLOC"
    "(sdsHdrSize t + n + 1) mod 2 ^ 64 - sdsHdrSize t = n + 1"
    using room n sdsHdrSize_le [of t] by (simp_all add: SDS_MAX_PREALLOC_def)
  have fits: "n < 2 ^ type_bits t" using n(1) sdsReqType_fits [of n] by (auto simp: t_def sdsReqType_def)
  have t5: "t \<noteq> SDS_TYPE_5" by (simp add: t_def)
  have unf: "sdsMakeRoomFor u s addlen =
      (if s_type s = t then Some (sdssetalloc (s\<lparr>s_buf := realloc u (n + 1) (s_buf s)\<rparr>) n)
       else do {
         s1 \<leftarrow> put_bytes 0 (take (s_len s + 1) (s_buf s)) (s\<lparr>s_type := t, s_buf := replicate (n + 1) u\<rparr>);
         Some (sdssetalloc (sdssetlen s1 (s_len s)) n)})"
    using False unfolding sdsMakeRoomFor_def Let_def sdslen_def mods(1,2) n_def [symmetric] t_def [symmetric] mods(3) by simp
  show ?thesis
  proof (cases "s_type s = t")
    case True
    then show ?thesis unfolding unf using realloc_wf [OF wf, of n u] n fits t5 by auto
  next
    case diff: False
    have "\<exists>s1 s2. put_bytes 0 (take (s_len s + 1) (s_buf s)) (s\<lparr>s_type := t, s_buf := replicate (n + 1) u\<rparr>) = Some s1
      \<and> sdssetalloc (sdssetlen s1 (s_len s)) n = s2 \<and> sds_wf s2 \<and> content s2 = content s \<and> sdsalloc s2 = n \<and> s_len s2 = s_len s"
      by (rule move_wf [OF wf _ _ fits]) (use n t5 in auto)
    then show ?thesis unfolding unf using diff n(2) by auto
  qed
qed

lemma sdsRemoveFreeSpace_correct:
  assumes wf: "sds_wf s" and small: "s_len s < 2 ^ 63"
  shows "\<exists>s1. sdsRemoveFreeSpace u s = Some s1 \<and> sds_wf s1 \<and> content s1 = content s \<and> sdsalloc s1 = s_len s"
proof -
  define t where "t = sdsReqType (s_len s)"
  have fits: "s_len s < 2 ^ type_bits t" using small sdsReqType_fits [of "s_len s"] by (simp add: t_def)
  show ?thesis
  proof (cases "s_type s = t")
    case True
    then show ?thesis using realloc_wf [OF wf le_refl small, of u] fits
      by (auto simp: sdsRemoveFreeSpace_def t_def [symmetric] Let_def sdslen_def)
  next
    case False
    have "\<exists>s1 s2. put_bytes 0 (take (s_len s + 1) (s_buf s)) (s\<lparr>s_type := t, s_buf := replicate (s_len s + 1) u\<rparr>) = Some s1
      \<and> sdssetalloc (sdssetlen s1 (s_len s)) (s_len s) = s2 \<and> sds_wf s2 \<and> content s2 = content s \<and> sdsalloc s2 = s_len s
      \<and> s_len s2 = s_len s"
      by (rule move_wf [OF wf _ _ fits]) auto
    then show ?thesis using False
      unfolding sdsRemoveFreeSpace_def Let_def sdslen_def t_def [symmetric] by auto
  qed
qed


section \<open>The operations on the content\<close>

text \<open>Writing the terminator and setting the length, the end of every operation.\<close>

lemma finish:
  assumes "sds_cap s" and "n \<le> sdsalloc s"
  shows "\<exists>s'. put_bytes n [0] s = Some s' \<and> sds_wf (sdssetlen s' n)
    \<and> content (sdssetlen s' n) = take n (s_buf s) \<and> s_len (sdssetlen s' n) = n"
proof -
  let ?s = "s\<lparr>s_buf := write_at n [0] (s_buf s)\<rparr>"
  have p: "put_bytes n [0] s = Some ?s" "sds_cap ?s" using put_bytes_cap [OF assms(1), of n "[0]"] assms(2) by auto
  have n: "n < length (s_buf s)" using assms by (simp add: sds_cap_def)
  then have "s_buf ?s ! n = 0" "take n (s_buf ?s) = take n (s_buf s)" by (simp_all add: write_at_def nth_append)
  then show ?thesis using p setlen_wf [OF p(2), of n] assms(2) by simp
qed

lemma put_setlen: "put_bytes n bs (sdssetlen s k) = map_option (\<lambda>s'. sdssetlen s' k) (put_bytes n bs s)"
  by (simp add: put_bytes_def sdssetlen_def)

lemma take_write_at: "off + length bs \<le> length m \<Longrightarrow> take (off + length bs) (write_at off bs m) = take off m @ bs"
  by (simp add: write_at_def)

lemma sdscatlen_correct:
  assumes wf: "sds_wf s" and room: "s_len s + length t < 2 ^ 62"
  shows "\<exists>s'. sdscatlen u s t = Some s' \<and> sds_wf s' \<and> content s' = content s @ t"
proof -
  obtain s1 where s1: "sdsMakeRoomFor u s (length t) = Some s1" "sds_wf s1" "content s1 = content s" "s_len s1 = s_len s"
      "s_len s + length t \<le> sdsalloc s1"
    using sdsMakeRoomFor_correct [OF assms] by blast
  let ?s2 = "s1\<lparr>s_buf := write_at (s_len s) t (s_buf s1)\<rparr>"
  have s2: "put_bytes (s_len s) t s1 = Some ?s2" "sds_cap ?s2"
    using put_bytes_cap [OF sds_wf_cap [OF s1(2)], of "s_len s" t] s1(5) by auto
  obtain s' where s': "put_bytes (s_len s + length t) [0] ?s2 = Some s'" "sds_wf (sdssetlen s' (s_len s + length t))"
      "content (sdssetlen s' (s_len s + length t)) = take (s_len s + length t) (s_buf ?s2)"
    using finish [OF s2(2), of "s_len s + length t"] s1(5) by auto
  have "s_len s + length t \<le> length (s_buf s1)" using s1(2,5) by (auto simp: sds_wf_def sds_cap_def)
  then have "take (s_len s + length t) (s_buf ?s2) = content s @ t"
    using s1(3,4) by (simp add: take_write_at content_def)
  then show ?thesis using s1(1) s2(1) s'
    by (simp add: sdscatlen_def Let_def sdslen_def put_setlen)
qed

lemma sdscpylen_correct:
  assumes wf: "sds_wf s" and room: "length t < 2 ^ 62"
  shows "\<exists>s'. sdscpylen u s t = Some s' \<and> sds_wf s' \<and> content s' = t"
proof -
  have "\<exists>s1. (if sdsalloc s < length t then sdsMakeRoomFor u s (length t - s_len s) else Some s) = Some s1
      \<and> sds_wf s1 \<and> length t \<le> sdsalloc s1"
  proof (cases "sdsalloc s < length t")
    case True
    then have "s_len s + (length t - s_len s) = length t" using wf by (simp add: sds_wf_def sds_cap_def)
    then show ?thesis using sdsMakeRoomFor_correct [OF wf, of "length t - s_len s" u] room True by auto
  qed (use wf in auto)
  then obtain s1 where s1: "(if sdsalloc s < length t then sdsMakeRoomFor u s (length t - s_len s) else Some s) = Some s1"
      "sds_wf s1" "length t \<le> sdsalloc s1" by blast
  let ?s2 = "s1\<lparr>s_buf := write_at 0 t (s_buf s1)\<rparr>"
  have s2: "put_bytes 0 t s1 = Some ?s2" "sds_cap ?s2"
    using put_bytes_cap [OF sds_wf_cap [OF s1(2)], of 0 t] s1(3) by auto
  obtain s' where s': "put_bytes (length t) [0] ?s2 = Some s'" "sds_wf (sdssetlen s' (length t))"
      "content (sdssetlen s' (length t)) = take (length t) (s_buf ?s2)"
    using finish [OF s2(2), of "length t"] s1(3) by auto
  moreover have "take (length t) (s_buf ?s2) = t" by (simp add: write_at_def)
  ultimately show ?thesis using s1(1) s2(1)
    by (auto simp: sdscpylen_def Let_def sdslen_def split: if_splits)
qed

lemma sdsgrowzero_correct:
  assumes wf: "sds_wf s" and room: "n < 2 ^ 62"
  shows "\<exists>s'. sdsgrowzero u s n = Some s' \<and> sds_wf s' \<and> content s' = content s @ replicate (n - length (content s)) 0"
proof (cases "n \<le> s_len s")
  case True
  then show ?thesis using wf length_content [OF sds_wf_cap [OF wf]] by (simp add: sdsgrowzero_def sdslen_def)
next
  case False
  obtain s1 where s1: "sdsMakeRoomFor u s (n - s_len s) = Some s1" "sds_wf s1" "content s1 = content s" "s_len s1 = s_len s"
      "n \<le> sdsalloc s1"
    using sdsMakeRoomFor_correct [OF wf, of "n - s_len s" u] False room by auto
  let ?z = "replicate (n - s_len s + 1) (0 :: byte)"
  let ?s2 = "s1\<lparr>s_buf := write_at (s_len s) ?z (s_buf s1)\<rparr>"
  have s2: "put_bytes (s_len s) ?z s1 = Some ?s2" "sds_cap ?s2"
    using put_bytes_cap [OF sds_wf_cap [OF s1(2)], of "s_len s" ?z] s1(5) False by auto
  have "n < length (s_buf s1)" using s1(2,5) by (auto simp: sds_wf_def sds_cap_def)
  then have b: "s_buf ?s2 ! n = 0" "take n (s_buf ?s2) = content s @ replicate (n - s_len s) 0"
  proof -
    have c: "take (s_len s) (s_buf s1) = content s" "length (content s) = s_len s"
      using s1(3,4) length_content [OF sds_wf_cap [OF wf]] by (simp_all add: content_def)
    have "?z = replicate (n - s_len s) 0 @ [0]" by (simp add: replicate_append_same)
    then have "s_buf ?s2 = (content s @ replicate (n - s_len s) 0) @ 0 # drop (s_len s + length ?z) (s_buf s1)"
      by (simp add: write_at_def c(1))
    moreover have "length (content s @ replicate (n - s_len s) 0) = n" using c(2) False by simp
    ultimately show "s_buf ?s2 ! n = 0" "take n (s_buf ?s2) = content s @ replicate (n - s_len s) 0"
      by (simp_all only: nth_append_length take_append append_eq_append_conv) (metis nth_append_length, simp)
  qed
  show ?thesis using s1(1) s2(1) setlen_wf [OF s2(2) _ b(1)] s1(5) b(2) False length_content [OF sds_wf_cap [OF wf]]
    by (simp add: sdsgrowzero_def Let_def sdslen_def)
qed

lemma sdsclear_correct:
  assumes wf: "sds_wf s"
  shows "\<exists>s'. sdsclear s = Some s' \<and> sds_wf s' \<and> content s' = []"
  using finish [OF sds_wf_cap [OF wf], of 0] by (auto simp: sdsclear_def put_setlen)

lemma map_prefix_correct:
  assumes wf: "sds_wf s"
  shows "sds_wf (map_prefix f s) \<and> content (map_prefix f s) = map f (content s)"
proof -
  have "s_len s < length (s_buf s)" using wf by (auto simp: sds_wf_def sds_cap_def)
  then have "(map f (take (s_len s) (s_buf s)) @ drop (s_len s) (s_buf s)) ! s_len s = s_buf s ! s_len s"
    by (simp add: nth_append)
  then show ?thesis using wf \<open>s_len s < length (s_buf s)\<close>
    by (auto simp: map_prefix_def sds_wf_def sds_cap_def content_def sdslen_def)
qed

text \<open>The content shrinks to a part of it: \<open>memmove\<close>, terminator and length.\<close>

lemma shrink_correct:
  assumes wf: "sds_wf s" and part: "off + n \<le> s_len s"
  shows "\<exists>s'. put_bytes n [0] (if off \<noteq> 0 \<and> n \<noteq> 0 \<or> P then s\<lparr>s_buf := memmove 0 off n (s_buf s)\<rparr> else s) = Some s'
    \<and> sds_wf (sdssetlen s' n) \<and> content (sdssetlen s' n) = take n (drop off (content s))"
proof -
  let ?s = "if off \<noteq> 0 \<and> n \<noteq> 0 \<or> P then s\<lparr>s_buf := memmove 0 off n (s_buf s)\<rparr> else s"
  have cap: "sds_cap s" and len: "s_len s < length (s_buf s)" using wf by (auto simp: sds_wf_def sds_cap_def)
  have "length (memmove 0 off n (s_buf s)) = length (s_buf s)" using part len by (simp add: mem_simps)
  then have "sds_cap ?s" "n \<le> sdsalloc ?s" using cap part by (auto simp: sds_cap_def)
  moreover have "take n (s_buf ?s) = take n (drop off (content s))"
    using part len by (auto simp: memmove_def write_at_def read_at_def content_def min_def drop_take)
  ultimately show ?thesis using finish [of ?s n] by auto
qed

text \<open>Where the trimming loops stop.\<close>

lemma trim_left_correct:
  assumes "sp + n \<le> length buf"
  shows "trim_left cset buf sp n = sp + length (takeWhile (strchr cset) (take n (drop sp buf)))"
  using assms
proof (induction n arbitrary: sp)
  case (Suc n)
  then have "drop sp buf = buf ! sp # drop (Suc sp) buf" by (simp add: Cons_nth_drop_Suc)
  then show ?case using Suc by simp
qed simp

definition trim_end :: "(byte \<Rightarrow> bool) \<Rightarrow> bytes \<Rightarrow> bytes" where
  "trim_end P xs = rev (dropWhile P (rev xs))"

lemma trim_end_simps [simp]: "trim_end P [] = []" "trim_end P (xs @ [x]) = (if P x then trim_end P xs else xs @ [x])"
  by (simp_all add: trim_end_def)

lemma trim_end_take: "\<exists>k \<le> length xs. trim_end P xs = take k xs"
proof (induction xs rule: rev_induct)
  case (snoc x xs)
  then obtain k where "k \<le> length xs" "trim_end P xs = take k xs" by blast
  then show ?case by (cases "P x") (auto intro: exI [of _ k] exI [of _ "Suc (length xs)"])
qed simp

lemma trim_right_correct:
  assumes "sp + Suc n \<le> length buf" and "\<not> strchr cset (buf ! sp)"
  shows "trim_right cset buf sp (int sp + int n) = int sp + int (length (trim_end (strchr cset) (take (Suc n) (drop sp buf)))) - 1"
  using assms
proof (induction n)
  case 0
  have "take (Suc 0) (drop sp buf) = [] @ [buf ! sp]" using 0 by (simp add: Cons_nth_drop_Suc [symmetric] take_Suc)
  then show ?case using 0(2) by (subst trim_right.simps) (simp only: trim_end_simps, simp)
next
  case (Suc n)
  have t: "take (Suc (Suc n)) (drop sp buf) = take (Suc n) (drop sp buf) @ [buf ! (sp + Suc n)]"
    using Suc.prems(1) by (simp add: take_Suc_conv_app_nth)
  have e: "nat (int sp + int (Suc n)) = sp + Suc n" "int sp + int (Suc n) - 1 = int sp + int n" by simp_all
  show ?case
  proof (cases "strchr cset (buf ! (sp + Suc n))")
    case True
    then have "trim_right cset buf sp (int sp + int (Suc n)) = trim_right cset buf sp (int sp + int n)"
      by (subst trim_right.simps) (simp only: e, simp)
    then show ?thesis using Suc True unfolding t by simp
  next
    case False
    then have "trim_right cset buf sp (int sp + int (Suc n)) = int sp + int (Suc n)"
      by (subst trim_right.simps) (simp only: e, simp)
    moreover have "length (take (Suc n) (drop sp buf)) = Suc n" using Suc.prems(1) by simp
    ultimately show ?thesis using False unfolding t by (simp only: trim_end_simps if_False length_append) simp
  qed
qed

definition trim :: "bytes \<Rightarrow> bytes \<Rightarrow> bytes" where
  "trim cset xs = trim_end (strchr cset) (dropWhile (strchr cset) xs)"

lemma sdstrim_correct:
  assumes wf: "sds_wf s"
  shows "\<exists>s'. sdstrim s cset = Some s' \<and> sds_wf s' \<and> content s' = trim cset (content s)"
proof -
  let ?L = "s_len s" and ?P = "strchr cset" and ?sp = "trim_left cset (s_buf s) 0 (s_len s)"
  have len: "?L < length (s_buf s)" "length (content s) = ?L"
    using wf length_content by (auto simp: sds_wf_def sds_cap_def)
  have sp: "?sp = length (takeWhile ?P (content s))"
    using trim_left_correct [of 0 ?L "s_buf s" cset] len by (simp add: content_def)
  have dw: "dropWhile ?P (content s) = drop ?sp (content s)" by (simp add: sp dropWhile_eq_drop)
  have spl: "?sp \<le> ?L" using length_takeWhile_le [of ?P "content s"] len sp by simp
  show ?thesis
  proof (cases "?sp = ?L")
    case True
    have tr: "trim_right cset (s_buf s) ?L (int ?L - 1) = int ?L - 1" by (subst trim_right.simps) simp
    obtain s' where "put_bytes 0 [0] (if ?L \<noteq> 0 \<and> (0::nat) \<noteq> 0 \<or> ?L \<noteq> 0 then s\<lparr>s_buf := memmove 0 ?L 0 (s_buf s)\<rparr> else s) = Some s'"
        "sds_wf (sdssetlen s' 0)" "content (sdssetlen s' 0) = []"
      using shrink_correct [OF wf, of ?L 0 "?L \<noteq> 0"] by auto
    moreover have "trim cset (content s) = []" unfolding trim_def dw using True len by simp
    ultimately show ?thesis using True tr by (auto simp: sdstrim_def Let_def sdslen_def split: if_splits)
  next
    case False
    then obtain n where n: "?L = ?sp + Suc n" using spl by (metis add_Suc_right less_iff_Suc_add le_neq_implies_less)
    have nth: "\<not> ?P (s_buf s ! ?sp)"
    proof -
      have "?sp < length (content s)" using n len by simp
      then have "\<not> ?P (content s ! ?sp)" using nth_length_takeWhile [of ?P "content s"] sp by simp
      then show ?thesis using n by (simp add: content_def)
    qed
    define m where "m = length (trim cset (content s))"
    have part: "take (Suc n) (drop ?sp (s_buf s)) = drop ?sp (content s)"
    proof -
      have "?L - ?sp = Suc n" using n by linarith
      then show ?thesis by (simp add: content_def drop_take)
    qed
    have ep: "trim_right cset (s_buf s) ?sp (int ?L - 1) = int ?sp + int m - 1"
    proof -
      have e: "int ?L - 1 = int ?sp + int n" using n by linarith
      have "?sp + Suc n \<le> length (s_buf s)" using n len by linarith
      then show ?thesis using trim_right_correct [of ?sp n "s_buf s" cset] nth
        unfolding e part m_def trim_def dw by blast
    qed
    obtain k where k: "k \<le> ?L - ?sp" "trim cset (content s) = take k (drop ?sp (content s))"
      using trim_end_take [of "drop ?sp (content s)" ?P] len unfolding trim_def dw by auto
    then have m: "m = k" using len n by (simp add: m_def)
    have l: "(if int ?sp > int ?sp + int m - 1 then 0 else nat (int ?sp + int m - 1 - int ?sp + 1)) = m" by auto
    obtain s' where "put_bytes m [0] (if ?sp \<noteq> 0 \<and> m \<noteq> 0 \<or> ?sp \<noteq> 0 then s\<lparr>s_buf := memmove 0 ?sp m (s_buf s)\<rparr> else s) = Some s'"
        "sds_wf (sdssetlen s' m)" "content (sdssetlen s' m) = take m (drop ?sp (content s))"
    proof -
      have "?sp + m \<le> ?L" using k(1) m spl by linarith
      from shrink_correct [OF wf this, of "?sp \<noteq> 0"] show thesis using that by blast
    qed
    then show ?thesis using k(2) m unfolding sdstrim_def Let_def sdslen_def ep l by (cases "?sp = 0") auto
  qed
qed

text \<open>The inclusive slice, with indices from the end when negative.\<close>

definition slice :: "int \<Rightarrow> int \<Rightarrow> 'a list \<Rightarrow> 'a list" where
  "slice start stop xs =
     (let n = int (length xs);
          i = (if start < 0 then max 0 (n + start) else start);
          j = min (n - 1) (if stop < 0 then max 0 (n + stop) else stop)
      in if i > j then [] else take (nat (j - i + 1)) (drop (nat i) xs))"

abbreviation in_int32 :: "int \<Rightarrow> bool" where
  "in_int32 i \<equiv> - (2 ^ 31) \<le> i \<and> i < 2 ^ 31"

lemma to_signed_32: "in_int32 i \<Longrightarrow> to_signed 32 i = i"
  by (intro to_signed_id) auto

lemma sdsrange_correct:
  assumes wf: "sds_wf s" and small: "s_len s < 2 ^ 31" and ints: "in_int32 start" "in_int32 stop"
  shows "\<exists>s'. sdsrange s start stop = Some s' \<and> sds_wf s' \<and> content s' = slice start stop (content s)"
proof (cases "s_len s = 0")
  case True
  then show ?thesis using wf by (simp add: sdsrange_def sdslen_def content_def slice_def Let_def)
next
  case False
  let ?L = "int (s_len s)"
  define i where "i = (if start < 0 then max 0 (?L + start) else start)"
  define j where "j = (if stop < 0 then max 0 (?L + stop) else stop)"
  define m where "m = (if i > min (?L - 1) j then 0 else nat (min (?L - 1) j - i + 1))"
  have L: "length (content s) = s_len s" by (rule length_content [OF sds_wf_cap [OF wf]])
  have ts: "to_signed 32 ?L = ?L" "start < 0 \<Longrightarrow> to_signed 32 (?L + start) = ?L + start"
      "stop < 0 \<Longrightarrow> to_signed 32 (?L + stop) = ?L + stop"
    using small ints by (intro to_signed_32; simp)+
  have i0: "0 \<le> i" "0 \<le> j" by (auto simp: i_def j_def)
  define off where "off = (if i > j then 0 else nat i)"
  have part: "off + m \<le> s_len s \<or> m = 0" using False i0 by (auto simp: m_def off_def)
  have sl: "slice start stop (content s) = take m (drop off (content s))"
    using i0 by (auto simp: slice_def Let_def L i_def [symmetric] j_def [symmetric] m_def off_def)
  have "sdsrange s start stop
      = map_option (\<lambda>s2. sdssetlen s2 m) (put_bytes m [0] (if off \<noteq> 0 \<and> m \<noteq> 0 then s\<lparr>s_buf := memmove 0 off m (s_buf s)\<rparr> else s))"
  proof -
    have a: "(if start < 0 \<and> (if start < 0 then to_signed 32 (?L + start) else start) < 0 then 0
        else if start < 0 then to_signed 32 (?L + start) else start) = i" using ts by (auto simp: i_def)
    have b: "(if stop < 0 \<and> (if stop < 0 then to_signed 32 (?L + stop) else stop) < 0 then 0
        else if stop < 0 then to_signed 32 (?L + stop) else stop) = j" using ts by (auto simp: j_def)
    have c: "(if (if i > j then 0 else j - i + 1) \<noteq> 0 then
           (if i \<ge> ?L then (i, 0) else if j \<ge> ?L then (i, if i > ?L - 1 then 0 else ?L - 1 - i + 1) else (i, if i > j then 0 else j - i + 1))
         else (0, if i > j then 0 else j - i + 1)) = (int off, int m)"
      using i0 by (auto simp: m_def off_def)
    show ?thesis using False unfolding sdsrange_def Let_def sdslen_def ts(1) a b c by simp
  qed
  moreover have "\<exists>s'. put_bytes m [0] (if off \<noteq> 0 \<and> m \<noteq> 0 \<or> False then s\<lparr>s_buf := memmove 0 off m (s_buf s)\<rparr> else s) = Some s'
      \<and> sds_wf (sdssetlen s' m) \<and> content (sdssetlen s' m) = take m (drop off (content s))"
  proof (cases "m = 0")
    case True
    then show ?thesis using shrink_correct [OF wf, of 0 0 False] by auto
  next
    case m0: False
    then show ?thesis using shrink_correct [OF wf, of off m False] part by auto
  qed
  ultimately show ?thesis unfolding sl by auto
qed

text \<open>Comparison.\<close>

fun byte_less :: "bytes \<Rightarrow> bytes \<Rightarrow> bool" where
  "byte_less (a # as) (b # bs) \<longleftrightarrow> a < b \<or> (a = b \<and> byte_less as bs)"
| "byte_less [] (b # bs) \<longleftrightarrow> True"
| "byte_less _ [] \<longleftrightarrow> False"

lemma memcmp_prefix:
  "memcmp (take n xs) (take n ys) = 0 \<Longrightarrow> n \<le> length xs \<Longrightarrow> n \<le> length ys \<Longrightarrow> take n xs = take n ys"
proof (induction xs ys arbitrary: n rule: memcmp.induct)
  case (1 a as b bs)
  then show ?case by (cases n) (auto simp: word_uint_eq_iff split: if_splits)
qed auto

lemma byte_less_split:
  assumes "n = min (length xs) (length ys)"
  shows "byte_less xs ys \<longleftrightarrow> (if memcmp (take n xs) (take n ys) = 0 then length xs < length ys
     else memcmp (take n xs) (take n ys) < 0)"
  using assms
proof (induction xs ys arbitrary: n rule: byte_less.induct)
  case (1 a as b bs)
  then show ?case by (cases n) (auto simp: word_less_def word_uint_eq_iff split: if_splits)
qed auto

text \<open>The comparison of two buffers on the shorter of their lengths, then by length, as \<open>sdscmp\<close> and
  \<open>compareStringObjects\<close> do it.\<close>

lemma cmp_bytes_correct:
  assumes xs: "take la abuf = xs" "length xs = la" "la < 2 ^ 31"
    and ys: "take lb bbuf = ys" "length ys = lb" "lb < 2 ^ 31"
    and n: "n = (if la < lb then la else lb)"
    and r: "r = (if memcmp (take n abuf) (take n bbuf) = 0 then to_signed 32 (int la - int lb)
             else memcmp (take n abuf) (take n bbuf))"
  shows "(r < 0 \<longleftrightarrow> byte_less xs ys) \<and> (r = 0 \<longleftrightarrow> xs = ys)"
proof -
  define c where "c = memcmp (take n xs) (take n ys)"
  have n': "n = min (length xs) (length ys)" using n xs ys by (simp add: min_def)
  have "take n abuf = take n xs" "take n bbuf = take n ys"
    using n xs(2) ys(2) unfolding xs(1) [symmetric] ys(1) [symmetric] by auto
  moreover have "to_signed 32 (int la - int lb) = int la - int lb"
    using xs(3) ys(3) by (intro to_signed_32) auto
  ultimately have r: "r = (if c = 0 then int la - int lb else c)" using r by (simp add: c_def)
  have "xs = ys" if "c = 0" "la = lb"
    using memcmp_prefix [of n xs ys] that xs(2) ys(2) n' by (simp add: c_def)
  moreover have "memcmp zs zs = 0" for zs by (induction zs) auto
  then have "c = 0 \<and> la = lb" if "xs = ys" using that xs(2) ys(2) unfolding c_def by metis
  ultimately have "r = 0 \<longleftrightarrow> xs = ys" unfolding r by (auto split: if_splits)
  moreover have "r < 0 \<longleftrightarrow> byte_less xs ys"
    using byte_less_split [OF n'] xs(2) ys(2) unfolding r c_def by (auto split: if_splits)
  ultimately show ?thesis by blast
qed

lemma sdscmp_correct:
  assumes "sds_wf s1" "sds_wf s2" "s_len s1 < 2 ^ 31" "s_len s2 < 2 ^ 31"
  shows "(sdscmp s1 s2 < 0 \<longleftrightarrow> byte_less (content s1) (content s2)) \<and> (sdscmp s1 s2 = 0 \<longleftrightarrow> content s1 = content s2)"
proof (rule cmp_bytes_correct)
  show "take (s_len s1) (s_buf s1) = content s1" "take (s_len s2) (s_buf s2) = content s2"
    by (simp_all add: content_def)
qed (use assms length_content sds_wf_cap in \<open>auto simp: sdscmp_def sdslen_def Let_def\<close>)


section \<open>Sequences of string operations\<close>

datatype sds_op = Cat bytes | Cpy bytes | GrowZero nat | Clear | Range int int | Trim bytes | Lower | Upper
  | MapChars bytes bytes | Compact | Reserve nat | Dup

fun sds_step :: "byte \<Rightarrow> sds_op \<Rightarrow> sds \<Rightarrow> (sds \<times> nat) option" where
  "sds_step u (Cat t) s = map_option (\<lambda>s. (s, sdslen s)) (sdscatlen u s t)"
| "sds_step u (Cpy t) s = map_option (\<lambda>s. (s, sdslen s)) (sdscpylen u s t)"
| "sds_step u (GrowZero n) s = map_option (\<lambda>s. (s, sdslen s)) (sdsgrowzero u s n)"
| "sds_step u Clear s = map_option (\<lambda>s. (s, sdslen s)) (sdsclear s)"
| "sds_step u (Range i j) s = map_option (\<lambda>s. (s, sdslen s)) (sdsrange s i j)"
| "sds_step u (Trim cset) s = map_option (\<lambda>s. (s, sdslen s)) (sdstrim s cset)"
| "sds_step u Lower s = Some (sdstolower s, sdslen (sdstolower s))"
| "sds_step u Upper s = Some (sdstoupper s, sdslen (sdstoupper s))"
| "sds_step u (MapChars from to) s = Some (sdsmapchars s from to, sdslen (sdsmapchars s from to))"
| "sds_step u Compact s = map_option (\<lambda>s. (s, sdslen s)) (sdsRemoveFreeSpace u s)"
| "sds_step u (Reserve n) s = map_option (\<lambda>s. (s, sdslen s)) (sdsMakeRoomFor u s n)"
| "sds_step u Dup s = map_option (\<lambda>s. (s, sdslen s)) (sdsdup u s)"

fun sds_result :: "sds_op \<Rightarrow> bytes \<Rightarrow> bytes" where
  "sds_result (Cat t) xs = xs @ t"
| "sds_result (Cpy t) xs = t"
| "sds_result (GrowZero n) xs = xs @ replicate (n - length xs) 0"
| "sds_result Clear xs = []"
| "sds_result (Range i j) xs = slice i j xs"
| "sds_result (Trim cset) xs = trim cset xs"
| "sds_result Lower xs = map tolower xs"
| "sds_result Upper xs = map toupper xs"
| "sds_result (MapChars from to) xs = map (subst_char from to) xs"
| "sds_result _ xs = xs"

definition bytes_step :: "sds_op \<Rightarrow> bytes \<Rightarrow> bytes \<times> nat" where
  "bytes_step x xs = (sds_result x xs, length (sds_result x xs))"

text \<open>At most a mebibyte per operation and a total under \<open>2 ^ 31\<close>, where \<open>sdsrange\<close> and \<open>sdscmp\<close> work on \<open>int\<close>.\<close>

fun sds_legal :: "sds_op \<Rightarrow> bool" where
  "sds_legal (Cat t) \<longleftrightarrow> length t \<le> 2 ^ 20"
| "sds_legal (Cpy t) \<longleftrightarrow> length t \<le> 2 ^ 20"
| "sds_legal (GrowZero n) \<longleftrightarrow> n \<le> 2 ^ 20"
| "sds_legal (Reserve n) \<longleftrightarrow> n \<le> 2 ^ 20"
| "sds_legal (Range i j) \<longleftrightarrow> in_int32 i \<and> in_int32 j"
| "sds_legal _ \<longleftrightarrow> True"

definition sds_inv :: "nat \<Rightarrow> sds \<Rightarrow> bool" where
  "sds_inv n s \<longleftrightarrow> sds_wf s \<and> length (content s) + n * 2 ^ 20 < 2 ^ 31"

lemma length_slice: "length (slice i j xs) \<le> length xs"
  unfolding slice_def Let_def by (simp add: min.coboundedI1)

lemma length_trim: "length (trim cset xs) \<le> length xs"
proof -
  have "length (trim_end P ys) \<le> length ys" for P ys
    using trim_end_take [of ys P] by auto
  then show ?thesis unfolding trim_def by (meson length_dropWhile_le le_trans)
qed

lemma sds_result_length: "sds_legal x \<Longrightarrow> length (sds_result x xs) \<le> length xs + 2 ^ 20"
  using length_slice length_trim by (cases x) (auto intro: trans_le_add1)

lemma sds_step_sim:
  assumes inv: "sds_inv (Suc n) s" and legal: "sds_legal x"
  shows "\<exists>s' r. sds_step u x s = Some (s', r) \<and> sds_inv n s' \<and> bytes_step x (content s) = (content s', r)"
proof -
  have wf: "sds_wf s" and room: "length (content s) + Suc n * 2 ^ 20 < 2 ^ 31" using inv by (auto simp: sds_inv_def)
  have l: "s_len s = length (content s)" using length_content [OF sds_wf_cap [OF wf]] by simp
  have "\<exists>s'. sds_step u x s = Some (s', sdslen s') \<and> sds_wf s' \<and> content s' = sds_result x (content s)"
  proof (cases x)
    case (Cat t)
    then show ?thesis using sdscatlen_correct [OF wf, of t u] room l legal by auto
  next
    case (Cpy t)
    then show ?thesis using sdscpylen_correct [OF wf, of t u] legal by auto
  next
    case (GrowZero k)
    then show ?thesis using sdsgrowzero_correct [OF wf, of k u] legal by auto
  next
    case Clear
    then show ?thesis using sdsclear_correct [OF wf] by auto
  next
    case (Range i j)
    then show ?thesis using sdsrange_correct [OF wf, of i j] room l legal by auto
  next
    case (Trim cset)
    then show ?thesis using sdstrim_correct [OF wf, of cset] by auto
  next
    case Compact
    then show ?thesis using sdsRemoveFreeSpace_correct [OF wf, of u] room l by auto
  next
    case (Reserve k)
    then show ?thesis using sdsMakeRoomFor_correct [OF wf, of k u] room l legal by auto
  next
    case Dup
    have "s_len s \<le> length (s_buf s)" using wf by (auto simp: sds_wf_def sds_cap_def)
    moreover have "s_len s < 2 ^ 63" using room l by simp
    ultimately obtain s1 where "sdsnewlen u (Some (s_buf s)) (s_len s) = Some s1" "sds_wf s1" "content s1 = content s"
      using sdsnewlen_correct [of "s_len s" "s_buf s" u] unfolding content_def [of s] by blast
    then show ?thesis using Dup by (simp add: sdsdup_def sdslen_def)
  qed (use map_prefix_correct [OF wf] in \<open>simp_all add: sdstolower_def sdstoupper_def sdsmapchars_def\<close>)
  then obtain s' where s': "sds_step u x s = Some (s', sdslen s')" "sds_wf s'" "content s' = sds_result x (content s)"
    by blast
  have "sdslen s' = length (content s')" using length_content [OF sds_wf_cap [OF s'(2)]] by (simp add: sdslen_def)
  moreover have "length (content s') + n * 2 ^ 20 < 2 ^ 31"
    using sds_result_length [OF legal, of "content s"] room s'(3) by simp
  ultimately show ?thesis using s' by (simp add: sds_inv_def bytes_step_def)
qed

interpretation sds_ops: budget_simulation "sds_step u" bytes_step content sds_inv sds_legal for u
  by unfold_locales (rule sds_step_sim)


section \<open>Properties\<close>

text \<open>
  C6.  An sds is its content: any sequence of appends, copies, zero fills, slices, trims, case and
  character mappings, capacity changes and duplications (each of at most a mebibyte, at most 2047 of
  them) on a string made by \<open>sdsempty\<close> runs within the allocated bytes, whatever layout of the header
  the string moves through, and returns the lengths that the same operations on a list of bytes give;
  the final string has the final bytes as content, is terminated by a zero byte, and its length field
  and capacity fit the layout.
\<close>

theorem sds_refines_bytes:
  assumes "length xs \<le> 2047" and "list_all sds_legal xs"
  shows "\<exists>s0 s rs. sdsempty u = Some s0 \<and> run_ops (sds_step u) xs s0 = Some (s, rs) \<and> sds_wf s
    \<and> run_spec bytes_step xs [] = (content s, rs)"
proof -
  obtain s0 where s0: "sdsempty u = Some s0" "sds_wf s0" "content s0 = []"
    using sdsnewlen_correct [of 0 "[]" u] by (auto simp: sdsempty_def)
  have "sds_inv (length xs + 0) s0" using s0 assms(1) by (simp add: sds_inv_def)
  then show ?thesis using sds_ops.run_sim [of xs 0 s0 u] assms(2) s0 by (auto simp: sds_inv_def)
qed

theorem sds_refines_bytes_witness:
  "\<exists>s0 s rs. sdsempty 0 = Some s0
    \<and> run_ops (sds_step 0) [Cat [32, 65, 66, 67, 32], Trim [32], Range 1 (-1), GrowZero 3, Lower] s0 = Some (s, rs)
    \<and> content s = [98, 99, 0] \<and> rs = [5, 3, 2, 3, 3]"
proof -
  let ?xs = "[Cat [32, 65, 66, 67, 32], Trim [32], Range 1 (-1), GrowZero 3, Lower]"
  have "run_spec bytes_step ?xs [] = ([98, 99, 0], [5, 3, 2, 3, 3])"
    by (simp add: bytes_step_def trim_def trim_end_def strchr_def slice_def tolower_def)
  then show ?thesis using sds_refines_bytes [of ?xs 0]
    by (auto simp del: run_ops.simps run_spec.simps)
qed

text \<open>
  \<open>sdscmp\<close> orders strings under \<open>2 ^ 31\<close> bytes by content: it is negative exactly when the first
  content is smaller in the lexicographic order of the unsigned bytes, and zero exactly when the
  contents are equal.
\<close>

theorem sdscmp_lexicographic:
  assumes "sds_wf s1" "sds_wf s2" "s_len s1 < 2 ^ 31" "s_len s2 < 2 ^ 31"
  shows "(sdscmp s1 s2 < 0 \<longleftrightarrow> byte_less (content s1) (content s2)) \<and> (sdscmp s1 s2 = 0 \<longleftrightarrow> content s1 = content s2)"
  by (rule sdscmp_correct [OF assms])

definition example_sds :: "byte \<Rightarrow> sds" where
  "example_sds b = \<lparr>s_type = SDS_TYPE_8, s_len = 1, s_alloc = 1, s_buf = [b, 0]\<rparr>"

theorem sdscmp_lexicographic_witness: "sdscmp (example_sds 98) (example_sds 99) < 0"
proof -
  have "sds_wf (example_sds b)" "s_len (example_sds b) < 2 ^ 31" "content (example_sds b) = [b]" for b
    by (simp_all add: example_sds_def sds_wf_def sds_cap_def sdsalloc_def content_def)
  then show ?thesis using sdscmp_lexicographic [of "example_sds 98" "example_sds 99"] by simp
qed

text \<open>
  \<open>sdstrim\<close> is documented to remove the characters of \<open>cset\<close> from both ends; it also removes zero
  bytes, because \<open>strchr\<close> finds the terminator of \<open>cset\<close>: with an empty set a string of one zero byte
  becomes empty.
\<close>

theorem sdstrim_removes_zero_bytes:
  "\<exists>s s'. sdsnewlen u (Some [0]) 1 = Some s \<and> content s = [0] \<and> sdstrim s [] = Some s' \<and> content s' = []"
proof -
  obtain s where s: "sdsnewlen u (Some [0]) 1 = Some s" "sds_wf s" "content s = [0]"
    using sdsnewlen_correct [of 1 "[0]" u] by auto
  then show ?thesis using sdstrim_correct [OF s(2), of "[]"] by (auto simp: trim_def strchr_def)
qed

end
