(* ===== verification/SdsText.thy ===== *)
theory SdsText
  imports Sds Util
begin

text \<open>
  The text functions of \<^verbatim>\<open>sds.c\<close>: splitting and joining, the quoted representation and its parser, the
  decimal conversion.  Strings are their contents (theory \<open>Sds\<close> shows that appending to an sds appends
  to its content); a C string is followed by a zero byte, so reading at its end gives 0.
\<close>

section \<open>The model\<close>

text \<open>\<open>sdssplitlen\<close>: \<open>NULL\<close> is \<open>None\<close>.\<close>

function split_loop :: "bytes \<Rightarrow> bytes \<Rightarrow> nat \<Rightarrow> nat \<Rightarrow> bytes list \<Rightarrow> bytes list \<times> nat" where
  "split_loop s sep j start tokens =
     (if sep \<noteq> [] \<and> int j < int (length s) - (int (length sep) - 1) then
        (if take (length sep) (drop j s) = sep
         then split_loop s sep (j + length sep) (j + length sep) (tokens @ [take (j - start) (drop start s)])
         else split_loop s sep (j + 1) start tokens)
      else (tokens, start))"
  by pat_completeness auto
termination by (relation "measure (\<lambda>(s, sep, j, start, tokens). length s - j)") (auto simp: length_greater_0_conv [symmetric] simp del: length_greater_0_conv)

declare split_loop.simps [simp del]

definition sdssplitlen :: "bytes \<Rightarrow> bytes \<Rightarrow> bytes list option" where
  "sdssplitlen s sep =
     (if length sep < 1 then None
      else if length s = 0 then Some []
      else
        let (tokens, start) = split_loop s sep 0 0 []
        in Some (tokens @ [drop start s]))"

fun sdsjoinsds_loop :: "bytes \<Rightarrow> bytes list \<Rightarrow> bytes \<Rightarrow> bytes" where
  "sdsjoinsds_loop join [] sep = join"
| "sdsjoinsds_loop join [a] sep = join @ a"
| "sdsjoinsds_loop join (a # argv) sep = sdsjoinsds_loop ((join @ a) @ sep) argv sep"

definition sdsjoinsds :: "bytes list \<Rightarrow> bytes \<Rightarrow> bytes" where
  "sdsjoinsds argv sep = sdsjoinsds_loop [] argv sep"

text \<open>\<open>isprint\<close> and \<open>isspace\<close> in the C locale.\<close>

definition isprint :: "byte \<Rightarrow> bool" where
  "isprint c \<longleftrightarrow> 0x20 \<le> c \<and> c \<le> 0x7e"

definition isspace :: "byte \<Rightarrow> bool" where
  "isspace c \<longleftrightarrow> c = 32 \<or> c = 9 \<or> c = 10 \<or> c = 11 \<or> c = 12 \<or> c = 13"

definition hex_char :: "nat \<Rightarrow> byte" where
  "hex_char n = (if n < 10 then of_nat (48 + n) else of_nat (87 + n))"

definition repr_char :: "byte \<Rightarrow> bytes" where
  "repr_char c =
     (if c = 92 \<or> c = 34 then [92, c]
      else if c = 10 then [92, 110]
      else if c = 13 then [92, 114]
      else if c = 9 then [92, 116]
      else if c = 7 then [92, 97]
      else if c = 8 then [92, 98]
      else if isprint c then [c]
      else [92, 120, hex_char (unat c div 16), hex_char (unat c mod 16)])"

definition sdscatrepr :: "bytes \<Rightarrow> bytes \<Rightarrow> bytes" where
  "sdscatrepr s p = foldl (\<lambda>s c. s @ repr_char c) (s @ [34]) p @ [34]"

definition is_hex_digit :: "byte \<Rightarrow> bool" where
  "is_hex_digit c \<longleftrightarrow> (48 \<le> c \<and> c \<le> 57) \<or> (97 \<le> c \<and> c \<le> 102) \<or> (65 \<le> c \<and> c \<le> 70)"

definition hex_digit_to_int :: "byte \<Rightarrow> nat" where
  "hex_digit_to_int c =
     (if 48 \<le> c \<and> c \<le> 57 then unat c - 48
      else if 97 \<le> c \<and> c \<le> 102 then unat c - 87
      else if 65 \<le> c \<and> c \<le> 70 then unat c - 55
      else 0)"

text \<open>\<open>p\<close> is the rest of the line; \<open>*(p + k)\<close>.\<close>

definition peek :: "bytes \<Rightarrow> nat \<Rightarrow> byte" where
  "peek p k = (if k < length p then p ! k else 0)"

definition unescape :: "byte \<Rightarrow> byte" where
  "unescape c = (if c = 110 then 10 else if c = 114 then 13 else if c = 116 then 9
     else if c = 98 then 8 else if c = 97 then 7 else c)"

datatype quoting = Plain | InQ | InSq

text \<open>One token: its bytes and the rest of the line, or \<open>goto err\<close>.\<close>

function token :: "quoting \<Rightarrow> bytes \<Rightarrow> bytes \<Rightarrow> (bytes \<times> bytes) option" where
  "token InQ current p =
     (if peek p 0 = 92 \<and> peek p 1 = 120 \<and> is_hex_digit (peek p 2) \<and> is_hex_digit (peek p 3) then
        token InQ (current @ [of_nat (hex_digit_to_int (peek p 2) * 16 + hex_digit_to_int (peek p 3))]) (drop 4 p)
      else if peek p 0 = 92 \<and> peek p 1 \<noteq> 0 then token InQ (current @ [unescape (peek p 1)]) (drop 2 p)
      else if peek p 0 = 34 then
        (if peek p 1 \<noteq> 0 \<and> \<not> isspace (peek p 1) then None else Some (current, drop 1 p))
      else if peek p 0 = 0 then None
      else token InQ (current @ [peek p 0]) (drop 1 p))"
| "token InSq current p =
     (if peek p 0 = 92 \<and> peek p 1 = 39 then token InSq (current @ [39]) (drop 2 p)
      else if peek p 0 = 39 then
        (if peek p 1 \<noteq> 0 \<and> \<not> isspace (peek p 1) then None else Some (current, drop 1 p))
      else if peek p 0 = 0 then None
      else token InSq (current @ [peek p 0]) (drop 1 p))"
| "token Plain current p =
     (if peek p 0 = 32 \<or> peek p 0 = 10 \<or> peek p 0 = 13 \<or> peek p 0 = 9 then Some (current, drop 1 p)
      else if peek p 0 = 0 then Some (current, p)
      else if peek p 0 = 34 then token InQ current (drop 1 p)
      else if peek p 0 = 39 then token InSq current (drop 1 p)
      else token Plain (current @ [peek p 0]) (drop 1 p))"
  by pat_completeness auto
termination
  by (relation "measure (\<lambda>(q, current, p). length p)") (auto simp: peek_def split: if_splits)

declare token.simps [simp del]

text \<open>A token consumes the line.\<close>

lemma token_cases:
  assumes t: "token q current p = Some (current', p')" and nz: "peek p 0 \<noteq> 0"
    and rec: "\<And>q c k. token q c (drop k p) = Some (current', p') \<Longrightarrow> 0 < k \<Longrightarrow> thesis" and stop: "p' = drop 1 p \<Longrightarrow> thesis"
  shows thesis
proof (cases q)
  case Plain
  show ?thesis using t [unfolded Plain token.simps(3) [of current p]] nz
    by (auto split: if_splits intro: rec stop)
next
  case InQ
  show ?thesis using t [unfolded InQ token.simps(1) [of current p]] nz
    by (simp split: if_splits add: rec stop)
next
  case InSq
  show ?thesis using t [unfolded InSq token.simps(2) [of current p]] nz
    by (auto split: if_splits intro: rec stop)
qed

lemma token_end: "token q c p = Some (current', p') \<Longrightarrow> peek p 0 = 0 \<Longrightarrow> p' = p"
  by (cases q) (simp_all add: token.simps)

lemma token_shorter: "token q current p = Some (current', p') \<Longrightarrow> peek p 0 \<noteq> 0 \<Longrightarrow> length p' < length p"
proof (induction "length p" arbitrary: q current p rule: less_induct)
  case less
  have ne: "p \<noteq> []" using less.prems(2) by (auto simp: peek_def)
  show ?case
  proof (rule token_cases [OF less.prems])
    fix q' c and k :: nat assume t: "token q' c (drop k p) = Some (current', p')" and "0 < k"
    then have lt: "length (drop k p) < length p" using ne by simp
    show ?thesis
    proof (cases "peek (drop k p) 0 = 0")
      case True
      then show ?thesis using token_end [OF t] lt by simp
    next
      case False
      then show ?thesis using less.hyps [OF lt t] lt by simp
    qed
  next
    assume "p' = drop 1 p"
    then show ?thesis using ne by simp
  qed
qed

function sdssplitargs :: "bytes \<Rightarrow> bytes list option" where
  "sdssplitargs line =
     (let p = dropWhile isspace line
      in if peek p 0 \<noteq> 0 then
           (case token Plain [] p of None \<Rightarrow> None
            | Some (current, p') \<Rightarrow> map_option (\<lambda>vector. current # vector) (sdssplitargs p'))
         else Some [])"
  by pat_completeness auto
termination
proof (relation "measure length")
  fix line p x y z
  assume "p = dropWhile isspace line" "peek p 0 \<noteq> 0" "token Plain [] p = Some x" "(y, z) = x"
  then have "length z < length p" by (auto dest: token_shorter)
  then show "(z, line) \<in> measure length"
    using length_dropWhile_le [of isspace line] \<open>p = _\<close> by simp
qed simp

declare sdssplitargs.simps [simp del]

text \<open>\<open>sdsll2str\<close>: the digits are produced in reverse, then the buffer is reversed in place; \<open>- value\<close>
  overflows for the smallest value.\<close>

function rev_digits :: "nat \<Rightarrow> bytes" where
  "rev_digits v = (of_nat (48 + v mod 10)) # (if v div 10 \<noteq> 0 then rev_digits (v div 10) else [])"
  by pat_completeness auto
termination by (relation "measure id") auto

declare rev_digits.simps [simp del]

function reverse_in_place :: "bytes \<Rightarrow> nat \<Rightarrow> nat \<Rightarrow> bytes" where
  "reverse_in_place m s p = (if s < p then reverse_in_place (m[s := m ! p, p := m ! s]) (s + 1) (p - 1) else m)"
  by pat_completeness auto
termination by (relation "measure (\<lambda>(m, s, p). p - s)") auto

declare reverse_in_place.simps [simp del]

definition sdsll2str :: "int \<Rightarrow> bytes option" where
  "sdsll2str value =
     (if value = LLONG_MIN then None
      else
        let v = nat (if value < 0 then - value else value);
            buf = rev_digits v @ (if value < 0 then [45] else []);
            l = length buf
        in Some (reverse_in_place buf 0 (l - 1)))"

definition sdsull2str :: "nat \<Rightarrow> bytes" where
  "sdsull2str v = (let buf = rev_digits v; l = length buf in reverse_in_place buf 0 (l - 1))"

definition sdsfromlonglong :: "int \<Rightarrow> bytes option" where
  "sdsfromlonglong value = sdsll2str value"


section \<open>Splitting and joining\<close>

lemma join_loop: "sdsjoinsds_loop join (ts @ [t]) sep = join @ concat (map (\<lambda>t. t @ sep) ts) @ t"
proof (induction ts arbitrary: join)
  case (Cons a ts)
  then show ?case by (cases "ts @ [t]") auto
qed simp

definition occurs_in :: "bytes \<Rightarrow> bytes \<Rightarrow> bool" where
  "occurs_in sep t \<longleftrightarrow> (\<exists>a b. t = a @ sep @ b)"

text \<open>No occurrence of the separator starts between \<open>start\<close> and \<open>j\<close>.\<close>

definition scanned :: "bytes \<Rightarrow> bytes \<Rightarrow> nat \<Rightarrow> nat \<Rightarrow> bool" where
  "scanned s sep start j \<longleftrightarrow> (\<forall>i. start \<le> i \<longrightarrow> i < j \<longrightarrow> take (length sep) (drop i s) \<noteq> sep)"

lemma scanned_token:
  assumes "scanned s sep start j" and "start \<le> j" and "j \<le> length s" and "sep \<noteq> []"
  shows "\<not> occurs_in sep (take (j - start) (drop start s))"
proof
  assume "occurs_in sep (take (j - start) (drop start s))"
  then obtain a b where ab: "take (j - start) (drop start s) = a @ sep @ b" by (auto simp: occurs_in_def)
  have len: "length a + length sep + length b = j - start"
    using arg_cong [OF ab, of length] assms(2,3) by simp
  have "take (length sep) (drop (start + length a) s) = take (length sep) (drop (length a) (take (j - start) (drop start s)))"
    using len by (simp add: drop_take min_def add.commute)
  also have "\<dots> = sep" unfolding ab by simp
  finally have "take (length sep) (drop (start + length a) s) = sep" .
  moreover have "start + length a < j" using len assms(4) by (cases sep) auto
  ultimately show False using assms(1) by (simp add: scanned_def)
qed

lemma split_loop_correct:
  assumes "sep \<noteq> []" and "start \<le> j" and "j \<le> length s" and "scanned s sep start j"
    and "concat (map (\<lambda>t. t @ sep) tokens) @ drop start s = s" and "\<forall>t \<in> set tokens. \<not> occurs_in sep t"
  shows "\<exists>tokens' start'. split_loop s sep j start tokens = (tokens', start')
    \<and> concat (map (\<lambda>t. t @ sep) tokens') @ drop start' s = s
    \<and> (\<forall>t \<in> set tokens'. \<not> occurs_in sep t) \<and> \<not> occurs_in sep (drop start' s)"
  using assms
proof (induction s sep j start tokens rule: split_loop.induct)
  case (1 s sep j start tokens)
  show ?case
  proof (cases "int j < int (length s) - (int (length sep) - 1)")
    case False
    have "scanned s sep start (length s)"
      unfolding scanned_def
    proof (intro allI impI)
      fix i assume i: "start \<le> i" "i < length s"
      show "take (length sep) (drop i s) \<noteq> sep"
      proof (cases "i < j")
        case True
        then show ?thesis using 1(6) i by (simp add: scanned_def)
      next
        case ge: False
        then have "length (take (length sep) (drop i s)) < length sep" using False i by simp
        then show ?thesis by (metis less_irrefl)
      qed
    qed
    then have "\<not> occurs_in sep (take (length s - start) (drop start s))"
      using 1(3-5) by (intro scanned_token) auto
    then have "\<not> occurs_in sep (drop start s)" by simp
    then show ?thesis using False 1(7,8) by (subst split_loop.simps) simp
  next
    case more: True
    show ?thesis
    proof (cases "take (length sep) (drop j s) = sep")
      case True
      let ?t = "take (j - start) (drop start s)"
      have "drop start s = ?t @ drop j s" using 1(4) by (metis append_take_drop_id drop_drop le_add_diff_inverse2)
      moreover have "drop j s = sep @ drop (j + length sep) s"
        using True by (metis append_take_drop_id drop_drop add.commute)
      ultimately have "concat (map (\<lambda>t. t @ sep) (tokens @ [?t])) @ drop (j + length sep) s = s"
        using 1(7) by simp
      moreover have "\<not> occurs_in sep ?t" using 1(3-6) by (intro scanned_token) auto
      moreover have "j + length sep \<le> length s" using more by linarith
      moreover have "scanned s sep (j + length sep) (j + length sep)" by (simp add: scanned_def)
      ultimately have "\<exists>tokens' start'. split_loop s sep (j + length sep) (j + length sep) (tokens @ [?t]) = (tokens', start')
          \<and> concat (map (\<lambda>t. t @ sep) tokens') @ drop start' s = s
          \<and> (\<forall>t \<in> set tokens'. \<not> occurs_in sep t) \<and> \<not> occurs_in sep (drop start' s)"
        using 1(1) more True 1(3,8) by auto
      then show ?thesis using more True 1(3) by (subst split_loop.simps) simp
    next
      case False
      have "scanned s sep start (j + 1)" using 1(6) False by (auto simp: scanned_def less_Suc_eq)
      moreover have "j + 1 \<le> length s"
        using more 1(3) by (cases sep) auto
      ultimately have "\<exists>tokens' start'. split_loop s sep (j + 1) start tokens = (tokens', start')
          \<and> concat (map (\<lambda>t. t @ sep) tokens') @ drop start' s = s
          \<and> (\<forall>t \<in> set tokens'. \<not> occurs_in sep t) \<and> \<not> occurs_in sep (drop start' s)"
        using 1(2) more False 1(3-8) by simp
      then show ?thesis using more False 1(3) by (subst split_loop.simps) simp
    qed
  qed
qed

lemma sdssplitlen_correct:
  assumes "sep \<noteq> []" and "s \<noteq> []"
  shows "\<exists>tokens. sdssplitlen s sep = Some tokens \<and> sdsjoinsds tokens sep = s \<and> (\<forall>t \<in> set tokens. \<not> occurs_in sep t)"
proof -
  obtain ts start where sl: "split_loop s sep 0 0 [] = (ts, start)" "concat (map (\<lambda>t. t @ sep) ts) @ drop start s = s"
      "\<forall>t \<in> set ts. \<not> occurs_in sep t" "\<not> occurs_in sep (drop start s)"
    using split_loop_correct [of sep 0 0 s "[]"] assms(1) by (auto simp: scanned_def)
  have "length sep \<ge> 1" using assms(1) by (simp add: Suc_le_eq)
  then have "sdssplitlen s sep = Some (ts @ [drop start s])" using sl(1) assms by (simp add: sdssplitlen_def)
  then show ?thesis using sl by (auto simp: sdsjoinsds_def join_loop)
qed


section \<open>The quoted representation\<close>

lemma foldl_append_concat: "foldl (\<lambda>s c. s @ f c) s p = s @ concat (map f p)"
  by (induction p arbitrary: s) auto

lemma sdscatrepr_concat: "sdscatrepr s p = s @ 34 # concat (map repr_char p) @ [34]"
  by (simp add: sdscatrepr_def foldl_append_concat)

lemma hex_char_all:
  "list_all (\<lambda>n. is_hex_digit (hex_char n) \<and> hex_digit_to_int (hex_char n) = n) [0..<16]"
  by (simp add: upt_rec [of _ "numeral _"] hex_char_def is_hex_digit_def hex_digit_to_int_def)

lemma hex_char_cases: "n < 16 \<Longrightarrow> is_hex_digit (hex_char n) \<and> hex_digit_to_int (hex_char n) = n"
  using hex_char_all by (simp only: list_all_iff atLeast_upt [symmetric] Ball_def lessThan_iff)

lemma peek_simps [simp]: "peek (c # p) 0 = c" "peek (c # p) (Suc k) = peek p k" "peek [] k = 0"
  by (simp_all add: peek_def)

lemma peek_numerals [simp]: "peek (c # p) 1 = peek p 0" "peek (c # p) 2 = peek p 1" "peek (c # p) 3 = peek p 2"
  by (simp_all add: peek_def numeral_2_eq_2 numeral_3_eq_3)

lemma token_hex:
  assumes "is_hex_digit a" "is_hex_digit b"
  shows "token InQ current (92 # 120 # a # b # rest) = token InQ (current @ [of_nat (hex_digit_to_int a * 16 + hex_digit_to_int b)]) rest"
  using assms by (subst token.simps) simp

lemma token_escape:
  assumes "c \<noteq> 120" "c \<noteq> 0"
  shows "token InQ current (92 # c # rest) = token InQ (current @ [unescape c]) rest"
  using assms by (subst token.simps) simp

lemma token_byte:
  assumes "c \<noteq> 92" "c \<noteq> 34" "c \<noteq> 0"
  shows "token InQ current (c # rest) = token InQ (current @ [c]) rest"
  using assms by (subst token.simps) simp

lemma token_repr_char: "token InQ current (repr_char c @ rest) = token InQ (current @ [c]) rest"
proof -
  have "unat c div 16 < 16" using unat_byte_less [of c] by (simp add: less_mult_imp_div_less)
  then have h: "is_hex_digit (hex_char (unat c div 16))" "hex_digit_to_int (hex_char (unat c div 16)) = unat c div 16"
      "is_hex_digit (hex_char (unat c mod 16))" "hex_digit_to_int (hex_char (unat c mod 16)) = unat c mod 16"
    using hex_char_cases [of "unat c div 16"] hex_char_cases [of "unat c mod 16"] by auto
  have "of_nat (unat c div 16 * 16 + unat c mod 16) = c" by simp
  moreover have "c \<noteq> 0" if "isprint c" using that by (auto simp: isprint_def)
  ultimately show ?thesis
    using token_hex [OF h(1,3), of current rest] h
    by (auto simp: repr_char_def token_escape unescape_def token_byte)
qed

lemma token_repr: "token InQ current (concat (map repr_char p) @ rest) = token InQ (current @ p) rest"
  by (induction p arbitrary: current) (simp_all add: token_repr_char)

definition ends_token :: "bytes \<Rightarrow> bool" where
  "ends_token rest \<longleftrightarrow> peek rest 0 = 0 \<or> isspace (peek rest 0)"

lemma token_quoted:
  assumes "ends_token rest"
  shows "token Plain [] (sdscatrepr [] p @ rest) = Some (p, rest)"
proof -
  have "token InQ p (34 # rest) = Some (p, rest)"
    using assms by (subst token.simps) (auto simp: ends_token_def)
  then show ?thesis using token_repr [of "[]" p "34 # rest"]
    by (subst token.simps) (simp add: sdscatrepr_concat)
qed

text \<open>A line of quoted arguments.\<close>

definition quoted_line :: "bytes list \<Rightarrow> bytes" where
  "quoted_line args = sdsjoinsds (map (sdscatrepr []) args) [32]"

fun quoted_rest :: "bytes list \<Rightarrow> bytes" where
  "quoted_rest [] = []"
| "quoted_rest (a # args) = 32 # sdscatrepr [] a @ quoted_rest args"

lemma quoted_line_rest: "quoted_line (a # args) = sdscatrepr [] a @ quoted_rest args"
proof -
  have "sdsjoinsds_loop j (map (sdscatrepr []) (a # args)) [32] = j @ sdscatrepr [] a @ quoted_rest args" for j a
    by (induction args arbitrary: j a) auto
  then show ?thesis by (simp add: quoted_line_def sdsjoinsds_def)
qed

lemma quoted_not_space: "dropWhile isspace (sdscatrepr [] a @ rest) = sdscatrepr [] a @ rest"
  "peek (sdscatrepr [] a @ rest) 0 \<noteq> 0"
  by (simp_all add: sdscatrepr_concat isspace_def)

lemma splitargs_quoted_rest: "sdssplitargs (quoted_rest args) = Some args"
proof (induction args)
  case Nil
  then show ?case by (subst sdssplitargs.simps) simp
next
  case (Cons a args)
  have "ends_token (quoted_rest args)" by (cases args) (simp_all add: ends_token_def isspace_def)
  then have "token Plain [] (sdscatrepr [] a @ quoted_rest args) = Some (a, quoted_rest args)" by (rule token_quoted)
  moreover have "dropWhile isspace (quoted_rest (a # args)) = sdscatrepr [] a @ quoted_rest args"
    using quoted_not_space(1) by (simp add: isspace_def)
  ultimately show ?case using Cons.IH quoted_not_space(2)
    by (subst sdssplitargs.simps) (simp add: Let_def)
qed


section \<open>Decimal conversion\<close>

lemma rev_digits_dec: "rev_digits v = rev (dec v)"
proof (induction v rule: rev_digits.induct)
  case (1 v)
  show ?case
  proof (cases "v < 10")
    case True
    then show ?thesis by (simp add: rev_digits.simps [of v] dec.simps [of v] byte_of_digit_def)
  next
    case False
    then have "v div 10 \<noteq> 0" by simp
    then show ?thesis using 1 False by (simp add: rev_digits.simps [of v] dec.simps [of v] byte_of_digit_def)
  qed
qed

lemma reverse_in_place_nth:
  assumes "p < length m"
  shows "length (reverse_in_place m s p) = length m
    \<and> (\<forall>i < length m. reverse_in_place m s p ! i = (if s \<le> i \<and> i \<le> p then m ! (s + p - i) else m ! i))"
  using assms
proof (induction m s p rule: reverse_in_place.induct)
  case (1 m s p)
  show ?case
  proof (cases "s < p")
    case True
    let ?m = "m[s := m ! p, p := m ! s]"
    have "length (reverse_in_place ?m (s + 1) (p - 1)) = length ?m
      \<and> (\<forall>i < length ?m. reverse_in_place ?m (s + 1) (p - 1) ! i = (if s + 1 \<le> i \<and> i \<le> p - 1 then ?m ! (s + 1 + (p - 1) - i) else ?m ! i))"
      using 1(1) [OF True] 1(2) by simp
    then show ?thesis using True 1(2)
      by (subst (1 2) reverse_in_place.simps) (auto simp: nth_list_update)
  next
    case False
    then show ?thesis by (subst (1 2) reverse_in_place.simps) (auto intro: arg_cong [of _ _ "(!) m"])
  qed
qed

lemma reverse_in_place_rev: "m \<noteq> [] \<Longrightarrow> reverse_in_place m 0 (length m - 1) = rev m"
  using reverse_in_place_nth [of "length m - 1" m 0]
  by (intro nth_equalityI) (auto simp: rev_nth Suc_le_eq less_Suc_eq_le)

lemma sdsll2str_correct:
  assumes "value \<noteq> LLONG_MIN"
  shows "sdsll2str value = Some (sdec value)"
proof -
  let ?v = "nat (if value < 0 then - value else value)"
  have ne: "rev_digits ?v @ (if value < 0 then [45] else []) \<noteq> []" by (simp add: rev_digits_dec)
  show ?thesis using assms reverse_in_place_rev [OF ne]
    by (auto simp: sdsll2str_def Let_def sdec_def rev_digits_dec)
qed


section \<open>Properties\<close>

text \<open>
  C32.  The quoted representation is read back exactly: a line made of the \<open>sdscatrepr\<close> representations
  of any list of byte strings, separated by spaces, is split by \<open>sdssplitargs\<close> into that list.
\<close>

theorem splitargs_reads_repr: "sdssplitargs (quoted_line args) = Some args"
proof (cases args)
  case Nil
  then show ?thesis by (subst sdssplitargs.simps) (simp add: quoted_line_def sdsjoinsds_def)
next
  case (Cons a as)
  have "ends_token (quoted_rest as)" by (cases as) (simp_all add: ends_token_def isspace_def)
  then have "token Plain [] (sdscatrepr [] a @ quoted_rest as) = Some (a, quoted_rest as)" by (rule token_quoted)
  then show ?thesis using splitargs_quoted_rest [of as] quoted_not_space [of a "quoted_rest as"]
    unfolding Cons quoted_line_rest by (subst sdssplitargs.simps) (simp add: Let_def)
qed

text \<open>
  \<open>sdssplitlen\<close> loses nothing and splits at every separator: on a non-empty string and separator
  it returns tokens that joined by \<open>sdsjoinsds\<close> with the separator give the string back, and none of
  which contains the separator.
\<close>

theorem splitlen_joins_back:
  assumes "sep \<noteq> []" and "s \<noteq> []"
  shows "\<exists>tokens. sdssplitlen s sep = Some tokens \<and> sdsjoinsds tokens sep = s \<and> (\<forall>t \<in> set tokens. \<not> occurs_in sep t)"
  by (rule sdssplitlen_correct [OF assms])

theorem splitlen_joins_back_witness:
  "sdssplitlen [97, 45, 45, 98, 45] [45] = Some [[97], [], [98], []]
   \<and> sdsjoinsds [[97], [], [98], []] [45] = [97, 45, 45, 98, 45]"
proof -
  have "sdssplitlen [97, 45, 45, 98, 45] [45] = Some [[97], [], [98], []]"
    by (simp add: sdssplitlen_def split_loop.simps)
  then show ?thesis using splitlen_joins_back [of "[45]" "[97, 45, 45, 98, 45]"] by simp
qed

text \<open>
  \<open>sdsll2str\<close> writes the decimal representation of every \<open>long long\<close> but the smallest, for which the
  negation in the code overflows.
\<close>

theorem sdsll2str_decimal: "sdsll2str value = (if value = LLONG_MIN then None else Some (sdec value))"
  using sdsll2str_correct [of "value"] by (simp add: sdsll2str_def)

end
