(* ===== verification/Resp.thy ===== *)
theory Resp
  imports Rio SdsText
begin

text \<open>
  \<^verbatim>\<open>networking.c\<close>, the input side: how the bytes of a connection become commands.  A client accumulates
  what \<open>read(2)\<close> returns in its query buffer; \<open>processInputBuffer\<close> recognises inline commands and
  multi bulk requests there, possibly over many reads, and hands complete argument vectors to
  \<open>processCommand\<close>.

  The executor of the commands, the pause of all clients and the death of the current client are the
  fields of an environment, over an arbitrary server state.  The query buffer is the content of its
  string (\<open>Sds\<close> relates contents to headers); \<open>strchr\<close> stops at the first zero byte, as the terminator
  ends the buffer.  \<open>None\<close> is a failed assertion.
\<close>

section \<open>The client\<close>

datatype client_flag = CLIENT_SLAVE | CLIENT_MASTER | CLIENT_MULTI | CLIENT_BLOCKED
  | CLIENT_CLOSE_AFTER_REPLY | CLIENT_ASKING | CLIENT_REPLY_SKIP_NEXT | CLIENT_REPLY_SKIP

text \<open>The replies of the parser, by their text.\<close>

datatype proto_error = TooBigInline | UnbalancedQuotes | TooBigMbulkCount | InvalidMultibulkLength
  | TooBigBulkCount | ExpectedDollar byte | InvalidBulkLength

text \<open>\<open>argc\<close> is the length of \<open>argv\<close>; \<open>asking_cmd\<close>: the last command looked up is \<open>askingCommand\<close>;
  \<open>bulklen\<close> is \<open>-1\<close> while unknown.\<close>

record client =
  querybuf :: bytes
  querybuf_peak :: nat
  argv :: "bytes list"
  asking_cmd :: bool
  reqtype :: nat
  multibulklen :: nat
  bulklen :: int
  errors :: "proto_error list"
  lastinteraction :: int
  flags :: "client_flag set"
  reploff :: int
  repl_ack_time :: int

definition PROTO_INLINE_MAX_SIZE :: nat where "PROTO_INLINE_MAX_SIZE = 1024 * 64"
definition PROTO_MBULK_BIG_ARG :: int where "PROTO_MBULK_BIG_ARG = 1024 * 32"
definition PROTO_REQ_INLINE :: nat where "PROTO_REQ_INLINE = 1"
definition PROTO_REQ_MULTIBULK :: nat where "PROTO_REQ_MULTIBULK = 2"

text \<open>\<open>strchr(s + p, ch)\<close>, as an index of \<open>s\<close>, and \<open>sdsrange(s, pos, -1)\<close>.\<close>

definition strchr_at :: "bytes \<Rightarrow> nat \<Rightarrow> byte \<Rightarrow> nat option" where
  "strchr_at s p ch =
     (let r = drop p s; n = length (takeWhile (\<lambda>b. b \<noteq> 0 \<and> b \<noteq> ch) r)
      in if n < length r \<and> r ! n = ch then Some (p + n) else None)"

definition range_from :: "nat \<Rightarrow> bytes \<Rightarrow> bytes" where
  "range_from pos s = slice (int pos) (- 1) s"

definition addReplyError :: "proto_error \<Rightarrow> client \<Rightarrow> client" where
  "addReplyError e c = c\<lparr>errors := errors c @ [e]\<rparr>"

definition setProtocolError :: "nat \<Rightarrow> client \<Rightarrow> client" where
  "setProtocolError pos c =
     c\<lparr>flags := insert CLIENT_CLOSE_AFTER_REPLY (flags c), querybuf := range_from pos (querybuf c)\<rparr>"

definition resetClient :: "client \<Rightarrow> client" where
  "resetClient c =
     (let f0 = flags c;
          f1 = (if CLIENT_MULTI \<notin> f0 \<and> \<not> asking_cmd c then f0 - {CLIENT_ASKING} else f0);
          f2 = f1 - {CLIENT_REPLY_SKIP};
          f3 = (if CLIENT_REPLY_SKIP_NEXT \<in> f2
                then insert CLIENT_REPLY_SKIP f2 - {CLIENT_REPLY_SKIP_NEXT} else f2)
      in c\<lparr>argv := [], reqtype := 0, multibulklen := 0, bulklen := - 1, flags := f3\<rparr>)"

section \<open>Inline commands\<close>

definition processInlineBuffer :: "int \<Rightarrow> client \<Rightarrow> client \<times> bool" where
  "processInlineBuffer unixtime c =
     (case strchr_at (querybuf c) 0 10 of
        None \<Rightarrow>
          (if length (querybuf c) > PROTO_INLINE_MAX_SIZE
           then setProtocolError 0 (addReplyError TooBigInline c) else c, False)
      | Some newline0 \<Rightarrow>
          let newline = (if newline0 \<noteq> 0 \<and> querybuf c ! (newline0 - 1) = 13 then newline0 - 1 else newline0);
              querylen = newline
          in case sdssplitargs (take querylen (querybuf c)) of
               None \<Rightarrow> (setProtocolError 0 (addReplyError UnbalancedQuotes c), False)
             | Some args \<Rightarrow>
                 let c1 = (if querylen = 0 \<and> CLIENT_SLAVE \<in> flags c
                           then c\<lparr>repl_ack_time := unixtime\<rparr> else c);
                     c2 = c1\<lparr>querybuf := range_from (querylen + 2) (querybuf c1)\<rparr>
                 in (c2\<lparr>argv := filter (\<lambda>a. a \<noteq> []) args\<rparr>, True))"

section \<open>Multi bulk requests\<close>

text \<open>The outcome of a part of the loop: leave the loop, return an error, go on.\<close>

datatype bulk_iter = Bulk_break nat client | Bulk_fail client | Bulk_next nat client

text \<open>The line \<open>$len\<close> of an argument.  \<open>(signed)sdslen\<close> is a 32-bit conversion; \<open>pos\<close> never exceeds the
  length of the buffer.\<close>

definition read_bulk_length :: "nat \<Rightarrow> client \<Rightarrow> bulk_iter" where
  "read_bulk_length pos c =
     (case strchr_at (querybuf c) pos 13 of
        None \<Rightarrow>
          if length (querybuf c) > PROTO_INLINE_MAX_SIZE
          then Bulk_fail (setProtocolError 0 (addReplyError TooBigBulkCount c))
          else Bulk_break pos c
      | Some newline \<Rightarrow>
          if int newline > to_signed 32 (int (length (querybuf c))) - 2 then Bulk_break pos c
          else if querybuf c ! pos \<noteq> 36
          then Bulk_fail (setProtocolError pos (addReplyError (ExpectedDollar (querybuf c ! pos)) c))
          else case string2ll (take (newline - (pos + 1)) (drop (pos + 1) (querybuf c))) of
                 None \<Rightarrow> Bulk_fail (setProtocolError pos (addReplyError InvalidBulkLength c))
               | Some ll \<Rightarrow>
                   if ll < 0 \<or> ll > 512 * 1024 * 1024
                   then Bulk_fail (setProtocolError pos (addReplyError InvalidBulkLength c))
                   else let pos' = pos + (newline - pos) + 2
                        in if ll \<ge> PROTO_MBULK_BIG_ARG
                           then Bulk_next 0 (c\<lparr>querybuf := range_from pos' (querybuf c), bulklen := ll\<rparr>)
                           else Bulk_next pos' (c\<lparr>bulklen := ll\<rparr>))"

text \<open>The argument: the whole buffer becomes the object when it holds just the argument.\<close>

definition read_bulk_argument :: "nat \<Rightarrow> client \<Rightarrow> bulk_iter" where
  "read_bulk_argument pos c =
     (if to_unsigned 64 (int (length (querybuf c)) - int pos) < to_unsigned 32 (bulklen c + 2)
      then Bulk_break pos c
      else if pos = 0 \<and> bulklen c \<ge> PROTO_MBULK_BIG_ARG
              \<and> to_signed 32 (int (length (querybuf c))) = bulklen c + 2
      then Bulk_next 0 (c\<lparr>argv := argv c @ [take (length (querybuf c) - 2) (querybuf c)], querybuf := [],
             bulklen := - 1, multibulklen := multibulklen c - 1\<rparr>)
      else Bulk_next (pos + nat (bulklen c) + 2)
             (c\<lparr>argv := argv c @ [take (nat (bulklen c)) (drop pos (querybuf c))],
                bulklen := - 1, multibulklen := multibulklen c - 1\<rparr>))"

definition bulk_iteration :: "nat \<Rightarrow> client \<Rightarrow> bulk_iter" where
  "bulk_iteration pos c =
     (case (if bulklen c = - 1 then read_bulk_length pos c else Bulk_next pos c) of
        Bulk_next pos1 c1 \<Rightarrow> read_bulk_argument pos1 c1
      | stop \<Rightarrow> stop)"

lemma bulk_iteration_counts:
  "bulk_iteration pos c = Bulk_next pos' c' \<Longrightarrow> multibulklen c' = multibulklen c - 1"
  unfolding bulk_iteration_def read_bulk_length_def read_bulk_argument_def
  by (auto simp: Let_def split: if_splits option.splits)

function bulk_loop :: "nat \<Rightarrow> client \<Rightarrow> bulk_iter" where
  "bulk_loop pos c =
     (if multibulklen c = 0 then Bulk_break pos c
      else case bulk_iteration pos c of
             Bulk_next pos' c' \<Rightarrow> bulk_loop pos' c'
           | stop \<Rightarrow> stop)"
  by pat_completeness auto
termination by (relation "measure (\<lambda>(pos, c). multibulklen c)") (auto dest: bulk_iteration_counts)

declare bulk_loop.simps [simp del]

text \<open>The first line: \<open>Inl\<close> when the function returns there, \<open>Inr\<close> when it goes on to the arguments.\<close>

definition multibulk_header :: "client \<Rightarrow> ((client \<times> bool) + (nat \<times> client)) option" where
  "multibulk_header c =
     (if argv c \<noteq> [] then None
      else case strchr_at (querybuf c) 0 13 of
        None \<Rightarrow> Some (Inl (if length (querybuf c) > PROTO_INLINE_MAX_SIZE
                 then setProtocolError 0 (addReplyError TooBigMbulkCount c) else c, False))
      | Some newline \<Rightarrow>
          if int newline > to_signed 32 (int (length (querybuf c))) - 2 then Some (Inl (c, False))
          else if querybuf c ! 0 \<noteq> 42 then None
          else case string2ll (take (newline - 1) (drop 1 (querybuf c))) of
                 None \<Rightarrow> Some (Inl (setProtocolError 0 (addReplyError InvalidMultibulkLength c), False))
               | Some ll \<Rightarrow>
                   if ll > 1024 * 1024
                   then Some (Inl (setProtocolError 0 (addReplyError InvalidMultibulkLength c), False))
                   else if ll \<le> 0
                   then Some (Inl (c\<lparr>querybuf := range_from (newline + 2) (querybuf c)\<rparr>, True))
                   else Some (Inr (newline + 2, c\<lparr>multibulklen := nat ll, argv := []\<rparr>)))"

definition bulk_arguments :: "nat \<Rightarrow> client \<Rightarrow> client \<times> bool" where
  "bulk_arguments pos c =
     (case bulk_loop pos c of
        Bulk_fail c' \<Rightarrow> (c', False)
      | Bulk_break pos' c' \<Rightarrow>
          (if pos' \<noteq> 0 then c'\<lparr>querybuf := range_from pos' (querybuf c')\<rparr> else c', multibulklen c' = 0)
      | Bulk_next pos' c' \<Rightarrow> (c', False))"

definition processMultibulkBuffer :: "client \<Rightarrow> (client \<times> bool) option" where
  "processMultibulkBuffer c =
     (if multibulklen c = 0 then
        (case multibulk_header c of
           None \<Rightarrow> None
         | Some (Inl r) \<Rightarrow> Some r
         | Some (Inr (pos, c')) \<Rightarrow> Some (bulk_arguments pos c'))
      else Some (bulk_arguments 0 c))"

section \<open>The input loop\<close>

text \<open>What \<open>processCommand\<close> does to the client besides executing the command: the flags, the command it
  looked up; and whether it returned \<open>C_OK\<close>.\<close>

record 'a outcome =
  out_flags :: "client_flag set"
  out_asking :: bool
  out_state :: 'a
  out_ok :: bool

record 'a environment =
  run_command :: "bytes list \<Rightarrow> client_flag set \<Rightarrow> 'a \<Rightarrow> 'a outcome"
  clients_paused :: "'a \<Rightarrow> bool \<times> 'a"
  client_gone :: "'a \<Rightarrow> bool"
  server_time :: int
  client_max_querybuf_len :: nat

definition input_step :: "'a environment \<Rightarrow> client \<Rightarrow> 'a \<Rightarrow> (bool \<times> client \<times> 'a) option" where
  "input_step E c a =
     (let (paused, a1) = (if CLIENT_SLAVE \<in> flags c then (False, a) else clients_paused E a)
      in if paused \<or> CLIENT_BLOCKED \<in> flags c \<or> CLIENT_CLOSE_AFTER_REPLY \<in> flags c
         then Some (False, c, a1)
         else
           let c1 = (if reqtype c = 0
                     then c\<lparr>reqtype := if querybuf c ! 0 = 42 then PROTO_REQ_MULTIBULK else PROTO_REQ_INLINE\<rparr>
                     else c)
           in do {
             (c2, ok) \<leftarrow> (if reqtype c1 = PROTO_REQ_INLINE
                          then Some (processInlineBuffer (server_time E) c1)
                          else if reqtype c1 = PROTO_REQ_MULTIBULK then processMultibulkBuffer c1
                          else None);
             if \<not> ok then Some (False, c2, a1)
             else if argv c2 = [] then Some (True, resetClient c2, a1)
             else let r = run_command E (argv c2) (flags c2) a1;
                      c3 = c2\<lparr>flags := out_flags r, asking_cmd := out_asking r\<rparr>;
                      c4 = (if out_ok r then resetClient c3 else c3)
                  in Some (\<not> client_gone E (out_state r), c4, out_state r)})"

text \<open>Every iteration that goes on consumes some of the buffer.\<close>

lemma range_from_drop [simp]: "range_from pos s = drop pos s"
proof (cases "pos < length s")
  case True
  then show ?thesis by (simp add: range_from_def slice_def Let_def nat_diff_distrib)
qed (auto simp: range_from_def slice_def Let_def)

lemma strchr_Some:
  assumes "strchr_at s p ch = Some n"
  shows "p \<le> n" "n < length s" "s ! n = ch" "ch \<notin> set (take (n - p) (drop p s))"
proof -
  let ?t = "takeWhile (\<lambda>b. b \<noteq> 0 \<and> b \<noteq> ch) (drop p s)"
  have t: "n = p + length ?t" "length ?t < length (drop p s)" "drop p s ! length ?t = ch"
    using assms by (auto simp: strchr_at_def Let_def split: if_splits)
  have "take (length ?t) (drop p s) = ?t" by (metis takeWhile_eq_take)
  then show "p \<le> n" "n < length s" "s ! n = ch" "ch \<notin> set (take (n - p) (drop p s))"
    using t by (auto dest: set_takeWhileD)
qed

lemma strchr_Some_in:
  assumes "strchr_at s p ch = Some n"
  shows "ch \<in> set (drop p s)"
proof -
  have "drop p s ! (n - p) = ch" "n - p < length (drop p s)" using strchr_Some(1-3) [OF assms] by simp_all
  then show ?thesis by (metis nth_mem)
qed

lemma strchr_range: "strchr_at s p ch = Some n \<Longrightarrow> p \<le> n \<and> n < length s"
  by (simp add: strchr_Some(1,2))

definition unread :: "nat \<Rightarrow> client \<Rightarrow> nat" where
  "unread pos c = length (querybuf c) - pos"

lemma read_bulk_length_unread:
  "read_bulk_length pos c = Bulk_next pos' c' \<Longrightarrow> unread pos c > 0 \<and> unread pos' c' < unread pos c"
  unfolding read_bulk_length_def unread_def
  by (auto simp: Let_def split: if_splits option.splits dest!: strchr_range)

lemma read_bulk_argument_unread:
  "read_bulk_argument pos c = Bulk_next pos' c' \<Longrightarrow>
   unread pos' c' \<le> unread pos c \<and> (unread pos c > 0 \<longrightarrow> unread pos' c' < unread pos c)"
  unfolding read_bulk_argument_def unread_def by (auto split: if_splits)

lemma bulk_iteration_unread:
  assumes "bulk_iteration pos c = Bulk_next pos' c'"
  shows "unread pos' c' \<le> unread pos c \<and> (unread pos c > 0 \<longrightarrow> unread pos' c' < unread pos c)"
  using assms unfolding bulk_iteration_def
  by (fastforce split: if_splits bulk_iter.splits
      dest: read_bulk_length_unread read_bulk_argument_unread)

lemma bulk_iteration_break:
  "bulk_iteration pos c = Bulk_break pos' c' \<Longrightarrow> multibulklen c' = multibulklen c"
  unfolding bulk_iteration_def read_bulk_length_def read_bulk_argument_def
  by (auto simp: Let_def split: if_splits option.splits bulk_iter.splits)

lemma bulk_loop_unread:
  assumes "bulk_loop pos c = Bulk_break pos' c'" and "multibulklen c' = 0"
  shows "unread pos' c' \<le> unread pos c \<and>
    (multibulklen c \<noteq> 0 \<longrightarrow> unread pos c > 0 \<longrightarrow> unread pos' c' < unread pos c)"
  using assms
proof (induction pos c rule: bulk_loop.induct)
  case (1 pos c)
  show ?case
  proof (cases "multibulklen c = 0")
    case True
    then show ?thesis using "1.prems" by (simp add: bulk_loop.simps)
  next
    case False
    then obtain p d where pd: "bulk_iteration pos c = Bulk_next p d" "bulk_loop p d = Bulk_break pos' c'"
      using "1.prems" by (subst (asm) bulk_loop.simps) (auto split: bulk_iter.splits dest: bulk_iteration_break)
    then show ?thesis using "1.IH" [OF False pd(1) pd(2) "1.prems"(2)] bulk_iteration_unread [OF pd(1)] by linarith
  qed
qed

lemma bulk_arguments_unread:
  assumes "bulk_arguments pos c = (c', True)"
  shows "length (querybuf c') \<le> unread pos c"
    and "multibulklen c \<noteq> 0 \<Longrightarrow> unread pos c > 0 \<Longrightarrow> length (querybuf c') < unread pos c"
  using assms bulk_loop_unread [of pos c]
  by (auto simp: bulk_arguments_def unread_def split: bulk_iter.splits if_splits)

lemma processMultibulkBuffer_consumes:
  assumes "processMultibulkBuffer c = Some (c', True)" and "querybuf c \<noteq> []"
  shows "length (querybuf c') < length (querybuf c)"
proof (cases "multibulklen c = 0")
  case True
  then obtain r where r: "multibulk_header c = Some r" using assms(1)
    by (auto simp: processMultibulkBuffer_def split: option.splits)
  show ?thesis
  proof (cases r)
    case (Inl x)
    then show ?thesis using assms True r
      by (auto simp: processMultibulkBuffer_def multibulk_header_def split: if_splits option.splits dest!: strchr_range)
  next
    case (Inr x)
    obtain pos d where "x = (pos, d)" by force
    then have "bulk_arguments pos d = (c', True)" and "multibulklen d \<noteq> 0"
      and "unread pos d < length (querybuf c)"
      using assms True r Inr
      by (auto simp: processMultibulkBuffer_def multibulk_header_def unread_def split: if_splits option.splits dest!: strchr_range)
    then show ?thesis using bulk_arguments_unread(1) by fastforce
  qed
next
  case False
  then show ?thesis using assms bulk_arguments_unread(2) [of 0 c c']
    by (simp add: processMultibulkBuffer_def unread_def)
qed

lemma processInlineBuffer_consumes:
  assumes "processInlineBuffer t c = (c', True)"
  shows "length (querybuf c') < length (querybuf c)"
  using assms unfolding processInlineBuffer_def
  by (auto simp: Let_def split: if_splits option.splits dest!: strchr_range)

lemma resetClient_querybuf [simp]: "querybuf (resetClient c) = querybuf c"
  by (simp add: resetClient_def Let_def)

lemma input_step_consumes:
  assumes "input_step E c a = Some (True, c', a')" and "querybuf c \<noteq> []"
  shows "length (querybuf c') < length (querybuf c)"
  using assms unfolding input_step_def
  by (auto simp: Let_def split: if_splits prod.splits bind_splits
      dest!: processMultibulkBuffer_consumes processInlineBuffer_consumes)

function processInputBuffer :: "'a environment \<Rightarrow> client \<Rightarrow> 'a \<Rightarrow> (client \<times> 'a) option" where
  "processInputBuffer E c a =
     (if querybuf c = [] then Some (c, a)
      else case input_step E c a of
             None \<Rightarrow> None
           | Some (True, c', a') \<Rightarrow> processInputBuffer E c' a'
           | Some (False, c', a') \<Rightarrow> Some (c', a'))"
  by pat_completeness auto
termination by (relation "measure (\<lambda>(E, c, a). length (querybuf c))") (auto dest: input_step_consumes)

declare processInputBuffer.simps [simp del]

section \<open>Reading from the socket\<close>

text \<open>The socket: the bytes the peer has sent that were not read yet, and whether it closed.  What one
  \<open>read(2)\<close> does is the choice of the system: an error, or at most so many bytes; a read of zero bytes
  returns zero.\<close>

record socket =
  in_flight :: bytes
  peer_closed :: bool

datatype os_choice = OS_error | OS_bytes nat

datatype read_result = Read_again | Read_error | Read_bytes bytes

definition sys_read :: "os_choice \<Rightarrow> nat \<Rightarrow> socket \<Rightarrow> read_result \<times> socket" where
  "sys_read ch count s =
     (case ch of
        OS_error \<Rightarrow> (Read_error, s)
      | OS_bytes k \<Rightarrow>
          if count = 0 then (Read_bytes [], s)
          else if in_flight s = [] then (if peer_closed s then Read_bytes [] else Read_again, s)
          else let n = min count (max 1 k)
               in (Read_bytes (take n (in_flight s)), s\<lparr>in_flight := drop n (in_flight s)\<rparr>))"

text \<open>\<open>remaining\<close> is computed in \<open>size_t\<close> and stored in an \<open>int\<close>.\<close>

definition query_readlen :: "client \<Rightarrow> int" where
  "query_readlen c =
     (let readlen = int PROTO_IOBUF_LEN
      in if reqtype c = PROTO_REQ_MULTIBULK \<and> multibulklen c \<noteq> 0 \<and> bulklen c \<noteq> - 1
            \<and> bulklen c \<ge> PROTO_MBULK_BIG_ARG
         then let remaining = to_signed 32 (to_unsigned 64
                    (to_unsigned 32 (bulklen c + 2) - int (length (querybuf c))))
              in if remaining < readlen then remaining else readlen
         else readlen)"

text \<open>The result has no client when \<open>freeClient\<close> was called, here or while the commands ran.  A negative length would ask
  \<open>sdsMakeRoomFor\<close> for more than the address space.\<close>

definition readQueryFromClient ::
  "'a environment \<Rightarrow> os_choice \<Rightarrow> client \<Rightarrow> socket \<Rightarrow> 'a \<Rightarrow> (client option \<times> socket \<times> 'a) option" where
  "readQueryFromClient E ch c s a =
     (if query_readlen c < 0 then None
      else
        let c1 = c\<lparr>querybuf_peak := max (querybuf_peak c) (length (querybuf c))\<rparr>
        in case sys_read ch (nat (query_readlen c)) s of
             (Read_again, s') \<Rightarrow> Some (Some c1, s', a)
           | (Read_error, s') \<Rightarrow> Some (None, s', a)
           | (Read_bytes bs, s') \<Rightarrow>
               if bs = [] then Some (None, s', a)
               else
                 let c2 = c1\<lparr>querybuf := querybuf c1 @ bs, lastinteraction := server_time E,
                       reploff := (if CLIENT_MASTER \<in> flags c1 then reploff c1 + int (length bs) else reploff c1)\<rparr>
                 in if length (querybuf c2) > client_max_querybuf_len E then Some (None, s', a)
                    else map_option (\<lambda>(c3, a'). (if client_gone E a' then None else Some c3, s', a'))
                           (processInputBuffer E c2 a))"

text \<open>A sequence of readable events of the connection.\<close>

fun serve :: "'a environment \<Rightarrow> os_choice list \<Rightarrow> client option \<times> socket \<times> 'a \<Rightarrow>
  (client option \<times> socket \<times> 'a) option" where
  "serve E (ch # chs) (Some c, s, a) = do { r \<leftarrow> readQueryFromClient E ch c s a; serve E chs r }"
| "serve E chs (None, s, a) = Some (None, s, a)"
| "serve E [] r = Some r"

end
