(* ===== verification/RespProps.thy ===== *)
theory RespProps
  imports Resp
begin

text \<open>
  Correctness of the input side of \<^verbatim>\<open>networking.c\<close>.  First well-formed streams: one lemma per part of the
  parser says that it either stops for lack of data, in a state from which the rest of the stream is
  still readable, or consumes its part; the bound on the query buffer between two reads (\<open>starved\<close>)
  keeps the limit on the length of a line out of the way.  Then arbitrary bytes: the invariant
  \<open>client_ok\<close> under which no assertion fails.  The properties are at the end, with the three ways in
  which the code loses or refuses well-formed input.
\<close>

section \<open>A request, read piecewise\<close>

definition resp_command :: "bytes list \<Rightarrow> bytes" where
  "resp_command args = 42 # sdec (int (length args)) @ [13, 10] @ concat (map bulk args)"

lemma sdec_no_control: "b \<in> set (sdec (int n)) \<Longrightarrow> b \<noteq> 0 \<and> b \<noteq> 13"
  using dec_digits [of n] by (auto simp: sdec_def list_all_iff isdig_def)

lemma strchr_line:
  assumes "pos \<le> length q" and "drop pos q @ rest = line @ [13, 10] @ nxt"
    and "\<forall>b\<in>set line. b \<noteq> 0 \<and> b \<noteq> 13"
  shows "length (drop pos q) \<le> length line \<Longrightarrow> strchr_at q pos 13 = None"
    and "length (drop pos q) > length line \<Longrightarrow> strchr_at q pos 13 = Some (pos + length line)"
proof -
  have t: "takeWhile (\<lambda>b. b \<noteq> 0 \<and> b \<noteq> 13) line = line" using assms(3) by (simp add: takeWhile_eq_all_conv)
  have d: "drop pos q = take (length (drop pos q)) (line @ [13, 10] @ nxt)" using assms(2) by (metis append_eq_conv_conj)
  show "strchr_at q pos 13 = None" if "length (drop pos q) \<le> length line"
  proof -
    have "take n (line @ [13, 10] @ nxt) = take n line" if "n \<le> length line" for n using that by simp
    then have "drop pos q = take (length (drop pos q)) line" using d that by metis
    then have "\<forall>b\<in>set (drop pos q). b \<noteq> 0 \<and> b \<noteq> 13" using assms(3) in_set_takeD by metis
    then have "takeWhile (\<lambda>b. b \<noteq> 0 \<and> b \<noteq> 13) (drop pos q) = drop pos q" by (simp add: takeWhile_eq_all_conv)
    then show ?thesis by (simp only: strchr_at_def Let_def) simp
  qed
  show "strchr_at q pos 13 = Some (pos + length line)" if l: "length (drop pos q) > length line"
  proof -
    have "drop pos q = line @ take (length (drop pos q) - length line) ([13, 10] @ nxt)"
      using d l by (metis le_eq_less_or_eq take_all take_append)
    moreover have "take n ([13, 10] @ nxt) = 13 # take (n - 1) ([10] @ nxt)" if "n > 0" for n
      using that by (cases n) simp_all
    ultimately obtain z where z: "drop pos q = line @ 13 # z" using l by (metis zero_less_diff)
    have "takeWhile (\<lambda>b. b \<noteq> 0 \<and> b \<noteq> 13) (drop pos q) = line" unfolding z using t by (simp add: takeWhile_append)
    then show ?thesis unfolding strchr_at_def Let_def z by simp
  qed
qed

lemma length_dec_le: "v < 10 ^ Suc k \<Longrightarrow> length (dec v) \<le> Suc k"
proof (induction k arbitrary: v)
  case 0
  then show ?case by (simp add: dec_small)
next
  case (Suc k)
  have "v div 10 < 10 ^ Suc k" using Suc.prems by (simp add: div_less_iff_less_mult)
  then show ?case using Suc.IH [of "v div 10"] by (cases "v < 10") (simp_all add: dec_small dec_step)
qed

lemma length_sdec_le: "n < 10 ^ Suc k \<Longrightarrow> length (sdec (int n)) \<le> Suc k"
  by (simp add: sdec_def length_dec_le)

lemma drop_after_line:
  assumes "drop pos q @ rest = line @ [13, 10] @ nxt" and "length line + 2 \<le> length (drop pos q)"
  shows "drop (pos + length line + 2) q @ rest = nxt" and "take (length line) (drop pos q) = line"
proof -
  have "drop (pos + length line + 2) q = drop (length line + 2) (drop pos q)" by (simp add: add.commute)
  moreover have "drop (length line + 2) (drop pos q) @ rest = drop (length line + 2) (drop pos q @ rest)"
    using assms(2) by simp
  ultimately show "drop (pos + length line + 2) q @ rest = nxt" using assms(1) by simp
  have "take (length line) (drop pos q) = take (length line) (drop pos q @ rest)" using assms(2) by simp
  then show "take (length line) (drop pos q) = line" using assms(1) by simp
qed

lemma arg_max_to_signed: "n \<le> 2147483647 \<Longrightarrow> to_signed 32 (int n) = int n"
  by (intro to_signed_id) auto

text \<open>The line of the length of an argument: not there yet, or consumed.\<close>

lemma read_bulk_length_correct:
  assumes pos: "pos \<le> length (querybuf c)" and q: "drop pos (querybuf c) @ rest = bulk x @ nxt"
    and room: "length (querybuf c) \<le> PROTO_INLINE_MAX_SIZE" and x: "length x \<le> 512 * 1024 * 1024"
  shows "read_bulk_length pos c = Bulk_break pos c \<and> rest \<noteq> [] \<and> length (drop pos (querybuf c)) \<le> 12
    \<or> (\<exists>pos' q'. read_bulk_length pos c = Bulk_next pos' (c\<lparr>querybuf := q', bulklen := int (length x)\<rparr>)
        \<and> pos' \<le> length q' \<and> length q' \<le> PROTO_INLINE_MAX_SIZE \<and> drop pos' q' @ rest = x @ [13, 10] @ nxt)"
proof -
  define line where "line = 36 # sdec (int (length x))"
  have q': "drop pos (querybuf c) @ rest = line @ [13, 10] @ x @ [13, 10] @ nxt"
    using q by (simp add: bulk_def line_def)
  have nc: "\<forall>b\<in>set line. b \<noteq> 0 \<and> b \<noteq> 13" by (auto simp: line_def dest: sdec_no_control)
  have len: "length line \<le> 10" using length_sdec_le [of "length x" 8] x by (simp add: line_def)
  have sg: "to_signed 32 (int (length (querybuf c))) = int (length (querybuf c))"
    using room by (intro arg_max_to_signed) (simp add: PROTO_INLINE_MAX_SIZE_def)
  note sc = strchr_line [OF pos q' nc]
  consider (none) "length (drop pos (querybuf c)) \<le> length line"
    | (half) "length (drop pos (querybuf c)) = length line + 1"
    | (full) "length line + 2 \<le> length (drop pos (querybuf c))" by linarith
  then show ?thesis
  proof cases
    case none
    then have "read_bulk_length pos c = Bulk_break pos c" using sc(1) room by (simp add: read_bulk_length_def)
    moreover have "rest \<noteq> []" using none arg_cong [OF q', of length] by auto
    ultimately show ?thesis using none len by simp
  next
    case half
    then have "strchr_at (querybuf c) pos 13 = Some (pos + length line)" using sc(2) by simp
    moreover have "int (pos + length line) > int (length (querybuf c)) - 2" using half by simp
    ultimately have "read_bulk_length pos c = Bulk_break pos c" by (simp add: read_bulk_length_def sg)
    moreover have "rest \<noteq> []" using half arg_cong [OF q', of length] by auto
    ultimately show ?thesis using half len by simp
  next
    case full
    let ?p = "pos + length line + 2"
    have ps: "?p \<le> length (querybuf c)" using full pos by simp
    have s: "strchr_at (querybuf c) pos 13 = Some (pos + length line)" using sc(2) full by simp
    note dl = drop_after_line [OF q' full]
    have hd: "querybuf c ! pos = 36"
    proof -
      have "drop pos (querybuf c) = line @ drop (length line) (drop pos (querybuf c))" using dl(2) by (metis append_take_drop_id)
      then have "hd (drop pos (querybuf c)) = 36" by (metis line_def append_Cons list.sel(1))
      then show ?thesis using ps by (simp add: hd_drop_conv_nth)
    qed
    have ll: "string2ll (take (pos + length line - (pos + 1)) (drop (pos + 1) (querybuf c))) = Some (int (length x))"
    proof -
      have "take (pos + length line - (pos + 1)) (drop (pos + 1) (querybuf c)) = tl (take (length line) (drop pos (querybuf c)))"
        by (simp add: line_def tl_take drop_Suc tl_drop)
      then show ?thesis using dl(2) x by (simp add: line_def string2ll_sdec range_simps)
    qed
    show ?thesis
    proof (cases "int (length x) \<ge> PROTO_MBULK_BIG_ARG")
      case True
      then have "read_bulk_length pos c = Bulk_next 0 (c\<lparr>querybuf := drop ?p (querybuf c), bulklen := int (length x)\<rparr>)"
        using s hd ll x ps by (simp add: read_bulk_length_def sg)
      then show ?thesis using dl(1) room by (intro disjI2 exI [of _ 0] exI [of _ "drop ?p (querybuf c)"]) auto
    next
      case False
      then have "read_bulk_length pos c = Bulk_next ?p (c\<lparr>querybuf := querybuf c, bulklen := int (length x)\<rparr>)"
        using s hd ll x ps by (simp add: read_bulk_length_def sg)
      then show ?thesis using dl(1) room ps by blast
    qed
  qed
qed

text \<open>The argument: not there yet, or taken over; in the latter case the buffer is within the limit again.\<close>

definition room :: "nat \<Rightarrow> client \<Rightarrow> bool" where
  "room pos c \<longleftrightarrow> length (querybuf c) \<le> PROTO_INLINE_MAX_SIZE
     \<or> pos = 0 \<and> bulklen c \<ge> PROTO_MBULK_BIG_ARG \<and> int (length (querybuf c)) \<le> bulklen c + 2"

lemma read_bulk_argument_correct:
  assumes pos: "pos \<le> length (querybuf c)" and q: "drop pos (querybuf c) @ rest = x @ [13, 10] @ nxt"
    and room: "room pos c" and x: "length x \<le> 512 * 1024 * 1024" and b: "bulklen c = int (length x)"
  shows "read_bulk_argument pos c = Bulk_break pos c \<and> rest \<noteq> [] \<and> length (drop pos (querybuf c)) < length x + 2
    \<or> (\<exists>pos' q'. read_bulk_argument pos c = Bulk_next pos' (c\<lparr>querybuf := q', argv := argv c @ [x],
          bulklen := - 1, multibulklen := multibulklen c - 1\<rparr>)
        \<and> pos' \<le> length q' \<and> length q' \<le> PROTO_INLINE_MAX_SIZE \<and> drop pos' q' @ rest = nxt)"
proof -
  have small: "length (querybuf c) \<le> 2147483647"
    using room x b by (auto simp: room_def PROTO_INLINE_MAX_SIZE_def)
  note sg = arg_max_to_signed [OF small]
  have u32: "to_unsigned 32 (bulklen c + 2) = int (length x + 2)" using b x by (simp add: to_unsigned_id)
  have u64: "to_unsigned 64 (int (length (querybuf c)) - int pos) = int (length (drop pos (querybuf c)))"
    using pos small by (subst to_unsigned_id) (auto simp: of_nat_diff)
  show ?thesis
  proof (cases "length (drop pos (querybuf c)) < length x + 2")
    case True
    then have "read_bulk_argument pos c = Bulk_break pos c" unfolding read_bulk_argument_def u32 u64 by simp
    moreover have "rest \<noteq> []" using True arg_cong [OF q, of length] by auto
    ultimately show ?thesis using True by blast
  next
    case False
    then have full: "length x + 2 \<le> length (drop pos (querybuf c))" by simp
    note dl = drop_after_line [OF q full]
    show ?thesis
    proof (cases "pos = 0 \<and> bulklen c \<ge> PROTO_MBULK_BIG_ARG \<and> int (length (querybuf c)) = bulklen c + 2")
      case True
      then have "length (querybuf c) = length x + 2" using b by linarith
      then have "take (length (querybuf c) - 2) (querybuf c) = x" using dl(2) True by simp
      then have "read_bulk_argument pos c = Bulk_next 0 (c\<lparr>querybuf := [], argv := argv c @ [x],
          bulklen := - 1, multibulklen := multibulklen c - 1\<rparr>)"
        using True False unfolding read_bulk_argument_def u32 u64 sg by simp
      moreover have "rest = nxt" using dl(1) True b by simp
      ultimately show ?thesis by (intro disjI2 exI [of _ 0] exI [of _ "[]"]) simp
    next
      case other: False
      then have "length (querybuf c) \<le> PROTO_INLINE_MAX_SIZE" using room full b by (auto simp: room_def)
      moreover have "read_bulk_argument pos c = Bulk_next (pos + length x + 2) (c\<lparr>querybuf := querybuf c,
          argv := argv c @ [x], bulklen := - 1, multibulklen := multibulklen c - 1\<rparr>)"
        using other False dl(2) b unfolding read_bulk_argument_def u32 u64 sg by simp
      ultimately show ?thesis using dl(1) full pos by (intro disjI2 exI [of _ "pos + length x + 2"] exI [of _ "querybuf c"]) auto
    qed
  qed
qed

text \<open>What is still to come of a request of which the arguments \<open>xs\<close> are missing, and the state of the client
  that waits for it: the part of the stream it has not consumed is in its buffer and in \<open>rest\<close>.\<close>

definition pending :: "int \<Rightarrow> bytes list \<Rightarrow> bytes" where
  "pending b xs = (if b = - 1 then concat (map bulk xs) else hd xs @ [13, 10] @ concat (map bulk (tl xs)))"

definition awaits :: "nat \<Rightarrow> client \<Rightarrow> bytes list \<Rightarrow> bytes \<Rightarrow> bytes \<Rightarrow> bool" where
  "awaits pos c xs rest nxt \<longleftrightarrow>
     multibulklen c = length xs \<and> (bulklen c = - 1 \<or> xs \<noteq> [] \<and> bulklen c = int (length (hd xs)))
     \<and> (\<forall>x\<in>set xs. length x \<le> 512 * 1024 * 1024) \<and> pos \<le> length (querybuf c)
     \<and> drop pos (querybuf c) @ rest = pending (bulklen c) xs @ nxt"

text \<open>The bound that holds whenever the parser stops for lack of data.\<close>

definition starved :: "bytes \<Rightarrow> int \<Rightarrow> bool" where
  "starved q b \<longleftrightarrow> int (length q) < PROTO_MBULK_BIG_ARG + 2 \<or> b \<ge> PROTO_MBULK_BIG_ARG \<and> int (length q) < b + 2"

definition stage_result :: "bulk_iter \<Rightarrow> client \<Rightarrow> bytes \<Rightarrow> bytes list \<Rightarrow> bytes \<Rightarrow> bytes \<Rightarrow> bool" where
  "stage_result r c x xs rest nxt \<longleftrightarrow>
     (\<exists>pos' q' b'. r = Bulk_break pos' (c\<lparr>querybuf := q', bulklen := b'\<rparr>) \<and> rest \<noteq> []
        \<and> awaits pos' (c\<lparr>querybuf := q', bulklen := b'\<rparr>) (x # xs) rest nxt \<and> starved (drop pos' q') b')
     \<or> (\<exists>pos' q'. r = Bulk_next pos' (c\<lparr>querybuf := q', argv := argv c @ [x], bulklen := - 1, multibulklen := length xs\<rparr>)
        \<and> awaits pos' (c\<lparr>querybuf := q', argv := argv c @ [x], bulklen := - 1, multibulklen := length xs\<rparr>) xs rest nxt
        \<and> length q' \<le> PROTO_INLINE_MAX_SIZE)"

lemma argument_stage:
  assumes aw: "awaits pos c (x # xs) rest nxt" and room: "room pos c" and b: "bulklen c = int (length x)"
  shows "stage_result (read_bulk_argument pos c) c x xs rest nxt"
proof -
  have facts: "pos \<le> length (querybuf c)" "drop pos (querybuf c) @ rest = x @ [13, 10] @ concat (map bulk xs) @ nxt"
    "length x \<le> 512 * 1024 * 1024" "multibulklen c = Suc (length xs)" "\<forall>y\<in>set xs. length y \<le> 512 * 1024 * 1024"
    using aw b by (auto simp: awaits_def pending_def)
  consider (wait) "read_bulk_argument pos c = Bulk_break pos c" "rest \<noteq> []" "length (drop pos (querybuf c)) < length x + 2"
    | (go) pos' q' where "read_bulk_argument pos c = Bulk_next pos' (c\<lparr>querybuf := q', argv := argv c @ [x],
          bulklen := - 1, multibulklen := multibulklen c - 1\<rparr>)"
        "pos' \<le> length q'" "length q' \<le> PROTO_INLINE_MAX_SIZE" "drop pos' q' @ rest = concat (map bulk xs) @ nxt"
    using read_bulk_argument_correct [OF facts(1,2) room facts(3) b] by blast
  then show ?thesis
  proof cases
    case wait
    have "starved (drop pos (querybuf c)) (bulklen c)" using wait(3) b by (auto simp: starved_def)
    moreover have "c = c\<lparr>querybuf := querybuf c, bulklen := bulklen c\<rparr>" by simp
    ultimately show ?thesis using wait(1,2) aw unfolding stage_result_def by metis
  next
    case go
    then have "awaits pos' (c\<lparr>querybuf := q', argv := argv c @ [x], bulklen := - 1, multibulklen := length xs\<rparr>) xs rest nxt"
      using facts by (simp add: awaits_def pending_def)
    then show ?thesis using go facts(4) unfolding stage_result_def by auto
  qed
qed

lemma bulk_iteration_correct:
  assumes aw: "awaits pos c (x # xs) rest nxt" and room: "room pos c"
  shows "stage_result (bulk_iteration pos c) c x xs rest nxt"
proof (cases "bulklen c = - 1")
  case False
  then show ?thesis using argument_stage [OF aw room] aw by (simp add: bulk_iteration_def awaits_def)
next
  case True
  have facts: "pos \<le> length (querybuf c)" "drop pos (querybuf c) @ rest = bulk x @ concat (map bulk xs) @ nxt"
    "length x \<le> 512 * 1024 * 1024" "multibulklen c = Suc (length xs)" "\<forall>y\<in>set xs. length y \<le> 512 * 1024 * 1024"
    using aw True by (auto simp: awaits_def pending_def)
  have "length (querybuf c) \<le> PROTO_INLINE_MAX_SIZE" using room True by (simp add: room_def PROTO_MBULK_BIG_ARG_def)
  then consider (wait) "read_bulk_length pos c = Bulk_break pos c" "rest \<noteq> []" "length (drop pos (querybuf c)) \<le> 12"
    | (go) pos' q' where "read_bulk_length pos c = Bulk_next pos' (c\<lparr>querybuf := q', bulklen := int (length x)\<rparr>)"
        "pos' \<le> length q'" "length q' \<le> PROTO_INLINE_MAX_SIZE" "drop pos' q' @ rest = x @ [13, 10] @ concat (map bulk xs) @ nxt"
    using read_bulk_length_correct [OF facts(1,2) _ facts(3)] by blast
  then show ?thesis
  proof cases
    case wait
    have "starved (drop pos (querybuf c)) (bulklen c)" using wait(3) by (simp add: starved_def PROTO_MBULK_BIG_ARG_def)
    moreover have "c = c\<lparr>querybuf := querybuf c, bulklen := bulklen c\<rparr>" by simp
    moreover have "bulk_iteration pos c = Bulk_break pos c" using wait(1) True by (simp add: bulk_iteration_def)
    ultimately show ?thesis using wait(2) aw unfolding stage_result_def by metis
  next
    case go
    let ?c = "c\<lparr>querybuf := q', bulklen := int (length x)\<rparr>"
    have "awaits pos' ?c (x # xs) rest nxt" using go facts by (simp add: awaits_def pending_def)
    moreover have "room pos' ?c" using go by (simp add: room_def)
    ultimately have "stage_result (read_bulk_argument pos' ?c) ?c x xs rest nxt" by (rule argument_stage) simp
    moreover have "bulk_iteration pos c = read_bulk_argument pos' ?c" using go(1) True by (simp add: bulk_iteration_def)
    ultimately show ?thesis by (simp add: stage_result_def)
  qed
qed

text \<open>The loop: it takes over the arguments that are complete and stops for lack of data only.\<close>

lemma bulk_loop_correct:
  assumes "awaits pos c xs rest nxt" and "room pos c" and "xs = [] \<Longrightarrow> length (querybuf c) \<le> PROTO_INLINE_MAX_SIZE"
  shows "\<exists>pos' q' b' ys zs. xs = ys @ zs
    \<and> bulk_loop pos c = Bulk_break pos' (c\<lparr>querybuf := q', argv := argv c @ ys, bulklen := b', multibulklen := length zs\<rparr>)
    \<and> awaits pos' (c\<lparr>querybuf := q', argv := argv c @ ys, bulklen := b', multibulklen := length zs\<rparr>) zs rest nxt
    \<and> (if zs = [] then length q' \<le> PROTO_INLINE_MAX_SIZE else rest \<noteq> [] \<and> starved (drop pos' q') b')"
  using assms
proof (induction xs arbitrary: pos c)
  case Nil
  then have "multibulklen c = 0" by (simp add: awaits_def)
  then show ?case using Nil
    by (intro exI [of _ pos] exI [of _ "querybuf c"] exI [of _ "bulklen c"] exI [of _ "[]"]) (simp add: bulk_loop.simps awaits_def)
next
  case (Cons x xs)
  have m: "multibulklen c = Suc (length xs)" using Cons.prems(1) by (simp add: awaits_def)
  consider (wait) pos' q' b' where "bulk_iteration pos c = Bulk_break pos' (c\<lparr>querybuf := q', bulklen := b'\<rparr>)" "rest \<noteq> []"
        "awaits pos' (c\<lparr>querybuf := q', bulklen := b'\<rparr>) (x # xs) rest nxt" "starved (drop pos' q') b'"
    | (go) pos' q' where
        "bulk_iteration pos c = Bulk_next pos' (c\<lparr>querybuf := q', argv := argv c @ [x], bulklen := - 1, multibulklen := length xs\<rparr>)"
        "awaits pos' (c\<lparr>querybuf := q', argv := argv c @ [x], bulklen := - 1, multibulklen := length xs\<rparr>) xs rest nxt"
        "length q' \<le> PROTO_INLINE_MAX_SIZE"
    using bulk_iteration_correct [OF Cons.prems(1,2)] unfolding stage_result_def by blast
  then show ?case
  proof cases
    case wait
    have c: "c\<lparr>querybuf := q', bulklen := b'\<rparr> = c\<lparr>querybuf := q', argv := argv c @ [], bulklen := b', multibulklen := length (x # xs)\<rparr>"
      using m by (cases c) simp
    show ?thesis using wait m unfolding c
      by (intro exI [of _ pos'] exI [of _ q'] exI [of _ b'] exI [of _ "[]"] exI [of _ "x # xs"]) (simp add: bulk_loop.simps)
  next
    case go
    let ?c = "c\<lparr>querybuf := q', argv := argv c @ [x], bulklen := - 1, multibulklen := length xs\<rparr>"
    have r: "room pos' ?c" using go by (simp add: room_def)
    obtain pos2 q2 b2 ys zs where "xs = ys @ zs"
      "bulk_loop pos' ?c = Bulk_break pos2 (?c\<lparr>querybuf := q2, argv := argv ?c @ ys, bulklen := b2, multibulklen := length zs\<rparr>)"
      "awaits pos2 (?c\<lparr>querybuf := q2, argv := argv ?c @ ys, bulklen := b2, multibulklen := length zs\<rparr>) zs rest nxt"
      "if zs = [] then length q2 \<le> PROTO_INLINE_MAX_SIZE else rest \<noteq> [] \<and> starved (drop pos2 q2) b2"
      using Cons.IH [OF go(2) r] go(3) by auto
    then show ?thesis using go(1) m
      by (intro exI [of _ pos2] exI [of _ q2] exI [of _ b2] exI [of _ "x # ys"] exI [of _ zs]) (simp add: bulk_loop.simps [of pos c])
  qed
qed

lemma bulk_arguments_correct:
  assumes "awaits pos c xs rest nxt" and "room pos c" and "xs \<noteq> []"
  shows "\<exists>q' b' ys zs. xs = ys @ zs
    \<and> bulk_arguments pos c = (c\<lparr>querybuf := q', argv := argv c @ ys, bulklen := b', multibulklen := length zs\<rparr>, zs = [])
    \<and> awaits 0 (c\<lparr>querybuf := q', argv := argv c @ ys, bulklen := b', multibulklen := length zs\<rparr>) zs rest nxt
    \<and> (if zs = [] then length q' \<le> PROTO_INLINE_MAX_SIZE else rest \<noteq> [] \<and> starved q' b')"
proof -
  obtain pos' q' b' ys zs where l: "xs = ys @ zs"
    "bulk_loop pos c = Bulk_break pos' (c\<lparr>querybuf := q', argv := argv c @ ys, bulklen := b', multibulklen := length zs\<rparr>)"
    "awaits pos' (c\<lparr>querybuf := q', argv := argv c @ ys, bulklen := b', multibulklen := length zs\<rparr>) zs rest nxt"
    "if zs = [] then length q' \<le> PROTO_INLINE_MAX_SIZE else rest \<noteq> [] \<and> starved (drop pos' q') b'"
    using bulk_loop_correct [OF assms(1,2)] assms(3) by blast
  have "bulk_arguments pos c = (c\<lparr>querybuf := drop pos' q', argv := argv c @ ys, bulklen := b', multibulklen := length zs\<rparr>, zs = [])"
    using l(2) by (simp add: bulk_arguments_def)
  moreover have "awaits 0 (c\<lparr>querybuf := drop pos' q', argv := argv c @ ys, bulklen := b', multibulklen := length zs\<rparr>) zs rest nxt"
    using l(3) by (simp add: awaits_def)
  moreover have "if zs = [] then length (drop pos' q') \<le> PROTO_INLINE_MAX_SIZE else rest \<noteq> [] \<and> starved (drop pos' q') b'"
    using l(4) by (auto split: if_splits)
  ultimately show ?thesis using l(1) by blast
qed

section \<open>The stream of a connection\<close>

text \<open>A command the protocol admits, and a client between two reads, in the middle of the commands \<open>cmds\<close>.\<close>

definition command_ok :: "bytes list \<Rightarrow> bool" where
  "command_ok cmd \<longleftrightarrow> cmd \<noteq> [] \<and> length cmd \<le> 1024 * 1024 \<and> (\<forall>x\<in>set cmd. length x \<le> 512 * 1024 * 1024)"

definition stream :: "bytes list list \<Rightarrow> bytes" where
  "stream cmds = concat (map resp_command cmds)"

definition expects :: "client \<Rightarrow> bytes list list \<Rightarrow> bytes \<Rightarrow> bool" where
  "expects c cmds rest \<longleftrightarrow> flags c = {} \<and> list_all command_ok cmds
     \<and> (if multibulklen c = 0
         then argv c = [] \<and> bulklen c = - 1 \<and> querybuf c @ rest = stream cmds
           \<and> (reqtype c = 0 \<or> reqtype c = PROTO_REQ_MULTIBULK \<and> cmds \<noteq> [])
         else reqtype c = PROTO_REQ_MULTIBULK
           \<and> (\<exists>xs cmds'. cmds = (argv c @ xs) # cmds' \<and> awaits 0 c xs rest (stream cmds')))"

lemma header_correct:
  assumes q: "querybuf c @ rest = resp_command cmd @ nxt" and ok: "command_ok cmd"
    and c: "argv c = []" "bulklen c = - 1" and room: "length (querybuf c) \<le> PROTO_INLINE_MAX_SIZE"
  shows "multibulk_header c = Some (Inl (c, False)) \<and> rest \<noteq> [] \<and> length (querybuf c) \<le> 12
    \<or> (\<exists>pos. multibulk_header c = Some (Inr (pos, c\<lparr>multibulklen := length cmd, argv := []\<rparr>))
        \<and> awaits pos (c\<lparr>multibulklen := length cmd, argv := []\<rparr>) cmd rest nxt)"
proof -
  define line where "line = 42 # sdec (int (length cmd))"
  have q': "drop 0 (querybuf c) @ rest = line @ [13, 10] @ concat (map bulk cmd) @ nxt"
    using q by (simp add: resp_command_def line_def)
  have nc: "\<forall>b\<in>set line. b \<noteq> 0 \<and> b \<noteq> 13" by (auto simp: line_def dest: sdec_no_control)
  have n: "cmd \<noteq> []" "length cmd \<le> 1024 * 1024" using ok by (simp_all add: command_ok_def)
  have len: "length line \<le> 8" using length_sdec_le [of "length cmd" 6] n(2) by (simp add: line_def)
  have sg: "to_signed 32 (int (length (querybuf c))) = int (length (querybuf c))"
    using room by (intro arg_max_to_signed) (simp add: PROTO_INLINE_MAX_SIZE_def)
  note sc = strchr_line [OF le0 q' nc]
  consider (none) "length (querybuf c) \<le> length line" | (half) "length (querybuf c) = length line + 1"
    | (full) "length line + 2 \<le> length (drop 0 (querybuf c))" by fastforce
  then show ?thesis
  proof cases
    case none
    then have "multibulk_header c = Some (Inl (c, False))" using sc(1) room c by (simp add: multibulk_header_def)
    moreover have "rest \<noteq> []" using none arg_cong [OF q', of length] by auto
    ultimately show ?thesis using none len by simp
  next
    case half
    then have "strchr_at (querybuf c) 0 13 = Some (length line)" using sc(2) by simp
    moreover have "int (length line) > int (length (querybuf c)) - 2" using half by simp
    ultimately have "multibulk_header c = Some (Inl (c, False))" using c by (simp add: multibulk_header_def sg)
    moreover have "rest \<noteq> []" using half arg_cong [OF q', of length] by auto
    ultimately show ?thesis using half len by simp
  next
    case full
    have s: "strchr_at (querybuf c) 0 13 = Some (length line)" using sc(2) full by simp
    note dl = drop_after_line [OF q' full]
    have eq: "querybuf c = line @ drop (length line) (querybuf c)" using dl(2) by (metis append_take_drop_id drop0)
    then have hd: "querybuf c ! 0 = 42" by (metis line_def append_Cons nth_Cons_0)
    have "take (length line - 1) (drop 1 (querybuf c)) = tl (take (length line) (querybuf c))"
      by (simp add: line_def tl_take drop_Suc)
    then have ll: "string2ll (take (length line - 1) (drop 1 (querybuf c))) = Some (int (length cmd))"
      using dl(2) n(2) by (simp add: line_def string2ll_sdec range_simps)
    have "multibulk_header c = Some (Inr (length line + 2, c\<lparr>multibulklen := length cmd, argv := []\<rparr>))"
      using s hd ll n full c by (simp add: multibulk_header_def sg)
    moreover have "awaits (length line + 2) (c\<lparr>multibulklen := length cmd, argv := []\<rparr>) cmd rest nxt"
      using dl(1) full ok c by (auto simp: awaits_def pending_def command_ok_def)
    ultimately show ?thesis by blast
  qed
qed

lemma multibulk_correct:
  assumes ex: "expects c (cmd # cmds) rest" and ty: "reqtype c = PROTO_REQ_MULTIBULK" and room: "room 0 c"
  shows "\<exists>c' ok. processMultibulkBuffer c = Some (c', ok) \<and> flags c' = {} \<and>
    (if ok then argv c' = cmd \<and> querybuf c' @ rest = stream cmds \<and> length (querybuf c') \<le> PROTO_INLINE_MAX_SIZE
     else rest \<noteq> [] \<and> expects c' (cmd # cmds) rest \<and> starved (querybuf c') (bulklen c'))"
proof -
  have fl: "flags c = {}" and oks: "command_ok cmd" "list_all command_ok cmds" using ex by (simp_all add: expects_def)
  have args: "\<exists>c' ok. bulk_arguments pos d = (c', ok) \<and> flags c' = {} \<and>
    (if ok then argv c' = cmd \<and> querybuf c' @ rest = stream cmds \<and> length (querybuf c') \<le> PROTO_INLINE_MAX_SIZE
     else rest \<noteq> [] \<and> expects c' (cmd # cmds) rest \<and> starved (querybuf c') (bulklen c'))"
    if d: "awaits pos d xs rest (stream cmds)" "room pos d" "xs \<noteq> []" "cmd = argv d @ xs" "flags d = {}"
      "reqtype d = PROTO_REQ_MULTIBULK" for pos d xs
  proof -
    obtain q' b' ys zs where b: "xs = ys @ zs"
      "bulk_arguments pos d = (d\<lparr>querybuf := q', argv := argv d @ ys, bulklen := b', multibulklen := length zs\<rparr>, zs = [])"
      "awaits 0 (d\<lparr>querybuf := q', argv := argv d @ ys, bulklen := b', multibulklen := length zs\<rparr>) zs rest (stream cmds)"
      "if zs = [] then length q' \<le> PROTO_INLINE_MAX_SIZE else rest \<noteq> [] \<and> starved q' b'"
      using bulk_arguments_correct [OF d(1-3)] by blast
    show ?thesis
    proof (cases "zs = []")
      case True
      then show ?thesis using b d(4,5) by (auto simp: awaits_def pending_def)
    next
      case False
      let ?c = "d\<lparr>querybuf := q', argv := argv d @ ys, bulklen := b', multibulklen := length zs\<rparr>"
      have "expects ?c (cmd # cmds) rest"
        unfolding expects_def using False b(1,3) d(4-6) oks by auto
      then show ?thesis using False b(2,4) d(5) by auto
    qed
  qed
  show ?thesis
  proof (cases "multibulklen c = 0")
    case False
    then obtain xs where "cmd = argv c @ xs" "awaits 0 c xs rest (stream cmds)" using ex by (auto simp: expects_def)
    moreover from this have "xs \<noteq> []" using False by (auto simp: awaits_def)
    ultimately show ?thesis using args [of 0 c xs] fl ty room False by (simp add: processMultibulkBuffer_def)
  next
    case True
    have c: "argv c = []" "bulklen c = - 1" and q: "querybuf c @ rest = resp_command cmd @ stream cmds"
      using ex True by (auto simp: expects_def stream_def)
    have len: "length (querybuf c) \<le> PROTO_INLINE_MAX_SIZE" using room c(2) by (simp add: room_def PROTO_MBULK_BIG_ARG_def)
    from header_correct [OF q oks(1) c len] show ?thesis
    proof (elim disjE conjE exE)
      assume h: "multibulk_header c = Some (Inl (c, False))" "rest \<noteq> []" "length (querybuf c) \<le> 12"
      then have "starved (querybuf c) (bulklen c)" by (simp add: starved_def PROTO_MBULK_BIG_ARG_def)
      then show ?thesis using h True ex fl by (intro exI [of _ c] exI [of _ False]) (simp add: processMultibulkBuffer_def)
    next
      fix pos
      let ?d = "c\<lparr>multibulklen := length cmd, argv := []\<rparr>"
      assume h: "multibulk_header c = Some (Inr (pos, ?d))" "awaits pos ?d cmd rest (stream cmds)"
      have "room pos ?d" using len by (simp add: room_def)
      moreover have "cmd \<noteq> []" using oks(1) by (simp add: command_ok_def)
      ultimately show ?thesis using args [OF h(2)] h(1) True fl ty by (simp add: processMultibulkBuffer_def)
    qed
  qed
qed

text \<open>An environment that executes every command with \<open>exec\<close> and neither pauses nor blocks nor frees clients.\<close>

definition plain_env :: "'a environment \<Rightarrow> (bytes list \<Rightarrow> 'a \<Rightarrow> 'a) \<Rightarrow> bool" where
  "plain_env E exec \<longleftrightarrow>
     (\<forall>cmd a. run_command E cmd {} a = \<lparr>out_flags = {}, out_asking = False, out_state = exec cmd a, out_ok = True\<rparr>)
     \<and> (\<forall>a. clients_paused E a = (False, a)) \<and> (\<forall>a. \<not> client_gone E a)"

lemma stream_simps [simp]: "stream [] = []" "stream (cmd # cmds) = resp_command cmd @ stream cmds"
  by (simp_all add: stream_def)

lemma resp_command_nonempty [simp]: "resp_command cmd \<noteq> []"
  by (simp add: resp_command_def)

definition idle :: "client \<Rightarrow> bool" where
  "idle c \<longleftrightarrow> querybuf c = [] \<and> argv c = [] \<and> reqtype c = 0 \<and> multibulklen c = 0 \<and> bulklen c = - 1 \<and> flags c = {}"

lemma pending_nonempty: "awaits pos c xs rest nxt \<Longrightarrow> xs \<noteq> [] \<Longrightarrow> pending (bulklen c) xs \<noteq> []"
  by (cases xs) (auto simp: pending_def bulk_def)

lemma expects_more:
  assumes "expects c (cmd # cmds) rest" and "querybuf c = []"
  shows "rest \<noteq> []"
proof (cases "multibulklen c = 0")
  case False
  then obtain xs cmds' where a: "awaits 0 c xs rest (stream cmds')" using assms(1) by (auto simp: expects_def)
  then have "xs \<noteq> []" using False by (auto simp: awaits_def)
  then have "pending (bulklen c) xs \<noteq> []" by (rule pending_nonempty [OF a])
  then show ?thesis using a assms(2) by (auto simp: awaits_def)
qed (use assms in \<open>auto simp: expects_def\<close>)

lemma input_step_correct:
  assumes E: "plain_env E exec" and ex: "expects c (cmd # cmds) rest" and room: "room 0 c" and q: "querybuf c \<noteq> []"
  shows "\<exists>go c'. input_step E c a = Some (go, c', if go then exec cmd a else a) \<and>
    (if go then expects c' cmds rest \<and> room 0 c'
     else rest \<noteq> [] \<and> expects c' (cmd # cmds) rest \<and> starved (querybuf c') (bulklen c'))"
proof -
  let ?c1 = "c\<lparr>reqtype := PROTO_REQ_MULTIBULK\<rparr>"
  have fl: "flags c = {}" and oks: "command_ok cmd" "list_all command_ok cmds" using ex by (simp_all add: expects_def)
  have hd: "querybuf c ! 0 = 42" if "reqtype c = 0"
  proof -
    have "multibulklen c = 0" using that ex by (auto simp: expects_def PROTO_REQ_MULTIBULK_def split: if_splits)
    then have "querybuf c @ rest = resp_command cmd @ stream cmds" using ex by (simp add: expects_def)
    then show ?thesis using q by (cases "querybuf c") (auto simp: resp_command_def)
  qed
  have c1: "(if reqtype c = 0 then c\<lparr>reqtype := if querybuf c ! 0 = 42 then PROTO_REQ_MULTIBULK else PROTO_REQ_INLINE\<rparr>
      else c) = ?c1"
    using hd ex by (cases "reqtype c = 0") (auto simp: expects_def split: if_splits)
  have ex1: "expects ?c1 (cmd # cmds) rest" using ex by (auto simp: expects_def awaits_def split: if_splits)
  have room1: "room 0 ?c1" using room by (simp add: room_def)
  obtain c2 ok where m: "processMultibulkBuffer ?c1 = Some (c2, ok)" "flags c2 = {}"
    "if ok then argv c2 = cmd \<and> querybuf c2 @ rest = stream cmds \<and> length (querybuf c2) \<le> PROTO_INLINE_MAX_SIZE
     else rest \<noteq> [] \<and> expects c2 (cmd # cmds) rest \<and> starved (querybuf c2) (bulklen c2)"
    using multibulk_correct [OF ex1 _ room1] by auto
  have p: "clients_paused E a = (False, a)" "\<And>b. \<not> client_gone E b"
    "\<And>cmd. run_command E cmd {} a = \<lparr>out_flags = {}, out_asking = False, out_state = exec cmd a, out_ok = True\<rparr>"
    using E by (simp_all add: plain_env_def)
  have ne: "cmd \<noteq> []" using oks(1) by (simp add: command_ok_def)
  show ?thesis
  proof (cases ok)
    case False
    then have "input_step E c a = Some (False, c2, a)" unfolding input_step_def Let_def c1
      using m(1) fl p(1) by (simp add: PROTO_REQ_INLINE_def PROTO_REQ_MULTIBULK_def)
    then show ?thesis using m(3) False by auto
  next
    case True
    let ?c3 = "resetClient (c2\<lparr>flags := {}, asking_cmd := False\<rparr>)"
    have "input_step E c a = Some (True, ?c3, exec cmd a)" unfolding input_step_def Let_def c1
      using m True fl p ne by (simp add: PROTO_REQ_INLINE_def PROTO_REQ_MULTIBULK_def)
    moreover have "expects ?c3 cmds rest \<and> room 0 ?c3"
      using m(3) True oks(2) by (simp add: expects_def room_def resetClient_def)
    ultimately show ?thesis by auto
  qed
qed

lemma input_correct:
  assumes "plain_env E exec" and "expects c cmds rest" and "room 0 c"
  shows "\<exists>c' done todo. processInputBuffer E c a = Some (c', fold exec done a) \<and> cmds = done @ todo
    \<and> expects c' todo rest \<and> starved (querybuf c') (bulklen c') \<and> (rest = [] \<longrightarrow> todo = [])"
  using assms
proof (induction cmds arbitrary: c a)
  case Nil
  then have "querybuf c = []" by (auto simp: expects_def split: if_splits)
  then show ?case using Nil by (intro exI [of _ c] exI [of _ "[]"])
      (auto simp: starved_def PROTO_MBULK_BIG_ARG_def processInputBuffer.simps)
next
  case (Cons cmd cmds)
  show ?case
  proof (cases "querybuf c = []")
    case True
    then show ?thesis using Cons.prems(2) expects_more [OF Cons.prems(2) True]
      by (intro exI [of _ c] exI [of _ "[]"] exI [of _ "cmd # cmds"])
        (auto simp: starved_def PROTO_MBULK_BIG_ARG_def processInputBuffer.simps)
  next
    case False
    obtain go c' where s: "input_step E c a = Some (go, c', if go then exec cmd a else a)"
      "if go then expects c' cmds rest \<and> room 0 c'
       else rest \<noteq> [] \<and> expects c' (cmd # cmds) rest \<and> starved (querybuf c') (bulklen c')"
      using input_step_correct [OF Cons.prems False] by blast
    show ?thesis
    proof (cases go)
      case True
      obtain d dn todo where d: "processInputBuffer E c' (exec cmd a) = Some (d, fold exec dn (exec cmd a))" "cmds = dn @ todo"
        "expects d todo rest" "starved (querybuf d) (bulklen d)" "rest = [] \<longrightarrow> todo = []"
        using Cons.IH [OF Cons.prems(1), of c' "exec cmd a"] s(2) True by (simp only: if_True) blast
      then show ?thesis using s(1) True False
        by (intro exI [of _ d] exI [of _ "cmd # dn"] exI [of _ todo]) (simp add: processInputBuffer.simps [of E c])
    next
      case no: False
      then show ?thesis using s False
        by (intro exI [of _ c'] exI [of _ "[]"] exI [of _ "cmd # cmds"]) (simp add: processInputBuffer.simps)
    qed
  qed
qed

text \<open>One readable event: at least one byte is taken from the socket, and the commands completed by it are executed.\<close>

definition between_reads :: "client \<Rightarrow> bytes list list \<Rightarrow> bytes \<Rightarrow> bool" where
  "between_reads c cmds rest \<longleftrightarrow> expects c cmds rest \<and> starved (querybuf c) (bulklen c)"

lemma expects_bulklen: "expects c cmds rest \<Longrightarrow> bulklen c \<le> 512 * 1024 * 1024"
  by (auto simp: expects_def awaits_def split: if_splits)

lemma query_readlen_room:
  assumes "between_reads c cmds rest" and "n \<le> nat (query_readlen c)" and "length bs = n"
  shows "0 < query_readlen c" and "room 0 (c\<lparr>querybuf := querybuf c @ bs\<rparr>)"
    and "length (querybuf c @ bs) \<le> 512 * 1024 * 1024 + 2"
proof -
  have b: "bulklen c \<le> 512 * 1024 * 1024" using assms(1) expects_bulklen by (auto simp: between_reads_def)
  have st: "starved (querybuf c) (bulklen c)" and ex: "expects c cmds rest" using assms(1) by (auto simp: between_reads_def)
  have "0 < query_readlen c \<and> room 0 (c\<lparr>querybuf := querybuf c @ bs\<rparr>) \<and> length (querybuf c @ bs) \<le> 512 * 1024 * 1024 + 2"
  proof (cases "bulklen c \<ge> PROTO_MBULK_BIG_ARG")
    case False
    then have "query_readlen c = int PROTO_IOBUF_LEN" by (simp add: query_readlen_def)
    then show ?thesis using st False assms(2,3)
      by (auto simp: starved_def room_def PROTO_MBULK_BIG_ARG_def PROTO_INLINE_MAX_SIZE_def PROTO_IOBUF_LEN_def)
  next
    case True
    then have ne: "bulklen c \<noteq> - 1" by (simp add: PROTO_MBULK_BIG_ARG_def)
    then have m: "multibulklen c \<noteq> 0" "reqtype c = PROTO_REQ_MULTIBULK" using ex by (auto simp: expects_def split: if_splits)
    have l: "int (length (querybuf c)) < bulklen c + 2" using st True by (auto simp: starved_def)
    have "to_signed 32 (to_unsigned 64 (to_unsigned 32 (bulklen c + 2) - int (length (querybuf c)))) = bulklen c + 2 - int (length (querybuf c))"
      using l b by (simp add: to_unsigned_id to_signed_id)
    then have "query_readlen c = min (int PROTO_IOBUF_LEN) (bulklen c + 2 - int (length (querybuf c)))"
      using True ne m by (simp add: query_readlen_def min_def)
    then show ?thesis using l True assms(2,3) b
      by (auto simp: room_def PROTO_IOBUF_LEN_def nat_le_iff)
  qed
  then show "0 < query_readlen c" and "room 0 (c\<lparr>querybuf := querybuf c @ bs\<rparr>)"
    and "length (querybuf c @ bs) \<le> 512 * 1024 * 1024 + 2" by blast+
qed

definition received :: "'a environment \<Rightarrow> bytes \<Rightarrow> client \<Rightarrow> client" where
  "received E bs c = c\<lparr>querybuf_peak := max (querybuf_peak c) (length (querybuf c)), querybuf := querybuf c @ bs,
     lastinteraction := server_time E,
     reploff := (if CLIENT_MASTER \<in> flags c then reploff c + int (length bs) else reploff c)\<rparr>"

lemma readQuery_bytes:
  assumes "sys_read ch (nat (query_readlen c)) s = (Read_bytes bs, s')" and "0 \<le> query_readlen c" and "bs \<noteq> []"
  shows "readQueryFromClient E ch c s a =
    (if length (querybuf c @ bs) > client_max_querybuf_len E then Some (None, s', a)
     else map_option (\<lambda>(c3, a'). (if client_gone E a' then None else Some c3, s', a'))
       (processInputBuffer E (received E bs c) a))"
  using assms by (simp add: readQueryFromClient_def received_def)

lemma readQuery_correct:
  assumes E: "plain_env E exec" and b: "between_reads c cmds (in_flight s)" and ne: "in_flight s \<noteq> []"
    and cap: "512 * 1024 * 1024 + 2 \<le> client_max_querybuf_len E"
  shows "\<exists>c' s' done todo. readQueryFromClient E (OS_bytes k) c s a = Some (Some c', s', fold exec done a)
    \<and> cmds = done @ todo \<and> between_reads c' todo (in_flight s') \<and> length (in_flight s') < length (in_flight s)
    \<and> (in_flight s' = [] \<longrightarrow> todo = []) \<and> peer_closed s' = peer_closed s"
proof -
  let ?n = "min (nat (query_readlen c)) (max 1 k)"
  let ?bs = "take ?n (in_flight s)" and ?s = "s\<lparr>in_flight := drop ?n (in_flight s)\<rparr>"
  have "length ?bs \<le> nat (query_readlen c)" by simp
  note q = query_readlen_room [OF b this refl]
  have pos: "0 < ?n" using q(1) by simp
  have rd: "sys_read (OS_bytes k) (nat (query_readlen c)) s = (Read_bytes ?bs, ?s)"
    using q(1) ne by (simp add: sys_read_def Let_def)
  have bs: "?bs \<noteq> []" using pos ne by (metis length_greater_0_conv length_take min_less_iff_conj)
  define c2 where "c2 = received E ?bs c"
  have ex: "expects c2 cmds (drop ?n (in_flight s))"
    using b unfolding between_reads_def expects_def awaits_def c2_def received_def by (auto split: if_splits)
  have "room 0 c2" using q(2) by (simp add: room_def c2_def received_def)
  from input_correct [OF E ex this] obtain c' dn todo where r:
    "processInputBuffer E c2 a = Some (c', fold exec dn a)" "cmds = dn @ todo" "expects c' todo (drop ?n (in_flight s))"
    "starved (querybuf c') (bulklen c')" "drop ?n (in_flight s) = [] \<longrightarrow> todo = []" by blast
  have "readQueryFromClient E (OS_bytes k) c s a = Some (Some c', ?s, fold exec dn a)"
    using readQuery_bytes [OF rd _ bs, of E a] q(1,3) cap r(1) E by (simp only: c2_def plain_env_def) simp
  moreover have "length (in_flight ?s) < length (in_flight s)" using pos ne by simp
  ultimately show ?thesis using r(2-5)
    by (intro exI [of _ c'] exI [of _ ?s] exI [of _ dn] exI [of _ todo]) (simp add: between_reads_def)
qed

lemma readQuery_again:
  assumes "in_flight s = []" and "\<not> peer_closed s" and "0 < query_readlen c"
  shows "readQueryFromClient E (OS_bytes k) c s a =
    Some (Some (c\<lparr>querybuf_peak := max (querybuf_peak c) (length (querybuf c))\<rparr>), s, a)"
  using assms by (simp add: readQueryFromClient_def sys_read_def)

lemma serve_correct:
  assumes "plain_env E exec" and "between_reads c cmds (in_flight s)" and "in_flight s = [] \<longrightarrow> cmds = []"
    and "512 * 1024 * 1024 + 2 \<le> client_max_querybuf_len E" and "\<not> peer_closed s" and "length (in_flight s) \<le> length ks"
  shows "\<exists>c' s'. serve E (map OS_bytes ks) (Some c, s, a) = Some (Some c', s', fold exec cmds a)
    \<and> in_flight s' = [] \<and> idle c'"
  using assms
proof (induction ks arbitrary: c s a cmds)
  case Nil
  then have "idle c" by (auto simp: between_reads_def expects_def idle_def split: if_splits)
  then show ?case using Nil by simp
next
  case (Cons k ks)
  show ?case
  proof (cases "in_flight s = []")
    case True
    let ?c = "c\<lparr>querybuf_peak := max (querybuf_peak c) (length (querybuf c))\<rparr>"
    have "readQueryFromClient E (OS_bytes k) c s a = Some (Some ?c, s, a)"
      using readQuery_again [OF True Cons.prems(5)] query_readlen_room(1) [OF Cons.prems(2) le0, of "[]"] by simp
    moreover have "between_reads ?c cmds (in_flight s)"
      using Cons.prems(2) by (auto simp: between_reads_def expects_def awaits_def split: if_splits)
    ultimately show ?thesis using Cons.IH [of ?c cmds s a] Cons.prems True by simp
  next
    case False
    obtain c' s' dn todo where r: "readQueryFromClient E (OS_bytes k) c s a = Some (Some c', s', fold exec dn a)"
      "cmds = dn @ todo" "between_reads c' todo (in_flight s')" "length (in_flight s') < length (in_flight s)"
      "in_flight s' = [] \<longrightarrow> todo = []" "peer_closed s' = peer_closed s"
      using readQuery_correct [OF Cons.prems(1,2) False Cons.prems(4)] by blast
    have "length (in_flight s') \<le> length ks" using r(4) Cons.prems(6) by simp
    with Cons.IH [OF Cons.prems(1) r(3,5) Cons.prems(4)] r(6) Cons.prems(5) show ?thesis
      using r(1,2) by simp
  qed
qed

section \<open>Arbitrary input\<close>

text \<open>The invariant of a client under arbitrary bytes: what the assertions of the parser and the
  computation of the length to read rely on.\<close>

definition bulk_ok :: "client \<Rightarrow> bool" where
  "bulk_ok c \<longleftrightarrow> bulklen c = - 1 \<or> multibulklen c \<noteq> 0 \<and> reqtype c = PROTO_REQ_MULTIBULK
     \<and> 0 \<le> bulklen c \<and> bulklen c \<le> 512 * 1024 * 1024"

definition client_ok :: "client \<Rightarrow> bool" where
  "client_ok c \<longleftrightarrow> bulk_ok c \<and> (bulklen c \<ge> PROTO_MBULK_BIG_ARG \<longrightarrow> int (length (querybuf c)) \<le> bulklen c + 2)
     \<and> (CLIENT_CLOSE_AFTER_REPLY \<in> flags c \<or>
         (if multibulklen c = 0
          then argv c = [] \<and> reqtype c \<in> {0, PROTO_REQ_INLINE, PROTO_REQ_MULTIBULK}
            \<and> (reqtype c = PROTO_REQ_MULTIBULK \<longrightarrow> querybuf c \<noteq> [] \<and> querybuf c ! 0 = 42)
          else reqtype c = PROTO_REQ_MULTIBULK))"

fun iter_ok :: "nat \<Rightarrow> bulk_iter \<Rightarrow> bool" where
  "iter_ok n (Bulk_fail c) \<longleftrightarrow> CLIENT_CLOSE_AFTER_REPLY \<in> flags c \<and> bulklen c = - 1"
| "iter_ok n (Bulk_break pos c) \<longleftrightarrow> bulk_ok c \<and> reqtype c = PROTO_REQ_MULTIBULK \<and> pos \<le> length (querybuf c)
     \<and> length (querybuf c) \<le> n \<and> (bulklen c \<ge> PROTO_MBULK_BIG_ARG \<longrightarrow> int (unread pos c) < bulklen c + 2)"
| "iter_ok n (Bulk_next pos c) \<longleftrightarrow> (0 \<le> bulklen c \<and> bulklen c \<le> 512 * 1024 * 1024 \<or> bulklen c = - 1)
     \<and> reqtype c = PROTO_REQ_MULTIBULK \<and> pos \<le> length (querybuf c) \<and> length (querybuf c) \<le> n"

lemma setProtocolError_ok [simp]:
  "flags (setProtocolError pos c) = insert CLIENT_CLOSE_AFTER_REPLY (flags c)" "bulklen (setProtocolError pos c) = bulklen c"
  "errors (setProtocolError pos c) = errors c" "flags (addReplyError e c) = flags c" "bulklen (addReplyError e c) = bulklen c"
  "errors (addReplyError e c) = errors c @ [e]" "querybuf (addReplyError e c) = querybuf c"
  "querybuf (setProtocolError pos c) = drop pos (querybuf c)"
  by (simp_all add: setProtocolError_def addReplyError_def)

lemma read_bulk_length_ok:
  assumes "iter_ok n (Bulk_next pos c)" and "bulklen c = - 1" and "n \<le> 2147483647"
  shows "iter_ok n (read_bulk_length pos c)"
proof -
  have sg: "to_signed 32 (int (length (querybuf c))) = int (length (querybuf c))"
    using assms by (intro arg_max_to_signed) simp
  show ?thesis using assms
    by (auto simp: read_bulk_length_def sg bulk_ok_def PROTO_MBULK_BIG_ARG_def Let_def split: option.split dest!: strchr_range)
qed

lemma read_bulk_argument_ok:
  assumes "iter_ok n (Bulk_next pos c)" and "bulklen c \<noteq> - 1" and "multibulklen c \<noteq> 0" and "n \<le> 2147483647"
  shows "iter_ok n (read_bulk_argument pos c) \<and>
    (\<forall>p d. read_bulk_argument pos c = Bulk_next p d \<longrightarrow> bulklen d = - 1)"
proof -
  have b: "0 \<le> bulklen c" "bulklen c \<le> 512 * 1024 * 1024" using assms by auto
  have u32: "to_unsigned 32 (bulklen c + 2) = bulklen c + 2" using b by (simp add: to_unsigned_id)
  have u64: "to_unsigned 64 (int (length (querybuf c)) - int pos) = int (unread pos c)"
    using assms by (subst to_unsigned_id) (auto simp: of_nat_diff unread_def)
  show ?thesis using assms b unfolding read_bulk_argument_def u32 u64 by (auto simp: bulk_ok_def unread_def)
qed

lemma read_bulk_length_mbl:
  "read_bulk_length pos c = Bulk_next p d \<Longrightarrow> multibulklen d = multibulklen c \<and> bulklen d \<noteq> - 1"
  by (auto simp: read_bulk_length_def Let_def PROTO_MBULK_BIG_ARG_def split: option.splits if_splits)

lemma bulk_iteration_ok:
  assumes "iter_ok n (Bulk_next pos c)" and "multibulklen c \<noteq> 0" and "n \<le> 2147483647"
  shows "iter_ok n (bulk_iteration pos c) \<and> (\<forall>p d. bulk_iteration pos c = Bulk_next p d \<longrightarrow> bulklen d = - 1)"
proof (cases "bulklen c = - 1")
  case False
  then show ?thesis using read_bulk_argument_ok [OF assms(1) False assms(2,3)] by (simp add: bulk_iteration_def)
next
  case True
  note l = read_bulk_length_ok [OF assms(1) True assms(3)]
  show ?thesis
  proof (cases "read_bulk_length pos c")
    case (Bulk_next p d)
    have d: "multibulklen d \<noteq> 0" "bulklen d \<noteq> - 1" using read_bulk_length_mbl [OF Bulk_next] assms(2) by simp_all
    have "bulk_iteration pos c = read_bulk_argument p d" using True Bulk_next by (simp add: bulk_iteration_def)
    then show ?thesis using read_bulk_argument_ok [OF l [unfolded Bulk_next] d(2,1) assms(3)] by simp
  qed (use l True in \<open>simp_all add: bulk_iteration_def\<close>)
qed

lemma bulk_loop_ok:
  assumes "iter_ok n (Bulk_next pos c)" and "multibulklen c = 0 \<Longrightarrow> bulklen c = - 1" and "n \<le> 2147483647"
  shows "iter_ok n (bulk_loop pos c) \<and> (\<forall>p d. bulk_loop pos c \<noteq> Bulk_next p d)"
  using assms
proof (induction pos c rule: bulk_loop.induct)
  case (1 pos c)
  show ?case
  proof (cases "multibulklen c = 0")
    case True
    then show ?thesis using "1.prems" by (simp add: bulk_loop.simps bulk_ok_def PROTO_MBULK_BIG_ARG_def)
  next
    case False
    note it = bulk_iteration_ok [OF "1.prems"(1) False "1.prems"(3)]
    show ?thesis
    proof (cases "bulk_iteration pos c")
      case (Bulk_next p d)
      then show ?thesis using "1.IH" [OF False Bulk_next] it "1.prems"(3) False by (simp add: bulk_loop.simps [of pos c])
    qed (use it False in \<open>simp_all add: bulk_loop.simps [of pos c]\<close>)
  qed
qed

lemma bulk_arguments_ok:
  assumes "iter_ok n (Bulk_next pos c)" and "multibulklen c \<noteq> 0" and "n \<le> 2147483647"
  shows "\<exists>c' ok. bulk_arguments pos c = (c', ok) \<and> (if ok then bulklen c' = - 1 else client_ok c')"
proof -
  note l = bulk_loop_ok [OF assms(1) _ assms(3)]
  show ?thesis
  proof (cases "bulk_loop pos c")
    case (Bulk_break p d)
    then show ?thesis using l assms(2)
      by (auto simp: bulk_arguments_def client_ok_def bulk_ok_def unread_def of_nat_diff)
  next
    case (Bulk_fail d)
    then show ?thesis using l assms(2)
      by (auto simp: bulk_arguments_def client_ok_def bulk_ok_def PROTO_MBULK_BIG_ARG_def)
  qed (use l assms(2) in auto)
qed

lemma multibulk_header_cases:
  "multibulk_header c = Some (Inl (c', r)) \<Longrightarrow>
   bulklen c' = bulklen c \<and> (\<not> r \<longrightarrow> c' = c \<or> CLIENT_CLOSE_AFTER_REPLY \<in> flags c')"
  unfolding multibulk_header_def by (auto split: option.splits if_splits)

lemma processMultibulkBuffer_ok:
  assumes ok: "client_ok c" and fl: "CLIENT_CLOSE_AFTER_REPLY \<notin> flags c" and ty: "reqtype c = PROTO_REQ_MULTIBULK"
    and len: "length (querybuf c) \<le> 2147483647"
  shows "\<exists>c' r. processMultibulkBuffer c = Some (c', r) \<and> (if r then bulklen c' = - 1 else client_ok c')"
proof (cases "multibulklen c = 0")
  case False
  have "iter_ok (length (querybuf c)) (Bulk_next 0 c)" using ok ty by (auto simp: client_ok_def bulk_ok_def)
  then show ?thesis using bulk_arguments_ok [OF _ False len] False by (simp add: processMultibulkBuffer_def)
next
  case True
  have c: "argv c = []" "bulklen c = - 1" "querybuf c \<noteq> []" "querybuf c ! 0 = 42"
    using ok fl ty True by (auto simp: client_ok_def bulk_ok_def)
  have "multibulk_header c \<noteq> None" using c(1,4) by (simp add: multibulk_header_def split: option.split)
  then obtain h where h: "multibulk_header c = Some h" by blast
  show ?thesis
  proof (cases h)
    case (Inl r)
    obtain c' x where r: "r = (c', x)" by force
    note hc = multibulk_header_cases [of c c' x, unfolded h Inl r, OF refl]
    have "if x then bulklen c' = - 1 else client_ok c'" using hc c(2) ok
      by (cases x) (auto simp: client_ok_def bulk_ok_def PROTO_MBULK_BIG_ARG_def)
    then show ?thesis using True h Inl r by (auto simp: processMultibulkBuffer_def)
  next
    case (Inr r)
    obtain pos d where r: "r = (pos, d)" by force
    have "iter_ok (length (querybuf c)) (Bulk_next pos d) \<and> multibulklen d \<noteq> 0"
      using h Inr r c ty len arg_max_to_signed [OF len]
      by (auto simp: multibulk_header_def split: if_splits option.splits)
    then show ?thesis using bulk_arguments_ok [OF _ _ len] True h Inr r by (auto simp: processMultibulkBuffer_def)
  qed
qed

lemma processInlineBuffer_cases:
  "processInlineBuffer t c = (c', r) \<Longrightarrow>
   bulklen c' = bulklen c \<and> (\<not> r \<longrightarrow> c' = c \<or> CLIENT_CLOSE_AFTER_REPLY \<in> flags c')"
  unfolding processInlineBuffer_def by (auto simp: Let_def split: option.splits if_splits)

lemma processInlineBuffer_ok:
  assumes "client_ok c" and "CLIENT_CLOSE_AFTER_REPLY \<notin> flags c" and "reqtype c = PROTO_REQ_INLINE"
  shows "\<exists>c' r. processInlineBuffer t c = (c', r) \<and> (if r then bulklen c' = - 1 else client_ok c')"
proof -
  have "multibulklen c = 0 \<and> bulklen c = - 1"
    using assms by (auto simp: client_ok_def bulk_ok_def PROTO_REQ_INLINE_def PROTO_REQ_MULTIBULK_def split: if_splits)
  moreover obtain c' r where r: "processInlineBuffer t c = (c', r)" by force
  ultimately show ?thesis using assms(1) processInlineBuffer_cases [OF r]
    by (cases r) (auto simp: client_ok_def bulk_ok_def PROTO_MBULK_BIG_ARG_def)
qed

text \<open>The executor of the commands: what \<open>processCommand\<close> promises about the client, as the comment on it
  says: when it does not return \<open>C_OK\<close>, the client is to be closed (\<open>QUIT\<close>).\<close>

definition quits :: "'a environment \<Rightarrow> bool" where
  "quits E \<longleftrightarrow> (\<forall>cmd f a. out_ok (run_command E cmd f a) \<or> CLIENT_CLOSE_AFTER_REPLY \<in> out_flags (run_command E cmd f a))"

lemma resetClient_ok: "client_ok (resetClient c)"
  by (simp add: client_ok_def bulk_ok_def resetClient_def Let_def PROTO_MBULK_BIG_ARG_def PROTO_REQ_MULTIBULK_def)

lemma input_step_ok:
  assumes E: "quits E" and ok: "client_ok c" and q: "querybuf c \<noteq> []" and len: "length (querybuf c) \<le> 2147483647"
  shows "\<exists>go c' a'. input_step E c a = Some (go, c', a') \<and> client_ok c'"
proof -
  obtain p a1 where p: "(if CLIENT_SLAVE \<in> flags c then (False, a) else clients_paused E a) = (p, a1)" by force
  show ?thesis
  proof (cases "p \<or> CLIENT_BLOCKED \<in> flags c \<or> CLIENT_CLOSE_AFTER_REPLY \<in> flags c")
    case True
    then show ?thesis using ok p by (auto simp: input_step_def)
  next
    case False
    define c1 where "c1 = (if reqtype c = 0
      then c\<lparr>reqtype := if querybuf c ! 0 = 42 then PROTO_REQ_MULTIBULK else PROTO_REQ_INLINE\<rparr> else c)"
    have c1: "client_ok c1" "CLIENT_CLOSE_AFTER_REPLY \<notin> flags c1" "length (querybuf c1) \<le> 2147483647"
      "reqtype c1 = PROTO_REQ_INLINE \<or> reqtype c1 = PROTO_REQ_MULTIBULK"
      using ok False q len
      by (auto simp: c1_def client_ok_def bulk_ok_def PROTO_REQ_MULTIBULK_def PROTO_REQ_INLINE_def split: if_splits)
    define res where "res = (if reqtype c1 = PROTO_REQ_INLINE then Some (processInlineBuffer (server_time E) c1)
      else if reqtype c1 = PROTO_REQ_MULTIBULK then processMultibulkBuffer c1 else None)"
    obtain c2 r where r: "res = Some (c2, r)" "if r then bulklen c2 = - 1 else client_ok c2"
      using processInlineBuffer_ok [OF c1(1,2), of "server_time E"] processMultibulkBuffer_ok [OF c1(1,2) _ c1(3)] c1(4)
      by (auto simp: res_def PROTO_REQ_MULTIBULK_def PROTO_REQ_INLINE_def)
    have "input_step E c a = (case res of None \<Rightarrow> None | Some (c2, ok) \<Rightarrow>
             if \<not> ok then Some (False, c2, a1)
             else if argv c2 = [] then Some (True, resetClient c2, a1)
             else let r = run_command E (argv c2) (flags c2) a1;
                      c3 = c2\<lparr>flags := out_flags r, asking_cmd := out_asking r\<rparr>;
                      c4 = (if out_ok r then resetClient c3 else c3)
                  in Some (\<not> client_gone E (out_state r), c4, out_state r))"
      unfolding input_step_def p Let_def prod.case c1_def [symmetric] res_def [symmetric] using False
      by (cases res) auto
    then show ?thesis using r E
      by (auto simp: resetClient_ok Let_def quits_def client_ok_def [of "_\<lparr>flags := _, asking_cmd := _\<rparr>"] bulk_ok_def
          PROTO_MBULK_BIG_ARG_def)
  qed
qed

lemma input_ok:
  assumes "quits E" and "client_ok c" and "length (querybuf c) \<le> 2147483647"
  shows "\<exists>c' a'. processInputBuffer E c a = Some (c', a') \<and> client_ok c'"
  using assms
proof (induction E c a rule: processInputBuffer.induct)
  case (1 E c a)
  show ?case
  proof (cases "querybuf c = []")
    case True
    then show ?thesis using "1.prems" by (simp add: processInputBuffer.simps)
  next
    case False
    obtain go c' a' where s: "input_step E c a = Some (go, c', a')" "client_ok c'"
      using input_step_ok [OF "1.prems"(1,2) False "1.prems"(3)] by blast
    show ?thesis
    proof (cases go)
      case True
      then show ?thesis using "1.IH" [OF False s(1) refl _ refl] s "1.prems" False input_step_consumes [of E c a c' a']
        by (simp add: processInputBuffer.simps [of E c])
    qed (use s False in \<open>simp add: processInputBuffer.simps [of E c]\<close>)
  qed
qed

lemma query_readlen_ok:
  assumes "client_ok c"
  shows "0 \<le> query_readlen c"
    and "PROTO_MBULK_BIG_ARG \<le> bulklen c \<Longrightarrow> query_readlen c \<le> bulklen c + 2 - int (length (querybuf c))"
proof -
  have "query_readlen c = int PROTO_IOBUF_LEN" if "bulklen c < PROTO_MBULK_BIG_ARG" using that by (simp add: query_readlen_def)
  moreover have "query_readlen c = min (int PROTO_IOBUF_LEN) (bulklen c + 2 - int (length (querybuf c)))"
    and "0 \<le> bulklen c + 2 - int (length (querybuf c))" if "PROTO_MBULK_BIG_ARG \<le> bulklen c"
  proof -
    have c: "bulklen c \<noteq> - 1" "multibulklen c \<noteq> 0" "reqtype c = PROTO_REQ_MULTIBULK" "bulklen c \<le> 512 * 1024 * 1024"
      "int (length (querybuf c)) \<le> bulklen c + 2"
      using assms that by (auto simp: client_ok_def bulk_ok_def PROTO_MBULK_BIG_ARG_def)
    then have "to_signed 32 (to_unsigned 64 (to_unsigned 32 (bulklen c + 2) - int (length (querybuf c))))
      = bulklen c + 2 - int (length (querybuf c))" using that
      by (simp add: to_unsigned_id to_signed_id PROTO_MBULK_BIG_ARG_def)
    then show "query_readlen c = min (int PROTO_IOBUF_LEN) (bulklen c + 2 - int (length (querybuf c)))"
      and "0 \<le> bulklen c + 2 - int (length (querybuf c))"
      using c that by (simp_all add: query_readlen_def min_def)
  qed
  ultimately show "0 \<le> query_readlen c"
    and "PROTO_MBULK_BIG_ARG \<le> bulklen c \<Longrightarrow> query_readlen c \<le> bulklen c + 2 - int (length (querybuf c))"
    by (cases "bulklen c < PROTO_MBULK_BIG_ARG"; simp)+
qed

lemma received_ok:
  assumes "client_ok c" and "int (length bs) \<le> query_readlen c"
  shows "client_ok (received E bs c)"
proof -
  have "int (length (querybuf c @ bs)) \<le> bulklen c + 2" if "PROTO_MBULK_BIG_ARG \<le> bulklen c"
    using query_readlen_ok(2) [OF assms(1) that] assms(2) by simp
  then show ?thesis using assms(1) by (auto simp: client_ok_def bulk_ok_def received_def nth_append)
qed

lemma readQuery_ok:
  assumes "quits E" and "client_ok c" and "client_max_querybuf_len E \<le> 2147483647"
  shows "\<exists>r s' a'. readQueryFromClient E ch c s a = Some (r, s', a') \<and> (\<forall>c'. r = Some c' \<longrightarrow> client_ok c')"
proof -
  note rl = query_readlen_ok(1) [OF assms(2)]
  have peak: "client_ok (c\<lparr>querybuf_peak := m\<rparr>)" for m using assms(2) by (auto simp: client_ok_def bulk_ok_def split: if_splits)
  obtain res s' where r: "sys_read ch (nat (query_readlen c)) s = (res, s')" by force
  show ?thesis
  proof (cases res)
    case (Read_bytes bs)
    have n: "int (length bs) \<le> query_readlen c" using r rl unfolding Read_bytes
      by (auto simp: sys_read_def Let_def split: os_choice.splits if_splits)
    show ?thesis
    proof (cases "bs = []")
      case True
      then show ?thesis using r Read_bytes rl by (simp add: readQueryFromClient_def)
    next
      case False
      note rb = readQuery_bytes [OF r [unfolded Read_bytes] rl False, of E a]
      show ?thesis
      proof (cases "length (querybuf c @ bs) > client_max_querybuf_len E")
        case False
        then have "length (querybuf (received E bs c)) \<le> 2147483647" using assms(3) by (simp add: received_def)
        then obtain c' a' where p: "processInputBuffer E (received E bs c) a = Some (c', a')" "client_ok c'"
          using input_ok [OF assms(1) received_ok [OF assms(2) n], of E a] by blast
        then show ?thesis using rb False by (cases "client_gone E a'") simp_all
      qed (use rb in simp)
    qed
  qed (use r rl peak in \<open>simp_all add: readQueryFromClient_def\<close>)
qed

lemma serve_ok:
  assumes "quits E" and "\<forall>c. r = Some c \<longrightarrow> client_ok c" and "client_max_querybuf_len E \<le> 2147483647"
  shows "\<exists>r' s' a'. serve E chs (r, s, a) = Some (r', s', a') \<and> (\<forall>c'. r' = Some c' \<longrightarrow> client_ok c')"
  using assms(2)
proof (induction chs arbitrary: r s a)
  case Nil
  then show ?case by (cases r) simp_all
next
  case (Cons ch chs)
  show ?case
  proof (cases r)
    case (Some c)
    then obtain r1 s1 a1 where "readQueryFromClient E ch c s a = Some (r1, s1, a1)" "\<forall>c'. r1 = Some c' \<longrightarrow> client_ok c'"
      using readQuery_ok [OF assms(1) _ assms(3), of c ch s a] Cons.prems by auto
    then show ?thesis using Cons.IH [of r1 s1 a1] Some by simp
  qed simp
qed

section \<open>A request that was accumulated\<close>

lemma line_found:
  assumes "drop pos q = line @ [13, 10] @ r" and "\<forall>b\<in>set line. b \<noteq> 0 \<and> b \<noteq> 13" and "line \<noteq> []"
  shows "strchr_at q pos 13 = Some (pos + length line)" and "q ! pos = hd line"
    and "pos + length line + 2 \<le> length q" and "drop (pos + length line + 2) q = r"
    and "take (pos + length line - (pos + 1)) (drop (pos + 1) q) = tl line"
proof -
  have pos: "pos \<le> length q" using assms(1,3) by (metis append_is_Nil_conv drop_all linear)
  have l: "length (drop pos q) = length line + 2 + length r" using assms(1) by simp
  show "strchr_at q pos 13 = Some (pos + length line)" using strchr_line(2) [OF pos _ assms(2), of "[]" r] assms(1) by simp
  show "pos + length line + 2 \<le> length q" using l pos by simp
  have "pos < length q" using l by simp
  then show "q ! pos = hd line" using assms(1,3) hd_drop_conv_nth [of pos q] by (cases line) auto
  have "drop (pos + length line + 2) q = drop (length line + 2) (drop pos q)" by (simp add: add.commute)
  then show "drop (pos + length line + 2) q = r" using assms(1) by simp
  have "drop (pos + 1) q = tl (drop pos q)" by (simp add: drop_Suc tl_drop)
  then show "take (pos + length line - (pos + 1)) (drop (pos + 1) q) = tl line" using assms(1,3) by (cases line) auto
qed

lemma bulk_iteration_whole:
  assumes "drop pos (querybuf c) = bulk x @ r" and "bulklen c = - 1" and "int (length x) < PROTO_MBULK_BIG_ARG"
    and "length (querybuf c) \<le> 2147483647"
  shows "bulk_iteration pos c = Bulk_next (pos + length (bulk x))
      (c\<lparr>argv := argv c @ [x], bulklen := - 1, multibulklen := multibulklen c - 1\<rparr>)
    \<and> drop (pos + length (bulk x)) (querybuf c) = r"
proof -
  let ?line = "36 # sdec (int (length x))"
  have d: "drop pos (querybuf c) = ?line @ [13, 10] @ x @ [13, 10] @ r" using assms(1) by (simp add: bulk_def)
  have nc: "\<forall>b\<in>set ?line. b \<noteq> 0 \<and> b \<noteq> 13" by (auto dest: sdec_no_control)
  note f = line_found [OF d nc]
  let ?p = "pos + length ?line + 2"
  have x: "int (length x) \<le> 32767" using assms(3) by (simp add: PROTO_MBULK_BIG_ARG_def)
  have s: "string2ll (sdec (int (length x))) = Some (int (length x))" using x by (intro string2ll_sdec) (simp add: range_simps)
  note sg = arg_max_to_signed [OF assms(4)]
  have l: "read_bulk_length pos c = Bulk_next ?p (c\<lparr>bulklen := int (length x)\<rparr>)"
    using f s x assms(3) by (simp add: read_bulk_length_def sg)
  have e: "drop ?p (querybuf c) = x @ [13, 10] @ r" using f(4) by simp
  then have "length (drop ?p (querybuf c)) = length x + 2 + length r" by (simp only: e) simp
  then have len: "length (querybuf c) = ?p + (length x + 2 + length r)" using f(3) by simp
  have u64: "to_unsigned 64 (int (length (querybuf c)) - int ?p) = int (length x + 2 + length r)"
    using len assms(4) by (subst to_unsigned_id) auto
  have u32: "to_unsigned 32 (int (length x) + 2) = int (length x) + 2" using x by (simp add: to_unsigned_id)
  have "read_bulk_argument ?p (c\<lparr>bulklen := int (length x)\<rparr>) = Bulk_next (?p + length x + 2)
      (c\<lparr>argv := argv c @ [x], bulklen := - 1, multibulklen := multibulklen c - 1\<rparr>)"
    unfolding read_bulk_argument_def using u64 u32 e by simp
  moreover have "drop (?p + length x + 2) (querybuf c) = drop (length x + 2) (drop ?p (querybuf c))" by (simp add: ac_simps)
  then have "drop (?p + length x + 2) (querybuf c) = r" unfolding e by simp
  moreover have "pos + length (bulk x) = ?p + length x + 2" by (simp add: bulk_def)
  ultimately show ?thesis using l assms(2) unfolding bulk_iteration_def by (simp only:) simp
qed

lemma bulk_loop_whole:
  assumes "drop pos (querybuf c) = concat (map bulk xs) @ r" and "bulklen c = - 1"
    and "\<forall>x\<in>set xs. int (length x) < PROTO_MBULK_BIG_ARG" and "length (querybuf c) \<le> 2147483647"
    and "length xs < multibulklen c"
  shows "\<exists>pos' c'. bulk_loop pos c = bulk_loop pos' c' \<and> drop pos' (querybuf c') = r \<and> bulklen c' = - 1
    \<and> querybuf c' = querybuf c \<and> multibulklen c' \<noteq> 0 \<and> errors c' = errors c \<and> flags c' = flags c"
  using assms
proof (induction xs arbitrary: pos c)
  case Nil
  then show ?case by (intro exI [of _ pos] exI [of _ c]) simp
next
  case (Cons x xs)
  let ?c = "c\<lparr>argv := argv c @ [x], bulklen := - 1, multibulklen := multibulklen c - 1\<rparr>"
  have it: "bulk_iteration pos c = Bulk_next (pos + length (bulk x)) ?c"
    "drop (pos + length (bulk x)) (querybuf c) = concat (map bulk xs) @ r"
    using bulk_iteration_whole [of pos c x "concat (map bulk xs) @ r"] Cons.prems by simp_all
  then have "bulk_loop pos c = bulk_loop (pos + length (bulk x)) ?c" using Cons.prems(5) by (simp add: bulk_loop.simps [of pos c])
  then show ?case using Cons.IH [of "pos + length (bulk x)" ?c] Cons.prems it(2) by simp
qed

section \<open>The properties\<close>

text \<open>
  C4.  Liveness of the input side.  A stream of requests, each with at least one and at most 1024 * 1024
  arguments of at most 512 MB of arbitrary bytes, arrives at an idle client.  However the system cuts the
  stream into reads (any sequence of at least as many readable events as the stream has bytes), exactly
  the requests of the stream are executed, byte for byte and in their order, the connection is not
  marked for closing, and in the end the client is idle again with an empty query buffer.
\<close>

theorem resp_stream_executed:
  assumes "plain_env E exec" and "512 * 1024 * 1024 + 2 \<le> client_max_querybuf_len E"
    and "list_all command_ok cmds" and "idle c" and "length (stream cmds) \<le> length ks"
  shows "\<exists>c' s'. serve E (map OS_bytes ks) (Some c, \<lparr>in_flight = stream cmds, peer_closed = False\<rparr>, a)
      = Some (Some c', s', fold exec cmds a) \<and> in_flight s' = [] \<and> idle c'"
proof -
  have "between_reads c cmds (stream cmds)"
    using assms(3,4) by (auto simp: between_reads_def expects_def idle_def starved_def PROTO_MBULK_BIG_ARG_def)
  moreover have "stream cmds = [] \<longrightarrow> cmds = []" by (cases cmds) auto
  ultimately show ?thesis
    using serve_correct [OF assms(1) _ _ assms(2), of c cmds "\<lparr>in_flight = stream cmds, peer_closed = False\<rparr>" ks a] assms(5) by simp
qed

definition idle_client :: client where
  "idle_client = \<lparr>querybuf = [], querybuf_peak = 0, argv = [], asking_cmd = False, reqtype = 0, multibulklen = 0,
     bulklen = - 1, errors = [], lastinteraction = 0, flags = {}, reploff = 0, repl_ack_time = 0\<rparr>"

definition log_env :: "bytes list list environment" where
  "log_env = \<lparr>run_command = (\<lambda>cmd f a. \<lparr>out_flags = f, out_asking = False, out_state = a @ [cmd], out_ok = True\<rparr>),
     clients_paused = (\<lambda>a. (False, a)), client_gone = (\<lambda>a. False), server_time = 0,
     client_max_querybuf_len = 1024 * 1024 * 1024\<rparr>"

theorem resp_stream_executed_witness:
  "\<exists>c' s'. serve log_env (map OS_bytes (replicate 23 1))
     (Some idle_client, \<lparr>in_flight = stream [[[71, 69, 84], [0, 13]]], peer_closed = False\<rparr>, [])
   = Some (Some c', s', [[[71, 69, 84], [0, 13]]]) \<and> in_flight s' = [] \<and> idle c'"
proof -
  have "length (stream [[[71, 69, 84], [0, 13]]]) \<le> length (replicate 23 1)"
    by (simp add: resp_command_def bulk_def sdec_def dec_small)
  then show ?thesis
    using resp_stream_executed [of log_env "\<lambda>cmd a. a @ [cmd]" "[[[71, 69, 84], [0, 13]]]" idle_client "replicate 23 1" "[]"]
    by (simp add: plain_env_def log_env_def command_ok_def idle_def idle_client_def)
qed

text \<open>
  C24.  No input makes the server fail.  Whatever bytes the peer sends, however they are cut into reads
  and whichever reads fail, and whatever the commands do to the flags of the client (pause, block,
  close), no assertion of the parser fails and no negative length is read: every readable event
  completes, as long as a command that does not return \<open>C_OK\<close> marks its client for closing.
\<close>

theorem resp_never_asserts:
  assumes "quits E" and "client_ok c" and "client_max_querybuf_len E \<le> 2147483647"
  shows "serve E chs (Some c, s, a) \<noteq> None"
  using serve_ok [OF assms(1) _ assms(3), of "Some c" chs s a] assms(2) by auto

theorem resp_never_asserts_witness:
  "serve log_env [OS_bytes 3, OS_bytes 100, OS_error] (Some idle_client,
     \<lparr>in_flight = [42, 49, 13, 10, 36, 45, 49, 13, 10], peer_closed = True\<rparr>, []) \<noteq> None"
proof -
  have "quits log_env" "client_ok idle_client" "client_max_querybuf_len log_env \<le> 2147483647"
    by (simp_all add: quits_def log_env_def client_ok_def bulk_ok_def idle_client_def PROTO_MBULK_BIG_ARG_def
        PROTO_REQ_MULTIBULK_def)
  then show ?thesis by (rule resp_never_asserts)
qed

lemma strchr_first:
  assumes "\<forall>b\<in>set line. b \<noteq> 0 \<and> b \<noteq> ch" and "ch \<noteq> 0"
  shows "strchr_at (line @ ch # r) 0 ch = Some (length line)"
proof -
  have "takeWhile (\<lambda>b. b \<noteq> 0 \<and> b \<noteq> ch) (line @ ch # r) = line" using assms by (simp add: takeWhile_append)
  then show ?thesis by (simp add: strchr_at_def)
qed

text \<open>
  C37.  The end of an inline command.  A line ended by carriage return and line feed is removed exactly.  A
  line ended by a line feed alone, which the code means to accept, takes the first byte of the next
  command with it: the buffer is cut two bytes after the end of the line in both cases.
\<close>

theorem inline_line_feed_loses_byte:
  assumes "\<forall>b\<in>set line. b \<noteq> 0 \<and> b \<noteq> 10 \<and> b \<noteq> 13" and "sdssplitargs line = Some args"
  shows "processInlineBuffer t (c\<lparr>querybuf := line @ [13, 10] @ r, flags := {}\<rparr>)
      = (c\<lparr>querybuf := r, argv := filter (\<lambda>a. a \<noteq> []) args, flags := {}\<rparr>, True)
    \<and> processInlineBuffer t (c\<lparr>querybuf := line @ [10] @ x # r, flags := {}\<rparr>)
      = (c\<lparr>querybuf := r, argv := filter (\<lambda>a. a \<noteq> []) args, flags := {}\<rparr>, True)"
proof (intro conjI)
  have "strchr_at ((line @ [13]) @ 10 # r) 0 10 = Some (length (line @ [13]))" using assms(1) by (intro strchr_first) auto
  then show "processInlineBuffer t (c\<lparr>querybuf := line @ [13, 10] @ r, flags := {}\<rparr>)
      = (c\<lparr>querybuf := r, argv := filter (\<lambda>a. a \<noteq> []) args, flags := {}\<rparr>, True)"
    using assms(2) by (simp add: processInlineBuffer_def nth_append)
  have "strchr_at (line @ 10 # x # r) 0 10 = Some (length line)" using assms(1) by (intro strchr_first) auto
  moreover have "\<not> (length line \<noteq> 0 \<and> (line @ 10 # x # r) ! (length line - 1) = 13)"
    using assms(1) nth_mem [of "length line - 1" line] by (auto simp: nth_append)
  then have "(if length line \<noteq> 0 \<and> (line @ 10 # x # r) ! (length line - 1) = 13 then length line - 1 else length line)
    = length line" by (simp only: if_False)
  ultimately show "processInlineBuffer t (c\<lparr>querybuf := line @ [10] @ x # r, flags := {}\<rparr>)
      = (c\<lparr>querybuf := r, argv := filter (\<lambda>a. a \<noteq> []) args, flags := {}\<rparr>, True)"
    using assms(2) by (simp add: processInlineBuffer_def Let_def cong: if_cong)
qed

theorem inline_line_feed_loses_byte_witness:
  "processInlineBuffer 0 (idle_client\<lparr>querybuf := [80] @ [10] @ 71 # [69, 84, 10], flags := {}\<rparr>)
     = (idle_client\<lparr>querybuf := [69, 84, 10], argv := [[80]], flags := {}\<rparr>, True)"
proof -
  have "sdssplitargs [80] = Some [[80]]" by code_simp
  then show ?thesis using inline_line_feed_loses_byte [where line = "[80]" and args = "[[80]]" and x = 71 and r = "[69, 84, 10]"
        and t = 0 and c = idle_client] by simp
qed

text \<open>
  C36.  A pause of the clients disconnects a client in the middle of a big argument.  The client waits for the
  rest of an argument of at least 32 KB, at most 16 KB of it are missing, and the clients are paused.  The
  first readable event completes the argument in the buffer, where it stays; the length to read is zero
  from then on, so at the next event the zero returned by \<open>read(2)\<close> is taken for the end of the
  connection and the client is freed, although its data is still in flight.
\<close>

theorem paused_client_disconnected:
  assumes "reqtype c = PROTO_REQ_MULTIBULK" and "multibulklen c \<noteq> 0" and "flags c = {}"
    and "PROTO_MBULK_BIG_ARG \<le> bulklen c" and "bulklen c \<le> 512 * 1024 * 1024"
    and "bulklen c + 2 = int (length (querybuf c) + missing)" and "0 < missing" and "missing \<le> PROTO_IOBUF_LEN"
    and "clients_paused E a = (True, a)" and "\<not> client_gone E a" and "nat (bulklen c + 2) \<le> client_max_querybuf_len E"
    and "missing < length (in_flight s)" and "missing \<le> k"
  shows "serve E [OS_bytes k, OS_bytes k'] (Some c, s, a) = Some (None, s\<lparr>in_flight := drop missing (in_flight s)\<rparr>, a)"
proof -
  define bs where "bs = take missing (in_flight s)"
  define s1 where "s1 = s\<lparr>in_flight := drop missing (in_flight s)\<rparr>"
  have bs: "length bs = missing" "bs \<noteq> []" using assms(7,12) by (auto simp: bs_def)
  have ne: "bulklen c \<noteq> - 1" using assms(4) by (simp add: PROTO_MBULK_BIG_ARG_def)
  have rem: "to_signed 32 (to_unsigned 64 (to_unsigned 32 (bulklen c + 2) - int n)) = bulklen c + 2 - int n"
    if "int n \<le> bulklen c + 2" for n
    using that assms(4,5) by (simp add: to_unsigned_id to_signed_id PROTO_MBULK_BIG_ARG_def)
  have l1: "query_readlen c = int missing" using rem [of "length (querybuf c)"] assms(1,2,4,6,8) ne by (simp add: query_readlen_def)
  have r1: "sys_read (OS_bytes k) (nat (query_readlen c)) s = (Read_bytes bs, s1)"
    unfolding l1 sys_read_def bs_def s1_def using assms(7,12,13) by (auto simp: min_def max_def)
  let ?c = "received E bs c"
  have q: "int (length (querybuf ?c)) = bulklen c + 2" "querybuf ?c \<noteq> []" using assms(6) bs by (simp_all add: received_def)
  have "input_step E ?c a = Some (False, ?c, a)" using assms(3,9) by (simp add: input_step_def received_def)
  then have "processInputBuffer E ?c a = Some (?c, a)" using q(2) by (simp add: processInputBuffer.simps)
  moreover have "length (querybuf c @ bs) \<le> client_max_querybuf_len E" using assms(6,11) bs by simp
  ultimately have e1: "readQueryFromClient E (OS_bytes k) c s a = Some (Some ?c, s1, a)"
    using readQuery_bytes [OF r1 _ bs(2), of E a] assms(10) l1 by simp
  have "query_readlen ?c = 0" using rem [of "length (querybuf ?c)"] q(1) assms(1,2,4) ne
    by (simp add: query_readlen_def received_def PROTO_IOBUF_LEN_def)
  then have "readQueryFromClient E (OS_bytes k') ?c s1 a = Some (None, s1, a)"
    by (simp add: readQueryFromClient_def sys_read_def)
  then show ?thesis using e1 by (simp add: s1_def)
qed

theorem paused_client_disconnected_witness:
  "serve (log_env\<lparr>clients_paused := (\<lambda>a. (True, a))\<rparr>) [OS_bytes 20, OS_bytes 1]
     (Some (idle_client\<lparr>reqtype := 2, multibulklen := 1, bulklen := 32768, querybuf := replicate 32760 7\<rparr>),
      \<lparr>in_flight = replicate 8 7 @ [13, 10] @ stream [[[71]]], peer_closed = False\<rparr>, [])
   = Some (None, \<lparr>in_flight = stream [[[71]]], peer_closed = False\<rparr>, [])"
  using paused_client_disconnected [where c = "idle_client\<lparr>reqtype := 2, multibulklen := 1, bulklen := 32768,
      querybuf := replicate 32760 7\<rparr>" and E = "log_env\<lparr>clients_paused := (\<lambda>a. (True, a))\<rparr>" and a = "[]" and missing = 10
      and k = 20 and k' = 1 and s = "\<lparr>in_flight = replicate 8 7 @ [13, 10] @ stream [[[71]]], peer_closed = False\<rparr>"]
  by (simp add: idle_client_def log_env_def PROTO_REQ_MULTIBULK_def PROTO_MBULK_BIG_ARG_def PROTO_IOBUF_LEN_def
      del: stream_simps(2)) (simp add: resp_command_def)

text \<open>
  A well-formed request is refused when it was accumulated.  The bytes of a request pile up in the
  buffer while the client is blocked or paused; when they are processed, they end inside the line of
  the length of an argument, after at least one complete smaller argument.  If there are more than 64 KB
  of them, the parser takes the whole buffer for a count that is too long, replies with a protocol error
  and marks the connection for closing.
\<close>

theorem accumulated_request_refused:
  assumes "plain_env E exec" and "idle c" and "length xs < n" and "n \<le> 1024 * 1024"
    and "\<forall>x\<in>set xs. int (length x) < PROTO_MBULK_BIG_ARG" and "13 \<notin> set part"
    and "q = 42 # sdec (int n) @ [13, 10] @ concat (map bulk xs) @ part"
    and "PROTO_INLINE_MAX_SIZE < length q" and "length q \<le> 2147483647"
  shows "\<exists>c'. processInputBuffer E (c\<lparr>querybuf := q\<rparr>) a = Some (c', a)
    \<and> CLIENT_CLOSE_AFTER_REPLY \<in> flags c' \<and> errors c' = errors c @ [TooBigBulkCount]"
proof -
  let ?line = "42 # sdec (int n)"
  define c1 where "c1 = c\<lparr>querybuf := q, reqtype := PROTO_REQ_MULTIBULK\<rparr>"
  have c1: "querybuf c1 = q" "argv c1 = []" "bulklen c1 = - 1" "flags c1 = {}" "multibulklen c1 = 0" "errors c1 = errors c"
    using assms(2) by (simp_all add: c1_def idle_def)
  have d: "drop 0 q = ?line @ [13, 10] @ concat (map bulk xs) @ part" using assms(7) by simp
  have nc: "\<forall>b\<in>set ?line. b \<noteq> 0 \<and> b \<noteq> 13" by (auto dest: sdec_no_control)
  note f = line_found [OF d nc]
  have s: "string2ll (sdec (int n)) = Some (int n)" using assms(4) by (intro string2ll_sdec) (simp add: range_simps)
  let ?p = "length ?line + 2" and ?d = "c1\<lparr>multibulklen := n, argv := []\<rparr>"
  have h: "multibulk_header c1 = Some (Inr (?p, ?d))"
    using f s assms(3,4) c1 by (simp add: multibulk_header_def arg_max_to_signed [OF assms(9)])
  have "drop ?p (querybuf ?d) = concat (map bulk xs) @ part" using f(4) c1(1) by simp
  from bulk_loop_whole [OF this] obtain pos e where e: "bulk_loop ?p ?d = bulk_loop pos e" "drop pos (querybuf e) = part"
    "bulklen e = - 1" "querybuf e = q" "multibulklen e \<noteq> 0" "errors e = errors c" "flags e = {}"
    using c1 assms(3,5,9) by auto
  have "strchr_at q pos 13 = None" using strchr_Some_in [of q pos 13] e(2,4) assms(6) by (cases "strchr_at q pos 13") auto
  then have fail: "bulk_loop ?p ?d = Bulk_fail (setProtocolError 0 (addReplyError TooBigBulkCount e))"
    using e(3-5) assms(8) unfolding e(1) by (simp add: bulk_loop.simps [of pos e] bulk_iteration_def read_bulk_length_def)
  have "processMultibulkBuffer c1 = Some (setProtocolError 0 (addReplyError TooBigBulkCount e), False)"
    using h c1(5) fail by (simp add: processMultibulkBuffer_def bulk_arguments_def)
  moreover have "querybuf (c\<lparr>querybuf := q\<rparr>) ! 0 = 42" "reqtype c = 0" "flags c = {}" using assms(2,7) by (simp_all add: idle_def)
  ultimately have "input_step E (c\<lparr>querybuf := q\<rparr>) a = Some (False, setProtocolError 0 (addReplyError TooBigBulkCount e), a)"
    using assms(1) by (simp add: input_step_def Let_def plain_env_def c1_def PROTO_REQ_INLINE_def PROTO_REQ_MULTIBULK_def)
  then show ?thesis using assms(7) e(6,7) by (simp add: processInputBuffer.simps)
qed

theorem accumulated_request_refused_witness:
  "\<exists>c'. processInputBuffer log_env (idle_client\<lparr>querybuf := 42 # sdec (int 4) @ [13, 10]
       @ concat (map bulk (replicate 3 (replicate 30000 7))) @ [36, 51]\<rparr>) [] = Some (c', [])
     \<and> CLIENT_CLOSE_AFTER_REPLY \<in> flags c' \<and> errors c' = errors idle_client @ [TooBigBulkCount]"
proof (rule accumulated_request_refused [where exec = "\<lambda>cmd a. a @ [cmd]" and xs = "replicate 3 (replicate 30000 7)"
      and n = 4 and part = "[36, 51]"])
  have "length (sdec (int 30000)) \<le> 5" using length_sdec_le [of 30000 4] by simp
  then have b: "30004 \<le> length (bulk (replicate 30000 7))" "length (bulk (replicate 30000 7)) \<le> 30010"
    by (simp_all add: bulk_def)
  have "length (sdec (int 4)) \<le> 1" using length_sdec_le [of 4 0] by simp
  with b show "length (42 # sdec (int 4) @ [13, 10] @ concat (map bulk (replicate 3 (replicate 30000 7))) @ [36, 51]) \<le> 2147483647"
    and "PROTO_INLINE_MAX_SIZE < length (42 # sdec (int 4) @ [13, 10] @ concat (map bulk (replicate 3 (replicate 30000 7))) @ [36, 51])"
    by (simp_all add: numeral_3_eq_3 PROTO_INLINE_MAX_SIZE_def)
qed (simp_all add: plain_env_def log_env_def idle_def idle_client_def PROTO_MBULK_BIG_ARG_def)

end
