(* ===== verification/Backlog.thy ===== *)
theory Backlog
  imports OutputProps RespProps
begin

text \<open>
  \<^verbatim>\<open>replication.c\<close>, the replication stream of a master: the circular backlog that keeps its end, the partial
  resynchronisation of slaves from it, and the commands that are fed to slaves and backlog.

  The backlog is an array of \<open>repl_backlog_size\<close> bytes; \<open>u\<close> is the content of uninitialised memory.  A slave is the bytes
  queued for it (\<open>Output\<close> shows that replies append to these) and whether it still waits for the start of a
  background save.  \<open>None\<close> is a failed assertion or an access outside the array.
\<close>

section \<open>The backlog\<close>

record repl =
  repl_backlog :: "bytes option"
  repl_backlog_size :: nat
  repl_backlog_histlen :: nat
  repl_backlog_idx :: nat
  repl_backlog_off :: int
  master_repl_offset :: int

definition CONFIG_REPL_BACKLOG_MIN_SIZE :: int where "CONFIG_REPL_BACKLOG_MIN_SIZE = 1024 * 16"

definition createReplicationBacklog :: "byte \<Rightarrow> repl \<Rightarrow> repl option" where
  "createReplicationBacklog u r =
     (if repl_backlog r \<noteq> None then None
      else Some (r\<lparr>repl_backlog := Some (replicate (repl_backlog_size r) u), repl_backlog_histlen := 0, repl_backlog_idx := 0,
                   master_repl_offset := master_repl_offset r + 1, repl_backlog_off := master_repl_offset r + 1 + 1\<rparr>))"

definition resizeReplicationBacklog :: "byte \<Rightarrow> int \<Rightarrow> repl \<Rightarrow> repl" where
  "resizeReplicationBacklog u newsize0 r =
     (let newsize = (if newsize0 < CONFIG_REPL_BACKLOG_MIN_SIZE then CONFIG_REPL_BACKLOG_MIN_SIZE else newsize0)
      in if int (repl_backlog_size r) = newsize then r
         else let r1 = r\<lparr>repl_backlog_size := nat newsize\<rparr>
              in if repl_backlog r1 \<noteq> None then
                   r1\<lparr>repl_backlog := Some (replicate (nat newsize) u), repl_backlog_histlen := 0, repl_backlog_idx := 0,
                      repl_backlog_off := master_repl_offset r + 1\<rparr>
                 else r1)"

definition freeReplicationBacklog :: "nat \<Rightarrow> repl \<Rightarrow> repl option" where
  "freeReplicationBacklog slaves r = (if slaves \<noteq> 0 then None else Some (r\<lparr>repl_backlog := None\<rparr>))"

text \<open>The loop of \<open>feedReplicationBacklog\<close>: as many bytes as there are up to the end of the array, then from its start.\<close>

partial_function (option) feed_loop :: "bytes \<Rightarrow> repl \<Rightarrow> repl option" where
  "feed_loop p r =
     (if p = [] then Some r
      else do {
        buf \<leftarrow> repl_backlog r;
        let idx = repl_backlog_idx r;
        let thislen = min (repl_backlog_size r - idx) (length p);
        let idx' = idx + thislen;
        feed_loop (drop thislen p)
          (r\<lparr>repl_backlog := Some (take idx buf @ take thislen p @ drop (idx + thislen) buf),
             repl_backlog_idx := (if idx' = repl_backlog_size r then 0 else idx'),
             repl_backlog_histlen := repl_backlog_histlen r + thislen\<rparr>)})"

definition feedReplicationBacklog :: "bytes \<Rightarrow> repl \<Rightarrow> repl option" where
  "feedReplicationBacklog p r = do {
     r1 \<leftarrow> feed_loop p (r\<lparr>master_repl_offset := master_repl_offset r + int (length p)\<rparr>);
     let r2 = r1\<lparr>repl_backlog_histlen := min (repl_backlog_histlen r1) (repl_backlog_size r1)\<rparr>;
     Some (r2\<lparr>repl_backlog_off := master_repl_offset r2 - int (repl_backlog_histlen r2) + 1\<rparr>)}"

definition feedReplicationBacklogWithObject :: "obj_val \<Rightarrow> repl \<Rightarrow> repl option" where
  "feedReplicationBacklogWithObject v r =
     (case v of
        Int_obj n \<Rightarrow> feedReplicationBacklog (ll_text n) r
      | _ \<Rightarrow> do { s \<leftarrow> str_of v; feedReplicationBacklog s r })"

section \<open>Partial resynchronisation\<close>

text \<open>The replies of \<open>addReplyReplicationBacklog\<close>: at most two parts.  The remainder of the C division has the sign of the
  dividend; \<open>skip\<close> is not negative when the function is called.\<close>

partial_function (option) backlog_parts :: "repl \<Rightarrow> nat \<Rightarrow> nat \<Rightarrow> bytes list option" where
  "backlog_parts r j len =
     (if len = 0 then Some []
      else do {
        buf \<leftarrow> repl_backlog r;
        let thislen = (if repl_backlog_size r - j < len then repl_backlog_size r - j else len);
        rest \<leftarrow> backlog_parts r 0 (len - thislen);
        Some (take thislen (drop j buf) # rest)})"

definition addReplyReplicationBacklog :: "int \<Rightarrow> repl \<Rightarrow> (bytes list \<times> int) option" where
  "addReplyReplicationBacklog offset r =
     (if repl_backlog_histlen r = 0 then Some ([], 0)
      else
        let skip = offset - repl_backlog_off r
        in if skip < 0 \<or> skip > int (repl_backlog_histlen r) then None
           else do {
             let j0 = (repl_backlog_idx r + (repl_backlog_size r - repl_backlog_histlen r)) mod repl_backlog_size r;
             let j = (j0 + nat skip) mod repl_backlog_size r;
             parts \<leftarrow> backlog_parts r j (repl_backlog_histlen r - nat skip);
             Some (parts, int (repl_backlog_histlen r) - skip)})"

text \<open>\<open>runid_ok\<close>: the slave asks for this master; the offset is absent when it is not a number; \<open>write_ok\<close>: the status
  line could be written.\<close>

datatype psync_result = Full_resync | Continue "bytes list" | Freed

definition masterTryPartialResynchronization :: "bool \<Rightarrow> int option \<Rightarrow> bool \<Rightarrow> repl \<Rightarrow> psync_result option" where
  "masterTryPartialResynchronization runid_ok offset write_ok r =
     (if \<not> runid_ok then Some Full_resync
      else case offset of
             None \<Rightarrow> Some Full_resync
           | Some psync_offset \<Rightarrow>
               if repl_backlog r = None \<or> psync_offset < repl_backlog_off r
                  \<or> psync_offset > repl_backlog_off r + int (repl_backlog_histlen r)
               then Some Full_resync
               else if \<not> write_ok then Some Freed
               else do {
                 (parts, psync_len) \<leftarrow> addReplyReplicationBacklog psync_offset r;
                 Some (Continue parts)})"

definition getPsyncInitialOffset :: "repl \<Rightarrow> int" where
  "getPsyncInitialOffset r = (if repl_backlog r = None then master_repl_offset r + 1 else master_repl_offset r)"

section \<open>Feeding the slaves\<close>

record slave =
  sl_wait_start :: bool
  sl_out :: bytes

record master =
  ms_repl :: repl
  ms_seldb :: int
  ms_slaves :: "slave list"

definition slave_reply :: "bytes \<Rightarrow> slave \<Rightarrow> slave" where
  "slave_reply s sl = (if sl_wait_start sl then sl else sl\<lparr>sl_out := sl_out sl @ s\<rparr>)"

text \<open>The command that selects a database; the ten shared ones have the same text.\<close>

definition select_cmd :: "int \<Rightarrow> bytes" where
  "select_cmd dictid =
     [42, 50, 13, 10, 36, 54, 13, 10, 83, 69, 76, 69, 67, 84, 13, 10, 36] @ ll_text (int (length (ll_text dictid))) @ [13, 10]
     @ ll_text dictid @ [13, 10]"

definition obj_len :: "obj_val \<Rightarrow> nat option" where
  "obj_len v = (case v of Int_obj n \<Rightarrow> Some (sdigits10 n) | _ \<Rightarrow> map_option length (str_of v))"

fun feed_args :: "obj_val list \<Rightarrow> repl \<Rightarrow> repl option" where
  "feed_args [] r = Some r"
| "feed_args (v # vs) r = do {
     len \<leftarrow> obj_len v;
     r1 \<leftarrow> feedReplicationBacklog (36 # ll_text (int len) @ [13, 10]) r;
     r2 \<leftarrow> feedReplicationBacklogWithObject v r1;
     r3 \<leftarrow> feedReplicationBacklog [13, 10] r2;
     feed_args vs r3}"

text \<open>What \<open>addReplyBulk\<close> and \<open>addReplyMultiBulkLen\<close> queue.\<close>

definition bulk_reply :: "obj_val \<Rightarrow> bytes option" where
  "bulk_reply v = do {
     len \<leftarrow> bulk_len v;
     s \<leftarrow> (case v of Int_obj n \<Rightarrow> Some (ll_text n) | _ \<Rightarrow> str_of v);
     Some (36 # ll_text (int len) @ [13, 10] @ s @ [13, 10])}"

fun bulk_replies :: "obj_val list \<Rightarrow> bytes option" where
  "bulk_replies [] = Some []"
| "bulk_replies (v # vs) = do { s \<leftarrow> bulk_reply v; t \<leftarrow> bulk_replies vs; Some (s @ t) }"

definition replicationFeedSlaves :: "int \<Rightarrow> obj_val list \<Rightarrow> master \<Rightarrow> master option" where
  "replicationFeedSlaves dictid argvec m =
     (if repl_backlog (ms_repl m) = None \<and> ms_slaves m = [] then Some m
      else if ms_slaves m \<noteq> [] \<and> repl_backlog (ms_repl m) = None then None
      else do {
        m1 \<leftarrow> (if ms_seldb m \<noteq> dictid then do {
                 r \<leftarrow> feedReplicationBacklog (select_cmd dictid) (ms_repl m);
                 Some (m\<lparr>ms_repl := r, ms_slaves := map (slave_reply (select_cmd dictid)) (ms_slaves m)\<rparr>)}
               else Some m);
        r2 \<leftarrow> feedReplicationBacklog (42 # ll_text (int (length argvec)) @ [13, 10]) (ms_repl m1);
        r3 \<leftarrow> feed_args argvec r2;
        args \<leftarrow> (if list_all sl_wait_start (ms_slaves m1) then Some [] else bulk_replies argvec);
        Some (m1\<lparr>ms_seldb := dictid, ms_repl := r3,
                 ms_slaves := map (slave_reply (42 # ll_text (int (length argvec)) @ [13, 10] @ args)) (ms_slaves m1)\<rparr>)})"

definition replicationSetupSlaveForFullResync :: "nat \<Rightarrow> master \<Rightarrow> master option" where
  "replicationSetupSlaveForFullResync i m =
     (if i < length (ms_slaves m)
      then Some (m\<lparr>ms_slaves := (ms_slaves m)[i := (ms_slaves m ! i)\<lparr>sl_wait_start := False\<rparr>], ms_seldb := - 1\<rparr>)
      else None)"

end
