(* ===== verification/BacklogProps.thy ===== *)
theory BacklogProps
  imports Backlog
begin

text \<open>
  The backlog holds the end of the replication stream; a partial resynchronisation continues the stream where the
  slave left it, and slaves and backlog are fed the same bytes, which are the commands of the master.
\<close>

section \<open>The circular buffer\<close>

text \<open>The array \<open>buf\<close> of size \<open>size\<close> has the last bytes of \<open>hist\<close>, byte \<open>k\<close> at the place \<open>k mod size\<close>.\<close>

definition ring :: "nat \<Rightarrow> bytes \<Rightarrow> bytes \<Rightarrow> bool" where
  "ring sz buf hist \<longleftrightarrow> length buf = sz \<and> 0 < sz
     \<and> (\<forall>k<length hist. length hist \<le> k + sz \<longrightarrow> buf ! (k mod sz) = hist ! k)"

lemma ring_write:
  assumes r: "ring sz buf hist" and i: "idx = length hist mod sz" and len: "idx + length x \<le> sz"
  shows "ring sz (take idx buf @ x @ drop (idx + length x) buf) (hist @ x)"
proof -
  let ?b = "take idx buf @ x @ drop (idx + length x) buf" and ?n = "length hist"
  have lb: "length buf = sz" "0 < sz" using r by (auto simp: ring_def)
  have "?b ! (k mod sz) = (hist @ x) ! k" if k: "k < length (hist @ x)" "length (hist @ x) \<le> k + sz" for k
  proof (cases "k < ?n")
    case False
    define d where "d = k - ?n"
    have d: "k = ?n + d" "d < length x" using False k(1) by (auto simp: d_def)
    have "k mod sz = idx + d" using d i len by (simp add: mod_add_left_eq [symmetric, of ?n])
    then show ?thesis using d lb len by (simp add: nth_append)
  next
    case True
    have out: "k mod sz < idx \<or> idx + length x \<le> k mod sz"
    proof (rule ccontr)
      assume "\<not> ?thesis"
      then obtain d where d: "k mod sz = idx + d" "d < length x" by (metis add_less_cancel_left le_add_diff_inverse not_le)
      have "(?n + d) mod sz = k mod sz" using d i len by (simp add: mod_add_left_eq [symmetric, of ?n])
      then have "sz dvd (?n + d) - k" using mod_eq_dvd_iff_nat [of k "?n + d" sz] True by simp
      moreover have "0 < (?n + d) - k" "(?n + d) - k < sz" using True k(2) d(2) by auto
      ultimately show False by (meson dvd_imp_le not_le)
    qed
    have m: "k mod sz < sz" using lb(2) by simp
    have "?b ! (k mod sz) = buf ! (k mod sz)" using out m lb(1) len by (auto simp: nth_append)
    also have "\<dots> = hist ! k" using r True k(2) by (simp add: ring_def)
    finally show ?thesis using True by (simp add: nth_append)
  qed
  then show ?thesis using lb len by (simp add: ring_def)
qed

lemma mod_advance: "idx = n mod sz \<Longrightarrow> idx + d \<le> sz \<Longrightarrow> 0 < sz \<Longrightarrow> (if idx + d = sz then 0 else idx + d) = (n + d) mod (sz::nat)"
  by (auto simp: mod_add_left_eq [symmetric, of n])

lemma feed_loop_ok:
  assumes "repl_backlog r = Some buf" and "ring (repl_backlog_size r) buf hist"
    and "repl_backlog_idx r = length hist mod repl_backlog_size r"
  shows "\<exists>buf'. feed_loop p r = Some (r\<lparr>repl_backlog := Some buf', repl_backlog_idx := length (hist @ p) mod repl_backlog_size r,
      repl_backlog_histlen := repl_backlog_histlen r + length p\<rparr>) \<and> ring (repl_backlog_size r) buf' (hist @ p)"
  using assms
proof (induction p arbitrary: r buf hist rule: length_induct)
  case (1 p)
  let ?sz = "repl_backlog_size r" and ?idx = "repl_backlog_idx r"
  have sz: "0 < ?sz" "length buf = ?sz" and idx: "?idx < ?sz" using 1(3,4) by (auto simp: ring_def)
  show ?case
  proof (cases "p = []")
    case True
    then show ?thesis using 1(2,3) by (intro exI [of _ buf]) (simp add: feed_loop.simps 1(4) [symmetric] 1(2) [symmetric])
  next
    case False
    define k where "k = min (?sz - ?idx) (length p)"
    have k: "0 < k" "k \<le> length p" "?idx + k \<le> ?sz" using False idx by (auto simp: k_def)
    have lx: "length (take k p) = k" using k(2) by simp
    let ?b = "take ?idx buf @ take k p @ drop (?idx + k) buf"
    let ?r = "r\<lparr>repl_backlog := Some ?b, repl_backlog_idx := (if ?idx + k = ?sz then 0 else ?idx + k), repl_backlog_histlen := repl_backlog_histlen r + k\<rparr>"
    have e: "feed_loop p r = feed_loop (drop k p) ?r" using False 1(2) by (simp add: feed_loop.simps [of p r] k_def Let_def)
    have rg: "ring ?sz ?b (hist @ take k p)" using ring_write [OF 1(3,4), of "take k p"] k(3) lx by simp
    have id: "(if ?idx + k = ?sz then 0 else ?idx + k) = length (hist @ take k p) mod ?sz" using mod_advance [OF 1(4) k(3) sz(1)] lx by simp
    have sh: "length (drop k p) < length p" using k(1,2) by simp
    obtain buf' where b: "feed_loop (drop k p) ?r = Some (?r\<lparr>repl_backlog := Some buf',
        repl_backlog_idx := length ((hist @ take k p) @ drop k p) mod repl_backlog_size ?r,
        repl_backlog_histlen := repl_backlog_histlen ?r + length (drop k p)\<rparr>)"
      "ring (repl_backlog_size ?r) buf' ((hist @ take k p) @ drop k p)"
      using 1(1) [rule_format, OF sh, of ?r ?b "hist @ take k p"] rg id by auto
    have "(hist @ take k p) @ drop k p = hist @ p" by simp
    then show ?thesis using b k(2) by (intro exI [of _ buf']) (simp add: e)
  qed
qed

text \<open>\<open>base\<close> is the offset before the first byte of \<open>hist\<close>.\<close>

definition backlog_rep :: "repl \<Rightarrow> bytes \<Rightarrow> int \<Rightarrow> bool" where
  "backlog_rep r hist base \<longleftrightarrow>
     (\<exists>buf. repl_backlog r = Some buf \<and> ring (repl_backlog_size r) buf hist)
     \<and> repl_backlog_idx r = length hist mod repl_backlog_size r
     \<and> repl_backlog_histlen r = min (length hist) (repl_backlog_size r)
     \<and> master_repl_offset r = base + int (length hist)
     \<and> repl_backlog_off r = base + int (length hist) - int (repl_backlog_histlen r) + 1"

lemma create_rep:
  assumes "createReplicationBacklog u r = Some r'" and "0 < repl_backlog_size r"
  shows "backlog_rep r' [] (master_repl_offset r + 1)" and "repl_backlog_size r' = repl_backlog_size r"
  using assms by (auto simp: createReplicationBacklog_def backlog_rep_def ring_def split: if_splits)

lemma feed_rep:
  assumes "backlog_rep r hist base"
  obtains r' where "feedReplicationBacklog p r = Some r'" and "backlog_rep r' (hist @ p) base" and "repl_backlog_size r' = repl_backlog_size r"
proof -
  let ?r = "r\<lparr>master_repl_offset := master_repl_offset r + int (length p)\<rparr>"
  obtain buf where b: "repl_backlog ?r = Some buf" "ring (repl_backlog_size ?r) buf hist" "repl_backlog_idx ?r = length hist mod repl_backlog_size ?r"
    using assms by (auto simp: backlog_rep_def)
  obtain buf' where f: "feed_loop p ?r = Some (?r\<lparr>repl_backlog := Some buf', repl_backlog_idx := length (hist @ p) mod repl_backlog_size ?r,
      repl_backlog_histlen := repl_backlog_histlen ?r + length p\<rparr>)" "ring (repl_backlog_size ?r) buf' (hist @ p)"
    using feed_loop_ok [OF b, of p] by blast
  show thesis
  proof (rule that)
    show "feedReplicationBacklog p r = Some (r\<lparr>master_repl_offset := base + int (length (hist @ p)), repl_backlog := Some buf',
      repl_backlog_idx := length (hist @ p) mod repl_backlog_size r,
      repl_backlog_histlen := min (length (hist @ p)) (repl_backlog_size r),
      repl_backlog_off := base + int (length (hist @ p)) - int (min (length (hist @ p)) (repl_backlog_size r)) + 1\<rparr>)"
      (is "_ = Some ?r'")
      using f(1) assms unfolding feedReplicationBacklog_def backlog_rep_def by (simp add: min_def)
    show "backlog_rep ?r' (hist @ p) base" using f(2) by (simp add: backlog_rep_def)
    show "repl_backlog_size ?r' = repl_backlog_size r" by simp
  qed
qed

section \<open>Reading from the backlog\<close>

lemma backlog_parts_ok:
  assumes b: "repl_backlog r = Some buf" "length buf = repl_backlog_size r" and j: "j < repl_backlog_size r" and len: "len \<le> repl_backlog_size r"
  shows "\<exists>parts. backlog_parts r j len = Some parts \<and> concat parts = map (\<lambda>i. buf ! ((j + i) mod repl_backlog_size r)) [0..<len]"
proof -
  let ?sz = "repl_backlog_size r"
  have tk: "take n buf = map (\<lambda>i. buf ! (i mod ?sz)) [0..<n]" if "n \<le> ?sz" for n
    using that b(2) by (intro nth_equalityI) auto
  have zero: "backlog_parts r 0 n = Some (if n = 0 then [] else [take n buf])" if "n \<le> ?sz" for n
  proof (cases "n = 0")
    case False
    have "backlog_parts r 0 0 = Some []" by (simp add: backlog_parts.simps)
    then show ?thesis using False that b by (simp add: backlog_parts.simps [of r 0 n] Let_def)
  qed (simp add: backlog_parts.simps)
  define k where "k = (if ?sz - j < len then ?sz - j else len)"
  show ?thesis
  proof (cases "len = 0")
    case True
    then show ?thesis by (simp add: backlog_parts.simps)
  next
    case False
    have k: "k \<le> len" "j + k \<le> ?sz" "len - k \<le> ?sz" "k < len \<Longrightarrow> j + k = ?sz" using j len by (auto simp: k_def)
    let ?parts = "take k (drop j buf) # (if len - k = 0 then [] else [take (len - k) buf])"
    have "backlog_parts r j len = Some ?parts" using False b zero [OF k(3)] by (simp add: backlog_parts.simps [of r j] k_def Let_def)
    moreover have "concat ?parts = take k (drop j buf) @ take (len - k) buf" by simp
    moreover have "take k (drop j buf) = map (\<lambda>i. buf ! ((j + i) mod ?sz)) [0..<k]"
      using k(2) b(2) by (intro nth_equalityI) auto
    moreover have "take (len - k) buf = map (\<lambda>i. buf ! ((j + i) mod ?sz)) [k..<len]"
    proof (cases "k < len")
      case True
      have "(j + (k + i)) mod ?sz = i mod ?sz" for i using k(4) [OF True] by (metis add.assoc mod_add_self1)
      then show ?thesis unfolding tk [OF k(3)] by (intro nth_equalityI) auto
    qed (use k(1) in simp)
    moreover have "[0..<len] = [0..<k] @ [k..<len]" using k(1) by (metis le0 upt_add_eq_append le_add_diff_inverse)
    ultimately show ?thesis by (metis map_append)
  qed
qed

lemma addReplyReplicationBacklog_ok:
  assumes rep: "backlog_rep r hist base" and o: "repl_backlog_off r \<le> off" "off \<le> repl_backlog_off r + int (repl_backlog_histlen r)"
  shows "\<exists>parts n. addReplyReplicationBacklog off r = Some (parts, n) \<and> concat parts = drop (nat (off - (base + 1))) hist"
proof (cases "repl_backlog_histlen r = 0")
  case True
  then have "hist = []" using rep by (auto simp: backlog_rep_def ring_def min_def split: if_splits)
  then show ?thesis using True by (simp add: addReplyReplicationBacklog_def)
next
  case False
  let ?sz = "repl_backlog_size r" and ?h = "repl_backlog_histlen r" and ?n = "length hist"
  obtain buf where buf: "repl_backlog r = Some buf" "ring ?sz buf hist" using rep by (auto simp: backlog_rep_def)
  have sz: "0 < ?sz" "length buf = ?sz" using buf(2) by (auto simp: ring_def)
  have h: "?h \<le> ?n" "?h \<le> ?sz" and idx: "repl_backlog_idx r = ?n mod ?sz" using rep by (auto simp: backlog_rep_def)
  define skip where "skip = nat (off - repl_backlog_off r)"
  have skip: "off - repl_backlog_off r = int skip" "skip \<le> ?h" using o by (auto simp: skip_def)
  define j where "j = ((repl_backlog_idx r + (?sz - ?h)) mod ?sz + skip) mod ?sz"
  have j: "j = (?n - ?h + skip) mod ?sz"
  proof -
    have "repl_backlog_idx r + (?sz - ?h) = ?n mod ?sz + (?sz - ?h)" by (simp add: idx)
    then have "(repl_backlog_idx r + (?sz - ?h)) mod ?sz = (?n + (?sz - ?h)) mod ?sz" by (simp add: mod_add_left_eq)
    also have "?n + (?sz - ?h) = (?n - ?h) + ?sz" using h by simp
    finally show ?thesis by (simp add: j_def mod_add_left_eq)
  qed
  obtain parts where p: "backlog_parts r j (?h - skip) = Some parts" "concat parts = map (\<lambda>i. buf ! ((j + i) mod ?sz)) [0..<?h - skip]"
  proof -
    have "j < ?sz" "?h - skip \<le> ?sz" using sz(1) h(2) by (simp_all add: j)
    then show thesis using backlog_parts_ok [OF buf(1) sz(2)] that by blast
  qed
  have "addReplyReplicationBacklog off r = Some (parts, int ?h - int skip)"
    using False skip p(1) by (simp add: addReplyReplicationBacklog_def Let_def j_def)
  moreover have "concat parts = drop (?n - ?h + skip) hist"
  proof (rule nth_equalityI)
    show "length (concat parts) = length (drop (?n - ?h + skip) hist)" using p(2) h skip(2) by simp
    fix i assume "i < length (concat parts)"
    then have i: "i < ?h - skip" using p(2) by simp
    have "(j + i) mod ?sz = (?n - ?h + skip + i) mod ?sz" by (simp add: j mod_add_left_eq)
    then show "concat parts ! i = drop (?n - ?h + skip) hist ! i"
      using i p(2) h buf(2) by (simp add: ring_def)
  qed
  moreover have "nat (off - (base + 1)) = ?n - ?h + skip" using rep skip h by (simp add: backlog_rep_def)
  ultimately show ?thesis by metis
qed

primrec feed_chunks :: "bytes list \<Rightarrow> repl \<Rightarrow> repl option" where
  "feed_chunks [] r = Some r"
| "feed_chunks (p # ps) r = do { r1 \<leftarrow> feedReplicationBacklog p r; feed_chunks ps r1 }"

lemma feed_chunks_rep:
  assumes "backlog_rep r hist base"
  shows "\<exists>r'. feed_chunks ps r = Some r' \<and> backlog_rep r' (hist @ concat ps) base \<and> repl_backlog_size r' = repl_backlog_size r"
  using assms
proof (induction ps arbitrary: r hist)
  case (Cons p ps)
  obtain r1 where r1: "feedReplicationBacklog p r = Some r1" "backlog_rep r1 (hist @ p) base" "repl_backlog_size r1 = repl_backlog_size r"
    by (rule feed_rep [OF Cons.prems])
  then show ?case using Cons.IH [OF r1(2)] by auto
qed simp

lemma psync_rep:
  assumes rep: "backlog_rep r hist base"
  shows "if base + 1 + int (length hist - min (length hist) (repl_backlog_size r)) \<le> off \<and> off \<le> base + 1 + int (length hist)
    then \<exists>parts. masterTryPartialResynchronization True (Some off) True r = Some (Continue parts) \<and> concat parts = drop (nat (off - (base + 1))) hist
    else masterTryPartialResynchronization True (Some off) True r = Some Full_resync"
proof -
  have f: "repl_backlog r \<noteq> None" "repl_backlog_histlen r = min (length hist) (repl_backlog_size r)"
    "repl_backlog_off r = base + int (length hist) - int (repl_backlog_histlen r) + 1" using rep by (auto simp: backlog_rep_def)
  then have iff: "(base + 1 + int (length hist - min (length hist) (repl_backlog_size r)) \<le> off \<and> off \<le> base + 1 + int (length hist))
    \<longleftrightarrow> repl_backlog_off r \<le> off \<and> off \<le> repl_backlog_off r + int (repl_backlog_histlen r)" by auto
  show ?thesis
  proof (cases "repl_backlog_off r \<le> off \<and> off \<le> repl_backlog_off r + int (repl_backlog_histlen r)")
    case True
    obtain parts n where "addReplyReplicationBacklog off r = Some (parts, n)" "concat parts = drop (nat (off - (base + 1))) hist"
      using addReplyReplicationBacklog_ok [OF rep, of off] True by blast
    then show ?thesis unfolding iff if_P [OF True] using True f(1) by (simp add: masterTryPartialResynchronization_def)
  next
    case False
    then show ?thesis unfolding iff if_not_P [OF False] using f(1) by (auto simp: masterTryPartialResynchronization_def)
  qed
qed

section \<open>Feeding commands\<close>


















section \<open>Properties\<close>

definition example_repl :: "nat \<Rightarrow> repl" where
  "example_repl n = \<lparr>repl_backlog = None, repl_backlog_size = n, repl_backlog_histlen = 0, repl_backlog_idx = 0,
     repl_backlog_off = 0, master_repl_offset = 100\<rparr>"

text \<open>
  C15.  Partial resynchronisation continues the stream exactly.  A master creates its backlog and then feeds any
  sequence of chunks, of any sizes, also longer than the backlog.  The bytes have consecutive offsets from the
  replication offset at the creation, plus two.  A slave that asks for offset \<open>off\<close> is accepted exactly when the byte
  \<open>off\<close> and all later ones are still in the backlog, or \<open>off\<close> is the next byte to come; and what it then gets is
  the rest of the stream from \<open>off\<close> on, without loss or repetition.  All other offsets, among them every offset
  from before the creation, lead to a full resynchronisation.
\<close>

theorem psync_continues_stream:
  assumes "createReplicationBacklog u r0 = Some r1" and "0 < repl_backlog_size r0"
    and "base = master_repl_offset r0 + 1" and "hist = concat ps"
  shows "\<exists>r. feed_chunks ps r1 = Some r \<and> master_repl_offset r = base + int (length hist)
    \<and> (if base + 1 + int (length hist - min (length hist) (repl_backlog_size r0)) \<le> off \<and> off \<le> base + 1 + int (length hist)
       then \<exists>parts. masterTryPartialResynchronization True (Some off) True r = Some (Continue parts)
         \<and> concat parts = drop (nat (off - (base + 1))) hist
       else masterTryPartialResynchronization True (Some off) True r = Some Full_resync)"
proof -
  have rep1: "backlog_rep r1 [] base" and sz: "repl_backlog_size r1 = repl_backlog_size r0" using create_rep [OF assms(1,2)] assms(3) by simp_all
  obtain r where r: "feed_chunks ps r1 = Some r" "backlog_rep r ([] @ concat ps) base" "repl_backlog_size r = repl_backlog_size r1"
    using feed_chunks_rep [OF rep1] by blast
  have rep: "backlog_rep r hist base" using r(2) assms(4) by simp
  then have "master_repl_offset r = base + int (length hist)" by (simp add: backlog_rep_def)
  then show ?thesis using psync_rep [OF rep, of off] r(1,3) sz by auto
qed

theorem psync_continues_stream_witness:
  "\<exists>r1 r parts. createReplicationBacklog 7 (example_repl 4) = Some r1 \<and> feed_chunks [[1, 2, 3], [4, 5, 6]] r1 = Some r
    \<and> masterTryPartialResynchronization True (Some 105) True r = Some (Continue parts) \<and> concat parts = [4, 5, 6]"
proof -
  obtain r1 where c: "createReplicationBacklog 7 (example_repl 4) = Some r1" by (simp add: createReplicationBacklog_def example_repl_def)
  have p: "0 < repl_backlog_size (example_repl 4)" "(101::int) = master_repl_offset (example_repl 4) + 1" "[1, 2, 3, 4, 5, 6] = concat [[1, 2, 3], [4, 5, 6 :: byte]]"
    by (simp_all add: example_repl_def)
  show ?thesis using psync_continues_stream [OF c p, of 105] c by (auto simp: example_repl_def)
qed




text \<open>
  C34.  Resizing the backlog discards its contents, although the comment above the function promises that the most
  recent bytes are kept: after a change of the size every slave that is not completely up to date needs a full
  resynchronisation.
\<close>

theorem resize_discards_history:
  assumes "backlog_rep r hist base" and "CONFIG_REPL_BACKLOG_MIN_SIZE \<le> newsize" and "newsize \<noteq> int (repl_backlog_size r)"
    and "off \<noteq> master_repl_offset r + 1"
  shows "masterTryPartialResynchronization True (Some off) True (resizeReplicationBacklog u newsize r) = Some Full_resync"
  using assms by (auto simp: backlog_rep_def resizeReplicationBacklog_def masterTryPartialResynchronization_def Let_def)

theorem resize_discards_history_witness:
  "masterTryPartialResynchronization True (Some 102) True
     (resizeReplicationBacklog 0 20000 \<lparr>repl_backlog = Some [1, 0, 0, 0], repl_backlog_size = 4, repl_backlog_histlen = 1, repl_backlog_idx = 1,
        repl_backlog_off = 102, master_repl_offset = 102\<rparr>) = Some Full_resync"
  by (rule resize_discards_history [of _ "[1]" 101]) (auto simp: backlog_rep_def ring_def CONFIG_REPL_BACKLOG_MIN_SIZE_def)

end
