(* ===== verification/Skiplist.thy ===== *)
theory Skiplist
  imports Sds "HOL-Library.Monad_Syntax"
begin

text \<open>
  \<^verbatim>\<open>t_zset.c\<close>, the skip list of the sorted sets.  Nodes live in a heap from addresses to nodes; a node has an
  array of levels, each with a forward pointer and the span to the node it points at, an \<open>unsigned int\<close>.
  Every search of the file is the same descent, with another condition for going forward: it is one
  function here, \<open>zsl_descend\<close>, which yields the arrays \<open>update\<close> and \<open>rank\<close>.

  Members are string objects, by value (\<open>Object\<close> shows that \<open>compareStringObjects\<close> compares values).
  Scores are values of a linear order: a double that is not a number is excluded by the callers.  \<open>None\<close>
  is an access outside the allocated memory, a failed assertion or a loop that does not end.
\<close>

section \<open>Nodes\<close>

type_synonym zaddr = nat
type_synonym zlevel = "zaddr option \<times> 32 word"

record 's zskiplistNode =
  zn_obj :: "bytes option"
  zn_score :: 's
  zn_backward :: "zaddr option"
  zn_level :: "zlevel list"

record zskiplist =
  zsl_header :: zaddr
  zsl_tail :: "zaddr option"
  zsl_length :: nat
  zsl_level :: nat

type_synonym 's zheap = "zaddr \<rightharpoonup> 's zskiplistNode"

definition ZSKIPLIST_MAXLEVEL :: nat where "ZSKIPLIST_MAXLEVEL = 32"

text \<open>Reading and writing \<open>x->level[i]\<close>, and a loop over a list of indices.\<close>

definition level_at :: "'s zheap \<Rightarrow> zaddr \<Rightarrow> nat \<Rightarrow> zlevel option" where
  "level_at H x i = do {
     n \<leftarrow> H x;
     if i < length (zn_level n) then Some (zn_level n ! i) else None}"

definition set_level :: "zaddr \<Rightarrow> nat \<Rightarrow> zlevel \<Rightarrow> 's zheap \<Rightarrow> 's zheap option" where
  "set_level x i l H = do {
     n \<leftarrow> H x;
     if i < length (zn_level n) then Some (H(x \<mapsto> n\<lparr>zn_level := (zn_level n)[i := l]\<rparr>)) else None}"

definition set_backward :: "zaddr \<Rightarrow> zaddr option \<Rightarrow> 's zheap \<Rightarrow> 's zheap option" where
  "set_backward x b H = do { n \<leftarrow> H x; Some (H(x \<mapsto> n\<lparr>zn_backward := b\<rparr>)) }"

primrec for_each :: "('i \<Rightarrow> 'h \<Rightarrow> 'h option) \<Rightarrow> 'i list \<Rightarrow> 'h \<Rightarrow> 'h option" where
  "for_each f [] h = Some h"
| "for_each f (i # is) h = do { h' \<leftarrow> f i h; for_each f is h' }"

text \<open>The fields of a new node are not initialised; \<open>u\<close> is what the allocator left there.\<close>

definition zslCreateNode :: "zlevel \<Rightarrow> nat \<Rightarrow> 's \<Rightarrow> bytes option \<Rightarrow> 's zskiplistNode" where
  "zslCreateNode u level score obj =
     \<lparr>zn_obj = obj, zn_score = score, zn_backward = fst u, zn_level = replicate level u\<rparr>"

definition zslCreate :: "zlevel \<Rightarrow> 's \<Rightarrow> zaddr \<Rightarrow> 's zheap \<Rightarrow> 's zheap \<times> zskiplist" where
  "zslCreate u zero a H =
     (let n = zslCreateNode u ZSKIPLIST_MAXLEVEL zero None;
          n1 = n\<lparr>zn_level := map (\<lambda>l. (None, 0)) (zn_level n)\<rparr>
      in (H(a \<mapsto> n1\<lparr>zn_backward := None\<rparr>),
          \<lparr>zsl_header = a, zsl_tail = None, zsl_length = 0, zsl_level = 1\<rparr>))"

definition zslFreeNode :: "zaddr \<Rightarrow> 's zheap \<Rightarrow> 's zheap" where
  "zslFreeNode x H = H(x := None)"

partial_function (option) zslFree_loop :: "zaddr option \<Rightarrow> 's zheap \<Rightarrow> 's zheap option" where
  "zslFree_loop node H =
     (case node of None \<Rightarrow> Some H
      | Some x \<Rightarrow> do { (nxt, sp) \<leftarrow> level_at H x 0; zslFree_loop nxt (zslFreeNode x H) })"

definition zslFree :: "zskiplist \<Rightarrow> 's zheap \<Rightarrow> 's zheap option" where
  "zslFree z H = do {
     (node, sp) \<leftarrow> level_at H (zsl_header z) 0;
     zslFree_loop node (H(zsl_header z := None))}"

text \<open>The level of a new node, from a generator \<open>random\<close> with its state: \<open>ZSKIPLIST_P * 0xFFFF\<close> is 16383.75.\<close>

partial_function (option) zslRandomLevel_loop :: "('g \<Rightarrow> nat \<times> 'g) \<Rightarrow> nat \<Rightarrow> 'g \<Rightarrow> (nat \<times> 'g) option" where
  "zslRandomLevel_loop random level g =
     (let (r, g') = random g
      in if r mod 65536 \<le> 16383 then zslRandomLevel_loop random (level + 1) g' else Some (level, g'))"

definition zslRandomLevel :: "('g \<Rightarrow> nat \<times> 'g) \<Rightarrow> 'g \<Rightarrow> (nat \<times> 'g) option" where
  "zslRandomLevel random g =
     map_option (\<lambda>(level, g'). (if level < ZSKIPLIST_MAXLEVEL then level else ZSKIPLIST_MAXLEVEL, g'))
       (zslRandomLevel_loop random 1 g)"

section \<open>The descent\<close>

text \<open>\<open>while (x->level[i].forward && adv) { r += span; x = forward; }\<close>.  The condition sees the traversed
  distance with the span added, and the node it would go to.\<close>

partial_function (option) zsl_walk ::
  "'s zheap \<Rightarrow> (nat \<Rightarrow> 's zskiplistNode \<Rightarrow> bool) \<Rightarrow> nat \<Rightarrow> zaddr \<Rightarrow> nat \<Rightarrow> (zaddr \<times> nat) option" where
  "zsl_walk H adv i x r = do {
     (forward, span) \<leftarrow> level_at H x i;
     case forward of
       None \<Rightarrow> Some (x, r)
     | Some y \<Rightarrow> do {
         n \<leftarrow> H y;
         if adv (r + unat span) n then zsl_walk H adv i y (r + unat span) else Some (x, r)}}"

text \<open>The levels below \<open>i\<close>, from the top: the result has \<open>update[j]\<close> and \<open>rank[j]\<close> at position \<open>j\<close>.\<close>

primrec zsl_descend ::
  "'s zheap \<Rightarrow> (nat \<Rightarrow> 's zskiplistNode \<Rightarrow> bool) \<Rightarrow> nat \<Rightarrow> zaddr \<Rightarrow> nat \<Rightarrow> (zaddr \<times> nat) list option" where
  "zsl_descend H adv 0 x r = Some []"
| "zsl_descend H adv (Suc i) x r = do {
     (x', r') \<leftarrow> zsl_walk H adv i x r;
     us \<leftarrow> zsl_descend H adv i x' r';
     Some (us @ [(x', r')])}"

text \<open>The node that the descent ends at.\<close>

definition zsl_search :: "'s zheap \<Rightarrow> (nat \<Rightarrow> 's zskiplistNode \<Rightarrow> bool) \<Rightarrow> zskiplist \<Rightarrow> (zaddr \<times> nat) list option" where
  "zsl_search H adv z = zsl_descend H adv (zsl_level z) (zsl_header z) 0"

text \<open>The order of the nodes: by score, then by member.\<close>

definition node_less :: "'s::linorder zskiplistNode \<Rightarrow> 's \<Rightarrow> bytes \<Rightarrow> bool" where
  "node_less n score obj \<longleftrightarrow>
     zn_score n < score \<or> zn_score n = score \<and> byte_less (the (zn_obj n)) obj"

section \<open>Insertion\<close>

text \<open>One level of the new node \<open>a\<close>: \<open>us\<close> are the pairs of \<open>update\<close> and \<open>rank\<close>.\<close>

definition insert_level :: "zaddr \<Rightarrow> (zaddr \<times> nat) list \<Rightarrow> nat \<Rightarrow> 's zheap \<Rightarrow> 's zheap option" where
  "insert_level a us i H = do {
     let x = fst (us ! i);
     let d = of_nat (snd (us ! 0)) - of_nat (snd (us ! i));
     (forward, span) \<leftarrow> level_at H x i;
     H1 \<leftarrow> set_level a i (forward, span - d) H;
     set_level x i (Some a, d + 1) H1}"

definition raise_level :: "zaddr \<Rightarrow> nat \<Rightarrow> nat \<Rightarrow> 's zheap \<Rightarrow> 's zheap option" where
  "raise_level header len i H = do {
     (forward, span) \<leftarrow> level_at H header i;
     set_level header i (forward, of_nat len) H}"

definition bump_span :: "(zaddr \<times> nat) list \<Rightarrow> nat \<Rightarrow> 's zheap \<Rightarrow> 's zheap option" where
  "bump_span us i H = do {
     (forward, span) \<leftarrow> level_at H (fst (us ! i)) i;
     set_level (fst (us ! i)) i (forward, span + 1) H}"

definition zslInsert ::
  "zlevel \<Rightarrow> nat \<Rightarrow> zaddr \<Rightarrow> 's::linorder \<Rightarrow> bytes \<Rightarrow> 's zheap \<times> zskiplist \<Rightarrow> ('s zheap \<times> zskiplist) option" where
  "zslInsert u level a score obj = (\<lambda>(H, z). do {
     us0 \<leftarrow> zsl_search H (\<lambda>_ n. node_less n score obj) z;
     let us = us0 @ replicate (level - zsl_level z) (zsl_header z, 0);
     H1 \<leftarrow> for_each (raise_level (zsl_header z) (zsl_length z)) [zsl_level z ..< level] H;
     let lev = max level (zsl_level z);
     let H2 = H1(a \<mapsto> zslCreateNode u level score (Some obj));
     H3 \<leftarrow> for_each (insert_level a us) [0 ..< level] H2;
     H4 \<leftarrow> for_each (bump_span us) [level ..< lev] H3;
     H5 \<leftarrow> set_backward a (if fst (us ! 0) = zsl_header z then None else Some (fst (us ! 0))) H4;
     (forward, span) \<leftarrow> level_at H5 a 0;
     (case forward of
        Some y \<Rightarrow> do {
          H6 \<leftarrow> set_backward y (Some a) H5;
          Some (H6, z\<lparr>zsl_level := lev, zsl_length := zsl_length z + 1\<rparr>)}
      | None \<Rightarrow> Some (H5, z\<lparr>zsl_level := lev, zsl_tail := Some a, zsl_length := zsl_length z + 1\<rparr>))})"

section \<open>Deletion\<close>

definition unlink_level :: "zaddr \<Rightarrow> (zaddr \<times> nat) list \<Rightarrow> nat \<Rightarrow> 's zheap \<Rightarrow> 's zheap option" where
  "unlink_level x us i H = do {
     let w = fst (us ! i);
     (forward, span) \<leftarrow> level_at H w i;
     if forward = Some x then do {
       (xforward, xspan) \<leftarrow> level_at H x i;
       set_level w i (xforward, span + (xspan - 1)) H}
     else set_level w i (forward, span - 1) H}"

text \<open>\<open>while (level > 1 && header->level[level-1].forward == NULL) level--\<close>\<close>

fun lower_level :: "'s zheap \<Rightarrow> zaddr \<Rightarrow> nat \<Rightarrow> nat option" where
  "lower_level H header level =
     (if level > 1 then do {
        (forward, span) \<leftarrow> level_at H header (level - 1);
        if forward = None then lower_level H header (level - 1) else Some level}
      else Some level)"

declare lower_level.simps [simp del]

definition zslDeleteNode :: "zaddr \<Rightarrow> (zaddr \<times> nat) list \<Rightarrow> 's zheap \<times> zskiplist \<Rightarrow> ('s zheap \<times> zskiplist) option" where
  "zslDeleteNode x us = (\<lambda>(H, z). do {
     H1 \<leftarrow> for_each (unlink_level x us) [0 ..< zsl_level z] H;
     n \<leftarrow> H1 x;
     (forward, span) \<leftarrow> level_at H1 x 0;
     (H2, z2) \<leftarrow> (case forward of
        Some y \<Rightarrow> do { H2 \<leftarrow> set_backward y (zn_backward n) H1; Some (H2, z) }
      | None \<Rightarrow> Some (H1, z\<lparr>zsl_tail := zn_backward n\<rparr>));
     level \<leftarrow> lower_level H2 (zsl_header z) (zsl_level z);
     Some (H2, z2\<lparr>zsl_level := level, zsl_length := zsl_length z - 1\<rparr>)})"

definition zslDelete :: "'s::linorder \<Rightarrow> bytes \<Rightarrow> 's zheap \<times> zskiplist \<Rightarrow> (('s zheap \<times> zskiplist) \<times> bool) option" where
  "zslDelete score obj = (\<lambda>(H, z). do {
     us \<leftarrow> zsl_search H (\<lambda>_ n. node_less n score obj) z;
     (forward, span) \<leftarrow> level_at H (fst (us ! 0)) 0;
     case forward of
       None \<Rightarrow> Some ((H, z), False)
     | Some x \<Rightarrow> do {
         n \<leftarrow> H x;
         if score = zn_score n \<and> zn_obj n = Some obj then do {
           (H1, z1) \<leftarrow> zslDeleteNode x us (H, z);
           Some ((zslFreeNode x H1, z1), True)}
         else Some ((H, z), False)}})"

section \<open>Ranks\<close>

primrec zslGetRank_loop :: "'s::linorder zheap \<Rightarrow> 's \<Rightarrow> bytes \<Rightarrow> nat \<Rightarrow> zaddr \<Rightarrow> nat \<Rightarrow> nat option" where
  "zslGetRank_loop H score obj 0 x r = Some 0"
| "zslGetRank_loop H score obj (Suc i) x r = do {
     (x', r') \<leftarrow> zsl_walk H (\<lambda>_ n. node_less n score obj \<or> zn_score n = score \<and> zn_obj n = Some obj) i x r;
     n \<leftarrow> H x';
     if zn_obj n = Some obj then Some r' else zslGetRank_loop H score obj i x' r'}"

definition zslGetRank :: "'s::linorder \<Rightarrow> bytes \<Rightarrow> 's zheap \<times> zskiplist \<Rightarrow> nat option" where
  "zslGetRank score obj = (\<lambda>(H, z). zslGetRank_loop H score obj (zsl_level z) (zsl_header z) 0)"

primrec zslGetElementByRank_loop :: "'s zheap \<Rightarrow> nat \<Rightarrow> nat \<Rightarrow> zaddr \<Rightarrow> nat \<Rightarrow> zaddr option option" where
  "zslGetElementByRank_loop H rank 0 x r = Some None"
| "zslGetElementByRank_loop H rank (Suc i) x r = do {
     (x', r') \<leftarrow> zsl_walk H (\<lambda>t _. t \<le> rank) i x r;
     if r' = rank then Some (Some x') else zslGetElementByRank_loop H rank i x' r'}"

definition zslGetElementByRank :: "nat \<Rightarrow> 's zheap \<times> zskiplist \<Rightarrow> zaddr option option" where
  "zslGetElementByRank rank = (\<lambda>(H, z). zslGetElementByRank_loop H rank (zsl_level z) (zsl_header z) 0)"

section \<open>Ranges of scores\<close>

record 's zrangespec =
  zr_min :: 's
  zr_max :: 's
  zr_minex :: bool
  zr_maxex :: bool

definition zslValueGteMin :: "'s::linorder \<Rightarrow> 's zrangespec \<Rightarrow> bool" where
  "zslValueGteMin v spec \<longleftrightarrow> (if zr_minex spec then v > zr_min spec else v \<ge> zr_min spec)"

definition zslValueLteMax :: "'s::linorder \<Rightarrow> 's zrangespec \<Rightarrow> bool" where
  "zslValueLteMax v spec \<longleftrightarrow> (if zr_maxex spec then v < zr_max spec else v \<le> zr_max spec)"

definition zslIsInRange :: "'s::linorder zrangespec \<Rightarrow> 's zheap \<times> zskiplist \<Rightarrow> bool option" where
  "zslIsInRange rng = (\<lambda>(H, z).
     if zr_min rng > zr_max rng
        \<or> zr_min rng = zr_max rng \<and> (zr_minex rng \<or> zr_maxex rng) then Some False
     else case zsl_tail z of
         None \<Rightarrow> Some False
       | Some x \<Rightarrow> do {
           n \<leftarrow> H x;
           if \<not> zslValueGteMin (zn_score n) rng then Some False
           else do {
             (forward, span) \<leftarrow> level_at H (zsl_header z) 0;
             case forward of
               None \<Rightarrow> Some False
             | Some y \<Rightarrow> do { m \<leftarrow> H y; Some (zslValueLteMax (zn_score m) rng) }}})"

definition zslFirstInRange :: "'s::linorder zrangespec \<Rightarrow> 's zheap \<times> zskiplist \<Rightarrow> zaddr option option" where
  "zslFirstInRange rng = (\<lambda>(H, z). do {
     b \<leftarrow> zslIsInRange rng (H, z);
     if \<not> b then Some None
     else do {
       us \<leftarrow> zsl_search H (\<lambda>_ n. \<not> zslValueGteMin (zn_score n) rng) z;
       (forward, span) \<leftarrow> level_at H (fst (us ! 0)) 0;
       x \<leftarrow> forward;
       n \<leftarrow> H x;
       Some (if \<not> zslValueLteMax (zn_score n) rng then None else Some x)}})"

definition zslLastInRange :: "'s::linorder zrangespec \<Rightarrow> 's zheap \<times> zskiplist \<Rightarrow> zaddr option option" where
  "zslLastInRange rng = (\<lambda>(H, z). do {
     b \<leftarrow> zslIsInRange rng (H, z);
     if \<not> b then Some None
     else do {
       us \<leftarrow> zsl_search H (\<lambda>_ n. zslValueLteMax (zn_score n) rng) z;
       let x = fst (us ! 0);
       n \<leftarrow> H x;
       Some (if \<not> zslValueGteMin (zn_score n) rng then None else Some x)}})"

section \<open>Deletion of ranges\<close>

text \<open>The loop that the three functions share: delete nodes while the condition holds, from the hash table
  of the sorted set too.  \<open>t\<close> is the rank of the node \<open>x\<close>.\<close>

partial_function (option) zsl_delete_run ::
  "(nat \<Rightarrow> 's zskiplistNode \<Rightarrow> bool) \<Rightarrow> (zaddr \<times> nat) list \<Rightarrow> zaddr option \<Rightarrow> nat \<Rightarrow>
   's zheap \<Rightarrow> zskiplist \<Rightarrow> (bytes \<rightharpoonup> 's) \<Rightarrow> ('s zheap \<times> zskiplist \<times> (bytes \<rightharpoonup> 's) \<times> nat) option" where
  "zsl_delete_run cond us x t H z d =
     (case x of
        None \<Rightarrow> Some (H, z, d, 0)
      | Some y \<Rightarrow> do {
          n \<leftarrow> H y;
          if \<not> cond t n then Some (H, z, d, 0)
          else do {
            (nxt, span) \<leftarrow> level_at H y 0;
            (H1, z1) \<leftarrow> zslDeleteNode y us (H, z);
            (H2, z2, d2, removed) \<leftarrow> zsl_delete_run cond us nxt (t + 1) (zslFreeNode y H1) z1 (d(the (zn_obj n) := None));
            Some (H2, z2, d2, removed + 1)}})"

definition zsl_delete_range ::
  "(nat \<Rightarrow> 's zskiplistNode \<Rightarrow> bool) \<Rightarrow> (nat \<Rightarrow> 's zskiplistNode \<Rightarrow> bool) \<Rightarrow>
   's zheap \<times> zskiplist \<times> (bytes \<rightharpoonup> 's) \<Rightarrow> ('s zheap \<times> zskiplist \<times> (bytes \<rightharpoonup> 's) \<times> nat) option" where
  "zsl_delete_range adv cond = (\<lambda>(H, z, d). do {
     us \<leftarrow> zsl_search H adv z;
     (x, span) \<leftarrow> level_at H (fst (us ! 0)) 0;
     zsl_delete_run cond us x (Suc (snd (us ! 0))) H z d})"

definition zslDeleteRangeByScore ::
  "'s::linorder zrangespec \<Rightarrow> 's zheap \<times> zskiplist \<times> (bytes \<rightharpoonup> 's) \<Rightarrow> ('s zheap \<times> zskiplist \<times> (bytes \<rightharpoonup> 's) \<times> nat) option" where
  "zslDeleteRangeByScore rng =
     zsl_delete_range
       (\<lambda>_ n. if zr_minex rng then zn_score n \<le> zr_min rng else zn_score n < zr_min rng)
       (\<lambda>_ n. if zr_maxex rng then zn_score n < zr_max rng else zn_score n \<le> zr_max rng)"

definition zslDeleteRangeByRank ::
  "nat \<Rightarrow> nat \<Rightarrow> 's zheap \<times> zskiplist \<times> (bytes \<rightharpoonup> 's) \<Rightarrow> ('s zheap \<times> zskiplist \<times> (bytes \<rightharpoonup> 's) \<times> nat) option" where
  "zslDeleteRangeByRank start stop = zsl_delete_range (\<lambda>t _. t < start) (\<lambda>t _. t \<le> stop)"

section \<open>Ranges of members\<close>

text \<open>The bounds of a lexicographic range: the two shared objects, which stand for the smallest and the
  greatest string, or a string.  \<open>cmp\<close> is \<open>compareStringObjects\<close>, of which the sign is specified.\<close>

datatype lexbound = Minstring | Maxstring | Lexstring bytes

fun lex_value :: "lexbound \<Rightarrow> bytes" where
  "lex_value Minstring = [109, 105, 110, 115, 116, 114, 105, 110, 103]"
| "lex_value Maxstring = [109, 97, 120, 115, 116, 114, 105, 110, 103]"
| "lex_value (Lexstring s) = s"

record zlexrangespec =
  zl_min :: lexbound
  zl_max :: lexbound
  zl_minex :: bool
  zl_maxex :: bool

definition zslParseLexRangeItem :: "bytes \<Rightarrow> (lexbound \<times> bool) option" where
  "zslParseLexRangeItem item =
     (case item of
        [] \<Rightarrow> None
      | c # rest \<Rightarrow>
          if c = 43 then (if rest = [] \<or> rest ! 0 = 0 then Some (Maxstring, False) else None)
          else if c = 45 then (if rest = [] \<or> rest ! 0 = 0 then Some (Minstring, False) else None)
          else if c = 40 then Some (Lexstring rest, True)
          else if c = 91 then Some (Lexstring rest, False)
          else None)"

definition zslParseLexRange :: "bytes \<Rightarrow> bytes \<Rightarrow> zlexrangespec option" where
  "zslParseLexRange mn mx = do {
     (lo, loex) \<leftarrow> zslParseLexRangeItem mn;
     (hi, hiex) \<leftarrow> zslParseLexRangeItem mx;
     Some \<lparr>zl_min = lo, zl_max = hi, zl_minex = loex, zl_maxex = hiex\<rparr>}"

definition compareStringObjectsForLexRange :: "(bytes \<Rightarrow> bytes \<Rightarrow> int) \<Rightarrow> lexbound \<Rightarrow> lexbound \<Rightarrow> int" where
  "compareStringObjectsForLexRange cmp a b =
     (if a = b then 0
      else if a = Minstring \<or> b = Maxstring then - 1
      else if a = Maxstring \<or> b = Minstring then 1
      else cmp (lex_value a) (lex_value b))"

definition zslLexValueGteMin :: "(bytes \<Rightarrow> bytes \<Rightarrow> int) \<Rightarrow> bytes \<Rightarrow> zlexrangespec \<Rightarrow> bool" where
  "zslLexValueGteMin cmp v spec \<longleftrightarrow>
     (if zl_minex spec then compareStringObjectsForLexRange cmp (Lexstring v) (zl_min spec) > 0
      else compareStringObjectsForLexRange cmp (Lexstring v) (zl_min spec) \<ge> 0)"

definition zslLexValueLteMax :: "(bytes \<Rightarrow> bytes \<Rightarrow> int) \<Rightarrow> bytes \<Rightarrow> zlexrangespec \<Rightarrow> bool" where
  "zslLexValueLteMax cmp v spec \<longleftrightarrow>
     (if zl_maxex spec then compareStringObjectsForLexRange cmp (Lexstring v) (zl_max spec) < 0
      else compareStringObjectsForLexRange cmp (Lexstring v) (zl_max spec) \<le> 0)"

definition zslIsInLexRange :: "(bytes \<Rightarrow> bytes \<Rightarrow> int) \<Rightarrow> zlexrangespec \<Rightarrow> 's zheap \<times> zskiplist \<Rightarrow> bool option" where
  "zslIsInLexRange cmp rng = (\<lambda>(H, z).
     if compareStringObjectsForLexRange cmp (zl_min rng) (zl_max rng) > 1
        \<or> cmp (lex_value (zl_min rng)) (lex_value (zl_max rng)) = 0 \<and> (zl_minex rng \<or> zl_maxex rng) then Some False
     else case zsl_tail z of
         None \<Rightarrow> Some False
       | Some x \<Rightarrow> do {
           n \<leftarrow> H x;
           if \<not> zslLexValueGteMin cmp (the (zn_obj n)) rng then Some False
           else do {
             (forward, span) \<leftarrow> level_at H (zsl_header z) 0;
             case forward of
               None \<Rightarrow> Some False
             | Some y \<Rightarrow> do { m \<leftarrow> H y; Some (zslLexValueLteMax cmp (the (zn_obj m)) rng) }}})"

definition zslFirstInLexRange :: "(bytes \<Rightarrow> bytes \<Rightarrow> int) \<Rightarrow> zlexrangespec \<Rightarrow> 's zheap \<times> zskiplist \<Rightarrow> zaddr option option" where
  "zslFirstInLexRange cmp rng = (\<lambda>(H, z). do {
     b \<leftarrow> zslIsInLexRange cmp rng (H, z);
     if \<not> b then Some None
     else do {
       us \<leftarrow> zsl_search H (\<lambda>_ n. \<not> zslLexValueGteMin cmp (the (zn_obj n)) rng) z;
       (forward, span) \<leftarrow> level_at H (fst (us ! 0)) 0;
       x \<leftarrow> forward;
       n \<leftarrow> H x;
       Some (if \<not> zslLexValueLteMax cmp (the (zn_obj n)) rng then None else Some x)}})"

definition zslLastInLexRange :: "(bytes \<Rightarrow> bytes \<Rightarrow> int) \<Rightarrow> zlexrangespec \<Rightarrow> 's zheap \<times> zskiplist \<Rightarrow> zaddr option option" where
  "zslLastInLexRange cmp rng = (\<lambda>(H, z). do {
     b \<leftarrow> zslIsInLexRange cmp rng (H, z);
     if \<not> b then Some None
     else do {
       us \<leftarrow> zsl_search H (\<lambda>_ n. zslLexValueLteMax cmp (the (zn_obj n)) rng) z;
       let x = fst (us ! 0);
       n \<leftarrow> H x;
       obj \<leftarrow> zn_obj n;
       Some (if \<not> zslLexValueGteMin cmp obj rng then None else Some x)}})"

definition zslDeleteRangeByLex ::
  "(bytes \<Rightarrow> bytes \<Rightarrow> int) \<Rightarrow> zlexrangespec \<Rightarrow> 's zheap \<times> zskiplist \<times> (bytes \<rightharpoonup> 's) \<Rightarrow> ('s zheap \<times> zskiplist \<times> (bytes \<rightharpoonup> 's) \<times> nat) option" where
  "zslDeleteRangeByLex cmp rng =
     zsl_delete_range (\<lambda>_ n. \<not> zslLexValueGteMin cmp (the (zn_obj n)) rng) (\<lambda>_ n. zslLexValueLteMax cmp (the (zn_obj n)) rng)"

end
