(* ===== verification/SkiplistInv.thy ===== *)
theory SkiplistInv
  imports Skiplist
begin

text \<open>
  The invariant of the skip list and the correctness of its descent.  The nodes form one sequence; the
  forward pointer of a node at level \<open>i\<close> is the next node of the sequence that is higher than \<open>i\<close>, its span is
  the distance to it, or to the end of the sequence if there is none.
\<close>

section \<open>Heights, forward pointers and spans\<close>

abbreviation node :: "'s zheap \<Rightarrow> zaddr \<Rightarrow> 's zskiplistNode" where
  "node H x \<equiv> the (H x)"

definition height :: "'s zheap \<Rightarrow> zaddr \<Rightarrow> nat" where
  "height H x = length (zn_level (node H x))"

definition cell :: "'s zheap \<Rightarrow> zaddr \<Rightarrow> nat \<Rightarrow> zlevel" where
  "cell H x i = zn_level (node H x) ! i"

definition fwd :: "(zaddr \<Rightarrow> nat) \<Rightarrow> nat \<Rightarrow> zaddr list \<Rightarrow> zaddr option" where
  "fwd h i xs = find (\<lambda>y. i < h y) xs"

definition spn :: "(zaddr \<Rightarrow> nat) \<Rightarrow> nat \<Rightarrow> zaddr list \<Rightarrow> nat" where
  "spn h i xs = (let k = length (takeWhile (\<lambda>y. h y \<le> i) xs) in if k < length xs then Suc k else k)"

definition above :: "(zaddr \<Rightarrow> nat) \<Rightarrow> nat \<Rightarrow> zaddr list \<Rightarrow> bool" where
  "above h i xs \<longleftrightarrow> (\<exists>y\<in>set xs. i < h y)"

lemma above_simps [simp]: "\<not> above h i []" "above h i (x # xs) \<longleftrightarrow> i < h x \<or> above h i xs"
  "above h i (xs @ ys) \<longleftrightarrow> above h i xs \<or> above h i ys"
  by (auto simp: above_def)

lemma fwd_simps [simp]: "fwd h i [] = None" "fwd h i (x # xs) = (if i < h x then Some x else fwd h i xs)"
  by (simp_all add: fwd_def)

lemma fwd_append: "fwd h i (xs @ ys) = (if above h i xs then fwd h i xs else fwd h i ys)"
  by (induction xs) auto

lemma fwd_None: "fwd h i xs = None \<longleftrightarrow> \<not> above h i xs"
  by (induction xs) auto

lemma spn_simps [simp]: "spn h i [] = 0" "spn h i (x # xs) = (if i < h x then 1 else Suc (spn h i xs))"
  by (auto simp: spn_def Let_def)

lemma spn_append: "spn h i (xs @ ys) = (if above h i xs then spn h i xs else length xs + spn h i ys)"
  by (induction xs) auto

lemma spn_le: "spn h i xs \<le> length xs"
  by (induction xs) auto

lemma spn_none: "\<not> above h i xs \<Longrightarrow> spn h i xs = length xs"
  by (induction xs) auto

lemma fwd_Some:
  assumes "fwd h i xs = Some y"
  obtains s t where "xs = s @ y # t" and "\<not> above h i s" and "i < h y" and "spn h i xs = Suc (length s)"
proof -
  have "\<exists>s t. xs = s @ y # t \<and> \<not> above h i s \<and> i < h y \<and> spn h i xs = Suc (length s)" using assms
  proof (induction xs)
    case (Cons x xs)
    show ?case
    proof (cases "i < h x")
      case True
      then show ?thesis using Cons.prems by (intro exI [of _ "[]"] exI [of _ xs]) auto
    next
      case False
      then obtain s t where "xs = s @ y # t \<and> \<not> above h i s \<and> i < h y \<and> spn h i xs = Suc (length s)" using Cons by auto
      then show ?thesis using False by (intro exI [of _ "x # s"] exI [of _ t]) auto
    qed
  qed simp
  then show thesis using that by blast
qed

lemma fwd_cong: "(\<And>x. x \<in> set xs \<Longrightarrow> h x = h' x) \<Longrightarrow> fwd h i xs = fwd h' i xs"
  by (induction xs) auto

lemma spn_cong: "(\<And>x. x \<in> set xs \<Longrightarrow> h x = h' x) \<Longrightarrow> spn h i xs = spn h' i xs"
  by (induction xs) auto

section \<open>The sequence of nodes\<close>

text \<open>The levels of a node with the nodes \<open>xs\<close> after it; the spans of the header are meaningful below the
  level of the list only.\<close>

definition links_ok :: "(zaddr \<Rightarrow> nat) \<Rightarrow> (zaddr \<Rightarrow> nat \<Rightarrow> zlevel) \<Rightarrow> nat \<Rightarrow> zaddr \<Rightarrow> zaddr list \<Rightarrow> bool" where
  "links_ok h c L x xs \<longleftrightarrow>
     (\<forall>i < h x. fst (c x i) = fwd h i xs \<and> (i < L \<longrightarrow> snd (c x i) = of_nat (spn h i xs)))"

primrec linked :: "(zaddr \<Rightarrow> nat) \<Rightarrow> (zaddr \<Rightarrow> nat \<Rightarrow> zlevel) \<Rightarrow> nat \<Rightarrow> zaddr list \<Rightarrow> bool" where
  "linked h c L [] \<longleftrightarrow> True"
| "linked h c L (x # xs) \<longleftrightarrow> links_ok h c L x xs \<and> linked h c L xs"

primrec back_ok :: "'s zheap \<Rightarrow> zaddr option \<Rightarrow> zaddr list \<Rightarrow> bool" where
  "back_ok H b [] \<longleftrightarrow> True"
| "back_ok H b (x # xs) \<longleftrightarrow> zn_backward (node H x) = b \<and> back_ok H (Some x) xs"

definition last_opt :: "'a list \<Rightarrow> 'a option" where
  "last_opt xs = (if xs = [] then None else Some (last xs))"

definition skiplist_at :: "'s zheap \<Rightarrow> zskiplist \<Rightarrow> zaddr list \<Rightarrow> bool" where
  "skiplist_at H z ns \<longleftrightarrow>
     distinct (zsl_header z # ns) \<and> set (zsl_header z # ns) \<subseteq> dom H
     \<and> linked (height H) (cell H) (zsl_level z) (zsl_header z # ns)
     \<and> height H (zsl_header z) = ZSKIPLIST_MAXLEVEL \<and> zn_obj (node H (zsl_header z)) = None
     \<and> (\<forall>x\<in>set ns. 1 \<le> height H x \<and> height H x \<le> zsl_level z \<and> zn_obj (node H x) \<noteq> None)
     \<and> 1 \<le> zsl_level z \<and> zsl_level z \<le> ZSKIPLIST_MAXLEVEL
     \<and> back_ok H None ns \<and> zsl_tail z = last_opt ns \<and> zsl_length z = length ns"

lemma linked_append: "linked h c L (xs @ x # ys) \<Longrightarrow> links_ok h c L x ys \<and> linked h c L ys"
  by (induction xs) auto

lemma level_at_cell: "x \<in> dom H \<Longrightarrow> i < height H x \<Longrightarrow> level_at H x i = Some (cell H x i)"
  by (auto simp: level_at_def height_def cell_def)

section \<open>The descent\<close>

text \<open>\<open>at_level h i pre y d\<close>: the last node of \<open>pre\<close> that is higher than \<open>i\<close> is \<open>y\<close>, at position \<open>d\<close>.\<close>

definition at_level :: "(zaddr \<Rightarrow> nat) \<Rightarrow> nat \<Rightarrow> zaddr list \<Rightarrow> zaddr \<Rightarrow> nat \<Rightarrow> bool" where
  "at_level h i pre y d \<longleftrightarrow> (\<exists>s t. pre = s @ y # t \<and> length s = d \<and> i < h y \<and> \<not> above h i t)"

text \<open>The condition of a walk holds on the nodes of \<open>s\<close>, which are at the positions after \<open>r\<close>, and on none of
  the nodes \<open>post\<close> that follow.\<close>

definition divides :: "'s zheap \<Rightarrow> (nat \<Rightarrow> 's zskiplistNode \<Rightarrow> bool) \<Rightarrow> nat \<Rightarrow> zaddr list \<Rightarrow> zaddr list \<Rightarrow> bool" where
  "divides H adv r s post \<longleftrightarrow>
     (\<forall>k<length s. adv (Suc (r + k)) (node H (s ! k)))
     \<and> (\<forall>k<length post. \<not> adv (Suc (r + length s + k)) (node H (post ! k)))"

lemma dividesI:
  "(\<And>y k. y \<in> set s \<Longrightarrow> adv k (node H y)) \<Longrightarrow> (\<And>y k. y \<in> set post \<Longrightarrow> \<not> adv k (node H y)) \<Longrightarrow> divides H adv r s post"
  by (auto simp: divides_def)

lemma divides_later: "divides H adv r (s @ y # t) post \<Longrightarrow> divides H adv (Suc (r + length s)) t post"
proof -
  assume a: "divides H adv r (s @ y # t) post"
  have "adv (Suc (Suc (r + length s) + k)) (node H (t ! k))" if "k < length t" for k
  proof -
    have "Suc (length s) + k < length (s @ y # t)" using that by simp
    then have "adv (Suc (r + (Suc (length s) + k))) (node H ((s @ y # t) ! (Suc (length s) + k)))"
      using a unfolding divides_def by blast
    then show ?thesis by (simp add: nth_append add.assoc)
  qed
  then show ?thesis using a by (simp add: divides_def add.assoc)
qed

lemma divides_here: "divides H adv r (s @ y # t) post \<Longrightarrow> adv (Suc (r + length s)) (node H y)"
proof -
  assume "divides H adv r (s @ y # t) post"
  moreover have "length s < length (s @ y # t)" by simp
  ultimately have "adv (Suc (r + length s)) (node H ((s @ y # t) ! length s))" unfolding divides_def by blast
  then show ?thesis by simp
qed

lemma divides_not: "divides H adv r s (p @ y # q) \<Longrightarrow> \<not> adv (Suc (r + length s + length p)) (node H y)"
proof -
  assume "divides H adv r s (p @ y # q)"
  moreover have "length p < length (p @ y # q)" by simp
  ultimately have "\<not> adv (Suc (r + length s + length p)) (node H ((p @ y # q) ! length p))" unfolding divides_def by blast
  then show ?thesis by simp
qed

lemma zsl_walk_correct:
  assumes "linked (height H) (cell H) L (x # s @ post)" and "set (x # s @ post) \<subseteq> dom H"
    and "i < height H x" and "i < L" and "length (s @ post) < 2 ^ 32" and "divides H adv r s post"
  shows "\<exists>y d. zsl_walk H adv i x r = Some (y, r + d) \<and> at_level (height H) i (x # s) y d"
  using assms
proof (induction "length s" arbitrary: x s r rule: less_induct)
  case less
  have l: "level_at H x i = Some (cell H x i)" using less.prems(2,3) by (intro level_at_cell) auto
  have c: "fst (cell H x i) = fwd (height H) i (s @ post)" "snd (cell H x i) = of_nat (spn (height H) i (s @ post))"
    using less.prems(1,3,4) by (simp_all add: links_ok_def)
  have sp: "unat (snd (cell H x i)) = spn (height H) i (s @ post)"
    using less.prems(5) spn_le [of "height H" i "s @ post"] unfolding c(2) by (simp add: unat_of_nat)
  show ?case
  proof (cases "above (height H) i s")
    case True
    then obtain y where y: "fwd (height H) i s = Some y" using fwd_None by (metis not_Some_eq)
    then obtain s1 t where s: "s = s1 @ y # t" "\<not> above (height H) i s1" "i < height H y" "spn (height H) i s = Suc (length s1)"
      by (rule fwd_Some)
    have y': "fst (cell H x i) = Some y" "unat (snd (cell H x i)) = Suc (length s1)"
      using c(1) sp y s(4) True by (simp_all add: fwd_append spn_append)
    obtain ny where yd: "H y = Some ny" using less.prems(2) s(1) by (auto simp: dom_def)
    have adv: "adv (r + Suc (length s1)) (node H y)" using divides_here [of H adv r s1 y t post] less.prems(6) s(1) by simp
    have ly: "linked (height H) (cell H) L (y # t @ post)" using less.prems(1) s(1) linked_append [of _ _ _ "x # s1" y "t @ post"] by simp
    have w: "zsl_walk H adv i x r = zsl_walk H adv i y (Suc (r + length s1))"
      using l y' yd adv by (subst zsl_walk.simps) (cases "cell H x i"; simp)
    have "\<exists>z d. zsl_walk H adv i y (Suc (r + length s1)) = Some (z, Suc (r + length s1) + d) \<and> at_level (height H) i (y # t) z d"
      using less.hyps [of t y "Suc (r + length s1)"] ly less.prems s divides_later [of H adv r s1 y t post] by auto
    then obtain z d where z: "zsl_walk H adv i y (Suc (r + length s1)) = Some (z, Suc (r + length s1) + d)"
      "at_level (height H) i (y # t) z d" by blast
    have "at_level (height H) i (x # s) z (Suc (length s1) + d)"
    proof -
      obtain a b where "y # t = a @ z # b" "length a = d" "i < height H z" "\<not> above (height H) i b"
        using z(2) unfolding at_level_def by blast
      then show ?thesis unfolding at_level_def s(1) by (intro exI [of _ "x # s1 @ a"] exI [of _ b]) simp
    qed
    moreover have "Suc (r + length s1) + d = r + (Suc (length s1) + d)" by simp
    ultimately show ?thesis using w z(1) by metis
  next
    case False
    have at: "at_level (height H) i (x # s) x 0" using False less.prems(3) unfolding at_level_def
      by (intro exI [of _ "[]"] exI [of _ s]) simp
    have "zsl_walk H adv i x r = Some (x, r)"
    proof (cases "fwd (height H) i post")
      case None
      then have "fst (cell H x i) = None" using c(1) False by (simp add: fwd_append)
      then show ?thesis using l by (subst zsl_walk.simps) (cases "cell H x i"; simp)
    next
      case (Some y)
      then obtain p q where p: "post = p @ y # q" "spn (height H) i post = Suc (length p)" by (rule fwd_Some)
      have y: "fst (cell H x i) = Some y" "unat (snd (cell H x i)) = length s + Suc (length p)"
        using c(1) sp Some False p(2) by (simp_all add: fwd_append spn_append)
      obtain ny where yd: "H y = Some ny" using less.prems(2) p(1) by (auto simp: dom_def)
      have "\<not> adv (Suc (r + length s + length p)) (node H y)"
        using less.prems(6) p(1) divides_not by blast
      then have "\<not> adv (r + (length s + Suc (length p))) (node H y)" using p(1) by (simp add: add.assoc)
      then show ?thesis using l y yd by (subst zsl_walk.simps) (cases "cell H x i"; simp)
    qed
    then show ?thesis using at by (metis add.right_neutral)
  qed
qed

lemma at_level_shift:
  assumes "at_level h i (x # s) y d"
  shows "at_level h i (A @ x # s) y (length A + d)"
  using assms unfolding at_level_def by (metis append.assoc length_append)

lemma at_level_unique:
  assumes "pre = A @ x # s" and "i < h x" and "\<not> above h i s" and "at_level h i pre y d"
  shows "y = x \<and> d = length A"
proof -
  obtain a t where t: "A @ x # s = a @ y # t" "length a = d" "i < h y" "\<not> above h i t"
    using assms(1,4) by (auto simp: at_level_def)
  obtain us where us: "A = a @ us \<and> us @ x # s = y # t \<or> A @ us = a \<and> x # s = us @ y # t"
    using t(1) by (auto simp: append_eq_append_conv2)
  show ?thesis using us t(2-4) assms(2,3) by (cases us) auto
qed

text \<open>One level of a descent over \<open>pre\<close>, from any of its nodes that is high enough.\<close>

lemma descend_step:
  assumes "linked (height H) (cell H) L (pre @ post)" and "set (pre @ post) \<subseteq> dom H" and "length (pre @ post) < 2 ^ 32"
    and "divides H adv 0 (tl pre) post" and "i < L" and "pre = A @ x # s" and "i < height H x"
  obtains y B t where "zsl_walk H adv i x (length A) = Some (y, length B)" and "pre = B @ y # t" and "i < height H y"
    and "at_level (height H) i pre y (length B)"
proof -
  have l: "linked (height H) (cell H) L (x # s @ post)" using assms(1,6) linked_append [of _ _ _ A x "s @ post"] by simp
  have d: "divides H adv (length A) s post"
  proof (cases A)
    case Nil
    then show ?thesis using assms(4,6) by simp
  next
    case (Cons b B)
    then show ?thesis using divides_later [of H adv 0 B x s post] assms(4,6) by simp
  qed
  obtain y e where w: "zsl_walk H adv i x (length A) = Some (y, length A + e)" "at_level (height H) i (x # s) y e"
    using zsl_walk_correct [OF l _ _ _ _ d, of i] assms by auto
  then obtain s1 t where t: "x # s = s1 @ y # t" "length s1 = e" "i < height H y" by (auto simp: at_level_def)
  have "at_level (height H) i pre y (length A + e)" unfolding assms(6) by (rule at_level_shift [OF w(2)])
  then show thesis using that [of y "A @ s1" t] w(1) t assms(6) by simp
qed

lemma zsl_descend_correct:
  assumes "linked (height H) (cell H) L (pre @ post)" and "set (pre @ post) \<subseteq> dom H" and "length (pre @ post) < 2 ^ 32"
    and "divides H adv 0 (tl pre) post" and "k \<le> L" and "pre = A @ x # s" and "k \<noteq> 0 \<Longrightarrow> k - 1 < height H x"
  shows "\<exists>us. zsl_descend H adv k x (length A) = Some us \<and> length us = k
    \<and> (\<forall>i<k. at_level (height H) i pre (fst (us ! i)) (snd (us ! i)))"
  using assms(5-7)
proof (induction k arbitrary: A x s)
  case (Suc i)
  obtain y B t where w: "zsl_walk H adv i x (length A) = Some (y, length B)" "pre = B @ y # t" "i < height H y"
    "at_level (height H) i pre y (length B)"
    using descend_step [OF assms(1-4) _ Suc.prems(2)] Suc.prems by (metis Suc_le_lessD diff_Suc_1 nat.distinct(1))
  obtain us where us: "zsl_descend H adv i y (length B) = Some us" "length us = i"
    "\<forall>j<i. at_level (height H) j pre (fst (us ! j)) (snd (us ! j))"
    using Suc.IH [OF _ w(2)] Suc.prems(1) w(3) by fastforce
  then show ?case using w(1,4) by (intro exI [of _ "us @ [(y, length B)]"]) (auto simp: nth_append less_Suc_eq)
qed simp

lemma zsl_search_correct:
  assumes "skiplist_at H z (s @ post)" and "length (s @ post) < 2 ^ 32 - 1" and "divides H adv 0 s post"
  shows "\<exists>us. zsl_search H adv z = Some us \<and> length us = zsl_level z
    \<and> (\<forall>i<zsl_level z. at_level (height H) i (zsl_header z # s) (fst (us ! i)) (snd (us ! i)))"
proof -
  let ?pre = "zsl_header z # s"
  have "linked (height H) (cell H) (zsl_level z) (?pre @ post)" "set (?pre @ post) \<subseteq> dom H"
    "zsl_level z - 1 < height H (zsl_header z)"
    using assms(1) by (auto simp: skiplist_at_def ZSKIPLIST_MAXLEVEL_def)
  then show ?thesis
    using zsl_descend_correct [of H "zsl_level z" ?pre post adv "zsl_level z" "[]" "zsl_header z" s] assms(2,3)
    by (simp add: zsl_search_def)
qed

end
