(* ===== verification/SkiplistUpdate.thy ===== *)
theory SkiplistUpdate
  imports SkiplistInv
begin

text \<open>
  The loops that change the levels of the nodes.  Each iteration of such a loop reads and writes the cells
  of one level only; the locale \<open>level_loop\<close> says so, and gives the cells after the loop.  The four loops of
  insertion and deletion are its instances.
\<close>

section \<open>Cells and shapes\<close>

definition shape :: "'s zskiplistNode \<Rightarrow> bytes option \<times> 's \<times> zaddr option \<times> nat" where
  "shape n = (zn_obj n, zn_score n, zn_backward n, length (zn_level n))"

definition same_shape :: "'s zheap \<Rightarrow> 's zheap \<Rightarrow> bool" where
  "same_shape H H' \<longleftrightarrow> (\<forall>y. map_option shape (H' y) = map_option shape (H y))"

lemma same_shape_refl [simp]: "same_shape H H"
  by (simp add: same_shape_def)

lemma same_shape_trans: "same_shape H H' \<Longrightarrow> same_shape H' H'' \<Longrightarrow> same_shape H H''"
  by (simp add: same_shape_def)

lemma same_shape_dom: "same_shape H H' \<Longrightarrow> dom H' = dom H"
  unfolding same_shape_def dom_def by (metis option.map_disc_iff)

lemma same_shape_node:
  assumes "same_shape H H'"
  shows "zn_obj (node H' y) = zn_obj (node H y) \<and> zn_score (node H' y) = zn_score (node H y)
    \<and> zn_backward (node H' y) = zn_backward (node H y) \<and> height H' y = height H y"
proof -
  have "map_option shape (H' y) = map_option shape (H y)" using assms by (simp add: same_shape_def)
  then show ?thesis by (cases "H y"; cases "H' y") (auto simp: shape_def height_def)
qed

lemma same_shape_height: "same_shape H H' \<Longrightarrow> height H' = height H"
  using same_shape_node by fastforce

lemma set_level_correct:
  assumes "x \<in> dom H" and "i < height H x"
  obtains H' where "set_level x i l H = Some H'" and "same_shape H H'"
    and "\<And>y j. cell H' y j = (if y = x \<and> j = i then l else cell H y j)"
proof -
  obtain n where n: "H x = Some n" using assms(1) by blast
  let ?H = "H(x \<mapsto> n\<lparr>zn_level := (zn_level n)[i := l]\<rparr>)"
  have "set_level x i l H = Some ?H" using n assms(2) by (simp add: set_level_def height_def)
  moreover have "same_shape H ?H" using n by (simp add: same_shape_def shape_def)
  moreover have "cell ?H y j = (if y = x \<and> j = i then l else cell H y j)" for y j
    using n assms(2) by (auto simp: cell_def height_def)
  ultimately show thesis using that by blast
qed

section \<open>Loops over levels\<close>

locale level_loop =
  fixes f :: "nat \<Rightarrow> 's zheap \<Rightarrow> 's zheap option"
    and g :: "nat \<Rightarrow> (zaddr \<Rightarrow> zlevel) \<Rightarrow> zaddr \<Rightarrow> zlevel"
    and ready :: "nat \<Rightarrow> 's zheap \<Rightarrow> bool"
  assumes step: "ready i H \<Longrightarrow> \<exists>H'. f i H = Some H' \<and> same_shape H H'
      \<and> (\<forall>y j. cell H' y j = (if j = i then g i (\<lambda>x. cell H x i) y else cell H y j))"
    and stable: "ready i H \<Longrightarrow> same_shape H H' \<Longrightarrow> (\<forall>y. cell H' y i = cell H y i) \<Longrightarrow> ready i H'"
begin

lemma loop:
  assumes "distinct is" and "\<forall>i\<in>set is. ready i H"
  shows "\<exists>H'. for_each f is H = Some H' \<and> same_shape H H'
    \<and> (\<forall>y j. cell H' y j = (if j \<in> set is then g j (\<lambda>x. cell H x j) y else cell H y j))"
  using assms
proof (induction "is" arbitrary: H)
  case (Cons i js)
  obtain H1 where h1: "f i H = Some H1" "same_shape H H1"
    "\<forall>y j. cell H1 y j = (if j = i then g i (\<lambda>x. cell H x i) y else cell H y j)"
    using step [of i H] Cons.prems by auto
  have rdy: "\<forall>j\<in>set js. ready j H1"
  proof
    fix j assume "j \<in> set js"
    then have "j \<noteq> i" "ready j H" using Cons.prems by auto
    then show "ready j H1" using stable [of j H H1] h1(2,3) by simp
  qed
  have "distinct js" using Cons.prems(1) by simp
  from Cons.IH [OF this rdy] obtain H2 where h2: "for_each f js H1 = Some H2" "same_shape H1 H2"
    "\<forall>y j. cell H2 y j = (if j \<in> set js then g j (\<lambda>x. cell H1 x j) y else cell H1 y j)" by blast
  have "cell H2 y j = (if j \<in> set (i # js) then g j (\<lambda>x. cell H x j) y else cell H y j)" for y j
    using h1(3) h2(3) Cons.prems(1) by (cases "j = i") auto
  then show ?case using h1(1,2) h2(1,2) same_shape_trans by auto
qed simp

end

interpretation ins: level_loop "insert_level a us"
  "\<lambda>i c y. let x = fst (us ! i); d = of_nat (snd (us ! 0)) - of_nat (snd (us ! i)) in
     if y = a then (fst (c x), snd (c x) - d) else if y = x then (Some a, d + 1) else c y"
  "\<lambda>i H. a \<in> dom H \<and> i < height H a \<and> fst (us ! i) \<in> dom H \<and> i < height H (fst (us ! i)) \<and> fst (us ! i) \<noteq> a"
  for a us
proof
  fix i and H :: "'s zheap"
  let ?x = "fst (us ! i)" and ?d = "of_nat (snd (us ! 0)) - of_nat (snd (us ! i)) :: 32 word"
  assume r: "a \<in> dom H \<and> i < height H a \<and> ?x \<in> dom H \<and> i < height H ?x \<and> ?x \<noteq> a"
  obtain H1 where h1: "set_level a i (fst (cell H ?x i), snd (cell H ?x i) - ?d) H = Some H1" "same_shape H H1"
    "\<And>y j. cell H1 y j = (if y = a \<and> j = i then (fst (cell H ?x i), snd (cell H ?x i) - ?d) else cell H y j)"
    using set_level_correct [of a H i] r by blast
  have x1: "?x \<in> dom H1" "i < height H1 ?x" using r same_shape_dom [OF h1(2)] same_shape_height [OF h1(2)] by simp_all
  obtain H2 where h2: "set_level ?x i (Some a, ?d + 1) H1 = Some H2" "same_shape H1 H2"
    "\<And>y j. cell H2 y j = (if y = ?x \<and> j = i then (Some a, ?d + 1) else cell H1 y j)"
    using set_level_correct [of ?x H1 i] x1 by blast
  have "insert_level a us i H = Some H2"
    using level_at_cell [of ?x H i] r h1(1) h2(1) by (cases "cell H ?x i") (simp add: insert_level_def Let_def)
  then show "\<exists>H'. insert_level a us i H = Some H' \<and> same_shape H H'
      \<and> (\<forall>y j. cell H' y j = (if j = i then let x = fst (us ! i); d = of_nat (snd (us ! 0)) - of_nat (snd (us ! i)) in
     if y = a then (fst (cell H x i), snd (cell H x i) - d) else if y = x then (Some a, d + 1) else cell H y i else cell H y j))"
    using h1 h2 r same_shape_trans [OF h1(2) h2(2)] by (auto simp: Let_def)
qed (use same_shape_dom same_shape_height in fastforce)

interpretation raise: level_loop "raise_level header len"
  "\<lambda>i c y. if y = header then (fst (c header), of_nat len) else c y"
  "\<lambda>i H. header \<in> dom H \<and> i < height H header"
  for header len
proof
  fix i and H :: "'s zheap"
  assume r: "header \<in> dom H \<and> i < height H header"
  obtain H1 where "set_level header i (fst (cell H header i), of_nat len) H = Some H1" "same_shape H H1"
    "\<And>y j. cell H1 y j = (if y = header \<and> j = i then (fst (cell H header i), of_nat len) else cell H y j)"
    using set_level_correct [of header H i] r by blast
  then show "\<exists>H'. raise_level header len i H = Some H' \<and> same_shape H H'
      \<and> (\<forall>y j. cell H' y j = (if j = i then if y = header then (fst (cell H header i), of_nat len) else cell H y i else cell H y j))"
    using level_at_cell [of header H i] r by (auto simp: raise_level_def split: prod.split)
qed (use same_shape_dom same_shape_height in fastforce)

interpretation bump: level_loop "bump_span us"
  "\<lambda>i c y. if y = fst (us ! i) then (fst (c y), snd (c y) + 1) else c y"
  "\<lambda>i H. fst (us ! i) \<in> dom H \<and> i < height H (fst (us ! i))"
  for us
proof
  fix i and H :: "'s zheap"
  let ?x = "fst (us ! i)"
  assume r: "?x \<in> dom H \<and> i < height H ?x"
  obtain H1 where "set_level ?x i (fst (cell H ?x i), snd (cell H ?x i) + 1) H = Some H1" "same_shape H H1"
    "\<And>y j. cell H1 y j = (if y = ?x \<and> j = i then (fst (cell H ?x i), snd (cell H ?x i) + 1) else cell H y j)"
    using set_level_correct [of ?x H i] r by blast
  then show "\<exists>H'. bump_span us i H = Some H' \<and> same_shape H H'
      \<and> (\<forall>y j. cell H' y j = (if j = i then if y = fst (us ! i) then (fst (cell H y i), snd (cell H y i) + 1) else cell H y i else cell H y j))"
    using level_at_cell [of ?x H i] r by (auto simp: bump_span_def split: prod.split)
qed (use same_shape_dom same_shape_height in fastforce)

interpretation unlink: level_loop "unlink_level x us"
  "\<lambda>i c y. let w = fst (us ! i) in if y = w then
     if fst (c w) = Some x then (fst (c x), snd (c w) + (snd (c x) - 1)) else (fst (c w), snd (c w) - 1) else c y"
  "\<lambda>i H. fst (us ! i) \<in> dom H \<and> i < height H (fst (us ! i)) \<and> (fst (cell H (fst (us ! i)) i) = Some x \<longrightarrow> x \<in> dom H \<and> i < height H x)"
  for x us
proof
  fix i and H :: "'s zheap"
  let ?w = "fst (us ! i)"
  let ?l = "if fst (cell H ?w i) = Some x then (fst (cell H x i), snd (cell H ?w i) + (snd (cell H x i) - 1))
    else (fst (cell H ?w i), snd (cell H ?w i) - 1)"
  assume r: "?w \<in> dom H \<and> i < height H ?w \<and> (fst (cell H ?w i) = Some x \<longrightarrow> x \<in> dom H \<and> i < height H x)"
  obtain H1 where "set_level ?w i ?l H = Some H1" "same_shape H H1"
    "\<And>y j. cell H1 y j = (if y = ?w \<and> j = i then ?l else cell H y j)"
    using set_level_correct [of ?w H i] r by blast
  moreover have "unlink_level x us i H = set_level ?w i ?l H"
    using level_at_cell [of ?w H i] level_at_cell [of x H i] r
    by (cases "cell H ?w i"; cases "cell H x i"; cases "fst (cell H ?w i) = Some x") (simp_all add: unlink_level_def Let_def)
  ultimately show "\<exists>H'. unlink_level x us i H = Some H' \<and> same_shape H H'
      \<and> (\<forall>y j. cell H' y j = (if j = i then let w = fst (us ! i) in if y = w then
     if fst (cell H w i) = Some x then (fst (cell H x i), snd (cell H w i) + (snd (cell H x i) - 1)) else (fst (cell H w i), snd (cell H w i) - 1)
     else cell H y i else cell H y j))"
    by (auto simp: Let_def)
qed (use same_shape_dom same_shape_height in fastforce)

section \<open>The sequence after an insertion\<close>

lemma linked_iff: "linked h c L xs \<longleftrightarrow> (\<forall>A x s. xs = A @ x # s \<longrightarrow> links_ok h c L x s)"
proof (induction xs)
  case (Cons y ys)
  then show ?case by (auto simp: Cons_eq_append_conv)
qed simp

lemma at_level_here:
  assumes "at_level h i pre x d" and "pre = A @ x # s" and "distinct pre"
  shows "d = length A \<and> \<not> above h i s"
proof -
  obtain B t where t: "pre = B @ x # t" "length B = d" "\<not> above h i t" using assms(1) by (auto simp: at_level_def)
  have "x \<notin> set A" "x \<notin> set s" using assms(2,3) by auto
  then have "A = B \<and> s = t" using assms(2) t(1) append_Cons_eq_iff [of x A s B t] by simp
  then show ?thesis using t by blast
qed

text \<open>What an insertion of \<open>a\<close> with height \<open>lev\<close> between \<open>pre\<close> and \<open>post\<close> does to the heights \<open>h\<close> and the cells
  \<open>c\<close>, when \<open>x\<close> and \<open>d\<close> are the nodes and ranks of the descent.\<close>

definition inserted :: "(zaddr \<Rightarrow> nat) \<Rightarrow> (zaddr \<Rightarrow> nat) \<Rightarrow> (zaddr \<Rightarrow> nat \<Rightarrow> zlevel) \<Rightarrow> (zaddr \<Rightarrow> nat \<Rightarrow> zlevel) \<Rightarrow>
  nat \<Rightarrow> nat \<Rightarrow> zaddr list \<Rightarrow> zaddr list \<Rightarrow> zaddr \<Rightarrow> (nat \<Rightarrow> zaddr) \<Rightarrow> (nat \<Rightarrow> nat) \<Rightarrow> bool" where
  "inserted h h' c c' L lev pre post a x d \<longleftrightarrow>
     linked h c L (pre @ post) \<and> distinct (pre @ post) \<and> a \<notin> set (pre @ post)
     \<and> h' a = lev \<and> (\<forall>y\<in>set (pre @ post). h' y = h y) \<and> (\<forall>y\<in>set (tl pre @ post). h y \<le> L)
     \<and> (\<forall>i<max lev L. at_level h i pre (x i) (d i))
     \<and> (\<forall>y\<in>set pre. \<forall>i. c' y i =
          (if i < lev \<and> y = x i then (Some a, of_nat (length pre - 1 - d i) + 1)
           else if lev \<le> i \<and> i < L \<and> y = x i then (fst (c y i), snd (c y i) + 1) else c y i))
     \<and> (\<forall>i<lev. c' a i = (fst (c (x i) i),
          (if i < L then snd (c (x i) i) else of_nat (length (pre @ post) - 1)) - of_nat (length pre - 1 - d i)))
     \<and> (\<forall>y\<in>set post. \<forall>i. c' y i = c y i)"

lemma insertedD:
  assumes "inserted h h' c c' L lev pre post a x d"
  shows "linked h c L (pre @ post)" and "distinct (pre @ post)" and "a \<notin> set (pre @ post)"
    and "h' a = lev" and "y \<in> set (pre @ post) \<Longrightarrow> h' y = h y" and "y \<in> set (tl pre @ post) \<Longrightarrow> h y \<le> L"
    and "i < max lev L \<Longrightarrow> at_level h i pre (x i) (d i)"
    and "y \<in> set pre \<Longrightarrow> c' y i =
      (if i < lev \<and> y = x i then (Some a, of_nat (length pre - 1 - d i) + 1)
       else if lev \<le> i \<and> i < L \<and> y = x i then (fst (c y i), snd (c y i) + 1) else c y i)"
    and "i < lev \<Longrightarrow> c' a i = (fst (c (x i) i),
      (if i < L then snd (c (x i) i) else of_nat (length (pre @ post) - 1)) - of_nat (length pre - 1 - d i))"
    and "y \<in> set post \<Longrightarrow> c' y i = c y i"
  using assms unfolding inserted_def by blast+

lemma inserted_same:
  assumes "inserted h h' c c' L lev pre post a x d" and "set xs \<subseteq> set (pre @ post)"
  shows "fwd h' i xs = fwd h i xs" and "spn h' i xs = spn h i xs" and "above h' i xs = above h i xs"
  using insertedD(5) [OF assms(1)] assms(2) by (auto intro!: fwd_cong spn_cong simp: above_def subset_iff)

lemma insert_pre_links:
  assumes ins: "inserted h h' c c' L lev pre post a x d" and pre: "pre = A @ y # s"
  shows "links_ok h' c' (max lev L) y (s @ a # post)"
  unfolding links_ok_def
proof (intro allI impI)
  note old = insertedD(1) [OF ins] and dist = insertedD(2) [OF ins] and heights = insertedD(4,5) [OF ins]
    and low = insertedD(6) [OF ins] and at = insertedD(7) [OF ins] and pre_cells = insertedD(8) [OF ins]
  fix i assume "i < h' y"
  have y: "y \<in> set pre" using pre by simp
  then have i: "i < h y" using \<open>i < h' y\<close> heights(2) by simp
  have lo: "fst (c y i) = fwd h i (s @ post)" "i < L \<Longrightarrow> snd (c y i) = of_nat (spn h i (s @ post))"
    using old pre i linked_append [of h c L A y "s @ post"] by (simp_all add: links_ok_def)
  have sub: "set s \<subseteq> set (pre @ post)" "set post \<subseteq> set (pre @ post)" using pre by auto
  note sames = inserted_same [OF ins sub(1)] inserted_same [OF ins sub(2)]
  show "fst (c' y i) = fwd h' i (s @ a # post) \<and> (i < max lev L \<longrightarrow> snd (c' y i) = of_nat (spn h' i (s @ a # post)))"
  proof (cases "above h i s")
    case True
    have "y \<noteq> x i" if "i < max lev L" using at_level_here [OF at [OF that]] pre True dist by auto
    then have "c' y i = c y i" using pre_cells [OF y, of i] by (auto simp: less_max_iff_disj)
    moreover have "i < L"
    proof -
      obtain z where "z \<in> set s" "i < h z" using True by (auto simp: above_def)
      moreover from this have "z \<in> set (tl pre @ post)" using pre by (cases A) auto
      ultimately show ?thesis using low by fastforce
    qed
    ultimately show ?thesis using lo True sames by (simp add: fwd_append spn_append)
  next
    case False
    show ?thesis
    proof (cases "i < max lev L")
      case True
      then have xi: "x i = y" "d i = length A" using at_level_unique [OF pre i False at [OF True]] by auto
      have len: "length pre - 1 - d i = length s" using pre xi by simp
      show ?thesis
      proof (cases "i < lev")
        case il: True
        then have "c' y i = (Some a, of_nat (length s) + 1)" using pre_cells [OF y, of i] xi(1) len by simp
        then show ?thesis using False sames il heights(1) by (simp add: fwd_append spn_append add.commute)
      next
        case nl: False
        then have "i < L" using True by simp
        then have "c' y i = (fst (c y i), snd (c y i) + 1)" using pre_cells [OF y, of i] xi(1) nl by simp
        then show ?thesis using lo \<open>i < L\<close> False sames nl heights(1) by (simp add: fwd_append spn_append)
      qed
    next
      case il: False
      then have "c' y i = c y i" using pre_cells [OF y, of i] by auto
      then show ?thesis using lo(1) False sames il heights(1) by (simp add: fwd_append less_max_iff_disj)
    qed
  qed
qed

lemma insert_new_links:
  assumes ins: "inserted h h' c c' L lev pre post a x d"
  shows "links_ok h' c' (max lev L) a post"
  unfolding links_ok_def insertedD(4) [OF ins]
proof (intro allI impI)
  note old = insertedD(1) [OF ins] and low = insertedD(6) [OF ins] and at = insertedD(7) [OF ins]
    and new_cells = insertedD(9) [OF ins]
  fix i assume i: "i < lev"
  obtain B t where B: "pre = B @ x i # t" "length B = d i" "i < h (x i)" "\<not> above h i t"
    using at [of i, unfolded at_level_def] i by fastforce
  have len: "length pre - 1 - d i = length t" using B by simp
  have lo: "fst (c (x i) i) = fwd h i (t @ post)" "i < L \<Longrightarrow> snd (c (x i) i) = of_nat (spn h i (t @ post))"
    using old B linked_append [of h c L B "x i" "t @ post"] by (simp_all add: links_ok_def)
  have sub: "set post \<subseteq> set (pre @ post)" by auto
  have "snd (c' a i) = of_nat (spn h i post)"
  proof (cases "i < L")
    case True
    then show ?thesis using new_cells [OF i] lo(2) B(4) len by (simp add: spn_append)
  next
    case False
    have "B = []"
    proof (rule ccontr)
      assume "B \<noteq> []"
      then have "x i \<in> set (tl pre @ post)" using B(1) by (cases B) auto
      then show False using low B(3) False by fastforce
    qed
    then have "length (pre @ post) - 1 = length t + length post" using B(1) by simp
    moreover have "\<not> above h i post" using low False by (fastforce simp: above_def)
    ultimately show ?thesis using new_cells [OF i] False len by (simp add: spn_none)
  qed
  then show "fst (c' a i) = fwd h' i post \<and> (i < max lev L \<longrightarrow> snd (c' a i) = of_nat (spn h' i post))"
    using new_cells [OF i] lo(1) B(4) inserted_same [OF ins sub] by (simp add: fwd_append)
qed

lemma insert_post_links:
  assumes ins: "inserted h h' c c' L lev pre post a x d" and "post = B @ y # s"
  shows "links_ok h' c' (max lev L) y s"
proof -
  have "links_ok h c L y s" using insertedD(1) [OF ins] assms(2) linked_append [of h c L "pre @ B" y s] by simp
  moreover have "y \<in> set post" "h y \<le> L" "h' y = h y" "set s \<subseteq> set (pre @ post)" using assms(2) insertedD(5,6) [OF ins] by auto
  ultimately show ?thesis using inserted_same [OF ins, of s] insertedD(10) [OF ins] by (auto simp: links_ok_def)
qed

lemma linked_insert:
  assumes ins: "inserted h h' c c' L lev pre post a x d"
  shows "linked h' c' (max lev L) (pre @ a # post)"
  unfolding linked_iff
proof (intro allI impI)
  fix A y s assume e: "pre @ a # post = A @ y # s"
  then consider (pre) t where "pre = A @ y # t" "s = t @ a # post" | (new) "y = a" "s = post"
    | (post) B where "post = B @ y # s"
    by (auto simp: append_eq_append_conv2 Cons_eq_append_conv append_eq_Cons_conv)
  then show "links_ok h' c' (max lev L) y s"
    by cases (use insert_pre_links [OF ins] insert_new_links [OF ins] insert_post_links [OF ins] in auto)
qed

section \<open>The sequence after a deletion\<close>

lemma linked_delete:
  assumes old: "linked h c L (pre @ x # post)" and dist: "distinct (pre @ x # post)" and low: "h x \<le> L"
    and at: "\<And>i. i < L \<Longrightarrow> at_level h i pre (w i) (d i)"
    and cells: "\<And>y i. y \<in> set (pre @ post) \<Longrightarrow> c' y i = (if i < L \<and> y = w i then
      if fst (c y i) = Some x then (fst (c x i), snd (c y i) + (snd (c x i) - 1)) else (fst (c y i), snd (c y i) - 1)
      else c y i)"
    and tall: "\<And>y. y \<in> set (tl pre) \<Longrightarrow> h y \<le> L"
  shows "linked h c' L (pre @ post)"
  unfolding linked_iff
proof (intro allI impI)
  fix A y s assume e: "pre @ post = A @ y # s"
  have xl: "links_ok h c L x post" using linked_append [OF old] by simp
  consider (pre) t where "pre = A @ y # t" "s = t @ post" | (post) B where "post = B @ y # s"
    using e by (auto simp: append_eq_append_conv2 Cons_eq_append_conv append_eq_Cons_conv)
  then show "links_ok h c' L y s"
  proof cases
    case post
    have "\<not> (i < L \<and> y = w i)" for i
    proof
      assume "i < L \<and> y = w i"
      then have "y \<in> set pre" using at [of i] by (auto simp: at_level_def)
      then show False using dist post by auto
    qed
    then have "c' y i = c y i" for i using cells [of y i] post by auto
    moreover have "links_ok h c L y s" using old post linked_append [of h c L "pre @ x # B" y s] by simp
    ultimately show ?thesis by (simp add: links_ok_def)
  next
    case pre
    have y: "y \<in> set (pre @ post)" using pre by simp
    show ?thesis unfolding links_ok_def
    proof (intro allI impI)
      fix i assume i: "i < h y"
      have lo: "fst (c y i) = fwd h i (t @ x # post)" "i < L \<Longrightarrow> snd (c y i) = of_nat (spn h i (t @ x # post))"
        using old pre i linked_append [of h c L A y "t @ x # post"] by (simp_all add: links_ok_def)
      show "fst (c' y i) = fwd h i s \<and> (i < L \<longrightarrow> snd (c' y i) = of_nat (spn h i s))"
      proof (cases "i < L \<and> \<not> above h i t")
        case True
        then have "w i = y" using at_level_unique [OF pre(1) i _ at] by auto
        then have c': "c' y i = (if fst (c y i) = Some x then (fst (c x i), snd (c y i) + (snd (c x i) - 1))
            else (fst (c y i), snd (c y i) - 1))" using cells [OF y, of i] True by simp
        have "fwd h i post \<noteq> Some x"
        proof
          assume "fwd h i post = Some x"
          then obtain p q where "post = p @ x # q" by (rule fwd_Some)
          then show False using dist by simp
        qed
        then show ?thesis using c' lo True xl pre(2)
          by (cases "i < h x") (auto simp: links_ok_def fwd_append spn_append)
      next
        case False
        have "\<not> (i < L \<and> y = w i)"
        proof
          assume a: "i < L \<and> y = w i"
          then have "at_level h i pre y (d i)" using at by auto
          then show False using at_level_here [of h i pre y "d i" A t] pre(1) dist False a by auto
        qed
        then have c': "c' y i = c y i" using cells [OF y, of i] by auto
        show ?thesis
        proof (cases "i < L")
          case True
          then show ?thesis using c' lo False pre(2) by (simp add: fwd_append spn_append)
        next
          case nl: False
          then show ?thesis using c' lo(1) low pre(2) by (simp add: fwd_append)
        qed
      qed
    qed
  qed
qed

lemma linked_lower: "linked h c L xs \<Longrightarrow> L' \<le> L \<Longrightarrow> linked h c L' xs"
  by (induction xs) (auto simp: links_ok_def)

end
