(* ===== verification/SkiplistOps.thy ===== *)
theory SkiplistOps
  imports SkiplistUpdate
begin

text \<open>
  Insertion and deletion keep the invariant of the skip list and change its sequence of nodes at one place.
\<close>

section \<open>Backward pointers\<close>

definition same_levels :: "'s zheap \<Rightarrow> 's zheap \<Rightarrow> bool" where
  "same_levels H H' \<longleftrightarrow> dom H' = dom H \<and> height H' = height H \<and> cell H' = cell H
     \<and> (\<forall>y. zn_obj (node H' y) = zn_obj (node H y) \<and> zn_score (node H' y) = zn_score (node H y))"

lemma set_backward_correct:
  assumes "x \<in> dom H"
  obtains H' where "set_backward x b H = Some H'" and "same_levels H H'"
    and "\<And>y. zn_backward (node H' y) = (if y = x then b else zn_backward (node H y))"
proof -
  obtain n where n: "H x = Some n" using assms by blast
  let ?H = "H(x \<mapsto> n\<lparr>zn_backward := b\<rparr>)"
  have "same_levels H ?H" unfolding same_levels_def
    using n by (auto simp: height_def cell_def fun_eq_iff)
  moreover have "zn_backward (node ?H y) = (if y = x then b else zn_backward (node H y))" for y using n by simp
  ultimately show thesis using that n by (simp add: set_backward_def)
qed

lemma back_ok_append: "back_ok H b (xs @ ys) \<longleftrightarrow> back_ok H b xs \<and> back_ok H (if xs = [] then b else Some (last xs)) ys"
  by (induction xs arbitrary: b) auto

lemma back_ok_cong:
  "back_ok H b xs \<Longrightarrow> (\<And>x. x \<in> set xs \<Longrightarrow> zn_backward (node H' x) = zn_backward (node H x)) \<Longrightarrow> back_ok H' b xs"
  by (induction xs arbitrary: b) auto

section \<open>Insertion\<close>

text \<open>The descent, extended by the levels that the list did not have.\<close>

lemma descent_levels:
  assumes sl: "skiplist_at H z (s @ post)" and us0: "length us0 = zsl_level z"
    "\<forall>i<zsl_level z. at_level (height H) i (zsl_header z # s) (fst (us0 ! i)) (snd (us0 ! i))"
    and us: "us = us0 @ replicate (level - zsl_level z) (zsl_header z, 0)" and lev: "level \<le> ZSKIPLIST_MAXLEVEL"
  shows "\<And>i. i < max level (zsl_level z) \<Longrightarrow> at_level (height H) i (zsl_header z # s) (fst (us ! i)) (snd (us ! i))"
    and "\<And>i. zsl_level z \<le> i \<Longrightarrow> i < level \<Longrightarrow> us ! i = (zsl_header z, 0)"
    and "snd (us ! 0) = length s" and "fst (us ! 0) = last (zsl_header z # s)"
proof -
  let ?h = "zsl_header z"
  show new: "us ! i = (?h, 0)" if "zsl_level z \<le> i" "i < level" for i using that us us0(1) by (simp add: nth_append)
  show at: "at_level (height H) i (?h # s) (fst (us ! i)) (snd (us ! i))" if i: "i < max level (zsl_level z)" for i
  proof (cases "i < zsl_level z")
    case True
    then show ?thesis using us0 us by (simp add: nth_append)
  next
    case False
    have "\<forall>y\<in>set s. height H y \<le> zsl_level z" using sl by (simp add: skiplist_at_def)
    then have "\<not> above (height H) i s" using False by (fastforce simp: above_def)
    moreover have "i < height H ?h" using sl lev i False by (simp add: skiplist_at_def)
    ultimately have "at_level (height H) i (?h # s) ?h 0" unfolding at_level_def by (intro exI [of _ "[]"] exI [of _ s]) simp
    then show ?thesis using new [of i] i False by simp
  qed
  have "0 < max level (zsl_level z)" using sl by (auto simp: skiplist_at_def)
  from at [OF this] obtain A t where t: "?h # s = A @ fst (us ! 0) # t" "length A = snd (us ! 0)" "\<not> above (height H) 0 t"
    unfolding at_level_def by blast
  have "set t \<subseteq> set (s @ post)" using t(1) by (cases A) auto
  moreover have "\<forall>y\<in>set (s @ post). 0 < height H y" using sl by (simp add: skiplist_at_def Suc_le_eq)
  ultimately have "t = []" using t(3) by (cases t) auto
  then show "snd (us ! 0) = length s" "fst (us ! 0) = last (?h # s)" using t(1,2) by (metis length_Cons length_append_singleton nat.inject, metis last_snoc)
qed

lemma insert_cells:
  assumes sl: "skiplist_at H z (s @ post)" and fresh: "a \<notin> dom H" and lev: "level \<le> ZSKIPLIST_MAXLEVEL"
    and at: "\<And>i. i < max level (zsl_level z) \<Longrightarrow> at_level (height H) i (zsl_header z # s) (fst (us ! i)) (snd (us ! i))"
    and new: "\<And>i. zsl_level z \<le> i \<Longrightarrow> i < level \<Longrightarrow> us ! i = (zsl_header z, 0)" and r0: "snd (us ! 0) = length s"
  shows "\<exists>H1 H3 H4. for_each (raise_level (zsl_header z) (zsl_length z)) [zsl_level z ..< level] H = Some H1
    \<and> for_each (insert_level a us) [0 ..< level] (H1(a \<mapsto> zslCreateNode u level score (Some obj))) = Some H3
    \<and> for_each (bump_span us) [level ..< max level (zsl_level z)] H3 = Some H4
    \<and> inserted (height H) (height H4) (cell H) (cell H4) (zsl_level z) level (zsl_header z # s) post a (\<lambda>i. fst (us ! i)) (\<lambda>i. snd (us ! i))
    \<and> same_shape (H(a \<mapsto> zslCreateNode u level score (Some obj))) H4"
proof -
  let ?h = "zsl_header z" and ?L = "zsl_level z" and ?n = "zslCreateNode u level score (Some obj)"
  have hd: "?h \<in> dom H" "height H ?h = ZSKIPLIST_MAXLEVEL" and len: "zsl_length z = length (s @ post)"
    and sub: "set (?h # s @ post) \<subseteq> dom H" and dist: "distinct (?h # s @ post)"
    using sl by (auto simp: skiplist_at_def)
  have xi: "fst (us ! i) \<in> set (?h # s)" "i < height H (fst (us ! i))" "snd (us ! i) \<le> length s" if "i < max level ?L" for i
    using at [OF that] by (auto simp: at_level_def Cons_eq_append_conv)
  then have xd: "fst (us ! i) \<in> dom H" "fst (us ! i) \<noteq> a" if "i < max level ?L" for i
    using that sub fresh by (metis (no_types) Un_iff set_append append_Cons subsetD)+
  obtain H1 where h1: "for_each (raise_level ?h (zsl_length z)) [?L ..< level] H = Some H1" "same_shape H H1"
    "\<And>y j. cell H1 y j = (if j \<in> set [?L ..< level] then if y = ?h then (fst (cell H ?h j), of_nat (zsl_length z)) else cell H y j else cell H y j)"
    using raise.loop [of "[?L ..< level]" ?h H "zsl_length z"] hd lev by auto
  define H2 where "H2 = H1(a \<mapsto> ?n)"
  have d2: "dom H2 = insert a (dom H)" using same_shape_dom [OF h1(2)] by (auto simp: H2_def)
  have ht2: "height H2 y = (if y = a then level else height H y)" for y
    using same_shape_height [OF h1(2)] by (simp add: H2_def height_def zslCreateNode_def fun_eq_iff)
  have c2: "cell H2 y j = cell H1 y j" if "y \<noteq> a" for y j using that by (simp add: H2_def cell_def)
  have s2: "same_shape (H(a \<mapsto> ?n)) H2" using h1(2) by (simp add: H2_def same_shape_def)
  obtain H3 where h3: "for_each (insert_level a us) [0 ..< level] H2 = Some H3" "same_shape H2 H3"
    "\<And>y j. cell H3 y j = (if j \<in> set [0 ..< level] then let x = fst (us ! j); d = of_nat (snd (us ! 0)) - of_nat (snd (us ! j)) in
       if y = a then (fst (cell H2 x j), snd (cell H2 x j) - d) else if y = x then (Some a, d + 1) else cell H2 y j else cell H2 y j)"
    using ins.loop [of "[0 ..< level]" a H2 us] d2 ht2 xi(2) xd by auto
  obtain H4 where h4: "for_each (bump_span us) [level ..< max level ?L] H3 = Some H4" "same_shape H3 H4"
    "\<And>y j. cell H4 y j = (if j \<in> set [level ..< max level ?L] then if y = fst (us ! j) then (fst (cell H3 y j), snd (cell H3 y j) + 1)
       else cell H3 y j else cell H3 y j)"
    using bump.loop [of "[level ..< max level ?L]" us H3] same_shape_dom [OF h3(2)] same_shape_height [OF h3(2)] d2 ht2 xi(2) xd by auto
  have s4: "same_shape H2 H4" by (rule same_shape_trans [OF h3(2) h4(2)])
  have ht4: "height H4 y = (if y = a then level else height H y)" for y using same_shape_height [OF s4] ht2 by simp
  have dif: "of_nat (snd (us ! 0)) - of_nat (snd (us ! i)) = (of_nat (length (?h # s) - 1 - snd (us ! i)) :: 32 word)"
    if "i < max level ?L" for i using xi(3) [OF that] r0 by (simp add: of_nat_diff)
  have "inserted (height H) (height H4) (cell H) (cell H4) ?L level (?h # s) post a (\<lambda>i. fst (us ! i)) (\<lambda>i. snd (us ! i))"
    unfolding inserted_def
  proof (intro conjI ballI allI impI)
    show "linked (height H) (cell H) ?L ((?h # s) @ post)" "distinct ((?h # s) @ post)" using sl by (simp_all add: skiplist_at_def)
    show "a \<notin> set ((?h # s) @ post)" using fresh sub by auto
    show "height H4 a = level" by (simp add: ht4)
    show "height H4 y = height H y" if "y \<in> set ((?h # s) @ post)" for y using that ht4 fresh sub by auto
    show "height H y \<le> ?L" if "y \<in> set (tl (?h # s) @ post)" for y using that sl by (auto simp: skiplist_at_def)
    show "at_level (height H) i (?h # s) (fst (us ! i)) (snd (us ! i))" if "i < max level ?L" for i using at that by simp
    show "cell H4 y i = cell H y i" if y: "y \<in> set post" for y i
    proof -
      have "y \<noteq> a" "y \<noteq> ?h" "y \<notin> set s" using y fresh sub dist by auto
      moreover from this have "y \<noteq> fst (us ! i)" if "i < max level ?L" using xi(1) [OF that] by auto
      ultimately show ?thesis using h1(3) h3(3) h4(3) c2 by (auto simp: Let_def less_max_iff_disj)
    qed
    show "cell H4 a i = (fst (cell H (fst (us ! i)) i), (if i < ?L then snd (cell H (fst (us ! i)) i)
        else of_nat (length ((?h # s) @ post) - 1)) - of_nat (length (?h # s) - 1 - snd (us ! i)))" if i: "i < level" for i
    proof -
      have i': "i < max level ?L" using i by simp
      have "cell H4 a i = cell H3 a i" using h4(3) i by simp
      also have "\<dots> = (fst (cell H1 (fst (us ! i)) i), snd (cell H1 (fst (us ! i)) i) - of_nat (length (?h # s) - 1 - snd (us ! i)))"
        using h3(3) [of a i] i c2 [OF xd(2) [OF i']] dif [OF i'] by (simp add: Let_def)
      finally show ?thesis using h1(3) [of "fst (us ! i)" i] new [of i] i len by (cases "i < ?L") auto
    qed
    show "cell H4 y i = (if i < level \<and> y = fst (us ! i) then (Some a, of_nat (length (?h # s) - 1 - snd (us ! i)) + 1)
        else if level \<le> i \<and> i < ?L \<and> y = fst (us ! i) then (fst (cell H y i), snd (cell H y i) + 1) else cell H y i)"
      if y: "y \<in> set (?h # s)" for y i
    proof -
      have ya: "y \<noteq> a" using y fresh sub by auto
      show ?thesis
      proof (cases "i < level")
        case True
        then have i': "i < max level ?L" by simp
        have "cell H4 y i = cell H3 y i" using h4(3) True by simp
        also have "\<dots> = (if y = fst (us ! i) then (Some a, of_nat (length (?h # s) - 1 - snd (us ! i)) + 1) else cell H1 y i)"
          using h3(3) [of y i] True ya c2 [OF ya] dif [OF i'] by (simp add: Let_def)
        finally show ?thesis using True h1(3) [of y i] new [of i] by (cases "i < ?L") auto
      next
        case False
        then have "cell H3 y i = cell H y i" using h3(3) [of y i] h1(3) [of y i] c2 [OF ya] by simp
        then show ?thesis using h4(3) [of y i] False by (auto simp: less_max_iff_disj)
      qed
    qed
  qed
  then show ?thesis using h1(1) h3(1) h4(1) same_shape_trans [OF s2 s4] unfolding H2_def by blast
qed

lemma zslInsert_correct:
  assumes sl: "skiplist_at H z (s @ post)" and fresh: "a \<notin> dom H" and lev: "1 \<le> level" "level \<le> ZSKIPLIST_MAXLEVEL"
    and len: "length (s @ post) < 2 ^ 32 - 1"
    and less: "\<forall>y\<in>set s. node_less (node H y) score obj" and geq: "\<forall>y\<in>set post. \<not> node_less (node H y) score obj"
  shows "\<exists>H' z'. zslInsert u level a score obj (H, z) = Some (H', z') \<and> skiplist_at H' z' (s @ a # post)
    \<and> zsl_header z' = zsl_header z \<and> dom H' = insert a (dom H)
    \<and> zn_score (node H' a) = score \<and> zn_obj (node H' a) = Some obj
    \<and> (\<forall>y. y \<noteq> a \<longrightarrow> zn_score (node H' y) = zn_score (node H y) \<and> zn_obj (node H' y) = zn_obj (node H y))"
proof -
  let ?h = "zsl_header z" and ?L = "zsl_level z" and ?n = "zslCreateNode u level score (Some obj)"
  have "divides H (\<lambda>_ n. node_less n score obj) 0 s post" using less geq by (simp add: divides_def)
  then obtain us0 where us0: "zsl_search H (\<lambda>_ n. node_less n score obj) z = Some us0" "length us0 = ?L"
    "\<forall>i<?L. at_level (height H) i (?h # s) (fst (us0 ! i)) (snd (us0 ! i))"
    using zsl_search_correct [OF sl len] by blast
  define us where "us = us0 @ replicate (level - ?L) (?h, 0)"
  note dl = descent_levels [OF sl us0(2,3) us_def lev(2)]
  obtain H1 H3 H4 where h: "for_each (raise_level ?h (zsl_length z)) [?L ..< level] H = Some H1"
    "for_each (insert_level a us) [0 ..< level] (H1(a \<mapsto> ?n)) = Some H3"
    "for_each (bump_span us) [level ..< max level ?L] H3 = Some H4"
    and ins: "inserted (height H) (height H4) (cell H) (cell H4) ?L level (?h # s) post a (\<lambda>i. fst (us ! i)) (\<lambda>i. snd (us ! i))"
    and sh: "same_shape (H(a \<mapsto> ?n)) H4"
    using insert_cells [OF sl fresh lev(2) dl(1-3)] by blast
  have lk: "linked (height H4) (cell H4) (max level ?L) ((?h # s) @ a # post)" by (rule linked_insert [OF ins])
  have d4: "dom H4 = insert a (dom H)" using same_shape_dom [OF sh] by simp
  have n4: "zn_obj (node H4 y) = (if y = a then Some obj else zn_obj (node H y))"
    "zn_score (node H4 y) = (if y = a then score else zn_score (node H y))"
    "y \<noteq> a \<Longrightarrow> zn_backward (node H4 y) = zn_backward (node H y)"
    "height H4 y = (if y = a then level else height H y)" for y
    using same_shape_node [OF sh, of y] by (auto simp: zslCreateNode_def height_def)
  let ?b = "if fst (us ! 0) = ?h then None else Some (fst (us ! 0))"
  have a4: "a \<in> dom H4" using d4 by simp
  obtain H5 where h5: "set_backward a ?b H4 = Some H5" "same_levels H4 H5"
    "\<And>y. zn_backward (node H5 y) = (if y = a then ?b else zn_backward (node H4 y))"
    using set_backward_correct [OF a4] by blast
  have "?h \<notin> set s" using sl by (simp add: skiplist_at_def)
  then have "s \<noteq> [] \<Longrightarrow> last s \<noteq> ?h" by (metis last_in_set)
  then have b: "?b = (if s = [] then None else Some (last s))" using dl(4) by (cases "s = []") simp_all
  have al: "links_ok (height H4) (cell H4) (max level ?L) a post" using linked_append [OF lk] by simp
  then have "fst (cell H4 a 0) = fwd (height H4) 0 post" using n4(4) lev(1) by (simp add: links_ok_def)
  moreover have "level_at H5 a 0 = Some (cell H4 a 0)"
    using level_at_cell [of a H5 0] h5(2) n4(4) lev(1) a4 by (simp add: same_levels_def)
  ultimately have "level_at H5 a 0 = Some (fwd (height H4) 0 post, snd (cell H4 a 0))" by (simp add: prod_eq_iff)
  moreover have "fwd (height H4) 0 post = (case post of [] \<Rightarrow> None | y # ys \<Rightarrow> Some y)"
    using sl n4(4) fresh by (cases post) (auto simp: skiplist_at_def)
  ultimately have la: "level_at H5 a 0 = Some (case post of [] \<Rightarrow> None | y # ys \<Rightarrow> Some y, snd (cell H4 a 0))" by simp
  have bk: "back_ok H5 None (s @ [a])" using sl h5(3) n4(3) b fresh
    by (auto simp: skiplist_at_def back_ok_append intro!: back_ok_cong [of H None s H5])
  have run: "zslInsert u level a score obj (H, z) = (case post of
      [] \<Rightarrow> Some (H5, z\<lparr>zsl_level := max level ?L, zsl_tail := Some a, zsl_length := zsl_length z + 1\<rparr>)
    | y # ys \<Rightarrow> Option.bind (set_backward y (Some a) H5)
        (\<lambda>H6. Some (H6, z\<lparr>zsl_level := max level ?L, zsl_length := zsl_length z + 1\<rparr>)))"
    by (simp only: zslInsert_def prod.case us0(1) bind.bind_lunit Let_def us_def [symmetric] h h5(1) la) (cases post; simp)
  show ?thesis
  proof (cases post)
    case Nil
    let ?z = "z\<lparr>zsl_level := max level ?L, zsl_tail := Some a, zsl_length := zsl_length z + 1\<rparr>"
    have "zslInsert u level a score obj (H, z) = Some (H5, ?z)"
      using run Nil by simp
    moreover have "skiplist_at H5 ?z (s @ a # post)"
      using sl lk h5(2) bk lev d4 n4 Nil fresh by (auto simp: skiplist_at_def same_levels_def last_opt_def less_max_iff_disj le_max_iff_disj)
    ultimately show ?thesis using h5(2) d4 n4 by (intro exI [of _ H5] exI [of _ ?z]) (simp add: same_levels_def)
  next
    case (Cons p ps)
    let ?z = "z\<lparr>zsl_level := max level ?L, zsl_length := zsl_length z + 1\<rparr>"
    have p: "p \<in> dom H5" "p \<noteq> a" "p \<notin> set s" "p \<notin> set ps" "a \<notin> set ps" "a \<notin> set s"
      using sl Cons h5(2) d4 fresh by (auto simp: skiplist_at_def same_levels_def)
    obtain H6 where h6: "set_backward p (Some a) H5 = Some H6" "same_levels H5 H6"
      "\<And>y. zn_backward (node H6 y) = (if y = p then Some a else zn_backward (node H5 y))"
      using set_backward_correct [OF p(1)] by blast
    have "zslInsert u level a score obj (H, z) = Some (H6, ?z)"
      using run Cons h6(1) by simp
    moreover have "back_ok H6 None (s @ a # post)"
    proof -
      have "back_ok H6 None (s @ [a])" using bk h6(3) p by (auto intro: back_ok_cong)
      moreover have "back_ok H (Some p) ps" using sl Cons by (auto simp: skiplist_at_def back_ok_append)
      then have "back_ok H6 (Some p) ps" using h6(3) h5(3) n4(3) p by (auto intro!: back_ok_cong [of H "Some p" ps H6])
      ultimately show ?thesis using h6(3) Cons by (simp add: back_ok_append)
    qed
    then have "skiplist_at H6 ?z (s @ a # post)"
      using sl lk h5(2) h6(2) lev d4 n4 Cons fresh
      by (auto simp: skiplist_at_def same_levels_def last_opt_def less_max_iff_disj le_max_iff_disj)
    ultimately show ?thesis using h5(2) h6(2) d4 n4 by (intro exI [of _ H6] exI [of _ ?z]) (simp add: same_levels_def)
  qed
qed

section \<open>Deletion\<close>

lemma linked_cong:
  "linked h c L xs \<Longrightarrow> (\<And>x. x \<in> set xs \<Longrightarrow> h' x = h x \<and> c' x = c x) \<Longrightarrow> linked h' c' L xs"
proof (induction xs)
  case (Cons y ys)
  then have "fwd h' i ys = fwd h i ys" "spn h' i ys = spn h i ys" for i by (auto intro!: fwd_cong spn_cong)
  then show ?case using Cons by (auto simp: links_ok_def)
qed simp

lemma skiplist_at_cong:
  assumes "skiplist_at H z ns" and "\<And>y. y \<in> set (zsl_header z # ns) \<Longrightarrow> H' y = H y"
  shows "skiplist_at H' z ns"
proof -
  have e: "height H' y = height H y \<and> cell H' y = cell H y" if "y \<in> set (zsl_header z # ns)" for y
    using assms(2) [OF that] by (auto simp: height_def cell_def)
  have "linked (height H') (cell H') (zsl_level z) (zsl_header z # ns)"
  proof (rule linked_cong)
    show "linked (height H) (cell H) (zsl_level z) (zsl_header z # ns)" using assms(1) by (simp add: skiplist_at_def)
  qed (rule e)
  moreover have "back_ok H' None ns"
  proof (rule back_ok_cong)
    show "back_ok H None ns" using assms(1) by (simp add: skiplist_at_def)
    show "zn_backward (node H' x) = zn_backward (node H x)" if "x \<in> set ns" for x using assms(2) [of x] that by simp
  qed
  moreover have "set (zsl_header z # ns) \<subseteq> dom H'"
  proof
    fix y assume y: "y \<in> set (zsl_header z # ns)"
    then have "y \<in> dom H" using assms(1) by (auto simp: skiplist_at_def)
    then show "y \<in> dom H'" using assms(2) [OF y] by (simp add: domIff)
  qed
  ultimately show ?thesis using assms e by (simp add: skiplist_at_def)
qed

lemma lower_level_correct:
  assumes "x \<in> dom H" and "height H x = ZSKIPLIST_MAXLEVEL" and "\<And>i. i < ZSKIPLIST_MAXLEVEL \<Longrightarrow> fst (cell H x i) = fwd h i ns"
    and "1 \<le> l" and "l \<le> ZSKIPLIST_MAXLEVEL" and "\<forall>y\<in>set ns. h y \<le> l"
  shows "\<exists>l'. lower_level H x l = Some l' \<and> 1 \<le> l' \<and> l' \<le> l \<and> (\<forall>y\<in>set ns. h y \<le> l')"
  using assms(4-6)
proof (induction l)
  case (Suc l)
  obtain f sp where c: "cell H x l = (f, sp)" by force
  have la: "level_at H x l = Some (f, sp)" "f = fwd h l ns"
    using level_at_cell [of x H l] assms(1-2) assms(3) [of l] Suc.prems(2) c by simp_all
  show ?case
  proof (cases "1 < Suc l \<and> fwd h l ns = None")
    case True
    have "\<forall>y\<in>set ns. h y \<le> l" using True by (auto simp: fwd_None above_def not_less)
    then obtain l' where "lower_level H x l = Some l'" "1 \<le> l'" "l' \<le> l" "\<forall>y\<in>set ns. h y \<le> l'" using Suc True by auto
    moreover have "lower_level H x (Suc l) = lower_level H x l"
      using True la by (subst lower_level.simps) simp
    ultimately show ?thesis by auto
  next
    case False
    then have "lower_level H x (Suc l) = Some (Suc l)"
      using la by (subst lower_level.simps) auto
    then show ?thesis using Suc.prems by auto
  qed
qed simp

lemma at_level_cong:
  "(\<And>y. y \<in> set pre \<Longrightarrow> h' y = h y) \<Longrightarrow> at_level h i pre x d \<Longrightarrow> at_level h' i pre x d"
proof -
  assume h: "\<And>y. y \<in> set pre \<Longrightarrow> h' y = h y" and "at_level h i pre x d"
  then obtain s t where t: "pre = s @ x # t" "length s = d" "i < h x" "\<not> above h i t" by (auto simp: at_level_def)
  then have "i < h' x" "\<not> above h' i t" using h by (auto simp: above_def)
  then show ?thesis using t unfolding at_level_def by blast
qed

definition found_at :: "'s zheap \<Rightarrow> zskiplist \<Rightarrow> zaddr list \<Rightarrow> (zaddr \<times> nat) list \<Rightarrow> bool" where
  "found_at H z s us \<longleftrightarrow> zsl_level z \<le> length us
     \<and> (\<forall>i<zsl_level z. at_level (height H) i (zsl_header z # s) (fst (us ! i)) (snd (us ! i)))"

lemma unlink_cells:
  assumes sl: "skiplist_at H z (s @ x # post)" and us: "found_at H z s us"
  shows "\<exists>H1. for_each (unlink_level x us) [0 ..< zsl_level z] H = Some H1 \<and> same_shape H H1
    \<and> cell H1 x = cell H x \<and> linked (height H) (cell H1) (zsl_level z) (zsl_header z # s @ post)"
proof -
  let ?h = "zsl_header z" and ?L = "zsl_level z"
  have sub: "set (?h # s @ x # post) \<subseteq> dom H" and dist: "distinct ((?h # s) @ x # post)"
    and old: "linked (height H) (cell H) ?L ((?h # s) @ x # post)" using sl by (simp_all add: skiplist_at_def)
  have at: "at_level (height H) i (?h # s) (fst (us ! i)) (snd (us ! i))" if "i < ?L" for i using us that by (simp add: found_at_def)
  have w: "fst (us ! i) \<in> set (?h # s)" "i < height H (fst (us ! i))" if "i < ?L" for i
    using at [OF that] by (auto simp: at_level_def Cons_eq_append_conv)
  have wd: "fst (us ! i) \<in> dom H" "fst (us ! i) \<noteq> x" if "i < ?L" for i using w(1) [OF that] sub dist by auto
  have fx: "i < height H x" if i: "i < ?L" "fst (cell H (fst (us ! i)) i) = Some x" for i
  proof -
    obtain A t where t: "?h # s = A @ fst (us ! i) # t" using at [OF i(1)] by (auto simp: at_level_def)
    have "fwd (height H) i (t @ x # post) = Some x"
      using linked_append [of "height H" "cell H" ?L A "fst (us ! i)" "t @ x # post"] old t i w(2) [OF i(1)]
      by (simp add: links_ok_def)
    then show ?thesis by (rule fwd_Some)
  qed
  obtain H1 where h1: "for_each (unlink_level x us) [0 ..< ?L] H = Some H1" "same_shape H H1"
    "\<And>y j. cell H1 y j = (if j \<in> set [0 ..< ?L] then let w = fst (us ! j) in if y = w then
       if fst (cell H w j) = Some x then (fst (cell H x j), snd (cell H w j) + (snd (cell H x j) - 1))
       else (fst (cell H w j), snd (cell H w j) - 1) else cell H y j else cell H y j)"
    using unlink.loop [of "[0 ..< ?L]" us H x] w wd fx sub by auto
  have "cell H1 x = cell H x" using h1(3) wd(2) by (auto simp: fun_eq_iff Let_def)
  moreover have "linked (height H) (cell H1) ?L ((?h # s) @ post)"
  proof (rule linked_delete [OF old dist _ at])
    show "height H x \<le> ?L" using sl by (simp add: skiplist_at_def)
    show "cell H1 y i = (if i < ?L \<and> y = fst (us ! i) then
      if fst (cell H y i) = Some x then (fst (cell H x i), snd (cell H y i) + (snd (cell H x i) - 1)) else (fst (cell H y i), snd (cell H y i) - 1)
      else cell H y i)" for y i using h1(3) [of y i] by (auto simp: Let_def)
    show "height H y \<le> ?L" if "y \<in> set (tl (?h # s))" for y using that sl by (simp add: skiplist_at_def)
  qed
  ultimately show ?thesis using h1(1,2) by auto
qed

lemma zslDeleteNode_correct:
  assumes sl: "skiplist_at H z (s @ x # post)" and us: "found_at H z s us"
  shows "\<exists>H' z'. zslDeleteNode x us (H, z) = Some (H', z') \<and> skiplist_at (zslFreeNode x H') z' (s @ post)
    \<and> zsl_header z' = zsl_header z \<and> found_at (zslFreeNode x H') z' s us
    \<and> dom (zslFreeNode x H') = dom H - {x}
    \<and> (\<forall>y. y \<noteq> x \<longrightarrow> zn_score (node (zslFreeNode x H') y) = zn_score (node H y) \<and> zn_obj (node (zslFreeNode x H') y) = zn_obj (node H y))"
proof -
  let ?h = "zsl_header z" and ?L = "zsl_level z"
  obtain H1 where h1: "for_each (unlink_level x us) [0 ..< ?L] H = Some H1" "same_shape H H1" "cell H1 x = cell H x"
    and lk: "linked (height H) (cell H1) ?L (?h # s @ post)"
    using unlink_cells [OF sl us] by blast
  have x: "x \<in> dom H" "1 \<le> height H x" "x \<noteq> ?h" "x \<notin> set s" "x \<notin> set post" using sl by (auto simp: skiplist_at_def)
  have ht: "height H1 = height H" and d1: "dom H1 = dom H" using same_shape_height [OF h1(2)] same_shape_dom [OF h1(2)] by auto
  have n1: "zn_obj (node H1 y) = zn_obj (node H y)" "zn_score (node H1 y) = zn_score (node H y)"
    "zn_backward (node H1 y) = zn_backward (node H y)" for y using same_shape_node [OF h1(2), of y] by auto
  obtain n where n: "H1 x = Some n" using x(1) d1 by blast
  have bx: "zn_backward n = (if s = [] then None else Some (last s))"
    using sl n1(3) [of x] n by (auto simp: skiplist_at_def back_ok_append)
  have "fst (cell H x 0) = fwd (height H) 0 post"
    using linked_append [of "height H" "cell H" ?L "?h # s" x post] sl x(2) by (simp add: skiplist_at_def links_ok_def)
  also have "\<dots> = (case post of [] \<Rightarrow> None | y # ys \<Rightarrow> Some y)" using sl by (cases post) (auto simp: skiplist_at_def)
  finally have lx: "level_at H1 x 0 = Some (case post of [] \<Rightarrow> None | y # ys \<Rightarrow> Some y, snd (cell H x 0))"
    using level_at_cell [of x H1 0] x(1,2) d1 ht h1(3) by (simp add: prod_eq_iff)
  obtain H2 z2 where h2: "(case (case post of [] \<Rightarrow> None | y # ys \<Rightarrow> Some y) of
        Some y \<Rightarrow> Option.bind (set_backward y (zn_backward n) H1) (\<lambda>H2. Some (H2, z))
      | None \<Rightarrow> Some (H1, z\<lparr>zsl_tail := zn_backward n\<rparr>)) = Some (H2, z2)" "same_levels H1 H2" "back_ok H2 None (s @ post)"
    "zsl_header z2 = ?h" "zsl_level z2 = ?L" "zsl_tail z2 = last_opt (s @ post)"
  proof (cases post)
    case Nil
    have "back_ok H1 None s" using sl n1(3) by (auto simp: skiplist_at_def back_ok_append intro: back_ok_cong)
    then show thesis using that [of H1 "z\<lparr>zsl_tail := zn_backward n\<rparr>"] Nil bx by (simp add: same_levels_def last_opt_def)
  next
    case (Cons p ps)
    have p: "p \<in> dom H1" "p \<notin> set s" "p \<notin> set ps" using sl Cons d1 by (auto simp: skiplist_at_def)
    obtain H2 where h2: "set_backward p (zn_backward n) H1 = Some H2" "same_levels H1 H2"
      "\<And>y. zn_backward (node H2 y) = (if y = p then zn_backward n else zn_backward (node H1 y))"
      using set_backward_correct [OF p(1)] by blast
    have "back_ok H None s" "back_ok H (Some p) ps" using sl Cons by (auto simp: skiplist_at_def back_ok_append)
    then have "back_ok H2 None s" "back_ok H2 (Some p) ps" using h2(3) n1(3) p by (auto intro!: back_ok_cong [of H _ _ H2])
    then have "back_ok H2 None (s @ post)" using Cons h2(3) bx by (simp add: back_ok_append)
    moreover have "zsl_tail z = last_opt (s @ post)" using sl Cons by (simp add: skiplist_at_def last_opt_def)
    ultimately show thesis using that [of H2 z] Cons h2(1,2) by simp
  qed
  have l2: "dom H2 = dom H" "height H2 = height H" "cell H2 = cell H1" using h2(2) d1 ht by (simp_all add: same_levels_def)
  have "\<exists>l. lower_level H2 ?h ?L = Some l \<and> 1 \<le> l \<and> l \<le> ?L \<and> (\<forall>y\<in>set (s @ post). height H y \<le> l)"
  proof (rule lower_level_correct)
    show "fst (cell H2 ?h i) = fwd (height H) i (s @ post)" if "i < ZSKIPLIST_MAXLEVEL" for i
      using lk l2 that sl by (simp add: links_ok_def skiplist_at_def)
  qed (use sl l2 in \<open>simp_all add: skiplist_at_def\<close>)
  then obtain l where l: "lower_level H2 ?h ?L = Some l" "1 \<le> l" "l \<le> ?L" "\<forall>y\<in>set (s @ post). height H y \<le> l" by blast
  let ?z = "z2\<lparr>zsl_level := l, zsl_length := zsl_length z - 1\<rparr>"
  have run: "zslDeleteNode x us (H, z) = Some (H2, ?z)"
    by (simp only: zslDeleteNode_def prod.case h1(1) bind.bind_lunit n lx h2(1) l(1))
  have "skiplist_at H2 ?z (s @ post)"
    using sl linked_lower [OF lk l(3)] l2 h2 l n1(1) by (auto simp: skiplist_at_def same_levels_def)
  then have "skiplist_at (zslFreeNode x H2) ?z (s @ post)"
    by (rule skiplist_at_cong) (use x h2 in \<open>auto simp: zslFreeNode_def\<close>)
  moreover have "found_at (zslFreeNode x H2) ?z s us"
  proof -
    have "height (zslFreeNode x H2) y = height H y" if "y \<in> set (?h # s)" for y
    proof -
      have "y \<noteq> x" using that x by auto
      then have "height (zslFreeNode x H2) y = height H2 y" by (simp add: height_def zslFreeNode_def)
      then show ?thesis using l2 by simp
    qed
    then show ?thesis using us l(3) h2(4) at_level_cong [of "?h # s" "height (zslFreeNode x H2)" "height H"]
      by (simp add: found_at_def)
  qed
  ultimately show ?thesis using run h2(2,4) l2(1) n1 unfolding zslFreeNode_def
    by (intro exI [of _ H2] exI [of _ ?z]) (auto simp: same_levels_def)
qed

end
