(* ===== verification/SkiplistFind.thy ===== *)
theory SkiplistFind
  imports SkiplistOps
begin

text \<open>
  What the searches of the skip list find: the rank of a member, the member of a rank, the first and the last
  member of a range, and the deletion of a run of members.
\<close>

section \<open>The order of the members\<close>

lemma byte_less_trans: "byte_less xs ys \<Longrightarrow> byte_less ys zs \<Longrightarrow> byte_less xs zs"
proof (induction xs ys arbitrary: zs rule: byte_less.induct)
  case (1 a as b bs)
  then show ?case by (cases zs) auto
next
  case (2 b bs)
  then show ?case by (cases zs) auto
qed auto

lemma byte_less_irrefl' [simp]: "\<not> byte_less xs xs"
  by (induction xs) auto

lemma byte_less_total: "xs \<noteq> ys \<Longrightarrow> byte_less xs ys \<or> byte_less ys xs"
proof (induction xs ys rule: byte_less.induct)
  case (3 xs)
  then show ?case by (cases xs) auto
qed (auto simp: neq_iff)

definition key_less :: "'s::linorder \<times> bytes \<Rightarrow> 's \<times> bytes \<Rightarrow> bool" where
  "key_less a b \<longleftrightarrow> fst a < fst b \<or> fst a = fst b \<and> byte_less (snd a) (snd b)"

lemma key_less_irrefl [simp]: "\<not> key_less a a"
  by (simp add: key_less_def)

lemma key_less_trans: "key_less a b \<Longrightarrow> key_less b c \<Longrightarrow> key_less a c"
  by (auto simp: key_less_def intro: byte_less_trans)

lemma key_less_total: "a \<noteq> b \<Longrightarrow> key_less a b \<or> key_less b a"
  using byte_less_total by (cases a; cases b) (auto simp: key_less_def)

definition elem :: "'s zheap \<Rightarrow> zaddr \<Rightarrow> 's \<times> bytes" where
  "elem H x = (zn_score (node H x), the (zn_obj (node H x)))"

lemma node_less_elem: "node_less (node H x) score obj \<longleftrightarrow> key_less (elem H x) (score, obj)"
  by (simp add: node_less_def key_less_def elem_def)

section \<open>Ranks\<close>

lemma skiplist_at_facts:
  assumes "skiplist_at H z (s @ post)"
  shows "linked (height H) (cell H) (zsl_level z) ((zsl_header z # s) @ post)" and "set ((zsl_header z # s) @ post) \<subseteq> dom H"
    and "zsl_level z \<le> height H (zsl_header z)" and "1 \<le> zsl_level z"
  using assms by (simp_all add: skiplist_at_def)

text \<open>At level zero the descent ends at the last node before the division.\<close>

lemma at_level_zero:
  assumes "skiplist_at H z (s @ post)" and "at_level (height H) 0 (zsl_header z # s) y d"
  shows "y = last (zsl_header z # s) \<and> d = length s"
proof -
  obtain A t where t: "zsl_header z # s = A @ y # t" "length A = d" "\<not> above (height H) 0 t" using assms(2) by (auto simp: at_level_def)
  have "set t \<subseteq> set (s @ post)" using t(1) by (cases A) auto
  moreover have "\<forall>y\<in>set (s @ post). 0 < height H y" using assms(1) by (simp add: skiplist_at_def Suc_le_eq)
  ultimately have "t = []" using t(3) by (cases t) auto
  then show ?thesis using t(1,2) by (metis last_snoc length_Cons length_append_singleton nat.inject)
qed

lemma search_step:
  assumes "skiplist_at H z (s @ post)" and "length (s @ post) < 2 ^ 32 - 1" and "divides H adv 0 s post"
    and "i < zsl_level z" and "zsl_header z # s = A @ w # t" and "i < height H w"
  obtains y B u n where "zsl_walk H adv i w (length A) = Some (y, length B)" and "zsl_header z # s = B @ y # u" and "i < height H y"
    and "at_level (height H) i (zsl_header z # s) y (length B)" and "H y = Some n"
proof -
  note f = skiplist_at_facts [OF assms(1)]
  have "length ((zsl_header z # s) @ post) < 2 ^ 32" using assms(2) by simp
  moreover have "divides H adv 0 (tl (zsl_header z # s)) post" using assms(3) by simp
  ultimately obtain y B u where "zsl_walk H adv i w (length A) = Some (y, length B)" "zsl_header z # s = B @ y # u" "i < height H y"
    "at_level (height H) i (zsl_header z # s) y (length B)"
    using descend_step [OF f(1,2) _ _ assms(4-6)] by metis
  moreover from this have "y \<in> dom H" using f(2) by (auto simp: subset_iff)
  ultimately show thesis using that by blast
qed

lemma zslGetRank_loop_found:
  assumes sl: "skiplist_at H z ((s @ [x]) @ post)" and len: "length ((s @ [x]) @ post) < 2 ^ 32 - 1"
    and dv: "divides H (\<lambda>_ n. node_less n score obj \<or> zn_score n = score \<and> zn_obj n = Some obj) 0 (s @ [x]) post"
    and x: "zn_obj (node H x) = Some obj" and dist: "\<forall>y\<in>set s. zn_obj (node H y) \<noteq> Some obj"
    and k: "k \<le> zsl_level z" "0 < k" and pre: "zsl_header z # s @ [x] = A @ w # t" "k - 1 < height H w"
  shows "zslGetRank_loop H score obj k w (length A) = Some (Suc (length s))"
  using k pre
proof (induction k arbitrary: A w t)
  case (Suc i)
  let ?adv = "\<lambda>_ n. node_less n score obj \<or> zn_score n = score \<and> zn_obj n = Some obj"
  have i: "i < zsl_level z" "i < height H w" using Suc.prems by auto
  obtain y B u n where w: "zsl_walk H ?adv i w (length A) = Some (y, length B)" "zsl_header z # s @ [x] = B @ y # u"
    "i < height H y" "at_level (height H) i (zsl_header z # s @ [x]) y (length B)" "H y = Some n"
    by (rule search_step [OF sl len dv i(1) Suc.prems(3) i(2)])
  show ?case
  proof (cases "y = x")
    case True
    have "x \<notin> set (zsl_header z # s)" using sl by (auto simp: skiplist_at_def)
    moreover have "(zsl_header z # s) @ x # [] = B @ x # u" using w(2) True by simp
    ultimately have "B = zsl_header z # s" using append_Cons_eq_iff [of x "zsl_header z # s" "[]" B u] by simp
    then show ?thesis using w(1,5) True x by simp
  next
    case False
    have "zn_obj (node H (zsl_header z)) = None" using sl by (simp add: skiplist_at_def)
    moreover have "y \<in> set (zsl_header z # s @ [x])" using w(2) by simp
    ultimately have "zn_obj n \<noteq> Some obj" using False dist w(5) by auto
    moreover have i: "i \<noteq> 0"
    proof
      assume "i = 0"
      then have "y = x" using at_level_zero [OF sl] w(4) by simp
      then show False using False by simp
    qed
    moreover have "zslGetRank_loop H score obj i y (length B) = Some (Suc (length s))"
      using Suc.IH [of B y u] w(2,3) Suc.prems(1) i by auto
    ultimately show ?thesis using w(1,5) by simp
  qed
qed simp

lemma zslGetRank_loop_absent:
  assumes sl: "skiplist_at H z (s @ post)" and len: "length (s @ post) < 2 ^ 32 - 1"
    and dv: "divides H (\<lambda>_ n. node_less n score obj \<or> zn_score n = score \<and> zn_obj n = Some obj) 0 s post"
    and absent: "\<forall>y\<in>set s. zn_obj (node H y) \<noteq> Some obj"
    and k: "k \<le> zsl_level z" and pre: "zsl_header z # s = A @ w # t" "k \<noteq> 0 \<Longrightarrow> k - 1 < height H w"
  shows "zslGetRank_loop H score obj k w (length A) = Some 0"
  using k pre
proof (induction k arbitrary: A w t)
  case (Suc i)
  let ?adv = "\<lambda>_ n. node_less n score obj \<or> zn_score n = score \<and> zn_obj n = Some obj"
  have i: "i < zsl_level z" "i < height H w" using Suc.prems by auto
  obtain y B u n where w: "zsl_walk H ?adv i w (length A) = Some (y, length B)" "zsl_header z # s = B @ y # u"
    "i < height H y" "at_level (height H) i (zsl_header z # s) y (length B)" "H y = Some n"
    by (rule search_step [OF sl len dv i(1) Suc.prems(2) i(2)])
  have "zn_obj (node H (zsl_header z)) = None" using sl by (simp add: skiplist_at_def)
  moreover have "y \<in> set (zsl_header z # s)" using w(2) by simp
  ultimately have "zn_obj n \<noteq> Some obj" using absent w(5) by auto
  moreover have "zslGetRank_loop H score obj i y (length B) = Some 0"
    using Suc.IH [of B y u] w(2,3) Suc.prems(1) by auto
  ultimately show ?case using w(1,5) by simp
qed simp

text \<open>The nodes of a sorted list divide at every key.\<close>

lemma divides_key:
  assumes "sorted_wrt key_less (map (elem H) ns)"
  shows "divides H (\<lambda>_ n. node_less n score obj) r (takeWhile (\<lambda>y. key_less (elem H y) (score, obj)) ns)
    (dropWhile (\<lambda>y. key_less (elem H y) (score, obj)) ns)"
proof (rule dividesI)
  show "node_less (node H y) score obj" if "y \<in> set (takeWhile (\<lambda>y. key_less (elem H y) (score, obj)) ns)" for y
    using that by (auto simp: node_less_elem dest: set_takeWhileD)
  show "\<not> node_less (node H y) score obj" if "y \<in> set (dropWhile (\<lambda>y. key_less (elem H y) (score, obj)) ns)" for y
    using that assms
  proof (induction ns)
    case (Cons x xs)
    show ?case
    proof (cases "key_less (elem H x) (score, obj)")
      case True
      then show ?thesis using Cons by simp
    next
      case False
      then have "y = x \<or> key_less (elem H x) (elem H y)" using Cons.prems by auto
      then show ?thesis using False key_less_trans [of "elem H x" "elem H y" "(score, obj)"] by (auto simp: node_less_elem)
    qed
  qed simp
qed

lemma zslGetRank_correct:
  assumes sl: "skiplist_at H z ns" and len: "length ns < 2 ^ 32 - 1" and ord: "sorted_wrt key_less (map (elem H) ns)"
    and dist: "distinct (map (snd \<circ> elem H) ns)"
  shows "ns = s @ x # post \<Longrightarrow> elem H x = (score, obj) \<Longrightarrow> zslGetRank score obj (H, z) = Some (Suc (length s))"
    and "obj \<notin> snd ` elem H ` set ns \<Longrightarrow> zslGetRank score obj (H, z) = Some 0"
proof -
  have objs: "\<forall>y\<in>set ns. zn_obj (node H y) = Some (snd (elem H y))" using sl by (auto simp: skiplist_at_def elem_def)
  have ld: "zsl_level z - 1 < height H (zsl_header z)" "1 \<le> zsl_level z" using sl by (auto simp: skiplist_at_def)
  show "zslGetRank score obj (H, z) = Some (Suc (length s))" if ns: "ns = s @ x # post" and x: "elem H x = (score, obj)"
  proof -
    have "divides H (\<lambda>_ n. node_less n score obj \<or> zn_score n = score \<and> zn_obj n = Some obj) 0 (s @ [x]) post"
    proof (rule dividesI)
      show "node_less (node H y) score obj \<or> zn_score (node H y) = score \<and> zn_obj (node H y) = Some obj"
        if y: "y \<in> set (s @ [x])" for y
      proof (cases "y = x")
        case True
        have "zn_obj (node H x) = Some (snd (elem H x))" using objs ns by (metis in_set_conv_decomp)
        then show ?thesis using x True by (simp add: elem_def)
      next
        case False
        then have "key_less (elem H y) (elem H x)" using y ord ns by (simp add: sorted_wrt_append)
        then show ?thesis using x by (simp add: node_less_elem)
      qed
      show "\<not> (node_less (node H y) score obj \<or> zn_score (node H y) = score \<and> zn_obj (node H y) = Some obj)"
        if "y \<in> set post" for y
      proof -
        have "key_less (score, obj) (elem H y)" using that ord x ns by (auto simp: sorted_wrt_append)
        then show ?thesis using key_less_trans [of "(score, obj)" "elem H y" "(score, obj)"]
          by (auto simp: node_less_elem elem_def key_less_def)
      qed
    qed
    then show ?thesis
      using zslGetRank_loop_found [of H z s x post score obj "zsl_level z" "[]" "zsl_header z" "s @ [x]"] sl len ns x objs dist ld
      by (auto simp: zslGetRank_def image_iff)
  qed
  show "zslGetRank score obj (H, z) = Some 0" if no: "obj \<notin> snd ` elem H ` set ns"
  proof -
    let ?s = "takeWhile (\<lambda>y. key_less (elem H y) (score, obj)) ns" and ?p = "dropWhile (\<lambda>y. key_less (elem H y) (score, obj)) ns"
    have ab: "\<forall>y\<in>set ns. zn_obj (node H y) \<noteq> Some obj" using no objs by (metis image_eqI option.inject)
    have dv: "divides H (\<lambda>_ n. node_less n score obj) 0 ?s ?p" by (rule divides_key [OF ord])
    have "divides H (\<lambda>_ n. node_less n score obj \<or> zn_score n = score \<and> zn_obj n = Some obj) 0 ?s ?p"
      using dv ab unfolding divides_def by (metis nth_mem set_dropWhileD)
    then show ?thesis
      using zslGetRank_loop_absent [of H z ?s ?p score obj "zsl_level z" "[]" "zsl_header z" ?s] sl len ab ld
      by (auto simp: zslGetRank_def dest: set_takeWhileD)
  qed
qed

lemma zslGetElementByRank_loop_correct:
  assumes sl: "skiplist_at H z ns" and len: "length ns < 2 ^ 32 - 1" and k: "k \<le> zsl_level z" "0 < k"
    and pre: "zsl_header z # take rank ns = A @ w # t" "k - 1 < height H w"
  shows "zslGetElementByRank_loop H rank k w (length A) =
    Some (if rank \<le> length ns then Some ((zsl_header z # ns) ! rank) else None)"
  using k pre
proof (induction k arbitrary: A w t)
  case (Suc i)
  have sl': "skiplist_at H z (take rank ns @ drop rank ns)" and len': "length (take rank ns @ drop rank ns) < 2 ^ 32 - 1"
    using sl len by simp_all
  have dv: "divides H (\<lambda>t _. t \<le> rank) 0 (take rank ns) (drop rank ns)" by (auto simp: divides_def)
  have i: "i < zsl_level z" "i < height H w" using Suc.prems by auto
  obtain y B u n where w: "zsl_walk H (\<lambda>t _. t \<le> rank) i w (length A) = Some (y, length B)" "zsl_header z # take rank ns = B @ y # u"
    "i < height H y" "at_level (height H) i (zsl_header z # take rank ns) y (length B)" "H y = Some n"
    by (rule search_step [OF sl' len' dv i(1) Suc.prems(3) i(2)])
  have lb: "length B \<le> min rank (length ns)" using arg_cong [OF w(2), of length] by (auto simp: min_def split: if_splits)
  show ?case
  proof (cases "length B = rank")
    case True
    have "(zsl_header z # take rank ns) ! rank = y" using w(2) True nth_append_length [of B y u] by simp
    moreover have "(zsl_header z # take rank ns) ! rank = (zsl_header z # ns) ! rank" by (cases rank) simp_all
    ultimately show ?thesis using w(1) True lb by simp
  next
    case False
    show ?thesis
    proof (cases i)
      case 0
      then have "length B = length (take rank ns)" using at_level_zero [OF sl'] w(4) by simp
      then have "length ns < rank" using False by simp
      then show ?thesis using w(1) False 0 by simp
    next
      case (Suc j)
      then show ?thesis using Suc.IH [of B y u] w(1-3) Suc.prems(1) False by simp
    qed
  qed
qed simp

lemma zslGetElementByRank_correct:
  assumes "skiplist_at H z ns" and "length ns < 2 ^ 32 - 1"
  shows "zslGetElementByRank rank (H, z) = Some (if rank \<le> length ns then Some ((zsl_header z # ns) ! rank) else None)"
proof -
  have "zsl_level z - 1 < height H (zsl_header z)" "0 < zsl_level z" using assms(1) by (auto simp: skiplist_at_def)
  then show ?thesis
    using zslGetElementByRank_loop_correct [OF assms, of "zsl_level z" rank "[]" "zsl_header z" "take rank ns"]
    by (simp add: zslGetElementByRank_def)
qed

section \<open>The node after a descent\<close>

lemma found_next:
  assumes "skiplist_at H z (s @ post)" and "length (s @ post) < 2 ^ 32 - 1" and "divides H adv 0 s post"
  obtains us sp where "zsl_search H adv z = Some us" and "found_at H z s us" and "fst (us ! 0) = last (zsl_header z # s)"
    and "snd (us ! 0) = length s"
    and "level_at H (fst (us ! 0)) 0 = Some (case post of [] \<Rightarrow> None | y # ys \<Rightarrow> Some y, sp)"
proof -
  obtain us where us: "zsl_search H adv z = Some us" "length us = zsl_level z"
    "\<forall>i<zsl_level z. at_level (height H) i (zsl_header z # s) (fst (us ! i)) (snd (us ! i))"
    using zsl_search_correct [OF assms] by blast
  note f = skiplist_at_facts [OF assms(1)]
  have z: "fst (us ! 0) = last (zsl_header z # s)" "snd (us ! 0) = length s"
    using at_level_zero [OF assms(1), of "fst (us ! 0)" "snd (us ! 0)"] us(3) f(4) by auto
  let ?x = "last (zsl_header z # s)"
  have e: "(zsl_header z # s) @ post = butlast (zsl_header z # s) @ ?x # post"
    using append_butlast_last_id [of "zsl_header z # s"] by simp
  have h0: "\<forall>y\<in>set (zsl_header z # s @ post). 0 < height H y" using assms(1) f(3,4) by (auto simp: skiplist_at_def Suc_le_eq)
  have xs: "?x \<in> set (zsl_header z # s)" by (rule last_in_set) simp
  have "links_ok (height H) (cell H) (zsl_level z) ?x post" using f(1) e linked_append by metis
  moreover have "0 < height H ?x" using h0 xs by auto
  ultimately have "fst (cell H ?x 0) = fwd (height H) 0 post" by (simp add: links_ok_def)
  moreover have "fwd (height H) 0 post = (case post of [] \<Rightarrow> None | y # ys \<Rightarrow> Some y)" using h0 by (cases post) auto
  moreover have "level_at H ?x 0 = Some (cell H ?x 0)" using f(2) xs h0 by (intro level_at_cell) auto
  ultimately have "level_at H (fst (us ! 0)) 0 = Some (case post of [] \<Rightarrow> None | y # ys \<Rightarrow> Some y, snd (cell H ?x 0))"
    using z(1) by (simp add: prod_eq_iff)
  then show thesis using that us z by (simp add: found_at_def)
qed

lemma zslDelete_correct:
  assumes sl: "skiplist_at H z (s @ post)" and len: "length (s @ post) < 2 ^ 32 - 1"
    and dv: "divides H (\<lambda>_ n. node_less n score obj) 0 s post"
  shows "post = x # rest \<Longrightarrow> elem H x = (score, obj) \<Longrightarrow>
      \<exists>H' z'. zslDelete score obj (H, z) = Some ((H', z'), True) \<and> skiplist_at H' z' (s @ rest) \<and> zsl_header z' = zsl_header z
        \<and> dom H' = dom H - {x} \<and> (\<forall>y. y \<noteq> x \<longrightarrow> elem H' y = elem H y)"
    and "post = [] \<or> elem H (hd post) \<noteq> (score, obj) \<Longrightarrow> zslDelete score obj (H, z) = Some ((H, z), False)"
proof -
  obtain us sp where us: "zsl_search H (\<lambda>_ n. node_less n score obj) z = Some us" "found_at H z s us"
    "fst (us ! 0) = last (zsl_header z # s)" "snd (us ! 0) = length s"
    "level_at H (fst (us ! 0)) 0 = Some (case post of [] \<Rightarrow> None | y # ys \<Rightarrow> Some y, sp)"
    by (rule found_next [OF sl len dv])
  have nodes: "\<exists>n. H y = Some n \<and> zn_obj n \<noteq> None" if "y \<in> set post" for y
  proof -
    have "y \<in> dom H" "zn_obj (node H y) \<noteq> None" using sl that by (auto simp: skiplist_at_def)
    then show ?thesis by auto
  qed
  show "\<exists>H' z'. zslDelete score obj (H, z) = Some ((H', z'), True) \<and> skiplist_at H' z' (s @ rest) \<and> zsl_header z' = zsl_header z
        \<and> dom H' = dom H - {x} \<and> (\<forall>y. y \<noteq> x \<longrightarrow> elem H' y = elem H y)"
    if p: "post = x # rest" "elem H x = (score, obj)"
  proof -
    obtain H' z' where d: "zslDeleteNode x us (H, z) = Some (H', z')" "skiplist_at (zslFreeNode x H') z' (s @ rest)"
      "zsl_header z' = zsl_header z" "dom (zslFreeNode x H') = dom H - {x}"
      "\<forall>y. y \<noteq> x \<longrightarrow> zn_score (node (zslFreeNode x H') y) = zn_score (node H y) \<and> zn_obj (node (zslFreeNode x H') y) = zn_obj (node H y)"
      using zslDeleteNode_correct [of H z s x rest us] sl us(2) p(1) by blast
    obtain n where n: "H x = Some n" "zn_obj n \<noteq> None" using nodes [of x] p(1) by auto
    then have "score = zn_score n \<and> zn_obj n = Some obj" using p(2) by (auto simp: elem_def)
    then have "zslDelete score obj (H, z) = Some ((zslFreeNode x H', z'), True)"
      using us(1,5) d(1) p(1) n(1) by (simp add: zslDelete_def)
    then show ?thesis using d by (auto simp: elem_def)
  qed
  show "zslDelete score obj (H, z) = Some ((H, z), False)" if no: "post = [] \<or> elem H (hd post) \<noteq> (score, obj)"
  proof (cases post)
    case Nil
    then show ?thesis using us(1,5) by (simp add: zslDelete_def)
  next
    case (Cons y ys)
    obtain n where n: "H y = Some n" "zn_obj n \<noteq> None" using nodes [of y] Cons by auto
    then have "\<not> (score = zn_score n \<and> zn_obj n = Some obj)" using no Cons by (auto simp: elem_def)
    then show ?thesis using us(1,5) Cons n(1) by (auto simp: zslDelete_def)
  qed
qed

section \<open>Deletion of a run\<close>

lemma level_zero:
  assumes "skiplist_at H z (s @ x # rest)"
  obtains sp where "level_at H x 0 = Some (case rest of [] \<Rightarrow> None | y # ys \<Rightarrow> Some y, sp)"
proof -
  have "links_ok (height H) (cell H) (zsl_level z) x rest"
    using assms linked_append [of "height H" "cell H" "zsl_level z" "zsl_header z # s" x rest] by (simp add: skiplist_at_def)
  moreover have h: "\<forall>y\<in>set (s @ x # rest). 0 < height H y" using assms by (simp add: skiplist_at_def Suc_le_eq)
  ultimately have "fst (cell H x 0) = fwd (height H) 0 rest" by (simp add: links_ok_def)
  moreover have "fwd (height H) 0 rest = (case rest of [] \<Rightarrow> None | y # ys \<Rightarrow> Some y)" using h by (cases rest) auto
  moreover have "level_at H x 0 = Some (cell H x 0)" using assms h by (intro level_at_cell) (auto simp: skiplist_at_def)
  ultimately show thesis using that by (metis prod.collapse)
qed

definition by_elem :: "(nat \<Rightarrow> 's zskiplistNode \<Rightarrow> bool) \<Rightarrow> bool" where
  "by_elem cond \<longleftrightarrow> (\<forall>t n n'. zn_score n = zn_score n' \<and> zn_obj n = zn_obj n' \<longrightarrow> cond t n = cond t n')"

lemma zsl_delete_run_correct:
  assumes st: "by_elem cond" and "skiplist_at H z (s @ mid @ rest)" and "found_at H z s us"
    and "\<forall>k<length mid. cond (t + k) (node H (mid ! k))" and "rest \<noteq> [] \<Longrightarrow> \<not> cond (t + length mid) (node H (hd rest))"
  shows "\<exists>H' z'. zsl_delete_run cond us (case mid @ rest of [] \<Rightarrow> None | y # ys \<Rightarrow> Some y) t H z d
      = Some (H', z', d |` (- (\<lambda>x. snd (elem H x)) ` set mid), length mid)
    \<and> skiplist_at H' z' (s @ rest) \<and> zsl_header z' = zsl_header z \<and> dom H' = dom H - set mid
    \<and> (\<forall>y. y \<notin> set mid \<longrightarrow> elem H' y = elem H y)"
  using assms(2-5)
proof (induction mid arbitrary: H z t d)
  case Nil
  have "zsl_delete_run cond us (case rest of [] \<Rightarrow> None | y # ys \<Rightarrow> Some y) t H z d = Some (H, z, d, 0)"
  proof (cases rest)
    case Nil
    then show ?thesis by (simp add: zsl_delete_run.simps)
  next
    case (Cons y ys)
    then obtain n where "H y = Some n" using Nil.prems(1) by (auto simp: skiplist_at_def)
    then show ?thesis using Cons Nil.prems(4) by (simp add: zsl_delete_run.simps)
  qed
  then show ?case using Nil.prems(1) by (simp add: restrict_map_def)
next
  case (Cons x mid)
  have sl: "skiplist_at H z (s @ x # mid @ rest)" using Cons.prems(1) by simp
  obtain sp where lz: "level_at H x 0 = Some (case mid @ rest of [] \<Rightarrow> None | y # ys \<Rightarrow> Some y, sp)" by (rule level_zero [OF sl])
  obtain n where n: "H x = Some n" using sl by (auto simp: skiplist_at_def)
  obtain H1 z1 where d1: "zslDeleteNode x us (H, z) = Some (H1, z1)" "skiplist_at (zslFreeNode x H1) z1 (s @ mid @ rest)"
    "zsl_header z1 = zsl_header z" "found_at (zslFreeNode x H1) z1 s us" "dom (zslFreeNode x H1) = dom H - {x}"
    "\<forall>y. y \<noteq> x \<longrightarrow> zn_score (node (zslFreeNode x H1) y) = zn_score (node H y) \<and> zn_obj (node (zslFreeNode x H1) y) = zn_obj (node H y)"
    using zslDeleteNode_correct [OF sl Cons.prems(2)] by blast
  let ?H = "zslFreeNode x H1"
  have dist: "x \<notin> set mid" "x \<notin> set rest" using sl by (auto simp: skiplist_at_def)
  have same: "cond k (node ?H y) = cond k (node H y)" if "y \<noteq> x" for y k using st d1(6) that unfolding by_elem_def by blast
  have el: "elem ?H y = elem H y" if "y \<noteq> x" for y using d1(6) that by (simp add: elem_def)
  have c1: "\<forall>k<length mid. cond (Suc t + k) (node ?H (mid ! k))"
  proof (intro allI impI)
    fix k assume k: "k < length mid"
    have "cond (t + Suc k) (node H ((x # mid) ! Suc k))" using Cons.prems(3) k by (metis Suc_less_eq length_Cons)
    moreover have "mid ! k \<noteq> x" using dist(1) k by (metis nth_mem)
    ultimately show "cond (Suc t + k) (node ?H (mid ! k))" using same by simp
  qed
  have c2: "\<not> cond (Suc t + length mid) (node ?H (hd rest))" if r: "rest \<noteq> []"
  proof -
    have "hd rest \<noteq> x" using dist(2) r by (metis hd_in_set)
    then show ?thesis using Cons.prems(4) [OF r] same by simp
  qed
  obtain H' z' where r: "zsl_delete_run cond us (case mid @ rest of [] \<Rightarrow> None | y # ys \<Rightarrow> Some y) (Suc t) ?H z1 (d(the (zn_obj n) := None))
      = Some (H', z', (d(the (zn_obj n) := None)) |` (- (\<lambda>x. snd (elem ?H x)) ` set mid), length mid)"
    "skiplist_at H' z' (s @ rest)" "zsl_header z' = zsl_header z1" "dom H' = dom ?H - set mid"
    "\<forall>y. y \<notin> set mid \<longrightarrow> elem H' y = elem ?H y"
    using Cons.IH [OF d1(2,4) c1 c2] by blast
  have "cond t n" using Cons.prems(3) [rule_format, of 0] n by simp
  then have "zsl_delete_run cond us (case (x # mid) @ rest of [] \<Rightarrow> None | y # ys \<Rightarrow> Some y) t H z d
      = Some (H', z', (d(the (zn_obj n) := None)) |` (- (\<lambda>x. snd (elem ?H x)) ` set mid), Suc (length mid))"
    using n lz d1(1) r(1) by (subst zsl_delete_run.simps) simp
  moreover have "(d(the (zn_obj n) := None)) |` (- (\<lambda>x. snd (elem ?H x)) ` set mid) = d |` (- (\<lambda>x. snd (elem H x)) ` set (x # mid))"
  proof -
    have "(\<lambda>x. snd (elem ?H x)) ` set mid = (\<lambda>x. snd (elem H x)) ` set mid" 
    proof (rule image_cong)
      fix y assume "y \<in> set mid"
      then have "y \<noteq> x" using dist(1) by auto
      then show "snd (elem ?H y) = snd (elem H y)" using el by simp
    qed simp
    moreover have "snd (elem H x) = the (zn_obj n)" using n by (simp add: elem_def)
    ultimately show ?thesis by (auto simp: restrict_map_def fun_eq_iff)
  qed
  ultimately show ?case using r(2-5) d1(3,5) el by (intro exI [of _ H'] exI [of _ z']) auto
qed

lemma zsl_delete_range_correct:
  assumes sl: "skiplist_at H z (s @ mid @ rest)" and len: "length (s @ mid @ rest) < 2 ^ 32 - 1"
    and dv: "divides H adv 0 s (mid @ rest)" and st: "by_elem cond"
    and c: "\<forall>k<length mid. cond (Suc (length s + k)) (node H (mid ! k))"
      "rest \<noteq> [] \<Longrightarrow> \<not> cond (Suc (length s + length mid)) (node H (hd rest))"
  shows "\<exists>H' z'. zsl_delete_range adv cond (H, z, d) = Some (H', z', d |` (- (\<lambda>x. snd (elem H x)) ` set mid), length mid)
    \<and> skiplist_at H' z' (s @ rest) \<and> zsl_header z' = zsl_header z \<and> dom H' = dom H - set mid
    \<and> (\<forall>y. y \<notin> set mid \<longrightarrow> elem H' y = elem H y)"
proof -
  obtain us sp where us: "zsl_search H adv z = Some us" "found_at H z s us" "fst (us ! 0) = last (zsl_header z # s)"
    "snd (us ! 0) = length s" "level_at H (fst (us ! 0)) 0 = Some (case mid @ rest of [] \<Rightarrow> None | y # ys \<Rightarrow> Some y, sp)"
    by (rule found_next [OF sl len dv])
  have "zsl_delete_range adv cond (H, z, d) =
    zsl_delete_run cond us (case mid @ rest of [] \<Rightarrow> None | y # ys \<Rightarrow> Some y) (Suc (length s)) H z d"
    using us by (simp add: zsl_delete_range_def)
  then show ?thesis using zsl_delete_run_correct [OF st sl us(2), of "Suc (length s)" d] c by simp
qed

section \<open>Ranges\<close>

text \<open>A lower and an upper bound along a list: once the lower one holds it goes on to hold, and the upper
  one has held until then.\<close>

definition bounds_along :: "('a \<Rightarrow> bool) \<Rightarrow> ('a \<Rightarrow> bool) \<Rightarrow> 'a list \<Rightarrow> bool" where
  "bounds_along lo hi xs \<longleftrightarrow> sorted_wrt (\<lambda>x y. (lo x \<longrightarrow> lo y) \<and> (hi y \<longrightarrow> hi x)) xs"

lemma bounds_dropWhile: "bounds_along lo hi xs \<Longrightarrow> y \<in> set (dropWhile (\<lambda>x. \<not> lo x) xs) \<Longrightarrow> lo y"
  unfolding bounds_along_def by (induction xs) (auto split: if_splits)

lemma bounds_dropWhile_hi: "bounds_along lo hi xs \<Longrightarrow> y \<in> set (dropWhile hi xs) \<Longrightarrow> \<not> hi y"
  unfolding bounds_along_def by (induction xs) (auto split: if_splits)

lemma find_None_iff_all: "find P xs = None \<longleftrightarrow> (\<forall>x\<in>set xs. \<not> P x)"
  by (auto simp: find_None_iff)

lemma find_append: "find P (xs @ ys) = (case find P xs of None \<Rightarrow> find P ys | Some x \<Rightarrow> Some x)"
  by (induction xs) auto

lemma bounds_none:
  assumes "bounds_along lo hi xs" and "xs = [] \<or> \<not> lo (last xs) \<or> \<not> hi (hd xs)"
  shows "\<forall>x\<in>set xs. \<not> (lo x \<and> hi x)"
proof
  fix x assume x: "x \<in> set xs"
  have "x = last xs \<or> (lo x \<longrightarrow> lo (last xs))"
  proof (cases "x = last xs")
    case False
    then have "x \<in> set (butlast xs)" using x append_butlast_last_id [of xs] by (metis UnE empty_iff empty_set set_append set_ConsD list.set_intros(1))
    moreover have "xs = butlast xs @ [last xs]" using x by (cases xs rule: rev_cases) auto
    ultimately show ?thesis using assms(1) unfolding bounds_along_def by (metis (mono_tags, lifting) list.set_intros(1) sorted_wrt_append)
  qed simp
  moreover have "x = hd xs \<or> (hi x \<longrightarrow> hi (hd xs))" using x assms(1) by (cases xs) (auto simp: bounds_along_def)
  ultimately show "\<not> (lo x \<and> hi x)" using assms(2) x by auto
qed

lemma bounds_first:
  assumes "bounds_along lo hi xs" and "xs \<noteq> []" and "lo (last xs)"
  shows "dropWhile (\<lambda>x. \<not> lo x) xs \<noteq> []"
    and "find (\<lambda>x. lo x \<and> hi x) xs = (let x = hd (dropWhile (\<lambda>x. \<not> lo x) xs) in if hi x then Some x else None)"
proof -
  let ?s = "takeWhile (\<lambda>x. \<not> lo x) xs" and ?p = "dropWhile (\<lambda>x. \<not> lo x) xs"
  show ne: "?p \<noteq> []" using assms(2,3) last_in_set [of xs] by (auto simp: dropWhile_eq_Nil_conv)
  then obtain y ys where p: "?p = y # ys" by (cases ?p) auto
  have lo: "lo y" using bounds_dropWhile [OF assms(1), of y] p by simp
  have "find (\<lambda>x. lo x \<and> hi x) ?s = None" unfolding find_None_iff_all by (auto dest: set_takeWhileD)
  then have "find (\<lambda>x. lo x \<and> hi x) (?s @ y # ys) = find (\<lambda>x. lo x \<and> hi x) (y # ys)"
    using find_append [of "\<lambda>x. lo x \<and> hi x" ?s "y # ys"] by simp
  moreover have "?s @ y # ys = xs" using p by (metis takeWhile_dropWhile_id)
  ultimately have f: "find (\<lambda>x. lo x \<and> hi x) xs = find (\<lambda>x. lo x \<and> hi x) (y # ys)" by simp
  have "\<forall>x\<in>set ys. \<not> hi x" if "\<not> hi y"
  proof -
    have "bounds_along lo hi (?s @ y # ys)" using assms(1) p by (metis takeWhile_dropWhile_id)
    then show ?thesis using that by (auto simp: bounds_along_def sorted_wrt_append)
  qed
  then have "find (\<lambda>x. lo x \<and> hi x) ys = None" if "\<not> hi y" using that unfolding find_None_iff_all by blast
  then show "find (\<lambda>x. lo x \<and> hi x) xs = (let x = hd ?p in if hi x then Some x else None)"
    using f lo p by auto
qed

lemma bounds_last:
  assumes "bounds_along lo hi xs" and "xs \<noteq> []" and "hi (hd xs)"
  shows "takeWhile hi xs \<noteq> []"
    and "find (\<lambda>x. lo x \<and> hi x) (rev xs) = (let x = last (takeWhile hi xs) in if lo x then Some x else None)"
proof -
  let ?s = "takeWhile hi xs" and ?p = "dropWhile hi xs"
  show ne: "?s \<noteq> []" using assms(2,3) by (cases xs) auto
  then obtain ys y where p: "?s = ys @ [y]" by (cases ?s rule: rev_cases) auto
  have hi: "hi y" using p set_takeWhileD [of y hi xs] by simp
  have "find (\<lambda>x. lo x \<and> hi x) (rev ?p) = None" unfolding find_None_iff_all using bounds_dropWhile_hi [OF assms(1)] by auto
  moreover have "rev xs = rev ?p @ rev ?s" by (metis rev_append takeWhile_dropWhile_id)
  ultimately have f: "find (\<lambda>x. lo x \<and> hi x) (rev xs) = find (\<lambda>x. lo x \<and> hi x) (y # rev ys)"
    using find_append [of "\<lambda>x. lo x \<and> hi x" "rev ?p" "rev ?s"] p by simp
  have "\<forall>x\<in>set ys. \<not> lo x" if "\<not> lo y"
  proof -
    have "bounds_along lo hi ((ys @ [y]) @ ?p)" using assms(1) p by (metis takeWhile_dropWhile_id)
    then show ?thesis using that by (auto simp: bounds_along_def sorted_wrt_append)
  qed
  then have "find (\<lambda>x. lo x \<and> hi x) (rev ys) = None" if "\<not> lo y" using that unfolding find_None_iff_all by auto
  then show "find (\<lambda>x. lo x \<and> hi x) (rev xs) = (let x = last ?s in if lo x then Some x else None)"
    using f hi p by auto
qed

lemma in_range_part:
  assumes "skiplist_at H z ns"
  shows "(case zsl_tail z of
         None \<Rightarrow> Some False
       | Some x \<Rightarrow> do {
           n \<leftarrow> H x;
           if \<not> lo n then Some False
           else do {
             (forward, span) \<leftarrow> level_at H (zsl_header z) 0;
             case forward of
               None \<Rightarrow> Some False
             | Some y \<Rightarrow> do { m \<leftarrow> H y; Some (hi m) }}})
    = Some (ns \<noteq> [] \<and> lo (node H (last ns)) \<and> hi (node H (hd ns)))"
proof (cases ns)
  case Nil
  then show ?thesis using assms by (simp add: skiplist_at_def last_opt_def)
next
  case (Cons x xs)
  have f: "fst (cell H (zsl_header z) 0) = Some x" "level_at H (zsl_header z) 0 = Some (cell H (zsl_header z) 0)"
    using assms Cons level_at_cell [of "zsl_header z" H 0] by (auto simp: skiplist_at_def links_ok_def ZSKIPLIST_MAXLEVEL_def Suc_le_eq)
  have t: "zsl_tail z = Some (last ns)" "x \<in> dom H" "last ns \<in> dom H"
    using assms Cons last_in_set [of ns] by (auto simp: skiplist_at_def last_opt_def)
  then obtain n m where "H (last ns) = Some n" "H x = Some m" by blast
  then show ?thesis using f t(1) Cons by (cases "cell H (zsl_header z) 0") simp
qed

lemma first_in_range_part:
  assumes sl: "skiplist_at H z ns" and len: "length ns < 2 ^ 32 - 1"
    and mono: "bounds_along (\<lambda>x. lo (node H x)) (\<lambda>x. hi (node H x)) ns" and ne: "ns \<noteq> []" "lo (node H (last ns))"
  shows "do {
       us \<leftarrow> zsl_search H (\<lambda>_ n. \<not> lo n) z;
       (forward, span) \<leftarrow> level_at H (fst (us ! 0)) 0;
       x \<leftarrow> forward;
       n \<leftarrow> H x;
       Some (if \<not> hi n then None else Some x)}
    = Some (find (\<lambda>x. lo (node H x) \<and> hi (node H x)) ns)"
proof -
  let ?s = "takeWhile (\<lambda>x. \<not> lo (node H x)) ns" and ?p = "dropWhile (\<lambda>x. \<not> lo (node H x)) ns"
  note bf = bounds_first [OF mono ne]
  have dv: "divides H (\<lambda>_ n. \<not> lo n) 0 ?s ?p"
  proof (rule dividesI)
    show "\<not> lo (node H y)" if "y \<in> set ?s" for y using set_takeWhileD [OF that] by simp
    show "\<not> \<not> lo (node H y)" if "y \<in> set ?p" for y using bounds_dropWhile [OF mono that] by simp
  qed
  have sl': "skiplist_at H z (?s @ ?p)" and len': "length (?s @ ?p) < 2 ^ 32 - 1" using sl len by simp_all
  obtain us sp where us: "zsl_search H (\<lambda>_ n. \<not> lo n) z = Some us" "found_at H z ?s us"
    "fst (us ! 0) = last (zsl_header z # ?s)" "snd (us ! 0) = length ?s"
    "level_at H (fst (us ! 0)) 0 = Some (case ?p of [] \<Rightarrow> None | y # ys \<Rightarrow> Some y, sp)"
    by (rule found_next [OF sl' len' dv])
  obtain y ys where p: "?p = y # ys" using bf(1) by (cases ?p) auto
  have "y \<in> set ns" using p by (metis list.set_intros(1) set_dropWhileD)
  then obtain n where n: "H y = Some n" using sl by (auto simp: skiplist_at_def)
  show ?thesis using us(1,5) p n bf(2) by simp
qed

lemma last_in_range_part:
  assumes sl: "skiplist_at H z ns" and len: "length ns < 2 ^ 32 - 1"
    and mono: "bounds_along (\<lambda>x. lo (node H x)) (\<lambda>x. hi (node H x)) ns" and ne: "ns \<noteq> []" "hi (node H (hd ns))"
  obtains us x where "zsl_search H (\<lambda>_ n. hi n) z = Some us" and "fst (us ! 0) = x" and "x \<in> set ns"
    and "find (\<lambda>x. lo (node H x) \<and> hi (node H x)) (rev ns) = (if lo (node H x) then Some x else None)"
proof -
  let ?s = "takeWhile (\<lambda>x. hi (node H x)) ns" and ?p = "dropWhile (\<lambda>x. hi (node H x)) ns"
  note bl = bounds_last [OF mono ne]
  have dv: "divides H (\<lambda>_ n. hi n) 0 ?s ?p"
  proof (rule dividesI)
    show "hi (node H y)" if "y \<in> set ?s" for y using set_takeWhileD [OF that] by simp
    show "\<not> hi (node H y)" if "y \<in> set ?p" for y using bounds_dropWhile_hi [OF mono that] by simp
  qed
  have sl': "skiplist_at H z (?s @ ?p)" and len': "length (?s @ ?p) < 2 ^ 32 - 1" using sl len by simp_all
  obtain us sp where us: "zsl_search H (\<lambda>_ n. hi n) z = Some us" "found_at H z ?s us"
    "fst (us ! 0) = last (zsl_header z # ?s)" "snd (us ! 0) = length ?s"
    "level_at H (fst (us ! 0)) 0 = Some (case ?p of [] \<Rightarrow> None | y # ys \<Rightarrow> Some y, sp)"
    by (rule found_next [OF sl' len' dv])
  have x: "fst (us ! 0) = last ?s" using us(3) bl(1) by simp
  have "last ?s \<in> set ns" using bl(1) last_in_set [of ?s] by (metis set_takeWhileD)
  then show thesis using that [OF us(1) x] bl(2) by (simp add: Let_def)
qed

text \<open>The score range functions find the first and the last node in the range.\<close>

definition in_score_range :: "'s::linorder zrangespec \<Rightarrow> 's \<Rightarrow> bool" where
  "in_score_range rng v \<longleftrightarrow> zslValueGteMin v rng \<and> zslValueLteMax v rng"

lemma score_bounds:
  assumes "sorted_wrt key_less (map (elem H) ns)"
  shows "bounds_along (\<lambda>x. zslValueGteMin (zn_score (node H x)) rng) (\<lambda>x. zslValueLteMax (zn_score (node H x)) rng) ns"
  unfolding bounds_along_def
proof (rule sorted_wrt_mono_rel [rotated])
  show "sorted_wrt (\<lambda>x y. key_less (elem H x) (elem H y)) ns" using assms by (simp add: sorted_wrt_map)
qed (auto simp: key_less_def elem_def zslValueGteMin_def zslValueLteMax_def split: if_splits)

lemma zslIsInRange_correct:
  assumes "skiplist_at H z ns" and "sorted_wrt key_less (map (elem H) ns)"
  shows "\<exists>b. zslIsInRange rng (H, z) = Some b \<and> (b \<longrightarrow> ns \<noteq> [] \<and> zslValueGteMin (zn_score (node H (last ns))) rng
      \<and> zslValueLteMax (zn_score (node H (hd ns))) rng)
    \<and> (\<not> b \<longrightarrow> (\<forall>x\<in>set ns. \<not> in_score_range rng (zn_score (node H x))))"
proof (cases "zr_min rng > zr_max rng \<or> zr_min rng = zr_max rng \<and> (zr_minex rng \<or> zr_maxex rng)")
  case True
  then have "\<not> in_score_range rng v" for v by (auto simp: in_score_range_def zslValueGteMin_def zslValueLteMax_def split: if_splits)
  then show ?thesis using True by (intro exI [of _ False]) (simp add: zslIsInRange_def)
next
  case False
  then have "zslIsInRange rng (H, z) = Some (ns \<noteq> [] \<and> zslValueGteMin (zn_score (node H (last ns))) rng
      \<and> zslValueLteMax (zn_score (node H (hd ns))) rng)"
    using in_range_part [OF assms(1), of "\<lambda>n. zslValueGteMin (zn_score n) rng" "\<lambda>n. zslValueLteMax (zn_score n) rng"]
    by (simp only: zslIsInRange_def prod.case if_False)
  moreover have "\<forall>x\<in>set ns. \<not> in_score_range rng (zn_score (node H x))"
    if "\<not> (ns \<noteq> [] \<and> zslValueGteMin (zn_score (node H (last ns))) rng \<and> zslValueLteMax (zn_score (node H (hd ns))) rng)"
    using bounds_none [OF score_bounds [OF assms(2), of rng]] that by (auto simp: in_score_range_def)
  ultimately show ?thesis by blast
qed

lemma zslFirstInRange_correct:
  assumes "skiplist_at H z ns" and "length ns < 2 ^ 32 - 1" and "sorted_wrt key_less (map (elem H) ns)"
  shows "zslFirstInRange rng (H, z) = Some (find (\<lambda>x. in_score_range rng (zn_score (node H x))) ns)"
proof -
  obtain b where b: "zslIsInRange rng (H, z) = Some b" "b \<longrightarrow> ns \<noteq> [] \<and> zslValueGteMin (zn_score (node H (last ns))) rng
      \<and> zslValueLteMax (zn_score (node H (hd ns))) rng" "\<not> b \<longrightarrow> (\<forall>x\<in>set ns. \<not> in_score_range rng (zn_score (node H x)))"
    using zslIsInRange_correct [OF assms(1,3)] by blast
  show ?thesis
  proof (cases b)
    case True
    then show ?thesis
      using first_in_range_part [OF assms(1,2) score_bounds [OF assms(3), of rng]] b by (simp add: zslFirstInRange_def in_score_range_def)
  next
    case False
    then have "find (\<lambda>x. in_score_range rng (zn_score (node H x))) ns = None" using b(3) by (simp add: find_None_iff_all)
    then show ?thesis using False b(1) by (simp add: zslFirstInRange_def)
  qed
qed

lemma zslLastInRange_correct:
  assumes "skiplist_at H z ns" and "length ns < 2 ^ 32 - 1" and "sorted_wrt key_less (map (elem H) ns)"
  shows "zslLastInRange rng (H, z) = Some (find (\<lambda>x. in_score_range rng (zn_score (node H x))) (rev ns))"
proof -
  obtain b where b: "zslIsInRange rng (H, z) = Some b" "b \<longrightarrow> ns \<noteq> [] \<and> zslValueGteMin (zn_score (node H (last ns))) rng
      \<and> zslValueLteMax (zn_score (node H (hd ns))) rng" "\<not> b \<longrightarrow> (\<forall>x\<in>set ns. \<not> in_score_range rng (zn_score (node H x)))"
    using zslIsInRange_correct [OF assms(1,3)] by blast
  show ?thesis
  proof (cases b)
    case True
    obtain us x where x: "zsl_search H (\<lambda>_ n. zslValueLteMax (zn_score n) rng) z = Some us" "fst (us ! 0) = x" "x \<in> set ns"
      "find (\<lambda>x. zslValueGteMin (zn_score (node H x)) rng \<and> zslValueLteMax (zn_score (node H x)) rng) (rev ns)
        = (if zslValueGteMin (zn_score (node H x)) rng then Some x else None)"
      using last_in_range_part [OF assms(1,2) score_bounds [OF assms(3), of rng]] b(2) True by blast
    then obtain n where "H x = Some n" using assms(1) by (auto simp: skiplist_at_def)
    then show ?thesis using x b(1) True by (simp add: zslLastInRange_def in_score_range_def)
  next
    case False
    then have "find (\<lambda>x. in_score_range rng (zn_score (node H x))) (rev ns) = None" using b(3) by (simp add: find_None_iff_all)
    then show ?thesis using False b(1) by (simp add: zslLastInRange_def)
  qed
qed

end
