(* ===== verification/Zset.thy ===== *)
theory Zset
  imports SkiplistFind
begin

text \<open>
  \<^verbatim>\<open>t_zset.c\<close>, sorted sets in their skip list encoding: a hash table from members to scores beside the skip
  list.  The hash table is a map (\<open>Dict\<close> shows that the table of \<^verbatim>\<open>dict.c\<close> is one).  Each definition is the
  part of a command that works on a sorted set with this encoding, after the lookup of the key and the
  parsing of the arguments; the reply is its result.  The removal of the key of a set that has become empty is
  left to the caller.  \<open>add\<close> is the addition of scores, without a value when
  the sum is not a number; \<open>alloc\<close> is the allocator.
\<close>

section \<open>Commands\<close>

record 's zset =
  zs_dict :: "bytes \<rightharpoonup> 's"
  zs_heap :: "'s zheap"
  zs_zsl :: zskiplist

datatype 's zadd_result = Zadd_skipped | Zadd_nan | Zadd_added | Zadd_updated 's | Zadd_same 's

definition zadd_element ::
  "('s zheap \<Rightarrow> zaddr) \<Rightarrow> ('s \<Rightarrow> 's \<Rightarrow> 's option) \<Rightarrow> zlevel \<Rightarrow> nat \<Rightarrow> bool \<Rightarrow> bool \<Rightarrow> bool \<Rightarrow> 's::linorder \<Rightarrow> bytes \<Rightarrow>
   's zset \<Rightarrow> ('s zset \<times> 's zadd_result) option" where
  "zadd_element alloc add u level nx xx incr score0 ele zs =
     (case zs_dict zs ele of
        Some curscore \<Rightarrow>
          if nx then Some (zs, Zadd_skipped)
          else (case (if incr then add score0 curscore else Some score0) of
                  None \<Rightarrow> Some (zs, Zadd_nan)
                | Some score \<Rightarrow>
                    if score \<noteq> curscore then do {
                      ((H1, z1), deleted) \<leftarrow> zslDelete curscore ele (zs_heap zs, zs_zsl zs);
                      if \<not> deleted then None
                      else do {
                        (H2, z2) \<leftarrow> zslInsert u level (alloc H1) score ele (H1, z1);
                        Some (\<lparr>zs_dict = (zs_dict zs)(ele \<mapsto> score), zs_heap = H2, zs_zsl = z2\<rparr>, Zadd_updated score)}}
                    else Some (zs, Zadd_same score))
      | None \<Rightarrow>
          if xx then Some (zs, Zadd_skipped)
          else do {
            (H1, z1) \<leftarrow> zslInsert u level (alloc (zs_heap zs)) score0 ele (zs_heap zs, zs_zsl zs);
            Some (\<lparr>zs_dict = (zs_dict zs)(ele \<mapsto> score0), zs_heap = H1, zs_zsl = z1\<rparr>, Zadd_added)})"

definition zrem_element :: "bytes \<Rightarrow> 's::linorder zset \<Rightarrow> ('s zset \<times> bool) option" where
  "zrem_element ele zs =
     (case zs_dict zs ele of
        None \<Rightarrow> Some (zs, False)
      | Some score \<Rightarrow> do {
          ((H1, z1), deleted) \<leftarrow> zslDelete score ele (zs_heap zs, zs_zsl zs);
          if \<not> deleted then None
          else Some (\<lparr>zs_dict = (zs_dict zs)(ele := None), zs_heap = H1, zs_zsl = z1\<rparr>, True)})"

definition zset_score :: "bytes \<Rightarrow> 's zset \<Rightarrow> 's option" where
  "zset_score ele zs = zs_dict zs ele"

definition zset_length :: "'s zset \<Rightarrow> nat" where
  "zset_length zs = zsl_length (zs_zsl zs) mod 2 ^ 32"

definition zset_rank :: "bool \<Rightarrow> bytes \<Rightarrow> 's::linorder zset \<Rightarrow> nat option option" where
  "zset_rank reverse ele zs =
     (case zs_dict zs ele of
        None \<Rightarrow> Some None
      | Some score \<Rightarrow> do {
          rank \<leftarrow> zslGetRank score ele (zs_heap zs, zs_zsl zs);
          if rank = 0 then None
          else Some (Some (if reverse then zset_length zs - rank else rank - 1))})"

text \<open>\<open>ZRANGE\<close>: the indices are sanitised, then the nodes are followed forward or backward.\<close>

primrec zrange_loop :: "bool \<Rightarrow> 's zheap \<Rightarrow> nat \<Rightarrow> zaddr option \<Rightarrow> ('s \<times> bytes) list option" where
  "zrange_loop reverse H 0 ln = Some []"
| "zrange_loop reverse H (Suc rangelen) ln = do {
     x \<leftarrow> ln;
     n \<leftarrow> H x;
     ele \<leftarrow> zn_obj n;
     nxt \<leftarrow> (if reverse then Some (zn_backward n) else map_option fst (level_at H x 0));
     rest \<leftarrow> zrange_loop reverse H rangelen nxt;
     Some ((zn_score n, ele) # rest)}"

definition sanitise :: "int \<Rightarrow> int \<Rightarrow> int \<Rightarrow> (nat \<times> nat) option" where
  "sanitise llen start0 end0 =
     (let start1 = (if start0 < 0 then llen + start0 else start0);
          end1 = (if end0 < 0 then llen + end0 else end0);
          start2 = (if start1 < 0 then 0 else start1)
      in if start2 > end1 \<or> start2 \<ge> llen then None
         else Some (nat start2, nat (if end1 \<ge> llen then llen - 1 else end1)))"

definition zset_range :: "bool \<Rightarrow> int \<Rightarrow> int \<Rightarrow> 's zset \<Rightarrow> ('s \<times> bytes) list option" where
  "zset_range reverse start0 end0 zs =
     (case sanitise (int (zset_length zs)) start0 end0 of
        None \<Rightarrow> Some []
      | Some (start, stop) \<Rightarrow> do {
          let H = zs_heap zs;
          let z = zs_zsl zs;
          ln \<leftarrow> (if reverse then
                  if start > 0 then zslGetElementByRank (zset_length zs - start) (H, z) else Some (zsl_tail z)
                else
                  if start > 0 then zslGetElementByRank (start + 1) (H, z)
                  else map_option fst (level_at H (zsl_header z) 0));
          zrange_loop reverse H (stop - start + 1) ln})"

definition zset_remrange_rank :: "int \<Rightarrow> int \<Rightarrow> 's zset \<Rightarrow> ('s zset \<times> nat) option" where
  "zset_remrange_rank start0 end0 zs =
     (case sanitise (int (zset_length zs)) start0 end0 of
        None \<Rightarrow> Some (zs, 0)
      | Some (start, stop) \<Rightarrow> do {
          (H, z, d, deleted) \<leftarrow> zslDeleteRangeByRank (start + 1) (stop + 1) (zs_heap zs, zs_zsl zs, zs_dict zs);
          Some (\<lparr>zs_dict = d, zs_heap = H, zs_zsl = z\<rparr>, deleted)})"

definition zset_remrange_score :: "'s::linorder zrangespec \<Rightarrow> 's zset \<Rightarrow> ('s zset \<times> nat) option" where
  "zset_remrange_score rng zs = do {
     (H, z, d, deleted) \<leftarrow> zslDeleteRangeByScore rng (zs_heap zs, zs_zsl zs, zs_dict zs);
     Some (\<lparr>zs_dict = d, zs_heap = H, zs_zsl = z\<rparr>, deleted)}"

text \<open>\<open>ZCOUNT\<close>, from the ranks of the first and the last node in the range; \<open>count\<close> is an \<open>int\<close>.\<close>

definition node_rank :: "zaddr \<Rightarrow> 's::linorder zset \<Rightarrow> nat option" where
  "node_rank x zs = do {
     n \<leftarrow> zs_heap zs x;
     obj \<leftarrow> zn_obj n;
     zslGetRank (zn_score n) obj (zs_heap zs, zs_zsl zs)}"

definition zset_count :: "'s::linorder zrangespec \<Rightarrow> 's zset \<Rightarrow> int option" where
  "zset_count rng zs = do {
     zn \<leftarrow> zslFirstInRange rng (zs_heap zs, zs_zsl zs);
     case zn of
       None \<Rightarrow> Some 0
     | Some x \<Rightarrow> do {
         rank \<leftarrow> node_rank x zs;
         let count = to_signed 32 (int (zsl_length (zs_zsl zs)) - (int rank - 1));
         zn' \<leftarrow> zslLastInRange rng (zs_heap zs, zs_zsl zs);
         case zn' of
           None \<Rightarrow> Some count
         | Some y \<Rightarrow> do {
             rank' \<leftarrow> node_rank y zs;
             Some (to_signed 32 (count - (int (zsl_length (zs_zsl zs)) - int rank')))}}}"

definition zset_create :: "zlevel \<Rightarrow> 's \<Rightarrow> zaddr \<Rightarrow> 's zset" where
  "zset_create u zero a =
     (let (H, z) = zslCreate u zero a Map.empty in \<lparr>zs_dict = Map.empty, zs_heap = H, zs_zsl = z\<rparr>)"

section \<open>The abstract sorted set\<close>

text \<open>A list of pairs of scores and members, strictly increasing, with different members.\<close>

definition zlookup :: "('s \<times> bytes) list \<Rightarrow> bytes \<rightharpoonup> 's" where
  "zlookup xs = map_of (map (\<lambda>x. (snd x, fst x)) xs)"

definition zinsert :: "'s::linorder \<times> bytes \<Rightarrow> ('s \<times> bytes) list \<Rightarrow> ('s \<times> bytes) list" where
  "zinsert k xs = takeWhile (\<lambda>x. key_less x k) xs @ k # dropWhile (\<lambda>x. key_less x k) xs"

definition zremove :: "bytes \<Rightarrow> ('s \<times> bytes) list \<Rightarrow> ('s \<times> bytes) list" where
  "zremove ele xs = filter (\<lambda>x. snd x \<noteq> ele) xs"

definition zposition :: "bytes \<Rightarrow> ('s \<times> bytes) list \<Rightarrow> nat" where
  "zposition ele xs = length (takeWhile (\<lambda>x. snd x \<noteq> ele) xs)"

definition zslice :: "int \<Rightarrow> int \<Rightarrow> 'a list \<Rightarrow> 'a list" where
  "zslice start stop xs =
     (let n = int (length xs);
          i = (if start < 0 then max 0 (n + start) else start);
          j = (if stop < 0 then n + stop else stop)
      in take (nat (j + 1 - i)) (drop (nat i) xs))"

end
