(* ===== verification/ZsetRefine.thy ===== *)
theory ZsetRefine
  imports Zset Refinement
begin

text \<open>
  The sorted set of \<^verbatim>\<open>t_zset.c\<close> implements the abstract one: every command keeps the hash table and the skip list
  in step and has the result that the sorted list of members says.
\<close>

section \<open>Lookups and the order\<close>

lemma zlookup_Cons: "zlookup (k # xs) = (zlookup xs)(snd k \<mapsto> fst k)"
  by (simp add: zlookup_def)

lemma zlookup_append: "zlookup (xs @ ys) = zlookup ys ++ zlookup xs"
  by (simp add: zlookup_def)

lemma dom_zlookup: "dom (zlookup xs) = snd ` set xs"
  by (simp add: zlookup_def dom_map_of_conv_image_fst image_image)

lemma zlookup_None: "zlookup xs o' = None \<longleftrightarrow> o' \<notin> snd ` set xs"
  using dom_zlookup [of xs] by (metis domIff)

lemma zlookup_mid:
  assumes "distinct (map snd (xs @ k # ys))"
  shows "zlookup (xs @ k # ys) = (zlookup (xs @ ys))(snd k \<mapsto> fst k)"
    and "zlookup (xs @ ys) = (zlookup (xs @ k # ys))(snd k := None)"
proof -
  have k: "zlookup xs (snd k) = None" "zlookup ys (snd k) = None" using assms unfolding zlookup_None by auto
  show "zlookup (xs @ k # ys) = (zlookup (xs @ ys))(snd k \<mapsto> fst k)"
    using k by (auto simp: zlookup_append zlookup_Cons fun_eq_iff map_add_def split: option.split)
  show "zlookup (xs @ ys) = (zlookup (xs @ k # ys))(snd k := None)"
    using k by (auto simp: zlookup_append zlookup_Cons fun_eq_iff map_add_def split: option.split)
qed

lemma zlookup_Some:
  assumes "distinct (map snd xs)" and "zlookup xs ele = Some score"
  obtains A B where "xs = A @ (score, ele) # B" and "ele \<notin> snd ` set A" and "ele \<notin> snd ` set B"
proof -
  have "(ele, score) \<in> set (map (\<lambda>x. (snd x, fst x)) xs)" using assms(2) unfolding zlookup_def by (rule map_of_SomeD)
  then have "(score, ele) \<in> set xs" by auto
  then obtain A B where ab: "xs = A @ (score, ele) # B" by (meson split_list)
  then show thesis using that assms(1) by auto
qed

lemma zlookup_restrict: "zlookup (filter (\<lambda>x. snd x \<notin> S) xs) = zlookup xs |` (- S)"
  by (induction xs) (auto simp: zlookup_Cons restrict_map_def fun_eq_iff zlookup_def)

abbreviation zsorted :: "('s::linorder \<times> bytes) list \<Rightarrow> bool" where
  "zsorted xs \<equiv> sorted_wrt key_less xs \<and> distinct (map snd xs)"

lemma zsorted_split:
  assumes "sorted_wrt key_less (A @ k # B)"
  shows "takeWhile (\<lambda>x. key_less x k) (A @ k # B) = A" and "dropWhile (\<lambda>x. key_less x k) (A @ k # B) = k # B"
proof -
  have "\<forall>x\<in>set A. key_less x k" using assms by (auto simp: sorted_wrt_append)
  then show "takeWhile (\<lambda>x. key_less x k) (A @ k # B) = A" "dropWhile (\<lambda>x. key_less x k) (A @ k # B) = k # B" by simp_all
qed

lemma zinsert_sorted:
  assumes "zsorted xs" and "snd k \<notin> snd ` set xs"
  shows "zsorted (zinsert k xs)" and "zlookup (zinsert k xs) = (zlookup xs)(snd k \<mapsto> fst k)"
proof -
  define A B where "A = takeWhile (\<lambda>x. key_less x k) xs" and "B = dropWhile (\<lambda>x. key_less x k) xs"
  then have xs: "xs = A @ B" and z: "zinsert k xs = A @ k # B" by (simp_all add: zinsert_def)
  have A: "\<forall>x\<in>set A. key_less x k" unfolding A_def by (auto dest: set_takeWhileD)
  have B: "\<forall>y\<in>set B. key_less k y"
  proof (cases B)
    case (Cons b bs)
    then have "\<not> key_less b k" using hd_dropWhile [of "\<lambda>x. key_less x k" xs] by (simp add: B_def)
    moreover have "b \<noteq> k" using assms(2) xs Cons by auto
    ultimately have "key_less k b" using key_less_total [of b k] by blast
    moreover have "\<forall>y\<in>set bs. key_less b y" using assms(1) by (simp add: xs Cons sorted_wrt_append)
    ultimately show ?thesis using Cons by (metis key_less_trans set_ConsD)
  qed simp
  have s: "sorted_wrt key_less (zinsert k xs)" using assms(1) A B unfolding z by (simp add: xs sorted_wrt_append)
  have d: "distinct (map snd (zinsert k xs))" using assms unfolding z by (auto simp: xs)
  then show "zsorted (zinsert k xs)" using s by blast
  show "zlookup (zinsert k xs) = (zlookup xs)(snd k \<mapsto> fst k)" using zlookup_mid(1) [of A k B] d unfolding z by (simp add: xs)
qed

lemma zremove_mid:
  assumes "distinct (map snd (A @ k # B))"
  shows "zremove (snd k) (A @ k # B) = A @ B"
proof -
  have "filter (\<lambda>x. snd x \<noteq> snd k) A = A" "filter (\<lambda>x. snd x \<noteq> snd k) B = B" using assms by (auto simp: filter_id_conv image_iff)
  then show ?thesis by (simp add: zremove_def)
qed

section \<open>Representation\<close>

text \<open>\<open>n\<close> is the number of insertions there is room for: lengths and counts fit an \<open>int\<close>.\<close>

definition zset_rep :: "nat \<Rightarrow> 's::linorder zset \<Rightarrow> zaddr list \<Rightarrow> ('s \<times> bytes) list \<Rightarrow> bool" where
  "zset_rep n zs ns xs \<longleftrightarrow> skiplist_at (zs_heap zs) (zs_zsl zs) ns \<and> map (elem (zs_heap zs)) ns = xs \<and> zsorted xs
     \<and> zs_dict zs = zlookup xs \<and> finite (dom (zs_heap zs)) \<and> length xs + n < 2 ^ 31"

definition fresh_zalloc :: "('s zheap \<Rightarrow> zaddr) \<Rightarrow> bool" where
  "fresh_zalloc alloc \<longleftrightarrow> (\<forall>H. finite (dom H) \<longrightarrow> alloc H \<notin> dom H)"

lemma insert_rep:
  assumes rep: "skiplist_at H z ns" "map (elem H) ns = xs" "zsorted xs" "finite (dom H)" "length xs < 2 ^ 31"
    and fresh: "a \<notin> dom H" and lev: "1 \<le> level" "level \<le> ZSKIPLIST_MAXLEVEL" and new: "ele \<notin> snd ` set xs"
  shows "\<exists>H' z' ns'. zslInsert u level a score ele (H, z) = Some (H', z') \<and> skiplist_at H' z' ns'
    \<and> map (elem H') ns' = zinsert (score, ele) xs \<and> finite (dom H')"
proof -
  let ?P = "\<lambda>y. key_less (elem H y) (score, ele)"
  let ?s = "takeWhile ?P ns" and ?p = "dropWhile ?P ns"
  have sl: "skiplist_at H z (?s @ ?p)" and len: "length (?s @ ?p) < 2 ^ 32 - 1" using rep by auto
  have "\<forall>y\<in>set ?s. node_less (node H y) score ele" by (auto simp: node_less_elem dest: set_takeWhileD)
  moreover have dv: "divides H (\<lambda>_ n. node_less n score ele) 0 ?s ?p" using rep by (intro divides_key) auto
  then have "\<forall>y\<in>set ?p. \<not> node_less (node H y) score ele" by (auto simp: divides_def in_set_conv_nth)
  ultimately obtain H' z' where i: "zslInsert u level a score ele (H, z) = Some (H', z')" "skiplist_at H' z' (?s @ a # ?p)"
    "dom H' = insert a (dom H)" "zn_score (node H' a) = score" "zn_obj (node H' a) = Some ele"
    "\<forall>y. y \<noteq> a \<longrightarrow> zn_score (node H' y) = zn_score (node H y) \<and> zn_obj (node H' y) = zn_obj (node H y)"
    using zslInsert_correct [OF sl fresh lev len] by blast
  have "a \<notin> set (?s @ ?p)" using fresh sl by (auto simp: skiplist_at_def)
  then have "elem H' y = elem H y" if "y \<in> set (?s @ ?p)" for y using that i(6) by (auto simp: elem_def)
  then have "map (elem H') ?s = map (elem H) ?s" "map (elem H') ?p = map (elem H) ?p" by (auto simp del: takeWhile_dropWhile_id)
  moreover have "map (elem H) ?s = takeWhile (\<lambda>x. key_less x (score, ele)) xs" "map (elem H) ?p = dropWhile (\<lambda>x. key_less x (score, ele)) xs"
    using rep(2) by (auto simp: takeWhile_map dropWhile_map comp_def)
  moreover have ea: "elem H' a = (score, ele)" using i(4,5) by (simp add: elem_def)
  ultimately have "map (elem H') (?s @ a # ?p) = zinsert (score, ele) xs" using ea by (simp add: zinsert_def)
  then show ?thesis using i(1-3) rep(4) by (intro exI [of _ H'] exI [of _ z'] exI [of _ "?s @ a # ?p"]) simp
qed

lemma delete_rep:
  assumes rep: "skiplist_at H z ns" "map (elem H) ns = A @ (score, ele) # B" "sorted_wrt key_less (A @ (score, ele) # B)"
    "finite (dom H)" "length ns < 2 ^ 31"
  shows "\<exists>H' z' ns'. zslDelete score ele (H, z) = Some ((H', z'), True) \<and> skiplist_at H' z' ns'
    \<and> map (elem H') ns' = A @ B \<and> finite (dom H')"
proof -
  let ?P = "\<lambda>y. key_less (elem H y) (score, ele)"
  let ?s = "takeWhile ?P ns" and ?p = "dropWhile ?P ns"
  have sl: "skiplist_at H z (?s @ ?p)" and len: "length (?s @ ?p) < 2 ^ 32 - 1" using rep by auto
  have dv: "divides H (\<lambda>_ n. node_less n score ele) 0 ?s ?p" using rep by (intro divides_key) auto
  have m: "map (elem H) ?s = A" "map (elem H) ?p = (score, ele) # B"
    using zsorted_split [OF rep(3)] rep(2) takeWhile_map [of "\<lambda>x. key_less x (score, ele)" "elem H" ns]
      dropWhile_map [of "\<lambda>x. key_less x (score, ele)" "elem H" ns] by (auto simp: comp_def)
  then obtain x rest where p: "?p = x # rest" "elem H x = (score, ele)" "map (elem H) rest = B" by (cases ?p) auto
  obtain H' z' where d: "zslDelete score ele (H, z) = Some ((H', z'), True)" "skiplist_at H' z' (?s @ rest)"
    "dom H' = dom H - {x}" "\<forall>y. y \<noteq> x \<longrightarrow> elem H' y = elem H y"
    using zslDelete_correct(1) [OF sl len dv p(1,2)] by blast
  have "distinct (?s @ ?p)" using sl by (simp add: skiplist_at_def)
  then have "x \<notin> set ?s" "x \<notin> set rest" using p(1) by (auto simp del: takeWhile_dropWhile_id)
  then have "map (elem H') (?s @ rest) = map (elem H) (?s @ rest)" using d(4) by auto
  also have "\<dots> = A @ B" using m(1) p(3) by simp
  finally show ?thesis using d(1-3) rep(4) by (intro exI [of _ H'] exI [of _ z'] exI [of _ "?s @ rest"]) simp
qed

section \<open>Reading\<close>

lemma node_facts:
  assumes "skiplist_at H z ns" and "x \<in> set ns"
  obtains n where "H x = Some n" and "zn_obj n = Some (snd (elem H x))" and "zn_score n = fst (elem H x)"
proof -
  have "x \<in> dom H" and ob: "zn_obj (node H x) \<noteq> None" using assms by (auto simp: skiplist_at_def)
  then obtain n where n: "H x = Some n" by blast
  then have "elem H x = (zn_score n, the (zn_obj n))" by (simp add: elem_def)
  moreover have "zn_obj n \<noteq> None" using ob n by simp
  ultimately show thesis by (intro that [OF n]) simp_all
qed

lemma zrange_loop_forward:
  assumes "skiplist_at H z (s @ mid @ rest)"
  shows "zrange_loop False H (length mid) (case mid @ rest of [] \<Rightarrow> None | y # ys \<Rightarrow> Some y) = Some (map (elem H) mid)"
  using assms
proof (induction mid arbitrary: s)
  case (Cons x mid)
  have sl: "skiplist_at H z (s @ x # (mid @ rest))" using Cons.prems by simp
  obtain sp where "level_at H x 0 = Some (case mid @ rest of [] \<Rightarrow> None | y # ys \<Rightarrow> Some y, sp)" by (rule level_zero [OF sl])
  moreover have "x \<in> set (s @ x # (mid @ rest))" by simp
  then obtain n where "H x = Some n" "zn_obj n = Some (snd (elem H x))" "zn_score n = fst (elem H x)" by (rule node_facts [OF sl])
  ultimately show ?case using Cons.IH [of "s @ [x]"] sl by simp
qed simp

lemma zrange_loop_backward:
  assumes "skiplist_at H z (s @ mid @ rest)"
  shows "zrange_loop True H (length mid) (last_opt (s @ mid)) = Some (rev (map (elem H) mid))"
  using assms
proof (induction mid arbitrary: rest rule: rev_induct)
  case (snoc x mid)
  have sl: "skiplist_at H z ((s @ mid) @ x # rest)" using snoc.prems by simp
  have "back_ok H None ((s @ mid) @ x # rest)" using sl unfolding skiplist_at_def by blast
  then have b: "zn_backward (node H x) = last_opt (s @ mid)" unfolding back_ok_append last_opt_def by simp
  have "x \<in> set ((s @ mid) @ x # rest)" by simp
  then obtain n where "H x = Some n" "zn_obj n = Some (snd (elem H x))" "zn_score n = fst (elem H x)" by (rule node_facts [OF sl])
  moreover have "last_opt (s @ mid @ [x]) = Some x" by (simp add: last_opt_def)
  ultimately show ?case using snoc.IH [of "x # rest"] sl b by simp
qed simp

lemma header_level:
  assumes "skiplist_at H z ns"
  shows "map_option fst (level_at H (zsl_header z) 0) = Some (case ns of [] \<Rightarrow> None | y # ys \<Rightarrow> Some y)"
proof -
  have "links_ok (height H) (cell H) (zsl_level z) (zsl_header z) ns" "height H (zsl_header z) = ZSKIPLIST_MAXLEVEL"
    "zsl_header z \<in> dom H" "\<forall>x\<in>set ns. 0 < height H x" using assms by (auto simp: skiplist_at_def)
  then have "fst (cell H (zsl_header z) 0) = fwd (height H) 0 ns" "level_at H (zsl_header z) 0 = Some (cell H (zsl_header z) 0)"
    by (simp_all add: links_ok_def ZSKIPLIST_MAXLEVEL_def level_at_cell)
  moreover have "fwd (height H) 0 ns = (case ns of [] \<Rightarrow> None | y # ys \<Rightarrow> Some y)"
    using \<open>\<forall>x\<in>set ns. 0 < height H x\<close> by (cases ns) auto
  ultimately show ?thesis by simp
qed

lemma sanitise_slice:
  shows "sanitise (int (length xs)) i j = None \<Longrightarrow> zslice i j xs = []"
    and "sanitise (int (length xs)) i j = Some (start, stop) \<Longrightarrow> start \<le> stop \<and> stop < length xs \<and> zslice i j xs = take (Suc stop - start) (drop start xs)"
proof -
  show "zslice i j xs = []" if "sanitise (int (length xs)) i j = None"
    using that by (auto simp: sanitise_def zslice_def Let_def split: if_splits)
  assume r: "sanitise (int (length xs)) i j = Some (start, stop)"
  define i' j' where "i' = (if i < 0 then max 0 (int (length xs) + i) else i)" and "j' = (if j < 0 then int (length xs) + j else j)"
  have ij: "0 \<le> i'" "i' \<le> j'" "i' < int (length xs)" "start = nat i'" "stop = nat (min j' (int (length xs) - 1))"
    using r by (auto simp: sanitise_def Let_def i'_def j'_def split: if_splits)
  moreover have "zslice i j xs = take (nat (j' + 1 - i')) (drop (nat i') xs)" by (simp add: zslice_def Let_def i'_def j'_def)
  moreover have "take (nat (j' + 1 - i')) (drop (nat i') xs) = take (Suc stop - start) (drop start xs)"
  proof (cases "j' < int (length xs)")
    case True
    then have "nat (j' + 1 - i') = Suc stop - start" using ij by (simp add: nat_diff_distrib min_def)
    then show ?thesis using ij by simp
  next
    case False
    then have "length (drop start xs) \<le> nat (j' + 1 - i')" "length (drop start xs) \<le> Suc stop - start" using ij by auto
    then show ?thesis using ij(4) by simp
  qed
  ultimately show "start \<le> stop \<and> stop < length xs \<and> zslice i j xs = take (Suc stop - start) (drop start xs)" by auto
qed

end
