(* ===== verification/ZsetSim.thy ===== *)
theory ZsetSim
  imports ZsetRefine
begin

text \<open>
  The commands on sorted sets, one by one, against the sorted list of members, and the sequences of commands.
\<close>

section \<open>The abstract commands\<close>

text \<open>The arguments of an addition include the level that the random numbers give to the new node.\<close>

datatype 's zop =
    Zadd nat bool bool bool 's bytes
  | Zrem bytes
  | Zscore bytes
  | Zcard
  | Zrank bool bytes
  | Zrange bool int int
  | Zremrangebyrank int int
  | Zremrangebyscore "'s zrangespec"
  | Zcount "'s zrangespec"

datatype 's zreply = Radd "'s zadd_result" | Rbool bool | Rscore "'s option" | Rrank "nat option" | Rcount int | Rmembers "('s \<times> bytes) list"

fun zset_step ::
  "('s zheap \<Rightarrow> zaddr) \<Rightarrow> ('s \<Rightarrow> 's \<Rightarrow> 's option) \<Rightarrow> zlevel \<Rightarrow> 's::linorder zop \<Rightarrow> 's zset \<Rightarrow> ('s zset \<times> 's zreply) option" where
  "zset_step alloc add u (Zadd level nx xx incr score ele) zs =
     map_option (map_prod id Radd) (zadd_element alloc add u level nx xx incr score ele zs)"
| "zset_step alloc add u (Zrem ele) zs = map_option (map_prod id Rbool) (zrem_element ele zs)"
| "zset_step alloc add u (Zscore ele) zs = Some (zs, Rscore (zset_score ele zs))"
| "zset_step alloc add u Zcard zs = Some (zs, Rcount (int (zset_length zs)))"
| "zset_step alloc add u (Zrank reverse ele) zs = map_option (\<lambda>r. (zs, Rrank r)) (zset_rank reverse ele zs)"
| "zset_step alloc add u (Zrange reverse i j) zs = map_option (\<lambda>r. (zs, Rmembers r)) (zset_range reverse i j zs)"
| "zset_step alloc add u (Zremrangebyrank i j) zs = map_option (map_prod id (\<lambda>k. Rcount (int k))) (zset_remrange_rank i j zs)"
| "zset_step alloc add u (Zremrangebyscore rng) zs = map_option (map_prod id (\<lambda>k. Rcount (int k))) (zset_remrange_score rng zs)"
| "zset_step alloc add u (Zcount rng) zs = map_option (\<lambda>r. (zs, Rcount r)) (zset_count rng zs)"

fun zset_spec :: "('s \<Rightarrow> 's \<Rightarrow> 's option) \<Rightarrow> 's::linorder zop \<Rightarrow> ('s \<times> bytes) list \<Rightarrow> ('s \<times> bytes) list \<times> 's zreply" where
  "zset_spec add (Zadd level nx xx incr score ele) xs =
     (case zlookup xs ele of
        Some cur \<Rightarrow>
          if nx then (xs, Radd Zadd_skipped)
          else (case (if incr then add score cur else Some score) of
                  None \<Rightarrow> (xs, Radd Zadd_nan)
                | Some new \<Rightarrow>
                    if new = cur then (xs, Radd (Zadd_same new))
                    else (zinsert (new, ele) (zremove ele xs), Radd (Zadd_updated new)))
      | None \<Rightarrow> if xx then (xs, Radd Zadd_skipped) else (zinsert (score, ele) xs, Radd Zadd_added))"
| "zset_spec add (Zrem ele) xs = (zremove ele xs, Rbool (zlookup xs ele \<noteq> None))"
| "zset_spec add (Zscore ele) xs = (xs, Rscore (zlookup xs ele))"
| "zset_spec add Zcard xs = (xs, Rcount (int (length xs)))"
| "zset_spec add (Zrank reverse ele) xs =
     (xs, Rrank (if zlookup xs ele = None then None else Some (zposition ele (if reverse then rev xs else xs))))"
| "zset_spec add (Zrange reverse i j) xs = (xs, Rmembers (zslice i j (if reverse then rev xs else xs)))"
| "zset_spec add (Zremrangebyrank i j) xs =
     (filter (\<lambda>x. x \<notin> set (zslice i j xs)) xs, Rcount (int (length (zslice i j xs))))"
| "zset_spec add (Zremrangebyscore rng) xs =
     (filter (\<lambda>x. \<not> in_score_range rng (fst x)) xs, Rcount (int (length (filter (\<lambda>x. in_score_range rng (fst x)) xs))))"
| "zset_spec add (Zcount rng) xs = (xs, Rcount (int (length (filter (\<lambda>x. in_score_range rng (fst x)) xs))))"

fun zset_legal :: "'s zop \<Rightarrow> bool" where
  "zset_legal (Zadd level nx xx incr score ele) \<longleftrightarrow> 1 \<le> level \<and> level \<le> ZSKIPLIST_MAXLEVEL"
| "zset_legal _ \<longleftrightarrow> True"

definition zset_members :: "'s zset \<Rightarrow> ('s \<times> bytes) list" where
  "zset_members zs = the (zset_range False 0 (- 1) zs)"

section \<open>Queries\<close>

lemma rep_facts:
  assumes "zset_rep n zs ns xs"
  shows "skiplist_at (zs_heap zs) (zs_zsl zs) ns" and "map (elem (zs_heap zs)) ns = xs" and "zsorted xs"
    and "zs_dict zs = zlookup xs" and "finite (dom (zs_heap zs))" and "length xs + n < 2 ^ 31"
    and "length ns = length xs" and "zset_length zs = length xs" and "length ns < 2 ^ 32 - 1"
    and "zsl_length (zs_zsl zs) = length xs"
  using assms by (auto simp: zset_rep_def zset_length_def skiplist_at_def)

lemma bounds_between:
  assumes "bounds_along lo hi xs" and "i \<le> j" "j \<le> k" "k < length xs" and "lo (xs ! i)" "hi (xs ! k)"
  shows "lo (xs ! j) \<and> hi (xs ! j)"
proof -
  have "i < j \<Longrightarrow> lo (xs ! j)" "j < k \<Longrightarrow> hi (xs ! j)"
    using assms by (auto simp: bounds_along_def sorted_wrt_iff_nth_less)
  then show ?thesis using assms by (metis le_neq_implies_less)
qed

lemma bounds_filter:
  assumes "bounds_along lo hi xs"
  shows "filter (\<lambda>x. lo x \<and> hi x) xs = takeWhile hi (dropWhile (\<lambda>x. \<not> lo x) xs)"
  using assms
proof (induction xs)
  case (Cons x xs)
  have b: "bounds_along lo hi xs" "\<forall>y\<in>set xs. (lo x \<longrightarrow> lo y) \<and> (hi y \<longrightarrow> hi x)" using Cons.prems by (auto simp: bounds_along_def)
  show ?case
  proof (cases "lo x")
    case True
    then have "dropWhile (\<lambda>x. \<not> lo x) xs = xs" using b(2) by (cases xs) auto
    then show ?thesis using True b Cons.IH by (auto simp: filter_empty_conv)
  qed (use b Cons.IH in simp)
qed simp

lemma filter_block:
  assumes "\<And>j. i \<le> j \<Longrightarrow> j \<le> l \<Longrightarrow> P (xs ! j)" and "\<And>j. j < i \<Longrightarrow> \<not> P (xs ! j)"
    and "\<And>j. l < j \<Longrightarrow> j < length xs \<Longrightarrow> \<not> P (xs ! j)" and "l < length xs" and "i \<le> l"
  shows "length (filter P xs) = Suc l - i"
proof -
  have "{j. j < length xs \<and> P (xs ! j)} = {i..l}" using assms by (auto simp: not_less [symmetric])
  then show ?thesis by (simp add: length_filter_conv_card)
qed

lemma range_forward:
  assumes rep: "zset_rep n zs ns xs"
  shows "zset_range False i j zs = Some (zslice i j xs)"
proof -
  note f = rep_facts [OF rep]
  show ?thesis
  proof (cases "sanitise (int (length xs)) i j")
    case None
    then show ?thesis using sanitise_slice(1) [OF None] by (simp add: zset_range_def f(8))
  next
    case (Some p)
    obtain start stop where p: "p = (start, stop)" by (cases p)
    note ss = sanitise_slice(2) [OF Some [unfolded p]]
    let ?k = "Suc stop - start"
    let ?mid = "take ?k (drop start ns)"
    have sl: "skiplist_at (zs_heap zs) (zs_zsl zs) (take start ns @ ?mid @ drop ?k (drop start ns))"
      unfolding append_take_drop_id by (rule f(1))
    have d: "drop start ns = ns ! start # drop (Suc start) ns" using ss f(7) by (simp add: Cons_nth_drop_Suc)
    have hd: "(case ?mid @ drop ?k (drop start ns) of [] \<Rightarrow> None | y # ys \<Rightarrow> Some y) = Some (ns ! start)"
      unfolding append_take_drop_id d by simp
    have "(if start > 0 then zslGetElementByRank (start + 1) (zs_heap zs, zs_zsl zs)
        else map_option fst (level_at (zs_heap zs) (zsl_header (zs_zsl zs)) 0)) = Some (Some (ns ! start))"
    proof (cases "start = 0")
      case True
      then show ?thesis using header_level [OF f(1)] ss f(7) by (cases ns) auto
    next
      case False
      then show ?thesis using zslGetElementByRank_correct [OF f(1,9), of "start + 1"] ss f(7) by simp
    qed
    moreover have "zrange_loop False (zs_heap zs) (length ?mid) (Some (ns ! start)) = Some (map (elem (zs_heap zs)) ?mid)"
      using zrange_loop_forward [OF sl] unfolding hd .
    moreover have "length ?mid = stop - start + 1" using ss f(7) by auto
    moreover have "map (elem (zs_heap zs)) ?mid = zslice i j xs" using ss f(2) by (metis drop_map take_map)
    ultimately show ?thesis using Some p by (simp add: zset_range_def f(8))
  qed
qed

lemma range_backward:
  assumes rep: "zset_rep n zs ns xs"
  shows "zset_range True i j zs = Some (zslice i j (rev xs))"
proof -
  note f = rep_facts [OF rep]
  show ?thesis
  proof (cases "sanitise (int (length xs)) i j")
    case None
    then show ?thesis using sanitise_slice(1) [of "rev xs" i j]
      by (simp add: zset_range_def f(8))
  next
    case (Some p)
    obtain start stop where p: "p = (start, stop)" by (cases p)
    have ss: "start \<le> stop" "stop < length xs" "zslice i j (rev xs) = take (Suc stop - start) (drop start (rev xs))"
      using sanitise_slice(2) [of "rev xs" i j start stop] Some p by auto
    define m k where "m = length ns - start" and "k = Suc stop - start"
    let ?mid = "drop (m - k) (take m ns)"
    have mk: "0 < m" "m \<le> length ns" "k \<le> m" "k = stop - start + 1" using ss f(7) by (auto simp: m_def k_def)
    have "take (m - k) (take m ns) = take (m - k) ns" using mk by (simp add: min_def)
    then have sm: "take (m - k) ns @ ?mid = take m ns" by (metis append_take_drop_id)
    have "(take (m - k) ns @ ?mid) @ drop m ns = ns" unfolding sm by simp
    then have sl: "skiplist_at (zs_heap zs) (zs_zsl zs) (take (m - k) ns @ ?mid @ drop m ns)" using f(1) by simp
    have lo: "last_opt (take m ns) = Some (ns ! (m - 1))" using mk by (auto simp: last_opt_def last_conv_nth min_def)
    have "(if start > 0 then zslGetElementByRank (zset_length zs - start) (zs_heap zs, zs_zsl zs)
        else Some (zsl_tail (zs_zsl zs))) = Some (Some (ns ! (m - 1)))"
    proof (cases "start = 0")
      case True
      then show ?thesis using f(1) lo by (simp add: skiplist_at_def m_def)
    next
      case False
      have "(zsl_header (zs_zsl zs) # ns) ! m = ns ! (m - 1)" using mk by (cases m) auto
      then show ?thesis using False zslGetElementByRank_correct [OF f(1,9), of m] mk f(7,8) by (simp add: m_def)
    qed
    moreover have "zrange_loop True (zs_heap zs) (length ?mid) (Some (ns ! (m - 1))) = Some (rev (map (elem (zs_heap zs)) ?mid))"
      using zrange_loop_backward [OF sl] unfolding sm lo .
    moreover have "length ?mid = stop - start + 1" using mk by simp
    moreover have "drop start (rev ns) = rev (take m ns)" "length (take m ns) = m" using mk(2) by (simp_all add: drop_rev m_def)
    then have "rev ?mid = take k (drop start (rev ns))" by (simp add: take_rev)
    then have "rev (map (elem (zs_heap zs)) ?mid) = take k (drop start (rev (map (elem (zs_heap zs)) ns)))"
      by (metis drop_map rev_map take_map)
    then have "rev (map (elem (zs_heap zs)) ?mid) = zslice i j (rev xs)" using ss(3) f(2) k_def by metis
    ultimately show ?thesis using Some p by (simp add: zset_range_def f(8))
  qed
qed

lemma rank_rep:
  assumes rep: "zset_rep n zs ns xs"
  shows "zset_rank reverse ele zs =
    Some (if zlookup xs ele = None then None else Some (zposition ele (if reverse then rev xs else xs)))"
proof -
  note f = rep_facts [OF rep]
  show ?thesis
  proof (cases "zlookup xs ele")
    case None
    then show ?thesis by (simp add: zset_rank_def f(4))
  next
    case (Some score)
    obtain A B where ab: "xs = A @ (score, ele) # B" "ele \<notin> snd ` set A" "ele \<notin> snd ` set B"
      using f(3) Some by (meson zlookup_Some)
    obtain s x post where ns: "ns = s @ x # post" "map (elem (zs_heap zs)) s = A" "elem (zs_heap zs) x = (score, ele)"
      using ab(1) f(2) by (auto simp: map_eq_append_conv map_eq_Cons_conv)
    have "sorted_wrt key_less (map (elem (zs_heap zs)) ns)" "distinct (map (snd \<circ> elem (zs_heap zs)) ns)"
      using f(2,3) by (metis, metis map_map)
    then have "zslGetRank score ele (zs_heap zs, zs_zsl zs) = Some (Suc (length s))"
      using zslGetRank_correct(1) [OF f(1,9) _ _ ns(1,3)] by blast
    moreover have "length s = length A" using ns(2) by auto
    moreover have "zposition ele xs = length A" "zposition ele (rev xs) = length B"
      using ab by (auto simp: zposition_def takeWhile_append takeWhile_eq_all_conv image_iff)
    ultimately show ?thesis using Some ab(1) by (simp add: zset_rank_def f(4,8))
  qed
qed

lemma count_rep:
  assumes rep: "zset_rep n zs ns xs"
  shows "zset_count rng zs = Some (int (length (filter (\<lambda>x. in_score_range rng (fst x)) xs)))"
proof -
  note f = rep_facts [OF rep]
  let ?H = "zs_heap zs" and ?P = "\<lambda>x. in_score_range rng (zn_score (node (zs_heap zs) x))"
  have ord: "sorted_wrt key_less (map (elem ?H) ns)" and dist: "distinct (map (snd \<circ> elem ?H) ns)"
    using f(2,3) by (metis, metis map_map)
  have rank: "node_rank x zs = Some (Suc (length s))" if "ns = s @ x # t" for s x t
  proof -
    have "x \<in> set ns" using that by simp
    then obtain m where m: "?H x = Some m" "zn_obj m = Some (snd (elem ?H x))" "zn_score m = fst (elem ?H x)" by (rule node_facts [OF f(1)])
    then show ?thesis using zslGetRank_correct(1) [OF f(1,9) ord dist that] by (simp add: node_rank_def)
  qed
  have fst_last: "zslFirstInRange rng (?H, zs_zsl zs) = Some (find ?P ns)" "zslLastInRange rng (?H, zs_zsl zs) = Some (find ?P (rev ns))"
    using zslFirstInRange_correct [OF f(1,9) ord] zslLastInRange_correct [OF f(1,9) ord] by blast+
  have flt: "length (filter (\<lambda>x. in_score_range rng (fst x)) xs) = length (filter ?P ns)"
    using f(2) by (auto simp: filter_map comp_def elem_def)
  show ?thesis
  proof (cases "find ?P ns")
    case None
    then have "filter ?P ns = []" by (simp add: find_None_iff_all filter_empty_conv)
    then show ?thesis using None fst_last(1) flt by (simp add: zset_count_def)
  next
    case (Some x)
    then obtain i where i: "i < length ns" "?P x" "x = ns ! i" "\<forall>j<i. \<not> ?P (ns ! j)" by (auto simp: find_Some_iff)
    have "find ?P (rev ns) \<noteq> None" using i(1-3) by (auto simp: find_None_iff_all)
    then obtain y where y: "find ?P (rev ns) = Some y" by blast
    then obtain k where k: "k < length ns" "?P y" "y = rev ns ! k" "\<forall>j<k. \<not> ?P (rev ns ! j)" by (auto simp: find_Some_iff)
    define l where "l = length ns - Suc k"
    have l: "l < length ns" "y = ns ! l" "\<forall>j. l < j \<and> j < length ns \<longrightarrow> \<not> ?P (ns ! j)"
    proof -
      show "l < length ns" using k(1) by (simp add: l_def)
      show "y = ns ! l" using k(1,3) by (simp add: rev_nth l_def)
      show "\<forall>j. l < j \<and> j < length ns \<longrightarrow> \<not> ?P (ns ! j)"
      proof (intro allI impI)
        fix j assume j: "l < j \<and> j < length ns"
        then have "rev ns ! (length ns - Suc j) = ns ! j" "length ns - Suc j < k" using k(1) by (auto simp: rev_nth l_def)
        then show "\<not> ?P (ns ! j)" using k(4) by metis
      qed
    qed
    have il: "i \<le> l" using i(2,3) l(3) i(1) by (metis not_le_imp_less)
    note between = bounds_between [OF score_bounds [OF ord, of rng], folded in_score_range_def]
    have "?P (ns ! j)" if "i \<le> j" "j \<le> l" for j using between [of i j l] that i l k(2) by (auto simp: in_score_range_def)
    then have cnt: "length (filter ?P ns) = Suc l - i" using i(4) l(1,3) il by (intro filter_block) auto
    have r: "node_rank x zs = Some (Suc i)" "node_rank y zs = Some (Suc l)"
      using rank [of "take i ns" x "drop (Suc i) ns"] rank [of "take l ns" y "drop (Suc l) ns"] i(1,3) l(1,2)
      by (simp_all add: id_take_nth_drop [symmetric])
    have c1: "to_signed 32 (int (length xs) - int i) = int (length xs) - int i" using i(1) f(6,7) by (intro to_signed_id) auto
    have c2: "to_signed 32 (int (length xs) - int i - (int (length xs) - int (Suc l))) = int (Suc l - i)"
      using il l(1) f(6,7) by (subst to_signed_id) auto
    have "zset_count rng zs = Some (to_signed 32 (to_signed 32 (int (length xs) - int i) - (int (length xs) - int (Suc l))))"
      using Some y r fst_last by (simp add: zset_count_def f(10))
    then show ?thesis unfolding c1 c2 flt cnt .
  qed
qed

section \<open>Updates\<close>

lemma add_new_rep:
  assumes rep: "zset_rep (Suc n) zs ns xs" and al: "fresh_zalloc alloc" and lev: "1 \<le> level" "level \<le> ZSKIPLIST_MAXLEVEL"
    and new: "zlookup xs ele = None"
  shows "\<exists>H z ns'. zslInsert u level (alloc (zs_heap zs)) score ele (zs_heap zs, zs_zsl zs) = Some (H, z)
    \<and> zset_rep n \<lparr>zs_dict = (zs_dict zs)(ele \<mapsto> score), zs_heap = H, zs_zsl = z\<rparr> ns' (zinsert (score, ele) xs)"
proof -
  note f = rep_facts [OF rep]
  have a: "alloc (zs_heap zs) \<notin> dom (zs_heap zs)" using al f(5) by (simp add: fresh_zalloc_def)
  have n: "ele \<notin> snd ` set xs" using new by (simp add: zlookup_None)
  have l: "length xs < 2 ^ 31" using f(6) by simp
  obtain H z ns' where i: "zslInsert u level (alloc (zs_heap zs)) score ele (zs_heap zs, zs_zsl zs) = Some (H, z)" "skiplist_at H z ns'"
    "map (elem H) ns' = zinsert (score, ele) xs" "finite (dom H)"
    using insert_rep [OF f(1,2,3,5) l a lev n, of u score] by blast
  have n': "snd (score, ele) \<notin> snd ` set xs" using n by simp
  have "length (zinsert (score, ele) xs) = Suc (length xs)"
    by (simp add: zinsert_def) (metis append_take_drop_id length_append takeWhile_dropWhile_id)
  then have "zset_rep n \<lparr>zs_dict = (zs_dict zs)(ele \<mapsto> score), zs_heap = H, zs_zsl = z\<rparr> ns' (zinsert (score, ele) xs)"
    using i zinsert_sorted [OF f(3) n'] f(4,6) by (simp add: zset_rep_def)
  then show ?thesis using i(1) by blast
qed

lemma remove_rep:
  assumes rep: "zset_rep n zs ns xs" and old: "zlookup xs ele = Some score"
  shows "\<exists>H z ns'. zslDelete score ele (zs_heap zs, zs_zsl zs) = Some ((H, z), True)
    \<and> zset_rep (Suc n) \<lparr>zs_dict = (zs_dict zs)(ele := None), zs_heap = H, zs_zsl = z\<rparr> ns' (zremove ele xs)"
proof -
  note f = rep_facts [OF rep]
  obtain A B where ab: "xs = A @ (score, ele) # B" using f(3) old by (meson zlookup_Some)
  have s: "sorted_wrt key_less (A @ (score, ele) # B)" and d: "distinct (map snd (A @ (score, ele) # B))" using f(3) ab by auto
  have m: "map (elem (zs_heap zs)) ns = A @ (score, ele) # B" using f(2) ab by simp
  have l: "length ns < 2 ^ 31" using f(6,7) by simp
  obtain H z ns' where r: "zslDelete score ele (zs_heap zs, zs_zsl zs) = Some ((H, z), True)" "skiplist_at H z ns'"
    "map (elem H) ns' = A @ B" "finite (dom H)" using delete_rep [OF f(1) m s f(5) l] by blast
  have z: "zremove ele xs = A @ B" using zremove_mid [OF d] ab by simp
  have "zsorted (A @ B)" using s d by (auto simp: sorted_wrt_append)
  moreover have "zlookup (A @ B) = (zlookup xs)(ele := None)" using zlookup_mid(2) [OF d] ab by simp
  ultimately have "zset_rep (Suc n) \<lparr>zs_dict = (zs_dict zs)(ele := None), zs_heap = H, zs_zsl = z\<rparr> ns' (zremove ele xs)"
    unfolding z using r f(4,6) ab by (simp add: zset_rep_def)
  then show ?thesis using r(1) by blast
qed

lemma rep_weaken: "zset_rep n zs ns xs \<Longrightarrow> m \<le> n \<Longrightarrow> zset_rep m zs ns xs"
  by (auto simp: zset_rep_def)

lemma zlookup_zremove: "zlookup (zremove ele xs) ele = None"
  by (auto simp: zlookup_None zremove_def)

text \<open>The case of an update: the hash table keeps its entry, with another value.\<close>

lemma add_rep:
  assumes rep: "zset_rep (Suc n) zs ns xs" and al: "fresh_zalloc alloc" and lev: "1 \<le> level" "level \<le> ZSKIPLIST_MAXLEVEL"
  shows "\<exists>zs' r ns' xs'. zadd_element alloc add u level nx xx incr score0 ele zs = Some (zs', r) \<and> zset_rep n zs' ns' xs'
    \<and> zset_spec add (Zadd level nx xx incr score0 ele) xs = (xs', Radd r)"
proof (cases "zlookup xs ele")
  case None
  note f = rep_facts [OF rep]
  have w: "zset_rep n zs ns xs" using rep by (rule rep_weaken) simp
  obtain H z ns' where "zslInsert u level (alloc (zs_heap zs)) score0 ele (zs_heap zs, zs_zsl zs) = Some (H, z)"
    "zset_rep n \<lparr>zs_dict = (zs_dict zs)(ele \<mapsto> score0), zs_heap = H, zs_zsl = z\<rparr> ns' (zinsert (score0, ele) xs)"
    using add_new_rep [OF rep al lev None] by blast
  then show ?thesis using None w f(4) by (cases xx) (auto simp: zadd_element_def)
next
  case (Some cur)
  note f = rep_facts [OF rep]
  have w: "zset_rep n zs ns xs" using rep by (rule rep_weaken) simp
  show ?thesis
  proof (cases "if nx then None else if incr then add score0 cur else Some score0")
    case None
    then show ?thesis using Some w f(4) by (auto simp: zadd_element_def split: if_splits)
  next
    case new: (Some score)
    show ?thesis
    proof (cases "score = cur")
      case True
      then show ?thesis using Some new w f(4) by (auto simp: zadd_element_def split: if_splits)
    next
      case False
      obtain H1 z1 ns1 where d: "zslDelete cur ele (zs_heap zs, zs_zsl zs) = Some ((H1, z1), True)"
        "zset_rep (Suc (Suc n)) \<lparr>zs_dict = (zs_dict zs)(ele := None), zs_heap = H1, zs_zsl = z1\<rparr> ns1 (zremove ele xs)"
        using remove_rep [OF rep Some] by blast
      have r1: "zset_rep (Suc n) \<lparr>zs_dict = (zs_dict zs)(ele := None), zs_heap = H1, zs_zsl = z1\<rparr> ns1 (zremove ele xs)"
        using d(2) by (rule rep_weaken) simp
      obtain H2 z2 ns2 where i: "zslInsert u level (alloc H1) score ele (H1, z1) = Some (H2, z2)"
        "zset_rep n \<lparr>zs_dict = (zs_dict zs)(ele \<mapsto> score), zs_heap = H2, zs_zsl = z2\<rparr> ns2 (zinsert (score, ele) (zremove ele xs))"
        using add_new_rep [OF r1 al lev zlookup_zremove, of u score] by auto
      have "zadd_element alloc add u level nx xx incr score0 ele zs =
          Some (\<lparr>zs_dict = (zs_dict zs)(ele \<mapsto> score), zs_heap = H2, zs_zsl = z2\<rparr>, Zadd_updated score)"
        using Some new False d(1) i(1) f(4) by (auto simp: zadd_element_def split: if_splits)
      moreover have "zset_spec add (Zadd level nx xx incr score0 ele) xs = (zinsert (score, ele) (zremove ele xs), Radd (Zadd_updated score))"
        using Some new False by (auto split: if_splits)
      ultimately show ?thesis using i(2) by blast
    qed
  qed
qed

lemma rem_rep:
  assumes rep: "zset_rep n zs ns xs"
  shows "\<exists>zs' r ns'. zrem_element ele zs = Some (zs', r) \<and> zset_rep n zs' ns' (zremove ele xs) \<and> r = (zlookup xs ele \<noteq> None)"
proof (cases "zlookup xs ele")
  case None
  then have "zremove ele xs = xs" by (auto simp: zlookup_None zremove_def filter_id_conv image_iff)
  then show ?thesis using rep None rep_facts(4) [OF rep] by (auto simp: zrem_element_def)
next
  case (Some score)
  then obtain H z ns' where r: "zslDelete score ele (zs_heap zs, zs_zsl zs) = Some ((H, z), True)"
    "zset_rep (Suc n) \<lparr>zs_dict = (zs_dict zs)(ele := None), zs_heap = H, zs_zsl = z\<rparr> ns' (zremove ele xs)"
    using remove_rep [OF rep] by blast
  have "zset_rep n \<lparr>zs_dict = (zs_dict zs)(ele := None), zs_heap = H, zs_zsl = z\<rparr> ns' (zremove ele xs)"
    using r(2) by (rule rep_weaken) simp
  then show ?thesis using r(1) Some rep_facts(4) [OF rep] by (auto simp: zrem_element_def)
qed

lemma remove_run_rep:
  assumes rep: "zset_rep n zs ns xs" and parts: "xs = A @ M @ B"
    and adv: "\<And>s post. map (elem (zs_heap zs)) s = A \<Longrightarrow> ns = s @ post \<Longrightarrow> divides (zs_heap zs) adv 0 s post"
    and st: "by_elem cond"
    and c: "\<And>k x m. k < length M \<Longrightarrow> zn_score m = fst (M ! k) \<Longrightarrow> zn_obj m = Some (snd (M ! k)) \<Longrightarrow> cond (Suc (length A + k)) m"
      "\<And>m. B \<noteq> [] \<Longrightarrow> zn_score m = fst (hd B) \<Longrightarrow> zn_obj m = Some (snd (hd B)) \<Longrightarrow> \<not> cond (Suc (length A + length M)) m"
  shows "\<exists>H z d ns'. zsl_delete_range adv cond (zs_heap zs, zs_zsl zs, zs_dict zs) = Some (H, z, d, length M)
    \<and> zset_rep n \<lparr>zs_dict = d, zs_heap = H, zs_zsl = z\<rparr> ns' (filter (\<lambda>x. x \<notin> set M) xs)"
proof -
  note f = rep_facts [OF rep]
  let ?H = "zs_heap zs"
  obtain s tl where "ns = s @ tl" "map (elem ?H) s = A" "map (elem ?H) tl = M @ B" using f(2) parts map_eq_append_conv [of "elem ?H" ns A "M @ B"] by metis
  then obtain mid rest where ns: "ns = s @ mid @ rest" "map (elem ?H) s = A" "map (elem ?H) mid = M" "map (elem ?H) rest = B"
    using map_eq_append_conv [of "elem ?H" tl M B] by metis
  have nd: "zn_score (node ?H x) = fst (elem ?H x) \<and> zn_obj (node ?H x) = Some (snd (elem ?H x))" if "x \<in> set ns" for x
    using node_facts [OF f(1) that] by (metis option.sel)
  have sl: "skiplist_at ?H (zs_zsl zs) (s @ mid @ rest)" and len: "length (s @ mid @ rest) < 2 ^ 32 - 1" using f(1,9) ns(1) by simp_all
  have lens: "length s = length A" "length mid = length M" using ns(2,3) by auto
  have c1: "\<forall>k<length mid. cond (Suc (length s + k)) (node ?H (mid ! k))"
  proof (intro allI impI)
    fix k assume k: "k < length mid"
    then have "M ! k = elem ?H (mid ! k)" "mid ! k \<in> set ns" using ns(1,3) by auto
    then show "cond (Suc (length s + k)) (node ?H (mid ! k))" using c(1) [of k] nd [of "mid ! k"] k lens by simp
  qed
  have c2: "\<not> cond (Suc (length s + length mid)) (node ?H (hd rest))" if "rest \<noteq> []"
  proof -
    have "hd B = elem ?H (hd rest)" "hd rest \<in> set ns" "B \<noteq> []" using that ns(1,4) by (auto simp: hd_map)
    then show ?thesis using c(2) nd [of "hd rest"] lens by simp
  qed
  obtain H z where r: "zsl_delete_range adv cond (?H, zs_zsl zs, zs_dict zs) = Some (H, z, zs_dict zs |` (- (\<lambda>x. snd (elem ?H x)) ` set mid), length mid)"
    "skiplist_at H z (s @ rest)" "dom H = dom ?H - set mid" "\<forall>y. y \<notin> set mid \<longrightarrow> elem H y = elem ?H y"
    using zsl_delete_range_correct [OF sl len adv [OF ns(2,1)] st c1 c2] by blast
  have "distinct (s @ mid @ rest)" using sl by (simp add: skiplist_at_def)
  then have "map (elem H) (s @ rest) = map (elem ?H) (s @ rest)" using r(4) by auto
  then have m: "map (elem H) (s @ rest) = A @ B" using ns(2,4) by simp
  have dist: "distinct (map snd xs)" "distinct xs" using f(3) distinct_map by blast+
  then have "filter (\<lambda>x. x \<notin> set M) A = A" "filter (\<lambda>x. x \<notin> set M) B = B" using parts by (auto simp: filter_id_conv)
  then have flt: "filter (\<lambda>x. x \<notin> set M) xs = A @ B" using parts by simp
  have "filter (\<lambda>x. snd x \<notin> snd ` set M) A = A" "filter (\<lambda>x. snd x \<notin> snd ` set M) B = B"
    "filter (\<lambda>x. snd x \<notin> snd ` set M) M = []"
    using dist(1) parts by (auto simp: filter_id_conv filter_empty_conv)
  then have "A @ B = filter (\<lambda>x. snd x \<notin> snd ` set M) xs" using parts by simp
  then have "zlookup (A @ B) = zlookup xs |` (- (snd ` set M))" using zlookup_restrict by metis
  moreover have "(\<lambda>x. snd (elem ?H x)) ` set mid = snd ` set M" by (simp add: ns(3) [symmetric] image_image)
  moreover have "zsorted (A @ B)" using f(3) parts by (auto simp: sorted_wrt_append)
  moreover have "length (A @ B) \<le> length xs" using parts by simp
  ultimately have "zset_rep n \<lparr>zs_dict = zs_dict zs |` (- (\<lambda>x. snd (elem ?H x)) ` set mid), zs_heap = H, zs_zsl = z\<rparr> (s @ rest) (A @ B)"
    using r(2,3) m f(4,5,6) by (simp add: zset_rep_def)
  then show ?thesis using r(1) lens(2) flt by auto
qed

lemma remrange_rank_rep:
  assumes rep: "zset_rep n zs ns xs"
  shows "\<exists>zs' ns'. zset_remrange_rank i j zs = Some (zs', length (zslice i j xs))
    \<and> zset_rep n zs' ns' (filter (\<lambda>x. x \<notin> set (zslice i j xs)) xs)"
proof (cases "sanitise (int (length xs)) i j")
  case None
  then show ?thesis using rep sanitise_slice(1) [OF None] rep_facts(8) [OF rep] by (auto simp: zset_remrange_rank_def)
next
  case (Some p)
  note f = rep_facts [OF rep]
  obtain start stop where p: "p = (start, stop)" by (cases p)
  note ss = sanitise_slice(2) [OF Some [unfolded p]]
  define k where "k = Suc stop - start"
  have M: "zslice i j xs = take k (drop start xs)" using ss by (simp add: k_def)
  have len: "length (take start xs) = start" "length (take k (drop start xs)) = k" using ss by (auto simp: k_def)
  have parts: "xs = take start xs @ take k (drop start xs) @ drop k (drop start xs)" unfolding append_take_drop_id ..
  have dv: "divides (zs_heap zs) (\<lambda>t _. t < start + 1) 0 s post"
    if "map (elem (zs_heap zs)) s = take start xs" "ns = s @ post" for s post
  proof -
    have "length s = start" using that(1) len(1) by (metis length_map)
    then show ?thesis by (auto simp: divides_def)
  qed
  have "\<exists>H z d ns'. zsl_delete_range (\<lambda>t _. t < start + 1) (\<lambda>t _. t \<le> stop + 1) (zs_heap zs, zs_zsl zs, zs_dict zs)
      = Some (H, z, d, length (take k (drop start xs)))
    \<and> zset_rep n \<lparr>zs_dict = d, zs_heap = H, zs_zsl = z\<rparr> ns' (filter (\<lambda>x. x \<notin> set (take k (drop start xs))) xs)"
    using ss by (intro remove_run_rep [OF rep parts dv]) (auto simp: by_elem_def len k_def)
  then show ?thesis using Some p f(8) unfolding M zset_remrange_rank_def zslDeleteRangeByRank_def by auto
qed

lemma score_bounds_list: "sorted_wrt key_less xs \<Longrightarrow> bounds_along (\<lambda>x. zslValueGteMin (fst x) rng) (\<lambda>x. zslValueLteMax (fst x) rng) xs"
  unfolding bounds_along_def
  by (erule sorted_wrt_mono_rel [rotated]) (auto simp: key_less_def zslValueGteMin_def zslValueLteMax_def split: if_splits)

lemma remrange_score_rep:
  assumes rep: "zset_rep n zs ns xs"
  shows "\<exists>zs' ns'. zset_remrange_score rng zs = Some (zs', length (filter (\<lambda>x. in_score_range rng (fst x)) xs))
    \<and> zset_rep n zs' ns' (filter (\<lambda>x. \<not> in_score_range rng (fst x)) xs)"
proof -
  note f = rep_facts [OF rep]
  let ?lo = "\<lambda>x. zslValueGteMin (fst x) rng" and ?hi = "\<lambda>x. zslValueLteMax (fst x) rng"
  define A M B where "A = takeWhile (\<lambda>x. \<not> ?lo x) xs" and "M = takeWhile ?hi (dropWhile (\<lambda>x. \<not> ?lo x) xs)"
    and "B = dropWhile ?hi (dropWhile (\<lambda>x. \<not> ?lo x) xs)"
  have parts: "xs = A @ M @ B" by (simp add: A_def M_def B_def)
  have ba: "bounds_along ?lo ?hi xs" using f(3) by (simp add: score_bounds_list)
  have M: "filter (\<lambda>x. in_score_range rng (fst x)) xs = M" unfolding M_def in_score_range_def by (rule bounds_filter [OF ba])
  have outside: "filter (\<lambda>x. \<not> in_score_range rng (fst x)) xs = filter (\<lambda>x. x \<notin> set M) xs" unfolding M [symmetric] by (rule filter_cong) auto
  have hiM: "?hi x" if "x \<in> set M" for x using that unfolding M_def by (rule conjunct2 [OF set_takeWhileD])
  have hiB: "\<not> ?hi (hd B)" if "B \<noteq> []" using that unfolding B_def by (rule hd_dropWhile)
  have mb: "M @ B = dropWhile (\<lambda>x. \<not> ?lo x) xs" by (simp add: M_def B_def)
  have loMB: "?lo x" if "x \<in> set (M @ B)" for x using that unfolding mb by (rule bounds_dropWhile [OF ba])
  have loA: "\<not> ?lo x" if "x \<in> set A" for x using that unfolding A_def by (rule conjunct2 [OF set_takeWhileD])
  have dv: "divides (zs_heap zs) (\<lambda>_ n. if zr_minex rng then zn_score n \<le> zr_min rng else zn_score n < zr_min rng) 0 s post"
    if sp: "map (elem (zs_heap zs)) s = A" "ns = s @ post" for s post
  proof (rule dividesI)
    have e: "map (elem (zs_heap zs)) post = M @ B" using sp f(2) parts by simp
    have lo: "\<not> ?lo (elem (zs_heap zs) y) \<longleftrightarrow>
        (if zr_minex rng then zn_score (node (zs_heap zs) y) \<le> zr_min rng else zn_score (node (zs_heap zs) y) < zr_min rng)" for y
      by (auto simp: zslValueGteMin_def elem_def)
    show "if zr_minex rng then zn_score (node (zs_heap zs) y) \<le> zr_min rng else zn_score (node (zs_heap zs) y) < zr_min rng"
      if "y \<in> set s" for y unfolding lo [symmetric] using loA sp(1) that by (metis image_eqI image_set)
    show "\<not> (if zr_minex rng then zn_score (node (zs_heap zs) y) \<le> zr_min rng else zn_score (node (zs_heap zs) y) < zr_min rng)"
      if "y \<in> set post" for y unfolding lo [symmetric] using loMB e that by (metis image_eqI image_set)
  qed
  have "\<exists>H z d ns'. zslDeleteRangeByScore rng (zs_heap zs, zs_zsl zs, zs_dict zs) = Some (H, z, d, length M)
    \<and> zset_rep n \<lparr>zs_dict = d, zs_heap = H, zs_zsl = z\<rparr> ns' (filter (\<lambda>x. x \<notin> set M) xs)"
    unfolding zslDeleteRangeByScore_def
  proof (rule remove_run_rep [OF rep parts dv])
    show "by_elem (\<lambda>_ n. if zr_maxex rng then zn_score n < zr_max rng else zn_score n \<le> zr_max rng)" by (simp add: by_elem_def)
    show "if zr_maxex rng then zn_score m < zr_max rng else zn_score m \<le> zr_max rng"
      if "k < length M" "zn_score m = fst (M ! k)" for k m using hiM [of "M ! k"] that by (simp add: zslValueLteMax_def)
    show "\<not> (if zr_maxex rng then zn_score m < zr_max rng else zn_score m \<le> zr_max rng)"
      if "B \<noteq> []" "zn_score m = fst (hd B)" for m using hiB that by (auto simp: zslValueLteMax_def)
  qed
  then show ?thesis unfolding M outside zset_remrange_score_def by auto
qed

section \<open>Sequences of commands\<close>

definition zset_room :: "nat \<Rightarrow> 's::linorder zset \<Rightarrow> bool" where
  "zset_room n zs \<longleftrightarrow> (\<exists>ns xs. zset_rep n zs ns xs)"

lemma members_rep: "zset_rep n zs ns xs \<Longrightarrow> zset_members zs = xs"
  by (simp add: zset_members_def range_forward zslice_def)

lemma zset_step_sim:
  assumes "zset_room (Suc n) zs" and "zset_legal x" and al: "fresh_zalloc alloc"
  shows "\<exists>zs' r. zset_step alloc add u x zs = Some (zs', r) \<and> zset_room n zs' \<and> zset_spec add x (zset_members zs) = (zset_members zs', r)"
proof -
  obtain ns xs where rep: "zset_rep (Suc n) zs ns xs" using assms(1) by (auto simp: zset_room_def)
  then have w: "zset_rep n zs ns xs" by (rule rep_weaken) simp
  then have rm: "zset_room n zs" by (auto simp: zset_room_def)
  note mem = members_rep [OF w] members_rep
  show ?thesis
  proof (cases x)
    case (Zadd level nx xx incr score ele)
    then show ?thesis using add_rep [OF rep al, of level add u nx xx incr score ele] assms(2)
      by (fastforce simp: mem zset_room_def simp del: zset_spec.simps)
  next
    case (Zrem ele)
    then show ?thesis using rem_rep [OF w, of ele] by (fastforce simp: mem zset_room_def)
  next
    case (Zscore ele)
    then show ?thesis using rm rep_facts(4) [OF w] by (simp add: mem zset_score_def)
  next
    case Zcard
    then show ?thesis using rm rep_facts(8) [OF w] by (simp add: mem)
  next
    case (Zrank reverse ele)
    then show ?thesis using rm rank_rep [OF w, of reverse ele] by (simp add: mem)
  next
    case (Zrange reverse i j)
    then show ?thesis using rm range_forward [OF w, of i j] range_backward [OF w, of i j] by (cases reverse) (simp_all add: mem)
  next
    case (Zremrangebyrank i j)
    then show ?thesis using remrange_rank_rep [OF w, of i j] by (fastforce simp: mem zset_room_def)
  next
    case (Zremrangebyscore rng)
    then show ?thesis using remrange_score_rep [OF w, of rng] by (fastforce simp: mem zset_room_def)
  next
    case (Zcount rng)
    then show ?thesis using rm count_rep [OF w, of rng] by (simp add: mem)
  qed
qed

end
