(* ===== verification/ZsetProps.thy ===== *)
theory ZsetProps
  imports ZsetSim
begin

text \<open>
  The properties of sorted sets: sequences of commands do what they do on a sorted list of members, the two
  structures stay in step, levels are in bounds, and one family of lexicographic ranges is taken for empty.
\<close>

section \<open>Sequences of commands\<close>

interpretation zset_ops: budget_simulation "zset_step alloc add u" "zset_spec add" zset_members zset_room
  "\<lambda>x. zset_legal x \<and> fresh_zalloc alloc"
  for alloc :: "'s::linorder zheap \<Rightarrow> zaddr" and add u
  by unfold_locales (auto intro: zset_step_sim)

lemma zset_create_rep:
  assumes "n < 2 ^ 31"
  shows "zset_rep n (zset_create u zero a) [] []"
proof -
  let ?n = "(zslCreateNode u ZSKIPLIST_MAXLEVEL zero None)
    \<lparr>zn_level := map (\<lambda>l. (None, 0)) (zn_level (zslCreateNode u ZSKIPLIST_MAXLEVEL zero None)), zn_backward := None\<rparr>"
  let ?H = "Map.empty(a \<mapsto> ?n)" and ?z = "\<lparr>zsl_header = a, zsl_tail = None, zsl_length = 0, zsl_level = 1\<rparr>"
  have z: "zset_create u zero a = \<lparr>zs_dict = Map.empty, zs_heap = ?H, zs_zsl = ?z\<rparr>"
    by (simp add: zset_create_def zslCreate_def Let_def)
  have h: "height ?H a = ZSKIPLIST_MAXLEVEL" by (simp add: height_def zslCreateNode_def)
  have "links_ok (height ?H) (cell ?H) 1 a []"
    unfolding links_ok_def h by (simp add: cell_def zslCreateNode_def)
  then have "skiplist_at ?H ?z []"
    using h by (simp add: skiplist_at_def zslCreateNode_def last_opt_def ZSKIPLIST_MAXLEVEL_def)
  then show ?thesis unfolding z using assms by (simp add: zset_rep_def zlookup_def)
qed

lemma zset_run:
  assumes "fresh_zalloc alloc" and "list_all zset_legal xs" and "length xs < 2 ^ 31"
  obtains zs rs ns ms where "run_ops (zset_step alloc add u) xs (zset_create v zero a) = Some (zs, rs)"
    and "run_spec (zset_spec add) xs [] = (ms, rs)" and "zset_members zs = ms" and "zset_rep 0 zs ns ms"
proof -
  let ?s = "zset_create v zero a"
  have rep: "zset_rep (length xs + 0) ?s [] []" using zset_create_rep [OF assms(3)] by simp
  then have "zset_room (length xs + 0) ?s" "zset_members ?s = []" by (auto simp: zset_room_def members_rep)
  moreover have "list_all (\<lambda>x. zset_legal x \<and> fresh_zalloc alloc) xs" using assms(1,2) by (simp add: list_all_iff)
  ultimately obtain zs rs where r: "run_ops (zset_step alloc add u) xs ?s = Some (zs, rs)" "zset_room 0 zs"
    "run_spec (zset_spec add) xs [] = (zset_members zs, rs)"
    using zset_ops.run_sim [of xs 0 ?s alloc add u] by auto
  obtain ns ms where "zset_rep 0 zs ns ms" using r(2) by (auto simp: zset_room_def)
  then show thesis using that [OF r(1) r(3)] members_rep by blast
qed

definition first_free_node :: "'s zheap \<Rightarrow> zaddr" where
  "first_free_node H = (LEAST p. H p = None)"

lemma first_free_node_fresh: "fresh_zalloc first_free_node"
  unfolding fresh_zalloc_def first_free_node_def
proof (intro allI impI)
  fix H :: "'a zheap" assume "finite (dom H)"
  then obtain p where "p \<notin> dom H" using ex_new_if_finite infinite_UNIV_nat by blast
  then show "(LEAST p. H p = None) \<notin> dom H" using LeastI [of "\<lambda>p. H p = None" p] by (simp add: domIff)
qed

section \<open>Properties\<close>

text \<open>
  C3.  Sorted sets are sorted lists of scores and members.  Whatever sequence of the commands \<open>ZADD\<close> (with
  \<open>NX\<close>, \<open>XX\<close>, \<open>INCR\<close>), \<open>ZREM\<close>, \<open>ZSCORE\<close>, \<open>ZCARD\<close>, \<open>ZRANK\<close>, \<open>ZRANGE\<close>, \<open>ZREMRANGEBYRANK\<close>, \<open>ZREMRANGEBYSCORE\<close> and \<open>ZCOUNT\<close> is run
  on a new set, and whatever levels the random numbers give to the nodes: no assertion fails and no pointer
  is followed out of the structure, the replies are those that the sorted list determines, and \<open>ZRANGE\<close> from
  the first to the last member gives this list.
\<close>

theorem zset_refines_sorted_list:
  assumes "fresh_zalloc alloc" and "list_all zset_legal xs" and "length xs < 2 ^ 31"
  shows "\<exists>zs rs. run_ops (zset_step alloc add u) xs (zset_create v zero a) = Some (zs, rs)
    \<and> run_spec (zset_spec add) xs [] = (zset_members zs, rs)"
proof -
  obtain zs rs ns ms where "run_ops (zset_step alloc add u) xs (zset_create v zero a) = Some (zs, rs)"
    "run_spec (zset_spec add) xs [] = (ms, rs)" "zset_members zs = ms" "zset_rep 0 zs ns ms" by (rule zset_run [OF assms])
  then show ?thesis by blast
qed

theorem zset_refines_sorted_list_witness:
  "\<exists>zs. run_ops (zset_step first_free_node (\<lambda>x y. Some (x + y)) (None, 0))
      [Zadd 3 False False False (20::int) [98], Zadd 1 False False False 10 [97], Zadd 32 False False True 5 [98], Zrank True [97],
       Zadd 2 True False False 9 [97], Zcount \<lparr>zr_min = 10, zr_max = 25, zr_minex = True, zr_maxex = False\<rparr>, Zrange True 0 (- 1), Zrem [97]]
      (zset_create (None, 0) 0 0) = Some (zs,
      [Radd Zadd_added, Radd Zadd_added, Radd (Zadd_updated 25), Rrank (Some 1), Radd Zadd_skipped, Rcount 1,
       Rmembers [(25, [98]), (10, [97])], Rbool True])
    \<and> zset_members zs = [(25, [98])]"
proof -
  let ?xs = "[Zadd 3 False False False (20::int) [98], Zadd 1 False False False 10 [97], Zadd 32 False False True 5 [98], Zrank True [97],
       Zadd 2 True False False 9 [97], Zcount \<lparr>zr_min = 10, zr_max = 25, zr_minex = True, zr_maxex = False\<rparr>, Zrange True 0 (- 1), Zrem [97]]"
  have "run_spec (zset_spec (\<lambda>x y. Some (x + y))) ?xs [] = ([(25, [98])], [Radd Zadd_added, Radd Zadd_added, Radd (Zadd_updated 25), Rrank (Some 1),
       Radd Zadd_skipped, Rcount 1, Rmembers [(25, [98]), (10, [97])], Rbool True])"
    by (simp add: zlookup_def zinsert_def zremove_def zposition_def zslice_def key_less_def in_score_range_def
        zslValueGteMin_def zslValueLteMax_def)
  moreover have "list_all zset_legal ?xs" by (simp add: ZSKIPLIST_MAXLEVEL_def)
  ultimately show ?thesis using zset_refines_sorted_list [OF first_free_node_fresh, of ?xs "\<lambda>x y. Some (x + y)" "(None, 0)" "(None, 0)" 0 0]
    by (auto simp del: run_ops.simps run_spec.simps)
qed

text \<open>
  C19.  After any such sequence the skip list is well formed (every forward pointer of level \<open>i\<close> leads to the
  next node higher than \<open>i\<close>, every span is the distance, the backward pointers, the tail and the length fit),
  its nodes are strictly sorted by score and then by member, no member is there twice, and the hash table has
  the members of the skip list with their scores, no more and no less.
\<close>

theorem zset_structures_agree:
  assumes "fresh_zalloc alloc" and "list_all zset_legal xs" and "length xs < 2 ^ 31"
    and "run_ops (zset_step alloc add u) xs (zset_create v zero a) = Some (zs, rs)"
  shows "\<exists>ns. skiplist_at (zs_heap zs) (zs_zsl zs) ns \<and> sorted_wrt key_less (map (elem (zs_heap zs)) ns)
    \<and> distinct (map (snd \<circ> elem (zs_heap zs)) ns) \<and> zs_dict zs = zlookup (map (elem (zs_heap zs)) ns)"
proof -
  obtain zs' rs' ns ms where "run_ops (zset_step alloc add u) xs (zset_create v zero a) = Some (zs', rs')"
    "run_spec (zset_spec add) xs [] = (ms, rs')" "zset_members zs' = ms" "zset_rep 0 zs' ns ms" by (rule zset_run [OF assms(1-3)])
  then have "zset_rep 0 zs ns ms" using assms(4) by simp
  note f = rep_facts [OF this]
  have "distinct (map (snd \<circ> elem (zs_heap zs)) ns)" using f(2,3) by (metis map_map)
  then show ?thesis using f(1,3,4) unfolding f(2) [symmetric] by blast
qed

theorem zset_structures_agree_witness:
  "\<exists>zs rs ns. run_ops (zset_step first_free_node (\<lambda>x y. Some (x + y)) (None, 0))
      [Zadd 3 False False False (20::int) [98], Zadd 1 False False False 10 [97]] (zset_create (None, 0) 0 0) = Some (zs, rs)
    \<and> skiplist_at (zs_heap zs) (zs_zsl zs) ns \<and> zs_dict zs = zlookup (map (elem (zs_heap zs)) ns)"
proof -
  let ?xs = "[Zadd 3 False False False (20::int) [98], Zadd 1 False False False 10 [97]]"
  have l: "list_all zset_legal ?xs" "length ?xs < 2 ^ 31" by (simp_all add: ZSKIPLIST_MAXLEVEL_def)
  obtain zs rs ns ms where r: "run_ops (zset_step first_free_node (\<lambda>x y. Some (x + y)) (None, 0)) ?xs (zset_create (None, 0) 0 0) = Some (zs, rs)"
    "run_spec (zset_spec (\<lambda>x y. Some (x + y))) ?xs [] = (ms, rs)" "zset_members zs = ms" "zset_rep 0 zs ns ms"
    by (rule zset_run [OF first_free_node_fresh l])
  show ?thesis using zset_structures_agree [OF first_free_node_fresh l r(1)] r(1) by blast
qed

section \<open>Levels\<close>

primrec draw_state :: "('g \<Rightarrow> nat \<times> 'g) \<Rightarrow> nat \<Rightarrow> 'g \<Rightarrow> 'g" where
  "draw_state random 0 g = g"
| "draw_state random (Suc k) g = draw_state random k (snd (random g))"

lemma zslRandomLevel_loop_steps:
  assumes "\<forall>j<k. fst (random (draw_state random j g)) mod 65536 \<le> 16383"
    and "fst (random (draw_state random k g)) mod 65536 > 16383"
  shows "zslRandomLevel_loop random level g = Some (level + k, draw_state random (Suc k) g)"
  using assms
proof (induction k arbitrary: level g)
  case 0
  then show ?case by (cases "random g") (simp add: zslRandomLevel_loop.simps [of random level g])
next
  case (Suc k)
  have "fst (random g) mod 65536 \<le> 16383" using Suc.prems(1) by force
  moreover have "zslRandomLevel_loop random (level + 1) (snd (random g)) = Some (level + 1 + k, draw_state random (Suc k) (snd (random g)))"
    using Suc.prems by (intro Suc.IH) (auto dest: spec [of _ "Suc _"])
  ultimately show ?case by (cases "random g") (simp add: zslRandomLevel_loop.simps [of random level g])
qed

text \<open>
  \<open>zslRandomLevel\<close> returns as soon as the generator gives a number whose low 16 bits are above a quarter of
  their range, with one level more than the draws before it, and never outside \<open>1 .. ZSKIPLIST_MAXLEVEL\<close>: a
  new node fits the array of levels of the header, however long the run of small numbers is.
\<close>

lemma zslRandomLevel_bounds:
  assumes "\<forall>j<k. fst (random (draw_state random j g)) mod 65536 \<le> 16383"
    and "fst (random (draw_state random k g)) mod 65536 > 16383"
  shows "\<exists>level. zslRandomLevel random g = Some (level, draw_state random (Suc k) g)
    \<and> 1 \<le> level \<and> level \<le> ZSKIPLIST_MAXLEVEL \<and> (k < 32 \<longrightarrow> level = Suc k)"
proof -
  have "zslRandomLevel random g = Some (if 1 + k < ZSKIPLIST_MAXLEVEL then 1 + k else ZSKIPLIST_MAXLEVEL, draw_state random (Suc k) g)"
    unfolding zslRandomLevel_def zslRandomLevel_loop_steps [OF assms, of 1] by simp
  then show ?thesis by (simp add: ZSKIPLIST_MAXLEVEL_def)
qed

lemma zslRandomLevel_example:
  "zslRandomLevel (\<lambda>g. (if g < 40 then 7 else 20000, Suc g)) 0 = Some (32, 41)
    \<and> zslRandomLevel (\<lambda>g. (if g < 40 then 7 else 20000, Suc g)) 38 = Some (3, 41)"
proof -
  let ?r = "\<lambda>g. (if g < 40 then 7 else 20000, Suc g)"
  have d: "draw_state ?r j g = j + g" for j g by (induction j arbitrary: g) simp_all
  have "\<exists>level. zslRandomLevel ?r 38 = Some (level, draw_state ?r (Suc 2) 38) \<and> 1 \<le> level \<and> level \<le> ZSKIPLIST_MAXLEVEL
    \<and> ((2::nat) < 32 \<longrightarrow> level = Suc 2)"
    by (rule zslRandomLevel_bounds) (auto simp only: d, simp_all)
  then have a: "zslRandomLevel ?r 38 = Some (3, 41)" unfolding d by auto
  have "zslRandomLevel ?r 0 = Some (if 1 + 40 < ZSKIPLIST_MAXLEVEL then 1 + 40 else ZSKIPLIST_MAXLEVEL, draw_state ?r (Suc 40) 0)"
    unfolding zslRandomLevel_def using zslRandomLevel_loop_steps [of 40 ?r 0 1] unfolding d by auto
  then show ?thesis using a unfolding d by (simp add: ZSKIPLIST_MAXLEVEL_def)
qed

section \<open>Lexicographic ranges\<close>

text \<open>
  C39.  The test for empty ranges compares the ends by their contents although \<open>-\<close> and \<open>+\<close> stand for the
  smallest and the greatest string.  The shared object for \<open>-\<close> has the contents \<open>minstring\<close>, so the range
  \<open>- (minstring\<close> is taken for empty in every sorted set, and so are its first and last member missing,
  although the members below \<open>minstring\<close> are in it; in the same way \<open>(maxstring +\<close>.
\<close>

theorem lex_range_shared_contents:
  assumes "\<And>s. cmp s s = 0" and "cmp v (lex_value Minstring) < 0" and "cmp w (lex_value Maxstring) > 0"
  shows "\<exists>lo hi. zslParseLexRange [45] (40 # lex_value Minstring) = Some lo \<and> zslParseLexRange (40 # lex_value Maxstring) [43] = Some hi
    \<and> zslLexValueGteMin cmp v lo \<and> zslLexValueLteMax cmp v lo \<and> zslLexValueGteMin cmp w hi \<and> zslLexValueLteMax cmp w hi
    \<and> zslFirstInLexRange cmp lo (H, z) = Some None \<and> zslLastInLexRange cmp lo (H, z) = Some None
    \<and> zslFirstInLexRange cmp hi (H, z) = Some None \<and> zslLastInLexRange cmp hi (H, z) = Some None"
proof -
  let ?lo = "\<lparr>zl_min = Minstring, zl_max = Lexstring (lex_value Minstring), zl_minex = False, zl_maxex = True\<rparr>"
  let ?hi = "\<lparr>zl_min = Lexstring (lex_value Maxstring), zl_max = Maxstring, zl_minex = True, zl_maxex = False\<rparr>"
  have "zslParseLexRange [45] (40 # lex_value Minstring) = Some ?lo" "zslParseLexRange (40 # lex_value Maxstring) [43] = Some ?hi"
    by (simp_all add: zslParseLexRange_def zslParseLexRangeItem_def)
  moreover have "zslLexValueGteMin cmp v ?lo \<and> zslLexValueLteMax cmp v ?lo \<and> zslLexValueGteMin cmp w ?hi \<and> zslLexValueLteMax cmp w ?hi"
    using assms by (auto simp: zslLexValueGteMin_def zslLexValueLteMax_def compareStringObjectsForLexRange_def simp del: lex_value.simps(1,2))
  moreover have "zslIsInLexRange cmp ?lo (H, z) = Some False" "zslIsInLexRange cmp ?hi (H, z) = Some False"
    using assms(1) by (simp_all add: zslIsInLexRange_def)
  ultimately show ?thesis by (intro exI [of _ ?lo] exI [of _ ?hi]) (simp add: zslFirstInLexRange_def zslLastInLexRange_def)
qed

definition byte_cmp :: "bytes \<Rightarrow> bytes \<Rightarrow> int" where
  "byte_cmp s t = (if s = t then 0 else if byte_less s t then - 1 else 1)"

theorem lex_range_shared_contents_witness:
  "\<exists>lo. zslParseLexRange [45] (40 # lex_value Minstring) = Some lo \<and> zslLexValueGteMin byte_cmp [97] lo \<and> zslLexValueLteMax byte_cmp [97] lo
    \<and> (case zset_create (None, 0) (0::int) 0 of zs \<Rightarrow> zslFirstInLexRange byte_cmp lo (zs_heap zs, zs_zsl zs)) = Some None"
proof -
  have c: "byte_cmp s s = 0" "byte_cmp [97] (lex_value Minstring) < 0" "byte_cmp [122] (lex_value Maxstring) > 0" for s
    by (simp_all add: byte_cmp_def)
  show ?thesis using lex_range_shared_contents [of byte_cmp, OF c] by fastforce
qed

end
