(* ===== verification/Intset.thy ===== *)
theory Intset
  imports Refinement
begin

text \<open>
  \<^verbatim>\<open>intset.c\<close>: the sorted integer array behind small sets.  The contents are modelled byte by
  byte, in the little endian layout the code fixes on every host (on a little endian host the
  \<open>memrev*ifbe\<close> and \<open>intrev32ifbe\<close> macros are empty), so the overlapping moves of
  \<open>intsetMoveTail\<close> and the back-to-front widening of \<open>intsetUpgradeAndAdd\<close> are part of the
  model.  \<open>None\<close> is an access outside the allocated block; \<open>uint32_t\<close> arithmetic that can wrap is
  written with \<open>mod 2 ^ 32\<close>.
\<close>

section \<open>The model\<close>

record intset =
  is_encoding :: nat
  is_length :: nat
  is_contents :: bytes

definition INTSET_ENC_INT16 :: nat where "INTSET_ENC_INT16 = 2"
definition INTSET_ENC_INT32 :: nat where "INTSET_ENC_INT32 = 4"
definition INTSET_ENC_INT64 :: nat where "INTSET_ENC_INT64 = 8"

lemmas intset_enc_defs = INTSET_ENC_INT16_def INTSET_ENC_INT32_def INTSET_ENC_INT64_def

definition intsetValueEncoding :: "int \<Rightarrow> nat" where
  "intsetValueEncoding v =
     (if v < INT32_MIN \<or> v > INT32_MAX then INTSET_ENC_INT64
      else if v < INT16_MIN \<or> v > INT16_MAX then INTSET_ENC_INT32
      else INTSET_ENC_INT16)"

text \<open>Load and store of one \<open>w\<close>-byte signed integer at index \<open>pos\<close> of the contents.\<close>

definition load_cell :: "nat \<Rightarrow> nat \<Rightarrow> bytes \<Rightarrow> int option" where
  "load_cell w pos m =
     (if pos * w + w \<le> length m then Some (sle_int (read_at (pos * w) w m)) else None)"

definition store_cell :: "nat \<Rightarrow> nat \<Rightarrow> int \<Rightarrow> bytes \<Rightarrow> bytes option" where
  "store_cell w pos v m =
     (if pos * w + w \<le> length m then Some (write_at (pos * w) (sle_bytes w v) m) else None)"

definition intsetGetEncoded :: "intset \<Rightarrow> nat \<Rightarrow> nat \<Rightarrow> int option" where
  "intsetGetEncoded is pos enc =
     (if enc = INTSET_ENC_INT64 then load_cell 8 pos (is_contents is)
      else if enc = INTSET_ENC_INT32 then load_cell 4 pos (is_contents is)
      else load_cell 2 pos (is_contents is))"

definition intsetGet_raw :: "intset \<Rightarrow> nat \<Rightarrow> int option" where
  "intsetGet_raw is pos = intsetGetEncoded is pos (is_encoding is)"

definition intsetSet :: "intset \<Rightarrow> nat \<Rightarrow> int \<Rightarrow> intset option" where
  "intsetSet is pos value =
     (if is_encoding is = INTSET_ENC_INT64
      then map_option (\<lambda>m. is\<lparr>is_contents := m\<rparr>) (store_cell 8 pos value (is_contents is))
      else if is_encoding is = INTSET_ENC_INT32
      then map_option (\<lambda>m. is\<lparr>is_contents := m\<rparr>) (store_cell 4 pos value (is_contents is))
      else map_option (\<lambda>m. is\<lparr>is_contents := m\<rparr>) (store_cell 2 pos value (is_contents is)))"

definition intsetNew :: intset where
  "intsetNew = \<lparr>is_encoding = INTSET_ENC_INT16, is_length = 0, is_contents = []\<rparr>"

definition intsetResize :: "byte \<Rightarrow> intset \<Rightarrow> nat \<Rightarrow> intset" where
  "intsetResize u is len =
     (let size = len * is_encoding is mod 2 ^ 32
      in is\<lparr>is_contents := realloc u size (is_contents is)\<rparr>)"

text \<open>The binary search: \<open>min\<close>, \<open>max\<close>, \<open>mid\<close> are C \<open>int\<close>s, \<open>mid\<close> is computed in \<open>unsigned int\<close>.\<close>

partial_function (option) intsetSearchLoop ::
    "intset \<Rightarrow> int \<Rightarrow> int \<Rightarrow> int \<Rightarrow> int \<Rightarrow> int \<Rightarrow> (int \<times> int \<times> int) option" where
  "intsetSearchLoop is value mn mx mid cur =
     (if mx \<ge> mn then
        (let mid' = ((to_unsigned 32 mn + to_unsigned 32 mx) mod 2 ^ 32) div 2
         in case intsetGet_raw is (nat mid') of
              None \<Rightarrow> None
            | Some cur' \<Rightarrow>
                (if value > cur' then intsetSearchLoop is value (mid' + 1) mx mid' cur'
                 else if value < cur' then intsetSearchLoop is value mn (mid' - 1) mid' cur'
                 else Some (mn, mid', cur')))
      else Some (mn, mid, cur))"

definition intsetSearch :: "intset \<Rightarrow> int \<Rightarrow> (bool \<times> nat) option" where
  "intsetSearch is value =
     (if is_length is = 0 then Some (False, 0)
      else do {
        lst \<leftarrow> intsetGet_raw is (is_length is - 1);
        (if value > lst then Some (False, is_length is)
         else do {
           fst \<leftarrow> intsetGet_raw is 0;
           (if value < fst then Some (False, 0)
            else do {
              (mn, mid, cur) \<leftarrow>
                intsetSearchLoop is value 0 (to_signed 32 (int (is_length is) - 1)) (-1) (-1);
              Some (if value = cur then (True, nat mid) else (False, nat mn))})})})"

fun intsetUpgradeLoop :: "intset \<Rightarrow> nat \<Rightarrow> nat \<Rightarrow> nat \<Rightarrow> intset option" where
  "intsetUpgradeLoop is curenc prepend 0 = Some is"
| "intsetUpgradeLoop is curenc prepend (Suc len) =
     do {
       v \<leftarrow> intsetGetEncoded is len curenc;
       is' \<leftarrow> intsetSet is (len + prepend) v;
       intsetUpgradeLoop is' curenc prepend len}"

definition intsetUpgradeAndAdd :: "byte \<Rightarrow> intset \<Rightarrow> int \<Rightarrow> intset option" where
  "intsetUpgradeAndAdd u is value =
     (let curenc = is_encoding is;
          newenc = intsetValueEncoding value;
          prepend = (if value < 0 then 1 else 0 :: nat);
          is1 = intsetResize u (is\<lparr>is_encoding := newenc\<rparr>) ((is_length is + 1) mod 2 ^ 32)
      in do {
        is2 \<leftarrow> intsetUpgradeLoop is1 curenc prepend (is_length is);
        is3 \<leftarrow> (if prepend = 1 then intsetSet is2 0 value
                else intsetSet is2 (is_length is2) value);
        Some (is3\<lparr>is_length := (is_length is3 + 1) mod 2 ^ 32\<rparr>)})"

definition intsetMoveTail :: "intset \<Rightarrow> nat \<Rightarrow> nat \<Rightarrow> intset option" where
  "intsetMoveTail is from to =
     (let w = (if is_encoding is = INTSET_ENC_INT64 then 8
               else if is_encoding is = INTSET_ENC_INT32 then 4 else 2 :: nat);
          bytes = nat (to_unsigned 32 (to_unsigned 32 (int (is_length is) - int from) * int w))
      in if from * w + bytes \<le> length (is_contents is) \<and> to * w + bytes \<le> length (is_contents is)
         then Some (is\<lparr>is_contents := memmove (to * w) (from * w) bytes (is_contents is)\<rparr>)
         else None)"

definition intsetAdd :: "byte \<Rightarrow> intset \<Rightarrow> int \<Rightarrow> (intset \<times> bool) option" where
  "intsetAdd u is value =
     (let valenc = intsetValueEncoding value
      in if valenc > is_encoding is then
           do { is' \<leftarrow> intsetUpgradeAndAdd u is value; Some (is', True) }
         else do {
           (found, pos) \<leftarrow> intsetSearch is value;
           (if found then Some (is, False)
            else do {
              is1 \<leftarrow> Some (intsetResize u is ((is_length is + 1) mod 2 ^ 32));
              is2 \<leftarrow> (if pos < is_length is1 then intsetMoveTail is1 pos (pos + 1) else Some is1);
              is3 \<leftarrow> intsetSet is2 pos value;
              Some (is3\<lparr>is_length := (is_length is3 + 1) mod 2 ^ 32\<rparr>, True)})})"

definition intsetRemove :: "byte \<Rightarrow> intset \<Rightarrow> int \<Rightarrow> (intset \<times> bool) option" where
  "intsetRemove u is value =
     (if intsetValueEncoding value \<le> is_encoding is then
        do {
          (found, pos) \<leftarrow> intsetSearch is value;
          (if found then
             let len = is_length is in
             do {
               is1 \<leftarrow> (if pos < len - 1 then intsetMoveTail is (pos + 1) pos else Some is);
               is2 \<leftarrow> Some (intsetResize u is1 (len - 1));
               Some (is2\<lparr>is_length := len - 1\<rparr>, True)}
           else Some (is, False))}
      else Some (is, False))"

definition intsetFind :: "intset \<Rightarrow> int \<Rightarrow> bool option" where
  "intsetFind is value =
     (if intsetValueEncoding value \<le> is_encoding is
      then map_option fst (intsetSearch is value) else Some False)"

text \<open>\<open>r\<close> is the value \<open>rand()\<close> returns; a remainder by zero is undefined.\<close>

definition intsetRandom :: "nat \<Rightarrow> intset \<Rightarrow> int option" where
  "intsetRandom r is =
     (if is_length is = 0 then None else intsetGet_raw is (r mod is_length is))"

definition intsetGet :: "intset \<Rightarrow> nat \<Rightarrow> int option option" where
  "intsetGet is pos =
     (if pos < is_length is then map_option Some (intsetGet_raw is pos) else Some None)"

definition intsetLen :: "intset \<Rightarrow> nat" where
  "intsetLen is = is_length is"

definition intsetBlobLen :: "intset \<Rightarrow> nat" where
  "intsetBlobLen is = 8 + is_length is * is_encoding is mod 2 ^ 32"


section \<open>Well-formed integer sets\<close>

definition cell :: "nat \<Rightarrow> bytes \<Rightarrow> nat \<Rightarrow> int" where
  "cell w m i = sle_int (read_at (i * w) w m)"

definition intset_list :: "intset \<Rightarrow> int list" where
  "intset_list is = map (cell (is_encoding is) (is_contents is)) [0..<is_length is]"

definition enc_ok :: "nat \<Rightarrow> bool" where
  "enc_ok e \<longleftrightarrow> e = 2 \<or> e = 4 \<or> e = 8"

definition fits :: "nat \<Rightarrow> int \<Rightarrow> bool" where
  "fits e v \<longleftrightarrow> - (2 ^ (8 * e)) \<le> 2 * v \<and> 2 * v < 2 ^ (8 * e)"

definition intset_wf :: "intset \<Rightarrow> bool" where
  "intset_wf is \<longleftrightarrow> enc_ok (is_encoding is)
     \<and> length (is_contents is) = is_length is * is_encoding is
     \<and> is_length is * is_encoding is < 2 ^ 32
     \<and> sorted_wrt (<) (intset_list is)"

text \<open>The set can take one more element without leaving the range of \<open>uint32_t\<close> byte counts.\<close>

definition intset_room :: "intset \<Rightarrow> bool" where
  "intset_room is \<longleftrightarrow> (is_length is + 1) * 8 < 2 ^ 32"

lemma enc_ok_valueEncoding [simp]: "enc_ok (intsetValueEncoding v)"
  by (simp add: enc_ok_def intsetValueEncoding_def intset_enc_defs)

lemma fits_iff_encoding:
  assumes "enc_ok e" and "in_int64 v"
  shows "fits e v \<longleftrightarrow> intsetValueEncoding v \<le> e"
  using assms by (auto simp: enc_ok_def fits_def intsetValueEncoding_def intset_enc_defs range_simps)

lemma fits_mono: "fits e v \<Longrightarrow> e \<le> e' \<Longrightarrow> fits e' v"
proof -
  assume f: "fits e v" and "e \<le> e'"
  then have "(2::int) ^ (8 * e) \<le> 2 ^ (8 * e')" by (intro power_increasing) auto
  with f show ?thesis unfolding fits_def by linarith
qed

lemma length_intset_list [simp]: "length (intset_list is) = is_length is"
  by (simp add: intset_list_def)

lemma cell_fits:
  assumes "0 < w" and "i * w + w \<le> length m"
  shows "fits w (cell w m i)"
proof -
  have l: "length (read_at (i * w) w m) = w" using assms by (simp add: mem_simps)
  then have "read_at (i * w) w m \<noteq> []" using assms by auto
  from sle_int_range [OF this] show ?thesis by (simp add: fits_def cell_def l)
qed

lemma mult_Suc_le: "i < n \<Longrightarrow> i * w + w \<le> n * (w::nat)"
  by (metis Suc_leI add.commute mult_Suc mult_le_mono1)

lemma intsetGetEncoded_ok:
  "enc_ok e \<Longrightarrow> i * e + e \<le> length (is_contents is) \<Longrightarrow>
   intsetGetEncoded is i e = Some (cell e (is_contents is) i)"
  by (auto simp: enc_ok_def intsetGetEncoded_def load_cell_def cell_def intset_enc_defs)

lemma intsetSet_ok:
  "enc_ok (is_encoding is) \<Longrightarrow> i * is_encoding is + is_encoding is \<le> length (is_contents is) \<Longrightarrow>
   intsetSet is i v = Some (is\<lparr>is_contents :=
     write_at (i * is_encoding is) (sle_bytes (is_encoding is) v) (is_contents is)\<rparr>)"
  by (auto simp: enc_ok_def intsetSet_def store_cell_def intset_enc_defs)

lemma intsetGet_raw_wf:
  assumes "intset_wf is" and "i < is_length is"
  shows "intsetGet_raw is i = Some (intset_list is ! i)"
  using assms mult_Suc_le [OF assms(2)]
  by (simp add: intset_wf_def intsetGet_raw_def intsetGetEncoded_ok intset_list_def)

lemma cell_write_same:
  "fits w v \<Longrightarrow> i * w + w \<le> length m \<Longrightarrow> cell w (write_at (i * w) (sle_bytes w v) m) i = v"
  using read_write_same [of "i * w" "sle_bytes w v" m] sle_int_sle_bytes [of w v]
  by (simp add: cell_def fits_def)

lemma cell_write_other:
  assumes "i * w + w \<le> length m" and "j * w + w \<le> length m" and "j \<noteq> i"
  shows "cell w (write_at (i * w) (sle_bytes w v) m) j = cell w m j"
proof (cases "j < i")
  case True
  then show ?thesis
    using assms mult_Suc_le [OF True, of w] by (simp add: cell_def read_write_before)
next
  case False
  then have "i < j" using assms by simp
  then show ?thesis
    using assms mult_Suc_le [of i j w] by (simp add: cell_def read_write_after)
qed

text \<open>Moving the tail of an array of cells by one position, in either direction.\<close>

lemma memmove_read:
  assumes "dst + n \<le> length m" and "src + n \<le> length m" and "off + k \<le> n"
  shows "read_at (dst + off) k (memmove dst src n m) = read_at (src + off) k m"
  using assms
  by (intro nth_equalityI) (auto simp: mem_simps nth_read_at nth_write_at memmove_def add.assoc)

lemma cell_memmove_inside:
  assumes "(to + (len - from)) * w \<le> length m" and "len * w \<le> length m" and "from \<le> j" and "j < len"
  shows "cell w (memmove (to * w) (from * w) ((len - from) * w) m) (j - from + to) = cell w m j"
proof -
  have "j - from < len - from" using assms by simp
  then have le: "(j - from) * w + w \<le> (len - from) * w" by (rule mult_Suc_le)
  have "from * w + (len - from) * w = len * w"
    using assms by (simp add: add_mult_distrib [symmetric])
  moreover have "from * w + (j - from) * w = j * w"
    using assms by (simp add: add_mult_distrib [symmetric])
  moreover have "to * w + (j - from) * w = (j - from + to) * w"
    by (simp add: add_mult_distrib)
  moreover have "to * w + (len - from) * w \<le> length m"
    using assms(1) unfolding add_mult_distrib .
  ultimately show ?thesis
    using memmove_read [of "to * w" "(len - from) * w" m "from * w" "(j - from) * w" w] assms le
    by (simp add: cell_def)
qed

lemma cell_memmove_before:
  assumes "to * w + n \<le> length m" and "from * w + n \<le> length m" and "j < to"
  shows "cell w (memmove (to * w) (from * w) n m) j = cell w m j"
  using assms mult_Suc_le [OF assms(3), of w]
  by (simp add: cell_def memmove_def read_write_before mem_simps)

lemma cell_realloc: "i * w + w \<le> k \<Longrightarrow> i * w + w \<le> length m \<Longrightarrow> cell w (realloc u k m) i = cell w m i"
  by (simp add: cell_def read_realloc)

section \<open>Binary search\<close>

lemma sorted_wrt_less_nth: "sorted_wrt (<) (xs :: int list) \<Longrightarrow> i < j \<Longrightarrow> j < length xs \<Longrightarrow> xs ! i < xs ! j"
  by (simp add: sorted_wrt_iff_nth_less)

lemma sorted_wrt_less_nth_le:
  "sorted_wrt (<) (xs :: int list) \<Longrightarrow> i \<le> j \<Longrightarrow> j < length xs \<Longrightarrow> xs ! i \<le> xs ! j"
  by (cases "i = j") (auto dest: sorted_wrt_less_nth [of xs i j])

lemma intsetSearchLoop_correct:
  assumes reads: "\<And>i. i < length xs \<Longrightarrow> intsetGet_raw is i = Some (xs ! i)"
    and sorted: "sorted_wrt (<) xs" and small: "length xs < 2 ^ 31"
    and bnd: "0 \<le> mn" "mn \<le> mx + 1" "mx < int (length xs)"
    and lo: "\<And>i. int i < mn \<Longrightarrow> xs ! i < v"
    and hi: "\<And>i. mx < int i \<Longrightarrow> i < length xs \<Longrightarrow> v < xs ! i"
    and cur: "mn \<le> mx \<or> cur \<noteq> v"
  shows "\<exists>mn' mid' cur'. intsetSearchLoop is v mn mx mid cur = Some (mn', mid', cur') \<and>
    (if v \<in> set xs then cur' = v \<and> nat mid' < length xs \<and> xs ! nat mid' = v
     else cur' \<noteq> v \<and> nat mn' \<le> length xs \<and> (\<forall>i < nat mn'. xs ! i < v)
        \<and> (\<forall>i. nat mn' \<le> i \<and> i < length xs \<longrightarrow> v < xs ! i))"
  using bnd lo hi cur
proof (induction "nat (mx - mn + 1)" arbitrary: mn mx mid cur rule: less_induct)
  case less
  show ?case
  proof (cases "mn \<le> mx")
    case False
    then have eq: "mn = mx + 1" using less.prems by simp
    have below: "i < nat mn \<Longrightarrow> xs ! i < v" for i using less.prems(4) [of i] by linarith
    have above: "nat mn \<le> i \<Longrightarrow> i < length xs \<Longrightarrow> v < xs ! i" for i
      using less.prems(5) [of i] eq less.prems(1) by linarith
    have "v \<notin> set xs"
      by (metis above below in_set_conv_nth less_irrefl linorder_not_less)
    then show ?thesis using False less.prems below above
      by (simp add: intsetSearchLoop.simps eq)
  next
    case True
    define m where "m = (mn + mx) div 2"
    have m: "mn \<le> m" "m \<le> mx" unfolding m_def using True by linarith+
    have "to_unsigned 32 mn = mn" "to_unsigned 32 mx = mx"
      using less.prems True small by (auto intro!: to_unsigned_id)
    moreover have "(mn + mx) mod 2 ^ 32 = mn + mx"
      using less.prems True small by (intro mod_pos_pos_trivial) auto
    ultimately have mid: "((to_unsigned 32 mn + to_unsigned 32 mx) mod 2 ^ 32) div 2 = m"
      by (simp add: m_def)
    have rng: "nat m < length xs" "0 \<le> m" using m less.prems by auto
    have step: "intsetSearchLoop is v mn mx mid cur =
        (if v > xs ! nat m then intsetSearchLoop is v (m + 1) mx m (xs ! nat m)
         else if v < xs ! nat m then intsetSearchLoop is v mn (m - 1) m (xs ! nat m)
         else Some (mn, m, xs ! nat m))"
      using True reads [OF rng(1)]
      by (subst intsetSearchLoop.simps) (simp only: mid Let_def if_True option.case)
    consider "v > xs ! nat m" | "v < xs ! nat m" | "v = xs ! nat m" by linarith
    then show ?thesis
    proof cases
      case 1
      have "int i < m + 1 \<Longrightarrow> xs ! i < v" for i
        using sorted_wrt_less_nth_le [OF sorted, of i "nat m"] 1 rng by linarith
      then have "\<exists>mn' mid' cur'. intsetSearchLoop is v (m + 1) mx m (xs ! nat m) = Some (mn', mid', cur') \<and>
        (if v \<in> set xs then cur' = v \<and> nat mid' < length xs \<and> xs ! nat mid' = v
         else cur' \<noteq> v \<and> nat mn' \<le> length xs \<and> (\<forall>i < nat mn'. xs ! i < v)
            \<and> (\<forall>i. nat mn' \<le> i \<and> i < length xs \<longrightarrow> v < xs ! i))"
        using less.prems m rng order.strict_implies_not_eq [OF 1] by (intro less.hyps) auto
      then show ?thesis using True 1 by (simp add: step)
    next
      case 2
      have "m - 1 < int i \<Longrightarrow> i < length xs \<Longrightarrow> v < xs ! i" for i
        using sorted_wrt_less_nth_le [OF sorted, of "nat m" i] 2 rng by linarith
      then have "\<exists>mn' mid' cur'. intsetSearchLoop is v mn (m - 1) m (xs ! nat m) = Some (mn', mid', cur') \<and>
        (if v \<in> set xs then cur' = v \<and> nat mid' < length xs \<and> xs ! nat mid' = v
         else cur' \<noteq> v \<and> nat mn' \<le> length xs \<and> (\<forall>i < nat mn'. xs ! i < v)
            \<and> (\<forall>i. nat mn' \<le> i \<and> i < length xs \<longrightarrow> v < xs ! i))"
        using less.prems m rng order.strict_implies_not_eq [OF 2] by (intro less.hyps) auto
      then show ?thesis using True 2 by (simp add: step)
    next
      case 3
      then have "v \<in> set xs" using rng by simp
      moreover have "intsetSearchLoop is v mn mx mid cur = Some (mn, m, v)"
        using step 3 by simp
      ultimately show ?thesis using 3 rng by simp
    qed
  qed
qed

lemma intset_wf_small: "intset_wf is \<Longrightarrow> is_length is < 2 ^ 31"
  by (auto simp: intset_wf_def enc_ok_def)

lemma intsetSearch_correct:
  assumes wf: "intset_wf is"
  shows "\<exists>pos. intsetSearch is v = Some (v \<in> set (intset_list is), pos) \<and>
    (if v \<in> set (intset_list is) then pos < is_length is \<and> intset_list is ! pos = v
     else pos \<le> is_length is \<and> (\<forall>i < pos. intset_list is ! i < v)
        \<and> (\<forall>i. pos \<le> i \<and> i < is_length is \<longrightarrow> v < intset_list is ! i))"
proof (cases "is_length is = 0")
  case True
  then have "intset_list is = []" by (simp add: intset_list_def)
  with True show ?thesis by (simp add: intsetSearch_def)
next
  case False
  let ?xs = "intset_list is"
  let ?n = "is_length is"
  have sorted: "sorted_wrt (<) ?xs" using wf by (simp add: intset_wf_def)
  have reads: "i < length ?xs \<Longrightarrow> intsetGet_raw is i = Some (?xs ! i)" for i
    using intsetGet_raw_wf [OF wf] by simp
  have small: "?n < 2 ^ 31" by (rule intset_wf_small [OF wf])
  have last: "intsetGet_raw is (?n - 1) = Some (?xs ! (?n - 1))"
    and first: "intsetGet_raw is 0 = Some (?xs ! 0)" using reads False by auto
  have mx: "to_signed 32 (int ?n - 1) = int ?n - 1"
    using small False by (intro to_signed_id) auto
  consider (gt) "v > ?xs ! (?n - 1)" | (lt) "v \<le> ?xs ! (?n - 1)" "v < ?xs ! 0"
    | (mid) "v \<le> ?xs ! (?n - 1)" "?xs ! 0 \<le> v" by linarith
  then show ?thesis
  proof cases
    case gt
    have below: "?xs ! i < v" if "i < ?n" for i
    proof -
      have "i \<le> ?n - 1" using that by simp
      then have "?xs ! i \<le> ?xs ! (?n - 1)" using False by (intro sorted_wrt_less_nth_le [OF sorted]) auto
      then show ?thesis using gt by simp
    qed
    then have "v \<notin> set ?xs" by (metis in_set_conv_nth length_intset_list less_irrefl)
    moreover have "intsetSearch is v = Some (False, ?n)"
      using gt False last by (simp add: intsetSearch_def)
    ultimately show ?thesis using below by simp
  next
    case lt
    have above: "i < ?n \<Longrightarrow> v < ?xs ! i" for i
      using sorted_wrt_less_nth_le [OF sorted, of 0 i] lt by simp
    then have "v \<notin> set ?xs" by (metis in_set_conv_nth length_intset_list less_irrefl)
    moreover have "intsetSearch is v = Some (False, 0)"
      using lt False last first by (simp add: intsetSearch_def)
    ultimately show ?thesis using above by simp
  next
    case mid
    from intsetSearchLoop_correct [OF reads sorted, of 0 "int ?n - 1" v "-1" "-1"] small False
    obtain mn' mid' cur' where
      "intsetSearchLoop is v 0 (int ?n - 1) (- 1) (- 1) = Some (mn', mid', cur')"
      "if v \<in> set ?xs then cur' = v \<and> nat mid' < length ?xs \<and> ?xs ! nat mid' = v
       else cur' \<noteq> v \<and> nat mn' \<le> length ?xs \<and> (\<forall>i < nat mn'. ?xs ! i < v)
          \<and> (\<forall>i. nat mn' \<le> i \<and> i < length ?xs \<longrightarrow> v < ?xs ! i)" by auto
    moreover from this(1) have "intsetSearch is v = Some (if v = cur' then (True, nat mid') else (False, nat mn'))"
      using mid False last first mx by (simp add: intsetSearch_def)
    ultimately show ?thesis by (cases "v \<in> set ?xs") simp_all
  qed
qed


section \<open>Insertion, removal, lookup\<close>

lemma intset_list_eqI:
  assumes "is_length is = length xs"
    and "\<And>i. i < length xs \<Longrightarrow> cell (is_encoding is) (is_contents is) i = xs ! i"
  shows "intset_list is = xs"
  using assms by (intro nth_equalityI) (auto simp: intset_list_def)

lemma intset_cell_nth: "i < is_length is \<Longrightarrow> cell (is_encoding is) (is_contents is) i = intset_list is ! i"
  by (simp add: intset_list_def)

text \<open>
  Widening: cell \<open>n + p\<close> of the new width is written from cell \<open>n\<close> of the old width, last cell
  first; no old cell that is still to be read is overwritten.
\<close>

lemma intsetUpgradeLoop_correct:
  assumes "enc_ok c" and "enc_ok (is_encoding is)" and "c \<le> is_encoding is"
    and "(n + p) * is_encoding is \<le> length (is_contents is)"
  shows "\<exists>m. intsetUpgradeLoop is c p n = Some (is\<lparr>is_contents := m\<rparr>)
    \<and> length m = length (is_contents is)
    \<and> (\<forall>i < n. cell (is_encoding is) m (i + p) = cell c (is_contents is) i)
    \<and> (\<forall>i. n + p \<le> i \<and> i * is_encoding is + is_encoding is \<le> length (is_contents is) \<longrightarrow>
          cell (is_encoding is) m i = cell (is_encoding is) (is_contents is) i)"
  using assms
proof (induction n arbitrary: "is")
  case 0
  then show ?case by (intro exI [of _ "is_contents is"]) simp
next
  case (Suc n)
  let ?e = "is_encoding is" and ?m = "is_contents is"
  define v where "v = cell c ?m n"
  define m1 where "m1 = write_at ((n + p) * ?e) (sle_bytes ?e v) ?m"
  have pos: "0 < c" "0 < ?e" using Suc.prems by (auto simp: enc_ok_def)
  have bnd: "(n + p) * ?e + ?e \<le> length ?m"
    using Suc.prems by (simp add: add_mult_distrib)
  have rd: "n * c + c \<le> length ?m"
  proof -
    have "n * c + c = Suc n * c" by simp
    also have "\<dots> \<le> (Suc n + p) * ?e" using Suc.prems by (intro mult_le_mono) auto
    finally show ?thesis using Suc.prems by linarith
  qed
  have fit: "fits ?e v"
    using cell_fits [OF pos(1) rd] Suc.prems by (auto simp: v_def intro: fits_mono)
  have len1: "length m1 = length ?m" using bnd by (simp add: m1_def mem_simps)
  have old: "cell c m1 i = cell c ?m i" if "i < n" for i
  proof -
    have "i * c + c \<le> n * c" by (rule mult_Suc_le [OF that])
    also have "\<dots> \<le> (n + p) * ?e" using Suc.prems by (intro mult_le_mono) auto
    finally show ?thesis using bnd by (simp add: m1_def cell_def read_write_before)
  qed
  have "intsetUpgradeLoop is c p (Suc n) = intsetUpgradeLoop (is\<lparr>is_contents := m1\<rparr>) c p n"
    using Suc.prems bnd rd by (simp add: intsetGetEncoded_ok intsetSet_ok m1_def v_def)
  moreover obtain m where m: "intsetUpgradeLoop (is\<lparr>is_contents := m1\<rparr>) c p n = Some (is\<lparr>is_contents := m\<rparr>)"
      "length m = length ?m"
      "\<forall>i < n. cell ?e m (i + p) = cell c m1 i"
      "\<forall>i. n + p \<le> i \<and> i * ?e + ?e \<le> length ?m \<longrightarrow> cell ?e m i = cell ?e m1 i"
    using Suc.IH [of "is\<lparr>is_contents := m1\<rparr>"] Suc.prems len1 by (auto simp: add_mult_distrib)
  moreover have "cell ?e m (n + p) = v"
    using m(4) bnd fit by (simp add: m1_def cell_write_same)
  moreover have "cell ?e m i = cell ?e ?m i" if "Suc n + p \<le> i" "i * ?e + ?e \<le> length ?m" for i
    using m(4) that bnd by (simp add: m1_def cell_write_other)
  ultimately show ?case
    by (intro exI [of _ m]) (auto simp: less_Suc_eq old v_def)
qed

lemma intset_wfI:
  assumes "enc_ok e" and "length m = n * e" and "n * e < 2 ^ 32"
    and "length xs = n" and "\<And>i. i < n \<Longrightarrow> cell e m i = xs ! i" and "sorted_wrt (<) xs"
  shows "intset_wf \<lparr>is_encoding = e, is_length = n, is_contents = m\<rparr> \<and>
    intset_list \<lparr>is_encoding = e, is_length = n, is_contents = m\<rparr> = xs"
proof -
  have "intset_list \<lparr>is_encoding = e, is_length = n, is_contents = m\<rparr> = xs"
    by (rule intset_list_eqI) (use assms in auto)
  then show ?thesis using assms by (simp add: intset_wf_def)
qed

lemma intset_list_fits:
  assumes "intset_wf is" and "x \<in> set (intset_list is)"
  shows "fits (is_encoding is) x"
proof -
  from assms(2) obtain i where i: "i < is_length is" "x = cell (is_encoding is) (is_contents is) i"
    by (auto simp: intset_list_def)
  then show ?thesis using assms(1) mult_Suc_le [OF i(1)]
    by (auto simp: intset_wf_def enc_ok_def intro!: cell_fits)
qed

lemma intsetUpgradeAndAdd_correct:
  assumes wf: "intset_wf is" and v: "in_int64 v" and up: "is_encoding is < intsetValueEncoding v"
    and room: "intset_room is"
  shows "\<exists>is'. intsetUpgradeAndAdd u is v = Some is' \<and> intset_wf is'
    \<and> is_encoding is' = intsetValueEncoding v
    \<and> intset_list is' = (if v < 0 then v # intset_list is else intset_list is @ [v])"
proof -
  let ?c = "is_encoding is" and ?e = "intsetValueEncoding v" and ?n = "is_length is"
  define p where "p = (if v < 0 then 1 else 0 :: nat)"
  have ok: "enc_ok ?c" "enc_ok ?e" using wf by (auto simp: intset_wf_def)
  have "(?n + 1) * ?e \<le> (?n + 1) * 8" using ok by (intro mult_le_mono) (auto simp: enc_ok_def)
  then have sz: "(?n + 1) * ?e < 2 ^ 32" using room by (simp add: intset_room_def)
  have n32: "?n + 1 < 2 ^ 32" using room by (simp add: intset_room_def)
  define is1 where "is1 = is\<lparr>is_encoding := ?e, is_contents := realloc u ((?n + 1) * ?e) (is_contents is)\<rparr>"
  have resize: "intsetResize u (is\<lparr>is_encoding := ?e\<rparr>) ((?n + 1) mod 2 ^ 32) = is1"
    using sz n32 by (simp add: intsetResize_def is1_def Let_def)
  have old: "cell ?c (is_contents is1) i = intset_list is ! i" if "i < ?n" for i
  proof -
    have "i * ?c + ?c \<le> ?n * ?c" by (rule mult_Suc_le [OF that])
    moreover have "?n * ?c \<le> (?n + 1) * ?e" using up by (intro mult_le_mono) auto
    ultimately show ?thesis
      using wf that by (simp add: is1_def cell_realloc intset_wf_def intset_cell_nth)
  qed
  have is1: "is_encoding is1 = ?e" "length (is_contents is1) = (?n + 1) * ?e"
    by (simp_all add: is1_def)
  have "(?n + p) * ?e \<le> (?n + 1) * ?e" by (intro mult_le_mono) (auto simp: p_def)
  then obtain m where m: "intsetUpgradeLoop is1 ?c p ?n = Some (is1\<lparr>is_contents := m\<rparr>)"
      "length m = (?n + 1) * ?e" "\<forall>i < ?n. cell ?e m (i + p) = intset_list is ! i"
    using intsetUpgradeLoop_correct [of ?c is1 ?n p] ok up old unfolding is1 by force
  define k where "k = (if v < 0 then 0 else ?n)"
  define m' where "m' = write_at (k * ?e) (sle_bytes ?e v) m"
  define xs where "xs = (if v < 0 then v # intset_list is else intset_list is @ [v])"
  have kb: "k * ?e + ?e \<le> length m" using m(2) by (auto simp: k_def)
  have res: "intsetUpgradeAndAdd u is v =
      Some \<lparr>is_encoding = ?e, is_length = ?n + 1, is_contents = m'\<rparr>"
    using resize m(1) kb n32 ok(2)
    by (auto simp: intsetUpgradeAndAdd_def Let_def intsetSet_ok is1_def m'_def k_def p_def)
  have fit: "fits ?e v" using fits_iff_encoding [OF ok(2) v] by simp
  have "length m' = (?n + 1) * ?e" using kb m(2) by (simp add: m'_def mem_simps)
  moreover have "cell ?e m' i = xs ! i" if "i < ?n + 1" for i
  proof (cases "i = k")
    case True
    then show ?thesis using cell_write_same [OF fit kb]
      by (auto simp: m'_def xs_def k_def nth_append split: if_splits)
  next
    case False
    have "cell ?e m' i = cell ?e m i"
      using kb that mult_Suc_le [OF that, of ?e] m(2) False by (simp add: m'_def cell_write_other)
    also have "\<dots> = xs ! i"
      using m(3) [rule_format, of "i - p"] that False
      by (auto simp: xs_def k_def p_def nth_append nth_Cons' split: if_splits)
    finally show ?thesis .
  qed
  moreover have "sorted_wrt (<) xs"
  proof -
    have nfit: "\<not> fits ?c v" using fits_iff_encoding [OF ok(1) v] up by simp
    have "if v < 0 then v < x else x < v" if "x \<in> set (intset_list is)" for x
      using intset_list_fits [OF wf that] nfit unfolding fits_def by (auto split: if_splits)
    then show ?thesis using wf by (auto simp: xs_def intset_wf_def sorted_wrt_append)
  qed
  ultimately have "intset_wf \<lparr>is_encoding = ?e, is_length = ?n + 1, is_contents = m'\<rparr> \<and>
      intset_list \<lparr>is_encoding = ?e, is_length = ?n + 1, is_contents = m'\<rparr> = xs"
    using ok(2) sz by (intro intset_wfI) (auto simp: xs_def)
  with res show ?thesis by (auto simp: xs_def)
qed


text \<open>Insertion and deletion at an index of a list, and their effect on a sorted list.\<close>

definition insert_at :: "nat \<Rightarrow> 'a \<Rightarrow> 'a list \<Rightarrow> 'a list" where
  "insert_at i x xs = take i xs @ x # drop i xs"

definition delete_at :: "nat \<Rightarrow> 'a list \<Rightarrow> 'a list" where
  "delete_at i xs = take i xs @ drop (Suc i) xs"

lemma set_insert_at [simp]: "set (insert_at i x xs) = insert x (set xs)"
proof -
  have "set (take i xs @ drop i xs) = set xs" by simp
  then show ?thesis unfolding insert_at_def by (simp only: set_append list.set) blast
qed

lemma length_insert_at [simp]: "length (insert_at i x xs) = Suc (length xs)"
  by (simp add: insert_at_def)

lemma sorted_insert_at:
  assumes "sorted_wrt (<) (xs :: int list)" and "i \<le> length xs"
    and "\<forall>j < i. xs ! j < x" and "\<forall>j. i \<le> j \<and> j < length xs \<longrightarrow> x < xs ! j"
  shows "sorted_wrt (<) (insert_at i x xs)"
proof -
  have s: "sorted_wrt (<) (take i xs @ drop i xs)" using assms by simp
  have "y < x" if "y \<in> set (take i xs)" for y
    using that assms by (auto simp: in_set_conv_nth)
  moreover have "x < y" if "y \<in> set (drop i xs)" for y
    using that assms by (auto simp: in_set_conv_nth)
  ultimately show ?thesis
    using s by (simp add: insert_at_def sorted_wrt_append del: append_take_drop_id)
qed

lemma nth_insert_at:
  "i \<le> length xs \<Longrightarrow> j \<le> length xs \<Longrightarrow>
   insert_at i x xs ! j = (if j < i then xs ! j else if j = i then x else xs ! (j - 1))"
  by (auto simp: insert_at_def nth_append nth_Cons')

lemma nth_delete_at:
  "i < length xs \<Longrightarrow> j < length xs - 1 \<Longrightarrow> delete_at i xs ! j = (if j < i then xs ! j else xs ! Suc j)"
  by (auto simp: delete_at_def nth_append)

lemma length_delete_at [simp]: "i < length xs \<Longrightarrow> length (delete_at i xs) = length xs - 1"
  by (simp add: delete_at_def)

lemma sorted_delete_at:
  assumes "sorted_wrt (<) (xs :: int list)" and "i < length xs"
  shows "sorted_wrt (<) (delete_at i xs) \<and> set (delete_at i xs) = set xs - {xs ! i}"
proof -
  have xs: "xs = take i xs @ xs ! i # drop (Suc i) xs" by (rule id_take_nth_drop [OF assms(2)])
  have s: "sorted_wrt (<) (take i xs @ xs ! i # drop (Suc i) xs)" using assms(1) xs by simp
  have "set xs = set (take i xs) \<union> insert (xs ! i) (set (drop (Suc i) xs))"
    by (subst xs) (simp del: append_take_drop_id)
  with s show ?thesis by (auto simp: delete_at_def sorted_wrt_append)
qed

lemma intset_enc_ok: "intset_wf is \<Longrightarrow> enc_ok (is_encoding is)"
  by (simp add: intset_wf_def)

lemma intsetMoveTail_ok:
  assumes "enc_ok (is_encoding is)" and "from \<le> is_length is"
    and "is_length is * is_encoding is < 2 ^ 32"
    and "is_length is * is_encoding is \<le> length (is_contents is)"
    and "(to + (is_length is - from)) * is_encoding is \<le> length (is_contents is)"
  shows "intsetMoveTail is from to = Some (is\<lparr>is_contents := memmove (to * is_encoding is)
    (from * is_encoding is) ((is_length is - from) * is_encoding is) (is_contents is)\<rparr>)"
proof -
  let ?e = "is_encoding is" and ?k = "is_length is - from"
  have "1 \<le> ?e" using assms(1) by (auto simp: enc_ok_def)
  then have "?k * 1 \<le> ?k * ?e" by (rule mult_le_mono2)
  moreover have "?k * ?e \<le> is_length is * ?e" by (rule mult_le_mono1) simp
  ultimately have lt: "?k * ?e < 2 ^ 32" "?k < 2 ^ 32" using assms(3) by linarith+
  have "to_unsigned 32 (int (is_length is) - int from) = int ?k"
    using lt assms(2) by (subst to_unsigned_id) auto
  moreover have "nat (to_unsigned 32 (int ?k * int ?e)) = ?k * ?e"
    using lt(1) by (subst to_unsigned_id) (auto simp flip: of_nat_mult simp: nat_mult_distrib)
  moreover have "from * ?e + ?k * ?e \<le> length (is_contents is)"
    using assms by (simp add: add_mult_distrib [symmetric])
  moreover have "to * ?e + ?k * ?e \<le> length (is_contents is)"
    using assms(5) unfolding add_mult_distrib .
  ultimately show ?thesis
    using assms(1) by (auto simp: intsetMoveTail_def enc_ok_def intset_enc_defs Let_def)
qed


text \<open>The common tail of \<open>intsetAdd\<close>: grow by one cell, open a gap at \<open>pos\<close>, fill it.\<close>

lemma intset_gap:
  assumes e: "enc_ok e" and len: "length m = n * e" and pos: "pos \<le> n" and v: "fits e v"
    and m2: "m2 = (if pos < n then memmove (Suc pos * e) (pos * e) ((n - pos) * e) (realloc u (Suc n * e) m)
                   else realloc u (Suc n * e) m)"
  shows "length m2 = Suc n * e \<and> (\<forall>i \<le> n. cell e (write_at (pos * e) (sle_bytes e v) m2) i =
    insert_at pos v (map (cell e m) [0..<n]) ! i)"
proof -
  let ?r = "realloc u (Suc n * e) m"
  have src: "pos * e + (n - pos) * e \<le> Suc n * e" "Suc pos * e + (n - pos) * e = Suc n * e"
    using pos by (simp_all add: add_mult_distrib [symmetric])
  have l2: "length m2 = Suc n * e" using m2 src by (auto simp: mem_simps)
  have r: "cell e ?r i = cell e m i" if "i < n" for i
  proof -
    have "i * e + e \<le> n * e" by (rule mult_Suc_le [OF that])
    then show ?thesis using len that by (intro cell_realloc) auto
  qed
  have low: "cell e m2 i = cell e m i" if "i < pos" for i
    using that pos src r [of i] m2 cell_memmove_before [of "Suc pos" e "(n - pos) * e" ?r pos i]
    by auto
  have high: "cell e m2 (Suc i) = cell e m i" if "pos \<le> i" "i < n" for i
    using that src r [of i] m2 cell_memmove_inside [of "Suc pos" n pos e ?r i]
    by (auto simp: add_mult_distrib)
  have wb: "pos * e + e \<le> length m2" using mult_Suc_le [of pos "Suc n" e] pos l2 by simp
  have "cell e (write_at (pos * e) (sle_bytes e v) m2) i = insert_at pos v (map (cell e m) [0..<n]) ! i"
    if "i \<le> n" for i
  proof -
    have ib: "i * e + e \<le> length m2" using mult_Suc_le [of i "Suc n" e] that l2 by simp
    consider "i = pos" | "i < pos" | "pos < i" by linarith
    then show ?thesis
    proof cases
      case 1
      then show ?thesis using cell_write_same [OF v wb] that pos by (simp add: nth_insert_at)
    next
      case 2
      then show ?thesis using cell_write_other [OF wb ib] low that pos by (simp add: nth_insert_at)
    next
      case 3
      then obtain j where "i = Suc j" by (cases i) auto
      then show ?thesis using cell_write_other [OF wb ib] high [of j] 3 that pos
        by (simp add: nth_insert_at)
    qed
  qed
  with l2 show ?thesis by blast
qed

lemma intset_list_alt: "intset_list is = map (cell (is_encoding is) (is_contents is)) [0..<is_length is]"
  by (rule intset_list_def)

lemma intsetAdd_plain:
  assumes wf: "intset_wf is" and v: "in_int64 v" and enc: "intsetValueEncoding v \<le> is_encoding is"
    and new: "v \<notin> set (intset_list is)" and room: "intset_room is"
  shows "\<exists>is' pos. intsetAdd u is v = Some (is', True) \<and> intset_wf is'
    \<and> is_encoding is' = is_encoding is \<and> intset_list is' = insert_at pos v (intset_list is)"
proof -
  let ?e = "is_encoding is" and ?n = "is_length is" and ?m = "is_contents is"
  obtain pos where pos: "intsetSearch is v = Some (False, pos)" "pos \<le> ?n"
      "\<forall>i < pos. intset_list is ! i < v" "\<forall>i. pos \<le> i \<and> i < ?n \<longrightarrow> v < intset_list is ! i"
    using intsetSearch_correct [OF wf, of v] new by auto
  have ok: "enc_ok ?e" by (rule intset_enc_ok [OF wf])
  have fit: "fits ?e v" using fits_iff_encoding [OF ok v] enc by simp
  have "Suc ?n * ?e \<le> (?n + 1) * 8" using ok by (auto simp: enc_ok_def)
  then have sz: "Suc ?n * ?e < 2 ^ 32" and n32: "?n + 1 < 2 ^ 32"
    using room by (auto simp: intset_room_def)
  define r where "r = is\<lparr>is_contents := realloc u (Suc ?n * ?e) ?m\<rparr>"
  define m2 where "m2 = (if pos < ?n then memmove (Suc pos * ?e) (pos * ?e) ((?n - pos) * ?e)
      (realloc u (Suc ?n * ?e) ?m) else realloc u (Suc ?n * ?e) ?m)"
  have lm: "length ?m = ?n * ?e" using wf by (simp add: intset_wf_def)
  note gap = intset_gap [OF ok lm pos(2) fit m2_def]
  have resize: "intsetResize u is (Suc ?n) = r"
    using sz by (simp add: intsetResize_def r_def)
  have rl: "is_length r = ?n" by (simp add: r_def)
  have move: "(if pos < ?n then intsetMoveTail r pos (Suc pos) else Some r) = Some (is\<lparr>is_contents := m2\<rparr>)"
  proof (cases "pos < ?n")
    case True
    have "(Suc pos + (?n - pos)) * ?e \<le> Suc ?n * ?e" using True by simp
    then show ?thesis
      using True ok lm sz intsetMoveTail_ok [of r pos "Suc pos"] by (simp add: r_def m2_def)
  qed (simp add: r_def m2_def)
  have "pos * ?e + ?e \<le> length m2" using mult_Suc_le [of pos "Suc ?n" ?e] pos gap by simp
  then have res: "intsetAdd u is v = Some (\<lparr>is_encoding = ?e, is_length = Suc ?n,
      is_contents = write_at (pos * ?e) (sle_bytes ?e v) m2\<rparr>, True)"
    using enc pos(1) ok n32 move
    by (cases "pos < ?n") (simp_all add: intsetAdd_def intsetSet_ok resize rl flip: Suc_eq_plus1)
  have "intset_wf \<lparr>is_encoding = ?e, is_length = Suc ?n, is_contents = write_at (pos * ?e) (sle_bytes ?e v) m2\<rparr> \<and>
      intset_list \<lparr>is_encoding = ?e, is_length = Suc ?n, is_contents = write_at (pos * ?e) (sle_bytes ?e v) m2\<rparr>
        = insert_at pos v (intset_list is)"
  proof (rule intset_wfI)
    show "sorted_wrt (<) (insert_at pos v (intset_list is))"
      using wf pos by (intro sorted_insert_at) (auto simp: intset_wf_def)
    show "length (write_at (pos * ?e) (sle_bytes ?e v) m2) = Suc ?n * ?e"
      using gap \<open>pos * ?e + ?e \<le> length m2\<close> by (simp add: mem_simps)
  qed (use ok sz gap in \<open>auto simp: intset_list_alt\<close>)
  with res show ?thesis by auto
qed


lemma intsetRemove_found:
  assumes wf: "intset_wf is" and v: "in_int64 v" and mem: "v \<in> set (intset_list is)"
  shows "\<exists>is' pos. intsetRemove u is v = Some (is', True) \<and> intset_wf is'
    \<and> is_encoding is' = is_encoding is \<and> pos < is_length is \<and> intset_list is ! pos = v
    \<and> intset_list is' = delete_at pos (intset_list is)"
proof -
  let ?e = "is_encoding is" and ?n = "is_length is" and ?m = "is_contents is"
  have ok: "enc_ok ?e" by (rule intset_enc_ok [OF wf])
  have enc: "intsetValueEncoding v \<le> ?e"
    using fits_iff_encoding [OF ok v] intset_list_fits [OF wf mem] by simp
  obtain pos where pos: "intsetSearch is v = Some (True, pos)" "pos < ?n" "intset_list is ! pos = v"
    using intsetSearch_correct [OF wf, of v] mem by auto
  have lm: "length ?m = ?n * ?e" and sz: "?n * ?e < 2 ^ 32" using wf by (auto simp: intset_wf_def)
  define m1 where "m1 = (if pos < ?n - 1 then memmove (pos * ?e) (Suc pos * ?e) ((?n - Suc pos) * ?e) ?m else ?m)"
  define m2 where "m2 = take ((?n - 1) * ?e) m1"
  have dst: "(pos + (?n - Suc pos)) * ?e \<le> ?n * ?e" using pos by simp
  have src: "Suc pos * ?e + (?n - Suc pos) * ?e = ?n * ?e"
    using pos by (metis Suc_leI add_mult_distrib le_add_diff_inverse)
  have l1: "length m1 = ?n * ?e"
    using dst src lm by (auto simp: m1_def mem_simps add_mult_distrib)
  have move: "(if pos < ?n - 1 then intsetMoveTail is (Suc pos) pos else Some is) = Some (is\<lparr>is_contents := m1\<rparr>)"
    using intsetMoveTail_ok [of "is" "Suc pos" pos] ok pos lm sz dst by (auto simp: m1_def)
  have le: "(?n - 1) * ?e \<le> ?n * ?e" by (rule mult_le_mono1) simp
  have "intsetResize u (is\<lparr>is_contents := m1\<rparr>) (?n - 1) = is\<lparr>is_contents := m2\<rparr>"
    using order.strict_trans1 [OF le sz] le l1
    by (simp add: intsetResize_def m2_def realloc_shrink del: One_nat_def)
  then have res: "intsetRemove u is v = Some (\<lparr>is_encoding = ?e, is_length = ?n - 1, is_contents = m2\<rparr>, True)"
    using enc pos(1) move by (cases "pos < ?n - 1") (simp_all add: intsetRemove_def Let_def)
  have c1: "cell ?e m1 i = (if i < pos then cell ?e ?m i else cell ?e ?m (Suc i))" if "i < ?n - 1" for i
  proof (cases "i < pos")
    case True
    then show ?thesis using cell_memmove_before [of pos ?e "(?n - Suc pos) * ?e" ?m "Suc pos" i] dst src lm
      by (auto simp: m1_def add_mult_distrib)
  next
    case False
    then show ?thesis using cell_memmove_inside [of pos ?n "Suc pos" ?e ?m "Suc i"] dst src lm that
      by (auto simp: m1_def)
  qed
  have c2: "cell ?e m2 i = cell ?e m1 i" if "i < ?n - 1" for i
    using mult_Suc_le [OF that, of ?e] by (simp add: m2_def cell_def read_at_take)
  have "intset_wf \<lparr>is_encoding = ?e, is_length = ?n - 1, is_contents = m2\<rparr> \<and>
      intset_list \<lparr>is_encoding = ?e, is_length = ?n - 1, is_contents = m2\<rparr> = delete_at pos (intset_list is)"
  proof (rule intset_wfI)
    show "sorted_wrt (<) (delete_at pos (intset_list is))"
      using wf pos sorted_delete_at [of "intset_list is" pos] by (simp add: intset_wf_def)
    show "cell ?e m2 i = delete_at pos (intset_list is) ! i" if "i < ?n - 1" for i
      using c1 [OF that] c2 [OF that] that pos(2) by (auto simp: nth_delete_at intset_cell_nth)
    show "(?n - 1) * ?e < 2 ^ 32" by (rule order.strict_trans1 [OF le sz])
  qed (use ok le l1 pos in \<open>auto simp: m2_def\<close>)
  with res pos show ?thesis by auto
qed

section \<open>The contract of an integer set\<close>

text \<open>
  What the users of the structure (\<open>t_set.c\<close>) rely on, as laws over the operations: each call
  returns, keeps the invariant and acts as the set operation; the elements are kept in order.
\<close>

locale sorted_int_set =
  fixes new_set :: 's
    and add :: "'s \<Rightarrow> int \<Rightarrow> ('s \<times> bool) option"
    and del :: "'s \<Rightarrow> int \<Rightarrow> ('s \<times> bool) option"
    and mem :: "'s \<Rightarrow> int \<Rightarrow> bool option"
    and elems :: "'s \<Rightarrow> int list"
    and invar :: "'s \<Rightarrow> bool"
    and limit :: nat
  assumes new_set: "invar new_set" "elems new_set = []"
    and elems_sorted: "invar s \<Longrightarrow> sorted_wrt (<) (elems s)"
    and add_ok: "invar s \<Longrightarrow> in_int64 v \<Longrightarrow> length (elems s) < limit \<Longrightarrow>
      \<exists>s'. add s v = Some (s', v \<notin> set (elems s)) \<and> invar s' \<and> set (elems s') = insert v (set (elems s))"
    and del_ok: "invar s \<Longrightarrow> in_int64 v \<Longrightarrow>
      \<exists>s'. del s v = Some (s', v \<in> set (elems s)) \<and> invar s' \<and> set (elems s') = set (elems s) - {v}"
    and mem_ok: "invar s \<Longrightarrow> in_int64 v \<Longrightarrow> mem s v = Some (v \<in> set (elems s))"
begin

fun add_all :: "'s \<Rightarrow> int list \<Rightarrow> 's option" where
  "add_all s [] = Some s"
| "add_all s (v # vs) = do { (s', _) \<leftarrow> add s v; add_all s' vs }"

lemma elems_unique:
  assumes "invar s" and "set (elems s) = A"
  shows "elems s = sorted_list_of_set A"
  using elems_sorted [OF assms(1)] assms(2)
  by (metis sorted_list_of_set.idem_if_sorted_distinct strict_sorted_iff)

lemma length_elems: "invar s \<Longrightarrow> length (elems s) = card (set (elems s))"
  using elems_sorted [of s] by (simp add: strict_sorted_iff distinct_card)

lemma add_all_ok:
  assumes "invar s" and "\<forall>v \<in> set vs. in_int64 v" and "length (elems s) + length vs \<le> limit"
  shows "\<exists>s'. add_all s vs = Some s' \<and> invar s' \<and> set (elems s') = set (elems s) \<union> set vs"
  using assms
proof (induction vs arbitrary: s)
  case Nil
  then show ?case by simp
next
  case (Cons v vs)
  then obtain s1 where s1: "add s v = Some (s1, v \<notin> set (elems s))" "invar s1"
      "set (elems s1) = insert v (set (elems s))"
    using add_ok [of s v] by auto
  have "length (elems s1) \<le> Suc (length (elems s))"
    using length_elems [OF s1(2)] length_elems [OF Cons.prems(1)] s1(3)
    by (simp add: card_insert_if)
  then show ?case using Cons.IH [of s1] Cons.prems s1 by auto
qed

text \<open>A set built by insertions holds the sorted distinct values, whatever the order.\<close>

lemma build:
  assumes "\<forall>v \<in> set vs. in_int64 v" and "length vs \<le> limit"
  shows "\<exists>s. add_all new_set vs = Some s \<and> invar s \<and> elems s = sorted_list_of_set (set vs)"
  using add_all_ok [of new_set vs] assms new_set elems_unique by auto

lemma add_then_del:
  assumes "invar s" and "in_int64 v" and "length (elems s) < limit" and "v \<notin> set (elems s)"
  shows "\<exists>s1 s2. add s v = Some (s1, True) \<and> del s1 v = Some (s2, True) \<and> invar s2 \<and> elems s2 = elems s"
proof -
  obtain s1 where s1: "add s v = Some (s1, True)" "invar s1" "set (elems s1) = insert v (set (elems s))"
    using add_ok assms by fastforce
  moreover obtain s2 where "del s1 v = Some (s2, True)" "invar s2" "set (elems s2) = set (elems s)"
    using del_ok [of s1 v] s1 assms by auto
  ultimately show ?thesis using elems_unique [of s2] elems_unique [OF assms(1)] by auto
qed

end

lemma intsetAdd_correct:
  assumes "intset_wf is" and "in_int64 v" and "length (intset_list is) < 2 ^ 29 - 1"
  shows "\<exists>is'. intsetAdd u is v = Some (is', v \<notin> set (intset_list is)) \<and> intset_wf is'
    \<and> set (intset_list is') = insert v (set (intset_list is))
    \<and> is_encoding is' = max (is_encoding is) (intsetValueEncoding v)"
proof -
  have room: "intset_room is" using assms by (simp add: intset_room_def)
  have ok: "enc_ok (is_encoding is)" by (rule intset_enc_ok [OF assms(1)])
  consider (up) "is_encoding is < intsetValueEncoding v"
    | (old) "intsetValueEncoding v \<le> is_encoding is" "v \<in> set (intset_list is)"
    | (new) "intsetValueEncoding v \<le> is_encoding is" "v \<notin> set (intset_list is)" by linarith
  then show ?thesis
  proof cases
    case up
    then have "v \<notin> set (intset_list is)"
      using fits_iff_encoding [OF ok assms(2)] intset_list_fits [OF assms(1), of v] by auto
    then show ?thesis
      using intsetUpgradeAndAdd_correct [OF assms(1,2) up room, of u] up
      by (auto simp: intsetAdd_def)
  next
    case old
    then show ?thesis using intsetSearch_correct [OF assms(1), of v] assms(1)
      by (auto simp: intsetAdd_def max_def insert_absorb)
  next
    case new
    then show ?thesis using intsetAdd_plain [OF assms(1,2) new room, of u] by (auto simp: max_def)
  qed
qed

lemma intsetRemove_correct:
  assumes "intset_wf is" and "in_int64 v"
  shows "\<exists>is'. intsetRemove u is v = Some (is', v \<in> set (intset_list is)) \<and> intset_wf is'
    \<and> set (intset_list is') = set (intset_list is) - {v}"
proof (cases "v \<in> set (intset_list is)")
  case True
  then obtain is' pos where "intsetRemove u is v = Some (is', True)" "intset_wf is'"
      "pos < is_length is" "intset_list is ! pos = v" "intset_list is' = delete_at pos (intset_list is)"
    using intsetRemove_found [OF assms] by blast
  then show ?thesis using True assms sorted_delete_at [of "intset_list is" pos]
    by (auto simp: intset_wf_def)
next
  case False
  then show ?thesis using intsetSearch_correct [OF assms(1), of v] assms(1)
    by (auto simp: intsetRemove_def)
qed

lemma intsetFind_correct:
  assumes "intset_wf is" and "in_int64 v"
  shows "intsetFind is v = Some (v \<in> set (intset_list is))"
proof -
  have "v \<notin> set (intset_list is)" if "\<not> intsetValueEncoding v \<le> is_encoding is"
    using that fits_iff_encoding [OF intset_enc_ok [OF assms(1)] assms(2)] intset_list_fits [OF assms(1), of v]
    by auto
  then show ?thesis using intsetSearch_correct [OF assms(1), of v] by (auto simp: intsetFind_def)
qed

lemma intsetNew_wf: "intset_wf intsetNew" "intset_list intsetNew = []"
  by (simp_all add: intset_wf_def intsetNew_def enc_ok_def INTSET_ENC_INT16_def intset_list_def)

interpretation intset: sorted_int_set intsetNew "intsetAdd u" "intsetRemove u" intsetFind intset_list
  intset_wf "2 ^ 29 - 1" for u
proof unfold_locales
  show "sorted_wrt (<) (intset_list s)" if "intset_wf s" for s using that by (simp add: intset_wf_def)
  show "\<exists>s'. intsetAdd u s v = Some (s', v \<notin> set (intset_list s)) \<and> intset_wf s' \<and>
      set (intset_list s') = insert v (set (intset_list s))"
    if "intset_wf s" "in_int64 v" "length (intset_list s) < 2 ^ 29 - 1" for s v
    using intsetAdd_correct [OF that, of u] by blast
qed (simp_all add: intsetNew_wf intsetRemove_correct intsetFind_correct)


section \<open>Sequences of set operations\<close>

datatype set_op = SAdd int | SRem int | SMem int

fun set_op_arg :: "set_op \<Rightarrow> int" where
  "set_op_arg (SAdd v) = v" | "set_op_arg (SRem v) = v" | "set_op_arg (SMem v) = v"

fun intset_step :: "byte \<Rightarrow> set_op \<Rightarrow> intset \<Rightarrow> (intset \<times> bool) option" where
  "intset_step u (SAdd v) is = intsetAdd u is v"
| "intset_step u (SRem v) is = intsetRemove u is v"
| "intset_step u (SMem v) is = map_option (Pair is) (intsetFind is v)"

fun set_step :: "set_op \<Rightarrow> int set \<Rightarrow> int set \<times> bool" where
  "set_step (SAdd v) A = (insert v A, v \<notin> A)"
| "set_step (SRem v) A = (A - {v}, v \<in> A)"
| "set_step (SMem v) A = (A, v \<in> A)"

definition intset_inv :: "nat \<Rightarrow> intset \<Rightarrow> bool" where
  "intset_inv n is \<longleftrightarrow> intset_wf is \<and> length (intset_list is) + n \<le> 2 ^ 29 - 1"

interpretation intset_ops: budget_simulation "intset_step u" set_step "\<lambda>is. set (intset_list is)" intset_inv
  "\<lambda>x. in_int64 (set_op_arg x)" for u
proof unfold_locales
  fix n :: nat and s x assume inv: "intset_inv (Suc n) s" and arg: "in_int64 (set_op_arg x)"
  then have wf: "intset_wf s" and room: "length (intset_list s) + Suc n \<le> 2 ^ 29 - 1"
    by (auto simp: intset_inv_def)
  have len: "length (intset_list s') = card (set (intset_list s'))" if "intset_wf s'" for s'
    by (rule intset.length_elems [OF that])
  show "\<exists>s' r. intset_step u x s = Some (s', r) \<and> intset_inv n s'
      \<and> set_step x (set (intset_list s)) = (set (intset_list s'), r)"
  proof (cases x)
    case (SAdd v)
    then obtain s' where s': "intsetAdd u s v = Some (s', v \<notin> set (intset_list s))" "intset_wf s'"
        "set (intset_list s') = insert v (set (intset_list s))"
      using intsetAdd_correct [OF wf, of v u] arg room by auto
    have "length (intset_list s') \<le> Suc (length (intset_list s))"
      using s'(3) unfolding len [OF s'(2)] len [OF wf] by (simp add: card_insert_if)
    then show ?thesis using SAdd s' room by (simp add: intset_inv_def)
  next
    case (SRem v)
    then obtain s' where s': "intsetRemove u s v = Some (s', v \<in> set (intset_list s))" "intset_wf s'"
        "set (intset_list s') = set (intset_list s) - {v}"
      using intsetRemove_correct [OF wf, of v u] arg by auto
    have "length (intset_list s') \<le> length (intset_list s)"
      using s'(3) unfolding len [OF s'(2)] len [OF wf] by (simp add: card_Diff_singleton_if)
    then show ?thesis using SRem s' room by (simp add: intset_inv_def)
  next
    case (SMem v)
    then show ?thesis using intsetFind_correct [OF wf, of v] arg wf room by (simp add: intset_inv_def)
  qed
qed

text \<open>
  C7.  Any sequence of additions, removals and membership tests of 64-bit integers on a new intset, up
  to \<open>2 ^ 29 - 1\<close> of them, returns what the operations of a set return, re-encoding the cells as the
  values require; at the end the array holds exactly the elements of the set, in increasing order.
\<close>

theorem intset_refines_set:
  assumes "length xs \<le> 2 ^ 29 - 1" and "list_all (\<lambda>x. in_int64 (set_op_arg x)) xs"
  shows "\<exists>is rs. run_ops (intset_step u) xs intsetNew = Some (is, rs)
    \<and> snd (run_spec set_step xs {}) = rs
    \<and> intset_list is = sorted_list_of_set (fst (run_spec set_step xs {}))
    \<and> length (is_contents is) = is_length is * is_encoding is"
proof -
  have "intset_inv (length xs + 0) intsetNew" using assms(1) by (simp add: intset_inv_def intsetNew_wf)
  then obtain s rs where "run_ops (intset_step u) xs intsetNew = Some (s, rs)" "intset_wf s"
      "run_spec set_step xs {} = (set (intset_list s), rs)"
    using intset_ops.run_sim [of xs 0 intsetNew u] assms(2) by (auto simp: intsetNew_wf intset_inv_def)
  moreover from this have "intset_list s = sorted_list_of_set (set (intset_list s))"
    using intset.elems_unique by blast
  ultimately show ?thesis by (auto simp: intset_wf_def)
qed

theorem intset_refines_set_witness:
  "\<exists>is rs. run_ops (intset_step 0) [SAdd 7, SAdd 70000, SAdd (-3), SMem 7, SRem 7, SMem 7] intsetNew = Some (is, rs)
    \<and> rs = [True, True, True, True, True, False] \<and> intset_list is = [-3, 70000]"
proof -
  let ?xs = "[SAdd 7, SAdd 70000, SAdd (-3), SMem 7, SRem 7, SMem 7]"
  have "run_spec set_step ?xs {} = ({-3, 70000}, [True, True, True, True, True, False])" by auto
  moreover have "list_all (\<lambda>x. in_int64 (set_op_arg x)) ?xs" by (simp add: LLONG_MIN_def LLONG_MAX_def)
  moreover have "sorted_list_of_set {-3, 70000 :: int} = [-3, 70000]" by simp
  ultimately show ?thesis using intset_refines_set [of ?xs 0]
    by (auto simp del: run_ops.simps run_spec.simps)
qed

text \<open>
  The binary search returns on every well-formed intset, tells whether the value is there, and
  its position is the one where the value is or has to be inserted to keep the order.
\<close>

theorem intsetSearch_position:
  assumes "intset_wf is"
  shows "\<exists>pos. intsetSearch is v = Some (v \<in> set (intset_list is), pos) \<and> pos \<le> length (intset_list is)
    \<and> (\<forall>x \<in> set (take pos (intset_list is)). x < v) \<and> (\<forall>x \<in> set (drop pos (intset_list is)). v \<le> x)"
proof -
  have len: "length (intset_list is) = is_length is" by (simp add: intset_list_def)
  have srt: "sorted_wrt (<) (intset_list is)" using assms by (simp add: intset_wf_def)
  obtain pos where pos: "intsetSearch is v = Some (v \<in> set (intset_list is), pos)"
      "if v \<in> set (intset_list is) then pos < is_length is \<and> intset_list is ! pos = v
       else pos \<le> is_length is \<and> (\<forall>i < pos. intset_list is ! i < v)
          \<and> (\<forall>i. pos \<le> i \<and> i < is_length is \<longrightarrow> v < intset_list is ! i)"
    using intsetSearch_correct [OF assms] by blast
  have "x < v" if x: "x \<in> set (take pos (intset_list is))" for x
  proof -
    obtain i where i: "x = intset_list is ! i" "i < pos" "i < is_length is"
      using x len by (auto simp: in_set_conv_nth)
    then show ?thesis using pos(2) sorted_wrt_nth_less [OF srt i(2)] len by (auto split: if_splits)
  qed
  moreover have "v \<le> x" if x: "x \<in> set (drop pos (intset_list is))" for x
  proof -
    obtain i where i: "x = intset_list is ! (pos + i)" "pos + i < is_length is"
      using x len by (auto simp: in_set_conv_nth)
    have "intset_list is ! pos \<le> x"
      using i len sorted_wrt_nth_less [OF srt, of pos "pos + i"] by (cases "i = 0") auto
    moreover have "v < x" if "v \<notin> set (intset_list is)" using that pos(2) i by simp
    ultimately show ?thesis using pos(2) by (cases "v \<in> set (intset_list is)") auto
  qed
  ultimately show ?thesis using pos len by (intro exI [of _ pos]) (auto split: if_splits)
qed

theorem intsetSearch_position_witness:
  "\<exists>pos. intsetSearch intsetNew 5 = Some (False, pos) \<and> pos \<le> 0"
  using intsetSearch_position [OF intsetNew_wf(1), of 5] by (simp add: intsetNew_wf(2))

end
