(* ===== verification/Glob.thy ===== *)
theory Glob
  imports Prelude "HOL-Library.Monad_Syntax"
begin

text \<open>
  \<open>stringmatchlen\<close> of \<^verbatim>\<open>util.c\<close>, the glob matcher behind \<open>KEYS\<close>, \<open>SCAN\<close>, \<open>PSUBSCRIBE\<close> and
  \<open>CONFIG GET\<close>.  The code walks two pointers over the pattern and the string and decrements two
  \<open>int\<close> lengths beside them, so a pointer is modelled as an index and the length beside it as the
  distance from the index to the end: \<open>patternLen = |p| - i\<close>, \<open>stringLen = |s| - j\<close>.  Both
  arguments are followed by the terminator that every sds string has; a read past the terminator
  is undefined behaviour, modelled as \<open>None\<close>.  The recursion is bounded by fuel; \<open>None\<close> also is
  the result when it runs out, and the theorems show that \<open>2 * (|p| + |s|) + 4\<close> units are enough.
\<close>

definition rd :: "bytes \<Rightarrow> nat \<Rightarrow> byte option" where
  "rd b i = (if i \<le> length b then Some ((b @ [0]) ! i) else None)"

definition chr_eq :: "bool \<Rightarrow> byte \<Rightarrow> byte \<Rightarrow> bool" where
  "chr_eq nocase a b = (if \<not> nocase then a = b else tolower a = tolower b)"

text \<open>\<open>while (pattern[1] == '*') { pattern++; patternLen--; }\<close> and the loop on \<open>*pattern\<close>.\<close>

function skip_stars :: "bytes \<Rightarrow> nat \<Rightarrow> nat option" where
  "skip_stars p i =
     (case rd p i of None \<Rightarrow> None
      | Some c \<Rightarrow> if c = 42 then skip_stars p (Suc i) else Some i)"
  by pat_completeness auto
termination
  by (relation "measure (\<lambda>(p, i). Suc (length p) - i)") (auto simp: rd_def split: if_splits)

declare skip_stars.simps [simp del]

text \<open>The range test of a class, \<open>pattern[0] '-' pattern[2]\<close>, on \<open>int\<close>s from signed \<open>char\<close>s.\<close>

definition range_hit :: "bool \<Rightarrow> byte \<Rightarrow> byte \<Rightarrow> byte \<Rightarrow> bool" where
  "range_hit nocase a b c =
     (let start = (if sint a > sint b then b else a); fin = (if sint a > sint b then a else b);
          start' = (if nocase then tolower start else start);
          fin' = (if nocase then tolower fin else fin);
          c' = (if nocase then tolower c else c)
      in sint c' \<ge> sint start' \<and> sint c' \<le> sint fin')"

text \<open>The body of a class \<open>[...]\<close>: the index where the loop breaks and the match flag.\<close>

function class_loop :: "bytes \<Rightarrow> bool \<Rightarrow> byte \<Rightarrow> nat \<Rightarrow> bool \<Rightarrow> (nat \<times> bool) option" where
  "class_loop p nocase c i match =
     (case rd p i of None \<Rightarrow> None
      | Some x \<Rightarrow>
        if x = 92 then
          (case rd p (Suc i) of None \<Rightarrow> None
           | Some y \<Rightarrow> class_loop p nocase c (Suc (Suc i)) (match \<or> y = c))
        else if x = 93 then Some (i, match)
        else if i = length p then Some (i - 1, match)
        else
          (case rd p (Suc i) of None \<Rightarrow> None
           | Some y \<Rightarrow>
             if y = 45 \<and> int (length p) - int i \<ge> 3 then
               (case rd p (i + 2) of None \<Rightarrow> None
                | Some z \<Rightarrow> class_loop p nocase c (i + 3) (match \<or> range_hit nocase x z c))
             else class_loop p nocase c (Suc i) (match \<or> chr_eq nocase x c)))"
  by pat_completeness auto
termination
  by (relation "measure (\<lambda>(p, nocase, c, i, match). Suc (length p) - i)")
    (auto simp: rd_def split: if_splits)

declare class_loop.simps [simp del]

fun sml :: "nat \<Rightarrow> bytes \<Rightarrow> bytes \<Rightarrow> bool \<Rightarrow> nat \<Rightarrow> nat \<Rightarrow> bool option"
  and sml_star :: "nat \<Rightarrow> bytes \<Rightarrow> bytes \<Rightarrow> bool \<Rightarrow> nat \<Rightarrow> nat \<Rightarrow> bool option"
  and sml_next :: "nat \<Rightarrow> bytes \<Rightarrow> bytes \<Rightarrow> bool \<Rightarrow> nat \<Rightarrow> nat \<Rightarrow> bool option" where
  "sml 0 p s nocase i j = None"
| "sml (Suc fuel) p s nocase i j =
     (if i = length p then Some (j = length s)
      else do {
        x \<leftarrow> rd p i;
        (if x = 42 then do {
           i1 \<leftarrow> skip_stars p (Suc i);
           (if i1 = length p then Some True else sml_star fuel p s nocase i1 j)}
         else if x = 63 then
           (if j = length s then Some False else sml_next fuel p s nocase (Suc i) (Suc j))
         else if x = 91 then do {
           y \<leftarrow> rd p (Suc i);
           c \<leftarrow> rd s j;
           (i1, match) \<leftarrow> class_loop p nocase c (if y = 94 then i + 2 else Suc i) False;
           (if (match \<noteq> (y = 94)) then sml_next fuel p s nocase (Suc i1) (Suc j) else Some False)}
         else do {
           let i1 = (if x = 92 \<and> int (length p) - int i \<ge> 2 then Suc i else i);
           x1 \<leftarrow> rd p i1;
           c \<leftarrow> rd s j;
           (if chr_eq nocase x1 c then sml_next fuel p s nocase (Suc i1) (Suc j) else Some False)})})"
| "sml_star 0 p s nocase i j = None"
| "sml_star (Suc fuel) p s nocase i j =
     (if j = length s then Some False
      else do {
        r \<leftarrow> sml fuel p s nocase i j;
        (if r then Some True else sml_star fuel p s nocase i (Suc j))})"
| "sml_next 0 p s nocase i j = None"
| "sml_next (Suc fuel) p s nocase i j =
     (if j = length s then do {
        i1 \<leftarrow> skip_stars p i;
        Some (i1 = length p)}
      else sml fuel p s nocase i j)"

definition stringmatchlen :: "bytes \<Rightarrow> bytes \<Rightarrow> bool \<Rightarrow> bool option" where
  "stringmatchlen p s nocase = sml (2 * (length p + length s) + 4) p s nocase 0 0"

definition stringmatch :: "bytes \<Rightarrow> bytes \<Rightarrow> bool \<Rightarrow> bool option" where
  "stringmatch p s nocase =
     stringmatchlen (takeWhile (\<lambda>c. c \<noteq> 0) p) (takeWhile (\<lambda>c. c \<noteq> 0) s) nocase"

section \<open>Specification: glob patterns without character classes\<close>

fun glob :: "bool \<Rightarrow> bytes \<Rightarrow> bytes \<Rightarrow> bool" where
  "glob nocase [] s = (s = [])"
| "glob nocase (x # p) s =
     (if x = 42 then (\<exists>k \<in> set [0..<Suc (length s)]. glob nocase p (drop k s))
      else case s of [] \<Rightarrow> False
        | c # s' \<Rightarrow>
          if x = 63 then glob nocase p s'
          else if x = 92 \<and> p \<noteq> [] then chr_eq nocase (hd p) c \<and> glob nocase (tl p) s'
          else chr_eq nocase x c \<and> glob nocase p s')"

fun class_free :: "bytes \<Rightarrow> bool" where
  "class_free [] = True"
| "class_free [x] = (x \<noteq> 91)"
| "class_free (x # y # p) =
     (if x = 91 then False else if x = 92 then class_free p else class_free (y # p))"


lemma rd_nth: "i < length p \<Longrightarrow> rd p i = Some (p ! i)"
  by (simp add: rd_def nth_append)

lemma rd_end: "rd p (length p) = Some 0"
  by (simp add: rd_def)

lemma skip_stars_correct:
  assumes "i \<le> length p"
  shows "\<exists>k. skip_stars p i = Some (i + k) \<and> i + k \<le> length p
    \<and> drop i p = replicate k 42 @ drop (i + k) p \<and> (i + k < length p \<longrightarrow> p ! (i + k) \<noteq> 42)"
  using assms
proof (induction "length p - i" arbitrary: i)
  case 0
  then have "i = length p" by simp
  then show ?case by (subst skip_stars.simps) (simp add: rd_end)
next
  case (Suc d)
  then have i: "i < length p" by simp
  show ?case
  proof (cases "p ! i = 42")
    case True
    have "d = length p - Suc i" using Suc.hyps(2) i by simp
    from Suc.hyps(1) [OF this] i obtain k where k: "skip_stars p (Suc i) = Some (Suc i + k)"
        "Suc i + k \<le> length p" "drop (Suc i) p = replicate k 42 @ drop (Suc i + k) p"
        "Suc i + k < length p \<longrightarrow> p ! (Suc i + k) \<noteq> 42" by auto
    have "skip_stars p i = Some (i + Suc k)"
      using True k by (subst skip_stars.simps) (simp add: rd_nth i)
    moreover have "drop i p = replicate (Suc k) 42 @ drop (i + Suc k) p"
      using True k(3) i by (simp add: Cons_nth_drop_Suc [symmetric])
    ultimately show ?thesis using k by (intro exI [of _ "Suc k"]) auto
  next
    case False
    then show ?thesis using i by (intro exI [of _ 0], subst skip_stars.simps) (simp add: rd_nth)
  qed
qed

lemma glob_star: "glob nc (42 # q) s \<longleftrightarrow> (\<exists>k \<le> length s. glob nc q (drop k s))"
  by (auto simp: less_Suc_eq_le simp del: upt_Suc)

lemma glob_stars: "glob nc (42 # replicate k 42 @ q) s = glob nc (42 # q) s"
proof (induction k arbitrary: s)
  case 0
  then show ?case by simp
next
  case (Suc k)
  have "glob nc (42 # 42 # q') s = glob nc (42 # q') s" for q'
  proof
    assume "glob nc (42 # 42 # q') s"
    then obtain a b where "a \<le> length s" "b \<le> length s - a" "glob nc q' (drop (b + a) s)"
      unfolding glob_star by (auto simp: add.commute)
    then show "glob nc (42 # q') s" unfolding glob_star by (intro exI [of _ "b + a"]) simp
  next
    assume "glob nc (42 # q') s"
    then show "glob nc (42 # 42 # q') s"
      unfolding glob_star [of nc "42 # q'"] by (intro exI [of _ 0]) simp
  qed
  from this [of "replicate k 42 @ q"] Suc show ?case by simp
qed

lemma glob_star_Cons: "glob nc (42 # q) (c # t) \<longleftrightarrow> glob nc q (c # t) \<or> glob nc (42 # q) t"
proof
  assume "glob nc (42 # q) (c # t)"
  then obtain k where k: "k \<le> Suc (length t)" "glob nc q (drop k (c # t))" unfolding glob_star by auto
  then show "glob nc q (c # t) \<or> glob nc (42 # q) t"
    unfolding glob_star by (cases k) auto
next
  assume "glob nc q (c # t) \<or> glob nc (42 # q) t"
  then show "glob nc (42 # q) (c # t)"
  proof
    assume "glob nc q (c # t)"
    then show ?thesis unfolding glob_star by (intro exI [of _ 0]) simp
  next
    assume "glob nc (42 # q) t"
    then obtain k where "k \<le> length t" "glob nc q (drop k t)" unfolding glob_star by auto
    then show ?thesis unfolding glob_star [of nc q "c # t"] by (intro exI [of _ "Suc k"]) simp
  qed
qed

lemma glob_star_nil [simp]: "glob nc [42] s"
  unfolding glob_star by (intro exI [of _ "length s"]) simp

lemma glob_stars_nil: "glob nc (replicate k 42 @ q) [] \<longleftrightarrow> glob nc q []"
  by (induction k) (auto simp: glob_star simp del: glob.simps(2))

lemma glob_nonstar_nil: "x \<noteq> 42 \<Longrightarrow> \<not> glob nc (x # q) []"
  by simp

lemma class_free_star: "class_free (42 # q) = class_free q"
  by (cases q) auto

lemma class_free_stars: "class_free (replicate k 42 @ q) = class_free q"
  by (induction k) (auto simp: class_free_star)

lemma class_free_tl: "class_free (x # q) \<Longrightarrow> x \<noteq> 92 \<Longrightarrow> class_free q"
  by (cases q) (auto split: if_splits)

lemma class_free_hd: "class_free (x # q) \<Longrightarrow> x \<noteq> 91"
  by (cases q) (auto split: if_splits)

lemma tolower_zero: "tolower x = 0 \<longleftrightarrow> x = 0"
proof -
  have "x + 32 \<noteq> 0" if "65 \<le> x" "x \<le> 90" for x :: byte
  proof
    assume "x + 32 = 0"
    then have "x = - 32" by (simp add: eq_neg_iff_add_eq_0)
    then show False using that by simp
  qed
  then show ?thesis by (auto simp: tolower_def)
qed

lemma chr_eq_zero: "chr_eq nc x 0 \<longleftrightarrow> x = 0"
proof -
  have t: "tolower 0 = 0" by (simp add: tolower_def)
  show ?thesis unfolding chr_eq_def t by (simp add: tolower_zero)
qed


text \<open>One literal or escaped character, compared against the string or its terminator.\<close>

lemma sml_literal:
  assumes i: "i < length p" and j: "j \<le> length s" and nul: "0 \<notin> set p"
    and x: "p ! i \<noteq> 42" "p ! i \<noteq> 63" "p ! i \<noteq> 91"
    and IH: "\<And>i'. i < i' \<Longrightarrow> i' \<le> length p \<Longrightarrow> j < length s \<Longrightarrow> class_free (drop i' p) \<Longrightarrow>
       sml_next fuel p s nc i' (Suc j) = Some (glob nc (drop i' p) (drop (Suc j) s))"
    and cf: "class_free (drop i p)"
  shows "sml (Suc fuel) p s nc i j = Some (glob nc (drop i p) (drop j s))"
proof -
  let ?i1 = "if p ! i = 92 \<and> int (length p) - int i \<ge> 2 then Suc i else i"
  have i1: "?i1 < length p" using i by auto
  have dp: "drop i p = p ! i # drop (Suc i) p" using i by (simp add: Cons_nth_drop_Suc)
  have eq: "glob nc (drop i p) (c # t) \<longleftrightarrow> chr_eq nc (p ! ?i1) c \<and> glob nc (drop (Suc ?i1) p) t" for c t
    unfolding dp using x i1 by (auto simp: hd_drop_conv_nth drop_Suc [symmetric] tl_drop)
  have cf': "class_free (drop (Suc ?i1) p)"
  proof (cases "p ! i = 92")
    case True
    show ?thesis
    proof (cases "drop (Suc i) p")
      case Nil
      then show ?thesis using True i by simp
    next
      case (Cons y q)
      then have "Suc i < length p" by (metis drop_eq_Nil leI list.distinct(1))
      moreover have "q = drop (Suc (Suc i)) p" using Cons by (metis drop_Suc list.sel(3) tl_drop)
      ultimately show ?thesis using True cf Cons unfolding dp by simp
    qed
  next
    case False
    then show ?thesis using cf class_free_tl unfolding dp by auto
  qed
  have step: "sml (Suc fuel) p s nc i j = (case rd s j of None \<Rightarrow> None | Some c \<Rightarrow>
      if chr_eq nc (p ! ?i1) c then sml_next fuel p s nc (Suc ?i1) (Suc j) else Some False)"
    using i x rd_nth [OF i] rd_nth [OF i1] by (simp add: Let_def split: option.split)
  show ?thesis
  proof (cases "j < length s")
    case True
    have ds: "drop j s = s ! j # drop (Suc j) s" using True by (simp add: Cons_nth_drop_Suc)
    show ?thesis using step IH [of "Suc ?i1"] True cf' i1 unfolding ds eq
      by (auto simp: rd_nth)
  next
    case False
    then have "j = length s" using j by simp
    moreover have "p ! ?i1 \<noteq> 0" using nul i1 nth_mem by metis
    ultimately show ?thesis using step x dp by (simp add: rd_end chr_eq_zero)
  qed
qed

lemma sml_correct:
  assumes nul: "0 \<notin> set p"
  shows "(\<forall>i j. i \<le> length p \<and> j \<le> length s \<and> class_free (drop i p) \<and>
          2 * ((length p - i) + (length s - j)) + 2 \<le> fuel \<longrightarrow>
            sml fuel p s nc i j = Some (glob nc (drop i p) (drop j s)))
    \<and> (\<forall>i j. i < length p \<and> j \<le> length s \<and> class_free (drop i p) \<and> p ! i \<noteq> 42 \<and>
          2 * ((length p - i) + (length s - j)) + 3 \<le> fuel \<longrightarrow>
            sml_star fuel p s nc i j = Some (glob nc (42 # drop i p) (drop j s)))
    \<and> (\<forall>i j. i \<le> length p \<and> j \<le> length s \<and> class_free (drop i p) \<and>
          2 * ((length p - i) + (length s - j)) + 3 \<le> fuel \<longrightarrow>
            sml_next fuel p s nc i j = Some (glob nc (drop i p) (drop j s)))"
  (is "?A fuel \<and> ?B fuel \<and> ?C fuel")
proof (induction fuel)
  case 0
  then show ?case by simp
next
  case (Suc fuel)
  then have A: "?A fuel" and B: "?B fuel" and C: "?C fuel" by auto
  have "?A (Suc fuel)"
  proof (intro allI impI, elim conjE)
    fix i j
    assume i: "i \<le> length p" and j: "j \<le> length s" and cf: "class_free (drop i p)"
      and f: "2 * ((length p - i) + (length s - j)) + 2 \<le> Suc fuel"
    show "sml (Suc fuel) p s nc i j = Some (glob nc (drop i p) (drop j s))"
    proof (cases "i = length p")
      case True
      then show ?thesis using j by auto
    next
      case False
      then have i': "i < length p" using i by simp
      have dp: "drop i p = p ! i # drop (Suc i) p" using i' by (simp add: Cons_nth_drop_Suc)
      have next_ok: "sml_next fuel p s nc i2 (Suc j) = Some (glob nc (drop i2 p) (drop (Suc j) s))"
        if "i < i2" "i2 \<le> length p" "j < length s" "class_free (drop i2 p)" for i2
        using C that f by (auto simp del: glob.simps sml_next.simps)
      consider (star) "p ! i = 42" | (any) "p ! i = 63" | (lit) "p ! i \<noteq> 42" "p ! i \<noteq> 63" "p ! i \<noteq> 91"
        using cf class_free_hd unfolding dp by blast
      then show ?thesis
      proof cases
        case star
        obtain k where k: "skip_stars p (Suc i) = Some (Suc i + k)" "Suc i + k \<le> length p"
            "drop (Suc i) p = replicate k 42 @ drop (Suc i + k) p"
            "Suc i + k < length p \<longrightarrow> p ! (Suc i + k) \<noteq> 42"
          using skip_stars_correct [of "Suc i" p] i' by auto
        have g: "glob nc (drop i p) (drop j s) = glob nc (42 # drop (Suc i + k) p) (drop j s)"
          unfolding dp star k(3) by (rule glob_stars)
        have cfk: "class_free (drop (Suc i + k) p)"
          using cf unfolding dp star k(3) class_free_star class_free_stars .
        show ?thesis
        proof (cases "Suc i + k = length p")
          case True
          then have "glob nc (drop i p) (drop j s)" using g by (simp del: glob.simps)
          then show ?thesis using True star k(1) rd_nth [OF i'] i' by (simp del: glob.simps)
        next
          case False
          then have "sml_star fuel p s nc (Suc i + k) j = Some (glob nc (42 # drop (Suc i + k) p) (drop j s))"
            using B j cfk k f by (auto simp del: glob.simps sml_star.simps)
          then show ?thesis using g star k(1) rd_nth [OF i'] i' False by (simp del: glob.simps)
        qed
      next
        case any
        then have "class_free (drop (Suc i) p)" using cf class_free_tl dp by force
        then show ?thesis using any next_ok [of "Suc i"] rd_nth [OF i'] i' j unfolding dp
          by (cases "drop j s") (auto simp: drop_Suc tl_drop [symmetric])
      next
        case lit
        show ?thesis by (rule sml_literal [OF i' j nul lit _ cf]) (rule next_ok)
      qed
    qed
  qed
  moreover have "?B (Suc fuel)"
  proof (intro allI impI, elim conjE)
    fix i j
    assume i: "i < length p" and j: "j \<le> length s" and cf: "class_free (drop i p)"
      and x: "p ! i \<noteq> 42" and f: "2 * ((length p - i) + (length s - j)) + 3 \<le> Suc fuel"
    have dp: "drop i p = p ! i # drop (Suc i) p" using i by (simp add: Cons_nth_drop_Suc)
    show "sml_star (Suc fuel) p s nc i j = Some (glob nc (42 # drop i p) (drop j s))"
    proof (cases "j = length s")
      case True
      then show ?thesis using x glob_nonstar_nil unfolding dp glob_star by (auto simp del: glob.simps)
    next
      case False
      then have j': "j < length s" using j by simp
      have here: "sml fuel p s nc i j = Some (glob nc (drop i p) (drop j s))"
        using A i j cf f by (auto simp del: glob.simps sml.simps)
      have rest: "sml_star fuel p s nc i (Suc j) = Some (glob nc (42 # drop i p) (drop (Suc j) s))"
        using B i j' cf x f by (auto simp del: glob.simps sml_star.simps)
      have "glob nc (42 # drop i p) (drop j s) \<longleftrightarrow>
          glob nc (drop i p) (drop j s) \<or> glob nc (42 # drop i p) (drop (Suc j) s)"
        using glob_star_Cons Cons_nth_drop_Suc [OF j'] by metis
      then show ?thesis using here rest j' by (auto simp del: glob.simps)
    qed
  qed
  moreover have "?C (Suc fuel)"
  proof (intro allI impI, elim conjE)
    fix i j
    assume i: "i \<le> length p" and j: "j \<le> length s" and cf: "class_free (drop i p)"
      and f: "2 * ((length p - i) + (length s - j)) + 3 \<le> Suc fuel"
    show "sml_next (Suc fuel) p s nc i j = Some (glob nc (drop i p) (drop j s))"
    proof (cases "j = length s")
      case True
      obtain k where k: "skip_stars p i = Some (i + k)" "i + k \<le> length p"
          "drop i p = replicate k 42 @ drop (i + k) p" "i + k < length p \<longrightarrow> p ! (i + k) \<noteq> 42"
        using skip_stars_correct [OF i] by auto
      have "glob nc (drop (i + k) p) [] \<longleftrightarrow> i + k = length p"
        using k(2,4) glob_nonstar_nil by (cases "i + k < length p") (auto simp: Cons_nth_drop_Suc [symmetric])
      then have "glob nc (drop i p) (drop j s) \<longleftrightarrow> i + k = length p"
        using True unfolding k(3) by (simp add: glob_stars_nil)
      then show ?thesis using True k(1) by simp
    next
      case False
      then show ?thesis using A i j cf f by (simp del: glob.simps sml.simps)
    qed
  qed
  ultimately show ?case by blast
qed


lemma class_free_no_bracket: "91 \<notin> set p \<Longrightarrow> class_free p"
  by (induction p rule: class_free.induct) auto

text \<open>C30. The pointer-walking matcher terminates and computes glob matching: for every pattern without
  a character class and without a NUL byte, and for every subject string, \<open>stringmatchlen\<close> reads
  only inside the two buffers, returns, and its answer is that of the recursive specification
  \<open>glob\<close> (\<open>*\<close> any sequence, \<open>?\<close> any byte, a backslash quotes the next byte).\<close>

theorem stringmatchlen_glob:
  assumes "class_free p" and "0 \<notin> set p"
  shows "stringmatchlen p s nocase = Some (glob nocase p s)"
  using sml_correct [OF assms(2), where s = s and fuel = "2 * (length p + length s) + 4" and nc = nocase,
      THEN conjunct1, rule_format, of 0 0] assms(1)
  by (simp add: stringmatchlen_def del: glob.simps sml.simps)

theorem stringmatchlen_glob_witness:
  "class_free [104, 42, 108, 63] \<and> (0::byte) \<notin> set [104, 42, 108, 63] \<and>
   stringmatchlen [104, 42, 108, 63] [104, 101, 108, 108, 111] False =
     Some (glob False [104, 42, 108, 63] [104, 101, 108, 108, 111])"
proof -
  have a: "class_free [104, 42, 108, 63]" by simp
  have b: "(0::byte) \<notin> set [104, 42, 108, 63]" by simp
  show ?thesis using a b stringmatchlen_glob [OF a b] by blast
qed

text \<open>The matcher misjudges and misreads character classes at the end of its buffers.  The
  pattern \<open>[^a]*\<close> matches the empty string, because a class consumes a byte without testing
  that one is left; and the pattern \<open>[\\<close>, which ends inside an escape, makes the class loop
  step over the terminator and read past the buffer (the result \<open>None\<close>; here the fuel is not exhausted).\<close>

lemma stringmatchlen_class_flaws:
  "stringmatchlen [91, 94, 97, 93, 42] [] False = Some True
   \<and> stringmatchlen [91, 92] [120] False = None"
  by code_simp

end
