(* ===== verification/Dict.thy ===== *)
theory Dict
  imports Refinement "HOL-Library.While_Combinator" "HOL-Library.Multiset"
begin

unbundle bit_operations_syntax

text \<open>
  \<^verbatim>\<open>dict.c\<close>, \<^verbatim>\<open>dict.h\<close>: the hash table of the server, two power-of-two tables of chains with
  incremental rehashing.  A chain is the list of its entries, head first; a \<open>dictEntry\<close> pointer is
  represented by the key of the entry, which is unique in a well-formed dictionary.  \<open>hash\<close> is the
  \<open>hashFunction\<close> of the \<open>dictType\<close>; keys are compared with \<open>=\<close>, that is, they stand for what
  \<open>keyCompare\<close> distinguishes.  \<open>cr\<close> is the global \<open>dict_can_resize\<close>.  A failed \<open>assert\<close>, an access
  outside a table and a negative index are \<open>None\<close>.
\<close>

section \<open>The model\<close>

record ('k, 'v) dictht =
  ht_table :: "('k \<times> 'v) list list"
  ht_size :: nat
  ht_sizemask :: nat
  ht_used :: nat

record ('k, 'v) dict =
  ht0 :: "('k, 'v) dictht"
  ht1 :: "('k, 'v) dictht"
  rehashidx :: int
  iterators :: nat

datatype dict_status = DICT_OK | DICT_ERR

definition DICT_HT_INITIAL_SIZE :: nat where "DICT_HT_INITIAL_SIZE = 4"
definition dict_force_resize_ratio :: nat where "dict_force_resize_ratio = 5"

definition dictSize :: "('k, 'v) dict \<Rightarrow> nat" where
  "dictSize d = ht_used (ht0 d) + ht_used (ht1 d)"

definition dictIsRehashing :: "('k, 'v) dict \<Rightarrow> bool" where
  "dictIsRehashing d \<longleftrightarrow> rehashidx d \<noteq> -1"

definition dictReset :: "('k, 'v) dictht" where
  "dictReset = \<lparr>ht_table = [], ht_size = 0, ht_sizemask = 0, ht_used = 0\<rparr>"

definition dictInit :: "('k, 'v) dict" where
  "dictInit = \<lparr>ht0 = dictReset, ht1 = dictReset, rehashidx = -1, iterators = 0\<rparr>"

definition dictCreate :: "('k, 'v) dict" where
  "dictCreate = dictInit"

text \<open>The hash functions.\<close>

definition dictIntHashFunction :: "u32 \<Rightarrow> u32" where
  "dictIntHashFunction key0 =
     (let key1 = key0 + NOT (push_bit 15 key0);
          key2 = key1 XOR drop_bit 10 key1;
          key3 = key2 + push_bit 3 key2;
          key4 = key3 XOR drop_bit 6 key3;
          key5 = key4 + NOT (push_bit 11 key4)
      in key5 XOR drop_bit 16 key5)"

definition murmur_m :: u32 where "murmur_m = 0x5bd1e995"

fun murmur_body :: "u32 \<Rightarrow> bytes \<Rightarrow> u32 \<times> bytes" where
  "murmur_body h (b0 # b1 # b2 # b3 # data) =
     (let k = of_nat (le_nat [b0, b1, b2, b3]);
          k1 = k * murmur_m;
          k2 = (k1 XOR drop_bit 24 k1) * murmur_m
      in murmur_body ((h * murmur_m) XOR k2) data)"
| "murmur_body h data = (h, data)"

definition murmur_tail :: "u32 \<Rightarrow> bytes \<Rightarrow> u32" where
  "murmur_tail h data =
     (let h3 = (if length data = 3 then h XOR push_bit 16 (ucast (data ! 2)) else h);
          h2 = (if length data \<ge> 2 then h3 XOR push_bit 8 (ucast (data ! 1)) else h3)
      in if length data \<ge> 1 then (h2 XOR ucast (data ! 0)) * murmur_m else h2)"

definition dictGenHashFunction :: "u32 \<Rightarrow> bytes \<Rightarrow> u32" where
  "dictGenHashFunction seed key =
     (let (h, data) = murmur_body (seed XOR of_nat (length key)) key;
          h1 = murmur_tail h data;
          h2 = (h1 XOR drop_bit 13 h1) * murmur_m
      in h2 XOR drop_bit 15 h2)"

definition dictGenCaseHashFunction :: "u32 \<Rightarrow> bytes \<Rightarrow> u32" where
  "dictGenCaseHashFunction seed buf =
     foldl (\<lambda>hash c. (push_bit 5 hash + hash) + ucast (tolower c)) seed buf"

text \<open>Sizing.\<close>

definition dictNextPower :: "nat \<Rightarrow> nat" where
  "dictNextPower sz =
     (if sz \<ge> nat LLONG_MAX then nat LLONG_MAX
      else while (\<lambda>i. \<not> i \<ge> sz) (\<lambda>i. i * 2) DICT_HT_INITIAL_SIZE)"

definition dictExpand :: "('k, 'v) dict \<Rightarrow> nat \<Rightarrow> ('k, 'v) dict \<times> dict_status" where
  "dictExpand d sz =
     (let realsize = dictNextPower sz
      in if dictIsRehashing d \<or> ht_used (ht0 d) > sz then (d, DICT_ERR)
         else if realsize = ht_size (ht0 d) then (d, DICT_ERR)
         else
           let n = \<lparr>ht_table = replicate realsize [], ht_size = realsize,
                    ht_sizemask = realsize - 1, ht_used = 0\<rparr>
           in if ht_table (ht0 d) = [] then (d\<lparr>ht0 := n\<rparr>, DICT_OK)
              else (d\<lparr>ht1 := n, rehashidx := 0\<rparr>, DICT_OK))"

definition dictResize :: "bool \<Rightarrow> ('k, 'v) dict \<Rightarrow> ('k, 'v) dict \<times> dict_status" where
  "dictResize cr d =
     (if \<not> cr \<or> dictIsRehashing d then (d, DICT_ERR)
      else
        let used = ht_used (ht0 d);
            minimal = (if used < DICT_HT_INITIAL_SIZE then DICT_HT_INITIAL_SIZE else used)
        in dictExpand d minimal)"

definition dictExpandIfNeeded :: "bool \<Rightarrow> ('k, 'v) dict \<Rightarrow> ('k, 'v) dict \<times> dict_status" where
  "dictExpandIfNeeded cr d =
     (if dictIsRehashing d then (d, DICT_OK)
      else if ht_size (ht0 d) = 0 then dictExpand d DICT_HT_INITIAL_SIZE
      else if ht_used (ht0 d) \<ge> ht_size (ht0 d) \<and>
              (cr \<or> ht_used (ht0 d) div ht_size (ht0 d) > dict_force_resize_ratio)
           then dictExpand d (ht_used (ht0 d) * 2)
      else (d, DICT_OK))"

text \<open>Rehashing: the loop over empty buckets, the move of one chain, and \<open>n\<close> steps of both.\<close>

definition slot :: "('k \<Rightarrow> u32) \<Rightarrow> ('k, 'v) dictht \<Rightarrow> 'k \<Rightarrow> nat" where
  "slot hash ht k = unat (hash k) AND ht_sizemask ht"

definition bucket :: "('k, 'v) dictht \<Rightarrow> nat \<Rightarrow> ('k \<times> 'v) list option" where
  "bucket ht i = (if i < length (ht_table ht) then Some (ht_table ht ! i) else None)"

function skip_empty :: "('k, 'v) dictht \<Rightarrow> nat \<Rightarrow> int \<Rightarrow> (nat \<times> int \<times> bool) option" where
  "skip_empty ht idx ev =
     (case bucket ht idx of None \<Rightarrow> None
      | Some chain \<Rightarrow>
        if chain = [] then
          (if ev - 1 = 0 then Some (Suc idx, ev - 1, True) else skip_empty ht (Suc idx) (ev - 1))
        else Some (idx, ev, False))"
  by pat_completeness auto
termination
  by (relation "measure (\<lambda>(ht, idx, ev). length (ht_table ht) - idx)")
    (auto simp: bucket_def split: if_splits)

declare skip_empty.simps [simp del]

fun move_chain :: "('k \<Rightarrow> u32) \<Rightarrow> ('k \<times> 'v) list \<Rightarrow> ('k, 'v) dictht \<Rightarrow> ('k, 'v) dictht \<Rightarrow>
    (('k, 'v) dictht \<times> ('k, 'v) dictht) option" where
  "move_chain hash [] t0 t1 = Some (t0, t1)"
| "move_chain hash (de # nextde) t0 t1 =
     (let h = slot hash t1 (fst de)
      in case bucket t1 h of None \<Rightarrow> None
         | Some chain \<Rightarrow>
           move_chain hash nextde (t0\<lparr>ht_used := ht_used t0 - 1\<rparr>)
             (t1\<lparr>ht_table := (ht_table t1)[h := de # chain], ht_used := ht_used t1 + 1\<rparr>))"

fun dictRehashLoop :: "('k \<Rightarrow> u32) \<Rightarrow> nat \<Rightarrow> int \<Rightarrow> ('k, 'v) dict \<Rightarrow> (('k, 'v) dict \<times> bool) option" where
  "dictRehashLoop hash 0 ev d = Some (d, False)"
| "dictRehashLoop hash (Suc n) ev d =
     (if ht_used (ht0 d) = 0 then Some (d, False)
      else if \<not> int (ht_size (ht0 d)) > rehashidx d then None
      else do {
        (idx, ev', full) \<leftarrow> skip_empty (ht0 d) (nat (rehashidx d)) ev;
        (if full then Some (d\<lparr>rehashidx := int idx\<rparr>, True)
         else do {
           chain \<leftarrow> bucket (ht0 d) idx;
           (t0, t1) \<leftarrow> move_chain hash chain (ht0 d) (ht1 d);
           dictRehashLoop hash n ev'
             (d\<lparr>ht0 := t0\<lparr>ht_table := (ht_table t0)[idx := []]\<rparr>, ht1 := t1,
                rehashidx := int idx + 1\<rparr>)})})"

definition dictRehash :: "('k \<Rightarrow> u32) \<Rightarrow> ('k, 'v) dict \<Rightarrow> nat \<Rightarrow> (('k, 'v) dict \<times> bool) option" where
  "dictRehash hash d n =
     (if \<not> dictIsRehashing d then Some (d, False)
      else do {
        (d', full) \<leftarrow> dictRehashLoop hash n (int n * 10) d;
        (if full then Some (d', True)
         else if ht_used (ht0 d') = 0 then
           Some (d'\<lparr>ht0 := ht1 d', ht1 := dictReset, rehashidx := -1\<rparr>, False)
         else Some (d', True))})"

definition dictRehashStep :: "('k \<Rightarrow> u32) \<Rightarrow> ('k, 'v) dict \<Rightarrow> ('k, 'v) dict option" where
  "dictRehashStep hash d =
     (if iterators d = 0 then map_option fst (dictRehash hash d 1) else Some d)"

text \<open>\<open>if (dictIsRehashing(d)) _dictRehashStep(d);\<close>\<close>

definition rehash_if :: "('k \<Rightarrow> u32) \<Rightarrow> ('k, 'v) dict \<Rightarrow> ('k, 'v) dict option" where
  "rehash_if hash d = (if dictIsRehashing d then dictRehashStep hash d else Some d)"

text \<open>Lookup in the chains; the loop over the two tables stops after the first one unless rehashing.\<close>

definition dict_search :: "('k \<Rightarrow> u32) \<Rightarrow> ('k, 'v) dict \<Rightarrow> 'k \<Rightarrow> (nat \<times> 'v) option option" where
  "dict_search hash d key = do {
     c0 \<leftarrow> bucket (ht0 d) (slot hash (ht0 d) key);
     (case map_of c0 key of Some v \<Rightarrow> Some (Some (0, v))
      | None \<Rightarrow>
        if \<not> dictIsRehashing d then Some None
        else do {
          c1 \<leftarrow> bucket (ht1 d) (slot hash (ht1 d) key);
          (case map_of c1 key of Some v \<Rightarrow> Some (Some (1, v)) | None \<Rightarrow> Some None)})}"

definition dictKeyIndex :: "bool \<Rightarrow> ('k \<Rightarrow> u32) \<Rightarrow> ('k, 'v) dict \<Rightarrow> 'k \<Rightarrow> (('k, 'v) dict \<times> int) option" where
  "dictKeyIndex cr hash d key =
     (let (d', st) = dictExpandIfNeeded cr d
      in if st = DICT_ERR then Some (d', -1)
         else do {
           r \<leftarrow> dict_search hash d' key;
           (case r of Some _ \<Rightarrow> Some (d', -1)
            | None \<Rightarrow>
              Some (d', to_signed 32 (int (slot hash (if dictIsRehashing d' then ht1 d' else ht0 d') key))))})"

definition ht_push :: "('k, 'v) dictht \<Rightarrow> nat \<Rightarrow> 'k \<times> 'v \<Rightarrow> ('k, 'v) dictht option" where
  "ht_push ht i e =
     (case bucket ht i of None \<Rightarrow> None
      | Some chain \<Rightarrow> Some (ht\<lparr>ht_table := (ht_table ht)[i := e # chain], ht_used := ht_used ht + 1\<rparr>))"

text \<open>\<open>v0\<close> is the content of the fresh entry's value field, not yet set by the caller.\<close>

definition dictAddRaw :: "bool \<Rightarrow> ('k \<Rightarrow> u32) \<Rightarrow> ('k, 'v) dict \<Rightarrow> 'k \<Rightarrow> 'v \<Rightarrow> (('k, 'v) dict \<times> bool) option" where
  "dictAddRaw cr hash d key v0 = do {
     d1 \<leftarrow> rehash_if hash d;
     (d2, index) \<leftarrow> dictKeyIndex cr hash d1 key;
     (if index = -1 then Some (d2, False)
      else if index < 0 then None
      else if dictIsRehashing d2 then do {
        t \<leftarrow> ht_push (ht1 d2) (nat index) (key, v0);
        Some (d2\<lparr>ht1 := t\<rparr>, True)}
      else do {
        t \<leftarrow> ht_push (ht0 d2) (nat index) (key, v0);
        Some (d2\<lparr>ht0 := t\<rparr>, True)})}"

definition set_chain :: "'k \<Rightarrow> 'v \<Rightarrow> ('k \<times> 'v) list \<Rightarrow> ('k \<times> 'v) list" where
  "set_chain key v = map (\<lambda>e. if fst e = key then (key, v) else e)"

definition dictSetVal :: "('k, 'v) dict \<Rightarrow> 'k \<Rightarrow> 'v \<Rightarrow> ('k, 'v) dict" where
  "dictSetVal d key v =
     d\<lparr>ht0 := (ht0 d)\<lparr>ht_table := map (set_chain key v) (ht_table (ht0 d))\<rparr>,
       ht1 := (ht1 d)\<lparr>ht_table := map (set_chain key v) (ht_table (ht1 d))\<rparr>\<rparr>"

definition dictAdd :: "bool \<Rightarrow> ('k \<Rightarrow> u32) \<Rightarrow> 'v \<Rightarrow> ('k, 'v) dict \<Rightarrow> 'k \<Rightarrow> 'v \<Rightarrow> (('k, 'v) dict \<times> dict_status) option" where
  "dictAdd cr hash v0 d key val = do {
     (d', added) \<leftarrow> dictAddRaw cr hash d key v0;
     (if \<not> added then Some (d', DICT_ERR) else Some (dictSetVal d' key val, DICT_OK))}"

definition dictFind :: "('k \<Rightarrow> u32) \<Rightarrow> ('k, 'v) dict \<Rightarrow> 'k \<Rightarrow> (('k, 'v) dict \<times> 'v option) option" where
  "dictFind hash d key =
     (if ht_used (ht0 d) + ht_used (ht1 d) = 0 then Some (d, None)
      else do {
        d1 \<leftarrow> rehash_if hash d;
        r \<leftarrow> dict_search hash d1 key;
        Some (d1, map_option snd r)})"

definition dictFetchValue :: "('k \<Rightarrow> u32) \<Rightarrow> ('k, 'v) dict \<Rightarrow> 'k \<Rightarrow> (('k, 'v) dict \<times> 'v option) option" where
  "dictFetchValue hash d key = do { (d1, he) \<leftarrow> dictFind hash d key; Some (d1, he) }"

text \<open>The result is true when the key was added, false when its value was updated.\<close>

definition dictReplace :: "bool \<Rightarrow> ('k \<Rightarrow> u32) \<Rightarrow> 'v \<Rightarrow> ('k, 'v) dict \<Rightarrow> 'k \<Rightarrow> 'v \<Rightarrow> (('k, 'v) dict \<times> bool) option" where
  "dictReplace cr hash v0 d key val = do {
     (d1, st) \<leftarrow> dictAdd cr hash v0 d key val;
     (if st = DICT_OK then Some (d1, True)
      else do {
        (d2, he) \<leftarrow> dictFind hash d1 key;
        (case he of None \<Rightarrow> None | Some _ \<Rightarrow> Some (dictSetVal d2 key val, False))})}"

definition dictReplaceRaw :: "bool \<Rightarrow> ('k \<Rightarrow> u32) \<Rightarrow> ('k, 'v) dict \<Rightarrow> 'k \<Rightarrow> 'v \<Rightarrow> (('k, 'v) dict \<times> bool) option" where
  "dictReplaceRaw cr hash d key v0 = do {
     (d1, he) \<leftarrow> dictFind hash d key;
     (case he of Some _ \<Rightarrow> Some (d1, True) | None \<Rightarrow> dictAddRaw cr hash d1 key v0)}"

fun del_chain :: "'k \<Rightarrow> ('k \<times> 'v) list \<Rightarrow> ('k \<times> 'v) list" where
  "del_chain key [] = []"
| "del_chain key (he # c) = (if fst he = key then c else he # del_chain key c)"

definition dictGenericDelete :: "('k \<Rightarrow> u32) \<Rightarrow> ('k, 'v) dict \<Rightarrow> 'k \<Rightarrow> (('k, 'v) dict \<times> dict_status) option" where
  "dictGenericDelete hash d key =
     (if ht_size (ht0 d) = 0 then Some (d, DICT_ERR)
      else do {
        d1 \<leftarrow> rehash_if hash d;
        let i0 = slot hash (ht0 d1) key;
        c0 \<leftarrow> bucket (ht0 d1) i0;
        (if map_of c0 key \<noteq> None then
           Some (d1\<lparr>ht0 := (ht0 d1)\<lparr>ht_table := (ht_table (ht0 d1))[i0 := del_chain key c0],
                                 ht_used := ht_used (ht0 d1) - 1\<rparr>\<rparr>, DICT_OK)
         else if \<not> dictIsRehashing d1 then Some (d1, DICT_ERR)
         else do {
           let i1 = slot hash (ht1 d1) key;
           c1 \<leftarrow> bucket (ht1 d1) i1;
           (if map_of c1 key \<noteq> None then
              Some (d1\<lparr>ht1 := (ht1 d1)\<lparr>ht_table := (ht_table (ht1 d1))[i1 := del_chain key c1],
                                    ht_used := ht_used (ht1 d1) - 1\<rparr>\<rparr>, DICT_OK)
            else Some (d1, DICT_ERR))})})"

definition dictDelete :: "('k \<Rightarrow> u32) \<Rightarrow> ('k, 'v) dict \<Rightarrow> 'k \<Rightarrow> (('k, 'v) dict \<times> dict_status) option" where
  "dictDelete hash d key = dictGenericDelete hash d key"

text \<open>
  \<open>_dictClear\<close> frees the entries of the buckets while \<open>used\<close> is positive, then the table, and resets
  it; the second component is the list of the entries freed, in order.
\<close>

fun free_buckets :: "('k \<times> 'v) list list \<Rightarrow> nat \<Rightarrow> ('k \<times> 'v) list" where
  "free_buckets [] used = []"
| "free_buckets (he # table) used =
     (if \<not> used > 0 then [] else he @ free_buckets table (used - length he))"

definition dictClear :: "('k, 'v) dictht \<Rightarrow> ('k, 'v) dictht \<times> ('k \<times> 'v) list" where
  "dictClear ht = (dictReset, free_buckets (ht_table ht) (ht_used ht))"

definition dictEmpty :: "('k, 'v) dict \<Rightarrow> ('k, 'v) dict \<times> ('k \<times> 'v) list" where
  "dictEmpty d =
     (let (t0, freed0) = dictClear (ht0 d); (t1, freed1) = dictClear (ht1 d)
      in (d\<lparr>ht0 := t0, ht1 := t1, rehashidx := -1, iterators := 0\<rparr>, freed0 @ freed1))"


section \<open>Well-formed dictionaries and the map they hold\<close>

definition ht_entries :: "('k, 'v) dictht \<Rightarrow> ('k \<times> 'v) list" where
  "ht_entries ht = concat (ht_table ht)"

definition dict_entries :: "('k, 'v) dict \<Rightarrow> ('k \<times> 'v) list" where
  "dict_entries d = ht_entries (ht0 d) @ ht_entries (ht1 d)"

definition dict_map :: "('k, 'v) dict \<Rightarrow> 'k \<rightharpoonup> 'v" where
  "dict_map d = map_of (dict_entries d)"

definition ht_live :: "('k \<Rightarrow> u32) \<Rightarrow> ('k, 'v) dictht \<Rightarrow> bool" where
  "ht_live hash ht \<longleftrightarrow> (\<exists>k \<le> 31. ht_size ht = 2 ^ k \<and> ht_sizemask ht = 2 ^ k - 1)
     \<and> length (ht_table ht) = ht_size ht \<and> ht_used ht = length (ht_entries ht)
     \<and> (\<forall>i < length (ht_table ht). \<forall>e \<in> set (ht_table ht ! i). slot hash ht (fst e) = i)"

definition dict_wf :: "('k \<Rightarrow> u32) \<Rightarrow> ('k, 'v) dict \<Rightarrow> bool" where
  "dict_wf hash d \<longleftrightarrow> distinct (map fst (dict_entries d)) \<and>
     (if dictIsRehashing d then
        ht_live hash (ht0 d) \<and> ht_live hash (ht1 d) \<and> 0 \<le> rehashidx d
          \<and> (\<forall>i < nat (rehashidx d). bucket (ht0 d) i = Some [])
      else (ht0 d = dictReset \<or> ht_live hash (ht0 d)) \<and> ht1 d = dictReset)"

text \<open>Two dictionaries with the same entries, in whatever buckets.\<close>

definition dict_same :: "('k, 'v) dict \<Rightarrow> ('k, 'v) dict \<Rightarrow> bool" where
  "dict_same d d' \<longleftrightarrow> mset (dict_entries d') = mset (dict_entries d) \<and> iterators d' = iterators d"

lemma dict_same_refl [simp]: "dict_same d d"
  by (simp add: dict_same_def)

lemma dict_same_trans: "dict_same a b \<Longrightarrow> dict_same b c \<Longrightarrow> dict_same a c"
  by (simp add: dict_same_def)

lemma distinct_fst_mset: "mset xs = mset ys \<Longrightarrow> distinct (map fst xs) \<longleftrightarrow> distinct (map fst ys)"
  by (metis mset_map mset_eq_imp_distinct_iff)

lemma map_of_mset:
  assumes "mset xs = mset ys" and "distinct (map fst xs)"
  shows "map_of xs = map_of ys"
  using assms distinct_fst_mset [OF assms(1)] map_of_inject_set [of xs ys] mset_eq_setD [OF assms(1)]
  by blast

lemma dict_same_map:
  assumes "dict_same d d'" and "dict_wf hash d"
  shows "dict_map d' = dict_map d"
proof -
  have "map_of (dict_entries d) = map_of (dict_entries d')"
    using assms by (intro map_of_mset) (auto simp: dict_same_def dict_wf_def)
  then show ?thesis by (simp add: dict_map_def)
qed

lemma dict_same_distinct:
  "dict_same d d' \<Longrightarrow> distinct (map fst (dict_entries d')) = distinct (map fst (dict_entries d))"
  by (rule distinct_fst_mset) (simp add: dict_same_def)

lemma entries_reset [simp]: "ht_entries dictReset = []" "ht_used dictReset = 0" "ht_table dictReset = []"
    "ht_size dictReset = 0"
  by (simp_all add: ht_entries_def dictReset_def)

lemma slot_less:
  assumes "ht_live hash ht"
  shows "slot hash ht k < length (ht_table ht)"
proof -
  obtain n where n: "ht_size ht = 2 ^ n" "ht_sizemask ht = mask n"
    using assms by (auto simp: ht_live_def mask_eq_exp_minus_1)
  have "unat (hash k) AND mask n = take_bit n (unat (hash k))" by (simp add: take_bit_eq_mask)
  also have "\<dots> < 2 ^ n" by simp
  finally show ?thesis using assms n by (simp add: slot_def ht_live_def)
qed

lemma bucket_slot: "ht_live hash ht \<Longrightarrow> bucket ht (slot hash ht k) = Some (ht_table ht ! slot hash ht k)"
  using slot_less by (auto simp: bucket_def)

lemma slot_bound: "ht_live hash ht \<Longrightarrow> slot hash ht k < 2 ^ 31"
proof -
  assume l: "ht_live hash ht"
  then obtain n where "n \<le> 31" "length (ht_table ht) = 2 ^ n" by (auto simp: ht_live_def)
  moreover have "(2::nat) ^ n \<le> 2 ^ 31" using \<open>n \<le> 31\<close> by (intro power_increasing) auto
  ultimately show ?thesis using slot_less [OF l, of k] by linarith
qed

lemma map_of_concat_one:
  assumes "i < length xs" and "\<And>j. j < length xs \<Longrightarrow> j \<noteq> i \<Longrightarrow> k \<notin> fst ` set (xs ! j)"
  shows "map_of (concat xs) k = map_of (xs ! i) k"
  using assms
proof (induction xs arbitrary: i)
  case (Cons x xs)
  show ?case
  proof (cases i)
    case 0
    have "k \<notin> fst ` set (concat xs)"
    proof
      assume "k \<in> fst ` set (concat xs)"
      then obtain y where "y \<in> set xs" "k \<in> fst ` set y" by auto
      then obtain j where "j < length xs" "k \<in> fst ` set (xs ! j)" by (metis in_set_conv_nth)
      then show False using Cons.prems(2) [of "Suc j"] 0 by simp
    qed
    then have "map_of (concat xs) k = None" by (simp add: map_of_eq_None_iff)
    then show ?thesis using 0 by (simp add: map_add_def split: option.split)
  next
    case (Suc i')
    have "map_of x k = None" using Cons.prems(2) [of 0] Suc by (simp add: map_of_eq_None_iff)
    moreover have "map_of (concat xs) k = map_of (xs ! i') k"
      using Cons.IH [of i'] Cons.prems Suc by force
    ultimately show ?thesis using Suc by (simp add: map_add_def split: option.split)
  qed
qed simp

lemma live_lookup:
  assumes "ht_live hash ht"
  shows "map_of (ht_table ht ! slot hash ht k) k = map_of (ht_entries ht) k"
proof -
  have "map_of (concat (ht_table ht)) k = map_of (ht_table ht ! slot hash ht k) k"
    using assms by (intro map_of_concat_one slot_less) (auto simp: ht_live_def)
  then show ?thesis by (simp add: ht_entries_def)
qed

lemma map_of_append_disj:
  "map_of (xs @ ys) k = (case map_of xs k of Some v \<Rightarrow> Some v | None \<Rightarrow> map_of ys k)"
  if "distinct (map fst (xs @ ys))"
proof -
  have "map_of xs k = Some v \<Longrightarrow> map_of ys k = None" for v
    using that by (force simp: map_of_eq_None_iff dest: map_of_SomeD)
  then show ?thesis by (auto simp: map_add_def split: option.splits)
qed

text \<open>What the search over the two tables computes.\<close>

lemma dict_search_correct:
  assumes wf: "dict_wf hash d" and live: "ht_live hash (ht0 d)"
  shows "\<exists>r. dict_search hash d k = Some r \<and> map_option snd r = dict_map d k"
proof -
  have b0: "bucket (ht0 d) (slot hash (ht0 d) k) = Some (ht_table (ht0 d) ! slot hash (ht0 d) k)"
    by (rule bucket_slot [OF live])
  have dist: "distinct (map fst (ht_entries (ht0 d) @ ht_entries (ht1 d)))"
    using wf by (simp add: dict_wf_def dict_entries_def)
  have m: "dict_map d k = (case map_of (ht_table (ht0 d) ! slot hash (ht0 d) k) k of
      Some v \<Rightarrow> Some v | None \<Rightarrow> map_of (ht_entries (ht1 d)) k)"
    unfolding dict_map_def dict_entries_def map_of_append_disj [OF dist] live_lookup [OF live] ..
  show ?thesis
  proof (cases "dictIsRehashing d")
    case True
    then have l1: "ht_live hash (ht1 d)" using wf by (simp add: dict_wf_def)
    show ?thesis using True m live_lookup [OF l1, of k]
      by (auto simp: dict_search_def b0 bucket_slot [OF l1] split: option.splits)
  next
    case False
    then have "ht1 d = dictReset" using wf by (simp add: dict_wf_def)
    then show ?thesis using False m
      by (auto simp: dict_search_def b0 split: option.splits)
  qed
qed

section \<open>Rehashing\<close>

lemma skip_empty_correct:
  assumes "idx \<le> j" and "j < length (ht_table ht)" and "ht_table ht ! j \<noteq> []"
  shows "\<exists>idx' ev' full. skip_empty ht idx ev = Some (idx', ev', full) \<and> idx \<le> idx'
    \<and> (\<forall>i. idx \<le> i \<and> i < idx' \<longrightarrow> bucket ht i = Some [])
    \<and> (if full then idx < idx' else idx' < length (ht_table ht) \<and> ht_table ht ! idx' \<noteq> [])"
  using assms
proof (induction "j - idx" arbitrary: idx ev)
  case 0
  then have "skip_empty ht idx ev = Some (idx, ev, False)"
    by (subst skip_empty.simps) (simp add: bucket_def)
  then show ?case using 0 by (intro exI [of _ idx] exI [of _ ev] exI [of _ False]) auto
next
  case (Suc n)
  show ?case
  proof (cases "ht_table ht ! idx = []")
    case True
    then have b: "bucket ht idx = Some []" and lt: "idx < j" using Suc by (auto simp: bucket_def)
    show ?thesis
    proof (cases "ev - 1 = 0")
      case True
      then have "skip_empty ht idx ev = Some (Suc idx, ev - 1, True)"
        using b by (subst skip_empty.simps) simp
      then show ?thesis
        using b by (intro exI [of _ "Suc idx"] exI [of _ "ev - 1"] exI [of _ True]) (auto simp: le_less_Suc_eq)
    next
      case False
      have "n = j - Suc idx" using Suc.hyps(2) by simp
      from Suc.hyps(1) [OF this _ Suc.prems(2,3), of "ev - 1"] lt
      obtain idx' ev' full where r: "skip_empty ht (Suc idx) (ev - 1) = Some (idx', ev', full)"
          "Suc idx \<le> idx'" "\<forall>i. Suc idx \<le> i \<and> i < idx' \<longrightarrow> bucket ht i = Some []"
          "if full then Suc idx < idx' else idx' < length (ht_table ht) \<and> ht_table ht ! idx' \<noteq> []"
        using Suc_leI by blast
      have "bucket ht i = Some []" if "idx \<le> i" "i < idx'" for i
        using that b r(3) by (cases "i = idx") auto
      moreover have "skip_empty ht idx ev = Some (idx', ev', full)"
        using False b r(1) by (subst skip_empty.simps) simp
      ultimately show ?thesis using r
        by (intro exI [of _ idx'] exI [of _ ev'] exI [of _ full]) (auto split: if_splits)
    qed
  next
    case False
    then have "skip_empty ht idx ev = Some (idx, ev, False)"
      using Suc by (subst skip_empty.simps) (simp add: bucket_def)
    then show ?thesis
      using False Suc by (intro exI [of _ idx] exI [of _ ev] exI [of _ False]) auto
  qed
qed

lemma mset_concat_update:
  "i < length xs \<Longrightarrow> mset (concat (xs[i := ys])) + mset (xs ! i) = mset (concat xs) + mset ys"
proof (induction xs arbitrary: i)
  case (Cons x xs)
  show ?case
  proof (cases i)
    case (Suc i')
    then have "mset (concat (xs[i' := ys])) + mset (xs ! i') = mset (concat xs) + mset ys"
      using Cons by simp
    then show ?thesis using Suc by (simp add: add.assoc)
  qed (simp add: add.commute)
qed simp

lemma length_concat_update:
  "i < length xs \<Longrightarrow> length (concat (xs[i := ys])) + length (xs ! i) = length (concat xs) + length ys"
  using arg_cong [OF mset_concat_update, of i xs size ys] by simp

lemma slot_update [simp]:
  "slot hash (ht\<lparr>ht_table := t, ht_used := u\<rparr>) = slot hash ht"
  "slot hash (ht\<lparr>ht_table := t\<rparr>) = slot hash ht"
  by (simp_all add: slot_def fun_eq_iff)

lemma bucket_live_set: "ht_live hash ht \<Longrightarrow> bucket ht i = Some c \<Longrightarrow> e \<in> set c \<Longrightarrow> slot hash ht (fst e) = i"
  by (auto simp: bucket_def ht_live_def split: if_splits)

text \<open>Pushing an entry on its chain, and replacing a chain by a sub-list of it, keep a table live.\<close>

lemma live_push:
  assumes "ht_live hash ht"
  shows "ht_live hash (ht\<lparr>ht_table := (ht_table ht)[slot hash ht (fst e) := e # ht_table ht ! slot hash ht (fst e)],
      ht_used := ht_used ht + 1\<rparr>)
    \<and> mset (ht_entries (ht\<lparr>ht_table := (ht_table ht)[slot hash ht (fst e) := e # ht_table ht ! slot hash ht (fst e)],
      ht_used := ht_used ht + 1\<rparr>)) = add_mset e (mset (ht_entries ht))"
proof -
  let ?i = "slot hash ht (fst e)" and ?t = "ht_table ht"
  have i: "?i < length ?t" by (rule slot_less [OF assms])
  have "mset (concat (?t[?i := e # ?t ! ?i])) = add_mset e (mset (concat ?t))"
    using mset_concat_update [OF i, of "e # ?t ! ?i"] by simp
  moreover from this have "length (concat (?t[?i := e # ?t ! ?i])) = Suc (length (concat ?t))"
    by (metis size_add_mset size_mset)
  ultimately show ?thesis using assms i
    by (auto simp: ht_live_def ht_entries_def nth_list_update)
qed

lemma live_shrink:
  assumes live: "ht_live hash ht" and i: "i < length (ht_table ht)"
    and sub: "set c \<subseteq> set (ht_table ht ! i)"
    and used: "u + length (ht_table ht ! i) = ht_used ht + length c"
  shows "ht_live hash (ht\<lparr>ht_table := (ht_table ht)[i := c], ht_used := u\<rparr>)"
proof -
  have "slot hash ht (fst e) = j" if "j < length (ht_table ht)" "e \<in> set ((ht_table ht)[i := c] ! j)" for j e
    using that live sub i unfolding ht_live_def by (cases "j = i") auto
  then show ?thesis
    using live used length_concat_update [OF i, of c] by (auto simp: ht_live_def ht_entries_def)
qed

lemma ht_update_commute: "ht\<lparr>ht_used := u, ht_table := t\<rparr> = ht\<lparr>ht_table := t, ht_used := u\<rparr>"
  by simp

lemma move_chain_correct:
  assumes "ht_live hash t1"
  shows "\<exists>t1'. move_chain hash chain t0 t1 = Some (t0\<lparr>ht_used := ht_used t0 - length chain\<rparr>, t1')
    \<and> ht_live hash t1' \<and> mset (ht_entries t1') = mset (ht_entries t1) + mset chain"
  using assms
proof (induction chain arbitrary: t0 t1)
  case (Cons de c)
  let ?t1 = "t1\<lparr>ht_table := (ht_table t1)[slot hash t1 (fst de) := de # ht_table t1 ! slot hash t1 (fst de)],
      ht_used := ht_used t1 + 1\<rparr>"
  have p: "ht_live hash ?t1" "mset (ht_entries ?t1) = add_mset de (mset (ht_entries t1))"
    using live_push [OF Cons.prems, of de] by auto
  from Cons.IH [OF p(1), of "t0\<lparr>ht_used := ht_used t0 - 1\<rparr>"] p(2)
  show ?case by (auto simp: bucket_slot [OF Cons.prems])
qed simp


lemma used_pos_bucket:
  assumes "ht_live hash ht" and "ht_used ht \<noteq> 0" and "\<forall>i < n. bucket ht i = Some []"
  shows "\<exists>j \<ge> n. j < length (ht_table ht) \<and> ht_table ht ! j \<noteq> []"
proof -
  have "concat (ht_table ht) \<noteq> []" using assms by (auto simp: ht_live_def ht_entries_def)
  then obtain c where "c \<in> set (ht_table ht)" "c \<noteq> []" by auto
  then obtain j where j: "j < length (ht_table ht)" "ht_table ht ! j \<noteq> []" by (metis in_set_conv_nth)
  then have "\<not> j < n" using assms(3) by (auto simp: bucket_def)
  with j show ?thesis by (intro exI [of _ j]) auto
qed

text \<open>One iteration of the outer loop: the first non-empty chain moves to the new table.\<close>

lemma rehash_move:
  assumes wf: "dict_wf hash d" and rh: "dictIsRehashing d" and idx: "idx < length (ht_table (ht0 d))"
    and empty: "\<forall>i < idx. bucket (ht0 d) i = Some []"
  shows "\<exists>t1. move_chain hash (ht_table (ht0 d) ! idx) (ht0 d) (ht1 d) =
      Some ((ht0 d)\<lparr>ht_used := ht_used (ht0 d) - length (ht_table (ht0 d) ! idx)\<rparr>, t1) \<and>
    (let d' = d\<lparr>ht0 := (ht0 d)\<lparr>ht_used := ht_used (ht0 d) - length (ht_table (ht0 d) ! idx),
        ht_table := (ht_table (ht0 d))[idx := []]\<rparr>, ht1 := t1, rehashidx := int idx + 1\<rparr>
     in dict_wf hash d' \<and> dictIsRehashing d' \<and> dict_same d d')"
proof -
  let ?t = "ht0 d" and ?c = "ht_table (ht0 d) ! idx"
  have live: "ht_live hash ?t" "ht_live hash (ht1 d)" using wf rh by (auto simp: dict_wf_def)
  obtain t1 where t1: "move_chain hash ?c ?t (ht1 d) = Some (?t\<lparr>ht_used := ht_used ?t - length ?c\<rparr>, t1)"
      "ht_live hash t1" "mset (ht_entries t1) = mset (ht_entries (ht1 d)) + mset ?c"
    using move_chain_correct [OF live(2)] by blast
  define d' where "d' = d\<lparr>ht0 := ?t\<lparr>ht_used := ht_used ?t - length ?c, ht_table := (ht_table ?t)[idx := []]\<rparr>,
      ht1 := t1, rehashidx := int idx + 1\<rparr>"
  have cu: "length (concat ((ht_table ?t)[idx := []])) + length ?c = length (concat (ht_table ?t))"
    using length_concat_update [OF idx, of "[]"] by simp
  then have "ht_used ?t - length ?c + length ?c = ht_used ?t"
    using live(1) by (simp add: ht_live_def ht_entries_def)
  then have l0: "ht_live hash (ht0 d')"
    using live_shrink [OF live(1) idx, of "[]" "ht_used ?t - length ?c"] by (simp add: d'_def ht_update_commute)
  have "mset (concat ((ht_table ?t)[idx := []])) + mset ?c = mset (concat (ht_table ?t))"
    using mset_concat_update [OF idx, of "[]"] by simp
  then have E: "mset (ht_entries ?t) = mset (ht_entries (ht0 d')) + mset ?c"
    by (simp add: ht_entries_def d'_def)
  have "ht1 d' = t1" "iterators d' = iterators d" by (simp_all add: d'_def)
  then have same: "dict_same d d'" by (simp add: dict_same_def dict_entries_def t1(3) E)
  have "bucket (ht0 d') i = Some []" if "i < Suc idx" for i
    using that empty idx by (auto simp: d'_def bucket_def less_Suc_eq split: if_splits)
  moreover have "distinct (map fst (dict_entries d'))"
    using same wf dict_same_distinct by (auto simp: dict_wf_def)
  moreover have "dictIsRehashing d'" "nat (rehashidx d') = Suc idx" "0 \<le> rehashidx d'" "ht1 d' = t1"
    by (auto simp: d'_def dictIsRehashing_def)
  ultimately have "dict_wf hash d' \<and> dictIsRehashing d' \<and> dict_same d d'"
    using l0 t1(2) same by (simp add: dict_wf_def)
  then show ?thesis using t1(1) unfolding d'_def Let_def by blast
qed

lemma dict_wf_rehash:
  "dict_wf hash d \<Longrightarrow> dictIsRehashing d \<Longrightarrow> ht_live hash (ht0 d) \<and> ht_live hash (ht1 d) \<and> 0 \<le> rehashidx d
     \<and> (\<forall>i < nat (rehashidx d). bucket (ht0 d) i = Some [])"
  by (simp add: dict_wf_def)

lemma dict_wf_set_rehashidx:
  assumes "dict_wf hash d" and "dictIsRehashing d" and "\<forall>i < idx. bucket (ht0 d) i = Some []"
  shows "dict_wf hash (d\<lparr>rehashidx := int idx\<rparr>) \<and> dictIsRehashing (d\<lparr>rehashidx := int idx\<rparr>)
    \<and> dict_same d (d\<lparr>rehashidx := int idx\<rparr>)"
  using assms by (auto simp: dict_wf_def dictIsRehashing_def dict_entries_def dict_same_def)

lemma dictRehashLoop_correct:
  assumes "dict_wf hash d" and "dictIsRehashing d"
  shows "\<exists>d' full. dictRehashLoop hash n ev d = Some (d', full) \<and> dict_wf hash d' \<and> dictIsRehashing d'
    \<and> dict_same d d'
    \<and> (n \<noteq> 0 \<and> ht_used (ht0 d) \<noteq> 0 \<longrightarrow> rehashidx d < rehashidx d')
    \<and> rehashidx d \<le> rehashidx d' \<and> ht_size (ht0 d') = ht_size (ht0 d)"
  using assms
proof (induction n arbitrary: d ev)
  case 0
  then show ?case by auto
next
  case (Suc n)
  show ?case
  proof (cases "ht_used (ht0 d) = 0")
    case True
    then show ?thesis using Suc.prems by (intro exI [of _ d] exI [of _ False]) simp
  next
    case False
    note w = dict_wf_rehash [OF Suc.prems]
    obtain j where j: "nat (rehashidx d) \<le> j" "j < length (ht_table (ht0 d))" "ht_table (ht0 d) ! j \<noteq> []"
      using used_pos_bucket [of hash "ht0 d" "nat (rehashidx d)"] w False by auto
    have sz: "int (ht_size (ht0 d)) > rehashidx d" using j w by (auto simp: ht_live_def)
    obtain idx ev' full where sk: "skip_empty (ht0 d) (nat (rehashidx d)) ev = Some (idx, ev', full)"
        "nat (rehashidx d) \<le> idx" "\<forall>i. nat (rehashidx d) \<le> i \<and> i < idx \<longrightarrow> bucket (ht0 d) i = Some []"
        "if full then nat (rehashidx d) < idx else idx < length (ht_table (ht0 d)) \<and> ht_table (ht0 d) ! idx \<noteq> []"
      using skip_empty_correct [OF j, of ev] by blast
    have empty: "\<forall>i < idx. bucket (ht0 d) i = Some []" using sk(3) w by (meson not_le)
    show ?thesis
    proof (cases full)
      case True
      then have "dictRehashLoop hash (Suc n) ev d = Some (d\<lparr>rehashidx := int idx\<rparr>, True)"
        using False sz sk(1) by simp
      then show ?thesis using dict_wf_set_rehashidx [OF Suc.prems empty] True sk w
        by (intro exI [of _ "d\<lparr>rehashidx := int idx\<rparr>"] exI [of _ True]) auto
    next
      case nf: False
      then have idx: "idx < length (ht_table (ht0 d))" using sk(4) by simp
      obtain t1 where t1: "move_chain hash (ht_table (ht0 d) ! idx) (ht0 d) (ht1 d) =
          Some ((ht0 d)\<lparr>ht_used := ht_used (ht0 d) - length (ht_table (ht0 d) ! idx)\<rparr>, t1)"
        and r: "let d' = d\<lparr>ht0 := (ht0 d)\<lparr>ht_used := ht_used (ht0 d) - length (ht_table (ht0 d) ! idx),
            ht_table := (ht_table (ht0 d))[idx := []]\<rparr>, ht1 := t1, rehashidx := int idx + 1\<rparr>
          in dict_wf hash d' \<and> dictIsRehashing d' \<and> dict_same d d'"
        using rehash_move [OF Suc.prems idx empty] by blast
      define d1 where "d1 = d\<lparr>ht0 := (ht0 d)\<lparr>ht_used := ht_used (ht0 d) - length (ht_table (ht0 d) ! idx),
            ht_table := (ht_table (ht0 d))[idx := []]\<rparr>, ht1 := t1, rehashidx := int idx + 1\<rparr>"
      have d1: "dict_wf hash d1" "dictIsRehashing d1" "dict_same d d1" using r by (auto simp: d1_def Let_def)
      have step: "dictRehashLoop hash (Suc n) ev d = dictRehashLoop hash n ev' d1"
        using False sz sk(1) nf t1 idx by (simp add: bucket_def d1_def)
      obtain d' full' where "dictRehashLoop hash n ev' d1 = Some (d', full')" "dict_wf hash d'"
          "dictIsRehashing d'" "dict_same d1 d'" "rehashidx d1 \<le> rehashidx d'" "ht_size (ht0 d') = ht_size (ht0 d1)"
        using Suc.IH [OF d1(1,2), of ev'] by blast
      moreover have "rehashidx d < rehashidx d1" "ht_size (ht0 d1) = ht_size (ht0 d)"
        using sk(2) w by (auto simp: d1_def)
      ultimately show ?thesis using step dict_same_trans [OF d1(3)]
        by (intro exI [of _ d'] exI [of _ full']) auto
    qed
  qed
qed

lemma dictRehash_correct:
  assumes wf: "dict_wf hash d"
  shows "\<exists>d' more. dictRehash hash d n = Some (d', more) \<and> dict_wf hash d' \<and> dict_same d d'
    \<and> more = dictIsRehashing d' \<and> (ht_live hash (ht0 d) \<longrightarrow> ht_live hash (ht0 d'))"
proof (cases "dictIsRehashing d")
  case False
  then show ?thesis using wf by (intro exI [of _ d] exI [of _ False]) (auto simp: dictRehash_def)
next
  case True
  obtain d1 full where d1: "dictRehashLoop hash n (int n * 10) d = Some (d1, full)" "dict_wf hash d1"
      "dictIsRehashing d1" "dict_same d d1"
    using dictRehashLoop_correct [OF wf True] by blast
  show ?thesis
  proof (cases "\<not> full \<and> ht_used (ht0 d1) = 0")
    case fin: True
    let ?d = "d1\<lparr>ht0 := ht1 d1, ht1 := dictReset, rehashidx := -1\<rparr>"
    note w = dict_wf_rehash [OF d1(2,3)]
    have "ht_entries (ht0 d1) = []" using w fin by (auto simp: ht_live_def)
    then have e: "dict_entries ?d = dict_entries d1" by (simp add: dict_entries_def)
    have "dict_wf hash ?d" using w d1(2) e by (simp add: dict_wf_def dictIsRehashing_def)
    moreover have "dict_same d ?d" using d1(4) e by (simp add: dict_same_def)
    moreover have "dictRehash hash d n = Some (?d, False)" using True d1(1) fin by (simp add: dictRehash_def)
    ultimately show ?thesis using w
      by (intro exI [of _ ?d] exI [of _ False]) (simp add: dictIsRehashing_def)
  next
    case False
    then have "dictRehash hash d n = Some (d1, True)" using True d1(1) by (auto simp: dictRehash_def)
    then show ?thesis using d1 dict_wf_rehash [OF d1(2,3)] by (intro exI [of _ d1] exI [of _ True]) auto
  qed
qed

lemma dictRehash_progress:
  assumes wf: "dict_wf hash d" and re: "dictIsRehashing d" and n: "n \<noteq> 0"
    and d': "dictRehash hash d n = Some (d', True)"
  shows "rehashidx d < rehashidx d' \<and> ht_size (ht0 d') = ht_size (ht0 d)"
proof -
  obtain d1 full where d1: "dictRehashLoop hash n (int n * 10) d = Some (d1, full)"
      "n \<noteq> 0 \<and> ht_used (ht0 d) \<noteq> 0 \<longrightarrow> rehashidx d < rehashidx d1" "ht_size (ht0 d1) = ht_size (ht0 d)"
    using dictRehashLoop_correct [OF wf re] by blast
  have "ht_used (ht0 d) \<noteq> 0"
  proof
    assume "ht_used (ht0 d) = 0"
    then show False using d' re n by (cases n) (simp_all add: dictRehash_def)
  qed
  then show ?thesis using d1 d' re n by (auto simp: dictRehash_def split: if_splits)
qed

lemma rehashidx_bound:
  assumes wf: "dict_wf hash d" and re: "dictIsRehashing d"
  shows "nat (rehashidx d) \<le> ht_size (ht0 d)"
proof (rule ccontr)
  assume "\<not> ?thesis"
  then have "bucket (ht0 d) (ht_size (ht0 d)) = Some []" using wf re by (simp add: dict_wf_def)
  then show False using wf re by (auto simp: dict_wf_def ht_live_def bucket_def)
qed

text \<open>Calling \<open>dictRehash\<close> again and again ends the rehashing after at most one call per bucket.\<close>

fun rehash_calls :: "('k \<Rightarrow> u32) \<Rightarrow> nat \<Rightarrow> nat \<Rightarrow> ('k, 'v) dict \<Rightarrow> ('k, 'v) dict option" where
  "rehash_calls hash n 0 d = Some d"
| "rehash_calls hash n (Suc m) d = do { (d', _) \<leftarrow> dictRehash hash d n; rehash_calls hash n m d' }"

lemma rehash_calls_correct:
  assumes "dict_wf hash d" and "n \<noteq> 0"
    and "dictIsRehashing d \<Longrightarrow> ht_size (ht0 d) - nat (rehashidx d) < m"
  shows "\<exists>d'. rehash_calls hash n m d = Some d' \<and> dict_wf hash d' \<and> dict_same d d' \<and> \<not> dictIsRehashing d'"
  using assms
proof (induction m arbitrary: d)
  case (Suc m)
  obtain d1 more where d1: "dictRehash hash d n = Some (d1, more)" "dict_wf hash d1" "dict_same d d1"
      "more = dictIsRehashing d1"
    using dictRehash_correct [OF Suc.prems(1)] by blast
  have "ht_size (ht0 d1) - nat (rehashidx d1) < m" if re1: "dictIsRehashing d1"
  proof -
    have re: "dictIsRehashing d" using d1 re1 by (auto simp: dictRehash_def split: if_splits)
    have "rehashidx d < rehashidx d1" "ht_size (ht0 d1) = ht_size (ht0 d)"
      using dictRehash_progress [OF Suc.prems(1) re Suc.prems(2)] d1 re1 by auto
    moreover have "0 \<le> rehashidx d" using Suc.prems(1) re by (simp add: dict_wf_def)
    ultimately show ?thesis
      using Suc.prems(3) [OF re] rehashidx_bound [OF d1(2) re1] by linarith
  qed
  then obtain d2 where "rehash_calls hash n m d1 = Some d2" "dict_wf hash d2" "dict_same d1 d2" "\<not> dictIsRehashing d2"
    using Suc.IH [OF d1(2) Suc.prems(2)] by blast
  then show ?case using d1 dict_same_trans [of d d1 d2] by auto
qed auto

lemma rehash_if_correct:
  assumes wf: "dict_wf hash d"
  shows "\<exists>d'. rehash_if hash d = Some d' \<and> dict_wf hash d' \<and> dict_same d d'
    \<and> (ht_live hash (ht0 d) \<longrightarrow> ht_live hash (ht0 d'))"
  using dictRehash_correct [OF wf, of 1] wf
  by (auto simp: rehash_if_def dictRehashStep_def)


section \<open>Growing\<close>

lemma dictNextPower_correct:
  assumes "sz \<le> 2 ^ 31"
  shows "\<exists>k. 2 \<le> k \<and> k \<le> 31 \<and> dictNextPower sz = 2 ^ k \<and> sz \<le> 2 ^ k"
proof -
  define P where "P = (\<lambda>i::nat. \<exists>k. 2 \<le> k \<and> k \<le> 31 \<and> i = 2 ^ k)"
  have "P (while (\<lambda>i. \<not> i \<ge> sz) (\<lambda>i. i * 2) DICT_HT_INITIAL_SIZE) \<and>
      sz \<le> while (\<lambda>i. \<not> i \<ge> sz) (\<lambda>i. i * 2) DICT_HT_INITIAL_SIZE"
  proof (rule while_rule [where P = P and r = "measure (\<lambda>i. sz - i)"])
    show "P DICT_HT_INITIAL_SIZE"
      unfolding P_def DICT_HT_INITIAL_SIZE_def by (intro exI [of _ 2]) simp
  next
    fix i assume i: "P i" "\<not> i \<ge> sz"
    then obtain k where k: "2 \<le> k" "k \<le> 31" "i = 2 ^ k" by (auto simp: P_def)
    then have "k \<noteq> 31" using i assms by auto
    then show "P (i * 2)" using k unfolding P_def by (intro exI [of _ "Suc k"]) auto
    have "0 < i" using k by simp
    then show "(i * 2, i) \<in> measure (\<lambda>i. sz - i)" using i(2) unfolding in_measure by linarith
  qed auto
  then show ?thesis using assms by (auto simp: dictNextPower_def P_def range_simps)
qed

lemma live_fresh:
  assumes "k \<le> 31"
  shows "ht_live hash \<lparr>ht_table = replicate (2 ^ k) [], ht_size = 2 ^ k, ht_sizemask = 2 ^ k - 1, ht_used = 0\<rparr>"
  using assms by (auto simp: ht_live_def ht_entries_def)

lemma entries_fresh [simp]:
  "ht_entries \<lparr>ht_table = replicate n [], ht_size = a, ht_sizemask = b, ht_used = c\<rparr> = []"
  by (simp add: ht_entries_def)

lemma dictExpand_wf:
  assumes wf: "dict_wf hash d" and sz: "sz \<le> 2 ^ 31" and r: "dictExpand d sz = (d', st)"
  shows "dict_wf hash d' \<and> dict_same d d' \<and> (st = DICT_OK \<longrightarrow> ht_live hash (ht0 d'))
    \<and> (st = DICT_ERR \<longrightarrow> d' = d)"
proof -
  obtain k where k: "2 \<le> k" "k \<le> 31" "dictNextPower sz = 2 ^ k" using dictNextPower_correct [OF sz] by blast
  define n :: "('a, 'b) dictht" where
    "n = \<lparr>ht_table = replicate (2 ^ k) [], ht_size = 2 ^ k, ht_sizemask = 2 ^ k - 1, ht_used = 0\<rparr>"
  have n: "ht_live hash n" "ht_entries n = []" using live_fresh [OF k(2)] by (simp_all add: n_def)
  consider (err) "st = DICT_ERR" "d' = d"
    | (first) "\<not> dictIsRehashing d" "ht_table (ht0 d) = []" "d' = d\<lparr>ht0 := n\<rparr>" "st = DICT_OK"
    | (second) "\<not> dictIsRehashing d" "ht_table (ht0 d) \<noteq> []" "d' = d\<lparr>ht1 := n, rehashidx := 0\<rparr>" "st = DICT_OK"
  proof (cases "dictIsRehashing d \<or> ht_used (ht0 d) > sz \<or> dictNextPower sz = ht_size (ht0 d)")
    case True
    then have "dictExpand d sz = (d, DICT_ERR)" by (auto simp: dictExpand_def Let_def)
    then show ?thesis using r err by simp
  next
    case False
    then have "dictExpand d sz = (if ht_table (ht0 d) = [] then (d\<lparr>ht0 := n\<rparr>, DICT_OK)
        else (d\<lparr>ht1 := n, rehashidx := 0\<rparr>, DICT_OK))"
      using k(3) by (simp add: dictExpand_def Let_def n_def)
    then show ?thesis using r False first second by (cases "ht_table (ht0 d) = []") auto
  qed
  then show ?thesis
  proof cases
    case err
    then show ?thesis using wf by simp
  next
    case first
    then have "ht0 d = dictReset" using wf by (auto simp: dict_wf_def ht_live_def)
    then show ?thesis using first wf n
      by (simp add: dict_wf_def dictIsRehashing_def dict_same_def dict_entries_def)
  next
    case second
    then have "ht_live hash (ht0 d)" "ht1 d = dictReset" using wf by (auto simp: dict_wf_def)
    then show ?thesis using second wf n
      by (simp add: dict_wf_def dictIsRehashing_def dict_same_def dict_entries_def)
  qed
qed

text \<open>The table may still grow: the bound keeps bucket indices inside a C \<open>int\<close>.\<close>

definition dict_room :: "('k, 'v) dict \<Rightarrow> bool" where
  "dict_room d \<longleftrightarrow> dictSize d < 2 ^ 30"

lemma dictExpandIfNeeded_correct:
  assumes wf: "dict_wf hash d" and room: "ht_used (ht0 d) < 2 ^ 30"
  shows "\<exists>d'. dictExpandIfNeeded cr d = (d', DICT_OK) \<and> dict_wf hash d' \<and> dict_same d d' \<and> ht_live hash (ht0 d')"
proof -
  have grow: "snd (dictExpand d sz) = DICT_OK"
    if "\<not> dictIsRehashing d" "ht_used (ht0 d) \<le> sz" "ht_size (ht0 d) < sz" "sz \<le> 2 ^ 31" for sz
    using that dictNextPower_correct [OF that(4)] by (auto simp: dictExpand_def Let_def)
  have use: ?thesis if "dictExpandIfNeeded cr d = dictExpand d sz" "\<not> dictIsRehashing d"
      "ht_used (ht0 d) \<le> sz" "ht_size (ht0 d) < sz" "sz \<le> 2 ^ 31" for sz
    using that grow [of sz] dictExpand_wf [OF wf that(5), of "fst (dictExpand d sz)" DICT_OK]
    by (intro exI [of _ "fst (dictExpand d sz)"]) (metis prod.collapse)
  consider (re) "dictIsRehashing d" | (init) "\<not> dictIsRehashing d" "ht_size (ht0 d) = 0"
    | (grow) "\<not> dictIsRehashing d" "ht_size (ht0 d) \<noteq> 0" "ht_used (ht0 d) \<ge> ht_size (ht0 d) \<and>
              (cr \<or> ht_used (ht0 d) div ht_size (ht0 d) > dict_force_resize_ratio)"
    | (stay) "\<not> dictIsRehashing d" "ht_size (ht0 d) \<noteq> 0" "\<not> (ht_used (ht0 d) \<ge> ht_size (ht0 d) \<and>
              (cr \<or> ht_used (ht0 d) div ht_size (ht0 d) > dict_force_resize_ratio))" by blast
  then show ?thesis
  proof cases
    case re
    then show ?thesis using wf by (auto simp: dictExpandIfNeeded_def dict_wf_def)
  next
    case init
    have "ht_used (ht0 d) = 0" using wf init by (auto simp: dict_wf_def ht_live_def)
    then show ?thesis using init by (intro use [of 4]) (auto simp: dictExpandIfNeeded_def DICT_HT_INITIAL_SIZE_def)
  next
    case grow
    then have "dictExpandIfNeeded cr d = dictExpand d (ht_used (ht0 d) * 2)"
      by (simp add: dictExpandIfNeeded_def)
    then show ?thesis using room grow by (intro use [of "ht_used (ht0 d) * 2"]) auto
  next
    case stay
    then have "dictExpandIfNeeded cr d = (d, DICT_OK)" unfolding dictExpandIfNeeded_def by (simp only: if_False)
    moreover have "ht_live hash (ht0 d)" using wf stay by (auto simp: dict_wf_def)
    ultimately show ?thesis using wf by simp
  qed
qed

lemma dictSize_entries: "dict_wf hash d \<Longrightarrow> dictSize d = length (dict_entries d)"
  by (auto simp: dict_wf_def dictSize_def dict_entries_def ht_live_def split: if_splits)

lemma dict_same_size: "dict_same d d' \<Longrightarrow> dict_wf hash d \<Longrightarrow> dict_wf hash d' \<Longrightarrow> dictSize d' = dictSize d"
  using dictSize_entries by (metis dict_same_def size_mset)

lemma dictKeyIndex_correct:
  assumes wf: "dict_wf hash d" and room: "dict_room d"
  shows "\<exists>d' i. dictKeyIndex cr hash d k = Some (d', i) \<and> dict_wf hash d' \<and> dict_same d d' \<and> ht_live hash (ht0 d')
    \<and> (if dict_map d k = None
        then i = int (slot hash (if dictIsRehashing d' then ht1 d' else ht0 d') k) else i = -1)"
proof -
  have "ht_used (ht0 d) < 2 ^ 30" using room by (simp add: dict_room_def dictSize_def)
  then obtain d' where d': "dictExpandIfNeeded cr d = (d', DICT_OK)" "dict_wf hash d'" "dict_same d d'" "ht_live hash (ht0 d')"
    using dictExpandIfNeeded_correct [OF wf] by blast
  obtain r where r: "dict_search hash d' k = Some r" "map_option snd r = dict_map d k"
    using dict_search_correct [OF d'(2,4)] dict_same_map [OF d'(3) wf] by metis
  let ?t = "if dictIsRehashing d' then ht1 d' else ht0 d'"
  have live: "ht_live hash ?t" using d' dict_wf_rehash [OF d'(2)] by auto
  have idx: "to_signed 32 (int (slot hash ?t k)) = int (slot hash ?t k)"
    using slot_bound [OF live, of k] by (intro to_signed_id) auto
  show ?thesis
  proof (cases r)
    case None
    then have "dictKeyIndex cr hash d k = Some (d', int (slot hash ?t k))"
      using d'(1) r(1) idx by (simp add: dictKeyIndex_def)
    then show ?thesis using d' None r(2) by auto
  next
    case (Some x)
    then have "dictKeyIndex cr hash d k = Some (d', -1)" using d'(1) r(1) by (simp add: dictKeyIndex_def)
    then show ?thesis using d' Some r(2) [symmetric] by auto
  qed
qed

section \<open>The operations as map operations\<close>

lemma dict_map_None_iff: "dict_map d k = None \<longleftrightarrow> k \<notin> fst ` set (dict_entries d)"
  by (simp add: dict_map_def map_of_eq_None_iff)

lemma dict_add_entry:
  assumes wf: "dict_wf hash d" and live: "ht_live hash (ht0 d)" and new: "dict_map d k = None"
    and t: "t = (if dictIsRehashing d then ht1 d else ht0 d)"
    and t': "t' = t\<lparr>ht_table := (ht_table t)[slot hash t k := (k, v) # ht_table t ! slot hash t k], ht_used := ht_used t + 1\<rparr>"
    and d': "d' = (if dictIsRehashing d then d\<lparr>ht1 := t'\<rparr> else d\<lparr>ht0 := t'\<rparr>)"
  shows "dict_wf hash d' \<and> dict_map d' = (dict_map d)(k \<mapsto> v) \<and> dictSize d' = Suc (dictSize d)"
proof -
  have lt: "ht_live hash t" using t live wf by (auto simp: dict_wf_def)
  have lp: "ht_live hash t'" "mset (ht_entries t') = add_mset (k, v) (mset (ht_entries t))"
    using live_push [OF lt, of "(k, v)"] by (simp_all add: t')
  have m: "mset (dict_entries d') = mset ((k, v) # dict_entries d)"
    using lp(2) t by (auto simp: d' dict_entries_def)
  have "distinct (map fst ((k, v) # dict_entries d))"
    using wf new by (simp add: dict_wf_def dict_map_None_iff)
  then have dist: "distinct (map fst (dict_entries d'))" using distinct_fst_mset [OF m] by simp
  have re: "dictIsRehashing d' = dictIsRehashing d" by (simp add: d' dictIsRehashing_def)
  have "dict_wf hash d'"
    using wf dist lp(1) re by (simp add: dict_wf_def d' split: if_splits)
  moreover have "dict_map d' = (dict_map d)(k \<mapsto> v)"
    using map_of_mset [OF m dist] by (simp add: dict_map_def)
  moreover have "dictSize d' = Suc (dictSize d)"
    using t by (auto simp: d' t' dictSize_def)
  ultimately show ?thesis by blast
qed

lemma dictAddRaw_correct:
  assumes wf: "dict_wf hash d" and room: "dict_room d"
  shows "\<exists>d'. dictAddRaw cr hash d k v = Some (d', dict_map d k = None) \<and> dict_wf hash d'
    \<and> dict_map d' = (if dict_map d k = None then (dict_map d)(k \<mapsto> v) else dict_map d)
    \<and> dictSize d' = (if dict_map d k = None then Suc (dictSize d) else dictSize d)"
proof -
  obtain d1 where d1: "rehash_if hash d = Some d1" "dict_wf hash d1" "dict_same d d1"
    using rehash_if_correct [OF wf] by blast
  have same1: "dict_map d1 = dict_map d" "dictSize d1 = dictSize d"
    using dict_same_map [OF d1(3) wf] dict_same_size [OF d1(3) wf d1(2)] by auto
  obtain d2 i where d2: "dictKeyIndex cr hash d1 k = Some (d2, i)" "dict_wf hash d2" "dict_same d1 d2"
      "ht_live hash (ht0 d2)" "if dict_map d k = None
        then i = int (slot hash (if dictIsRehashing d2 then ht1 d2 else ht0 d2) k) else i = -1"
    using dictKeyIndex_correct [OF d1(2), of cr k] room same1 by (auto simp: dict_room_def)
  have same2: "dict_map d2 = dict_map d" "dictSize d2 = dictSize d"
    using dict_same_map [OF d2(3) d1(2)] dict_same_size [OF d2(3) d1(2) d2(2)] same1 by auto
  show ?thesis
  proof (cases "dict_map d k = None")
    case True
    let ?t = "if dictIsRehashing d2 then ht1 d2 else ht0 d2"
    let ?t' = "?t\<lparr>ht_table := (ht_table ?t)[slot hash ?t k := (k, v) # ht_table ?t ! slot hash ?t k], ht_used := ht_used ?t + 1\<rparr>"
    let ?d = "if dictIsRehashing d2 then d2\<lparr>ht1 := ?t'\<rparr> else d2\<lparr>ht0 := ?t'\<rparr>"
    have i: "i = int (slot hash ?t k)" using d2(5) True by simp
    have live: "ht_live hash ?t" using d2(2,4) by (auto simp: dict_wf_def)
    have "dictAddRaw cr hash d k v = Some (?d, True)"
      using d1(1) d2(1) i bucket_slot [OF live, of k]
      by (auto simp: dictAddRaw_def ht_push_def)
    then show ?thesis using dict_add_entry [OF d2(2,4) _ refl refl refl, of k v] True same2 by simp
  next
    case False
    then have "dictAddRaw cr hash d k v = Some (d2, False)"
      using d1(1) d2(1,5) by (simp add: dictAddRaw_def)
    then show ?thesis using False d2(2) same2 by auto
  qed
qed


lemma fst_set_chain [simp]: "map fst (set_chain k v c) = map fst c"
  by (simp add: set_chain_def)

lemma map_of_set_chain:
  "map_of (set_chain k v xs) = (if k \<in> fst ` set xs then (map_of xs)(k \<mapsto> v) else map_of xs)"
  by (induction xs) (auto simp: set_chain_def fun_eq_iff)

lemma entries_set_val: "dict_entries (dictSetVal d k v) = set_chain k v (dict_entries d)"
  by (simp add: dict_entries_def dictSetVal_def ht_entries_def set_chain_def map_concat comp_def)

lemma live_set_val:
  assumes "ht_live hash ht"
  shows "ht_live hash (ht\<lparr>ht_table := map (set_chain k v) (ht_table ht)\<rparr>)"
proof -
  have "slot hash ht (fst e) = i" if "i < length (ht_table ht)" "e \<in> set (set_chain k v (ht_table ht ! i))" for i e
  proof -
    have "fst e \<in> fst ` set (ht_table ht ! i)"
      using that(2) by (metis fst_set_chain image_eqI image_set)
    then obtain e' where e': "e' \<in> set (ht_table ht ! i)" "fst e = fst e'" by auto
    have "slot hash ht (fst e') = i" using assms that(1) e'(1) by (simp add: ht_live_def)
    then show ?thesis by (simp add: e'(2))
  qed
  moreover have "length (concat (map (set_chain k v) (ht_table ht))) = length (concat (ht_table ht))"
    by (simp add: length_concat comp_def set_chain_def)
  moreover have "slot hash (ht\<lparr>ht_table := map (set_chain k v) (ht_table ht)\<rparr>) = slot hash ht"
    by (simp add: slot_def fun_eq_iff)
  ultimately show ?thesis using assms by (simp add: ht_live_def ht_entries_def)
qed

lemma dictSetVal_correct:
  assumes wf: "dict_wf hash d"
  shows "dict_wf hash (dictSetVal d k v)
    \<and> dict_map (dictSetVal d k v) = (if dict_map d k = None then dict_map d else (dict_map d)(k \<mapsto> v))
    \<and> dictSize (dictSetVal d k v) = dictSize d"
proof -
  have dist: "distinct (map fst (dict_entries (dictSetVal d k v)))"
    using wf by (simp add: entries_set_val dict_wf_def)
  have re: "dictIsRehashing (dictSetVal d k v) = dictIsRehashing d" "rehashidx (dictSetVal d k v) = rehashidx d"
    by (simp_all add: dictSetVal_def dictIsRehashing_def)
  have bk: "bucket (ht0 (dictSetVal d k v)) i = Some []" if "bucket (ht0 d) i = Some []" for i
    using that by (auto simp: dictSetVal_def bucket_def set_chain_def split: if_splits)
  have reset: "(dictReset :: ('a, 'b) dictht)\<lparr>ht_table := map f (ht_table dictReset)\<rparr> = dictReset" for f
    by (simp add: dictReset_def)
  have "dict_wf hash (dictSetVal d k v)"
    using wf dist bk unfolding dict_wf_def re
    by (cases "dictIsRehashing d") (auto simp: dictSetVal_def live_set_val reset)
  moreover have "dict_map (dictSetVal d k v) = (if dict_map d k = None then dict_map d else (dict_map d)(k \<mapsto> v))"
    unfolding dict_map_def entries_set_val map_of_set_chain by (auto simp: map_of_eq_None_iff)
  moreover have "dictSize (dictSetVal d k v) = dictSize d" by (simp add: dictSize_def dictSetVal_def)
  ultimately show ?thesis by blast
qed

lemma dictAdd_correct:
  assumes "dict_wf hash d" and "dict_room d"
  shows "\<exists>d'. dictAdd cr hash v0 d k v = Some (d', if dict_map d k = None then DICT_OK else DICT_ERR)
    \<and> dict_wf hash d'
    \<and> dict_map d' = (if dict_map d k = None then (dict_map d)(k \<mapsto> v) else dict_map d)
    \<and> dictSize d' = (if dict_map d k = None then Suc (dictSize d) else dictSize d)"
proof -
  obtain d1 where d1: "dictAddRaw cr hash d k v0 = Some (d1, dict_map d k = None)" "dict_wf hash d1"
      "dict_map d1 = (if dict_map d k = None then (dict_map d)(k \<mapsto> v0) else dict_map d)"
      "dictSize d1 = (if dict_map d k = None then Suc (dictSize d) else dictSize d)"
    using dictAddRaw_correct [OF assms] by blast
  show ?thesis
  proof (cases "dict_map d k")
    case None
    then have "dictAdd cr hash v0 d k v = Some (dictSetVal d1 k v, DICT_OK)"
      using d1(1) by (simp add: dictAdd_def)
    then show ?thesis using dictSetVal_correct [OF d1(2), of k v] d1(3,4) None by simp
  next
    case (Some x)
    then have "dictAdd cr hash v0 d k v = Some (d1, DICT_ERR)" using d1(1) by (simp add: dictAdd_def)
    then show ?thesis using d1 Some by simp
  qed
qed

lemma dictFind_correct:
  assumes wf: "dict_wf hash d"
  shows "\<exists>d'. dictFind hash d k = Some (d', dict_map d k) \<and> dict_wf hash d' \<and> dict_same d d'"
proof (cases "dictSize d = 0")
  case True
  then have "dict_entries d = []" using dictSize_entries [OF wf] by simp
  then show ?thesis using True wf by (auto simp: dictFind_def dictSize_def dict_map_def)
next
  case False
  then have live: "ht_live hash (ht0 d)" using wf by (auto simp: dict_wf_def dictSize_def split: if_splits)
  obtain d1 where d1: "rehash_if hash d = Some d1" "dict_wf hash d1" "dict_same d d1" "ht_live hash (ht0 d1)"
    using rehash_if_correct [OF wf] live by blast
  obtain r where "dict_search hash d1 k = Some r" "map_option snd r = dict_map d k"
    using dict_search_correct [OF d1(2,4)] dict_same_map [OF d1(3) wf] by metis
  then show ?thesis using False d1 by (auto simp: dictFind_def dictSize_def)
qed

lemma dictReplace_correct:
  assumes wf: "dict_wf hash d" and room: "dict_room d"
  shows "\<exists>d'. dictReplace cr hash v0 d k v = Some (d', dict_map d k = None) \<and> dict_wf hash d'
    \<and> dict_map d' = (dict_map d)(k \<mapsto> v)
    \<and> dictSize d' = (if dict_map d k = None then Suc (dictSize d) else dictSize d)"
proof -
  obtain d1 where d1: "dictAdd cr hash v0 d k v = Some (d1, if dict_map d k = None then DICT_OK else DICT_ERR)"
      "dict_wf hash d1" "dict_map d1 = (if dict_map d k = None then (dict_map d)(k \<mapsto> v) else dict_map d)"
      "dictSize d1 = (if dict_map d k = None then Suc (dictSize d) else dictSize d)"
    using dictAdd_correct [OF assms] by blast
  show ?thesis
  proof (cases "dict_map d k")
    case None
    then show ?thesis using d1 by (simp add: dictReplace_def)
  next
    case (Some x)
    obtain d2 where d2: "dictFind hash d1 k = Some (d2, Some x)" "dict_wf hash d2" "dict_same d1 d2"
      using dictFind_correct [OF d1(2), of k] d1(3) Some by auto
    have "dict_map d2 = dict_map d" "dictSize d2 = dictSize d"
      using dict_same_map [OF d2(3) d1(2)] dict_same_size [OF d2(3) d1(2) d2(2)] d1 Some by auto
    then show ?thesis using dictSetVal_correct [OF d2(2), of k v] d1(1) d2(1) Some
      by (simp add: dictReplace_def)
  qed
qed

lemma del_chain_filter: "distinct (map fst c) \<Longrightarrow> del_chain k c = filter (\<lambda>e. fst e \<noteq> k) c"
proof (induction c)
  case (Cons e c)
  show ?case
  proof (cases "fst e = k")
    case True
    then have "filter (\<lambda>e. fst e \<noteq> k) c = c" using Cons.prems by (intro filter_True) (auto simp: image_iff)
    then show ?thesis using True by simp
  qed (use Cons in auto)
qed simp

lemma map_of_filter_neq: "map_of (filter (\<lambda>e. fst e \<noteq> k) xs) = (map_of xs)(k := None)"
  by (induction xs) (auto simp: fun_eq_iff)

lemma filter_concat_one:
  assumes "i < length xs" and "\<And>j. j < length xs \<Longrightarrow> j \<noteq> i \<Longrightarrow> k \<notin> fst ` set (xs ! j)"
  shows "filter (\<lambda>e. fst e \<noteq> k) (concat xs) = concat (xs[i := filter (\<lambda>e. fst e \<noteq> k) (xs ! i)])"
proof -
  have "map (filter (\<lambda>e. fst e \<noteq> k)) xs = xs[i := filter (\<lambda>e. fst e \<noteq> k) (xs ! i)]"
  proof (rule nth_equalityI)
    fix j assume j: "j < length (map (filter (\<lambda>e. fst e \<noteq> k)) xs)"
    show "map (filter (\<lambda>e. fst e \<noteq> k)) xs ! j = xs[i := filter (\<lambda>e. fst e \<noteq> k) (xs ! i)] ! j"
    proof (cases "j = i")
      case False
      then have "filter (\<lambda>e. fst e \<noteq> k) (xs ! j) = xs ! j"
        using assms(2) [of j] j by (intro filter_True) (auto simp: image_iff)
      then show ?thesis using False j by simp
    qed (use assms(1) in simp)
  qed simp
  then show ?thesis by (metis filter_concat)
qed

lemma length_del_chain: "k \<in> fst ` set c \<Longrightarrow> Suc (length (del_chain k c)) = length c"
  by (induction c) auto

text \<open>Deleting from the table that holds the key.\<close>

lemma live_delete:
  assumes live: "ht_live hash ht" and dist: "distinct (map fst (ht_entries ht))"
    and t': "t' = ht\<lparr>ht_table := (ht_table ht)[slot hash ht k := del_chain k (ht_table ht ! slot hash ht k)],
      ht_used := ht_used ht - 1\<rparr>" and "map_of (ht_table ht ! slot hash ht k) k \<noteq> None"
  shows "ht_live hash t' \<and> ht_entries t' = filter (\<lambda>e. fst e \<noteq> k) (ht_entries ht)"
proof -
  let ?i = "slot hash ht k" and ?c = "ht_table ht ! slot hash ht k"
  have i: "?i < length (ht_table ht)" by (rule slot_less [OF live])
  have "distinct (map fst ?c)"
  proof -
    have "map fst (concat (ht_table ht)) = concat (map (map fst) (ht_table ht))" by (simp add: map_concat)
    then have "distinct (concat (map (map fst) (ht_table ht)))" using dist by (simp add: ht_entries_def)
    then show ?thesis using i by (auto simp: distinct_concat_iff)
  qed
  then have c: "del_chain k ?c = filter (\<lambda>e. fst e \<noteq> k) ?c" by (rule del_chain_filter)
  have len: "Suc (length (del_chain k ?c)) = length ?c"
    using assms(4) by (intro length_del_chain) (simp add: map_of_eq_None_iff)
  have "ht_used ht = length (concat (ht_table ht))" using live by (simp add: ht_live_def ht_entries_def)
  moreover have "length ?c \<le> length (concat (ht_table ht))"
    using length_concat_update [OF i, of "[]"] by simp
  ultimately have "ht_used ht - 1 + length ?c = ht_used ht + length (del_chain k ?c)" using len by simp
  then have "ht_live hash t'" unfolding t' by (intro live_shrink [OF live i]) (auto simp: c)
  moreover have "ht_entries t' = filter (\<lambda>e. fst e \<noteq> k) (ht_entries ht)"
    unfolding t' ht_entries_def using live i
    by (simp add: c) (rule filter_concat_one [symmetric], auto simp: ht_live_def)
  ultimately show ?thesis by blast
qed

lemma filter_absent: "k \<notin> fst ` set xs \<Longrightarrow> filter (\<lambda>e. fst e \<noteq> k) xs = xs"
  by (intro filter_True) (auto simp: image_iff)

lemma dict_map_filter:
  "dict_entries d' = filter (\<lambda>e. fst e \<noteq> k) (dict_entries d) \<Longrightarrow> dict_map d' = (dict_map d)(k := None)"
  by (simp add: dict_map_def map_of_filter_neq)

lemma wf_delete0:
  assumes wf: "dict_wf hash d" and live: "ht_live hash (ht0 d)" and c: "map_of (ht_table (ht0 d) ! slot hash (ht0 d) k) k \<noteq> None"
    and t: "t = (ht0 d)\<lparr>ht_table := (ht_table (ht0 d))[slot hash (ht0 d) k := del_chain k (ht_table (ht0 d) ! slot hash (ht0 d) k)],
      ht_used := ht_used (ht0 d) - 1\<rparr>"
  shows "dict_wf hash (d\<lparr>ht0 := t\<rparr>) \<and> dict_entries (d\<lparr>ht0 := t\<rparr>) = filter (\<lambda>e. fst e \<noteq> k) (dict_entries d)"
proof -
  have dist: "distinct (map fst (dict_entries d))" using wf by (simp add: dict_wf_def)
  then have "distinct (map fst (ht_entries (ht0 d)))" by (simp add: dict_entries_def)
  then have t': "ht_live hash t" "ht_entries t = filter (\<lambda>e. fst e \<noteq> k) (ht_entries (ht0 d))"
    using live_delete [OF live _ t c] by auto
  have "k \<in> fst ` set (ht_entries (ht0 d))" using c live_lookup [OF live, of k] by (auto simp: map_of_eq_None_iff)
  then have "k \<notin> fst ` set (ht_entries (ht1 d))" using dist by (auto simp: dict_entries_def)
  then have ent: "dict_entries (d\<lparr>ht0 := t\<rparr>) = filter (\<lambda>e. fst e \<noteq> k) (dict_entries d)"
    using t'(2) by (simp add: dict_entries_def filter_absent)
  have bk: "bucket t i = Some []" if "bucket (ht0 d) i = Some []" for i
    using that slot_less [OF live, of k]
    by (cases "i = slot hash (ht0 d) k") (auto simp: t bucket_def split: if_splits)
  have "distinct (map fst (dict_entries (d\<lparr>ht0 := t\<rparr>)))"
    unfolding ent by (rule distinct_map_filter [OF dist])
  then have "dict_wf hash (d\<lparr>ht0 := t\<rparr>)"
    using wf t'(1) bk by (auto simp: dict_wf_def dictIsRehashing_def)
  then show ?thesis using ent by blast
qed

lemma wf_delete1:
  assumes wf: "dict_wf hash d" and re: "dictIsRehashing d"
    and c0: "map_of (ht_table (ht0 d) ! slot hash (ht0 d) k) k = None"
    and c: "map_of (ht_table (ht1 d) ! slot hash (ht1 d) k) k \<noteq> None"
    and t: "t = (ht1 d)\<lparr>ht_table := (ht_table (ht1 d))[slot hash (ht1 d) k := del_chain k (ht_table (ht1 d) ! slot hash (ht1 d) k)],
      ht_used := ht_used (ht1 d) - 1\<rparr>"
  shows "dict_wf hash (d\<lparr>ht1 := t\<rparr>) \<and> dict_entries (d\<lparr>ht1 := t\<rparr>) = filter (\<lambda>e. fst e \<noteq> k) (dict_entries d)"
proof -
  have live: "ht_live hash (ht0 d)" "ht_live hash (ht1 d)" using wf re by (auto simp: dict_wf_def)
  have dist: "distinct (map fst (dict_entries d))" using wf by (simp add: dict_wf_def)
  then have "distinct (map fst (ht_entries (ht1 d)))" by (simp add: dict_entries_def)
  then have t': "ht_live hash t" "ht_entries t = filter (\<lambda>e. fst e \<noteq> k) (ht_entries (ht1 d))"
    using live_delete [OF live(2) _ t c] by auto
  have "k \<notin> fst ` set (ht_entries (ht0 d))" using c0 live_lookup [OF live(1), of k] by (simp add: map_of_eq_None_iff)
  then have ent: "dict_entries (d\<lparr>ht1 := t\<rparr>) = filter (\<lambda>e. fst e \<noteq> k) (dict_entries d)"
    using t'(2) by (simp add: dict_entries_def filter_absent)
  have "distinct (map fst (dict_entries (d\<lparr>ht1 := t\<rparr>)))"
    unfolding ent by (rule distinct_map_filter [OF dist])
  then have "dict_wf hash (d\<lparr>ht1 := t\<rparr>)"
    using wf re t'(1) by (auto simp: dict_wf_def dictIsRehashing_def)
  then show ?thesis using ent by blast
qed

lemma dict_wf_distinct: "dict_wf hash d \<Longrightarrow> distinct (map fst (dict_entries d))"
  by (simp add: dict_wf_def)

lemma delete_summary:
  assumes "dict_wf hash d" and "dict_wf hash d' \<and> dict_entries d' = filter (\<lambda>e. fst e \<noteq> k) (dict_entries d)"
    and "dict_map d k \<noteq> None"
  shows "dict_wf hash d' \<and> dict_map d' = (dict_map d)(k := None) \<and> dictSize d' = dictSize d - 1"
proof -
  have "k \<in> fst ` set (dict_entries d)" using assms(3) by (auto simp: dict_map_def map_of_eq_None_iff)
  then have "Suc (length (del_chain k (dict_entries d))) = length (dict_entries d)" by (rule length_del_chain)
  then have "Suc (dictSize d') = dictSize d"
    using assms(2) dictSize_entries [OF assms(1)] dictSize_entries [of hash d']
      del_chain_filter [OF dict_wf_distinct [OF assms(1)], of k] by simp
  then show ?thesis using assms(2) dict_map_filter by auto
qed

lemma dictGenericDelete_correct:
  assumes wf: "dict_wf hash d"
  shows "\<exists>d'. dictGenericDelete hash d k = Some (d', if dict_map d k = None then DICT_ERR else DICT_OK)
    \<and> dict_wf hash d' \<and> dict_map d' = (dict_map d)(k := None)
    \<and> dictSize d' = (if dict_map d k = None then dictSize d else dictSize d - 1)"
proof (cases "ht_size (ht0 d) = 0")
  case True
  then have "ht0 d = dictReset" "ht1 d = dictReset" using wf by (auto simp: dict_wf_def ht_live_def split: if_splits)
  then have "dict_map d = Map.empty" by (simp add: dict_map_def dict_entries_def)
  then show ?thesis using True wf by (simp add: dictGenericDelete_def fun_eq_iff)
next
  case False
  then have live: "ht_live hash (ht0 d)" using wf by (auto simp: dict_wf_def split: if_splits)
  obtain d1 where d1: "rehash_if hash d = Some d1" "dict_wf hash d1" "dict_same d d1" "ht_live hash (ht0 d1)"
    using rehash_if_correct [OF wf] live by blast
  have m: "dict_map d = dict_map d1" "dictSize d = dictSize d1"
    using dict_same_map [OF d1(3) wf] dict_same_size [OF d1(3) wf d1(2)] by auto
  let ?i0 = "slot hash (ht0 d1) k" and ?i1 = "slot hash (ht1 d1) k"
  let ?c0 = "ht_table (ht0 d1) ! ?i0" and ?c1 = "ht_table (ht1 d1) ! ?i1"
  let ?t0 = "(ht0 d1)\<lparr>ht_table := (ht_table (ht0 d1))[?i0 := del_chain k ?c0], ht_used := ht_used (ht0 d1) - 1\<rparr>"
  let ?t1 = "(ht1 d1)\<lparr>ht_table := (ht_table (ht1 d1))[?i1 := del_chain k ?c1], ht_used := ht_used (ht1 d1) - 1\<rparr>"
  note b0 = bucket_slot [OF d1(4), of k] and l0 = live_lookup [OF d1(4), of k]
  have ent1: "k \<notin> fst ` set (dict_entries d1)" if "dict_map d1 k = None"
    using that by (simp add: dict_map_def map_of_eq_None_iff)
  obtain r where r: "dict_search hash d1 k = Some r" "map_option snd r = dict_map d1 k"
    using dict_search_correct [OF d1(2,4)] by blast
  consider (zero) "map_of ?c0 k \<noteq> None"
    | (one) "map_of ?c0 k = None" "dictIsRehashing d1" "map_of ?c1 k \<noteq> None"
    | (none) "map_of ?c0 k = None" "dictIsRehashing d1 \<longrightarrow> map_of ?c1 k = None"
    by metis
  then show ?thesis
  proof cases
    case zero
    then have "dictGenericDelete hash d k = Some (d1\<lparr>ht0 := ?t0\<rparr>, DICT_OK)"
      using False d1(1) b0 by (simp add: dictGenericDelete_def Let_def)
    moreover have "dict_map d1 k \<noteq> None" using r(1) b0 zero unfolding r(2) [symmetric] by (auto simp: dict_search_def)
    ultimately show ?thesis
      using delete_summary [OF d1(2)] wf_delete0 [OF d1(2,4) zero refl] m by simp
  next
    case one
    then have b1: "bucket (ht1 d1) ?i1 = Some ?c1" using d1(2) by (intro bucket_slot) (simp add: dict_wf_def)
    then have "dictGenericDelete hash d k = Some (d1\<lparr>ht1 := ?t1\<rparr>, DICT_OK)"
      using False d1(1) b0 one by (simp add: dictGenericDelete_def Let_def)
    moreover have "dict_map d1 k \<noteq> None" using r(1) b0 b1 one unfolding r(2) [symmetric] by (auto simp: dict_search_def)
    ultimately show ?thesis
      using delete_summary [OF d1(2)] wf_delete1 [OF d1(2) one(2,1,3) refl] m by simp
  next
    case none
    have b1: "bucket (ht1 d1) ?i1 = Some ?c1" if "dictIsRehashing d1"
      using d1(2) that by (intro bucket_slot) (simp add: dict_wf_def)
    have "dictGenericDelete hash d k = Some (d1, DICT_ERR)"
      using False d1(1) b0 b1 none by (cases "dictIsRehashing d1") (simp_all add: dictGenericDelete_def Let_def)
    moreover have "dict_map d1 k = None"
      using r(1) b0 b1 none unfolding r(2) [symmetric]
      by (cases "dictIsRehashing d1") (auto simp: dict_search_def)
    ultimately show ?thesis using d1(2) m by (auto simp: fun_eq_iff)
  qed
qed

lemma dictReplaceRaw_correct:
  assumes wf: "dict_wf hash d" and room: "dict_room d"
  shows "\<exists>d'. dictReplaceRaw cr hash d k v0 = Some (d', True) \<and> dict_wf hash d'
    \<and> dict_map d' = (if dict_map d k = None then (dict_map d)(k \<mapsto> v0) else dict_map d)"
proof -
  obtain d1 where d1: "dictFind hash d k = Some (d1, dict_map d k)" "dict_wf hash d1" "dict_same d d1"
    using dictFind_correct [OF wf] by blast
  have m: "dict_map d1 = dict_map d" "dictSize d1 = dictSize d"
    using dict_same_map [OF d1(3) wf] dict_same_size [OF d1(3) wf d1(2)] by auto
  show ?thesis
  proof (cases "dict_map d k")
    case None
    then show ?thesis using dictAddRaw_correct [OF d1(2), of cr k v0] d1(1) m room
      by (auto simp: dictReplaceRaw_def dict_room_def)
  qed (use d1 m in \<open>auto simp: dictReplaceRaw_def\<close>)
qed

lemma free_buckets_all: "used \<ge> length (concat t) \<Longrightarrow> free_buckets t used = concat t"
proof (induction t arbitrary: used)
  case (Cons he t)
  show ?case
  proof (cases "used > 0")
    case True
    then show ?thesis using Cons.IH [of "used - length he"] Cons.prems by simp
  qed (use Cons.prems in auto)
qed simp

lemma dictEmpty_correct:
  assumes "dict_wf hash d"
  shows "\<exists>d'. dictEmpty d = (d', dict_entries d) \<and> dict_wf hash' d' \<and> dict_map d' = Map.empty
    \<and> dictSize d' = 0"
proof -
  have "ht_used t = length (ht_entries t)" if "t = ht0 d \<or> t = ht1 d" for t
    using assms that by (auto simp: dict_wf_def ht_live_def split: if_splits)
  then have "free_buckets (ht_table t) (ht_used t) = ht_entries t" if "t = ht0 d \<or> t = ht1 d" for t
    using that by (simp add: free_buckets_all ht_entries_def)
  then show ?thesis
    by (auto simp: dictEmpty_def dictClear_def dict_entries_def dict_wf_def dict_map_def dictSize_def dictIsRehashing_def)
qed

lemma dictCreate_correct: "dict_wf hash dictCreate" "dict_map dictCreate = Map.empty" "dictSize dictCreate = 0"
  by (auto simp: dictCreate_def dictInit_def dict_wf_def dict_map_def dict_entries_def dictSize_def dictIsRehashing_def)


section \<open>The dictionary as a map\<close>

datatype ('k, 'v) dict_op = Find 'k | Add 'k 'v | Replace 'k 'v | Delete 'k | RehashSteps nat

datatype 'v dict_result = Found "'v option" | Status dict_status | Added bool | Rehashed

definition dict_step :: "bool \<Rightarrow> ('k \<Rightarrow> u32) \<Rightarrow> 'v \<Rightarrow> ('k, 'v) dict_op \<Rightarrow> ('k, 'v) dict
    \<Rightarrow> (('k, 'v) dict \<times> 'v dict_result) option" where
  "dict_step cr hash v0 x d =
     (case x of Find k \<Rightarrow> map_option (map_prod id Found) (dictFind hash d k)
      | Add k v \<Rightarrow> map_option (map_prod id Status) (dictAdd cr hash v0 d k v)
      | Replace k v \<Rightarrow> map_option (map_prod id Added) (dictReplace cr hash v0 d k v)
      | Delete k \<Rightarrow> map_option (map_prod id Status) (dictDelete hash d k)
      | RehashSteps n \<Rightarrow> map_option (map_prod id (\<lambda>_. Rehashed)) (dictRehash hash d n))"

definition map_step :: "('k, 'v) dict_op \<Rightarrow> ('k \<rightharpoonup> 'v) \<Rightarrow> ('k \<rightharpoonup> 'v) \<times> 'v dict_result" where
  "map_step x m =
     (case x of Find k \<Rightarrow> (m, Found (m k))
      | Add k v \<Rightarrow> if m k = None then (m(k \<mapsto> v), Status DICT_OK) else (m, Status DICT_ERR)
      | Replace k v \<Rightarrow> (m(k \<mapsto> v), Added (m k = None))
      | Delete k \<Rightarrow> (m(k := None), Status (if m k = None then DICT_ERR else DICT_OK))
      | RehashSteps n \<Rightarrow> (m, Rehashed))"

definition dict_inv :: "('k \<Rightarrow> u32) \<Rightarrow> nat \<Rightarrow> ('k, 'v) dict \<Rightarrow> bool" where
  "dict_inv hash n d \<longleftrightarrow> dict_wf hash d \<and> dictSize d + n \<le> 2 ^ 30"

interpretation dict_ops: budget_simulation "dict_step cr hash v0" map_step dict_map "dict_inv hash" "\<lambda>_. True"
  for cr :: bool and hash :: "'k \<Rightarrow> u32" and v0 :: 'v
proof unfold_locales
  fix n and d :: "('k, 'v) dict" and x :: "('k, 'v) dict_op"
  assume inv: "dict_inv hash (Suc n) d"
  then have wf: "dict_wf hash d" and room: "dict_room d" and sz: "dictSize d + Suc n \<le> 2 ^ 30"
    by (auto simp: dict_inv_def dict_room_def)
  show "\<exists>d' r. dict_step cr hash v0 x d = Some (d', r) \<and> dict_inv hash n d' \<and> map_step x (dict_map d) = (dict_map d', r)"
  proof (cases x)
    case (Find k)
    obtain d1 where d1: "dictFind hash d k = Some (d1, dict_map d k)" "dict_wf hash d1" "dict_same d d1"
      using dictFind_correct [OF wf] by blast
    then show ?thesis
      using Find dict_same_map [OF d1(3) wf] dict_same_size [OF d1(3) wf d1(2)] sz
      by (auto simp: dict_step_def map_step_def dict_inv_def)
  next
    case (Add k v)
    then show ?thesis using dictAdd_correct [OF wf room, of cr v0 k v] sz
      by (auto simp: dict_step_def map_step_def dict_inv_def split: if_splits)
  next
    case (Replace k v)
    then show ?thesis using dictReplace_correct [OF wf room, of cr v0 k v] sz
      by (auto simp: dict_step_def map_step_def dict_inv_def split: if_splits)
  next
    case (Delete k)
    then show ?thesis using dictGenericDelete_correct [OF wf, of k] sz
      by (auto simp: dict_step_def map_step_def dict_inv_def dictDelete_def split: if_splits)
  next
    case (RehashSteps m)
    obtain d1 more where d1: "dictRehash hash d m = Some (d1, more)" "dict_wf hash d1" "dict_same d d1"
      using dictRehash_correct [OF wf] by blast
    then show ?thesis
      using RehashSteps dict_same_map [OF d1(3) wf] dict_same_size [OF d1(3) wf d1(2)] sz
      by (auto simp: dict_step_def map_step_def dict_inv_def)
  qed
qed


section \<open>Properties\<close>

text \<open>
  C1.  Any sequence of lookups, insertions, replacements, deletions and rehashing steps on a new
  dictionary, at most \<open>2 ^ 30\<close> of them, runs without a failed assertion or an access outside a table,
  whatever the hash function and the resize policy; it returns what the same operations on a map
  return, and the dictionary ends up well formed, with the entries of that map.
\<close>

theorem dict_refines_map:
  assumes "length xs \<le> 2 ^ 30"
  shows "\<exists>d rs. run_ops (dict_step cr hash v0) xs dictCreate = Some (d, rs) \<and> dict_wf hash d
    \<and> run_spec map_step xs Map.empty = (dict_map d, rs)"
proof -
  have "dict_inv hash (length xs + 0) (dictCreate :: ('a, 'b) dict)"
    using assms by (simp add: dict_inv_def dictCreate_correct)
  moreover have "list_all (\<lambda>_. True) xs" by (simp add: list_all_iff)
  ultimately show ?thesis using dict_ops.run_sim [of hash xs 0 dictCreate cr v0]
    by (auto simp: dictCreate_correct dict_inv_def)
qed

text \<open>The hypothesis at an input where a table grows and is rehashed.\<close>

theorem dict_refines_map_witness:
  "\<exists>d rs. run_ops (dict_step True id 0) [Add 1 10, Add 5 50, Add 2 20, Add 3 30, Add 9 90, Find 5, Delete (1::u32), Find 1]
      dictCreate = Some (d, rs)
    \<and> rs = [Status DICT_OK, Status DICT_OK, Status DICT_OK, Status DICT_OK, Status DICT_OK, Found (Some (50::int)),
        Status DICT_OK, Found None]"
proof -
  let ?xs = "[Add 1 10, Add 5 50, Add 2 20, Add 3 30, Add 9 90, Find 5, Delete (1::u32), Find 1]"
  have "snd (run_spec map_step ?xs Map.empty) = [Status DICT_OK, Status DICT_OK, Status DICT_OK, Status DICT_OK,
      Status DICT_OK, Found (Some (50::int)), Status DICT_OK, Found None]"
    by (simp add: map_step_def)
  then show ?thesis using dict_refines_map [of ?xs True id "0::int"]
    by (auto simp del: run_ops.simps run_spec.simps)
qed

text \<open>
  C26.  Incremental rehashing ends and loses nothing: on a well-formed dictionary that is being
  rehashed, one call of \<open>dictRehash\<close> per bucket of the old table, plus one, each with at least one step
  allowed, leaves a well-formed dictionary that is not rehashing and has the same entries.
\<close>

theorem rehashing_ends:
  assumes "dict_wf hash d" and "n \<noteq> 0"
  shows "\<exists>d'. rehash_calls hash n (Suc (ht_size (ht0 d))) d = Some d' \<and> dict_wf hash d'
    \<and> mset (dict_entries d') = mset (dict_entries d) \<and> \<not> dictIsRehashing d'"
proof -
  have "ht_size (ht0 d) - nat (rehashidx d) < Suc (ht_size (ht0 d))" by simp
  from rehash_calls_correct [OF assms this] show ?thesis unfolding dict_same_def by blast
qed

definition example_hash :: "nat \<Rightarrow> u32" where
  "example_hash k = (if k = 6 then 2 else 0)"

definition rehashing_example :: "(nat, int) dict" where
  "rehashing_example =
     \<lparr>ht0 = \<lparr>ht_table = [[(4, 1), (8, 2)], [], [(6, 3)], []], ht_size = 4, ht_sizemask = 3, ht_used = 3\<rparr>,
      ht1 = \<lparr>ht_table = [[], [], [], [], [], [], [], []], ht_size = 8, ht_sizemask = 7, ht_used = 0\<rparr>,
      rehashidx = 0, iterators = 0\<rparr>"

lemma rehashing_example_wf: "dict_wf example_hash rehashing_example"
proof -
  have "\<exists>k \<le> 31. (4::nat) = 2 ^ k \<and> (3::nat) = 2 ^ k - 1" by (rule exI [of _ 2]) simp
  moreover have "\<exists>k \<le> 31. (8::nat) = 2 ^ k \<and> (7::nat) = 2 ^ k - 1" by (rule exI [of _ 3]) simp
  ultimately show ?thesis
    by (simp add: dict_wf_def rehashing_example_def dictIsRehashing_def ht_live_def ht_entries_def dict_entries_def
        slot_def example_hash_def All_less_Suc)
qed

theorem rehashing_ends_witness:
  "dict_wf example_hash rehashing_example \<and> dictIsRehashing rehashing_example
   \<and> (\<exists>d'. rehash_calls example_hash 1 5 rehashing_example = Some d' \<and> \<not> dictIsRehashing d')"
proof -
  have "Suc (ht_size (ht0 rehashing_example)) = 5" "dictIsRehashing rehashing_example"
    by (simp_all add: rehashing_example_def dictIsRehashing_def)
  then show ?thesis using rehashing_ends [OF rehashing_example_wf, of 1] rehashing_example_wf by auto
qed

text \<open>
  Emptying a dictionary frees each of its entries exactly once and leaves the empty, well-formed
  dictionary, also when it is being rehashed.
\<close>

theorem dictEmpty_frees_all:
  assumes "dict_wf hash d"
  shows "dictEmpty d = (dictCreate, dict_entries d)"
  using dictEmpty_correct [OF assms] by (auto simp: dictEmpty_def dictClear_def dictCreate_def dictInit_def)

theorem dictEmpty_frees_all_witness:
  "dict_wf example_hash rehashing_example
   \<and> dictEmpty rehashing_example = (dictCreate, [(4, 1), (8, 2), (6, 3)])"
  using dictEmpty_frees_all [OF rehashing_example_wf] rehashing_example_wf
  by (simp add: dict_entries_def ht_entries_def rehashing_example_def)

end
