(* ===== verification/DictScan.thy ===== *)
theory DictScan
  imports Dict
begin

unbundle bit_operations_syntax

text \<open>
  \<^verbatim>\<open>dict.c\<close>: \<open>dictScan\<close>, the stateless iteration over a dictionary that may be resized between the calls.
  The cursor is an \<open>unsigned long\<close>; the calls of the callback \<open>fn\<close> are the list of the entries it is called
  with, in order.  A cursor counts in reverse: seen with its bits reversed it only moves forward, and an
  element of the dictionary has a fixed place on that line, the reversal of its hash, which no resize
  changes.  A call with a table of \<open>2\<^sup>k\<close> buckets emits the elements of one interval of that line.
\<close>

section \<open>The model\<close>

function rev_loop :: "nat \<Rightarrow> u64 \<Rightarrow> u64 \<Rightarrow> u64" where
  "rev_loop s msk v =
     (let s' = drop_bit 1 s
      in if s' > 0 then
           let msk' = msk XOR push_bit s' msk
           in rev_loop s' msk' ((drop_bit s' v AND msk') OR (push_bit s' v AND NOT msk'))
         else v)"
  by pat_completeness auto
termination
  by (relation "measure fst") (auto simp: drop_bit_eq_div)

declare rev_loop.simps [simp del]

definition rev_bits :: "u64 \<Rightarrow> u64" where
  "rev_bits v = rev_loop (8 * 8) (NOT 0) v"

definition smaller_ht :: "('k, 'v) dict \<Rightarrow> ('k, 'v) dictht" where
  "smaller_ht d = (if ht_size (ht0 d) > ht_size (ht1 d) then ht1 d else ht0 d)"

definition larger_ht :: "('k, 'v) dict \<Rightarrow> ('k, 'v) dictht" where
  "larger_ht d = (if ht_size (ht0 d) > ht_size (ht1 d) then ht0 d else ht1 d)"

text \<open>The \<open>do ... while\<close> loop over the expansions of the cursor into the larger table.\<close>

partial_function (option) scan_expansions ::
    "('k, 'v) dictht \<Rightarrow> u64 \<Rightarrow> u64 \<Rightarrow> u64 \<Rightarrow> (u64 \<times> ('k \<times> 'v) list) option" where
  "scan_expansions t1 m0 m1 v = do {
     de \<leftarrow> bucket t1 (unat (v AND m1));
     let v' = (((v OR m0) + 1) AND NOT m0) OR (v AND m0);
     (if v' AND (m0 XOR m1) \<noteq> 0 then do {
        (w, es) \<leftarrow> scan_expansions t1 m0 m1 v';
        Some (w, de @ es)}
      else Some (v', de))}"

definition next_cursor :: "u64 \<Rightarrow> u64 \<Rightarrow> u64" where
  "next_cursor m0 v = rev_bits (rev_bits (v OR NOT m0) + 1)"

definition dictScan :: "('k, 'v) dict \<Rightarrow> u64 \<Rightarrow> (u64 \<times> ('k \<times> 'v) list) option" where
  "dictScan d v =
     (if dictSize d = 0 then Some (0, [])
      else if \<not> dictIsRehashing d then do {
        let m0 = of_nat (ht_sizemask (ht0 d));
        de \<leftarrow> bucket (ht0 d) (unat (v AND m0));
        Some (next_cursor m0 v, de)}
      else do {
        let t0 = smaller_ht d;
        let t1 = larger_ht d;
        let m0 = of_nat (ht_sizemask t0);
        let m1 = of_nat (ht_sizemask t1);
        de \<leftarrow> bucket t0 (unat (v AND m0));
        (v', es) \<leftarrow> scan_expansions t1 m0 m1 v;
        Some (next_cursor m0 v', de @ es)})"

declare scan_expansions.simps [code]

text \<open>
  An iteration: the caller passes the cursor it was given to the next call until it is given zero; the
  list holds the dictionary as each call finds it.
\<close>

fun scans :: "('k, 'v) dict list \<Rightarrow> u64 \<Rightarrow> (u64 \<times> ('k \<times> 'v) list) option" where
  "scans [] v = Some (v, [])"
| "scans (d # ds) v = do {
     (v', es) \<leftarrow> dictScan d v;
     (if v' = 0 then Some (0, es)
      else do { (w, fs) \<leftarrow> scans ds v'; Some (w, es @ fs) })}"


section \<open>Reversing the bits of a cursor\<close>

lemma rev_masks:
  "list_all (\<lambda>i. (bit (0x00000000FFFFFFFF :: u64) i \<longleftrightarrow> \<not> bit i 5) \<and>
     (bit (0x0000FFFF0000FFFF :: u64) i \<longleftrightarrow> \<not> bit i 4) \<and>
     (bit (0x00FF00FF00FF00FF :: u64) i \<longleftrightarrow> \<not> bit i 3) \<and>
     (bit (0x0F0F0F0F0F0F0F0F :: u64) i \<longleftrightarrow> \<not> bit i 2) \<and>
     (bit (0x3333333333333333 :: u64) i \<longleftrightarrow> \<not> bit i 1) \<and>
     (bit (0x5555555555555555 :: u64) i \<longleftrightarrow> \<not> bit i 0)) [0..<64]"
  by code_simp

definition rev_step :: "nat \<Rightarrow> u64 \<Rightarrow> u64 \<Rightarrow> u64" where
  "rev_step s m v = (drop_bit s v AND m) OR (push_bit s v AND NOT m)"

lemma rev_loop_step:
  assumes "drop_bit 1 s = s'" and "0 < s'" and "msk XOR push_bit s' msk = msk'"
  shows "rev_loop s msk v = rev_loop s' msk' (rev_step s' msk' v)"
  by (simp only: rev_loop.simps [of s msk v] Let_def assms rev_step_def if_True)

lemma rev_bits_steps:
  "rev_bits v = rev_step 1 0x5555555555555555 (rev_step 2 0x3333333333333333 (rev_step 4 0x0F0F0F0F0F0F0F0F
     (rev_step 8 0x00FF00FF00FF00FF (rev_step 16 0x0000FFFF0000FFFF (rev_step 32 0x00000000FFFFFFFF v)))))"
proof -
  have "rev_loop 64 (NOT 0) w = rev_loop 32 0x00000000FFFFFFFF (rev_step 32 0x00000000FFFFFFFF w)"
    "rev_loop 32 0x00000000FFFFFFFF w = rev_loop 16 0x0000FFFF0000FFFF (rev_step 16 0x0000FFFF0000FFFF w)"
    "rev_loop 16 0x0000FFFF0000FFFF w = rev_loop 8 0x00FF00FF00FF00FF (rev_step 8 0x00FF00FF00FF00FF w)"
    "rev_loop 8 0x00FF00FF00FF00FF w = rev_loop 4 0x0F0F0F0F0F0F0F0F (rev_step 4 0x0F0F0F0F0F0F0F0F w)"
    "rev_loop 4 0x0F0F0F0F0F0F0F0F w = rev_loop 2 0x3333333333333333 (rev_step 2 0x3333333333333333 w)"
    "rev_loop 2 0x3333333333333333 w = rev_loop 1 0x5555555555555555 (rev_step 1 0x5555555555555555 w)" for w
    by (rule rev_loop_step; simp add: mask_eq_exp_minus_1)+
  moreover have "rev_loop 1 m w = w" for m w by (subst rev_loop.simps) simp
  moreover have "(8 * 8 :: nat) = 64" by simp
  ultimately show ?thesis by (simp only: rev_bits_def)
qed

text \<open>A step swaps the blocks of \<open>2\<^sup>k\<close> bits in pairs.\<close>

lemma flip_exp: "flip_bit k (i :: nat) = (if bit i k then i - 2 ^ k else i + 2 ^ k)"
proof (cases "bit i k")
  case True
  then have "set_bit k (unset_bit k i) = i" by (intro bit_eqI) (auto simp: bit_simps)
  moreover have "set_bit k (unset_bit k i) = unset_bit k i + 2 ^ k"
    by (simp add: set_bit_eq bit_simps)
  ultimately show ?thesis using True by (simp add: flip_bit_eq_if)
next
  case False
  then show ?thesis by (simp add: flip_bit_eq_if set_bit_eq)
qed

lemma bit_rev_step:
  assumes m: "\<forall>j < 64. bit (m :: u64) j \<longleftrightarrow> \<not> bit j k" and k: "k < 6" and i: "i < 64"
  shows "bit (rev_step (2 ^ k) m v) i \<longleftrightarrow> bit v (flip_bit k i)"
proof -
  have up: "i + 2 ^ k < 64" if "\<not> bit i k"
  proof -
    have "take_bit 6 (flip_bit k i) = flip_bit k i"
      using k i by (simp add: take_bit_flip_bit_eq take_bit_nat_eq_self)
    then have "flip_bit k i < 2 ^ 6" by (metis take_bit_nat_less_exp)
    then show ?thesis using that by (simp add: flip_exp)
  qed
  have down: "2 ^ k \<le> i" if "bit i k"
    using that by (metis bit_iff_odd div_less even_zero linorder_not_less)
  show ?thesis using up down m i
    by (cases "bit i k") (simp_all add: rev_step_def bit_simps flip_exp add.commute)
qed

lemma flip_less: "k < 6 \<Longrightarrow> i < 64 \<Longrightarrow> flip_bit k (i :: nat) < 64"
proof -
  assume "k < 6" "i < 64"
  then have "take_bit 6 (flip_bit k i) = flip_bit k i"
    by (simp add: take_bit_flip_bit_eq take_bit_nat_eq_self)
  then have "flip_bit k i < 2 ^ 6" by (metis take_bit_nat_less_exp)
  then show ?thesis by simp
qed

lemma xor_63: "list_all (\<lambda>i :: nat. i XOR 63 = 63 - i) [0..<64]"
  by code_simp

lemma flips_reverse:
  assumes "i < (64 :: nat)"
  shows "flip_bit 5 (flip_bit 4 (flip_bit 3 (flip_bit 2 (flip_bit 1 (flip_bit 0 i))))) = 63 - i"
proof -
  have "flip_bit 5 (flip_bit 4 (flip_bit 3 (flip_bit 2 (flip_bit 1 (flip_bit 0 i))))) = i XOR (1 XOR (2 XOR (4 XOR (8 XOR (16 XOR 32)))))"
    by (simp only: flip_bit_eq_xor xor.assoc push_bit_eq_mult) simp
  then show ?thesis using xor_63 assms by (simp add: list_all_iff)
qed

lemma bit_rev_bits: 
  assumes "i < 64" shows "bit (rev_bits v) i \<longleftrightarrow> bit v (63 - i)"
proof -
  have m: "\<forall>j < 64. bit (0x00000000FFFFFFFF :: u64) j \<longleftrightarrow> \<not> bit j 5"
    "\<forall>j < 64. bit (0x0000FFFF0000FFFF :: u64) j \<longleftrightarrow> \<not> bit j 4"
    "\<forall>j < 64. bit (0x00FF00FF00FF00FF :: u64) j \<longleftrightarrow> \<not> bit j 3"
    "\<forall>j < 64. bit (0x0F0F0F0F0F0F0F0F :: u64) j \<longleftrightarrow> \<not> bit j 2"
    "\<forall>j < 64. bit (0x3333333333333333 :: u64) j \<longleftrightarrow> \<not> bit j 1"
    "\<forall>j < 64. bit (0x5555555555555555 :: u64) j \<longleftrightarrow> \<not> bit j 0"
    using rev_masks unfolding list_all_iff set_upt by auto
  have steps: "bit (rev_step 32 0x00000000FFFFFFFF w) j \<longleftrightarrow> bit w (flip_bit 5 j)"
    "bit (rev_step 16 0x0000FFFF0000FFFF w) j \<longleftrightarrow> bit w (flip_bit 4 j)"
    "bit (rev_step 8 0x00FF00FF00FF00FF w) j \<longleftrightarrow> bit w (flip_bit 3 j)"
    "bit (rev_step 4 0x0F0F0F0F0F0F0F0F w) j \<longleftrightarrow> bit w (flip_bit 2 j)"
    "bit (rev_step 2 0x3333333333333333 w) j \<longleftrightarrow> bit w (flip_bit 1 j)"
    "bit (rev_step 1 0x5555555555555555 w) j \<longleftrightarrow> bit w (flip_bit 0 j)" if "j < 64" for w j
    using bit_rev_step [OF m(1) _ that] bit_rev_step [OF m(2) _ that] bit_rev_step [OF m(3) _ that]
      bit_rev_step [OF m(4) _ that] bit_rev_step [OF m(5) _ that] bit_rev_step [OF m(6) _ that] by simp_all
  have less: "flip_bit 0 j < 64" "flip_bit 1 j < 64" "flip_bit 2 j < 64" "flip_bit 3 j < 64" "flip_bit 4 j < 64"
    if "j < 64" for j :: nat
    using that by (auto intro!: flip_less)
  show ?thesis unfolding rev_bits_steps using assms
    by (simp only: steps less flips_reverse)
qed

lemma rev_bits_twice [simp]: "rev_bits (rev_bits v) = v"
  by (intro bit_word_eqI) (simp add: bit_rev_bits)

lemma rev_bits_inject: "rev_bits v = rev_bits w \<longleftrightarrow> v = w"
  by (metis rev_bits_twice)

lemma rev_bits_zero [simp]: "rev_bits 0 = 0"
  by (intro bit_word_eqI) (simp add: bit_rev_bits)

text \<open>The place of a cursor, or of a hash, on the line along which a scan moves.\<close>

definition place :: "u64 \<Rightarrow> nat" where
  "place v = unat (rev_bits v)"

lemma place_less: "place v < 2 ^ 64"
  using unsigned_less [of "rev_bits v", where 'a = nat] by (simp add: place_def)

lemma place_zero [simp]: "place 0 = 0" "place v = 0 \<longleftrightarrow> v = 0"
proof -
  show "place 0 = 0" by (simp add: place_def)
  show "place v = 0 \<longleftrightarrow> v = 0" by (metis place_def rev_bits_twice rev_bits_zero unat_eq_zero)
qed

lemma same_block:
  assumes "k \<le> 64"
  shows "place v div 2 ^ (64 - k) = place w div 2 ^ (64 - k) \<longleftrightarrow> take_bit k v = take_bit k w"
proof -
  have "place v div 2 ^ (64 - k) = place w div 2 ^ (64 - k) \<longleftrightarrow>
      drop_bit (64 - k) (rev_bits v) = drop_bit (64 - k) (rev_bits w)"
    by (simp only: place_def drop_bit_eq_div [symmetric] unat_drop_bit_eq [symmetric] word_unat_eq_iff [symmetric])
  also have "\<dots> \<longleftrightarrow> (\<forall>i < 64. i < k \<longrightarrow> bit v i = bit w i)"
  proof
    assume eq: "drop_bit (64 - k) (rev_bits v) = drop_bit (64 - k) (rev_bits w)"
    show "\<forall>i < 64. i < k \<longrightarrow> bit v i = bit w i"
    proof (intro allI impI)
      fix i :: nat assume i: "i < 64" "i < k"
      have "bit (drop_bit (64 - k) (rev_bits v)) (k - 1 - i) = bit (drop_bit (64 - k) (rev_bits w)) (k - 1 - i)"
        by (simp only: eq)
      moreover have "64 - k + (k - 1 - i) = 63 - i" using i assms by simp
      ultimately show "bit v i = bit w i" using i by (simp add: bit_drop_bit_eq bit_rev_bits)
    qed
  next
    assume eq: "\<forall>i < 64. i < k \<longrightarrow> bit v i = bit w i"
    show "drop_bit (64 - k) (rev_bits v) = drop_bit (64 - k) (rev_bits w)"
    proof (rule bit_word_eqI)
      fix n :: nat assume "n < LENGTH(64)"
      show "bit (drop_bit (64 - k) (rev_bits v)) n = bit (drop_bit (64 - k) (rev_bits w)) n"
      proof (cases "64 - k + n < 64")
        case True
        then show ?thesis using eq assms by (auto simp: bit_drop_bit_eq bit_rev_bits)
      next
        case False
        then show ?thesis by (auto simp: bit_drop_bit_eq dest: bit_imp_le_length)
      qed
    qed
  qed
  also have "\<dots> \<longleftrightarrow> take_bit k v = take_bit k w"
    by (auto simp: bit_eq_iff bit_take_bit_iff)
  finally show ?thesis .
qed

lemma or_mask_nat: "(a :: nat) OR mask n = a div 2 ^ n * 2 ^ n + (2 ^ n - 1)"
proof -
  have "a OR mask n = push_bit n (drop_bit n a) OR mask n"
    by (intro bit_eqI) (auto simp: bit_simps)
  also have "\<dots> = push_bit n (drop_bit n a) + mask n"
    by (rule disjunctive_add_eq_or [symmetric]) (intro bit_eqI, auto simp: bit_simps)
  finally show ?thesis by (simp add: push_bit_eq_mult drop_bit_eq_div mask_eq_exp_minus_1)
qed

lemma unat_or_mask_Suc:
  assumes "n \<le> 64"
  shows "unat ((x OR mask n :: u64) + 1) = (unat x div 2 ^ n + 1) * 2 ^ n mod 2 ^ 64"
proof -
  have "unat (x OR mask n) = unat x OR mask n"
    using assms by (intro bit_eqI) (auto simp: bit_simps)
  then have "unat (x OR mask n) + 1 = (unat x div 2 ^ n + 1) * 2 ^ n"
    by (simp add: or_mask_nat)
  then show ?thesis by (simp add: unat_word_ariths)
qed

lemma rev_bits_or_not_mask:
  assumes "k \<le> 64" shows "rev_bits (v OR NOT (mask k)) = rev_bits v OR mask (64 - k)"
  using assms by (intro bit_word_eqI) (auto simp: bit_simps bit_rev_bits)

text \<open>Incrementing the reversed cursor moves it to the start of the next block.\<close>

lemma place_next:
  assumes "k \<le> 64"
  shows "place (next_cursor (mask k) v) = (place v div 2 ^ (64 - k) + 1) * 2 ^ (64 - k) mod 2 ^ 64"
  using assms unat_or_mask_Suc [of "64 - k" "rev_bits v"]
  by (simp only: place_def next_cursor_def rev_bits_or_not_mask rev_bits_twice)


section \<open>The expansions of a cursor\<close>

definition bump :: "u64 \<Rightarrow> u64 \<Rightarrow> u64" where
  "bump m0 v = (((v OR m0) + 1) AND NOT m0) OR (v AND m0)"

definition high_part :: "nat \<Rightarrow> nat \<Rightarrow> u64 \<Rightarrow> nat" where
  "high_part k k' v = unat v div 2 ^ k mod 2 ^ (k' - k)"

lemma unat_and_mask: "unat ((v :: u64) AND mask k) = unat v mod 2 ^ k"
proof -
  have "unat (v AND mask k) = take_bit k (unat v)"
    by (simp only: take_bit_eq_mask [symmetric] unsigned_take_bit_eq)
  then show ?thesis by (simp only: take_bit_eq_mod)
qed

lemma unat_bump:
  assumes "k \<le> 64"
  shows "unat (bump (mask k) v) = 2 ^ k * ((unat v div 2 ^ k + 1) mod 2 ^ (64 - k)) + unat v mod 2 ^ k"
proof -
  let ?x = "(v OR mask k) + 1"
  let ?q = "(unat v div 2 ^ k + 1) mod 2 ^ (64 - k)"
  have p: "(2 :: nat) ^ 64 = 2 ^ k * 2 ^ (64 - k)" using assms by (simp flip: power_add)
  have x: "unat ?x = 2 ^ k * ?q"
    unfolding unat_or_mask_Suc [OF assms] p by (simp only: mult.commute [of _ "2 ^ k"] mod_mult_mult1)
  then have "2 ^ k dvd unat ?x" by simp
  then have low: "?x AND mask k = 0" by (simp only: and_mask_dvd_nat)
  have "?x AND NOT (mask k) = ?x"
  proof (rule bit_word_eqI)
    fix n :: nat assume "n < LENGTH(64)"
    then show "bit (?x AND NOT (mask k)) n = bit ?x n"
      using low by (auto simp: bit_eq_iff bit_simps)
  qed
  then have "bump (mask k) v = ?x OR (v AND mask k)" by (simp add: bump_def)
  also have "\<dots> = ?x + (v AND mask k)"
    by (rule disjunctive_add_eq_or [symmetric]) (metis low and.assoc and.commute and_zero_eq)
  finally have b: "bump (mask k) v = ?x + (v AND mask k)" .
  have "2 ^ k * ?q + unat v mod 2 ^ k < 2 ^ k * (?q + 1)" by simp
  also have "\<dots> \<le> 2 ^ k * 2 ^ (64 - k)" by (intro mult_le_mono2) (simp add: Suc_leI)
  finally have "2 ^ k * ?q + unat v mod 2 ^ k < 2 ^ 64" using p by simp
  moreover have "unat (?x + (v AND mask k)) = (unat ?x + unat (v AND mask k)) mod 2 ^ 64"
    by (simp add: unat_word_ariths)
  ultimately show ?thesis unfolding b by (simp only: x unat_and_mask mod_less)
qed

lemma high_part_bump:
  assumes "k \<le> k'" and "k' \<le> 64"
  shows "high_part k k' (bump (mask k) v) = (high_part k k' v + 1) mod 2 ^ (k' - k)"
    and "unat (bump (mask k) v) mod 2 ^ k = unat v mod 2 ^ k"
proof -
  have d: "(2 :: nat) ^ (k' - k) dvd 2 ^ (64 - k)" using assms by (intro le_imp_power_dvd) simp
  have "unat (bump (mask k) v) div 2 ^ k = (unat v div 2 ^ k + 1) mod 2 ^ (64 - k)"
    using assms by (simp add: unat_bump)
  then show "high_part k k' (bump (mask k) v) = (high_part k k' v + 1) mod 2 ^ (k' - k)"
    using d by (simp add: high_part_def mod_mod_cancel mod_Suc_eq)
  show "unat (bump (mask k) v) mod 2 ^ k = unat v mod 2 ^ k"
    using assms by (simp add: unat_bump)
qed

lemma low_high:
  assumes "k \<le> k'"
  shows "unat v mod 2 ^ k' = unat v mod 2 ^ k + 2 ^ k * high_part k k' v"
proof -
  have "(2 :: nat) ^ k' = 2 ^ k * 2 ^ (k' - k)" using assms by (simp flip: power_add)
  then show ?thesis by (simp add: high_part_def mod_mult2_eq)
qed

lemma high_part_zero:
  assumes "k \<le> k'" and "k' \<le> 64"
  shows "v AND (mask k XOR mask k') = 0 \<longleftrightarrow> high_part k k' v = 0"
proof -
  have "high_part k k' v = take_bit (k' - k) (drop_bit k (unat v))"
    by (simp only: high_part_def take_bit_eq_mod drop_bit_eq_div)
  also have "\<dots> = unat (take_bit (k' - k) (drop_bit k v))"
    by (simp only: unsigned_take_bit_eq unat_drop_bit_eq)
  also have "take_bit (k' - k) (drop_bit k v) = drop_bit k (v AND (mask k XOR mask k'))"
    using assms by (intro bit_word_eqI) (auto simp: bit_simps)
  finally have "high_part k k' v = 0 \<longleftrightarrow> drop_bit k (v AND (mask k XOR mask k')) = 0"
    by (simp only: unat_eq_zero)
  also have "\<dots> \<longleftrightarrow> v AND (mask k XOR mask k') = 0"
  proof
    assume z: "drop_bit k (v AND (mask k XOR mask k')) = 0"
    show "v AND (mask k XOR mask k') = 0"
    proof (rule bit_word_eqI)
      fix n :: nat
      have "\<not> bit (drop_bit k (v AND (mask k XOR mask k'))) (n - k)" by (simp only: z bit_0_eq) simp
      then show "bit (v AND (mask k XOR mask k')) n = bit (0 :: u64) n"
        using assms by (cases "k \<le> n") (auto simp: bit_simps)
    qed
  qed simp
  finally show ?thesis by simp
qed

lemma scan_expansions_correct:
  assumes k: "k \<le> k'" "k' \<le> 64" and t: "length (ht_table t1) = 2 ^ k'"
  shows "\<exists>w. scan_expansions t1 (mask k) (mask k') v =
      Some (w, concat (map (\<lambda>c. ht_table t1 ! (unat v mod 2 ^ k + 2 ^ k * c)) [high_part k k' v ..< 2 ^ (k' - k)]))
    \<and> unat w mod 2 ^ k = unat v mod 2 ^ k"
proof (induction "2 ^ (k' - k) - high_part k k' v" arbitrary: v rule: less_induct)
  case less
  let ?c = "high_part k k' v" and ?D = "2 ^ (k' - k) :: nat" and ?x = "unat v mod 2 ^ k"
  let ?b = "bump (mask k) v"
  have c: "?c < ?D" by (simp add: high_part_def)
  have "?x + 2 ^ k * ?c < 2 ^ k'" by (simp flip: low_high [OF k(1)])
  then have bk: "bucket t1 (unat (v AND mask k')) = Some (ht_table t1 ! (?x + 2 ^ k * ?c))"
    using t by (simp add: bucket_def unat_and_mask low_high [OF k(1)])
  have hp: "high_part k k' ?b = (?c + 1) mod ?D" and lp: "unat ?b mod 2 ^ k = ?x"
    using high_part_bump [OF k] by auto
  have unf: "scan_expansions t1 (mask k) (mask k') v = do {
     de \<leftarrow> bucket t1 (unat (v AND mask k'));
     (if high_part k k' ?b \<noteq> 0 then do {
        (w, es) \<leftarrow> scan_expansions t1 (mask k) (mask k') ?b;
        Some (w, de @ es)}
      else Some (?b, de))}"
    by (subst scan_expansions.simps) (simp only: Let_def bump_def [symmetric] high_part_zero [OF k])
  show ?case
  proof (cases "?c + 1 = ?D")
    case True
    then have "[?c ..< ?D] = [?c]" by (metis Suc_eq_plus1 lessI upt_conv_Cons upt_conv_Nil order_refl)
    then show ?thesis using True bk hp lp by (simp add: unf)
  next
    case False
    then have hp': "high_part k k' ?b = ?c + 1" using hp c by simp
    have "?D - high_part k k' ?b < ?D - ?c" using hp' c by linarith
    from less [OF this] obtain w where w: "scan_expansions t1 (mask k) (mask k') ?b =
        Some (w, concat (map (\<lambda>c. ht_table t1 ! (?x + 2 ^ k * c)) [?c + 1 ..< ?D]))" "unat w mod 2 ^ k = ?x"
      by (auto simp: lp hp')
    have "[?c ..< ?D] = ?c # [?c + 1 ..< ?D]" using c by (simp add: upt_conv_Cons)
    then show ?thesis using w bk hp' by (simp add: unf)
  qed
qed


section \<open>One call\<close>

text \<open>The place of an element: the reversal of the hash of its key.\<close>

definition key_place :: "('k \<Rightarrow> u32) \<Rightarrow> 'k \<Rightarrow> nat" where
  "key_place hash key = place (ucast (hash key))"

definition scan_size :: "('k, 'v) dict \<Rightarrow> nat" where
  "scan_size d = (if dictIsRehashing d then ht_size (smaller_ht d) else ht_size (ht0 d))"

text \<open>
  When the larger table has more than twice the buckets of the smaller one, the loop over the expansions
  must start with a cursor that the smaller table gave out.
\<close>

definition scan_safe :: "('k, 'v) dict \<Rightarrow> u64 \<Rightarrow> bool" where
  "scan_safe d v \<longleftrightarrow> dictIsRehashing d \<longrightarrow>
     ht_size (larger_ht d) \<le> 2 * ht_size (smaller_ht d) \<or> unat v < ht_size (smaller_ht d)"

lemma live_shape:
  assumes "ht_live hash ht"
  obtains k where "k \<le> 31" "ht_size ht = 2 ^ k" "of_nat (ht_sizemask ht) = (mask k :: u64)"
    "length (ht_table ht) = 2 ^ k" "\<forall>key. slot hash ht key = unat (hash key) mod 2 ^ k"
proof -
  obtain k where k: "k \<le> 31" "ht_size ht = 2 ^ k" "ht_sizemask ht = 2 ^ k - 1" "length (ht_table ht) = 2 ^ k"
    using assms by (auto simp: ht_live_def)
  have "of_nat (ht_sizemask ht) = (mask k :: u64)"
    using k(3) by (simp add: mask_eq_exp_minus_1 of_nat_diff)
  moreover have "slot hash ht key = unat (hash key) mod 2 ^ k" for key
    by (simp only: slot_def k(3) mask_eq_exp_minus_1 [symmetric] take_bit_eq_mask [symmetric] take_bit_eq_mod)
  ultimately show ?thesis using that k by blast
qed

lemma live_entry:
  assumes "ht_live hash ht" and "e \<in> set (ht_entries ht)"
  shows "e \<in> set (ht_table ht ! slot hash ht (fst e))"
proof -
  obtain i where "i < length (ht_table ht)" "e \<in> set (ht_table ht ! i)"
    using assms(2) unfolding ht_entries_def set_concat by (auto simp: in_set_conv_nth [of _ "ht_table ht"])
  moreover from this have "slot hash ht (fst e) = i" using assms(1) by (auto simp: ht_live_def)
  ultimately show ?thesis by simp
qed

lemma same_low:
  assumes "k \<le> 64"
  shows "place v div 2 ^ (64 - k) = key_place hash key div 2 ^ (64 - k) \<longleftrightarrow>
    unat v mod 2 ^ k = unat (hash key) mod 2 ^ k"
proof -
  have "take_bit k v = take_bit k w \<longleftrightarrow> unat v mod 2 ^ k = unat w mod 2 ^ k" for w
    by (metis take_bit_eq_mask unat_and_mask word_unat_eq_iff)
  moreover have "unat (ucast (hash key) :: u64) = unat (hash key)"
    using unsigned_less [of "hash key", where 'a = nat] by (simp add: unsigned_ucast_eq take_bit_nat_eq_self)
  ultimately show ?thesis by (simp add: key_place_def same_block [OF assms])
qed

text \<open>Two tables whose sizes differ by a factor of two at most: what the loop skips lies behind the cursor.\<close>

lemma place_bit: "k < 64 \<Longrightarrow> odd (place v div 2 ^ (63 - k)) \<longleftrightarrow> odd (unat v div 2 ^ k)"
proof -
  assume k: "k < 64"
  have "bit (unat (rev_bits v)) (63 - k) \<longleftrightarrow> bit (unat v) k"
    using k bit_rev_bits [of "63 - k" v] by (simp add: bit_unsigned_iff)
  then show ?thesis by (simp add: place_def bit_iff_odd)
qed

lemma skipped_behind:
  assumes k: "k < 64" and blk: "place v div 2 ^ (64 - k) = place w div 2 ^ (64 - k)"
    and vw: "high_part k (Suc k) w < high_part k (Suc k) v"
  shows "place w < place v"
proof -
  have p: "(2 :: nat) ^ (64 - k) = 2 ^ (63 - k) * 2" 
    using k power_Suc2 [of "2 :: nat" "63 - k"] by (simp add: Suc_diff_le [symmetric])
  have "odd (unat v div 2 ^ k)" "even (unat w div 2 ^ k)"
    using vw by (auto simp: high_part_def odd_iff_mod_2_eq_one even_iff_mod_2_eq_zero)
  then have "odd (place v div 2 ^ (63 - k))" "even (place w div 2 ^ (63 - k))"
    using place_bit [OF k] by blast+
  moreover have "place v div 2 ^ (63 - k) div 2 = place w div 2 ^ (63 - k) div 2"
    using blk unfolding p by (simp only: div_mult2_eq)
  ultimately have "place w div 2 ^ (63 - k) < place v div 2 ^ (63 - k)"
    by (metis even_two_times_div_two less_add_one odd_two_times_div_two_succ)
  then show ?thesis by (metis div_le_mono leD linorder_le_less_linear)
qed

definition in_reach :: "('k \<Rightarrow> u32) \<Rightarrow> nat \<Rightarrow> u64 \<Rightarrow> 'k \<Rightarrow> bool" where
  "in_reach hash k v key \<longleftrightarrow> place v div 2 ^ (64 - k) = key_place hash key div 2 ^ (64 - k) \<and>
     place v \<le> key_place hash key"

lemma bucket_at:
  assumes "length (ht_table ht) = 2 ^ k"
  shows "bucket ht (unat ((v :: u64) AND mask k)) = Some (ht_table ht ! (unat v mod 2 ^ k))"
  using assms by (simp add: bucket_def unat_and_mask)

lemma reach_bucket:
  assumes "ht_live hash ht" and "\<forall>key. slot hash ht key = unat (hash key) mod 2 ^ k" and "k \<le> 31"
    and "e \<in> set (ht_entries ht)" and "in_reach hash k v (fst e)"
  shows "e \<in> set (ht_table ht ! (unat v mod 2 ^ k))"
proof -
  have "unat v mod 2 ^ k = slot hash ht (fst e)"
    using assms(3,5) same_low [of k v hash "fst e"] by (simp add: in_reach_def assms(2))
  then show ?thesis using live_entry [OF assms(1,4)] by simp
qed

lemma unat_ucast_hash: "unat (ucast (h :: u32) :: u64) = unat h"
  using unsigned_less [of h, where 'a = nat] by (simp add: unsigned_ucast_eq take_bit_nat_eq_self)

lemma reach_expansion:
  assumes l: "ht_live hash t1" and sl: "\<forall>key. slot hash t1 key = unat (hash key) mod 2 ^ k'"
    and k: "k \<le> k'" "k' \<le> 31" and safe: "k' \<le> Suc k \<or> unat v < 2 ^ k"
    and e: "e \<in> set (ht_entries t1)" "in_reach hash k v (fst e)"
  shows "\<exists>c \<in> {high_part k k' v ..< 2 ^ (k' - k)}. e \<in> set (ht_table t1 ! (unat v mod 2 ^ k + 2 ^ k * c))"
proof -
  let ?w = "ucast (hash (fst e)) :: u64"
  let ?c = "high_part k k' ?w"
  have low: "unat v mod 2 ^ k = unat ?w mod 2 ^ k"
    using e(2) k same_low [of k v hash "fst e"] by (simp add: in_reach_def unat_ucast_hash)
  have "slot hash t1 (fst e) = unat v mod 2 ^ k + 2 ^ k * ?c"
    using low_high [OF k(1), of ?w] by (simp add: sl low unat_ucast_hash)
  then have "e \<in> set (ht_table t1 ! (unat v mod 2 ^ k + 2 ^ k * ?c))"
    using live_entry [OF l e(1)] by simp
  moreover have "?c < 2 ^ (k' - k)" by (simp add: high_part_def)
  moreover have "high_part k k' v \<le> ?c"
  proof (rule ccontr)
    assume n: "\<not> high_part k k' v \<le> ?c"
    then have v: "0 < high_part k k' v" by linarith
    have "k' \<noteq> k" using v by (auto simp: high_part_def)
    moreover have "\<not> unat v < 2 ^ k" using v by (auto simp: high_part_def)
    ultimately have "k' = Suc k" using safe k by linarith
    moreover have "place v div 2 ^ (64 - k) = place ?w div 2 ^ (64 - k)"
      using e(2) by (simp add: in_reach_def key_place_def)
    ultimately have "place ?w < place v" using n k by (intro skipped_behind) auto
    then show False using e(2) by (simp add: in_reach_def key_place_def)
  qed
  ultimately show ?thesis by (intro bexI [of _ ?c]) auto
qed

lemma next_cursor_low: "unat w mod 2 ^ k = unat v mod 2 ^ k \<Longrightarrow> next_cursor (mask k) w = next_cursor (mask k) v"
proof -
  assume "unat w mod 2 ^ k = unat v mod 2 ^ k"
  then have eq: "w AND mask k = v AND mask k" by (simp add: word_unat_eq_iff unat_and_mask)
  have "x OR NOT (mask k) = (x AND mask k) OR NOT (mask k)" for x :: u64
    by (intro bit_word_eqI) (auto simp: bit_simps)
  then have "w OR NOT (mask k) = v OR NOT (mask k)" by (metis eq)
  then show ?thesis by (simp add: next_cursor_def)
qed

lemma dictScan_still:
  assumes wf: "dict_wf hash d" and ne: "dictSize d \<noteq> 0" and nr: "\<not> dictIsRehashing d"
  shows "\<exists>k es. k \<le> 31 \<and> scan_size d = 2 ^ k \<and> dictScan d v = Some (next_cursor (mask k) v, es)
    \<and> (\<forall>e \<in> set (dict_entries d). in_reach hash k v (fst e) \<longrightarrow> e \<in> set es)"
proof -
  have r1: "ht1 d = dictReset" using wf nr by (auto simp: dict_wf_def)
  then have "ht0 d \<noteq> dictReset" using ne by (auto simp: dictSize_def)
  then have l: "ht_live hash (ht0 d)" using wf nr by (auto simp: dict_wf_def)
  obtain k where k: "k \<le> 31" "ht_size (ht0 d) = 2 ^ k" "of_nat (ht_sizemask (ht0 d)) = (mask k :: u64)"
    "length (ht_table (ht0 d)) = 2 ^ k" "\<forall>key. slot hash (ht0 d) key = unat (hash key) mod 2 ^ k"
    by (rule live_shape [OF l])
  have "e \<in> set (ht_table (ht0 d) ! (unat v mod 2 ^ k))"
    if "e \<in> set (dict_entries d)" "in_reach hash k v (fst e)" for e
    using that r1 by (intro reach_bucket [OF l k(5,1)]) (auto simp: dict_entries_def)
  then show ?thesis using k ne nr by (auto simp: dictScan_def scan_size_def bucket_at Let_def)
qed

lemma dictScan_rehashing:
  assumes wf: "dict_wf hash d" and ne: "dictSize d \<noteq> 0" and r: "dictIsRehashing d"
  shows "\<exists>k es. k \<le> 31 \<and> scan_size d = 2 ^ k \<and> dictScan d v = Some (next_cursor (mask k) v, es)
    \<and> (scan_safe d v \<longrightarrow> (\<forall>e \<in> set (dict_entries d). in_reach hash k v (fst e) \<longrightarrow> e \<in> set es))"
proof -
  let ?t0 = "smaller_ht d" and ?t1 = "larger_ht d"
  have l: "ht_live hash ?t0" "ht_live hash ?t1"
    using wf r by (auto simp: dict_wf_def smaller_ht_def larger_ht_def)
  have le: "ht_size ?t0 \<le> ht_size ?t1" by (auto simp: smaller_ht_def larger_ht_def)
  have ents: "set (dict_entries d) = set (ht_entries ?t0) \<union> set (ht_entries ?t1)"
    by (auto simp: dict_entries_def smaller_ht_def larger_ht_def)
  obtain k where k: "k \<le> 31" "ht_size ?t0 = 2 ^ k" "of_nat (ht_sizemask ?t0) = (mask k :: u64)"
    "length (ht_table ?t0) = 2 ^ k" "\<forall>key. slot hash ?t0 key = unat (hash key) mod 2 ^ k"
    by (rule live_shape [OF l(1)])
  obtain k' where k': "k' \<le> 31" "ht_size ?t1 = 2 ^ k'" "of_nat (ht_sizemask ?t1) = (mask k' :: u64)"
    "length (ht_table ?t1) = 2 ^ k'" "\<forall>key. slot hash ?t1 key = unat (hash key) mod 2 ^ k'"
    by (rule live_shape [OF l(2)])
  have kk: "k \<le> k'" using le k(2) k'(2) by simp
  obtain w where w: "scan_expansions ?t1 (mask k) (mask k') v = Some (w, concat (map (\<lambda>c. ht_table ?t1 !
      (unat v mod 2 ^ k + 2 ^ k * c)) [high_part k k' v ..< 2 ^ (k' - k)]))" "unat w mod 2 ^ k = unat v mod 2 ^ k"
    using scan_expansions_correct [OF kk _ k'(4), of v] k'(1) by auto
  define es where "es = ht_table ?t0 ! (unat v mod 2 ^ k) @ concat (map (\<lambda>c. ht_table ?t1 !
      (unat v mod 2 ^ k + 2 ^ k * c)) [high_part k k' v ..< 2 ^ (k' - k)])"
  have scan: "dictScan d v = Some (next_cursor (mask k) v, es)"
    using ne r k(3) k'(3) w next_cursor_low [OF w(2)] by (simp add: dictScan_def bucket_at k(4) es_def Let_def)
  have "e \<in> set es" if safe: "scan_safe d v" and e: "e \<in> set (dict_entries d)" "in_reach hash k v (fst e)" for e
  proof (cases "e \<in> set (ht_entries ?t0)")
    case True
    then show ?thesis using reach_bucket [OF l(1) k(5,1) True e(2)] by (simp add: es_def)
  next
    case False
    then have "e \<in> set (ht_entries ?t1)" using e(1) ents by blast
    moreover have "k' \<le> Suc k \<or> unat v < 2 ^ k"
    proof -
      have "(2 :: nat) ^ k' \<le> 2 * 2 ^ k \<Longrightarrow> k' \<le> Suc k" using power_le_imp_le_exp [of 2 k' "Suc k"] by simp
      then show ?thesis using safe r k(2) k'(2) by (auto simp: scan_safe_def)
    qed
    ultimately show ?thesis using reach_expansion [OF l(2) k'(5) kk k'(1) _ _ e(2)] by (auto simp: es_def)
  qed
  then show ?thesis using scan k(1,2) r by (auto simp: scan_size_def)
qed


section \<open>A whole iteration\<close>

lemma next_cursor_bound:
  assumes "k \<le> 31"
  shows "unat (next_cursor (mask k) v) < 2 ^ k" and "2 ^ 33 dvd place (next_cursor (mask k) v)"
proof -
  let ?w = "next_cursor (mask k) v"
  have "(2 :: nat) ^ (64 - k) dvd 2 ^ 64" by (rule le_imp_power_dvd) simp
  then have d: "2 ^ (64 - k) dvd place ?w" using assms unfolding place_next [OF order.trans, OF assms] 
    by (simp add: place_next dvd_mod)
  then have z: "rev_bits ?w AND mask (64 - k) = 0" by (simp only: place_def and_mask_dvd_nat)
  have "?w AND mask k = ?w"
  proof (rule bit_word_eqI)
    fix i :: nat assume i: "i < LENGTH(64)"
    have "\<not> bit (rev_bits ?w AND mask (64 - k)) (63 - i)" by (simp only: z bit_0_eq) simp
    then show "bit (?w AND mask k) i = bit ?w i"
      using i assms by (auto simp: bit_simps bit_rev_bits)
  qed
  then have "unat ?w = unat ?w mod 2 ^ k" by (metis unat_and_mask)
  moreover have "unat ?w mod 2 ^ k < 2 ^ k" by simp
  ultimately show "unat ?w < 2 ^ k" by metis
  have "(2 :: nat) ^ 33 dvd 2 ^ (64 - k)" using assms by (intro le_imp_power_dvd) simp
  then show "2 ^ 33 dvd place ?w" using d by (rule dvd_trans)
qed

lemma next_cursor_moves:
  assumes "k \<le> 31"
  shows "next_cursor (mask k) v \<noteq> 0 \<Longrightarrow> place v < place (next_cursor (mask k) v)"
    and "place v \<le> p \<Longrightarrow> p < 2 ^ 64 \<Longrightarrow> next_cursor (mask k) v \<noteq> 0 \<longrightarrow> p < place (next_cursor (mask k) v) \<Longrightarrow>
      place v div 2 ^ (64 - k) = p div 2 ^ (64 - k)"
proof -
  let ?B = "2 ^ (64 - k) :: nat" and ?w = "next_cursor (mask k) v"
  let ?n = "(place v div ?B + 1) * ?B"
  have w: "place ?w = ?n mod 2 ^ 64" using assms by (simp add: place_next)
  have p64: "(2 :: nat) ^ 64 = 2 ^ k * ?B" using assms by (simp flip: power_add)
  have "place v div ?B < 2 ^ k" using place_less [of v] p64 by (simp add: less_mult_imp_div_less)
  then have le: "?n \<le> 2 ^ 64" unfolding p64 by (intro mult_le_mono1) simp
  have gt: "place v < ?n" using dividend_less_div_times [of ?B "place v"] by simp
  have cases: "?n = 2 ^ 64 \<and> ?w = 0 \<or> place ?w = ?n"
  proof (cases "?n = 2 ^ 64")
    case True
    then have "place ?w = 0" unfolding w by simp
    then show ?thesis using True by simp
  next
    case False
    then show ?thesis using le unfolding w by simp
  qed
  then show "?w \<noteq> 0 \<Longrightarrow> place v < place ?w" using gt by auto
  assume p: "place v \<le> p" "p < 2 ^ 64" "?w \<noteq> 0 \<longrightarrow> p < place ?w"
  have "p < ?n" using cases p gt by auto
  then have "p div ?B < place v div ?B + 1" by (rule less_mult_imp_div_less)
  moreover have "place v div ?B \<le> p div ?B" using p(1) by (rule div_le_mono)
  ultimately show "place v div ?B = p div ?B" by simp
qed

lemma dictScan_call:
  assumes wf: "dict_wf hash d" and ne: "dictSize d \<noteq> 0"
  obtains v' es where "dictScan d v = Some (v', es)" "unat v' < scan_size d" "2 ^ 33 dvd place v'"
    "v' \<noteq> 0 \<longrightarrow> place v < place v'"
    "\<forall>key. scan_safe d v \<and> key \<in> dom (dict_map d) \<and> place v \<le> key_place hash key \<and>
       (v' \<noteq> 0 \<longrightarrow> key_place hash key < place v') \<longrightarrow> key \<in> fst ` set es"
proof -
  obtain k es where k: "k \<le> 31" "scan_size d = 2 ^ k" "dictScan d v = Some (next_cursor (mask k) v, es)"
    and em: "scan_safe d v \<longrightarrow> (\<forall>e \<in> set (dict_entries d). in_reach hash k v (fst e) \<longrightarrow> e \<in> set es)"
    using dictScan_still [OF wf ne, of v] dictScan_rehashing [OF wf ne, of v] by blast
  let ?w = "next_cursor (mask k) v"
  have "key \<in> fst ` set es" if h: "scan_safe d v" "key \<in> dom (dict_map d)" "place v \<le> key_place hash key"
    "?w \<noteq> 0 \<longrightarrow> key_place hash key < place ?w" for key
  proof -
    obtain e where e: "e \<in> set (dict_entries d)" "fst e = key"
      using h(2) unfolding dict_map_def dom_map_of_conv_image_fst by auto
    have "key_place hash key < 2 ^ 64" unfolding key_place_def by (rule place_less)
    then have "place v div 2 ^ (64 - k) = key_place hash key div 2 ^ (64 - k)"
      by (rule next_cursor_moves(2) [OF k(1) h(3) _ h(4)])
    then have "e \<in> set es" using em h(1,3) e by (simp add: in_reach_def)
    then show ?thesis using e by auto
  qed
  then show ?thesis
    using that [OF k(3)] next_cursor_bound [OF k(1), of v] next_cursor_moves(1) [OF k(1), of v] k(2) by auto
qed

definition resize_safe :: "('k, 'v) dict list \<Rightarrow> u64 \<Rightarrow> bool" where
  "resize_safe ds v \<longleftrightarrow> (\<forall>i < length ds. dictIsRehashing (ds ! i) \<longrightarrow>
     ht_size (larger_ht (ds ! i)) \<le> 2 * ht_size (smaller_ht (ds ! i)) \<or>
     unat v < scan_size (ds ! i) \<and> (\<forall>j < i. scan_size (ds ! j) \<le> scan_size (ds ! i)))"

lemma resize_safe_step:
  assumes "resize_safe (d # ds) v"
  shows "scan_safe d v" and "unat v' < scan_size d \<Longrightarrow> resize_safe ds v'"
proof -
  show "scan_safe d v" using assms unfolding resize_safe_def scan_safe_def scan_size_def by fastforce
  assume v': "unat v' < scan_size d"
  show "resize_safe ds v'" unfolding resize_safe_def
  proof (intro allI impI)
    fix i assume i: "i < length ds" "dictIsRehashing (ds ! i)"
    show "ht_size (larger_ht (ds ! i)) \<le> 2 * ht_size (smaller_ht (ds ! i)) \<or>
      unat v' < scan_size (ds ! i) \<and> (\<forall>j < i. scan_size (ds ! j) \<le> scan_size (ds ! i))"
    proof (cases "ht_size (larger_ht (ds ! i)) \<le> 2 * ht_size (smaller_ht (ds ! i))")
      case False
      then have "\<forall>j < Suc i. scan_size ((d # ds) ! j) \<le> scan_size (ds ! i)"
        using assms i unfolding resize_safe_def by (metis Suc_less_eq length_Cons nth_Cons_Suc)
      then show ?thesis using v' by (metis Suc_less_eq nth_Cons_0 nth_Cons_Suc order_less_le_trans zero_less_Suc)
    qed simp
  qed
qed

lemma scans_cover:
  assumes "\<forall>d \<in> set ds. dict_wf hash d \<and> key \<in> dom (dict_map d)" and "resize_safe ds v"
    and "scans ds v = Some (0, es)" and "ds \<noteq> [] \<or> v \<noteq> 0" and "place v \<le> key_place hash key"
  shows "key \<in> fst ` set es"
  using assms
proof (induction ds arbitrary: v es)
  case (Cons d ds)
  have wf: "dict_wf hash d" and key: "key \<in> dom (dict_map d)" using Cons.prems(1) by auto
  have "dict_entries d \<noteq> []" using key by (auto simp: dict_map_def)
  then have ne: "dictSize d \<noteq> 0" using dictSize_entries [OF wf] by simp
  obtain v' fs where c: "dictScan d v = Some (v', fs)" "unat v' < scan_size d"
    "\<forall>key. scan_safe d v \<and> key \<in> dom (dict_map d) \<and> place v \<le> key_place hash key \<and>
       (v' \<noteq> 0 \<longrightarrow> key_place hash key < place v') \<longrightarrow> key \<in> fst ` set fs"
    by (rule dictScan_call [OF wf ne, of v])
  note safe = resize_safe_step [OF Cons.prems(2)]
  show ?case
  proof (cases "v' = 0 \<or> key_place hash key < place v'")
    case True
    then have "key \<in> fst ` set fs" using c(3) safe(1) key Cons.prems(5) by blast
    then show ?thesis using Cons.prems(3) c(1) by (auto split: if_splits bind_splits)
  next
    case False
    then obtain gs where g: "scans ds v' = Some (0, gs)" "es = fs @ gs"
      using Cons.prems(3) c(1) by (auto split: bind_splits)
    have "key \<in> fst ` set gs"
      using False g(1) safe(2) [OF c(2)] Cons.prems(1) by (intro Cons.IH [of v']) auto
    then show ?thesis using g(2) by auto
  qed
qed simp

lemma scans_end:
  assumes "\<forall>d \<in> set ds. dict_wf hash d" and "2 ^ 64 \<le> 2 ^ 33 * length ds + place v" and "2 ^ 33 dvd place v"
  shows "\<exists>es. scans ds v = Some (0, es)"
  using assms
proof (induction ds arbitrary: v)
  case Nil
  then show ?case using place_less [of v] by simp
next
  case (Cons d ds)
  show ?case
  proof (cases "dictSize d = 0")
    case True
    then show ?thesis by (simp add: dictScan_def)
  next
    case False
    have wf: "dict_wf hash d" using Cons.prems(1) by simp
    obtain v' es where c: "dictScan d v = Some (v', es)" "2 ^ 33 dvd place v'" "v' \<noteq> 0 \<longrightarrow> place v < place v'"
      by (rule dictScan_call [OF wf False, of v])
    show ?thesis
    proof (cases "v' = 0")
      case True
      then show ?thesis using c(1) by simp
    next
      case False
      then have "2 ^ 33 dvd place v' - place v" "0 < place v' - place v"
        using c(2,3) Cons.prems(3) by (auto intro: dvd_diff_nat)
      then have "2 ^ 33 \<le> place v' - place v" by (rule dvd_imp_le)
      then have "2 ^ 64 \<le> 2 ^ 33 * length ds + place v'" using Cons.prems(2) by simp
      then obtain fs where "scans ds v' = Some (0, fs)" using Cons.IH [of v'] Cons.prems(1) c(2) by auto
      then show ?thesis using c(1) False by simp
    qed
  qed
qed

lemma bucket_entries: "bucket ht i = Some c \<Longrightarrow> set c \<subseteq> set (ht_entries ht)"
  by (auto simp: bucket_def ht_entries_def split: if_splits intro!: bexI [OF _ nth_mem])

lemma scan_expansions_entries:
  assumes "scan_expansions t1 m0 m1 v = Some r"
  shows "set (snd r) \<subseteq> set (ht_entries t1)"
proof (rule scan_expansions.raw_induct [OF _ assms])
  fix rec :: "('a, 'b) dictht \<Rightarrow> u64 \<Rightarrow> u64 \<Rightarrow> u64 \<Rightarrow> (u64 \<times> ('a \<times> 'b) list) option" and t1 m0 m1 v r
  assume IH: "\<And>t1 m0 m1 v r. rec t1 m0 m1 v = Some r \<Longrightarrow> set (snd r) \<subseteq> set (ht_entries t1)"
    and body: "do {
     de \<leftarrow> bucket t1 (unat (v AND m1));
     let v' = (((v OR m0) + 1) AND NOT m0) OR (v AND m0);
     (if v' AND (m0 XOR m1) \<noteq> 0 then do { (w, es) \<leftarrow> rec t1 m0 m1 v'; Some (w, de @ es) }
      else Some (v', de))} = Some r"
  let ?v = "(((v OR m0) + 1) AND NOT m0) OR (v AND m0)"
  obtain de where de: "bucket t1 (unat (v AND m1)) = Some de" using body by (cases "bucket t1 (unat (v AND m1))") auto
  show "set (snd r) \<subseteq> set (ht_entries t1)"
  proof (cases "?v AND (m0 XOR m1) \<noteq> 0")
    case True
    then obtain w es where r: "rec t1 m0 m1 ?v = Some (w, es)" "r = (w, de @ es)"
      using body de by (auto simp: Let_def split: bind_splits)
    show ?thesis using IH [OF r(1)] bucket_entries [OF de] by (simp add: r(2))
  next
    case False
    then have "r = (?v, de)" using body de by (simp add: Let_def)
    then show ?thesis using bucket_entries [OF de] by simp
  qed
qed

lemma dictScan_entries:
  assumes "dictScan d v = Some (v', es)"
  shows "set es \<subseteq> set (dict_entries d)"
proof (cases "dictSize d = 0 \<or> \<not> dictIsRehashing d")
  case True
  have "bucket (ht0 d) (unat (v AND of_nat (ht_sizemask (ht0 d)))) = Some es" if "dictSize d \<noteq> 0"
    using assms True that by (cases "bucket (ht0 d) (unat (v AND of_nat (ht_sizemask (ht0 d))))") (auto simp: dictScan_def)
  moreover have "es = []" if "dictSize d = 0" using assms that by (simp add: dictScan_def)
  ultimately show ?thesis using bucket_entries by (cases "dictSize d = 0") (fastforce simp: dict_entries_def)+
next
  case False
  then obtain i de w fs where e: "bucket (smaller_ht d) i = Some de" "es = de @ fs"
      "scan_expansions (larger_ht d) (of_nat (ht_sizemask (smaller_ht d))) (of_nat (ht_sizemask (larger_ht d))) v = Some (w, fs)"
    using assms unfolding dictScan_def Let_def by (auto split: bind_splits)
  show ?thesis
    using bucket_entries [OF e(1)] scan_expansions_entries [OF e(3)] e(2)
    by (auto simp: dict_entries_def smaller_ht_def larger_ht_def split: if_splits)
qed

lemma scans_entries: "scans ds v = Some (w, es) \<Longrightarrow> e \<in> set es \<Longrightarrow> \<exists>d \<in> set ds. e \<in> set (dict_entries d)"
  by (induction ds arbitrary: v es) (fastforce split: bind_splits if_splits dest: dictScan_entries)+


section \<open>A shrinking table\<close>

definition shrink_before :: "(u32, unit) dict" where
  "shrink_before = \<lparr>ht0 = \<lparr>ht_table = (replicate 16 [])[4 := [(4, ())]], ht_size = 16, ht_sizemask = 15, ht_used = 1\<rparr>,
     ht1 = dictReset, rehashidx = -1, iterators = 0\<rparr>"

definition shrink_after :: "(u32, unit) dict" where
  "shrink_after = shrink_before\<lparr>
     ht1 := \<lparr>ht_table = replicate 4 [], ht_size = 4, ht_sizemask = 3, ht_used = 0\<rparr>, rehashidx := 0\<rparr>"

lemma shrink_example:
  "dictAdd True (\<lambda>k. k) () (fst (dictExpand dictCreate 16)) 4 () = Some (shrink_before, DICT_OK)"
  "dictResize True shrink_before = (shrink_after, DICT_OK)"
  "dict_map shrink_before 4 = Some ()" "dict_map shrink_after 4 = Some ()"
proof -
  have np: "dictNextPower 16 = 16" "dictNextPower 4 = 4"
    by (simp_all add: dictNextPower_def DICT_HT_INITIAL_SIZE_def while_unfold range_simps)
  have e: "fst (dictExpand dictCreate 16) = (dictCreate\<lparr>ht0 := \<lparr>ht_table = replicate 16 [], ht_size = 16,
      ht_sizemask = 15, ht_used = 0\<rparr>\<rparr> :: (u32, unit) dict)"
    by (simp add: dictExpand_def np dictCreate_def dictInit_def dictIsRehashing_def)
  show "dictAdd True (\<lambda>k. k) () (fst (dictExpand dictCreate 16)) 4 () = Some (shrink_before, DICT_OK)"
    unfolding e by code_simp
  show "dictResize True shrink_before = (shrink_after, DICT_OK)"
    by (simp add: dictResize_def dictExpand_def np shrink_before_def shrink_after_def dictIsRehashing_def DICT_HT_INITIAL_SIZE_def)
  show "dict_map shrink_before 4 = Some ()" "dict_map shrink_after 4 = Some ()"
    by code_simp+
qed

lemma shrink_scans:
  "dictScan shrink_before 0 = Some (8, [])" "dictScan shrink_after 8 = Some (2, [])"
  "dictScan shrink_after 2 = Some (1, [])" "dictScan shrink_after 1 = Some (3, [])"
  "dictScan shrink_after 3 = Some (0, [])"
  by code_simp+

section \<open>Properties\<close>

text \<open>C12. A full iteration with \<open>dictScan\<close>, starting and ending with cursor zero, returns every key that is in the
  dictionary throughout, whatever happens to the dictionary between the calls (insertions, deletions, rehashing
  steps, growth, and shrinking), provided that no call meets a rehash in progress between tables more than a factor
  of two apart whose smaller table is smaller than a table of an earlier call.  It returns only entries of the
  dictionary, and the cursor comes back to zero within \<open>2\<^sup>3\<^sup>1\<close> calls.\<close>

theorem dictScan_visits_all:
  assumes "\<forall>d \<in> set ds. dict_wf hash d" and "resize_safe ds 0" and "ds \<noteq> []"
  shows "(2 ^ 31 \<le> length ds \<longrightarrow> (\<exists>es. scans ds 0 = Some (0, es))) \<and>
    (\<forall>es. scans ds 0 = Some (0, es) \<longrightarrow>
       (\<forall>key. (\<forall>d \<in> set ds. dict_map d key \<noteq> None) \<longrightarrow> key \<in> fst ` set es) \<and>
       (\<forall>e \<in> set es. \<exists>d \<in> set ds. e \<in> set (dict_entries d)))"
proof (intro conjI allI impI ballI)
  assume "2 ^ 31 \<le> length ds"
  then show "\<exists>es. scans ds 0 = Some (0, es)" using assms(1) by (intro scans_end) auto
next
  fix es key assume "scans ds 0 = Some (0, es)" "\<forall>d \<in> set ds. dict_map d key \<noteq> None"
  then show "key \<in> fst ` set es" using assms by (intro scans_cover [of ds hash key 0]) auto
next
  fix es e assume "scans ds 0 = Some (0, es)" "e \<in> set es"
  then show "\<exists>d \<in> set ds. e \<in> set (dict_entries d)" by (rule scans_entries)
qed

theorem dictScan_visits_all_witness:
  "dict_wf example_hash rehashing_example \<and>
   (\<exists>es. scans (replicate 4 rehashing_example) 0 = Some (0, es) \<and> {4, 8, 6} \<subseteq> fst ` set es)"
proof -
  let ?ds = "replicate 4 rehashing_example"
  have wf: "\<forall>d \<in> set ?ds. dict_wf example_hash d" by (simp add: rehashing_example_wf)
  have rs: "resize_safe ?ds 0"
    by (simp add: resize_safe_def larger_ht_def smaller_ht_def rehashing_example_def)
  have sc: "scans ?ds 0 = Some (0, [(4, 1), (8, 2), (6, 3)])" by code_simp
  have "\<forall>d \<in> set ?ds. dict_map d 4 \<noteq> None" "\<forall>d \<in> set ?ds. dict_map d 8 \<noteq> None" "\<forall>d \<in> set ?ds. dict_map d 6 \<noteq> None"
    by (simp_all add: dict_map_def dict_entries_def ht_entries_def rehashing_example_def)
  then show ?thesis using dictScan_visits_all [OF wf rs] rehashing_example_wf sc by auto
qed

text \<open>The promise of \<open>dictScan\<close> that all the elements present from the start to the end of an iteration are
  returned does not hold when the table shrinks by a factor of four during the iteration: after one call on a table
  of sixteen buckets and a \<open>dictResize\<close> to four, the remaining calls miss a key that is in the dictionary all
  along, because the expansions of the cursor into the larger table are counted upwards from the cursor in normal
  order while the cursor came from the reversed order.\<close>

lemma dictScan_misses_after_shrink:
  "\<exists>d1 d2. dictAdd True (\<lambda>k. k) () (fst (dictExpand dictCreate 16)) 4 () = Some (d1, DICT_OK) \<and>
     dictResize True d1 = (d2, DICT_OK) \<and> dict_map d1 4 = Some () \<and> dict_map d2 4 = Some () \<and>
     scans [d1, d2, d2, d2, d2] 0 = Some (0, [])"
  by (rule exI [of _ shrink_before], rule exI [of _ shrink_after]) (simp add: shrink_example shrink_scans)

end
