(* ===== verification/Lzf.thy ===== *)
theory Lzf
  imports Prelude "HOL-Library.Monad_Syntax"
begin

unbundle bit_operations_syntax

text \<open>
  \<^verbatim>\<open>lzf_c.c\<close>, \<^verbatim>\<open>lzf_d.c\<close>: the LZF compressor and decompressor used by \<^verbatim>\<open>rdb.c\<close> and \<^verbatim>\<open>quicklist.c\<close>, in
  the configuration of \<^verbatim>\<open>lzfP.h\<close> on a 64-bit host (\<open>HLOG\<close> 16, \<open>VERY_FAST\<close>, no \<open>INIT_HTAB\<close>,
  \<open>CHECK_INPUT\<close>, offsets in the hash table).  Pointers are offsets from \<open>in_data\<close> and \<open>out_data\<close>.  The
  bytes of the output below \<open>op\<close> are the list \<open>out\<close>, so \<open>op\<close> is its length; \<open>u\<close> is the content of a
  byte that is skipped and filled in later.  A read outside the input and a write outside the
  \<open>out_len\<close> bytes of the output are \<open>None\<close>.  The content of the hash table at the start is arbitrary.
\<close>

section \<open>The decompressor\<close>

datatype lzf_errno = E2BIG | EINVAL

text \<open>\<open>*ip++\<close>, \<open>*op++ = b\<close> and \<open>*ref\<close>, where \<open>ref\<close> points into the output.\<close>

definition in_byte :: "bytes \<Rightarrow> (byte \<times> bytes) option" where
  "in_byte ip = (case ip of [] \<Rightarrow> None | b # ip' \<Rightarrow> Some (b, ip'))"

definition push :: "nat \<Rightarrow> bytes \<Rightarrow> byte \<Rightarrow> bytes option" where
  "push out_len ob b = (if length ob < out_len then Some (ob @ [b]) else None)"

definition out_byte :: "bytes \<Rightarrow> int \<Rightarrow> byte option" where
  "out_byte out ref = (if 0 \<le> ref \<and> ref < int (length out) then Some (out ! nat ref) else None)"

fun copy_literal :: "nat \<Rightarrow> nat \<Rightarrow> bytes \<Rightarrow> bytes \<Rightarrow> (bytes \<times> bytes) option" where
  "copy_literal out_len 0 ip out = Some (ip, out)"
| "copy_literal out_len (Suc n) ip out = do {
     (b, ip') \<leftarrow> in_byte ip;
     out' \<leftarrow> push out_len out b;
     copy_literal out_len n ip' out'}"

fun copy_octets :: "nat \<Rightarrow> nat \<Rightarrow> int \<Rightarrow> bytes \<Rightarrow> bytes option" where
  "copy_octets out_len 0 ref out = Some out"
| "copy_octets out_len (Suc n) ref out = do {
     b \<leftarrow> out_byte out ref;
     out' \<leftarrow> push out_len out b;
     copy_octets out_len n (ref + 1) out'}"

text \<open>\<open>memcpy\<close> of \<open>n\<close> bytes from \<open>ref\<close> to \<open>op\<close>.\<close>

definition copy_block :: "nat \<Rightarrow> nat \<Rightarrow> int \<Rightarrow> bytes \<Rightarrow> bytes option" where
  "copy_block out_len n ref out =
     (if 0 \<le> ref \<and> ref + int n \<le> int (length out) \<and> length out + n \<le> out_len
      then Some (out @ take n (drop (nat ref) out)) else None)"

definition lzf_copy :: "nat \<Rightarrow> nat \<Rightarrow> int \<Rightarrow> bytes \<Rightarrow> bytes option" where
  "lzf_copy out_len len ref out =
     (if len > 9 then
        (if int (length out) \<ge> ref + int (len + 2) then copy_block out_len (len + 2) ref out
         else copy_octets out_len (len + 2) ref out)
      else copy_octets out_len (len + 2) ref out)"

definition lzf_backref :: "nat \<Rightarrow> nat \<Rightarrow> nat \<Rightarrow> byte \<Rightarrow> bytes \<Rightarrow> bytes \<Rightarrow> (lzf_errno + bytes \<times> bytes) option" where
  "lzf_backref out_len ctrl len lo rest out =
     (let ref = int (length out) - int (push_bit 8 (ctrl AND 0x1f)) - 1 - int (unat lo)
      in if length out + len + 2 > out_len then Some (Inl E2BIG)
         else if ref < 0 then Some (Inl EINVAL)
         else do { out' \<leftarrow> lzf_copy out_len len ref out; Some (Inr (rest, out')) })"

text \<open>The tests of \<open>CHECK_INPUT\<close> come before the reads they guard; each read fails by itself at the end of the input.\<close>

definition lzf_token :: "nat \<Rightarrow> bytes \<Rightarrow> bytes \<Rightarrow> (lzf_errno + bytes \<times> bytes) option" where
  "lzf_token out_len ip out = do {
     (c, ip1) \<leftarrow> in_byte ip;
     let ctrl = unat c;
     (if ctrl < 32 then
        (if length out + (ctrl + 1) > out_len then Some (Inl E2BIG)
         else if ctrl + 1 > length ip1 then Some (Inl EINVAL)
         else map_option Inr (copy_literal out_len (ctrl + 1) ip1 out))
      else
        let len = drop_bit 5 ctrl
        in if ip1 = [] then Some (Inl EINVAL)
           else if len = 7 then do {
             (b, ip2) \<leftarrow> in_byte ip1;
             (if ip2 = [] then Some (Inl EINVAL)
              else do {
                (lo, ip3) \<leftarrow> in_byte ip2;
                lzf_backref out_len ctrl (len + unat b) lo ip3 out})}
           else do {
             (lo, ip2) \<leftarrow> in_byte ip1;
             lzf_backref out_len ctrl len lo ip2 out})}"

lemma in_byte_simps [simp]: "in_byte [] = None" "in_byte (b # ip) = Some (b, ip)"
  by (simp_all add: in_byte_def)

lemma in_byte_Some: "in_byte ip = Some (b, ip') \<longleftrightarrow> ip = b # ip'"
  by (cases ip) auto

lemma copy_literal_shorter: "copy_literal n k ip out = Some (ip', out') \<Longrightarrow> length ip' \<le> length ip"
  by (induction n k ip out rule: copy_literal.induct) (fastforce simp: in_byte_Some split: bind_splits)+

lemma lzf_backref_rest: "lzf_backref n c len lo rest out = Some (Inr (r, out')) \<Longrightarrow> r = rest"
  by (auto simp: lzf_backref_def Let_def split: if_splits bind_splits)

lemma lzf_token_shorter: "lzf_token n ip out = Some (Inr (ip', out')) \<Longrightarrow> length ip' < length ip"
  by (auto simp: lzf_token_def Let_def in_byte_Some split: bind_splits if_splits dest!: lzf_backref_rest copy_literal_shorter)

function lzf_decompress_loop :: "nat \<Rightarrow> bytes \<Rightarrow> bytes \<Rightarrow> (lzf_errno + bytes) option" where
  "lzf_decompress_loop out_len ip out =
     (case lzf_token out_len ip out of None \<Rightarrow> None
      | Some (Inl e) \<Rightarrow> Some (Inl e)
      | Some (Inr (ip', out')) \<Rightarrow>
        if ip' \<noteq> [] then lzf_decompress_loop out_len ip' out' else Some (Inr out'))"
  by pat_completeness auto
termination
  by (relation "measure (\<lambda>(n, ip, out). length ip)") (auto dest: lzf_token_shorter)

declare lzf_decompress_loop.simps [simp del]

definition lzf_decompress :: "bytes \<Rightarrow> nat \<Rightarrow> (lzf_errno + bytes) option" where
  "lzf_decompress in_data out_len = lzf_decompress_loop out_len in_data []"


section \<open>The compressor\<close>

definition MAX_LIT :: nat where "MAX_LIT = 2 ^ 5"
definition MAX_OFF :: nat where "MAX_OFF = 2 ^ 13"
definition MAX_REF :: nat where "MAX_REF = 2 ^ 8 + 2 ^ 3"

definition rd_in :: "bytes \<Rightarrow> nat \<Rightarrow> byte option" where
  "rd_in inp i = (if i < length inp then Some (inp ! i) else None)"

definition FRST :: "bytes \<Rightarrow> nat \<Rightarrow> u32 option" where
  "FRST inp p = do {
     a \<leftarrow> rd_in inp p; b \<leftarrow> rd_in inp (p + 1);
     Some (push_bit 8 (ucast a) OR ucast b)}"

definition NEXT_h :: "u32 \<Rightarrow> bytes \<Rightarrow> nat \<Rightarrow> u32 option" where
  "NEXT_h v inp p = do { c \<leftarrow> rd_in inp (p + 2); Some (push_bit 8 v OR ucast c) }"

definition IDX :: "u32 \<Rightarrow> nat" where
  "IDX h = unat ((drop_bit 8 h - h * 5) AND 0xffff)"

record lzf_state =
  lz_ip :: nat
  lz_hval :: u32
  lz_htab :: "nat \<Rightarrow> u32"
  lz_out :: bytes
  lz_lit :: nat

text \<open>The sixteen unrolled comparisons, and the loop after them.\<close>

fun match_unrolled :: "bytes \<Rightarrow> nat \<Rightarrow> nat \<Rightarrow> nat \<Rightarrow> nat \<Rightarrow> (nat \<times> bool) option" where
  "match_unrolled inp ref p 0 len = Some (len, False)"
| "match_unrolled inp ref p (Suc n) len = do {
     a \<leftarrow> rd_in inp (ref + (len + 1)); b \<leftarrow> rd_in inp (p + (len + 1));
     (if a \<noteq> b then Some (len + 1, True) else match_unrolled inp ref p n (len + 1))}"

function match_tail :: "bytes \<Rightarrow> nat \<Rightarrow> nat \<Rightarrow> nat \<Rightarrow> nat \<Rightarrow> nat option" where
  "match_tail inp ref p maxlen len =
     (if len + 1 < maxlen then do {
        a \<leftarrow> rd_in inp (ref + (len + 1)); b \<leftarrow> rd_in inp (p + (len + 1));
        (if a = b then match_tail inp ref p maxlen (len + 1) else Some (len + 1))}
      else Some (len + 1))"
  by pat_completeness auto
termination by (relation "measure (\<lambda>(inp, ref, p, maxlen, len). maxlen - len)") auto

declare match_tail.simps [simp del]

definition match_len :: "bytes \<Rightarrow> nat \<Rightarrow> nat \<Rightarrow> nat \<Rightarrow> nat option" where
  "match_len inp ref p maxlen =
     (if maxlen > 16 then do {
        (len, broke) \<leftarrow> match_unrolled inp ref p 16 2;
        (if broke then Some len else match_tail inp ref p maxlen len)}
      else match_tail inp ref p maxlen 2)"

text \<open>\<open>op[i] = b\<close> below \<open>op\<close>.\<close>

definition put :: "nat \<Rightarrow> bytes \<Rightarrow> nat \<Rightarrow> byte \<Rightarrow> bytes option" where
  "put out_len ob i b = (if i < length ob \<and> i < out_len then Some (ob[i := b]) else None)"

definition stop_run :: "nat \<Rightarrow> bytes \<Rightarrow> nat \<Rightarrow> bytes option" where
  "stop_run out_len ob lit' = put out_len ob (length ob - lit' - 1) (of_int (int lit' - 1))"

definition undo_run :: "bytes \<Rightarrow> nat \<Rightarrow> bytes" where
  "undo_run ob lit' = (if lit' = 0 then butlast ob else ob)"

definition emit_backref :: "nat \<Rightarrow> bytes \<Rightarrow> nat \<Rightarrow> nat \<Rightarrow> bytes option" where
  "emit_backref out_len ob off len = do {
     o2 \<leftarrow> (if len < 7 then push out_len ob (of_nat (drop_bit 8 off + push_bit 5 len))
           else do {
             o1 \<leftarrow> push out_len ob (of_nat (drop_bit 8 off + push_bit 5 7));
             push out_len o1 (of_nat (len - 7))});
     push out_len o2 (of_nat off)}"

text \<open>A step of the main loop: \<open>return 0\<close>, \<open>break\<close>, or the next iteration.\<close>

datatype lzf_step = Return0 | Break lzf_state | Continue lzf_state

definition match_found :: "bytes \<Rightarrow> nat \<Rightarrow> nat \<Rightarrow> bool option" where
  "match_found inp ref p = do {
     r2 \<leftarrow> rd_in inp (ref + 2); i2 \<leftarrow> rd_in inp (p + 2);
     (if r2 \<noteq> i2 then Some False
      else do {
        r0 \<leftarrow> rd_in inp ref; r1 \<leftarrow> rd_in inp (ref + 1);
        i0 \<leftarrow> rd_in inp p; i1 \<leftarrow> rd_in inp (p + 1);
        Some (r0 = i0 \<and> r1 = i1)})}"

definition rehash_two :: "bytes \<Rightarrow> nat \<Rightarrow> (nat \<Rightarrow> u32) \<Rightarrow> (u32 \<times> (nat \<Rightarrow> u32)) option" where
  "rehash_two inp p h = do {
     v0 \<leftarrow> FRST inp p;
     v1 \<leftarrow> NEXT_h v0 inp p;
     v2 \<leftarrow> NEXT_h v1 inp (p + 1);
     Some (v2, h(IDX v1 := of_nat p, IDX v2 := of_nat (p + 1)))}"

definition lzf_match :: "byte \<Rightarrow> bytes \<Rightarrow> nat \<Rightarrow> lzf_state \<Rightarrow> nat \<Rightarrow> nat \<Rightarrow> lzf_step option" where
  "lzf_match u inp out_len st ref off =
     (let p = lz_ip st; maxlen0 = length inp - p - 2;
          maxlen = (if maxlen0 > MAX_REF then MAX_REF else maxlen0)
      in if length (lz_out st) + 3 + 1 \<ge> out_len
            \<and> int (length (lz_out st)) - (if lz_lit st = 0 then 1 else 0) + 3 + 1 \<ge> int out_len
         then Some Return0
         else do {
           o1 \<leftarrow> stop_run out_len (lz_out st) (lz_lit st);
           len \<leftarrow> match_len inp ref p maxlen;
           o2 \<leftarrow> emit_backref out_len (undo_run o1 (lz_lit st)) off (len - 2);
           let p' = p + 1 + (len - 2) + 1;
           (if int p' \<ge> int (length inp) - 2
            then Some (Break (st\<lparr>lz_ip := p', lz_out := o2 @ [u], lz_lit := 0\<rparr>))
            else do {
              (v, h) \<leftarrow> rehash_two inp (p' - 2) (lz_htab st);
              Some (Continue (st\<lparr>lz_ip := p', lz_hval := v, lz_htab := h, lz_out := o2 @ [u], lz_lit := 0\<rparr>))})})"

definition lzf_literal :: "byte \<Rightarrow> bytes \<Rightarrow> nat \<Rightarrow> lzf_state \<Rightarrow> lzf_state option" where
  "lzf_literal u inp out_len st = do {
     b \<leftarrow> rd_in inp (lz_ip st);
     o1 \<leftarrow> push out_len (lz_out st) b;
     let l = lz_lit st + 1;
     (if l = MAX_LIT then do {
        o2 \<leftarrow> stop_run out_len o1 l;
        Some (st\<lparr>lz_ip := lz_ip st + 1, lz_out := o2 @ [u], lz_lit := 0\<rparr>)}
      else Some (st\<lparr>lz_ip := lz_ip st + 1, lz_out := o1, lz_lit := l\<rparr>))}"

definition lzf_iter :: "byte \<Rightarrow> bytes \<Rightarrow> nat \<Rightarrow> lzf_state \<Rightarrow> lzf_step option" where
  "lzf_iter u inp out_len st = do {
     v \<leftarrow> NEXT_h (lz_hval st) inp (lz_ip st);
     let ref = unat (lz_htab st (IDX v));
     let st1 = st\<lparr>lz_hval := v, lz_htab := (lz_htab st)(IDX v := of_nat (lz_ip st))\<rparr>;
     let off = (int (lz_ip st) - int ref - 1) mod 2 ^ 64;
     found \<leftarrow> (if off < int MAX_OFF \<and> ref > 0 then match_found inp ref (lz_ip st) else Some False);
     (if found then lzf_match u inp out_len st1 ref (nat off)
      else if length (lz_out st1) \<ge> out_len then Some Return0
      else map_option Continue (lzf_literal u inp out_len st1))}"

partial_function (option) lzf_loop :: "byte \<Rightarrow> bytes \<Rightarrow> nat \<Rightarrow> lzf_state \<Rightarrow> lzf_state option option" where
  "lzf_loop u inp out_len st =
     (if int (lz_ip st) < int (length inp) - 2 then do {
        r \<leftarrow> lzf_iter u inp out_len st;
        (case r of Return0 \<Rightarrow> Some None
         | Break st' \<Rightarrow> Some (Some st')
         | Continue st' \<Rightarrow> lzf_loop u inp out_len st')}
      else Some (Some st))"

partial_function (option) lzf_last :: "byte \<Rightarrow> bytes \<Rightarrow> nat \<Rightarrow> lzf_state \<Rightarrow> lzf_state option" where
  "lzf_last u inp out_len st =
     (if lz_ip st < length inp then do {
        st' \<leftarrow> lzf_literal u inp out_len st;
        lzf_last u inp out_len st'}
      else Some st)"

declare lzf_loop.simps [code] lzf_last.simps [code]

text \<open>The result \<open>Some None\<close> is the return value 0; else the bytes of the output up to the returned length.\<close>

definition lzf_compress :: "byte \<Rightarrow> (nat \<Rightarrow> u32) \<Rightarrow> bytes \<Rightarrow> nat \<Rightarrow> bytes option option" where
  "lzf_compress u h inp out_len =
     (if inp = [] \<or> out_len = 0 then Some None
      else do {
        v \<leftarrow> FRST inp 0;
        r \<leftarrow> lzf_loop u inp out_len \<lparr>lz_ip = 0, lz_hval = v, lz_htab = h, lz_out = [u], lz_lit = 0\<rparr>;
        (case r of None \<Rightarrow> Some None
         | Some st \<Rightarrow>
           if length (lz_out st) + 3 > out_len then Some None
           else do {
             st' \<leftarrow> lzf_last u inp out_len st;
             o1 \<leftarrow> stop_run out_len (lz_out st') (lz_lit st');
             Some (Some (undo_run o1 (lz_lit st')))})})"

section \<open>The decompressor stays within its buffers\<close>

text \<open>The copy without its bounds.\<close>

fun octets :: "nat \<Rightarrow> nat \<Rightarrow> bytes \<Rightarrow> bytes" where
  "octets 0 ref out = out"
| "octets (Suc n) ref out = octets n (Suc ref) (out @ [out ! ref])"

lemma octets_length [simp]: "length (octets n ref out) = length out + n"
  by (induction n arbitrary: ref out) auto

lemma octets_disjoint: "ref + n \<le> length out \<Longrightarrow> octets n ref out = out @ take n (drop ref out)"
proof (induction n arbitrary: ref out)
  case (Suc n)
  have "take (Suc n) (drop ref out) = out ! ref # take n (drop (Suc ref) out)"
    using Suc.prems by (simp add: Cons_nth_drop_Suc [symmetric])
  then show ?case using Suc.IH [of "Suc ref" "out @ [out ! ref]"] Suc.prems by simp
qed simp

lemma copy_octets_ok:
  "ref < length out \<Longrightarrow> length out + n \<le> out_len \<Longrightarrow> copy_octets out_len n (int ref) out = Some (octets n ref out)"
proof (induction n arbitrary: ref out)
  case (Suc n)
  have "int ref + 1 = int (Suc ref)" by simp
  then show ?case using Suc.IH [of "Suc ref" "out @ [out ! ref]"] Suc.prems
    by (simp add: out_byte_def push_def add.commute)
qed simp

lemma lzf_copy_ok:
  assumes "ref < length out" and "length out + len + 2 \<le> out_len"
  shows "lzf_copy out_len len (int ref) out = Some (octets (len + 2) ref out)"
  using assms copy_octets_ok [of ref out "len + 2" out_len] octets_disjoint [of ref "len + 2" out]
  by (auto simp: lzf_copy_def copy_block_def)

lemma copy_literal_ok:
  "k \<le> length ip \<Longrightarrow> length out + k \<le> n \<Longrightarrow> copy_literal n k ip out = Some (drop k ip, out @ take k ip)"
proof (induction k arbitrary: ip out)
  case (Suc k)
  then show ?case by (cases ip) (simp_all add: push_def)
qed simp

lemma lzf_backref_safe:
  "\<exists>r. lzf_backref n c len lo rest out = Some r \<and> (\<forall>ip' out'. r = Inr (ip', out') \<longrightarrow> length out' \<le> n)"
proof -
  define ref where "ref = int (length out) - int (push_bit 8 (c AND 0x1f)) - 1 - int (unat lo)"
  have lt: "ref < int (length out)" unfolding ref_def by linarith
  have "lzf_copy n len ref out = Some (octets (len + 2) (nat ref) out)" if "0 \<le> ref" "length out + len + 2 \<le> n"
    using lzf_copy_ok [of "nat ref" out len n] lt that by simp
  then have "lzf_backref n c len lo rest out = Some (if length out + len + 2 > n then Inl E2BIG else if ref < 0 then Inl EINVAL
      else Inr (rest, octets (len + 2) (nat ref) out))"
    unfolding lzf_backref_def Let_def ref_def [symmetric] by (simp del: octets.simps)
  then show ?thesis by (auto simp del: octets.simps split: if_splits)
qed

lemma lzf_token_safe:
  assumes "ip \<noteq> []"
  shows "\<exists>r. lzf_token n ip out = Some r \<and> (\<forall>ip' out'. r = Inr (ip', out') \<longrightarrow> length out' \<le> n)"
proof -
  obtain c ip1 where ip: "ip = c # ip1" using assms by (cases ip) auto
  show ?thesis
  proof (cases "unat c < 32")
    case True
    then show ?thesis using copy_literal_ok [of "unat c + 1" ip1 out n] by (auto simp: ip lzf_token_def Let_def)
  next
    case False
    then show ?thesis
      using lzf_backref_safe [of n "unat c" _ _ _ out]
      by (cases ip1; cases "tl ip1") (auto simp: ip lzf_token_def Let_def)
  qed
qed

lemma lzf_decompress_loop_safe:
  "ip \<noteq> [] \<Longrightarrow> \<exists>r. lzf_decompress_loop n ip out = Some r \<and> (\<forall>out'. r = Inr out' \<longrightarrow> length out' \<le> n)"
proof (induction n ip out rule: lzf_decompress_loop.induct)
  case (1 n ip out)
  obtain r where r: "lzf_token n ip out = Some r" "\<forall>ip' out'. r = Inr (ip', out') \<longrightarrow> length out' \<le> n"
    using lzf_token_safe [OF 1(2)] by blast
  show ?case
  proof (cases r)
    case (Inl e)
    then show ?thesis using r by (simp add: lzf_decompress_loop.simps [of n ip])
  next
    case (Inr x)
    obtain ip' out' where x: "x = (ip', out')" by (cases x)
    show ?thesis
      using 1(1) [OF r(1) Inr x [symmetric]] r Inr x
      by (cases "ip' = []") (simp_all add: lzf_decompress_loop.simps [of n ip])
  qed
qed


section \<open>The tokens of the format\<close>

text \<open>The loop of the decompressor between two tokens.\<close>

definition dec_from :: "nat \<Rightarrow> bytes \<Rightarrow> bytes \<Rightarrow> (lzf_errno + bytes) option" where
  "dec_from cap ip out = (if ip = [] then Some (Inr out) else lzf_decompress_loop cap ip out)"

lemma dec_from_token:
  assumes "lzf_token cap ip out = Some (Inr (ip', out'))"
  shows "dec_from cap ip out = dec_from cap ip' out'"
proof -
  have "ip \<noteq> []" using assms by (auto simp: lzf_token_def)
  then show ?thesis using assms by (simp add: dec_from_def lzf_decompress_loop.simps [of cap ip])
qed

definition decodes :: "bytes \<Rightarrow> bytes \<Rightarrow> bool" where
  "decodes P D \<longleftrightarrow> (\<forall>cap rest. length D \<le> cap \<longrightarrow> dec_from cap (P @ rest) [] = dec_from cap rest D)"

lemma decodes_Nil: "decodes [] []"
  by (simp add: decodes_def)

lemma decodes_snoc:
  assumes "decodes P D" and "length D \<le> length D'"
    and "\<And>cap rest. length D' \<le> cap \<Longrightarrow> lzf_token cap (T @ rest) D = Some (Inr (rest, D'))"
  shows "decodes (P @ T) D'"
  unfolding decodes_def
proof (intro allI impI)
  fix cap rest assume cap: "length D' \<le> cap"
  then have "dec_from cap (P @ (T @ rest)) [] = dec_from cap (T @ rest) D"
    using assms(1,2) unfolding decodes_def by (metis le_trans)
  also have "\<dots> = dec_from cap rest D'" by (rule dec_from_token [OF assms(3) [OF cap]])
  finally show "dec_from cap ((P @ T) @ rest) [] = dec_from cap rest D'" by simp
qed

lemma unat_small_byte: "n < 256 \<Longrightarrow> unat (of_nat n :: byte) = n"
  by (simp add: unat_of_nat take_bit_eq_mod)

lemma token_literal:
  assumes "1 \<le> l" "l \<le> 32" "length data = l" "length D + l \<le> cap"
  shows "lzf_token cap ((of_int (int l - 1) # data) @ rest) D = Some (Inr (rest, D @ data))"
proof -
  have "(of_int (int l - 1) :: byte) = of_nat (l - 1)" using assms(1) by (simp add: of_nat_diff)
  then have "unat (of_int (int l - 1) :: byte) = l - 1" using assms(2) unat_small_byte [of "l - 1"] by simp
  moreover have "l - 1 < 32" using assms by simp
  moreover have "copy_literal cap l (data @ rest) D = Some (rest, D @ data)"
    using copy_literal_ok [of l "data @ rest" D cap] assms by simp
  ultimately show ?thesis using assms by (simp add: lzf_token_def Let_def)
qed

definition backref_bytes :: "nat \<Rightarrow> nat \<Rightarrow> bytes" where
  "backref_bytes off len =
     (if len < 7 then [of_nat (off div 256 + len * 32), of_nat off]
      else [of_nat (off div 256 + 224), of_nat (len - 7), of_nat off])"

lemma emit_backref_bytes:
  assumes "length ob + 3 \<le> cap"
  shows "emit_backref cap ob off len = Some (ob @ backref_bytes off len)"
  using assms by (simp add: emit_backref_def push_def backref_bytes_def drop_bit_eq_div push_bit_eq_mult)

lemma and31: "(n::nat) AND 31 = n mod 32"
  using take_bit_eq_mask [of 5 n] by (simp add: take_bit_eq_mod mask_eq_exp_minus_1)

lemma backref_step:
  assumes "off < MAX_OFF" and "off < length D" and "length D + len + 2 \<le> cap" and "ctrl mod 32 = off div 256"
  shows "lzf_backref cap ctrl len (of_nat off) rest D = Some (Inr (rest, octets (len + 2) (length D - off - 1) D))"
proof -
  have "unat (of_nat off :: byte) = off mod 256" by (simp add: unat_of_nat take_bit_eq_mod)
  then have "push_bit 8 (ctrl AND 0x1f) + unat (of_nat off :: byte) = off"
    using assms(4) by (simp add: and31 push_bit_eq_mult)
  then have "int (push_bit 8 (ctrl AND 0x1f)) + int (unat (of_nat off :: byte)) = int off"
    by (metis of_nat_add)
  then have "int (length D) - int (push_bit 8 (ctrl AND 0x1f)) - 1 - int (unat (of_nat off :: byte))
      = int (length D - off - 1)" using assms(2) by simp
  moreover have "lzf_copy cap len (int (length D - off - 1)) D = Some (octets (len + 2) (length D - off - 1) D)"
    using assms(2,3) by (intro lzf_copy_ok) simp_all
  ultimately show ?thesis using assms(3) by (simp add: lzf_backref_def Let_def)
qed

lemma token_backref_short:
  assumes "32 \<le> unat c" and "unat c div 32 \<noteq> 7"
  shows "lzf_token cap (c # lo # rest) D = lzf_backref cap (unat c) (unat c div 32) lo rest D"
  using assms by (simp add: lzf_token_def Let_def drop_bit_eq_div)

lemma token_backref_long:
  assumes "unat c div 32 = 7"
  shows "lzf_token cap (c # b # lo # rest) D = lzf_backref cap (unat c) (7 + unat b) lo rest D"
proof -
  have "\<not> unat c < 32" using assms by (auto simp: div_less)
  then show ?thesis using assms by (simp add: lzf_token_def Let_def drop_bit_eq_div)
qed

lemma token_backref:
  assumes "off < MAX_OFF" "off < length D" "1 \<le> len" "len \<le> 262" "length D + len + 2 \<le> cap"
  shows "lzf_token cap (backref_bytes off len @ rest) D = Some (Inr (rest, octets (len + 2) (length D - off - 1) D))"
proof -
  have o32: "off div 256 < 32" using assms(1) by (simp add: MAX_OFF_def)
  show ?thesis
  proof (cases "len < 7")
    case True
    define c :: byte where "c = of_nat (off div 256 + len * 32)"
    have c: "unat c = off div 256 + len * 32" unfolding c_def using o32 True by (intro unat_small_byte) simp
    have "unat c mod 32 = off div 256" "unat c div 32 = len" "32 \<le> unat c" unfolding c using o32 assms(3) by auto
    then show ?thesis
      using True token_backref_short [of c cap "of_nat off" rest D] backref_step [OF assms(1,2,5), of "unat c" rest]
      unfolding backref_bytes_def c_def [symmetric] by simp
  next
    case False
    define c :: byte where "c = of_nat (off div 256 + 224)"
    have c: "unat c = off div 256 + 7 * 32" unfolding c_def using o32 unat_small_byte [of "off div 256 + 224"] by simp
    have l: "unat (of_nat (len - 7) :: byte) = len - 7" using assms(4) by (intro unat_small_byte) simp
    have "unat c mod 32 = off div 256" "unat c div 32 = 7" unfolding c
      using o32 mod_mult_self1 [of "off div 256" 7 32] div_mult_self1 [of 32 "off div 256" 7] by simp_all
    then show ?thesis
      using False token_backref_long [of c cap "of_nat (len - 7)" "of_nat off" rest D] l
        backref_step [OF assms(1,2,5), of "unat c" rest]
      unfolding backref_bytes_def c_def [symmetric] by simp
  qed
qed

text \<open>An octet-wise copy from a place where the data repeats continues the data.\<close>

lemma octets_match:
  assumes "ref < p" and "p + n \<le> length D" and "\<forall>j < n. D ! (ref + j) = D ! (p + j)"
  shows "octets n ref (take p D) = take (p + n) D"
  using assms
proof (induction n arbitrary: ref p)
  case (Suc n)
  have "take p D @ [take p D ! ref] = take (Suc p) D"
    using Suc.prems(1,2) Suc.prems(3) [rule_format, of 0] by (simp add: take_Suc_conv_app_nth)
  moreover have "\<forall>j < n. D ! (Suc ref + j) = D ! (Suc p + j)"
    using Suc.prems(3) by (metis Suc_less_eq add_Suc add_Suc_right)
  ultimately show ?case using Suc.IH [of "Suc ref" "Suc p"] Suc.prems(1,2) by simp
qed simp

section \<open>The compressor\<close>

lemma rd_in_Some [simp]: "i < length inp \<Longrightarrow> rd_in inp i = Some (inp ! i)"
  by (simp add: rd_in_def)

definition agree :: "bytes \<Rightarrow> nat \<Rightarrow> nat \<Rightarrow> nat \<Rightarrow> bool" where
  "agree inp ref p n \<longleftrightarrow> (\<forall>j < n. inp ! (ref + j) = inp ! (p + j))"

lemma agree_Suc: "agree inp ref p (Suc n) \<longleftrightarrow> agree inp ref p n \<and> inp ! (ref + n) = inp ! (p + n)"
  by (auto simp: agree_def less_Suc_eq)

lemma match_tail_correct:
  assumes "ref < p" and "p + maxlen \<le> length inp" and "agree inp ref p (len + 1)"
  shows "\<exists>L. match_tail inp ref p maxlen len = Some L \<and> len < L \<and> L \<le> max maxlen (len + 1) \<and> agree inp ref p L"
  using assms
proof (induction "maxlen - len" arbitrary: len rule: less_induct)
  case less
  show ?case
  proof (cases "len + 1 < maxlen \<and> inp ! (ref + (len + 1)) = inp ! (p + (len + 1))")
    case True
    then have "agree inp ref p (len + 1 + 1)" using less.prems(3) by (simp add: agree_Suc)
    moreover have "maxlen - (len + 1) < maxlen - len" using True [THEN conjunct1] by linarith
    ultimately obtain L where "match_tail inp ref p maxlen (len + 1) = Some L" "len + 1 < L"
        "L \<le> max maxlen (len + 1 + 1)" "agree inp ref p L"
      using less.hyps [OF _ less.prems(1,2), of "len + 1"] by blast
    then show ?thesis using True less.prems(1,2) by (subst match_tail.simps) auto
  next
    case False
    then have "match_tail inp ref p maxlen len = Some (len + 1)"
      using less.prems(1,2) by (subst match_tail.simps) auto
    then show ?thesis using less.prems(3) by simp
  qed
qed

lemma match_unrolled_correct:
  assumes "ref < p" and "p + len + n < length inp" and "agree inp ref p (len + 1)"
  shows "\<exists>L broke. match_unrolled inp ref p n len = Some (L, broke) \<and> len \<le> L \<and> L \<le> len + n
    \<and> (if broke then len < L \<and> agree inp ref p L else L = len + n \<and> agree inp ref p (L + 1))"
  using assms
proof (induction n arbitrary: len)
  case (Suc n)
  show ?case
  proof (cases "inp ! (ref + (len + 1)) = inp ! (p + (len + 1))")
    case True
    then have "agree inp ref p (len + 1 + 1)" using Suc.prems(3) by (simp add: agree_Suc)
    then obtain L broke where "match_unrolled inp ref p n (len + 1) = Some (L, broke)" "len + 1 \<le> L" "L \<le> len + 1 + n"
        "if broke then len + 1 < L \<and> agree inp ref p L else L = len + 1 + n \<and> agree inp ref p (L + 1)"
      using Suc.IH [of "len + 1"] Suc.prems(1,2) by auto
    then show ?thesis using True Suc.prems(1,2) by (auto split: if_splits)
  next
    case False
    then show ?thesis using Suc.prems by auto
  qed
qed (auto intro: exI [of _ False])

lemma match_len_correct:
  assumes "ref < p" and "p + 3 \<le> length inp" and "agree inp ref p 3"
    and m: "maxlen = (if length inp - p - 2 > MAX_REF then MAX_REF else length inp - p - 2)"
  shows "\<exists>L. match_len inp ref p maxlen = Some L \<and> 3 \<le> L \<and> L \<le> 264 \<and> p + L \<le> length inp \<and> agree inp ref p L"
proof -
  have mx: "maxlen \<le> 264" "p + maxlen + 2 \<le> length inp" "1 \<le> maxlen" using m assms(2) by (auto simp: MAX_REF_def)
  have ml: "p + maxlen \<le> length inp" using mx by simp
  show ?thesis
  proof (cases "maxlen > 16")
    case True
    obtain L broke where L: "match_unrolled inp ref p 16 2 = Some (L, broke)" "2 \<le> L" "L \<le> 2 + 16"
        "if broke then 2 < L \<and> agree inp ref p L else L = 2 + 16 \<and> agree inp ref p (L + 1)"
      using match_unrolled_correct [of ref p 2 16 inp] assms(1,3) mx True by auto
    show ?thesis
    proof (cases broke)
      case b: True
      then show ?thesis using L mx True by (auto simp: match_len_def)
    next
      case b: False
      then obtain L' where "match_tail inp ref p maxlen L = Some L'" "L < L'" "L' \<le> max maxlen (L + 1)" "agree inp ref p L'"
        using match_tail_correct [OF assms(1) ml, of L] L(4) by auto
      then show ?thesis using L mx True b by (auto simp: match_len_def)
    qed
  next
    case False
    then obtain L' where "match_tail inp ref p maxlen 2 = Some L'" "2 < L'" "L' \<le> max maxlen (2 + 1)" "agree inp ref p L'"
      using match_tail_correct [OF assms(1) ml, of 2] assms(3) by auto
    then show ?thesis using mx False assms(2) by (auto simp: match_len_def)
  qed
qed

text \<open>
  The invariant of the loops: before the pending run stands a sequence of complete tokens that
  decodes to the input before the run; the run holds the bytes of the input since then.
\<close>

definition lzf_inv :: "bytes \<Rightarrow> nat \<Rightarrow> lzf_state \<Rightarrow> bool" where
  "lzf_inv inp out_len st \<longleftrightarrow>
     lz_ip st \<le> length inp \<and> lz_lit st < 32 \<and> lz_lit st \<le> lz_ip st
     \<and> length (lz_out st) \<le> out_len + 1 \<and> (lz_lit st \<noteq> 0 \<longrightarrow> length (lz_out st) \<le> out_len)
     \<and> (\<exists>P b. lz_out st = P @ b # drop (lz_ip st - lz_lit st) (take (lz_ip st) inp)
          \<and> decodes P (take (lz_ip st - lz_lit st) inp))"

lemma decodes_literal:
  assumes "decodes P (take i inp)" and "1 \<le> l" "l \<le> 32" "i + l \<le> length inp"
  shows "decodes (P @ of_int (int l - 1) # drop i (take (i + l) inp)) (take (i + l) inp)"
proof (rule decodes_snoc [OF assms(1)])
  have eq: "take i inp @ drop i (take (i + l) inp) = take (i + l) inp"
    by (metis append_take_drop_id le_add1 min.absorb1 take_take)
  fix cap rest assume "length (take (i + l) inp) \<le> cap"
  then show "lzf_token cap ((of_int (int l - 1) # drop i (take (i + l) inp)) @ rest) (take i inp)
      = Some (Inr (rest, take (i + l) inp))"
    using token_literal [of l "drop i (take (i + l) inp)" "take i inp" cap rest] assms(2-) eq by simp
qed simp

lemma stop_run_pending:
  assumes "lz_out st = P @ b # run" and "length run = lz_lit st" and "length P < out_len"
  shows "stop_run out_len (lz_out st) (lz_lit st) = Some (P @ of_int (int (lz_lit st) - 1) # run)"
  using assms by (simp add: stop_run_def put_def list_update_append)

lemma run_length: "lz_ip st \<le> length inp \<Longrightarrow> lz_lit st \<le> lz_ip st \<Longrightarrow>
    length (drop (lz_ip st - lz_lit st) (take (lz_ip st) inp)) = lz_lit st"
  by simp

lemma close_run:
  assumes inv: "lzf_inv inp out_len st" and room: "length (lz_out st) \<le> out_len"
  shows "\<exists>Q. (do { o1 \<leftarrow> stop_run out_len (lz_out st) (lz_lit st); Some (undo_run o1 (lz_lit st)) }) = Some Q
    \<and> decodes Q (take (lz_ip st) inp) \<and> length Q = (if lz_lit st = 0 then length (lz_out st) - 1 else length (lz_out st))"
proof -
  let ?i = "lz_ip st - lz_lit st"
  obtain P b where P: "lz_out st = P @ b # drop ?i (take (lz_ip st) inp)" "decodes P (take ?i inp)"
    and b: "lz_ip st \<le> length inp" "lz_lit st < 32" "lz_lit st \<le> lz_ip st"
    using inv by (auto simp: lzf_inv_def)
  have i: "?i + lz_lit st = lz_ip st" using b by simp
  have st: "stop_run out_len (lz_out st) (lz_lit st)
      = Some (P @ of_int (int (lz_lit st) - 1) # drop ?i (take (lz_ip st) inp))"
    using P(1) room b by (intro stop_run_pending) auto
  show ?thesis
  proof (cases "lz_lit st = 0")
    case True
    then show ?thesis using st P b by (simp add: undo_run_def)
  next
    case False
    then have "decodes (P @ of_int (int (lz_lit st) - 1) # drop ?i (take (lz_ip st) inp)) (take (lz_ip st) inp)"
      using decodes_literal [OF P(2), of "lz_lit st"] b unfolding i by simp
    then show ?thesis using False st P(1) by (simp add: undo_run_def)
  qed
qed

lemma lzf_literal_correct:
  assumes inv: "lzf_inv inp out_len st" and room: "length (lz_out st) < out_len" and more: "lz_ip st < length inp"
  shows "\<exists>st'. lzf_literal u inp out_len st = Some st' \<and> lzf_inv inp out_len st' \<and> lz_ip st' = Suc (lz_ip st)
    \<and> length (lz_out st') \<le> length (lz_out st) + (if lz_lit st = 31 then 2 else 1)
    \<and> lz_lit st' = (if lz_lit st = 31 then 0 else Suc (lz_lit st))"
proof -
  let ?p = "lz_ip st" and ?i = "lz_ip st - lz_lit st" and ?b = "inp ! lz_ip st"
  let ?st = "st\<lparr>lz_ip := Suc ?p, lz_out := lz_out st @ [?b], lz_lit := Suc (lz_lit st)\<rparr>"
  obtain P b where P: "lz_out st = P @ b # drop ?i (take ?p inp)" "decodes P (take ?i inp)"
    and b: "lz_lit st < 32" "lz_lit st \<le> ?p"
    using inv by (auto simp: lzf_inv_def)
  have i: "Suc ?p - Suc (lz_lit st) = ?i" "?i \<le> ?p" by simp_all
  have run: "drop ?i (take ?p inp) @ [?b] = drop ?i (take (Suc ?p) inp)"
    using more by (simp add: take_Suc_conv_app_nth)
  have out: "lz_out st @ [?b] = P @ b # drop ?i (take (Suc ?p) inp)" using P(1) run by simp
  show ?thesis
  proof (cases "lz_lit st = 31")
    case False
    then have "lzf_literal u inp out_len st = Some ?st"
      using more room by (simp add: lzf_literal_def push_def MAX_LIT_def)
    moreover have "length (lz_out st) = Suc (length P + lz_lit st)" using P(1) b more by simp
    then have "lzf_inv inp out_len ?st"
      using False b more room P(2) out by (auto simp: lzf_inv_def)
    ultimately show ?thesis using False by simp
  next
    case True
    define Q where Q: "Q = P @ of_int (int 32 - 1) # drop ?i (take (Suc ?p) inp)"
    have len: "length (drop ?i (take (Suc ?p) inp)) = 32" using True b more by simp
    have "stop_run out_len (lz_out st @ [?b]) 32 = Some Q"
      using room P(1) len unfolding out Q by (simp add: stop_run_def put_def list_update_append)
    then have lit: "lzf_literal u inp out_len st = Some (st\<lparr>lz_ip := Suc ?p, lz_out := Q @ [u], lz_lit := 0\<rparr>)"
      using more room True by (simp add: lzf_literal_def push_def MAX_LIT_def)
    have "decodes Q (take (Suc ?p) inp)"
    proof -
      have eq: "?i + 32 = Suc ?p" using True b by simp
      have "decodes (P @ of_int (int 32 - 1) # drop ?i (take (?i + 32) inp)) (take (?i + 32) inp)"
        by (rule decodes_literal [OF P(2)]) (use eq more in auto)
      then show ?thesis unfolding eq Q .
    qed
    moreover have "length Q = Suc (length (lz_out st))" 
    proof -
      have "length (drop ?i (take ?p inp)) = 31" using True b more by simp
      then show ?thesis unfolding P(1) Q using len by (simp only: length_append list.size)
    qed
    ultimately have "lzf_inv inp out_len (st\<lparr>lz_ip := Suc ?p, lz_out := Q @ [u], lz_lit := 0\<rparr>)"
      using more room by (simp add: lzf_inv_def)
    then show ?thesis using lit True \<open>length Q = _\<close> by simp
  qed
qed

lemma lzf_off:
  fixes p r :: nat
  assumes "nat ((int p - int r - 1) mod 2 ^ 64) < MAX_OFF" and "p < 2 ^ 32" and h: "r < 2 ^ 32"
  shows "r < p \<and> nat ((int p - int r - 1) mod 2 ^ 64) = p - r - 1"
proof -
  have "r < p"
  proof (rule ccontr)
    assume "\<not> r < p"
    then have "(int p - int r - 1 + 2 ^ 64) mod 2 ^ 64 = int p - int r - 1 + 2 ^ 64"
      using h by (intro mod_pos_pos_trivial) auto
    then have "(int p - int r - 1) mod 2 ^ 64 = int p - int r - 1 + 2 ^ 64"
      by (simp only: mod_add_self2)
    then show False using assms(1) h by (simp add: MAX_OFF_def)
  qed
  moreover from this have "(int p - int r - 1) mod 2 ^ 64 = int p - int r - 1"
    using assms(2) by (intro mod_pos_pos_trivial) auto
  ultimately show ?thesis by auto
qed

lemma u32_less: "unat (h :: u32) < 2 ^ 32"
proof -
  have "unat h < 2 ^ LENGTH(32)" by (rule unsigned_less)
  then show ?thesis by simp
qed

lemma match_found_correct:
  assumes "ref < p" and "p + 3 \<le> length inp"
  shows "match_found inp ref p = Some (agree inp ref p 3)"
proof -
  have "agree inp ref p 3 \<longleftrightarrow> inp ! ref = inp ! p \<and> inp ! (ref + 1) = inp ! (p + 1) \<and> inp ! (ref + 2) = inp ! (p + 2)"
    by (simp add: numeral_3_eq_3 agree_Suc) (simp add: agree_def)
  then show ?thesis using assms by (auto simp: match_found_def)
qed

definition step_ok :: "bytes \<Rightarrow> nat \<Rightarrow> lzf_state \<Rightarrow> lzf_step \<Rightarrow> bool" where
  "step_ok inp out_len st r \<longleftrightarrow>
     (case r of Return0 \<Rightarrow> True
      | Break st' \<Rightarrow> lzf_inv inp out_len st' \<and> length inp \<le> lz_ip st' + 2
      | Continue st' \<Rightarrow> lzf_inv inp out_len st' \<and> lz_ip st < lz_ip st')"

lemma lzf_match_correct:
  assumes inv: "lzf_inv inp out_len st" and ref: "ref < lz_ip st" and off: "off = lz_ip st - ref - 1" "off < MAX_OFF"
    and more: "lz_ip st + 3 \<le> length inp" and ag: "agree inp ref (lz_ip st) 3"
  shows "\<exists>r. lzf_match u inp out_len st ref off = Some r \<and> step_ok inp out_len st r"
proof (cases "length (lz_out st) + 3 + 1 \<ge> out_len
    \<and> int (length (lz_out st)) - (if lz_lit st = 0 then 1 else 0) + 3 + 1 \<ge> int out_len")
  case True
  then show ?thesis by (simp add: lzf_match_def Let_def step_ok_def)
next
  case False
  let ?p = "lz_ip st"
  have room: "length (lz_out st) \<le> out_len" using False by (auto split: if_splits)
  obtain o1 where o1: "stop_run out_len (lz_out st) (lz_lit st) = Some o1"
      "decodes (undo_run o1 (lz_lit st)) (take ?p inp)"
      "length (undo_run o1 (lz_lit st)) = (if lz_lit st = 0 then length (lz_out st) - 1 else length (lz_out st))"
    using close_run [OF inv room] by (auto split: bind_splits)
  obtain L where L: "match_len inp ref ?p (if length inp - ?p - 2 > MAX_REF then MAX_REF else length inp - ?p - 2) = Some L"
      "3 \<le> L" "L \<le> 264" "?p + L \<le> length inp" "agree inp ref ?p L"
    using match_len_correct [OF ref more ag refl] by blast
  let ?Q = "undo_run o1 (lz_lit st)"
  have pos: "length (lz_out st) \<ge> 1" using inv by (auto simp: lzf_inv_def)
  have Q: "length ?Q + 4 < out_len" using False o1(3) pos by (auto split: if_splits)
  let ?o = "?Q @ backref_bytes off (L - 2)"
  have em: "emit_backref out_len ?Q off (L - 2) = Some ?o" using Q by (intro emit_backref_bytes) simp
  have dec: "decodes ?o (take (?p + L) inp)"
  proof (rule decodes_snoc [OF o1(2)])
    fix cap rest assume cap: "length (take (?p + L) inp) \<le> cap"
    have L2: "L - 2 + 2 = L" using L(2) by simp
    have "octets L ref (take ?p inp) = take (?p + L) inp"
      using L ref by (intro octets_match) (auto simp: agree_def)
    moreover have "length (take ?p inp) - off - 1 = ref" using off(1) ref more by simp
    ultimately show "lzf_token cap (backref_bytes off (L - 2) @ rest) (take ?p inp) = Some (Inr (rest, take (?p + L) inp))"
      using token_backref [OF off(2), of "take ?p inp" "L - 2" cap rest] L cap off(1) ref more L2
      by (simp del: octets.simps)
  qed simp
  have "length (backref_bytes off (L - 2)) \<le> 3" by (simp add: backref_bytes_def)
  then have inv': "lzf_inv inp out_len (st'\<lparr>lz_ip := ?p + L, lz_out := ?o @ [u], lz_lit := 0\<rparr>)" for st'
    using Q L dec by (simp add: lzf_inv_def)
  have p': "?p + 1 + (L - 2) + 1 = ?p + L" using L(2) by simp
  have unf: "lzf_match u inp out_len st ref off =
      (if int (?p + L) \<ge> int (length inp) - 2
       then Some (Break (st\<lparr>lz_ip := ?p + L, lz_out := ?o @ [u], lz_lit := 0\<rparr>))
       else do {
         (v, h) \<leftarrow> rehash_two inp (?p + L - 2) (lz_htab st);
         Some (Continue (st\<lparr>lz_ip := ?p + L, lz_hval := v, lz_htab := h, lz_out := ?o @ [u], lz_lit := 0\<rparr>))})"
    by (simp only: lzf_match_def Let_def if_not_P [OF False] o1(1) Option.bind.simps L(1) em p')
  show ?thesis
  proof (cases "int (?p + L) \<ge> int (length inp) - 2")
    case True
    then show ?thesis using inv' [of st] unfolding unf by (auto simp: step_ok_def)
  next
    case fin: False
    then obtain v h where "rehash_two inp (?p + L - 2) (lz_htab st) = Some (v, h)"
      using L(2) by (auto simp: rehash_two_def FRST_def NEXT_h_def)
    then have "lzf_match u inp out_len st ref off
        = Some (Continue (st\<lparr>lz_hval := v, lz_htab := h, lz_ip := ?p + L, lz_out := ?o @ [u], lz_lit := 0\<rparr>))"
      using fin unfolding unf by simp
    then show ?thesis using inv' [of "st\<lparr>lz_hval := v, lz_htab := h\<rparr>"] L(2) by (simp add: step_ok_def)
  qed
qed

lemma lzf_iter_correct:
  assumes inv: "lzf_inv inp out_len st" and more: "int (lz_ip st) < int (length inp) - 2" and len: "length inp < 2 ^ 32"
  shows "\<exists>r. lzf_iter u inp out_len st = Some r \<and> step_ok inp out_len st r"
proof -
  let ?p = "lz_ip st"
  obtain v where v: "NEXT_h (lz_hval st) inp ?p = Some v" using more by (auto simp: NEXT_h_def)
  let ?ref = "unat (lz_htab st (IDX v))" and ?st = "st\<lparr>lz_hval := v, lz_htab := (lz_htab st)(IDX v := of_nat ?p)\<rparr>"
  let ?off = "(int ?p - int ?ref - 1) mod 2 ^ 64"
  have inv1: "lzf_inv inp out_len ?st" using inv by (simp add: lzf_inv_def)
  have off: "?ref < ?p \<and> nat ?off = ?p - ?ref - 1 \<and> nat ?off < MAX_OFF" if "?off < int MAX_OFF"
  proof -
    have "nat ?off < MAX_OFF" using that by (simp add: nat_less_iff MAX_OFF_def)
    then show ?thesis using lzf_off [OF _ _ u32_less, of ?p] more len by auto
  qed
  show ?thesis
  proof (cases "?off < int MAX_OFF \<and> ?ref > 0 \<and> agree inp ?ref ?p 3")
    case True
    then have "lzf_iter u inp out_len st = lzf_match u inp out_len ?st ?ref (nat ?off)"
      using v off match_found_correct [of ?ref ?p inp] more by (simp add: lzf_iter_def Let_def)
    moreover have "\<exists>r. lzf_match u inp out_len ?st ?ref (nat ?off) = Some r \<and> step_ok inp out_len ?st r"
      using True off more by (intro lzf_match_correct [OF inv1]) auto
    ultimately show ?thesis by (auto simp: step_ok_def split: lzf_step.splits)
  next
    case False
    then have it: "lzf_iter u inp out_len st =
        (if length (lz_out st) \<ge> out_len then Some Return0 else map_option Continue (lzf_literal u inp out_len ?st))"
      using v off match_found_correct [of ?ref ?p inp] more by (auto simp: lzf_iter_def Let_def)
    show ?thesis
    proof (cases "length (lz_out st) \<ge> out_len")
      case True
      then show ?thesis using it by (simp add: step_ok_def)
    next
      case room: False
      then obtain st' where "lzf_literal u inp out_len ?st = Some st'" "lzf_inv inp out_len st'" "lz_ip st' = Suc ?p"
        using lzf_literal_correct [OF inv1, of u] more by auto
      then show ?thesis using it room by (simp add: step_ok_def)
    qed
  qed
qed

lemma lzf_loop_correct:
  assumes "lzf_inv inp out_len st" and len: "length inp < 2 ^ 32"
  shows "\<exists>r. lzf_loop u inp out_len st = Some r
    \<and> (\<forall>st'. r = Some st' \<longrightarrow> lzf_inv inp out_len st' \<and> length inp \<le> lz_ip st' + 2)"
  using assms(1)
proof (induction "length inp - lz_ip st" arbitrary: st rule: less_induct)
  case less
  show ?case
  proof (cases "int (lz_ip st) < int (length inp) - 2")
    case False
    then show ?thesis using less.prems by (subst lzf_loop.simps) auto
  next
    case True
    obtain r where r: "lzf_iter u inp out_len st = Some r" "step_ok inp out_len st r"
      using lzf_iter_correct [OF less.prems True len] by blast
    show ?thesis
    proof (cases r)
      case (Continue st')
      then have "lzf_inv inp out_len st'" "length inp - lz_ip st' < length inp - lz_ip st"
        using r(2) True by (auto simp: step_ok_def)
      then show ?thesis using less.hyps [of st'] r Continue True by (subst lzf_loop.simps) simp
    qed (use r True in \<open>(subst lzf_loop.simps, simp add: step_ok_def)+\<close>)
  qed
qed

lemma lzf_last_done: "length inp \<le> lz_ip st \<Longrightarrow> lzf_last u inp out_len st = Some st"
  by (subst lzf_last.simps) simp

lemma lzf_last_correct:
  assumes inv: "lzf_inv inp out_len st" and rest: "length inp \<le> lz_ip st + 2" and room: "length (lz_out st) + 3 \<le> out_len"
  shows "\<exists>st'. lzf_last u inp out_len st = Some st' \<and> lzf_inv inp out_len st' \<and> lz_ip st' = length inp
    \<and> length (lz_out st') \<le> out_len"
proof -
  have le: "lz_ip st \<le> length inp" using inv by (simp add: lzf_inv_def)
  consider "lz_ip st = length inp" | "Suc (lz_ip st) = length inp" | "Suc (Suc (lz_ip st)) = length inp"
    using le rest by linarith
  then show ?thesis
  proof cases
    case 1
    then show ?thesis using lzf_last_done [of inp st] inv room by auto
  next
    case 2
    then obtain s1 where s1: "lzf_literal u inp out_len st = Some s1" "lzf_inv inp out_len s1" "lz_ip s1 = Suc (lz_ip st)"
        "length (lz_out s1) \<le> length (lz_out st) + 2"
      using lzf_literal_correct [OF inv, of u] room by (auto split: if_splits)
    then show ?thesis using 2 lzf_last_done [of inp s1] room by (subst lzf_last.simps) auto
  next
    case 3
    then obtain s1 where s1: "lzf_literal u inp out_len st = Some s1" "lzf_inv inp out_len s1" "lz_ip s1 = Suc (lz_ip st)"
        "length (lz_out s1) \<le> length (lz_out st) + (if lz_lit st = 31 then 2 else 1)"
        "lz_lit s1 = (if lz_lit st = 31 then 0 else Suc (lz_lit st))"
      using lzf_literal_correct [OF inv, of u] room by auto
    obtain s2 where s2: "lzf_literal u inp out_len s1 = Some s2" "lzf_inv inp out_len s2" "lz_ip s2 = Suc (lz_ip s1)"
        "length (lz_out s2) \<le> length (lz_out s1) + (if lz_lit s1 = 31 then 2 else 1)"
      using lzf_literal_correct [OF s1(2), of u] room s1(3,4) 3 by (auto split: if_splits)
    have "length (lz_out s2) \<le> out_len" using s1(4,5) s2(4) room by (auto split: if_splits)
    then show ?thesis using 3 s1 s2 lzf_last_done [of inp s2]
      by (subst lzf_last.simps, simp) (subst lzf_last.simps, simp)
  qed
qed

lemma lzf_compress_correct:
  assumes "2 \<le> length inp" and len: "length inp < 2 ^ 32"
  shows "\<exists>r. lzf_compress u h inp out_len = Some r
    \<and> (\<forall>ob. r = Some ob \<longrightarrow> ob \<noteq> [] \<and> length ob \<le> out_len \<and> decodes ob inp)"
proof (cases "out_len = 0")
  case True
  then show ?thesis by (simp add: lzf_compress_def)
next
  case False
  obtain v where v: "FRST inp 0 = Some v" using assms(1) by (cases inp) (auto simp: FRST_def rd_in_def Suc_le_eq)
  let ?st = "\<lparr>lz_ip = 0, lz_hval = v, lz_htab = h, lz_out = [u], lz_lit = 0\<rparr>"
  have "lzf_inv inp out_len ?st" using False by (simp add: lzf_inv_def decodes_Nil)
  then obtain r where r: "lzf_loop u inp out_len ?st = Some r"
      "\<And>st'. r = Some st' \<Longrightarrow> lzf_inv inp out_len st' \<and> length inp \<le> lz_ip st' + 2"
    using lzf_loop_correct [OF _ len] by blast
  have ne: "inp \<noteq> []" using assms(1) by auto
  show ?thesis
  proof (cases r)
    case None
    then show ?thesis using r v ne False by (simp add: lzf_compress_def)
  next
    case (Some st)
    show ?thesis
    proof (cases "length (lz_out st) + 3 > out_len")
      case True
      then show ?thesis using r v ne False Some by (simp add: lzf_compress_def)
    next
      case room: False
      then obtain st' where st': "lzf_last u inp out_len st = Some st'" "lzf_inv inp out_len st'" "lz_ip st' = length inp"
          "length (lz_out st') \<le> out_len"
        using lzf_last_correct [of inp out_len st u] r(2) [OF Some] by auto
      obtain Q where Q: "(do { o1 \<leftarrow> stop_run out_len (lz_out st') (lz_lit st'); Some (undo_run o1 (lz_lit st')) }) = Some Q"
          "decodes Q inp" "length Q \<le> length (lz_out st')"
        using close_run [OF st'(2,4)] st'(3) by auto
      then obtain o1 where o1: "stop_run out_len (lz_out st') (lz_lit st') = Some o1" "undo_run o1 (lz_lit st') = Q"
        by (auto split: bind_splits)
      have "Q \<noteq> []" using Q(2) ne by (auto simp: decodes_def dec_from_def dest!: spec [of _ "length inp"] spec [of _ "[]"])
      then show ?thesis using r(1) v ne False Some room st' o1 Q by (simp add: lzf_compress_def)
    qed
  qed
qed

lemma decodes_decompress:
  assumes "decodes ob inp" and "ob \<noteq> []" and "length inp \<le> cap"
  shows "lzf_decompress ob cap = Some (Inr inp)"
proof -
  have "dec_from cap (ob @ []) [] = dec_from cap [] inp"
    using assms(1,3) unfolding decodes_def by blast
  then show ?thesis using assms(2) by (simp add: dec_from_def lzf_decompress_def)
qed


section \<open>Properties\<close>

text \<open>
  C5.  Compression is lossless and memory safe: on every input of two bytes or more, whatever the
  content of the uninitialised hash table and the size of the output buffer, \<open>lzf_compress\<close> ends
  without an access outside its buffers; if it does not give up, the compressed bytes fit in the
  buffer and \<open>lzf_decompress\<close>, given the length of the original as the size of its buffer, returns the
  original.
\<close>

theorem lzf_roundtrip:
  assumes "2 \<le> length inp" and "length inp < 2 ^ 32"
  shows "\<exists>r. lzf_compress u htab inp out_len = Some r
    \<and> (\<forall>c. r = Some c \<longrightarrow> length c \<le> out_len \<and> lzf_decompress c (length inp) = Some (Inr inp))"
  using lzf_compress_correct [OF assms, of u htab out_len] decodes_decompress by blast

theorem lzf_roundtrip_witness:
  "lzf_compress 0 (\<lambda>_. 0) [7, 9] 10 = Some (Some [1, 7, 9]) \<and> lzf_decompress [1, 7, 9] 2 = Some (Inr [7, 9])"
proof -
  have "lzf_compress 0 (\<lambda>_. 0) [7, 9] 10 = Some (Some [1, 7, 9])"
    by (simp add: lzf_compress_def FRST_def rd_in_def lzf_loop.simps lzf_last.simps lzf_literal_def push_def
        stop_run_def put_def undo_run_def MAX_LIT_def)
  moreover from this have "lzf_decompress [1, 7, 9] (Suc (Suc 0)) = Some (Inr [7, 9])"
    using lzf_roundtrip [of "[7, 9]" 0 "\<lambda>_. 0" 10] by simp
  ultimately show ?thesis by (simp only: numeral_2_eq_2)
qed

text \<open>
  C27.  The decompressor is safe on corrupted data: on every non-empty input it ends without reading
  beyond the input or writing beyond the output buffer, and returns an error or at most \<open>out_len\<close> bytes.
\<close>

theorem lzf_decompress_safe:
  assumes "inp \<noteq> []"
  shows "\<exists>r. lzf_decompress inp out_len = Some r \<and> (\<forall>ob. r = Inr ob \<longrightarrow> length ob \<le> out_len)"
  unfolding lzf_decompress_def by (rule lzf_decompress_loop_safe [OF assms])

theorem lzf_decompress_safe_witness:
  "lzf_decompress [0, 97, 64, 5] 20 = Some (Inl EINVAL)
   \<and> (\<exists>r. lzf_decompress [0, 97, 64, 5] 20 = Some r \<and> (\<forall>ob. r = Inr ob \<longrightarrow> length ob \<le> 20))"
  using lzf_decompress_safe [of "[0, 97, 64, 5]" 20]
  by (simp add: lzf_decompress_def lzf_decompress_loop.simps lzf_token_def lzf_backref_def push_def and31 push_bit_eq_mult drop_bit_eq_div)

end
