(* ===== verification/Adlist.thy ===== *)
theory Adlist
  imports Refinement
begin

text \<open>
  \<^verbatim>\<open>adlist.c\<close>, \<^verbatim>\<open>adlist.h\<close>: the doubly linked list of the server.  The nodes live in a heap, a finite map
  from addresses to nodes; a pointer is an address option, \<open>None\<close> for \<open>NULL\<close>.  Following \<open>NULL\<close> or a
  freed node makes the result of the operation \<open>None\<close>.  \<open>zmalloc\<close> is a parameter: a function from the
  heap to an address; where it matters the address it returns is not in use (it never returns
  \<open>NULL\<close>: \<^verbatim>\<open>zmalloc.c\<close> aborts the process instead).
\<close>

section \<open>The model\<close>

type_synonym ptr = "nat option"

record 'a listNode =
  prev :: ptr
  nextn :: ptr
  val :: 'a

type_synonym 'a heap = "nat \<rightharpoonup> 'a listNode"

record 'a dlist =
  head :: ptr
  tail :: ptr
  len :: nat
  dup :: "('a \<Rightarrow> 'a option) option"
  mtch :: "('a \<Rightarrow> 'a \<Rightarrow> bool) option"

datatype direction = AL_START_HEAD | AL_START_TAIL

record listIter =
  it_next :: ptr
  it_direction :: direction

definition deref :: "'a heap \<Rightarrow> ptr \<Rightarrow> 'a listNode option" where
  "deref h p = (case p of None \<Rightarrow> None | Some a \<Rightarrow> h a)"

definition set_prev :: "ptr \<Rightarrow> ptr \<Rightarrow> 'a heap \<Rightarrow> 'a heap option" where
  "set_prev p q h = do { a \<leftarrow> p; n \<leftarrow> h a; Some (h(a \<mapsto> n\<lparr>prev := q\<rparr>)) }"

definition set_nextn :: "ptr \<Rightarrow> ptr \<Rightarrow> 'a heap \<Rightarrow> 'a heap option" where
  "set_nextn p q h = do { a \<leftarrow> p; n \<leftarrow> h a; Some (h(a \<mapsto> n\<lparr>nextn := q\<rparr>)) }"

definition zfree :: "ptr \<Rightarrow> 'a heap \<Rightarrow> 'a heap option" where
  "zfree p h = do { a \<leftarrow> p; n \<leftarrow> h a; Some (h(a := None)) }"

definition listCreate :: "'a dlist" where
  "listCreate = \<lparr>head = None, tail = None, len = 0, dup = None, mtch = None\<rparr>"

fun listRelease_loop :: "nat \<Rightarrow> ptr \<Rightarrow> 'a heap \<Rightarrow> 'a heap option" where
  "listRelease_loop 0 current h = Some h"
| "listRelease_loop (Suc n) current h = do {
     c \<leftarrow> deref h current;
     h' \<leftarrow> zfree current h;
     listRelease_loop n (nextn c) h'}"

definition listRelease :: "'a heap \<Rightarrow> 'a dlist \<Rightarrow> 'a heap option" where
  "listRelease h l = listRelease_loop (len l) (head l) h"

definition listAddNodeHead :: "('a heap \<Rightarrow> nat) \<Rightarrow> 'a heap \<Rightarrow> 'a dlist \<Rightarrow> 'a \<Rightarrow> ('a heap \<times> 'a dlist) option" where
  "listAddNodeHead zmalloc h l value =
     (let node = zmalloc h
      in if len l = 0 then
           Some (h(node \<mapsto> \<lparr>prev = None, nextn = None, val = value\<rparr>),
                 l\<lparr>head := Some node, tail := Some node, len := len l + 1\<rparr>)
         else do {
           h' \<leftarrow> set_prev (head l) (Some node) (h(node \<mapsto> \<lparr>prev = None, nextn = head l, val = value\<rparr>));
           Some (h', l\<lparr>head := Some node, len := len l + 1\<rparr>)})"

definition listAddNodeTail :: "('a heap \<Rightarrow> nat) \<Rightarrow> 'a heap \<Rightarrow> 'a dlist \<Rightarrow> 'a \<Rightarrow> ('a heap \<times> 'a dlist) option" where
  "listAddNodeTail zmalloc h l value =
     (let node = zmalloc h
      in if len l = 0 then
           Some (h(node \<mapsto> \<lparr>prev = None, nextn = None, val = value\<rparr>),
                 l\<lparr>head := Some node, tail := Some node, len := len l + 1\<rparr>)
         else do {
           h' \<leftarrow> set_nextn (tail l) (Some node) (h(node \<mapsto> \<lparr>prev = tail l, nextn = None, val = value\<rparr>));
           Some (h', l\<lparr>tail := Some node, len := len l + 1\<rparr>)})"

definition listInsertNode :: "('a heap \<Rightarrow> nat) \<Rightarrow> 'a heap \<Rightarrow> 'a dlist \<Rightarrow> nat \<Rightarrow> 'a \<Rightarrow> bool
    \<Rightarrow> ('a heap \<times> 'a dlist) option" where
  "listInsertNode zmalloc h l old_node value after = do {
     let node = zmalloc h;
     old \<leftarrow> h old_node;
     let (pr, nx) = (if after then (Some old_node, nextn old) else (prev old, Some old_node));
     let l1 = (if after then (if tail l = Some old_node then l\<lparr>tail := Some node\<rparr> else l)
               else (if head l = Some old_node then l\<lparr>head := Some node\<rparr> else l));
     let h1 = h(node \<mapsto> \<lparr>prev = pr, nextn = nx, val = value\<rparr>);
     h2 \<leftarrow> (if pr \<noteq> None then set_nextn pr (Some node) h1 else Some h1);
     h3 \<leftarrow> (if nx \<noteq> None then set_prev nx (Some node) h2 else Some h2);
     Some (h3, l1\<lparr>len := len l1 + 1\<rparr>)}"

definition listDelNode :: "'a heap \<Rightarrow> 'a dlist \<Rightarrow> nat \<Rightarrow> ('a heap \<times> 'a dlist) option" where
  "listDelNode h l node = do {
     n \<leftarrow> h node;
     (h1, l1) \<leftarrow> (if prev n \<noteq> None then map_option (\<lambda>h'. (h', l)) (set_nextn (prev n) (nextn n) h)
                 else Some (h, l\<lparr>head := nextn n\<rparr>));
     n1 \<leftarrow> h1 node;
     (h2, l2) \<leftarrow> (if nextn n1 \<noteq> None then map_option (\<lambda>h'. (h', l1)) (set_prev (nextn n1) (prev n1) h1)
                 else Some (h1, l1\<lparr>tail := prev n1\<rparr>));
     h3 \<leftarrow> zfree (Some node) h2;
     Some (h3, l2\<lparr>len := len l2 - 1\<rparr>)}"

definition listGetIterator :: "'a dlist \<Rightarrow> direction \<Rightarrow> listIter" where
  "listGetIterator l d =
     \<lparr>it_next = (if d = AL_START_HEAD then head l else tail l), it_direction = d\<rparr>"

definition listRewind :: "'a dlist \<Rightarrow> listIter" where
  "listRewind l = \<lparr>it_next = head l, it_direction = AL_START_HEAD\<rparr>"

definition listRewindTail :: "'a dlist \<Rightarrow> listIter" where
  "listRewindTail l = \<lparr>it_next = tail l, it_direction = AL_START_TAIL\<rparr>"

text \<open>The result is the current node, \<open>None\<close> at the end, and the advanced iterator.\<close>

definition listNext :: "'a heap \<Rightarrow> listIter \<Rightarrow> (ptr \<times> listIter) option" where
  "listNext h it =
     (case it_next it of None \<Rightarrow> Some (None, it)
      | Some c \<Rightarrow> do {
          n \<leftarrow> h c;
          Some (Some c, it\<lparr>it_next := if it_direction it = AL_START_HEAD then nextn n else prev n\<rparr>)})"

text \<open>
  The \<open>while\<close> loops over \<open>listNext\<close>.  A loop over a damaged list need not end: then the result is
  \<open>None\<close>.  \<open>listDup\<close> returns the heap and, unless the \<open>dup\<close> method fails, the copy.
\<close>

partial_function (option) listDup_loop :: "('a heap \<Rightarrow> nat) \<Rightarrow> listIter \<Rightarrow> 'a heap \<Rightarrow> 'a dlist
    \<Rightarrow> ('a heap \<times> 'a dlist option) option" where
  "listDup_loop zmalloc it h copy = do {
     (node, it') \<leftarrow> listNext h it;
     (case node of None \<Rightarrow> Some (h, Some copy)
      | Some a \<Rightarrow> do {
          n \<leftarrow> h a;
          (case (case dup copy of Some f \<Rightarrow> f (val n) | None \<Rightarrow> Some (val n)) of
             None \<Rightarrow> do { h' \<leftarrow> listRelease h copy; Some (h', None) }
           | Some value \<Rightarrow> do {
               (h', copy') \<leftarrow> listAddNodeTail zmalloc h copy value;
               listDup_loop zmalloc it' h' copy'})})}"

definition listDup :: "('a heap \<Rightarrow> nat) \<Rightarrow> 'a heap \<Rightarrow> 'a dlist \<Rightarrow> ('a heap \<times> 'a dlist option) option" where
  "listDup zmalloc h orig =
     listDup_loop zmalloc (listRewind orig) h (listCreate\<lparr>dup := dup orig, mtch := mtch orig\<rparr>)"

partial_function (option) listSearchKey_loop :: "'a heap \<Rightarrow> 'a dlist \<Rightarrow> 'a \<Rightarrow> listIter \<Rightarrow> ptr option" where
  "listSearchKey_loop h l key it = do {
     (node, it') \<leftarrow> listNext h it;
     (case node of None \<Rightarrow> Some None
      | Some a \<Rightarrow> do {
          n \<leftarrow> h a;
          (if (case mtch l of Some m \<Rightarrow> m (val n) key | None \<Rightarrow> key = val n) then Some (Some a)
           else listSearchKey_loop h l key it')})}"

definition listSearchKey :: "'a heap \<Rightarrow> 'a dlist \<Rightarrow> 'a \<Rightarrow> ptr option" where
  "listSearchKey h l key = listSearchKey_loop h l key (listRewind l)"

fun walk :: "('a listNode \<Rightarrow> ptr) \<Rightarrow> 'a heap \<Rightarrow> nat \<Rightarrow> ptr \<Rightarrow> ptr option" where
  "walk f h 0 n = Some n"
| "walk f h (Suc i) n = (case n of None \<Rightarrow> Some None | Some a \<Rightarrow> do { c \<leftarrow> h a; walk f h i (f c) })"

definition listIndex :: "'a heap \<Rightarrow> 'a dlist \<Rightarrow> int \<Rightarrow> ptr option" where
  "listIndex h l index =
     (if index < 0 then walk prev h (nat ((- index) - 1)) (tail l) else walk nextn h (nat index) (head l))"

definition listRotate :: "'a heap \<Rightarrow> 'a dlist \<Rightarrow> ('a heap \<times> 'a dlist) option" where
  "listRotate h l =
     (let t = tail l
      in if len l \<le> 1 then Some (h, l)
         else do {
           tn \<leftarrow> deref h t;
           let l1 = l\<lparr>tail := prev tn\<rparr>;
           h1 \<leftarrow> set_nextn (tail l1) None h;
           h2 \<leftarrow> set_prev (head l1) t h1;
           h3 \<leftarrow> set_prev t None h2;
           h4 \<leftarrow> set_nextn t (head l1) h3;
           Some (h4, l1\<lparr>head := t\<rparr>)})"

declare listDup_loop.simps [code] listSearchKey_loop.simps [code]


section \<open>The sequence a list holds\<close>

definition hd_or :: "nat list \<Rightarrow> ptr \<Rightarrow> ptr" where
  "hd_or ps nx = (case ps of [] \<Rightarrow> nx | p # _ \<Rightarrow> Some p)"

definition last_or :: "nat list \<Rightarrow> ptr \<Rightarrow> ptr" where
  "last_or ps pr = (if ps = [] then pr else Some (last ps))"

lemma hd_or_simps [simp]: "hd_or [] nx = nx" "hd_or (p # ps) nx = Some p"
    "hd_or (xs @ ys) nx = hd_or xs (hd_or ys nx)"
  by (simp_all add: hd_or_def split: list.split)

lemma last_or_simps [simp]: "last_or [] pr = pr" "last_or (p # ps) pr = last_or ps (Some p)"
    "last_or (xs @ ys) pr = last_or ys (last_or xs pr)"
  by (auto simp: last_or_def)

text \<open>\<open>seg h pr ps nx\<close>: the nodes \<open>ps\<close> are linked in this order, between \<open>pr\<close> and \<open>nx\<close>.\<close>

fun seg :: "'a heap \<Rightarrow> ptr \<Rightarrow> nat list \<Rightarrow> ptr \<Rightarrow> bool" where
  "seg h pr [] nx \<longleftrightarrow> True"
| "seg h pr (p # ps) nx \<longleftrightarrow>
     (\<exists>v. h p = Some \<lparr>prev = pr, nextn = hd_or ps nx, val = v\<rparr>) \<and> seg h (Some p) ps nx"

definition vals :: "'a heap \<Rightarrow> nat list \<Rightarrow> 'a list" where
  "vals h ps = map (\<lambda>p. val (the (h p))) ps"

definition list_at :: "'a heap \<Rightarrow> 'a dlist \<Rightarrow> nat list \<Rightarrow> bool" where
  "list_at h l ps \<longleftrightarrow> distinct ps \<and> seg h None ps None \<and> head l = hd_or ps None \<and> tail l = last_or ps None
     \<and> len l = length ps"

lemma seg_append: "seg h pr (xs @ ys) nx \<longleftrightarrow> seg h pr xs (hd_or ys nx) \<and> seg h (last_or xs pr) ys nx"
  by (induction xs arbitrary: pr) auto

lemma seg_frame [simp]: "p \<notin> set xs \<Longrightarrow> seg (h(p := n)) pr xs nx = seg h pr xs nx"
  by (induction xs arbitrary: pr) auto

lemma vals_frame [simp]: "p \<notin> set xs \<Longrightarrow> vals (h(p := n)) xs = vals h xs"
  by (simp add: vals_def)

lemma vals_simps [simp]: "vals h [] = []" "vals h (p # ps) = val (the (h p)) # vals h ps"
    "vals h (xs @ ys) = vals h xs @ vals h ys" "length (vals h ps) = length ps"
  by (simp_all add: vals_def)

lemma seg_dom: "seg h pr ps nx \<Longrightarrow> p \<in> set ps \<Longrightarrow> h p \<noteq> None"
  by (induction ps arbitrary: pr) auto

lemma seg_fresh: "seg h pr ps nx \<Longrightarrow> h p = None \<Longrightarrow> p \<notin> set ps"
  using seg_dom by fastforce


section \<open>The operations on the sequence\<close>

lemma listCreate_at: "list_at h listCreate []"
  by (simp add: list_at_def listCreate_def)

lemma listAddNodeHead_correct:
  assumes at: "list_at h l ps" and fresh: "h (zmalloc h) = None"
  shows "\<exists>h' l'. listAddNodeHead zmalloc h l v = Some (h', l') \<and> list_at h' l' (zmalloc h # ps)
    \<and> vals h' (zmalloc h # ps) = v # vals h ps"
proof -
  let ?p = "zmalloc h"
  have new: "?p \<notin> set ps" using at fresh by (auto simp: list_at_def dest: seg_fresh)
  show ?thesis
  proof (cases ps)
    case Nil
    then show ?thesis using at by (auto simp: listAddNodeHead_def list_at_def Let_def)
  next
    case (Cons a as)
    then obtain w where "h a = Some \<lparr>prev = None, nextn = hd_or as None, val = w\<rparr>"
      using at by (auto simp: list_at_def)
    then show ?thesis using at new Cons
      by (auto simp: listAddNodeHead_def list_at_def set_prev_def Let_def)
  qed
qed

lemma listAddNodeTail_correct:
  assumes at: "list_at h l ps" and fresh: "h (zmalloc h) = None"
  shows "\<exists>h' l'. listAddNodeTail zmalloc h l v = Some (h', l') \<and> list_at h' l' (ps @ [zmalloc h])
    \<and> vals h' (ps @ [zmalloc h]) = vals h ps @ [v] \<and> dup l' = dup l \<and> mtch l' = mtch l
    \<and> (\<forall>q. q \<notin> set ps \<longrightarrow> q \<noteq> zmalloc h \<longrightarrow> h' q = h q) \<and> dom h' = insert (zmalloc h) (dom h)"
proof -
  let ?p = "zmalloc h"
  have new: "?p \<notin> set ps" using at fresh by (auto simp: list_at_def dest: seg_fresh)
  show ?thesis
  proof (cases ps rule: rev_cases)
    case Nil
    then show ?thesis using at by (auto simp: listAddNodeTail_def list_at_def Let_def)
  next
    case (snoc as a)
    then obtain w where "h a = Some \<lparr>prev = last_or as None, nextn = None, val = w\<rparr>"
      using at by (auto simp: list_at_def seg_append)
    then show ?thesis using at new snoc
      by (auto simp: listAddNodeTail_def list_at_def set_nextn_def Let_def seg_append)
  qed
qed

lemma listInsertNode_after:
  assumes at: "list_at h l (xs @ p # ys)" and fresh: "h (zmalloc h) = None"
  shows "\<exists>h' l'. listInsertNode zmalloc h l p v True = Some (h', l') \<and> list_at h' l' (xs @ p # zmalloc h # ys)
    \<and> vals h' (xs @ p # zmalloc h # ys) = vals h (xs @ [p]) @ v # vals h ys"
proof -
  let ?q = "zmalloc h"
  have new: "?q \<notin> set (xs @ p # ys)" using at fresh unfolding list_at_def by (metis seg_fresh)
  obtain w where p: "h p = Some \<lparr>prev = last_or xs None, nextn = hd_or ys None, val = w\<rparr>"
    using at by (auto simp: list_at_def seg_append)
  show ?thesis
  proof (cases ys)
    case Nil
    then show ?thesis using at new p
      by (auto simp: listInsertNode_def list_at_def set_nextn_def Let_def seg_append)
  next
    case (Cons a as)
    then obtain u where "h a = Some \<lparr>prev = Some p, nextn = hd_or as None, val = u\<rparr>"
      using at by (auto simp: list_at_def seg_append)
    moreover have "tail l \<noteq> Some p" using at Cons by (auto simp: list_at_def last_or_def split: if_splits)
    ultimately show ?thesis using at new p Cons
      by (auto simp: listInsertNode_def list_at_def set_nextn_def set_prev_def Let_def seg_append)
  qed
qed

lemma listInsertNode_before:
  assumes at: "list_at h l (xs @ p # ys)" and fresh: "h (zmalloc h) = None"
  shows "\<exists>h' l'. listInsertNode zmalloc h l p v False = Some (h', l') \<and> list_at h' l' (xs @ zmalloc h # p # ys)
    \<and> vals h' (xs @ zmalloc h # p # ys) = vals h xs @ v # vals h (p # ys)"
proof -
  let ?q = "zmalloc h"
  have new: "?q \<notin> set (xs @ p # ys)" using at fresh unfolding list_at_def by (metis seg_fresh)
  obtain w where p: "h p = Some \<lparr>prev = last_or xs None, nextn = hd_or ys None, val = w\<rparr>"
    using at by (auto simp: list_at_def seg_append)
  show ?thesis
  proof (cases xs rule: rev_cases)
    case Nil
    then show ?thesis using at new p
      by (auto simp: listInsertNode_def list_at_def set_prev_def Let_def seg_append)
  next
    case (snoc as a)
    then obtain u where "h a = Some \<lparr>prev = last_or as None, nextn = Some p, val = u\<rparr>"
      using at by (auto simp: list_at_def seg_append)
    moreover have "head l \<noteq> Some p" using at snoc by (cases as) (auto simp: list_at_def)
    ultimately show ?thesis using at new p snoc
      by (auto simp: listInsertNode_def list_at_def set_nextn_def set_prev_def Let_def seg_append)
  qed
qed

lemma listDelNode_correct:
  assumes at: "list_at h l (xs @ p # ys)"
  shows "\<exists>h' l'. listDelNode h l p = Some (h', l') \<and> list_at h' l' (xs @ ys) \<and> vals h' (xs @ ys) = vals h xs @ vals h ys
    \<and> h' p = None"
proof -
  obtain w where p: "h p = Some \<lparr>prev = last_or xs None, nextn = hd_or ys None, val = w\<rparr>"
    using at by (auto simp: list_at_def seg_append)
  have dist: "distinct (xs @ p # ys)" using at by (simp add: list_at_def)
  show ?thesis
  proof (cases xs rule: rev_cases)
    case xs: Nil
    show ?thesis
    proof (cases ys)
      case Nil
      then show ?thesis using at p xs by (auto simp: listDelNode_def list_at_def zfree_def)
    next
      case (Cons b bs)
      then obtain u where "h b = Some \<lparr>prev = Some p, nextn = hd_or bs None, val = u\<rparr>"
        using at by (auto simp: list_at_def seg_append)
      then show ?thesis using at p xs Cons dist
        by (auto simp: listDelNode_def list_at_def zfree_def set_prev_def)
    qed
  next
    case xs: (snoc as a)
    then obtain u where a: "h a = Some \<lparr>prev = last_or as None, nextn = Some p, val = u\<rparr>"
      using at by (auto simp: list_at_def seg_append)
    show ?thesis
    proof (cases ys)
      case Nil
      then show ?thesis using at p a xs dist
        by (auto simp: listDelNode_def list_at_def zfree_def set_nextn_def seg_append)
    next
      case (Cons b bs)
      then obtain w' where "h b = Some \<lparr>prev = Some p, nextn = hd_or bs None, val = w'\<rparr>"
        using at by (auto simp: list_at_def seg_append)
      then show ?thesis using at p a xs Cons dist
        by (auto simp: listDelNode_def list_at_def zfree_def set_nextn_def set_prev_def seg_append)
    qed
  qed
qed

lemma listRotate_correct:
  assumes at: "list_at h l ps"
  shows "\<exists>h' l'. listRotate h l = Some (h', l') \<and> list_at h' l' (rotate (length ps - 1) ps)
    \<and> vals h' (rotate (length ps - 1) ps) = rotate (length ps - 1) (vals h ps)"
proof (cases "length ps \<le> 1")
  case True
  then show ?thesis using at by (auto simp: listRotate_def list_at_def)
next
  case False
  then obtain xs a z where ps: "ps = (xs @ [a]) @ [z]"
    by (metis append_Nil length_append_singleton list.size(3) not_less_eq_eq rev_exhaust zero_le One_nat_def le_Suc_eq)
  have rot: "rotate (length ps - 1) ps = z # xs @ [a]" "rotate (length ps - 1) (vals h ps) = val (the (h z)) # vals h (xs @ [a])"
    using rotate_append [of "xs @ [a]" "[z]"] rotate_append [of "vals h (xs @ [a])" "vals h [z]"] by (simp_all add: ps)
  obtain w u where z: "h z = Some \<lparr>prev = Some a, nextn = None, val = w\<rparr>"
      and a: "h a = Some \<lparr>prev = last_or xs None, nextn = Some z, val = u\<rparr>"
    using at by (auto simp: list_at_def seg_append ps)
  show ?thesis unfolding rot
  proof (cases xs)
    case Nil
    then show "\<exists>h' l'. listRotate h l = Some (h', l') \<and> list_at h' l' (z # xs @ [a])
        \<and> vals h' (z # xs @ [a]) = val (the (h z)) # vals h (xs @ [a])"
      using at z a
      by (auto simp: listRotate_def list_at_def set_nextn_def set_prev_def deref_def Let_def seg_append ps)
  next
    case (Cons b bs)
    then obtain x where "h b = Some \<lparr>prev = None, nextn = hd_or bs (Some a), val = x\<rparr>"
      using at by (auto simp: list_at_def seg_append ps)
    then show "\<exists>h' l'. listRotate h l = Some (h', l') \<and> list_at h' l' (z # xs @ [a])
        \<and> vals h' (z # xs @ [a]) = val (the (h z)) # vals h (xs @ [a])"
      using at z a Cons
      by (auto simp: listRotate_def list_at_def set_nextn_def set_prev_def deref_def Let_def seg_append ps)
  qed
qed


lemma listRelease_loop_correct:
  assumes "seg h pr ps None" and "distinct ps"
  shows "listRelease_loop (length ps) (hd_or ps None) h = Some (\<lambda>p. if p \<in> set ps then None else h p)"
  using assms
proof (induction ps arbitrary: h pr)
  case (Cons p ps)
  obtain v where p: "h p = Some \<lparr>prev = pr, nextn = hd_or ps None, val = v\<rparr>" using Cons.prems by auto
  have "listRelease_loop (length ps) (hd_or ps None) (h(p := None))
      = Some (\<lambda>q. if q \<in> set ps then None else (h(p := None)) q)"
    proof (rule Cons.IH [where h = "h(p := None)" and pr = "Some p"])
    have new: "p \<notin> set ps" using Cons.prems by simp
    show "seg (h(p := None)) (Some p) ps None" unfolding seg_frame [OF new] using Cons.prems by simp
  qed (use Cons.prems in simp)
  moreover have "(\<lambda>q. if q \<in> set ps then None else (h(p := None)) q) = (\<lambda>q. if q \<in> set (p # ps) then None else h q)"
    by auto
  ultimately show ?case using p by (simp add: deref_def zfree_def)
qed simp

lemma listRelease_correct:
  "list_at h l ps \<Longrightarrow> listRelease h l = Some (\<lambda>p. if p \<in> set ps then None else h p)"
  using listRelease_loop_correct by (auto simp: list_at_def listRelease_def)

text \<open>Walks over the links.\<close>

lemma walk_NULL [simp]: "walk f h i None = Some None"
  by (cases i) auto

lemma walk_nextn:
  "seg h pr ps None \<Longrightarrow> walk nextn h i (hd_or ps None) = Some (if i < length ps then Some (ps ! i) else None)"
proof (induction ps arbitrary: i pr)
  case (Cons p ps)
  then show ?case by (cases i) auto
qed simp

lemma walk_prev:
  "seg h None ps nx \<Longrightarrow> walk prev h i (last_or ps None)
    = Some (if i < length ps then Some (ps ! (length ps - 1 - i)) else None)"
proof (induction ps arbitrary: i nx rule: rev_induct)
  case (snoc p ps)
  then obtain v where p: "h p = Some \<lparr>prev = last_or ps None, nextn = nx, val = v\<rparr>" and ps: "seg h None ps (Some p)"
    by (auto simp: seg_append)
  show ?case
  proof (cases i)
    case (Suc j)
    then show ?thesis using p snoc.IH [OF ps, of j] by (auto simp: nth_append)
  qed simp
qed simp

lemma listIndex_correct:
  assumes "list_at h l ps"
  shows "listIndex h l i =
    Some (if - int (length ps) \<le> i \<and> i < int (length ps)
          then Some (ps ! nat (i mod int (length ps))) else None)"
proof (cases "i < 0")
  case True
  have "walk prev h (nat (- i - 1)) (tail l)
      = Some (if nat (- i - 1) < length ps then Some (ps ! (length ps - 1 - nat (- i - 1))) else None)"
    using assms walk_prev [of h ps None] by (simp add: list_at_def)
  moreover have "length ps - 1 - nat (- i - 1) = nat (i mod int (length ps))" if "- int (length ps) \<le> i"
  proof -
    have "i mod int (length ps) = (i + int (length ps)) mod int (length ps)" by simp
    also have "\<dots> = i + int (length ps)" using that True by (intro mod_pos_pos_trivial) auto
    finally show ?thesis using that True by simp
  qed
  ultimately show ?thesis using True by (auto simp: listIndex_def)
next
  case False
  then have "walk nextn h (nat i) (head l) = Some (if nat i < length ps then Some (ps ! nat i) else None)"
    using assms walk_nextn [of h None ps] by (simp add: list_at_def)
  then show ?thesis using False by (auto simp: listIndex_def)
qed

text \<open>Loops over an iterator.\<close>

lemma listNext_head:
  assumes "h p = Some n"
  shows "listNext h \<lparr>it_next = Some p, it_direction = AL_START_HEAD\<rparr>
    = Some (Some p, \<lparr>it_next = nextn n, it_direction = AL_START_HEAD\<rparr>)"
  using assms by (simp add: listNext_def)

lemma listSearchKey_loop_correct:
  "seg h pr ps None \<Longrightarrow>
    listSearchKey_loop h l key \<lparr>it_next = hd_or ps None, it_direction = AL_START_HEAD\<rparr>
    = Some (find (\<lambda>p. case mtch l of Some m \<Rightarrow> m (val (the (h p))) key | None \<Rightarrow> key = val (the (h p))) ps)"
proof (induction ps arbitrary: pr)
  case Nil
  then show ?case by (subst listSearchKey_loop.simps) (simp add: listNext_def)
next
  case (Cons p ps)
  then show ?case
    by (subst listSearchKey_loop.simps) (cases "mtch l"; auto simp: listNext_def)
qed

lemma listSearchKey_correct:
  assumes "list_at h l ps"
  shows "listSearchKey h l key
    = Some (find (\<lambda>p. case mtch l of Some m \<Rightarrow> m (val (the (h p))) key | None \<Rightarrow> key = val (the (h p))) ps)"
  using assms listSearchKey_loop_correct [of h None ps] by (simp add: list_at_def listSearchKey_def listRewind_def)

text \<open>Deleting the node just returned, as the comment of \<open>listNext\<close> allows: the usual loop of the server's code.\<close>

partial_function (option) delete_where :: "('a \<Rightarrow> bool) \<Rightarrow> listIter \<Rightarrow> 'a heap \<Rightarrow> 'a dlist \<Rightarrow> ('a heap \<times> 'a dlist) option" where
  "delete_where P it h l = do {
     (node, it') \<leftarrow> listNext h it;
     (case node of None \<Rightarrow> Some (h, l)
      | Some a \<Rightarrow> do {
          n \<leftarrow> h a;
          (if P (val n) then do {
             (h', l') \<leftarrow> listDelNode h l a;
             delete_where P it' h' l'}
           else delete_where P it' h l)})}"

declare delete_where.simps [code]

lemma delete_where_loop:
  assumes "list_at h l (xs @ ys)"
  shows "\<exists>h' l' zs. delete_where P \<lparr>it_next = hd_or ys None, it_direction = AL_START_HEAD\<rparr> h l = Some (h', l')
    \<and> list_at h' l' (xs @ zs) \<and> vals h' (xs @ zs) = vals h xs @ filter (\<lambda>v. \<not> P v) (vals h ys)"
  using assms
proof (induction ys arbitrary: h l xs)
  case Nil
  then show ?case by (subst delete_where.simps) (auto simp: listNext_def intro!: exI [of _ "[]"])
next
  case (Cons p ys)
  obtain w where p: "h p = Some \<lparr>prev = last_or xs None, nextn = hd_or ys None, val = w\<rparr>"
    using Cons.prems by (auto simp: list_at_def seg_append)
  show ?case
  proof (cases "P w")
    case True
    obtain h1 l1 where d: "listDelNode h l p = Some (h1, l1)" "list_at h1 l1 (xs @ ys)"
        "vals h1 (xs @ ys) = vals h xs @ vals h ys"
      using listDelNode_correct [OF Cons.prems] by auto
    have v: "vals h1 xs = vals h xs" "vals h1 ys = vals h ys" using d(3) by simp_all
    obtain h' l' zs where "delete_where P \<lparr>it_next = hd_or ys None, it_direction = AL_START_HEAD\<rparr> h1 l1 = Some (h', l')"
        "list_at h' l' (xs @ zs)" "vals h' (xs @ zs) = vals h1 xs @ filter (\<lambda>v. \<not> P v) (vals h1 ys)"
      using Cons.IH [OF d(2)] by blast
    then show ?thesis using p True d(1) v by (subst delete_where.simps) (auto simp: listNext_head)
  next
    case False
    have "list_at h l ((xs @ [p]) @ ys)" using Cons.prems by simp
    from Cons.IH [OF this] obtain h' l' zs where
        "delete_where P \<lparr>it_next = hd_or ys None, it_direction = AL_START_HEAD\<rparr> h l = Some (h', l')"
        "list_at h' l' ((xs @ [p]) @ zs)" "vals h' ((xs @ [p]) @ zs) = vals h (xs @ [p]) @ filter (\<lambda>v. \<not> P v) (vals h ys)"
      by blast
    then show ?thesis using p False by (subst delete_where.simps) (auto simp: listNext_head intro!: exI [of _ "p # zs"])
  qed
qed


lemma list_at_cong:
  assumes "list_at h l ps" and "\<forall>p \<in> set ps. h' p = h p"
  shows "list_at h' l ps \<and> vals h' ps = vals h ps"
proof -
  have "seg h pr ps nx \<Longrightarrow> (\<forall>p \<in> set ps. h' p = h p) \<Longrightarrow> seg h' pr ps nx" for pr nx
    by (induction ps arbitrary: pr) auto
  then show ?thesis using assms by (auto simp: list_at_def vals_def)
qed

text \<open>
  The state of the copying loop: the original is untouched, the nodes of the copy are the only
  addition to the heap.
\<close>

definition dup_state :: "'a heap \<Rightarrow> 'a heap \<Rightarrow> 'a dlist \<Rightarrow> nat list \<Rightarrow> bool" where
  "dup_state h h1 copy qs \<longleftrightarrow> list_at h1 copy qs \<and> dom h1 = dom h \<union> set qs \<and> set qs \<inter> dom h = {}
     \<and> (\<forall>p \<in> dom h. h1 p = h p)"

definition dup_val :: "('a \<Rightarrow> 'a option) option \<Rightarrow> 'a \<Rightarrow> 'a option" where
  "dup_val f v = (case f of Some g \<Rightarrow> g v | None \<Rightarrow> Some v)"

lemma dup_state_release:
  assumes "dup_state h h1 copy qs"
  shows "listRelease h1 copy = Some h"
proof -
  have "(\<lambda>p. if p \<in> set qs then None else h1 p) = h"
  proof
    fix p
    show "(if p \<in> set qs then None else h1 p) = h p"
    proof (cases "p \<in> dom h")
      case True
      then show ?thesis using assms unfolding dup_state_def by auto
    next
      case False
      then have "p \<notin> set qs \<Longrightarrow> p \<notin> dom h1" using assms unfolding dup_state_def by blast
      then show ?thesis using False by (auto simp: domIff)
    qed
  qed
  then show ?thesis using assms listRelease_correct by (auto simp: dup_state_def)
qed

lemma dup_state_add:
  assumes st: "dup_state h h1 copy qs" and fresh: "h1 (zmalloc h1) = None"
  shows "\<exists>h2 copy2. listAddNodeTail zmalloc h1 copy v = Some (h2, copy2) \<and> dup_state h h2 copy2 (qs @ [zmalloc h1])
    \<and> vals h2 (qs @ [zmalloc h1]) = vals h1 qs @ [v] \<and> dup copy2 = dup copy"
proof -
  obtain h2 copy2 where "listAddNodeTail zmalloc h1 copy v = Some (h2, copy2)" "list_at h2 copy2 (qs @ [zmalloc h1])"
      "vals h2 (qs @ [zmalloc h1]) = vals h1 qs @ [v]" "dup copy2 = dup copy"
      "\<forall>q. q \<notin> set qs \<longrightarrow> q \<noteq> zmalloc h1 \<longrightarrow> h2 q = h1 q" "dom h2 = insert (zmalloc h1) (dom h1)"
    using listAddNodeTail_correct [of h1 copy qs zmalloc v] st fresh by (auto simp: dup_state_def)
  moreover have same: "h2 p = h p" if "p \<in> dom h" for p
  proof -
    have "p \<notin> set qs" "h1 p = h p" using st that unfolding dup_state_def by blast+
    moreover from this have "p \<noteq> zmalloc h1" using fresh that by auto
    ultimately show ?thesis using \<open>\<forall>q. q \<notin> set qs \<longrightarrow> q \<noteq> zmalloc h1 \<longrightarrow> h2 q = h1 q\<close> by simp
  qed
  moreover have "zmalloc h1 \<notin> dom h" using st fresh unfolding dup_state_def by (metis Un_iff domIff)
  ultimately have "dup_state h h2 copy2 (qs @ [zmalloc h1])"
    using st unfolding dup_state_def by auto
  with \<open>listAddNodeTail zmalloc h1 copy v = Some (h2, copy2)\<close> \<open>dup copy2 = dup copy\<close>
    \<open>vals h2 (qs @ [zmalloc h1]) = vals h1 qs @ [v]\<close> show ?thesis by blast
qed

text \<open>What is documented of the allocator: the block it returns is not in use.\<close>

definition fresh_alloc :: "('a heap \<Rightarrow> nat) \<Rightarrow> bool" where
  "fresh_alloc zmalloc \<longleftrightarrow> (\<forall>h. finite (dom h) \<longrightarrow> h (zmalloc h) = None)"

lemma listDup_loop_correct:
  assumes fresh: "fresh_alloc zmalloc" and fin: "finite (dom h)"
    and "seg h pr ys None" and "dup_state h h1 copy qs"
  shows "\<exists>h2 r. listDup_loop zmalloc \<lparr>it_next = hd_or ys None, it_direction = AL_START_HEAD\<rparr> h1 copy = Some (h2, r)
    \<and> (if list_all (\<lambda>v. dup_val (dup copy) v \<noteq> None) (vals h ys)
       then \<exists>copy2 rs. r = Some copy2 \<and> dup_state h h2 copy2 (qs @ rs)
         \<and> vals h2 (qs @ rs) = vals h1 qs @ map (the \<circ> dup_val (dup copy)) (vals h ys)
       else r = None \<and> h2 = h)"
  using assms(3,4)
proof (induction ys arbitrary: pr h1 copy qs)
  case Nil
  then show ?case by (subst listDup_loop.simps) (auto simp: listNext_def intro!: exI [of _ "[]"])
next
  case (Cons p ys)
  obtain v where p: "h p = Some \<lparr>prev = pr, nextn = hd_or ys None, val = v\<rparr>" using Cons.prems by auto
  then have p1: "h1 p = h p" using Cons.prems(2) unfolding dup_state_def by (metis domI)
  have unf: "listDup_loop zmalloc \<lparr>it_next = hd_or (p # ys) None, it_direction = AL_START_HEAD\<rparr> h1 copy =
      (case dup_val (dup copy) v of None \<Rightarrow> do { h' \<leftarrow> listRelease h1 copy; Some (h', None) }
       | Some value \<Rightarrow> do {
           (h', copy') \<leftarrow> listAddNodeTail zmalloc h1 copy value;
           listDup_loop zmalloc \<lparr>it_next = hd_or ys None, it_direction = AL_START_HEAD\<rparr> h' copy'})"
    using p p1 by (subst listDup_loop.simps, cases "dup copy") (simp_all add: listNext_head dup_val_def)
  show ?case
  proof (cases "dup_val (dup copy) v")
    case None
    then show ?thesis unfolding unf using dup_state_release [OF Cons.prems(2)] p by simp
  next
    case (Some w)
    have "finite (dom h1)" using fin Cons.prems(2) by (auto simp: dup_state_def)
    then have "h1 (zmalloc h1) = None" using fresh by (simp add: fresh_alloc_def)
    then obtain h2 copy2 where a: "listAddNodeTail zmalloc h1 copy w = Some (h2, copy2)"
        "dup_state h h2 copy2 (qs @ [zmalloc h1])" "vals h2 (qs @ [zmalloc h1]) = vals h1 qs @ [w]" "dup copy2 = dup copy"
      using dup_state_add [OF Cons.prems(2), of zmalloc w] by blast
    have "seg h (Some p) ys None" using Cons.prems(1) by simp
    from Cons.IH [OF this a(2)] obtain h3 r where
        r: "listDup_loop zmalloc \<lparr>it_next = hd_or ys None, it_direction = AL_START_HEAD\<rparr> h2 copy2 = Some (h3, r)"
          "if list_all (\<lambda>v. dup_val (dup copy) v \<noteq> None) (vals h ys)
           then \<exists>copy3 rs. r = Some copy3 \<and> dup_state h h3 copy3 ((qs @ [zmalloc h1]) @ rs)
             \<and> vals h3 ((qs @ [zmalloc h1]) @ rs) = vals h2 (qs @ [zmalloc h1]) @ map (the \<circ> dup_val (dup copy)) (vals h ys)
           else r = None \<and> h3 = h"
      unfolding a(4) by (elim exE conjE) (rule that)
    have step: "listDup_loop zmalloc \<lparr>it_next = hd_or (p # ys) None, it_direction = AL_START_HEAD\<rparr> h1 copy = Some (h3, r)"
      unfolding unf using Some a(1) r(1) by simp
    show ?thesis
    proof (cases "list_all (\<lambda>v. dup_val (dup copy) v \<noteq> None) (vals h ys)")
      case True
      then obtain copy3 rs where "r = Some copy3" "dup_state h h3 copy3 (qs @ zmalloc h1 # rs)"
          "vals h3 (qs @ zmalloc h1 # rs) = vals h1 qs @ w # map (the \<circ> dup_val (dup copy)) (vals h ys)"
        using r(2) unfolding a(3) by auto
      then show ?thesis using step True Some p by (auto intro!: exI [of _ "zmalloc h1 # rs"])
    next
      case False
      then show ?thesis using step r(2) p by simp
    qed
  qed
qed

lemma listDup_correct:
  assumes "fresh_alloc zmalloc" and "finite (dom h)" and at: "list_at h orig ps"
  shows "\<exists>h' r. listDup zmalloc h orig = Some (h', r)
    \<and> (if list_all (\<lambda>v. dup_val (dup orig) v \<noteq> None) (vals h ps)
       then \<exists>copy qs. r = Some copy \<and> list_at h' copy qs \<and> vals h' qs = map (the \<circ> dup_val (dup orig)) (vals h ps)
         \<and> list_at h' orig ps \<and> vals h' ps = vals h ps \<and> set qs \<inter> set ps = {}
       else r = None \<and> h' = h)"
proof -
  let ?c = "listCreate\<lparr>dup := dup orig, mtch := mtch orig\<rparr>"
  have st: "dup_state h h ?c []" by (simp add: dup_state_def list_at_def listCreate_def)
  have dc: "dup ?c = dup orig" by simp
  have sg: "seg h None ps None" using at by (simp add: list_at_def)
  have dom: "set ps \<subseteq> dom h" using seg_dom [OF sg] by auto
  have start: "listDup zmalloc h orig
      = listDup_loop zmalloc \<lparr>it_next = hd_or ps None, it_direction = AL_START_HEAD\<rparr> h ?c"
    using at by (simp add: listDup_def listRewind_def list_at_def)
  obtain h2 r where r: "listDup zmalloc h orig = Some (h2, r)"
    "if list_all (\<lambda>v. dup_val (dup orig) v \<noteq> None) (vals h ps)
       then \<exists>copy2 rs. r = Some copy2 \<and> dup_state h h2 copy2 rs \<and> vals h2 rs = map (the \<circ> dup_val (dup orig)) (vals h ps)
       else r = None \<and> h2 = h"
    using listDup_loop_correct [OF assms(1,2) sg st] unfolding start [symmetric] dc append_Nil vals_simps
    by (elim exE conjE) (rule that)
  have "list_at h2 orig ps \<and> vals h2 ps = vals h ps \<and> set qs \<inter> set ps = {}" if "dup_state h h2 c qs" for c qs
  proof -
    have "\<forall>p \<in> set ps. h2 p = h p" using that dom unfolding dup_state_def by blast
    moreover have "set qs \<inter> set ps = {}" using that dom unfolding dup_state_def by blast
    ultimately show ?thesis using list_at_cong [OF at, of h2] by blast
  qed
  note keep = this
  show ?thesis
  proof (cases "list_all (\<lambda>v. dup_val (dup orig) v \<noteq> None) (vals h ps)")
    case True
    then obtain copy rs where c: "r = Some copy" "dup_state h h2 copy rs"
        "vals h2 rs = map (the \<circ> dup_val (dup orig)) (vals h ps)" using r(2) by auto
    then have "list_at h2 copy rs" by (simp add: dup_state_def)
    with c keep [OF c(2)] r(1) True show ?thesis by auto
  qed (use r in simp)
qed



section \<open>Sequences of list operations\<close>

fun nodes_from :: "'a heap \<Rightarrow> nat \<Rightarrow> ptr \<Rightarrow> nat list" where
  "nodes_from h 0 p = []"
| "nodes_from h (Suc n) p = (case p of None \<Rightarrow> [] | Some a \<Rightarrow> a # (case h a of None \<Rightarrow> [] | Some c \<Rightarrow> nodes_from h n (nextn c)))"

definition seq_of :: "'a heap \<times> 'a dlist \<Rightarrow> 'a list" where
  "seq_of s = vals (fst s) (nodes_from (fst s) (len (snd s)) (head (snd s)))"

lemma nodes_from_seg: "seg h pr ps None \<Longrightarrow> nodes_from h (length ps) (hd_or ps None) = ps"
  by (induction ps arbitrary: pr) auto

lemma seq_of_list_at: "list_at h l ps \<Longrightarrow> seq_of (h, l) = vals h ps"
  using nodes_from_seg by (fastforce simp: seq_of_def list_at_def)

datatype 'a list_op = AddHead 'a | AddTail 'a | InsertAt int 'a bool | DelAt int | GetAt int | Rotate

definition list_step :: "('a heap \<Rightarrow> nat) \<Rightarrow> 'a list_op \<Rightarrow> 'a heap \<times> 'a dlist
    \<Rightarrow> (('a heap \<times> 'a dlist) \<times> 'a option) option" where
  "list_step zmalloc x s = (let (h, l) = s in
     case x of AddHead v \<Rightarrow> map_option (\<lambda>s. (s, None)) (listAddNodeHead zmalloc h l v)
     | AddTail v \<Rightarrow> map_option (\<lambda>s. (s, None)) (listAddNodeTail zmalloc h l v)
     | InsertAt i v after \<Rightarrow> do {
         node \<leftarrow> listIndex h l i;
         (case node of None \<Rightarrow> Some (s, None)
          | Some a \<Rightarrow> map_option (\<lambda>s. (s, None)) (listInsertNode zmalloc h l a v after))}
     | DelAt i \<Rightarrow> do {
         node \<leftarrow> listIndex h l i;
         (case node of None \<Rightarrow> Some (s, None)
          | Some a \<Rightarrow> do { n \<leftarrow> h a; s' \<leftarrow> listDelNode h l a; Some (s', Some (val n)) })}
     | GetAt i \<Rightarrow> do {
         node \<leftarrow> listIndex h l i;
         (case node of None \<Rightarrow> Some (s, None) | Some a \<Rightarrow> do { n \<leftarrow> h a; Some (s, Some (val n)) })}
     | Rotate \<Rightarrow> map_option (\<lambda>s. (s, None)) (listRotate h l))"

definition index_of :: "int \<Rightarrow> nat \<Rightarrow> nat option" where
  "index_of i n = (if - int n \<le> i \<and> i < int n then Some (nat (i mod int n)) else None)"

fun seq_step :: "'a list_op \<Rightarrow> 'a list \<Rightarrow> 'a list \<times> 'a option" where
  "seq_step (AddHead v) xs = (v # xs, None)"
| "seq_step (AddTail v) xs = (xs @ [v], None)"
| "seq_step (InsertAt i v after) xs =
     (case index_of i (length xs) of None \<Rightarrow> (xs, None)
      | Some k \<Rightarrow> let j = (if after then Suc k else k) in (take j xs @ v # drop j xs, None))"
| "seq_step (DelAt i) xs =
     (case index_of i (length xs) of None \<Rightarrow> (xs, None) | Some k \<Rightarrow> (take k xs @ drop (Suc k) xs, Some (xs ! k)))"
| "seq_step (GetAt i) xs =
     (case index_of i (length xs) of None \<Rightarrow> (xs, None) | Some k \<Rightarrow> (xs, Some (xs ! k)))"
| "seq_step Rotate xs = (rotate (length xs - 1) xs, None)"

definition list_inv :: "nat \<Rightarrow> 'a heap \<times> 'a dlist \<Rightarrow> bool" where
  "list_inv n s \<longleftrightarrow> (\<exists>ps. list_at (fst s) (snd s) ps) \<and> finite (dom (fst s))"

lemma index_of_less: "index_of i n = Some k \<Longrightarrow> k < n"
proof -
  assume a: "index_of i n = Some k"
  then have "0 < int n" by (auto simp: index_of_def split: if_splits)
  then show ?thesis using a pos_mod_bound [of "int n" i] by (auto simp: index_of_def nat_less_iff split: if_splits)
qed

lemma listIndex_index_of:
  "list_at h l ps \<Longrightarrow> listIndex h l i = Some (map_option ((!) ps) (index_of i (length ps)))"
  by (simp add: listIndex_correct index_of_def)

lemma split_at: "k < length ps \<Longrightarrow> ps = take k ps @ ps ! k # drop (Suc k) ps"
  by (rule id_take_nth_drop)

lemma vals_take_drop [simp]: "vals h (take k ps) = take k (vals h ps)" "vals h (drop k ps) = drop k (vals h ps)"
    "k < length ps \<Longrightarrow> vals h ps ! k = val (the (h (ps ! k)))"
  by (simp_all add: vals_def take_map drop_map)

text \<open>The heap stays finite.\<close>

lemma finite_upd: "finite (dom (h :: 'a heap)) \<Longrightarrow> finite (dom (h(p := n)))"
  by (cases n) auto

lemma set_link_finite:
  "set_prev p q h = Some h' \<Longrightarrow> finite (dom h) \<Longrightarrow> finite (dom h')"
  "set_nextn p q h = Some h' \<Longrightarrow> finite (dom h) \<Longrightarrow> finite (dom h')"
  "zfree p h = Some h' \<Longrightarrow> finite (dom h) \<Longrightarrow> finite (dom h')"
  by (auto simp: set_prev_def set_nextn_def zfree_def finite_upd split: bind_splits)

lemma ops_finite:
  "listAddNodeHead zmalloc h l v = Some (h', l') \<Longrightarrow> finite (dom h) \<Longrightarrow> finite (dom h')"
  "listAddNodeTail zmalloc h l v = Some (h', l') \<Longrightarrow> finite (dom h) \<Longrightarrow> finite (dom h')"
  "listInsertNode zmalloc h l p v after = Some (h', l') \<Longrightarrow> finite (dom h) \<Longrightarrow> finite (dom h')"
  "listDelNode h l p = Some (h', l') \<Longrightarrow> finite (dom h) \<Longrightarrow> finite (dom h')"
  "listRotate h l = Some (h', l') \<Longrightarrow> finite (dom h) \<Longrightarrow> finite (dom h')"
  by (auto simp: listAddNodeHead_def listAddNodeTail_def listInsertNode_def listDelNode_def listRotate_def Let_def
      split: if_splits bind_splits dest!: set_link_finite)


lemma list_step_sim:
  assumes inv: "list_inv (Suc n) s" and alloc: "fresh_alloc zmalloc"
  shows "\<exists>s' r. list_step zmalloc x s = Some (s', r) \<and> list_inv n s' \<and> seq_step x (seq_of s) = (seq_of s', r)"
proof -
  obtain h l where s: "s = (h, l)" by (cases s)
  then obtain ps where at: "list_at h l ps" and fin: "finite (dom h)" using inv by (auto simp: list_inv_def)
  have fresh: "h (zmalloc h) = None" using alloc fin by (simp add: fresh_alloc_def)
  have abs: "seq_of s = vals h ps" using seq_of_list_at [OF at] s by simp
  have fini: "\<exists>s' r. list_step zmalloc x s = Some (s', r) \<and> list_inv n s' \<and> seq_step x (seq_of s) = (seq_of s', r)"
    if "list_step zmalloc x s = Some ((h', l'), r)" "list_at h' l' qs" "finite (dom h')"
      "seq_step x (vals h ps) = (vals h' qs, r)" for h' l' qs r
    using that seq_of_list_at [OF that(2)] abs by (auto simp: list_inv_def)
  have ix: "listIndex h l i = Some (map_option ((!) ps) (index_of i (length ps)))" for i
    by (rule listIndex_index_of [OF at])
  show ?thesis
  proof (cases x)
    case (AddHead v)
    obtain h' l' where c: "listAddNodeHead zmalloc h l v = Some (h', l')" "list_at h' l' (zmalloc h # ps)"
        "vals h' (zmalloc h # ps) = v # vals h ps"
      using listAddNodeHead_correct [where zmalloc = zmalloc and v = v, OF at fresh] by blast
    show ?thesis
      by (rule fini [OF _ c(2) ops_finite(1) [OF c(1) fin]]) (use AddHead s c in \<open>simp_all add: list_step_def\<close>)
  next
    case (AddTail v)
    obtain h' l' where c: "listAddNodeTail zmalloc h l v = Some (h', l')" "list_at h' l' (ps @ [zmalloc h])"
        "vals h' (ps @ [zmalloc h]) = vals h ps @ [v]"
      using listAddNodeTail_correct [where zmalloc = zmalloc and v = v, OF at fresh] by blast
    show ?thesis
      by (rule fini [OF _ c(2) ops_finite(2) [OF c(1) fin]]) (use AddTail s c in \<open>simp_all add: list_step_def\<close>)
  next
    case Rotate
    obtain h' l' where c: "listRotate h l = Some (h', l')" "list_at h' l' (rotate (length ps - 1) ps)"
        "vals h' (rotate (length ps - 1) ps) = rotate (length ps - 1) (vals h ps)"
      using listRotate_correct [OF at] by blast
    show ?thesis
      by (rule fini [OF _ c(2) ops_finite(5) [OF c(1) fin]]) (use Rotate s c in \<open>simp_all add: list_step_def\<close>)
  next
    case (InsertAt i v after)
    show ?thesis
    proof (cases "index_of i (length ps)")
      case None
      show ?thesis by (rule fini [OF _ at fin]) (use InsertAt s ix None in \<open>simp_all add: list_step_def\<close>)
    next
      case (Some k)
      then have k: "k < length ps" by (rule index_of_less)
      have at': "list_at h l (take k ps @ ps ! k # drop (Suc k) ps)" using at split_at [OF k] by simp
      show ?thesis
      proof (cases after)
        case True
        obtain h' l' where c: "listInsertNode zmalloc h l (ps ! k) v True = Some (h', l')"
            "list_at h' l' (take k ps @ ps ! k # zmalloc h # drop (Suc k) ps)"
            "vals h' (take k ps @ ps ! k # zmalloc h # drop (Suc k) ps) = vals h (take k ps @ [ps ! k]) @ v # vals h (drop (Suc k) ps)"
          using listInsertNode_after [where zmalloc = zmalloc and v = v, OF at' fresh] by blast
        have e: "vals h (take k ps @ [ps ! k]) = take (Suc k) (vals h ps)" using k by (simp add: take_Suc_conv_app_nth)
        show ?thesis
          by (rule fini [OF _ c(2) ops_finite(3) [OF c(1) fin]], unfold c(3) e)
            (use InsertAt s ix Some k True c(1) in \<open>simp_all add: list_step_def\<close>)
      next
        case False
        obtain h' l' where c: "listInsertNode zmalloc h l (ps ! k) v False = Some (h', l')"
            "list_at h' l' (take k ps @ zmalloc h # ps ! k # drop (Suc k) ps)"
            "vals h' (take k ps @ zmalloc h # ps ! k # drop (Suc k) ps) = vals h (take k ps) @ v # vals h (ps ! k # drop (Suc k) ps)"
          using listInsertNode_before [where zmalloc = zmalloc and v = v, OF at' fresh] by blast
        have e: "vals h (ps ! k # drop (Suc k) ps) = drop k (vals h ps)" using k by (simp add: Cons_nth_drop_Suc [symmetric])
        show ?thesis
          by (rule fini [OF _ c(2) ops_finite(3) [OF c(1) fin]], unfold c(3) e)
            (use InsertAt s ix Some k False c(1) in \<open>simp_all add: list_step_def\<close>)
      qed
    qed
  next
    case (DelAt i)
    show ?thesis
    proof (cases "index_of i (length ps)")
      case None
      show ?thesis by (rule fini [OF _ at fin]) (use DelAt s ix None in \<open>simp_all add: list_step_def\<close>)
    next
      case (Some k)
      then have k: "k < length ps" by (rule index_of_less)
      have at': "list_at h l (take k ps @ ps ! k # drop (Suc k) ps)" using at split_at [OF k] by simp
      obtain n where n: "h (ps ! k) = Some n" using at k seg_dom [of h None ps None "ps ! k"] by (auto simp: list_at_def)
      obtain h' l' where c: "listDelNode h l (ps ! k) = Some (h', l')" "list_at h' l' (take k ps @ drop (Suc k) ps)"
          "vals h' (take k ps @ drop (Suc k) ps) = vals h (take k ps) @ vals h (drop (Suc k) ps)"
        using listDelNode_correct [OF at'] by blast
      show ?thesis
        by (rule fini [OF _ c(2) ops_finite(4) [OF c(1) fin]], unfold c(3))
          (use DelAt s ix Some k n c(1) in \<open>simp_all add: list_step_def\<close>)
    qed
  next
    case (GetAt i)
    show ?thesis
    proof (cases "index_of i (length ps)")
      case None
      show ?thesis by (rule fini [OF _ at fin]) (use GetAt s ix None in \<open>simp_all add: list_step_def\<close>)
    next
      case (Some k)
      then have k: "k < length ps" by (rule index_of_less)
      obtain n where "h (ps ! k) = Some n" using at k seg_dom [of h None ps None "ps ! k"] by (auto simp: list_at_def)
      then show ?thesis
        by (intro fini [OF _ at fin]) (use GetAt s ix Some k in \<open>simp_all add: list_step_def\<close>)
    qed
  qed
qed

interpretation list_ops: budget_simulation "list_step zmalloc" seq_step seq_of list_inv "\<lambda>_. fresh_alloc zmalloc"
  for zmalloc :: "'a heap \<Rightarrow> nat"
  by unfold_locales (rule list_step_sim)


section \<open>Properties\<close>

text \<open>
  C10.  Whatever sequence of insertions at the head, at the tail and beside a node, deletions, indexed
  reads (also from the tail, with negative indices) and rotations is applied to a new list, no \<open>NULL\<close>
  or freed node is followed, the results are those of the same operations on a sequence of values,
  and the links of the final list spell the final sequence, in both directions.  The allocator may
  return any block that is not in use.
\<close>

theorem adlist_refines_sequence:
  assumes "fresh_alloc zmalloc"
  shows "\<exists>h l rs ps. run_ops (list_step zmalloc) xs (Map.empty, listCreate) = Some ((h, l), rs)
    \<and> list_at h l ps \<and> run_spec seq_step xs [] = (vals h ps, rs)"
proof -
  let ?s = "(Map.empty, listCreate) :: 'a heap \<times> 'a dlist"
  have "list_inv (length xs + 0) ?s" using listCreate_at by (auto simp: list_inv_def)
  moreover have "seq_of ?s = []" by (simp add: seq_of_def listCreate_def)
  ultimately obtain s rs where s: "run_ops (list_step zmalloc) xs ?s = Some (s, rs)" "list_inv 0 s"
      "run_spec seq_step xs [] = (seq_of s, rs)"
    using list_ops.run_sim [of xs 0 ?s zmalloc] assms by (auto simp: list_all_iff)
  then show ?thesis using seq_of_list_at by (cases s) (fastforce simp: list_inv_def)
qed

text \<open>An allocator: the first address that is not in use.\<close>

definition first_free :: "'a heap \<Rightarrow> nat" where
  "first_free h = (LEAST p. h p = None)"

lemma first_free_fresh: "fresh_alloc first_free"
  unfolding fresh_alloc_def first_free_def
proof (intro allI impI)
  fix h :: "'a heap" assume "finite (dom h)"
  then obtain p where "p \<notin> dom h" using ex_new_if_finite infinite_UNIV_nat by blast
  then show "h (LEAST p. h p = None) = None" 
    using LeastI [of "\<lambda>p. h p = None" p] by (simp add: domIff)
qed

theorem adlist_refines_sequence_witness:
  "\<exists>h l rs ps. run_ops (list_step first_free) [AddTail 1, AddTail 2, AddHead 0, InsertAt (-1) 7 False, Rotate, DelAt 1, GetAt (-2)]
      (Map.empty, listCreate) = Some ((h, l), rs)
    \<and> list_at h l ps \<and> vals h ps = [2, 1, 7] \<and> rs = [None, None, None, None, None, Some 0, Some (1::int)]"
proof -
  let ?xs = "[AddTail 1, AddTail 2, AddHead 0, InsertAt (-1) 7 False, Rotate, DelAt 1, GetAt (-2)] :: int list_op list"
  have "run_spec seq_step ?xs [] = ([2, 1, 7], [None, None, None, None, None, Some 0, Some 1])"
    by (simp add: index_of_def)
  then show ?thesis using adlist_refines_sequence [OF first_free_fresh, of ?xs]
    by (auto simp del: run_ops.simps run_spec.simps)
qed

text \<open>
  Removing the node that \<open>listNext\<close> has just returned does not disturb the iteration: the loop that
  deletes the nodes whose value satisfies a test visits every node and leaves the other values, in
  order, in a well-formed list.
\<close>

theorem delete_while_iterating:
  assumes "list_at h l ps"
  shows "\<exists>h' l' qs. delete_where P (listRewind l) h l = Some (h', l') \<and> list_at h' l' qs
    \<and> vals h' qs = filter (\<lambda>v. \<not> P v) (vals h ps)"
  using delete_where_loop [of h l "[]" ps P] assms by (auto simp: list_at_def listRewind_def)

definition example_heap :: "int heap" where
  "example_heap = [1 \<mapsto> \<lparr>prev = None, nextn = Some 4, val = 10\<rparr>, 4 \<mapsto> \<lparr>prev = Some 1, nextn = None, val = 11\<rparr>]"

definition example_list :: "int dlist" where
  "example_list = \<lparr>head = Some 1, tail = Some 4, len = 2, dup = None, mtch = None\<rparr>"

lemma example_list_at: "list_at example_heap example_list [1, 4]"
  by (simp add: list_at_def example_heap_def example_list_def)

theorem delete_while_iterating_witness:
  "list_at example_heap example_list [1, 4] \<and>
   (\<exists>h' l' qs. delete_where even (listRewind example_list) example_heap example_list = Some (h', l')
     \<and> list_at h' l' qs \<and> vals h' qs = [11])"
proof -
  have "filter (\<lambda>v. odd v) (vals example_heap [1, 4]) = [11]" by (simp add: example_heap_def)
  then show ?thesis using delete_while_iterating [OF example_list_at, of even] example_list_at by auto
qed

text \<open>
  \<open>listDup\<close> is transactional.  If the \<open>dup\<close> method succeeds on every value, the copy is a new
  list, disjoint from the original, with the duplicated values in order, and the original is
  unchanged; if it fails on some value, \<open>NULL\<close> is returned and the heap is as before: every node of
  the partial copy has been freed.
\<close>

theorem listDup_transactional:
  assumes "fresh_alloc zmalloc" and "finite (dom h)" and "list_at h orig ps"
  shows "\<exists>h' r. listDup zmalloc h orig = Some (h', r)
    \<and> (if list_all (\<lambda>v. dup_val (dup orig) v \<noteq> None) (vals h ps)
       then \<exists>copy qs. r = Some copy \<and> list_at h' copy qs \<and> vals h' qs = map (the \<circ> dup_val (dup orig)) (vals h ps)
         \<and> list_at h' orig ps \<and> vals h' ps = vals h ps \<and> set qs \<inter> set ps = {}
       else r = None \<and> h' = h)"
  by (rule listDup_correct [OF assms])

theorem listDup_transactional_witness:
  "\<exists>h' copy qs. listDup first_free example_heap example_list = Some (h', Some copy)
    \<and> list_at h' copy qs \<and> vals h' qs = [10, 11]"
proof -
  have fin: "finite (dom example_heap)" by (simp add: example_heap_def)
  have v: "vals example_heap [1, 4] = [10, 11]" by (simp add: example_heap_def)
  have d: "dup_val (dup example_list) = Some" by (simp add: example_list_def dup_val_def fun_eq_iff)
  have all: "list_all (\<lambda>v. Some v \<noteq> None) [10, 11 :: int]" "map (the \<circ> Some) [10, 11 :: int] = [10, 11]" by simp_all
  obtain h' r where "listDup first_free example_heap example_list = Some (h', r)"
      "\<exists>copy qs. r = Some copy \<and> list_at h' copy qs \<and> vals h' qs = [10, 11]"
    using listDup_transactional [OF first_free_fresh fin example_list_at] unfolding v d if_P [OF all(1)] all(2) by blast
  then show ?thesis by blast
qed

end
