(* ===== verification/Pubsub.thy ===== *)
theory Pubsub
  imports Glob
begin

text \<open>
  \<^verbatim>\<open>pubsub.c\<close>: channels, patterns and publishing.  Clients are numbers.  The server's hash table from
  channels to lists of clients is a map (theory \<open>Dict\<close>), its list of patterns a list of pairs; every
  client has its own channels and patterns, the flag \<open>CLIENT_PUBSUB\<close> and the replies written to it.  The
  order in which the iterator of a hash table visits the keys is left open: it is the argument \<open>order\<close>,
  a function that arranges the keys.  A failed assertion and \<open>listDelNode\<close> of \<open>NULL\<close> are \<open>None\<close>;
  reference counts, cluster propagation and replication are not modelled.
\<close>

section \<open>The model\<close>

datatype reply =
    SubscribeReply bytes nat | UnsubscribeReply "bytes option" nat
  | PsubscribeReply bytes nat | PunsubscribeReply "bytes option" nat
  | Message bytes bytes | Pmessage bytes bytes bytes
  | IntReply nat | Channels "bytes list" | Numsub "(bytes \<times> nat) list" | ErrorReply

record pubsub =
  ps_channels :: "bytes \<rightharpoonup> nat list"
  ps_patterns :: "(nat \<times> bytes) list"
  cl_channels :: "nat \<Rightarrow> bytes list"
  cl_patterns :: "nat \<Rightarrow> bytes list"
  cl_pubsub :: "nat \<Rightarrow> bool"
  cl_out :: "nat \<Rightarrow> reply list"

definition addReply :: "nat \<Rightarrow> reply \<Rightarrow> pubsub \<Rightarrow> pubsub" where
  "addReply c r s = s\<lparr>cl_out := (cl_out s)(c := cl_out s c @ [r])\<rparr>"

definition clientSubscriptionsCount :: "nat \<Rightarrow> pubsub \<Rightarrow> nat" where
  "clientSubscriptionsCount c s = length (cl_channels s c) + length (cl_patterns s c)"

definition pubsubSubscribeChannel :: "nat \<Rightarrow> bytes \<Rightarrow> pubsub \<Rightarrow> pubsub \<times> bool" where
  "pubsubSubscribeChannel c channel s =
     (let retval = channel \<notin> set (cl_channels s c);
          s1 = (if retval then
                  let s0 = s\<lparr>cl_channels := (cl_channels s)(c := cl_channels s c @ [channel])\<rparr>;
                      clients = (case ps_channels s0 channel of None \<Rightarrow> [] | Some clients \<Rightarrow> clients)
                  in s0\<lparr>ps_channels := (ps_channels s0)(channel \<mapsto> clients @ [c])\<rparr>
                else s)
      in (addReply c (SubscribeReply channel (clientSubscriptionsCount c s1)) s1, retval))"

definition pubsubUnsubscribeChannel :: "nat \<Rightarrow> bytes \<Rightarrow> bool \<Rightarrow> pubsub \<Rightarrow> (pubsub \<times> bool) option" where
  "pubsubUnsubscribeChannel c channel notify s = do {
     (s1, retval) \<leftarrow>
       (if channel \<in> set (cl_channels s c) then do {
          let s0 = s\<lparr>cl_channels := (cl_channels s)(c := remove1 channel (cl_channels s c))\<rparr>;
          clients \<leftarrow> ps_channels s0 channel;
          (if c \<notin> set clients then None
           else
             let clients' = remove1 c clients
             in Some (s0\<lparr>ps_channels := (ps_channels s0)(channel := if clients' = [] then None else Some clients')\<rparr>, True))}
        else Some (s, False));
     Some (if notify then addReply c (UnsubscribeReply (Some channel) (length (cl_channels s1 c) + length (cl_patterns s1 c))) s1
           else s1, retval)}"

definition pubsubSubscribePattern :: "nat \<Rightarrow> bytes \<Rightarrow> pubsub \<Rightarrow> pubsub \<times> bool" where
  "pubsubSubscribePattern c pattern s =
     (let retval = pattern \<notin> set (cl_patterns s c);
          s1 = (if retval then
                  s\<lparr>cl_patterns := (cl_patterns s)(c := cl_patterns s c @ [pattern]),
                    ps_patterns := ps_patterns s @ [(c, pattern)]\<rparr>
                else s)
      in (addReply c (PsubscribeReply pattern (clientSubscriptionsCount c s1)) s1, retval))"

definition pubsubUnsubscribePattern :: "nat \<Rightarrow> bytes \<Rightarrow> bool \<Rightarrow> pubsub \<Rightarrow> (pubsub \<times> bool) option" where
  "pubsubUnsubscribePattern c pattern notify s = do {
     (s1, retval) \<leftarrow>
       (if pattern \<in> set (cl_patterns s c) then
          let s0 = s\<lparr>cl_patterns := (cl_patterns s)(c := remove1 pattern (cl_patterns s c))\<rparr>
          in if (c, pattern) \<notin> set (ps_patterns s0) then None
             else Some (s0\<lparr>ps_patterns := remove1 (c, pattern) (ps_patterns s0)\<rparr>, True)
        else Some (s, False));
     Some (if notify then addReply c (PunsubscribeReply (Some pattern) (length (cl_channels s1 c) + length (cl_patterns s1 c))) s1
           else s1, retval)}"

fun unsubscribe_each :: "(bytes \<Rightarrow> pubsub \<Rightarrow> (pubsub \<times> bool) option) \<Rightarrow> bytes list \<Rightarrow> pubsub \<Rightarrow> (pubsub \<times> nat) option" where
  "unsubscribe_each f [] s = Some (s, 0)"
| "unsubscribe_each f (x # xs) s = do {
     (s1, r) \<leftarrow> f x s;
     (s2, count) \<leftarrow> unsubscribe_each f xs s1;
     Some (s2, (if r then 1 else 0) + count)}"

definition pubsubUnsubscribeAllChannels :: "(bytes list \<Rightarrow> bytes list) \<Rightarrow> nat \<Rightarrow> bool \<Rightarrow> pubsub \<Rightarrow> (pubsub \<times> nat) option" where
  "pubsubUnsubscribeAllChannels order c notify s = do {
     (s1, count) \<leftarrow> unsubscribe_each (\<lambda>ch. pubsubUnsubscribeChannel c ch notify) (order (cl_channels s c)) s;
     Some (if notify \<and> count = 0
           then addReply c (UnsubscribeReply None (length (cl_channels s1 c) + length (cl_patterns s1 c))) s1 else s1, count)}"

definition pubsubUnsubscribeAllPatterns :: "nat \<Rightarrow> bool \<Rightarrow> pubsub \<Rightarrow> (pubsub \<times> nat) option" where
  "pubsubUnsubscribeAllPatterns c notify s = do {
     (s1, count) \<leftarrow> unsubscribe_each (\<lambda>p. pubsubUnsubscribePattern c p notify) (cl_patterns s c) s;
     Some (if notify \<and> count = 0
           then addReply c (PunsubscribeReply None (length (cl_channels s1 c) + length (cl_patterns s1 c))) s1 else s1, count)}"

fun publish_clients :: "nat list \<Rightarrow> bytes \<Rightarrow> bytes \<Rightarrow> pubsub \<times> nat \<Rightarrow> pubsub \<times> nat" where
  "publish_clients [] channel message (s, receivers) = (s, receivers)"
| "publish_clients (c # clients) channel message (s, receivers) =
     publish_clients clients channel message (addReply c (Message channel message) s, receivers + 1)"

fun publish_patterns :: "(nat \<times> bytes) list \<Rightarrow> bytes \<Rightarrow> bytes \<Rightarrow> pubsub \<times> nat \<Rightarrow> (pubsub \<times> nat) option" where
  "publish_patterns [] channel message (s, receivers) = Some (s, receivers)"
| "publish_patterns ((c, pat) # pats) channel message (s, receivers) = do {
     m \<leftarrow> stringmatchlen pat channel False;
     publish_patterns pats channel message
       (if m then (addReply c (Pmessage pat channel message) s, receivers + 1) else (s, receivers))}"

definition pubsubPublishMessage :: "bytes \<Rightarrow> bytes \<Rightarrow> pubsub \<Rightarrow> (pubsub \<times> nat) option" where
  "pubsubPublishMessage channel message s =
     (let sr = (case ps_channels s channel of None \<Rightarrow> (s, 0)
                | Some clients \<Rightarrow> publish_clients clients channel message (s, 0))
      in publish_patterns (ps_patterns (fst sr)) channel message sr)"

text \<open>The commands; \<open>args\<close> are the arguments after the command name.\<close>

definition subscribeCommand :: "nat \<Rightarrow> bytes list \<Rightarrow> pubsub \<Rightarrow> pubsub" where
  "subscribeCommand c args s =
     (let s1 = foldl (\<lambda>s ch. fst (pubsubSubscribeChannel c ch s)) s args
      in s1\<lparr>cl_pubsub := (cl_pubsub s1)(c := True)\<rparr>)"

definition clear_flag_if_none :: "nat \<Rightarrow> pubsub \<Rightarrow> pubsub" where
  "clear_flag_if_none c s =
     (if clientSubscriptionsCount c s = 0 then s\<lparr>cl_pubsub := (cl_pubsub s)(c := False)\<rparr> else s)"

definition unsubscribeCommand :: "(bytes list \<Rightarrow> bytes list) \<Rightarrow> nat \<Rightarrow> bytes list \<Rightarrow> pubsub \<Rightarrow> pubsub option" where
  "unsubscribeCommand order c args s =
     map_option (clear_flag_if_none c \<circ> fst)
       (if args = [] then pubsubUnsubscribeAllChannels order c True s
        else unsubscribe_each (\<lambda>ch. pubsubUnsubscribeChannel c ch True) args s)"

definition psubscribeCommand :: "nat \<Rightarrow> bytes list \<Rightarrow> pubsub \<Rightarrow> pubsub" where
  "psubscribeCommand c args s =
     (let s1 = foldl (\<lambda>s p. fst (pubsubSubscribePattern c p s)) s args
      in s1\<lparr>cl_pubsub := (cl_pubsub s1)(c := True)\<rparr>)"

definition punsubscribeCommand :: "nat \<Rightarrow> bytes list \<Rightarrow> pubsub \<Rightarrow> pubsub option" where
  "punsubscribeCommand c args s =
     map_option (clear_flag_if_none c \<circ> fst)
       (if args = [] then pubsubUnsubscribeAllPatterns c True s
        else unsubscribe_each (\<lambda>p. pubsubUnsubscribePattern c p True) args s)"

definition publishCommand :: "nat \<Rightarrow> bytes \<Rightarrow> bytes \<Rightarrow> pubsub \<Rightarrow> pubsub option" where
  "publishCommand c channel message s = do {
     (s1, receivers) \<leftarrow> pubsubPublishMessage channel message s;
     Some (addReply c (IntReply receivers) s1)}"

text \<open>\<open>keys\<close>: the channels in the order in which \<open>dictNext\<close> returns them.\<close>

fun channels_matching :: "bytes option \<Rightarrow> bytes list \<Rightarrow> bytes list option" where
  "channels_matching pat [] = Some []"
| "channels_matching pat (ch # keys) = do {
     m \<leftarrow> (case pat of None \<Rightarrow> Some True | Some p \<Rightarrow> stringmatchlen p ch False);
     rest \<leftarrow> channels_matching pat keys;
     Some (if m then ch # rest else rest)}"

text \<open>What \<open>strcasecmp\<close> compares: the bytes before the first zero byte, in lower case.\<close>

definition lower_string :: "bytes \<Rightarrow> bytes" where
  "lower_string s = map tolower (takeWhile (\<lambda>b. b \<noteq> 0) s)"

definition pubsubCommand :: "bytes list \<Rightarrow> nat \<Rightarrow> bytes list \<Rightarrow> pubsub \<Rightarrow> pubsub option" where
  "pubsubCommand keys c args s =
     (case args of [] \<Rightarrow> None
      | sub # rest \<Rightarrow>
        if lower_string sub = [99, 104, 97, 110, 110, 101, 108, 115] \<and> length rest \<le> 1 then do {
          chans \<leftarrow> channels_matching (case rest of [] \<Rightarrow> None | p # _ \<Rightarrow> Some p) keys;
          Some (addReply c (Channels chans) s)}
        else if lower_string sub = [110, 117, 109, 115, 117, 98] then
          Some (addReply c (Numsub (map (\<lambda>ch. (ch, case ps_channels s ch of None \<Rightarrow> 0 | Some l \<Rightarrow> length l)) rest)) s)
        else if lower_string sub = [110, 117, 109, 112, 97, 116] \<and> rest = [] then
          Some (addReply c (IntReply (length (ps_patterns s))) s)
        else Some (addReply c ErrorReply s))"


section \<open>The two views of a subscription\<close>

definition ps_inv :: "pubsub \<Rightarrow> bool" where
  "ps_inv s \<longleftrightarrow>
     (\<forall>c. distinct (cl_channels s c)) \<and> (\<forall>c. distinct (cl_patterns s c))
     \<and> (\<forall>ch l. ps_channels s ch = Some l \<longrightarrow> l \<noteq> [] \<and> distinct l)
     \<and> (\<forall>ch c. ch \<in> set (cl_channels s c) \<longleftrightarrow> (\<exists>l. ps_channels s ch = Some l \<and> c \<in> set l))
     \<and> distinct (ps_patterns s)
     \<and> (\<forall>c p. p \<in> set (cl_patterns s c) \<longleftrightarrow> (c, p) \<in> set (ps_patterns s))"

definition ps_empty :: pubsub where
  "ps_empty = \<lparr>ps_channels = Map.empty, ps_patterns = [], cl_channels = (\<lambda>_. []), cl_patterns = (\<lambda>_. []),
     cl_pubsub = (\<lambda>_. False), cl_out = (\<lambda>_. [])\<rparr>"

lemma ps_inv_empty: "ps_inv ps_empty"
  by (simp add: ps_inv_def ps_empty_def)

lemma addReply_fields [simp]: "ps_channels (addReply c r s) = ps_channels s" "ps_patterns (addReply c r s) = ps_patterns s"
    "cl_channels (addReply c r s) = cl_channels s" "cl_patterns (addReply c r s) = cl_patterns s"
    "cl_pubsub (addReply c r s) = cl_pubsub s" "cl_out (addReply c r s) = (cl_out s)(c := cl_out s c @ [r])"
  by (simp_all add: addReply_def)

lemma ps_inv_addReply [simp]: "ps_inv (addReply c r s) = ps_inv s"
  by (simp add: ps_inv_def)

lemma ps_inv_flag [simp]: "ps_inv (s\<lparr>cl_pubsub := f\<rparr>) = ps_inv s"
  by (simp add: ps_inv_def)

lemma subscribe_channel_inv: "ps_inv s \<Longrightarrow> ps_inv (fst (pubsubSubscribeChannel c ch s))"
  by (cases "ch \<in> set (cl_channels s c)"; cases "ps_channels s ch")
    (auto simp: pubsubSubscribeChannel_def Let_def ps_inv_def)

lemma subscribe_pattern_inv: "ps_inv s \<Longrightarrow> ps_inv (fst (pubsubSubscribePattern c p s))"
  by (cases "p \<in> set (cl_patterns s c)") (auto simp: pubsubSubscribePattern_def Let_def ps_inv_def)

lemma unsubscribe_channel_inv:
  assumes inv: "ps_inv s"
  shows "\<exists>s'. pubsubUnsubscribeChannel c ch notify s = Some (s', ch \<in> set (cl_channels s c)) \<and> ps_inv s'
    \<and> cl_channels s' = (cl_channels s)(c := remove1 ch (cl_channels s c)) \<and> cl_patterns s' = cl_patterns s
    \<and> cl_pubsub s' = cl_pubsub s"
proof (cases "ch \<in> set (cl_channels s c)")
  case False
  then show ?thesis using inv by (simp add: pubsubUnsubscribeChannel_def remove1_idem)
next
  case True
  then obtain l where l: "ps_channels s ch = Some l" "c \<in> set l" "distinct l" using inv by (auto simp: ps_inv_def)
  let ?l = "remove1 c l"
  let ?s = "s\<lparr>cl_channels := (cl_channels s)(c := remove1 ch (cl_channels s c)),
    ps_channels := (ps_channels s)(ch := if ?l = [] then None else Some ?l)\<rparr>"
  have "set ?l = set l - {c}" "distinct (cl_channels s c)" using l(3) inv by (auto simp: ps_inv_def)
  moreover from this have "x = c" if "?l = []" "x \<in> set l" for x using that by (metis DiffI empty_iff empty_set insertE)
  ultimately have "ps_inv ?s" using inv l by (auto simp: ps_inv_def)
  then show ?thesis using True l by (auto simp: pubsubUnsubscribeChannel_def Let_def)
qed

lemma unsubscribe_pattern_inv:
  assumes inv: "ps_inv s"
  shows "\<exists>s'. pubsubUnsubscribePattern c p notify s = Some (s', p \<in> set (cl_patterns s c)) \<and> ps_inv s'
    \<and> cl_patterns s' = (cl_patterns s)(c := remove1 p (cl_patterns s c)) \<and> cl_channels s' = cl_channels s
    \<and> cl_pubsub s' = cl_pubsub s"
proof (cases "p \<in> set (cl_patterns s c)")
  case False
  then show ?thesis using inv by (simp add: pubsubUnsubscribePattern_def remove1_idem)
next
  case True
  then have mem: "(c, p) \<in> set (ps_patterns s)" using inv by (auto simp: ps_inv_def)
  let ?s = "s\<lparr>cl_patterns := (cl_patterns s)(c := remove1 p (cl_patterns s c)), ps_patterns := remove1 (c, p) (ps_patterns s)\<rparr>"
  have "ps_inv ?s" using inv by (auto simp: ps_inv_def)
  then show ?thesis using True mem by (auto simp: pubsubUnsubscribePattern_def Let_def)
qed

text \<open>Unsubscribing from several channels or patterns, one after the other.\<close>

lemma unsubscribe_channels:
  assumes "ps_inv s"
  shows "\<exists>s' n. unsubscribe_each (\<lambda>ch. pubsubUnsubscribeChannel c ch notify) chs s = Some (s', n) \<and> ps_inv s'
    \<and> set (cl_channels s' c) = set (cl_channels s c) - set chs \<and> (\<forall>d. d \<noteq> c \<longrightarrow> cl_channels s' d = cl_channels s d)
    \<and> cl_patterns s' = cl_patterns s \<and> cl_pubsub s' = cl_pubsub s"
  using assms
proof (induction chs arbitrary: s)
  case (Cons ch chs)
  obtain s1 where s1: "pubsubUnsubscribeChannel c ch notify s = Some (s1, ch \<in> set (cl_channels s c))" "ps_inv s1"
      "cl_channels s1 = (cl_channels s)(c := remove1 ch (cl_channels s c))" "cl_patterns s1 = cl_patterns s" "cl_pubsub s1 = cl_pubsub s"
    using unsubscribe_channel_inv [OF Cons.prems] by blast
  have "set (cl_channels s1 c) = set (cl_channels s c) - {ch}"
    using s1(3) Cons.prems by (auto simp: ps_inv_def)
  then show ?case using Cons.IH [OF s1(2)] s1 by auto
qed simp

lemma unsubscribe_patterns:
  assumes "ps_inv s"
  shows "\<exists>s' n. unsubscribe_each (\<lambda>p. pubsubUnsubscribePattern c p notify) ps s = Some (s', n) \<and> ps_inv s'
    \<and> set (cl_patterns s' c) = set (cl_patterns s c) - set ps \<and> (\<forall>d. d \<noteq> c \<longrightarrow> cl_patterns s' d = cl_patterns s d)
    \<and> cl_channels s' = cl_channels s \<and> cl_pubsub s' = cl_pubsub s"
  using assms
proof (induction ps arbitrary: s)
  case (Cons p ps)
  obtain s1 where s1: "pubsubUnsubscribePattern c p notify s = Some (s1, p \<in> set (cl_patterns s c))" "ps_inv s1"
      "cl_patterns s1 = (cl_patterns s)(c := remove1 p (cl_patterns s c))" "cl_channels s1 = cl_channels s" "cl_pubsub s1 = cl_pubsub s"
    using unsubscribe_pattern_inv [OF Cons.prems] by blast
  have "set (cl_patterns s1 c) = set (cl_patterns s c) - {p}"
    using s1(3) Cons.prems by (auto simp: ps_inv_def)
  then show ?case using Cons.IH [OF s1(2)] s1 by auto
qed simp

lemma unsubscribe_all_channels:
  assumes "ps_inv s" and "set (order (cl_channels s c)) = set (cl_channels s c)"
  shows "\<exists>s' n. pubsubUnsubscribeAllChannels order c notify s = Some (s', n) \<and> ps_inv s' \<and> cl_channels s' c = []
    \<and> (\<forall>d. d \<noteq> c \<longrightarrow> cl_channels s' d = cl_channels s d) \<and> cl_patterns s' = cl_patterns s \<and> cl_pubsub s' = cl_pubsub s"
proof -
  obtain s1 n where "unsubscribe_each (\<lambda>ch. pubsubUnsubscribeChannel c ch notify) (order (cl_channels s c)) s = Some (s1, n)"
      "ps_inv s1" "set (cl_channels s1 c) = {}" "\<forall>d. d \<noteq> c \<longrightarrow> cl_channels s1 d = cl_channels s d"
      "cl_patterns s1 = cl_patterns s" "cl_pubsub s1 = cl_pubsub s"
    using unsubscribe_channels [OF assms(1), of c notify "order (cl_channels s c)"] assms(2) by auto
  then show ?thesis by (auto simp: pubsubUnsubscribeAllChannels_def)
qed

lemma unsubscribe_all_patterns:
  assumes "ps_inv s"
  shows "\<exists>s' n. pubsubUnsubscribeAllPatterns c notify s = Some (s', n) \<and> ps_inv s' \<and> cl_patterns s' c = []
    \<and> (\<forall>d. d \<noteq> c \<longrightarrow> cl_patterns s' d = cl_patterns s d) \<and> cl_channels s' = cl_channels s \<and> cl_pubsub s' = cl_pubsub s"
proof -
  obtain s1 n where "unsubscribe_each (\<lambda>p. pubsubUnsubscribePattern c p notify) (cl_patterns s c) s = Some (s1, n)"
      "ps_inv s1" "set (cl_patterns s1 c) = {}" "\<forall>d. d \<noteq> c \<longrightarrow> cl_patterns s1 d = cl_patterns s d"
      "cl_channels s1 = cl_channels s" "cl_pubsub s1 = cl_pubsub s"
    using unsubscribe_patterns [OF assms, of c notify "cl_patterns s c"] by auto
  then show ?thesis by (auto simp: pubsubUnsubscribeAllPatterns_def)
qed


section \<open>Publishing\<close>

lemma publish_clients_correct:
  "publish_clients cs ch m (s, n) = (s', n') \<Longrightarrow>
    n' = n + length cs \<and> cl_out s' = (\<lambda>c. cl_out s c @ replicate (count_list cs c) (Message ch m))
    \<and> ps_patterns s' = ps_patterns s \<and> ps_channels s' = ps_channels s \<and> cl_channels s' = cl_channels s
    \<and> cl_patterns s' = cl_patterns s \<and> cl_pubsub s' = cl_pubsub s"
proof (induction cs arbitrary: s n)
  case (Cons c cs)
  have rep: "replicate (Suc k) x = x # replicate k x" for k and x :: reply by simp
  show ?case using Cons.IH [of "addReply c (Message ch m) s" "n + 1"] Cons.prems
    by (auto simp: fun_eq_iff)
qed simp

definition pattern_hits :: "(nat \<times> bytes) list \<Rightarrow> bytes \<Rightarrow> (nat \<times> bytes) list" where
  "pattern_hits pats ch = filter (\<lambda>(c, p). stringmatchlen p ch False = Some True) pats"

lemma publish_patterns_correct:
  assumes "\<forall>(c, p) \<in> set pats. stringmatchlen p ch False \<noteq> None"
  shows "\<exists>s'. publish_patterns pats ch m (s, n) = Some (s', n + length (pattern_hits pats ch))
    \<and> cl_out s' = (\<lambda>c. cl_out s c @ map (\<lambda>(_, p). Pmessage p ch m) (filter (\<lambda>(d, _). d = c) (pattern_hits pats ch)))
    \<and> ps_patterns s' = ps_patterns s \<and> ps_channels s' = ps_channels s \<and> cl_channels s' = cl_channels s
    \<and> cl_patterns s' = cl_patterns s \<and> cl_pubsub s' = cl_pubsub s"
  using assms
proof (induction pats arbitrary: s n)
  case Nil
  then show ?case by (simp add: pattern_hits_def)
next
  case (Cons cp pats)
  obtain c p where cp: "cp = (c, p)" by (cases cp)
  obtain b where b: "stringmatchlen p ch False = Some b" using Cons.prems cp by auto
  have rest: "\<forall>(c, p) \<in> set pats. stringmatchlen p ch False \<noteq> None" using Cons.prems by simp
  show ?case
  proof (cases b)
    case True
    from Cons.IH [OF rest, of "addReply c (Pmessage p ch m) s" "n + 1"] show ?thesis
      using True b cp by (auto simp: pattern_hits_def fun_eq_iff)
  next
    case False
    from Cons.IH [OF rest, of s n] show ?thesis using False b cp by (auto simp: pattern_hits_def)
  qed
qed

lemma count_list_distinct: "distinct l \<Longrightarrow> count_list l c = (if c \<in> set l then 1 else 0)"
  by (induction l) auto

lemma publish_correct:
  assumes inv: "ps_inv s" and matches: "\<forall>(c, p) \<in> set (ps_patterns s). stringmatchlen p ch False \<noteq> None"
  shows "\<exists>s' n. pubsubPublishMessage ch m s = Some (s', n) \<and> ps_inv s' \<and> cl_pubsub s' = cl_pubsub s
    \<and> cl_channels s' = cl_channels s \<and> cl_patterns s' = cl_patterns s
    \<and> n = length (case ps_channels s ch of None \<Rightarrow> [] | Some l \<Rightarrow> l) + length (pattern_hits (ps_patterns s) ch)
    \<and> (\<forall>c. cl_out s' c = cl_out s c @ (if ch \<in> set (cl_channels s c) then [Message ch m] else [])
        @ map (\<lambda>(_, p). Pmessage p ch m) (filter (\<lambda>(d, _). d = c) (pattern_hits (ps_patterns s) ch)))"
proof -
  define l where "l = (case ps_channels s ch of None \<Rightarrow> [] | Some l \<Rightarrow> l)"
  obtain s1 n1 where s1: "publish_clients l ch m (s, 0) = (s1, n1)" by (cases "publish_clients l ch m (s, 0)")
  note c1 = publish_clients_correct [OF s1]
  have start: "(case ps_channels s ch of None \<Rightarrow> (s, 0) | Some clients \<Rightarrow> publish_clients clients ch m (s, 0)) = (s1, n1)"
    using s1 by (cases "ps_channels s ch") (auto simp: l_def)
  have "\<forall>(c, p) \<in> set (ps_patterns s1). stringmatchlen p ch False \<noteq> None" using matches c1 by simp
  from publish_patterns_correct [OF this, of m s1 n1] obtain s' where
      s': "publish_patterns (ps_patterns s1) ch m (s1, n1) = Some (s', n1 + length (pattern_hits (ps_patterns s1) ch))"
        "cl_out s' = (\<lambda>c. cl_out s1 c @ map (\<lambda>(_, p). Pmessage p ch m) (filter (\<lambda>(d, _). d = c) (pattern_hits (ps_patterns s1) ch)))"
        "ps_patterns s' = ps_patterns s1" "ps_channels s' = ps_channels s1" "cl_channels s' = cl_channels s1"
        "cl_patterns s' = cl_patterns s1" "cl_pubsub s' = cl_pubsub s1" by blast
  have cnt: "replicate (count_list l c) x = (if ch \<in> set (cl_channels s c) then [x] else [])" for c and x :: reply
  proof -
    have "distinct l" "ch \<in> set (cl_channels s c) \<longleftrightarrow> c \<in> set l"
      using inv by (cases "ps_channels s ch"; auto simp: ps_inv_def l_def)+
    then show ?thesis by (simp add: count_list_distinct)
  qed
  have "ps_inv s'" using inv s' c1 by (simp add: ps_inv_def)
  then show ?thesis using s' c1 start cnt
    by (simp add: pubsubPublishMessage_def Let_def l_def [symmetric])
qed


section \<open>The server over time\<close>

datatype ps_cmd = Subscribe nat "bytes list" | Unsubscribe nat "bytes list" | Psubscribe nat "bytes list"
  | Punsubscribe nat "bytes list" | Publish nat bytes bytes | FreeClient nat

text \<open>What \<open>freeClient\<close> of \<^verbatim>\<open>networking.c\<close> does to the subscriptions; the client structure is gone after it.\<close>

definition freeClient_pubsub :: "(bytes list \<Rightarrow> bytes list) \<Rightarrow> nat \<Rightarrow> pubsub \<Rightarrow> pubsub option" where
  "freeClient_pubsub order c s = do {
     (s1, _) \<leftarrow> pubsubUnsubscribeAllChannels order c False s;
     (s2, _) \<leftarrow> pubsubUnsubscribeAllPatterns c False s1;
     Some (s2\<lparr>cl_pubsub := (cl_pubsub s2)(c := False), cl_out := (cl_out s2)(c := [])\<rparr>)}"

fun ps_step :: "(bytes list \<Rightarrow> bytes list) \<Rightarrow> ps_cmd \<Rightarrow> pubsub \<Rightarrow> pubsub option" where
  "ps_step order (Subscribe c args) s = Some (subscribeCommand c args s)"
| "ps_step order (Unsubscribe c args) s = unsubscribeCommand order c args s"
| "ps_step order (Psubscribe c args) s = Some (psubscribeCommand c args s)"
| "ps_step order (Punsubscribe c args) s = punsubscribeCommand c args s"
| "ps_step order (Publish c ch m) s = publishCommand c ch m s"
| "ps_step order (FreeClient c) s = freeClient_pubsub order c s"

text \<open>The arity of the command table: \<open>SUBSCRIBE\<close> and \<open>PSUBSCRIBE\<close> have an argument.\<close>

fun ps_arity :: "ps_cmd \<Rightarrow> bool" where
  "ps_arity (Subscribe c args) \<longleftrightarrow> args \<noteq> []"
| "ps_arity (Psubscribe c args) \<longleftrightarrow> args \<noteq> []"
| "ps_arity _ \<longleftrightarrow> True"

inductive ps_reachable :: "(bytes list \<Rightarrow> bytes list) \<Rightarrow> pubsub \<Rightarrow> bool" for order where
  start: "ps_reachable order ps_empty"
| step: "ps_reachable order s \<Longrightarrow> ps_arity x \<Longrightarrow> ps_step order x s = Some s' \<Longrightarrow> ps_reachable order s'"

definition flag_inv :: "pubsub \<Rightarrow> bool" where
  "flag_inv s \<longleftrightarrow> (\<forall>c. cl_pubsub s c \<longleftrightarrow> clientSubscriptionsCount c s \<noteq> 0)"

lemma subscribe_fold:
  "ps_inv s \<Longrightarrow> ps_inv (foldl (\<lambda>s ch. fst (pubsubSubscribeChannel c ch s)) s args)
    \<and> (\<forall>d. d \<noteq> c \<longrightarrow> cl_channels (foldl (\<lambda>s ch. fst (pubsubSubscribeChannel c ch s)) s args) d = cl_channels s d)
    \<and> set (cl_channels (foldl (\<lambda>s ch. fst (pubsubSubscribeChannel c ch s)) s args) c) = set (cl_channels s c) \<union> set args
    \<and> cl_patterns (foldl (\<lambda>s ch. fst (pubsubSubscribeChannel c ch s)) s args) = cl_patterns s
    \<and> cl_pubsub (foldl (\<lambda>s ch. fst (pubsubSubscribeChannel c ch s)) s args) = cl_pubsub s"
proof (induction args arbitrary: s)
  case (Cons ch args)
  let ?s = "fst (pubsubSubscribeChannel c ch s)"
  have "(\<forall>d. d \<noteq> c \<longrightarrow> cl_channels ?s d = cl_channels s d) \<and> set (cl_channels ?s c) = insert ch (set (cl_channels s c))
      \<and> cl_patterns ?s = cl_patterns s \<and> cl_pubsub ?s = cl_pubsub s"
    by (auto simp: pubsubSubscribeChannel_def Let_def)
  then show ?case using Cons.IH [OF subscribe_channel_inv [OF Cons.prems]] by simp
qed simp

lemma psubscribe_fold:
  "ps_inv s \<Longrightarrow> ps_inv (foldl (\<lambda>s p. fst (pubsubSubscribePattern c p s)) s args)
    \<and> (\<forall>d. d \<noteq> c \<longrightarrow> cl_patterns (foldl (\<lambda>s p. fst (pubsubSubscribePattern c p s)) s args) d = cl_patterns s d)
    \<and> set (cl_patterns (foldl (\<lambda>s p. fst (pubsubSubscribePattern c p s)) s args) c) = set (cl_patterns s c) \<union> set args
    \<and> cl_channels (foldl (\<lambda>s p. fst (pubsubSubscribePattern c p s)) s args) = cl_channels s
    \<and> cl_pubsub (foldl (\<lambda>s p. fst (pubsubSubscribePattern c p s)) s args) = cl_pubsub s"
proof (induction args arbitrary: s)
  case (Cons p args)
  let ?s = "fst (pubsubSubscribePattern c p s)"
  have "(\<forall>d. d \<noteq> c \<longrightarrow> cl_patterns ?s d = cl_patterns s d) \<and> set (cl_patterns ?s c) = insert p (set (cl_patterns s c))
      \<and> cl_channels ?s = cl_channels s \<and> cl_pubsub ?s = cl_pubsub s"
    by (auto simp: pubsubSubscribePattern_def Let_def)
  then show ?case using Cons.IH [OF subscribe_pattern_inv [OF Cons.prems]] by simp
qed simp

lemma clear_flag_inv:
  assumes "ps_inv s" and "\<And>d. d \<noteq> c \<Longrightarrow> cl_pubsub s d \<longleftrightarrow> clientSubscriptionsCount d s \<noteq> 0"
    and "clientSubscriptionsCount c s \<noteq> 0 \<Longrightarrow> cl_pubsub s c"
  shows "ps_inv (clear_flag_if_none c s) \<and> flag_inv (clear_flag_if_none c s)"
proof (cases "clientSubscriptionsCount c s = 0")
  case True
  then show ?thesis using assms(1,2)
    by (auto simp: clear_flag_if_none_def flag_inv_def clientSubscriptionsCount_def)
next
  case False
  have "cl_pubsub s d \<longleftrightarrow> clientSubscriptionsCount d s \<noteq> 0" for d
    using assms(2) [of d] assms(3) False by (cases "d = c") auto
  then show ?thesis using False assms(1) by (simp add: clear_flag_if_none_def flag_inv_def)
qed

lemma ps_step_correct:
  assumes inv: "ps_inv s" "flag_inv s" and arity: "ps_arity x" and order: "\<forall>xs. set (order xs) = set xs"
    and match: "\<And>c ch m p d. x = Publish c ch m \<Longrightarrow> (d, p) \<in> set (ps_patterns s) \<Longrightarrow> stringmatchlen p ch False \<noteq> None"
  shows "\<exists>s'. ps_step order x s = Some s' \<and> ps_inv s' \<and> flag_inv s'"
proof (cases x)
  case (Subscribe c args)
  then show ?thesis using subscribe_fold [OF inv(1), of c args] inv(2) arity
    by (auto simp: subscribeCommand_def Let_def flag_inv_def clientSubscriptionsCount_def)
next
  case (Psubscribe c args)
  then show ?thesis using psubscribe_fold [OF inv(1), of c args] inv(2) arity
    by (auto simp: psubscribeCommand_def Let_def flag_inv_def clientSubscriptionsCount_def)
next
  case (Unsubscribe c args)
  obtain s1 n where s1: "(if args = [] then pubsubUnsubscribeAllChannels order c True s
        else unsubscribe_each (\<lambda>ch. pubsubUnsubscribeChannel c ch True) args s) = Some (s1, n)" "ps_inv s1"
      "set (cl_channels s1 c) \<subseteq> set (cl_channels s c)" "\<forall>d. d \<noteq> c \<longrightarrow> cl_channels s1 d = cl_channels s d"
      "cl_patterns s1 = cl_patterns s" "cl_pubsub s1 = cl_pubsub s"
  proof (cases "args = []")
    case True
    then show thesis using unsubscribe_all_channels [OF inv(1), of order c True] order that by auto
  next
    case False
    then show thesis using unsubscribe_channels [OF inv(1), of c True args] that by auto
  qed
  have "ps_inv (clear_flag_if_none c s1) \<and> flag_inv (clear_flag_if_none c s1)"
    using s1 inv(2) by (intro clear_flag_inv) (auto simp: flag_inv_def clientSubscriptionsCount_def)
  then show ?thesis using s1(1) Unsubscribe by (auto simp: unsubscribeCommand_def)
next
  case (Punsubscribe c args)
  obtain s1 n where s1: "(if args = [] then pubsubUnsubscribeAllPatterns c True s
        else unsubscribe_each (\<lambda>p. pubsubUnsubscribePattern c p True) args s) = Some (s1, n)" "ps_inv s1"
      "set (cl_patterns s1 c) \<subseteq> set (cl_patterns s c)" "\<forall>d. d \<noteq> c \<longrightarrow> cl_patterns s1 d = cl_patterns s d"
      "cl_channels s1 = cl_channels s" "cl_pubsub s1 = cl_pubsub s"
  proof (cases "args = []")
    case True
    then show thesis using unsubscribe_all_patterns [OF inv(1), of c True] that by auto
  next
    case False
    then show thesis using unsubscribe_patterns [OF inv(1), of c True args] that by auto
  qed
  have "ps_inv (clear_flag_if_none c s1) \<and> flag_inv (clear_flag_if_none c s1)"
    using s1 inv(2) by (intro clear_flag_inv) (auto simp: flag_inv_def clientSubscriptionsCount_def)
  then show ?thesis using s1(1) Punsubscribe by (auto simp: punsubscribeCommand_def)
next
  case (Publish c ch m)
  have "\<forall>(d, p) \<in> set (ps_patterns s). stringmatchlen p ch False \<noteq> None" using match [OF Publish] by auto
  from publish_correct [OF inv(1) this, of m] show ?thesis using Publish inv(2)
    by (auto simp: publishCommand_def flag_inv_def clientSubscriptionsCount_def)
next
  case (FreeClient c)
  obtain s1 n1 where s1: "pubsubUnsubscribeAllChannels order c False s = Some (s1, n1)" "ps_inv s1" "cl_channels s1 c = []"
      "\<forall>d. d \<noteq> c \<longrightarrow> cl_channels s1 d = cl_channels s d" "cl_patterns s1 = cl_patterns s" "cl_pubsub s1 = cl_pubsub s"
    using unsubscribe_all_channels [OF inv(1), of order c False] order by auto
  obtain s2 n2 where s2: "pubsubUnsubscribeAllPatterns c False s1 = Some (s2, n2)" "ps_inv s2" "cl_patterns s2 c = []"
      "\<forall>d. d \<noteq> c \<longrightarrow> cl_patterns s2 d = cl_patterns s1 d" "cl_channels s2 = cl_channels s1" "cl_pubsub s2 = cl_pubsub s1"
    using unsubscribe_all_patterns [OF s1(2), of c False] by auto
  let ?s = "s2\<lparr>cl_pubsub := (cl_pubsub s2)(c := False), cl_out := (cl_out s2)(c := [])\<rparr>"
  have "ps_inv ?s" using s2(2) by (simp add: ps_inv_def)
  moreover have "flag_inv ?s"
    using inv(2) s1 s2 by (auto simp: flag_inv_def clientSubscriptionsCount_def)
  ultimately show ?thesis using FreeClient s1(1) s2(1) by (simp add: freeClient_pubsub_def)
qed

inductive_cases ps_reachableE: "ps_reachable order s"

lemma ps_reachable_inv:
  assumes "\<forall>xs. set (order xs) = set xs"
  shows "ps_reachable order s \<Longrightarrow> ps_inv s \<and> flag_inv s"
proof (induction rule: ps_reachable.induct)
  case start
  show ?case using ps_inv_empty by (auto simp: flag_inv_def ps_empty_def clientSubscriptionsCount_def)
next
  case (step s x s')
  show ?case
  proof (cases "\<exists>c ch m. x = Publish c ch m \<and> (\<exists>(d, p) \<in> set (ps_patterns s). stringmatchlen p ch False = None)")
    case False
    then show ?thesis using ps_step_correct [of s x order] step assms by fastforce
  next
    case True
    then obtain c ch m d p where x: "x = Publish c ch m" "(d, p) \<in> set (ps_patterns s)" "stringmatchlen p ch False = None"
      by auto
    have stuck: "publish_patterns pats ch m sr = None" if "(d, p) \<in> set pats" for pats sr
      using that
    proof (induction pats arbitrary: sr)
      case (Cons q pats)
      obtain s0 n0 d' p' where "sr = (s0, n0)" "q = (d', p')" by (cases sr; cases q)
      then show ?case using Cons x(3) by (cases "stringmatchlen p' ch False") auto
    qed simp
    obtain s1 n1 where sr: "(case ps_channels s ch of None \<Rightarrow> (s, 0) | Some clients \<Rightarrow> publish_clients clients ch m (s, 0)) = (s1, n1)"
      by (cases "case ps_channels s ch of None \<Rightarrow> (s, 0) | Some clients \<Rightarrow> publish_clients clients ch m (s, 0)")
    have "ps_patterns s1 = ps_patterns s"
      using sr publish_clients_correct [of _ ch m s 0 s1 n1] by (cases "ps_channels s ch") auto
    then have "pubsubPublishMessage ch m s = None"
      using stuck [of "ps_patterns s" "(s1, n1)"] x(2) sr by (simp add: pubsubPublishMessage_def Let_def)
    then show ?thesis using step(3) x(1) by (simp add: publishCommand_def)
  qed
qed


section \<open>Properties\<close>

text \<open>
  C9.  The two views of the subscriptions never disagree.  In every state the server reaches by
  subscriptions, unsubscriptions, publications and clients going away, a client has a channel in its
  table exactly when it is in the channel's list of clients, and a pattern in its list exactly when
  the pair is in the server's list, nothing occurs twice, no channel has an empty list, and the flag
  \<open>CLIENT_PUBSUB\<close> is set exactly for the clients with a subscription.  No assertion fails: every
  command returns, a publication provided that the matcher does on the registered patterns.
\<close>

theorem pubsub_views_agree:
  assumes "\<forall>xs. set (order xs) = set xs" and "ps_reachable order s" and "ps_arity x"
    and "\<forall>c ch m d p. x = Publish c ch m \<longrightarrow> (d, p) \<in> set (ps_patterns s) \<longrightarrow> stringmatchlen p ch False \<noteq> None"
  shows "ps_inv s \<and> flag_inv s \<and> (\<exists>s'. ps_step order x s = Some s' \<and> ps_inv s' \<and> flag_inv s')"
  using ps_step_correct [of s x order] ps_reachable_inv [OF assms(1,2)] assms by blast

theorem pubsub_views_agree_witness:
  "\<exists>s. ps_reachable rev s \<and> ps_inv s \<and> cl_channels s 1 = [[97]]
    \<and> (\<exists>s'. ps_step rev (Unsubscribe 1 []) s = Some s' \<and> ps_inv s')"
proof -
  let ?s = "subscribeCommand 1 [[97]] ps_empty"
  have "ps_step rev (Subscribe 1 [[97]]) ps_empty = Some ?s" by simp
  then have r: "ps_reachable rev ?s" 
    by (rule ps_reachable.step [OF ps_reachable.start, rotated]) simp
  have "cl_channels ?s 1 = [[97]]"
    by (simp add: subscribeCommand_def pubsubSubscribeChannel_def ps_empty_def Let_def)
  then show ?thesis using pubsub_views_agree [of rev ?s "Unsubscribe 1 []"] r by auto
qed

text \<open>
  C8.  Exact delivery: in a state with consistent subscriptions, \<open>PUBLISH\<close> sends every client one
  message if it subscribed to the channel, followed by one message for each of its patterns that
  matches, in the order of the server's list, and nothing else; it reports the number of messages
  sent and changes no subscription.
\<close>

theorem publish_exact_delivery:
  assumes "ps_inv s" and "\<forall>(c, p) \<in> set (ps_patterns s). stringmatchlen p ch False \<noteq> None"
  shows "\<exists>s' n. pubsubPublishMessage ch m s = Some (s', n)
    \<and> n = length (case ps_channels s ch of None \<Rightarrow> [] | Some l \<Rightarrow> l) + length (pattern_hits (ps_patterns s) ch)
    \<and> cl_channels s' = cl_channels s \<and> cl_patterns s' = cl_patterns s
    \<and> (\<forall>c. cl_out s' c = cl_out s c @ (if ch \<in> set (cl_channels s c) then [Message ch m] else [])
        @ map (\<lambda>(_, p). Pmessage p ch m) (filter (\<lambda>(d, _). d = c) (pattern_hits (ps_patterns s) ch)))"
  using publish_correct [OF assms] by blast

theorem publish_exact_delivery_witness:
  "\<exists>s' n. pubsubPublishMessage [97] [98] (subscribeCommand 1 [[97]] ps_empty) = Some (s', n) \<and> n = 1
    \<and> cl_out s' 1 = [SubscribeReply [97] 1, Message [97] [98]] \<and> cl_out s' 2 = []"
proof -
  let ?s = "subscribeCommand 1 [[97]] ps_empty"
  have f: "cl_channels ?s 1 = [[97]]" "cl_channels ?s 2 = []" "ps_patterns ?s = []" "ps_channels ?s [97] = Some [1]"
      "cl_out ?s 1 = [SubscribeReply [97] 1]" "cl_out ?s 2 = []"
    by (simp_all add: subscribeCommand_def pubsubSubscribeChannel_def ps_empty_def Let_def clientSubscriptionsCount_def)
  have "ps_inv ?s"
    using subscribe_fold [OF ps_inv_empty, of 1 "[[97]]"] by (simp add: subscribeCommand_def Let_def)
  then show ?thesis using publish_exact_delivery [of ?s "[97]" "[98]"] f by (auto simp: pattern_hits_def)
qed

end
