(* ===== verification/Object.thy ===== *)
theory Object
  imports SdsText
begin

text \<open>
  \<^verbatim>\<open>object.c\<close>: reference counted string objects in their three encodings.  Objects live in a heap, a
  map from addresses; \<open>shared v\<close> is the address of \<open>shared.integers[v]\<close>.  \<open>new\<close> is the address that the
  allocator returns and \<open>u\<close> the content of uninitialised memory.  A panic, a failed assertion, the use
  of a freed object and a read outside an allocation are \<open>None\<close>.  Only string objects are modelled; the
  LRU clock of an object is not.
\<close>

section \<open>The model\<close>

datatype str_ptr = Raw sds | Embstr sds | IntEnc int

record robj =
  ro_ptr :: str_ptr
  ro_refcount :: int

type_synonym obj_heap = "nat \<rightharpoonup> robj"

definition OBJ_SHARED_INTEGERS :: int where "OBJ_SHARED_INTEGERS = 10000"
definition OBJ_ENCODING_EMBSTR_SIZE_LIMIT :: nat where "OBJ_ENCODING_EMBSTR_SIZE_LIMIT = 44"

definition createObject :: "nat \<Rightarrow> str_ptr \<Rightarrow> obj_heap \<Rightarrow> obj_heap" where
  "createObject new p h = h(new \<mapsto> \<lparr>ro_ptr = p, ro_refcount = 1\<rparr>)"

text \<open>\<open>init\<close>: the bytes readable from \<open>ptr\<close>; \<open>None\<close> is the null pointer.\<close>

definition createRawStringObject :: "byte \<Rightarrow> nat \<Rightarrow> bytes option \<Rightarrow> nat \<Rightarrow> obj_heap \<Rightarrow> obj_heap option" where
  "createRawStringObject u new init len h = do {
     s \<leftarrow> sdsnewlen u init len;
     Some (createObject new (Raw s) h)}"

definition createEmbeddedStringObject :: "nat \<Rightarrow> bytes option \<Rightarrow> nat \<Rightarrow> obj_heap \<Rightarrow> obj_heap option" where
  "createEmbeddedStringObject new init len h = do {
     buf \<leftarrow> (case init of None \<Rightarrow> Some (replicate (len + 1) 0)
            | Some bs \<Rightarrow> if len \<le> length bs then Some (take len bs @ [0]) else None);
     Some (createObject new
       (Embstr \<lparr>s_type = SDS_TYPE_8, s_len = len mod 2 ^ 8, s_alloc = len mod 2 ^ 8, s_buf = buf\<rparr>) h)}"

definition createStringObject :: "byte \<Rightarrow> nat \<Rightarrow> bytes option \<Rightarrow> nat \<Rightarrow> obj_heap \<Rightarrow> obj_heap option" where
  "createStringObject u new init len h =
     (if len \<le> OBJ_ENCODING_EMBSTR_SIZE_LIMIT then createEmbeddedStringObject new init len h
      else createRawStringObject u new init len h)"

definition incrRefCount :: "nat \<Rightarrow> obj_heap \<Rightarrow> obj_heap option" where
  "incrRefCount a h = do {
     ob \<leftarrow> h a;
     Some (h(a \<mapsto> ob\<lparr>ro_refcount := ro_refcount ob + 1\<rparr>))}"

definition decrRefCount :: "nat \<Rightarrow> obj_heap \<Rightarrow> obj_heap option" where
  "decrRefCount a h = do {
     ob \<leftarrow> h a;
     (if ro_refcount ob \<le> 0 then None
      else if ro_refcount ob = 1 then Some (h(a := None))
      else Some (h(a \<mapsto> ob\<lparr>ro_refcount := ro_refcount ob - 1\<rparr>)))}"

definition createStringObjectFromLongLong :: "(nat \<Rightarrow> nat) \<Rightarrow> byte \<Rightarrow> nat \<Rightarrow> int \<Rightarrow> obj_heap \<Rightarrow> (obj_heap \<times> nat) option" where
  "createStringObjectFromLongLong shared u new v h =
     (if v \<ge> 0 \<and> v < OBJ_SHARED_INTEGERS then do {
        h' \<leftarrow> incrRefCount (shared (nat v)) h;
        Some (h', shared (nat v))}
      else if v \<ge> LLONG_MIN \<and> v \<le> LLONG_MAX then Some (createObject new (IntEnc v) h, new)
      else do {
        bs \<leftarrow> sdsfromlonglong v;
        s \<leftarrow> sdsnewlen u (Some bs) (length bs);
        Some (createObject new (Raw s) h, new)})"

definition dupStringObject :: "byte \<Rightarrow> nat \<Rightarrow> nat \<Rightarrow> obj_heap \<Rightarrow> obj_heap option" where
  "dupStringObject u new a h = do {
     ob \<leftarrow> h a;
     (case ro_ptr ob of
        Raw s \<Rightarrow> createRawStringObject u new (Some (s_buf s)) (sdslen s) h
      | Embstr s \<Rightarrow> createEmbeddedStringObject new (Some (s_buf s)) (sdslen s) h
      | IntEnc v \<Rightarrow> Some (createObject new (IntEnc v) h))}"

definition isObjectRepresentableAsLongLong :: "nat \<Rightarrow> obj_heap \<Rightarrow> int option option" where
  "isObjectRepresentableAsLongLong a h = do {
     ob \<leftarrow> h a;
     (case ro_ptr ob of
        IntEnc v \<Rightarrow> Some (Some v)
      | Raw s \<Rightarrow> Some (string2ll (take (sdslen s) (s_buf s)))
      | Embstr s \<Rightarrow> Some (string2ll (take (sdslen s) (s_buf s))))}"

text \<open>\<open>lru_off\<close>: \<open>maxmemory\<close> is 0 or its policy is not one of the two LRU policies.\<close>

definition tryObjectEncoding :: "(nat \<Rightarrow> nat) \<Rightarrow> bool \<Rightarrow> byte \<Rightarrow> nat \<Rightarrow> nat \<Rightarrow> obj_heap \<Rightarrow> (obj_heap \<times> nat) option" where
  "tryObjectEncoding shared lru_off u new a h = do {
     ob \<leftarrow> h a;
     (case (case ro_ptr ob of Raw s \<Rightarrow> Some (s, True) | Embstr s \<Rightarrow> Some (s, False) | IntEnc _ \<Rightarrow> None) of
        None \<Rightarrow> Some (h, a)
      | Some (s, is_raw) \<Rightarrow>
        if ro_refcount ob > 1 then Some (h, a)
        else
          let len = sdslen s
          in case (if len \<le> 21 then string2l (take len (s_buf s)) else None) of
               Some v \<Rightarrow>
                 if lru_off \<and> v \<ge> 0 \<and> v < OBJ_SHARED_INTEGERS then do {
                   h1 \<leftarrow> decrRefCount a h;
                   h2 \<leftarrow> incrRefCount (shared (nat v)) h1;
                   Some (h2, shared (nat v))}
                 else Some (h(a \<mapsto> ob\<lparr>ro_ptr := IntEnc v\<rparr>), a)
             | None \<Rightarrow>
                 if len \<le> OBJ_ENCODING_EMBSTR_SIZE_LIMIT then
                   (if \<not> is_raw then Some (h, a)
                    else do {
                      h1 \<leftarrow> createEmbeddedStringObject new (Some (s_buf s)) (sdslen s) h;
                      h2 \<leftarrow> decrRefCount a h1;
                      Some (h2, new)})
                 else if is_raw \<and> sdsavail s > len div 10 then do {
                   s' \<leftarrow> sdsRemoveFreeSpace u s;
                   Some (h(a \<mapsto> ob\<lparr>ro_ptr := Raw s'\<rparr>), a)}
                 else Some (h, a))}"

text \<open>\<open>buf\<close>: the local buffer of 32 bytes.\<close>

definition getDecodedObject :: "bytes \<Rightarrow> byte \<Rightarrow> nat \<Rightarrow> nat \<Rightarrow> obj_heap \<Rightarrow> (obj_heap \<times> nat) option" where
  "getDecodedObject buf u new a h = do {
     ob \<leftarrow> h a;
     (case ro_ptr ob of
        IntEnc v \<Rightarrow> do {
          let buf' = fst (ll2string buf v);
          h' \<leftarrow> createStringObject u new (Some buf') (length (takeWhile (\<lambda>b. b \<noteq> 0) buf')) h;
          Some (h', new)}
      | _ \<Rightarrow> do { h' \<leftarrow> incrRefCount a h; Some (h', a) })}"

text \<open>The bytes and the length that the comparison sees; \<open>buf\<close> is \<open>bufa\<close> or \<open>bufb\<close>.  \<open>strcoll\<close> depends on
  the locale and is an argument.\<close>

definition str_view :: "bytes \<Rightarrow> robj \<Rightarrow> bytes \<times> nat" where
  "str_view buf ob =
     (case ro_ptr ob of Raw s \<Rightarrow> (s_buf s, sdslen s) | Embstr s \<Rightarrow> (s_buf s, sdslen s)
      | IntEnc v \<Rightarrow> ll2string buf v)"

definition compareStringObjectsWithFlags ::
  "(bytes \<Rightarrow> bytes \<Rightarrow> int) \<Rightarrow> bytes \<Rightarrow> bytes \<Rightarrow> bool \<Rightarrow> nat \<Rightarrow> nat \<Rightarrow> obj_heap \<Rightarrow> int option" where
  "compareStringObjectsWithFlags strcoll bufa bufb coll a b h = do {
     oa \<leftarrow> h a; ob \<leftarrow> h b;
     (if a = b then Some 0
      else
        let (astr, alen) = str_view bufa oa; (bstr, blen) = str_view bufb ob
        in if coll then Some (strcoll (takeWhile (\<lambda>b. b \<noteq> 0) astr) (takeWhile (\<lambda>b. b \<noteq> 0) bstr))
           else
             let minlen = (if alen < blen then alen else blen); cmp = memcmp (take minlen astr) (take minlen bstr)
             in if cmp = 0 then Some (to_signed 32 (int alen - int blen)) else Some cmp)}"

definition compareStringObjects :: "bytes \<Rightarrow> bytes \<Rightarrow> nat \<Rightarrow> nat \<Rightarrow> obj_heap \<Rightarrow> int option" where
  "compareStringObjects bufa bufb a b h = compareStringObjectsWithFlags (\<lambda>_ _. 0) bufa bufb False a b h"

definition collateStringObjects :: "(bytes \<Rightarrow> bytes \<Rightarrow> int) \<Rightarrow> bytes \<Rightarrow> bytes \<Rightarrow> nat \<Rightarrow> nat \<Rightarrow> obj_heap \<Rightarrow> int option" where
  "collateStringObjects strcoll bufa bufb a b h = compareStringObjectsWithFlags strcoll bufa bufb True a b h"

definition equalStringObjects :: "bytes \<Rightarrow> bytes \<Rightarrow> nat \<Rightarrow> nat \<Rightarrow> obj_heap \<Rightarrow> bool option" where
  "equalStringObjects bufa bufb a b h = do {
     oa \<leftarrow> h a; ob \<leftarrow> h b;
     (case (ro_ptr oa, ro_ptr ob) of
        (IntEnc v, IntEnc w) \<Rightarrow> Some (v = w)
      | _ \<Rightarrow> map_option (\<lambda>c. c = 0) (compareStringObjects bufa bufb a b h))}"

definition stringObjectLen :: "nat \<Rightarrow> obj_heap \<Rightarrow> nat option" where
  "stringObjectLen a h = do {
     ob \<leftarrow> h a;
     Some (case ro_ptr ob of Raw s \<Rightarrow> sdslen s | Embstr s \<Rightarrow> sdslen s | IntEnc v \<Rightarrow> sdigits10 v)}"

text \<open>\<open>strtoll(s, &eptr, 10)\<close> on the C string \<open>s\<close>: the value, what follows the number, and \<open>ERANGE\<close>.\<close>

definition strtoll :: "bytes \<Rightarrow> int \<times> bytes \<times> bool" where
  "strtoll s =
     (let s1 = dropWhile isspace s;
          (neg, s2) = (case s1 of [] \<Rightarrow> (False, s1)
                       | c # p \<Rightarrow> if c = 45 then (True, p) else if c = 43 then (False, p) else (False, s1));
          ds = takeWhile isdig s2; rest = dropWhile isdig s2;
          v = (if neg then - dval 0 ds else dval 0 ds)
      in if ds = [] then (0, s, False)
         else if v < LLONG_MIN then (LLONG_MIN, rest, True)
         else if v > LLONG_MAX then (LLONG_MAX, rest, True)
         else (v, rest, False))"

text \<open>\<open>Some None\<close> is \<open>C_ERR\<close>; the argument \<open>None\<close> is the null object.\<close>

definition getLongLongFromObject :: "nat option \<Rightarrow> obj_heap \<Rightarrow> int option option" where
  "getLongLongFromObject oa h =
     (case oa of None \<Rightarrow> Some (Some 0)
      | Some a \<Rightarrow> do {
          ob \<leftarrow> h a;
          Some (case ro_ptr ob of
                  IntEnc v \<Rightarrow> Some v
                | _ \<Rightarrow>
                  let p = fst (str_view [] ob); (v, eptr, erange) = strtoll (takeWhile (\<lambda>b. b \<noteq> 0) p)
                  in if isspace (hd p) \<or> eptr \<noteq> [] \<or> erange then None else Some v)})"

section \<open>The string an object stands for\<close>

definition obj_value :: "robj \<Rightarrow> bytes" where
  "obj_value ob = (case ro_ptr ob of Raw s \<Rightarrow> content s | Embstr s \<Rightarrow> content s | IntEnc v \<Rightarrow> sdec v)"

definition obj_ok :: "robj \<Rightarrow> bool" where
  "obj_ok ob \<longleftrightarrow> 1 \<le> ro_refcount ob \<and>
     (case ro_ptr ob of Raw s \<Rightarrow> sds_wf s \<and> s_len s < 2 ^ 31 | Embstr s \<Rightarrow> sds_wf s \<and> s_len s < 2 ^ 31
      | IntEnc v \<Rightarrow> in_int64 v)"

definition shared_ok :: "(nat \<Rightarrow> nat) \<Rightarrow> obj_heap \<Rightarrow> bool" where
  "shared_ok shared h \<longleftrightarrow> (\<forall>v. int v < OBJ_SHARED_INTEGERS \<longrightarrow>
     (\<exists>ob. h (shared v) = Some ob \<and> ro_ptr ob = IntEnc (int v) \<and> 1 \<le> ro_refcount ob))"

lemma length_content_wf [simp]: "sds_wf s \<Longrightarrow> length (content s) = s_len s"
  by (simp add: length_content sds_wf_cap)

lemma sds_wf_buf: "sds_wf s \<Longrightarrow> s_len s < length (s_buf s)"
  by (simp add: sds_wf_def sds_cap_def)

text \<open>An embedded string has no spare capacity and at most 255 bytes.\<close>

lemma createEmbedded_correct:
  assumes "len < 256" and "len \<le> length bs"
  shows "\<exists>s. createEmbeddedStringObject new (Some bs) len h = Some (createObject new (Embstr s) h)
    \<and> sds_wf s \<and> content s = take len bs"
  using assms
  by (intro exI [of _ "\<lparr>s_type = SDS_TYPE_8, s_len = len, s_alloc = len, s_buf = take len bs @ [0]\<rparr>"])
    (simp add: createEmbeddedStringObject_def sds_wf_def sds_cap_def sdsalloc_def content_def nth_append)

lemma createStringObject_correct:
  assumes "len < 2 ^ 31" and "len \<le> length bs"
  shows "\<exists>h' ob. createStringObject u new (Some bs) len h = Some h' \<and> h' = h(new \<mapsto> ob)
    \<and> obj_ok ob \<and> obj_value ob = take len bs \<and> (\<forall>v. ro_ptr ob \<noteq> IntEnc v)"
proof (cases "len \<le> 44")
  case True
  then obtain s where "createEmbeddedStringObject new (Some bs) len h = Some (createObject new (Embstr s) h)"
      "sds_wf s" "content s = take len bs"
    using createEmbedded_correct [of len bs new h] assms(2) by auto
  then show ?thesis using True assms length_content_wf [of s]
    by (auto simp: createStringObject_def OBJ_ENCODING_EMBSTR_SIZE_LIMIT_def createObject_def obj_ok_def obj_value_def)
next
  case False
  obtain s where "sdsnewlen u (Some bs) len = Some s" "sds_wf s" "content s = take len bs"
    using sdsnewlen_correct [of len bs u] assms by auto
  then show ?thesis using False assms length_content_wf [of s]
    by (auto simp: createStringObject_def OBJ_ENCODING_EMBSTR_SIZE_LIMIT_def createObject_def createRawStringObject_def
        obj_ok_def obj_value_def)
qed

lemma string2l_string2ll: "string2l s = string2ll s"
  using string2ll_sound [of s] by (fastforce simp: string2l_def split: option.splits)

lemma sdec_inject: "in_int64 v \<Longrightarrow> in_int64 w \<Longrightarrow> sdec v = sdec w \<Longrightarrow> v = w"
  by (metis option.inject string2ll_sdec)

lemma sdec_nonzero: "0 \<notin> set (sdec v)"
proof -
  have "0 \<notin> set (dec n)" for n using dec_digits [of n] by (auto simp: list_all_iff isdig_def)
  then show ?thesis by (simp add: sdec_def)
qed

lemma shared_ok_upd:
  assumes "shared_ok shared h" and "h a = Some ob" and "\<And>v. ro_ptr ob \<noteq> IntEnc v"
  shows "shared_ok shared (h(a := x))"
  using assms unfolding shared_ok_def by (metis fun_upd_other option.inject)

lemma shared_ok_fresh: "shared_ok shared h \<Longrightarrow> h a = None \<Longrightarrow> shared_ok shared (h(a := x))"
  unfolding shared_ok_def by (metis fun_upd_other option.distinct(1))

lemma shared_ok_incr:
  assumes "shared_ok shared h" and "int v < OBJ_SHARED_INTEGERS"
  shows "\<exists>ob. incrRefCount (shared v) h = Some (h(shared v \<mapsto> ob)) \<and> obj_ok ob \<and> obj_value ob = sdec (int v)
    \<and> shared_ok shared (h(shared v \<mapsto> ob))"
proof -
  obtain ob where ob: "h (shared v) = Some ob" "ro_ptr ob = IntEnc (int v)" "1 \<le> ro_refcount ob"
    using assms unfolding shared_ok_def by blast
  have "shared_ok shared (h(shared v \<mapsto> ob\<lparr>ro_refcount := ro_refcount ob + 1\<rparr>))"
    unfolding shared_ok_def
  proof (intro allI impI)
    fix w assume "int w < OBJ_SHARED_INTEGERS"
    then obtain ob' where ob': "h (shared w) = Some ob'" "ro_ptr ob' = IntEnc (int w)" "1 \<le> ro_refcount ob'"
      using assms(1) unfolding shared_ok_def by blast
    then show "\<exists>ob'. (h(shared v \<mapsto> ob\<lparr>ro_refcount := ro_refcount ob + 1\<rparr>)) (shared w) = Some ob'
        \<and> ro_ptr ob' = IntEnc (int w) \<and> 1 \<le> ro_refcount ob'"
      using ob by (cases "shared w = shared v") auto
  qed
  then show ?thesis using ob assms(2)
    by (intro exI [of _ "ob\<lparr>ro_refcount := ro_refcount ob + 1\<rparr>"])
      (simp add: incrRefCount_def obj_ok_def obj_value_def OBJ_SHARED_INTEGERS_def range_simps)
qed

lemma sds_view: "str_view buf ob = (case ro_ptr ob of IntEnc v \<Rightarrow> ll2string buf v | Raw s \<Rightarrow> (s_buf s, s_len s) | Embstr s \<Rightarrow> (s_buf s, s_len s))"
  by (simp add: str_view_def sdslen_def split: str_ptr.splits)

text \<open>The bytes that a comparison sees are the value of the object.\<close>

lemma str_view_value:
  assumes "obj_ok ob" and "20 < length buf"
  shows "\<exists>bs n. str_view buf ob = (bs, n) \<and> take n bs = obj_value ob \<and> length (obj_value ob) = n \<and> n < 2 ^ 31"
proof (cases "ro_ptr ob")
  case (IntEnc v)
  then have v: "in_int64 v" using assms(1) by (simp add: obj_ok_def)
  show ?thesis
    using IntEnc ll2string_take [OF v assms(2)] length_sdec [OF v] by (auto simp: sds_view obj_value_def)
qed (use assms in \<open>auto simp: sds_view obj_ok_def obj_value_def content_def dest: sds_wf_buf\<close>)

lemma compareStringObjects_correct:
  assumes a: "h a = Some oa" "obj_ok oa" "20 < length bufa" and b: "h b = Some ob" "obj_ok ob" "20 < length bufb"
    and ne: "a \<noteq> b"
  shows "\<exists>c. compareStringObjects bufa bufb a b h = Some c
    \<and> (c < 0 \<longleftrightarrow> byte_less (obj_value oa) (obj_value ob)) \<and> (c = 0 \<longleftrightarrow> obj_value oa = obj_value ob)"
proof -
  obtain as na where va: "str_view bufa oa = (as, na)" "take na as = obj_value oa" "length (obj_value oa) = na" "na < 2 ^ 31"
    using str_view_value [OF a(2,3)] by blast
  obtain bs nb where vb: "str_view bufb ob = (bs, nb)" "take nb bs = obj_value ob" "length (obj_value ob) = nb" "nb < 2 ^ 31"
    using str_view_value [OF b(2,3)] by blast
  note c = cmp_bytes_correct [OF va(2-4) vb(2-4) refl refl]
  then show ?thesis
    using a(1) b(1) ne va(1) vb(1)
    by (auto simp: compareStringObjects_def compareStringObjectsWithFlags_def Let_def)
qed

lemma byte_less_irrefl: "\<not> byte_less xs xs"
  by (induction xs) auto

section \<open>Encoding keeps the string\<close>

lemma getDecodedObject_correct:
  assumes "h a = Some ob" and "obj_ok ob" and "h new = None" and "20 < length buf"
  shows "\<exists>h' r ob'. getDecodedObject buf u new a h = Some (h', r) \<and> h' r = Some ob' \<and> obj_ok ob'
    \<and> obj_value ob' = obj_value ob \<and> (\<forall>v. ro_ptr ob' \<noteq> IntEnc v)"
proof (cases "ro_ptr ob")
  case (IntEnc v)
  then have v: "in_int64 v" using assms(2) by (simp add: obj_ok_def)
  define buf' where "buf' = write_at 0 (sdec v @ [0]) buf"
  have len: "length (sdec v) < length buf" using length_sdec [OF v] assms(4) by linarith
  have ll: "ll2string buf v = (buf', length (sdec v))"
    unfolding buf'_def using len by (intro ll2string_correct [OF v])
  have tw: "takeWhile (\<lambda>b. b \<noteq> 0) buf' = sdec v"
    using len sdec_nonzero [of v] by (simp add: buf'_def write_at_def takeWhile_append takeWhile_eq_all_conv)
  have l: "length (sdec v) < 2 ^ 31" "length (sdec v) \<le> length buf'" "take (length (sdec v)) buf' = sdec v"
    using length_sdec [OF v] len by (auto simp: buf'_def write_at_def)
  obtain h' ob' where "createStringObject u new (Some buf') (length (sdec v)) h = Some h'" "h' = h(new \<mapsto> ob')"
      "obj_ok ob'" "obj_value ob' = sdec v" "\<forall>v. ro_ptr ob' \<noteq> IntEnc v"
    using createStringObject_correct [OF l(1,2), of u new h] l(3) by auto
  then show ?thesis using IntEnc assms(1) ll tw by (auto simp: getDecodedObject_def obj_value_def)
qed (use assms in \<open>auto simp: getDecodedObject_def incrRefCount_def obj_ok_def obj_value_def\<close>)

lemma tryObjectEncoding_correct:
  assumes ob: "h a = Some ob" "obj_ok ob" and sh: "shared_ok shared h" and new: "h new = None"
  shows "\<exists>h' r ob'. tryObjectEncoding shared lru_off u new a h = Some (h', r)
    \<and> h' r = Some ob' \<and> obj_ok ob' \<and> obj_value ob' = obj_value ob \<and> shared_ok shared h'
    \<and> (r \<noteq> a \<longrightarrow> h' a = None) \<and> (\<forall>b. b \<noteq> a \<longrightarrow> b \<noteq> r \<longrightarrow> h' b = h b)"
proof (cases "(\<exists>v. ro_ptr ob = IntEnc v) \<or> 1 < ro_refcount ob")
  case True
  then show ?thesis using assms by (auto simp: tryObjectEncoding_def split: str_ptr.splits)
next
  case False
  then obtain s is_raw where s: "ro_ptr ob = (if is_raw then Raw s else Embstr s)"
    by (cases "ro_ptr ob") (metis (full_types))+
  have wf: "sds_wf s" "s_len s < 2 ^ 31" "obj_value ob = content s" and rc: "ro_refcount ob = 1"
    using ob(2) s False by (auto simp: obj_ok_def obj_value_def split: if_splits)
  have ni: "ro_ptr ob \<noteq> IntEnc v" for v using False by blast
  have an: "a \<noteq> new" using ob(1) new by auto
  define res where "res = (if s_len s \<le> 21 then string2ll (content s) else None)"
  have unf: "tryObjectEncoding shared lru_off u new a h =
    (case res of Some v \<Rightarrow>
        if lru_off \<and> v \<ge> 0 \<and> v < OBJ_SHARED_INTEGERS
        then do { h1 \<leftarrow> decrRefCount a h; h2 \<leftarrow> incrRefCount (shared (nat v)) h1; Some (h2, shared (nat v)) }
        else Some (h(a \<mapsto> ob\<lparr>ro_ptr := IntEnc v\<rparr>), a)
     | None \<Rightarrow>
        if s_len s \<le> 44 then
          (if \<not> is_raw then Some (h, a)
           else do { h1 \<leftarrow> createEmbeddedStringObject new (Some (s_buf s)) (s_len s) h; h2 \<leftarrow> decrRefCount a h1; Some (h2, new) })
        else if is_raw \<and> sdsavail s > s_len s div 10
          then do { s' \<leftarrow> sdsRemoveFreeSpace u s; Some (h(a \<mapsto> ob\<lparr>ro_ptr := Raw s'\<rparr>), a) }
        else Some (h, a))"
    using s rc ob(1)
    by (cases is_raw) (simp_all add: tryObjectEncoding_def res_def sdslen_def content_def string2l_string2ll
        OBJ_ENCODING_EMBSTR_SIZE_LIMIT_def Let_def cong: option.case_cong)
  show ?thesis
  proof (cases res)
    case (Some v)
    then have v: "in_int64 v" "content s = sdec v" using string2ll_sound by (auto simp: res_def split: if_splits)
    show ?thesis
    proof (cases "lru_off \<and> v \<ge> 0 \<and> v < OBJ_SHARED_INTEGERS")
      case True
      have "shared_ok shared (h(a := None))" by (rule shared_ok_upd [OF sh ob(1) ni])
      from shared_ok_incr [OF this, of "nat v"] obtain ob' where
        "incrRefCount (shared (nat v)) (h(a := None)) = Some (h(a := None, shared (nat v) \<mapsto> ob'))" "obj_ok ob'"
        "obj_value ob' = sdec v" "shared_ok shared (h(a := None, shared (nat v) \<mapsto> ob'))"
        using True by auto
      then show ?thesis using unf Some True ob(1) rc v wf(3) by (auto simp: decrRefCount_def)
    next
      case shared: False
      show ?thesis
        using unf Some shared ob v wf(3) shared_ok_upd [OF sh ob(1) ni] rc by (auto simp: obj_ok_def obj_value_def)
    qed
  next
    case None
    consider "s_len s \<le> 44" "is_raw" | "\<not> s_len s \<le> 44" "is_raw \<and> sdsavail s > s_len s div 10" | "tryObjectEncoding shared lru_off u new a h = Some (h, a)"
      using unf None by (auto split: if_splits)
    then show ?thesis
    proof cases
      case 1
      obtain e where e: "createEmbeddedStringObject new (Some (s_buf s)) (s_len s) h = Some (createObject new (Embstr e) h)"
          "sds_wf e" "content e = content s"
        using createEmbedded_correct [of "s_len s" "s_buf s" new h] 1 sds_wf_buf [OF wf(1)] by (auto simp: content_def)
      have "shared_ok shared (h(new \<mapsto> \<lparr>ro_ptr = Embstr e, ro_refcount = 1\<rparr>, a := None))"
        using shared_ok_upd [OF shared_ok_fresh [OF sh new], where a = a and ob = ob] ob(1) ni an by auto
      moreover have "s_len e = s_len s" using e wf length_content_wf by metis
      ultimately show ?thesis using unf None 1 e ob(1) rc an wf
        by (auto simp: createObject_def decrRefCount_def obj_ok_def obj_value_def)
    next
      case 2
      obtain s' where s': "sdsRemoveFreeSpace u s = Some s'" "sds_wf s'" "content s' = content s"
        using sdsRemoveFreeSpace_correct [OF wf(1), of u] wf(2) by auto
      moreover have "s_len s' = s_len s" using s' wf length_content_wf by metis
      ultimately show ?thesis
        using unf None 2 ob rc wf shared_ok_upd [OF sh ob(1) ni] by (auto simp: obj_ok_def obj_value_def)
    next
      case 3
      then show ?thesis using assms by auto
    qed
  qed
qed

section \<open>Reading integers\<close>

lemma strtoll_range: "strtoll s = (v, r, e) \<Longrightarrow> in_int64 v"
  by (auto simp: strtoll_def Let_def range_simps split: list.splits if_splits)

lemma takeWhile_dec: "takeWhile isdig (dec n) = dec n" "dropWhile isdig (dec n) = []"
  using dec_digits [of n] by (simp_all add: list_all_iff takeWhile_eq_all_conv)

lemma dec_Cons: "\<exists>c p. dec n = c # p \<and> isdig c"
  using dec_digits [of n] by (cases "dec n") auto

lemma strtoll_sdec:
  assumes "in_int64 v"
  shows "strtoll (sdec v) = (v, [], False)"
proof (cases "v < 0")
  case True
  then show ?thesis
    using assms by (auto simp: strtoll_def sdec_def isspace_def takeWhile_dec dval_dec)
next
  case False
  obtain c p where c: "dec (nat v) = c # p" "isdig c" using dec_Cons by blast
  then have "\<not> isspace c" "c \<noteq> 45" "c \<noteq> 43" by (auto simp: isdig_def isspace_def)
  then show ?thesis
    using False assms c takeWhile_dec [of "nat v"] dval_dec [of "nat v"]
    by (simp add: strtoll_def sdec_def Let_def takeWhile_eq_all_conv [THEN iffD2])
qed

lemma getLongLongFromObject_correct:
  assumes "h a = Some ob" and "obj_ok ob" and "obj_value ob = sdec v" and "in_int64 v"
  shows "getLongLongFromObject (Some a) h = Some (Some v)"
proof (cases "ro_ptr ob")
  case (IntEnc w)
  then show ?thesis using assms sdec_inject [of w v] by (simp add: getLongLongFromObject_def obj_value_def obj_ok_def)
next
  have sds: "takeWhile (\<lambda>b. b \<noteq> 0) (s_buf s) = sdec v \<and> hd (s_buf s) = hd (sdec v)" if "sds_wf s" "content s = sdec v" for s
  proof -
    have b: "s_buf s = sdec v @ 0 # drop (Suc (s_len s)) (s_buf s)"
      using that sds_wf_buf [OF that(1)] id_take_nth_drop [of "s_len s" "s_buf s"] by (simp add: content_def sds_wf_def)
    have "takeWhile (\<lambda>b. b \<noteq> 0) (sdec v @ 0 # ys) = sdec v" for ys
      using sdec_nonzero [of v] by (subst takeWhile_append2) auto
    moreover have "hd (sdec v @ ys) = hd (sdec v)" for ys by (simp add: sdec_def)
    ultimately show ?thesis using b by metis
  qed
  have sp: "\<not> isspace (hd (sdec v))"
    using dec_Cons [of "nat v"] by (auto simp: sdec_def isspace_def isdig_def)
  {
    case (Raw s)
    then show ?thesis using assms sds [of s] sp strtoll_sdec [OF assms(4)]
      by (simp add: getLongLongFromObject_def sds_view obj_value_def obj_ok_def)
  next
    case (Embstr s)
    then show ?thesis using assms sds [of s] sp strtoll_sdec [OF assms(4)]
      by (simp add: getLongLongFromObject_def sds_view obj_value_def obj_ok_def)
  }
qed

section \<open>Properties\<close>

text \<open>
  C25.  \<open>tryObjectEncoding\<close> saves memory without changing the string: it never panics on a live object,
  returns an object with the same string value (the same object re-encoded, an embedded copy or a shared
  integer), frees the original exactly when it returns another object, and touches nothing else.
\<close>

theorem tryObjectEncoding_keeps_string:
  assumes "h a = Some ob" and "obj_ok ob" and "shared_ok shared h" and "h new = None"
  shows "\<exists>h' r ob'. tryObjectEncoding shared lru_off u new a h = Some (h', r)
    \<and> h' r = Some ob' \<and> obj_ok ob' \<and> obj_value ob' = obj_value ob \<and> shared_ok shared h'
    \<and> (r \<noteq> a \<longrightarrow> h' a = None) \<and> (\<forall>b. b \<noteq> a \<longrightarrow> b \<noteq> r \<longrightarrow> h' b = h b)"
  by (rule tryObjectEncoding_correct [OF assms])

definition raw_object :: "bytes \<Rightarrow> robj" where
  "raw_object bs = \<lparr>ro_ptr = Raw \<lparr>s_type = SDS_TYPE_8, s_len = length bs, s_alloc = length bs, s_buf = bs @ [0]\<rparr>,
     ro_refcount = 1\<rparr>"

definition int_object :: "int \<Rightarrow> robj" where
  "int_object v = \<lparr>ro_ptr = IntEnc v, ro_refcount = 1\<rparr>"

definition example_objects :: "bytes \<Rightarrow> obj_heap" where
  "example_objects bs a =
     (if a = 0 then None else if a = 1 then Some (raw_object bs) else if a < 10002 then Some (int_object (int a - 2)) else None)"

lemma raw_object_ok: "length bs < 256 \<Longrightarrow> obj_ok (raw_object bs) \<and> obj_value (raw_object bs) = bs"
  by (simp add: raw_object_def obj_ok_def obj_value_def sds_wf_def sds_cap_def sdsalloc_def content_def)

theorem tryObjectEncoding_keeps_string_witness:
  "\<exists>h' r ob'. tryObjectEncoding (\<lambda>v. v + 2) True 0 0 1 (example_objects [49, 50]) = Some (h', r)
     \<and> h' r = Some ob' \<and> r \<noteq> 1 \<and> h' 1 = None \<and> obj_value ob' = [49, 50]"
proof -
  let ?h = "example_objects [49, 50]"
  have h: "?h 1 = Some (raw_object [49, 50])" "?h 0 = None" by (simp_all add: example_objects_def)
  have ok: "obj_ok (raw_object [49, 50])" "obj_value (raw_object [49, 50]) = [49, 50]"
    using raw_object_ok [of "[49, 50]"] by simp_all
  have sh: "shared_ok (\<lambda>v. v + 2) ?h"
    by (auto simp: shared_ok_def example_objects_def int_object_def OBJ_SHARED_INTEGERS_def)
  obtain h' r ob' where w: "tryObjectEncoding (\<lambda>v. v + 2) True 0 0 1 ?h = Some (h', r)" "h' r = Some ob'"
      "obj_value ob' = [49, 50]" "r \<noteq> 1 \<longrightarrow> h' 1 = None"
    using tryObjectEncoding_keeps_string [OF h(1) ok(1) sh h(2), of True 0] ok(2) by auto
  have "string2l [49, 50] = Some 12"
    by (simp add: string2l_string2ll string2ll_def string2ll_loop.simps range_simps to_signed_def)
  then have "tryObjectEncoding (\<lambda>v. v + 2) True 0 0 1 ?h = Some (h', r) \<Longrightarrow> r = 14"
    using h(1) by (auto simp: tryObjectEncoding_def raw_object_def sdslen_def OBJ_SHARED_INTEGERS_def
        split: bind_splits)
  then show ?thesis using w by auto
qed

text \<open>
  String objects are compared by value, whatever their encodings: \<open>compareStringObjects\<close> orders two
  different objects lexicographically by the unsigned bytes of their strings, and \<open>equalStringObjects\<close>
  says whether the strings are equal.
\<close>

theorem string_objects_compare_by_value:
  assumes "h a = Some oa" "obj_ok oa" and "h b = Some ob" "obj_ok ob" and "a \<noteq> b"
    and "length bufa = 128" "length bufb = 128"
  shows "equalStringObjects bufa bufb a b h = Some (obj_value oa = obj_value ob)
    \<and> (\<exists>c. compareStringObjects bufa bufb a b h = Some c \<and> (c < 0 \<longleftrightarrow> byte_less (obj_value oa) (obj_value ob))
        \<and> (c = 0 \<longleftrightarrow> obj_value oa = obj_value ob))"
proof -
  obtain c where c: "compareStringObjects bufa bufb a b h = Some c"
      "c < 0 \<longleftrightarrow> byte_less (obj_value oa) (obj_value ob)" "c = 0 \<longleftrightarrow> obj_value oa = obj_value ob"
    using compareStringObjects_correct [of h a oa bufa b ob bufb] assms by auto
  moreover have "equalStringObjects bufa bufb a b h = Some (obj_value oa = obj_value ob)"
    using assms c sdec_inject
    by (auto simp: equalStringObjects_def obj_value_def obj_ok_def split: str_ptr.splits)
  ultimately show ?thesis by blast
qed

theorem string_objects_compare_by_value_witness:
  "equalStringObjects (replicate 128 0) (replicate 128 0) 1 14 (example_objects [49, 50]) = Some True"
proof -
  let ?h = "example_objects [49, 50]"
  have h: "?h 1 = Some (raw_object [49, 50])" "?h 14 = Some (int_object 12)" by (simp_all add: example_objects_def)
  have ok: "obj_ok (raw_object [49, 50])" "obj_value (raw_object [49, 50]) = [49, 50]"
    using raw_object_ok [of "[49, 50]"] by simp_all
  have i: "obj_ok (int_object 12)" "obj_value (int_object 12) = [49, 50]"
    by (simp_all add: int_object_def obj_ok_def obj_value_def range_simps sdec_def dec.simps byte_of_digit_def)
  show ?thesis
    using string_objects_compare_by_value [OF h(1) ok(1) h(2) i(1), of "replicate 128 0" "replicate 128 0"] ok(2) i(2)
    by simp
qed

text \<open>
  \<open>getLongLongFromObject\<close> reads with \<open>strtoll\<close> and only looks at the byte where it stopped.  On the
  empty string it reports success with the value 0, and on a string with a zero byte in it, here the digit
  1, a zero byte and the letter x, it reads the part before the zero byte.
\<close>

theorem getLongLongFromObject_lenient:
  "getLongLongFromObject (Some 1) (example_objects []) = Some (Some 0)
   \<and> getLongLongFromObject (Some 1) (example_objects [49, 0, 120]) = Some (Some 1)"
  by (simp add: getLongLongFromObject_def example_objects_def raw_object_def sds_view strtoll_def isspace_def isdig_def
      range_simps)

end
