(* ===== verification/Rdb.thy ===== *)
theory Rdb
  imports Rio Object Lzf Refinement Bits
begin

text \<open>
  \<^verbatim>\<open>rdb.c\<close>: the encoding of lengths, integers, times and strings in a dump, over a stream (theory \<open>Rio\<close>).
  A null stream pointer is \<open>None\<close>: the functions that save then only compute the size.  A function that
  saves returns the stream and the number of bytes, or -1.  A function that loads returns \<open>LNull\<close> for a
  null pointer and \<open>LExit\<close> where \<open>rdbExitReportCorruptRDB\<close> ends the process.  The outer \<open>None\<close> is undefined
  behaviour.  The host is little endian.
\<close>

unbundle bit_operations_syntax

section \<open>The model\<close>

definition RDB_6BITLEN :: nat where "RDB_6BITLEN = 0"
definition RDB_14BITLEN :: nat where "RDB_14BITLEN = 1"
definition RDB_32BITLEN :: nat where "RDB_32BITLEN = 2"
definition RDB_ENCVAL :: nat where "RDB_ENCVAL = 3"
definition RDB_LENERR :: nat where "RDB_LENERR = 2 ^ 32 - 1"
definition RDB_ENC_INT8 :: nat where "RDB_ENC_INT8 = 0"
definition RDB_ENC_INT16 :: nat where "RDB_ENC_INT16 = 1"
definition RDB_ENC_INT32 :: nat where "RDB_ENC_INT32 = 2"
definition RDB_ENC_LZF :: nat where "RDB_ENC_LZF = 3"

lemmas rdb_consts = RDB_6BITLEN_def RDB_14BITLEN_def RDB_32BITLEN_def RDB_ENCVAL_def RDB_LENERR_def
  RDB_ENC_INT8_def RDB_ENC_INT16_def RDB_ENC_INT32_def RDB_ENC_LZF_def

text \<open>The result of \<open>rdbWriteRaw\<close> is an \<open>int\<close>.\<close>

definition rdbWriteRaw :: "'io rio option \<Rightarrow> bytes \<Rightarrow> 'io rio option \<times> int" where
  "rdbWriteRaw rdb p =
     (case rdb of None \<Rightarrow> (None, to_signed 32 (int (length p)))
      | Some r \<Rightarrow> let (r', ok) = rioWrite r p in (Some r', if ok then to_signed 32 (int (length p)) else -1))"

text \<open>\<open>if ((n = f(rdb)) == -1) return -1; nwritten += n; ...\<close>\<close>

definition chain :: "'r \<times> int \<Rightarrow> ('r \<Rightarrow> 'r \<times> int) \<Rightarrow> 'r \<times> int" where
  "chain rn k = (let (rdb, n) = rn
     in if n = -1 then (rdb, -1) else let (rdb', m) = k rdb in (rdb', if m = -1 then -1 else n + m))"

definition rdbSaveType :: "'io rio option \<Rightarrow> byte \<Rightarrow> 'io rio option \<times> int" where
  "rdbSaveType rdb type = rdbWriteRaw rdb [type]"

definition rdbLoadType :: "'io rio \<Rightarrow> 'io rio \<times> int" where
  "rdbLoadType r = (case rioRead r 1 of (r', None) \<Rightarrow> (r', -1) | (r', Some bs) \<Rightarrow> (r', int (unat (bs ! 0))))"

definition rdbLoadTime :: "'io rio \<Rightarrow> 'io rio \<times> int" where
  "rdbLoadTime r = (case rioRead r 4 of (r', None) \<Rightarrow> (r', -1) | (r', Some bs) \<Rightarrow> (r', sle_int bs))"

definition rdbSaveMillisecondTime :: "'io rio option \<Rightarrow> int \<Rightarrow> 'io rio option \<times> int" where
  "rdbSaveMillisecondTime rdb t = rdbWriteRaw rdb (sle_bytes 8 t)"

definition rdbLoadMillisecondTime :: "'io rio \<Rightarrow> 'io rio \<times> int" where
  "rdbLoadMillisecondTime r = (case rioRead r 8 of (r', None) \<Rightarrow> (r', -1) | (r', Some bs) \<Rightarrow> (r', sle_int bs))"

text \<open>The parameter \<open>len\<close> of \<open>rdbSaveLen\<close> has 32 bits; its callers pass a \<open>size_t\<close>.\<close>

definition rdbSaveLen :: "'io rio option \<Rightarrow> nat \<Rightarrow> 'io rio option \<times> int" where
  "rdbSaveLen rdb size_len =
     (let len = size_len mod 2 ^ 32
      in if len < 2 ^ 6 then rdbWriteRaw rdb [of_nat (len AND 0xFF) OR of_nat (push_bit 6 RDB_6BITLEN)]
         else if len < 2 ^ 14 then
           rdbWriteRaw rdb [of_nat (drop_bit 8 len AND 0xFF) OR of_nat (push_bit 6 RDB_14BITLEN), of_nat (len AND 0xFF)]
         else
           chain (rdbWriteRaw rdb [of_nat (push_bit 6 RDB_32BITLEN)]) (\<lambda>rdb. rdbWriteRaw rdb (be_bytes 4 len)))"

definition rdbLoadLen :: "'io rio \<Rightarrow> 'io rio \<times> nat \<times> bool" where
  "rdbLoadLen r =
     (case rioRead r 1 of (r1, None) \<Rightarrow> (r1, RDB_LENERR, False)
      | (r1, Some buf) \<Rightarrow>
        let type = unat (drop_bit 6 (buf ! 0 AND 0xC0))
        in if type = RDB_ENCVAL then (r1, unat (buf ! 0 AND 0x3F), True)
           else if type = RDB_6BITLEN then (r1, unat (buf ! 0 AND 0x3F), False)
           else if type = RDB_14BITLEN then
             (case rioRead r1 1 of (r2, None) \<Rightarrow> (r2, RDB_LENERR, False)
              | (r2, Some buf1) \<Rightarrow> (r2, push_bit 8 (unat (buf ! 0 AND 0x3F)) OR unat (buf1 ! 0), False))
           else
             (case rioRead r1 4 of (r2, None) \<Rightarrow> (r2, RDB_LENERR, False)
              | (r2, Some len) \<Rightarrow> (r2, be_nat len, False)))"

text \<open>The bytes stored in \<open>enc\<close>; none when the function returns 0.\<close>

definition rdbEncodeInteger :: "int \<Rightarrow> bytes" where
  "rdbEncodeInteger v =
     (if v \<ge> - (2 ^ 7) \<and> v \<le> 2 ^ 7 - 1 then
        [of_nat (push_bit 6 RDB_ENCVAL OR RDB_ENC_INT8), of_int (v AND 0xFF)]
      else if v \<ge> - (2 ^ 15) \<and> v \<le> 2 ^ 15 - 1 then
        [of_nat (push_bit 6 RDB_ENCVAL OR RDB_ENC_INT16), of_int (v AND 0xFF), of_int (drop_bit 8 v AND 0xFF)]
      else if v \<ge> - (2 ^ 31) \<and> v \<le> 2 ^ 31 - 1 then
        [of_nat (push_bit 6 RDB_ENCVAL OR RDB_ENC_INT32), of_int (v AND 0xFF), of_int (drop_bit 8 v AND 0xFF),
         of_int (drop_bit 16 v AND 0xFF), of_int (drop_bit 24 v AND 0xFF)]
      else [])"

datatype 'a load = LNull | LExit | LOk 'a

datatype loaded = PlainStr bytes | StrObject obj_heap nat

text \<open>The integer of \<open>n\<close> bytes, least significant first, as a signed value of that width.\<close>

definition rdbLoadIntegerObject ::
  "(nat \<Rightarrow> nat) \<Rightarrow> byte \<Rightarrow> bytes \<Rightarrow> nat \<Rightarrow> 'io rio \<Rightarrow> nat \<Rightarrow> bool \<Rightarrow> bool \<Rightarrow> obj_heap \<Rightarrow> ('io rio \<times> loaded load) option" where
  "rdbLoadIntegerObject shared u buf new r enctype plain encode h =
     (if enctype \<noteq> RDB_ENC_INT8 \<and> enctype \<noteq> RDB_ENC_INT16 \<and> enctype \<noteq> RDB_ENC_INT32 then Some (r, LExit)
      else
        let n = (if enctype = RDB_ENC_INT8 then 1 else if enctype = RDB_ENC_INT16 then 2 else 4)
        in case rioRead r n of (r1, None) \<Rightarrow> Some (r1, LNull)
           | (r1, Some enc) \<Rightarrow>
             let val = sle_int enc
             in if plain then let (b, len) = ll2string buf val in Some (r1, LOk (PlainStr (take len b)))
                else if encode then do {
                  (h', a) \<leftarrow> createStringObjectFromLongLong shared u new val h;
                  Some (r1, LOk (StrObject h' a))}
                else do {
                  bs \<leftarrow> sdsfromlonglong val;
                  s \<leftarrow> sdsnewlen u (Some bs) (length bs);
                  Some (r1, LOk (StrObject (createObject new (Raw s) h) new))})"

definition rdbTryIntegerEncoding :: "bytes \<Rightarrow> bytes \<Rightarrow> bytes" where
  "rdbTryIntegerEncoding buf s =
     (let (v, eptr, erange) = strtoll (takeWhile (\<lambda>b. b \<noteq> 0) s)
      in if eptr \<noteq> [] then []
         else
           let buf' = fst (ll2string buf v); n = length (takeWhile (\<lambda>b. b \<noteq> 0) buf')
           in if n \<noteq> length s \<or> memcmp (take (length s) buf') s \<noteq> 0 then []
              else rdbEncodeInteger v)"

definition rdbSaveLzfBlob :: "'io rio option \<Rightarrow> bytes \<Rightarrow> nat \<Rightarrow> 'io rio option \<times> int" where
  "rdbSaveLzfBlob rdb data original_len =
     chain (chain (chain (rdbWriteRaw rdb [of_nat (push_bit 6 RDB_ENCVAL OR RDB_ENC_LZF)])
       (\<lambda>rdb. rdbSaveLen rdb (length data)))
       (\<lambda>rdb. rdbSaveLen rdb original_len))
       (\<lambda>rdb. rdbWriteRaw rdb data)"

text \<open>\<open>htab\<close> is the uninitialised hash table of the compressor; the length of the input is an \<open>unsigned int\<close>.\<close>

definition rdbSaveLzfStringObject ::
  "byte \<Rightarrow> (nat \<Rightarrow> u32) \<Rightarrow> 'io rio option \<Rightarrow> bytes \<Rightarrow> ('io rio option \<times> int) option" where
  "rdbSaveLzfStringObject u htab rdb s =
     (if length s \<le> 4 then Some (rdb, 0)
      else do {
        c \<leftarrow> lzf_compress u htab (take (length s mod 2 ^ 32) s) (length s - 4);
        (case c of None \<Rightarrow> Some (rdb, 0)
         | Some out \<Rightarrow> Some (rdbSaveLzfBlob rdb out (length s)))})"

definition rdbSaveRawString ::
  "byte \<Rightarrow> (nat \<Rightarrow> u32) \<Rightarrow> bytes \<Rightarrow> bool \<Rightarrow> 'io rio option \<Rightarrow> bytes \<Rightarrow> ('io rio option \<times> int) option" where
  "rdbSaveRawString u htab buf rdb_compression rdb s =
     (let enc = (if length s \<le> 11 then rdbTryIntegerEncoding buf s else [])
      in if enc \<noteq> [] then Some (rdbWriteRaw rdb enc)
         else do {
           (rdb1, n) \<leftarrow> (if rdb_compression \<and> length s > 20 then rdbSaveLzfStringObject u htab rdb s else Some (rdb, 0));
           (if n = -1 then Some (rdb1, -1)
            else if n > 0 then Some (rdb1, n)
            else Some (chain (rdbSaveLen rdb1 (length s))
                   (\<lambda>rdb. if length s > 0 then rdbWriteRaw rdb s else (rdb, 0))))})"

definition rdbSaveLongLongAsStringObject :: "bytes \<Rightarrow> 'io rio option \<Rightarrow> int \<Rightarrow> ('io rio option \<times> int) option" where
  "rdbSaveLongLongAsStringObject buf rdb v =
     (let enc = rdbEncodeInteger v
      in if enc \<noteq> [] then Some (rdbWriteRaw rdb enc)
         else
           let (b, enclen) = ll2string buf v
           in if \<not> enclen < 32 then None
              else Some (chain (rdbSaveLen rdb enclen) (\<lambda>rdb. rdbWriteRaw rdb (take enclen b))))"

definition rdbSaveStringObject ::
  "byte \<Rightarrow> (nat \<Rightarrow> u32) \<Rightarrow> bytes \<Rightarrow> bool \<Rightarrow> 'io rio option \<Rightarrow> robj \<Rightarrow> ('io rio option \<times> int) option" where
  "rdbSaveStringObject u htab buf rdb_compression rdb ob =
     (case ro_ptr ob of
        IntEnc v \<Rightarrow> rdbSaveLongLongAsStringObject buf rdb v
      | Raw s \<Rightarrow> rdbSaveRawString u htab buf rdb_compression rdb (take (sdslen s) (s_buf s))
      | Embstr s \<Rightarrow> rdbSaveRawString u htab buf rdb_compression rdb (take (sdslen s) (s_buf s)))"

definition rdbLoadLzfStringObject ::
  "byte \<Rightarrow> nat \<Rightarrow> 'io rio \<Rightarrow> bool \<Rightarrow> obj_heap \<Rightarrow> ('io rio \<times> loaded load) option" where
  "rdbLoadLzfStringObject u new r plain h =
     (case rdbLoadLen r of (r1, clen, _) \<Rightarrow>
        if clen = RDB_LENERR then Some (r1, LNull)
        else case rdbLoadLen r1 of (r2, len, _) \<Rightarrow>
          if len = RDB_LENERR then Some (r2, LNull)
          else case rioRead r2 clen of (r3, None) \<Rightarrow> Some (r3, LNull)
            | (r3, Some c) \<Rightarrow>
              (case lzf_decompress c len of None \<Rightarrow> None
               | Some (Inl _) \<Rightarrow> Some (r3, LNull)
               | Some (Inr out) \<Rightarrow>
                 if out = [] then Some (r3, LNull)
                 else if plain then Some (r3, LOk (PlainStr (write_at 0 out (replicate len u))))
                 else do {
                   s0 \<leftarrow> sdsnewlen u None len;
                   s \<leftarrow> put_bytes 0 out s0;
                   Some (r3, LOk (StrObject (createObject new (Raw s) h) new))}))"

text \<open>\<open>rioRead(rdb, o->ptr, len)\<close> into the string of the new object.\<close>

definition store_bytes :: "nat \<Rightarrow> bytes \<Rightarrow> obj_heap \<Rightarrow> obj_heap option" where
  "store_bytes a bs h = do {
     ob \<leftarrow> h a;
     (case ro_ptr ob of
        Raw s \<Rightarrow> do { s' \<leftarrow> put_bytes 0 bs s; Some (h(a \<mapsto> ob\<lparr>ro_ptr := Raw s'\<rparr>)) }
      | Embstr s \<Rightarrow> do { s' \<leftarrow> put_bytes 0 bs s; Some (h(a \<mapsto> ob\<lparr>ro_ptr := Embstr s'\<rparr>)) }
      | IntEnc _ \<Rightarrow> None)}"

definition rdbGenericLoadStringObject ::
  "(nat \<Rightarrow> nat) \<Rightarrow> byte \<Rightarrow> bytes \<Rightarrow> nat \<Rightarrow> 'io rio \<Rightarrow> bool \<Rightarrow> bool \<Rightarrow> obj_heap \<Rightarrow> ('io rio \<times> loaded load) option" where
  "rdbGenericLoadStringObject shared u buf new r plain encode h =
     (case rdbLoadLen r of (r1, len, isencoded) \<Rightarrow>
        if isencoded then
          (if len = RDB_ENC_INT8 \<or> len = RDB_ENC_INT16 \<or> len = RDB_ENC_INT32
           then rdbLoadIntegerObject shared u buf new r1 len plain encode h
           else if len = RDB_ENC_LZF then rdbLoadLzfStringObject u new r1 plain h
           else Some (r1, LExit))
        else if len = RDB_LENERR then Some (r1, LNull)
        else if \<not> plain then do {
          h1 \<leftarrow> (if encode then createStringObject u new None len h else createRawStringObject u new None len h);
          (if len = 0 then Some (r1, LOk (StrObject h1 new))
           else case rioRead r1 len of (r2, None) \<Rightarrow> Some (r2, LNull)
             | (r2, Some bs) \<Rightarrow> do {
                 h2 \<leftarrow> store_bytes new bs h1;
                 Some (r2, LOk (StrObject h2 new))})}
        else
          (if len = 0 then Some (r1, LOk (PlainStr []))
           else case rioRead r1 len of (r2, None) \<Rightarrow> Some (r2, LNull)
             | (r2, Some bs) \<Rightarrow> Some (r2, LOk (PlainStr bs))))"

definition rdbLoadStringObject :: "(nat \<Rightarrow> nat) \<Rightarrow> byte \<Rightarrow> bytes \<Rightarrow> nat \<Rightarrow> 'io rio \<Rightarrow> obj_heap \<Rightarrow> ('io rio \<times> loaded load) option" where
  "rdbLoadStringObject shared u buf new r h = rdbGenericLoadStringObject shared u buf new r False False h"

definition rdbLoadEncodedStringObject :: "(nat \<Rightarrow> nat) \<Rightarrow> byte \<Rightarrow> bytes \<Rightarrow> nat \<Rightarrow> 'io rio \<Rightarrow> obj_heap \<Rightarrow> ('io rio \<times> loaded load) option" where
  "rdbLoadEncodedStringObject shared u buf new r h = rdbGenericLoadStringObject shared u buf new r False True h"

section \<open>The bytes that are saved\<close>

definition int_width :: "int \<Rightarrow> nat" where
  "int_width v = (if - (2 ^ 7) \<le> v \<and> v \<le> 2 ^ 7 - 1 then 1 else if - (2 ^ 15) \<le> v \<and> v \<le> 2 ^ 15 - 1 then 2 else 4)"

lemma rdbEncodeInteger_sle:
  "rdbEncodeInteger v =
     (if - (2 ^ 31) \<le> v \<and> v < 2 ^ 31 then (192 + of_nat (int_width v div 2)) # sle_bytes (int_width v) v else [])"
  by (simp add: rdbEncodeInteger_def int_width_def rdb_consts byte_of_int_and sle_bytes_widths [unfolded One_nat_def]
      drop_bit_eq_div push_bit_eq_mult)

lemma rdbSaveLen_bytes:
  "n < 2 ^ 32 \<Longrightarrow> rdbSaveLen rdb n =
     (if n < 16384 then rdbWriteRaw rdb (len_bytes n)
      else chain (rdbWriteRaw rdb [128]) (\<lambda>rdb. rdbWriteRaw rdb (be_bytes 4 n)))"
  using or_64 [of "n div 256"]
  by (simp add: rdbSaveLen_def len_bytes_def rdb_consts nat_and_255 byte_of_nat_mod drop_bit_eq_div push_bit_eq_mult)

text \<open>\<open>emits\<close>: what \<open>f\<close> saves is \<open>bs\<close>.  With a null stream it returns the size; with a stream of the target \<open>wr\<close>
  it returns the size and the stream has taken the bytes, or -1, which a reliable target excludes.\<close>

definition emits :: "bool \<Rightarrow> (bytes \<Rightarrow> 'io \<Rightarrow> 'io \<times> bool) \<Rightarrow> ('io \<Rightarrow> bool) \<Rightarrow> ('io \<Rightarrow> bytes)
    \<Rightarrow> ('io rio option \<Rightarrow> 'io rio option \<times> int) \<Rightarrow> bytes \<Rightarrow> bool" where
  "emits reliable wr alive contents f bs \<longleftrightarrow>
     f None = (None, int (length bs)) \<and>
     (\<forall>r. rio_write r = wr \<longrightarrow> (\<exists>r1 n. f (Some r) = (Some r1, n) \<and>
        (n = -1 \<and> \<not> reliable \<or> n = int (length bs) \<and> wrote alive contents r bs r1)))"

lemma emits_nothing: "emits reliable wr alive contents (\<lambda>rdb. (rdb, 0)) []"
  by (simp add: emits_def)

lemma emits_chain:
  assumes f: "emits reliable wr alive contents f a" and g: "emits reliable wr alive contents g b"
  shows "emits reliable wr alive contents (\<lambda>rdb. chain (f rdb) g) (a @ b)"
  unfolding emits_def
proof (intro conjI allI impI)
  show "chain (f None) g = (None, int (length (a @ b)))" using f g by (simp add: emits_def chain_def)
next
  fix r :: "'a rio"
  assume r: "rio_write r = wr"
  obtain r1 n where r1: "f (Some r) = (Some r1, n)" "n = -1 \<and> \<not> reliable \<or> n = int (length a) \<and> wrote alive contents r a r1"
    using f r unfolding emits_def by blast
  show "\<exists>r2 n. chain (f (Some r)) g = (Some r2, n)
      \<and> (n = -1 \<and> \<not> reliable \<or> n = int (length (a @ b)) \<and> wrote alive contents r (a @ b) r2)"
  proof (cases "n = -1")
    case True
    then show ?thesis using r1 by (auto simp: chain_def)
  next
    case False
    then have w: "n = int (length a)" "wrote alive contents r a r1" using r1 by auto
    then have "rio_write r1 = wr" using wrote_writer r by metis
    then obtain r2 m where r2: "g (Some r1) = (Some r2, m)"
        "m = -1 \<and> \<not> reliable \<or> m = int (length b) \<and> wrote alive contents r1 b r2"
      using g unfolding emits_def by blast
    then show ?thesis using r1(1) w wrote_trans [OF w(2)] by (auto simp: chain_def)
  qed
qed

locale rdb_sink =
  fixes reliable :: bool
    and wr :: "bytes \<Rightarrow> 'io \<Rightarrow> 'io \<times> bool"
    and alive :: "'io \<Rightarrow> bool"
    and contents :: "'io \<Rightarrow> bytes"
  assumes raw_emits: "length p < 2 ^ 31 \<Longrightarrow> emits reliable wr alive contents (\<lambda>rdb. rdbWriteRaw rdb p) p"
begin

lemma saveLen_emits: "n < 2 ^ 32 \<Longrightarrow> emits reliable wr alive contents (\<lambda>rdb. rdbSaveLen rdb n) (len_bytes n)"
  using emits_chain [OF raw_emits [of "[128]"] raw_emits [of "be_bytes 4 n"]] raw_emits [of "len_bytes n"]
  by (cases "n < 16384") (simp_all add: rdbSaveLen_bytes len_bytes_def)

lemma lzfBlob_emits:
  assumes "length data < 2 ^ 31" and "n < 2 ^ 31"
  shows "emits reliable wr alive contents (\<lambda>rdb. rdbSaveLzfBlob rdb data n)
    (195 # len_bytes (length data) @ len_bytes n @ data)"
proof -
  have "emits reliable wr alive contents (\<lambda>rdb. rdbSaveLzfBlob rdb data n)
      ((([of_nat (push_bit 6 RDB_ENCVAL OR RDB_ENC_LZF)] @ len_bytes (length data)) @ len_bytes n) @ data)"
    unfolding rdbSaveLzfBlob_def using assms by (intro emits_chain raw_emits saveLen_emits) simp_all
  then show ?thesis by (simp add: rdb_consts push_bit_eq_mult)
qed

end

lemma to_signed_length: "n < 2 ^ 31 \<Longrightarrow> to_signed 32 (int n) = int n"
  by (intro to_signed_id) simp_all

interpretation rdb_buffer: rdb_sink True rioBufferWrite "\<lambda>_. True" buf_ptr
proof
  fix p :: bytes
  assume p: "length p < 2 ^ 31"
  have "\<exists>r'. rioWrite r p = (r', True) \<and> wrote (\<lambda>_. True) buf_ptr r p r'" if "rio_write r = rioBufferWrite" for r
    using buffer.rioWrite_reliable [OF that] .
  then show "emits True rioBufferWrite (\<lambda>_. True) buf_ptr (\<lambda>rdb. rdbWriteRaw rdb p) p"
    using to_signed_length [OF p] by (fastforce simp: emits_def rdbWriteRaw_def)
qed

interpretation rdb_fdset: rdb_sink False rioFdsetWrite "fd_alive k" "fd_contents k" for k
proof
  fix p :: bytes
  assume p: "length p < 2 ^ 31"
  have "ok \<Longrightarrow> wrote (fd_alive k) (fd_contents k) r p r'" if "rio_write r = rioFdsetWrite" "rioWrite r p = (r', ok)" for r r' ok
    using fdset.rioWrite_wrote [OF that(1)] that(2) by simp
  then show "emits False rioFdsetWrite (fd_alive k) (fd_contents k) (\<lambda>rdb. rdbWriteRaw rdb p) p"
    using to_signed_length [OF p] by (fastforce simp: emits_def rdbWriteRaw_def split: prod.splits)
qed

section \<open>The bytes of a string\<close>

definition str_bytes :: "byte \<Rightarrow> (nat \<Rightarrow> u32) \<Rightarrow> bytes \<Rightarrow> bool \<Rightarrow> bytes \<Rightarrow> bytes" where
  "str_bytes u htab buf compress s =
     (let enc = (if length s \<le> 11 then rdbTryIntegerEncoding buf s else [])
      in if enc \<noteq> [] then enc
         else case (if compress \<and> length s > 20 then lzf_compress u htab s (length s - 4) else None) of
             Some (Some out) \<Rightarrow> 195 # len_bytes (length out) @ len_bytes (length s) @ out
           | _ \<Rightarrow> len_bytes (length s) @ s)"

lemma length_rdbEncodeInteger: "length (rdbEncodeInteger v) \<le> 5"
  by (simp add: rdbEncodeInteger_def)

lemma length_rdbTryInteger: "length (rdbTryIntegerEncoding buf s) \<le> 5"
  using length_rdbEncodeInteger by (auto simp: rdbTryIntegerEncoding_def Let_def split: prod.splits)

context rdb_sink
begin

lemma plain_emits:
  assumes "length s < 2 ^ 31"
  shows "emits reliable wr alive contents (\<lambda>rdb. chain (rdbSaveLen rdb (length s))
    (\<lambda>rdb. if length s > 0 then rdbWriteRaw rdb s else (rdb, 0))) (len_bytes (length s) @ s)"
proof (rule emits_chain [OF saveLen_emits])
  show "emits reliable wr alive contents (\<lambda>rdb. if length s > 0 then rdbWriteRaw rdb s else (rdb, 0)) s"
    using assms raw_emits [of s] emits_nothing by (cases "s = []") simp_all
qed (use assms in simp)

lemma rawString_emits:
  assumes s: "length s < 2 ^ 31"
  shows "\<exists>f. (\<forall>rdb. rdbSaveRawString u htab buf compress rdb s = Some (f rdb))
    \<and> emits reliable wr alive contents f (str_bytes u htab buf compress s)"
proof -
  define enc where "enc = (if length s \<le> 11 then rdbTryIntegerEncoding buf s else [])"
  consider "enc \<noteq> []" | "enc = []" "\<not> (compress \<and> length s > 20)" | "enc = []" "compress" "length s > 20" by blast
  then show ?thesis
  proof cases
    case 1
    moreover have "length enc < 2 ^ 31" using length_rdbTryInteger [of buf s] by (simp add: enc_def)
    ultimately show ?thesis
      using raw_emits [of enc] by (auto simp: rdbSaveRawString_def str_bytes_def Let_def enc_def [symmetric])
  next
    case 2
    then show ?thesis
      using plain_emits [OF s] by (auto simp: rdbSaveRawString_def str_bytes_def Let_def enc_def [symmetric])
  next
    case 3
    have mod: "length s mod 4294967296 = length s" using s by simp
    obtain c where c: "lzf_compress u htab s (length s - 4) = Some c" "\<And>out. c = Some out \<Longrightarrow> length out \<le> length s - 4"
      using lzf_compress_correct [of s u htab "length s - 4"] 3 s by fastforce
    show ?thesis
    proof (cases c)
      case None
      then show ?thesis
        using 3 c(1) mod plain_emits [OF s]
        by (auto simp: rdbSaveRawString_def rdbSaveLzfStringObject_def str_bytes_def Let_def enc_def [symmetric])
    next
      case (Some out)
      have "length out < 2 ^ 31" using c(2) [OF Some] s by simp
      note e = lzfBlob_emits [OF this s]
      define f where "f rdb = (let (rdb1, n) = rdbSaveLzfBlob rdb out (length s)
          in if n = -1 then (rdb1, -1) else if n > 0 then (rdb1, n)
             else chain (rdbSaveLen rdb1 (length s)) (\<lambda>rdb. if length s > 0 then rdbWriteRaw rdb s else (rdb, 0)))"
        for rdb :: "'io rio option"
      have "rdbSaveRawString u htab buf compress rdb s = Some (f rdb)" for rdb
        using 3 c(1) mod Some
        by (simp add: rdbSaveRawString_def rdbSaveLzfStringObject_def f_def Let_def enc_def [symmetric] split: prod.splits)
      moreover have "emits reliable wr alive contents f (195 # len_bytes (length out) @ len_bytes (length s) @ out)"
        using e unfolding emits_def f_def by fastforce
      moreover have "str_bytes u htab buf compress s = 195 # len_bytes (length out) @ len_bytes (length s) @ out"
        using 3 c(1) Some by (simp add: str_bytes_def Let_def enc_def [symmetric])
      ultimately show ?thesis by auto
    qed
  qed
qed

end

section \<open>Loading reads the bytes back\<close>

text \<open>\<open>reader_at\<close>: a stream of the reader whose unread bytes are \<open>bs\<close>.\<close>

definition reader_at :: "(nat \<Rightarrow> 'io \<Rightarrow> 'io \<times> bytes option) \<Rightarrow> ('io \<Rightarrow> bool) \<Rightarrow> ('io \<Rightarrow> bytes) \<Rightarrow> 'io rio \<Rightarrow> bytes \<Rightarrow> bool" where
  "reader_at rd good remaining r bs \<longleftrightarrow> rio_read r = rd \<and> good (rio_io r) \<and> remaining (rio_io r) = bs"

lemma loadLen_cases:
  assumes "n < 2 ^ 32"
  shows "n < 64 \<and> len_bytes n = [of_nat n] \<and> unat (of_nat n :: byte) = n
    \<or> n < 16384 \<and> \<not> n < 64 \<and> len_bytes n = [of_nat (n div 256) + 64, of_nat n] \<and> unat (of_nat (n div 256) + 64 :: byte) = n div 256 + 64
    \<or> \<not> n < 16384 \<and> len_bytes n = 128 # be_bytes 4 n \<and> be_nat (be_bytes 4 n) = n"
proof -
  have "unat (of_nat (n div 256) + 64 :: byte) = n div 256 + 64" if "n < 16384"
  proof -
    have "(of_nat (n div 256) + 64 :: byte) = of_nat (n div 256 + 64)" by simp
    then show ?thesis using that by (simp del: of_nat_add)
  qed
  then show ?thesis using assms by (auto simp: len_bytes_def)
qed

lemma rdbLoadLen_arith:
  "rdbLoadLen r =
     (case rioRead r 1 of (r1, None) \<Rightarrow> (r1, RDB_LENERR, False)
      | (r1, Some buf) \<Rightarrow>
        let type = unat (buf ! 0) div 64; low = unat (buf ! 0) mod 64
        in if type = 3 then (r1, low, True)
           else if type = 0 then (r1, low, False)
           else if type = 1 then
             (case rioRead r1 1 of (r2, None) \<Rightarrow> (r2, RDB_LENERR, False)
              | (r2, Some buf1) \<Rightarrow> (r2, low * 256 + unat (buf1 ! 0), False))
           else
             (case rioRead r1 4 of (r2, None) \<Rightarrow> (r2, RDB_LENERR, False)
              | (r2, Some len) \<Rightarrow> (r2, be_nat len, False)))"
  unfolding rdbLoadLen_def low_bits high_bits RDB_ENCVAL_def RDB_6BITLEN_def RDB_14BITLEN_def Let_def join_bytes [OF unat_byte_less] ..

context stream_reader
begin

lemma read_prefix:
  assumes "reader_at rd good remaining r (bs @ rest)" and "length bs = n"
  shows "\<exists>r'. rioRead r n = (r', Some bs) \<and> reader_at rd good remaining r' rest"
proof -
  obtain r' where r': "rioRead r n = (r', Some bs)" "has_read good remaining r bs r'"
    using rioRead_some [of r n] assms by (auto simp: reader_at_def)
  then show ?thesis using assms has_read_reader [OF r'(2)] by (auto simp: reader_at_def has_read_def)
qed

lemma loadLen_read:
  assumes at: "reader_at rd good remaining r (len_bytes n @ rest)" and n: "n < 2 ^ 32"
  shows "\<exists>r'. rdbLoadLen r = (r', n, False) \<and> reader_at rd good remaining r' rest"
  using loadLen_cases [OF n]
proof (elim disjE conjE)
  assume "n < 64" "len_bytes n = [of_nat n]" "unat (of_nat n :: byte) = n"
  moreover from this obtain r' where "rioRead r 1 = (r', Some [of_nat n])" "reader_at rd good remaining r' rest"
    using read_prefix [of r "[of_nat n]" rest 1] at by auto
  ultimately show ?thesis by (simp add: rdbLoadLen_arith)
next
  assume l: "n < 16384" "\<not> n < 64" "len_bytes n = [of_nat (n div 256) + 64, of_nat n]"
    "unat (of_nat (n div 256) + 64 :: byte) = n div 256 + 64"
  obtain r1 where r1: "rioRead r 1 = (r1, Some [of_nat (n div 256) + 64])"
      "reader_at rd good remaining r1 ([of_nat n] @ rest)"
    using read_prefix [of r "[of_nat (n div 256) + 64]" "of_nat n # rest" 1] at l by auto
  obtain r2 where r2: "rioRead r1 1 = (r2, Some [of_nat n])" "reader_at rd good remaining r2 rest"
    using read_prefix [OF r1(2), of 1] by auto
  have "(n div 256 + 64) div 64 = 1" "(n div 256 + 64) mod 64 = n div 256" using l(1) by auto
  then show ?thesis using r1 r2 l by (simp add: rdbLoadLen_arith)
next
  assume l: "\<not> n < 16384" "len_bytes n = 128 # be_bytes 4 n" "be_nat (be_bytes 4 n) = n"
  obtain r1 where r1: "rioRead r 1 = (r1, Some [128])" "reader_at rd good remaining r1 (be_bytes 4 n @ rest)"
    using read_prefix [of r "[128]" "be_bytes 4 n @ rest" 1] at l by auto
  obtain r2 where r2: "rioRead r1 4 = (r2, Some (be_bytes 4 n))" "reader_at rd good remaining r2 rest"
    using read_prefix [OF r1(2), of 4] by auto
  show ?thesis using r1 r2 l by (simp add: rdbLoadLen_arith)
qed

lemma loadLen_encval:
  assumes "reader_at rd good remaining r ((192 + of_nat k) # rest)" and "k < 64"
  shows "\<exists>r'. rdbLoadLen r = (r', k, True) \<and> reader_at rd good remaining r' rest"
proof -
  obtain r' where r': "rioRead r 1 = (r', Some [192 + of_nat k])" "reader_at rd good remaining r' rest"
    using read_prefix [of r "[192 + of_nat k]" rest 1] assms by auto
  have "(192 + of_nat k :: byte) = of_nat (192 + k)" by simp
  then have "unat (192 + of_nat k :: byte) = 192 + k" using assms(2) by (simp del: of_nat_add)
  moreover have "(192 + k) div 64 = 3" "(192 + k) mod 64 = k" using assms(2) mod_mult_self3 [of 3 64 k] by auto
  ultimately show ?thesis using r' by (simp add: rdbLoadLen_arith)
qed

end

section \<open>Loading a string\<close>

lemma string_as_integer:
  assumes "rdbTryIntegerEncoding buf s \<noteq> []" and "length buf = 32"
  shows "\<exists>v. s = sdec v \<and> - (2 ^ 31) \<le> v \<and> v < 2 ^ 31 \<and> rdbTryIntegerEncoding buf s = rdbEncodeInteger v"
proof -
  obtain v eptr er where st: "strtoll (takeWhile (\<lambda>b. b \<noteq> 0) s) = (v, eptr, er)" by (metis prod_cases3)
  have v: "in_int64 v" using strtoll_range [OF st] .
  define buf' where "buf' = write_at 0 (sdec v @ [0]) buf"
  have l: "length (sdec v) < length buf" using length_sdec [OF v] assms(2) by linarith
  have ll: "ll2string buf v = (buf', length (sdec v))" unfolding buf'_def by (rule ll2string_correct [OF v l])
  have tw: "takeWhile (\<lambda>b. b \<noteq> 0) buf' = sdec v"
    using l sdec_nonzero [of v] by (simp add: buf'_def write_at_def takeWhile_append takeWhile_eq_all_conv)
  have r: "length (sdec v) = length s" "memcmp (take (length s) buf') s = 0" "rdbTryIntegerEncoding buf s = rdbEncodeInteger v"
    using assms(1) by (auto simp: rdbTryIntegerEncoding_def st ll tw Let_def split: if_splits)
  have "take (length s) buf' = sdec v" using r(1) l by (simp add: buf'_def write_at_def)
  then have "s = sdec v" using memcmp_prefix [of "length s" "sdec v" s] r by simp
  then show ?thesis using r(3) assms(1) by (auto simp: rdbEncodeInteger_sle split: if_splits)
qed

lemma sle_int_width:
  assumes "- (2 ^ 31) \<le> v" "v < 2 ^ 31"
  shows "sle_int (sle_bytes (int_width v) v) = v"
  using assms by (intro sle_int_sle_bytes) (auto simp: int_width_def)

text \<open>What a load may return for the string \<open>s\<close>, by its flags.\<close>

definition loaded_string :: "bool \<Rightarrow> loaded \<Rightarrow> bytes \<Rightarrow> bool" where
  "loaded_string plain l s \<longleftrightarrow>
     (case l of PlainStr bs \<Rightarrow> plain \<and> bs = s
      | StrObject h a \<Rightarrow> \<not> plain \<and> (\<exists>ob. h a = Some ob \<and> obj_ok ob \<and> obj_value ob = s))"

lemma raw_new_object:
  assumes "length bs < 2 ^ 31"
  shows "\<exists>s. sdsnewlen u (Some bs) (length bs) = Some s \<and> loaded_string False (StrObject (createObject new (Raw s) h) new) bs"
  using sdsnewlen_correct [of "length bs" bs u] assms
  by (auto simp: loaded_string_def createObject_def obj_ok_def obj_value_def dest: length_content_wf)

lemma int_object_loaded:
  assumes "in_int64 v" and "shared_ok shared h"
  shows "\<exists>h' a. createStringObjectFromLongLong shared u new v h = Some (h', a) \<and> loaded_string False (StrObject h' a) (sdec v)"
proof (cases "v \<ge> 0 \<and> v < OBJ_SHARED_INTEGERS")
  case True
  then show ?thesis
    using shared_ok_incr [OF assms(2), of "nat v"] by (auto simp: createStringObjectFromLongLong_def loaded_string_def)
next
  case False
  then show ?thesis using assms(1)
    by (auto simp: createStringObjectFromLongLong_def loaded_string_def createObject_def obj_ok_def obj_value_def)
qed

context stream_reader
begin

lemma loadInteger_read:
  assumes at: "reader_at rd good remaining r (sle_bytes (int_width v) v @ rest)" and v: "- (2 ^ 31) \<le> v" "v < 2 ^ 31"
    and sh: "shared_ok shared h" and buf: "20 < length buf"
  shows "\<exists>r' l. rdbLoadIntegerObject shared u buf new r (int_width v div 2) plain encode h = Some (r', LOk l)
    \<and> loaded_string plain l (sdec v) \<and> reader_at rd good remaining r' rest"
proof -
  define n where "n = int_width v"
  have w: "n = 1 \<or> n = 2 \<or> n = 4" by (simp add: n_def int_width_def)
  have i: "in_int64 v" and ne: "v \<noteq> LLONG_MIN" using v by (simp_all add: range_simps)
  obtain r' where r': "rioRead r n = (r', Some (sle_bytes n v))" "reader_at rd good remaining r' rest"
    using read_prefix [OF at, of n] by (auto simp: n_def)
  have val: "sle_int (sle_bytes n v) = v" using sle_int_width [OF v] by (simp add: n_def)
  have sel: "n div 2 = 0 \<and> n = 1 \<or> n div 2 = 1 \<and> n = 2 \<or> n div 2 = 2 \<and> n = 4" using w by auto
  have unf: "rdbLoadIntegerObject shared u buf new r (n div 2) plain encode h =
      (if plain then let (b, len) = ll2string buf v in Some (r', LOk (PlainStr (take len b)))
       else if encode then do { (h', a) \<leftarrow> createStringObjectFromLongLong shared u new v h; Some (r', LOk (StrObject h' a)) }
       else do { bs \<leftarrow> sdsfromlonglong v; s \<leftarrow> sdsnewlen u (Some bs) (length bs);
                 Some (r', LOk (StrObject (createObject new (Raw s) h) new)) })"
    using sel r' val by (elim disjE) (simp_all add: rdbLoadIntegerObject_def rdb_consts Let_def)
  show ?thesis
  proof (cases plain)
    case True
    then show ?thesis using unf ll2string_take [OF i buf] r'(2) by (auto simp: n_def loaded_string_def)
  next
    case False
    have "length (sdec v) < 2 ^ 31" using length_sdec [OF i] by simp
    from raw_new_object [OF this, of u new h] int_object_loaded [OF i sh, of u new] show ?thesis
      using False unf r'(2) sdsll2str_correct [OF ne] by (cases encode) (auto simp: n_def sdsfromlonglong_def)
  qed
qed

end

text \<open>A string of zero bytes that is then filled.\<close>

lemma sdsnewlen_fill:
  assumes "length bs < 2 ^ 31"
  shows "\<exists>s0 s. sdsnewlen u None (length bs) = Some s0 \<and> put_bytes 0 bs s0 = Some s \<and> sds_wf s \<and> content s = bs"
proof -
  define n where "n = length bs"
  define t where "t = (if sdsReqType n = SDS_TYPE_5 \<and> n = 0 then SDS_TYPE_8 else sdsReqType n)"
  have fits: "n < 2 ^ type_bits t" using sdsReqType_fits [of n] assms by (simp add: t_def n_def)
  let ?s = "\<lambda>b. \<lparr>s_type = t, s_len = n, s_alloc = n, s_buf = b\<rparr>"
  have "sdsnewlen u None n = Some (?s (replicate n 0 @ [0]))"
    using fits unfolding sdsnewlen_def Let_def t_def [symmetric]
    by (simp add: put_bytes_def write_at_def replicate_append_same [symmetric])
  moreover have "put_bytes 0 bs (?s (replicate n 0 @ [0])) = Some (?s (bs @ [0]))"
    by (simp add: put_bytes_def write_at_def n_def)
  moreover have "sds_wf (?s (bs @ [0])) \<and> content (?s (bs @ [0])) = bs"
    using fits by (auto simp: sds_wf_def sds_cap_def sdsalloc_def content_def n_def nth_append)
  ultimately show ?thesis unfolding n_def by blast
qed

lemma fill_new_object:
  assumes "length bs < 2 ^ 31" and "bs \<noteq> []"
  shows "\<exists>h1 h2. (if encode then createStringObject u new None (length bs) h else createRawStringObject u new None (length bs) h) = Some h1
    \<and> store_bytes new bs h1 = Some h2 \<and> loaded_string False (StrObject h2 new) bs"
proof (cases "encode \<and> length bs \<le> 44")
  case True
  then show ?thesis using assms(2)
    by (auto simp: createStringObject_def createEmbeddedStringObject_def OBJ_ENCODING_EMBSTR_SIZE_LIMIT_def createObject_def
        store_bytes_def put_bytes_def write_at_def loaded_string_def obj_ok_def obj_value_def sds_wf_def sds_cap_def
        sdsalloc_def content_def nth_append)
next
  case False
  obtain s0 s where s: "sdsnewlen u None (length bs) = Some s0" "put_bytes 0 bs s0 = Some s" "sds_wf s" "content s = bs"
    using sdsnewlen_fill [OF assms(1), of u] by blast
  moreover have "s_len s < 2 ^ 31" using s(3,4) assms(1) length_content_wf by metis
  ultimately show ?thesis using False
    by (auto simp: createStringObject_def createRawStringObject_def OBJ_ENCODING_EMBSTR_SIZE_LIMIT_def createObject_def
        store_bytes_def loaded_string_def obj_ok_def obj_value_def)
qed

lemma empty_new_object:
  "\<exists>h1. (if encode then createStringObject u new None 0 h else createRawStringObject u new None 0 h) = Some h1
    \<and> loaded_string False (StrObject h1 new) []"
proof (cases encode)
  case True
  then show ?thesis
    by (simp add: createStringObject_def createEmbeddedStringObject_def OBJ_ENCODING_EMBSTR_SIZE_LIMIT_def createObject_def
        loaded_string_def obj_ok_def obj_value_def sds_wf_def sds_cap_def sdsalloc_def content_def)
next
  case False
  have e: "s = s0" if "put_bytes 0 [] s0 = Some s" for s s0 using that by (auto simp: put_bytes_def split: if_splits)
  obtain s0 where "sdsnewlen u None 0 = Some s0" "sds_wf s0" "content s0 = []"
    using sdsnewlen_fill [of "[]" u] e by auto
  then show ?thesis using False length_content_wf [of s0]
    by (auto simp: createRawStringObject_def createObject_def loaded_string_def obj_ok_def obj_value_def)
qed

context stream_reader
begin

lemma loadLzf_read:
  assumes at: "reader_at rd good remaining r (len_bytes (length out) @ len_bytes (length s) @ out @ rest)"
    and d: "lzf_decompress out (length s) = Some (Inr s)" and s: "s \<noteq> []" "length s < 2 ^ 31" "length out < 2 ^ 31"
  shows "\<exists>r' l. rdbLoadLzfStringObject u new r plain h = Some (r', LOk l)
    \<and> loaded_string plain l s \<and> reader_at rd good remaining r' rest"
proof -
  obtain r1 where r1: "rdbLoadLen r = (r1, length out, False)" "reader_at rd good remaining r1 (len_bytes (length s) @ out @ rest)"
    using loadLen_read [OF at] s(3) by auto
  obtain r2 where r2: "rdbLoadLen r1 = (r2, length s, False)" "reader_at rd good remaining r2 (out @ rest)"
    using loadLen_read [OF r1(2)] s(2) by auto
  obtain r3 where r3: "rioRead r2 (length out) = (r3, Some out)" "reader_at rd good remaining r3 rest"
    using read_prefix [OF r2(2) refl] by blast
  have ne: "length out \<noteq> RDB_LENERR" "length s \<noteq> RDB_LENERR" using s by (auto simp: RDB_LENERR_def)
  obtain s0 s1 where f: "sdsnewlen u None (length s) = Some s0" "put_bytes 0 s s0 = Some s1" "sds_wf s1" "content s1 = s"
    using sdsnewlen_fill [OF s(2), of u] by blast
  then have "s_len s1 < 2 ^ 31" using s(2) length_content_wf by metis
  then show ?thesis
    using r1(1) r2(1) r3 ne d s(1) f
    by (cases plain) (auto simp: rdbLoadLzfStringObject_def loaded_string_def write_at_def createObject_def obj_ok_def obj_value_def)
qed

lemma loadPlain_read:
  assumes at: "reader_at rd good remaining r (len_bytes (length s) @ s @ rest)" and s: "length s < 2 ^ 31"
  shows "\<exists>r' l. rdbGenericLoadStringObject shared u buf new r plain encode h = Some (r', LOk l)
    \<and> loaded_string plain l s \<and> reader_at rd good remaining r' rest"
proof -
  obtain r1 where r1: "rdbLoadLen r = (r1, length s, False)" "reader_at rd good remaining r1 (s @ rest)"
    using loadLen_read [OF at] s by auto
  obtain r2 where r2: "rioRead r1 (length s) = (r2, Some s)" "reader_at rd good remaining r2 rest"
    using read_prefix [OF r1(2) refl] by blast
  have ne: "length s \<noteq> RDB_LENERR" using s by (auto simp: RDB_LENERR_def)
  show ?thesis
  proof (cases "s = []")
    case True
    then show ?thesis
      using r1 empty_new_object [of encode u new h] ne
      by (cases plain) (auto simp: rdbGenericLoadStringObject_def loaded_string_def RDB_LENERR_def)
  next
    case False
    then show ?thesis
      using r1 r2 ne fill_new_object [OF s False, of encode u new h]
      by (cases plain) (auto simp: rdbGenericLoadStringObject_def loaded_string_def)
  qed
qed

lemma loadString_read:
  assumes at: "reader_at rd good remaining r (str_bytes u htab buf compress s @ rest)" and s: "length s < 2 ^ 31"
    and sh: "shared_ok shared h" and buf: "length buf = 32" "20 < length buf'"
  shows "\<exists>r' l. rdbGenericLoadStringObject shared u' buf' new r plain encode h = Some (r', LOk l)
    \<and> loaded_string plain l s \<and> reader_at rd good remaining r' rest"
proof -
  define enc where "enc = (if length s \<le> 11 then rdbTryIntegerEncoding buf s else [])"
  consider (int) "enc \<noteq> []" | (lzf) out where "enc = []" "compress" "length s > 20" "lzf_compress u htab s (length s - 4) = Some (Some out)"
    | (plain) "str_bytes u htab buf compress s = len_bytes (length s) @ s"
    unfolding str_bytes_def Let_def enc_def [symmetric]
    by (cases "enc = []"; cases "compress \<and> length s > 20"; cases "lzf_compress u htab s (length s - 4)";
        cases "the (lzf_compress u htab s (length s - 4))") simp_all
  then show ?thesis
  proof cases
    case int
    then obtain v where v: "s = sdec v" "- (2 ^ 31) \<le> v" "v < 2 ^ 31" "enc = rdbEncodeInteger v"
      using string_as_integer [of buf s] buf(1) by (auto simp: enc_def split: if_splits)
    have "str_bytes u htab buf compress s = enc" using int by (simp add: str_bytes_def Let_def enc_def [symmetric])
    then have "reader_at rd good remaining r ((192 + of_nat (int_width v div 2)) # sle_bytes (int_width v) v @ rest)"
      using at v(2-4) by (simp add: rdbEncodeInteger_sle)
    moreover have w: "int_width v div 2 < 3" by (simp add: int_width_def)
    ultimately obtain r1 where r1: "rdbLoadLen r = (r1, int_width v div 2, True)"
        "reader_at rd good remaining r1 (sle_bytes (int_width v) v @ rest)"
      using loadLen_encval [of r "int_width v div 2"] by auto
    have "rdbGenericLoadStringObject shared u' buf' new r plain encode h =
        rdbLoadIntegerObject shared u' buf' new r1 (int_width v div 2) plain encode h"
      using r1(1) w by (auto simp: rdbGenericLoadStringObject_def rdb_consts)
    then show ?thesis using loadInteger_read [OF r1(2) v(2,3) sh buf(2), of u' new plain encode] v(1) by auto
  next
    case lzf
    have o: "out \<noteq> [] \<and> length out \<le> length s - 4 \<and> decodes out s"
      using lzf_compress_correct [of s u htab "length s - 4"] lzf s by auto
    then have d: "lzf_decompress out (length s) = Some (Inr s)" using decodes_decompress by blast
    have "reader_at rd good remaining r ((192 + of_nat 3) # len_bytes (length out) @ len_bytes (length s) @ out @ rest)"
      using at lzf by (simp add: str_bytes_def Let_def enc_def [symmetric])
    then obtain r1 where r1: "rdbLoadLen r = (r1, 3, True)"
        "reader_at rd good remaining r1 (len_bytes (length out) @ len_bytes (length s) @ out @ rest)"
      using loadLen_encval [of r 3] by auto
    have "rdbGenericLoadStringObject shared u' buf' new r plain encode h = rdbLoadLzfStringObject u' new r1 plain h"
      using r1(1) by (simp add: rdbGenericLoadStringObject_def rdb_consts)
    moreover have "s \<noteq> []" "length out < 2 ^ 31" using lzf(3) o s by auto
    ultimately show ?thesis using loadLzf_read [OF r1(2) d _ s, of u' new plain h] by auto
  next
    case plain
    then show ?thesis using at loadPlain_read [of r s rest] s by simp
  qed
qed

end

section \<open>A dump of strings\<close>

text \<open>What a string is saved as in a memory stream, and what the loader makes of it.\<close>

definition save_string :: "byte \<Rightarrow> (nat \<Rightarrow> u32) \<Rightarrow> bytes \<Rightarrow> bool \<Rightarrow> bytes \<Rightarrow> bytes" where
  "save_string u htab buf compress s =
     (case rdbSaveRawString u htab buf compress (Some (rioInitWithBuffer [])) s of
        Some (Some r, _) \<Rightarrow> buf_ptr (rio_io r) | _ \<Rightarrow> [])"

definition load_string :: "byte \<Rightarrow> bytes \<Rightarrow> bytes \<Rightarrow> (bytes \<times> bytes) option" where
  "load_string u buf bs =
     (case rdbGenericLoadStringObject (\<lambda>v. v) u buf 0 (rioInitWithBuffer bs) True False (\<lambda>a. Some \<lparr>ro_ptr = IntEnc (int a), ro_refcount = 1\<rparr>) of
        Some (r, LOk (PlainStr s)) \<Rightarrow> Some (s, drop (buf_pos (rio_io r)) (buf_ptr (rio_io r))) | _ \<Rightarrow> None)"

lemma save_string_bytes:
  assumes "length s < 2 ^ 31"
  shows "save_string u htab buf compress s = str_bytes u htab buf compress s"
proof -
  let ?r = "rioInitWithBuffer []"
  obtain f where f: "\<forall>rdb. rdbSaveRawString u htab buf compress rdb s = Some (f rdb)"
    and e: "emits True rioBufferWrite (\<lambda>_. True) buf_ptr f (str_bytes u htab buf compress s)"
    using rdb_buffer.rawString_emits [OF assms, of u htab buf compress] by blast
  obtain r1 where "f (Some ?r) = (Some r1, int (length (str_bytes u htab buf compress s)))"
      "wrote (\<lambda>_. True) buf_ptr ?r (str_bytes u htab buf compress s) r1"
    using e [unfolded emits_def, THEN conjunct2, THEN spec, of ?r] by (auto simp: rioInitWithBuffer_def)
  then show ?thesis using f by (simp add: save_string_def wrote_def rioInitWithBuffer_def)
qed

lemma buffer_reader_at:
  "length bs < 2 ^ 64 \<Longrightarrow> reader_at rioBufferRead buf_good buf_remaining (rioInitWithBuffer bs) bs"
  by (simp add: reader_at_def rioInitWithBuffer_def buf_good_def buf_remaining_def)

interpretation rdb_strings: prefix_codec "save_string u htab buf compress" "load_string u' buf'"
    "\<lambda>s. length s < 2 ^ 31 \<and> length buf = 32 \<and> 20 < length buf'" "2 ^ 64" for u htab buf compress u' buf'
proof
  fix s rest
  assume ok: "length s < 2 ^ 31 \<and> length buf = 32 \<and> 20 < length buf'"
    and len: "length (save_string u htab buf compress s @ rest) < 2 ^ 64"
  let ?h = "\<lambda>a. Some \<lparr>ro_ptr = IntEnc (int a), ro_refcount = 1\<rparr>"
  have at: "reader_at rioBufferRead buf_good buf_remaining
      (rioInitWithBuffer (save_string u htab buf compress s @ rest)) (str_bytes u htab buf compress s @ rest)"
    using buffer_reader_at [OF len] save_string_bytes ok by simp
  have sh: "shared_ok (\<lambda>v. v) ?h" by (simp add: shared_ok_def)
  obtain r' l where "rdbGenericLoadStringObject (\<lambda>v. v) u' buf' 0
      (rioInitWithBuffer (save_string u htab buf compress s @ rest)) True False ?h = Some (r', LOk l)"
      "loaded_string True l s" "reader_at rioBufferRead buf_good buf_remaining r' rest"
    using bufrd.loadString_read [OF at _ sh, of buf' u' 0 True False] ok by auto
  then show "load_string u' buf' (save_string u htab buf compress s @ rest) = Some (s, rest)"
    by (auto simp: load_string_def loaded_string_def reader_at_def buf_remaining_def split: loaded.splits)
qed

section \<open>Properties\<close>

text \<open>
  C17.  A string survives the dump: what \<open>rdbSaveRawString\<close> appends to a memory stream, with
  compression on or off, is read back by \<open>rdbGenericLoadStringObject\<close>, whatever its flags and whatever bytes
  follow, as an object (or plain bytes) with the same string value, and the reader stands at the following
  bytes.  Integer-like strings, compressible strings and all others take their three different paths.
\<close>

theorem rdb_string_roundtrip:
  assumes s: "length s < 2 ^ 31" and buf: "length buf = 32" "length buf' = 32" and sh: "shared_ok shared h"
    and room: "length (save_string u htab buf compress s @ rest) < 2 ^ 64"
  shows "\<exists>r' l. rdbGenericLoadStringObject shared u' buf' new
      (rioInitWithBuffer (save_string u htab buf compress s @ rest)) plain encode h = Some (r', LOk l)
    \<and> loaded_string plain l s \<and> buf_remaining (rio_io r') = rest"
proof -
  have "reader_at rioBufferRead buf_good buf_remaining
      (rioInitWithBuffer (save_string u htab buf compress s @ rest)) (str_bytes u htab buf compress s @ rest)"
    using buffer_reader_at [OF room] save_string_bytes [OF s] by simp
  from bufrd.loadString_read [OF this s sh buf(1), of buf' u' new plain encode] buf(2) show ?thesis
    by (auto simp: reader_at_def)
qed

lemma save_letters:
  "save_string u htab buf compress [97] = [1, 97]" "save_string u htab buf compress [98, 99] = [2, 98, 99]"
  by (simp_all add: save_string_bytes str_bytes_def rdbTryIntegerEncoding_def strtoll_def isspace_def isdig_def len_bytes_def)

theorem rdb_string_roundtrip_witness:
  "\<exists>r' h' a ob. rdbGenericLoadStringObject (\<lambda>v. v) 0 (replicate 32 0) 20000
      (rioInitWithBuffer [1, 97, 7]) False True (\<lambda>a. Some (int_object (int a))) = Some (r', LOk (StrObject h' a))
    \<and> h' a = Some ob \<and> obj_value ob = [97] \<and> buf_remaining (rio_io r') = [7]"
proof -
  have sh: "shared_ok (\<lambda>v. v) (\<lambda>a. Some (int_object (int a)))" by (simp add: shared_ok_def int_object_def)
  obtain r' l where "rdbGenericLoadStringObject (\<lambda>v. v) 0 (replicate 32 0) 20000
      (rioInitWithBuffer [1, 97, 7]) False True (\<lambda>a. Some (int_object (int a))) = Some (r', LOk l)"
      "loaded_string False l [97]" "buf_remaining (rio_io r') = [7]"
    using rdb_string_roundtrip [of "[97]" "replicate 32 0" "replicate 32 0" "\<lambda>v. v" "\<lambda>a. Some (int_object (int a))"
        0 "\<lambda>_. 0" True "[7]" 0 20000 False True] sh
    by (auto simp: save_letters)
  then show ?thesis by (cases l) (auto simp: loaded_string_def)
qed

text \<open>
  A dump of several strings, written one after the other, is read back as the same list of strings, and
  the reader stands behind the last of them.
\<close>

theorem rdb_strings_sequence:
  assumes "list_all (\<lambda>s. length s < 2 ^ 31) xs" and "length buf = 32" "length buf' = 32"
    and "length (concat (map (save_string u htab buf compress) xs) @ rest) < 2 ^ 64"
  shows "dec_many (load_string u' buf') (length xs) (concat (map (save_string u htab buf compress) xs) @ rest) = Some (xs, rest)"
  using rdb_strings.dec_many_enc [of buf buf' xs u htab compress rest u'] assms by simp

theorem rdb_strings_sequence_witness:
  "dec_many (load_string 0 (replicate 32 0)) 2 [1, 97, 2, 98, 99] = Some ([[97], [98, 99]], [])"
  using rdb_strings_sequence [of "[[97], [98, 99]]" "replicate 32 0" "replicate 32 0" 0 "\<lambda>_. 0" True "[]" 0]
  by (simp add: save_letters del: dec_many.simps) (simp add: numeral_2_eq_2 del: dec_many.simps)

text \<open>
  C40.  The loader trusts the compressed length of a dump: a compressed string whose compressed length is zero
  makes \<open>lzf_decompress\<close> read a byte before it has tested for the end of its input.
\<close>

theorem rdb_load_empty_lzf:
  "rdbGenericLoadStringObject shared u buf new (rioInitWithBuffer [0xC3, 0, 5]) plain encode h = None"
proof -
  let ?r = "rioInitWithBuffer [0xC3, 0, 5]"
  have at: "reader_at rioBufferRead buf_good buf_remaining ?r ((192 + of_nat 3) # len_bytes 0 @ len_bytes 5 @ [])"
    using buffer_reader_at [of "[0xC3, 0, 5]"] by (simp add: len_bytes_def)
  obtain r1 where r1: "rdbLoadLen ?r = (r1, 3, True)" "reader_at rioBufferRead buf_good buf_remaining r1 (len_bytes 0 @ len_bytes 5 @ [])"
    using bufrd.loadLen_encval [OF at] by auto
  obtain r2 where r2: "rdbLoadLen r1 = (r2, 0, False)" "reader_at rioBufferRead buf_good buf_remaining r2 (len_bytes 5 @ [])"
    using bufrd.loadLen_read [OF r1(2)] by auto
  obtain r3 where r3: "rdbLoadLen r2 = (r3, 5, False)" using bufrd.loadLen_read [OF r2(2)] by auto
  show ?thesis
    using r1(1) r2(1) r3
    by (simp add: rdbGenericLoadStringObject_def rdbLoadLzfStringObject_def rdb_consts rioRead.simps [of r3 0]
        lzf_decompress_def lzf_decompress_loop.simps lzf_token_def)
qed

end
