(* ===== verification/Multi.thy ===== *)
theory Multi
  imports Refinement
begin

text \<open>
  \<^verbatim>\<open>multi.c\<close>: transactions (\<open>MULTI\<close>, \<open>EXEC\<close>, \<open>DISCARD\<close>) and optimistic locking (\<open>WATCH\<close>, \<open>UNWATCH\<close>), with the
  part of \<open>processCommand\<close> that queues commands and the two flush commands of \<^verbatim>\<open>db.c\<close>.  Clients and
  databases are numbers.  A key is watched in two places: the database's table from keys to lists of
  clients, and the client's list of watched keys.

  A data command is a value of the type \<open>'c\<close>; what it does is the argument \<open>proc\<close>: given the database of the
  client and all databases it returns the new databases, the new current database (\<open>SELECT\<close>), the keys for
  which it called \<open>signalModifiedKey\<close>, its reply and the command as it left its arguments.  Nothing is assumed
  of it: a command may change keys it does not signal.  \<open>Keyspace\<close> gives the commands of \<^verbatim>\<open>db.c\<close>.  A failed
  assertion and \<open>listDelNode\<close> of \<open>NULL\<close> are \<open>None\<close>.  Monitors, replication traffic other than the \<open>MULTI\<close> that
  \<open>EXEC\<close> propagates and blocked clients are not modelled.
\<close>

section \<open>The model\<close>

datatype 'c cmd = Data 'c | Flushdb | Flushall | Unwatch

datatype 'r mreply =
    ROk | RQueued | RNullMulti | RExecAbort | RNested | RNoMulti | RWatchInMulti | RUnknown
  | RMultiLen nat | RData 'r

type_synonym 'v dbs = "nat \<Rightarrow> bytes \<rightharpoonup> 'v"

type_synonym ('c, 'v, 'r) proc = "'c \<Rightarrow> nat \<Rightarrow> 'v dbs \<Rightarrow> 'v dbs \<times> nat \<times> (nat \<times> bytes) list \<times> 'r \<times> 'c"

record ('c, 'v, 'r) mserver =
  dbnum :: nat
  dbs :: "nat \<Rightarrow> bytes \<rightharpoonup> 'v"
  db_watched :: "nat \<Rightarrow> bytes \<rightharpoonup> nat list"
  all_clients :: "nat list"
  srv_dirty :: int
  propagated_multi :: "nat list"
  c_db :: "nat \<Rightarrow> nat"
  c_watched :: "nat \<Rightarrow> (bytes \<times> nat) list"
  c_multi :: "nat \<Rightarrow> bool"
  c_dirty_cas :: "nat \<Rightarrow> bool"
  c_dirty_exec :: "nat \<Rightarrow> bool"
  c_queue :: "nat \<Rightarrow> 'c cmd list"
  c_reply :: "nat \<Rightarrow> 'r mreply list"

definition reply :: "nat \<Rightarrow> 'r mreply \<Rightarrow> ('c, 'v, 'r) mserver \<Rightarrow> ('c, 'v, 'r) mserver" where
  "reply c x s = s\<lparr>c_reply := (c_reply s)(c := c_reply s c @ [x])\<rparr>"

definition watchForKey :: "nat \<Rightarrow> bytes \<Rightarrow> ('c, 'v, 'r) mserver \<Rightarrow> ('c, 'v, 'r) mserver" where
  "watchForKey c key s =
     (let db = c_db s c
      in if (key, db) \<in> set (c_watched s c) then s
         else
           let clients = (case db_watched s db key of None \<Rightarrow> [] | Some l \<Rightarrow> l)
           in s\<lparr>db_watched := (db_watched s)(db := (db_watched s db)(key \<mapsto> clients @ [c])),
                c_watched := (c_watched s)(c := c_watched s c @ [(key, db)])\<rparr>)"

text \<open>The body of the loop of \<open>unwatchAllKeys\<close>, and the loop over the list as it was at its start.\<close>

definition unwatch_one :: "nat \<Rightarrow> bytes \<times> nat \<Rightarrow> ('c, 'v, 'r) mserver \<Rightarrow> ('c, 'v, 'r) mserver option" where
  "unwatch_one c wk s =
     (case db_watched s (snd wk) (fst wk) of
        None \<Rightarrow> None
      | Some clients \<Rightarrow>
        if c \<notin> set clients then None
        else
          let clients' = remove1 c clients
          in Some (s\<lparr>db_watched := (db_watched s)(snd wk := (db_watched s (snd wk))
                       (fst wk := if clients' = [] then None else Some clients')),
                     c_watched := (c_watched s)(c := remove1 wk (c_watched s c))\<rparr>))"

fun unwatch_list :: "nat \<Rightarrow> (bytes \<times> nat) list \<Rightarrow> ('c, 'v, 'r) mserver \<Rightarrow> ('c, 'v, 'r) mserver option" where
  "unwatch_list c [] s = Some s"
| "unwatch_list c (wk # wks) s = do { s' \<leftarrow> unwatch_one c wk s; unwatch_list c wks s' }"

definition unwatchAllKeys :: "nat \<Rightarrow> ('c, 'v, 'r) mserver \<Rightarrow> ('c, 'v, 'r) mserver option" where
  "unwatchAllKeys c s = unwatch_list c (c_watched s c) s"

fun mark_dirty :: "nat list \<Rightarrow> ('c, 'v, 'r) mserver \<Rightarrow> ('c, 'v, 'r) mserver" where
  "mark_dirty [] s = s"
| "mark_dirty (c # cs) s = mark_dirty cs (s\<lparr>c_dirty_cas := (c_dirty_cas s)(c := True)\<rparr>)"

definition touchWatchedKey :: "nat \<Rightarrow> bytes \<Rightarrow> ('c, 'v, 'r) mserver \<Rightarrow> ('c, 'v, 'r) mserver" where
  "touchWatchedKey db key s = (case db_watched s db key of None \<Rightarrow> s | Some clients \<Rightarrow> mark_dirty clients s)"

definition signalModifiedKey :: "nat \<times> bytes \<Rightarrow> ('c, 'v, 'r) mserver \<Rightarrow> ('c, 'v, 'r) mserver" where
  "signalModifiedKey k s = touchWatchedKey (fst k) (snd k) s"

text \<open>\<open>dbid = None\<close> is the argument -1, a flush of all databases.\<close>

fun flush_keys :: "nat option \<Rightarrow> nat \<Rightarrow> (bytes \<times> nat) list \<Rightarrow> ('c, 'v, 'r) mserver \<Rightarrow> ('c, 'v, 'r) mserver" where
  "flush_keys dbid c [] s = s"
| "flush_keys dbid c (wk # wks) s =
     flush_keys dbid c wks
       (if (dbid = None \<or> dbid = Some (snd wk)) \<and> dbs s (snd wk) (fst wk) \<noteq> None
        then s\<lparr>c_dirty_cas := (c_dirty_cas s)(c := True)\<rparr> else s)"

fun flush_clients :: "nat option \<Rightarrow> nat list \<Rightarrow> ('c, 'v, 'r) mserver \<Rightarrow> ('c, 'v, 'r) mserver" where
  "flush_clients dbid [] s = s"
| "flush_clients dbid (c # cs) s = flush_clients dbid cs (flush_keys dbid c (c_watched s c) s)"

definition touchWatchedKeysOnFlush :: "nat option \<Rightarrow> ('c, 'v, 'r) mserver \<Rightarrow> ('c, 'v, 'r) mserver" where
  "touchWatchedKeysOnFlush dbid s = flush_clients dbid (all_clients s) s"

definition flushdbCommand :: "nat \<Rightarrow> ('c, 'v, 'r) mserver \<Rightarrow> ('c, 'v, 'r) mserver" where
  "flushdbCommand c s =
     (let s1 = touchWatchedKeysOnFlush (Some (c_db s c)) s
      in reply c ROk (s1\<lparr>srv_dirty := srv_dirty s1 + int (card (dom (dbs s1 (c_db s1 c)))),
                         dbs := (dbs s1)(c_db s1 c := Map.empty)\<rparr>))"

definition flushallCommand :: "nat \<Rightarrow> ('c, 'v, 'r) mserver \<Rightarrow> ('c, 'v, 'r) mserver" where
  "flushallCommand c s =
     (let s1 = touchWatchedKeysOnFlush None s
      in reply c ROk (s1\<lparr>srv_dirty := srv_dirty s1 + (\<Sum>j<dbnum s1. int (card (dom (dbs s1 j)))) + 1,
                         dbs := (\<lambda>j. if j < dbnum s1 then Map.empty else dbs s1 j)\<rparr>))"

definition unwatchCommand :: "nat \<Rightarrow> ('c, 'v, 'r) mserver \<Rightarrow> ('c, 'v, 'r) mserver option" where
  "unwatchCommand c s = do {
     s1 \<leftarrow> unwatchAllKeys c s;
     Some (reply c ROk (s1\<lparr>c_dirty_cas := (c_dirty_cas s1)(c := False)\<rparr>))}"

text \<open>\<open>call\<close>: the effect of the command; the second result is the command with the arguments it left.\<close>

definition call :: "('c, 'v, 'r) proc \<Rightarrow> nat \<Rightarrow> 'c cmd \<Rightarrow> ('c, 'v, 'r) mserver \<Rightarrow> (('c, 'v, 'r) mserver \<times> 'c cmd) option" where
  "call proc c cmd s =
     (case cmd of
        Data x \<Rightarrow>
          (case proc x (c_db s c) (dbs s) of (d, db', touched, r, x') \<Rightarrow>
            let s1 = fold signalModifiedKey touched (s\<lparr>dbs := d, c_db := (c_db s)(c := db')\<rparr>)
            in Some (reply c (RData r) s1, Data x'))
      | Flushdb \<Rightarrow> Some (flushdbCommand c s, cmd)
      | Flushall \<Rightarrow> Some (flushallCommand c s, cmd)
      | Unwatch \<Rightarrow> map_option (\<lambda>s'. (s', cmd)) (unwatchCommand c s))"

definition initClientMultiState :: "nat \<Rightarrow> ('c, 'v, 'r) mserver \<Rightarrow> ('c, 'v, 'r) mserver" where
  "initClientMultiState c s = s\<lparr>c_queue := (c_queue s)(c := [])\<rparr>"

definition queueMultiCommand :: "nat \<Rightarrow> 'c cmd \<Rightarrow> ('c, 'v, 'r) mserver \<Rightarrow> ('c, 'v, 'r) mserver" where
  "queueMultiCommand c cmd s = s\<lparr>c_queue := (c_queue s)(c := c_queue s c @ [cmd])\<rparr>"

definition discardTransaction :: "nat \<Rightarrow> ('c, 'v, 'r) mserver \<Rightarrow> ('c, 'v, 'r) mserver option" where
  "discardTransaction c s =
     (let s1 = initClientMultiState c s
      in unwatchAllKeys c
        (s1\<lparr>c_multi := (c_multi s1)(c := False), c_dirty_cas := (c_dirty_cas s1)(c := False),
            c_dirty_exec := (c_dirty_exec s1)(c := False)\<rparr>))"

definition flagTransaction :: "nat \<Rightarrow> ('c, 'v, 'r) mserver \<Rightarrow> ('c, 'v, 'r) mserver" where
  "flagTransaction c s = (if c_multi s c then s\<lparr>c_dirty_exec := (c_dirty_exec s)(c := True)\<rparr> else s)"

definition multiCommand :: "nat \<Rightarrow> ('c, 'v, 'r) mserver \<Rightarrow> ('c, 'v, 'r) mserver" where
  "multiCommand c s =
     (if c_multi s c then reply c RNested s
      else reply c ROk (s\<lparr>c_multi := (c_multi s)(c := True)\<rparr>))"

definition discardCommand :: "nat \<Rightarrow> ('c, 'v, 'r) mserver \<Rightarrow> ('c, 'v, 'r) mserver option" where
  "discardCommand c s =
     (if \<not> c_multi s c then Some (reply c RNoMulti s) else map_option (reply c ROk) (discardTransaction c s))"

definition execCommandPropagateMulti :: "nat \<Rightarrow> ('c, 'v, 'r) mserver \<Rightarrow> ('c, 'v, 'r) mserver" where
  "execCommandPropagateMulti c s = s\<lparr>propagated_multi := propagated_multi s @ [c_db s c]\<rparr>"

text \<open>The loop of \<open>execCommand\<close>; the commands are written back as \<open>call\<close> left them.\<close>

fun exec_loop :: "('c, 'v, 'r) proc \<Rightarrow> ('c cmd \<Rightarrow> bool) \<Rightarrow> nat \<Rightarrow> 'c cmd list \<Rightarrow> bool \<Rightarrow> ('c, 'v, 'r) mserver
    \<Rightarrow> (('c, 'v, 'r) mserver \<times> bool \<times> 'c cmd list) option" where
  "exec_loop proc readonly c [] must_propagate s = Some (s, must_propagate, [])"
| "exec_loop proc readonly c (cmd # cmds) must_propagate s =
     (let propagate = (\<not> must_propagate \<and> \<not> readonly cmd);
          s0 = (if propagate then execCommandPropagateMulti c s else s)
      in do {
        (s1, cmd') \<leftarrow> call proc c cmd s0;
        (s2, mp, cmds') \<leftarrow> exec_loop proc readonly c cmds (must_propagate \<or> propagate) s1;
        Some (s2, mp, cmd' # cmds')})"

definition execCommand :: "('c, 'v, 'r) proc \<Rightarrow> ('c cmd \<Rightarrow> bool) \<Rightarrow> nat \<Rightarrow> ('c, 'v, 'r) mserver \<Rightarrow> ('c, 'v, 'r) mserver option" where
  "execCommand proc readonly c s =
     (if \<not> c_multi s c then Some (reply c RNoMulti s)
      else if c_dirty_cas s c \<or> c_dirty_exec s c then
        discardTransaction c (reply c (if c_dirty_exec s c then RExecAbort else RNullMulti) s)
      else do {
        s1 \<leftarrow> unwatchAllKeys c s;
        (s2, must_propagate, cmds) \<leftarrow>
          exec_loop proc readonly c (c_queue s1 c) False (reply c (RMultiLen (length (c_queue s1 c))) s1);
        s3 \<leftarrow> discardTransaction c (s2\<lparr>c_queue := (c_queue s2)(c := cmds)\<rparr>);
        Some (if must_propagate then s3\<lparr>srv_dirty := srv_dirty s3 + 1\<rparr> else s3)})"

definition watchCommand :: "nat \<Rightarrow> bytes list \<Rightarrow> ('c, 'v, 'r) mserver \<Rightarrow> ('c, 'v, 'r) mserver" where
  "watchCommand c keys s =
     (if c_multi s c then reply c RWatchInMulti s
      else reply c ROk (fold (watchForKey c) keys s))"

text \<open>The end of \<open>processCommand\<close>: inside a transaction a command is queued, else it is called.\<close>

definition processCommand :: "('c, 'v, 'r) proc \<Rightarrow> nat \<Rightarrow> 'c cmd \<Rightarrow> ('c, 'v, 'r) mserver \<Rightarrow> ('c, 'v, 'r) mserver option" where
  "processCommand proc c cmd s =
     (if c_multi s c then Some (reply c RQueued (queueMultiCommand c cmd s))
      else map_option fst (call proc c cmd s))"

definition unknownCommand :: "nat \<Rightarrow> ('c, 'v, 'r) mserver \<Rightarrow> ('c, 'v, 'r) mserver" where
  "unknownCommand c s = reply c RUnknown (flagTransaction c s)"

definition freeClient_multi :: "nat \<Rightarrow> ('c, 'v, 'r) mserver \<Rightarrow> ('c, 'v, 'r) mserver option" where
  "freeClient_multi c s = do {
     s1 \<leftarrow> unwatchAllKeys c s;
     Some (initClientMultiState c (s1\<lparr>all_clients := remove1 c (all_clients s1), c_multi := (c_multi s1)(c := False),
       c_dirty_cas := (c_dirty_cas s1)(c := False), c_dirty_exec := (c_dirty_exec s1)(c := False)\<rparr>))}"

section \<open>The two tables of watched keys agree\<close>

definition watch_inv :: "('c, 'v, 'r) mserver \<Rightarrow> bool" where
  "watch_inv s \<longleftrightarrow>
     (\<forall>c. distinct (c_watched s c)) \<and>
     (\<forall>db key l. db_watched s db key = Some l \<longrightarrow> l \<noteq> [] \<and> distinct l) \<and>
     (\<forall>c key db. (key, db) \<in> set (c_watched s c) \<longleftrightarrow> (\<exists>l. db_watched s db key = Some l \<and> c \<in> set l)) \<and>
     (\<forall>c. c_watched s c \<noteq> [] \<longrightarrow> c \<in> set (all_clients s))"

lemma watch_inv_cong:
  assumes "watch_inv s" and "db_watched s' = db_watched s" and "c_watched s' = c_watched s" and "all_clients s' = all_clients s"
  shows "watch_inv s'"
  using assms unfolding watch_inv_def by simp

lemma watch_inv_upd [simp]:
  "watch_inv (s\<lparr>c_multi := f\<rparr>) = watch_inv s" "watch_inv (s\<lparr>c_queue := g\<rparr>) = watch_inv s"
  "watch_inv (s\<lparr>c_dirty_exec := f\<rparr>) = watch_inv s" "watch_inv (s\<lparr>c_dirty_cas := f\<rparr>) = watch_inv s"
  "watch_inv (reply c x s) = watch_inv s"
  by (simp_all add: watch_inv_def reply_def)

text \<open>\<open>quiet\<close>: a step that leaves the tables of watched keys alone.\<close>

definition quiet :: "('c, 'v, 'r) mserver \<Rightarrow> ('c, 'v, 'r) mserver \<Rightarrow> bool" where
  "quiet s s' \<longleftrightarrow> db_watched s' = db_watched s \<and> c_watched s' = c_watched s \<and> all_clients s' = all_clients s
     \<and> c_multi s' = c_multi s \<and> c_queue s' = c_queue s \<and> c_dirty_exec s' = c_dirty_exec s"

lemma quiet_refl [simp]: "quiet s s"
  by (simp add: quiet_def)

lemma quiet_trans: "quiet s s1 \<Longrightarrow> quiet s1 s2 \<Longrightarrow> quiet s s2"
  by (simp add: quiet_def)

lemma quiet_inv: "quiet s s' \<Longrightarrow> watch_inv s \<Longrightarrow> watch_inv s'"
  by (auto simp: quiet_def intro: watch_inv_cong)

lemma mark_dirty_eq:
  "mark_dirty cs s = s\<lparr>c_dirty_cas := (\<lambda>c. c_dirty_cas s c \<or> c \<in> set cs)\<rparr>"
proof (induction cs arbitrary: s)
  case (Cons c cs)
  then show ?case by (auto intro!: arg_cong [where f = "\<lambda>f. s\<lparr>c_dirty_cas := f\<rparr>"])
qed simp

text \<open>The clients that a table lists for a key.\<close>

definition watchers :: "('c, 'v, 'r) mserver \<Rightarrow> nat \<Rightarrow> bytes \<Rightarrow> nat set" where
  "watchers s db key = (case db_watched s db key of None \<Rightarrow> {} | Some l \<Rightarrow> set l)"

lemma touchWatchedKey_eq:
  "touchWatchedKey db key s = s\<lparr>c_dirty_cas := (\<lambda>c. c_dirty_cas s c \<or> c \<in> watchers s db key)\<rparr>"
  by (simp add: touchWatchedKey_def mark_dirty_eq watchers_def split: option.splits)

lemma signal_all_eq:
  "fold signalModifiedKey ks s = s\<lparr>c_dirty_cas := (\<lambda>c. c_dirty_cas s c \<or> (\<exists>k\<in>set ks. c \<in> watchers s (fst k) (snd k)))\<rparr>"
proof (induction ks arbitrary: s)
  case (Cons k ks)
  have w: "watchers (s\<lparr>c_dirty_cas := f\<rparr>) = watchers s" for f by (simp add: watchers_def fun_eq_iff)
  have k: "signalModifiedKey k s = s\<lparr>c_dirty_cas := (\<lambda>c. c_dirty_cas s c \<or> c \<in> watchers s (fst k) (snd k))\<rparr>"
    by (simp add: signalModifiedKey_def touchWatchedKey_eq)
  show ?case using Cons.IH [of "signalModifiedKey k s"] by (simp add: k w disj_assoc)
qed simp

lemma flush_keys_eq:
  "flush_keys dbid c wks s = s\<lparr>c_dirty_cas := (c_dirty_cas s)(c := c_dirty_cas s c \<or>
     (\<exists>wk\<in>set wks. (dbid = None \<or> dbid = Some (snd wk)) \<and> dbs s (snd wk) (fst wk) \<noteq> None))\<rparr>"
  by (induction wks arbitrary: s) auto

lemma flush_clients_eq:
  "flush_clients dbid cs s = s\<lparr>c_dirty_cas := (\<lambda>c. c_dirty_cas s c \<or> c \<in> set cs \<and>
     (\<exists>wk\<in>set (c_watched s c). (dbid = None \<or> dbid = Some (snd wk)) \<and> dbs s (snd wk) (fst wk) \<noteq> None))\<rparr>"
proof (induction cs arbitrary: s)
  case (Cons c cs)
  show ?case by (simp add: Cons flush_keys_eq fun_eq_iff) (rule arg_cong [where f = "\<lambda>f. s\<lparr>c_dirty_cas := f\<rparr>"], auto)
qed simp

lemma watchers_watched: "watch_inv s \<Longrightarrow> c \<in> watchers s db key \<longleftrightarrow> (key, db) \<in> set (c_watched s c)"
  by (auto simp: watch_inv_def watchers_def split: option.splits)

section \<open>Watching and unwatching keep the tables in agreement\<close>

lemma watchForKey_inv:
  assumes "watch_inv s" and "c \<in> set (all_clients s)"
  shows "watch_inv (watchForKey c key s)"
proof (cases "(key, c_db s c) \<in> set (c_watched s c)")
  case False
  then have "c \<notin> set l" if "db_watched s (c_db s c) key = Some l" for l
    using assms(1) that unfolding watch_inv_def by blast
  then show ?thesis
    using assms False unfolding watch_inv_def watchForKey_def Let_def
    by (auto split: option.splits if_splits)
qed (use assms in \<open>simp add: watchForKey_def\<close>)

lemma unwatch_one_inv:
  assumes "watch_inv s" and "wk \<in> set (c_watched s c)"
  shows "\<exists>s' t. unwatch_one c wk s = Some s' \<and> watch_inv s' \<and> s' = s\<lparr>db_watched := t, c_watched := (c_watched s)(c := remove1 wk (c_watched s c))\<rparr>"
proof -
  obtain key db where wk: "wk = (key, db)" by force
  then obtain l where l: "db_watched s db key = Some l" "c \<in> set l" using assms unfolding watch_inv_def by blast
  then have d: "distinct l" "distinct (c_watched s c)" using assms(1) unfolding watch_inv_def by blast+
  define t where "t = (db_watched s)(db := (db_watched s db)(key := if remove1 c l = [] then None else Some (remove1 c l)))"
  have u: "unwatch_one c wk s = Some (s\<lparr>db_watched := t, c_watched := (c_watched s)(c := remove1 wk (c_watched s c))\<rparr>)"
    using l by (simp add: unwatch_one_def wk t_def)
  have set: "set (remove1 c l) = set l - {c}" "set (remove1 wk (c_watched s c)) = set (c_watched s c) - {wk}"
    using d by auto
  have tl: "(\<exists>l'. t db' key' = Some l' \<and> c' \<in> set l') \<longleftrightarrow>
      (\<exists>l'. db_watched s db' key' = Some l' \<and> c' \<in> set l') \<and> (c', key', db') \<noteq> (c, key, db)" for c' key' db'
    using l(1) set(1) by (cases "(key', db') = (key, db)") (auto simp: t_def set_empty [symmetric] simp del: set_empty)
  have "c_watched s c \<noteq> []" using assms(2) by auto
  then have ac: "c \<in> set (all_clients s)" using assms(1) unfolding watch_inv_def by blast
  have "watch_inv (s\<lparr>db_watched := t, c_watched := (c_watched s)(c := remove1 wk (c_watched s c))\<rparr>)"
    unfolding watch_inv_def
  proof (intro conjI allI)
    fix c' show "distinct (c_watched (s\<lparr>db_watched := t, c_watched := (c_watched s)(c := remove1 wk (c_watched s c))\<rparr>) c')"
      using assms(1) by (auto simp: watch_inv_def)
    show "c_watched (s\<lparr>db_watched := t, c_watched := (c_watched s)(c := remove1 wk (c_watched s c))\<rparr>) c' \<noteq> [] \<longrightarrow>
        c' \<in> set (all_clients (s\<lparr>db_watched := t, c_watched := (c_watched s)(c := remove1 wk (c_watched s c))\<rparr>))"
      using assms(1) ac by (cases "c' = c") (auto simp: watch_inv_def)
  next
    fix db' key' l'
    show "db_watched (s\<lparr>db_watched := t, c_watched := (c_watched s)(c := remove1 wk (c_watched s c))\<rparr>) db' key' = Some l' \<longrightarrow> l' \<noteq> [] \<and> distinct l'"
      using assms(1) d(1) by (auto simp: watch_inv_def t_def split: if_splits)
  next
    fix c' key' db'
    show "(key', db') \<in> set (c_watched (s\<lparr>db_watched := t, c_watched := (c_watched s)(c := remove1 wk (c_watched s c))\<rparr>) c') \<longleftrightarrow>
        (\<exists>l'. db_watched (s\<lparr>db_watched := t, c_watched := (c_watched s)(c := remove1 wk (c_watched s c))\<rparr>) db' key' = Some l' \<and> c' \<in> set l')"
      using assms(1) tl [of db' key' c'] set(2) wk by (auto simp: watch_inv_def)
  qed
  then show ?thesis using u by blast
qed

lemma unwatchAllKeys_inv:
  assumes "watch_inv s"
  shows "\<exists>s' t. unwatchAllKeys c s = Some s' \<and> watch_inv s' \<and> s' = s\<lparr>db_watched := t, c_watched := (c_watched s)(c := [])\<rparr>"
proof -
  have "\<exists>s' t. unwatch_list c wks s = Some s' \<and> watch_inv s' \<and> s' = s\<lparr>db_watched := t, c_watched := (c_watched s)(c := [])\<rparr>"
    if "watch_inv s" "c_watched s c = wks" for wks s
    using that
  proof (induction wks arbitrary: s)
    case Nil
    then have "s = s\<lparr>db_watched := db_watched s, c_watched := (c_watched s)(c := [])\<rparr>"
      by (cases s) (auto simp: fun_eq_iff)
    then have "\<exists>t. s = s\<lparr>db_watched := t, c_watched := (c_watched s)(c := [])\<rparr>" by blast
    then show ?case using Nil.prems(1) by (simp add: fun_upd_def)
  next
    case (Cons wk wks)
    obtain s1 t where s1: "unwatch_one c wk s = Some s1" "watch_inv s1"
        "s1 = s\<lparr>db_watched := t, c_watched := (c_watched s)(c := remove1 wk (c_watched s c))\<rparr>"
      using unwatch_one_inv [OF Cons.prems(1), of wk c] Cons.prems(2) by auto
    then have "c_watched s1 c = wks" using Cons.prems(2) by simp
    then obtain s2 t2 where s2: "unwatch_list c wks s1 = Some s2" "watch_inv s2"
        "s2 = s1\<lparr>db_watched := t2, c_watched := (c_watched s1)(c := [])\<rparr>"
      using Cons.IH [OF s1(2)] by blast
    have "s2 = s\<lparr>db_watched := t2, c_watched := (c_watched s)(c := [])\<rparr>"
      unfolding s2(3) s1(3) by (simp add: fun_upd_def cong: if_cong)
    then show ?case using s1(1) s2(1,2) by (auto simp del: fun_upd_apply)
  qed
  from this [OF assms refl] show ?thesis by (simp add: unwatchAllKeys_def)
qed

section \<open>What a step may do behind the back of a watching client\<close>

text \<open>\<open>guarded K s s'\<close>: no client watches more keys than before, and a client that still watches a key of \<open>K\<close> and is
  not marked dirty was not dirty before, and the key has the same value.\<close>

definition guarded :: "(bytes \<times> nat) set \<Rightarrow> ('c, 'v, 'r) mserver \<Rightarrow> ('c, 'v, 'r) mserver \<Rightarrow> bool" where
  "guarded K s s' \<longleftrightarrow> (\<forall>c. set (c_watched s' c) \<subseteq> set (c_watched s c)) \<and>
     (\<forall>c key db. (key, db) \<in> set (c_watched s' c) \<longrightarrow> (key, db) \<in> K \<longrightarrow> \<not> c_dirty_cas s' c \<longrightarrow>
        \<not> c_dirty_cas s c \<and> dbs s' db key = dbs s db key)"

lemma guarded_refl [simp]: "guarded K s s"
  by (simp add: guarded_def)

lemma guarded_trans:
  assumes "guarded K s s1" and "guarded K s1 s2"
  shows "guarded K s s2"
  unfolding guarded_def
proof (intro conjI allI impI)
  fix c show "set (c_watched s2 c) \<subseteq> set (c_watched s c)"
    using assms unfolding guarded_def by (blast intro: subset_trans)
next
  fix c key db assume k: "(key, db) \<in> set (c_watched s2 c)" "(key, db) \<in> K" "\<not> c_dirty_cas s2 c"
  then have "(key, db) \<in> set (c_watched s1 c)" "\<not> c_dirty_cas s1 c" "dbs s2 db key = dbs s1 db key"
    using assms(2) unfolding guarded_def by blast+
  then show "\<not> c_dirty_cas s c" "dbs s2 db key = dbs s db key"
    using assms(1) k(2) unfolding guarded_def by auto
qed

lemma guarded_quiet: "quiet s s' \<Longrightarrow> dbs s' = dbs s \<Longrightarrow> (\<And>c. c_dirty_cas s c \<Longrightarrow> c_dirty_cas s' c) \<Longrightarrow> guarded K s s'"
  by (auto simp: guarded_def quiet_def)

lemma guarded_mono: "guarded K s s' \<Longrightarrow> K' \<subseteq> K \<Longrightarrow> guarded K' s s'"
  unfolding guarded_def by blast

text \<open>
  A command changes a key silently when it does not call \<open>signalModifiedKey\<close> for it.  A call is the command
  with the database of the client and the databases it was executed on.
\<close>

definition silent :: "('c, 'v, 'r) proc \<Rightarrow> bytes \<times> nat \<Rightarrow> 'c \<times> nat \<times> 'v dbs \<Rightarrow> bool" where
  "silent proc k y =
     (case y of (x, j, d) \<Rightarrow> case proc x j d of (d', db', touched, r, x') \<Rightarrow>
        d' (snd k) (fst k) \<noteq> d (snd k) (fst k) \<and> (snd k, fst k) \<notin> set touched)"

definition loud :: "('c, 'v, 'r) proc \<Rightarrow> ('c \<times> nat \<times> 'v dbs) list \<Rightarrow> (bytes \<times> nat) set" where
  "loud proc ys = {k. \<forall>y \<in> set ys. \<not> silent proc k y}"

lemma loud_append: "loud proc (xs @ ys) = loud proc xs \<inter> loud proc ys"
  by (auto simp: loud_def)

lemma reply_simps [simp]:
  "quiet s (reply c x s)" "dbs (reply c x s) = dbs s" "c_dirty_cas (reply c x s) = c_dirty_cas s" "c_db (reply c x s) = c_db s"
  "c_reply (reply c x s) = (c_reply s)(c := c_reply s c @ [x])" "c_watched (reply c x s) = c_watched s"
  "c_multi (reply c x s) = c_multi s" "c_queue (reply c x s) = c_queue s" "c_dirty_exec (reply c x s) = c_dirty_exec s"
  "all_clients (reply c x s) = all_clients s" "db_watched (reply c x s) = db_watched s" "dbnum (reply c x s) = dbnum s"
  by (simp_all add: reply_def quiet_def)

lemma flush_quiet: "quiet s (touchWatchedKeysOnFlush dbid s)" "dbs (touchWatchedKeysOnFlush dbid s) = dbs s"
  "c_db (touchWatchedKeysOnFlush dbid s) = c_db s" "c_reply (touchWatchedKeysOnFlush dbid s) = c_reply s"
  "dbnum (touchWatchedKeysOnFlush dbid s) = dbnum s"
  by (simp_all add: touchWatchedKeysOnFlush_def flush_clients_eq quiet_def)

lemma flush_dirty:
  assumes "watch_inv s" and "(key, db) \<in> set (c_watched s c)" and "dbid = None \<or> dbid = Some db" and "dbs s db key \<noteq> None"
  shows "c_dirty_cas (touchWatchedKeysOnFlush dbid s) c"
proof -
  have "c \<in> set (all_clients s)" using assms(1,2) unfolding watch_inv_def by (metis empty_iff empty_set)
  then show ?thesis using assms by (auto simp: touchWatchedKeysOnFlush_def flush_clients_eq intro!: bexI [of _ "(key, db)"])
qed

lemma flush_keeps_dirty: "c_dirty_cas s c \<Longrightarrow> c_dirty_cas (touchWatchedKeysOnFlush dbid s) c"
  by (simp add: touchWatchedKeysOnFlush_def flush_clients_eq)

lemma flushdb_step:
  assumes "watch_inv s"
  shows "quiet s (flushdbCommand c s)" "guarded K s (flushdbCommand c s)"
proof -
  let ?t = "touchWatchedKeysOnFlush (Some (c_db s c)) s"
  show q: "quiet s (flushdbCommand c s)"
    using flush_quiet(1) [of s "Some (c_db s c)"] by (simp add: flushdbCommand_def reply_def quiet_def Let_def)
  have w: "c_watched (flushdbCommand c s) = c_watched s" using q by (simp add: quiet_def)
  have d: "c_dirty_cas (flushdbCommand c s) = c_dirty_cas ?t" by (simp add: flushdbCommand_def Let_def)
  have v: "dbs (flushdbCommand c s) = (dbs s)(c_db s c := Map.empty)" by (simp add: flushdbCommand_def Let_def flush_quiet)
  show "guarded K s (flushdbCommand c s)"
    unfolding guarded_def w d v using flush_dirty [OF assms] flush_keeps_dirty by (fastforce simp: fun_upd_def)
qed

lemma flushall_step:
  assumes "watch_inv s"
  shows "quiet s (flushallCommand c s)" "guarded K s (flushallCommand c s)"
proof -
  let ?t = "touchWatchedKeysOnFlush None s"
  show q: "quiet s (flushallCommand c s)"
    using flush_quiet(1) [of s None] by (simp add: flushallCommand_def reply_def quiet_def Let_def)
  have w: "c_watched (flushallCommand c s) = c_watched s" using q by (simp add: quiet_def)
  have d: "c_dirty_cas (flushallCommand c s) = c_dirty_cas ?t" by (simp add: flushallCommand_def Let_def)
  have v: "dbs (flushallCommand c s) = (\<lambda>j. if j < dbnum s then Map.empty else dbs s j)"
    by (simp add: flushallCommand_def Let_def flush_quiet cong: if_cong)
  show "guarded K s (flushallCommand c s)"
    unfolding guarded_def w d v using flush_dirty [OF assms, of _ _ _ None] flush_keeps_dirty by (force split: if_splits)
qed

lemma unwatch_guarded: "guarded K s (s\<lparr>db_watched := t, c_watched := (c_watched s)(c := []), c_dirty_cas := (c_dirty_cas s)(c := b)\<rparr>)"
  by (auto simp: guarded_def)

text \<open>The commands of a transaction one after the other on the databases: the specification of \<open>EXEC\<close>.\<close>

fun run_queue :: "('c, 'v, 'r) proc \<Rightarrow> nat \<Rightarrow> 'c cmd list \<Rightarrow> nat \<Rightarrow> 'v dbs \<Rightarrow> 'v dbs \<times> nat \<times> 'r mreply list" where
  "run_queue proc n [] db d = (d, db, [])"
| "run_queue proc n (cmd # cmds) db d =
     (let (d1, db1, r) = (case cmd of
            Data x \<Rightarrow> (case proc x db d of (d', db', touched, r, x') \<Rightarrow> (d', db', RData r))
          | Flushdb \<Rightarrow> (d(db := Map.empty), db, ROk)
          | Flushall \<Rightarrow> ((\<lambda>j. if j < n then Map.empty else d j), db, ROk)
          | Unwatch \<Rightarrow> (d, db, ROk));
          (d2, db2, rs) = run_queue proc n cmds db1 d1
      in (d2, db2, r # rs))"

text \<open>The calls that a sequence of commands makes.\<close>

fun queue_calls :: "('c, 'v, 'r) proc \<Rightarrow> nat \<Rightarrow> 'c cmd list \<Rightarrow> nat \<Rightarrow> 'v dbs \<Rightarrow> ('c \<times> nat \<times> 'v dbs) list" where
  "queue_calls proc n [] db d = []"
| "queue_calls proc n (cmd # cmds) db d =
     (case cmd of Data x \<Rightarrow> [(x, db, d)] | _ \<Rightarrow> []) @
     (let (d1, db1, rs) = run_queue proc n [cmd] db d in queue_calls proc n cmds db1 d1)"

lemma data_step:
  assumes inv: "watch_inv s" and K: "K \<subseteq> loud proc [(x, c_db s c, dbs s)]" and p: "proc x (c_db s c) (dbs s) = (d, db', touched, r, x')"
    and s': "s' = reply c (RData r) (fold signalModifiedKey touched (s\<lparr>dbs := d, c_db := (c_db s)(c := db')\<rparr>))"
  shows "quiet s s'" "guarded K s s'"
proof -
  show q: "quiet s s'" unfolding s' by (simp add: signal_all_eq reply_def quiet_def)
  have w: "watchers (s\<lparr>dbs := d, c_db := f\<rparr>) = watchers s" for f by (simp add: watchers_def fun_eq_iff)
  have d: "c_dirty_cas s' = (\<lambda>c. c_dirty_cas s c \<or> (\<exists>k\<in>set touched. c \<in> watchers s (fst k) (snd k)))" and v: "dbs s' = d"
    unfolding s' by (simp_all add: signal_all_eq w)
  have "d db key = dbs s db key" if "(key, db) \<in> set (c_watched s c2)" "\<not> c_dirty_cas s' c2" "(key, db) \<in> K" for key db c2
  proof (rule ccontr)
    assume "d db key \<noteq> dbs s db key"
    moreover have "\<not> silent proc (key, db) (x, c_db s c, dbs s)" using K that(3) by (auto simp: loud_def)
    ultimately have "(db, key) \<in> set touched" using p by (simp add: silent_def)
    moreover have "c2 \<in> watchers s db key" using watchers_watched [OF inv] that(1) by simp
    ultimately show False using that(2) d by force
  qed
  then show "guarded K s s'" using q unfolding guarded_def v quiet_def by (auto simp: d)
qed

text \<open>One executed command: the tables agree after it, and it is guarded.\<close>

lemma call_step:
  assumes inv: "watch_inv s" and K: "K \<subseteq> loud proc (queue_calls proc (dbnum s) [cmd] (c_db s c) (dbs s))"
  shows "\<exists>s' cmd'. call proc c cmd s = Some (s', cmd') \<and> watch_inv s' \<and> guarded K s s' \<and> all_clients s' = all_clients s
    \<and> c_multi s' = c_multi s \<and> c_queue s' = c_queue s \<and> c_dirty_exec s' = c_dirty_exec s
    \<and> (\<forall>c2. c2 \<noteq> c \<or> cmd \<noteq> Unwatch \<longrightarrow> c_watched s' c2 = c_watched s c2)"
proof (cases cmd)
  case (Data x)
  obtain d db' touched r x' where p: "proc x (c_db s c) (dbs s) = (d, db', touched, r, x')" by (metis prod_cases5)
  have "K \<subseteq> loud proc [(x, c_db s c, dbs s)]" using K Data p by simp
  note st = data_step [OF inv this p refl]
  show ?thesis using Data p st quiet_inv [OF st(1) inv] by (auto simp: call_def quiet_def)
next
  case Flushdb
  note st = flushdb_step(1) [OF inv, of c] flushdb_step(2) [OF inv, of K c]
  then show ?thesis using Flushdb quiet_inv [OF st(1) inv] by (auto simp: call_def quiet_def)
next
  case Flushall
  note st = flushall_step(1) [OF inv, of c] flushall_step(2) [OF inv, of K c]
  then show ?thesis using Flushall quiet_inv [OF st(1) inv] by (auto simp: call_def quiet_def)
next
  case Unwatch
  obtain s1 t where s1: "unwatchAllKeys c s = Some s1" "watch_inv s1" "s1 = s\<lparr>db_watched := t, c_watched := (c_watched s)(c := [])\<rparr>"
    using unwatchAllKeys_inv [OF inv] by blast
  define s2 where "s2 = s1\<lparr>c_dirty_cas := (c_dirty_cas s1)(c := False)\<rparr>"
  have "watch_inv s2" by (rule watch_inv_cong [OF s1(2)]) (simp_all add: s2_def)
  then have "watch_inv (reply c ROk s2)" using quiet_inv reply_simps(1) by blast
  moreover have "guarded K s (reply c ROk s2)"
    using guarded_trans [OF unwatch_guarded guarded_quiet [OF reply_simps(1)]] by (simp add: s2_def s1(3))
  ultimately show ?thesis using Unwatch s1 by (auto simp: call_def unwatchCommand_def s2_def)
qed

section \<open>Executing a transaction\<close>

lemma discard_step:
  assumes "watch_inv s"
  shows "\<exists>s'. discardTransaction c s = Some s' \<and> watch_inv s' \<and> guarded K s s' \<and> all_clients s' = all_clients s
    \<and> dbs s' = dbs s \<and> c_db s' = c_db s \<and> c_reply s' = c_reply s
    \<and> c_multi s' = (c_multi s)(c := False) \<and> c_queue s' = (c_queue s)(c := []) \<and> c_watched s' = (c_watched s)(c := [])
    \<and> c_dirty_cas s' = (c_dirty_cas s)(c := False) \<and> c_dirty_exec s' = (c_dirty_exec s)(c := False)"
proof -
  define s1 where "s1 = (initClientMultiState c s)\<lparr>c_multi := (c_multi s)(c := False), c_dirty_cas := (c_dirty_cas s)(c := False),
      c_dirty_exec := (c_dirty_exec s)(c := False)\<rparr>"
  have "watch_inv s1" by (rule watch_inv_cong [OF assms]) (simp_all add: s1_def initClientMultiState_def)
  then obtain s2 t where s2: "unwatchAllKeys c s1 = Some s2" "watch_inv s2" "s2 = s1\<lparr>db_watched := t, c_watched := (c_watched s1)(c := [])\<rparr>"
    using unwatchAllKeys_inv by blast
  have "discardTransaction c s = unwatchAllKeys c s1"
    by (simp add: discardTransaction_def s1_def initClientMultiState_def Let_def)
  moreover have "guarded K s s2" unfolding s2(3) by (auto simp: guarded_def s1_def initClientMultiState_def)
  ultimately show ?thesis using s2(1,2) by (simp add: s2(3) s1_def initClientMultiState_def)
qed

lemma signal_all_frame:
  "dbs (fold signalModifiedKey ks s) = dbs s" "c_db (fold signalModifiedKey ks s) = c_db s"
  "c_reply (fold signalModifiedKey ks s) = c_reply s" "dbnum (fold signalModifiedKey ks s) = dbnum s"
  by (simp_all add: signal_all_eq)

lemma call_effect:
  assumes "watch_inv s" and "call proc c cmd s = Some (s', cmd')"
    and "run_queue proc (dbnum s) [cmd] (c_db s c) (dbs s) = (d, db, rs)"
  shows "dbs s' = d \<and> c_db s' c = db \<and> c_reply s' c = c_reply s c @ rs \<and> dbnum s' = dbnum s"
proof (cases cmd)
  case (Data x)
  then show ?thesis using assms by (auto simp: call_def signal_all_frame Let_def split: prod.splits)
next
  case Unwatch
  obtain s1 t where "unwatchAllKeys c s = Some s1" "s1 = s\<lparr>db_watched := t, c_watched := (c_watched s)(c := [])\<rparr>"
    using unwatchAllKeys_inv [OF assms(1)] by blast
  then show ?thesis using Unwatch assms(2,3) by (auto simp: call_def unwatchCommand_def)
qed (use assms in \<open>auto simp: call_def flushdbCommand_def flushallCommand_def Let_def flush_quiet cong: if_cong\<close>)

lemma exec_loop_step:
  assumes "watch_inv s" and "K \<subseteq> loud proc (queue_calls proc (dbnum s) cmds (c_db s c) (dbs s))" and "c_watched s c = []"
  shows "\<exists>s' mp cmds'. exec_loop proc readonly c cmds must s = Some (s', mp, cmds') \<and> watch_inv s' \<and> guarded K s s'
    \<and> all_clients s' = all_clients s \<and> c_multi s' = c_multi s \<and> c_queue s' = c_queue s \<and> c_dirty_exec s' = c_dirty_exec s
    \<and> c_watched s' = c_watched s
    \<and> (case run_queue proc (dbnum s) cmds (c_db s c) (dbs s) of (d, db, rs) \<Rightarrow>
        dbs s' = d \<and> c_db s' c = db \<and> c_reply s' c = c_reply s c @ rs)"
  using assms
proof (induction cmds arbitrary: s must)
  case (Cons cmd cmds)
  define p where "p = (\<not> must \<and> \<not> readonly cmd)"
  define s0 where "s0 = (if p then execCommandPropagateMulti c s else s)"
  have q: "quiet s s0" "dbs s0 = dbs s" "c_db s0 = c_db s" "c_reply s0 = c_reply s" "dbnum s0 = dbnum s" "c_dirty_cas s0 = c_dirty_cas s"
    by (auto simp: s0_def execCommandPropagateMulti_def quiet_def)
  have i0: "watch_inv s0" using quiet_inv [OF q(1) Cons.prems(1)] .
  have K1: "K \<subseteq> loud proc (queue_calls proc (dbnum s0) [cmd] (c_db s0 c) (dbs s0))"
    using Cons.prems(2) q by (auto simp: loud_append)
  obtain s1 cmd' where s1: "call proc c cmd s0 = Some (s1, cmd')" "watch_inv s1" "guarded K s0 s1" "all_clients s1 = all_clients s0"
      "c_multi s1 = c_multi s0" "c_queue s1 = c_queue s0" "c_dirty_exec s1 = c_dirty_exec s0"
      "\<forall>c2. c2 \<noteq> c \<or> cmd \<noteq> Unwatch \<longrightarrow> c_watched s1 c2 = c_watched s0 c2"
    using call_step [OF i0 K1] by blast
  have "set (c_watched s1 c) \<subseteq> set (c_watched s0 c)" using s1(3) by (simp add: guarded_def)
  then have w0: "c_watched s1 c = []" using q(1) Cons.prems(3) by (simp add: quiet_def)
  have "c_watched s1 x = c_watched s0 x" for x
    using s1(8) q(1) Cons.prems(3) w0 by (cases "x = c") (simp_all add: quiet_def)
  then have w: "c_watched s1 = c_watched s0" by (rule ext)
  obtain d1 db1 rs1 where r1: "run_queue proc (dbnum s) [cmd] (c_db s c) (dbs s) = (d1, db1, rs1)" by (metis prod_cases3)
  have e: "dbs s1 = d1" "c_db s1 c = db1" "c_reply s1 c = c_reply s c @ rs1" "dbnum s1 = dbnum s"
    using call_effect [OF i0 s1(1), of d1 db1 rs1] r1 q by auto
  have K2: "K \<subseteq> loud proc (queue_calls proc (dbnum s1) cmds (c_db s1 c) (dbs s1))"
    using Cons.prems(2) r1 e by (simp add: loud_append)
  obtain s2 mp cmds' where s2: "exec_loop proc readonly c cmds (must \<or> p) s1 = Some (s2, mp, cmds')" "watch_inv s2" "guarded K s1 s2"
      "all_clients s2 = all_clients s1" "c_multi s2 = c_multi s1" "c_queue s2 = c_queue s1" "c_dirty_exec s2 = c_dirty_exec s1"
      "c_watched s2 = c_watched s1"
      "case run_queue proc (dbnum s1) cmds (c_db s1 c) (dbs s1) of (d, db, rs) \<Rightarrow> dbs s2 = d \<and> c_db s2 c = db \<and> c_reply s2 c = c_reply s1 c @ rs"
    using Cons.IH [OF s1(2) K2 w0, of "must \<or> p"] by (elim exE conjE) (rule that; assumption)
  have "exec_loop proc readonly c (cmd # cmds) must s = Some (s2, mp, cmd' # cmds')"
    using s1(1) s2(1) by (simp add: p_def [symmetric] s0_def [symmetric] Let_def)
  moreover have "guarded K s s2"
    using guarded_trans [OF guarded_quiet [OF q(1,2)] guarded_trans [OF s1(3) s2(3)]] q(6) by simp
  moreover have "case run_queue proc (dbnum s) (cmd # cmds) (c_db s c) (dbs s) of (d, db, rs) \<Rightarrow>
      dbs s2 = d \<and> c_db s2 c = db \<and> c_reply s2 c = c_reply s c @ rs"
    using s2(9) e r1 by (auto simp: Let_def split: prod.splits)
  ultimately show ?case using s2(2,4-8) s1(4-7) w q(1) by (auto simp: quiet_def)
qed simp

lemma exec_step:
  assumes inv: "watch_inv s" and m: "c_multi s c"
    and K: "\<not> c_dirty_cas s c \<and> \<not> c_dirty_exec s c \<longrightarrow> K \<subseteq> loud proc (queue_calls proc (dbnum s) (c_queue s c) (c_db s c) (dbs s))"
  shows "\<exists>s'. execCommand proc readonly c s = Some s' \<and> watch_inv s' \<and> guarded K s s' \<and> all_clients s' = all_clients s
    \<and> \<not> c_multi s' c \<and> c_queue s' c = [] \<and> c_watched s' = (c_watched s)(c := []) \<and> \<not> c_dirty_cas s' c \<and> \<not> c_dirty_exec s' c
    \<and> (case run_queue proc (dbnum s) (c_queue s c) (c_db s c) (dbs s) of (d, db, rs) \<Rightarrow>
        if c_dirty_exec s c then dbs s' = dbs s \<and> c_reply s' c = c_reply s c @ [RExecAbort]
        else if c_dirty_cas s c then dbs s' = dbs s \<and> c_reply s' c = c_reply s c @ [RNullMulti]
        else dbs s' = d \<and> c_db s' c = db \<and> c_reply s' c = c_reply s c @ RMultiLen (length (c_queue s c)) # rs)"
proof (cases "c_dirty_cas s c \<or> c_dirty_exec s c")
  case True
  define r where "r = reply c (if c_dirty_exec s c then RExecAbort else RNullMulti) s"
  have i: "watch_inv r" using quiet_inv [OF reply_simps(1) inv] by (simp add: r_def)
  have g: "guarded K s r" unfolding r_def by (rule guarded_quiet) simp_all
  obtain s' where s': "discardTransaction c r = Some s'" "watch_inv s'" "guarded K r s'" "all_clients s' = all_clients r" "dbs s' = dbs r"
      "c_reply s' = c_reply r" "c_multi s' = (c_multi r)(c := False)" "c_queue s' = (c_queue r)(c := [])"
      "c_watched s' = (c_watched r)(c := [])" "c_dirty_cas s' = (c_dirty_cas r)(c := False)" "c_dirty_exec s' = (c_dirty_exec r)(c := False)"
    using discard_step [OF i, of c] by blast
  have "execCommand proc readonly c s = Some s'" using True m s'(1) by (simp add: execCommand_def r_def)
  then show ?thesis
    using True s'(2,4-11) guarded_trans [OF g s'(3)] by (auto simp: r_def split: prod.splits)
next
  case False
  obtain s1 t where s1: "unwatchAllKeys c s = Some s1" "watch_inv s1" "s1 = s\<lparr>db_watched := t, c_watched := (c_watched s)(c := [])\<rparr>"
    using unwatchAllKeys_inv [OF inv] by blast
  define r where "r = reply c (RMultiLen (length (c_queue s1 c))) s1"
  have i: "watch_inv r" using quiet_inv [OF reply_simps(1) s1(2)] by (simp add: r_def)
  have g: "guarded K s r" unfolding r_def s1(3) by (auto simp: guarded_def)
  have w: "c_watched r c = []" by (simp add: r_def s1(3))
  have Kr: "K \<subseteq> loud proc (queue_calls proc (dbnum r) (c_queue s1 c) (c_db r c) (dbs r))"
    using K False by (simp add: r_def s1(3))
  obtain s2 mp cmds where s2: "exec_loop proc readonly c (c_queue s1 c) False r = Some (s2, mp, cmds)" "watch_inv s2" "guarded K r s2"
      "all_clients s2 = all_clients r" "c_multi s2 = c_multi r" "c_queue s2 = c_queue r" "c_watched s2 = c_watched r"
      "case run_queue proc (dbnum r) (c_queue s1 c) (c_db r c) (dbs r) of (d, db, rs) \<Rightarrow> dbs s2 = d \<and> c_db s2 c = db \<and> c_reply s2 c = c_reply r c @ rs"
    using exec_loop_step [OF i Kr w, of readonly False] by (elim exE conjE) (rule that; assumption)
  define q where "q = s2\<lparr>c_queue := (c_queue s2)(c := cmds)\<rparr>"
  have iq: "watch_inv q" by (rule watch_inv_cong [OF s2(2)]) (simp_all add: q_def)
  have gq: "guarded K s2 q" by (simp add: guarded_def q_def)
  obtain s3 where s3: "discardTransaction c q = Some s3" "watch_inv s3" "guarded K q s3" "all_clients s3 = all_clients q" "dbs s3 = dbs q"
      "c_db s3 = c_db q" "c_reply s3 = c_reply q" "c_multi s3 = (c_multi q)(c := False)" "c_queue s3 = (c_queue q)(c := [])"
      "c_watched s3 = (c_watched q)(c := [])" "c_dirty_cas s3 = (c_dirty_cas q)(c := False)" "c_dirty_exec s3 = (c_dirty_exec q)(c := False)"
    using discard_step [OF iq, of c] by blast
  define s4 where "s4 = (if mp then s3\<lparr>srv_dirty := srv_dirty s3 + 1\<rparr> else s3)"
  have "execCommand proc readonly c s = Some s4"
    using False m s1(1) s2(1) s3(1) by (simp add: execCommand_def r_def q_def s4_def)
  moreover have "watch_inv s4" by (rule watch_inv_cong [OF s3(2)]) (simp_all add: s4_def)
  moreover have "guarded K s s4"
    using guarded_trans [OF g guarded_trans [OF s2(3) guarded_trans [OF gq s3(3)]]] by (auto simp: s4_def guarded_def)
  ultimately show ?thesis
    using False s2(4-8) s3(4-12) by (auto simp: s4_def q_def r_def s1(3) split: prod.splits)
qed

section \<open>The server under all requests\<close>

datatype 'c req = Connect | MultiReq | ExecReq | DiscardReq | WatchReq "bytes list" | CmdReq "'c cmd" | UnknownReq | CloseReq

fun mstep :: "('c, 'v, 'r) proc \<Rightarrow> ('c cmd \<Rightarrow> bool) \<Rightarrow> nat \<times> 'c req \<Rightarrow> ('c, 'v, 'r) mserver \<Rightarrow> ('c, 'v, 'r) mserver option" where
  "mstep proc ro (c, Connect) s = Some (s\<lparr>all_clients := all_clients s @ [c], c_db := (c_db s)(c := 0)\<rparr>)"
| "mstep proc ro (c, MultiReq) s = Some (multiCommand c s)"
| "mstep proc ro (c, ExecReq) s = execCommand proc ro c s"
| "mstep proc ro (c, DiscardReq) s = discardCommand c s"
| "mstep proc ro (c, WatchReq keys) s = Some (watchCommand c keys s)"
| "mstep proc ro (c, CmdReq cmd) s = processCommand proc c cmd s"
| "mstep proc ro (c, UnknownReq) s = Some (unknownCommand c s)"
| "mstep proc ro (c, CloseReq) s = freeClient_multi c s"

definition req_legal :: "nat \<times> 'c req \<Rightarrow> ('c, 'v, 'r) mserver \<Rightarrow> bool" where
  "req_legal x s \<longleftrightarrow> (if snd x = Connect then fst x \<notin> set (all_clients s) else fst x \<in> set (all_clients s))"

inductive m_reachable :: "('c, 'v, 'r) proc \<Rightarrow> ('c cmd \<Rightarrow> bool) \<Rightarrow> ('c, 'v, 'r) mserver \<Rightarrow> bool" for proc ro where
  start: "(\<And>c. c_watched s c = []) \<Longrightarrow> (\<And>db. db_watched s db = Map.empty) \<Longrightarrow> all_clients s = [] \<Longrightarrow> m_reachable proc ro s"
| step: "m_reachable proc ro s \<Longrightarrow> req_legal x s \<Longrightarrow> mstep proc ro x s = Some s' \<Longrightarrow> m_reachable proc ro s'"

text \<open>The requests by which a client gives up its watched keys.\<close>

fun keeps_watch :: "'c req \<Rightarrow> bool" where
  "keeps_watch ExecReq = False" | "keeps_watch DiscardReq = False" | "keeps_watch CloseReq = False"
| "keeps_watch (CmdReq Unwatch) = False" | "keeps_watch _ = True"

text \<open>The calls of data commands that a request makes.\<close>

definition req_calls :: "('c, 'v, 'r) proc \<Rightarrow> nat \<times> 'c req \<Rightarrow> ('c, 'v, 'r) mserver \<Rightarrow> ('c \<times> nat \<times> 'v dbs) list" where
  "req_calls proc x s =
     (let c = fst x in case snd x of
        ExecReq \<Rightarrow> if c_multi s c \<and> \<not> c_dirty_cas s c \<and> \<not> c_dirty_exec s c
                   then queue_calls proc (dbnum s) (c_queue s c) (c_db s c) (dbs s) else []
      | CmdReq cmd \<Rightarrow> if c_multi s c then [] else queue_calls proc (dbnum s) [cmd] (c_db s c) (dbs s)
      | _ \<Rightarrow> [])"

text \<open>A step seen by a client that goes on watching.\<close>

definition step_ok :: "(bytes \<times> nat) set \<Rightarrow> nat \<times> 'c req \<Rightarrow> ('c, 'v, 'r) mserver \<Rightarrow> ('c, 'v, 'r) mserver \<Rightarrow> bool" where
  "step_ok K x s s' \<longleftrightarrow> watch_inv s' \<and>
     (\<forall>c2 key db. (key, db) \<in> set (c_watched s c2) \<longrightarrow> (c2 = fst x \<longrightarrow> keeps_watch (snd x)) \<longrightarrow>
        (key, db) \<in> set (c_watched s' c2) \<and> ((key, db) \<in> K \<longrightarrow> \<not> c_dirty_cas s' c2 \<longrightarrow> \<not> c_dirty_cas s c2 \<and> dbs s' db key = dbs s db key))"

lemma step_ok_guarded:
  assumes "watch_inv s'" and "guarded K s s'"
    and "\<And>c2. (c2 = fst x \<longrightarrow> keeps_watch (snd x)) \<Longrightarrow> c_watched s' c2 = c_watched s c2"
  shows "step_ok K x s s'"
  using assms unfolding step_ok_def guarded_def by metis

lemma step_ok_quiet:
  assumes "watch_inv s" and "quiet s s'" and "guarded K s s'"
  shows "step_ok K x s s'"
  using assms quiet_inv by (intro step_ok_guarded) (auto simp: quiet_def)

lemma watch_fold:
  assumes "watch_inv s" and "c \<in> set (all_clients s)"
  shows "watch_inv (fold (watchForKey c) keys s) \<and> dbs (fold (watchForKey c) keys s) = dbs s
    \<and> c_dirty_cas (fold (watchForKey c) keys s) = c_dirty_cas s \<and> (\<forall>c2. set (c_watched s c2) \<subseteq> set (c_watched (fold (watchForKey c) keys s) c2))"
  using assms
proof (induction keys arbitrary: s)
  case (Cons k keys)
  have w: "watch_inv (watchForKey c k s)" using watchForKey_inv [OF Cons.prems] .
  have f: "dbs (watchForKey c k s) = dbs s" "c_dirty_cas (watchForKey c k s) = c_dirty_cas s"
      "all_clients (watchForKey c k s) = all_clients s" "set (c_watched s c2) \<subseteq> set (c_watched (watchForKey c k s) c2)" for c2
    by (auto simp: watchForKey_def Let_def)
  show ?case using Cons.IH [OF w] Cons.prems(2) f by fastforce
qed simp

lemma mstep_ok:
  assumes inv: "watch_inv s" and K: "K \<subseteq> loud proc (req_calls proc x s)" and legal: "req_legal x s"
  shows "\<exists>s'. mstep proc ro x s = Some s' \<and> step_ok K x s s'"
proof -
  obtain c q where x: "x = (c, q)" by force
  show ?thesis
  proof (cases q)
    case Connect
    have "watch_inv (s\<lparr>all_clients := all_clients s @ [c], c_db := (c_db s)(c := 0)\<rparr>)"
      using inv by (auto simp: watch_inv_def)
    then show ?thesis using x Connect by (auto simp: step_ok_def)
  next
    case MultiReq
    have "step_ok K x s (multiCommand c s)"
      by (rule step_ok_guarded) (use inv in \<open>auto simp: multiCommand_def guarded_def\<close>)
    then show ?thesis using x MultiReq by simp
  next
    case ExecReq
    show ?thesis
    proof (cases "c_multi s c")
      case True
      obtain s' where "execCommand proc ro c s = Some s'" "watch_inv s'" "guarded K s s'" "c_watched s' = (c_watched s)(c := [])"
      proof -
        have "\<not> c_dirty_cas s c \<and> \<not> c_dirty_exec s c \<longrightarrow>
            K \<subseteq> loud proc (queue_calls proc (dbnum s) (c_queue s c) (c_db s c) (dbs s))"
          using K x ExecReq True by (auto simp: req_calls_def split: if_splits)
        from exec_step [OF inv True this, of ro] show ?thesis by (elim exE conjE) (rule that; assumption)
      qed
      then show ?thesis using x ExecReq by (auto intro!: step_ok_guarded)
    next
      case False
      have "step_ok K x s (reply c RNoMulti s)" by (rule step_ok_quiet [OF inv]) (auto intro!: guarded_quiet)
      then show ?thesis using x ExecReq False by (simp add: execCommand_def)
    qed
  next
    case DiscardReq
    obtain s1 where s1: "discardTransaction c s = Some s1" "watch_inv s1" "guarded K s s1" "c_watched s1 = (c_watched s)(c := [])"
      using discard_step [OF inv, of c] by blast
    have "step_ok K x s (reply c RNoMulti s)" by (rule step_ok_quiet [OF inv]) (auto intro!: guarded_quiet)
    moreover have "step_ok K x s (reply c ROk s1)"
      using s1 x DiscardReq quiet_inv [OF reply_simps(1) s1(2)] guarded_trans [OF s1(3) guarded_quiet [OF reply_simps(1)]]
      by (intro step_ok_guarded) auto
    ultimately show ?thesis using x DiscardReq s1(1) by (simp add: discardCommand_def)
  next
    case (WatchReq keys)
    have c: "c \<in> set (all_clients s)" using legal x WatchReq by (simp add: req_legal_def)
    have "step_ok K x s (reply c RWatchInMulti s)" by (rule step_ok_quiet [OF inv]) (auto intro!: guarded_quiet)
    moreover have "step_ok K x s (reply c ROk (fold (watchForKey c) keys s))"
      using watch_fold [OF inv c, of keys] quiet_inv [OF reply_simps(1)] by (auto simp: step_ok_def)
    ultimately show ?thesis using x WatchReq by (simp add: watchCommand_def)
  next
    case (CmdReq cmd)
    define K' where "K' = (if c_multi s c then {} else K)"
    have K': "K' \<subseteq> loud proc (queue_calls proc (dbnum s) [cmd] (c_db s c) (dbs s))"
      using K x CmdReq by (auto simp: K'_def req_calls_def simp del: queue_calls.simps split: if_splits)
    obtain s1 cmd' where s1: "call proc c cmd s = Some (s1, cmd')" "watch_inv s1" "guarded K' s s1"
        "\<forall>c2. c2 \<noteq> c \<or> cmd \<noteq> Unwatch \<longrightarrow> c_watched s1 c2 = c_watched s c2"
      using call_step [OF inv K'] by blast
    have "step_ok K x s s1" if "\<not> c_multi s c" using s1 x CmdReq that by (intro step_ok_guarded) (auto simp: K'_def)
    moreover have "step_ok K x s (reply c RQueued (queueMultiCommand c cmd s))"
      by (rule step_ok_guarded)
        (use inv in \<open>auto simp: queueMultiCommand_def guarded_def\<close>)
    ultimately show ?thesis using x CmdReq s1(1) by (simp add: processCommand_def)
  next
    case UnknownReq
    have "step_ok K x s (unknownCommand c s)"
      by (rule step_ok_guarded)
        (use inv in \<open>auto simp: unknownCommand_def flagTransaction_def guarded_def\<close>)
    then show ?thesis using x UnknownReq by simp
  next
    case CloseReq
    obtain s1 t where s1: "unwatchAllKeys c s = Some s1" "watch_inv s1" "s1 = s\<lparr>db_watched := t, c_watched := (c_watched s)(c := [])\<rparr>"
      using unwatchAllKeys_inv [OF inv] by blast
    define s2 where "s2 = initClientMultiState c (s1\<lparr>all_clients := remove1 c (all_clients s1), c_multi := (c_multi s1)(c := False),
       c_dirty_cas := (c_dirty_cas s1)(c := False), c_dirty_exec := (c_dirty_exec s1)(c := False)\<rparr>)"
    have "watch_inv s2"
      using s1(2) unfolding watch_inv_def s2_def initClientMultiState_def by (auto simp: s1(3) split: if_splits)
    moreover have "guarded K s s2" by (auto simp: guarded_def s2_def s1(3) initClientMultiState_def)
    ultimately have "step_ok K x s s2" using x CloseReq by (intro step_ok_guarded) (auto simp: s2_def s1(3) initClientMultiState_def)
    then show ?thesis using x CloseReq s1(1) by (simp add: freeClient_multi_def s2_def)
  qed
qed

lemma reachable_inv: "m_reachable proc ro s \<Longrightarrow> watch_inv s"
proof (induction rule: m_reachable.induct)
  case (start s)
  then show ?case by (simp add: watch_inv_def)
next
  case (step s x s')
  then show ?case using mstep_ok [of s "{}" proc x ro] by (auto simp: step_ok_def)
qed

text \<open>A sequence of requests; every one of them is legal when it is made.\<close>

fun mrun :: "('c, 'v, 'r) proc \<Rightarrow> ('c cmd \<Rightarrow> bool) \<Rightarrow> (nat \<times> 'c req) list \<Rightarrow> ('c, 'v, 'r) mserver \<Rightarrow> ('c, 'v, 'r) mserver option" where
  "mrun proc ro [] s = Some s"
| "mrun proc ro (x # xs) s = (if req_legal x s then do { s' \<leftarrow> mstep proc ro x s; mrun proc ro xs s' } else None)"

fun run_calls :: "('c, 'v, 'r) proc \<Rightarrow> ('c cmd \<Rightarrow> bool) \<Rightarrow> (nat \<times> 'c req) list \<Rightarrow> ('c, 'v, 'r) mserver
    \<Rightarrow> ('c \<times> nat \<times> 'v dbs) list" where
  "run_calls proc ro [] s = []"
| "run_calls proc ro (x # xs) s =
     req_calls proc x s @ (case mstep proc ro x s of None \<Rightarrow> [] | Some s' \<Rightarrow> run_calls proc ro xs s')"

lemma mrun_watch:
  assumes "watch_inv s" and "(key, db) \<in> loud proc (run_calls proc ro xs s)" and "mrun proc ro xs s = Some s'"
    and "\<And>q. (c, q) \<in> set xs \<Longrightarrow> keeps_watch q" and "(key, db) \<in> set (c_watched s c)"
  shows "watch_inv s' \<and> (key, db) \<in> set (c_watched s' c) \<and>
    (\<not> c_dirty_cas s' c \<longrightarrow> \<not> c_dirty_cas s c \<and> dbs s' db key = dbs s db key)"
  using assms
proof (induction xs arbitrary: s)
  case (Cons x xs)
  obtain s1 where s1: "req_legal x s" "mstep proc ro x s = Some s1" "mrun proc ro xs s1 = Some s'"
    using Cons.prems(3) by (auto split: if_splits bind_splits)
  have l: "{(key, db)} \<subseteq> loud proc (req_calls proc x s)" "(key, db) \<in> loud proc (run_calls proc ro xs s1)"
    using Cons.prems(2) s1(2) by (auto simp: loud_append)
  have ok: "step_ok {(key, db)} x s s1" using mstep_ok [OF Cons.prems(1) l(1) s1(1), of ro] s1(2) by auto
  have k: "c = fst x \<longrightarrow> keeps_watch (snd x)" using Cons.prems(4) [of "snd x"] by (cases x) auto
  have "(key, db) \<in> set (c_watched s1 c)" "\<not> c_dirty_cas s1 c \<longrightarrow> \<not> c_dirty_cas s c \<and> dbs s1 db key = dbs s db key" "watch_inv s1"
    using ok Cons.prems(5) k unfolding step_ok_def by blast+
  then show ?case using Cons.IH [OF _ l(2) s1(3)] Cons.prems(4) by fastforce
qed simp

lemma mrun_inv: "watch_inv s \<Longrightarrow> mrun proc ro xs s = Some s' \<Longrightarrow> watch_inv s'"
proof (induction xs arbitrary: s)
  case (Cons x xs)
  then obtain s1 where s1: "req_legal x s" "mstep proc ro x s = Some s1" "mrun proc ro xs s1 = Some s'"
    by (auto split: if_splits bind_splits)
  then have "watch_inv s1" using mstep_ok [OF Cons.prems(1) empty_subsetI s1(1), of proc ro] by (auto simp: step_ok_def)
  then show ?case using Cons.IH s1(3) by blast
qed simp

text \<open>
  Optimistic locking: if a client watches a key, then whatever requests all clients make, as long as the client
  itself does not give up its watched keys, a following \<open>EXEC\<close> that is not refused finds the key with the value it
  had when it was watched, or one of the calls in between changed the key without signalling it.
\<close>

lemma exec_watch:
  assumes "watch_inv s" and "(key, db) \<in> set (c_watched s c)"
    and "mrun proc ro xs s = Some s'" and "\<And>q. (c, q) \<in> set xs \<Longrightarrow> keeps_watch q" and "c_multi s' c"
    and "execCommand proc ro c s' = Some s''" and "c_reply s'' c \<noteq> c_reply s' c @ [RNullMulti]"
    and "c_reply s'' c \<noteq> c_reply s' c @ [RExecAbort]"
  shows "dbs s' db key = dbs s db key \<or> (\<exists>y \<in> set (run_calls proc ro xs s). silent proc (key, db) y)"
proof (cases "(key, db) \<in> loud proc (run_calls proc ro xs s)")
  case True
  have w: "watch_inv s' \<and> (\<not> c_dirty_cas s' c \<longrightarrow> dbs s' db key = dbs s db key)"
    using mrun_watch [OF assms(1) True assms(3) _ assms(2)] assms(4) by blast
  then have "\<not> c_dirty_cas s' c"
    using exec_step [of s' c "{}" proc ro] assms(5-8) by (auto split: prod.splits if_splits)
  then show ?thesis using w by blast
qed (auto simp: loud_def)

section \<open>Properties\<close>

text \<open>
  C18.  The tables of watched keys never disagree, and no request gets stuck: in every state the server reaches,
  a client is in a database's list for a key exactly when the key is in the client's own list, no list is
  empty or has duplicates, and every legal request, whatever client makes it, completes without a failed
  assertion.
\<close>

theorem watch_tables_agree:
  assumes "m_reachable proc ro s"
  shows "watch_inv s \<and> (\<forall>x. req_legal x s \<longrightarrow> (\<exists>s'. mstep proc ro x s = Some s'))"
  using reachable_inv [OF assms] mstep_ok [OF _ empty_subsetI] by blast

text \<open>A command that stores a number under a key and signals it, and an empty server.\<close>

definition set_proc :: "(bytes \<times> nat, nat, unit) proc" where
  "set_proc x db d = (d(db := (d db)(fst x \<mapsto> snd x)), db, [(db, fst x)], (), x)"

definition empty_server :: "(bytes \<times> nat, nat, unit) mserver" where
  "empty_server = \<lparr>dbnum = 16, dbs = (\<lambda>_. Map.empty), db_watched = (\<lambda>_. Map.empty), all_clients = [], srv_dirty = 0,
     propagated_multi = [], c_db = (\<lambda>_. 0), c_watched = (\<lambda>_. []), c_multi = (\<lambda>_. False), c_dirty_cas = (\<lambda>_. False),
     c_dirty_exec = (\<lambda>_. False), c_queue = (\<lambda>_. []), c_reply = (\<lambda>_. [])\<rparr>"

definition watching_server :: "(bytes \<times> nat, nat, unit) mserver" where
  "watching_server = empty_server\<lparr>all_clients := [1, 2], db_watched := (\<lambda>_. Map.empty)(0 := [[107] \<mapsto> [1]]),
     c_watched := (\<lambda>_. [])(1 := [([107], 0)])\<rparr>"

lemma watching_server_inv: "watch_inv watching_server"
  by (auto simp: watch_inv_def watching_server_def empty_server_def split: if_splits)

theorem watch_tables_agree_witness:
  "\<exists>s. m_reachable set_proc (\<lambda>_. False) s \<and> db_watched s 0 [107] = Some [3, 4] \<and> c_watched s 3 = [([107], 0)]
    \<and> watch_inv s \<and> (\<exists>s'. mstep set_proc (\<lambda>_. False) (3, CloseReq) s = Some s')"
proof -
  let ?step = "mstep set_proc (\<lambda>_. False)"
  define s1 where "s1 = empty_server\<lparr>all_clients := [3], c_db := (\<lambda>_. 0)(3 := 0)\<rparr>"
  define s2 where "s2 = s1\<lparr>all_clients := [3, 4], c_db := (\<lambda>_. 0)(3 := 0, 4 := 0)\<rparr>"
  define s3 where "s3 = watchCommand 3 [[107]] s2"
  define s4 where "s4 = watchCommand 4 [[107]] s3"
  note defs = s1_def s2_def s3_def s4_def empty_server_def watchCommand_def watchForKey_def reply_def req_legal_def
  have "m_reachable set_proc (\<lambda>_. False) empty_server"
    by (rule m_reachable.start) (simp_all add: empty_server_def)
  then have "m_reachable set_proc (\<lambda>_. False) s1"
    by (rule m_reachable.step [of _ _ _ "(3, Connect)"]) (simp_all add: defs)
  then have "m_reachable set_proc (\<lambda>_. False) s2"
    by (rule m_reachable.step [of _ _ _ "(4, Connect)"]) (simp_all add: defs)
  then have "m_reachable set_proc (\<lambda>_. False) s3"
    by (rule m_reachable.step [of _ _ _ "(3, WatchReq [[107]])"]) (simp_all add: defs)
  then have r: "m_reachable set_proc (\<lambda>_. False) s4"
    by (rule m_reachable.step [of _ _ _ "(4, WatchReq [[107]])"]) (simp_all add: defs)
  have "db_watched s4 0 [107] = Some [3, 4]" "c_watched s4 3 = [([107], 0)]" "req_legal (3, CloseReq) s4"
    by (simp_all add: defs)
  then show ?thesis using r watch_tables_agree [OF r] by blast
qed

text \<open>
  C20.  \<open>EXEC\<close> is all or nothing: inside a transaction it always completes; with an error among the queued
  commands it replies \<open>EXECABORT\<close> and with a touched watched key the null reply, and changes no database; else
  the databases and the replies are those of the queued commands run one after the other, announced with
  their number.  In all cases the transaction is over: the queue, the flags and the watched keys are gone.
\<close>

theorem exec_all_or_nothing:
  assumes "watch_inv s" and "c_multi s c"
    and "run_queue proc (dbnum s) (c_queue s c) (c_db s c) (dbs s) = (d, db, rs)"
  shows "\<exists>s'. execCommand proc ro c s = Some s'
    \<and> \<not> c_multi s' c \<and> c_queue s' c = [] \<and> c_watched s' c = [] \<and> \<not> c_dirty_cas s' c \<and> \<not> c_dirty_exec s' c
    \<and> (if c_dirty_exec s c then dbs s' = dbs s \<and> c_reply s' c = c_reply s c @ [RExecAbort]
       else if c_dirty_cas s c then dbs s' = dbs s \<and> c_reply s' c = c_reply s c @ [RNullMulti]
       else dbs s' = d \<and> c_db s' c = db \<and> c_reply s' c = c_reply s c @ RMultiLen (length (c_queue s c)) # rs)"
  using exec_step [OF assms(1,2), of "{}" proc ro] assms(3) by auto

theorem exec_all_or_nothing_witness:
  "\<exists>s'. execCommand set_proc (\<lambda>_. False) 1 (watching_server\<lparr>c_multi := (\<lambda>_. True), c_queue := (\<lambda>_. [Data ([107], 7)]), c_dirty_cas := (\<lambda>_. True)\<rparr>) = Some s'
    \<and> dbs s' 0 [107] = None \<and> c_reply s' 1 = [RNullMulti]"
proof -
  let ?s = "watching_server\<lparr>c_multi := (\<lambda>_. True), c_queue := (\<lambda>_. [Data ([107], 7)]), c_dirty_cas := (\<lambda>_. True)\<rparr>"
  have i: "watch_inv ?s" using watching_server_inv by simp
  obtain d db rs where "run_queue set_proc (dbnum ?s) (c_queue ?s 1) (c_db ?s 1) (dbs ?s) = (d, db, rs)" by (metis prod_cases3)
  from exec_all_or_nothing [OF i _ this, of "\<lambda>_. False"] show ?thesis
    by (auto simp: watching_server_def empty_server_def)
qed

end
