(* ===== verification/Keyspace.thy ===== *)
theory Keyspace
  imports Multi Object
begin

text \<open>
  \<^verbatim>\<open>db.c\<close>: the key space and the commands of \<^verbatim>\<open>db.c\<close> and \<^verbatim>\<open>t_string.c\<close> that do not look at the type of a value
  (\<open>DEL\<close>, \<open>EXISTS\<close>, \<open>TOUCH\<close>, \<open>SELECT\<close>, \<open>RENAME\<close>, \<open>MOVE\<close>, \<open>EXPIRE\<close>, \<open>PERSIST\<close>, \<open>TTL\<close>, \<open>SET\<close>, \<open>MSET\<close> and their variants), as
  the data commands of the transactions of \<open>Multi\<close>.  The values are the objects of an arbitrary type \<open>'o\<close>.  The table \<open>expires\<close> of a database, whose keys are keys of the database, is
  part of its entries: an entry is the value with the time of its expiration.  A command comes with the
  time \<open>mstime()\<close> of its execution.  A failed assertion and a signed overflow are \<open>None\<close>.  Notifications,
  propagation, statistics, access times and the table of slots of a cluster are not modelled.
\<close>

section \<open>The model\<close>

record kconf =
  k_loading :: bool
  k_slave :: bool
  k_cluster :: bool
  k_dbnum :: nat

type_synonym 'o entry = "'o \<times> int option"
type_synonym 'o keys = "bytes \<rightharpoonup> 'o entry"

definition getExpire :: "'o keys \<Rightarrow> bytes \<Rightarrow> int" where
  "getExpire m key = (case m key of Some (v, Some when) \<Rightarrow> when | _ \<Rightarrow> -1)"

definition dbDelete :: "'o keys \<Rightarrow> bytes \<Rightarrow> 'o keys \<times> bool" where
  "dbDelete m key = (m(key := None), m key \<noteq> None)"

definition dbAdd :: "'o keys \<Rightarrow> bytes \<Rightarrow> 'o \<Rightarrow> 'o keys option" where
  "dbAdd m key v = (if m key \<noteq> None then None else Some (m(key \<mapsto> (v, None))))"

definition setExpire :: "'o keys \<Rightarrow> bytes \<Rightarrow> int \<Rightarrow> 'o keys option" where
  "setExpire m key when = (case m key of None \<Rightarrow> None | Some e \<Rightarrow> Some (m(key \<mapsto> (fst e, Some when))))"

definition removeExpire :: "'o keys \<Rightarrow> bytes \<Rightarrow> ('o keys \<times> bool) option" where
  "removeExpire m key = (case m key of None \<Rightarrow> None | Some e \<Rightarrow> Some (m(key \<mapsto> (fst e, None)), snd e \<noteq> None))"

definition dbOverwrite :: "'o keys \<Rightarrow> bytes \<Rightarrow> 'o \<Rightarrow> 'o keys option" where
  "dbOverwrite m key v = (case m key of None \<Rightarrow> None | Some e \<Rightarrow> Some (m(key \<mapsto> (v, snd e))))"

definition expireIfNeeded :: "kconf \<Rightarrow> int \<Rightarrow> 'o keys \<Rightarrow> bytes \<Rightarrow> 'o keys \<times> bool" where
  "expireIfNeeded cf now m key =
     (let when = getExpire m key
      in if when < 0 then (m, False)
         else if k_loading cf then (m, False)
         else if k_slave cf then (m, now > when)
         else if now \<le> when then (m, False)
         else dbDelete m key)"

definition lookupKeyWrite :: "kconf \<Rightarrow> int \<Rightarrow> 'o keys \<Rightarrow> bytes \<Rightarrow> 'o keys \<times> 'o option" where
  "lookupKeyWrite cf now m key =
     (let m1 = fst (expireIfNeeded cf now m key) in (m1, map_option fst (m1 key)))"

definition setKey :: "kconf \<Rightarrow> int \<Rightarrow> 'o keys \<Rightarrow> bytes \<Rightarrow> 'o \<Rightarrow> 'o keys option" where
  "setKey cf now m key v =
     (let (m1, old) = lookupKeyWrite cf now m key
      in do {
        m2 \<leftarrow> (if old = None then dbAdd m1 key v else dbOverwrite m1 key v);
        (m3, removed) \<leftarrow> removeExpire m2 key;
        Some m3})"

text \<open>The client is not the master and the command is read only, as for \<open>TOUCH\<close> and \<open>TTL\<close>.\<close>

definition lookupKeyRead :: "kconf \<Rightarrow> int \<Rightarrow> 'o keys \<Rightarrow> bytes \<Rightarrow> 'o keys \<times> 'o option" where
  "lookupKeyRead cf now m key =
     (let (m1, expired) = expireIfNeeded cf now m key
      in if expired then (m1, None) else (m1, map_option fst (m1 key)))"

datatype kreply = KInt int | KOk | KNoKey | KOutOfRange | KSameObject | KNotInt | KInvalidDb | KClusterErr
  | KNull | KInvalidExpire | KSyntaxErr | KStopped

datatype 'o kcmd =
    Del "bytes list" | Exists "bytes list" | Touch "bytes list" | Select bytes | Rename bytes bytes bool
  | Move bytes bytes | Expire bool bool bytes bytes | Persist bytes | Ttl bool bytes
  | Set bytes 'o "bytes list" | Setex bool bytes bytes 'o | Setnx bytes 'o | Mset bool "(bytes \<times> 'o) list"

text \<open>\<open>getLongLongFromObject\<close> of an argument, a string object.\<close>

definition arg_longlong :: "bytes \<Rightarrow> int option" where
  "arg_longlong p =
     (let (v, eptr, erange) = strtoll (takeWhile (\<lambda>b. b \<noteq> 0) p)
      in if (p \<noteq> [] \<and> isspace (hd p)) \<or> eptr \<noteq> [] \<or> erange then None else Some v)"

fun del_loop :: "kconf \<Rightarrow> int \<Rightarrow> bytes list \<Rightarrow> 'o keys \<Rightarrow> 'o keys \<times> bytes list" where
  "del_loop cf now [] m = (m, [])"
| "del_loop cf now (key # ks) m =
     (let m1 = fst (expireIfNeeded cf now m key);
          (m2, deleted) = dbDelete m1 key;
          (m3, signalled) = del_loop cf now ks m2
      in (m3, if deleted then key # signalled else signalled))"

type_synonym 'o kresult = "'o entry dbs \<times> nat \<times> (nat \<times> bytes) list \<times> kreply"

definition delCommand :: "kconf \<Rightarrow> int \<Rightarrow> bytes list \<Rightarrow> nat \<Rightarrow> 'o entry dbs \<Rightarrow> 'o kresult" where
  "delCommand cf now ks db d =
     (let (m, signalled) = del_loop cf now ks (d db)
      in (d(db := m), db, map (Pair db) signalled, KInt (int (length signalled))))"

fun exists_loop :: "kconf \<Rightarrow> int \<Rightarrow> bytes list \<Rightarrow> 'o keys \<Rightarrow> 'o keys \<times> nat" where
  "exists_loop cf now [] m = (m, 0)"
| "exists_loop cf now (key # ks) m =
     (let m1 = fst (expireIfNeeded cf now m key);
          (m2, count) = exists_loop cf now ks m1
      in (m2, if m1 key \<noteq> None then count + 1 else count))"

definition existsCommand :: "kconf \<Rightarrow> int \<Rightarrow> bytes list \<Rightarrow> nat \<Rightarrow> 'o entry dbs \<Rightarrow> 'o kresult" where
  "existsCommand cf now ks db d =
     (let (m, count) = exists_loop cf now ks (d db) in (d(db := m), db, [], KInt (int count)))"

fun touch_loop :: "kconf \<Rightarrow> int \<Rightarrow> bytes list \<Rightarrow> 'o keys \<Rightarrow> 'o keys \<times> nat" where
  "touch_loop cf now [] m = (m, 0)"
| "touch_loop cf now (key # ks) m =
     (let (m1, v) = lookupKeyRead cf now m key;
          (m2, touched) = touch_loop cf now ks m1
      in (m2, if v \<noteq> None then touched + 1 else touched))"

definition touchCommand :: "kconf \<Rightarrow> int \<Rightarrow> bytes list \<Rightarrow> nat \<Rightarrow> 'o entry dbs \<Rightarrow> 'o kresult" where
  "touchCommand cf now ks db d =
     (let (m, touched) = touch_loop cf now ks (d db) in (d(db := m), db, [], KInt (int touched)))"

definition selectDb :: "kconf \<Rightarrow> int \<Rightarrow> nat option" where
  "selectDb cf i = (if i < 0 \<or> i \<ge> int (k_dbnum cf) then None else Some (nat i))"

definition selectCommand :: "kconf \<Rightarrow> bytes \<Rightarrow> nat \<Rightarrow> 'o entry dbs \<Rightarrow> 'o kresult" where
  "selectCommand cf arg db d =
     (case arg_longlong arg of None \<Rightarrow> (d, db, [], KInvalidDb)
      | Some i \<Rightarrow>
        if k_cluster cf \<and> i \<noteq> 0 then (d, db, [], KClusterErr)
        else case selectDb cf (to_signed 32 i) of None \<Rightarrow> (d, db, [], KInvalidDb) | Some db' \<Rightarrow> (d, db', [], KOk))"

definition renameGenericCommand :: "kconf \<Rightarrow> int \<Rightarrow> bytes \<Rightarrow> bytes \<Rightarrow> bool \<Rightarrow> nat \<Rightarrow> 'o entry dbs \<Rightarrow> 'o kresult option" where
  "renameGenericCommand cf now k1 k2 nx db d =
     (let (m1, v1) = lookupKeyWrite cf now (d db) k1
      in case v1 of None \<Rightarrow> Some (d(db := m1), db, [], KNoKey)
         | Some v \<Rightarrow>
           if k1 = k2 then Some (d(db := m1), db, [], if nx then KInt 0 else KOk)
           else
             let expire = getExpire m1 k1;
                 (m2, v2) = lookupKeyWrite cf now m1 k2
             in if v2 \<noteq> None \<and> nx then Some (d(db := m2), db, [], KInt 0)
                else do {
                  let m3 = (if v2 \<noteq> None then fst (dbDelete m2 k2) else m2);
                  m4 \<leftarrow> dbAdd m3 k2 v;
                  m5 \<leftarrow> (if expire \<noteq> -1 then setExpire m4 k2 expire else Some m4);
                  let m6 = fst (dbDelete m5 k1);
                  Some (d(db := m6), db, [(db, k1), (db, k2)], if nx then KInt 1 else KOk)})"

definition moveCommand :: "kconf \<Rightarrow> int \<Rightarrow> bytes \<Rightarrow> bytes \<Rightarrow> nat \<Rightarrow> 'o entry dbs \<Rightarrow> 'o kresult option" where
  "moveCommand cf now key arg src d =
     (if k_cluster cf then Some (d, src, [], KClusterErr)
      else
        case (case arg_longlong arg of None \<Rightarrow> None
              | Some i \<Rightarrow> if i < INT32_MIN \<or> i > INT32_MAX then None else selectDb cf i) of
          None \<Rightarrow> Some (d, src, [], KOutOfRange)
        | Some dst \<Rightarrow>
          if src = dst then Some (d, src, [], KSameObject)
          else
            let (m1, v1) = lookupKeyWrite cf now (d src) key;
                d1 = d(src := m1)
            in case v1 of None \<Rightarrow> Some (d1, src, [], KInt 0)
               | Some v \<Rightarrow>
                 let expire = getExpire m1 key;
                     (m2, v2) = lookupKeyWrite cf now (d1 dst) key;
                     d2 = d1(dst := m2)
                 in if v2 \<noteq> None then Some (d2, src, [], KInt 0)
                    else do {
                      m3 \<leftarrow> dbAdd m2 key v;
                      m4 \<leftarrow> (if expire \<noteq> -1 then setExpire m3 key expire else Some m3);
                      let d3 = d2(dst := m4);
                      Some (d3(src := fst (dbDelete (d3 src) key)), src, [], KInt 1)})"

definition expireGenericCommand :: "kconf \<Rightarrow> int \<Rightarrow> int \<Rightarrow> bool \<Rightarrow> bytes \<Rightarrow> bytes \<Rightarrow> nat \<Rightarrow> 'o entry dbs
    \<Rightarrow> ('o kresult \<times> bool) option" where
  "expireGenericCommand cf now basetime seconds key arg db d =
     (case arg_longlong arg of None \<Rightarrow> Some ((d, db, [], KNotInt), False)
      | Some w0 \<Rightarrow> do {
          w1 \<leftarrow> (let w = (if seconds then w0 * 1000 else w0) in if in_int64 w then Some w else None);
          when \<leftarrow> (if in_int64 (w1 + basetime) then Some (w1 + basetime) else None);
          let (m1, v) = lookupKeyWrite cf now (d db) key;
          (if v = None then Some ((d(db := m1), db, [], KInt 0), False)
           else if when \<le> now \<and> \<not> k_loading cf \<and> \<not> k_slave cf then
             (let (m2, deleted) = dbDelete m1 key
              in if deleted then Some ((d(db := m2), db, [(db, key)], KInt 1), True) else None)
           else do {
             m2 \<leftarrow> setExpire m1 key when;
             Some ((d(db := m2), db, [(db, key)], KInt 1), False)})})"

definition persistCommand :: "bytes \<Rightarrow> nat \<Rightarrow> 'o entry dbs \<Rightarrow> 'o kresult option" where
  "persistCommand key db d =
     (if d db key = None then Some (d, db, [], KInt 0)
      else do {
        (m, removed) \<leftarrow> removeExpire (d db) key;
        Some (d(db := m), db, [], KInt (if removed then 1 else 0))})"

definition ttlGenericCommand :: "kconf \<Rightarrow> int \<Rightarrow> bool \<Rightarrow> bytes \<Rightarrow> nat \<Rightarrow> 'o entry dbs \<Rightarrow> 'o kresult" where
  "ttlGenericCommand cf now ms key db d =
     (let (m1, v) = lookupKeyRead cf now (d db) key; d1 = d(db := m1)
      in if v = None then (d1, db, [], KInt (-2))
         else
           let expire = getExpire m1 key;
               ttl = (if expire \<noteq> -1 then max 0 (expire - now) else -1)
           in (d1, db, [], KInt (if ttl = -1 then -1 else if ms then ttl else (ttl + 500) div 1000)))"

text \<open>The expiration argument of \<open>SET\<close>: an error reply, or the milliseconds.\<close>

definition set_expire_arg :: "(bool \<times> bytes) option \<Rightarrow> (kreply + int option) option" where
  "set_expire_arg expire =
     (case expire of None \<Rightarrow> Some (Inr None)
      | Some (seconds, arg) \<Rightarrow>
        case arg_longlong arg of None \<Rightarrow> Some (Inl KNotInt)
        | Some ms \<Rightarrow>
          if ms \<le> 0 then Some (Inl KInvalidExpire)
          else let w = (if seconds then ms * 1000 else ms) in if in_int64 w then Some (Inr (Some w)) else None)"

definition setGenericCommand :: "kconf \<Rightarrow> int \<Rightarrow> bool \<Rightarrow> bool \<Rightarrow> (bool \<times> bytes) option \<Rightarrow> bytes \<Rightarrow> 'o \<Rightarrow> kreply \<Rightarrow> kreply
    \<Rightarrow> nat \<Rightarrow> 'o entry dbs \<Rightarrow> 'o kresult option" where
  "setGenericCommand cf now nx xx expire key v ok_reply abort_reply db d = do {
     e \<leftarrow> set_expire_arg expire;
     (case e of Inl r \<Rightarrow> Some (d, db, [], r)
      | Inr ms \<Rightarrow>
        let (m1, found) = (if nx then lookupKeyWrite cf now (d db) key else (d db, None));
            (m2, present) = (if xx \<and> found = None then lookupKeyWrite cf now m1 key else (m1, None))
        in if nx \<and> found \<noteq> None \<or> xx \<and> present = None then Some (d(db := m2), db, [], abort_reply)
           else do {
             m3 \<leftarrow> setKey cf now m2 key v;
             m4 \<leftarrow> (case ms of None \<Rightarrow> Some m3 | Some w \<Rightarrow> if in_int64 (now + w) then setExpire m3 key (now + w) else None);
             Some (d(db := m4), db, [(db, key)], ok_reply)})}"

text \<open>An option of two letters, the second an \<open>x\<close>, in either case.\<close>

definition is_option :: "8 word \<Rightarrow> bytes \<Rightarrow> bool" where
  "is_option letter a =
     (case a @ [0] of x # y # z # _ \<Rightarrow> (x = letter \<or> x = letter - 32) \<and> (y = 120 \<or> y = 88) \<and> z = 0 | _ \<Rightarrow> False)"

function (sequential) set_options :: "bytes list \<Rightarrow> bool \<Rightarrow> bool \<Rightarrow> (bool \<times> bytes) option \<Rightarrow> (bool \<times> bool \<times> (bool \<times> bytes) option) option" where
  "set_options [] nx xx expire = Some (nx, xx, expire)"
| "set_options (a # opts) nx xx expire =
     (if is_option 110 a \<and> \<not> xx then set_options opts True xx expire
      else if is_option 120 a \<and> \<not> nx then set_options opts nx True expire
      else case opts of [] \<Rightarrow> None
      | arg # opts' \<Rightarrow>
        if is_option 101 a \<and> map_option fst expire \<noteq> Some False then set_options opts' nx xx (Some (True, arg))
        else if is_option 112 a \<and> map_option fst expire \<noteq> Some True then set_options opts' nx xx (Some (False, arg))
        else None)"
  by pat_completeness auto
termination by (relation "measure (\<lambda>(opts, _). length opts)") (simp_all)

definition setCommand :: "kconf \<Rightarrow> int \<Rightarrow> bytes \<Rightarrow> 'o \<Rightarrow> bytes list \<Rightarrow> nat \<Rightarrow> 'o entry dbs \<Rightarrow> 'o kresult option" where
  "setCommand cf now key v opts db d =
     (case set_options opts False False None of None \<Rightarrow> Some (d, db, [], KSyntaxErr)
      | Some (nx, xx, expire) \<Rightarrow> setGenericCommand cf now nx xx expire key v KOk KNull db d)"

fun busy_loop :: "kconf \<Rightarrow> int \<Rightarrow> (bytes \<times> 'o) list \<Rightarrow> 'o keys \<Rightarrow> 'o keys \<times> nat" where
  "busy_loop cf now [] m = (m, 0)"
| "busy_loop cf now ((key, v) # kvs) m =
     (let (m1, old) = lookupKeyWrite cf now m key;
          (m2, busykeys) = busy_loop cf now kvs m1
      in (m2, if old \<noteq> None then busykeys + 1 else busykeys))"

fun mset_loop :: "kconf \<Rightarrow> int \<Rightarrow> (bytes \<times> 'o) list \<Rightarrow> 'o keys \<Rightarrow> 'o keys option" where
  "mset_loop cf now [] m = Some m"
| "mset_loop cf now ((key, v) # kvs) m = do { m1 \<leftarrow> setKey cf now m key v; mset_loop cf now kvs m1 }"

definition msetGenericCommand :: "kconf \<Rightarrow> int \<Rightarrow> bool \<Rightarrow> (bytes \<times> 'o) list \<Rightarrow> nat \<Rightarrow> 'o entry dbs \<Rightarrow> 'o kresult option" where
  "msetGenericCommand cf now nx kvs db d =
     (let (m1, busykeys) = (if nx then busy_loop cf now kvs (d db) else (d db, 0))
      in if busykeys \<noteq> 0 then Some (d(db := m1), db, [], KInt 0)
         else do {
           m2 \<leftarrow> mset_loop cf now kvs m1;
           Some (d(db := m2), db, map (\<lambda>(key, v). (db, key)) kvs, if nx then KInt 1 else KOk)})"

text \<open>The second result is the command as it left its arguments: an \<open>EXPIRE\<close> in the past becomes a \<open>DEL\<close>.\<close>

fun key_command :: "kconf \<Rightarrow> int \<Rightarrow> 'o kcmd \<Rightarrow> nat \<Rightarrow> 'o entry dbs \<Rightarrow> ('o kresult \<times> 'o kcmd) option" where
  "key_command cf now (Del ks) db d = Some (delCommand cf now ks db d, Del ks)"
| "key_command cf now (Exists ks) db d = Some (existsCommand cf now ks db d, Exists ks)"
| "key_command cf now (Touch ks) db d = Some (touchCommand cf now ks db d, Touch ks)"
| "key_command cf now (Select arg) db d = Some (selectCommand cf arg db d, Select arg)"
| "key_command cf now (Rename k1 k2 nx) db d = map_option (\<lambda>r. (r, Rename k1 k2 nx)) (renameGenericCommand cf now k1 k2 nx db d)"
| "key_command cf now (Move key arg) db d = map_option (\<lambda>r. (r, Move key arg)) (moveCommand cf now key arg db d)"
| "key_command cf now (Expire relative seconds key arg) db d =
     map_option (\<lambda>(r, del). (r, if del then Del [key] else Expire relative seconds key arg))
       (expireGenericCommand cf now (if relative then now else 0) seconds key arg db d)"
| "key_command cf now (Persist key) db d = map_option (\<lambda>r. (r, Persist key)) (persistCommand key db d)"
| "key_command cf now (Ttl ms key) db d = Some (ttlGenericCommand cf now ms key db d, Ttl ms key)"
| "key_command cf now (Set key v opts) db d = map_option (\<lambda>r. (r, Set key v opts)) (setCommand cf now key v opts db d)"
| "key_command cf now (Setex seconds key arg v) db d =
     map_option (\<lambda>r. (r, Setex seconds key arg v))
       (setGenericCommand cf now False False (Some (seconds, arg)) key v KOk KNull db d)"
| "key_command cf now (Setnx key v) db d =
     map_option (\<lambda>r. (r, Setnx key v)) (setGenericCommand cf now True False None key v (KInt 1) (KInt 0) db d)"
| "key_command cf now (Mset nx kvs) db d = map_option (\<lambda>r. (r, Mset nx kvs)) (msetGenericCommand cf now nx kvs db d)"

text \<open>The commands for the transactions: when the server stops, nothing more happens.\<close>

definition key_proc :: "kconf \<Rightarrow> (int \<times> 'o kcmd, 'o entry, kreply) proc" where
  "key_proc cf x db d =
     (case key_command cf (fst x) (snd x) db d of None \<Rightarrow> (d, db, [], KStopped, x)
      | Some ((d', db', touched, r), cmd) \<Rightarrow> (d', db', touched, r, (fst x, cmd)))"


text \<open>
  \<^verbatim>\<open>server.c\<close>: one key of the active expiration cycle, which runs on a server that is not a slave and not loading.  It
  may come at any time between two commands.
\<close>

definition activeExpireCycleTryExpire :: "int \<Rightarrow> 'o keys \<Rightarrow> bytes \<Rightarrow> 'o keys" where
  "activeExpireCycleTryExpire now m key =
     (case m key of Some (v, Some t) \<Rightarrow> if now > t then fst (dbDelete m key) else m | _ \<Rightarrow> m)"

datatype 'o kevent = Command "'o kcmd" | Cycle nat bytes

fun key_run :: "kconf \<Rightarrow> (int \<times> 'o kevent) list \<Rightarrow> nat \<Rightarrow> 'o entry dbs \<Rightarrow> ('o entry dbs \<times> nat \<times> kreply list) option" where
  "key_run cf [] db d = Some (d, db, [])"
| "key_run cf ((now, Command cmd) # es) db d = do {
     ((d1, db1, touched, r), cmd') \<leftarrow> key_command cf now cmd db d;
     (d2, db2, rs) \<leftarrow> key_run cf es db1 d1;
     Some (d2, db2, r # rs)}"
| "key_run cf ((now, Cycle j key) # es) db d =
     key_run cf es db
       (if k_loading cf \<or> k_slave cf then d else d(j := activeExpireCycleTryExpire now (d j) key))"

section \<open>Lazy expiration\<close>

text \<open>An entry that the server has yet to delete: its time has passed, and it is for this server to delete it.\<close>

definition expired :: "kconf \<Rightarrow> int \<Rightarrow> 'o entry option \<Rightarrow> bool" where
  "expired cf now e \<longleftrightarrow>
     (case e of Some (v, Some when) \<Rightarrow> 0 \<le> when \<and> when < now \<and> \<not> k_loading cf \<and> \<not> k_slave cf | _ \<Rightarrow> False)"

lemma expired_simps [simp]: "\<not> expired cf now None" "\<not> expired cf now (Some (v, None))"
  by (simp_all add: expired_def)

lemma expireIfNeeded_fst: "fst (expireIfNeeded cf now m key) = (if expired cf now (m key) then m(key := None) else m)"
  by (auto simp: expireIfNeeded_def expired_def getExpire_def dbDelete_def Let_def split: option.splits)

lemma lookupKeyWrite_eq:
  "lookupKeyWrite cf now m key =
     (if expired cf now (m key) then (m(key := None), None) else (m, map_option fst (m key)))"
  by (simp add: lookupKeyWrite_def expireIfNeeded_fst Let_def)

lemma lookupKeyRead_fst:
  "fst (lookupKeyRead cf now m key) = (if expired cf now (m key) then m(key := None) else m)"
  by (simp add: lookupKeyRead_def expireIfNeeded_fst Let_def split_def)

lemma setKey_eq:
  "setKey cf now m key v = Some (m(key \<mapsto> (v, None)))"
  by (auto simp: setKey_def lookupKeyWrite_eq dbAdd_def dbOverwrite_def removeExpire_def split: option.splits)

lemma mset_loop_eq: "mset_loop cf now kvs m = Some (m ++ map_of (map (\<lambda>(key, v). (key, (v, None))) (rev kvs)))"
  by (induction kvs arbitrary: m) (auto simp: setKey_eq map_add_def fun_eq_iff map_of_append split: option.splits)

section \<open>Which keys a command changes\<close>

text \<open>Between two tables only the keys of \<open>S\<close> and expired ones differ.\<close>

definition covered :: "kconf \<Rightarrow> int \<Rightarrow> bytes set \<Rightarrow> 'o keys \<Rightarrow> 'o keys \<Rightarrow> bool" where
  "covered cf now S m m' \<longleftrightarrow> (\<forall>key. key \<in> S \<or> m' key = m key \<or> expired cf now (m key))"

lemma covered_refl [simp]: "covered cf now S m m"
  by (simp add: covered_def)




lemma covered_upd [simp]: "key \<in> S \<Longrightarrow> covered cf now S m (m'(key := e)) = covered cf now S m m'"
  by (auto simp: covered_def)






text \<open>A call that changes only the database of the client, and signals what it changes.\<close>

definition honest_on :: "kconf \<Rightarrow> int \<Rightarrow> nat \<Rightarrow> 'o entry dbs \<Rightarrow> 'o kresult \<Rightarrow> bool" where
  "honest_on cf now db d r \<longleftrightarrow>
     (case r of (d', db', touched, _) \<Rightarrow>
        (\<exists>m. d' = d(db := m) \<and> covered cf now {key. (db, key) \<in> set touched} (d db) m))"

lemma honest_onI: "covered cf now {key. (db, key) \<in> set touched} (d db) m \<Longrightarrow> honest_on cf now db d (d(db := m), db', touched, r)"
  by (auto simp: honest_on_def)

lemma honest_on_same [simp]: "honest_on cf now db d (d, db', touched, r)"
  using honest_onI [of cf now db touched d "d db" db' r] by simp









lemma persist_changes:
  assumes "persistCommand key db d = Some (d', db', touched, r)"
  shows "d' = d(db := (d db)(key := map_option (\<lambda>e. (fst e, None)) (d db key)))"
  using assms by (auto simp: persistCommand_def removeExpire_def fun_upd_idem split: if_splits option.splits bind_splits)


text \<open>No assertion of the commands fails: a command stops only when a time of expiration is out of range.\<close>

lemma rename_total: "\<exists>r. renameGenericCommand cf now k1 k2 nx db d = Some r"
  by (auto simp: renameGenericCommand_def lookupKeyWrite_eq dbAdd_def setExpire_def dbDelete_def Let_def split: option.splits)

lemma move_total: "\<exists>r. moveCommand cf now key arg db d = Some r"
  by (auto simp: moveCommand_def lookupKeyWrite_eq dbAdd_def setExpire_def dbDelete_def Let_def split: option.splits)

lemma persist_total: "\<exists>r. persistCommand key db d = Some r"
  by (auto simp: persistCommand_def removeExpire_def)

lemma mset_total: "\<exists>r. msetGenericCommand cf now nx kvs db d = Some r"
  by (auto simp: msetGenericCommand_def mset_loop_eq Let_def split_def)

lemma expire_total:
  assumes "\<And>w. arg_longlong arg = Some w \<Longrightarrow> in_int64 (if seconds then w * 1000 else w) \<and> in_int64 ((if seconds then w * 1000 else w) + base)"
  shows "\<exists>r. expireGenericCommand cf now base seconds key arg db d = Some r"
proof (cases "arg_longlong arg")
  case (Some w)
  then show ?thesis using assms [OF Some]
    by (cases "expired cf now (d db key)"; cases "d db key")
      (auto simp: expireGenericCommand_def lookupKeyWrite_eq dbDelete_def setExpire_def)
qed (auto simp: expireGenericCommand_def intro: exI [of _ False])

lemma set_total:
  assumes "set_expire_arg expire = Some e" and "\<And>w. e = Inr (Some w) \<Longrightarrow> in_int64 (now + w)"
  shows "\<exists>r. setGenericCommand cf now nx xx expire key v ok ab db d = Some r"
  using assms
  by (auto simp: setGenericCommand_def lookupKeyWrite_eq setKey_eq setExpire_def Let_def split: sum.splits option.splits)

section \<open>Lazy expiration is invisible\<close>

definition live :: "kconf \<Rightarrow> int \<Rightarrow> 'o keys \<Rightarrow> 'o keys" where
  "live cf now m = (\<lambda>key. if expired cf now (m key) then None else m key)"

definition purge :: "kconf \<Rightarrow> int \<Rightarrow> 'o entry dbs \<Rightarrow> 'o entry dbs" where
  "purge cf now d = (\<lambda>j. live cf now (d j))"

lemma live_apply: "live cf now m key = (if expired cf now (m key) then None else m key)"
  by (simp add: live_def)

lemma live_expired [simp]: "\<not> expired cf now (live cf now m key)"
  by (simp add: live_apply)

lemma live_upd [simp]:
  "live cf now (m(key := None)) = (live cf now m)(key := None)"
  "\<not> expired cf now e \<Longrightarrow> live cf now (m(key := e)) = (live cf now m)(key := e)"
  by (auto simp: live_def)

lemma live_drop [simp]: "expired cf now (m key) \<Longrightarrow> (live cf now m)(key := None) = live cf now m"
  by (auto simp: live_def)

lemma live_same: "\<not> expired cf now (m key) \<Longrightarrow> live cf now m key = m key"
  by (simp add: live_apply)

lemma purge_apply [simp]: "purge cf now d j = live cf now (d j)"
  by (simp add: purge_def)

lemma purge_upd: "(purge cf now d)(j := live cf now m) = purge cf now (d(j := m))"
  by (auto simp: purge_def)

lemma lookupKeyWrite_live:
  "lookupKeyWrite cf now (live cf now m) key = map_prod (live cf now) id (lookupKeyWrite cf now m key)"
  by (auto simp: lookupKeyWrite_eq live_apply)

lemma expireIfNeeded_live: "fst (expireIfNeeded cf now (live cf now m) key) = live cf now (fst (expireIfNeeded cf now m key))"
  by (auto simp: expireIfNeeded_fst)

lemma lookupKeyRead_live:
  "lookupKeyRead cf now (live cf now m) key = map_prod (live cf now) id (lookupKeyRead cf now m key)"
proof (cases "expired cf now (m key)")
  case True
  then show ?thesis
    by (auto simp: lookupKeyRead_def expireIfNeeded_def getExpire_def live_apply expired_def dbDelete_def Let_def split: option.splits)
next
  case False
  then have "expireIfNeeded cf now m key = (m, k_slave cf \<and> \<not> k_loading cf \<and> 0 \<le> getExpire m key \<and> getExpire m key < now)"
      "expireIfNeeded cf now (live cf now m) key = (live cf now m, k_slave cf \<and> \<not> k_loading cf \<and> 0 \<le> getExpire m key \<and> getExpire m key < now)"
    by (auto simp: expireIfNeeded_def getExpire_def live_apply expired_def dbDelete_def Let_def split: option.splits)
  then show ?thesis using False by (auto simp: lookupKeyRead_def live_apply)
qed

lemma getExpire_live: "\<not> expired cf now (m key) \<Longrightarrow> getExpire (live cf now m) key = getExpire m key"
  by (simp add: getExpire_def live_apply)

lemma del_live: "del_loop cf now ks (live cf now m) = map_prod (live cf now) id (del_loop cf now ks m)"
proof (induction ks arbitrary: m)
  case (Cons key ks)
  define m1 where "m1 = fst (expireIfNeeded cf now m key)"
  have e: "live cf now m1 key = m1 key" by (simp add: m1_def expireIfNeeded_fst live_apply)
  have "del_loop cf now ks ((live cf now m1)(key := None)) = map_prod (live cf now) id (del_loop cf now ks (m1(key := None)))"
    using Cons.IH [of "m1(key := None)"] by (simp only: live_upd(1))
  then show ?case by (simp add: expireIfNeeded_live m1_def [symmetric] dbDelete_def e Let_def split_def)
qed simp

lemma exists_live: "exists_loop cf now ks (live cf now m) = map_prod (live cf now) id (exists_loop cf now ks m)"
proof (induction ks arbitrary: m)
  case (Cons key ks)
  define m1 where "m1 = fst (expireIfNeeded cf now m key)"
  have e: "live cf now m1 key = m1 key" by (simp add: m1_def expireIfNeeded_fst live_apply)
  show ?case using Cons.IH [of m1] by (simp add: expireIfNeeded_live m1_def [symmetric] e Let_def split_def)
qed simp

lemma touch_live: "touch_loop cf now ks (live cf now m) = map_prod (live cf now) id (touch_loop cf now ks m)"
  by (induction ks arbitrary: m) (simp_all add: lookupKeyRead_live Let_def split_def)

lemma busy_live: "busy_loop cf now kvs (live cf now m) = map_prod (live cf now) id (busy_loop cf now kvs m)"
  by (induction kvs arbitrary: m) (auto simp: lookupKeyWrite_live Let_def split_def)

lemma mset_live: "mset_loop cf now kvs (live cf now m) = map_option (live cf now) (mset_loop cf now kvs m)"
proof (induction kvs arbitrary: m)
  case (Cons kv kvs)
  have "mset_loop cf now kvs ((live cf now m)(fst kv \<mapsto> (snd kv, None)))
      = map_option (live cf now) (mset_loop cf now kvs (m(fst kv \<mapsto> (snd kv, None))))"
    using Cons.IH [of "m(fst kv \<mapsto> (snd kv, None))"] by (simp only: live_upd(2) expired_simps not_False_eq_True)
  then show ?case by (cases kv) (simp add: setKey_eq)
qed simp

definition purge_result :: "kconf \<Rightarrow> int \<Rightarrow> 'o kresult \<Rightarrow> 'o kresult" where
  "purge_result cf now r = (case r of (d, db, touched, x) \<Rightarrow> (purge cf now d, db, touched, x))"

lemma purge_result_simps [simp]:
  "purge_result cf now (d, db, touched, x) = (purge cf now d, db, touched, x)"
  by (simp add: purge_result_def)

lemma purge_fun_upd [simp]: "purge cf now (d(j := m)) = (purge cf now d)(j := live cf now m)"
  by (auto simp: purge_def)

lemma purge_idle [simp]: "(purge cf now d)(j := live cf now (d j)) = purge cf now d"
  by (auto simp: purge_def)

lemma delCommand_purge: "delCommand cf now ks db (purge cf now d) = purge_result cf now (delCommand cf now ks db d)"
  by (simp add: delCommand_def del_live Let_def split_def)

lemma existsCommand_purge: "existsCommand cf now ks db (purge cf now d) = purge_result cf now (existsCommand cf now ks db d)"
  by (simp add: existsCommand_def exists_live Let_def split_def)

lemma touchCommand_purge: "touchCommand cf now ks db (purge cf now d) = purge_result cf now (touchCommand cf now ks db d)"
  by (simp add: touchCommand_def touch_live Let_def split_def)

lemma selectCommand_purge: "selectCommand cf arg db (purge cf now d) = purge_result cf now (selectCommand cf arg db d)"
  by (simp add: selectCommand_def split: option.splits)

lemma msetGenericCommand_purge:
  "msetGenericCommand cf now nx kvs db (purge cf now d) = map_option (purge_result cf now) (msetGenericCommand cf now nx kvs db d)"
  by (auto simp: msetGenericCommand_def busy_live mset_live Let_def split_def map_option_bind option.map_comp comp_def
      split: option.splits bind_splits)

lemma setGenericCommand_purge:
  "setGenericCommand cf now nx xx expire key v ok ab db (purge cf now d)
     = map_option (purge_result cf now) (setGenericCommand cf now nx xx expire key v ok ab db d)"
proof (cases "set_expire_arg expire")
  case None
  then show ?thesis by (simp add: setGenericCommand_def)
next
  case (Some e)
  show ?thesis
  proof (cases e)
    case (Inl r)
    then show ?thesis using Some by (simp add: setGenericCommand_def)
  next
    case (Inr ms)
    have pos: "ms = Some w \<longrightarrow> 0 < w" for w
      using Some Inr by (auto simp: set_expire_arg_def Let_def split: option.splits if_splits)
    have new: "ms = Some w \<longrightarrow> \<not> expired cf now (Some (v, Some (now + w)))" for w using pos [of w] by (auto simp: expired_def)
    show ?thesis
      using Some Inr new
      by (cases "expired cf now (d db key)"; cases ms)
        (auto simp: setGenericCommand_def lookupKeyWrite_eq live_apply setKey_eq setExpire_def Let_def)
  qed
qed

lemma renameGenericCommand_purge:
  "renameGenericCommand cf now k1 k2 nx db (purge cf now d)
     = map_option (purge_result cf now) (renameGenericCommand cf now k1 k2 nx db d)"
proof (cases "expired cf now (d db k1)")
  case True
  then show ?thesis by (simp add: renameGenericCommand_def lookupKeyWrite_eq live_apply)
next
  case False
  show ?thesis
  proof (cases "d db k1")
    case None
    then show ?thesis by (simp add: renameGenericCommand_def lookupKeyWrite_eq live_apply)
  next
    case (Some e)
    obtain v w where e: "e = (v, w)" by force
    have new: "\<not> expired cf now (Some (v, if getExpire (d db) k1 = -1 then None else Some (getExpire (d db) k1)))"
      using False Some e by (auto simp: getExpire_def expired_def split: option.splits)
    then show ?thesis using False Some e
      by (cases "expired cf now (d db k2)")
        (auto simp: renameGenericCommand_def lookupKeyWrite_eq live_apply dbAdd_def dbDelete_def setExpire_def getExpire_def
          Let_def split: option.splits)
  qed
qed

lemma moveCommand_purge:
  "moveCommand cf now key arg src (purge cf now d) = map_option (purge_result cf now) (moveCommand cf now key arg src d)"
proof (cases "expired cf now (d src key) \<or> d src key = None")
  case True
  then show ?thesis by (auto simp: moveCommand_def lookupKeyWrite_eq live_apply split: option.splits)
next
  case False
  then obtain v w where e: "d src key = Some (v, w)" "\<not> expired cf now (Some (v, w))" by auto
  have new: "\<not> expired cf now (Some (v, if getExpire (d src) key = -1 then None else Some (getExpire (d src) key)))"
    using e by (auto simp: getExpire_def expired_def split: option.splits)
  have "moveCommand cf now key arg src (purge cf now d) = map_option (purge_result cf now) (moveCommand cf now key arg src d)"
    if "\<not> k_cluster cf" "arg_longlong arg = Some i" "\<not> (i < INT32_MIN \<or> i > INT32_MAX)" "selectDb cf i = Some dst" "src \<noteq> dst" for i dst
    using that e new
    by (cases "expired cf now (d dst key)")
      (auto simp: moveCommand_def lookupKeyWrite_eq live_apply dbAdd_def dbDelete_def setExpire_def getExpire_def fun_upd_twist
        Let_def split: option.splits)
  then show ?thesis by (auto simp: moveCommand_def split: option.splits)
qed

lemma expireGenericCommand_purge:
  "expireGenericCommand cf now base seconds key arg db (purge cf now d)
     = map_option (map_prod (purge_result cf now) id) (expireGenericCommand cf now base seconds key arg db d)"
proof (cases "expired cf now (d db key) \<or> d db key = None")
  case True
  obtain m1 where l: "lookupKeyWrite cf now (d db) key = (m1, None)" "live cf now m1 = live cf now (d db)"
    using True by (auto simp: lookupKeyWrite_eq)
  then have "lookupKeyWrite cf now (live cf now (d db)) key = (live cf now (d db), None)"
    by (simp add: lookupKeyWrite_live)
  then show ?thesis using l
    by (cases "arg_longlong arg") (simp_all add: expireGenericCommand_def Let_def split: option.split)
next
  case False
  then obtain v w where e: "d db key = Some (v, w)" "\<not> expired cf now (Some (v, w))" by auto
  have new: "\<not> (t \<le> now \<and> \<not> k_loading cf \<and> \<not> k_slave cf) \<longrightarrow> \<not> expired cf now (Some (v, Some t))" for t
    by (auto simp: expired_def)
  show ?thesis
  proof (cases "arg_longlong arg")
    case (Some w0)
    define w1 where "w1 = (if seconds then w0 * 1000 else w0)"
    note defs = expireGenericCommand_def Some option.case w1_def [symmetric] lookupKeyWrite_eq purge_apply live_apply
    show ?thesis
    proof (cases "in_int64 w1 \<and> in_int64 (w1 + base)")
      case True
      show ?thesis
      proof (cases "w1 + base \<le> now \<and> \<not> k_loading cf \<and> \<not> k_slave cf")
        case True
        then show ?thesis using e \<open>in_int64 w1 \<and> _\<close> by (simp add: defs dbDelete_def)
      next
        case False
        then show ?thesis using e \<open>in_int64 w1 \<and> _\<close> new [of "w1 + base"] by (auto simp: defs setExpire_def)
      qed
    qed (auto simp: defs)
  qed (simp add: expireGenericCommand_def)
qed

lemma ttlGenericCommand_purge:
  "ttlGenericCommand cf now ms key db (purge cf now d) = purge_result cf now (ttlGenericCommand cf now ms key db d)"
proof (cases "expired cf now (d db key)")
  case True
  then have "snd (lookupKeyRead cf now (d db) key) = None"
    by (auto simp: lookupKeyRead_def expireIfNeeded_def getExpire_def expired_def dbDelete_def Let_def split: option.splits)
  then show ?thesis by (simp add: ttlGenericCommand_def lookupKeyRead_live Let_def split_def)
next
  case False
  then have "fst (lookupKeyRead cf now (d db) key) = d db" by (simp add: lookupKeyRead_fst)
  then show ?thesis using False
    by (auto simp: ttlGenericCommand_def lookupKeyRead_live getExpire_live Let_def split_def)
qed

text \<open>Every command but \<open>PERSIST\<close> does on the databases what it does on them without their expired keys.\<close>

lemma key_command_purge:
  assumes "\<And>key. cmd \<noteq> Persist key"
  shows "key_command cf now cmd db (purge cf now d) = map_option (map_prod (purge_result cf now) id) (key_command cf now cmd db d)"
proof (cases cmd)
  case (Persist key)
  then show ?thesis using assms by blast
qed (simp_all add: delCommand_purge existsCommand_purge touchCommand_purge selectCommand_purge renameGenericCommand_purge
      moveCommand_purge expireGenericCommand_purge ttlGenericCommand_purge setGenericCommand_purge msetGenericCommand_purge
      setCommand_def option.map_comp comp_def split_def map_prod_def split: option.splits)

text \<open>\<open>PERSIST\<close> does not look at the time: it makes an expired key a lasting one.\<close>

lemma persist_revives:
  assumes "d db key = Some (v, Some w)" and "expired cf now (Some (v, Some w))"
  shows "\<exists>d'. key_command cf now (Persist key) db d = Some ((d', db, [], KInt 1), Persist key) \<and> purge cf t d' db key = Some (v, None)"
    and "key_command cf now (Persist key) db (purge cf now d) = Some ((purge cf now d, db, [], KInt 0), Persist key)"
  using assms by (auto simp: persistCommand_def removeExpire_def live_apply)

text \<open>The specification: before every command all expired keys are gone, and there is no cycle.\<close>

fun eager_run :: "kconf \<Rightarrow> (int \<times> 'o kevent) list \<Rightarrow> nat \<Rightarrow> 'o entry dbs \<Rightarrow> ('o entry dbs \<times> nat \<times> kreply list) option" where
  "eager_run cf [] db d = Some (d, db, [])"
| "eager_run cf ((now, Command cmd) # es) db d = do {
     ((d1, db1, touched, r), cmd') \<leftarrow> key_command cf now cmd db (purge cf now d);
     (d2, db2, rs) \<leftarrow> eager_run cf es db1 d1;
     Some (d2, db2, r # rs)}"
| "eager_run cf ((now, Cycle j key) # es) db d = eager_run cf es db d"

text \<open>No time of expiration is negative: on a server that is not a slave and not loading, no command makes one.\<close>

definition times_ok :: "'o keys \<Rightarrow> bool" where
  "times_ok m \<longleftrightarrow> (\<forall>key v t. m key = Some (v, Some t) \<longrightarrow> 0 \<le> t)"

lemma times_upd [simp]:
  "times_ok m \<Longrightarrow> times_ok (m(key := None))" "times_ok m \<Longrightarrow> times_ok (m(key \<mapsto> (v, None)))"
  "times_ok m \<Longrightarrow> 0 \<le> t \<Longrightarrow> times_ok (m(key \<mapsto> (v, Some t)))"
  by (auto simp: times_ok_def)

lemma times_getExpire: "times_ok m \<Longrightarrow> getExpire m key \<noteq> -1 \<Longrightarrow> 0 \<le> getExpire m key"
  by (auto simp: times_ok_def getExpire_def split: option.splits)

lemma times_expire: "times_ok m \<Longrightarrow> times_ok (fst (expireIfNeeded cf now m key))"
  by (simp add: expireIfNeeded_fst)

lemma times_del: "times_ok m \<Longrightarrow> times_ok (fst (del_loop cf now ks m))"
  by (induction ks arbitrary: m) (simp_all add: dbDelete_def times_expire Let_def split_def)

lemma times_exists: "times_ok m \<Longrightarrow> times_ok (fst (exists_loop cf now ks m))"
  by (induction ks arbitrary: m) (simp_all add: times_expire Let_def split_def)

lemma times_touch: "times_ok m \<Longrightarrow> times_ok (fst (touch_loop cf now ks m))"
  by (induction ks arbitrary: m) (simp_all add: lookupKeyRead_fst Let_def split_def)

lemma times_busy: "times_ok m \<Longrightarrow> times_ok (fst (busy_loop cf now kvs m))"
  by (induction kvs arbitrary: m) (auto simp: lookupKeyWrite_eq Let_def split_def)

lemma times_mset: "mset_loop cf now kvs m = Some m' \<Longrightarrow> times_ok m \<Longrightarrow> times_ok m'"
  by (induction kvs arbitrary: m) (auto simp: setKey_eq)

definition times_all :: "'o kresult \<Rightarrow> bool" where
  "times_all r \<longleftrightarrow> (\<forall>j. times_ok (fst r j))"

lemma times_loops:
  assumes "\<forall>j. times_ok (d j)"
  shows "times_all (delCommand cf now ks db d)" and "times_all (existsCommand cf now ks db d)" and "times_all (touchCommand cf now ks db d)"
  using assms
  by (auto simp: times_del times_exists times_touch times_all_def delCommand_def existsCommand_def touchCommand_def Let_def split_def)

lemma times_rename:
  assumes "renameGenericCommand cf now k1 k2 nx db d = Some r" and "\<forall>j. times_ok (d j)"
  shows "times_all r"
  using assms times_getExpire [of "d db" k1]
  by (auto simp: times_all_def renameGenericCommand_def lookupKeyWrite_eq dbAdd_def dbDelete_def setExpire_def getExpire_def Let_def
      split: if_splits option.splits bind_splits)

lemma times_move:
  assumes "moveCommand cf now key arg src d = Some r" and "\<forall>j. times_ok (d j)"
  shows "times_all r"
  using assms times_getExpire [of "d src" key]
  by (auto simp: times_all_def moveCommand_def lookupKeyWrite_eq dbAdd_def dbDelete_def setExpire_def getExpire_def Let_def
      split: if_splits option.splits bind_splits)

lemma times_expireGeneric:
  assumes "expireGenericCommand cf now base seconds key arg db d = Some (r, del)" and "\<forall>j. times_ok (d j)" and "0 \<le> now"
    and "\<not> k_loading cf" and "\<not> k_slave cf"
  shows "times_all r"
  using assms
  by (auto simp: times_all_def expireGenericCommand_def lookupKeyWrite_eq dbDelete_def setExpire_def Let_def
      split: if_splits option.splits bind_splits)

lemma times_set:
  assumes "setGenericCommand cf now nx xx expire key v ok ab db d = Some r" and "\<forall>j. times_ok (d j)" and "0 \<le> now"
  shows "times_all r"
proof -
  have "set_expire_arg expire = Some (Inr (Some w)) \<Longrightarrow> 0 < w" for w
    by (auto simp: set_expire_arg_def Let_def split: option.splits if_splits)
  then have "set_expire_arg expire = Some (Inr (Some w)) \<Longrightarrow> 0 \<le> now + w" for w using assms(3) by fastforce
  then show ?thesis using assms(1,2)
    by (auto simp: times_all_def setGenericCommand_def lookupKeyWrite_eq setKey_eq setExpire_def Let_def
        split: if_splits option.splits bind_splits sum.splits)
qed

lemma times_msetGeneric:
  assumes "msetGenericCommand cf now nx kvs db d = Some r" and "\<forall>j. times_ok (d j)"
  shows "times_all r"
proof -
  define m1 where "m1 = fst (if nx then busy_loop cf now kvs (d db) else (d db, 0))"
  have "times_ok m1" using assms(2) by (simp add: m1_def times_busy)
  then show ?thesis using assms times_mset [of cf now kvs m1]
    by (auto simp: times_all_def msetGenericCommand_def m1_def split_def Let_def split: if_splits bind_splits)
qed

lemma times_command:
  assumes "key_command cf now cmd db d = Some (r, cmd')" and "\<forall>j. times_ok (d j)" and "0 \<le> now"
    and "\<not> k_loading cf" and "\<not> k_slave cf"
  shows "times_all r"
proof (cases cmd)
  case (Persist key)
  obtain d' db' t x where r: "r = (d', db', t, x)" by (metis surj_pair)
  show ?thesis using Persist assms(1,2) persist_changes [of key db d d' db' t x]
    by (cases "d db key") (auto simp: r times_all_def)
next
  case (Select arg)
  then show ?thesis using assms(1,2) by (auto simp: times_all_def selectCommand_def split: option.splits if_splits)
next
  case (Ttl ms key)
  then show ?thesis using assms(1,2)
    by (auto simp: times_all_def ttlGenericCommand_def lookupKeyRead_fst Let_def split_def split: if_splits)
next
  case (Set key v opts)
  show ?thesis
  proof (cases "set_options opts False False None")
    case None
    then show ?thesis using Set assms(1,2) by (auto simp: setCommand_def times_all_def)
  next
    case (Some o)
    then show ?thesis using Set assms(1,2,3) by (auto simp: setCommand_def split_def intro: times_set)
  qed
qed (use assms in \<open>auto intro: times_loops times_rename times_move times_expireGeneric times_set times_msetGeneric\<close>)

lemma purge_purge [simp]: "t \<le> now \<Longrightarrow> purge cf now (purge cf t d) = purge cf now d"
  by (auto simp: purge_def live_def expired_def fun_eq_iff split: option.splits)

lemma purge_later: "purge cf t d = purge cf t e \<Longrightarrow> t \<le> now \<Longrightarrow> purge cf now d = purge cf now e"
  by (metis purge_purge)

lemma cycle_purge:
  assumes "\<forall>j. times_ok (d j)" and "\<not> k_loading cf" and "\<not> k_slave cf"
  shows "purge cf now (d(j := activeExpireCycleTryExpire now (d j) key)) = purge cf now d"
    and "\<forall>i. times_ok ((d(j := activeExpireCycleTryExpire now (d j) key)) i)"
proof -
  have "live cf now (activeExpireCycleTryExpire now (d j) key) = live cf now (d j)"
    using assms by (auto simp: activeExpireCycleTryExpire_def dbDelete_def expired_def times_ok_def live_def fun_eq_iff split: option.splits)
  then show "purge cf now (d(j := activeExpireCycleTryExpire now (d j) key)) = purge cf now d" by simp
  show "\<forall>i. times_ok ((d(j := activeExpireCycleTryExpire now (d j) key)) i)"
    using assms(1) by (auto simp: activeExpireCycleTryExpire_def dbDelete_def split: option.splits)
qed

definition view :: "kconf \<Rightarrow> int \<Rightarrow> 'o entry dbs \<times> nat \<times> kreply list \<Rightarrow> 'o entry dbs \<times> nat \<times> kreply list" where
  "view cf t x = (purge cf t (fst x), snd x)"

lemma run_purge:
  assumes "sorted (map fst es)" and "\<forall>x \<in> set es. t0 \<le> fst x \<and> fst x \<le> t" and "t0 \<le> t" and "0 \<le> t0"
    and "\<forall>key. Command (Persist key) \<notin> snd ` set es"
    and "purge cf t0 d = purge cf t0 e" and "k_loading cf \<or> k_slave cf \<or> (\<forall>j. times_ok (d j))"
  shows "map_option (view cf t) (key_run cf es db d) = map_option (view cf t) (eager_run cf es db e)"
  using assms
proof (induction es arbitrary: db d e t0)
  case Nil
  have "purge cf t d = purge cf t e" using purge_later [OF Nil.prems(6,3)] .
  then show ?case by (simp add: view_def)
next
  case (Cons x es)
  obtain now ev where x: "x = (now, ev)" by force
  have srt: "sorted (map fst es)" "\<forall>y \<in> set es. now \<le> fst y \<and> fst y \<le> t" "now \<le> t" "t0 \<le> now" "0 \<le> now"
    using Cons.prems(1,2,4) x by auto
  have nop: "\<forall>key. Command (Persist key) \<notin> snd ` set es" using Cons.prems(5) by auto
  have same: "purge cf now d = purge cf now e" using purge_later [OF Cons.prems(6) srt(4)] .
  show ?case
  proof (cases ev)
    case (Cycle j key)
    define d1 where "d1 = (if k_loading cf \<or> k_slave cf then d else d(j := activeExpireCycleTryExpire now (d j) key))"
    have "purge cf now d1 = purge cf now e" "k_loading cf \<or> k_slave cf \<or> (\<forall>j. times_ok (d1 j))"
      using cycle_purge [where d = d and cf = cf and now = now and j = j and key = key] Cons.prems(7) same by (auto simp: d1_def simp del: fun_upd_apply purge_fun_upd)
    from Cons.IH [OF srt(1-3,5) nop this] show ?thesis using x Cycle by (simp add: d1_def [symmetric])
  next
    case (Command cmd)
    have np: "cmd \<noteq> Persist key" for key using Cons.prems(5) x Command by auto
    have e: "key_command cf now cmd db (purge cf now e) = map_option (map_prod (purge_result cf now) id) (key_command cf now cmd db d)"
      using key_command_purge [of cmd cf now db d, OF np] same by simp
    show ?thesis
    proof (cases "key_command cf now cmd db d")
      case None
      then show ?thesis using x Command e by simp
    next
      case (Some y)
      obtain d1 db1 touched r cmd' where y: "y = ((d1, db1, touched, r), cmd')" by (metis surj_pair)
      have k: "k_loading cf \<or> k_slave cf \<or> (\<forall>j. times_ok (d1 j))"
        using times_command [of cf now cmd db d "(d1, db1, touched, r)" cmd'] Cons.prems(7) srt(5) Some y
        by (auto simp: times_all_def)
      have "purge cf now d1 = purge cf now (purge cf now d1)" by simp
      then have "map_option (view cf t) (key_run cf es db1 d1) = map_option (view cf t) (eager_run cf es db1 (purge cf now d1))"
        by (rule Cons.IH [OF srt(1-3,5) nop _ k])
      then show ?thesis using x Command e Some y
        by (cases "key_run cf es db1 d1"; cases "eager_run cf es db1 (purge cf now d1)") (auto simp: view_def split_def)
    qed
  qed
qed

section \<open>Properties\<close>


text \<open>
  C38.  \<open>MOVE\<close> defeats \<open>WATCH\<close>.  When another client moves a watched key to another database, where it is not yet,
  the key is gone from the database in which it is watched, and a transaction of the watching client is still
  executed: its \<open>EXEC\<close> runs the queued commands.
\<close>

theorem move_defeats_watch:
  assumes "watch_inv s" and "(key, src) \<in> set (c_watched s c)" and "\<not> c_dirty_cas s c" and "\<not> c_dirty_exec s c" and "c_multi s c"
    and "c2 \<noteq> c" and "\<not> c_multi s c2" and "c_db s c2 = src" and "\<not> k_cluster cf"
    and "arg_longlong arg = Some (int dst)" and "dst < k_dbnum cf" and "k_dbnum cf \<le> 2 ^ 31" and "dst \<noteq> src"
    and "dbs s src key = Some (v, w)" and "\<not> expired cf now (Some (v, w))" and "dbs s dst key = None"
  shows "\<exists>s' s''. mstep (key_proc cf) ro (c2, CmdReq (Data (now, Move key arg))) s = Some s'
    \<and> dbs s' src key = None \<and> map_option fst (dbs s' dst key) = Some v
    \<and> execCommand (key_proc cf) ro c s' = Some s''
    \<and> (case run_queue (key_proc cf) (dbnum s) (c_queue s c) (c_db s c) (dbs s') of (d, db, rs) \<Rightarrow>
        dbs s'' = d \<and> c_reply s'' c = c_reply s c @ RMultiLen (length (c_queue s c)) # rs)"
proof -
  have "\<exists>d'. moveCommand cf now key arg src (dbs s) = Some (d', src, [], KInt 1) \<and> d' src key = None \<and> map_option fst (d' dst key) = Some v"
    using assms(9-16) by (auto simp: moveCommand_def selectDb_def INT32_MIN_def INT32_MAX_def lookupKeyWrite_eq dbAdd_def setExpire_def dbDelete_def Let_def)
  then obtain d' where d': "key_proc cf (now, Move key arg) src (dbs s) = (d', src, [], KInt 1, (now, Move key arg))"
      "d' src key = None" "map_option fst (d' dst key) = Some v"
    by (auto simp: key_proc_def)
  define s' where "s' = reply c2 (RData (KInt 1)) (s\<lparr>dbs := d', c_db := (c_db s)(c2 := src)\<rparr>)"
  have "mstep (key_proc cf) ro (c2, CmdReq (Data (now, Move key arg))) s = Some s'"
    using d'(1) assms(7,8) by (simp add: processCommand_def call_def s'_def)
  moreover have "watch_inv s'"
    using assms(1) by (intro watch_inv_cong [OF assms(1)]) (simp_all add: s'_def reply_def)
  moreover have "dbs s' = d'" "c_multi s' c" "\<not> c_dirty_cas s' c" "\<not> c_dirty_exec s' c" "c_queue s' c = c_queue s c"
      "c_db s' c = c_db s c" "dbnum s' = dbnum s" "c_reply s' c = c_reply s c"
    using assms(3-6) by (simp_all add: s'_def reply_def)
  ultimately show ?thesis
    using d'(2,3) exec_step [of s' c "{}" "key_proc cf" ro] by (auto split: prod.splits)
qed

definition small_conf :: kconf where
  "small_conf = \<lparr>k_loading = False, k_slave = False, k_cluster = False, k_dbnum = 16\<rparr>"

text \<open>Client 1 watches the key \<open>k\<close> of database 0 and has queued a \<open>DEL\<close> of the key \<open>q\<close>.\<close>

definition key_server :: "(int \<times> nat kcmd, nat entry, kreply) mserver" where
  "key_server = \<lparr>dbnum = 16, dbs = (\<lambda>_. Map.empty)(0 := [[107] \<mapsto> (7, None)]), db_watched = (\<lambda>_. Map.empty)(0 := [[107] \<mapsto> [1]]),
     all_clients = [1, 2], srv_dirty = 0, propagated_multi = [], c_db = (\<lambda>_. 0), c_watched = (\<lambda>_. [])(1 := [([107], 0)]),
     c_multi = (\<lambda>_. False)(1 := True), c_dirty_cas = (\<lambda>_. False), c_dirty_exec = (\<lambda>_. False),
     c_queue = (\<lambda>_. [])(1 := [Data (1000, Del [[113]])]), c_reply = (\<lambda>_. [])\<rparr>"

lemma key_server_inv: "watch_inv key_server"
  by (auto simp: watch_inv_def key_server_def split: if_splits)

theorem move_defeats_watch_witness:
  "\<exists>s' s''. mstep (key_proc small_conf) (\<lambda>_. False) (2, CmdReq (Data (500, Move [107] [49]))) key_server = Some s'
    \<and> dbs s' 0 [107] = None \<and> map_option fst (dbs s' 1 [107]) = Some 7
    \<and> execCommand (key_proc small_conf) (\<lambda>_. False) 1 s' = Some s''
    \<and> (case run_queue (key_proc small_conf) (dbnum key_server) (c_queue key_server 1) (c_db key_server 1) (dbs s') of
         (d, db, rs) \<Rightarrow> dbs s'' = d \<and> c_reply s'' 1 = c_reply key_server 1 @ RMultiLen (length (c_queue key_server 1)) # rs)"
proof -
  have "arg_longlong [49] = Some (int 1)" by code_simp
  then show ?thesis
    by (intro move_defeats_watch) (use key_server_inv in \<open>auto simp: key_server_def small_conf_def\<close>)
qed


text \<open>
  C14.  Lazy expiration is invisible.  The server deletes an expired key when a command comes across it, or when the
  active expiration cycle happens to sample it, at any time between two commands.  For every sequence of
  commands without \<open>PERSIST\<close>, with cycles in between and times that never go back, the replies and the selected
  database are those of a server on which all expired keys are gone before every command, and the databases
  differ only in keys that have expired by the end.
\<close>

theorem lazy_expiration_invisible:
  assumes "sorted (map fst es)" and "\<forall>x \<in> set es. 0 \<le> fst x \<and> fst x \<le> t" and "0 \<le> t"
    and "\<forall>key. Command (Persist key) \<notin> snd ` set es" and "\<forall>j key v w. d j key = Some (v, Some w) \<longrightarrow> 0 \<le> w"
  shows "map_option (\<lambda>(d', db', rs). (purge cf t d', db', rs)) (key_run cf es db d)
    = map_option (\<lambda>(d', db', rs). (purge cf t d', db', rs)) (eager_run cf es db d)"
  using run_purge [of es 0 t cf d d db] assms by (simp add: times_ok_def view_def [abs_def] split_def)

theorem lazy_expiration_invisible_witness:
  "let d = (\<lambda>_. Map.empty)(0 := [[107] \<mapsto> (7 :: nat, Some 10)]);
       es = [(5, Command (Exists [[107]])), (20, Cycle 0 [107]), (21, Command (Exists [[107]]))]
   in map_option (\<lambda>(d', db', rs). (purge small_conf 30 d', db', rs)) (key_run small_conf es 0 d)
        = map_option (\<lambda>(d', db', rs). (purge small_conf 30 d', db', rs)) (eager_run small_conf es 0 d)
      \<and> map_option (snd \<circ> snd) (key_run small_conf es 0 d) = Some [KInt 1, KInt 0]"
proof -
  let ?d = "(\<lambda>_. Map.empty)(0 := [[107 :: 8 word] \<mapsto> (7 :: nat, Some (10 :: int))])"
  let ?es = "[(5, Command (Exists [[107]])), (20, Cycle 0 [107]), (21, Command (Exists [[107]]))]"
  have "map_option (\<lambda>(d', db', rs). (purge small_conf 30 d', db', rs)) (key_run small_conf ?es 0 ?d)
        = map_option (\<lambda>(d', db', rs). (purge small_conf 30 d', db', rs)) (eager_run small_conf ?es 0 ?d)"
    by (rule lazy_expiration_invisible) auto
  moreover have "map_option (snd \<circ> snd) (key_run small_conf ?es 0 ?d) = Some [KInt 1, KInt 0]"
    by (simp add: small_conf_def existsCommand_def expireIfNeeded_def getExpire_def activeExpireCycleTryExpire_def dbDelete_def Let_def)
  ultimately show ?thesis by (simp add: Let_def)
qed

end
