(* ===== verification/Bitops.thy ===== *)
theory Bitops
  imports Util Bits
begin

unbundle bit_operations_syntax

text \<open>
  \<^verbatim>\<open>bitops.c\<close>: the routines under the bit commands.  A string is its list of bytes; \<open>addr\<close> is the address at
  which it starts, on which the loops that read whole words depend.  An \<open>uint64_t\<close> is a 64 bit word, an
  \<open>int64_t\<close> the integer it stands for; sums and differences of \<open>int64_t\<close> values wrap around, as the
  comments of the source expect, and a shift by the width of the type or more, an access outside the
  string and a panic are \<open>None\<close>.
\<close>

section \<open>Counting bits\<close>

definition bitsinbyte :: "nat list" where
  "bitsinbyte = [
0, 1, 1, 2, 1, 2, 2, 3, 1, 2, 2, 3, 2, 3, 3, 4, 1, 2, 2, 3, 2, 3, 3, 4, 2, 3, 3, 4, 3, 4, 4, 5, 1, 2, 2, 3, 
2, 3, 3, 4, 2, 3, 3, 4, 3, 4, 4, 5, 2, 3, 3, 4, 3, 4, 4, 5, 3, 4, 4, 5, 4, 5, 5, 6, 1, 2, 2, 3, 2, 3, 3, 4, 
2, 3, 3, 4, 3, 4, 4, 5, 2, 3, 3, 4, 3, 4, 4, 5, 3, 4, 4, 5, 4, 5, 5, 6, 2, 3, 3, 4, 3, 4, 4, 5, 3, 4, 4, 5, 
4, 5, 5, 6, 3, 4, 4, 5, 4, 5, 5, 6, 4, 5, 5, 6, 5, 6, 6, 7, 1, 2, 2, 3, 2, 3, 3, 4, 2, 3, 3, 4, 3, 4, 4, 5, 
2, 3, 3, 4, 3, 4, 4, 5, 3, 4, 4, 5, 4, 5, 5, 6, 2, 3, 3, 4, 3, 4, 4, 5, 3, 4, 4, 5, 4, 5, 5, 6, 3, 4, 4, 5, 
4, 5, 5, 6, 4, 5, 5, 6, 5, 6, 6, 7, 2, 3, 3, 4, 3, 4, 4, 5, 3, 4, 4, 5, 4, 5, 5, 6, 3, 4, 4, 5, 4, 5, 5, 6, 
4, 5, 5, 6, 5, 6, 6, 7, 3, 4, 4, 5, 4, 5, 5, 6, 4, 5, 5, 6, 5, 6, 6, 7, 4, 5, 5, 6, 5, 6, 6, 7, 5, 6, 6, 7, 
6, 7, 7, 8]"

fun popcount_align :: "nat \<Rightarrow> bytes \<Rightarrow> nat \<Rightarrow> bytes \<times> nat" where
  "popcount_align addr [] bits = ([], bits)"
| "popcount_align addr (b # p) bits =
     (if addr AND 3 \<noteq> 0 then popcount_align (addr + 1) p (bits + bitsinbyte ! unat b)
      else (b # p, bits))"

text \<open>Reading an \<open>uint32_t\<close> and an \<open>unsigned long\<close> at the start of \<open>p\<close>.\<close>

definition load32 :: "bytes \<Rightarrow> u32 option" where
  "load32 p = (if length p < 4 then None else Some (of_nat (le_nat (take 4 p))))"

definition load64 :: "bytes \<Rightarrow> u64 option" where
  "load64 p = (if length p < 8 then None else Some (of_nat (le_nat (take 8 p))))"

text \<open>The two steps that leave the number of bits of each group of four bits, and the one that adds the groups of a byte.\<close>

definition popcount_fold :: "u32 \<Rightarrow> u32" where
  "popcount_fold aux =
     (let a = aux - (drop_bit 1 aux AND 0x55555555)
      in (a AND 0x33333333) + (drop_bit 2 a AND 0x33333333))"

definition popcount_bytes :: "u32 \<Rightarrow> u32" where
  "popcount_bytes aux = (aux + drop_bit 4 aux) AND 0x0F0F0F0F"

definition popcount_28 :: "bytes \<Rightarrow> nat option" where
  "popcount_28 p = do {
     aux1 \<leftarrow> load32 p;
     aux2 \<leftarrow> load32 (drop 4 p);
     aux3 \<leftarrow> load32 (drop 8 p);
     aux4 \<leftarrow> load32 (drop 12 p);
     aux5 \<leftarrow> load32 (drop 16 p);
     aux6 \<leftarrow> load32 (drop 20 p);
     aux7 \<leftarrow> load32 (drop 24 p);
     let sum = popcount_bytes (popcount_fold aux1) + popcount_bytes (popcount_fold aux2) + popcount_bytes (popcount_fold aux3)
       + popcount_bytes (popcount_fold aux4) + popcount_bytes (popcount_fold aux5) + popcount_bytes (popcount_fold aux6)
       + popcount_bytes (popcount_fold aux7);
     Some (unat (drop_bit 24 (sum * 0x01010101)))}"

function popcount_words :: "bytes \<Rightarrow> nat \<Rightarrow> (bytes \<times> nat) option" where
  "popcount_words p bits =
     (if length p \<ge> 28 then do {
        n \<leftarrow> popcount_28 p;
        popcount_words (drop 28 p) (bits + n)}
      else Some (p, bits))"
  by pat_completeness auto
termination
  by (relation "measure (\<lambda>(p, bits). length p)") auto

declare popcount_words.simps [simp del]

definition redisPopcount :: "nat \<Rightarrow> bytes \<Rightarrow> nat option" where
  "redisPopcount addr s = do {
     let (p, bits) = popcount_align addr s 0;
     (p', bits') \<leftarrow> popcount_words p bits;
     Some (foldl (\<lambda>n b. n + bitsinbyte ! unat b) bits' p')}"


section \<open>Finding a bit\<close>

fun bitpos_align :: "nat \<Rightarrow> bytes \<Rightarrow> byte \<Rightarrow> int \<Rightarrow> bytes \<times> int" where
  "bitpos_align addr [] skipval pos = ([], pos)"
| "bitpos_align addr (b # c) skipval pos =
     (if addr AND 7 \<noteq> 0 \<and> b = skipval then bitpos_align (addr + 1) c skipval (pos + 8)
      else (b # c, pos))"

function bitpos_words :: "bytes \<Rightarrow> u64 \<Rightarrow> int \<Rightarrow> (bytes \<times> int) option" where
  "bitpos_words l skipval pos =
     (if length l \<ge> 8 then do {
        w \<leftarrow> load64 l;
        (if w \<noteq> skipval then Some (l, pos) else bitpos_words (drop 8 l) skipval (pos + 64))}
      else Some (l, pos))"
  by pat_completeness auto
termination
  by (relation "measure (\<lambda>(l, skipval, pos). length l)") auto

declare bitpos_words.simps [simp del]

text \<open>The next \<open>j\<close> bytes shifted into \<open>word\<close>, zeros after the end.\<close>

fun bitpos_load :: "nat \<Rightarrow> bytes \<Rightarrow> u64 \<Rightarrow> u64" where
  "bitpos_load 0 c word = word"
| "bitpos_load (Suc j) [] word = bitpos_load j [] (push_bit 8 word)"
| "bitpos_load (Suc j) (b # c) word = bitpos_load j c (push_bit 8 word OR ucast b)"

function bitpos_scan :: "u64 \<Rightarrow> u64 \<Rightarrow> nat \<Rightarrow> int \<Rightarrow> int option" where
  "bitpos_scan one word b pos =
     (if one = 0 then None
      else if of_bool (one AND word \<noteq> 0) = b then Some pos
      else bitpos_scan (drop_bit 1 one) word b (pos + 1))"
  by pat_completeness auto
termination
  by (relation "measure (\<lambda>(one, word, b, pos). unat one)")
    (auto simp: unat_div drop_bit_eq_div unat_gt_0 intro!: div_less_dividend)

declare bitpos_scan.simps [simp del]

definition redisBitpos :: "nat \<Rightarrow> bytes \<Rightarrow> nat \<Rightarrow> int option" where
  "redisBitpos addr s b = do {
     let (c, pos) = bitpos_align addr s (if b \<noteq> 0 then 0 else 0xFF) 0;
     (l, pos') \<leftarrow> bitpos_words c (if b \<noteq> 0 then 0 else NOT 0) pos;
     let word = bitpos_load 8 l 0;
     let one = NOT (drop_bit 1 (NOT 0));
     (if b = 1 \<and> word = 0 then Some (-1)
      else bitpos_scan one word b pos')}"


section \<open>Integers inside a string\<close>

text \<open>\<open>x << n\<close> on \<open>uint64_t\<close>.\<close>

definition shl64 :: "u64 \<Rightarrow> nat \<Rightarrow> u64 option" where
  "shl64 x n = (if n < 64 then Some (push_bit n x) else None)"

text \<open>\<open>(uint64_t)1 << (bits-1)\<close>, where \<open>bits\<close> is unsigned.\<close>

definition top_bit :: "nat \<Rightarrow> u64 option" where
  "top_bit bits = (if bits = 0 then None else shl64 1 (bits - 1))"

fun setUnsignedBitfield :: "bytes \<Rightarrow> nat \<Rightarrow> nat \<Rightarrow> u64 \<Rightarrow> bytes option" where
  "setUnsignedBitfield p offset 0 v = Some p"
| "setUnsignedBitfield p offset (Suc n) v =
     (case shl64 1 n of None \<Rightarrow> None
      | Some tb \<Rightarrow>
        let bitval = (v AND tb \<noteq> 0);
            i = drop_bit 3 offset;
            k = 7 - (offset AND 7)
        in if i < length p then
             setUnsignedBitfield (p[i := (p ! i AND NOT (push_bit k 1)) OR push_bit k (of_bool bitval)]) (offset + 1) n v
           else None)"

definition setSignedBitfield :: "bytes \<Rightarrow> nat \<Rightarrow> nat \<Rightarrow> int \<Rightarrow> bytes option" where
  "setSignedBitfield p offset bits v = setUnsignedBitfield p offset bits (of_int v)"

fun getUnsigned_loop :: "bytes \<Rightarrow> nat \<Rightarrow> nat \<Rightarrow> u64 \<Rightarrow> u64 option" where
  "getUnsigned_loop p offset 0 v = Some v"
| "getUnsigned_loop p offset (Suc n) v =
     (let i = drop_bit 3 offset;
          k = 7 - (offset AND 7)
      in if i < length p then
           getUnsigned_loop p (offset + 1) n (push_bit 1 v OR (ucast (drop_bit k (p ! i)) AND 1))
         else None)"

definition getUnsignedBitfield :: "bytes \<Rightarrow> nat \<Rightarrow> nat \<Rightarrow> u64 option" where
  "getUnsignedBitfield p offset bits = getUnsigned_loop p offset bits 0"

definition getSignedBitfield :: "bytes \<Rightarrow> nat \<Rightarrow> nat \<Rightarrow> int option" where
  "getSignedBitfield p offset bits = do {
     u \<leftarrow> getUnsignedBitfield p offset bits;
     tb \<leftarrow> top_bit bits;
     (if u AND tb \<noteq> 0 then do {
        high \<leftarrow> shl64 (NOT 0) bits;
        Some (sint (u OR high))}
      else Some (sint u))}"

datatype owtype = BFOVERFLOW_WRAP | BFOVERFLOW_SAT | BFOVERFLOW_FAIL

text \<open>\<open>limit\<close> is the content of \<open>*limit\<close> before the call; the result is the return value and \<open>*limit\<close> after it.\<close>

definition checkUnsignedBitfieldOverflow ::
    "u64 \<Rightarrow> int \<Rightarrow> nat \<Rightarrow> owtype \<Rightarrow> u64 \<Rightarrow> (int \<times> u64) option" where
  "checkUnsignedBitfieldOverflow v incr bits ow limit = do {
     mx \<leftarrow> (if bits = 64 then Some (NOT 0) else map_option (\<lambda>x. x - 1) (shl64 1 bits));
     let maxincr = sint (mx - v);
     let minincr = sint (- v);
     let wrap = do { msk \<leftarrow> shl64 (NOT 0) bits; Some (1, (v + of_int incr) AND NOT msk) };
     (if v > mx \<or> incr > 0 \<and> incr > maxincr then
        (case ow of BFOVERFLOW_WRAP \<Rightarrow> wrap | BFOVERFLOW_SAT \<Rightarrow> Some (1, mx) | BFOVERFLOW_FAIL \<Rightarrow> Some (1, limit))
      else if incr < 0 \<and> incr < minincr then
        (case ow of BFOVERFLOW_WRAP \<Rightarrow> wrap | BFOVERFLOW_SAT \<Rightarrow> Some (-1, 0) | BFOVERFLOW_FAIL \<Rightarrow> Some (-1, limit))
      else Some (0, limit))}"

definition checkSignedBitfieldOverflow ::
    "int \<Rightarrow> int \<Rightarrow> nat \<Rightarrow> owtype \<Rightarrow> int \<Rightarrow> (int \<times> int) option" where
  "checkSignedBitfieldOverflow v incr bits ow limit = do {
     mx \<leftarrow> (if bits = 64 then Some LLONG_MAX else map_option (\<lambda>x. sint x - 1) (top_bit bits));
     let mn = - mx - 1;
     let maxincr = to_signed 64 (mx - v);
     let minincr = to_signed 64 (mn - v);
     let wrap = do {
       msk \<leftarrow> shl64 (NOT 0) bits;
       msb \<leftarrow> top_bit bits;
       let c = of_int v + of_int incr;
       Some (1, sint (if c AND msb \<noteq> 0 then c OR msk else c AND NOT msk))};
     (if v > mx \<or> (bits \<noteq> 64 \<and> incr > maxincr) \<or> (v \<ge> 0 \<and> incr > 0 \<and> incr > maxincr) then
        (case ow of BFOVERFLOW_WRAP \<Rightarrow> wrap | BFOVERFLOW_SAT \<Rightarrow> Some (1, mx) | BFOVERFLOW_FAIL \<Rightarrow> Some (1, limit))
      else if v < mn \<or> (bits \<noteq> 64 \<and> incr < minincr) \<or> (v < 0 \<and> incr < 0 \<and> incr < minincr) then
        (case ow of BFOVERFLOW_WRAP \<Rightarrow> wrap | BFOVERFLOW_SAT \<Rightarrow> Some (-1, mn) | BFOVERFLOW_FAIL \<Rightarrow> Some (-1, limit))
      else Some (0, limit))}"

section \<open>The operations of \<open>BITFIELD\<close>\<close>

datatype bf_opcode = BITFIELDOP_GET | BITFIELDOP_SET | BITFIELDOP_INCRBY

record bitfieldOp =
  bf_offset :: nat
  bf_i64 :: int
  bf_opcode :: bf_opcode
  bf_owtype :: owtype
  bf_bits :: nat
  bf_sign :: bool

text \<open>
  \<open>SET\<close> and \<open>INCRBY\<close> on the contents \<open>p\<close> of the string object: the reply, \<open>None\<close> for the null bulk, and the contents
  after it.  \<open>u\<close> is the value of the uninitialised variable \<open>wrapped\<close>.
\<close>

definition bitfield_signed :: "int \<Rightarrow> bitfieldOp \<Rightarrow> bytes \<Rightarrow> (int option \<times> bytes) option" where
  "bitfield_signed u op p = do {
     oldval \<leftarrow> getSignedBitfield p (bf_offset op) (bf_bits op);
     (newval, overflow, retval) \<leftarrow>
       (if bf_opcode op = BITFIELDOP_INCRBY then do {
          (overflow, wrapped) \<leftarrow> checkSignedBitfieldOverflow oldval (bf_i64 op) (bf_bits op) (bf_owtype op) u;
          let newval = (if overflow \<noteq> 0 then wrapped else to_signed 64 (oldval + bf_i64 op));
          Some (newval, overflow, newval)}
        else do {
          (overflow, wrapped) \<leftarrow> checkSignedBitfieldOverflow (bf_i64 op) 0 (bf_bits op) (bf_owtype op) u;
          Some (if overflow \<noteq> 0 then wrapped else bf_i64 op, overflow, oldval)});
     (if \<not> (overflow \<noteq> 0 \<and> bf_owtype op = BFOVERFLOW_FAIL) then do {
        p' \<leftarrow> setSignedBitfield p (bf_offset op) (bf_bits op) newval;
        Some (Some retval, p')}
      else Some (None, p))}"

definition bitfield_unsigned :: "u64 \<Rightarrow> bitfieldOp \<Rightarrow> bytes \<Rightarrow> (int option \<times> bytes) option" where
  "bitfield_unsigned u op p = do {
     oldval \<leftarrow> getUnsignedBitfield p (bf_offset op) (bf_bits op);
     (newval, overflow, retval) \<leftarrow>
       (if bf_opcode op = BITFIELDOP_INCRBY then do {
          (overflow, wrapped) \<leftarrow> checkUnsignedBitfieldOverflow oldval (bf_i64 op) (bf_bits op) (bf_owtype op) u;
          let newval = (if overflow \<noteq> 0 then wrapped else oldval + of_int (bf_i64 op));
          Some (newval, overflow, newval)}
        else do {
          (overflow, wrapped) \<leftarrow> checkUnsignedBitfieldOverflow (of_int (bf_i64 op)) 0 (bf_bits op) (bf_owtype op) u;
          Some (if overflow \<noteq> 0 then wrapped else of_int (bf_i64 op), overflow, oldval)});
     (if \<not> (overflow \<noteq> 0 \<and> bf_owtype op = BFOVERFLOW_FAIL) then do {
        p' \<leftarrow> setUnsignedBitfield p (bf_offset op) (bf_bits op) newval;
        Some (Some (sint retval), p')}
      else Some (None, p))}"

text \<open>\<open>GET\<close> copies up to nine bytes into a buffer of zeros.\<close>

definition bitfield_get :: "bitfieldOp \<Rightarrow> bytes \<Rightarrow> int option" where
  "bitfield_get op p =
     (let byte = drop_bit 3 (bf_offset op);
          buf = map (\<lambda>i. if i + byte \<ge> length p then 0 else p ! (i + byte)) [0..<9]
      in if bf_sign op then getSignedBitfield buf (bf_offset op - byte * 8) (bf_bits op)
         else map_option sint (getUnsignedBitfield buf (bf_offset op - byte * 8) (bf_bits op)))"

definition bitfield_op :: "u64 \<Rightarrow> bitfieldOp \<Rightarrow> bytes \<Rightarrow> (int option \<times> bytes) option" where
  "bitfield_op u op p =
     (if bf_opcode op = BITFIELDOP_GET then map_option (\<lambda>v. (Some v, p)) (bitfield_get op p)
      else if bf_sign op then bitfield_signed (sint u) op p
      else bitfield_unsigned u op p)"

fun bitfield_loop :: "u64 \<Rightarrow> bitfieldOp list \<Rightarrow> bytes \<Rightarrow> (int option list \<times> bytes) option" where
  "bitfield_loop u [] p = Some ([], p)"
| "bitfield_loop u (op # ops) p = do {
     (r, p1) \<leftarrow> bitfield_op u op p;
     (rs, p2) \<leftarrow> bitfield_loop u ops p1;
     Some (r # rs, p2)}"

text \<open>The offset that the operations parsed last leave, and the string grown up to it.\<close>

definition highest_write_offset :: "bitfieldOp list \<Rightarrow> nat" where
  "highest_write_offset ops =
     fold (\<lambda>op h. if bf_opcode op \<noteq> BITFIELDOP_GET then bf_offset op + bf_bits op - 1 else h) ops 0"

definition lookupStringForBitCommand :: "nat \<Rightarrow> bytes \<Rightarrow> bytes" where
  "lookupStringForBitCommand maxbit p = p @ replicate (drop_bit 3 maxbit + 1 - length p) 0"

definition bitfieldCommand :: "u64 \<Rightarrow> bitfieldOp list \<Rightarrow> bytes \<Rightarrow> (int option list \<times> bytes) option" where
  "bitfieldCommand u ops p =
     (let readonly = (\<forall>op \<in> set ops. bf_opcode op = BITFIELDOP_GET)
      in bitfield_loop u ops (if readonly then p else lookupStringForBitCommand (highest_write_offset ops) p))"

end
