(* ===== verification/BitopsCount.thy ===== *)
theory BitopsCount
  imports Bitops
begin

unbundle bit_operations_syntax

text \<open>
  The population count and the search for a bit of \<^verbatim>\<open>bitops.c\<close> against the string read as a list of
  bits, the most significant bit of each byte first.
\<close>

definition byte_bits :: "byte \<Rightarrow> bool list" where
  "byte_bits b = map (bit b) [7, 6, 5, 4, 3, 2, 1, 0]"

definition str_bits :: "bytes \<Rightarrow> bool list" where
  "str_bits s = concat (map byte_bits s)"

lemma length_byte_bits [simp]: "length (byte_bits b) = 8"
  by (simp add: byte_bits_def)

lemma str_bits_simps [simp]: "str_bits [] = []" "str_bits (b # s) = byte_bits b @ str_bits s"
    "str_bits (s @ t) = str_bits s @ str_bits t"
  by (simp_all add: str_bits_def)

lemma length_str_bits [simp]: "length (str_bits s) = 8 * length s"
  by (induction s) simp_all

definition ones :: "bool list \<Rightarrow> nat" where
  "ones bs = length (filter id bs)"

lemma ones_append [simp]: "ones (xs @ ys) = ones xs + ones ys" "ones [] = 0"
  by (simp_all add: ones_def)

section \<open>The population count\<close>

lemma bitsinbyte_rows:
  "list_all (\<lambda>i. bitsinbyte ! i = ones (byte_bits (of_nat i))) [0..<256]"
  by code_simp

lemma bitsinbyte_ones: "bitsinbyte ! unat b = ones (byte_bits b)"
proof -
  have "bitsinbyte ! unat b = ones (byte_bits (of_nat (unat b)))"
    using bitsinbyte_rows unat_byte_less [of b] unfolding list_all_iff set_upt by auto
  then show ?thesis by simp
qed


text \<open>The same steps on one byte.\<close>

definition pairs :: "nat \<Rightarrow> nat" where
  "pairs a = a - (drop_bit 1 a AND 0x55)"

definition quads :: "nat \<Rightarrow> nat" where
  "quads a = (pairs a AND 0x33) + (drop_bit 2 (pairs a) AND 0x33)"

lemma byte_steps:
  "list_all (\<lambda>a :: int. let p = a - (drop_bit 1 a AND 0x55); q = (p AND 0x33) + (drop_bit 2 p AND 0x33) in
     0 \<le> p \<and> q mod 16 \<le> 4 \<and> q div 16 \<le> 4 \<and> q mod 16 + q div 16 = int (ones (byte_bits (of_int a)))) [0..255]"
  by code_simp

lemma byte_step:
  assumes "a < 256"
  shows "drop_bit 1 a AND 0x55 \<le> a" and "quads a mod 16 \<le> 4" and "quads a div 16 \<le> 4"
    and "quads a mod 16 + quads a div 16 = ones (byte_bits (of_nat a))"
proof -
  define p where "p = int a - (drop_bit 1 (int a) AND 0x55)"
  define q where "q = (p AND 0x33) + (drop_bit 2 p AND 0x33)"
  have "int a \<in> set [0..255]" using assms by simp
  then have t: "0 \<le> p" "q mod 16 \<le> 4" "q div 16 \<le> 4" "q mod 16 + q div 16 = int (ones (byte_bits (of_int (int a))))"
    using byte_steps unfolding list_all_iff Let_def q_def p_def by blast+
  have d: "int (drop_bit 1 a AND 0x55) = drop_bit 1 (int a) AND 0x55"
    by (simp add: of_nat_and_eq of_nat_drop_bit)
  then show le: "drop_bit 1 a AND 0x55 \<le> a" using t(1) unfolding p_def by linarith
  have pe: "p = int (pairs a)" using d le by (simp add: p_def pairs_def)
  have qe: "q = int (quads a)" unfolding q_def pe quads_def
    by (simp add: of_nat_and_eq of_nat_drop_bit)
  show "quads a mod 16 \<le> 4" "quads a div 16 \<le> 4" "quads a mod 16 + quads a div 16 = ones (byte_bits (of_nat a))"
    using t(2,3,4) zmod_int [of "quads a" 16] zdiv_int [of "quads a" 16] unfolding qe by simp_all
qed


lemma bit_below: "m < 2 ^ n \<Longrightarrow> bit (m :: nat) i \<Longrightarrow> i < n"
  by (metis bit_take_bit_iff take_bit_nat_eq_self)

lemma bit_low_high:
  assumes "a < 256"
  shows "bit (a + 256 * n) i \<longleftrightarrow> (if i < 8 then bit a i else bit (n :: nat) (i - 8))"
proof -
  have "a + 256 * n = push_bit 8 n OR a" using join_bytes [OF assms, of n] by simp
  then show ?thesis using bit_below [of a 8 i] assms by (auto simp: bit_simps)
qed

lemma and_small: "m < 2 ^ n \<Longrightarrow> (x AND m :: nat) < 2 ^ n"
proof -
  assume m: "m < 2 ^ n"
  have "take_bit n (x AND m) = x AND m" by (intro bit_eqI) (auto simp: bit_simps dest: bit_below [OF m])
  then show ?thesis by (metis take_bit_nat_less_exp)
qed

lemma field_and:
  assumes a: "a < 256" and m: "m < 2 ^ (8 - k)" and k: "k \<le> 8"
  shows "drop_bit k (a + 256 * n) AND (m + 256 * w) = (drop_bit k a AND m) + 256 * (drop_bit k n AND (w :: nat))"
proof (rule bit_eqI)
  fix i
  have m8: "m < 256" using m power_increasing [of "8 - k" 8 "2 :: nat"] by simp
  have x: "drop_bit k a AND m < 256" using and_small [of m 8] m8 by simp
  have "i < 8 - k" if "bit m i" using that bit_below [OF m] by blast
  then show "bit (drop_bit k (a + 256 * n) AND (m + 256 * w)) i \<longleftrightarrow>
      bit ((drop_bit k a AND m) + 256 * (drop_bit k n AND w)) i"
    by (auto simp: bit_and_iff bit_drop_bit_eq bit_low_high [OF a] bit_low_high [OF m8] bit_low_high [OF x] add.commute)
qed

definition four :: "nat \<Rightarrow> nat \<Rightarrow> nat \<Rightarrow> nat \<Rightarrow> nat" where
  "four a b c d = a + 256 * (b + 256 * (c + 256 * d))"

lemma four_and:
  assumes "a < 256" "b < 256" "c < 256" "d < 256" and "m < 2 ^ (8 - k)" and "k \<le> 8"
  shows "drop_bit k (four a b c d) AND four m m m m =
    four (drop_bit k a AND m) (drop_bit k b AND m) (drop_bit k c AND m) (drop_bit k d AND m)"
  unfolding four_def using assms by (simp only: field_and)

lemma four_less: "a < 256 \<Longrightarrow> b < 256 \<Longrightarrow> c < 256 \<Longrightarrow> d < 256 \<Longrightarrow> four a b c d < 2 ^ 32"
  by (simp add: four_def)


lemma four_diff:
  "a' \<le> a \<Longrightarrow> b' \<le> b \<Longrightarrow> c' \<le> c \<Longrightarrow> d' \<le> d \<Longrightarrow>
    four a b c d - four a' b' c' d' = four (a - a') (b - b') (c - c') (d - d')"
  by (auto simp: four_def le_iff_add)

lemma four_const: "unat (0x55555555 :: u32) = four 0x55 0x55 0x55 0x55" "unat (0x33333333 :: u32) = four 0x33 0x33 0x33 0x33"
    "unat (0x0F0F0F0F :: u32) = four 0x0F 0x0F 0x0F 0x0F"
  by (simp_all add: four_def)

lemma unat_add_less: "unat (x :: u32) + unat y < 2 ^ 32 \<Longrightarrow> unat (x + y) = unat x + unat y"
  by (simp add: unat_word_ariths)

lemma unat_and_drop: "unat (drop_bit k (w :: u32) AND m) = drop_bit k (unat w) AND unat m"
  by (simp add: unsigned_and_eq unat_drop_bit_eq del: drop_bit_eq_div)

lemma fold_pairs:
  assumes w: "unat (w :: u32) = four a b c d" and lt: "a < 256" "b < 256" "c < 256" "d < 256"
  shows "unat (w - (drop_bit 1 w AND 0x55555555)) = four (pairs a) (pairs b) (pairs c) (pairs d)"
proof -
  have m: "unat (drop_bit 1 w AND 0x55555555) =
      four (drop_bit 1 a AND 0x55) (drop_bit 1 b AND 0x55) (drop_bit 1 c AND 0x55) (drop_bit 1 d AND 0x55)"
    unfolding unat_and_drop w four_const by (rule four_and [OF lt]) simp_all
  note le = byte_step(1) [OF lt(1)] byte_step(1) [OF lt(2)] byte_step(1) [OF lt(3)] byte_step(1) [OF lt(4)]
  have "unat (drop_bit 1 w AND 0x55555555) \<le> unat w" unfolding m w four_def using le by (intro add_mono mult_mono) auto
  then have "unat (w - (drop_bit 1 w AND 0x55555555)) = unat w - unat (drop_bit 1 w AND 0x55555555)"
    by (intro unat_sub) (simp add: word_le_nat_alt)
  also have "\<dots> = four (pairs a) (pairs b) (pairs c) (pairs d)"
    unfolding m w pairs_def using le by (rule four_diff)
  finally show ?thesis .
qed

lemma quads_less: "a < 256 \<Longrightarrow> quads a < 0x45"
  using byte_step(2,3) [of a] div_mult_mod_eq [of "quads a" 16] by linarith

lemma unat_popcount_fold:
  assumes w: "unat w = four a b c d" and lt: "a < 256" "b < 256" "c < 256" "d < 256"
  shows "unat (popcount_fold w) = four (quads a) (quads b) (quads c) (quads d)"
proof -
  let ?w = "w - (drop_bit 1 w AND 0x55555555)"
  have p: "unat ?w = four (pairs a) (pairs b) (pairs c) (pairs d)" by (rule fold_pairs [OF assms])
  have pl: "pairs a < 256" "pairs b < 256" "pairs c < 256" "pairs d < 256" using lt by (simp_all add: pairs_def)
  have x: "unat (?w AND 0x33333333) = four (pairs a AND 0x33) (pairs b AND 0x33) (pairs c AND 0x33) (pairs d AND 0x33)"
    unfolding unsigned_and_eq p four_const using four_and [OF pl, of "0x33" 0] by simp
  have y: "unat (drop_bit 2 ?w AND 0x33333333) =
      four (drop_bit 2 (pairs a) AND 0x33) (drop_bit 2 (pairs b) AND 0x33) (drop_bit 2 (pairs c) AND 0x33) (drop_bit 2 (pairs d) AND 0x33)"
    unfolding unat_and_drop p four_const by (rule four_and [OF pl]) simp_all
  have s: "unat (?w AND 0x33333333) + unat (drop_bit 2 ?w AND 0x33333333) = four (quads a) (quads b) (quads c) (quads d)"
    unfolding x y by (simp add: four_def quads_def)
  also have "\<dots> < 2 ^ 32" using lt quads_less by (intro four_less) force+
  finally show ?thesis unfolding popcount_fold_def Let_def using s by (simp only: unat_add_less)
qed


lemma low_nibble: "l + h < 16 \<Longrightarrow> (16 * x + (l + h)) AND 0x0F = (l + h :: nat)"
  using take_bit_eq_mod [of 4 "16 * x + (l + h)"] by (simp add: take_bit_eq_mask mask_eq_exp_minus_1)

lemma unat_popcount_bytes:
  assumes w: "unat w = four (quads a) (quads b) (quads c) (quads d)" and lt: "a < 256" "b < 256" "c < 256" "d < 256"
  shows "unat (popcount_bytes w) = four (ones (byte_bits (of_nat a))) (ones (byte_bits (of_nat b)))
    (ones (byte_bits (of_nat c))) (ones (byte_bits (of_nat d)))"
proof -
  define l h where "l = (\<lambda>x. quads x mod 16)" and "h = (\<lambda>x. quads x div 16)"
  have q: "quads x = 16 * h x + l x" for x by (simp add: l_def h_def)
  have le: "l x \<le> 4" "h x \<le> 4" "l x + h x = ones (byte_bits (of_nat x))" if "x < 256" for x
    using byte_step(2,3,4) [OF that] by (simp_all add: l_def h_def)
  define A B C D where "A = 16 * (h a + l b) + (l a + h a)" and "B = 16 * (h b + l c) + (l b + h b)"
    and "C = 16 * (h c + l d) + (l c + h c)" and "D = 16 * h d + (l d + h d)"
  have lt4: "A < 256" "B < 256" "C < 256" "D < 256"
    using le(1,2) [OF lt(1)] le(1,2) [OF lt(2)] le(1,2) [OF lt(3)] le(1,2) [OF lt(4)]
    by (simp_all add: A_def B_def C_def D_def)
  have dr: "drop_bit 4 (unat w) = h a + 16 * l b + 256 * (h b + 16 * l c + 256 * (h c + 16 * l d + 256 * h d))"
    using le(1) [OF lt(1)] unfolding w four_def drop_bit_eq_div q by simp
  have "unat w + unat (drop_bit 4 w) = four A B C D"
    unfolding unat_drop_bit_eq dr unfolding w four_def q A_def B_def C_def D_def by simp
  then have s: "unat (w + drop_bit 4 w) = four A B C D"
    using four_less [OF lt4] by (simp only: unat_add_less)
  have "unat (popcount_bytes w) = four (A AND 0x0F) (B AND 0x0F) (C AND 0x0F) (D AND 0x0F)"
    unfolding popcount_bytes_def unsigned_and_eq s four_const using four_and [OF lt4, of "0x0F" 0] by simp
  moreover have "A AND 0x0F = l a + h a" "B AND 0x0F = l b + h b" "C AND 0x0F = l c + h c" "D AND 0x0F = l d + h d"
    unfolding A_def B_def C_def D_def
    by (rule low_nibble, use le(1,2) [OF lt(1)] le(1,2) [OF lt(2)] le(1,2) [OF lt(3)] le(1,2) [OF lt(4)] in linarith)+
  ultimately show ?thesis using le(3) lt by simp
qed


definition ones_of :: "byte \<Rightarrow> nat" where
  "ones_of b = ones (byte_bits b)"

lemma ones_le: "ones_of b \<le> 8"
  using length_filter_le [of id "byte_bits b"] by (simp add: ones_of_def ones_def)

definition sum_ones :: "nat \<Rightarrow> bytes \<Rightarrow> nat" where
  "sum_ones n p = sum_list (map ones_of (take n p))"

lemma sum_ones_add: "sum_ones (m + n) p = sum_ones m p + sum_ones n (drop m p)"
  by (simp add: sum_ones_def take_add)

definition le32 :: "bytes \<Rightarrow> u32" where
  "le32 p = of_nat (le_nat (take 4 p))"

lemma load32_eq: "4 \<le> length p \<Longrightarrow> load32 p = Some (le32 p)"
  by (simp add: load32_def le32_def)

lemma popcount_word:
  assumes "length p \<ge> 4"
  obtains a b c d where "unat (popcount_bytes (popcount_fold (le32 p))) = four a b c d"
    "a \<le> 8" "b \<le> 8" "c \<le> 8" "d \<le> 8" "a + b + c + d = sum_ones 4 p"
proof -
  obtain a b c d q where p: "p = a # b # c # d # q"
    using assms by (auto simp: eval_nat_numeral Suc_le_length_iff)
  have le: "le_nat (take 4 p) = four (unat a) (unat b) (unat c) (unat d)"
    by (simp add: p four_def)
  then have w: "unat (le32 p) = four (unat a) (unat b) (unat c) (unat d)"
    using four_less [of "unat a" "unat b" "unat c" "unat d"] by (simp add: le32_def unat_of_nat unat_byte_less)
  show ?thesis
  proof (rule that)
    show "unat (popcount_bytes (popcount_fold (le32 p))) = four (ones_of a) (ones_of b) (ones_of c) (ones_of d)"
      using unat_popcount_bytes [OF unat_popcount_fold [OF w]] by (simp add: ones_of_def unat_byte_less)
    show "ones_of a + ones_of b + ones_of c + ones_of d = sum_ones 4 p" by (simp add: sum_ones_def p)
  qed (rule ones_le)+
qed

lemma top_byte:
  assumes w: "unat (w :: u32) = four a b c d" and s: "a + b + c + d < 256"
  shows "unat (drop_bit 24 (w * 0x01010101)) = a + b + c + d"
proof -
  have m: "unat w * 0x01010101 = (a + 256 * (a + b) + 65536 * (a + b + c)) + 2 ^ 24 * ((a + b + c + d) +
      256 * ((b + c + d) + 256 * (c + d) + 65536 * d))"
    unfolding w four_def by simp
  have lo: "a + 256 * (a + b) + 65536 * (a + b + c) < 2 ^ 24" using s by simp
  have "unat (w * 0x01010101) = unat w * 0x01010101 mod 2 ^ 32" by (simp add: unat_word_ariths)
  then have "unat (drop_bit 24 (w * 0x01010101)) = unat w * 0x01010101 mod 2 ^ 32 div 2 ^ 24"
    unfolding unat_drop_bit_eq by (simp only: drop_bit_eq_div)
  also have "\<dots> = unat w * 0x01010101 div 2 ^ 24 mod 2 ^ 8"
    using drop_bit_take_bit [of 24 32 "unat w * 0x01010101"] by (simp add: take_bit_eq_mod drop_bit_eq_div)
  also have "unat w * 0x01010101 div 2 ^ 24 = (a + b + c + d) + 256 * ((b + c + d) + 256 * (c + d) + 65536 * d)"
    unfolding m using lo by simp
  also have "\<dots> mod 2 ^ 8 = a + b + c + d" using s by (subst mod_add_right_eq [symmetric]) simp
  finally show ?thesis .
qed

lemma popcount_sum:
  assumes l: "length p \<ge> 28" and n: "n \<le> 7"
  shows "\<exists>a b c d. unat (\<Sum>i < n. popcount_bytes (popcount_fold (le32 (drop (4 * i) p)))) = four a b c d
    \<and> a \<le> 8 * n \<and> b \<le> 8 * n \<and> c \<le> 8 * n \<and> d \<le> 8 * n \<and> a + b + c + d = sum_ones (4 * n) p"
  using n
proof (induction n)
  case 0
  have "unat (0 :: u32) = four 0 0 0 0 \<and> 0 + 0 + 0 + 0 = sum_ones 0 p" by (simp add: four_def sum_ones_def)
  then show ?case by auto
next
  case (Suc n)
  define s where "s = (\<Sum>i < n. popcount_bytes (popcount_fold (le32 (drop (4 * i) p))))"
  define t where "t = popcount_bytes (popcount_fold (le32 (drop (4 * n) p)))"
  obtain a b c d where s: "unat s = four a b c d" "a \<le> 8 * n" "b \<le> 8 * n" "c \<le> 8 * n" "d \<le> 8 * n"
    "a + b + c + d = sum_ones (4 * n) p"
    using Suc unfolding s_def by auto
  have "4 \<le> length (drop (4 * n) p)" using l Suc.prems by simp
  then obtain a' b' c' d' where t: "unat t = four a' b' c' d'" "a' \<le> 8" "b' \<le> 8" "c' \<le> 8" "d' \<le> 8"
    "a' + b' + c' + d' = sum_ones 4 (drop (4 * n) p)"
    unfolding t_def by (rule popcount_word)
  have e: "unat s + unat t = four (a + a') (b + b') (c + c') (d + d')" by (simp add: s(1) t(1) four_def)
  have "four (a + a') (b + b') (c + c') (d + d') < 2 ^ 32" using s t Suc.prems by (intro four_less) simp_all
  then have "unat (s + t) = four (a + a') (b + b') (c + c') (d + d')" using e by (simp only: unat_add_less)
  moreover have "a + a' + (b + b') + (c + c') + (d + d') = sum_ones (4 * Suc n) p"
    using s(6) t(6) sum_ones_add [of "4 * n" 4 p] by (simp add: ac_simps)
  moreover have "(\<Sum>i < Suc n. popcount_bytes (popcount_fold (le32 (drop (4 * i) p)))) = s + t"
    by (simp add: s_def t_def)
  ultimately show ?case using s(2-5) t(2-5)
    by (intro exI [of _ "a + a'"] exI [of _ "b + b'"] exI [of _ "c + c'"] exI [of _ "d + d'"]) simp
qed

lemma popcount_28_correct:
  assumes l: "length p \<ge> 28"
  shows "popcount_28 p = Some (sum_ones 28 p)"
proof -
  obtain a b c d where s: "unat (\<Sum>i < 7. popcount_bytes (popcount_fold (le32 (drop (4 * i) p)))) = four a b c d"
    "a \<le> 56" "b \<le> 56" "c \<le> 56" "d \<le> 56" "a + b + c + d = sum_ones 28 p"
    using popcount_sum [OF l, of 7] by auto
  have "popcount_28 p = Some (unat (drop_bit 24 ((\<Sum>i < 7. popcount_bytes (popcount_fold (le32 (drop (4 * i) p)))) * 0x01010101)))"
    using l by (simp add: popcount_28_def load32_eq lessThan_nat_numeral lessThan_Suc Let_def ac_simps)
  then show ?thesis using top_byte [OF s(1)] s by simp
qed

lemma sum_ones_all: "sum_list (map ones_of p) = ones (str_bits p)"
  by (induction p) (simp_all add: ones_of_def)

lemma popcount_words_correct:
  "\<exists>p' n'. popcount_words p n = Some (p', n') \<and> n' + ones (str_bits p') = n + ones (str_bits p)"
proof (induction p n rule: popcount_words.induct)
  case (1 p n)
  show ?case
  proof (cases "28 \<le> length p")
    case True
    have k: "popcount_28 p = Some (ones (str_bits (take 28 p)))"
      by (simp add: popcount_28_correct [OF True] sum_ones_def sum_ones_all)
    obtain p' n' where "popcount_words p n = Some (p', n')"
        "n' + ones (str_bits p') = n + ones (str_bits (take 28 p)) + ones (str_bits (drop 28 p))"
      using 1 [OF True, of "ones (str_bits (take 28 p))"] True k by (auto simp: popcount_words.simps [of p])
    then show ?thesis using arg_cong [OF append_take_drop_id [of 28 p], of "\<lambda>p. ones (str_bits p)"]
      by (simp del: append_take_drop_id)
  next
    case False
    then show ?thesis using 1 by (simp add: popcount_words.simps [of p])
  qed
qed

lemma popcount_align_correct:
  "popcount_align addr p n = (p', n') \<Longrightarrow> n' + ones (str_bits p') = n + ones (str_bits p)"
  by (induction addr p n rule: popcount_align.induct) (auto simp: bitsinbyte_ones split: if_splits)

lemma popcount_tail_correct: "foldl (\<lambda>n b. n + bitsinbyte ! unat b) n p = n + ones (str_bits p)"
  by (induction p arbitrary: n) (simp_all add: bitsinbyte_ones)

lemma redisPopcount_correct: "redisPopcount addr s = Some (ones (str_bits s))"
proof -
  obtain p n where p: "popcount_align addr s 0 = (p, n)" by force
  obtain q m where q: "popcount_words p n = Some (q, m)" "m + ones (str_bits q) = n + ones (str_bits p)"
    using popcount_words_correct by blast
  show ?thesis using popcount_align_correct [OF p]
    by (simp add: redisPopcount_def p q popcount_tail_correct)
qed

end
