(* ===== verification/BitopsFind.thy ===== *)
theory BitopsFind
  imports BitopsCount
begin

unbundle bit_operations_syntax

text \<open>The search for the first bit of \<^verbatim>\<open>bitops.c\<close>, \<open>redisBitpos\<close>, against the list of the bits of the string.\<close>

definition word_bits :: "u64 \<Rightarrow> bool list" where
  "word_bits w = map (\<lambda>i. bit w (63 - i)) [0..<64]"

lemma length_word_bits [simp]: "length (word_bits w) = 64"
  by (simp add: word_bits_def)

lemma word_bits_nth: "i < 64 \<Longrightarrow> word_bits w ! i = bit w (63 - i)"
  by (simp add: word_bits_def)

lemma byte_bits_nth: "i < 8 \<Longrightarrow> byte_bits b ! i = bit b (7 - i)"
  by (auto simp: byte_bits_def numeral_eq_Suc less_Suc_eq nth_Cons')

lemma word_bits_shift: "word_bits (push_bit 8 w OR ucast b) = drop 8 (word_bits w) @ byte_bits b"
proof (rule nth_equalityI)
  fix i assume "i < length (word_bits (push_bit 8 w OR ucast b))"
  then have i: "i < 64" by simp
  show "word_bits (push_bit 8 w OR ucast b) ! i = (drop 8 (word_bits w) @ byte_bits b) ! i"
  proof (cases "i < 56")
    case True
    then have "63 - i - 8 = 63 - (8 + i)" by simp
    then show ?thesis using True by (auto simp: word_bits_nth nth_append bit_simps dest: bit_imp_le_length)
  next
    case False
    then have "7 - (i - 56) = 63 - i" by simp
    then show ?thesis using False i by (auto simp: word_bits_nth nth_append byte_bits_nth bit_simps)
  qed
qed simp

lemma byte_bits_zero: "byte_bits 0 = replicate 8 False" "byte_bits 0xFF = replicate 8 True"
  by (simp_all add: byte_bits_def numeral_eq_Suc) 

lemma bitpos_load_bits:
  "j \<le> 8 \<Longrightarrow> word_bits (bitpos_load j c w) =
     drop (8 * j) (word_bits w) @ take (8 * j) (str_bits c @ replicate 64 False)"
proof (induction j c w rule: bitpos_load.induct)
  case (2 j w)
  have "word_bits (push_bit 8 w) = drop 8 (word_bits w) @ replicate 8 False"
    using word_bits_shift [of w 0] by (simp add: byte_bits_zero)
  then show ?case using 2 by (simp add: add.commute flip: replicate_add)
next
  case (3 j b c w)
  then show ?case by (simp add: word_bits_shift add.commute)
qed simp

lemma word_of_string: "word_bits (bitpos_load 8 c 0) = take 64 (str_bits c @ replicate 64 False)"
  by (simp add: bitpos_load_bits)

lemma word_bits_zero: "w = 0 \<longleftrightarrow> True \<notin> set (word_bits w)"
proof
  assume "True \<notin> set (word_bits w)"
  then have "\<not> word_bits w ! i" if "i < 64" for i using that by (metis (full_types) length_word_bits nth_mem)
  then have nb: "\<not> bit w (63 - i)" if "i < 64" for i using that by (simp add: word_bits_nth)
  have "\<not> bit w i" if "i < 64" for i using nb [of "63 - i"] that by simp
  then show "w = 0" by (intro bit_word_eqI) simp
qed (auto simp: word_bits_def)


text \<open>The scan of the last word.\<close>

lemma bitpos_scan_from:
  assumes "k \<le> 64"
  shows "bitpos_scan (if k = 64 then 0 else push_bit (63 - k) 1) w b pos =
    (let n = length (takeWhile (\<lambda>x. of_bool x \<noteq> b) (drop k (word_bits w)))
     in if n < 64 - k then Some (pos + int n) else None)"
  using assms
proof (induction "64 - k" arbitrary: k pos)
  case 0
  then show ?case by (simp add: bitpos_scan.simps)
next
  case (Suc m)
  then have k: "k < 64" by simp
  let ?one = "push_bit (63 - k) 1 :: u64"
  have nz: "?one \<noteq> 0"
  proof
    assume "?one = 0"
    then have "\<not> bit ?one (63 - k)" by simp
    then show False using k by (simp add: bit_simps)
  qed
  have tst: "?one AND w \<noteq> 0 \<longleftrightarrow> bit w (63 - k)"
  proof
    assume "?one AND w \<noteq> 0"
    then obtain i where "bit (?one AND w) i" by (auto simp: bit_eq_iff)
    then show "bit w (63 - k)" by (auto simp: bit_simps)
  next
    assume "bit w (63 - k)"
    then have "bit (?one AND w) (63 - k)" using k by (simp add: bit_simps)
    then show "?one AND w \<noteq> 0" by auto
  qed
  have nxt: "drop_bit 1 ?one = (if Suc k = 64 then 0 else push_bit (63 - Suc k) 1)"
    using k by (intro bit_word_eqI) (auto simp: bit_simps)
  have d: "drop k (word_bits w) = bit w (63 - k) # drop (Suc k) (word_bits w)"
    using k by (simp add: Cons_nth_drop_Suc [symmetric] word_bits_nth)
  have IH: "bitpos_scan (drop_bit 1 ?one) w b (pos + 1) =
    (let n = length (takeWhile (\<lambda>x. of_bool x \<noteq> b) (drop (Suc k) (word_bits w)))
     in if n < 64 - Suc k then Some (pos + 1 + int n) else None)"
    unfolding nxt using Suc.hyps(1) [of "Suc k" "pos + 1"] Suc.hyps(2) k by simp
  have "bitpos_scan ?one w b pos = (if of_bool (bit w (63 - k)) = b then Some pos else bitpos_scan (drop_bit 1 ?one) w b (pos + 1))"
    by (subst bitpos_scan.simps) (simp only: nz tst if_False)
  then show ?case using k unfolding IH d Let_def by auto
qed

lemma first_mask: "NOT (drop_bit 1 (NOT 0)) = (push_bit 63 1 :: u64)"
  by code_simp

lemma bitpos_scan_word:
  "bitpos_scan (NOT (drop_bit 1 (NOT 0))) w b pos =
    (let n = length (takeWhile (\<lambda>x. of_bool x \<noteq> b) (word_bits w)) in if n < 64 then Some (pos + int n) else None)"
  unfolding first_mask using bitpos_scan_from [of 0 w b pos] by simp

text \<open>What the two loops skip.\<close>

lemma bitpos_align_skips:
  "bitpos_align addr c v pos = (c', pos') \<Longrightarrow> \<exists>n. c = replicate n v @ c' \<and> pos' = pos + 8 * int n"
proof (induction addr c v pos rule: bitpos_align.induct)
  case (2 addr b c v pos)
  show ?case
  proof (cases "addr AND 7 \<noteq> 0 \<and> b = v")
    case True
    then obtain n where "c = replicate n v @ c'" "pos' = pos + 8 + 8 * int n" using 2 by auto
    then have "b # c = replicate (Suc n) v @ c' \<and> pos' = pos + 8 * int (Suc n)" using True by simp
    then show ?thesis by blast
  next
    case False
    then show ?thesis using 2 by (intro exI [of _ 0]) auto
  qed
qed (auto intro: exI [of _ 0])

lemma word_eq_replicate:
  assumes "length l \<ge> 8"
  shows "of_nat (le_nat (take 8 l)) = (of_nat (le_nat (replicate 8 v)) :: u64) \<longleftrightarrow> take 8 l = replicate 8 v"
proof
  assume eq: "of_nat (le_nat (take 8 l)) = (of_nat (le_nat (replicate 8 v)) :: u64)"
  have lt: "le_nat (take 8 l) < 2 ^ 64" "le_nat (replicate 8 v) < 2 ^ 64"
    using le_nat_less [of "take 8 l"] le_nat_less [of "replicate 8 v"] assms by simp_all
  then have "le_nat (take 8 l) = le_nat (replicate 8 v)"
    using arg_cong [OF eq, of unat] by (simp add: unat_of_nat)
  then show "take 8 l = replicate 8 v"
    using assms by (metis le_bytes_le_nat length_replicate length_take min.absorb2)
qed simp


lemma bitpos_words_skips:
  "\<exists>l' pos' n. bitpos_words l (of_nat (le_nat (replicate 8 v))) pos = Some (l', pos') \<and>
    l = replicate n v @ l' \<and> pos' = pos + 8 * int n \<and> (length l' < 8 \<or> take 8 l' \<noteq> replicate 8 v)"
proof (induction l arbitrary: pos rule: measure_induct_rule [of length])
  case (less l)
  show ?case
  proof (cases "length l \<ge> 8 \<and> take 8 l = replicate 8 v")
    case True
    then have c: "length l \<ge> 8 \<and> load64 l = Some (of_nat (le_nat (replicate 8 v)) :: u64)" by (simp add: load64_def)
    then have "length (drop 8 l) < length l" by (cases l) auto
    from less.IH [OF this, of "pos + 64"] obtain l' pos' n where
        n: "bitpos_words (drop 8 l) (of_nat (le_nat (replicate 8 v))) (pos + 64) = Some (l', pos')"
        "drop 8 l = replicate n v @ l'" "pos' = pos + 64 + 8 * int n" "length l' < 8 \<or> take 8 l' \<noteq> replicate 8 v"
      by blast
    have w: "bitpos_words l (of_nat (le_nat (replicate 8 v))) pos = Some (l', pos')"
      using c n(1) by (subst bitpos_words.simps) simp
    have "l = replicate 8 v @ drop 8 l" using True append_take_drop_id [of 8 l] by simp
    then have "l = replicate (8 + n) v @ l' \<and> pos' = pos + 8 * int (8 + n)"
      using n by (simp add: replicate_add)
    then show ?thesis using w n(4) by blast
  next
    case False
    then have "\<not> (length l \<ge> 8 \<and> of_nat (le_nat (take 8 l)) = (of_nat (le_nat (replicate 8 v)) :: u64))"
      using word_eq_replicate [of l v] by blast
    then have "bitpos_words l (of_nat (le_nat (replicate 8 v))) pos = Some (l, pos)"
      by (subst bitpos_words.simps) (auto simp: load64_def)
    then show ?thesis using False by (intro exI [of _ l] exI [of _ pos] exI [of _ 0]) auto
  qed
qed

lemma take_prefix_length: "length (takeWhile P (take n xs)) = min n (length (takeWhile P xs))"
  by (induction xs arbitrary: n) (auto simp: take_Cons' min_def)

lemma str_bits_replicate: "byte_bits v = replicate 8 x \<Longrightarrow> str_bits (replicate n v) = replicate (8 * n) x"
  by (induction n) (simp_all flip: replicate_add)

lemma byte_bits_inject: "byte_bits a = byte_bits b \<longleftrightarrow> a = b"
proof
  assume e: "byte_bits a = byte_bits b"
  have "bit a i = bit b i" if "i < 8" for i
    using arg_cong [OF e, of "\<lambda>l. l ! (7 - i)"] that by (simp add: byte_bits_nth)
  then show "a = b" by (intro bit_word_eqI) simp
qed simp

lemma str_bits_inject: "str_bits s = str_bits t \<Longrightarrow> s = t"
proof (induction s arbitrary: t)
  case (Cons b s)
  then show ?case using length_byte_bits [of b] by (cases t) (auto simp: byte_bits_inject)
qed (auto dest: arg_cong [of _ _ length])


lemma str_bits_take: "str_bits (take n s) = take (8 * n) (str_bits s)"
proof (induction n arbitrary: s)
  case (Suc n)
  then show ?case by (cases s) simp_all
qed simp

lemma skipped_run:
  assumes v: "byte_bits v = replicate 8 x" and "64 \<le> length (takeWhile (\<lambda>y. y = x) (str_bits l))"
  shows "\<not> length l < 8" and "take 8 l = replicate 8 v"
proof -
  have "length (takeWhile (\<lambda>y. y = x) (str_bits l)) \<le> 8 * length l"
    using length_takeWhile_le [of "\<lambda>y. y = x" "str_bits l"] by simp
  then show l: "\<not> length l < 8" using assms(2) by linarith
  have "take 64 (takeWhile (\<lambda>y. y = x) (str_bits l)) = take 64 (str_bits l)"
    using assms(2) by (subst takeWhile_eq_take) (simp add: min_def)
  then have "\<forall>y \<in> set (take 64 (str_bits l)). y = x" by (metis in_set_takeD set_takeWhileD)
  then have "take 64 (str_bits l) = replicate 64 x"
    using l by (intro replicate_eqI) auto
  then have "str_bits (take 8 l) = str_bits (replicate 8 v)"
    by (simp add: str_bits_take str_bits_replicate [OF v])
  then show "take 8 l = replicate 8 v" by (rule str_bits_inject)
qed

text \<open>The position of the first bit: a string is followed by zeros, as far as the search for a zero goes.\<close>

definition first_bit :: "bool list \<Rightarrow> bool \<Rightarrow> int" where
  "first_bit bs x = (if x \<and> True \<notin> set bs then -1 else int (length (takeWhile (\<lambda>y. y \<noteq> x) bs)))"

lemma skip_words: "of_nat (le_nat (replicate 8 0)) = (0 :: u64)" "of_nat (le_nat (replicate 8 0xFF)) = (NOT 0 :: u64)"
proof -
  have "replicate 8 v = [v, v, v, v, v, v, v, v]" for v :: byte by (simp add: numeral_eq_Suc)
  then show "of_nat (le_nat (replicate 8 0)) = (0 :: u64)" "of_nat (le_nat (replicate 8 0xFF)) = (NOT 0 :: u64)"
    by simp_all
qed

lemma redisBitpos_correct:
  assumes "b \<le> 1"
  shows "redisBitpos addr s b = Some (first_bit (str_bits s) (b = 1))"
proof -
  define v where "v = (if b \<noteq> 0 then 0 else 0xFF :: byte)"
  define x where "x = (b = 0)"
  have v: "byte_bits v = replicate 8 x" by (simp add: v_def x_def byte_bits_zero)
  have sk: "(if b \<noteq> 0 then 0 else NOT 0) = (of_nat (le_nat (replicate 8 v)) :: u64)"
    by (simp add: v_def skip_words)
  obtain c pos where a: "bitpos_align addr s v 0 = (c, pos)" by force
  obtain l pos' n2 where w: "bitpos_words c (of_nat (le_nat (replicate 8 v))) pos = Some (l, pos')"
      "c = replicate n2 v @ l" "pos' = pos + 8 * int n2" "length l < 8 \<or> take 8 l \<noteq> replicate 8 v"
    using bitpos_words_skips by blast
  obtain n where n: "s = replicate n v @ l" "pos' = 8 * int n" "length l < 8 \<or> take 8 l \<noteq> replicate 8 v"
  proof -
    obtain n1 where n1: "s = replicate n1 v @ c" "pos = 8 * int n1" using bitpos_align_skips [OF a] by auto
    show ?thesis by (rule that [of "n1 + n2"]) (use n1 w(2-4) in \<open>simp_all add: replicate_add\<close>)
  qed
  let ?L = "str_bits l" and ?W = "bitpos_load 8 l 0"
  let ?t = "length (takeWhile (\<lambda>y. y = x) ?L)"
  have lt: "?t < 64" using skipped_run [OF v, of l] n(3) by linarith
  have sb: "str_bits s = replicate (8 * n) x @ ?L" by (simp add: n(1) str_bits_replicate [OF v])
  have P: "(\<lambda>y. of_bool y \<noteq> b) = (\<lambda>y. y = x)" using assms by (auto simp: x_def fun_eq_iff of_bool_def)
  have first: "first_bit (str_bits s) (b = 1) = (if b = 1 \<and> True \<notin> set ?L then -1 else 8 * int n + int ?t)"
  proof -
    have "(\<lambda>y. y \<noteq> (b = 1)) = (\<lambda>y. y = x)" using assms by (auto simp: x_def fun_eq_iff)
    then show ?thesis by (auto simp: first_bit_def sb takeWhile_append x_def)
  qed
  have R: "redisBitpos addr s b = (if b = 1 \<and> ?W = 0 then Some (-1) else
      let k = length (takeWhile (\<lambda>y. y = x) (word_bits ?W)) in if k < 64 then Some (8 * int n + int k) else None)"
    by (simp only: redisBitpos_def v_def [symmetric] sk a w(1) Let_def prod.case bind.bind_lunit bitpos_scan_word P n(2))
  show ?thesis
  proof (cases "b = 1 \<and> True \<notin> set ?L")
    case True
    then have "True \<notin> set (word_bits ?W)" unfolding word_of_string by (auto dest: in_set_takeD)
    then have "?W = 0" by (rule iffD2 [OF word_bits_zero])
    then show ?thesis unfolding R first using True by simp
  next
    case False
    have k: "length (takeWhile (\<lambda>y. y = x) (word_bits ?W)) = ?t"
    proof -
      have "takeWhile (\<lambda>y. y = x) (?L @ replicate 64 False) = takeWhile (\<lambda>y. y = x) ?L"
      proof (cases x)
        case True
        then have "takeWhile (\<lambda>y. y = x) (replicate 64 False) = []" by (simp add: takeWhile_replicate)
        moreover have "takeWhile (\<lambda>y. y = x) ?L = ?L" if "\<forall>y \<in> set ?L. y = x"
          unfolding takeWhile_eq_all_conv by (rule that)
        ultimately show ?thesis unfolding takeWhile_append by (metis append_Nil2)
      next
        case False
        then have "True \<in> set ?L" using \<open>\<not> (b = 1 \<and> True \<notin> set ?L)\<close> assms by (auto simp: x_def)
        then show ?thesis using False by (intro takeWhile_append1 [of True]) auto
      qed
      then show ?thesis unfolding word_of_string take_prefix_length using lt by simp
    qed
    have "\<not> (b = 1 \<and> ?W = 0)"
    proof
      assume h: "b = 1 \<and> ?W = 0"
      then have "takeWhile (\<lambda>y. y = x) (word_bits ?W) = word_bits ?W"
        using word_bits_zero [of ?W] by (auto simp: takeWhile_eq_all_conv x_def)
      then show False using k lt by (metis length_word_bits less_irrefl)
    qed
    then show ?thesis unfolding R first k using False lt by (simp only: if_False Let_def if_True)
  qed
qed

end
