(* ===== verification/BitopsField.thy ===== *)
theory BitopsField
  imports BitopsFind
begin

unbundle bit_operations_syntax

text \<open>
  Integers of any width inside a string, \<^verbatim>\<open>bitops.c\<close>: writing a field replaces a slice of the list of
  bits, reading it gives the number the slice stands for, and the overflow checks decide exactly when
  a sum leaves the range of the field and what is stored instead.
\<close>

section \<open>Slices of bits\<close>

definition field_bits :: "nat \<Rightarrow> u64 \<Rightarrow> bool list" where
  "field_bits n v = map (\<lambda>i. bit v (n - 1 - i)) [0..<n]"

lemma field_bits_0 [simp]: "field_bits 0 v = []"
  by (simp add: field_bits_def)

lemma field_bits_Suc: "field_bits (Suc n) v = bit v n # field_bits n v"
proof -
  have "[0..<Suc n] = 0 # map Suc [0..<n]" by (simp add: map_Suc_upt upt_conv_Cons)
  then show ?thesis by (simp add: field_bits_def)
qed

lemma length_field_bits [simp]: "length (field_bits n v) = n"
  by (simp add: field_bits_def)

definition bits_val :: "bool list \<Rightarrow> nat" where
  "bits_val = foldl (\<lambda>a x. 2 * a + of_bool x) 0"

lemma foldl_bits: "foldl (\<lambda>a x. 2 * a + of_bool x) a bs = 2 ^ length bs * a + bits_val bs" for a :: nat
proof (induction bs arbitrary: a)
  case (Cons x bs)
  show ?case using Cons [of "2 * a + of_bool x"] Cons [of "of_bool x"]
    by (simp add: bits_val_def algebra_simps)
qed (simp add: bits_val_def)

lemma bits_val_Cons: "bits_val (x # bs) = 2 ^ length bs * of_bool x + bits_val bs"
  using foldl_bits [of "of_bool x" bs] by (simp add: bits_val_def)

lemma bits_val_Nil [simp]: "bits_val [] = 0"
  by (simp add: bits_val_def)

lemma bits_val_less: "bits_val bs < 2 ^ length bs"
  by (induction bs) (auto simp: bits_val_Cons)

lemma bits_val_field: "bits_val (field_bits n v) = unat v mod 2 ^ n"
proof (induction n)
  case (Suc n)
  have "unat v mod 2 ^ Suc n = 2 ^ n * of_bool (bit v n) + unat v mod 2 ^ n"
  proof -
    have "unat v mod (2 ^ n * 2) = 2 ^ n * (unat v div 2 ^ n mod 2) + unat v mod 2 ^ n"
      by (rule mod_mult2_eq)
    moreover have "unat v div 2 ^ n mod 2 = of_bool (bit v n)"
      by (metis bit_iff_odd bit_unsigned_iff even_iff_mod_2_eq_zero of_bool_eq odd_iff_mod_2_eq_one bit_imp_le_length possible_bit_nat)
    ultimately show ?thesis by (simp add: mult.commute)
  qed
  then show ?case using Suc by (simp add: field_bits_Suc bits_val_Cons)
qed simp

section \<open>Reading and writing\<close>

lemma str_bits_nth: "j < 8 * length p \<Longrightarrow> str_bits p ! j = bit (p ! (j div 8)) (7 - j mod 8)"
proof (induction p arbitrary: j)
  case (Cons b p)
  show ?case
  proof (cases "j < 8")
    case True
    then show ?thesis by (simp add: nth_append byte_bits_nth)
  next
    case False
    then have "j div 8 = Suc ((j - 8) div 8)" "j mod 8 = (j - 8) mod 8" by (simp_all add: le_div_geq le_mod_geq)
    then show ?thesis using False Cons by (simp add: nth_append)
  qed
qed simp

lemma offset_parts: "drop_bit 3 (j :: nat) = j div 8" "j AND 7 = j mod 8"
  using take_bit_eq_mod [of 3 j] by (simp_all add: drop_bit_eq_div take_bit_eq_mask mask_eq_exp_minus_1)

lemma bit_assign:
  "bit (((b :: byte) AND NOT (push_bit (7 - k) 1)) OR push_bit (7 - k) (of_bool x)) m \<longleftrightarrow>
    (if m = 7 - k then x else bit b m)"
  using bit_imp_le_length [of b m] by (cases x) (auto simp: bit_simps)

lemma str_bits_update:
  assumes "off < 8 * length p"
  shows "str_bits (p[off div 8 := (p ! (off div 8) AND NOT (push_bit (7 - off mod 8) 1)) OR
    push_bit (7 - off mod 8) (of_bool x)]) = (str_bits p)[off := x]"
proof (rule nth_equalityI)
  fix j assume "j < length (str_bits (p[off div 8 := (p ! (off div 8) AND NOT (push_bit (7 - off mod 8) 1)) OR
    push_bit (7 - off mod 8) (of_bool x)]))"
  then have j: "j < 8 * length p" by simp
  show "str_bits (p[off div 8 := (p ! (off div 8) AND NOT (push_bit (7 - off mod 8) 1)) OR
    push_bit (7 - off mod 8) (of_bool x)]) ! j = (str_bits p)[off := x] ! j"
  proof (cases "j div 8 = off div 8")
    case False
    then have "j \<noteq> off" by auto
    then show ?thesis using False j assms by (simp add: str_bits_nth nth_list_update)
  next
    case True
    have m: "j mod 8 < 8" "off mod 8 < 8" by simp_all
    have "j = off \<longleftrightarrow> j mod 8 = off mod 8" using True by (metis div_mult_mod_eq)
    then have eq: "j = off \<longleftrightarrow> 7 - j mod 8 = 7 - off mod 8" using m by linarith
    have "off div 8 < length p" using assms by (simp add: less_mult_imp_div_less mult.commute)
    then have "str_bits (p[off div 8 := (p ! (off div 8) AND NOT (push_bit (7 - off mod 8) 1)) OR
        push_bit (7 - off mod 8) (of_bool x)]) ! j = (if j = off then x else bit (p ! (off div 8)) (7 - j mod 8))"
      using j by (simp only: str_bits_nth length_list_update True nth_list_update_eq bit_assign eq)
    moreover have "(str_bits p)[off := x] ! j = (if j = off then x else bit (p ! (off div 8)) (7 - j mod 8))"
      using j assms True by (simp add: nth_list_update str_bits_nth)
    ultimately show ?thesis by simp
  qed
qed simp


lemma and_exp: "(v :: u64) AND push_bit n 1 \<noteq> 0 \<longleftrightarrow> bit v n"
proof
  assume "v AND push_bit n 1 \<noteq> 0"
  then obtain i where "bit (v AND push_bit n 1) i" by (auto simp: bit_eq_iff)
  then show "bit v n" by (auto simp: bit_simps)
next
  assume b: "bit v n"
  then have "n < 64" by (auto dest: bit_imp_le_length)
  then have "bit (v AND push_bit n 1) n" using b by (simp add: bit_simps)
  then show "v AND push_bit n 1 \<noteq> 0" by auto
qed

lemma setUnsigned_step:
  assumes "n < 64" and "off < 8 * length p"
  obtains p1 where "setUnsignedBitfield p off (Suc n) v = setUnsignedBitfield p1 (off + 1) n v"
    "str_bits p1 = (str_bits p)[off := bit v n]" "length p1 = length p"
proof (rule that)
  have "off div 8 < length p" using assms(2) by (simp add: less_mult_imp_div_less mult.commute)
  then show "setUnsignedBitfield p off (Suc n) v =
    setUnsignedBitfield (p[off div 8 := (p ! (off div 8) AND NOT (push_bit (7 - off mod 8) 1)) OR
      push_bit (7 - off mod 8) (of_bool (bit v n))]) (off + 1) n v"
    using assms(1) by (simp only: setUnsignedBitfield.simps shl64_def if_True option.case Let_def and_exp offset_parts)
qed (rule str_bits_update [OF assms(2)], simp)

lemma setUnsigned_correct:
  assumes "n \<le> 64" and "off + n \<le> 8 * length p"
  shows "\<exists>p'. setUnsignedBitfield p off n v = Some p' \<and> length p' = length p \<and>
    str_bits p' = take off (str_bits p) @ field_bits n v @ drop (off + n) (str_bits p)"
  using assms
proof (induction n arbitrary: p off)
  case 0
  then show ?case by simp
next
  case (Suc n)
  have n: "n < 64" "off < 8 * length p" using Suc.prems by simp_all
  obtain p1 where p1: "setUnsignedBitfield p off (Suc n) v = setUnsignedBitfield p1 (off + 1) n v"
    "str_bits p1 = (str_bits p)[off := bit v n]" "length p1 = length p"
    by (rule setUnsigned_step [OF n])
  obtain p' where p': "setUnsignedBitfield p1 (off + 1) n v = Some p'" "length p' = length p"
      "str_bits p' = take (off + 1) (str_bits p1) @ field_bits n v @ drop (off + 1 + n) (str_bits p1)"
    using Suc.IH [of "off + 1" p1] Suc.prems p1(3) by auto
  have "take (off + 1) (str_bits p1) = take off (str_bits p) @ [bit v n]"
    using n p1(2) by (simp add: take_Suc_conv_app_nth)
  moreover have "drop (off + 1 + n) (str_bits p1) = drop (off + Suc n) (str_bits p)"
    using p1(2) by simp
  ultimately show ?case using p1(1) p' by (simp add: field_bits_Suc)
qed

definition slice_val :: "bytes \<Rightarrow> nat \<Rightarrow> nat \<Rightarrow> nat" where
  "slice_val p off n = bits_val (take n (drop off (str_bits p)))"

lemma slice_val_less: "slice_val p off n < 2 ^ n"
proof -
  have "length (take n (drop off (str_bits p))) \<le> n" by simp
  then have "(2 :: nat) ^ length (take n (drop off (str_bits p))) \<le> 2 ^ n" by (intro power_increasing) auto
  with bits_val_less show ?thesis unfolding slice_val_def by (rule order.strict_trans2)
qed

lemma shift_in: "push_bit 1 (w :: u64) OR (ucast (drop_bit k (b :: byte)) AND 1) = 2 * w + of_bool (bit b k)"
proof -
  have "(ucast (drop_bit k b) :: u64) AND 1 = of_bool (bit b k)"
    by (intro bit_word_eqI) (auto simp: bit_simps dest: bit_imp_le_length)
  moreover have "push_bit 1 w OR of_bool x = push_bit 1 w + of_bool x" for x
    by (rule disjunctive_add_eq_or [symmetric], rule bit_word_eqI)
      (simp only: bit_and_iff bit_push_bit_iff bit_of_bool_iff, simp)
  moreover have "push_bit 1 w = 2 * w" by (simp add: push_bit_eq_mult mult.commute)
  ultimately show ?thesis by (simp only:)
qed

lemma getUnsigned_loop_correct:
  assumes "off + n \<le> 8 * length p"
  shows "getUnsigned_loop p off n (of_nat a) =
    Some (of_nat (foldl (\<lambda>a x. 2 * a + of_bool x) a (take n (drop off (str_bits p)))))"
  using assms
proof (induction n arbitrary: off a)
  case (Suc n)
  have off: "off < 8 * length p" using Suc.prems by simp
  then have i: "off div 8 < length p" by (simp add: less_mult_imp_div_less mult.commute)
  have x: "str_bits p ! off = bit (p ! (off div 8)) (7 - off mod 8)" using off by (rule str_bits_nth)
  have t: "take (Suc n) (drop off (str_bits p)) = str_bits p ! off # take n (drop (off + 1) (str_bits p))"
    using off by (simp add: Cons_nth_drop_Suc [symmetric])
  have g: "getUnsigned_loop p off (Suc n) (of_nat a) =
      getUnsigned_loop p (off + 1) n (of_nat (2 * a + of_bool (str_bits p ! off)))"
    using i by (simp only: getUnsigned_loop.simps Let_def offset_parts shift_in if_True x of_nat_add of_nat_mult of_nat_numeral of_nat_of_bool)
  have "off + 1 + n \<le> 8 * length p" using Suc.prems by simp
  then show ?case unfolding g t foldl.simps by (rule Suc.IH)
qed simp

lemma getUnsigned_correct:
  "off + n \<le> 8 * length p \<Longrightarrow> getUnsignedBitfield p off n = Some (of_nat (slice_val p off n))"
  using getUnsigned_loop_correct [of off n p 0] by (simp add: getUnsignedBitfield_def slice_val_def bits_val_def)


section \<open>Signed fields\<close>

lemma to_signed_take_bit: "to_signed (Suc m) x = signed_take_bit m x"
proof -
  define r where "r = x mod 2 ^ Suc m"
  have r: "0 \<le> r" "r < 2 * 2 ^ m" by (simp_all add: r_def)
  have t: "take_bit (Suc m) x = r" by (simp add: r_def take_bit_eq_mod)
  have "bit x m \<longleftrightarrow> bit r m" using t by (metis bit_take_bit_iff lessI)
  also have "\<dots> \<longleftrightarrow> 2 ^ m \<le> r"
  proof -
    have "r div 2 ^ m = (if 2 ^ m \<le> r then 1 else 0)"
      using r by (auto simp: div_pos_pos_trivial intro!: int_div_pos_eq [of _ _ _ "r - 2 ^ m"])
    then show ?thesis by (simp add: bit_iff_odd)
  qed
  finally have b: "bit x m \<longleftrightarrow> 2 ^ m \<le> r" .
  show ?thesis
    unfolding signed_take_bit_eq_take_bit_minus t b to_signed_def Let_def r_def [symmetric] by auto
qed

lemma sign_extend:
  assumes n: "0 < n" "n < 64"
  shows "sint (if (of_int x :: u64) AND push_bit (n - 1) 1 \<noteq> 0 then (of_int x OR push_bit n (NOT 0) :: u64)
    else of_int x AND NOT (push_bit n (NOT 0))) = to_signed n x"
proof -
  obtain m where m: "n = Suc m" "m < 63" using n by (cases n) auto
  let ?w = "if (of_int x :: u64) AND push_bit (n - 1) 1 \<noteq> 0 then (of_int x OR push_bit n (NOT 0) :: u64)
    else of_int x AND NOT (push_bit n (NOT 0))"
  have "?w = of_int (signed_take_bit m x)"
  proof (rule bit_word_eqI)
    fix i :: nat assume i: "i < LENGTH(64)"
    show "bit ?w i = bit (of_int (signed_take_bit m x) :: u64) i"
      unfolding and_exp using i m
      by (cases "i < n") (auto simp: bit_simps bit_signed_take_bit_iff min_def less_Suc_eq)
  qed
  then have "sint ?w = signed_take_bit 63 (signed_take_bit m x)" by (simp add: signed_of_int)
  also have "\<dots> = signed_take_bit m x" using m by (simp add: min_def)
  finally show ?thesis by (simp add: m to_signed_take_bit)
qed

lemma getSigned_correct:
  assumes n: "0 < n" "n < 64" and off: "off + n \<le> 8 * length p"
  shows "getSignedBitfield p off n = Some (to_signed n (int (slice_val p off n)))"
proof -
  let ?v = "slice_val p off n"
  have u: "getUnsignedBitfield p off n = Some (of_int (int ?v))"
    using getUnsigned_correct [OF off] by simp
  have "(of_int (int ?v) :: u64) AND NOT (push_bit n (NOT 0)) = of_int (int ?v)"
  proof (rule bit_word_eqI)
    fix i :: nat assume "i < LENGTH(64)"
    then show "bit ((of_int (int ?v) :: u64) AND NOT (push_bit n (NOT 0))) i = bit (of_int (int ?v) :: u64) i"
      using bit_below [OF slice_val_less [of p off n], of i] by (auto simp: bit_simps)
  qed
  moreover have "n - 1 < 64" using n by simp
  ultimately show ?thesis using n sign_extend [OF n, of "int ?v"]
    by (simp add: getSignedBitfield_def u top_bit_def shl64_def split: if_splits)
qed

end
