(* ===== verification/BitopsCommand.thy ===== *)
theory BitopsCommand
  imports BitopsField
begin

unbundle bit_operations_syntax

text \<open>
  The overflow checks of \<^verbatim>\<open>bitops.c\<close> decide when a value or a sum leaves the range of a field and what is stored
  instead; with reading and writing of fields they give the operations of \<open>BITFIELD\<close>, which are compared with a
  specification over lists of bits.
\<close>

section \<open>Overflow\<close>

definition field_min :: "bool \<Rightarrow> nat \<Rightarrow> int" where
  "field_min sign n = (if sign then - (2 ^ (n - 1)) else 0)"

definition field_max :: "bool \<Rightarrow> nat \<Rightarrow> int" where
  "field_max sign n = (if sign then 2 ^ (n - 1) - 1 else 2 ^ n - 1)"

definition field_wrap :: "bool \<Rightarrow> nat \<Rightarrow> int \<Rightarrow> int" where
  "field_wrap sign n r = (if sign then to_signed n r else r mod 2 ^ n)"

lemma not_high: "(w :: u64) AND NOT (push_bit n (NOT 0)) = take_bit n w"
  by (intro bit_word_eqI) (auto simp: bit_simps)

lemma sint_small: "- (2 ^ 63) \<le> k \<Longrightarrow> k < 2 ^ 63 \<Longrightarrow> sint (of_int k :: u64) = k"
  by (simp add: signed_of_int signed_take_bit_int_eq_self)

lemma exp_word: "push_bit n 1 = (of_int (2 ^ n) :: u64)"
  by simp

lemma unat_exp_minus: "n < 64 \<Longrightarrow> int (unat (push_bit n 1 - 1 :: u64)) = 2 ^ n - 1"
proof -
  assume n: "n < 64"
  have "(push_bit n 1 - 1 :: u64) = mask n" by (simp add: mask_eq_decr_exp push_bit_eq_mult)
  moreover have "unat (mask n :: u64) = mask n" using n by (intro bit_eqI) (auto simp: bit_simps)
  ultimately show ?thesis by (simp add: mask_eq_exp_minus_1 of_nat_diff)
qed

lemma wrap_unsigned: "(v + of_int incr :: u64) AND NOT (push_bit n (NOT 0)) = of_int ((int (unat v) + incr) mod 2 ^ n)" if "n < 64"
proof -
  have "(v + of_int incr :: u64) = of_int (int (unat v) + incr)" by simp
  moreover have "take_bit n (of_int k :: u64) = of_int (take_bit n k)" for k
    by (intro bit_word_eqI) (auto simp: bit_simps)
  ultimately show ?thesis by (simp only: not_high take_bit_eq_mod [symmetric])
qed

lemma checkUnsigned_correct:
  assumes n: "0 < n" "n < 64" and v: "unat v < 2 ^ n \<or> incr = 0" and r: "r = int (unat v) + incr"
  shows "checkUnsignedBitfieldOverflow v incr n ow limit = Some
    (if r > field_max False n then
       (1, case ow of BFOVERFLOW_WRAP \<Rightarrow> of_int (field_wrap False n r) | BFOVERFLOW_SAT \<Rightarrow> of_int (field_max False n) | BFOVERFLOW_FAIL \<Rightarrow> limit)
     else if r < field_min False n then
       (case ow of BFOVERFLOW_WRAP \<Rightarrow> (1, of_int (field_wrap False n r)) | BFOVERFLOW_SAT \<Rightarrow> (-1, of_int (field_min False n)) | BFOVERFLOW_FAIL \<Rightarrow> (-1, limit))
     else (0, limit))"
proof -
  let ?mx = "push_bit n 1 - 1 :: u64"
  have p63: "(2 :: int) ^ n \<le> 2 ^ 63" using n by (intro power_increasing) auto
  have gt: "v > ?mx \<longleftrightarrow> int (unat v) > 2 ^ n - 1"
    using unat_exp_minus [OF n(2)] unfolding word_less_nat_alt by linarith
  have maxi: "sint (?mx - v) = 2 ^ n - 1 - int (unat v)" if "int (unat v) \<le> 2 ^ n - 1"
  proof -
    have e: "?mx - v = of_int (2 ^ n - 1 - int (unat v))" by simp
    show ?thesis unfolding e by (rule sint_small) (use that p63 in linarith)+
  qed
  have mini: "sint (- v) = - int (unat v)" if "int (unat v) \<le> 2 ^ n - 1"
  proof -
    have e: "- v = of_int (- int (unat v))" by simp
    show ?thesis unfolding e by (rule sint_small) (use that p63 in linarith)+
  qed
  have v': "int (unat v) \<le> 2 ^ n - 1 \<or> incr = 0"
  proof -
    have "int (unat v) < 2 ^ n" if "unat v < 2 ^ n" using that by (metis of_nat_less_iff of_nat_numeral of_nat_power)
    then show ?thesis using v by auto
  qed
  have mx: "of_int (2 ^ n - 1) = ?mx" by simp
  have over: "v > ?mx \<or> incr > 0 \<and> incr > sint (?mx - v) \<longleftrightarrow> r > 2 ^ n - 1"
    using v' maxi gt r by auto
  have under: "incr < 0 \<and> incr < sint (- v) \<longleftrightarrow> r < 0" if "\<not> r > 2 ^ n - 1"
    using v' mini r that of_nat_0_le_iff [of "unat v"] by linarith
  have wrap: "(v + of_int incr) AND NOT (push_bit n (NOT 0)) = of_int (r mod 2 ^ n)"
    using wrap_unsigned [OF n(2), of v incr] by (simp only: r)
  show ?thesis
    using n over under wrap
    by (simp add: checkUnsignedBitfieldOverflow_def shl64_def field_max_def field_min_def field_wrap_def mx [symmetric]
        Let_def split: owtype.split)
qed

lemma checkSigned_correct:
  assumes n: "0 < n" "n < 64" and r: "r = v + incr"
    and v: "field_min True n \<le> v \<and> v \<le> field_max True n \<or> incr = 0 \<and> in_int64 v \<and> 2 ^ (n - 1) - 2 ^ 63 \<le> v"
  shows "checkSignedBitfieldOverflow v incr n ow limit = Some
    (if r > field_max True n then
       (1, case ow of BFOVERFLOW_WRAP \<Rightarrow> field_wrap True n r | BFOVERFLOW_SAT \<Rightarrow> field_max True n | BFOVERFLOW_FAIL \<Rightarrow> limit)
     else if r < field_min True n then
       (case ow of BFOVERFLOW_WRAP \<Rightarrow> (1, field_wrap True n r) | BFOVERFLOW_SAT \<Rightarrow> (-1, field_min True n) | BFOVERFLOW_FAIL \<Rightarrow> (-1, limit))
     else (0, limit))"
proof -
  define p where "p = (2 :: int) ^ (n - 1)"
  have p: "0 < p" by (simp add: p_def)
  moreover have "p \<le> 2 ^ 62" unfolding p_def using n by (intro power_increasing) auto
  ultimately have p: "0 < p" "p \<le> 2 ^ 62" .
  have fm: "field_max True n = p - 1" "field_min True n = - p" by (simp_all add: field_max_def field_min_def p_def)
  have sp: "sint (push_bit (n - 1) 1 :: u64) = p"
    unfolding exp_word p_def [symmetric] by (rule sint_small) (use p in simp_all)
  have v': "- p \<le> v \<and> v \<le> p - 1 \<or> incr = 0 \<and> LLONG_MIN \<le> v \<and> v \<le> LLONG_MAX \<and> p - 2 ^ 63 \<le> v"
    using v by (simp add: fm p_def)
  have maxi: "to_signed 64 (p - 1 - v) = p - 1 - v" if "v \<le> p - 1"
    using that v' p by (intro to_signed_id) (auto simp: range_simps)
  have mini: "to_signed 64 (- p - v) = - p - v" if "- p \<le> v" "v \<le> p - 1"
    using that p by (intro to_signed_id) auto
  have over: "v > p - 1 \<or> incr > to_signed 64 (p - 1 - v) \<or> (v \<ge> 0 \<and> incr > 0 \<and> incr > to_signed 64 (p - 1 - v))
      \<longleftrightarrow> r > p - 1"
    using v' maxi n r by (cases "v \<le> p - 1") auto
  have under: "v < - p \<or> incr < to_signed 64 (- p - v) \<or> (v < 0 \<and> incr < 0 \<and> incr < to_signed 64 (- p - v))
      \<longleftrightarrow> r < - p" if "\<not> r > p - 1"
    using v' mini n r that by (cases "- p \<le> v") auto
  have n64: "(n = 64) = False" using n by simp
  have mn: "- (p - 1) - 1 = - p" by simp
  have tb: "top_bit n = Some (push_bit (n - 1) 1)" and sh: "shl64 (NOT 0) n = Some (push_bit n (NOT 0))"
    using n by (simp_all add: top_bit_def shl64_def)
  have wrap: "sint (if (of_int v + of_int incr :: u64) AND push_bit (n - 1) 1 \<noteq> 0 then ((of_int v + of_int incr) OR push_bit n (NOT 0) :: u64)
      else (of_int v + of_int incr) AND NOT (push_bit n (NOT 0))) = to_signed n r"
    using sign_extend [OF n, of r] unfolding r of_int_add .
  show ?thesis
  proof (cases "r > p - 1")
    case True
    show ?thesis
      unfolding checkSignedBitfieldOverflow_def tb option.map sp
      by (simp only: n64 if_False bind.bind_lunit Let_def mn over True simp_thms sh wrap fm field_wrap_def if_True)
        (cases ow; simp only: owtype.case)
  next
    case False
    show ?thesis
      unfolding checkSignedBitfieldOverflow_def tb option.map sp
      by (simp only: n64 if_False bind.bind_lunit Let_def mn over False under [OF False] simp_thms sh wrap fm field_wrap_def if_True)
        (cases "r < - p"; cases ow; simp only: owtype.case if_True if_False)
  qed
qed

section \<open>\<open>BITFIELD\<close> over lists of bits\<close>

definition field_val :: "bool \<Rightarrow> bool list \<Rightarrow> int" where
  "field_val sign bs = (if sign then to_signed (length bs) (int (bits_val bs)) else int (bits_val bs))"

text \<open>
  What is stored for the exact result \<open>r\<close> of an operation: \<open>r\<close> itself when it is in range, else what the kind of
  overflow asks for; \<open>None\<close> when the operation fails.
\<close>

definition field_result :: "bool \<Rightarrow> nat \<Rightarrow> owtype \<Rightarrow> int \<Rightarrow> int option" where
  "field_result sign n ow r =
     (if field_min sign n \<le> r \<and> r \<le> field_max sign n then Some r
      else case ow of BFOVERFLOW_WRAP \<Rightarrow> Some (field_wrap sign n r)
        | BFOVERFLOW_SAT \<Rightarrow> Some (if r < field_min sign n then field_min sign n else field_max sign n)
        | BFOVERFLOW_FAIL \<Rightarrow> None)"

text \<open>An operation on the bits \<open>bs\<close> of the string; \<open>SET\<close> of an unsigned field takes its argument as an \<open>uint64_t\<close>.\<close>

definition bitfield_spec :: "bitfieldOp \<Rightarrow> bool list \<Rightarrow> int option \<times> bool list" where
  "bitfield_spec op bs =
     (let off = bf_offset op; n = bf_bits op; sign = bf_sign op;
          old = field_val sign (take n (drop off (bs @ replicate (off + n) False)))
      in if bf_opcode op = BITFIELDOP_GET then (Some old, bs)
         else
           let r = (if bf_opcode op = BITFIELDOP_INCRBY then old + bf_i64 op
                    else if sign then bf_i64 op else bf_i64 op mod 2 ^ 64)
           in case field_result sign n (bf_owtype op) r of None \<Rightarrow> (None, bs)
              | Some v \<Rightarrow>
                (Some (if bf_opcode op = BITFIELDOP_INCRBY then v else old),
                 take off bs @ field_bits n (of_int v) @ drop (off + n) bs))"

fun bitfield_specs :: "bitfieldOp list \<Rightarrow> bool list \<Rightarrow> int option list \<times> bool list" where
  "bitfield_specs [] bs = ([], bs)"
| "bitfield_specs (op # ops) bs =
     (let (r, bs1) = bitfield_spec op bs; (rs, bs2) = bitfield_specs ops bs1 in (r # rs, bs2))"

definition op_ok :: "nat \<Rightarrow> bitfieldOp \<Rightarrow> bool" where
  "op_ok len op \<longleftrightarrow> 0 < bf_bits op \<and> bf_bits op < 64 \<and>
     (bf_opcode op \<noteq> BITFIELDOP_GET \<longrightarrow> bf_offset op + bf_bits op \<le> 8 * len \<and>
       (bf_opcode op = BITFIELDOP_SET \<and> bf_sign op \<longrightarrow> in_int64 (bf_i64 op) \<and> 2 ^ (bf_bits op - 1) - 2 ^ 63 \<le> bf_i64 op))"

lemma slice_val_pad:
  assumes "off + n \<le> 8 * length p"
  shows "field_val sign (take n (drop off (str_bits p @ replicate (off + n) False))) =
      (if sign then to_signed n (int (slice_val p off n)) else int (slice_val p off n))"
proof -
  have "take n (drop off (str_bits p @ replicate (off + n) False)) = take n (drop off (str_bits p))" using assms by simp
  moreover have "length (take n (drop off (str_bits p))) = n" using assms by simp
  ultimately show ?thesis by (simp only: field_val_def slice_val_def)
qed

text \<open>What the checks report, for both signs, as a function of the exact result.\<close>

definition check_result :: "bool \<Rightarrow> nat \<Rightarrow> owtype \<Rightarrow> int \<Rightarrow> int \<Rightarrow> int \<times> int" where
  "check_result sign n ow limit r =
    (if r > field_max sign n then
       (1, case ow of BFOVERFLOW_WRAP \<Rightarrow> field_wrap sign n r | BFOVERFLOW_SAT \<Rightarrow> field_max sign n | BFOVERFLOW_FAIL \<Rightarrow> limit)
     else if r < field_min sign n then
       (case ow of BFOVERFLOW_WRAP \<Rightarrow> (1, field_wrap sign n r) | BFOVERFLOW_SAT \<Rightarrow> (-1, field_min sign n) | BFOVERFLOW_FAIL \<Rightarrow> (-1, limit))
     else (0, limit))"

lemma field_min_max: "field_min sign n \<le> field_max sign n"
proof -
  have "(0 :: int) < 2 ^ (n - 1)" "(0 :: int) < 2 ^ n" by simp_all
  then show ?thesis unfolding field_min_def field_max_def by auto
qed

lemma check_field_result:
  assumes "check_result sign n ow limit r = (ov, w)"
  shows "field_result sign n ow r = (if ov \<noteq> 0 \<and> ow = BFOVERFLOW_FAIL then None else Some (if ov \<noteq> 0 then w else r))"
    and "ov = 0 \<Longrightarrow> field_min sign n \<le> r \<and> r \<le> field_max sign n"
  using assms field_min_max [of sign n] by (auto simp: check_result_def field_result_def split: if_splits owtype.splits)

lemma checkSigned_result:
  assumes "0 < n" "n < 64" "r = v + incr"
    and "field_min True n \<le> v \<and> v \<le> field_max True n \<or> incr = 0 \<and> in_int64 v \<and> 2 ^ (n - 1) - 2 ^ 63 \<le> v"
  shows "checkSignedBitfieldOverflow v incr n ow limit = Some (check_result True n ow limit r)"
  using checkSigned_correct [OF assms, of ow limit] by (simp only: check_result_def)

lemma checkUnsigned_result:
  assumes "0 < n" "n < 64" "unat v < 2 ^ n \<or> incr = 0" "r = int (unat v) + incr"
  shows "checkUnsignedBitfieldOverflow v incr n ow limit = Some (map_prod id of_int (check_result False n ow (uint limit) r))"
  using checkUnsigned_correct [OF assms, of ow limit] by (auto simp: check_result_def split: owtype.splits)

lemma to_signed_field: "0 < n \<Longrightarrow> field_min True n \<le> to_signed n x \<and> to_signed n x \<le> field_max True n"
  using to_signed_range [of n x] by (cases n) (auto simp: field_min_def field_max_def)

lemma field_in_int64: "n < 64 \<Longrightarrow> field_min True n \<le> r \<Longrightarrow> r \<le> field_max True n \<Longrightarrow> to_signed 64 r = r"
proof -
  assume n: "n < 64" and r: "field_min True n \<le> r" "r \<le> field_max True n"
  have "(2 :: int) ^ (n - 1) \<le> 2 ^ 62" using n by (intro power_increasing) auto
  then show ?thesis using r by (intro to_signed_id) (auto simp: field_min_def field_max_def)
qed

lemma spec_write:
  assumes "bf_opcode op \<noteq> BITFIELDOP_GET"
    and "field_val (bf_sign op) (take (bf_bits op) (drop (bf_offset op) (bs @ replicate (bf_offset op + bf_bits op) False))) = old"
    and "field_result (bf_sign op) (bf_bits op) (bf_owtype op) (if bf_opcode op = BITFIELDOP_INCRBY then old + bf_i64 op
      else if bf_sign op then bf_i64 op else bf_i64 op mod 2 ^ 64) = x"
  shows "bitfield_spec op bs = (case x of None \<Rightarrow> (None, bs)
     | Some v \<Rightarrow> (Some (if bf_opcode op = BITFIELDOP_INCRBY then v else old),
         take (bf_offset op) bs @ field_bits (bf_bits op) (of_int v) @ drop (bf_offset op + bf_bits op) bs))"
  unfolding bitfield_spec_def Let_def assms(2,3) using assms(1) by (simp only: if_False)

lemma signed_write:
  assumes ok: "op_ok (length p) op" and w: "bf_opcode op \<noteq> BITFIELDOP_GET" "bf_sign op"
  shows "\<exists>p'. bitfield_signed u op p = Some (fst (bitfield_spec op (str_bits p)), p') \<and> length p' = length p
    \<and> str_bits p' = snd (bitfield_spec op (str_bits p))"
proof -
  let ?n = "bf_bits op" and ?off = "bf_offset op" and ?ow = "bf_owtype op"
  have n: "0 < ?n" "?n < 64" and off: "?off + ?n \<le> 8 * length p" using ok w by (auto simp: op_ok_def)
  define old where "old = to_signed ?n (int (slice_val p ?off ?n))"
  have g: "getSignedBitfield p ?off ?n = Some old" using getSigned_correct [OF n off] by (simp add: old_def)
  define incr where "incr \<longleftrightarrow> bf_opcode op = BITFIELDOP_INCRBY"
  define r where "r = (if incr then old + bf_i64 op else bf_i64 op)"
  obtain ov wr where c: "check_result True ?n ?ow u r = (ov, wr)" by force
  define nv where "nv = (if ov \<noteq> 0 then wr else r)"
  have ci: "checkSignedBitfieldOverflow old (bf_i64 op) ?n ?ow u = Some (ov, wr)" if incr
    using checkSigned_result [OF n, of r old "bf_i64 op" ?ow u] to_signed_field [OF n(1)] that c by (simp add: r_def old_def)
  have cs: "checkSignedBitfieldOverflow (bf_i64 op) 0 ?n ?ow u = Some (ov, wr)" if "\<not> incr"
  proof -
    have "bf_opcode op = BITFIELDOP_SET" using that w(1) by (cases "bf_opcode op") (simp_all add: incr_def)
    then show ?thesis
      using checkSigned_result [OF n, of r "bf_i64 op" 0 ?ow u] ok w that c by (simp add: r_def op_ok_def)
  qed
  have nv': "(if ov \<noteq> 0 then wr else to_signed 64 r) = nv"
    using check_field_result(2) [OF c] field_in_int64 [OF n(2), of r] by (auto simp: nv_def)
  obtain p' where p': "setSignedBitfield p ?off ?n nv = Some p'" "length p' = length p"
      "str_bits p' = take ?off (str_bits p) @ field_bits ?n (of_int nv) @ drop (?off + ?n) (str_bits p)"
    using setUnsigned_correct [of ?n ?off p "of_int nv"] n off by (auto simp: setSignedBitfield_def)
  have "bitfield_signed u op p = (if ov \<noteq> 0 \<and> ?ow = BFOVERFLOW_FAIL then Some (None, p)
      else Some (Some (if incr then nv else old), p'))"
  proof (cases incr)
    case True
    then have "old + bf_i64 op = r" by (simp add: r_def)
    then show ?thesis using True g ci nv' p'(1)
      by (cases "ov = 0") (simp_all add: bitfield_signed_def incr_def [symmetric])
  next
    case False
    then have "bf_i64 op = r" by (simp add: r_def)
    then show ?thesis using False g cs p'(1)
      by (cases "ov = 0") (simp_all add: bitfield_signed_def incr_def [symmetric] nv_def)
  qed
  moreover have "bitfield_spec op (str_bits p) = (if ov \<noteq> 0 \<and> ?ow = BFOVERFLOW_FAIL then (None, str_bits p)
      else (Some (if incr then nv else old), str_bits p'))"
  proof -
    have "field_val (bf_sign op) (take ?n (drop ?off (str_bits p @ replicate (?off + ?n) False))) = old"
      using slice_val_pad [OF off, of True] w(2) by (simp only: old_def if_True)
    moreover have "field_result (bf_sign op) ?n ?ow (if bf_opcode op = BITFIELDOP_INCRBY then old + bf_i64 op
        else if bf_sign op then bf_i64 op else bf_i64 op mod 2 ^ 64) = (if ov \<noteq> 0 \<and> ?ow = BFOVERFLOW_FAIL then None else Some nv)"
      using check_field_result(1) [OF c] w(2) by (simp only: incr_def [symmetric] r_def nv_def if_True)
    ultimately show ?thesis using spec_write [OF w(1)] p'(3) by (simp only: incr_def [symmetric]) (simp split: if_splits)
  qed
  ultimately show ?thesis using p'(2) by auto
qed

lemma unsigned_write:
  assumes ok: "op_ok (length p) op" and w: "bf_opcode op \<noteq> BITFIELDOP_GET" "\<not> bf_sign op"
  shows "\<exists>p'. bitfield_unsigned u op p = Some (fst (bitfield_spec op (str_bits p)), p') \<and> length p' = length p
    \<and> str_bits p' = snd (bitfield_spec op (str_bits p))"
proof -
  let ?n = "bf_bits op" and ?off = "bf_offset op" and ?ow = "bf_owtype op"
  have n: "0 < ?n" "?n < 64" and off: "?off + ?n \<le> 8 * length p" using ok w by (auto simp: op_ok_def)
  define old where "old = int (slice_val p ?off ?n)"
  have n63: "(2 :: int) ^ ?n \<le> 2 ^ 63" using n by (intro power_increasing) auto
  have ol: "0 \<le> old" "old < 2 ^ ?n" "old < 2 ^ 63"
  proof -
    show "old < 2 ^ ?n" unfolding old_def using slice_val_less [of p ?off ?n] by (metis of_nat_less_iff of_nat_numeral of_nat_power)
    then show "old < 2 ^ 63" using n63 by linarith
  qed (simp add: old_def)
  have g: "getUnsignedBitfield p ?off ?n = Some (of_int old)" using getUnsigned_correct [OF off] by (simp add: old_def)
  have uo: "int (unat (of_int old :: u64)) = old" using ol by (simp add: uint_word_of_int_eq take_bit_int_eq_self)
  define incr where "incr \<longleftrightarrow> bf_opcode op = BITFIELDOP_INCRBY"
  define r where "r = (if incr then old + bf_i64 op else bf_i64 op mod 2 ^ 64)"
  obtain ov wr where c: "check_result False ?n ?ow (uint u) r = (ov, wr)" by force
  define nv where "nv = (if ov \<noteq> 0 then wr else r)"
  have ci: "checkUnsignedBitfieldOverflow (of_int old) (bf_i64 op) ?n ?ow u = Some (ov, of_int wr)" if incr
  proof -
    have "unat (of_int old :: u64) < 2 ^ ?n" using uo ol(2) by (metis of_nat_less_iff of_nat_numeral of_nat_power)
    then show ?thesis using checkUnsigned_result [OF n, of "of_int old" "bf_i64 op" r ?ow u] that c uo by (simp add: r_def)
  qed
  have cs: "checkUnsignedBitfieldOverflow (of_int (bf_i64 op)) 0 ?n ?ow u = Some (ov, of_int wr)" if "\<not> incr"
    using checkUnsigned_result [OF n, of "of_int (bf_i64 op)" 0 r ?ow u] that c
    by (simp add: r_def uint_word_of_int_eq take_bit_eq_mod)
  have nw: "(of_int nv :: u64) = (if ov \<noteq> 0 then of_int wr else if incr then of_int old + of_int (bf_i64 op) else of_int (bf_i64 op))"
  proof -
    have "(of_int (take_bit 64 (bf_i64 op)) :: u64) = of_int (bf_i64 op)"
      by (intro bit_word_eqI) (auto simp: bit_simps)
    then show ?thesis by (simp add: nv_def r_def take_bit_eq_mod)
  qed
  obtain p' where p': "setUnsignedBitfield p ?off ?n (of_int nv) = Some p'" "length p' = length p"
      "str_bits p' = take ?off (str_bits p) @ field_bits ?n (of_int nv) @ drop (?off + ?n) (str_bits p)"
    using setUnsigned_correct [of ?n ?off p "of_int nv"] n off by auto
  have so: "sint (of_int old :: u64) = old" by (rule sint_small) (use ol in linarith)+
  have sn: "sint (of_int nv :: u64) = nv" if "\<not> (ov \<noteq> 0 \<and> ?ow = BFOVERFLOW_FAIL)"
  proof -
    have "0 \<le> nv" "nv \<le> 2 ^ ?n - 1"
      using c that check_field_result(2) [OF c]
      by (auto simp: nv_def check_result_def field_max_def field_min_def field_wrap_def split: if_splits owtype.splits)
    then show ?thesis using n63 by - (rule sint_small, linarith, linarith)
  qed
  have "bitfield_unsigned u op p = (if ov \<noteq> 0 \<and> ?ow = BFOVERFLOW_FAIL then Some (None, p)
      else Some (Some (if incr then nv else old), p'))"
  proof (cases "ov \<noteq> 0 \<and> ?ow = BFOVERFLOW_FAIL")
    case True
    then show ?thesis using g ci cs by (cases incr) (simp_all add: bitfield_unsigned_def incr_def [symmetric])
  next
    case False
    show ?thesis
    proof (cases incr)
      case True
      have "(if ov \<noteq> 0 then of_int wr else of_int old + of_int (bf_i64 op)) = (of_int nv :: u64)" using nw True by simp
      then show ?thesis using False True g ci [OF True] p'(1) sn [OF False]
        by (simp only: bitfield_unsigned_def incr_def [symmetric] bind.bind_lunit prod.case Let_def if_True if_False not_False_eq_True)
    next
      case False
      have "(if ov \<noteq> 0 then of_int wr else of_int (bf_i64 op)) = (of_int nv :: u64)" using nw False by simp
      then show ?thesis using \<open>\<not> (ov \<noteq> 0 \<and> _)\<close> False g cs [OF False] p'(1) so
        by (simp only: bitfield_unsigned_def incr_def [symmetric] bind.bind_lunit prod.case Let_def if_True if_False not_False_eq_True)
    qed
  qed
  moreover have "bitfield_spec op (str_bits p) = (if ov \<noteq> 0 \<and> ?ow = BFOVERFLOW_FAIL then (None, str_bits p)
      else (Some (if incr then nv else old), str_bits p'))"
  proof -
    have "field_val (bf_sign op) (take ?n (drop ?off (str_bits p @ replicate (?off + ?n) False))) = old"
      using slice_val_pad [OF off, of False] w(2) by (simp only: old_def if_False)
    moreover have "field_result (bf_sign op) ?n ?ow (if bf_opcode op = BITFIELDOP_INCRBY then old + bf_i64 op
        else if bf_sign op then bf_i64 op else bf_i64 op mod 2 ^ 64) = (if ov \<noteq> 0 \<and> ?ow = BFOVERFLOW_FAIL then None else Some nv)"
      using check_field_result(1) [OF c] w(2) by (simp only: incr_def [symmetric] r_def nv_def if_False)
    ultimately show ?thesis using spec_write [OF w(1)] p'(3) by (simp only: incr_def [symmetric]) (simp split: if_splits)
  qed
  ultimately show ?thesis using p'(2) by auto
qed

text \<open>The nine bytes that \<open>GET\<close> copies.\<close>

lemma get_buffer:
  fixes p :: bytes and off n :: nat
  assumes "n < 64"
  defines "buf \<equiv> map (\<lambda>i. if i + off div 8 \<ge> length p then 0 else p ! (i + off div 8)) [0..<9]"
  shows "take n (drop (off mod 8) (str_bits buf)) = take n (drop off (str_bits p @ replicate (off + n) False))"
proof (rule nth_equalityI)
  have m: "off mod 8 < 8" by simp
  have lb: "length buf = 9" by (simp add: buf_def)
  show "length (take n (drop (off mod 8) (str_bits buf))) = length (take n (drop off (str_bits p @ replicate (off + n) False)))"
    using assms(1) m lb by simp
  fix i assume "i < length (take n (drop (off mod 8) (str_bits buf)))"
  then have i: "i < n" by simp
  define j where "j = off mod 8 + i"
  have j: "j < 72" using i m assms(1) by (simp add: j_def)
  have off: "off + i = 8 * (off div 8) + j" by (simp add: j_def)
  have d: "(off + i) div 8 = off div 8 + j div 8" "(off + i) mod 8 = j mod 8" unfolding off by simp_all
  have j9: "j div 8 < 9" using j by (simp add: less_mult_imp_div_less)
  have "str_bits buf ! j = bit (buf ! (j div 8)) (7 - j mod 8)" using j lb by (intro str_bits_nth) simp
  also have "buf ! (j div 8) = (if (off + i) div 8 \<ge> length p then 0 else p ! ((off + i) div 8))"
    unfolding d(1) using j9 by (simp add: buf_def add.commute)
  finally have b: "str_bits buf ! j = (if (off + i) div 8 \<ge> length p then False else bit (p ! ((off + i) div 8)) (7 - (off + i) mod 8))"
    by (simp add: d)
  have "(str_bits p @ replicate (off + n) False) ! (off + i) = (if (off + i) div 8 \<ge> length p then False else bit (p ! ((off + i) div 8)) (7 - (off + i) mod 8))"
  proof (cases "off + i < 8 * length p")
    case True
    then have "(off + i) div 8 < length p" by (simp add: less_mult_imp_div_less mult.commute)
    then show ?thesis using True by (simp add: nth_append str_bits_nth)
  next
    case False
    then have "(off + i) div 8 \<ge> length p" by (simp add: less_eq_div_iff_mult_less_eq mult.commute)
    then show ?thesis using False i by (simp add: nth_append)
  qed
  then show "take n (drop (off mod 8) (str_bits buf)) ! i = take n (drop off (str_bits p @ replicate (off + n) False)) ! i"
    using b lb m by (simp only: nth_take [OF i] nth_drop j_def length_append length_replicate length_str_bits)
qed

lemma get_correct:
  assumes "0 < bf_bits op" "bf_bits op < 64" and "bf_opcode op = BITFIELDOP_GET"
  shows "bitfield_get op p = fst (bitfield_spec op (str_bits p))"
proof -
  let ?n = "bf_bits op" and ?off = "bf_offset op"
  define buf where "buf = map (\<lambda>i. if i + ?off div 8 \<ge> length p then 0 else p ! (i + ?off div 8)) [0..<9]"
  have lb: "length buf = 9" by (simp add: buf_def)
  have o: "?off - ?off div 8 * 8 = ?off mod 8" by (simp add: minus_div_mult_eq_mod)
  have m: "?off mod 8 + ?n \<le> 8 * length buf" using assms(2) lb by (simp add: less_imp_le add_le_mono [of _ 8 _ 64, simplified])
  define X where "X = take ?n (drop ?off (str_bits p @ replicate (?off + ?n) False))"
  have sl: "slice_val buf (?off mod 8) ?n = bits_val X"
    using get_buffer [OF assms(2), of ?off p] by (simp only: slice_val_def buf_def X_def)
  have len: "length X = ?n" by (simp add: X_def)
  have sp: "fst (bitfield_spec op (str_bits p)) = Some (field_val (bf_sign op) X)"
    using assms(3) by (simp add: bitfield_spec_def X_def Let_def)
  have small: "int (slice_val buf (?off mod 8) ?n) < 2 ^ 63"
  proof -
    have "int (slice_val buf (?off mod 8) ?n) < 2 ^ ?n"
      using slice_val_less [of buf "?off mod 8" ?n] by (metis of_nat_less_iff of_nat_numeral of_nat_power)
    also have "(2 :: int) ^ ?n \<le> 2 ^ 63" using assms by (intro power_increasing) auto
    finally show ?thesis .
  qed
  have s: "sint (of_nat (slice_val buf (?off mod 8) ?n) :: u64) = int (slice_val buf (?off mod 8) ?n)"
    using sint_small [of "int (slice_val buf (?off mod 8) ?n)"] small by simp
  show ?thesis
    using getSigned_correct [OF assms(1,2) m] getUnsigned_correct [OF m] s len
    by (simp add: bitfield_get_def sp offset_parts buf_def [symmetric] o field_val_def sl Let_def)
qed

lemma length_bitfield_spec: "op_ok (length p) op \<Longrightarrow> length (snd (bitfield_spec op (str_bits p))) = 8 * length p"
  by (auto simp: bitfield_spec_def op_ok_def Let_def split: option.splits)

lemma op_correct:
  assumes "op_ok (length p) op"
  shows "\<exists>p'. bitfield_op u op p = Some (fst (bitfield_spec op (str_bits p)), p') \<and> length p' = length p
    \<and> str_bits p' = snd (bitfield_spec op (str_bits p))"
proof (cases "bf_opcode op = BITFIELDOP_GET")
  case True
  then have "bitfield_get op p = fst (bitfield_spec op (str_bits p))" "snd (bitfield_spec op (str_bits p)) = str_bits p"
      "\<exists>v. fst (bitfield_spec op (str_bits p)) = Some v"
    using get_correct [of op p] assms by (auto simp: op_ok_def bitfield_spec_def Let_def)
  then show ?thesis using True by (auto simp: bitfield_op_def)
next
  case False
  then show ?thesis using signed_write [OF assms False] unsigned_write [OF assms False]
    by (cases "bf_sign op") (simp_all add: bitfield_op_def)
qed

lemma loop_correct:
  assumes "\<forall>op \<in> set ops. op_ok (length p) op"
  shows "\<exists>p'. bitfield_loop u ops p = Some (fst (bitfield_specs ops (str_bits p)), p') \<and> length p' = length p
    \<and> str_bits p' = snd (bitfield_specs ops (str_bits p))"
  using assms
proof (induction ops arbitrary: p)
  case (Cons op ops)
  obtain p1 where p1: "bitfield_op u op p = Some (fst (bitfield_spec op (str_bits p)), p1)" "length p1 = length p"
      "str_bits p1 = snd (bitfield_spec op (str_bits p))"
    using op_correct [of p op u] Cons.prems by auto
  obtain p2 where "bitfield_loop u ops p1 = Some (fst (bitfield_specs ops (str_bits p1)), p2)" "length p2 = length p1"
      "str_bits p2 = snd (bitfield_specs ops (str_bits p1))"
    using Cons.IH [of p1] Cons.prems p1(2) by auto
  then show ?case using p1 by (auto simp: Let_def split_def)
qed simp

section \<open>The string is grown for the last write only\<close>

lemma getUnsigned_loop_outside:
  "0 < n \<Longrightarrow> 8 * length p < off + n \<Longrightarrow> getUnsigned_loop p off n v = None"
proof (induction n arbitrary: off v)
  case (Suc n)
  show ?case
  proof (cases "off div 8 < length p")
    case True
    then have "off < 8 * length p" by (simp add: div_less_iff_less_mult mult.commute)
    then have "0 < n" "8 * length p < off + 1 + n" using Suc.prems(2) by linarith+
    then show ?thesis using Suc.IH by (simp add: Let_def)
  next
    case False
    then show ?thesis by (simp add: offset_parts Let_def)
  qed
qed simp

lemma write_outside:
  assumes "bf_opcode op \<noteq> BITFIELDOP_GET" and "0 < bf_bits op" and "8 * length p < bf_offset op + bf_bits op"
  shows "bitfield_op u op p = None"
  using assms getUnsigned_loop_outside [OF assms(2,3)]
  by (simp add: bitfield_op_def bitfield_signed_def bitfield_unsigned_def getSignedBitfield_def getUnsignedBitfield_def)

text \<open>
  A write beyond the string and beyond the last write of the command accesses memory outside the string, since only
  the last write decides how far the string is grown.
\<close>

lemma bitfield_writes_beyond:
  assumes "bf_opcode op1 \<noteq> BITFIELDOP_GET" and "bf_opcode op2 \<noteq> BITFIELDOP_GET" and "0 < bf_bits op1" and "0 < bf_bits op2"
    and "8 * length p < bf_offset op1 + bf_bits op1" and "8 * ((bf_offset op2 + bf_bits op2 - 1) div 8 + 1) < bf_offset op1 + bf_bits op1"
  shows "bitfieldCommand u [op1, op2] p = None"
proof -
  have "8 * length (lookupStringForBitCommand (highest_write_offset [op1, op2]) p) < bf_offset op1 + bf_bits op1"
    using assms by (simp add: lookupStringForBitCommand_def highest_write_offset_def drop_bit_eq_div)
  then have "bitfield_op u op1 (lookupStringForBitCommand (highest_write_offset [op1, op2]) p) = None"
    by (rule write_outside [OF assms(1,3)])
  then show ?thesis using assms(1) by (simp add: bitfieldCommand_def)
qed

section \<open>Properties\<close>

text \<open>
  C29.  \<open>redisPopcount\<close>, which adds up the bits of seven words at a time inside the words, and \<open>redisBitpos\<close>, which
  skips whole words, agree with the bits of the string taken one after the other: the first returns the
  number of ones, the second the position of the first one or zero (\<open>-1\<close> when there is no one, the end of
  the string when there is no zero), for every string at every address, without reading outside the string.
\<close>

theorem bit_scans_correct:
  assumes "b \<le> 1"
  shows "redisPopcount addr s = Some (ones (str_bits s)) \<and> redisBitpos addr s b = Some (first_bit (str_bits s) (b = 1))"
  using redisPopcount_correct redisBitpos_correct [OF assms] by blast

theorem bit_scans_correct_witness:
  "redisPopcount 5 (replicate 40 0x11) = Some (ones (str_bits (replicate 40 0x11)))
   \<and> redisBitpos 3 [0, 0, 0x10] 1 = Some 19 \<and> redisBitpos 3 [0xFF, 0xFF] 0 = Some 16"
proof -
  have "first_bit (str_bits [0, 0, 0x10]) True = 19" "first_bit (str_bits [0xFF, 0xFF]) False = 16" by code_simp+
  then show ?thesis
    using bit_scans_correct [of 1 3 "[0, 0, 0x10]"] bit_scans_correct [of 0 3 "[0xFF, 0xFF]"] bit_scans_correct [of 0 5 "replicate 40 0x11"]
    by simp
qed

text \<open>
  C28.  \<open>BITFIELD\<close> does what its operations say on the bits of the string.  When every operation has a width below 64,
  every write lies within the string as it is grown, and no signed \<open>SET\<close> has a value below \<open>2\<^sup>n\<^sup>-\<^sup>1 - 2\<^sup>6\<^sup>3\<close>, the replies
  and the new string are those of the operations on its list of bits: \<open>GET\<close> reads a field, with zeros beyond
  the end; \<open>SET\<close> and \<open>INCRBY\<close> replace exactly the bits of the field by the exact result, or, when this is out of
  range, by the result reduced modulo the width, by the nearest bound, or not at all with a null reply.
\<close>

theorem bitfield_correct:
  assumes "q = (if \<forall>op \<in> set ops. bf_opcode op = BITFIELDOP_GET then p else lookupStringForBitCommand (highest_write_offset ops) p)"
    and "\<forall>op \<in> set ops. op_ok (length q) op"
  shows "\<exists>p'. bitfieldCommand u ops p = Some (fst (bitfield_specs ops (str_bits q)), p') \<and> length p' = length q
    \<and> str_bits p' = snd (bitfield_specs ops (str_bits q))"
  using loop_correct [OF assms(2), of u] by (simp add: bitfieldCommand_def assms(1))

definition incr_op :: bitfieldOp where
  "incr_op = \<lparr>bf_offset = 3, bf_i64 = 100, bf_opcode = BITFIELDOP_INCRBY, bf_owtype = BFOVERFLOW_SAT, bf_bits = 7, bf_sign = True\<rparr>"

definition get_op :: bitfieldOp where
  "get_op = \<lparr>bf_offset = 1, bf_i64 = 0, bf_opcode = BITFIELDOP_GET, bf_owtype = BFOVERFLOW_WRAP, bf_bits = 9, bf_sign = False\<rparr>"

theorem bitfield_correct_witness:
  "\<exists>p'. bitfieldCommand 0 [incr_op, get_op] [0x41] = Some ([Some 63, Some 319], p') \<and> length p' = 2"
proof -
  let ?q = "[0x41, 0] :: bytes"
  have q: "?q = (if \<forall>op \<in> set [incr_op, get_op]. bf_opcode op = BITFIELDOP_GET then [0x41]
      else lookupStringForBitCommand (highest_write_offset [incr_op, get_op]) [0x41])"
    by code_simp
  have ok: "\<forall>op \<in> set [incr_op, get_op]. op_ok (length ?q) op"
    by (simp add: incr_op_def get_op_def op_ok_def)
  have "fst (bitfield_specs [incr_op, get_op] (str_bits ?q)) = [Some 63, Some 319]" by code_simp
  then show ?thesis using bitfield_correct [OF q ok, of 0] by auto
qed

end
