(* ===== verification/Spec2Isabelle.thy ===== *)
theory Spec2Isabelle
  imports ZiplistProps BacklogProps OutputProps ZsetProps Intset Util Glob DictScan Lzf Adlist Checksum Sds SdsText Pubsub Rio Object Rdb Keyspace BitopsCommand
begin

text \<open>
  A verification library for the data structures, the persistence format and the command layer of the Redis
  server kept under \<^verbatim>\<open>src/redis_pull/redis-stable/src\<close>.

  The rest of the repository (Kinesis producers and consumers, a web socket server, a summariser) is
  JavaScript and Python glue around cloud services; the server is the program that keeps state.

  \<^bold>\<open>Parts and theories.\<close>

  \<^item> \<open>Prelude\<close>, \<open>Refinement\<close>: bytes, little-endian words, safe list access; the interfaces \<open>functional_data\<close>
    style locales that the containers and codecs are interpreted in.
  \<^item> \<open>Intset\<close> (\<^verbatim>\<open>intset.c\<close>), \<open>Dict\<close> (\<^verbatim>\<open>dict.c\<close>), \<open>Adlist\<close> (\<^verbatim>\<open>adlist.c\<close>), \<open>Sds\<close> and \<open>SdsText\<close> (\<^verbatim>\<open>sds.c\<close>): the
    containers, each with a refinement of its abstract type.
  \<^item> \<open>Util\<close>, \<open>Glob\<close> (\<^verbatim>\<open>util.c\<close>): numbers as text and glob patterns.
  \<^item> \<open>Lzf\<close> (\<^verbatim>\<open>lzf_c.c\<close>, \<^verbatim>\<open>lzf_d.c\<close>), \<open>Checksum\<close> (\<^verbatim>\<open>crc16.c\<close>, \<^verbatim>\<open>crc64.c\<close>, \<^verbatim>\<open>endianconv.c\<close>): codecs.
  \<^item> \<open>Object\<close> (\<^verbatim>\<open>object.c\<close>), \<open>Rio\<close> (\<^verbatim>\<open>rio.c\<close>), \<open>Rdb\<close> (\<^verbatim>\<open>rdb.c\<close>): string objects, streams and their dump format.
  \<^item> \<open>Pubsub\<close> (\<^verbatim>\<open>pubsub.c\<close>), \<open>Multi\<close> (\<^verbatim>\<open>multi.c\<close>): the commands that share state between clients.
\<close>

end
